(* ===== verification/Prelude.thy ===== *)
theory Prelude
  imports "HOL-Library.Word" "HOL-Library.Monad_Syntax"
begin

text \<open>
  Shared vocabulary of the development: names for the fixed-width integers of the C code,
  checked array accesses, the treatment of \<^verbatim>\<open>assert\<close>, and the generic lemmas on
  lists and words that the component theories use.

  Every C function that can hit a failing \<^verbatim>\<open>assert\<close>, an out-of-bounds access or a
  division by zero is modelled with a result of type \<open>'a option\<close>: \<open>None\<close> means that
  the program aborts or that its behaviour is undefined, \<open>Some r\<close> that it returns \<open>r\<close>.
  Claims that a function returns are therefore claims that its result is \<open>Some\<close>.
\<close>

unbundle bit_operations_syntax

type_synonym u8 = "8 word"
type_synonym u16 = "16 word"
type_synonym u32 = "32 word"
type_synonym u64 = "64 word"

named_theorems c_defs \<open>definitions of the checked primitives\<close>
named_theorems c_eval \<open>facts that evaluate the checked primitives under their side conditions\<close>

section \<open>Assertions and checked accesses\<close>

definition c_assert :: "bool \<Rightarrow> unit option" where
  [c_defs]: "c_assert P = (if P then Some () else None)"

lemma c_assert_True [simp]: "c_assert True = Some ()"
  and c_assert_False [simp]: "c_assert False = None"
  by (simp_all add: c_assert_def)

lemma c_assert_Some_iff [simp]: "c_assert P = Some u \<longleftrightarrow> P"
  by (simp add: c_assert_def)

lemma c_assertI [c_eval]: "P \<Longrightarrow> c_assert P = Some ()"
  by (simp add: c_assert_def)

text \<open>Reading and writing one element of an array.\<close>

definition c_nth :: "'a list \<Rightarrow> nat \<Rightarrow> 'a option" where
  [c_defs]: "c_nth xs i = (if i < length xs then Some (xs ! i) else None)"

definition c_upd :: "'a list \<Rightarrow> nat \<Rightarrow> 'a \<Rightarrow> 'a list option" where
  [c_defs]: "c_upd xs i v = (if i < length xs then Some (xs[i := v]) else None)"

lemma c_nthI [c_eval]: "i < length xs \<Longrightarrow> c_nth xs i = Some (xs ! i)"
  by (simp add: c_nth_def)

lemma c_updI [c_eval]: "i < length xs \<Longrightarrow> c_upd xs i v = Some (xs[i := v])"
  by (simp add: c_upd_def)

lemma c_nth_Some_iff: "c_nth xs i = Some v \<longleftrightarrow> i < length xs \<and> xs ! i = v"
  by (simp add: c_nth_def)

text \<open>\<^verbatim>\<open>memcpy\<close> into the start of an array, and the first \<open>n\<close> elements of an array as its source.\<close>

definition c_memcpy :: "'a list \<Rightarrow> 'a list \<Rightarrow> 'a list option" where
  [c_defs]: "c_memcpy dst bs = (if length bs \<le> length dst then Some (bs @ drop (length bs) dst) else None)"

definition c_take :: "nat \<Rightarrow> 'a list \<Rightarrow> 'a list option" where
  [c_defs]: "c_take n xs = (if n \<le> length xs then Some (take n xs) else None)"

lemma c_memcpyI [c_eval]: "length bs \<le> length dst \<Longrightarrow> c_memcpy dst bs = Some (bs @ drop (length bs) dst)"
  by (simp add: c_memcpy_def)

lemma c_takeI [c_eval]: "n \<le> length xs \<Longrightarrow> c_take n xs = Some (take n xs)"
  by (simp add: c_take_def)

text \<open>The short-circuit operators of C over operands that may fail.\<close>

definition c_or :: "bool option \<Rightarrow> bool option \<Rightarrow> bool option" where
  [c_defs]: "c_or a b = (case a of None \<Rightarrow> None | Some True \<Rightarrow> Some True | Some False \<Rightarrow> b)"

definition c_and :: "bool option \<Rightarrow> bool option \<Rightarrow> bool option" where
  [c_defs]: "c_and a b = (case a of None \<Rightarrow> None | Some True \<Rightarrow> b | Some False \<Rightarrow> Some False)"

lemma c_or_simps [simp]:
  "c_or (Some True) b = Some True" "c_or (Some False) b = b" "c_or None b = None"
  "c_or (Some x) (Some y) = Some (x \<or> y)"
  by (simp_all add: c_or_def split: bool.split)

lemma c_and_simps [simp]:
  "c_and (Some True) b = b" "c_and (Some False) b = Some False" "c_and None b = None"
  "c_and (Some x) (Some y) = Some (x \<and> y)"
  by (simp_all add: c_and_def split: bool.split)

section \<open>C strings\<close>

text \<open>
  A pointer to characters is modelled by the bytes of the object it points to. \<open>c_strz s\<close> is the
  object a library allocates for a string of contents \<open>s\<close>; \<open>c_content\<close> reads up to the
  terminator, which must exist; \<open>c_streq\<close> is \<^verbatim>\<open>!strcmp(a, b)\<close>.
\<close>

definition c_str :: "string \<Rightarrow> u8 list" where
  "c_str s = map of_char s"

definition is_c_str :: "u8 list \<Rightarrow> bool" where
  "is_c_str s \<longleftrightarrow> 0 \<in> set s"

definition c_strz :: "u8 list \<Rightarrow> u8 list" where
  "c_strz s = s @ [0]"

definition c_content :: "u8 list \<Rightarrow> u8 list option" where
  "c_content s = (if is_c_str s then Some (takeWhile (\<lambda>c. c \<noteq> 0) s) else None)"

definition c_streq :: "u8 list \<Rightarrow> u8 list \<Rightarrow> bool option" where
  "c_streq a b = do {
     x \<leftarrow> c_content a;
     y \<leftarrow> c_content b;
     Some (x = y)
   }"

lemma is_c_str_strz [simp]: "is_c_str (c_strz s)"
  by (simp add: is_c_str_def c_strz_def)

lemma c_content_total: "is_c_str s \<Longrightarrow> \<exists>c. c_content s = Some c"
  by (simp add: c_content_def)

lemma c_streq_total: "is_c_str a \<Longrightarrow> is_c_str b \<Longrightarrow> \<exists>r. c_streq a b = Some r"
  by (simp add: c_content_def c_streq_def)

section \<open>Storing a block of bytes\<close>

definition list_put :: "'a list \<Rightarrow> nat \<Rightarrow> 'a list \<Rightarrow> 'a list" where
  "list_put xs k bs = take k xs @ bs @ drop (k + length bs) xs"

lemma length_list_put [simp]:
  "k + length bs \<le> length xs \<Longrightarrow> length (list_put xs k bs) = length xs"
  by (simp add: list_put_def)

lemma nth_list_put:
  assumes "k + length bs \<le> length xs" and "i < length xs"
  shows "list_put xs k bs ! i = (if k \<le> i \<and> i < k + length bs then bs ! (i - k) else xs ! i)"
  using assms by (auto simp: list_put_def nth_append min_def)

lemma list_put_Nil [simp]: "list_put xs k [] = xs"
  by (simp add: list_put_def)

lemma take_list_put [simp]:
  "k + length bs \<le> length xs \<Longrightarrow> n \<le> k \<Longrightarrow> take n (list_put xs k bs) = take n xs"
  by (simp add: list_put_def min_def)

lemma list_put_single: "i < length xs \<Longrightarrow> list_put xs i [v] = xs[i := v]"
  by (simp add: list_put_def upd_conv_take_nth_drop)

section \<open>Limits of the platform\<close>

definition SSIZE_MAX :: nat where
  "SSIZE_MAX = 2 ^ 63 - 1"

section \<open>Option-valued computations\<close>

lemma bind_Some_iff: "Option.bind m f = Some r \<longleftrightarrow> (\<exists>x. m = Some x \<and> f x = Some r)"
  by (cases m) auto

lemma bind_Some_elim:
  assumes "Option.bind m f = Some r"
  obtains x where "m = Some x" and "f x = Some r"
  using assms by (auto simp: bind_Some_iff)

lemma ex_bool [simp]:
  "\<exists>ok. ok" "\<exists>ok. \<not> ok" "(\<exists>ok. \<not> ok \<and> Q ok) \<longleftrightarrow> Q False" "(\<exists>ok. ok \<and> Q ok) \<longleftrightarrow> Q True"
  by (blast, blast, metis (full_types), metis (full_types))

section \<open>Words\<close>

lemma unat_less_len [simp]:
  "unat (x :: u8) < 256" "unat (y :: u16) < 65536" "unat (z :: u32) < 4294967296"
  using unsigned_less [of x] unsigned_less [of y] unsigned_less [of z] by simp_all

lemma unat_le_max [simp]:
  "unat (x :: u8) \<le> 255" "unat (y :: u16) \<le> 65535" "unat (z :: u32) \<le> 4294967295"
  using unat_less_len(1) [of x] unat_less_len(2) [of y] unat_less_len(3) [of z] by linarith+

lemma unat_ucast_up [simp]:
  fixes x :: "'a::len word"
  assumes "LENGTH('a) \<le> LENGTH('b::len)"
  shows "unat (ucast x :: 'b word) = unat x"
proof -
  have "unat x < 2 ^ LENGTH('a)" by (rule unsigned_less)
  also have "(2 :: nat) ^ LENGTH('a) \<le> 2 ^ LENGTH('b)" using assms by simp
  finally show ?thesis by (simp add: unsigned_ucast_eq take_bit_nat_eq_self)
qed

lemma word_le_mod_less:
  fixes a b :: "'a::len word"
  assumes "0 < b"
  shows "a mod b < b"
  using assms by (rule word_mod_less_divisor)

end
