(* ===== verification/Linked_List.thy ===== *)
theory Linked_List
  imports Prelude
begin

text \<open>
  Model of \<^verbatim>\<open>adsbus/list.c\<close> and of the iteration macros of \<^verbatim>\<open>adsbus/list.h\<close> on an explicit heap:
  circular doubly linked lists threaded through the structures they link. The operations refine
  appending to and removing from a HOL list, which is how the other theories represent the
  lists of peers, connections and timers.
\<close>

section \<open>The heap\<close>

text \<open>
  An address is a number. A structure is represented by its \<^verbatim>\<open>list_head\<close> member, so that
  \<^verbatim>\<open>container_of\<close> is the identity. A null pointer is \<open>None\<close>; an access through a null pointer or
  to memory that is not allocated gives \<open>None\<close>.
\<close>

type_synonym addr = nat

record list_head =
  lh_next :: "addr option"
  lh_prev :: "addr option"

type_synonym heap = "addr \<Rightarrow> list_head option"

definition load_next :: "heap \<Rightarrow> addr \<Rightarrow> addr option" where
  "load_next h a = Option.bind (h a) lh_next"

definition load_prev :: "heap \<Rightarrow> addr \<Rightarrow> addr option" where
  "load_prev h a = Option.bind (h a) lh_prev"

definition store_next :: "addr \<Rightarrow> addr option \<Rightarrow> heap \<Rightarrow> heap option" where
  "store_next a v h = map_option (\<lambda>c. h(a \<mapsto> c\<lparr>lh_next := v\<rparr>)) (h a)"

definition store_prev :: "addr \<Rightarrow> addr option \<Rightarrow> heap \<Rightarrow> heap option" where
  "store_prev a v h = map_option (\<lambda>c. h(a \<mapsto> c\<lparr>lh_prev := v\<rparr>)) (h a)"

text \<open>\<^verbatim>\<open>malloc\<close> and \<^verbatim>\<open>free\<close> of a structure; the links of new memory are arbitrary.\<close>

definition heap_free :: "addr \<Rightarrow> heap \<Rightarrow> heap option" where
  "heap_free a h = (if h a = None then None else Some (h(a := None)))"

section \<open>Operations\<close>

definition list_head_init :: "addr \<Rightarrow> heap \<Rightarrow> heap option" where
  "list_head_init head h = do {
     h \<leftarrow> store_prev head (Some head) h;
     store_next head (Some head) h
   }"

definition list_is_empty :: "addr \<Rightarrow> heap \<Rightarrow> bool option" where
  "list_is_empty head h = map_option (\<lambda>c. lh_next c = Some head) (h head)"

definition list_add :: "addr \<Rightarrow> addr \<Rightarrow> heap \<Rightarrow> heap option" where
  "list_add new head h = do {
     h \<leftarrow> store_next new (Some head) h;
     p \<leftarrow> load_prev h head;
     h \<leftarrow> store_prev new (Some p) h;
     p \<leftarrow> load_prev h new;
     h \<leftarrow> store_next p (Some new) h;
     store_prev head (Some new) h
   }"

definition list_del :: "addr \<Rightarrow> heap \<Rightarrow> heap option" where
  "list_del entry h = do {
     n \<leftarrow> load_next h entry;
     p \<leftarrow> load_prev h entry;
     h \<leftarrow> store_prev n (Some p) h;
     p \<leftarrow> load_prev h entry;
     n \<leftarrow> load_next h entry;
     h \<leftarrow> store_next p (Some n) h;
     h \<leftarrow> store_next entry None h;
     store_prev entry None h
   }"

text \<open>
  The two iteration macros over a body that may change the heap and other state. The result
  \<open>None\<close> stands for a failing body, an access that is not allowed and an endless iteration.
\<close>

partial_function (option) for_each_loop ::
    "(addr \<Rightarrow> heap \<times> 's \<Rightarrow> (heap \<times> 's) option) \<Rightarrow> addr \<Rightarrow> addr \<Rightarrow> heap \<times> 's \<Rightarrow> (heap \<times> 's) option" where
  "for_each_loop body head pos w =
     (if pos = head then Some w
      else do {
        w \<leftarrow> body pos w;
        pos \<leftarrow> load_next (fst w) pos;
        for_each_loop body head pos w
      })"

definition list_for_each_entry ::
    "(addr \<Rightarrow> heap \<times> 's \<Rightarrow> (heap \<times> 's) option) \<Rightarrow> addr \<Rightarrow> heap \<times> 's \<Rightarrow> (heap \<times> 's) option" where
  "list_for_each_entry body head w = do {
     pos \<leftarrow> load_next (fst w) head;
     for_each_loop body head pos w
   }"

partial_function (option) for_each_safe_loop ::
    "(addr \<Rightarrow> heap \<times> 's \<Rightarrow> (heap \<times> 's) option) \<Rightarrow> addr \<Rightarrow> addr \<Rightarrow> addr \<Rightarrow> heap \<times> 's \<Rightarrow> (heap \<times> 's) option" where
  "for_each_safe_loop body head pos n w =
     (if pos = head then Some w
      else do {
        w \<leftarrow> body pos w;
        n' \<leftarrow> load_next (fst w) n;
        for_each_safe_loop body head n n' w
      })"

definition list_for_each_entry_safe ::
    "(addr \<Rightarrow> heap \<times> 's \<Rightarrow> (heap \<times> 's) option) \<Rightarrow> addr \<Rightarrow> heap \<times> 's \<Rightarrow> (heap \<times> 's) option" where
  "list_for_each_entry_safe body head w = do {
     pos \<leftarrow> load_next (fst w) head;
     n \<leftarrow> load_next (fst w) pos;
     for_each_safe_loop body head pos n w
   }"

section \<open>The list a head represents\<close>

text \<open>Consecutive addresses point to each other.\<close>

fun linked :: "heap \<Rightarrow> addr list \<Rightarrow> bool" where
  "linked h (a # b # as) \<longleftrightarrow> load_next h a = Some b \<and> load_prev h b = Some a \<and> linked h (b # as)"
| "linked h as \<longleftrightarrow> True"

definition is_list :: "heap \<Rightarrow> addr \<Rightarrow> addr list \<Rightarrow> bool" where
  "is_list h head xs \<longleftrightarrow> distinct (head # xs) \<and> linked h (head # xs @ [head])"

lemma linked_append:
  "linked h (as @ b # cs) \<longleftrightarrow> linked h (as @ [b]) \<and> linked h (b # cs)"
  by (induction h "as" rule: linked.induct) simp_all

lemma linked_mid:
  "linked h (as @ a # b # cs) \<longleftrightarrow>
     linked h (as @ [a]) \<and> load_next h a = Some b \<and> load_prev h b = Some a \<and> linked h (b # cs)"
  using linked_append [of h "as" a "b # cs"] by simp

lemma linked_cong:
  assumes "\<forall>x \<in> set (butlast xs). load_next h' x = load_next h x" and "\<forall>x \<in> set (tl xs). load_prev h' x = load_prev h x"
  shows "linked h' xs = linked h xs"
  using assms by (induction h xs rule: linked.induct) auto

lemma load_allocated:
  "load_next h a = Some b \<Longrightarrow> h a \<noteq> None" "load_prev h a = Some b \<Longrightarrow> h a \<noteq> None"
  by (auto simp: load_next_def load_prev_def bind_eq_Some_conv)

text \<open>Every list has a last element before the head and a first one after it.\<close>

lemma list_last: obtains as p where "head # xs = as @ [p]"
  by (metis list.distinct(1) rev_exhaust)

lemma list_first: obtains n bs where "xs @ [head] = n # bs"
  by (metis Nil_is_append_conv list.exhaust not_Cons_self2)

section \<open>What the operations do\<close>

lemma store_next_eff:
  assumes "h a \<noteq> None"
  obtains h' where "store_next a v h = Some h'" "load_next h' = (load_next h)(a := v)" "load_prev h' = load_prev h"
    "dom h' = dom h"
proof -
  from assms obtain c where "h a = Some c" by auto
  then show thesis
    by (intro that [of "h(a \<mapsto> c\<lparr>lh_next := v\<rparr>)"]) (auto simp: store_next_def load_next_def load_prev_def fun_eq_iff)
qed

lemma store_prev_eff:
  assumes "h a \<noteq> None"
  obtains h' where "store_prev a v h = Some h'" "load_prev h' = (load_prev h)(a := v)" "load_next h' = load_next h"
    "dom h' = dom h"
proof -
  from assms obtain c where "h a = Some c" by auto
  then show thesis
    by (intro that [of "h(a \<mapsto> c\<lparr>lh_prev := v\<rparr>)"]) (auto simp: store_prev_def load_next_def load_prev_def fun_eq_iff)
qed

lemma list_add_eff:
  assumes "h new \<noteq> None" and "load_prev h head = Some p" and "h p \<noteq> None" and "new \<noteq> head"
  obtains h' where "list_add new head h = Some h'" "load_next h' = (load_next h)(new := Some head, p := Some new)"
    "load_prev h' = (load_prev h)(new := Some p, head := Some new)" "dom h' = dom h"
proof -
  have hd: "h head \<noteq> None" using load_allocated(2) [OF assms(2)] .
  obtain h1 where h1: "store_next new (Some head) h = Some h1" "load_next h1 = (load_next h)(new := Some head)"
    "load_prev h1 = load_prev h" "dom h1 = dom h" using store_next_eff [where h = h, OF assms(1)] .
  have "h1 new \<noteq> None" using assms(1) h1(4) by blast
  then obtain h2 where h2: "store_prev new (Some p) h1 = Some h2" "load_prev h2 = (load_prev h1)(new := Some p)"
    "load_next h2 = load_next h1" "dom h2 = dom h1" using store_prev_eff by blast
  have "h2 p \<noteq> None" using assms(3) h1(4) h2(4) by blast
  then obtain h3 where h3: "store_next p (Some new) h2 = Some h3" "load_next h3 = (load_next h2)(p := Some new)"
    "load_prev h3 = load_prev h2" "dom h3 = dom h2" using store_next_eff by blast
  have "h3 head \<noteq> None" using hd h1(4) h2(4) h3(4) by blast
  then obtain h4 where h4: "store_prev head (Some new) h3 = Some h4" "load_prev h4 = (load_prev h3)(head := Some new)"
    "load_next h4 = load_next h3" "dom h4 = dom h3" using store_prev_eff by blast
  show thesis
    using h1 h2 h3 h4 assms(2) by (intro that [of h4]) (simp_all add: list_add_def)
qed

lemma list_del_eff:
  assumes "load_next h e = Some n" and "load_prev h e = Some p" and "h n \<noteq> None" and "h p \<noteq> None"
    and "n \<noteq> e" and "p \<noteq> e"
  obtains h' where "list_del e h = Some h'" "load_next h' = (load_next h)(p := Some n, e := None)"
    "load_prev h' = (load_prev h)(n := Some p, e := None)" "dom h' = dom h"
proof -
  have he: "h e \<noteq> None" using load_allocated(1) [OF assms(1)] .
  obtain h1 where h1: "store_prev n (Some p) h = Some h1" "load_prev h1 = (load_prev h)(n := Some p)"
    "load_next h1 = load_next h" "dom h1 = dom h" using store_prev_eff [where h = h, OF assms(3)] .
  have "h1 p \<noteq> None" using assms(4) h1(4) by blast
  then obtain h2 where h2: "store_next p (Some n) h1 = Some h2" "load_next h2 = (load_next h1)(p := Some n)"
    "load_prev h2 = load_prev h1" "dom h2 = dom h1" using store_next_eff by blast
  have "h2 e \<noteq> None" using he h1(4) h2(4) by blast
  then obtain h3 where h3: "store_next e None h2 = Some h3" "load_next h3 = (load_next h2)(e := None)"
    "load_prev h3 = load_prev h2" "dom h3 = dom h2" using store_next_eff by blast
  have "h3 e \<noteq> None" using he h1(4) h2(4) h3(4) by blast
  then obtain h4 where h4: "store_prev e None h3 = Some h4" "load_prev h4 = (load_prev h3)(e := None)"
    "load_next h4 = load_next h3" "dom h4 = dom h3" using store_prev_eff by blast
  show thesis
    using h1 h2 h3 h4 assms by (intro that [of h4]) (simp_all add: list_del_def)
qed

section \<open>Refinement of HOL lists\<close>

lemma list_head_init_spec:
  assumes "h head \<noteq> None"
  shows "\<exists>h'. list_head_init head h = Some h' \<and> is_list h' head [] \<and> dom h' = dom h"
proof -
  obtain h1 where h1: "store_prev head (Some head) h = Some h1" "load_prev h1 = (load_prev h)(head := Some head)"
    "load_next h1 = load_next h" "dom h1 = dom h" using store_prev_eff [where h = h, OF assms] .
  have "h1 head \<noteq> None" using assms h1(4) by blast
  then obtain h2 where h2: "store_next head (Some head) h1 = Some h2" "load_next h2 = (load_next h1)(head := Some head)"
    "load_prev h2 = load_prev h1" "dom h2 = dom h1" using store_next_eff by blast
  show ?thesis using h1 h2 by (simp add: list_head_init_def is_list_def)
qed

lemma list_is_empty_spec: "is_list h head xs \<Longrightarrow> list_is_empty head h = Some (xs = [])"
  by (cases xs) (auto simp: is_list_def list_is_empty_def load_next_def bind_eq_Some_conv)

lemma list_add_spec:
  assumes l: "is_list h head xs" and new: "h new \<noteq> None" "new \<notin> set (head # xs)"
  shows "\<exists>h'. list_add new head h = Some h' \<and> is_list h' head (xs @ [new]) \<and> dom h' = dom h"
proof -
  obtain as' p where p: "head # xs = as' @ [p]" using list_last .
  have d: "distinct (as' @ [p])" "new \<notin> set (as' @ [p])" "head \<in> set (as' @ [p])"
    using l new(2) unfolding is_list_def p [symmetric] by simp_all
  have eq: "head # xs @ [head] = as' @ p # head # []" using arg_cong [OF p, of "\<lambda>l. l @ [head]"] by simp
  have "linked h (as' @ p # head # [])" using l unfolding is_list_def eq by simp
  then have lk: "linked h (as' @ [p])" "load_next h p = Some head" "load_prev h head = Some p"
    unfolding linked_mid by simp_all
  have hp: "h p \<noteq> None" using load_allocated(1) [OF lk(2)] .
  have nh: "new \<noteq> head" using new(2) by auto
  from list_add_eff [OF new(1) lk(3) hp nh] obtain h' where h': "list_add new head h = Some h'"
    "load_next h' = (load_next h)(new := Some head, p := Some new)"
    "load_prev h' = (load_prev h)(new := Some p, head := Some new)" "dom h' = dom h" .
  have tl: "tl (as' @ [p]) = xs" using arg_cong [OF p, of tl] by simp
  have "head \<notin> set xs" using l by (simp add: is_list_def)
  then have "\<forall>x \<in> set (tl (as' @ [p])). load_prev h' x = load_prev h x"
    unfolding tl using new(2) by (auto simp: h'(3))
  moreover have "\<forall>x \<in> set (butlast (as' @ [p])). load_next h' x = load_next h x"
    using d by (auto simp: h'(2))
  ultimately have "linked h' (as' @ [p])" using lk(1) linked_cong [of "as' @ [p]" h' h] by blast
  then have "linked h' (as' @ p # new # [head])"
    unfolding linked_mid using d nh by (auto simp: h'(2,3))
  moreover have "head # (xs @ [new]) @ [head] = as' @ p # new # [head]"
    using arg_cong [OF p, of "\<lambda>l. l @ [new, head]"] by simp
  ultimately have "linked h' (head # (xs @ [new]) @ [head])" by metis
  moreover have "distinct (head # xs @ [new])" using l new(2) by (simp add: is_list_def)
  ultimately show ?thesis using h'(1,4) by (auto simp: is_list_def)
qed

lemma list_del_spec:
  assumes l: "is_list h head (ys @ e # zs)"
  shows "\<exists>h'. list_del e h = Some h' \<and> is_list h' head (ys @ zs) \<and> dom h' = dom h"
proof -
  obtain as' p where p: "head # ys = as' @ [p]" using list_last .
  obtain n bs where n: "zs @ [head] = n # bs" using list_first .
  have eq: "head # (ys @ e # zs) @ [head] = as' @ p # e # n # bs"
    using arg_cong [OF p, of "\<lambda>l. l @ e # zs @ [head]"] n by simp
  have lk: "linked h (as' @ [p])" "load_next h p = Some e" "load_prev h e = Some p" "load_next h e = Some n"
    "load_prev h n = Some e" "linked h (n # bs)"
    using l unfolding is_list_def eq linked_mid linked.simps by blast+
  have "distinct ((head # ys) @ e # zs)" "distinct (e # zs @ [head])" using l by (auto simp: is_list_def)
  then have dist: "distinct (as' @ p # e # zs)" "distinct (e # n # bs)" "head \<notin> set ys" "head \<notin> set zs"
    using l unfolding p n by (auto simp: is_list_def)
  have tl: "tl (as' @ [p]) = ys" "butlast (n # bs) = zs"
    using arg_cong [OF p, of tl] arg_cong [OF n, of butlast] by simp_all
  have ne: "n \<noteq> e" "p \<noteq> e" using dist(1,2) by auto
  have hn: "h n \<noteq> None" "h p \<noteq> None" using load_allocated lk(2,5) by blast+
  from list_del_eff [OF lk(4,3) hn ne] obtain h' where h': "list_del e h = Some h'"
    "load_next h' = (load_next h)(p := Some n, e := None)" "load_prev h' = (load_prev h)(n := Some p, e := None)"
    "dom h' = dom h" .
  have n_ys: "n \<notin> set ys"
    using dist l n by (cases zs) (auto simp: is_list_def)
  have "linked h' (as' @ [p])"
    using lk(1) dist l n_ys by (subst linked_cong [of _ h' h]) (auto simp: h'(2,3) tl(1) is_list_def)
  moreover have "p \<notin> set zs" using dist(1) by simp
  then have "linked h' (n # bs)"
    using lk(6) dist by (subst linked_cong [of _ h' h]) (auto simp: h'(2,3) tl(2) simp del: butlast.simps)
  ultimately have "linked h' (as' @ p # n # bs)"
    unfolding linked_mid using ne by (simp add: h'(2,3))
  moreover have "head # (ys @ zs) @ [head] = as' @ p # n # bs"
    using arg_cong [OF p, of "\<lambda>l. l @ zs @ [head]"] by (simp add: n)
  ultimately have "linked h' (head # (ys @ zs) @ [head])" by metis
  then show ?thesis using h'(1,4) l by (auto simp: is_list_def)
qed

lemma is_list_split:
  assumes "is_list h head (ys @ x # zs)"
  shows "load_next h x = Some (hd (zs @ [head]))" and "x \<noteq> head"
proof -
  obtain n bs where n: "zs @ [head] = n # bs" using list_first .
  have "head # (ys @ x # zs) @ [head] = (head # ys) @ x # n # bs" using n by simp
  then have "linked h ((head # ys) @ x # n # bs)" using assms unfolding is_list_def by metis
  then show "load_next h x = Some (hd (zs @ [head]))" unfolding linked_mid by (simp add: n)
  show "x \<noteq> head" using assms by (auto simp: is_list_def)
qed

lemma is_list_first:
  assumes "is_list h head xs"
  shows "load_next h head = Some (hd (xs @ [head]))"
  using assms by (cases xs) (auto simp: is_list_def)

lemma is_list_remove:
  assumes "is_list h head xs" and "e \<in> set xs"
  shows "\<exists>h'. list_del e h = Some h' \<and> is_list h' head (filter (\<lambda>q. q \<noteq> e) xs) \<and> dom h' = dom h"
proof -
  obtain ys zs where xs: "xs = ys @ e # zs" using split_list [OF assms(2)] by blast
  then have "e \<notin> set ys" "e \<notin> set zs" using assms(1) by (auto simp: is_list_def)
  then have "filter (\<lambda>q. q \<noteq> e) ys = ys" "filter (\<lambda>q. q \<noteq> e) zs = zs" by (auto intro!: filter_True)
  then have "filter (\<lambda>q. q \<noteq> e) xs = ys @ zs" by (simp add: xs)
  then show ?thesis using list_del_spec [of h head ys e zs] assms(1) by (simp add: xs)
qed

text \<open>Memory that is not on the list does not matter.\<close>

lemma is_list_frame:
  assumes "is_list h head xs" and "\<forall>x \<in> set (head # xs). h' x = h x"
  shows "is_list h' head xs"
proof -
  have eq: "load_next h' x = load_next h x" "load_prev h' x = load_prev h x" if "x \<in> set (head # xs)" for x
    using bspec [OF assms(2) that] by (simp_all add: load_next_def load_prev_def)
  have "set (head # xs @ [head]) = set (head # xs)" by auto
  then have "linked h' (head # xs @ [head]) = linked h (head # xs @ [head])"
    using eq by (intro linked_cong) (metis in_set_butlastD, metis list.set_sel(2) list.distinct(1))
  then show ?thesis using assms(1) by (simp add: is_list_def)
qed

section \<open>Iteration\<close>

text \<open>
  The contract of a loop body: it may change the state as \<open>step\<close> says, and may unlink and free
  the current element (when \<open>keep\<close> is false) but no other.
\<close>

locale loop_body =
  fixes body :: "addr \<Rightarrow> heap \<times> 's \<Rightarrow> (heap \<times> 's) option"
    and head :: addr
    and keep :: "addr \<Rightarrow> 's \<Rightarrow> bool"
    and step :: "addr \<Rightarrow> 's \<Rightarrow> 's"
  assumes body_returns:
    "is_list h head (ys @ x # zs) \<Longrightarrow>
       \<exists>h'. body x (h, s) = Some (h', step x s) \<and> is_list h' head (ys @ (if keep x s then [x] else []) @ zs) \<and>
         dom h' = dom h - (if keep x s then {} else {x})"
begin

text \<open>What is left of the list.\<close>

fun kept :: "addr list \<Rightarrow> 's \<Rightarrow> addr list" where
  "kept [] s = []"
| "kept (x # xs) s = (if keep x s then [x] else []) @ kept xs (step x s)"

lemma kept_subset: "set (kept xs s) \<subseteq> set xs"
  by (induction xs arbitrary: s) auto

lemma safe_loop:
  assumes "is_list h head (ys @ xs)" and "n = hd (tl (xs @ [head, hd ((ys @ xs) @ [head])]))"
  shows "\<exists>h'. for_each_safe_loop body head (hd (xs @ [head])) n (h, s) = Some (h', fold step xs s) \<and>
    is_list h' head (ys @ kept xs s) \<and> dom h' = dom h - (set xs - set (kept xs s))"
  using assms
proof (induction xs arbitrary: h ys n s)
  case Nil
  then show ?case by (simp add: for_each_safe_loop.simps)
next
  case (Cons x xs)
  have x: "x \<noteq> head" using is_list_split(2) Cons.prems(1) by simp
  from body_returns [OF Cons.prems(1), of s] obtain h1 where
    b: "body x (h, s) = Some (h1, step x s)" "is_list h1 head ((ys @ (if keep x s then [x] else [])) @ xs)"
      "dom h1 = dom h - (if keep x s then {} else {x})" by auto
  define ys' where "ys' = ys @ (if keep x s then [x] else [])"
  have l1: "is_list h1 head (ys' @ xs)" using b(2) by (simp add: ys'_def)
  have n: "n = hd (xs @ [head])" using Cons.prems(2) by (cases xs) simp_all
  define m where "m = hd (tl (xs @ [head, hd ((ys' @ xs) @ [head])]))"
  have "load_next h1 n = Some m"
  proof (cases xs)
    case Nil
    then show ?thesis using is_list_first [OF l1] by (simp add: n m_def)
  next
    case (Cons z zs)
    then have "load_next h1 z = Some (hd (zs @ [head]))" using is_list_split(1) [of h1 head ys' z zs] l1 by simp
    then show ?thesis using Cons by (cases zs) (simp_all add: n m_def)
  qed
  then have go: "for_each_safe_loop body head (hd ((x # xs) @ [head])) n (h, s) =
      for_each_safe_loop body head (hd (xs @ [head])) m (h1, step x s)"
    using x b(1) by (subst for_each_safe_loop.simps) (simp add: n)
  from Cons.IH [OF l1 m_def, of "step x s"] obtain h' where
    "for_each_safe_loop body head (hd (xs @ [head])) m (h1, step x s) = Some (h', fold step xs (step x s))"
    "is_list h' head (ys' @ kept xs (step x s))" "dom h' = dom h1 - (set xs - set (kept xs (step x s)))" by blast
  moreover have "x \<notin> set xs" using Cons.prems(1) by (auto simp: is_list_def)
  ultimately show ?case
    using b(3) kept_subset [of xs "step x s"] unfolding go by (auto simp: ys'_def)
qed

text \<open>The safe iteration visits every element once, in order, whatever the body unlinks.\<close>

lemma safe_iteration:
  assumes "is_list h head xs"
  shows "\<exists>h'. list_for_each_entry_safe body head (h, s) = Some (h', fold step xs s) \<and>
    is_list h' head (kept xs s) \<and> dom h' = dom h - (set xs - set (kept xs s))"
proof -
  define n where "n = hd (tl (xs @ [head, hd (([] @ xs) @ [head])]))"
  have "load_next h (hd (xs @ [head])) = Some n"
  proof (cases xs)
    case Nil
    then show ?thesis using is_list_first [OF assms] by (simp add: n_def)
  next
    case (Cons z zs)
    then have "load_next h z = Some (hd (zs @ [head]))" using is_list_split(1) [of h head "[]" z zs] assms by simp
    then show ?thesis using Cons by (cases zs) (simp_all add: n_def)
  qed
  then have "list_for_each_entry_safe body head (h, s) = for_each_safe_loop body head (hd (xs @ [head])) n (h, s)"
    using is_list_first [OF assms] by (simp add: list_for_each_entry_safe_def)
  moreover from assms have "is_list h head ([] @ xs)" by simp
  from safe_loop [OF this n_def, of s] obtain h' where
    "for_each_safe_loop body head (hd (xs @ [head])) n (h, s) = Some (h', fold step xs s)"
    "is_list h' head ([] @ kept xs s)" "dom h' = dom h - (set xs - set (kept xs s))" by blast
  ultimately show ?thesis by simp
qed

text \<open>The plain iteration does too when the body keeps every element.\<close>

lemma plain_loop:
  assumes "\<forall>x s. keep x s" and "is_list h head (ys @ xs)"
  shows "\<exists>h'. for_each_loop body head (hd (xs @ [head])) (h, s) = Some (h', fold step xs s) \<and> is_list h' head (ys @ xs)"
  using assms(2)
proof (induction xs arbitrary: h ys s)
  case Nil
  then show ?case by (simp add: for_each_loop.simps)
next
  case (Cons x xs)
  have x: "x \<noteq> head" using is_list_split(2) Cons.prems by simp
  from body_returns [OF Cons.prems, of s] assms(1) obtain h1 where
    b: "body x (h, s) = Some (h1, step x s)" "is_list h1 head (ys @ x # xs)" by auto
  then have "load_next h1 x = Some (hd (xs @ [head]))" using is_list_split(1) by blast
  then have go: "for_each_loop body head (hd ((x # xs) @ [head])) (h, s) =
      for_each_loop body head (hd (xs @ [head])) (h1, step x s)"
    using x b(1) by (subst for_each_loop.simps) simp
  have "is_list h1 head ((ys @ [x]) @ xs)" using b(2) by simp
  from Cons.IH [OF this, of "step x s"] show ?case unfolding go by simp
qed

lemma plain_iteration:
  assumes "\<forall>x s. keep x s" and "is_list h head xs"
  shows "\<exists>h'. list_for_each_entry body head (h, s) = Some (h', fold step xs s) \<and> is_list h' head xs"
proof -
  have "is_list h head ([] @ xs)" using assms(2) by simp
  from plain_loop [OF assms(1) this, of s] show ?thesis
    using is_list_first [OF assms(2)] by (simp add: list_for_each_entry_def)
qed

end

text \<open>
  The bodies of the program: a cleanup loop unlinks the current structure, does something with the
  rest of the state and frees the structure; a distribution loop touches no link.
\<close>

definition cleanup_body :: "(addr \<Rightarrow> 's \<Rightarrow> 's) \<Rightarrow> addr \<Rightarrow> heap \<times> 's \<Rightarrow> (heap \<times> 's) option" where
  "cleanup_body step x w = do {
     h \<leftarrow> list_del x (fst w);
     let s = step x (snd w);
     h \<leftarrow> heap_free x h;
     Some (h, s)
   }"

definition visit_body :: "(addr \<Rightarrow> 's \<Rightarrow> 's) \<Rightarrow> addr \<Rightarrow> heap \<times> 's \<Rightarrow> (heap \<times> 's) option" where
  "visit_body step x w = Some (fst w, step x (snd w))"

interpretation cleanup: loop_body "cleanup_body step" head "\<lambda>x s. False" step for step head
proof
  fix h ys x zs s
  assume l: "is_list h head (ys @ x # zs)"
  from list_del_spec [OF l] obtain h' where d: "list_del x h = Some h'" "is_list h' head (ys @ zs)" "dom h' = dom h" by blast
  have "h x \<noteq> None" using load_allocated(1) is_list_split(1) [OF l] by blast
  then have "h' x \<noteq> None" using d(3) by blast
  moreover have "x \<notin> set (head # ys @ zs)" using l by (auto simp: is_list_def)
  then have "is_list (h'(x := None)) head (ys @ zs)" by (intro is_list_frame [OF d(2)]) auto
  ultimately show "\<exists>h'. cleanup_body step x (h, s) = Some (h', step x s) \<and>
      is_list h' head (ys @ (if False then [x] else []) @ zs) \<and> dom h' = dom h - (if False then {} else {x})"
    using d by (auto simp: cleanup_body_def heap_free_def)
qed

interpretation visit: loop_body "visit_body step" head "\<lambda>x s. True" step for step head
  by unfold_locales (simp add: visit_body_def)

lemma cleanup_kept [simp]: "cleanup.kept step xs s = []"
  by (induction xs arbitrary: s) (simp_all add: cleanup.kept.simps)

section \<open>Properties\<close>

text \<open>A head at address 0 with two elements, and an allocated structure that is on no list.\<close>

definition sample_heap :: heap where
  "sample_heap = [0 \<mapsto> \<lparr>lh_next = Some 1, lh_prev = Some 2\<rparr>, 1 \<mapsto> \<lparr>lh_next = Some 2, lh_prev = Some 0\<rparr>,
     2 \<mapsto> \<lparr>lh_next = Some 0, lh_prev = Some 1\<rparr>, 3 \<mapsto> \<lparr>lh_next = None, lh_prev = None\<rparr>]"

lemma sample_heap_list: "is_list sample_heap 0 [1, 2]"
  by (simp add: is_list_def sample_heap_def load_next_def load_prev_def)

text \<open>
  C26. The pointer operations implement the lists the other theories use: on every well-formed
  circular list, the empty one included, the emptiness test is exact, \<^verbatim>\<open>list_add\<close> appends any allocated structure that is not yet
  on the list, and \<^verbatim>\<open>list_del\<close> filters any element out. None of them follows a dangling or null pointer, and none
  allocates or frees.
\<close>

theorem list_ops_refine:
  assumes "is_list h head xs"
  shows "list_is_empty head h = Some (xs = []) \<and>
    (\<forall>new. h new \<noteq> None \<and> new \<notin> set (head # xs) \<longrightarrow>
       (\<exists>h'. list_add new head h = Some h' \<and> is_list h' head (xs @ [new]) \<and> dom h' = dom h)) \<and>
    (\<forall>e \<in> set xs. \<exists>h'. list_del e h = Some h' \<and> is_list h' head (filter (\<lambda>q. q \<noteq> e) xs) \<and> dom h' = dom h)"
  using assms by (simp add: list_is_empty_spec list_add_spec is_list_remove)

text \<open>On the sample list and on the one that is left once both elements are gone.\<close>

theorem list_ops_refine_witness:
  "list_is_empty 0 sample_heap = Some False \<and>
    (\<exists>h1 h2 h3. list_del 1 sample_heap = Some h1 \<and> is_list h1 0 [2] \<and> list_del 2 h1 = Some h2 \<and> is_list h2 0 [] \<and>
       list_is_empty 0 h2 = Some True \<and> list_add 3 0 h2 = Some h3 \<and> is_list h3 0 [3] \<and> list_is_empty 0 h3 = Some False)"
proof -
  note 0 = list_ops_refine [OF sample_heap_list]
  obtain h1 where h1: "list_del 1 sample_heap = Some h1" "is_list h1 0 [2]" "dom h1 = dom sample_heap" using 0 by auto
  note 1 = list_ops_refine [OF h1(2)]
  obtain h2 where h2: "list_del 2 h1 = Some h2" "is_list h2 0 []" "dom h2 = dom sample_heap" using 1 h1(3) by auto
  note 2 = list_ops_refine [OF h2(2)]
  have "h2 3 \<noteq> None" using h2(3) by (auto simp: sample_heap_def dom_def)
  then obtain h3 where h3: "list_add 3 0 h2 = Some h3" "is_list h3 0 [3]" using 2 by auto
  show ?thesis using 0 2 list_ops_refine [OF h3(2)] h1(1,2) h2(1,2) h3 by auto
qed

text \<open>
  C27. The cleanup loops are memory safe: iterating with \<^verbatim>\<open>list_for_each_entry_safe\<close> over a body that
  unlinks and frees the current structure returns, visits every element once in list order, leaves
  an empty list and frees exactly its elements. The plain macro would read freed memory.
\<close>

theorem list_cleanup_safe:
  assumes "is_list h head xs" and "xs \<noteq> []"
  shows "(\<exists>h'. list_for_each_entry_safe (cleanup_body step) head (h, s) = Some (h', fold step xs s) \<and>
      is_list h' head [] \<and> dom h' = dom h - set xs) \<and>
    list_for_each_entry (cleanup_body step) head (h, s) = None"
proof (rule conjI)
  show "\<exists>h'. list_for_each_entry_safe (cleanup_body step) head (h, s) = Some (h', fold step xs s) \<and>
      is_list h' head [] \<and> dom h' = dom h - set xs"
    using cleanup.safe_iteration [OF assms(1)] by simp
  obtain x zs where xs: "xs = x # zs" using assms(2) by (cases xs) auto
  have first: "load_next h head = Some x" "x \<noteq> head"
    using is_list_first [OF assms(1)] is_list_split(2) [of h head "[]" x zs] assms(1) by (simp_all add: xs)
  from cleanup.body_returns [of h head "[]" x zs step s] assms(1) obtain h' where
    "cleanup_body step x (h, s) = Some (h', step x s)" "dom h' = dom h - {x}" by (auto simp: xs)
  moreover from this(2) have "h' x = None" by blast
  ultimately show "list_for_each_entry (cleanup_body step) head (h, s) = None"
    using first by (simp add: list_for_each_entry_def for_each_loop.simps load_next_def)
qed

theorem list_cleanup_safe_witness:
  "(\<exists>h'. list_for_each_entry_safe (cleanup_body (\<lambda>x s. s @ [x])) 0 (sample_heap, []) =
      Some (h', fold (\<lambda>x s. s @ [x]) [1, 2] []) \<and> is_list h' 0 [] \<and> dom h' = dom sample_heap - set [1, 2]) \<and>
    list_for_each_entry (cleanup_body (\<lambda>x s. s @ [x])) 0 (sample_heap, []) = None"
  by (rule list_cleanup_safe [OF sample_heap_list]) simp

end
