(* ===== verification/Hex.thy ===== *)
theory Hex
  imports Prelude
begin

text \<open>
  Model of \<^verbatim>\<open>adsbus/hex.c\<close>: the decoding table built by \<^verbatim>\<open>hex_init\<close>, decoding to
  bytes and to an integer, encoding from bytes and from an integer. Input pointers are the
  lists of bytes they point to, read with bounds checks; an encoder returns the block of
  bytes it stores. The lemmas give both round trips and the error branches.
\<close>

section \<open>The tables\<close>

definition HEX_INVALID :: u8 where
  "HEX_INVALID = 0xff"

definition hex_upper_table :: "u8 list" where
  "hex_upper_table = [48, 49, 50, 51, 52, 53, 54, 55, 56, 57, 65, 66, 67, 68, 69, 70]"

definition hex_lower_table :: "u8 list" where
  "hex_lower_table = [48, 49, 50, 51, 52, 53, 54, 55, 56, 57, 97, 98, 99, 100, 101, 102]"

text \<open>
  One of the three loops of \<^verbatim>\<open>hex_init\<close> that fill the runs of digits and letters: entry
  \<open>i\<close> becomes \<open>base + i - lo\<close> for \<open>i\<close> from \<open>lo\<close>, \<open>n\<close> entries in all.
\<close>

fun hex_fill :: "nat \<Rightarrow> nat \<Rightarrow> nat \<Rightarrow> nat \<Rightarrow> u8 list \<Rightarrow> u8 list" where
  "hex_fill base lo i 0 t = t"
| "hex_fill base lo i (Suc n) t = hex_fill base lo (Suc i) n (t[i := of_nat (base + i - lo)])"

text \<open>\<^verbatim>\<open>'0'..'9'\<close>, \<^verbatim>\<open>'a'..'f'\<close> and \<^verbatim>\<open>'A'..'F'\<close> are 48..57, 97..102 and 65..70.\<close>

definition hex_init :: "u8 list" where
  "hex_init = hex_fill 10 65 65 6 (hex_fill 10 97 97 6 (hex_fill 0 48 48 10 (replicate 256 HEX_INVALID)))"

abbreviation hex_table :: "u8 list" where
  "hex_table \<equiv> hex_init"

definition hex_val :: "u8 \<Rightarrow> u8" where
  "hex_val c = hex_table ! unat c"

section \<open>Decoding\<close>

fun hex_to_bin_loop :: "u8 list \<Rightarrow> nat \<Rightarrow> nat \<Rightarrow> u8 list \<Rightarrow> (bool \<times> u8 list) option" where
  "hex_to_bin_loop inp i 0 out = Some (True, out)"
| "hex_to_bin_loop inp i (Suc n) out = do {
     a \<leftarrow> c_nth inp (2 * i);
     b \<leftarrow> c_nth inp (2 * i + 1);
     let val1 = hex_val a;
     let val2 = hex_val b;
     if val1 = HEX_INVALID \<or> val2 = HEX_INVALID then Some (False, out)
     else do {
       out \<leftarrow> c_upd out i (push_bit 4 val1 OR val2);
       hex_to_bin_loop inp (Suc i) n out
     }
   }"

definition hex_to_bin :: "u8 list \<Rightarrow> u8 list \<Rightarrow> nat \<Rightarrow> (bool \<times> u8 list) option" where
  "hex_to_bin out inp bytes = hex_to_bin_loop inp 0 bytes out"

fun hex_to_int_loop :: "u8 list \<Rightarrow> nat \<Rightarrow> nat \<Rightarrow> u64 \<Rightarrow> u64 option option" where
  "hex_to_int_loop inp i 0 ret = Some (Some ret)"
| "hex_to_int_loop inp i (Suc n) ret = do {
     c \<leftarrow> c_nth inp i;
     let v = hex_val c;
     if v = 0xff then Some None
     else hex_to_int_loop inp (Suc i) n (push_bit 4 ret OR ucast v)
   }"

definition INT64_MAX :: u64 where
  "INT64_MAX = 0x7fffffffffffffff"

text \<open>The result of \<^verbatim>\<open>hex_to_int\<close> is an \<^verbatim>\<open>int64_t\<close>: an \<open>int\<close> here, \<open>-1\<close> on error.\<close>

definition hex_to_int :: "u8 list \<Rightarrow> nat \<Rightarrow> int option" where
  "hex_to_int inp bytes = do {
     r \<leftarrow> hex_to_int_loop inp 0 (2 * bytes) 0;
     case r of
       None \<Rightarrow> Some (-1)
     | Some ret \<Rightarrow> Some (if INT64_MAX < ret then -1 else uint ret)
   }"

section \<open>Encoding\<close>

fun hex_from_bin :: "u8 list \<Rightarrow> nat \<Rightarrow> nat \<Rightarrow> u8 list \<Rightarrow> u8 list option" where
  "hex_from_bin inp i 0 table = Some []"
| "hex_from_bin inp i (Suc n) table = do {
     v \<leftarrow> c_nth inp i;
     hi \<leftarrow> c_nth table (unat (drop_bit 4 v));
     lo \<leftarrow> c_nth table (unat (v AND 0xf));
     rest \<leftarrow> hex_from_bin inp (Suc i) n table;
     Some (hi # lo # rest)
   }"

text \<open>
  \<^verbatim>\<open>hex_from_int\<close> fills its output from the last digit to the first: the digits written so
  far are the accumulator.
\<close>

fun hex_from_int_loop :: "u64 \<Rightarrow> nat \<Rightarrow> u8 list \<Rightarrow> u8 list \<Rightarrow> u8 list option" where
  "hex_from_int_loop v 0 table acc = Some acc"
| "hex_from_int_loop v (Suc n) table acc = do {
     d \<leftarrow> c_nth table (unat (v AND 0xf));
     hex_from_int_loop (drop_bit 4 v) n table (d # acc)
   }"

definition hex_from_int :: "u64 \<Rightarrow> nat \<Rightarrow> u8 list \<Rightarrow> u8 list option" where
  "hex_from_int v bytes table = do {
     c_assert (2 * bytes < 2 ^ 63 - 1);
     hex_from_int_loop v (2 * bytes) table []
   }"

definition hex_from_bin_upper :: "u8 list \<Rightarrow> nat \<Rightarrow> u8 list option" where
  "hex_from_bin_upper inp bytes = hex_from_bin inp 0 bytes hex_upper_table"

definition hex_from_bin_lower :: "u8 list \<Rightarrow> nat \<Rightarrow> u8 list option" where
  "hex_from_bin_lower inp bytes = hex_from_bin inp 0 bytes hex_lower_table"

definition hex_from_int_upper :: "u64 \<Rightarrow> nat \<Rightarrow> u8 list option" where
  "hex_from_int_upper v bytes = hex_from_int v bytes hex_upper_table"

definition hex_from_int_lower :: "u64 \<Rightarrow> nat \<Rightarrow> u8 list option" where
  "hex_from_int_lower v bytes = hex_from_int v bytes hex_lower_table"

section \<open>The tables are inverse to each other\<close>

lemma hex_init_entries: "list_all (\<lambda>v. v = HEX_INVALID \<or> v < 16) hex_init"
  by code_simp

lemma length_hex_fill [simp]: "length (hex_fill base lo i n t) = length t"
  by (induction base lo i n t rule: hex_fill.induct) auto

lemma length_hex_table [simp]: "length hex_table = 256"
  by (simp add: hex_init_def)

lemma hex_val_cases: "hex_val c = HEX_INVALID \<or> hex_val c < 16"
  using hex_init_entries by (auto simp: hex_val_def list_all_length)

lemma hex_val_upper: "list_all (\<lambda>i. hex_val (hex_upper_table ! i) = of_nat i) [0..<16]"
  by code_simp

lemma hex_val_lower: "list_all (\<lambda>i. hex_val (hex_lower_table ! i) = of_nat i) [0..<16]"
  by code_simp

definition is_hex_table :: "u8 list \<Rightarrow> bool" where
  "is_hex_table t \<longleftrightarrow> length t = 16 \<and> (\<forall>i<16. hex_val (t ! i) = of_nat i)"

lemma hex_tables [simp]: "is_hex_table hex_upper_table" "is_hex_table hex_lower_table"
  using hex_val_upper hex_val_lower
  by (auto simp: is_hex_table_def list_all_iff hex_upper_table_def hex_lower_table_def)

section \<open>Decoding bytes\<close>

definition hex_ok :: "u8 list \<Rightarrow> nat \<Rightarrow> bool" where
  "hex_ok inp n \<longleftrightarrow> (\<forall>k<2 * n. hex_val (inp ! k) \<noteq> HEX_INVALID)"

definition hex_decode :: "u8 list \<Rightarrow> nat \<Rightarrow> u8 list" where
  "hex_decode inp n =
     map (\<lambda>k. push_bit 4 (hex_val (inp ! (2 * k))) OR hex_val (inp ! (2 * k + 1))) [0..<n]"

lemma length_hex_decode [simp]: "length (hex_decode inp n) = n"
  by (simp add: hex_decode_def)

lemma nth_hex_decode:
  "k < n \<Longrightarrow> hex_decode inp n ! k =
     push_bit 4 (hex_val (inp ! (2 * k))) OR hex_val (inp ! (2 * k + 1))"
  by (simp add: hex_decode_def)

lemma hex_to_bin_loop_spec:
  assumes "2 * (i + n) \<le> length inp" and "i + n \<le> length out"
  shows "\<exists>ok out'. hex_to_bin_loop inp i n out = Some (ok, out') \<and> length out' = length out \<and>
    (\<forall>k. k < i \<or> i + n \<le> k \<longrightarrow> out' ! k = out ! k) \<and>
    (ok \<longleftrightarrow> (\<forall>k. 2 * i \<le> k \<and> k < 2 * (i + n) \<longrightarrow> hex_val (inp ! k) \<noteq> HEX_INVALID)) \<and>
    (ok \<longrightarrow> (\<forall>k. i \<le> k \<and> k < i + n \<longrightarrow> out' ! k =
       push_bit 4 (hex_val (inp ! (2 * k))) OR hex_val (inp ! (2 * k + 1))))"
  using assms
proof (induction n arbitrary: i out)
  case 0
  then show ?case by auto
next
  case (Suc n)
  let ?v1 = "hex_val (inp ! (2 * i))" and ?v2 = "hex_val (inp ! (2 * i + 1))"
  show ?case
  proof (cases "?v1 = HEX_INVALID \<or> ?v2 = HEX_INVALID")
    case True
    moreover have "2 * i < 2 * (i + Suc n)" "2 * i + 1 < 2 * (i + Suc n)" by auto
    ultimately show ?thesis
      using Suc.prems by (auto simp: c_eval Let_def intro: exI [of _ "2 * i"] exI [of _ "2 * i + 1"])
  next
    case False
    let ?out = "out[i := push_bit 4 ?v1 OR ?v2]"
    have step: "hex_to_bin_loop inp i (Suc n) out = hex_to_bin_loop inp (Suc i) n ?out"
      using Suc.prems False by (auto simp: c_eval Let_def)
    from Suc.prems have "2 * (Suc i + n) \<le> length inp" "Suc i + n \<le> length ?out" by auto
    from Suc.IH [OF this] obtain ok out' where
      r: "hex_to_bin_loop inp (Suc i) n ?out = Some (ok, out')" "length out' = length out"
        "\<forall>k. k < Suc i \<or> Suc i + n \<le> k \<longrightarrow> out' ! k = ?out ! k"
        "ok \<longleftrightarrow> (\<forall>k. 2 * Suc i \<le> k \<and> k < 2 * (Suc i + n) \<longrightarrow> hex_val (inp ! k) \<noteq> HEX_INVALID)"
        "ok \<longrightarrow> (\<forall>k. Suc i \<le> k \<and> k < Suc i + n \<longrightarrow> out' ! k =
           push_bit 4 (hex_val (inp ! (2 * k))) OR hex_val (inp ! (2 * k + 1)))"
      by (auto simp only: length_list_update)
    have range: "2 * i \<le> k \<and> k < 2 * (i + Suc n) \<longleftrightarrow>
        k = 2 * i \<or> k = 2 * i + 1 \<or> (2 * Suc i \<le> k \<and> k < 2 * (Suc i + n))" for k
      by auto
    have range': "i \<le> k \<and> k < i + Suc n \<longleftrightarrow> k = i \<or> (Suc i \<le> k \<and> k < Suc i + n)" for k
      by auto
    from False have digits: "ok \<longleftrightarrow>
        (\<forall>k. 2 * i \<le> k \<and> k < 2 * (i + Suc n) \<longrightarrow> hex_val (inp ! k) \<noteq> HEX_INVALID)"
      unfolding range r(4) by blast
    have "out' ! i = push_bit 4 ?v1 OR ?v2"
      using r(3) Suc.prems by simp
    with r(5) have vals: "ok \<longrightarrow> (\<forall>k. i \<le> k \<and> k < i + Suc n \<longrightarrow> out' ! k =
        push_bit 4 (hex_val (inp ! (2 * k))) OR hex_val (inp ! (2 * k + 1)))"
      unfolding range' by blast
    have frame: "\<forall>k. k < i \<or> i + Suc n \<le> k \<longrightarrow> out' ! k = out ! k"
      using r(3) by (auto simp: nth_list_update_neq)
    show ?thesis
      unfolding step using r(1,2) digits vals frame by (intro exI [of _ ok] exI [of _ out'] conjI)
  qed
qed

lemma hex_to_bin_spec:
  assumes "2 * n \<le> length inp" and "n \<le> length out"
  shows "\<exists>ok out'. hex_to_bin out inp n = Some (ok, out') \<and> length out' = length out \<and>
    (ok \<longleftrightarrow> hex_ok inp n) \<and> (ok \<longrightarrow> out' = hex_decode inp n @ drop n out)"
proof -
  from hex_to_bin_loop_spec [of 0 n inp out] assms obtain ok out' where
    r: "hex_to_bin_loop inp 0 n out = Some (ok, out')" "length out' = length out"
      "\<And>k. n \<le> k \<Longrightarrow> out' ! k = out ! k" "ok \<longleftrightarrow> hex_ok inp n"
      "ok \<Longrightarrow> (\<forall>k<n. out' ! k =
           push_bit 4 (hex_val (inp ! (2 * k))) OR hex_val (inp ! (2 * k + 1)))"
    by (auto simp: hex_ok_def)
  have "out' = hex_decode inp n @ drop n out" if ok
  proof (rule nth_equalityI)
    show "length out' = length (hex_decode inp n @ drop n out)"
      using r(2) assms by simp
  next
    fix k assume "k < length out'"
    with r(2,3) r(5) [OF that] assms show "out' ! k = (hex_decode inp n @ drop n out) ! k"
      by (auto simp: nth_append nth_hex_decode)
  qed
  with r show ?thesis by (auto simp: hex_to_bin_def)
qed

lemma hex_to_bin_True:
  assumes "2 * n \<le> length inp" and "n \<le> length out" and "hex_ok inp n"
  shows "hex_to_bin out inp n = Some (True, hex_decode inp n @ drop n out)"
  using hex_to_bin_spec [OF assms(1,2)] assms(3) by auto

section \<open>Encoding bytes and back\<close>

lemma and_nibble: "v AND 15 = take_bit 4 (v :: 'a::len word)"
  by (simp add: take_bit_eq_mask mask_numeral)

lemma nibbles_join: "push_bit 4 (drop_bit 4 v) OR (v AND 15) = (v :: u8)"
  by (rule bit_eqI) (auto simp: and_nibble bit_simps)

lemma nibble_hi: "unat (drop_bit 4 (v :: u8)) < 16"
  using unat_less_len(1) [of v] by (simp add: drop_bit_eq_div unat_div_distrib less_mult_imp_div_less)

lemma nibble_lo: "unat (v AND 15) < 16"
  using take_bit_nat_less_exp [of 4 "unat v"] by (simp add: and_nibble unsigned_take_bit_eq)

lemma hex_from_bin_spec:
  assumes "is_hex_table t" and "i + n \<le> length inp"
  shows "\<exists>r. hex_from_bin inp i n t = Some r \<and> length r = 2 * n \<and>
    (\<forall>k<n. hex_val (r ! (2 * k)) = drop_bit 4 (inp ! (i + k)) \<and>
           hex_val (r ! (2 * k + 1)) = inp ! (i + k) AND 15)"
  using assms(2)
proof (induction n arbitrary: i)
  case 0
  then show ?case by simp
next
  case (Suc n)
  from Suc.prems have "Suc i + n \<le> length inp" by simp
  from Suc.IH [OF this] obtain r where
    r: "hex_from_bin inp (Suc i) n t = Some r" "length r = 2 * n"
      "\<forall>k<n. hex_val (r ! (2 * k)) = drop_bit 4 (inp ! (Suc i + k)) \<and>
           hex_val (r ! (2 * k + 1)) = inp ! (Suc i + k) AND 15" by blast
  let ?v = "inp ! i"
  let ?r = "t ! unat (drop_bit 4 ?v) # t ! unat (?v AND 15) # r"
  have vals: "hex_val (t ! unat (drop_bit 4 ?v)) = drop_bit 4 ?v" "hex_val (t ! unat (?v AND 15)) = ?v AND 15"
    using assms(1) nibble_hi [of ?v] nibble_lo [of ?v] by (simp_all add: is_hex_table_def)
  have "hex_from_bin inp i (Suc n) t = Some ?r"
    using Suc.prems r(1) assms(1) nibble_hi [of ?v] nibble_lo [of ?v]
    by (simp add: c_eval is_hex_table_def)
  moreover have "\<forall>k<Suc n. hex_val (?r ! (2 * k)) = drop_bit 4 (inp ! (i + k)) \<and>
           hex_val (?r ! (2 * k + 1)) = inp ! (i + k) AND 15"
    using r(3) vals by (auto simp: less_Suc_eq_0_disj)
  ultimately show ?case using r(2) by auto
qed

text \<open>The block an encoder stores, as a total function.\<close>

definition hex_encode :: "u8 list \<Rightarrow> u8 list \<Rightarrow> nat \<Rightarrow> u8 list" where
  "hex_encode t inp n = the (hex_from_bin inp 0 n t)"

lemma hex_encode:
  assumes "is_hex_table t" and "n \<le> length inp"
  shows "hex_from_bin inp 0 n t = Some (hex_encode t inp n)" "length (hex_encode t inp n) = 2 * n"
    "hex_ok (hex_encode t inp n @ rest) n" "hex_decode (hex_encode t inp n @ rest) n = take n inp"
proof -
  from hex_from_bin_spec [OF assms(1), of 0 n inp] assms(2) obtain r where
    r: "hex_from_bin inp 0 n t = Some r" "length r = 2 * n"
      "\<forall>k<n. hex_val (r ! (2 * k)) = drop_bit 4 (inp ! k) \<and>
           hex_val (r ! (2 * k + 1)) = inp ! k AND 15" by auto
  have e: "hex_encode t inp n = r" by (simp add: hex_encode_def r(1))
  show "hex_from_bin inp 0 n t = Some (hex_encode t inp n)" "length (hex_encode t inp n) = 2 * n"
    using r e by simp_all
  have lo: "(v AND 15) \<noteq> HEX_INVALID" for v :: u8
    using nibble_lo [of v] by (auto simp: HEX_INVALID_def)
  have hi: "drop_bit 4 v \<noteq> HEX_INVALID" for v :: u8
    using nibble_hi [of v] by (auto simp: HEX_INVALID_def)
  have "hex_val (r ! k) \<noteq> HEX_INVALID" if "k < 2 * n" for k
  proof (cases "even k")
    case True
    then obtain j where "k = 2 * j" by (rule evenE)
    with that r(3) hi show ?thesis by auto
  next
    case False
    then obtain j where "k = 2 * j + 1" by (rule oddE)
    with that r(3) lo show ?thesis by auto
  qed
  then show "hex_ok (hex_encode t inp n @ rest) n"
    using r(2) by (simp add: hex_ok_def e nth_append)
  show "hex_decode (hex_encode t inp n @ rest) n = take n inp"
    using r assms(2)
    by (intro nth_equalityI) (auto simp: nth_hex_decode e nth_append nibbles_join)
qed

lemma hex_from_bin_set: "hex_from_bin inp i n t = Some r \<Longrightarrow> set r \<subseteq> set t"
  by (induction inp i n t arbitrary: r rule: hex_from_bin.induct)
     (auto simp: bind_Some_iff c_nth_Some_iff)

lemma hex_encode_set:
  assumes "is_hex_table t" and "n \<le> length inp"
  shows "set (hex_encode t inp n) \<subseteq> set t"
  using hex_from_bin_set hex_encode(1) [OF assms] by blast

lemma hex_encode_no_semicolon:
  assumes "n \<le> length inp" and "i < 2 * n"
  shows "hex_encode hex_upper_table inp n ! i \<noteq> 59"
proof -
  have "hex_encode hex_upper_table inp n ! i \<in> set hex_upper_table"
    using hex_encode_set [OF hex_tables(1) assms(1)] hex_encode(2) [OF hex_tables(1) assms(1)] assms(2)
    by (metis nth_mem subsetD)
  then show ?thesis by (auto simp: hex_upper_table_def)
qed

lemma hex_bin_roundtrip:
  assumes "is_hex_table t" and "n \<le> length inp" and "n \<le> length out"
  shows "\<exists>txt. hex_from_bin inp 0 n t = Some txt \<and> length txt = 2 * n \<and>
    hex_to_bin out txt n = Some (True, take n inp @ drop n out)"
  using hex_encode(1,2) [OF assms(1,2)] hex_encode(3,4) [OF assms(1,2), of "[]"] assms(3)
    hex_to_bin_True [of n "hex_encode t inp n" out] by auto

section \<open>Encoding integers and back\<close>

lemma hex_to_int_loop_snoc:
  "hex_to_int_loop inp i (Suc n) ret = do {
     r \<leftarrow> hex_to_int_loop inp i n ret;
     case r of None \<Rightarrow> Some None
     | Some v \<Rightarrow> do {
         c \<leftarrow> c_nth inp (i + n);
         if hex_val c = 0xff then Some None else Some (Some (push_bit 4 v OR ucast (hex_val c)))
       }
   }"
proof (induction n arbitrary: i ret)
  case 0
  show ?case by (simp add: Let_def cong: if_cong)
next
  case (Suc n)
  show ?case
  proof (cases "c_nth inp i")
    case None
    then show ?thesis by simp
  next
    case (Some c)
    show ?thesis
    proof (cases "hex_val c = 0xff")
      case True
      with Some show ?thesis by simp
    next
      case False
      let ?x = "push_bit 4 ret OR ucast (hex_val c)"
      have 1: "hex_to_int_loop inp i (Suc (Suc n)) ret = hex_to_int_loop inp (Suc i) (Suc n) ?x"
        using Some False by (subst hex_to_int_loop.simps(2)) (simp del: hex_to_int_loop.simps)
      have 2: "hex_to_int_loop inp i (Suc n) ret = hex_to_int_loop inp (Suc i) n ?x"
        using Some False by simp
      show ?thesis unfolding 1 2 by (subst Suc.IH) simp
    qed
  qed
qed

text \<open>The digits \<^verbatim>\<open>hex_from_int\<close> stores, most significant first.\<close>

fun int_digits :: "u8 list \<Rightarrow> u64 \<Rightarrow> nat \<Rightarrow> u8 list" where
  "int_digits t v 0 = []"
| "int_digits t v (Suc n) = int_digits t (drop_bit 4 v) n @ [t ! unat (v AND 15)]"

lemma length_int_digits [simp]: "length (int_digits t v n) = n"
  by (induction t v n rule: int_digits.induct) auto

lemma hex_from_int_loop_digits:
  "is_hex_table t \<Longrightarrow> hex_from_int_loop v n t acc = Some (int_digits t v n @ acc)"
proof (induction n arbitrary: v acc)
  case (Suc n)
  then show ?case using nibble_lo [of v] by (simp add: is_hex_table_def c_eval)
qed simp

lemma hex_from_int_digits:
  assumes "is_hex_table t" and "n \<le> 8"
  shows "hex_from_int v n t = Some (int_digits t v (2 * n))"
  using assms by (simp add: hex_from_int_def hex_from_int_loop_digits)

lemma hex_to_int_loop_digits:
  assumes t: "is_hex_table t" and n: "4 * n \<le> 64"
  shows "hex_to_int_loop (int_digits t v n @ rest) 0 n 0 = Some (Some (take_bit (4 * n) v))"
  using n
proof (induction n arbitrary: v rest)
  case 0
  then show ?case by simp
next
  case (Suc n)
  let ?d = "t ! unat (v AND 15)"
  have d: "hex_val ?d = of_nat (unat (v AND 15))"
    using t nibble_lo [of v] by (simp add: is_hex_table_def)
  have inval: "hex_val ?d \<noteq> 0xff"
    using nibble_lo [of v] unat_of_nat [of "unat (v AND 15)", where ?'a = 8] by (auto simp: d)
  have u: "ucast (hex_val ?d) = v AND 15"
    by (simp add: d) (rule bit_eqI, auto simp: and_nibble bit_simps)
  have join: "push_bit 4 (take_bit (4 * n) (drop_bit 4 v)) OR (v AND 15) = take_bit (4 * Suc n) v"
    by (rule bit_eqI) (auto simp: and_nibble bit_simps)
  have IH: "hex_to_int_loop (int_digits t (drop_bit 4 v) n @ ?d # rest) 0 n 0
      = Some (Some (take_bit (4 * n) (drop_bit 4 v)))"
    using Suc.prems by (intro Suc.IH) simp
  show ?case
    by (simp only: hex_to_int_loop_snoc int_digits.simps append.assoc append.simps IH
        option.case Option.bind.bind_lunit)
       (simp add: c_nth_def nth_append inval u join)
qed

lemma take_bit_word_small: "unat v < 2 ^ m \<Longrightarrow> take_bit m v = (v :: 'a::len word)"
  by (simp add: word_eq_iff_unsigned [where 'a = nat] unsigned_take_bit_eq take_bit_nat_eq_self)

lemma hex_to_int_digits:
  assumes t: "is_hex_table t" and n: "n \<le> 8" and v: "unat v < 2 ^ (8 * n)" and pos: "v \<le> INT64_MAX"
  shows "hex_to_int (int_digits t v (2 * n)) n = Some (uint v)"
proof -
  from v have "take_bit (8 * n) v = v" by (rule take_bit_word_small)
  with n pos hex_to_int_loop_digits [OF t, of "2 * n" v "[]"] show ?thesis
    by (simp add: hex_to_int_def leD)
qed

lemma hex_int_roundtrip:
  assumes t: "is_hex_table t" and n: "n \<le> 8" and v: "unat v < 2 ^ (8 * n)" and pos: "v \<le> INT64_MAX"
  shows "\<exists>txt. hex_from_int v n t = Some txt \<and> length txt = 2 * n \<and> hex_to_int txt n = Some (uint v)"
  using hex_to_int_digits [OF assms] by (simp add: hex_from_int_digits [OF t n])

text \<open>A single character that is no hex digit makes the whole decoding fail.\<close>

lemma hex_to_int_loop_invalid:
  assumes "i + n \<le> length inp" and "\<exists>k. i \<le> k \<and> k < i + n \<and> hex_val (inp ! k) = HEX_INVALID"
  shows "hex_to_int_loop inp i n ret = Some None"
  using assms
proof (induction n arbitrary: i ret)
  case 0
  then show ?case by auto
next
  case (Suc n)
  show ?case
  proof (cases "hex_val (inp ! i) = HEX_INVALID")
    case True
    with Suc.prems show ?thesis by (simp add: c_eval HEX_INVALID_def)
  next
    case False
    with Suc.prems(2) obtain k where "i \<le> k" "k < i + Suc n" "hex_val (inp ! k) = HEX_INVALID" "k \<noteq> i"
      by auto
    then have "\<exists>k. Suc i \<le> k \<and> k < Suc i + n \<and> hex_val (inp ! k) = HEX_INVALID"
      by (intro exI [of _ k]) auto
    with Suc.IH [of "Suc i"] Suc.prems(1) False show ?thesis
      by (simp add: c_eval HEX_INVALID_def Let_def)
  qed
qed

lemma hex_to_int_invalid:
  assumes "2 * n \<le> length inp" and "\<not> hex_ok inp n"
  shows "hex_to_int inp n = Some (-1)"
  using hex_to_int_loop_invalid [of 0 "2 * n" inp 0] assms
  by (auto simp: hex_to_int_def hex_ok_def)

lemma hex_to_int_total:
  assumes "2 * n \<le> length inp"
  shows "\<exists>v. hex_to_int inp n = Some v \<and> - 1 \<le> v \<and> v < 2 ^ 63"
proof -
  have loop: "\<exists>r. hex_to_int_loop inp i m ret = Some r" if "i + m \<le> length inp" for i m ret
    using that by (induction m arbitrary: i ret) (auto simp: c_eval Let_def)
  from loop [of 0 "2 * n" 0] assms obtain r where r: "hex_to_int_loop inp 0 (2 * n) 0 = Some r"
    by auto
  have "uint w < 2 ^ 63" if "\<not> INT64_MAX < w" for w
    using that by (simp add: INT64_MAX_def not_less word_le_def)
  then show ?thesis
    by (auto simp: hex_to_int_def r split: option.split intro: order_trans [of _ 0])
qed

section \<open>Properties\<close>

text \<open>
  Bytes printed in upper or lower case hex and read back by \<^verbatim>\<open>hex_to_bin\<close> are the same bytes,
  and the rest of the output array is untouched.
\<close>

theorem hex_bytes_roundtrip:
  assumes "n \<le> length inp" and "n \<le> length out"
  shows "\<exists>up lo. hex_from_bin_upper inp n = Some up \<and> hex_from_bin_lower inp n = Some lo \<and>
    length up = 2 * n \<and> length lo = 2 * n \<and>
    hex_to_bin out up n = Some (True, take n inp @ drop n out) \<and>
    hex_to_bin out lo n = Some (True, take n inp @ drop n out)"
  using hex_bin_roundtrip [OF hex_tables(1) assms] hex_bin_roundtrip [OF hex_tables(2) assms]
  by (auto simp: hex_from_bin_upper_def hex_from_bin_lower_def)

theorem hex_bytes_roundtrip_witness:
  "\<exists>up lo. hex_from_bin_upper [171, 205] 2 = Some up \<and> hex_from_bin_lower [171, 205] 2 = Some lo \<and>
    length up = 2 * 2 \<and> length lo = 2 * 2 \<and>
    hex_to_bin [0, 0, 7] up 2 = Some (True, take 2 [171, 205] @ drop 2 [0, 0, 7]) \<and>
    hex_to_bin [0, 0, 7] lo 2 = Some (True, take 2 [171, 205] @ drop 2 [0, 0, 7])"
  by (rule hex_bytes_roundtrip) simp_all

text \<open>
  \<^verbatim>\<open>hex_to_bin\<close> on enough characters returns true exactly when every one of them is a hex
  digit, and then it has stored the decoded bytes.
\<close>

theorem hex_to_bin_decides:
  assumes "2 * n \<le> length inp" and "n \<le> length out"
  shows "\<exists>ok out'. hex_to_bin out inp n = Some (ok, out') \<and> length out' = length out \<and>
    (ok \<longleftrightarrow> hex_ok inp n) \<and> (ok \<longrightarrow> out' = hex_decode inp n @ drop n out)"
  by (rule hex_to_bin_spec [OF assms])

theorem hex_to_bin_decides_witness:
  "\<exists>ok out'. hex_to_bin [0] [71, 48] 1 = Some (ok, out') \<and> length out' = length [0 :: u8] \<and>
    (ok \<longleftrightarrow> hex_ok [71, 48] 1) \<and> (ok \<longrightarrow> out' = hex_decode [71, 48] 1 @ drop 1 [0])"
  by (rule hex_to_bin_decides) simp_all

text \<open>
  A number below 2^63 printed in \<open>2 n\<close> hex digits is read back by \<^verbatim>\<open>hex_to_int\<close> unchanged; a
  character that is no hex digit makes it return \<open>-1\<close>.
\<close>

theorem hex_int_decodes:
  assumes "n \<le> 8" and "unat v < 2 ^ (8 * n)" and "v \<le> INT64_MAX"
    and "2 * n \<le> length bad" and "\<not> hex_ok bad n"
  shows "(\<exists>txt. hex_from_int_upper v n = Some txt \<and> length txt = 2 * n \<and> hex_to_int txt n = Some (uint v)) \<and>
    hex_to_int bad n = Some (-1)"
  using hex_int_roundtrip [OF hex_tables(1) assms(1-3)] hex_to_int_invalid [OF assms(4,5)]
  by (simp add: hex_from_int_upper_def)

theorem hex_int_decodes_witness:
  "(\<exists>txt. hex_from_int_upper 4660 2 = Some txt \<and> length txt = 2 * 2 \<and> hex_to_int txt 2 = Some (uint (4660 :: u64))) \<and>
    hex_to_int [48, 48, 48, 90] 2 = Some (-1)"
proof (rule hex_int_decodes)
  show "\<not> hex_ok [48, 48, 48, 90] 2"
  proof
    assume "hex_ok [48, 48, 48, 90] 2"
    moreover have "hex_val 90 = HEX_INVALID" by code_simp
    ultimately show False by (auto simp: hex_ok_def numeral_eq_Suc less_Suc_eq)
  qed
qed (simp_all add: INT64_MAX_def)

end
