(* ===== verification/Packet.thy ===== *)
theory Packet
  imports Prelude Hex
begin

text \<open>
  Model of \<^verbatim>\<open>adsbus/packet.c\<close> and \<^verbatim>\<open>adsbus/packet.h\<close>: the internal packet every format is
  converted to and from, the unwrapping and scaling of MLAT counters and of signal levels, the
  validation of source ids and the sanity check every forwarded packet must pass.
\<close>

text \<open>\<^verbatim>\<open>PACKET_PAYLOAD_LEN_MAX\<close> and \<^verbatim>\<open>PACKET_DATA_LEN_MAX\<close> are two names of the same bound.\<close>

definition PACKET_PAYLOAD_LEN_MAX :: nat where
  "PACKET_PAYLOAD_LEN_MAX = 14"

definition UUID_LEN :: nat where
  "UUID_LEN = 37"

datatype packet_type =
  PACKET_TYPE_NONE | PACKET_TYPE_MODE_AC | PACKET_TYPE_MODE_S_SHORT | PACKET_TYPE_MODE_S_LONG

text \<open>The two fields of \<^verbatim>\<open>struct stat\<close> the program reads: they identify a file.\<close>

record stat =
  st_dev :: nat
  st_ino :: nat

text \<open>
  \<^verbatim>\<open>source_id\<close> is a pointer to characters: \<open>None\<close> is \<^verbatim>\<open>NULL\<close>, \<open>Some s\<close> the bytes of the
  object it points to, the terminating zero included. \<^verbatim>\<open>payload\<close> has 14 elements.
\<close>

record packet =
  source_id :: "u8 list option"
  input_stat :: stat
  ptype :: packet_type
  hops :: u32
  payload :: "u8 list"
  mlat_timestamp :: u64
  rssi :: u32

fun packet_type_names :: "packet_type \<Rightarrow> u8 list" where
  "packet_type_names PACKET_TYPE_NONE = c_str ''INVALID''"
| "packet_type_names PACKET_TYPE_MODE_AC = c_str ''Mode-AC''"
| "packet_type_names PACKET_TYPE_MODE_S_SHORT = c_str ''Mode-S short''"
| "packet_type_names PACKET_TYPE_MODE_S_LONG = c_str ''Mode-S long''"

fun packet_payload_len :: "packet_type \<Rightarrow> nat" where
  "packet_payload_len PACKET_TYPE_NONE = 0"
| "packet_payload_len PACKET_TYPE_MODE_AC = 2"
| "packet_payload_len PACKET_TYPE_MODE_S_SHORT = 7"
| "packet_payload_len PACKET_TYPE_MODE_S_LONG = 14"

definition PACKET_MLAT_MHZ :: u32 where "PACKET_MLAT_MHZ = 120"
definition PACKET_MLAT_MAX :: u64 where "PACKET_MLAT_MAX = INT64_MAX"
definition PACKET_RSSI_MAX :: u32 where "PACKET_RSSI_MAX = 0xffffffff"

section \<open>MLAT timestamps\<close>

record packet_mlat_state =
  timestamp_last :: u64
  timestamp_generation :: u64

definition packet_mlat_timestamp_scale_mhz_in :: "u64 \<Rightarrow> u32 \<Rightarrow> u64 option" where
  "packet_mlat_timestamp_scale_mhz_in timestamp mhz = do {
     c_assert (0 < mhz);
     Some (timestamp * ucast (PACKET_MLAT_MHZ div mhz))
   }"

definition packet_mlat_timestamp_scale_width_in ::
    "u64 \<Rightarrow> u64 \<Rightarrow> packet_mlat_state \<Rightarrow> u64 \<times> packet_mlat_state" where
  "packet_mlat_timestamp_scale_width_in timestamp limit st =
     (let st = (if timestamp < timestamp_last st
                then st\<lparr>timestamp_generation := timestamp_generation st + limit\<rparr> else st);
          st = st\<lparr>timestamp_last := timestamp\<rparr>
      in (timestamp_generation st + timestamp, st))"

definition packet_mlat_timestamp_scale_mhz_out :: "u64 \<Rightarrow> u64 \<Rightarrow> u64 option" where
  "packet_mlat_timestamp_scale_mhz_out timestamp mhz = do {
     c_assert (0 < mhz);
     let d = ucast PACKET_MLAT_MHZ div mhz;
     if d = 0 then None else Some (timestamp div d)
   }"

definition packet_mlat_timestamp_scale_width_out :: "u64 \<Rightarrow> u64 \<Rightarrow> u64 option" where
  "packet_mlat_timestamp_scale_width_out timestamp limit = do {
     c_assert (0 < limit);
     Some (timestamp mod limit)
   }"

definition packet_mlat_timestamp_scale_in ::
    "u64 \<Rightarrow> u64 \<Rightarrow> u16 \<Rightarrow> packet_mlat_state \<Rightarrow> (u64 \<times> packet_mlat_state) option" where
  "packet_mlat_timestamp_scale_in timestamp limit mhz st =
     (let (w, st) = packet_mlat_timestamp_scale_width_in timestamp limit st in do {
        v \<leftarrow> packet_mlat_timestamp_scale_mhz_in w (ucast mhz);
        Some (v mod PACKET_MLAT_MAX, st)
      })"

definition packet_mlat_timestamp_scale_out :: "u64 \<Rightarrow> u64 \<Rightarrow> u16 \<Rightarrow> u64 option" where
  "packet_mlat_timestamp_scale_out timestamp limit mhz = do {
     v \<leftarrow> packet_mlat_timestamp_scale_mhz_out timestamp (ucast mhz);
     packet_mlat_timestamp_scale_width_out v limit
   }"

section \<open>Signal level\<close>

definition packet_rssi_scale_in :: "u32 \<Rightarrow> u32 \<Rightarrow> u32 option" where
  "packet_rssi_scale_in val limit = do {
     c_assert (0 < limit);
     Some (val * (PACKET_RSSI_MAX div limit))
   }"

definition packet_rssi_scale_out :: "u32 \<Rightarrow> u32 \<Rightarrow> u32 option" where
  "packet_rssi_scale_out val limit = do {
     c_assert (0 < limit);
     let d = PACKET_RSSI_MAX div limit;
     if d = 0 then None else Some (val div d)
   }"

section \<open>Source ids and the sanity check\<close>

text \<open>
  The loop of \<^verbatim>\<open>packet_validate_id\<close>: \<open>n\<close> characters may still be read; running out of the
  object before the terminator would be an out-of-bounds read, which is \<open>None\<close>.
\<close>

fun packet_validate_loop :: "nat \<Rightarrow> u8 list \<Rightarrow> bool option" where
  "packet_validate_loop 0 s = Some False"
| "packet_validate_loop (Suc n) [] = None"
| "packet_validate_loop (Suc n) (c # s) =
     (if c = 0 then Some True
      else if c < 32 \<or> 126 < c then Some False
      else packet_validate_loop n s)"

definition packet_validate_id :: "u8 list option \<Rightarrow> bool option" where
  "packet_validate_id p = (case p of None \<Rightarrow> Some False | Some s \<Rightarrow> packet_validate_loop UUID_LEN s)"

definition packet_sanity_check :: "packet \<Rightarrow> unit option" where
  "packet_sanity_check p = do {
     ok \<leftarrow> packet_validate_id (source_id p);
     c_assert ok;
     c_assert (ptype p \<noteq> PACKET_TYPE_NONE);
     c_assert (mlat_timestamp p \<le> PACKET_MLAT_MAX);
     c_assert (rssi p \<le> PACKET_RSSI_MAX)
   }"

definition valid_id :: "u8 list \<Rightarrow> bool" where
  "valid_id s \<longleftrightarrow> (\<exists>n < UUID_LEN. n < length s \<and> s ! n = 0 \<and> (\<forall>k<n. 32 \<le> s ! k \<and> s ! k \<le> 126))"

lemma packet_validate_loop_True_iff:
  "packet_validate_loop n s = Some True \<longleftrightarrow>
     (\<exists>m<n. m < length s \<and> s ! m = 0 \<and> (\<forall>k<m. 32 \<le> s ! k \<and> s ! k \<le> 126))"
proof (induction n s rule: packet_validate_loop.induct)
  case (3 n c s)
  have split: "(\<exists>m<Suc n. m < length (c # s) \<and> (c # s) ! m = 0 \<and>
        (\<forall>k<m. 32 \<le> (c # s) ! k \<and> (c # s) ! k \<le> 126)) \<longleftrightarrow>
      c = 0 \<or> (32 \<le> c \<and> c \<le> 126 \<and> (\<exists>m<n. m < length s \<and> s ! m = 0 \<and>
        (\<forall>k<m. 32 \<le> s ! k \<and> s ! k \<le> 126)))" (is "?L \<longleftrightarrow> ?R")
  proof
    assume ?L
    then obtain m where m: "m < Suc n" "m < length (c # s)" "(c # s) ! m = 0"
      "\<forall>k<m. 32 \<le> (c # s) ! k \<and> (c # s) ! k \<le> 126" by blast
    show ?R
    proof (cases m)
      case 0
      with m(3) show ?thesis by simp
    next
      case (Suc m')
      have "32 \<le> c \<and> c \<le> 126" using m(4) Suc by (auto dest: spec [of _ 0])
      moreover have "\<forall>k<m'. 32 \<le> s ! k \<and> s ! k \<le> 126"
        using m(4) Suc by (auto dest: spec [of _ "Suc _"])
      ultimately show ?thesis using m(1-3) Suc by auto
    qed
  next
    assume ?R
    then show ?L
    proof
      assume "c = 0"
      then show ?thesis by (intro exI [of _ 0]) simp
    next
      assume r: "32 \<le> c \<and> c \<le> 126 \<and> (\<exists>m<n. m < length s \<and> s ! m = 0 \<and>
        (\<forall>k<m. 32 \<le> s ! k \<and> s ! k \<le> 126))"
      then obtain m where "m < n" "m < length s" "s ! m = 0" "\<forall>k<m. 32 \<le> s ! k \<and> s ! k \<le> 126"
        by blast
      with r show ?thesis by (intro exI [of _ "Suc m"]) (auto simp: less_Suc_eq_0_disj)
    qed
  qed
  have c0: "(32 :: u8) \<le> c \<Longrightarrow> c \<noteq> 0" by auto
  show ?case
    unfolding split using 3 c0 by (auto simp: not_less)
qed auto

lemma packet_validate_id_True_iff:
  "packet_validate_id (Some s) = Some True \<longleftrightarrow> valid_id s"
  by (simp add: packet_validate_id_def valid_id_def packet_validate_loop_True_iff)

lemma packet_validate_loop_total: "is_c_str s \<Longrightarrow> \<exists>ok. packet_validate_loop n s = Some ok"
  by (induction n s rule: packet_validate_loop.induct) (auto simp: is_c_str_def)

lemma packet_validate_id_total:
  "(\<forall>s. p = Some s \<longrightarrow> is_c_str s) \<Longrightarrow> \<exists>ok. packet_validate_id p = Some ok"
  by (auto simp: packet_validate_id_def packet_validate_loop_total split: option.split)

lemma valid_id_c_str: "valid_id s \<Longrightarrow> is_c_str s"
  by (auto simp: valid_id_def is_c_str_def in_set_conv_nth)

definition packet_sane :: "packet \<Rightarrow> bool" where
  "packet_sane p \<longleftrightarrow> (\<exists>s. source_id p = Some s \<and> valid_id s) \<and> ptype p \<noteq> PACKET_TYPE_NONE \<and>
     mlat_timestamp p \<le> PACKET_MLAT_MAX"

lemma packet_sanity_check_iff: "packet_sanity_check p = Some () \<longleftrightarrow> packet_sane p"
proof -
  have rmax: "rssi p \<le> PACKET_RSSI_MAX"
    by (simp add: PACKET_RSSI_MAX_def word_le_nat_alt)
  show ?thesis
    using packet_validate_id_True_iff [of "the (source_id p)"]
    by (cases "source_id p")
      (auto simp: packet_sanity_check_def packet_sane_def bind_Some_iff rmax packet_validate_id_def)
qed

section \<open>Signal level round trip\<close>

lemma rssi_factor:
  assumes "0 < limit"
  shows "unat (PACKET_RSSI_MAX div limit) = 4294967295 div unat limit" "PACKET_RSSI_MAX div limit \<noteq> 0"
proof -
  show u: "unat (PACKET_RSSI_MAX div limit) = 4294967295 div unat limit"
    by (simp add: PACKET_RSSI_MAX_def unat_div_distrib)
  have "0 < unat limit" using assms by (simp add: word_less_nat_alt)
  moreover have "unat limit \<le> 4294967295" by simp
  ultimately have "0 < 4294967295 div unat limit"
    by (simp add: div_greater_zero_iff)
  with u show "PACKET_RSSI_MAX div limit \<noteq> 0" by force
qed

lemma packet_rssi_scale_in_total: "0 < limit \<Longrightarrow> \<exists>r. packet_rssi_scale_in v limit = Some r"
  by (simp add: packet_rssi_scale_in_def)

lemma packet_rssi_scale_out_total: "0 < limit \<Longrightarrow> \<exists>r. packet_rssi_scale_out v limit = Some r"
  by (simp add: packet_rssi_scale_out_def rssi_factor)

lemma rssi_roundtrip:
  assumes "0 < limit" and "v \<le> limit"
  shows "\<exists>w. packet_rssi_scale_in v limit = Some w \<and> packet_rssi_scale_out w limit = Some v"
proof -
  let ?d = "PACKET_RSSI_MAX div limit"
  have "unat v * unat ?d \<le> unat limit * (4294967295 div unat limit)"
    using assms by (simp add: rssi_factor word_le_nat_alt)
  also have "\<dots> \<le> 4294967295" by simp
  finally have "unat (v * ?d) = unat v * unat ?d"
    by (intro unat_mult_lem [THEN iffD1]) simp
  moreover have "0 < unat ?d"
    using rssi_factor(2) [OF assms(1)] by (simp add: unat_gt_0)
  ultimately have "unat (v * ?d div ?d) = unat v"
    by (simp add: unat_div_distrib)
  then have "v * ?d div ?d = v" unfolding word_unat_eq_iff .
  with assms(1) rssi_factor(2) [OF assms(1)] show ?thesis
    by (simp add: packet_rssi_scale_in_def packet_rssi_scale_out_def)
qed

section \<open>MLAT scaling\<close>

lemma packet_mlat_timestamp_scale_in_total:
  assumes "0 < mhz"
  shows "\<exists>v st'. packet_mlat_timestamp_scale_in t limit mhz st = Some (v, st') \<and> v < PACKET_MLAT_MAX"
proof -
  have "(0 :: u32) < ucast mhz"
    using assms by (simp add: word_less_nat_alt)
  moreover have "w mod PACKET_MLAT_MAX < PACKET_MLAT_MAX" for w :: u64
    by (rule word_mod_less_divisor) (simp add: PACKET_MLAT_MAX_def INT64_MAX_def)
  ultimately show ?thesis
    by (simp add: packet_mlat_timestamp_scale_in_def packet_mlat_timestamp_scale_mhz_in_def
        split: prod.split)
qed

lemma mhz_factor:
  assumes "0 < mhz" and "unat (mhz :: u16) \<le> 120"
  shows "unat (PACKET_MLAT_MHZ div ucast mhz) = 120 div unat mhz"
    and "unat (ucast PACKET_MLAT_MHZ div (ucast mhz :: u64)) = 120 div unat mhz"
    and "0 < 120 div unat mhz"
  using assms
  by (simp_all add: PACKET_MLAT_MHZ_def unat_div_distrib word_less_nat_alt div_greater_zero_iff)

lemma mlat_scale_roundtrip:
  assumes mhz: "0 < mhz" "unat mhz \<le> 120"
    and t: "t < limit" "unat t * (120 div unat mhz) < 2 ^ 63 - 1"
    and st: "timestamp_generation st = 0" "timestamp_last st \<le> t"
  shows "\<exists>v st'. packet_mlat_timestamp_scale_in t limit mhz st = Some (v, st') \<and>
    unat v = unat t * (120 div unat mhz) \<and> packet_mlat_timestamp_scale_out v limit mhz = Some t"
proof -
  let ?k = "120 div unat mhz"
  let ?d = "PACKET_MLAT_MHZ div ucast mhz :: u32"
  have pos: "(0 :: u32) < ucast mhz" "(0 :: u64) < ucast mhz" "0 < limit"
    using mhz t by (auto simp: word_less_nat_alt)
  have d: "unat (ucast ?d :: u64) = ?k"
    by (simp add: mhz_factor [OF mhz])
  have w: "unat (t * ucast ?d) = unat t * ?k"
    using t(2) unat_mult_lem [of t "ucast ?d"] by (simp add: d)
  have v: "t * ucast ?d mod PACKET_MLAT_MAX = t * ucast ?d"
    using t(2) by (simp add: word_eq_iff_unsigned [where 'a = nat] unat_mod_distrib w
        PACKET_MLAT_MAX_def INT64_MAX_def)
  have sin: "packet_mlat_timestamp_scale_in t limit mhz st = Some (t * ucast ?d, st\<lparr>timestamp_last := t\<rparr>)"
    using st pos v
    by (simp add: packet_mlat_timestamp_scale_in_def packet_mlat_timestamp_scale_mhz_in_def
        packet_mlat_timestamp_scale_width_in_def Let_def leD)
  have nz: "ucast PACKET_MLAT_MHZ div (ucast mhz :: u64) \<noteq> 0"
    using mhz_factor(2,3) [OF mhz] by force
  have undo: "t * ucast ?d div (ucast PACKET_MLAT_MHZ div (ucast mhz :: u64)) = t"
    using mhz_factor(3) [OF mhz]
    by (simp add: word_eq_iff_unsigned [where 'a = nat] unat_div_distrib [of "t * ucast ?d"] w
        mhz_factor(2) [OF mhz])
  have "t mod limit = t" using t(1)
    by (simp add: word_eq_iff_unsigned [where 'a = nat] unat_mod_distrib word_less_nat_alt)
  with sin pos nz undo w show ?thesis
    by (simp add: packet_mlat_timestamp_scale_out_def packet_mlat_timestamp_scale_mhz_out_def
        packet_mlat_timestamp_scale_width_out_def)
qed

section \<open>Unwrapping a wrapping counter\<close>

fun mlat_feed :: "u64 \<Rightarrow> packet_mlat_state \<Rightarrow> u64 list \<Rightarrow> u64 list" where
  "mlat_feed limit st [] = []"
| "mlat_feed limit st (r # rs) =
     (let (w, st) = packet_mlat_timestamp_scale_width_in r limit st in w # mlat_feed limit st rs)"

text \<open>True times that never step back and never advance by a whole period.\<close>

fun steps_below :: "nat \<Rightarrow> nat \<Rightarrow> nat list \<Rightarrow> bool" where
  "steps_below L t [] = True"
| "steps_below L t (u # us) = (t \<le> u \<and> u < t + L \<and> steps_below L u us)"

text \<open>The state that stands for having read a counter of period \<open>L\<close> at true time \<open>t\<close>.\<close>

definition mlat_at :: "nat \<Rightarrow> nat \<Rightarrow> packet_mlat_state" where
  "mlat_at L t = \<lparr>timestamp_last = of_nat (t mod L), timestamp_generation = of_nat (t div L * L)\<rparr>"

lemma period_step:
  fixes t u L :: nat
  assumes "0 < L" and "t \<le> u" and "u < t + L"
  shows "u mod L < t mod L \<Longrightarrow> u div L = t div L + 1"
    and "\<not> u mod L < t mod L \<Longrightarrow> u div L = t div L"
proof -
  have le: "t div L \<le> u div L" using assms by (simp add: div_le_mono)
  have "u div L \<le> (t + L) div L" using assms by (intro div_le_mono) simp
  moreover have "(t + L) div L = t div L + 1" using assms(1) div_add_self2 [of L t] by simp
  ultimately have ge: "u div L \<le> t div L + 1" by simp
  have tu: "t = t div L * L + t mod L" "u = u div L * L + u mod L" by simp_all
  show "u mod L < t mod L \<Longrightarrow> u div L = t div L + 1"
  proof -
    assume "u mod L < t mod L"
    then have "u div L \<noteq> t div L" using tu assms(2) by (metis add_less_cancel_left not_less)
    with le ge show ?thesis by simp
  qed
  show "\<not> u mod L < t mod L \<Longrightarrow> u div L = t div L"
  proof -
    assume "\<not> u mod L < t mod L"
    have "u div L \<noteq> t div L + 1"
    proof
      assume "u div L = t div L + 1"
      with tu(2) have "u = t div L * L + L + u mod L" by simp
      with tu(1) assms(3) \<open>\<not> u mod L < t mod L\<close> show False by linarith
    qed
    with le ge show ?thesis by simp
  qed
qed

lemma mlat_width_step:
  assumes L: "0 < limit" and step: "t \<le> u" "u < t + unat limit"
  shows "packet_mlat_timestamp_scale_width_in (of_nat (u mod unat limit)) limit (mlat_at (unat limit) t) =
    (of_nat u, mlat_at (unat limit) u)"
proof -
  let ?L = "unat limit"
  have L0: "0 < ?L" using L by (simp add: word_less_nat_alt)
  have small: "take_bit 64 (x mod ?L) = x mod ?L" for x
  proof -
    have "x mod ?L < ?L" using L0 by simp
    also have "?L < 2 ^ 64" using unsigned_less [of limit, where 'a = nat] by simp
    finally show ?thesis by (simp add: take_bit_nat_eq_self)
  qed
  have cmp: "(of_nat (u mod ?L) :: u64) < of_nat (t mod ?L) \<longleftrightarrow> u mod ?L < t mod ?L"
    by (simp add: word_of_nat_less_iff small)
  have u: "(of_nat (u div ?L * ?L) :: u64) + of_nat (u mod ?L) = of_nat u"
    by (metis div_mult_mod_eq of_nat_add)
  have gen: "(of_nat ((t div ?L + 1) * ?L) :: u64) = of_nat (t div ?L * ?L) + limit"
    by (simp add: algebra_simps)
  show ?thesis
    using period_step [OF L0 step] u gen
    by (auto simp: packet_mlat_timestamp_scale_width_in_def mlat_at_def cmp Let_def algebra_simps)
qed

lemma mlat_feed_exact:
  assumes L: "0 < limit" and "steps_below (unat limit) t us"
  shows "mlat_feed limit (mlat_at (unat limit) t) (map (\<lambda>u. of_nat (u mod unat limit)) us) =
    map of_nat us"
  using assms(2)
proof (induction us arbitrary: t)
  case Nil
  then show ?case by simp
next
  case (Cons u us)
  then have "t \<le> u" "u < t + unat limit" by auto
  from mlat_width_step [OF L this] Cons show ?case by simp
qed

lemma mlat_at_start: "0 < L \<Longrightarrow> mlat_at L 0 = \<lparr>timestamp_last = 0, timestamp_generation = 0\<rparr>"
  by (simp add: mlat_at_def)

section \<open>Properties\<close>

text \<open>
  C15. The MLAT unwrapping is exact: a receiver counter that wraps with period \<open>limit\<close>, read at times that
  never step back and never advance by a whole period, is turned into the true times (modulo
  2^64), however often it wrapped.
\<close>

theorem mlat_unwrap_exact:
  assumes "0 < limit" and "steps_below (unat limit) t us"
  shows "mlat_feed limit (mlat_at (unat limit) t) (map (\<lambda>u. of_nat (u mod unat limit)) us) = map of_nat us"
  by (rule mlat_feed_exact [OF assms])

theorem mlat_unwrap_exact_witness:
  "mlat_feed 10 (mlat_at (unat (10 :: u64)) 0) (map (\<lambda>u. of_nat (u mod unat (10 :: u64))) [3, 12, 12, 21, 29]) =
    map of_nat [3, 12, 12, 21, 29]"
  by (rule mlat_unwrap_exact) simp_all

text \<open>
  For a counter that takes every value of \<open>0 .. limit\<close>, as the protocol documentation says, the period
  the code adds is one tick short: after the wrap from \<open>limit\<close> to \<open>0\<close> the result has not advanced.
\<close>

theorem mlat_full_range_loses_tick:
  "mlat_feed limit \<lparr>timestamp_last = 0, timestamp_generation = 0\<rparr> [limit, 0] = [limit, if 0 < limit then limit else 0]"
  by (simp add: packet_mlat_timestamp_scale_width_in_def Let_def)

text \<open>
  Scaling a signal level in and out again is the identity for every range \<open>limit > 0\<close> and every value of
  it.
\<close>

theorem rssi_scale_roundtrip:
  assumes "0 < limit" and "v \<le> limit"
  shows "\<exists>w. packet_rssi_scale_in v limit = Some w \<and> packet_rssi_scale_out w limit = Some v"
  by (rule rssi_roundtrip [OF assms])

theorem rssi_scale_roundtrip_witness:
  "\<exists>w. packet_rssi_scale_in 200 255 = Some w \<and> packet_rssi_scale_out w 255 = Some 200"
  by (rule rssi_scale_roundtrip) simp_all

text \<open>
  C35. The sanity check passes exactly for packets with a zero-terminated printable source id of
  at most 36 characters, a real type and a timestamp in range; every other packet with a
  terminated id aborts, and the id is never read past its terminator.
\<close>

theorem packet_sanity_check_exact:
  "(packet_sanity_check p = Some () \<longleftrightarrow> packet_sane p) \<and>
   (packet_validate_id (Some (c_strz s)) = Some (valid_id (c_strz s)))"
proof -
  obtain ok where "packet_validate_id (Some (c_strz s)) = Some ok"
    using packet_validate_id_total [of "Some (c_strz s)"] by auto
  then show ?thesis
    using packet_validate_id_True_iff [of "c_strz s"] packet_sanity_check_iff [of p] by (cases ok) auto
qed

end
