(* ===== verification/Peer.thy ===== *)
theory Peer
  imports Packet
begin

text \<open>
  Model of \<^verbatim>\<open>adsbus/peer.c\<close>: the registration of file descriptors with epoll, the list of peers
  that are triggered on every turn because epoll refuses their descriptor, the reference counts
  of inputs and outputs and one turn of the event loop. The kernel's side is explicit: the table
  of open descriptors, with whether each can be polled, and the epoll set. A pointer to a
  \<^verbatim>\<open>struct peer\<close> is the kind of the structure around it and the number of the allocation; the
  event handlers are the parameter \<open>call\<close>, since they are function pointers into every other
  component. A failing \<^verbatim>\<open>assert\<close> is \<open>None\<close>.
\<close>

datatype peer_ref =
  Peer_shutdown | Peer_receive nat | Peer_send nat | Peer_send_receive nat | Peer_wakeup nat | Peer_transport nat

record peer =
  peer_fd :: int
  peer_always_trigger :: bool

record fd_info =
  fd_pollable :: bool
  fd_stat :: stat

record peer_state =
  peer_count_in :: u32
  peer_count_out :: u32
  peer_count_out_in :: u32
  peer_shutdown_flag :: bool
  peer_shutdown_peer :: peer
  peer_always_trigger_head :: "peer_ref list"
  fds :: "int \<Rightarrow> fd_info option"
  epoll_set :: "int \<Rightarrow> peer_ref option"

section \<open>The kernel calls\<close>

datatype epoll_res = EP_OK | EP_PERM | EP_ERR

definition epoll_ctl_add :: "int \<Rightarrow> peer_ref \<Rightarrow> 'a peer_state_scheme \<Rightarrow> epoll_res \<times> 'a peer_state_scheme" where
  "epoll_ctl_add fd ptr w = (case fds w fd of
     None \<Rightarrow> (EP_ERR, w)
   | Some i \<Rightarrow>
       (if \<not> fd_pollable i then (EP_PERM, w)
        else if epoll_set w fd \<noteq> None then (EP_ERR, w)
        else (EP_OK, w\<lparr>epoll_set := (epoll_set w)(fd \<mapsto> ptr)\<rparr>)))"

definition epoll_ctl_del :: "int \<Rightarrow> 'a peer_state_scheme \<Rightarrow> epoll_res \<times> 'a peer_state_scheme" where
  "epoll_ctl_del fd w = (case fds w fd of
     None \<Rightarrow> (EP_ERR, w)
   | Some i \<Rightarrow>
       (if \<not> fd_pollable i then (EP_PERM, w)
        else if epoll_set w fd = None then (EP_ERR, w)
        else (EP_OK, w\<lparr>epoll_set := (epoll_set w)(fd := None)\<rparr>)))"

text \<open>\<^verbatim>\<open>assert(!close(fd))\<close>; the kernel drops a closed descriptor from the epoll set.\<close>

definition close_fd :: "int \<Rightarrow> 'a peer_state_scheme \<Rightarrow> 'a peer_state_scheme option" where
  "close_fd fd w = (case fds w fd of
     None \<Rightarrow> None
   | Some i \<Rightarrow> Some (w\<lparr>fds := (fds w)(fd := None), epoll_set := (epoll_set w)(fd := None)\<rparr>))"

section \<open>Registering and closing\<close>

definition peer_epoll_add ::
    "peer_ref \<Rightarrow> peer \<Rightarrow> bool \<Rightarrow> 'a peer_state_scheme \<Rightarrow> (peer \<times> 'a peer_state_scheme) option" where
  "peer_epoll_add ptr p events w =
     (let p = p\<lparr>peer_always_trigger := False\<rparr>;
          (res, w) = epoll_ctl_add (peer_fd p) ptr w
      in if res = EP_PERM then
           (if events
            then Some (p\<lparr>peer_always_trigger := True\<rparr>,
                       w\<lparr>peer_always_trigger_head := peer_always_trigger_head w @ [ptr]\<rparr>)
            else Some (p, w))
         else do {
           c_assert (res = EP_OK);
           Some (p, w)
         })"

definition peer_epoll_del :: "peer_ref \<Rightarrow> peer \<Rightarrow> 'a peer_state_scheme \<Rightarrow> 'a peer_state_scheme option" where
  "peer_epoll_del ptr p w =
     (let (res, w) = epoll_ctl_del (peer_fd p) w
      in if res = EP_PERM then
           (if peer_always_trigger p
            then Some (w\<lparr>peer_always_trigger_head := filter (\<lambda>q. q \<noteq> ptr) (peer_always_trigger_head w)\<rparr>)
            else Some w)
         else do {
           c_assert (res = EP_OK);
           Some w
         })"

definition peer_close :: "peer_ref \<Rightarrow> peer \<Rightarrow> 'a peer_state_scheme \<Rightarrow> (peer \<times> 'a peer_state_scheme) option" where
  "peer_close ptr p w =
     (if peer_fd p = -1 then Some (p, w)
      else do {
        w \<leftarrow> peer_epoll_del ptr p w;
        w \<leftarrow> close_fd (peer_fd p) w;
        Some (p\<lparr>peer_fd := -1\<rparr>, w)
      })"

definition peer_call ::
    "(peer_ref \<Rightarrow> 'a peer_state_scheme \<Rightarrow> 'a peer_state_scheme option) \<Rightarrow>
      peer_ref option \<Rightarrow> 'a peer_state_scheme \<Rightarrow> 'a peer_state_scheme option" where
  "peer_call call ptr w =
     (if peer_shutdown_flag w then Some w
      else case ptr of None \<Rightarrow> Some w | Some ptr \<Rightarrow> call ptr w)"

definition peer_shutdown :: "'a peer_state_scheme \<Rightarrow> 'a peer_state_scheme option" where
  "peer_shutdown w = do {
     (p, w) \<leftarrow> peer_close Peer_shutdown (peer_shutdown_peer w) w;
     Some (w\<lparr>peer_shutdown_peer := p, peer_shutdown_flag := True\<rparr>)
   }"

text \<open>\<^verbatim>\<open>peer_init\<close> on the descriptor of the signals the kernel returned.\<close>

definition peer_init :: "int \<Rightarrow> 'a peer_state_scheme \<Rightarrow> 'a peer_state_scheme option" where
  "peer_init signal_fd w = do {
     c_assert (0 \<le> signal_fd);
     (p, w) \<leftarrow> peer_epoll_add Peer_shutdown \<lparr>peer_fd = signal_fd, peer_always_trigger = False\<rparr> True w;
     Some (w\<lparr>peer_shutdown_peer := p\<rparr>)
   }"

section \<open>The event loop\<close>

text \<open>The handlers of a batch of events, in order.\<close>

fun peer_call_all ::
    "(peer_ref \<Rightarrow> 'a peer_state_scheme \<Rightarrow> 'a peer_state_scheme option) \<Rightarrow>
      peer_ref list \<Rightarrow> 'a peer_state_scheme \<Rightarrow> 'a peer_state_scheme option" where
  "peer_call_all call [] w = Some w"
| "peer_call_all call (p # ps) w = do {
     w \<leftarrow> peer_call call (Some p) w;
     peer_call_all call ps w
   }"

text \<open>
  The safe iteration over the always-trigger list: the successor is read before the handler
  runs. A successor that left the list in the meantime is the undefined behaviour \<open>None\<close>; the iteration ends at
  the list head. \<open>n\<close> bounds the number of elements visited.
\<close>

fun list_succ :: "peer_ref \<Rightarrow> peer_ref list \<Rightarrow> peer_ref option" where
  "list_succ p [] = None"
| "list_succ p (q # qs) = (if p = q then (case qs of [] \<Rightarrow> None | r # rs \<Rightarrow> Some r) else list_succ p qs)"

fun peer_always_loop ::
    "(peer_ref \<Rightarrow> 'a peer_state_scheme \<Rightarrow> 'a peer_state_scheme option) \<Rightarrow>
      nat \<Rightarrow> peer_ref option \<Rightarrow> 'a peer_state_scheme \<Rightarrow> 'a peer_state_scheme option" where
  "peer_always_loop call n None w = Some w"
| "peer_always_loop call 0 (Some p) w = None"
| "peer_always_loop call (Suc n) (Some p) w =
     (if p \<notin> set (peer_always_trigger_head w) then None
      else do {
        let succ = list_succ p (peer_always_trigger_head w);
        w \<leftarrow> peer_call call (Some p) w;
        peer_always_loop call n succ w
      })"

text \<open>
  One turn of \<^verbatim>\<open>peer_loop\<close>. The parameter \<open>wait\<close> is \<^verbatim>\<open>epoll_wait\<close> with its timeout (\<open>True\<close> for
  zero, when something is always triggered; \<open>False\<close> for infinite): \<open>None\<close> when a signal
  interrupted it, otherwise the pointers of at most ten events. The Boolean result says whether
  the loop goes on.
\<close>

definition MAX_EVENTS :: nat where
  "MAX_EVENTS = 10"

definition peer_loop_turn ::
    "(peer_ref \<Rightarrow> 'a peer_state_scheme \<Rightarrow> 'a peer_state_scheme option) \<Rightarrow>
      (bool \<Rightarrow> peer_ref list option) \<Rightarrow> 'a peer_state_scheme \<Rightarrow> (bool \<times> 'a peer_state_scheme) option" where
  "peer_loop_turn call wait w =
     (if peer_shutdown_flag w then Some (False, w)
      else if peer_count_in w + peer_count_out_in w = 0 then map_option (Pair False) (peer_shutdown w)
      else if peer_count_out w + peer_count_out_in w = 0 then map_option (Pair False) (peer_shutdown w)
      else case wait (peer_always_trigger_head w \<noteq> []) of
        None \<Rightarrow> Some (True, w)
      | Some events \<Rightarrow> do {
          w \<leftarrow> peer_call_all call events w;
          let always = peer_always_trigger_head w;
          w \<leftarrow> peer_always_loop call (length always) (case always of [] \<Rightarrow> None | p # ps \<Rightarrow> Some p) w;
          Some (True, w)
        })"

section \<open>What registration keeps\<close>

text \<open>
  Every registered descriptor is open and can be polled, and nothing is registered twice. The
  list of always-triggered peers has no duplicates.
\<close>

definition peer_state_ok :: "'a peer_state_scheme \<Rightarrow> bool" where
  "peer_state_ok w \<longleftrightarrow>
     (\<forall>fd ptr. epoll_set w fd = Some ptr \<longrightarrow> (\<exists>i. fds w fd = Some i \<and> fd_pollable i)) \<and>
     distinct (peer_always_trigger_head w)"

text \<open>How a live peer is registered: what \<^verbatim>\<open>peer_epoll_add\<close> establishes and \<^verbatim>\<open>peer_close\<close> relies on.\<close>

definition peer_registered :: "peer_ref \<Rightarrow> peer \<Rightarrow> 'a peer_state_scheme \<Rightarrow> bool" where
  "peer_registered ptr p w \<longleftrightarrow> peer_fd p \<noteq> -1 \<and> (\<exists>i. fds w (peer_fd p) = Some i \<and>
     (if fd_pollable i then epoll_set w (peer_fd p) = Some ptr \<and> \<not> peer_always_trigger p
      else epoll_set w (peer_fd p) = None)) \<and>
     (peer_always_trigger p \<longleftrightarrow> ptr \<in> set (peer_always_trigger_head w))"

lemma peer_epoll_add_spec:
  assumes ok: "peer_state_ok w" and fd: "peer_fd p \<noteq> -1" "fds w (peer_fd p) = Some i"
    and fresh: "epoll_set w (peer_fd p) = None" "ptr \<notin> set (peer_always_trigger_head w)"
  shows "\<exists>p' w'. peer_epoll_add ptr p events w = Some (p', w') \<and> peer_registered ptr p' w' \<and>
    peer_state_ok w' \<and> peer_fd p' = peer_fd p \<and> fds w' = fds w \<and>
    (ptr \<in> set (peer_always_trigger_head w') \<longleftrightarrow> events \<and> \<not> fd_pollable i) \<and>
    (\<forall>q. q \<noteq> ptr \<longrightarrow> (q \<in> set (peer_always_trigger_head w') \<longleftrightarrow> q \<in> set (peer_always_trigger_head w))) \<and>
    (\<forall>g. g \<noteq> peer_fd p \<longrightarrow> epoll_set w' g = epoll_set w g)"
  using assms
  by (cases "fd_pollable i"; cases events)
    (auto simp: peer_epoll_add_def epoll_ctl_add_def Let_def peer_registered_def peer_state_ok_def)

lemma peer_close_spec:
  assumes ok: "peer_state_ok w" and reg: "peer_registered ptr p w"
  shows "\<exists>p' w'. peer_close ptr p w = Some (p', w') \<and> peer_fd p' = -1 \<and> peer_state_ok w' \<and>
    fds w' = (fds w)(peer_fd p := None) \<and> epoll_set w' = (epoll_set w)(peer_fd p := None) \<and>
    peer_always_trigger_head w' = filter (\<lambda>q. q \<noteq> ptr) (peer_always_trigger_head w)"
proof -
  from reg obtain i where i: "fds w (peer_fd p) = Some i" "peer_fd p \<noteq> -1" by (auto simp: peer_registered_def)
  have same: "filter (\<lambda>q. q \<noteq> ptr) (peer_always_trigger_head w) = peer_always_trigger_head w"
    if "\<not> peer_always_trigger p"
    using reg that by (auto simp: peer_registered_def filter_id_conv)
  show ?thesis
    using i reg ok same
    by (cases "fd_pollable i"; cases "peer_always_trigger p")
      (auto simp: peer_close_def peer_epoll_del_def epoll_ctl_del_def close_fd_def peer_registered_def
        peer_state_ok_def Let_def fun_upd_def)
qed

lemma peer_registered_other:
  assumes "peer_registered q r w" and "peer_fd r \<noteq> fd" and "q \<noteq> ptr"
    and "fds w' = (fds w)(fd := None)" and "epoll_set w' = (epoll_set w)(fd := None)"
    and "peer_always_trigger_head w' = filter (\<lambda>q. q \<noteq> ptr) (peer_always_trigger_head w)"
  shows "peer_registered q r w'"
  using assms by (auto simp: peer_registered_def)

section \<open>Properties\<close>

text \<open>
  Registering a descriptor and closing it again never aborts, whether the kernel can poll
  the descriptor or not, and leaves no trace but the closed descriptor: the epoll set and the
  always-trigger list are as before.
\<close>

theorem peer_add_then_close:
  assumes "peer_state_ok w" and "peer_fd p \<noteq> -1" and "fds w (peer_fd p) = Some i"
    and "epoll_set w (peer_fd p) = None" and "ptr \<notin> set (peer_always_trigger_head w)"
  shows "\<exists>p' w' p'' w''. peer_epoll_add ptr p events w = Some (p', w') \<and> peer_registered ptr p' w' \<and>
    peer_close ptr p' w' = Some (p'', w'') \<and> peer_fd p'' = -1 \<and> peer_state_ok w'' \<and>
    fds w'' = (fds w)(peer_fd p := None) \<and> epoll_set w'' (peer_fd p) = None \<and>
    (\<forall>g. epoll_set w'' g = epoll_set w g) \<and>
    set (peer_always_trigger_head w'') = set (peer_always_trigger_head w)"
proof -
  from peer_epoll_add_spec [OF assms, of events] obtain p' w' where
    a: "peer_epoll_add ptr p events w = Some (p', w')" "peer_registered ptr p' w'" "peer_state_ok w'"
      "peer_fd p' = peer_fd p" "fds w' = fds w"
      "\<forall>q. q \<noteq> ptr \<longrightarrow> (q \<in> set (peer_always_trigger_head w') \<longleftrightarrow> q \<in> set (peer_always_trigger_head w))"
      "\<forall>g. g \<noteq> peer_fd p \<longrightarrow> epoll_set w' g = epoll_set w g" by blast
  from peer_close_spec [OF a(3,2)] obtain p'' w'' where
    c: "peer_close ptr p' w' = Some (p'', w'')" "peer_fd p'' = -1" "peer_state_ok w''"
      "fds w'' = (fds w')(peer_fd p' := None)" "epoll_set w'' = (epoll_set w')(peer_fd p' := None)"
      "peer_always_trigger_head w'' = filter (\<lambda>q. q \<noteq> ptr) (peer_always_trigger_head w')" by blast
  have "set (peer_always_trigger_head w'') = set (peer_always_trigger_head w)"
    using a(6) assms(5) by (auto simp: c(6))
  moreover have "\<forall>g. epoll_set w'' g = epoll_set w g" using a(4,7) assms(4) by (auto simp: c(5))
  ultimately show ?thesis using a c by auto
qed

definition sample_peer_state :: peer_state where
  "sample_peer_state = \<lparr>peer_count_in = 0, peer_count_out = 0, peer_count_out_in = 0, peer_shutdown_flag = False,
     peer_shutdown_peer = \<lparr>peer_fd = -1, peer_always_trigger = False\<rparr>, peer_always_trigger_head = [],
     fds = [5 \<mapsto> \<lparr>fd_pollable = False, fd_stat = \<lparr>st_dev = 1, st_ino = 2\<rparr>\<rparr>], epoll_set = Map.empty\<rparr>"

theorem peer_add_then_close_witness:
  "\<exists>p' w' p'' w''. peer_epoll_add (Peer_receive 0) \<lparr>peer_fd = 5, peer_always_trigger = False\<rparr> True sample_peer_state =
      Some (p', w') \<and> peer_registered (Peer_receive 0) p' w' \<and>
    peer_close (Peer_receive 0) p' w' = Some (p'', w'') \<and> peer_fd p'' = -1 \<and> peer_state_ok w'' \<and>
    fds w'' = (fds sample_peer_state)(peer_fd \<lparr>peer_fd = 5, peer_always_trigger = False\<rparr> := None) \<and>
    epoll_set w'' (peer_fd \<lparr>peer_fd = 5, peer_always_trigger = False\<rparr>) = None \<and>
    (\<forall>g. epoll_set w'' g = epoll_set sample_peer_state g) \<and>
    set (peer_always_trigger_head w'') = set (peer_always_trigger_head sample_peer_state)"
  by (rule peer_add_then_close) (simp_all add: sample_peer_state_def peer_state_ok_def)

end
