(* ===== verification/Buf.thy ===== *)
theory Buf
  imports Prelude
begin

text \<open>
  Model of \<^verbatim>\<open>adsbus/buf.c\<close> and \<^verbatim>\<open>adsbus/buf.h\<close>: the fixed 256-byte window
  buffer every stream is read into. The record \<open>buf\<close> is \<^verbatim>\<open>struct buf\<close>; the live
  bytes are \<open>buf_view\<close>. The theory shows that the buffer is a bounded byte queue: filling
  appends to the view, consuming drops from its front, and no operation leaves the array.
\<close>

definition BUF_LEN_MAX :: nat where
  "BUF_LEN_MAX = 256"

record buf =
  buf_data :: "u8 list"
  buf_start :: nat
  buf_length :: nat

definition BUF_INIT :: buf where
  "BUF_INIT = \<lparr>buf_data = replicate BUF_LEN_MAX 0, buf_start = 0, buf_length = 0\<rparr>"

text \<open>\<^verbatim>\<open>buf_chr\<close> and \<^verbatim>\<open>buf_at\<close>: an access relative to the start of the window.\<close>

definition buf_chr :: "buf \<Rightarrow> nat \<Rightarrow> u8 option" where
  "buf_chr b i = c_nth (buf_data b) (buf_start b + i)"

definition buf_set_chr :: "buf \<Rightarrow> nat \<Rightarrow> u8 \<Rightarrow> buf option" where
  "buf_set_chr b i v = do {
     d \<leftarrow> c_upd (buf_data b) (buf_start b + i) v;
     Some (b\<lparr>buf_data := d\<rparr>)
   }"

text \<open>Blocks read from, and stored at, a pointer \<^verbatim>\<open>buf_at(buf, i)\<close>.\<close>

definition buf_get :: "buf \<Rightarrow> nat \<Rightarrow> nat \<Rightarrow> u8 list option" where
  "buf_get b i n =
     (if buf_start b + i + n \<le> length (buf_data b)
      then Some (take n (drop (buf_start b + i) (buf_data b))) else None)"

definition buf_put :: "buf \<Rightarrow> nat \<Rightarrow> u8 list \<Rightarrow> buf option" where
  "buf_put b i bs =
     (if buf_start b + i + length bs \<le> length (buf_data b)
      then Some (b\<lparr>buf_data := list_put (buf_data b) (buf_start b + i) bs\<rparr>) else None)"

definition buf_init :: "buf \<Rightarrow> buf" where
  "buf_init b = b\<lparr>buf_start := 0, buf_length := 0\<rparr>"

text \<open>
  The system call \<^verbatim>\<open>read(fd, p, space)\<close> is a parameter: \<open>None\<close> for the error
  return \<open>-1\<close>, \<open>Some bs\<close> for the bytes it stored, \<open>Some []\<close> being end of file. What
  POSIX says of it is \<open>read_ok\<close>: it never stores more than \<^verbatim>\<open>space\<close> bytes.
\<close>

type_synonym read_fn = "nat \<Rightarrow> u8 list option"

definition read_ok :: "read_fn \<Rightarrow> bool" where
  "read_ok rd \<longleftrightarrow> (\<forall>n bs. rd n = Some bs \<longrightarrow> length bs \<le> n)"

definition buf_fill :: "read_fn \<Rightarrow> buf \<Rightarrow> (int \<times> buf) option" where
  "buf_fill rd b = do {
     b \<leftarrow> (if buf_start b + buf_length b = BUF_LEN_MAX
           then do {
             c_assert (0 < buf_start b);
             moved \<leftarrow> buf_get b 0 (buf_length b);
             Some (b\<lparr>buf_data := list_put (buf_data b) 0 moved, buf_start := 0\<rparr>)
           }
           else Some b);
     let space = BUF_LEN_MAX - buf_length b - buf_start b;
     case rd space of
       None \<Rightarrow> Some (-1, b)
     | Some bs \<Rightarrow>
         (if bs = [] then Some (0, b)
          else do {
            b \<leftarrow> buf_put b (buf_length b) bs;
            Some (int (length bs), b\<lparr>buf_length := buf_length b + length bs\<rparr>)
          })
   }"

definition buf_consume :: "buf \<Rightarrow> nat \<Rightarrow> buf option" where
  "buf_consume b n = do {
     c_assert (n \<le> buf_length b);
     let l = buf_length b - n;
     Some (b\<lparr>buf_length := l, buf_start := (if l \<noteq> 0 then buf_start b + n else 0)\<rparr>)
   }"

section \<open>Well-formedness and the live bytes\<close>

definition buf_ok :: "buf \<Rightarrow> bool" where
  "buf_ok b \<longleftrightarrow> length (buf_data b) = BUF_LEN_MAX \<and> buf_start b + buf_length b \<le> BUF_LEN_MAX"

definition buf_view :: "buf \<Rightarrow> u8 list" where
  "buf_view b = take (buf_length b) (drop (buf_start b) (buf_data b))"

lemma buf_ok_INIT [simp]: "buf_ok BUF_INIT" and buf_view_INIT [simp]: "buf_view BUF_INIT = []"
  by (simp_all add: buf_ok_def BUF_INIT_def buf_view_def)

lemma buf_ok_init: "length (buf_data b) = BUF_LEN_MAX \<Longrightarrow> buf_ok (buf_init b)"
  and buf_view_init [simp]: "buf_view (buf_init b) = []"
  by (simp_all add: buf_ok_def buf_init_def buf_view_def)

lemma length_buf_view [simp]: "buf_ok b \<Longrightarrow> length (buf_view b) = buf_length b"
  by (auto simp: buf_ok_def buf_view_def)

lemma buf_view_bound: "buf_ok b \<Longrightarrow> buf_length b \<le> 256"
  by (simp add: buf_ok_def BUF_LEN_MAX_def)

lemma buf_chr_view [c_eval]:
  assumes "buf_ok b" and "i < buf_length b"
  shows "buf_chr b i = Some (buf_view b ! i)"
  using assms by (auto simp: buf_ok_def buf_view_def buf_chr_def c_nth_def)

lemma buf_get_view [c_eval]:
  assumes "buf_ok b" and "i + n \<le> buf_length b"
  shows "buf_get b i n = Some (take n (drop i (buf_view b)))"
  using assms
  by (auto simp: buf_ok_def buf_view_def buf_get_def take_drop min_def add.commute)

lemma buf_put_fields:
  assumes "buf_put b i bs = Some b'"
  shows "buf_start b' = buf_start b" "buf_length b' = buf_length b"
    "buf_data b' = list_put (buf_data b) (buf_start b + i) bs"
    "length (buf_data b') = length (buf_data b)"
  using assms by (auto simp: buf_put_def split: if_splits)

section \<open>Consuming\<close>

lemma buf_consume_view:
  assumes ok: "buf_ok b" and n: "n \<le> buf_length b"
  shows "\<exists>b'. buf_consume b n = Some b' \<and> buf_ok b' \<and> buf_view b' = drop n (buf_view b)
    \<and> buf_length b' = buf_length b - n"
proof (cases "buf_length b - n = 0")
  case True
  with ok n show ?thesis
    by (auto simp: buf_consume_def buf_ok_def buf_view_def c_eval)
next
  case False
  with ok n show ?thesis
    by (auto simp: buf_consume_def buf_ok_def buf_view_def c_eval drop_take add.commute)
qed

lemma buf_consume_too_much: "buf_length b < n \<Longrightarrow> buf_consume b n = None"
  by (simp add: buf_consume_def c_assert_def)

section \<open>Filling\<close>

lemma buf_put_append:
  assumes "buf_ok c" and "buf_start c + buf_length c + length bs \<le> BUF_LEN_MAX"
  shows "\<exists>b'. buf_put c (buf_length c) bs = Some b' \<and>
    buf_ok (b'\<lparr>buf_length := buf_length b' + length bs\<rparr>) \<and>
    buf_view (b'\<lparr>buf_length := buf_length b' + length bs\<rparr>) = buf_view c @ bs"
  using assms
  by (auto simp: buf_put_def buf_ok_def buf_view_def list_put_def min_def take_drop add.commute
      neq_Nil_conv)

lemma buf_fill_view:
  assumes ok: "buf_ok b" and rd: "read_ok rd" and room: "buf_length b < BUF_LEN_MAX"
  shows "\<exists>space. 0 < space \<and>
    (case rd space of
       None \<Rightarrow> (\<exists>b'. buf_fill rd b = Some (-1, b') \<and> buf_ok b' \<and> buf_view b' = buf_view b)
     | Some bs \<Rightarrow> (\<exists>b'. buf_fill rd b = Some (int (length bs), b') \<and> buf_ok b' \<and>
                     buf_view b' = buf_view b @ bs))"
proof -
  define full where "full \<longleftrightarrow> buf_start b + buf_length b = BUF_LEN_MAX"
  define c where "c = (if full then b\<lparr>buf_data := list_put (buf_data b) 0 (buf_view b), buf_start := 0\<rparr> else b)"
  have c_len: "buf_length c = buf_length b" by (simp add: c_def)
  have c_ok: "buf_ok c"
    using ok by (auto simp: c_def buf_ok_def buf_view_def)
  have c_view: "buf_view c = buf_view b"
    using ok by (auto simp: c_def buf_ok_def buf_view_def list_put_def)
  have c_room: "buf_start c + buf_length c < BUF_LEN_MAX"
    using ok room by (auto simp: c_def full_def buf_ok_def)
  define space where "space = BUF_LEN_MAX - buf_length c - buf_start c"
  have fill: "buf_fill rd b = (case rd space of
       None \<Rightarrow> Some (-1, c)
     | Some bs \<Rightarrow>
         (if bs = [] then Some (0, c)
          else do {
            b \<leftarrow> buf_put c (buf_length c) bs;
            Some (int (length bs), b\<lparr>buf_length := buf_length b + length bs\<rparr>)
          }))"
    using ok room
    by (cases full)
      (auto simp: buf_fill_def c_def full_def space_def c_eval buf_view_def
        buf_get_def buf_ok_def split: option.split)
  have put: "\<exists>b'. buf_put c (buf_length c) bs = Some b' \<and>
      buf_ok (b'\<lparr>buf_length := buf_length b' + length bs\<rparr>) \<and>
      buf_view (b'\<lparr>buf_length := buf_length b' + length bs\<rparr>) = buf_view b @ bs"
    if "length bs \<le> space" for bs
    using buf_put_append [of c bs] that c_ok c_room by (simp add: space_def c_view)
  show ?thesis
  proof (intro exI conjI)
    show "0 < space" using c_room by (simp add: space_def)
    show "case rd space of
       None \<Rightarrow> (\<exists>b'. buf_fill rd b = Some (-1, b') \<and> buf_ok b' \<and> buf_view b' = buf_view b)
     | Some bs \<Rightarrow> (\<exists>b'. buf_fill rd b = Some (int (length bs), b') \<and> buf_ok b' \<and>
                     buf_view b' = buf_view b @ bs)"
    proof (cases "rd space")
      case None
      with fill c_ok c_view show ?thesis by auto
    next
      case (Some bs)
      with rd have "length bs \<le> space" by (auto simp: read_ok_def)
      from put [OF this] fill Some c_ok c_view show ?thesis by auto
    qed
  qed
qed

section \<open>The buffer as a byte queue\<close>

text \<open>
  What a parser may rely on when it removes bytes: the interface of a byte queue whose
  front can be dropped. The lemma inside is the loop that skips a prefix one byte at a time.
\<close>

locale byte_queue =
  fixes inv :: "'q \<Rightarrow> bool"
    and bytes :: "'q \<Rightarrow> 'b list"
    and front :: "'q \<Rightarrow> 'b option"
    and consume :: "'q \<Rightarrow> nat \<Rightarrow> 'q option"
  assumes front_law: "inv q \<Longrightarrow> bytes q = x # xs \<Longrightarrow> front q = Some x"
    and consume_law: "inv q \<Longrightarrow> n \<le> length (bytes q) \<Longrightarrow>
      \<exists>q'. consume q n = Some q' \<and> inv q' \<and> bytes q' = drop n (bytes q)"
begin

lemma consume_step:
  assumes "inv q" and "bytes q = x # xs"
  obtains q' where "front q = Some x" and "consume q 1 = Some q'" and "inv q'" and "bytes q' = xs"
  using assms front_law consume_law [of q 1] by auto

lemma consume_twice:
  assumes q: "inv q" and mn: "m + n \<le> length (bytes q)"
  shows "\<exists>q1 q2. consume q m = Some q1 \<and> consume q1 n = Some q2 \<and> inv q2 \<and>
    bytes q2 = drop (m + n) (bytes q)"
proof -
  from mn have "m \<le> length (bytes q)" by simp
  from consume_law [OF q this] obtain q1 where
    q1: "consume q m = Some q1" "inv q1" "bytes q1 = drop m (bytes q)" by blast
  from mn q1(3) have "n \<le> length (bytes q1)" by simp
  from consume_law [OF q1(2) this] q1 show ?thesis
    by (auto simp: add.commute)
qed

end

interpretation bufq: byte_queue buf_ok buf_view "\<lambda>b. buf_chr b 0" buf_consume
proof
  fix b x xs
  assume "buf_ok b" and "buf_view b = x # xs"
  then show "buf_chr b 0 = Some x"
    using length_buf_view [of b] by (subst buf_chr_view) auto
next
  fix b n
  assume "buf_ok b" and "n \<le> length (buf_view b)"
  then show "\<exists>b'. buf_consume b n = Some b' \<and> buf_ok b' \<and> buf_view b' = drop n (buf_view b)"
    using buf_consume_view [of b n] by auto
qed

section \<open>Properties\<close>

text \<open>
  \<^verbatim>\<open>buf_fill\<close> on a well-formed buffer that is not full never fails: it asks \<^verbatim>\<open>read\<close> for at least one
  byte, appends exactly the bytes it got to the live bytes, and leaves them alone at end of
  file or on an error. Moving the window to the front of the array loses nothing.
\<close>

theorem buf_fill_appends:
  assumes "buf_ok b" and "read_ok rd" and "buf_length b < BUF_LEN_MAX"
  shows "\<exists>space n b'. 0 < space \<and> buf_fill rd b = Some (n, b') \<and> buf_ok b' \<and>
    (case rd space of None \<Rightarrow> n = -1 \<and> buf_view b' = buf_view b
     | Some bs \<Rightarrow> n = int (length bs) \<and> buf_view b' = buf_view b @ bs)"
proof -
  from buf_fill_view [OF assms] obtain space where "0 < space" and
    "case rd space of
       None \<Rightarrow> (\<exists>b'. buf_fill rd b = Some (-1, b') \<and> buf_ok b' \<and> buf_view b' = buf_view b)
     | Some bs \<Rightarrow> (\<exists>b'. buf_fill rd b = Some (int (length bs), b') \<and> buf_ok b' \<and> buf_view b' = buf_view b @ bs)"
    by blast
  then show ?thesis by (intro exI [of _ space]) (auto split: option.splits)
qed

definition sample_read :: read_fn where
  "sample_read n = Some (take n [1, 2, 3])"

theorem buf_fill_appends_witness:
  "\<exists>space n b'. 0 < space \<and> buf_fill sample_read BUF_INIT = Some (n, b') \<and> buf_ok b' \<and>
    (case sample_read space of None \<Rightarrow> n = -1 \<and> buf_view b' = buf_view BUF_INIT
     | Some bs \<Rightarrow> n = int (length bs) \<and> buf_view b' = buf_view BUF_INIT @ bs)"
proof (rule buf_fill_appends)
  show "read_ok sample_read" by (simp add: read_ok_def sample_read_def)
  show "buf_length BUF_INIT < BUF_LEN_MAX" by (simp add: BUF_INIT_def BUF_LEN_MAX_def)
qed simp

text \<open>
  \<^verbatim>\<open>buf_consume\<close> drops bytes from the front of the live bytes when there are that many, and
  otherwise aborts.
\<close>

theorem buf_consume_drops:
  assumes "buf_ok b"
  shows "if n \<le> buf_length b
    then \<exists>b'. buf_consume b n = Some b' \<and> buf_ok b' \<and> buf_view b' = drop n (buf_view b)
    else buf_consume b n = None"
  using buf_consume_view [OF assms, of n] buf_consume_too_much [of b n] by auto

theorem buf_consume_drops_witness:
  "if 2 \<le> buf_length BUF_INIT
   then \<exists>b'. buf_consume BUF_INIT 2 = Some b' \<and> buf_ok b' \<and> buf_view b' = drop 2 (buf_view BUF_INIT)
   else buf_consume BUF_INIT 2 = None"
  by (rule buf_consume_drops) simp

end
