(* ===== verification/Format.thy ===== *)
theory Format
  imports Buf Packet
begin

text \<open>
  What every wire format shares: the parser state of a connection, the types of parsers and
  serializers, and the two interfaces \<open>parser_contract\<close> and \<open>serializer_contract\<close> that the
  receive and send flows rely on. Each format interprets them on its own definitions.
\<close>

section \<open>The parser state of a connection\<close>

text \<open>
  \<^verbatim>\<open>receive->parser_state\<close> is 256 bytes of memory every parser casts to its own structure.
  The structures of the formats overlay each other field by field: \<^verbatim>\<open>airspy_adsb\<close> and
  \<^verbatim>\<open>beast\<close> use the leading \<^verbatim>\<open>mlat_state\<close>, \<^verbatim>\<open>json\<close> and \<^verbatim>\<open>proto\<close> the same five fields in
  the same order. One record stands for the memory, so a field one parser writes is the field
  the next parser reads. A new connection starts with all bytes zero.
\<close>

record parser_state =
  mlat_state :: packet_mlat_state
  mlat_timestamp_mhz :: u16
  mlat_timestamp_max :: u64
  rssi_max :: u32
  have_header :: bool

definition parser_state_zero :: parser_state where
  "parser_state_zero = \<lparr>mlat_state = \<lparr>timestamp_last = 0, timestamp_generation = 0\<rparr>,
     mlat_timestamp_mhz = 0, mlat_timestamp_max = 0, rssi_max = 0, have_header = False\<rparr>"

text \<open>Once a header is accepted the scaling factors are usable: no assertion on them fails.\<close>

definition parser_state_ok :: "parser_state \<Rightarrow> bool" where
  "parser_state_ok st \<longleftrightarrow> (have_header st \<longrightarrow> 0 < mlat_timestamp_mhz st \<and> 0 < rssi_max st)"

lemma parser_state_ok_zero [simp]: "parser_state_ok parser_state_zero"
  by (simp add: parser_state_ok_def parser_state_zero_def)

lemma parser_state_ok_mlat [simp]: "parser_state_ok (st\<lparr>mlat_state := m\<rparr>) = parser_state_ok st"
  by (simp add: parser_state_ok_def)

section \<open>Parsers\<close>

text \<open>
  A parser reads the buffer and updates buffer, packet and parser state; its Boolean result
  says whether a frame was recognised. On \<open>False\<close> packet and state may have been scribbled on.
\<close>

type_synonym parser = "buf \<Rightarrow> packet \<Rightarrow> parser_state \<Rightarrow> (bool \<times> buf \<times> packet \<times> parser_state) option"

text \<open>The operator \<^verbatim>\<open>||\<close> between two parser calls on the same arguments.\<close>

definition parse_or :: "parser \<Rightarrow> parser \<Rightarrow> parser" where
  "parse_or f g b p st = do {
     (ok, b, p, st) \<leftarrow> f b p st;
     if ok then Some (True, b, p, st) else g b p st
   }"

text \<open>What the receive loop sets up: a packet whose source is the connection's own id.\<close>

definition packet_ready :: "packet \<Rightarrow> bool" where
  "packet_ready p \<longleftrightarrow> (\<exists>s. source_id p = Some s \<and> valid_id s) \<and>
     length (payload p) = PACKET_PAYLOAD_LEN_MAX \<and> mlat_timestamp p \<le> PACKET_MLAT_MAX"

text \<open>What a parser may leave in the packet, whatever it returns.\<close>

definition packet_frame :: "packet \<Rightarrow> packet \<Rightarrow> bool" where
  "packet_frame p p' \<longleftrightarrow> length (payload p') = PACKET_PAYLOAD_LEN_MAX \<and> input_stat p' = input_stat p"

text \<open>\<open>b'\<close> is \<open>b\<close> with a non-empty prefix of its bytes consumed.\<close>

definition consumed :: "buf \<Rightarrow> buf \<Rightarrow> bool" where
  "consumed b b' \<longleftrightarrow> buf_ok b' \<and> buf_length b' < buf_length b \<and>
     (\<exists>n. 0 < n \<and> n \<le> buf_length b \<and> buf_view b' = drop n (buf_view b))"

definition parse_result_ok :: "buf \<Rightarrow> packet \<Rightarrow> bool \<times> buf \<times> packet \<times> parser_state \<Rightarrow> bool" where
  "parse_result_ok b p r = (case r of (ok, b', p', st') \<Rightarrow>
     parser_state_ok st' \<and> packet_frame p p' \<and>
     (if ok then consumed b b' \<and> (ptype p' = PACKET_TYPE_NONE \<or> packet_sane p') else b' = b))"

locale parser_contract =
  fixes parse :: parser
  assumes parse_returns:
    "buf_ok b \<Longrightarrow> packet_ready p \<Longrightarrow> parser_state_ok st \<Longrightarrow>
      \<exists>r. parse b p st = Some r \<and> parse_result_ok b p r"
begin

lemma parse_not_stuck:
  assumes "buf_ok b" "packet_ready p" "parser_state_ok st"
  shows "parse b p st \<noteq> None"
  using parse_returns [OF assms] by auto

lemma parse_True:
  assumes "buf_ok b" "packet_ready p" "parser_state_ok st" and "parse b p st = Some (True, b', p', st')"
  shows "consumed b b'" "parser_state_ok st'" "input_stat p' = input_stat p"
    "ptype p' = PACKET_TYPE_NONE \<or> packet_sane p'"
  using parse_returns [OF assms(1-3)] assms(4) by (auto simp: parse_result_ok_def packet_frame_def)

lemma parse_False:
  assumes "buf_ok b" "packet_ready p" "parser_state_ok st" and "parse b p st = Some (False, b', p', st')"
  shows "b' = b" "parser_state_ok st'"
  using parse_returns [OF assms(1-3)] assms(4) by (auto simp: parse_result_ok_def)

end

text \<open>
  A parser that may be followed by another on the same packet: after a failure the packet is
  still ready.
\<close>

locale chained_parser = parser_contract +
  assumes parse_keeps:
    "buf_ok b \<Longrightarrow> packet_ready p \<Longrightarrow> parser_state_ok st \<Longrightarrow>
      parse b p st = Some (False, b', p', st') \<Longrightarrow> packet_ready p'"
begin

lemma chain_cases:
  assumes "buf_ok b" "packet_ready p" "parser_state_ok st"
  obtains (accept) b' p' st' where "parse b p st = Some (True, b', p', st')"
      "parse_result_ok b p (True, b', p', st')"
  | (reject) p' st' where "parse b p st = Some (False, b, p', st')" "packet_ready p'"
      "parser_state_ok st'" "input_stat p' = input_stat p"
proof -
  from parse_returns [OF assms] obtain r where
    r: "parse b p st = Some r" "parse_result_ok b p r" by blast
  obtain ok b' p' st' where eq: "r = (ok, b', p', st')" by (cases r) auto
  show thesis
  proof (cases ok)
    case True
    with r eq show thesis by (intro accept) auto
  next
    case False
    with r eq have "b' = b" "parser_state_ok st'" "input_stat p' = input_stat p"
      by (auto simp: parse_result_ok_def packet_frame_def)
    with False r eq parse_keeps [OF assms] show thesis
      by (intro reject [of p' st']) auto
  qed
qed

end

lemma parse_result_ok_stat:
  "input_stat p = input_stat q \<Longrightarrow> parse_result_ok b p r = parse_result_ok b q r"
  by (simp add: parse_result_ok_def packet_frame_def split: prod.split)

lemma parse_or_chain:
  assumes "chained_parser f" and "chained_parser g"
  shows "chained_parser (parse_or f g)"
proof (unfold_locales, goal_cases)
  case (1 b p st)
  from chained_parser.chain_cases [OF assms(1) 1]
  consider (accept) r where "f b p st = Some (True, r)" "parse_result_ok b p (True, r)"
    | (reject) p' st' where "f b p st = Some (False, b, p', st')" "packet_ready p'"
      "parser_state_ok st'" "input_stat p' = input_stat p"
    by metis
  then show ?case
  proof cases
    case (reject p' st')
    from parser_contract.parse_returns [OF chained_parser.axioms(1) [OF assms(2)] 1(1) reject(2,3)]
    show ?thesis using reject(1) parse_result_ok_stat [OF reject(4)] by (auto simp: parse_or_def)
  qed (auto simp: parse_or_def)
next
  case (2 b p st b' p' st')
  from chained_parser.chain_cases [OF assms(1) 2(1-3)]
  consider (accept) r where "f b p st = Some (True, r)"
    | (reject) q s where "f b p st = Some (False, b, q, s)" "packet_ready q" "parser_state_ok s"
    by metis
  then show ?case
  proof cases
    case (reject q s)
    with 2(4) have "g b q s = Some (False, b', p', st')" by (simp add: parse_or_def)
    from chained_parser.parse_keeps [OF assms(2) 2(1) reject(2,3) this] show ?thesis .
  qed (use 2(4) in \<open>auto simp: parse_or_def split: prod.splits\<close>)
qed

lemma consumed_consume:
  assumes "buf_ok b" and "0 < n" and "n \<le> buf_length b" and "buf_consume b n = Some b'"
  shows "consumed b b'"
  using buf_consume_view [OF assms(1,3)] assms(2-4) by (auto simp: consumed_def)

lemma buf_consume_Some:
  assumes "buf_ok b" and "0 < n" and "n \<le> buf_length b"
  obtains b' where "buf_consume b n = Some b'" and "consumed b b'" and "buf_view b' = drop n (buf_view b)"
  using buf_consume_view [OF assms(1,3)] consumed_consume [OF assms] by blast

section \<open>Serializers\<close>

text \<open>
  A serializer writes a packet into a buffer that was just initialised. Its contract: a packet
  that passed the sanity check is written without leaving the array.
\<close>

type_synonym serializer_fn = "packet \<Rightarrow> buf \<Rightarrow> buf option"

definition buf_fresh :: "buf \<Rightarrow> bool" where
  "buf_fresh b \<longleftrightarrow> buf_ok b \<and> buf_start b = 0 \<and> buf_length b = 0"

lemma buf_fresh_INIT [simp]: "buf_fresh BUF_INIT"
  by (simp add: buf_fresh_def) (simp add: BUF_INIT_def)

definition packet_full :: "packet \<Rightarrow> bool" where
  "packet_full p \<longleftrightarrow> packet_sane p \<and> length (payload p) = PACKET_PAYLOAD_LEN_MAX"

locale serializer_contract =
  fixes serialize :: serializer_fn
  assumes serialize_returns:
    "packet_full p \<Longrightarrow> buf_fresh b \<Longrightarrow> \<exists>b'. serialize p b = Some b' \<and> buf_ok b'"
begin

lemma serialize_bounded:
  assumes "packet_full p" and "serialize p BUF_INIT = Some b'"
  shows "length (buf_view b') \<le> BUF_LEN_MAX"
  using serialize_returns [OF assms(1) buf_fresh_INIT] assms(2)
  by (auto simp: BUF_LEN_MAX_def buf_view_bound)

end

text \<open>
  Building a frame by stores into a fresh buffer: the view is the prefix of the array, and a
  block store inside the array never fails.
\<close>

definition c_ne :: "u8 option \<Rightarrow> u8 \<Rightarrow> bool option" where
  "c_ne x v = map_option (\<lambda>c. c \<noteq> v) x"

definition c_eq :: "u8 option \<Rightarrow> u8 \<Rightarrow> bool option" where
  "c_eq x v = map_option (\<lambda>c. c = v) x"

lemma c_ne_Some [simp]: "c_ne (Some c) v = Some (c \<noteq> v)" "c_eq (Some c) v = Some (c = v)"
  by (simp_all add: c_ne_def c_eq_def)

text \<open>The line end \<^verbatim>\<open>\n\<close> or \<^verbatim>\<open>\r\n\<close> at index \<open>i\<close>, and the C condition that tests for it.\<close>

definition line_end :: "nat \<Rightarrow> u8 list \<Rightarrow> nat option" where
  "line_end i v =
     (if i + 1 \<le> length v \<and> v ! i = 10 then Some 1
      else if i + 2 \<le> length v \<and> v ! i = 13 \<and> v ! (i + 1) = 10 then Some 2
      else None)"

lemma line_end_bounds: "line_end i v = Some e \<Longrightarrow> i + e \<le> length v \<and> (e = 1 \<or> e = 2)"
  by (auto simp: line_end_def split: if_splits)

lemma line_end_byte: "line_end i v = Some e \<Longrightarrow> e = (if v ! i = 13 then 2 else 1)"
  by (auto simp: line_end_def split: if_splits)

lemma line_end_check:
  assumes ok: "buf_ok b" and idx: "m = i + 1" "n = i + 2" "j = i + 1"
  shows "c_and (c_or (Some (buf_length b < m)) (c_ne (buf_chr b i) 10))
               (c_or (c_or (Some (buf_length b < n)) (c_ne (buf_chr b i) 13)) (c_ne (buf_chr b j) 10)) =
    Some (line_end i (buf_view b) = None)"
proof -
  have len: "length (buf_view b) = buf_length b" using ok by simp
  consider "buf_length b < i + 1" | "buf_length b = i + 1" | "i + 2 \<le> buf_length b" by linarith
  then show ?thesis
    using buf_chr_view [OF ok, of i] buf_chr_view [OF ok, of "i + 1"] len idx
    by cases (auto simp: line_end_def)
qed

text \<open>The remaining operands of the test are only read when the frame is long enough.\<close>

lemma c_or_check:
  assumes "x = Some v" and "\<not> v \<Longrightarrow> y = Some w"
  shows "c_or x y = Some (v \<or> w)"
  using assms by (cases v) auto

lemma length_payload_len: "packet_payload_len t \<le> PACKET_PAYLOAD_LEN_MAX"
  by (cases t) (simp_all add: PACKET_PAYLOAD_LEN_MAX_def)

lemma packet_payload_len_le: "packet_payload_len t \<le> 14"
  by (cases t) simp_all

section \<open>Sample values\<close>

text \<open>A packet and the empty packet of a receiving connection, for evaluating the properties.\<close>

definition sample_id :: "u8 list" where
  "sample_id = [97, 98, 99, 0]"

definition sample_packet :: packet where
  "sample_packet = \<lparr>source_id = Some sample_id, input_stat = \<lparr>st_dev = 1, st_ino = 2\<rparr>, ptype = PACKET_TYPE_MODE_S_SHORT,
     hops = 1, payload = [26, 2, 3, 4, 5, 26, 7] @ replicate 7 0, mlat_timestamp = 1200, rssi = 65537\<rparr>"

definition sample_empty :: packet where
  "sample_empty = \<lparr>source_id = Some sample_id, input_stat = \<lparr>st_dev = 1, st_ino = 2\<rparr>, ptype = PACKET_TYPE_NONE,
     hops = 0, payload = replicate 14 0, mlat_timestamp = 0, rssi = 0\<rparr>"

lemma sample_id_valid: "valid_id sample_id"
  unfolding packet_validate_id_True_iff [symmetric] by code_simp

lemma sample_packet_full: "packet_full sample_packet"
  using sample_id_valid
  by (simp add: packet_full_def packet_sane_def sample_packet_def PACKET_PAYLOAD_LEN_MAX_def PACKET_MLAT_MAX_def INT64_MAX_def)

lemma sample_empty_ready: "packet_ready sample_empty"
  using sample_id_valid
  by (simp add: packet_ready_def sample_empty_def PACKET_PAYLOAD_LEN_MAX_def PACKET_MLAT_MAX_def INT64_MAX_def)

end
