(* ===== verification/Raw.thy ===== *)
theory Raw
  imports Format
begin

text \<open>
  Model of \<^verbatim>\<open>adsbus/raw.c\<close>, the raw (AVR) text format: \<^verbatim>\<open>*\<close>, the payload in hex, \<^verbatim>\<open>;\<close> and
  a line end. The overlay structure is written out as offsets from its start: the
  semicolon at 0, the carriage return or line feed at 1, the second line-end byte at 2.
\<close>

definition raw_overlay_size :: nat where
  "raw_overlay_size = 3"

definition raw_parse_packet :: "buf \<Rightarrow> packet \<Rightarrow> packet_type \<Rightarrow> (bool \<times> buf \<times> packet) option" where
  "raw_parse_packet b p t =
     (let payload_bytes = packet_payload_len t;
          overlay_start = 1 + payload_bytes * 2;
          semicolon = buf_chr b overlay_start;
          cr_lf = buf_chr b (overlay_start + 1);
          lf = buf_chr b (overlay_start + 2);
          total_len = overlay_start + raw_overlay_size
      in do {
        bad \<leftarrow> c_or (c_or
          (c_and (c_or (Some (buf_length b < total_len - 1)) (c_ne cr_lf 10))
                 (c_or (c_or (Some (buf_length b < total_len)) (c_ne cr_lf 13)) (c_ne lf 10)))
          (c_ne (buf_chr b 0) 42))
          (c_ne semicolon 59);
        if bad then Some (False, b, p)
        else do {
          inp \<leftarrow> buf_get b 1 (2 * payload_bytes);
          (ok, out) \<leftarrow> hex_to_bin (payload p) inp payload_bytes;
          let p = p\<lparr>payload := out\<rparr>;
          if \<not> ok then Some (False, b, p)
          else do {
            let p = p\<lparr>ptype := t\<rparr>;
            c \<leftarrow> cr_lf;
            b \<leftarrow> buf_consume b (if c = 13 then total_len else total_len - 1);
            Some (True, b, p)
          }
        }
      })"

definition raw_parse :: parser where
  "raw_parse b p st = do {
     (ok, b, p) \<leftarrow> raw_parse_packet b p PACKET_TYPE_MODE_AC;
     if ok then Some (True, b, p, st)
     else do {
       (ok, b, p) \<leftarrow> raw_parse_packet b p PACKET_TYPE_MODE_S_SHORT;
       if ok then Some (True, b, p, st)
       else do {
         (ok, b, p) \<leftarrow> raw_parse_packet b p PACKET_TYPE_MODE_S_LONG;
         Some (ok, b, p, st)
       }
     }
   }"

definition raw_serialize :: serializer_fn where
  "raw_serialize p b =
     (let payload_bytes = packet_payload_len (ptype p);
          overlay_start = 1 + payload_bytes * 2;
          total_len = overlay_start + raw_overlay_size
      in do {
        b \<leftarrow> buf_set_chr b 0 42;
        b \<leftarrow> buf_set_chr b overlay_start 59;
        b \<leftarrow> buf_set_chr b (overlay_start + 1) 10;
        hex \<leftarrow> hex_from_bin_upper (payload p) payload_bytes;
        b \<leftarrow> buf_put b 1 hex;
        Some (b\<lparr>buf_length := total_len - 1\<rparr>)
      })"

text \<open>\<^verbatim>\<open>raw_init\<close> only asserts that the longest frame fits.\<close>

definition raw_init :: "unit option" where
  "raw_init = c_assert (1 + PACKET_PAYLOAD_LEN_MAX + raw_overlay_size < BUF_LEN_MAX)"

section \<open>The frame on the wire\<close>

text \<open>The number of bytes of the frame of type \<open>t\<close> at the front of \<open>v\<close>, payload unchecked.\<close>

definition raw_match :: "packet_type \<Rightarrow> u8 list \<Rightarrow> nat option" where
  "raw_match t v = (let os = 1 + packet_payload_len t * 2 in
     case line_end (os + 1) v of None \<Rightarrow> None
     | Some e \<Rightarrow> if v ! 0 = 42 \<and> v ! os = 59 then Some (os + 1 + e) else None)"

lemma raw_match_bounds:
  "raw_match t v = Some n \<Longrightarrow> n \<le> length v \<and> 1 + packet_payload_len t * 2 + 2 \<le> n"
  by (auto simp: raw_match_def Let_def dest: line_end_bounds split: option.splits if_splits)

lemma raw_parse_packet_spec:
  assumes ok: "buf_ok b" and pl: "length (payload p) = PACKET_PAYLOAD_LEN_MAX"
  shows "\<exists>out. length out = PACKET_PAYLOAD_LEN_MAX \<and>
    (case raw_match t (buf_view b) of
       None \<Rightarrow> raw_parse_packet b p t = Some (False, b, p)
     | Some n \<Rightarrow>
         (if hex_ok (tl (buf_view b)) (packet_payload_len t)
          then out = hex_decode (tl (buf_view b)) (packet_payload_len t) @
                 drop (packet_payload_len t) (payload p) \<and>
               (\<exists>b'. buf_consume b n = Some b' \<and>
                 raw_parse_packet b p t = Some (True, b', p\<lparr>payload := out, ptype := t\<rparr>))
          else raw_parse_packet b p t = Some (False, b, p\<lparr>payload := out\<rparr>)))"
proof -
  let ?n = "packet_payload_len t" and ?v = "buf_view b"
  let ?os = "1 + ?n * 2"
  let ?bad = "c_or (c_or
          (c_and (c_or (Some (buf_length b < ?os + 3 - 1)) (c_ne (buf_chr b (?os + 1)) 10))
                 (c_or (c_or (Some (buf_length b < ?os + 3)) (c_ne (buf_chr b (?os + 1)) 13)) (c_ne (buf_chr b (?os + 2)) 10)))
          (c_ne (buf_chr b 0) 42))
          (c_ne (buf_chr b ?os) 59)"
  have len: "length ?v = buf_length b" using ok by simp
  have bad: "?bad = Some (raw_match t ?v = None)"
  proof -
    have "?bad = Some ((line_end (?os + 1) ?v = None \<or> ?v ! 0 \<noteq> 42) \<or> ?v ! ?os \<noteq> 59)"
      using buf_chr_view [OF ok, of 0] buf_chr_view [OF ok, of ?os]
      by (intro c_or_check line_end_check [OF ok])
         (auto simp: len dest!: line_end_bounds)
    then show ?thesis by (auto simp: raw_match_def Let_def split: option.split)
  qed
  have run: "raw_parse_packet b p t = (if raw_match t ?v = None then Some (False, b, p)
        else do {
          inp \<leftarrow> buf_get b 1 (2 * ?n);
          (ok, out) \<leftarrow> hex_to_bin (payload p) inp ?n;
          if \<not> ok then Some (False, b, p\<lparr>payload := out\<rparr>)
          else do {
            c \<leftarrow> buf_chr b (?os + 1);
            b \<leftarrow> buf_consume b (if c = 13 then ?os + 3 else ?os + 3 - 1);
            Some (True, b, p\<lparr>payload := out, ptype := t\<rparr>)
          }
        })"
    unfolding raw_parse_packet_def Let_def raw_overlay_size_def bad Option.bind.bind_lunit ..
  show ?thesis
  proof (cases "raw_match t ?v")
    case None
    with bad pl show ?thesis
      by (intro exI [of _ "payload p"]) (simp add: run)
  next
    case (Some m)
    with raw_match_bounds [OF this] len have m: "m \<le> buf_length b" "1 + 2 * ?n + 2 \<le> m" by auto
    let ?inp = "take (2 * ?n) (tl ?v)"
    have inp: "buf_get b 1 (2 * ?n) = Some ?inp" using m buf_get_view [OF ok, of 1 "2 * ?n"] by (simp add: drop_Suc)
    have "2 * ?n \<le> length ?inp" "?n \<le> length (payload p)"
      using m len pl length_payload_len [of t] by auto
    from hex_to_bin_spec [OF this] obtain okh out where
      h: "hex_to_bin (payload p) ?inp ?n = Some (okh, out)" "length out = length (payload p)"
        "okh \<longleftrightarrow> hex_ok ?inp ?n" "okh \<longrightarrow> out = hex_decode ?inp ?n @ drop ?n (payload p)"
      by blast
    have hx: "hex_ok ?inp ?n = hex_ok (tl ?v) ?n" "hex_decode ?inp ?n = hex_decode (tl ?v) ?n"
      by (auto simp: hex_ok_def hex_decode_def)
    have cr: "buf_chr b (?os + 1) = Some (?v ! (?os + 1))"
      using m by (intro buf_chr_view [OF ok]) simp
    have tot: "(if ?v ! (?os + 1) = 13 then ?os + 3 else ?os + 3 - 1) = m"
      using Some by (auto simp: raw_match_def Let_def dest!: line_end_byte split: option.splits if_splits)
    have run': "raw_parse_packet b p t = do {
          (ok, out) \<leftarrow> hex_to_bin (payload p) ?inp ?n;
          if \<not> ok then Some (False, b, p\<lparr>payload := out\<rparr>)
          else do {
            b \<leftarrow> buf_consume b m;
            Some (True, b, p\<lparr>payload := out, ptype := t\<rparr>)
          }
        }"
      unfolding run inp cr Option.bind.bind_lunit tot using Some by simp
    from buf_consume_view [OF ok m(1)] obtain b' where b': "buf_consume b m = Some b'" by blast
    show ?thesis
    proof (intro exI [of _ out] conjI)
      show "length out = PACKET_PAYLOAD_LEN_MAX" using h(2) pl by simp
      show "case raw_match t ?v of
          None \<Rightarrow> raw_parse_packet b p t = Some (False, b, p)
        | Some n \<Rightarrow>
         (if hex_ok (tl ?v) ?n
          then out = hex_decode (tl ?v) ?n @ drop ?n (payload p) \<and>
               (\<exists>b'. buf_consume b n = Some b' \<and>
                 raw_parse_packet b p t = Some (True, b', p\<lparr>payload := out, ptype := t\<rparr>))
          else raw_parse_packet b p t = Some (False, b, p\<lparr>payload := out\<rparr>))"
        using Some h b' by (auto simp: run' hx)
    qed
  qed
qed

section \<open>The parser contract\<close>

lemma raw_parse_packet_contract:
  assumes ok: "buf_ok b" and pl: "length (payload p) = PACKET_PAYLOAD_LEN_MAX"
  shows "\<exists>okr b' out. length out = PACKET_PAYLOAD_LEN_MAX \<and>
    raw_parse_packet b p t =
      Some (okr, b', if okr then p\<lparr>payload := out, ptype := t\<rparr> else p\<lparr>payload := out\<rparr>) \<and>
    (if okr then consumed b b' else b' = b)"
proof -
  from raw_parse_packet_spec [OF assms, of t] obtain out where
    out: "length out = PACKET_PAYLOAD_LEN_MAX"
    and r: "case raw_match t (buf_view b) of
       None \<Rightarrow> raw_parse_packet b p t = Some (False, b, p)
     | Some n \<Rightarrow>
         (if hex_ok (tl (buf_view b)) (packet_payload_len t)
          then out = hex_decode (tl (buf_view b)) (packet_payload_len t) @
                 drop (packet_payload_len t) (payload p) \<and>
               (\<exists>b'. buf_consume b n = Some b' \<and>
                 raw_parse_packet b p t = Some (True, b', p\<lparr>payload := out, ptype := t\<rparr>))
          else raw_parse_packet b p t = Some (False, b, p\<lparr>payload := out\<rparr>))" by blast
  show ?thesis
  proof (cases "raw_match t (buf_view b)")
    case None
    with r pl show ?thesis
      by (intro exI [of _ False] exI [of _ b] exI [of _ "payload p"]) simp
  next
    case (Some n)
    from raw_match_bounds [OF Some] ok have n: "0 < n" "n \<le> buf_length b" by auto
    show ?thesis
    proof (cases "hex_ok (tl (buf_view b)) (packet_payload_len t)")
      case True
      with r Some obtain b' where "buf_consume b n = Some b'"
        "raw_parse_packet b p t = Some (True, b', p\<lparr>payload := out, ptype := t\<rparr>)" by auto
      with consumed_consume [OF ok n] out show ?thesis
        by (intro exI [of _ True] exI [of _ b'] exI [of _ out]) simp
    next
      case False
      with r Some out show ?thesis
        by (intro exI [of _ False] exI [of _ b] exI [of _ out]) simp
    qed
  qed
qed

lemma raw_parse_packet_cases:
  assumes "buf_ok b" and "length (payload p) = PACKET_PAYLOAD_LEN_MAX"
  obtains (accept) b' out where "raw_parse_packet b p t = Some (True, b', p\<lparr>payload := out, ptype := t\<rparr>)"
      "length out = PACKET_PAYLOAD_LEN_MAX" "consumed b b'"
  | (reject) out where "raw_parse_packet b p t = Some (False, b, p\<lparr>payload := out\<rparr>)"
      "length out = PACKET_PAYLOAD_LEN_MAX"
  using raw_parse_packet_contract [OF assms, of t] by (force split: if_splits)

interpretation raw: parser_contract raw_parse
proof
  fix b p st
  assume b: "buf_ok b" and p: "packet_ready p" and st: "parser_state_ok st"
  from p have pl: "length (payload p) = PACKET_PAYLOAD_LEN_MAX" by (simp add: packet_ready_def)
  have sane: "packet_sane (p\<lparr>payload := out, ptype := t\<rparr>)" if "t \<noteq> PACKET_TYPE_NONE" for out t
    using p that by (auto simp: packet_ready_def packet_sane_def)
  show "\<exists>r. raw_parse b p st = Some r \<and> parse_result_ok b p r"
    using b pl
  proof (cases rule: raw_parse_packet_cases [where t = PACKET_TYPE_MODE_AC])
    case (accept b' out)
    with sane st show ?thesis by (simp add: raw_parse_def parse_result_ok_def packet_frame_def)
  next
    case r1: (reject out1)
    let ?p1 = "p\<lparr>payload := out1\<rparr>"
    have pl1: "length (payload ?p1) = PACKET_PAYLOAD_LEN_MAX" using r1(2) by simp
    from b pl1 show ?thesis
    proof (cases rule: raw_parse_packet_cases [where t = PACKET_TYPE_MODE_S_SHORT])
      case (accept b' out)
      with sane st r1 show ?thesis by (simp add: raw_parse_def parse_result_ok_def packet_frame_def)
    next
      case r2: (reject out2)
      let ?p2 = "?p1\<lparr>payload := out2\<rparr>"
      have pl2: "length (payload ?p2) = PACKET_PAYLOAD_LEN_MAX" using r2(2) by simp
      from b pl2 show ?thesis
        by (cases rule: raw_parse_packet_cases [where t = PACKET_TYPE_MODE_S_LONG])
           (use sane st r1 r2 in \<open>simp_all add: raw_parse_def parse_result_ok_def packet_frame_def\<close>)
    qed
  qed
qed

section \<open>The serializer contract and the bytes written\<close>

definition raw_frame :: "packet \<Rightarrow> u8 list" where
  "raw_frame p = [42] @ hex_encode hex_upper_table (payload p) (packet_payload_len (ptype p)) @ [59, 10]"

lemma raw_serialize_spec:
  assumes p: "length (payload p) = PACKET_PAYLOAD_LEN_MAX" and b: "buf_fresh b"
  shows "\<exists>b'. raw_serialize p b = Some b' \<and> buf_fresh (b'\<lparr>buf_length := 0\<rparr>) \<and> buf_ok b' \<and>
    buf_view b' = raw_frame p"
proof -
  let ?n = "packet_payload_len (ptype p)"
  let ?hex = "hex_encode hex_upper_table (payload p) ?n"
  let ?d = "list_put ((buf_data b)[0 := 42, 1 + ?n * 2 := 59, 1 + ?n * 2 + 1 := 10]) 1 ?hex"
  have n: "?n \<le> 14" "?n \<le> length (payload p)"
    using packet_payload_len_le p length_payload_len by auto
  have hex: "hex_from_bin_upper (payload p) ?n = Some ?hex" "length ?hex = 2 * ?n"
    using hex_encode(1,2) [OF hex_tables(1) n(2)] by (simp_all add: hex_from_bin_upper_def)
  have d: "length (buf_data b) = 256" "buf_start b = 0" "buf_length b = 0"
    using b by (auto simp: buf_fresh_def buf_ok_def BUF_LEN_MAX_def)
  have ser: "raw_serialize p b = Some (b\<lparr>buf_data := ?d, buf_length := ?n * 2 + 3\<rparr>)"
    using n hex d
    by (simp add: raw_serialize_def buf_set_chr_def c_upd_def buf_put_def raw_overlay_size_def Let_def)
  have len: "length ?d = 256" using n hex d by simp
  have "take (?n * 2 + 3) ?d = raw_frame p"
  proof (rule nth_equalityI)
    show "length (take (?n * 2 + 3) ?d) = length (raw_frame p)"
      using n hex len by (simp add: raw_frame_def)
  next
    fix i assume "i < length (take (?n * 2 + 3) ?d)"
    then have "i < ?n * 2 + 3" by simp
    then show "take (?n * 2 + 3) ?d ! i = raw_frame p ! i"
      using n hex d
      by (auto simp: raw_frame_def nth_list_put nth_append nth_list_update nth_Cons' less_Suc_eq)
  qed
  then show ?thesis
    using ser len n d
    by (auto simp: buf_fresh_def buf_ok_def buf_view_def BUF_LEN_MAX_def)
qed

interpretation raw: serializer_contract raw_serialize
proof
  fix p :: packet and b
  assume "packet_full p" and "buf_fresh b"
  then show "\<exists>b'. raw_serialize p b = Some b' \<and> buf_ok b'"
    using raw_serialize_spec [of p b] by (auto simp: packet_full_def)
qed

section \<open>Round trip\<close>

lemma nth_frame:
  "length h = m \<Longrightarrow> ([a] @ h @ [c, d] @ rest) ! 0 = a"
  "length h = m \<Longrightarrow> ([a] @ h @ [c, d] @ rest) ! (1 + m) = c"
  "length h = m \<Longrightarrow> ([a] @ h @ [c, d] @ rest) ! (1 + m + 1) = d"
  by (auto simp: nth_append)

lemma raw_parse_frame:
  assumes p: "length (payload p) = PACKET_PAYLOAD_LEN_MAX" and q: "length (payload q) = PACKET_PAYLOAD_LEN_MAX"
    and b: "buf_ok b" and v: "buf_view b = raw_frame p @ rest"
  shows "\<exists>b'. buf_view b' = rest \<and> buf_ok b' \<and> raw_parse_packet b q (ptype p) = Some (True, b',
    q\<lparr>payload := take (packet_payload_len (ptype p)) (payload p) @
        drop (packet_payload_len (ptype p)) (payload q), ptype := ptype p\<rparr>)"
proof -
  let ?n = "packet_payload_len (ptype p)"
  let ?hex = "hex_encode hex_upper_table (payload p) ?n"
  have n: "?n \<le> length (payload p)" using p length_payload_len by auto
  have hl: "length ?hex = ?n * 2" using hex_encode(2) [OF hex_tables(1) n] by simp
  have v': "buf_view b = [42] @ ?hex @ [59, 10] @ rest" by (simp add: v raw_frame_def)
  have m: "raw_match (ptype p) (buf_view b) = Some (length (raw_frame p))"
    using nth_frame [OF hl, of 42 59 10 rest] hl
    by (simp add: raw_match_def line_end_def v' Let_def raw_frame_def)
  have d: "tl (buf_view b) = ?hex @ ([59, 10] @ rest)" by (simp add: v')
  have h: "hex_ok (tl (buf_view b)) ?n" "hex_decode (tl (buf_view b)) ?n = take ?n (payload p)"
    unfolding d by (rule hex_encode(3,4) [OF hex_tables(1) n])+
  have "length (raw_frame p) \<le> buf_length b" using raw_match_bounds [OF m] b by simp
  from buf_consume_view [OF b this] v obtain b' where
    "buf_consume b (length (raw_frame p)) = Some b'" "buf_view b' = rest" "buf_ok b'" by auto
  with raw_parse_packet_spec [OF b q, of "ptype p"] m h show ?thesis by auto
qed

text \<open>A frame of one type is not mistaken for a frame of a shorter type.\<close>

lemma raw_match_shorter:
  assumes p: "length (payload p) = PACKET_PAYLOAD_LEN_MAX" and v: "v = raw_frame p @ rest"
    and t: "packet_payload_len t < packet_payload_len (ptype p)"
  shows "raw_match t v = None"
proof -
  let ?n = "packet_payload_len (ptype p)" and ?k = "packet_payload_len t * 2"
  have n: "?n \<le> length (payload p)" using p length_payload_len by auto
  have "v ! (1 + ?k) = hex_encode hex_upper_table (payload p) ?n ! ?k"
    using t hex_encode(2) [OF hex_tables(1) n] by (simp add: v raw_frame_def nth_append)
  then have "v ! (1 + ?k) \<noteq> 59" using hex_encode_no_semicolon [OF n] t by simp
  then show ?thesis by (simp add: raw_match_def Let_def split: option.split)
qed

lemma raw_parse_packet_shorter:
  assumes "buf_ok b" and "length (payload q) = PACKET_PAYLOAD_LEN_MAX"
    and "raw_match t (buf_view b) = None"
  shows "raw_parse_packet b q t = Some (False, b, q)"
  using raw_parse_packet_spec [OF assms(1,2), of t] assms(3) by auto

lemma raw_parse_frame_all:
  assumes p: "length (payload p) = PACKET_PAYLOAD_LEN_MAX" and q: "length (payload q) = PACKET_PAYLOAD_LEN_MAX"
    and b: "buf_ok b" and v: "buf_view b = raw_frame p @ rest" and t: "ptype p \<noteq> PACKET_TYPE_NONE"
  shows "\<exists>b'. buf_view b' = rest \<and> buf_ok b' \<and> raw_parse b q st = Some (True, b',
    q\<lparr>payload := take (packet_payload_len (ptype p)) (payload p) @
        drop (packet_payload_len (ptype p)) (payload q), ptype := ptype p\<rparr>, st)"
  using raw_parse_frame [OF p q b v] raw_match_shorter [OF p v] raw_parse_packet_shorter [OF b q] t
  by (cases "ptype p") (force simp: raw_parse_def)+

section \<open>Properties\<close>

text \<open>
  C30. A packet written by the raw serializer and received at the front of the buffer is parsed
  back: type and payload are restored, exactly its bytes are consumed, and what follows in the
  stream stays.
\<close>

theorem raw_roundtrip:
  assumes p: "packet_full p" and q: "packet_ready q" and s: "raw_serialize p BUF_INIT = Some f"
    and b: "buf_ok b" "buf_view b = buf_view f @ rest"
  shows "\<exists>b'. buf_ok b' \<and> buf_view b' = rest \<and> raw_parse b q st = Some (True, b',
    q\<lparr>payload := take (packet_payload_len (ptype p)) (payload p) @
        drop (packet_payload_len (ptype p)) (payload q), ptype := ptype p\<rparr>, st)"
proof -
  have l: "length (payload p) = PACKET_PAYLOAD_LEN_MAX" "length (payload q) = PACKET_PAYLOAD_LEN_MAX"
    "ptype p \<noteq> PACKET_TYPE_NONE"
    using p q by (simp_all add: packet_full_def packet_sane_def packet_ready_def)
  from raw_serialize_spec [OF l(1) buf_fresh_INIT] s have "buf_view f = raw_frame p" by auto
  with b(2) have "buf_view b = raw_frame p @ rest" by simp
  from raw_parse_frame_all [OF l(1,2) b(1) this l(3)] show ?thesis by blast
qed

theorem raw_roundtrip_witness:
  "\<exists>f b'. raw_serialize sample_packet BUF_INIT = Some f \<and> buf_ok b' \<and> buf_view b' = [] \<and>
    raw_parse f sample_empty parser_state_zero = Some (True, b',
      sample_empty\<lparr>payload := take (packet_payload_len (ptype sample_packet)) (payload sample_packet) @
        drop (packet_payload_len (ptype sample_packet)) (payload sample_empty),
        ptype := ptype sample_packet\<rparr>, parser_state_zero)"
proof -
  from raw.serialize_returns [OF sample_packet_full buf_fresh_INIT] obtain f where
    f: "raw_serialize sample_packet BUF_INIT = Some f" "buf_ok f" by blast
  from raw_roundtrip [OF sample_packet_full sample_empty_ready f(1,2), of "[]" parser_state_zero] f(1)
  show ?thesis by auto
qed

text \<open>
  The raw parser is safe on every input: whatever bytes are in the buffer, it returns, it reads and writes
  inside the arrays, it leaves the buffer alone when it rejects and consumes at least one byte
  when it accepts, and what it accepts passes the sanity check.
\<close>

theorem raw_parse_safe:
  assumes "buf_ok b" and "packet_ready p" and "parser_state_ok st"
  shows "\<exists>r. raw_parse b p st = Some r \<and> parse_result_ok b p r"
  by (rule raw.parse_returns [OF assms])

theorem raw_parse_safe_witness:
  "\<exists>r. raw_parse BUF_INIT sample_empty parser_state_zero = Some r \<and> parse_result_ok BUF_INIT sample_empty r"
  by (rule raw_parse_safe) (simp_all add: sample_empty_ready)

end
