(* ===== verification/Airspy.thy ===== *)
theory Airspy
  imports Format
begin

text \<open>
  Model of \<^verbatim>\<open>adsbus/airspy_adsb.c\<close>, the raw text format extended with an MLAT counter, its
  precision and the signal level. The packed overlay is written out as offsets from its start:
  four semicolons at 0, 9, 12 and 17, eight counter digits at 1, two precision digits at 10,
  four level digits at 13, the line end at 18 and 19.
\<close>

definition airspy_overlay_size :: nat where
  "airspy_overlay_size = 20"

definition SEND_MHZ :: u16 where
  "SEND_MHZ = 20"

definition airspy_adsb_parse_packet ::
    "buf \<Rightarrow> packet \<Rightarrow> parser_state \<Rightarrow> packet_type \<Rightarrow> (bool \<times> buf \<times> packet \<times> parser_state) option" where
  "airspy_adsb_parse_packet b p st t =
     (let payload_bytes = packet_payload_len t;
          overlay_start = 1 + payload_bytes * 2;
          total_len = overlay_start + airspy_overlay_size;
          cr_lf = buf_chr b (overlay_start + 18);
          lf = buf_chr b (overlay_start + 19)
      in do {
        bad \<leftarrow> c_or (c_or (c_or (c_or (c_or
          (c_and (c_or (Some (buf_length b < total_len - 1)) (c_ne cr_lf 10))
                 (c_or (c_or (Some (buf_length b < total_len)) (c_ne cr_lf 13)) (c_ne lf 10)))
          (c_ne (buf_chr b 0) 42))
          (c_ne (buf_chr b overlay_start) 59))
          (c_ne (buf_chr b (overlay_start + 9)) 59))
          (c_ne (buf_chr b (overlay_start + 12)) 59))
          (c_ne (buf_chr b (overlay_start + 17)) 59);
        if bad then Some (False, b, p, st)
        else do {
          precision \<leftarrow> buf_get b (overlay_start + 10) 2;
          pv \<leftarrow> hex_to_int precision 1;
          let mlat_mhz = 2 * (word_of_int pv :: u16);
          if mlat_mhz = 0 then Some (False, b, p, st)
          else do {
            digits \<leftarrow> buf_get b (overlay_start + 1) 8;
            mlat_timestamp_in \<leftarrow> hex_to_int digits 4;
            if mlat_timestamp_in < 0 then Some (False, b, p, st)
            else do {
              (ts, ms) \<leftarrow> packet_mlat_timestamp_scale_in (word_of_int mlat_timestamp_in) 0xffffffff
                             mlat_mhz (mlat_state st);
              let st = st\<lparr>mlat_state := ms\<rparr>;
              let p = p\<lparr>mlat_timestamp := ts\<rparr>;
              level \<leftarrow> buf_get b (overlay_start + 13) 4;
              lv \<leftarrow> hex_to_int level 2;
              r \<leftarrow> packet_rssi_scale_in (word_of_int lv) 0xffff;
              let p = p\<lparr>rssi := r, ptype := t\<rparr>;
              inp \<leftarrow> buf_get b 1 (2 * payload_bytes);
              (ok, out) \<leftarrow> hex_to_bin (payload p) inp payload_bytes;
              let p = p\<lparr>payload := out\<rparr>;
              if \<not> ok then Some (False, b, p, st)
              else do {
                c \<leftarrow> cr_lf;
                b \<leftarrow> buf_consume b (if c = 13 then total_len else total_len - 1);
                Some (True, b, p, st)
              }
            }
          }
        }
      })"

definition airspy_adsb_parse :: parser where
  "airspy_adsb_parse =
     parse_or (parse_or (\<lambda>b p st. airspy_adsb_parse_packet b p st PACKET_TYPE_MODE_AC)
                        (\<lambda>b p st. airspy_adsb_parse_packet b p st PACKET_TYPE_MODE_S_SHORT))
              (\<lambda>b p st. airspy_adsb_parse_packet b p st PACKET_TYPE_MODE_S_LONG)"

definition airspy_adsb_serialize :: serializer_fn where
  "airspy_adsb_serialize p b =
     (let payload_bytes = packet_payload_len (ptype p);
          overlay_start = 1 + payload_bytes * 2;
          total_len = overlay_start + airspy_overlay_size
      in do {
        b \<leftarrow> buf_set_chr b 0 42;
        b \<leftarrow> buf_set_chr b (overlay_start + 17) 59;
        b \<leftarrow> buf_set_chr b (overlay_start + 12) 59;
        b \<leftarrow> buf_set_chr b (overlay_start + 9) 59;
        b \<leftarrow> buf_set_chr b overlay_start 59;
        b \<leftarrow> buf_set_chr b (overlay_start + 18) 13;
        b \<leftarrow> buf_set_chr b (overlay_start + 19) 10;
        hex \<leftarrow> hex_from_bin_upper (payload p) payload_bytes;
        b \<leftarrow> buf_put b 1 hex;
        ts \<leftarrow> packet_mlat_timestamp_scale_out (mlat_timestamp p) 0xffffffff SEND_MHZ;
        digits \<leftarrow> hex_from_int_upper ts 4;
        b \<leftarrow> buf_put b (overlay_start + 1) digits;
        precision \<leftarrow> hex_from_int_upper (ucast (SEND_MHZ div 2)) 1;
        b \<leftarrow> buf_put b (overlay_start + 10) precision;
        lv \<leftarrow> packet_rssi_scale_out (rssi p) 0xffff;
        level \<leftarrow> hex_from_int_upper (ucast lv) 2;
        b \<leftarrow> buf_put b (overlay_start + 13) level;
        Some (b\<lparr>buf_length := total_len\<rparr>)
      })"

definition airspy_adsb_init :: "unit option" where
  "airspy_adsb_init = c_assert (1 + PACKET_PAYLOAD_LEN_MAX + airspy_overlay_size < BUF_LEN_MAX)"

section \<open>The frame on the wire\<close>

definition airspy_match :: "packet_type \<Rightarrow> u8 list \<Rightarrow> nat option" where
  "airspy_match t v = (let os = 1 + packet_payload_len t * 2 in
     case line_end (os + 18) v of None \<Rightarrow> None
     | Some e \<Rightarrow> if v ! 0 = 42 \<and> v ! os = 59 \<and> v ! (os + 9) = 59 \<and> v ! (os + 12) = 59 \<and> v ! (os + 17) = 59
                 then Some (os + 18 + e) else None)"

lemma airspy_match_bounds:
  "airspy_match t v = Some n \<Longrightarrow> n \<le> length v \<and> packet_payload_len t * 2 + 20 \<le> n"
  by (auto simp: airspy_match_def Let_def dest!: line_end_bounds split: option.splits if_splits)

text \<open>What the parser does once the frame at the front of the buffer has matched.\<close>

definition airspy_accept ::
    "u8 list \<Rightarrow> nat \<Rightarrow> buf \<Rightarrow> packet \<Rightarrow> parser_state \<Rightarrow> packet_type \<Rightarrow> (bool \<times> buf \<times> packet \<times> parser_state) option" where
  "airspy_accept v m b p st t =
     (let n = packet_payload_len t; os = 1 + n * 2 in do {
        pv \<leftarrow> hex_to_int (take 2 (drop (os + 10) v)) 1;
        let mhz = 2 * (word_of_int pv :: u16);
        if mhz = 0 then Some (False, b, p, st)
        else do {
          tv \<leftarrow> hex_to_int (take 8 (drop (os + 1) v)) 4;
          if tv < 0 then Some (False, b, p, st)
          else do {
            (ts, ms) \<leftarrow> packet_mlat_timestamp_scale_in (word_of_int tv) 0xffffffff mhz (mlat_state st);
            lv \<leftarrow> hex_to_int (take 4 (drop (os + 13) v)) 2;
            r \<leftarrow> packet_rssi_scale_in (word_of_int lv) 0xffff;
            (ok, out) \<leftarrow> hex_to_bin (payload p) (take (2 * n) (tl v)) n;
            if \<not> ok then Some (False, b,
               p\<lparr>mlat_timestamp := ts, rssi := r, ptype := t, payload := out\<rparr>, st\<lparr>mlat_state := ms\<rparr>)
            else do {
              b \<leftarrow> buf_consume b m;
              Some (True, b,
                p\<lparr>mlat_timestamp := ts, rssi := r, ptype := t, payload := out\<rparr>, st\<lparr>mlat_state := ms\<rparr>)
            }
          }
        }
      })"

lemma airspy_parse_packet_eq:
  assumes ok: "buf_ok b"
  shows "airspy_adsb_parse_packet b p st t =
    (case airspy_match t (buf_view b) of
       None \<Rightarrow> Some (False, b, p, st)
     | Some m \<Rightarrow> airspy_accept (buf_view b) m b p st t)"
proof -
  let ?n = "packet_payload_len t" and ?v = "buf_view b"
  let ?os = "1 + ?n * 2"
  let ?bad = "c_or (c_or (c_or (c_or (c_or
          (c_and (c_or (Some (buf_length b < ?os + 20 - 1)) (c_ne (buf_chr b (?os + 18)) 10))
                 (c_or (c_or (Some (buf_length b < ?os + 20)) (c_ne (buf_chr b (?os + 18)) 13))
                       (c_ne (buf_chr b (?os + 19)) 10)))
          (c_ne (buf_chr b 0) 42))
          (c_ne (buf_chr b ?os) 59))
          (c_ne (buf_chr b (?os + 9)) 59))
          (c_ne (buf_chr b (?os + 12)) 59))
          (c_ne (buf_chr b (?os + 17)) 59)"
  have len: "length ?v = buf_length b" using ok by simp
  have bad: "?bad = Some (airspy_match t ?v = None)"
  proof -
    have "?bad = Some (((((line_end (?os + 18) ?v = None \<or> ?v ! 0 \<noteq> 42) \<or> ?v ! ?os \<noteq> 59) \<or>
        ?v ! (?os + 9) \<noteq> 59) \<or> ?v ! (?os + 12) \<noteq> 59) \<or> ?v ! (?os + 17) \<noteq> 59)"
      using buf_chr_view [OF ok, of 0] buf_chr_view [OF ok, of ?os] buf_chr_view [OF ok, of "?os + 9"]
        buf_chr_view [OF ok, of "?os + 12"] buf_chr_view [OF ok, of "?os + 17"]
      by (intro c_or_check line_end_check [OF ok])
         (auto simp: len dest!: line_end_bounds)
    then show ?thesis by (auto simp: airspy_match_def Let_def split: option.split)
  qed
  show ?thesis
  proof (cases "airspy_match t ?v")
    case None
    then show ?thesis
      unfolding airspy_adsb_parse_packet_def Let_def airspy_overlay_size_def bad Option.bind.bind_lunit
      by simp
  next
    case (Some m)
    with airspy_match_bounds [OF this] len have m: "m \<le> buf_length b" "?n * 2 + 20 \<le> m" by auto
    have get1: "buf_get b 1 (2 * ?n) = Some (take (2 * ?n) (tl ?v))"
      using m buf_get_view [OF ok, of 1 "2 * ?n"] by (simp add: drop_Suc)
    have get: "buf_get b (?os + 10) 2 = Some (take 2 (drop (?os + 10) ?v))"
      "buf_get b (?os + 1) 8 = Some (take 8 (drop (?os + 1) ?v))"
      "buf_get b (?os + 13) 4 = Some (take 4 (drop (?os + 13) ?v))"
      "buf_chr b (?os + 18) = Some (?v ! (?os + 18))"
      using m by (auto intro!: buf_get_view [OF ok] buf_chr_view [OF ok])
    have tot: "(if ?v ! (?os + 18) = 13 then ?os + 20 else ?os + 20 - 1) = m"
      using Some by (auto simp: airspy_match_def Let_def dest!: line_end_byte split: option.splits if_splits)
    show ?thesis
      unfolding airspy_adsb_parse_packet_def airspy_accept_def Let_def airspy_overlay_size_def
        bad Option.bind.bind_lunit Some
      unfolding get1 get tot Option.bind.bind_lunit
      by (simp cong: if_cong)
  qed
qed

section \<open>The parser contract\<close>

lemma airspy_accept_contract:
  assumes b: "buf_ok b" and p: "packet_ready p" and st: "parser_state_ok st"
    and m: "airspy_match t (buf_view b) = Some m" and t: "t \<noteq> PACKET_TYPE_NONE"
  shows "\<exists>okr b' p' st'. airspy_accept (buf_view b) m b p st t = Some (okr, b', p', st') \<and>
    parse_result_ok b p (okr, b', p', st') \<and> packet_ready p'"
proof -
  let ?n = "packet_payload_len t" and ?v = "buf_view b"
  let ?os = "1 + ?n * 2"
  have len: "length ?v = buf_length b" using b by simp
  from airspy_match_bounds [OF m] len have mb: "m \<le> buf_length b" "0 < m" "?n * 2 + 20 \<le> length ?v" by auto
  have pl: "length (payload p) = PACKET_PAYLOAD_LEN_MAX" using p by (simp add: packet_ready_def)
  have self: "parse_result_ok b p (False, b, p, st)"
    using p st by (simp add: parse_result_ok_def packet_frame_def packet_ready_def)
  obtain pv where pv: "hex_to_int (take 2 (drop (?os + 10) ?v)) 1 = Some pv"
    using hex_to_int_total [of 1 "take 2 (drop (?os + 10) ?v)"] mb by auto
  obtain tv where tv: "hex_to_int (take 8 (drop (?os + 1) ?v)) 4 = Some tv"
    using hex_to_int_total [of 4 "take 8 (drop (?os + 1) ?v)"] mb by auto
  obtain lv where lv: "hex_to_int (take 4 (drop (?os + 13) ?v)) 2 = Some lv"
    using hex_to_int_total [of 2 "take 4 (drop (?os + 13) ?v)"] mb by auto
  let ?mhz = "2 * (word_of_int pv :: u16)"
  show ?thesis
  proof (cases "?mhz = 0 \<or> tv < 0")
    case True
    with pv tv self p show ?thesis by (auto simp: airspy_accept_def Let_def)
  next
    case False
    then have "0 < ?mhz" by (auto simp: word_gt_0)
    from packet_mlat_timestamp_scale_in_total [OF this] obtain ts ms where
      ts: "packet_mlat_timestamp_scale_in (word_of_int tv) 0xffffffff ?mhz (mlat_state st) = Some (ts, ms)"
        "ts < PACKET_MLAT_MAX" by blast
    obtain r where r: "packet_rssi_scale_in (word_of_int lv) 0xffff = Some r"
      using packet_rssi_scale_in_total [of "0xffff" "word_of_int lv"] by auto
    have "2 * ?n \<le> length (take (2 * ?n) (tl ?v))" "?n \<le> length (payload p)"
      using mb len pl length_payload_len [of t] by auto
    from hex_to_bin_spec [OF this] obtain okh out where
      h: "hex_to_bin (payload p) (take (2 * ?n) (tl ?v)) ?n = Some (okh, out)"
        "length out = length (payload p)" by blast
    let ?p = "p\<lparr>mlat_timestamp := ts, rssi := r, ptype := t, payload := out\<rparr>"
    let ?st = "st\<lparr>mlat_state := ms\<rparr>"
    have p': "packet_ready ?p" "packet_sane ?p" "packet_frame p ?p"
      using p ts(2) h(2) pl t by (auto simp: packet_ready_def packet_sane_def packet_frame_def)
    obtain b' where b': "buf_consume b m = Some b'" "consumed b b'"
      using buf_consume_Some [OF b mb(2,1)] by blast
    show ?thesis
    proof (cases okh)
      case True
      then have "airspy_accept ?v m b p st t = Some (True, b', ?p, ?st)"
        using False pv tv lv ts(1) r h(1) b'(1) by (simp add: airspy_accept_def Let_def)
      with p' b'(2) st show ?thesis by (auto simp: parse_result_ok_def)
    next
      case bad: False
      then have "airspy_accept ?v m b p st t = Some (False, b, ?p, ?st)"
        using False pv tv lv ts(1) r h(1) by (simp add: airspy_accept_def Let_def)
      with p' st show ?thesis by (auto simp: parse_result_ok_def)
    qed
  qed
qed

lemma airspy_packet_chained:
  assumes t: "t \<noteq> PACKET_TYPE_NONE"
  shows "chained_parser (\<lambda>b p st. airspy_adsb_parse_packet b p st t)"
proof -
  have c: "\<exists>okr b' p' st'. airspy_adsb_parse_packet b p st t = Some (okr, b', p', st') \<and>
      parse_result_ok b p (okr, b', p', st') \<and> packet_ready p'"
    if "buf_ok b" "packet_ready p" "parser_state_ok st" for b p st
  proof (cases "airspy_match t (buf_view b)")
    case None
    with that show ?thesis
      by (auto simp: airspy_parse_packet_eq parse_result_ok_def packet_frame_def packet_ready_def)
  next
    case (Some m)
    from airspy_accept_contract [OF that Some t] Some that show ?thesis
      by (simp add: airspy_parse_packet_eq)
  qed
  show ?thesis
  proof (unfold_locales, goal_cases)
    case (1 b p st)
    from c [OF 1] show ?case by auto
  next
    case (2 b p st b' p' st')
    from c [OF 2(1-3)] 2(4) show ?case by auto
  qed
qed

interpretation airspy: chained_parser airspy_adsb_parse
  unfolding airspy_adsb_parse_def
  by (intro parse_or_chain airspy_packet_chained) simp_all

section \<open>The bytes written\<close>

definition airspy_frame :: "packet \<Rightarrow> u64 \<Rightarrow> u32 \<Rightarrow> u8 list" where
  "airspy_frame p ts lv =
     [42] @ hex_encode hex_upper_table (payload p) (packet_payload_len (ptype p)) @ [59] @
     int_digits hex_upper_table ts 8 @ [59] @ [48, 65] @ [59] @
     int_digits hex_upper_table (ucast lv) 4 @ [59, 13, 10]"

lemma airspy_precision: "hex_from_int_upper (ucast (SEND_MHZ div 2)) (Suc 0) = Some [48, 65]"
proof -
  have "ucast (SEND_MHZ div 2) = (10 :: u64)" by (simp add: SEND_MHZ_def)
  moreover have "int_digits hex_upper_table 10 2 = [48, 65]" by code_simp
  ultimately show ?thesis
    using hex_from_int_digits [OF hex_tables(1), of 1 10] by (simp add: hex_from_int_upper_def)
qed

lemma airspy_puts:
  assumes d: "length d = 256" and n: "n \<le> 14" and "length h = 2 * n" "length ts = 8" "length pr = 2" "length lv = 4"
  defines "os \<equiv> 1 + n * 2"
  shows "take (os + 20) (list_put (list_put (list_put (list_put
      (d[0 := 42, os + 17 := 59, os + 12 := 59, os + 9 := 59, os := 59, os + 18 := 13, os + 19 := 10])
      1 h) (os + 1) ts) (os + 10) pr) (os + 13) lv) =
    [42] @ h @ [59] @ ts @ [59] @ pr @ [59] @ lv @ [59, 13, 10 :: u8]"
proof (rule nth_equalityI)
  fix i
  assume "i < length (take (os + 20) (list_put (list_put (list_put (list_put
      (d[0 := 42, os + 17 := 59, os + 12 := 59, os + 9 := 59, os := 59, os + 18 := 13, os + 19 := 10])
      1 h) (os + 1) ts) (os + 10) pr) (os + 13) lv))"
  then have i: "i < os + 20" by simp
  consider "i = 0" | j where "i = 1 + j" "j < 2 * n" | "i = os" | j where "i = os + 1 + j" "j < 8"
    | "i = os + 9" | "i = os + 10" | "i = os + 11" | "i = os + 12" | j where "i = os + 13 + j" "j < 4"
    | "i = os + 17" | "i = os + 18" | "i = os + 19"
  proof (cases "i = 0 \<or> i = os \<or> i = os + 9 \<or> i = os + 10 \<or> i = os + 11 \<or> i = os + 12 \<or> 17 + os \<le> i")
    case True
    then have "i = 0 \<or> i = os \<or> i = os + 9 \<or> i = os + 10 \<or> i = os + 11 \<or> i = os + 12 \<or>
        i = os + 17 \<or> i = os + 18 \<or> i = os + 19" using i by linarith
    then show thesis using that by blast
  next
    case False
    then consider "1 \<le> i \<and> i < os" | "os + 1 \<le> i \<and> i < os + 9" | "os + 13 \<le> i \<and> i < os + 17" by linarith
    then show thesis
      using that(2) [of "i - 1"] that(4) [of "i - (os + 1)"] that(9) [of "i - (os + 13)"]
      by cases (auto simp: os_def)
  qed
  then show "take (os + 20) (list_put (list_put (list_put (list_put
      (d[0 := 42, os + 17 := 59, os + 12 := 59, os + 9 := 59, os := 59, os + 18 := 13, os + 19 := 10])
      1 h) (os + 1) ts) (os + 10) pr) (os + 13) lv) ! i =
    ([42] @ h @ [59] @ ts @ [59] @ pr @ [59] @ lv @ [59, 13, 10]) ! i"
    using assms by cases (simp_all add: nth_list_put nth_append nth_Cons')
qed (use assms in simp)

lemma airspy_serialize_spec:
  assumes p: "length (payload p) = PACKET_PAYLOAD_LEN_MAX" and b: "buf_fresh b"
  shows "\<exists>b' ts lv. airspy_adsb_serialize p b = Some b' \<and> buf_ok b' \<and>
    packet_mlat_timestamp_scale_out (mlat_timestamp p) 0xffffffff SEND_MHZ = Some ts \<and>
    packet_rssi_scale_out (rssi p) 0xffff = Some lv \<and> buf_view b' = airspy_frame p ts lv"
proof -
  let ?n = "packet_payload_len (ptype p)"
  let ?os = "1 + ?n * 2"
  let ?hex = "hex_encode hex_upper_table (payload p) ?n"
  have n: "?n \<le> 14" "?n \<le> length (payload p)"
    using packet_payload_len_le p length_payload_len by auto
  have hex: "hex_from_bin_upper (payload p) ?n = Some ?hex" "length ?hex = 2 * ?n"
    using hex_encode(1,2) [OF hex_tables(1) n(2)] by (simp_all add: hex_from_bin_upper_def)
  have d: "length (buf_data b) = 256" "buf_start b = 0" "buf_length b = 0"
    using b by (auto simp: buf_fresh_def buf_ok_def BUF_LEN_MAX_def)
  obtain ts where ts: "packet_mlat_timestamp_scale_out (mlat_timestamp p) 0xffffffff SEND_MHZ = Some ts"
    by (simp add: packet_mlat_timestamp_scale_out_def packet_mlat_timestamp_scale_mhz_out_def
        packet_mlat_timestamp_scale_width_out_def SEND_MHZ_def PACKET_MLAT_MHZ_def)
  obtain lv where lv: "packet_rssi_scale_out (rssi p) 0xffff = Some lv"
    using packet_rssi_scale_out_total [of "0xffff" "rssi p"] by auto
  have dig: "hex_from_int_upper ts 4 = Some (int_digits hex_upper_table ts 8)"
    "hex_from_int_upper (ucast lv) 2 = Some (int_digits hex_upper_table (ucast lv) 4)"
    using hex_from_int_digits [OF hex_tables(1), of 4 ts] hex_from_int_digits [OF hex_tables(1), of 2 "ucast lv"]
    by (simp_all add: hex_from_int_upper_def)
  let ?d = "list_put (list_put (list_put (list_put
      ((buf_data b)[0 := 42, ?os + 17 := 59, ?os + 12 := 59, ?os + 9 := 59, ?os := 59, ?os + 18 := 13, ?os + 19 := 10])
      1 ?hex) (?os + 1) (int_digits hex_upper_table ts 8)) (?os + 10) [48, 65]) (?os + 13)
      (int_digits hex_upper_table (ucast lv) 4)"
  have ser: "airspy_adsb_serialize p b = Some (b\<lparr>buf_data := ?d, buf_length := ?os + 20\<rparr>)"
    using n hex d dig ts lv
    by (simp add: airspy_adsb_serialize_def buf_set_chr_def c_upd_def buf_put_def airspy_overlay_size_def
        airspy_precision Let_def)
  have "take (?os + 20) ?d = airspy_frame p ts lv"
    unfolding airspy_frame_def by (rule airspy_puts) (use d n hex in simp_all)
  moreover have "length ?d = 256" using n hex d by simp
  ultimately have "buf_ok (b\<lparr>buf_data := ?d, buf_length := ?os + 20\<rparr>)"
    "buf_view (b\<lparr>buf_data := ?d, buf_length := ?os + 20\<rparr>) = airspy_frame p ts lv"
    using d n by (auto simp: buf_ok_def buf_view_def BUF_LEN_MAX_def)
  with ser ts lv show ?thesis by blast
qed

interpretation airspy: serializer_contract airspy_adsb_serialize
proof
  fix p :: packet and b
  assume "packet_full p" and "buf_fresh b"
  then show "\<exists>b'. airspy_adsb_serialize p b = Some b' \<and> buf_ok b'"
    using airspy_serialize_spec [of p b] by (auto simp: packet_full_def)
qed

section \<open>Round trip\<close>

lemma airspy_match_shorter:
  assumes p: "length (payload p) = PACKET_PAYLOAD_LEN_MAX" and v: "v = airspy_frame p ts lv @ rest"
    and t: "packet_payload_len t < packet_payload_len (ptype p)"
  shows "airspy_match t v = None"
proof -
  let ?n = "packet_payload_len (ptype p)" and ?k = "packet_payload_len t * 2"
  have n: "?n \<le> length (payload p)" using p length_payload_len by auto
  have "v ! (1 + ?k) = hex_encode hex_upper_table (payload p) ?n ! ?k"
    using t hex_encode(2) [OF hex_tables(1) n] by (simp add: v airspy_frame_def nth_append)
  then have "v ! (1 + ?k) \<noteq> 59" using hex_encode_no_semicolon [OF n] t by simp
  then show ?thesis by (simp add: airspy_match_def Let_def split: option.split)
qed

lemma airspy_parse_frame:
  assumes p: "length (payload p) = PACKET_PAYLOAD_LEN_MAX" and q: "length (payload q) = PACKET_PAYLOAD_LEN_MAX"
    and b: "buf_ok b" and v: "buf_view b = airspy_frame p ts lv @ rest"
    and ts: "unat ts < 2 ^ 32" and lv: "unat lv < 2 ^ 16"
    and mt: "packet_mlat_timestamp_scale_in ts 0xffffffff SEND_MHZ (mlat_state st) = Some (mt, ms)"
    and r: "packet_rssi_scale_in lv 0xffff = Some r"
  shows "\<exists>b'. buf_view b' = rest \<and> buf_ok b' \<and>
    airspy_adsb_parse_packet b q st (ptype p) = Some (True, b',
      q\<lparr>mlat_timestamp := mt, rssi := r, ptype := ptype p,
        payload := take (packet_payload_len (ptype p)) (payload p) @
          drop (packet_payload_len (ptype p)) (payload q)\<rparr>, st\<lparr>mlat_state := ms\<rparr>)"
proof -
  let ?n = "packet_payload_len (ptype p)"
  let ?os = "1 + ?n * 2"
  let ?hex = "hex_encode hex_upper_table (payload p) ?n"
  let ?ts = "int_digits hex_upper_table ts 8" and ?lv = "int_digits hex_upper_table (ucast lv) 4"
  have n: "?n \<le> length (payload p)" using p length_payload_len by auto
  have hl: "length ?hex = ?n * 2" using hex_encode(2) [OF hex_tables(1) n] by simp
  have v': "buf_view b = [42] @ ?hex @ [59] @ ?ts @ [59] @ [48, 65] @ [59] @ ?lv @ [59, 13, 10] @ rest"
    by (simp add: v airspy_frame_def)
  have fl: "length (airspy_frame p ts lv) = ?os + 20"
    by (simp add: airspy_frame_def hl)
  have m: "airspy_match (ptype p) (buf_view b) = Some (?os + 20)"
    by (simp add: airspy_match_def line_end_def v' Let_def nth_append hl)
  have tail: "drop (?os + k) (buf_view b) =
      drop k ([59] @ ?ts @ [59] @ [48, 65] @ [59] @ ?lv @ [59, 13, 10] @ rest)" for k
    unfolding v' by (simp add: hl)
  have dl: "length ?ts = 8" "length ?lv = 4" by simp_all
  have parts: "take 2 (drop (?os + 10) (buf_view b)) = [48, 65]"
    "take 8 (drop (?os + 1) (buf_view b)) = ?ts" "take 4 (drop (?os + 13) (buf_view b)) = ?lv"
    "tl (buf_view b) = ?hex @ ([59] @ ?ts @ [59] @ [48, 65] @ [59] @ ?lv @ [59, 13, 10] @ rest)"
    unfolding tail by (simp_all add: v' dl)
  have nums: "hex_to_int [48, 65] 1 = Some 10" "hex_to_int ?ts 4 = Some (uint ts)"
    "hex_to_int ?lv 2 = Some (uint lv)"
  proof -
    have "int_digits hex_upper_table 10 2 = [48, 65]" by code_simp
    then show "hex_to_int [48, 65] 1 = Some 10"
      using hex_to_int_digits [OF hex_tables(1), of 1 10] by (simp add: INT64_MAX_def)
    have "ts \<le> INT64_MAX" using ts by (simp add: INT64_MAX_def word_le_nat_alt)
    then show "hex_to_int ?ts 4 = Some (uint ts)"
      using hex_to_int_digits [OF hex_tables(1), of 4 ts] ts by simp
    have "unat (ucast lv :: u64) < 2 ^ 16" using lv by simp
    moreover from this have "(ucast lv :: u64) \<le> INT64_MAX"
      by (simp add: INT64_MAX_def word_le_nat_alt)
    ultimately show "hex_to_int ?lv 2 = Some (uint lv)"
      using hex_to_int_digits [OF hex_tables(1), of 2 "ucast lv"]
      by (simp add: uint_up_ucast is_up)
  qed
  have hx: "hex_to_bin (payload q) (take (2 * ?n) (tl (buf_view b))) ?n =
      Some (True, take ?n (payload p) @ drop ?n (payload q))"
    using hex_to_bin_True [of ?n ?hex "payload q"] hex_encode(3,4) [OF hex_tables(1) n, of "[]"] hl q
      length_payload_len [of "ptype p"]
    by (simp add: parts(4) mult.commute)
  have "?os + 20 \<le> buf_length b" using airspy_match_bounds [OF m] b by simp
  from buf_consume_view [OF b this] v obtain b' where
    b': "buf_consume b (?os + 20) = Some b'" "buf_view b' = rest" "buf_ok b'" by (auto simp: fl)
  have "airspy_accept (buf_view b) (?os + 20) b q st (ptype p) = Some (True, b',
      q\<lparr>mlat_timestamp := mt, rssi := r, ptype := ptype p,
        payload := take ?n (payload p) @ drop ?n (payload q)\<rparr>, st\<lparr>mlat_state := ms\<rparr>)"
    unfolding airspy_accept_def Let_def parts(1-3) nums hx Option.bind.bind_lunit b'(1)
    using mt r by (simp add: SEND_MHZ_def)
  with b' show ?thesis by (auto simp: airspy_parse_packet_eq [OF b] m)
qed

lemma airspy_parse_frame_all:
  assumes p: "length (payload p) = PACKET_PAYLOAD_LEN_MAX" and q: "length (payload q) = PACKET_PAYLOAD_LEN_MAX"
    and b: "buf_ok b" and v: "buf_view b = airspy_frame p ts lv @ rest" and t: "ptype p \<noteq> PACKET_TYPE_NONE"
    and ts: "unat ts < 2 ^ 32" and lv: "unat lv < 2 ^ 16"
    and mt: "packet_mlat_timestamp_scale_in ts 0xffffffff SEND_MHZ (mlat_state st) = Some (mt, ms)"
    and r: "packet_rssi_scale_in lv 0xffff = Some r"
  shows "\<exists>b'. buf_view b' = rest \<and> buf_ok b' \<and>
    airspy_adsb_parse b q st = Some (True, b',
      q\<lparr>mlat_timestamp := mt, rssi := r, ptype := ptype p,
        payload := take (packet_payload_len (ptype p)) (payload p) @
          drop (packet_payload_len (ptype p)) (payload q)\<rparr>, st\<lparr>mlat_state := ms\<rparr>)"
proof -
  have short: "airspy_adsb_parse_packet b q st t = Some (False, b, q, st)"
    if "packet_payload_len t < packet_payload_len (ptype p)" for t
    using airspy_match_shorter [OF p v that] by (simp add: airspy_parse_packet_eq [OF b])
  show ?thesis
    using airspy_parse_frame [OF p q b v ts lv mt r] short t
    by (cases "ptype p") (force simp: airspy_adsb_parse_def parse_or_def)+
qed

text \<open>The values that survive: the counter in steps of 50 ns, the level in steps of 1/65535.\<close>

lemma airspy_scale_values:
  assumes "packet_mlat_timestamp_scale_out t 0xffffffff SEND_MHZ = Some ts"
    and "packet_rssi_scale_out l 0xffff = Some lv"
  shows "unat ts = unat t div 6 mod 4294967295" and "unat ts < 2 ^ 32"
    and "unat lv = unat l div 65537" and "unat lv < 2 ^ 16"
proof -
  have "ts = t div 6 mod 0xffffffff"
    using assms(1) by (simp add: packet_mlat_timestamp_scale_out_def packet_mlat_timestamp_scale_mhz_out_def
        packet_mlat_timestamp_scale_width_out_def SEND_MHZ_def PACKET_MLAT_MHZ_def)
  then show u: "unat ts = unat t div 6 mod 4294967295"
    by (simp add: unat_mod_distrib unat_div_distrib)
  then show "unat ts < 2 ^ 32"
    using mod_less_divisor [of 4294967295 "unat t div 6"] by simp
  have "lv = l div 0x10001"
    using assms(2) by (simp add: packet_rssi_scale_out_def PACKET_RSSI_MAX_def)
  then show w: "unat lv = unat l div 65537" by (simp add: unat_div_distrib)
  have "unat l div 65537 \<le> 4294967295 div 65537" by (rule div_le_mono) simp
  then show "unat lv < 2 ^ 16" by (simp add: w)
qed

section \<open>Properties\<close>

lemma airspy_scale_back:
  assumes "timestamp_generation ms = 0" and "timestamp_last ms = 0" and "unat ts < 2 ^ 32" and "unat lv < 2 ^ 16"
  shows "\<exists>mt ms'. packet_mlat_timestamp_scale_in ts 0xffffffff SEND_MHZ ms = Some (mt, ms') \<and> unat mt = unat ts * 6"
    and "\<exists>r. packet_rssi_scale_in lv 0xffff = Some r \<and> unat r = unat lv * 65537"
proof -
  have u: "unat (ts * 6) = unat ts * 6" using assms(3) by (simp add: unat_word_ariths)
  have "ts * 6 mod PACKET_MLAT_MAX = ts * 6"
    using assms(3) by (simp add: word_eq_iff_unsigned [where 'a = nat] unat_mod_distrib u PACKET_MLAT_MAX_def INT64_MAX_def)
  then show "\<exists>mt ms'. packet_mlat_timestamp_scale_in ts 0xffffffff SEND_MHZ ms = Some (mt, ms') \<and> unat mt = unat ts * 6"
    using assms(1,2) u by (simp add: packet_mlat_timestamp_scale_in_def packet_mlat_timestamp_scale_mhz_in_def
        packet_mlat_timestamp_scale_width_in_def Let_def SEND_MHZ_def PACKET_MLAT_MHZ_def)
  show "\<exists>r. packet_rssi_scale_in lv 0xffff = Some r \<and> unat r = unat lv * 65537"
    using assms(4) by (simp add: packet_rssi_scale_in_def PACKET_RSSI_MAX_def unat_word_ariths)
qed

text \<open>
  C29. A packet written in the airspy format and received on a fresh connection is parsed back
  with its type and payload. The timestamp survives in steps of 6 ticks modulo the period 2^32 - 1 of
  the format's counter, the level in steps of 65537.
\<close>

theorem airspy_roundtrip:
  assumes p: "packet_full p" and q: "packet_ready q" and s: "airspy_adsb_serialize p BUF_INIT = Some f"
    and b: "buf_ok b" "buf_view b = buf_view f @ rest"
  shows "\<exists>b' mt lv st'. buf_ok b' \<and> buf_view b' = rest \<and> unat mt = unat (mlat_timestamp p) div 6 mod 4294967295 * 6 \<and>
    unat lv = unat (rssi p) div 65537 * 65537 \<and>
    airspy_adsb_parse b q parser_state_zero = Some (True, b',
      q\<lparr>mlat_timestamp := mt, rssi := lv, ptype := ptype p,
        payload := take (packet_payload_len (ptype p)) (payload p) @
          drop (packet_payload_len (ptype p)) (payload q)\<rparr>, st')"
proof -
  have l: "length (payload p) = PACKET_PAYLOAD_LEN_MAX" "length (payload q) = PACKET_PAYLOAD_LEN_MAX"
    "ptype p \<noteq> PACKET_TYPE_NONE"
    using p q by (simp_all add: packet_full_def packet_sane_def packet_ready_def)
  from airspy_serialize_spec [OF l(1) buf_fresh_INIT] s obtain ts lv where
    sc: "packet_mlat_timestamp_scale_out (mlat_timestamp p) 0xffffffff SEND_MHZ = Some ts"
      "packet_rssi_scale_out (rssi p) 0xffff = Some lv" and v: "buf_view f = airspy_frame p ts lv" by auto
  note sv = airspy_scale_values [OF sc]
  have z: "timestamp_generation (mlat_state parser_state_zero) = 0" "timestamp_last (mlat_state parser_state_zero) = 0"
    by (simp_all add: parser_state_zero_def)
  from airspy_scale_back [OF z sv(2,4)] obtain mt ms r where
    bk: "packet_mlat_timestamp_scale_in ts 0xffffffff SEND_MHZ (mlat_state parser_state_zero) = Some (mt, ms)"
      "packet_rssi_scale_in lv 0xffff = Some r" "unat mt = unat ts * 6" "unat r = unat lv * 65537" by blast
  from v b(2) have "buf_view b = airspy_frame p ts lv @ rest" by simp
  from airspy_parse_frame_all [OF l(1,2) b(1) this l(3) sv(2,4) bk(1,2)] bk(3,4) sv(1,3) show ?thesis by auto
qed

theorem airspy_roundtrip_witness:
  "\<exists>f b' mt lv st'. airspy_adsb_serialize sample_packet BUF_INIT = Some f \<and> buf_ok b' \<and> buf_view b' = [] \<and>
    unat mt = unat (mlat_timestamp sample_packet) div 6 mod 4294967295 * 6 \<and>
    unat lv = unat (rssi sample_packet) div 65537 * 65537 \<and>
    airspy_adsb_parse f sample_empty parser_state_zero = Some (True, b',
      sample_empty\<lparr>mlat_timestamp := mt, rssi := lv, ptype := ptype sample_packet,
        payload := take (packet_payload_len (ptype sample_packet)) (payload sample_packet) @
          drop (packet_payload_len (ptype sample_packet)) (payload sample_empty)\<rparr>, st')"
proof -
  from airspy.serialize_returns [OF sample_packet_full buf_fresh_INIT] obtain f where
    f: "airspy_adsb_serialize sample_packet BUF_INIT = Some f" "buf_ok f" by blast
  from airspy_roundtrip [OF sample_packet_full sample_empty_ready f(1,2), of "[]"] f(1) show ?thesis by simp
qed

text \<open>
  The airspy parser is safe on every input, in the same sense as the raw parser.
\<close>

theorem airspy_parse_safe:
  assumes "buf_ok b" and "packet_ready p" and "parser_state_ok st"
  shows "\<exists>r. airspy_adsb_parse b p st = Some r \<and> parse_result_ok b p r"
  by (rule airspy.parse_returns [OF assms])

theorem airspy_parse_safe_witness:
  "\<exists>r. airspy_adsb_parse BUF_INIT sample_empty parser_state_zero = Some r \<and>
    parse_result_ok BUF_INIT sample_empty r"
  by (rule airspy_parse_safe) (simp_all add: sample_empty_ready)

end
