(* ===== verification/Beast.thy ===== *)
theory Beast
  imports Format
begin

text \<open>
  Model of \<^verbatim>\<open>adsbus/beast.c\<close>, the binary Beast format. A frame is a byte 0x1a, a type byte,
  six bytes of a 12 MHz counter (big endian), one byte of signal level and the payload; every
  0x1a after the first byte is doubled on the wire. The packed overlay is written out as
  offsets: the type at 1, the counter at 2, the level at 8, the payload at 9. The theory shows
  that the unescaping loop is the inverse of the escaping loop, that no input makes the parser
  leave an array, and that a serialized packet is parsed back.
\<close>

definition beast_overlay_size :: nat where
  "beast_overlay_size = 9"

definition BEAST_MLAT_MHZ :: u16 where
  "BEAST_MLAT_MHZ = 12"

definition beast_parse_mlat :: "u8 list \<Rightarrow> u64 option" where
  "beast_parse_mlat m = do {
     b0 \<leftarrow> c_nth m 0;
     b1 \<leftarrow> c_nth m 1;
     b2 \<leftarrow> c_nth m 2;
     b3 \<leftarrow> c_nth m 3;
     b4 \<leftarrow> c_nth m 4;
     b5 \<leftarrow> c_nth m 5;
     Some (push_bit 40 (ucast b0) OR push_bit 32 (ucast b1) OR push_bit 24 (ucast b2) OR
           push_bit 16 (ucast b3) OR push_bit 8 (ucast b4) OR ucast b5)
   }"

definition beast_write_mlat :: "u64 \<Rightarrow> u8 list" where
  "beast_write_mlat ts =
     [ucast (drop_bit 40 ts AND 0xff), ucast (drop_bit 32 ts AND 0xff), ucast (drop_bit 24 ts AND 0xff),
      ucast (drop_bit 16 ts AND 0xff), ucast (drop_bit 8 ts AND 0xff), ucast (ts AND 0xff)]"

text \<open>
  The loop of \<^verbatim>\<open>beast_unescape\<close> with \<open>r = out_bytes - o\<close> bytes still to produce. The result is the
  number of bytes read, or \<open>-1\<close>.
\<close>

fun beast_unescape_loop :: "nat \<Rightarrow> buf \<Rightarrow> buf \<Rightarrow> nat \<Rightarrow> nat \<Rightarrow> (int \<times> buf) option" where
  "beast_unescape_loop 0 out inp k i = Some (int i, out)"
| "beast_unescape_loop (Suc r) out inp k i =
     (if \<not> i < buf_length inp then Some (-1, out)
      else do {
        esc \<leftarrow> c_and (Some (0 < i)) (c_eq (buf_chr inp i) 0x1a);
        if esc then do {
          bad \<leftarrow> c_or (Some (i = buf_length inp - 1)) (c_ne (buf_chr inp (i + 1)) 0x1a);
          if bad then Some (-1, out)
          else do {
            c \<leftarrow> buf_chr inp (i + 1);
            out \<leftarrow> buf_set_chr out k c;
            beast_unescape_loop r out inp (k + 1) (i + 2)
          }
        }
        else do {
          c \<leftarrow> buf_chr inp i;
          out \<leftarrow> buf_set_chr out k c;
          beast_unescape_loop r out inp (k + 1) (i + 1)
        }
      })"

definition beast_unescape :: "buf \<Rightarrow> buf \<Rightarrow> nat \<Rightarrow> (int \<times> buf) option" where
  "beast_unescape out inp out_bytes = beast_unescape_loop out_bytes out inp 0 0"

text \<open>The loop of \<^verbatim>\<open>beast_escape\<close> with \<open>r = in->length - i\<close> bytes still to copy.\<close>

fun beast_escape_loop :: "nat \<Rightarrow> buf \<Rightarrow> buf \<Rightarrow> nat \<Rightarrow> buf option" where
  "beast_escape_loop 0 out inp i = Some out"
| "beast_escape_loop (Suc r) out inp i = do {
     c \<leftarrow> buf_chr inp i;
     out \<leftarrow> buf_set_chr out (buf_length out) c;
     out \<leftarrow> (if 0 < i \<and> c = 0x1a then do {
                let out = out\<lparr>buf_length := buf_length out + 1\<rparr>;
                buf_set_chr out (buf_length out) 0x1a
              } else Some out);
     beast_escape_loop r (out\<lparr>buf_length := buf_length out + 1\<rparr>) inp (i + 1)
   }"

definition beast_escape :: "buf \<Rightarrow> buf \<Rightarrow> buf option" where
  "beast_escape out inp = beast_escape_loop (buf_length inp) out inp 0"

definition beast_parse_packet ::
    "buf \<Rightarrow> packet \<Rightarrow> parser_state \<Rightarrow> packet_type \<Rightarrow> (bool \<times> buf \<times> packet \<times> parser_state) option" where
  "beast_parse_packet b p st t =
     (let payload_bytes = packet_payload_len t in do {
        (in_bytes, buf2) \<leftarrow> beast_unescape BUF_INIT b (beast_overlay_size + payload_bytes);
        if in_bytes < 0 then Some (False, b, p, st)
        else do {
          let p = p\<lparr>ptype := t\<rparr>;
          m \<leftarrow> buf_get buf2 2 6;
          source_mlat \<leftarrow> beast_parse_mlat m;
          (ts, ms) \<leftarrow> packet_mlat_timestamp_scale_in source_mlat 0xffffffffffff BEAST_MLAT_MHZ (mlat_state st);
          let p = p\<lparr>mlat_timestamp := ts\<rparr>;
          let st = st\<lparr>mlat_state := ms\<rparr>;
          level \<leftarrow> buf_chr buf2 8;
          r \<leftarrow> packet_rssi_scale_in (ucast level) 255;
          let p = p\<lparr>rssi := r\<rparr>;
          bytes \<leftarrow> buf_get buf2 beast_overlay_size payload_bytes;
          pl \<leftarrow> c_memcpy (payload p) bytes;
          let p = p\<lparr>payload := pl\<rparr>;
          b \<leftarrow> buf_consume b (nat in_bytes);
          Some (True, b, p, st)
        }
      })"

definition beast_serialize_packet :: "packet \<Rightarrow> buf \<Rightarrow> u8 \<Rightarrow> buf option" where
  "beast_serialize_packet p b beast_type =
     (let payload_bytes = packet_payload_len (ptype p) in do {
        buf2 \<leftarrow> buf_set_chr BUF_INIT 0 0x1a;
        buf2 \<leftarrow> buf_set_chr buf2 1 beast_type;
        bytes \<leftarrow> c_take payload_bytes (payload p);
        buf2 \<leftarrow> buf_put buf2 beast_overlay_size bytes;
        ts \<leftarrow> packet_mlat_timestamp_scale_out (mlat_timestamp p) 0xffffffffffff BEAST_MLAT_MHZ;
        buf2 \<leftarrow> buf_put buf2 2 (beast_write_mlat ts);
        level \<leftarrow> (if rssi p \<noteq> 0 then map_option ucast (packet_rssi_scale_out (rssi p) 255) else Some 255);
        buf2 \<leftarrow> buf_set_chr buf2 8 level;
        beast_escape b (buf2\<lparr>buf_length := beast_overlay_size + payload_bytes\<rparr>)
      })"

definition beast_init :: "unit option" where
  "beast_init = c_assert ((beast_overlay_size + PACKET_PAYLOAD_LEN_MAX) * 2 \<le> BUF_LEN_MAX)"

definition beast_parse :: parser where
  "beast_parse b p st = do {
     bad \<leftarrow> c_or (Some (buf_length b < beast_overlay_size)) (c_ne (buf_chr b 0) 0x1a);
     if bad then Some (False, b, p, st)
     else do {
       t \<leftarrow> buf_chr b 1;
       if t = 0x31 then beast_parse_packet b p st PACKET_TYPE_MODE_AC
       else if t = 0x32 then beast_parse_packet b p st PACKET_TYPE_MODE_S_SHORT
       else if t = 0x33 then beast_parse_packet b p st PACKET_TYPE_MODE_S_LONG
       else Some (False, b, p, st)
     }
   }"

definition beast_serialize :: serializer_fn where
  "beast_serialize p b = (case ptype p of
     PACKET_TYPE_NONE \<Rightarrow> Some b
   | PACKET_TYPE_MODE_AC \<Rightarrow> beast_serialize_packet p b 0x31
   | PACKET_TYPE_MODE_S_SHORT \<Rightarrow> beast_serialize_packet p b 0x32
   | PACKET_TYPE_MODE_S_LONG \<Rightarrow> beast_serialize_packet p b 0x33)"

section \<open>The escaping on byte lists\<close>

text \<open>What the loops compute: every 0x1a of the tail of a message is doubled.\<close>

definition beast_esc_byte :: "u8 \<Rightarrow> u8 list" where
  "beast_esc_byte c = (if c = 0x1a then [0x1a, 0x1a] else [c])"

definition beast_esc_tail :: "u8 list \<Rightarrow> u8 list" where
  "beast_esc_tail bs = concat (map beast_esc_byte bs)"

fun beast_unesc_tail :: "nat \<Rightarrow> u8 list \<Rightarrow> (u8 list \<times> nat) option" where
  "beast_unesc_tail 0 v = Some ([], 0)"
| "beast_unesc_tail (Suc n) [] = None"
| "beast_unesc_tail (Suc n) (c # v) =
     (if c = 0x1a then
        (case v of d # v' \<Rightarrow> if d = 0x1a then map_option (\<lambda>(bs, k). (d # bs, k + 2)) (beast_unesc_tail n v') else None
         | [] \<Rightarrow> None)
      else map_option (\<lambda>(bs, k). (c # bs, k + 1)) (beast_unesc_tail n v))"

fun beast_unesc :: "nat \<Rightarrow> u8 list \<Rightarrow> (u8 list \<times> nat) option" where
  "beast_unesc (Suc n) (c # v) = map_option (\<lambda>(bs, k). (c # bs, k + 1)) (beast_unesc_tail n v)"
| "beast_unesc n v = None"

lemma beast_esc_tail_simps [simp]:
  "beast_esc_tail [] = []" "beast_esc_tail (c # bs) = beast_esc_byte c @ beast_esc_tail bs"
  by (simp_all add: beast_esc_tail_def)

lemma length_esc_tail: "length (beast_esc_tail bs) \<le> 2 * length bs" "length bs \<le> length (beast_esc_tail bs)"
  by (induction bs) (auto simp: beast_esc_byte_def)

lemma beast_unesc_esc: "length bs = n \<Longrightarrow>
    beast_unesc_tail n (beast_esc_tail bs @ rest) = Some (bs, length (beast_esc_tail bs))"
  by (induction bs arbitrary: n) (auto simp: beast_esc_byte_def)

lemma beast_unesc_tail_bounds:
  "beast_unesc_tail n v = Some (bs, k) \<Longrightarrow> length bs = n \<and> n \<le> k \<and> k \<le> length v"
  by (induction n v arbitrary: bs k rule: beast_unesc_tail.induct)
    (fastforce split: if_splits list.splits)+

lemma beast_unesc_bounds:
  "beast_unesc n v = Some (bs, k) \<Longrightarrow> length bs = n \<and> 0 < n \<and> n \<le> k \<and> k \<le> length v"
  by (cases "(n, v)" rule: beast_unesc.cases) (auto dest: beast_unesc_tail_bounds)

section \<open>The loops meet the specification\<close>

lemma buf_set_chr_fresh [c_eval]:
  assumes "length (buf_data out) = BUF_LEN_MAX" "buf_start out = 0" "k < 256"
  shows "buf_set_chr out k c = Some (out\<lparr>buf_data := (buf_data out)[k := c]\<rparr>)"
  using assms by (simp add: buf_set_chr_def c_upd_def BUF_LEN_MAX_def)

definition unesc_result :: "buf \<Rightarrow> nat \<Rightarrow> nat \<Rightarrow> nat \<Rightarrow> (u8 list \<times> nat) option \<Rightarrow> (int \<times> buf) option \<Rightarrow> bool" where
  "unesc_result out r k i u res \<longleftrightarrow> (case u of
     None \<Rightarrow> (\<exists>out'. res = Some (-1, out'))
   | Some (bs, n) \<Rightarrow> (\<exists>out'. res = Some (int (i + n), out') \<and> length (buf_data out') = BUF_LEN_MAX \<and>
       buf_start out' = 0 \<and> take (k + r) (buf_data out') = take k (buf_data out) @ bs))"

lemma unesc_result_step:
  assumes "unesc_result (out\<lparr>buf_data := (buf_data out)[k := c]\<rparr>) r (k + 1) (i + j) u res"
    and "k < length (buf_data out)"
  shows "unesc_result out (Suc r) k i (map_option (\<lambda>(bs, n). (c # bs, n + j)) u) res"
  using assms by (auto simp: unesc_result_def take_Suc_conv_app_nth algebra_simps split: option.splits)

lemma beast_unescape_loop_spec:
  assumes "buf_ok inp" and "0 < i" and "length (buf_data out) = BUF_LEN_MAX" and "buf_start out = 0"
    and "k + r \<le> 256"
  shows "unesc_result out r k i (beast_unesc_tail r (drop i (buf_view inp))) (beast_unescape_loop r out inp k i)"
  using assms
proof (induction r out inp k i rule: beast_unescape_loop.induct)
  case (1 out inp k i)
  then show ?case by (simp add: unesc_result_def)
next
  case (2 r out inp k i)
  let ?v = "buf_view inp"
  have len: "length ?v = buf_length inp" using 2(3) by simp
  have k: "k < length (buf_data out)" using 2(5,7) by (simp add: BUF_LEN_MAX_def)
  have set: "buf_set_chr out k c = Some (out\<lparr>buf_data := (buf_data out)[k := c]\<rparr>)" for c
    using 2 by (intro buf_set_chr_fresh) auto
  have chr: "buf_chr inp j = Some (?v ! j)" if "j < length ?v" for j
    using buf_chr_view [OF 2(3)] that len by simp
  consider (stop) "length ?v \<le> i" | (cut) "i < length ?v" "?v ! i = 0x1a" "i + 1 = length ?v"
    | (esc) "i + 1 < length ?v" "?v ! i = 0x1a" | (plain) "i < length ?v" "?v ! i \<noteq> 0x1a" by linarith
  then show ?case
  proof cases
    case stop
    then show ?thesis using len by (simp add: unesc_result_def)
  next
    case cut
    then have e: "buf_length inp = Suc i" "drop i ?v = [0x1a]"
      using len by (simp_all add: Cons_nth_drop_Suc [symmetric])
    then show ?thesis
      using 2(4) chr [of i] cut(1,2) by (simp add: unesc_result_def)
  next
    case esc
    then have d: "drop i ?v = 0x1a # ?v ! (i + 1) # drop (i + 2) ?v"
      using Cons_nth_drop_Suc [of i ?v] by (simp add: Cons_nth_drop_Suc)
    have ne: "i \<noteq> buf_length inp - Suc 0" using esc(1) len by linarith
    show ?thesis
    proof (cases "?v ! (i + 1) = 0x1a")
      case True
      have eq: "beast_unescape_loop (Suc r) out inp k i =
          beast_unescape_loop r (out\<lparr>buf_data := (buf_data out)[k := 0x1a]\<rparr>) inp (k + 1) (i + 2)"
        using esc True len chr 2(4) set ne by simp
      have ih: "unesc_result (out\<lparr>buf_data := (buf_data out)[k := 0x1a]\<rparr>) r (k + 1) (i + 2)
          (beast_unesc_tail r (drop (i + 2) ?v))
          (beast_unescape_loop r (out\<lparr>buf_data := (buf_data out)[k := 0x1a]\<rparr>) inp (k + 1) (i + 2))"
        using esc 2(3-7) chr set True len ne by (intro 2(1)) auto
      show ?thesis
        unfolding d eq using unesc_result_step [OF ih k] True by simp
    next
      case False
      then show ?thesis using esc len chr 2(4) by (simp add: d unesc_result_def)
    qed
  next
    case plain
    then have d: "drop i ?v = ?v ! i # drop (i + 1) ?v"
      by (simp add: Cons_nth_drop_Suc)
    have eq: "beast_unescape_loop (Suc r) out inp k i =
        beast_unescape_loop r (out\<lparr>buf_data := (buf_data out)[k := ?v ! i]\<rparr>) inp (k + 1) (i + 1)"
      using plain len chr 2(4) set by simp
    have ih: "unesc_result (out\<lparr>buf_data := (buf_data out)[k := ?v ! i]\<rparr>) r (k + 1) (i + 1)
        (beast_unesc_tail r (drop (i + 1) ?v))
        (beast_unescape_loop r (out\<lparr>buf_data := (buf_data out)[k := ?v ! i]\<rparr>) inp (k + 1) (i + 1))"
      using plain 2(3-7) chr set len by (intro 2(2)) auto
    show ?thesis
      unfolding d eq using unesc_result_step [OF ih k] plain by simp
  qed
qed

lemma beast_unescape_spec:
  assumes "buf_ok inp" and "0 < n" and "n \<le> 256"
  shows "unesc_result BUF_INIT n 0 0 (beast_unesc n (buf_view inp)) (beast_unescape BUF_INIT inp n)"
proof -
  obtain r where n: "n = Suc r" using assms(2) by (cases n) auto
  have ini: "length (buf_data BUF_INIT) = BUF_LEN_MAX" "buf_start BUF_INIT = 0"
    by (simp_all add: BUF_INIT_def)
  show ?thesis
  proof (cases "buf_view inp")
    case Nil
    then have "buf_length inp = 0" using length_buf_view [OF assms(1)] by simp
    with Nil show ?thesis by (simp add: unesc_result_def n beast_unescape_def)
  next
    case (Cons c v)
    let ?out = "BUF_INIT\<lparr>buf_data := (buf_data BUF_INIT)[0 := c]\<rparr>"
    have len: "0 < buf_length inp" using Cons length_buf_view [OF assms(1)] by (metis length_Cons zero_less_Suc)
    have chr: "buf_chr inp 0 = Some c" using buf_chr_view [OF assms(1) len] Cons by simp
    have eq: "beast_unescape BUF_INIT inp (Suc r) = beast_unescape_loop r ?out inp (0 + 1) (0 + 1)"
      using len chr buf_set_chr_fresh [OF ini, of 0 c] by (simp add: beast_unescape_def)
    have ih: "unesc_result ?out r (0 + 1) (0 + 1) (beast_unesc_tail r (drop (0 + 1) (buf_view inp)))
        (beast_unescape_loop r ?out inp (0 + 1) (0 + 1))"
      by (rule beast_unescape_loop_spec [OF assms(1)]) (use ini assms(3) n in auto)
    show ?thesis
      unfolding n eq using unesc_result_step [OF ih] ini Cons by (simp add: BUF_LEN_MAX_def)
  qed
qed

text \<open>Appending one byte to the buffer that is being written.\<close>

definition buf_push :: "buf \<Rightarrow> u8 \<Rightarrow> buf" where
  "buf_push b c = b\<lparr>buf_data := (buf_data b)[buf_length b := c], buf_length := buf_length b + 1\<rparr>"

lemma buf_push:
  assumes "buf_ok b" and "buf_start b = 0" and "buf_length b < 256"
  shows "buf_set_chr b (buf_length b) c = Some (b\<lparr>buf_data := (buf_data b)[buf_length b := c]\<rparr>)"
    and "buf_ok (buf_push b c)" and "buf_start (buf_push b c) = 0"
    and "buf_length (buf_push b c) = buf_length b + 1"
    and "buf_view (buf_push b c) = buf_view b @ [c]"
  using assms buf_set_chr_fresh [of b "buf_length b" c]
  by (auto simp: buf_ok_def buf_push_def buf_view_def BUF_LEN_MAX_def take_Suc_conv_app_nth)

lemma beast_escape_step:
  assumes "buf_ok inp" and "i < buf_length inp" and "0 < i"
    and "buf_ok out" and "buf_start out = 0" and "buf_length out + 2 \<le> 256"
  shows "\<exists>out'. beast_escape_loop (Suc r) out inp i = beast_escape_loop r out' inp (i + 1) \<and>
    buf_ok out' \<and> buf_start out' = 0 \<and> buf_length out' \<le> buf_length out + 2 \<and>
    buf_view out' = buf_view out @ beast_esc_byte (buf_view inp ! i)"
proof -
  let ?c = "buf_view inp ! i"
  let ?o1 = "buf_push out ?c" and ?o2 = "buf_push (buf_push out ?c) 0x1a"
  have chr: "buf_chr inp i = Some ?c" using buf_chr_view [OF assms(1,2)] .
  have b1: "buf_length out < 256" using assms(6) by simp
  note p1 = buf_push [OF assms(4,5) b1, where c = ?c]
  have b2: "buf_length ?o1 < 256" using assms(6) p1(4) by simp
  note p2 = buf_push [OF p1(2,3) b2, where c = "0x1a"]
  have set2: "buf_set_chr (out\<lparr>buf_data := (buf_data out)[buf_length out := 0x1a],
      buf_length := Suc (buf_length out)\<rparr>) (Suc (buf_length out)) 0x1a =
      Some ((buf_push out 0x1a)\<lparr>buf_data := (buf_data (buf_push out 0x1a))[buf_length out + 1 := 0x1a]\<rparr>)"
    if "?c = 0x1a" using p2(1) that p1(4) by (simp add: buf_push_def)
  show ?thesis
  proof (cases "?c = 0x1a")
    case True
    have "beast_escape_loop (Suc r) out inp i = beast_escape_loop r ?o2 inp (i + 1)"
      using chr p1(1) set2 assms(3) True by (simp add: buf_push_def)
    with p1(4) p2 p1(5) True show ?thesis
      by (intro exI [of _ ?o2]) (simp add: beast_esc_byte_def)
  next
    case False
    have "beast_escape_loop (Suc r) out inp i = beast_escape_loop r ?o1 inp (i + 1)"
      using chr p1(1) False by (simp add: buf_push_def)
    with p1 False show ?thesis
      by (intro exI [of _ ?o1]) (simp add: beast_esc_byte_def)
  qed
qed

lemma beast_escape_loop_spec:
  assumes "buf_ok inp" and "0 < i" and "i + r = buf_length inp"
    and "buf_ok out" and "buf_start out = 0" and "buf_length out + 2 * r \<le> 256"
  shows "\<exists>out'. beast_escape_loop r out inp i = Some out' \<and> buf_ok out' \<and> buf_start out' = 0 \<and>
    buf_view out' = buf_view out @ beast_esc_tail (drop i (buf_view inp))"
  using assms(2-6)
proof (induction r arbitrary: out i)
  case 0
  then show ?case using assms(1) by simp
next
  case (Suc r)
  have i: "i < buf_length inp" and room: "buf_length out + 2 \<le> 256" using Suc.prems by auto
  from beast_escape_step [OF assms(1) i Suc.prems(1,3,4) room] obtain out' where
    o: "beast_escape_loop (Suc r) out inp i = beast_escape_loop r out' inp (i + 1)" "buf_ok out'"
      "buf_start out' = 0" "buf_length out' \<le> buf_length out + 2"
      "buf_view out' = buf_view out @ beast_esc_byte (buf_view inp ! i)" by blast
  have d: "drop i (buf_view inp) = buf_view inp ! i # drop (i + 1) (buf_view inp)"
    using i assms(1) by (simp add: Cons_nth_drop_Suc)
  have "\<exists>out''. beast_escape_loop r out' inp (i + 1) = Some out'' \<and> buf_ok out'' \<and> buf_start out'' = 0 \<and>
      buf_view out'' = buf_view out' @ beast_esc_tail (drop (i + 1) (buf_view inp))"
    using Suc.prems o by (intro Suc.IH) auto
  then show ?case unfolding o(1) d o(5) by simp
qed

lemma beast_escape_spec:
  assumes "buf_ok inp" and v: "buf_view inp = c # bs" and "2 * length bs + 1 \<le> 256" and "buf_fresh out"
  shows "\<exists>out'. beast_escape out inp = Some out' \<and> buf_ok out' \<and> buf_start out' = 0 \<and>
    buf_view out' = c # beast_esc_tail bs"
proof -
  have out: "buf_ok out" "buf_start out = 0" "buf_length out = 0" using assms(4) by (auto simp: buf_fresh_def)
  have len: "buf_length inp = Suc (length bs)" using v length_buf_view [OF assms(1)] by simp
  have chr: "buf_chr inp 0 = Some c" using buf_chr_view [OF assms(1), of 0] v len by simp
  have b0: "buf_length out < 256" using out by simp
  note p = buf_push [OF out(1,2) b0, where c = c]
  have v0: "buf_view out = []" using out by (simp add: buf_view_def)
  have eq: "beast_escape out inp = beast_escape_loop (length bs) (buf_push out c) inp 1"
    using chr p(1) by (simp add: beast_escape_def len buf_push_def)
  have "\<exists>out'. beast_escape_loop (length bs) (buf_push out c) inp 1 = Some out' \<and> buf_ok out' \<and>
      buf_start out' = 0 \<and> buf_view out' = buf_view (buf_push out c) @ beast_esc_tail (drop 1 (buf_view inp))"
    using p out assms(3) len by (intro beast_escape_loop_spec [OF assms(1)]) auto
  then show ?thesis unfolding eq p(5) v0 v by simp
qed

section \<open>The counter bytes\<close>

lemma beast_parse_mlat_total: "length m = 6 \<Longrightarrow> \<exists>ts. beast_parse_mlat m = Some ts"
  by (simp add: beast_parse_mlat_def c_nth_def)

lemma mlat_byte_bit:
  "bit (push_bit k (ucast (ucast (drop_bit k ts AND 0xff) :: u8)) :: u64) n \<longleftrightarrow> k \<le> n \<and> n < k + 8 \<and> bit (ts :: u64) n"
proof -
  have e: "x AND 0xff = take_bit 8 x" for x :: u64
    by (simp add: take_bit_eq_mask mask_numeral)
  show ?thesis
    unfolding e by (auto simp: bit_simps dest: bit_imp_le_length)
qed

lemma mlat_byte_bit0:
  "bit (ucast (ucast (ts AND 0xff) :: u8) :: u64) n \<longleftrightarrow> n < 8 \<and> bit (ts :: u64) n"
  using mlat_byte_bit [of 0 ts n] by simp

lemma mlat_bytes: "push_bit 40 (ucast (ucast (drop_bit 40 ts AND 0xff) :: u8)) OR
    push_bit 32 (ucast (ucast (drop_bit 32 ts AND 0xff) :: u8)) OR
    push_bit 24 (ucast (ucast (drop_bit 24 ts AND 0xff) :: u8)) OR
    push_bit 16 (ucast (ucast (drop_bit 16 ts AND 0xff) :: u8)) OR
    push_bit 8 (ucast (ucast (drop_bit 8 ts AND 0xff) :: u8)) OR
    ucast (ucast (ts AND 0xff) :: u8) = take_bit 48 (ts :: u64)"
  by (rule bit_word_eqI) (unfold bit_or_iff mlat_byte_bit mlat_byte_bit0 bit_take_bit_iff, linarith)

lemma beast_mlat_roundtrip:
  assumes "unat ts < 2 ^ 48"
  shows "beast_parse_mlat (beast_write_mlat ts) = Some ts"
proof -
  have small: "take_bit 48 ts = ts"
    using assms by (simp add: word_eq_iff_unsigned [where 'a = nat] unsigned_take_bit_eq take_bit_nat_eq_self)
  have "beast_parse_mlat (beast_write_mlat ts) = Some (take_bit 48 ts)"
    unfolding mlat_bytes [symmetric] by (simp add: beast_parse_mlat_def beast_write_mlat_def c_nth_def)
  with small show ?thesis by simp
qed

section \<open>The parser\<close>

definition beast_accept ::
    "u8 list \<Rightarrow> nat \<Rightarrow> buf \<Rightarrow> packet \<Rightarrow> parser_state \<Rightarrow> packet_type \<Rightarrow> (bool \<times> buf \<times> packet \<times> parser_state) option" where
  "beast_accept bs k b p st t = do {
     source_mlat \<leftarrow> beast_parse_mlat (take 6 (drop 2 bs));
     (ts, ms) \<leftarrow> packet_mlat_timestamp_scale_in source_mlat 0xffffffffffff BEAST_MLAT_MHZ (mlat_state st);
     r \<leftarrow> packet_rssi_scale_in (ucast (bs ! 8)) 255;
     b \<leftarrow> buf_consume b k;
     Some (True, b, p\<lparr>ptype := t, mlat_timestamp := ts, rssi := r,
       payload := drop 9 bs @ drop (packet_payload_len t) (payload p)\<rparr>, st\<lparr>mlat_state := ms\<rparr>)
   }"

lemma beast_parse_packet_eq:
  assumes b: "buf_ok b" and p: "length (payload p) = PACKET_PAYLOAD_LEN_MAX"
  shows "beast_parse_packet b p st t = (case beast_unesc (9 + packet_payload_len t) (buf_view b) of
     None \<Rightarrow> Some (False, b, p, st) | Some (bs, k) \<Rightarrow> beast_accept bs k b p st t)"
proof -
  let ?n = "packet_payload_len t"
  have n: "?n \<le> 14" by (rule packet_payload_len_le)
  have spec: "unesc_result BUF_INIT (9 + ?n) 0 0 (beast_unesc (9 + ?n) (buf_view b))
      (beast_unescape BUF_INIT b (9 + ?n))"
    using n by (intro beast_unescape_spec [OF b]) auto
  show ?thesis
  proof (cases "beast_unesc (9 + ?n) (buf_view b)")
    case None
    with spec show ?thesis
      by (auto simp: unesc_result_def beast_parse_packet_def beast_overlay_size_def)
  next
    case (Some u)
    obtain bs k where u: "u = (bs, k)" by (cases u)
    with spec Some obtain o' where o': "beast_unescape BUF_INIT b (9 + ?n) = Some (int k, o')"
      "length (buf_data o') = BUF_LEN_MAX" "buf_start o' = 0" "take (9 + ?n) (buf_data o') = bs"
      by (auto simp: unesc_result_def)
    have len: "length bs = 9 + ?n" using beast_unesc_bounds Some u by blast
    have get: "buf_get o' i j = Some (take j (drop i bs))" if "i + j \<le> 9 + ?n" for i j
    proof -
      have "take j (drop i bs) = take j (drop i (buf_data o'))"
        unfolding o'(4) [symmetric] using that by (simp add: drop_take min_def)
      then show ?thesis using o'(2,3) that n by (simp add: buf_get_def BUF_LEN_MAX_def)
    qed
    have chr: "buf_chr o' 8 = Some (bs ! 8)"
      using o'(2,3) unfolding o'(4) [symmetric] by (simp add: buf_chr_def c_nth_def BUF_LEN_MAX_def)
    have gets: "buf_get o' 2 6 = Some (take 6 (drop 2 bs))" "buf_get o' 9 ?n = Some (drop 9 bs)"
      using get [of 2 6] get [of 9 ?n] len by simp_all
    have cp: "c_memcpy (payload p) (drop 9 bs) = Some (drop 9 bs @ drop ?n (payload p))"
      using p len length_payload_len [of t] by (simp add: c_memcpy_def)
    show ?thesis
      using o'(1) gets chr cp Some u
      by (auto simp: beast_parse_packet_def beast_overlay_size_def beast_accept_def
          intro!: Option.bind_cong split: prod.splits)
  qed
qed

lemma beast_accept_contract:
  assumes b: "buf_ok b" and p: "packet_ready p" and st: "parser_state_ok st"
    and u: "beast_unesc (9 + packet_payload_len t) (buf_view b) = Some (bs, k)"
    and t: "t \<noteq> PACKET_TYPE_NONE"
  shows "\<exists>r. beast_accept bs k b p st t = Some r \<and> parse_result_ok b p r"
proof -
  note bd = beast_unesc_bounds [OF u]
  then obtain ts0 where m: "beast_parse_mlat (take 6 (drop 2 bs)) = Some ts0"
    using beast_parse_mlat_total [of "take 6 (drop 2 bs)"] by auto
  obtain ts ms where s: "packet_mlat_timestamp_scale_in ts0 0xffffffffffff BEAST_MLAT_MHZ (mlat_state st) =
      Some (ts, ms)" "ts < PACKET_MLAT_MAX"
    using packet_mlat_timestamp_scale_in_total [of BEAST_MLAT_MHZ ts0 "0xffffffffffff" "mlat_state st"]
    by (auto simp: BEAST_MLAT_MHZ_def)
  obtain r where r: "packet_rssi_scale_in (ucast (bs ! 8)) 255 = Some r"
    using packet_rssi_scale_in_total [of 255 "ucast (bs ! 8)"] by auto
  have k: "0 < k" "k \<le> buf_length b" using bd b by auto
  from buf_consume_Some [OF b k] obtain b' where b': "buf_consume b k = Some b'" "consumed b b'" by metis
  have "length (drop 9 bs @ drop (packet_payload_len t) (payload p)) = PACKET_PAYLOAD_LEN_MAX"
    using p bd length_payload_len [of t] by (simp add: packet_ready_def)
  then show ?thesis
    using m s r b' p st t
    by (auto simp: beast_accept_def parse_result_ok_def packet_frame_def packet_ready_def packet_sane_def)
qed

interpretation beast: chained_parser beast_parse
proof -
  have main: "\<exists>r. beast_parse b p st = Some r \<and> parse_result_ok b p r \<and>
      (\<not> fst r \<longrightarrow> r = (False, b, p, st))"
    if b: "buf_ok b" and p: "packet_ready p" and st: "parser_state_ok st" for b p st
  proof -
    have pl: "length (payload p) = PACKET_PAYLOAD_LEN_MAX" using p by (simp add: packet_ready_def)
    have pkt: "\<exists>r. beast_parse_packet b p st t = Some r \<and> parse_result_ok b p r \<and>
        (\<not> fst r \<longrightarrow> r = (False, b, p, st))" if "t \<noteq> PACKET_TYPE_NONE" for t
    proof (cases "beast_unesc (9 + packet_payload_len t) (buf_view b)")
      case None
      then show ?thesis using pl st
        by (simp add: beast_parse_packet_eq [OF b pl] parse_result_ok_def packet_frame_def)
    next
      case (Some u)
      obtain bs k where u: "u = (bs, k)" by (cases u)
      have "\<And>r. beast_accept bs k b p st t = Some r \<Longrightarrow> fst r"
        by (auto simp: beast_accept_def bind_Some_iff split: prod.splits)
      with beast_accept_contract [OF b p st Some [unfolded u] that] Some u show ?thesis
        by (auto simp: beast_parse_packet_eq [OF b pl])
    qed
    have rej: "parse_result_ok b p (False, b, p, st)"
      using pl st by (simp add: parse_result_ok_def packet_frame_def)
    show ?thesis
    proof (cases "buf_length b < beast_overlay_size \<or> buf_view b ! 0 \<noteq> 0x1a")
      case True
      then show ?thesis
        using rej buf_chr_view [OF b, of 0]
        by (cases "buf_length b < beast_overlay_size") (auto simp: beast_parse_def beast_overlay_size_def)
    next
      case False
      then have "buf_chr b 0 = Some 0x1a" "buf_chr b 1 = Some (buf_view b ! 1)"
        using buf_chr_view [OF b, of 0] buf_chr_view [OF b, of 1] by (auto simp: beast_overlay_size_def)
      then show ?thesis
        using False rej pkt [of PACKET_TYPE_MODE_AC] pkt [of PACKET_TYPE_MODE_S_SHORT]
          pkt [of PACKET_TYPE_MODE_S_LONG]
        by (auto simp: beast_parse_def)
    qed
  qed
  show "chained_parser beast_parse"
  proof (unfold_locales, goal_cases)
    case (1 b p st)
    from main [OF this] show ?case by blast
  next
    case (2 b p st b' p' st')
    from main [OF 2(1-3)] 2(2,4) show ?case by auto
  qed
qed

section \<open>The serializer\<close>

fun beast_type :: "packet_type \<Rightarrow> u8" where
  "beast_type PACKET_TYPE_NONE = 0"
| "beast_type PACKET_TYPE_MODE_AC = 0x31"
| "beast_type PACKET_TYPE_MODE_S_SHORT = 0x32"
| "beast_type PACKET_TYPE_MODE_S_LONG = 0x33"

text \<open>The message before escaping, after its first byte.\<close>

definition beast_body :: "packet \<Rightarrow> u64 \<Rightarrow> u8 \<Rightarrow> u8 list" where
  "beast_body p ts lv =
     [beast_type (ptype p)] @ beast_write_mlat ts @ [lv] @ take (packet_payload_len (ptype p)) (payload p)"

definition beast_frame :: "packet \<Rightarrow> u64 \<Rightarrow> u8 \<Rightarrow> u8 list" where
  "beast_frame p ts lv = 0x1a # beast_esc_tail (beast_body p ts lv)"

lemma length_write_mlat [simp]: "length (beast_write_mlat ts) = 6"
  by (simp add: beast_write_mlat_def)

lemma length_beast_body:
  "length (payload p) = PACKET_PAYLOAD_LEN_MAX \<Longrightarrow> length (beast_body p ts lv) = 8 + packet_payload_len (ptype p)"
  using length_payload_len [of "ptype p"] by (simp add: beast_body_def)

definition beast_level :: "u32 \<Rightarrow> u8 option" where
  "beast_level l = (if l \<noteq> 0 then map_option ucast (packet_rssi_scale_out l 255) else Some 255)"

lemma beast_image_view:
  assumes "length pl = n" and "n \<le> 14"
  shows "\<exists>b1 b2 b3 b4 b5. buf_set_chr BUF_INIT 0 0x1a = Some b1 \<and> buf_set_chr b1 1 ty = Some b2 \<and>
    buf_put b2 9 pl = Some b3 \<and> buf_put b3 2 (beast_write_mlat ts) = Some b4 \<and>
    buf_set_chr b4 8 lv = Some b5 \<and> buf_ok (b5\<lparr>buf_length := 9 + n\<rparr>) \<and>
    buf_view (b5\<lparr>buf_length := 9 + n\<rparr>) = 0x1a # ty # beast_write_mlat ts @ [lv] @ pl"
  using assms
  by (simp add: buf_set_chr_def buf_put_def c_upd_def BUF_INIT_def BUF_LEN_MAX_def buf_ok_def)
    (simp add: buf_view_def list_put_def beast_write_mlat_def numeral_eq_Suc)

lemma beast_serialize_spec:
  assumes p: "length (payload p) = PACKET_PAYLOAD_LEN_MAX" and b: "buf_fresh b" and t: "ptype p \<noteq> PACKET_TYPE_NONE"
  shows "\<exists>ts lv b'. packet_mlat_timestamp_scale_out (mlat_timestamp p) 0xffffffffffff BEAST_MLAT_MHZ = Some ts \<and>
    beast_level (rssi p) = Some lv \<and> beast_serialize p b = Some b' \<and> buf_ok b' \<and>
    buf_view b' = beast_frame p ts lv"
proof -
  let ?n = "packet_payload_len (ptype p)"
  have n: "?n \<le> 14" by (rule packet_payload_len_le)
  obtain ts where ts: "packet_mlat_timestamp_scale_out (mlat_timestamp p) 0xffffffffffff BEAST_MLAT_MHZ = Some ts"
    by (simp add: packet_mlat_timestamp_scale_out_def packet_mlat_timestamp_scale_mhz_out_def
        packet_mlat_timestamp_scale_width_out_def BEAST_MLAT_MHZ_def PACKET_MLAT_MHZ_def)
  obtain lv where lv: "beast_level (rssi p) = Some lv"
    using packet_rssi_scale_out_total [of 255 "rssi p"] by (cases "rssi p = 0") (auto simp: beast_level_def)
  have pl: "length (take ?n (payload p)) = ?n" using p length_payload_len [of "ptype p"] by simp
  from beast_image_view [OF pl n, of "beast_type (ptype p)" ts lv] obtain b1 b2 b3 b4 b5 where
    img: "buf_set_chr BUF_INIT 0 0x1a = Some b1" "buf_set_chr b1 1 (beast_type (ptype p)) = Some b2"
      "buf_put b2 9 (take ?n (payload p)) = Some b3" "buf_put b3 2 (beast_write_mlat ts) = Some b4"
      "buf_set_chr b4 8 lv = Some b5"
    and ok: "buf_ok (b5\<lparr>buf_length := 9 + ?n\<rparr>)"
    and v: "buf_view (b5\<lparr>buf_length := 9 + ?n\<rparr>) = 0x1a # beast_body p ts lv"
    by (auto simp: beast_body_def)
  have "2 * length (beast_body p ts lv) + 1 \<le> 256" using n by (simp add: length_beast_body [OF p])
  from beast_escape_spec [OF ok v this b] obtain b' where
    b': "beast_escape b (b5\<lparr>buf_length := 9 + ?n\<rparr>) = Some b'" "buf_ok b'" "buf_view b' = beast_frame p ts lv"
    by (auto simp: beast_frame_def)
  have tk: "c_take ?n (payload p) = Some (take ?n (payload p))"
    using p length_payload_len [of "ptype p"] by (simp add: c_take_def)
  have "beast_serialize_packet p b (beast_type (ptype p)) = Some b'"
    unfolding beast_serialize_packet_def Let_def img(1,2) tk Option.bind.bind_lunit beast_overlay_size_def
      img(3) ts img(4) lv [unfolded beast_level_def] img(5) b'(1) ..
  then have "beast_serialize p b = Some b'"
    using t by (cases "ptype p") (simp_all add: beast_serialize_def)
  with ts lv b' show ?thesis by blast
qed

interpretation beast: serializer_contract beast_serialize
proof
  fix p :: packet and b
  assume "packet_full p" and "buf_fresh b"
  then show "\<exists>b'. beast_serialize p b = Some b' \<and> buf_ok b'"
    using beast_serialize_spec [of p b] by (auto simp: packet_full_def packet_sane_def)
qed

section \<open>Round trip\<close>

lemma beast_parse_frame:
  assumes p: "length (payload p) = PACKET_PAYLOAD_LEN_MAX" and q: "length (payload q) = PACKET_PAYLOAD_LEN_MAX"
    and b: "buf_ok b" and v: "buf_view b = beast_frame p ts lv @ rest" and t: "ptype p \<noteq> PACKET_TYPE_NONE"
    and ts: "unat ts < 2 ^ 48"
    and mt: "packet_mlat_timestamp_scale_in ts 0xffffffffffff BEAST_MLAT_MHZ (mlat_state st) = Some (mt, ms)"
    and r: "packet_rssi_scale_in (ucast lv) 255 = Some r"
  shows "\<exists>b'. buf_view b' = rest \<and> buf_ok b' \<and>
    beast_parse b q st = Some (True, b',
      q\<lparr>mlat_timestamp := mt, rssi := r, ptype := ptype p,
        payload := take (packet_payload_len (ptype p)) (payload p) @
          drop (packet_payload_len (ptype p)) (payload q)\<rparr>, st\<lparr>mlat_state := ms\<rparr>)"
proof -
  let ?n = "packet_payload_len (ptype p)"
  let ?bs = "0x1a # beast_body p ts lv" and ?k = "length (beast_frame p ts lv)"
  have un: "beast_unesc (9 + ?n) (buf_view b) = Some (?bs, ?k)"
    using beast_unesc_esc [OF length_beast_body [OF p, of ts lv], of rest]
    by (simp add: v beast_frame_def numeral_eq_Suc)
  have len: "9 + ?n \<le> buf_length b" "?k \<le> buf_length b"
    using beast_unesc_bounds [OF un] b by simp_all
  from buf_consume_view [OF b len(2)] v obtain b' where
    b': "buf_consume b ?k = Some b'" "buf_view b' = rest" "buf_ok b'" by auto
  have chr: "buf_chr b 0 = Some 0x1a" "buf_chr b 1 = Some (beast_type (ptype p))"
    using buf_chr_view [OF b, of 0] buf_chr_view [OF b, of 1] len(1) t
    by (cases "ptype p"; simp add: v beast_frame_def beast_body_def beast_esc_byte_def)+
  have parts: "take 6 (drop 2 ?bs) = beast_write_mlat ts" "?bs ! 8 = lv"
    "drop 9 ?bs = take ?n (payload p)"
    by (simp_all add: beast_body_def beast_write_mlat_def numeral_eq_Suc)
  have "beast_accept ?bs ?k b q st (ptype p) = Some (True, b',
      q\<lparr>mlat_timestamp := mt, rssi := r, ptype := ptype p,
        payload := take ?n (payload p) @ drop ?n (payload q)\<rparr>, st\<lparr>mlat_state := ms\<rparr>)"
    unfolding beast_accept_def parts beast_mlat_roundtrip [OF ts] Option.bind.bind_lunit mt r b'(1)
    by simp
  then have "beast_parse_packet b q st (ptype p) = Some (True, b',
      q\<lparr>mlat_timestamp := mt, rssi := r, ptype := ptype p,
        payload := take ?n (payload p) @ drop ?n (payload q)\<rparr>, st\<lparr>mlat_state := ms\<rparr>)"
    unfolding beast_parse_packet_eq [OF b q] un by simp
  then show ?thesis
    using b' chr len(1) t
    by (cases "ptype p") (auto simp: beast_parse_def beast_overlay_size_def)
qed

section \<open>Properties\<close>

lemma beast_scale_values:
  assumes "packet_mlat_timestamp_scale_out t 0xffffffffffff BEAST_MLAT_MHZ = Some ts" and "beast_level l = Some lv"
  shows "unat ts = unat t div 10 mod 281474976710655" and "unat ts < 2 ^ 48"
    and "unat lv = (if l = 0 then 255 else unat l div 16843009)"
proof -
  have "ts = t div 10 mod 0xffffffffffff"
    using assms(1) by (simp add: packet_mlat_timestamp_scale_out_def packet_mlat_timestamp_scale_mhz_out_def
        packet_mlat_timestamp_scale_width_out_def BEAST_MLAT_MHZ_def PACKET_MLAT_MHZ_def)
  then show u: "unat ts = unat t div 10 mod 281474976710655" by (simp add: unat_mod_distrib unat_div_distrib)
  then show "unat ts < 2 ^ 48"
    using mod_less_divisor [of 281474976710655 "unat t div 10"] by simp
  have "unat l div 16843009 \<le> 4294967295 div 16843009" by (rule div_le_mono) simp
  then have "unat (ucast (l div 16843009) :: u8) = unat l div 16843009"
    by (simp add: unsigned_ucast_eq take_bit_nat_eq_self unat_div_distrib)
  then show "unat lv = (if l = 0 then 255 else unat l div 16843009)"
    using assms(2) by (auto simp: beast_level_def packet_rssi_scale_out_def PACKET_RSSI_MAX_def split: if_splits)
qed

lemma beast_scale_back:
  assumes "timestamp_generation ms = 0" and "timestamp_last ms = 0" and "unat ts < 2 ^ 48"
  shows "\<exists>mt ms'. packet_mlat_timestamp_scale_in ts 0xffffffffffff BEAST_MLAT_MHZ ms = Some (mt, ms') \<and> unat mt = unat ts * 10"
    and "\<exists>r. packet_rssi_scale_in (ucast (lv :: u8)) 255 = Some r \<and> unat r = unat lv * 16843009"
proof -
  have u: "unat (ts * 10) = unat ts * 10" using assms(3) by (simp add: unat_word_ariths)
  have "ts * 10 mod PACKET_MLAT_MAX = ts * 10"
    using assms(3) by (simp add: word_eq_iff_unsigned [where 'a = nat] unat_mod_distrib u PACKET_MLAT_MAX_def INT64_MAX_def)
  then show "\<exists>mt ms'. packet_mlat_timestamp_scale_in ts 0xffffffffffff BEAST_MLAT_MHZ ms = Some (mt, ms') \<and> unat mt = unat ts * 10"
    using assms(1,2) u by (simp add: packet_mlat_timestamp_scale_in_def packet_mlat_timestamp_scale_mhz_in_def
        packet_mlat_timestamp_scale_width_in_def Let_def BEAST_MLAT_MHZ_def PACKET_MLAT_MHZ_def)
  have "unat lv * 16843009 < 4294967296" using unat_le_max(1) [of lv] by linarith
  note lt = mod_less [OF this]
  show "\<exists>r. packet_rssi_scale_in (ucast lv) 255 = Some r \<and> unat r = unat lv * 16843009"
    by (simp add: packet_rssi_scale_in_def PACKET_RSSI_MAX_def unat_word_ariths lt)
qed

text \<open>
  C13. Escaping and unescaping are inverse: for every message of a first byte and up to 127 more,
  the escaped bytes followed by anything are unescaped to the message, and the number of bytes
  read is the length of the escaped form.
\<close>

theorem beast_escape_roundtrip:
  assumes "buf_ok inp" and "buf_view inp = c # bs" and "length bs \<le> 127"
    and "beast_escape BUF_INIT inp = Some f" and "buf_ok b" and "buf_view b = buf_view f @ rest"
  shows "\<exists>out. beast_unescape BUF_INIT b (length (c # bs)) = Some (int (length (buf_view f)), out) \<and>
    take (length (c # bs)) (buf_data out) = c # bs"
proof -
  from beast_escape_spec [OF assms(1,2) _ buf_fresh_INIT] assms(3,4) have f: "buf_view f = c # beast_esc_tail bs" by auto
  have u: "beast_unesc (length (c # bs)) (buf_view b) = Some (c # bs, length (buf_view f))"
    using beast_unesc_esc [of bs "length bs" rest] assms(6) by (simp add: f)
  have "unesc_result BUF_INIT (length (c # bs)) 0 0 (beast_unesc (length (c # bs)) (buf_view b))
      (beast_unescape BUF_INIT b (length (c # bs)))"
    using assms(3) by (intro beast_unescape_spec [OF assms(5)]) auto
  then show ?thesis unfolding u by (auto simp: unesc_result_def)
qed

definition sample_message :: buf where
  "sample_message = BUF_INIT\<lparr>buf_data := list_put (buf_data BUF_INIT) 0 [26, 51, 26, 26, 7], buf_length := 5\<rparr>"

lemma sample_message: "buf_ok sample_message" "buf_view sample_message = [26, 51, 26, 26, 7]"
  by (simp_all add: buf_ok_def sample_message_def BUF_INIT_def BUF_LEN_MAX_def buf_view_def list_put_def)

theorem beast_escape_roundtrip_witness:
  "\<exists>f out. beast_escape BUF_INIT sample_message = Some f \<and>
    beast_unescape BUF_INIT f (length [26, 51, 26, 26, 7 :: u8]) = Some (int (length (buf_view f)), out) \<and>
    take (length [26, 51, 26, 26, 7 :: u8]) (buf_data out) = [26, 51, 26, 26, 7]"
proof -
  from beast_escape_spec [OF sample_message _ buf_fresh_INIT] obtain f where
    f: "beast_escape BUF_INIT sample_message = Some f" "buf_ok f" by auto
  from beast_escape_roundtrip [OF sample_message _ f, of "[]"] f(1) show ?thesis by auto
qed

text \<open>
  C14. A packet written in the Beast format and received on a fresh connection is parsed back
  with its type and payload. The timestamp survives in steps of 10 ticks modulo 2^48 - 1, the level in
  steps of 16843009; a packet without a level, which is written as 0xff, comes back with the
  highest level instead.
\<close>

theorem beast_roundtrip:
  assumes p: "packet_full p" and q: "packet_ready q" and s: "beast_serialize p BUF_INIT = Some f"
    and b: "buf_ok b" "buf_view b = buf_view f @ rest"
  shows "\<exists>b' mt lv st'. buf_ok b' \<and> buf_view b' = rest \<and>
    unat mt = unat (mlat_timestamp p) div 10 mod 281474976710655 * 10 \<and>
    unat lv = (if rssi p = 0 then 4294967295 else unat (rssi p) div 16843009 * 16843009) \<and>
    beast_parse b q parser_state_zero = Some (True, b',
      q\<lparr>mlat_timestamp := mt, rssi := lv, ptype := ptype p,
        payload := take (packet_payload_len (ptype p)) (payload p) @
          drop (packet_payload_len (ptype p)) (payload q)\<rparr>, st')"
proof -
  have l: "length (payload p) = PACKET_PAYLOAD_LEN_MAX" "length (payload q) = PACKET_PAYLOAD_LEN_MAX"
    "ptype p \<noteq> PACKET_TYPE_NONE"
    using p q by (simp_all add: packet_full_def packet_sane_def packet_ready_def)
  from beast_serialize_spec [OF l(1) buf_fresh_INIT l(3)] s obtain ts lv where
    sc: "packet_mlat_timestamp_scale_out (mlat_timestamp p) 0xffffffffffff BEAST_MLAT_MHZ = Some ts"
      "beast_level (rssi p) = Some lv" and v: "buf_view f = beast_frame p ts lv" by auto
  note sv = beast_scale_values [OF sc]
  have z: "timestamp_generation (mlat_state parser_state_zero) = 0" "timestamp_last (mlat_state parser_state_zero) = 0"
    by (simp_all add: parser_state_zero_def)
  from beast_scale_back(1) [OF z sv(2)] beast_scale_back(2) [OF z sv(2), of lv] obtain mt ms r where
    bk: "packet_mlat_timestamp_scale_in ts 0xffffffffffff BEAST_MLAT_MHZ (mlat_state parser_state_zero) = Some (mt, ms)"
      "packet_rssi_scale_in (ucast lv) 255 = Some r" "unat mt = unat ts * 10" "unat r = unat lv * 16843009" by blast
  from v b(2) have "buf_view b = beast_frame p ts lv @ rest" by simp
  from beast_parse_frame [OF l(1,2) b(1) this l(3) sv(2) bk(1,2)] obtain b' where
    r: "buf_view b' = rest" "buf_ok b'" "beast_parse b q parser_state_zero = Some (True, b',
      q\<lparr>mlat_timestamp := mt, rssi := r, ptype := ptype p,
        payload := take (packet_payload_len (ptype p)) (payload p) @
          drop (packet_payload_len (ptype p)) (payload q)\<rparr>, parser_state_zero\<lparr>mlat_state := ms\<rparr>)" by blast
  then show ?thesis
    using bk(3,4) sv(1,3)
    by (intro exI [of _ b'] exI [of _ mt] exI [of _ r] exI [of _ "parser_state_zero\<lparr>mlat_state := ms\<rparr>"]) simp
qed

theorem beast_roundtrip_witness:
  "\<exists>f b' mt lv st'. beast_serialize sample_packet BUF_INIT = Some f \<and> buf_ok b' \<and> buf_view b' = [] \<and>
    unat mt = unat (mlat_timestamp sample_packet) div 10 mod 281474976710655 * 10 \<and>
    unat lv = (if rssi sample_packet = 0 then 4294967295 else unat (rssi sample_packet) div 16843009 * 16843009) \<and>
    beast_parse f sample_empty parser_state_zero = Some (True, b',
      sample_empty\<lparr>mlat_timestamp := mt, rssi := lv, ptype := ptype sample_packet,
        payload := take (packet_payload_len (ptype sample_packet)) (payload sample_packet) @
          drop (packet_payload_len (ptype sample_packet)) (payload sample_empty)\<rparr>, st')"
proof -
  from beast.serialize_returns [OF sample_packet_full buf_fresh_INIT] obtain f where
    f: "beast_serialize sample_packet BUF_INIT = Some f" "buf_ok f" by blast
  from beast_roundtrip [OF sample_packet_full sample_empty_ready f(1,2), of "[]"] f(1) show ?thesis by simp
qed

text \<open>
  The Beast parser is safe on every input, in the same sense as the raw parser: no sequence
  of escapes makes it leave a buffer.
\<close>

theorem beast_parse_safe:
  assumes "buf_ok b" and "packet_ready p" and "parser_state_ok st"
  shows "\<exists>r. beast_parse b p st = Some r \<and> parse_result_ok b p r"
  by (rule beast.parse_returns [OF assms])

theorem beast_parse_safe_witness:
  "\<exists>r. beast_parse sample_message sample_empty parser_state_zero = Some r \<and>
    parse_result_ok sample_message sample_empty r"
  by (rule beast_parse_safe) (simp_all add: sample_empty_ready sample_message)

end
