(* ===== verification/Rand.thy ===== *)
theory Rand
  imports Buf Packet
begin

text \<open>
  Model of \<^verbatim>\<open>adsbus/rand.c\<close> and \<^verbatim>\<open>adsbus/uuid.c\<close>: random bytes drawn through a 256-byte
  buffer over \<^verbatim>\<open>/dev/urandom\<close>, and the version-4 UUIDs made from them. The device is a
  parameter: the sequence \<open>src\<close> of the bytes it delivers, of which \<open>rand_pos\<close> have been read.
  The lemmas show when every byte handed out is fresh, when bytes are handed out twice, and that
  every generated UUID is a valid source id.
\<close>

type_synonym entropy = "nat \<Rightarrow> u8"

record rand_state =
  rand_buf :: buf
  rand_pos :: nat

definition rand_read :: "entropy \<Rightarrow> nat \<Rightarrow> nat \<Rightarrow> u8 list" where
  "rand_read src pos n = map src [pos..<pos + n]"

definition rand_init :: "entropy \<Rightarrow> rand_state option" where
  "rand_init src = do {
     b \<leftarrow> buf_put BUF_INIT 0 (rand_read src 0 BUF_LEN_MAX);
     Some \<lparr>rand_buf = b\<lparr>buf_length := BUF_LEN_MAX\<rparr>, rand_pos = BUF_LEN_MAX\<rparr>
   }"

text \<open>
  \<^verbatim>\<open>rand_fill\<close>: the bytes stored at \<^verbatim>\<open>value\<close> and the new state. When the buffer holds too
  few bytes one \<^verbatim>\<open>readv\<close> first refills \<^verbatim>\<open>buf[0 .. start)\<close>, then the caller's \<open>sz\<close> (the C parameter \<^verbatim>\<open>size\<close>) bytes.
\<close>

definition rand_fill :: "entropy \<Rightarrow> rand_state \<Rightarrow> nat \<Rightarrow> (u8 list \<times> rand_state) option" where
  "rand_fill src st sz =
     (let b = rand_buf st in
      if sz \<le> buf_length b then do {
        v \<leftarrow> buf_get b 0 sz;
        b \<leftarrow> buf_consume b sz;
        Some (v, st\<lparr>rand_buf := b\<rparr>)
      } else do {
        let bytes = buf_start b + sz;
        c_assert (bytes < SSIZE_MAX);
        let iov0 = rand_read src (rand_pos st) (buf_start b);
        let v = rand_read src (rand_pos st + buf_start b) sz;
        Some (v, st\<lparr>rand_buf := b\<lparr>buf_data := list_put (buf_data b) 0 iov0,
                      buf_start := 0, buf_length := BUF_LEN_MAX\<rparr>,
                    rand_pos := rand_pos st + bytes\<rparr>)
      })"

fun rand_draws :: "entropy \<Rightarrow> rand_state \<Rightarrow> nat list \<Rightarrow> (u8 list list \<times> rand_state) option" where
  "rand_draws src st [] = Some ([], st)"
| "rand_draws src st (n # ns) = do {
     (v, st) \<leftarrow> rand_fill src st n;
     (vs, st) \<leftarrow> rand_draws src st ns;
     Some (v # vs, st)
   }"

section \<open>Invariant\<close>

text \<open>The buffer ends at the end of its array, or it is empty and rewound.\<close>

definition rand_ok :: "rand_state \<Rightarrow> bool" where
  "rand_ok st \<longleftrightarrow> (let b = rand_buf st in length (buf_data b) = BUF_LEN_MAX \<and>
     (buf_start b + buf_length b = BUF_LEN_MAX \<or> buf_start b = 0 \<and> buf_length b = 0))"

lemma rand_ok_buf_ok: "rand_ok st \<Longrightarrow> buf_ok (rand_buf st)"
  by (auto simp: rand_ok_def buf_ok_def Let_def)

lemma rand_init_Some:
  "rand_init src = Some \<lparr>rand_buf = \<lparr>buf_data = rand_read src 0 BUF_LEN_MAX, buf_start = 0,
     buf_length = BUF_LEN_MAX\<rparr>, rand_pos = BUF_LEN_MAX\<rparr>"
  by (simp add: rand_init_def buf_put_def BUF_INIT_def rand_read_def list_put_def)

lemma rand_init_ok: "\<exists>st. rand_init src = Some st \<and> rand_ok st"
  by (simp add: rand_init_Some rand_ok_def rand_read_def Let_def)

lemma rand_fill_ok:
  assumes ok: "rand_ok st" and sz: "sz + BUF_LEN_MAX < SSIZE_MAX"
  shows "\<exists>v st'. rand_fill src st sz = Some (v, st') \<and> rand_ok st' \<and> length v = sz"
proof (cases "sz \<le> buf_length (rand_buf st)")
  case True
  with ok show ?thesis
    by (auto simp: rand_fill_def Let_def buf_get_def buf_consume_def rand_ok_def)
next
  case False
  with ok sz show ?thesis
    by (auto simp: rand_fill_def Let_def rand_ok_def rand_read_def)
qed

lemma rand_draws_lengths:
  assumes "rand_ok st" and "\<forall>n \<in> set ns. n + BUF_LEN_MAX < SSIZE_MAX"
    and "rand_draws src st ns = Some (vs, st')"
  shows "map length vs = ns \<and> rand_ok st'"
  using assms
proof (induction ns arbitrary: st vs)
  case Nil
  then show ?case by simp
next
  case (Cons n ns)
  from rand_fill_ok [OF Cons.prems(1), of n src] Cons.prems(2) obtain v st1 where
    f: "rand_fill src st n = Some (v, st1)" "rand_ok st1" "length v = n" by auto
  from Cons.prems(3) f obtain ws where "rand_draws src st1 ns = Some (ws, st')" "vs = v # ws"
    by (auto simp: bind_Some_iff)
  with Cons.IH [OF f(2), of ws] Cons.prems(2) f(3) show ?case by simp
qed

section \<open>Freshness\<close>

text \<open>
  No draw empties the buffer exactly. (A draw of more bytes than are buffered does not count:
  it refills.)
\<close>

fun never_empties :: "entropy \<Rightarrow> rand_state \<Rightarrow> nat list \<Rightarrow> bool" where
  "never_empties src st [] = True"
| "never_empties src st (n # ns) =
     (n \<noteq> buf_length (rand_buf st) \<and>
      (case rand_fill src st n of None \<Rightarrow> False | Some (v, st') \<Rightarrow> never_empties src st' ns))"

text \<open>Every buffered byte comes from a position of the device not handed out before.\<close>

definition rand_fresh :: "entropy \<Rightarrow> rand_state \<Rightarrow> nat set \<Rightarrow> bool" where
  "rand_fresh src st used \<longleftrightarrow> (\<exists>P. let b = rand_buf st in
     buf_data b = map src P \<and> length P = BUF_LEN_MAX \<and> buf_start b + buf_length b = BUF_LEN_MAX \<and>
     distinct (drop (buf_start b) P) \<and> set (drop (buf_start b) P) \<inter> used = {} \<and>
     set P \<subseteq> {..<rand_pos st} \<and> used \<subseteq> {..<rand_pos st})"

lemma rand_fresh_init: "rand_init src = Some st \<Longrightarrow> rand_fresh src st {}"
  by (auto simp: rand_init_Some rand_fresh_def rand_read_def intro!: exI [of _ "[0..<BUF_LEN_MAX]"])

lemma rand_fresh_step:
  assumes inv: "rand_fresh src st used" and n: "n \<noteq> buf_length (rand_buf st)"
    and fill: "rand_fill src st n = Some (v, st')"
  shows "\<exists>Q. v = map src Q \<and> distinct Q \<and> set Q \<inter> used = {} \<and> rand_fresh src st' (used \<union> set Q)"
proof -
  let ?b = "rand_buf st" and ?s = "buf_start (rand_buf st)"
  from inv obtain P where P: "buf_data ?b = map src P" "length P = BUF_LEN_MAX"
    "?s + buf_length ?b = BUF_LEN_MAX" "distinct (drop ?s P)" "set (drop ?s P) \<inter> used = {}"
    "set P \<subseteq> {..<rand_pos st}" "used \<subseteq> {..<rand_pos st}"
    by (auto simp: rand_fresh_def Let_def)
  show ?thesis
  proof (cases "n \<le> buf_length ?b")
    case True
    with n have less: "n < buf_length ?b" by simp
    define Q where "Q = take n (drop ?s P)"
    define R where "R = drop n (drop ?s P)"
    have QR: "drop ?s P = Q @ R" by (simp add: Q_def R_def del: drop_drop)
    have R': "drop (?s + n) P = R" by (simp add: R_def add.commute)
    have sub: "set Q \<subseteq> set P" using set_take_subset set_drop_subset Q_def by fast
    have v: "v = map src Q" "st' = st\<lparr>rand_buf := ?b\<lparr>buf_length := buf_length ?b - n, buf_start := ?s + n\<rparr>\<rparr>"
      using fill less P(1-3)
      by (auto simp: rand_fill_def Let_def buf_get_def buf_consume_def bind_Some_iff Q_def take_map drop_map
          split: if_splits)
    have "rand_fresh src st' (used \<union> set Q)"
      unfolding rand_fresh_def Let_def
      using P less sub QR by (intro exI [of _ P]) (auto simp: v R')
    with v P(4,5) QR show ?thesis by (intro exI [of _ Q]) auto
  next
    case False
    define Q where "Q = [rand_pos st + ?s..<rand_pos st + ?s + n]"
    define P' where "P' = [rand_pos st..<rand_pos st + ?s] @ drop ?s P"
    have v: "v = map src Q" "rand_pos st' = rand_pos st + ?s + n"
      "rand_buf st' = \<lparr>buf_data = map src P', buf_start = 0, buf_length = BUF_LEN_MAX\<rparr>"
      using fill False P(1-3)
      by (auto simp: rand_fill_def Let_def bind_Some_iff Q_def rand_read_def P'_def list_put_def
          drop_map add.assoc)
    have "set (drop ?s P) \<subseteq> {..<rand_pos st}" using P(6) set_drop_subset by fast
    then have "rand_fresh src st' (used \<union> set Q)"
      unfolding rand_fresh_def Let_def
      using P(2-5,7) by (intro exI [of _ P']) (auto simp: v P'_def Q_def)
    with v P(7) show ?thesis by (intro exI [of _ Q]) (auto simp: Q_def)
  qed
qed

lemma rand_draws_fresh:
  assumes "rand_fresh src st used" and "never_empties src st ns"
    and "rand_draws src st ns = Some (vs, st')"
  shows "\<exists>Qs. vs = map (map src) Qs \<and> distinct (concat Qs) \<and> set (concat Qs) \<inter> used = {}"
  using assms
proof (induction ns arbitrary: st used vs)
  case Nil
  then show ?case by (intro exI [of _ "[]"]) simp
next
  case (Cons n ns)
  from Cons.prems(3) obtain v st1 ws where
    f: "rand_fill src st n = Some (v, st1)" "rand_draws src st1 ns = Some (ws, st')" "vs = v # ws"
    by (auto simp: bind_Some_iff)
  from Cons.prems(2) f have n: "n \<noteq> buf_length (rand_buf st)" "never_empties src st1 ns" by auto
  from rand_fresh_step [OF Cons.prems(1) n(1) f(1)] obtain Q where
    Q: "v = map src Q" "distinct Q" "set Q \<inter> used = {}" "rand_fresh src st1 (used \<union> set Q)" by blast
  from Cons.IH [OF Q(4) n(2) f(2)] obtain Qs where
    "ws = map (map src) Qs" "distinct (concat Qs)" "set (concat Qs) \<inter> (used \<union> set Q) = {}" by blast
  with Q f(3) show ?case by (intro exI [of _ "Q # Qs"]) auto
qed

section \<open>Reuse\<close>

text \<open>Draws that use up exactly what is buffered hand out the buffer and leave it in place.\<close>

lemma rand_draws_exhaust:
  assumes "buf_start (rand_buf st) + buf_length (rand_buf st) = BUF_LEN_MAX"
    and "length (buf_data (rand_buf st)) = BUF_LEN_MAX"
    and "sum_list ns = buf_length (rand_buf st)" and "ns \<noteq> []" and "0 \<notin> set ns"
  shows "\<exists>vs st'. rand_draws src st ns = Some (vs, st') \<and> length vs = length ns \<and>
    concat vs = drop (buf_start (rand_buf st)) (buf_data (rand_buf st)) \<and>
    buf_data (rand_buf st') = buf_data (rand_buf st) \<and> buf_start (rand_buf st') = 0 \<and>
    buf_length (rand_buf st') = 0 \<and> rand_pos st' = rand_pos st"
  using assms
proof (induction ns arbitrary: st)
  case Nil
  then show ?case by simp
next
  case (Cons n ns)
  let ?b = "rand_buf st"
  show ?case
  proof (cases "ns = []")
    case True
    with Cons.prems show ?thesis
      by (auto simp: rand_fill_def Let_def buf_get_def buf_consume_def)
  next
    case False
    define st1 where "st1 = st\<lparr>rand_buf := ?b\<lparr>buf_length := buf_length ?b - n, buf_start := buf_start ?b + n\<rparr>\<rparr>"
    have "0 < sum_list ns" using False Cons.prems(5) by (cases ns) auto
    then have less: "n < buf_length ?b" using Cons.prems(3) by simp
    have f: "rand_fill src st n = Some (take n (drop (buf_start ?b) (buf_data ?b)), st1)"
      using less Cons.prems(1,2)
      by (simp add: rand_fill_def Let_def buf_get_def buf_consume_def c_eval st1_def)
    have "buf_start (rand_buf st1) + buf_length (rand_buf st1) = BUF_LEN_MAX"
      "length (buf_data (rand_buf st1)) = BUF_LEN_MAX" "sum_list ns = buf_length (rand_buf st1)" "0 \<notin> set ns"
      using less Cons.prems by (auto simp: st1_def)
    with Cons.IH [of st1] False obtain vs st' where
      "rand_draws src st1 ns = Some (vs, st')" "length vs = length ns"
      "concat vs = drop (buf_start (rand_buf st1)) (buf_data (rand_buf st1))"
      "buf_data (rand_buf st') = buf_data (rand_buf st1)" "buf_start (rand_buf st') = 0"
      "buf_length (rand_buf st') = 0" "rand_pos st' = rand_pos st1"
      by blast
    moreover have "rand_buf st1 = ?b\<lparr>buf_length := buf_length ?b - n, buf_start := buf_start ?b + n\<rparr>"
      "rand_pos st1 = rand_pos st"
      by (simp_all add: st1_def)
    ultimately have IH: "rand_draws src st1 ns = Some (vs, st')" "length vs = length ns"
      "concat vs = drop n (drop (buf_start ?b) (buf_data ?b))"
      "buf_data (rand_buf st') = buf_data ?b" "buf_start (rand_buf st') = 0"
      "buf_length (rand_buf st') = 0" "rand_pos st' = rand_pos st"
      by (simp_all add: add.commute)
    show ?thesis
      using IH f by (auto simp del: drop_drop)
  qed
qed

lemma rand_fill_empty:
  assumes "buf_start (rand_buf st) = 0" "buf_length (rand_buf st) = 0" and "0 < m" "m < SSIZE_MAX"
  shows "\<exists>v st'. rand_fill src st m = Some (v, st') \<and> buf_data (rand_buf st') = buf_data (rand_buf st) \<and>
    buf_start (rand_buf st') = 0 \<and> buf_length (rand_buf st') = BUF_LEN_MAX"
  using assms by (simp add: rand_fill_def Let_def rand_read_def)

lemma rand_draws_append:
  "rand_draws src st (ms @ ns) = do {
     (vs, st) \<leftarrow> rand_draws src st ms;
     (ws, st) \<leftarrow> rand_draws src st ns;
     Some (vs @ ws, st)
   }"
  by (induction ms arbitrary: st) (auto split: Option.bind_split)

lemma rand_draws_reuse:
  assumes init: "rand_init src = Some st" and ns: "sum_list ns = 256" "0 \<notin> set ns"
    and m: "0 < m" "m < SSIZE_MAX" and n: "n \<le> 256"
  shows "\<exists>vs v w st'. rand_draws src st (ns @ [m, n]) = Some (vs @ [v, w], st') \<and>
    length vs = length ns \<and> w = take n (concat vs)"
proof -
  from init have st: "buf_start (rand_buf st) = 0" "buf_length (rand_buf st) = BUF_LEN_MAX"
    "length (buf_data (rand_buf st)) = BUF_LEN_MAX"
    by (auto simp: rand_init_Some rand_read_def)
  have "ns \<noteq> []" using ns by auto
  with rand_draws_exhaust [of st ns src] st ns obtain vs st1 where
    1: "rand_draws src st ns = Some (vs, st1)" "length vs = length ns"
      "concat vs = buf_data (rand_buf st)" "buf_data (rand_buf st1) = buf_data (rand_buf st)"
      "buf_start (rand_buf st1) = 0" "buf_length (rand_buf st1) = 0"
    by (auto simp: BUF_LEN_MAX_def)
  from rand_fill_empty [OF 1(5,6) m] obtain v st2 where
    2: "rand_fill src st1 m = Some (v, st2)" "buf_data (rand_buf st2) = buf_data (rand_buf st)"
      "buf_start (rand_buf st2) = 0" "buf_length (rand_buf st2) = BUF_LEN_MAX"
    using 1(4) by metis
  have "\<exists>st3. rand_fill src st2 n = Some (take n (concat vs), st3)"
    using 2 n st(3) by (simp add: rand_fill_def Let_def buf_get_def buf_consume_def 1(3) BUF_LEN_MAX_def)
  with 1 2 show ?thesis
    by (auto simp: rand_draws_append)
qed

section \<open>UUIDs\<close>

text \<open>\<^verbatim>\<open>uuid_gen\<close>: 16 random bytes, version and variant set, written as text into \<open>out\<close>.\<close>

definition uuid_gen :: "entropy \<Rightarrow> rand_state \<Rightarrow> u8 list \<Rightarrow> (u8 list \<times> rand_state) option" where
  "uuid_gen src st out = do {
     (uuid, st) \<leftarrow> rand_fill src st 16;
     u6 \<leftarrow> c_nth uuid 6;
     uuid \<leftarrow> c_upd uuid 6 ((u6 AND 0x0F) OR 0x40);
     u8 \<leftarrow> c_nth uuid 8;
     uuid \<leftarrow> c_upd uuid 8 ((u8 AND 0x3F) OR 0x80);
     out \<leftarrow> c_upd out 8 45;
     out \<leftarrow> c_upd out 13 45;
     out \<leftarrow> c_upd out 18 45;
     out \<leftarrow> c_upd out 23 45;
     out \<leftarrow> c_upd out 36 0;
     h0 \<leftarrow> hex_from_bin_lower uuid 4;
     h1 \<leftarrow> hex_from_bin_lower (drop 4 uuid) 2;
     h2 \<leftarrow> hex_from_bin_lower (drop 6 uuid) 2;
     h3 \<leftarrow> hex_from_bin_lower (drop 8 uuid) 2;
     h4 \<leftarrow> hex_from_bin_lower (drop 10 uuid) 6;
     Some (list_put (list_put (list_put (list_put (list_put out 0 h0) 9 h1) 14 h2) 19 h3) 24 h4, st)
   }"

text \<open>The text as a function of the random bytes.\<close>

definition uuid_mark :: "u8 list \<Rightarrow> u8 list" where
  "uuid_mark v = v[6 := (v ! 6 AND 0x0F) OR 0x40, 8 := (v ! 8 AND 0x3F) OR 0x80]"

definition uuid_text :: "u8 list \<Rightarrow> u8 list" where
  "uuid_text v = (let u = uuid_mark v; h = (\<lambda>k n. hex_encode hex_lower_table (drop k u) n) in
     h 0 4 @ [45] @ h 4 2 @ [45] @ h 6 2 @ [45] @ h 8 2 @ [45] @ h 10 6 @ [0])"

lemma uuid_puts:
  assumes "length out = 37" and "length h0 = 8" "length h1 = 4" "length h2 = 4" "length h3 = 4" "length h4 = 12"
  shows "list_put (list_put (list_put (list_put (list_put
      (out[8 := 45, 13 := 45, 18 := 45, 23 := 45, 36 := 0]) 0 h0) 9 h1) 14 h2) 19 h3) 24 h4 =
    h0 @ [45] @ h1 @ [45] @ h2 @ [45] @ h3 @ [45] @ h4 @ [0 :: u8]"
proof (rule nth_equalityI)
  fix i
  assume "i < length (list_put (list_put (list_put (list_put (list_put
      (out[8 := 45, 13 := 45, 18 := 45, 23 := 45, 36 := 0]) 0 h0) 9 h1) 14 h2) 19 h3) 24 h4)"
  then show "list_put (list_put (list_put (list_put (list_put
      (out[8 := 45, 13 := 45, 18 := 45, 23 := 45, 36 := 0]) 0 h0) 9 h1) 14 h2) 19 h3) 24 h4 ! i =
    (h0 @ [45] @ h1 @ [45] @ h2 @ [45] @ h3 @ [45] @ h4 @ [0]) ! i"
    using assms by (auto simp: nth_list_put nth_append nth_list_update nth_Cons')
qed (use assms in simp)

lemma length_uuid_mark [simp]: "length (uuid_mark v) = length v"
  by (simp add: uuid_mark_def)

lemma uuid_gen_eq:
  assumes "rand_ok st" and "length out = 37"
  shows "uuid_gen src st out = map_option (\<lambda>(v, st'). (uuid_text v, st')) (rand_fill src st 16)"
proof -
  from rand_fill_ok [OF assms(1), of 16 src] obtain v st' where
    v: "rand_fill src st 16 = Some (v, st')" "length v = 16"
    by (auto simp: BUF_LEN_MAX_def SSIZE_MAX_def)
  have h: "hex_from_bin_lower (drop k (uuid_mark v)) n = Some (hex_encode hex_lower_table (drop k (uuid_mark v)) n)"
    "length (hex_encode hex_lower_table (drop k (uuid_mark v)) n) = 2 * n" if "k + n \<le> 16" for k n
    using hex_encode(1,2) [of hex_lower_table n "drop k (uuid_mark v)"] that v(2)
    by (simp_all add: hex_from_bin_lower_def)
  from h [of 0 4] h [of 4 2] h [of 6 2] h [of 8 2] h [of 10 6] v assms(2) show ?thesis
    by (simp add: uuid_gen_def c_eval uuid_mark_def [symmetric] uuid_puts uuid_text_def Let_def
        del: drop_update_cancel)
qed

lemma uuid_text_valid:
  assumes "length v = 16"
  shows "length (uuid_text v) = 37" "valid_id (uuid_text v)"
proof -
  let ?h = "\<lambda>k n. hex_encode hex_lower_table (drop k (uuid_mark v)) n"
  define body where "body = ?h 0 4 @ [45] @ ?h 4 2 @ [45] @ ?h 6 2 @ [45] @ ?h 8 2 @ [45] @ ?h 10 6"
  have eq: "uuid_text v = body @ [0]" by (simp add: uuid_text_def body_def Let_def)
  have len: "length body = 36"
    using assms by (simp add: body_def hex_encode(2))
  have sub: "set (?h k n) \<subseteq> set hex_lower_table" if "k + n \<le> 16" for k n
    using that assms by (intro hex_encode_set) auto
  have "set body \<subseteq> insert 45 (set hex_lower_table)"
    using sub [of 0 4] sub [of 4 2] sub [of 6 2] sub [of 8 2] sub [of 10 6] by (auto simp: body_def)
  moreover have "\<forall>c \<in> insert 45 (set hex_lower_table). 32 \<le> c \<and> c \<le> 126"
    by (simp add: hex_lower_table_def)
  ultimately have "\<forall>c \<in> set body. 32 \<le> c \<and> c \<le> 126" by blast
  then have "\<forall>k<36. 32 \<le> body ! k \<and> body ! k \<le> 126" using len by simp
  then show "length (uuid_text v) = 37" "valid_id (uuid_text v)"
    using len by (auto simp: eq valid_id_def UUID_LEN_def nth_append intro!: exI [of _ 36])
qed

lemma uuid_text_version:
  assumes "length v = 16"
  shows "uuid_text v ! 14 = 52" and "uuid_text v ! 19 \<in> {56, 57, 97, 98}"
proof -
  let ?h = "\<lambda>k n. hex_encode hex_lower_table (drop k (uuid_mark v)) n"
  have len: "length (?h k n) = 2 * n" if "k + n \<le> 16" for k n
    using that assms by (simp add: hex_encode(2))
  have first: "?h k n ! 0 = hex_lower_table ! unat (drop_bit 4 (uuid_mark v ! k))"
    if "k + n \<le> 16" "0 < n" for k n
  proof -
    have "hex_from_bin (drop k (uuid_mark v)) 0 n hex_lower_table = Some (?h k n)"
      using that assms by (intro hex_encode(1)) auto
    then show ?thesis
      using that assms
      by (cases n) (auto simp: bind_Some_iff c_nth_Some_iff eq_commute [of _ "hex_encode _ _ _"])
  qed
  have "uuid_text v ! 14 = ?h 6 2 ! 0" "uuid_text v ! 19 = ?h 8 2 ! 0"
    using len [of 0 4] len [of 4 2] len [of 6 2] len [of 8 2]
    by (simp_all add: uuid_text_def Let_def nth_append)
  moreover have "drop_bit 4 (uuid_mark v ! 6) = 4"
  proof -
    have "drop_bit 4 (take_bit 4 x) = (0 :: u8)" for x by (rule bit_eqI) (simp add: bit_simps)
    then show ?thesis using assms by (simp add: uuid_mark_def and_nibble drop_bit_or)
  qed
  moreover have "drop_bit 4 (uuid_mark v ! 8) \<in> {8, 9, 10, 11}"
  proof -
    have "drop_bit 4 (x AND 63) = (take_bit 2 (drop_bit 4 x) :: u8)" for x
    proof -
      have "x AND 63 = take_bit 6 x" by (simp add: take_bit_eq_mask mask_numeral)
      then show ?thesis by simp (rule bit_eqI, auto simp: bit_simps)
    qed
    moreover have "take_bit 2 y \<in> {0, 1, 2, 3 :: u8}" for y
    proof -
      have "unat (take_bit 2 y) < 4"
        using take_bit_nat_less_exp [of 2 "unat y"] by (simp add: unsigned_take_bit_eq)
      then have "unat (take_bit 2 y) = unat (0 :: u8) \<or> unat (take_bit 2 y) = unat (1 :: u8) \<or>
          unat (take_bit 2 y) = unat (2 :: u8) \<or> unat (take_bit 2 y) = unat (3 :: u8)" by auto
      then show ?thesis unfolding word_unat_eq_iff [symmetric] by simp
    qed
    ultimately have "drop_bit 4 (v ! 8 AND 63) \<in> {0, 1, 2, 3 :: u8}" by simp
    then show ?thesis using assms by (auto simp: uuid_mark_def drop_bit_or)
  qed
  ultimately show "uuid_text v ! 14 = 52" and "uuid_text v ! 19 \<in> {56, 57, 97, 98}"
    using first [of 6 2] first [of 8 2] by (auto simp: hex_lower_table_def)
qed

lemma uuid_gen_valid:
  assumes "rand_ok st" and "length out = 37"
  shows "\<exists>u st'. uuid_gen src st out = Some (u, st') \<and> rand_ok st' \<and> length u = 37 \<and> valid_id u"
  using rand_fill_ok [OF assms(1), of 16 src] uuid_text_valid
  by (auto simp: uuid_gen_eq [OF assms] BUF_LEN_MAX_def SSIZE_MAX_def)

text \<open>The first identifier is drawn again.\<close>

lemma uuid_first_again:
  assumes init: "rand_init src = Some st" and ns: "sum_list ns = 240" "0 \<notin> set ns" and m: "0 < m" "m < SSIZE_MAX"
    and out: "length out = 37" "length out' = 37"
  shows "\<exists>u st1 vs st2 v st3 st4. uuid_gen src st out = Some (u, st1) \<and> rand_draws src st1 ns = Some (vs, st2) \<and>
    rand_fill src st2 m = Some (v, st3) \<and> uuid_gen src st3 out' = Some (u, st4)"
proof -
  from rand_draws_reuse [OF init, of "16 # ns" m 16] ns m obtain ws v w st4 where
    d: "rand_draws src st ((16 # ns) @ [m, 16]) = Some (ws @ [v, w], st4)" "length ws = Suc (length ns)" "w = take 16 (concat ws)"
    by auto
  have ok: "rand_ok st" using rand_init_ok [of src] init by auto
  from rand_fill_ok [OF ok, of 16 src] obtain x st1 where
    x: "rand_fill src st 16 = Some (x, st1)" "rand_ok st1" "length x = 16" by (auto simp: BUF_LEN_MAX_def SSIZE_MAX_def)
  obtain y ys where ws: "ws = y # ys" "length ys = length ns" using d(2) by (cases ws) auto
  from d(1) x(1) ws have y: "y = x" "rand_draws src st1 (ns @ [m, 16]) = Some (ys @ [v, w], st4)"
    by (auto simp: bind_Some_iff)
  have "\<forall>n \<in> set ns. n + BUF_LEN_MAX < SSIZE_MAX"
    using ns(1) member_le_sum_list [of _ ns] by (fastforce simp: BUF_LEN_MAX_def SSIZE_MAX_def)
  note small = this
  from y(2) obtain vs st2 rs where r: "rand_draws src st1 ns = Some (vs, st2)" "rand_draws src st2 [m, 16] = Some (rs, st4)"
    "ys @ [v, w] = vs @ rs" by (auto simp: rand_draws_append bind_Some_iff)
  have l: "length vs = length ns" "rand_ok st2" using rand_draws_lengths [OF x(2) small r(1)] by (auto dest: arg_cong [of _ _ length])
  from r(2) obtain v' st3 w' where f: "rand_fill src st2 m = Some (v', st3)" "rand_fill src st3 16 = Some (w', st4)" "rs = [v', w']"
    by (auto simp: bind_Some_iff)
  have "w' = w" using r(3) f(3) l(1) ws(2) by simp
  moreover have "w = x" using d(3) ws y(1) x(3) by simp
  ultimately have w: "rand_fill src st3 16 = Some (x, st4)" using f(2) by simp
  have "rand_ok st3"
  proof (cases "m \<le> buf_length (rand_buf st2)")
    case True
    then show ?thesis using f(1) l(2)
      by (auto simp: rand_fill_def Let_def buf_get_def buf_consume_def rand_ok_def bind_Some_iff split: if_splits)
  next
    case False
    then show ?thesis using f(1) l(2) by (auto simp: rand_fill_def Let_def rand_ok_def rand_read_def bind_Some_iff)
  qed
  then show ?thesis using uuid_gen_eq [OF ok out(1), of src] uuid_gen_eq [of st3, OF _ out(2), of src] x(1) w r(1) f(1) by simp
qed

section \<open>Properties\<close>

text \<open>
  C32. As long as no draw takes exactly the bytes that are left in the buffer, every byte handed out comes
  from a position of the random device that no other byte came from.
\<close>

theorem rand_bytes_fresh:
  assumes "rand_init src = Some st" and "never_empties src st ns" and "rand_draws src st ns = Some (vs, st')"
  shows "\<exists>Qs. vs = map (map src) Qs \<and> distinct (concat Qs)"
  using rand_draws_fresh [OF rand_fresh_init [OF assms(1)] assms(2,3)] by blast

theorem rand_bytes_fresh_witness:
  "\<exists>st vs st' Qs. rand_init of_nat = Some st \<and> rand_draws of_nat st [16, 4] = Some (vs, st') \<and>
    vs = map (map of_nat) Qs \<and> distinct (concat Qs)"
proof -
  obtain st where st: "rand_init of_nat = Some st" "buf_length (rand_buf st) = 256" "rand_ok st"
    using rand_init_ok [of of_nat] by (auto simp: rand_init_Some BUF_LEN_MAX_def)
  obtain v st1 where f: "rand_fill of_nat st 16 = Some (v, st1)" "buf_length (rand_buf st1) = 240" "rand_ok st1"
    using rand_fill_ok [OF st(3), of 16 of_nat] st(2)
    by (auto simp: rand_fill_def BUF_LEN_MAX_def SSIZE_MAX_def bind_Some_iff buf_consume_def Let_def)
  obtain v2 st2 where g: "rand_fill of_nat st1 4 = Some (v2, st2)"
    using rand_fill_ok [OF f(3), of 4 of_nat] by (auto simp: BUF_LEN_MAX_def SSIZE_MAX_def)
  have ne: "never_empties of_nat st [16, 4]" using st(2) f g by simp
  have dr: "rand_draws of_nat st [16, 4] = Some ([v, v2], st2)" using f g by simp
  from rand_bytes_fresh [OF st(1) ne dr] obtain Qs where "[v, v2] = map (map of_nat) Qs" "distinct (concat Qs)" by (elim exE conjE)
  with st(1) dr show ?thesis by (intro exI [of _ st] exI [of _ "[v, v2]"] exI [of _ st2] exI [of _ Qs]) simp
qed

text \<open>
  Once a sequence of draws has used up the 256 buffered bytes exactly, the draw after the
  next one returns bytes that were already handed out: the refill stores nothing into the
  rewound buffer and yet marks it full.
\<close>

theorem rand_bytes_reused:
  assumes "rand_init src = Some st" and "sum_list ns = 256" and "0 \<notin> set ns"
    and "0 < m" and "m < SSIZE_MAX" and "n \<le> 256"
  shows "\<exists>vs v w st'. rand_draws src st (ns @ [m, n]) = Some (vs @ [v, w], st') \<and>
    length vs = length ns \<and> w = take n (concat vs)"
  by (rule rand_draws_reuse [OF assms])

theorem rand_bytes_reused_witness:
  "\<exists>st vs v w st'. rand_init of_nat = Some st \<and> rand_draws of_nat st ([100, 156] @ [4, 8]) = Some (vs @ [v, w], st') \<and>
    length vs = length [100, 156 :: nat] \<and> w = take 8 (concat vs)"
proof -
  obtain st where st: "rand_init of_nat = Some st" using rand_init_ok [of of_nat] by blast
  from rand_bytes_reused [OF st, of "[100, 156]" 4 8] st show ?thesis by (auto simp: SSIZE_MAX_def)
qed

text \<open>
  \<^verbatim>\<open>uuid_gen\<close> always returns, and what it returns is accepted as a source id and has the
  version and variant digits of a random UUID.
\<close>

theorem uuid_gen_correct:
  assumes "rand_ok st" and "length out = 37"
  shows "\<exists>u st'. uuid_gen src st out = Some (u, st') \<and> rand_ok st' \<and> length u = 37 \<and> valid_id u \<and>
    u ! 14 = 52 \<and> u ! 19 \<in> {56, 57, 97, 98}"
proof -
  from rand_fill_ok [OF assms(1), of 16 src] obtain v st' where
    v: "rand_fill src st 16 = Some (v, st')" "length v = 16"
    by (auto simp: BUF_LEN_MAX_def SSIZE_MAX_def)
  have "uuid_gen src st out = Some (uuid_text v, st')" by (simp add: uuid_gen_eq [OF assms] v(1))
  with uuid_gen_valid [OF assms, of src] uuid_text_version [OF v(2)] show ?thesis by auto
qed

theorem uuid_gen_correct_witness:
  "\<exists>u st'. uuid_gen of_nat \<lparr>rand_buf = BUF_INIT, rand_pos = 0\<rparr> (replicate 37 0) = Some (u, st') \<and> rand_ok st' \<and>
    length u = 37 \<and> valid_id u \<and> u ! 14 = 52 \<and> u ! 19 \<in> {56, 57, 97, 98}"
  by (rule uuid_gen_correct) (simp_all add: rand_ok_def BUF_INIT_def)

text \<open>
  C33. Identifiers repeat, whatever the random device delivers. The first identifier is drawn from a full buffer; once it and the
  draws after it have used up the 256 buffered bytes exactly, the identifier that follows the next draw is the first one again.
  The draws may be of any sizes as long as none is empty. In the program they are 16 bytes for an identifier, 8 for the seed of
  \<^verbatim>\<open>json_init\<close> and 4 for a retry delay: the witness has the identifiers of the log and of the server, the
  seed, thirteen identifiers of connections and transports and two retry delays; the identifier after the next one is
  that of the log.
\<close>

theorem uuid_first_repeats:
  assumes "rand_init src = Some st" and "sum_list ns = 240" and "0 \<notin> set ns" and "0 < m" and "m < SSIZE_MAX"
    and "length out = 37" and "length out' = 37"
  shows "\<exists>u st1 vs st2 v st3 st4. uuid_gen src st out = Some (u, st1) \<and> rand_draws src st1 ns = Some (vs, st2) \<and>
    rand_fill src st2 m = Some (v, st3) \<and> uuid_gen src st3 out' = Some (u, st4)"
  by (rule uuid_first_again [OF assms])

theorem uuid_first_repeats_witness:
  "\<exists>st u st1 vs st2 v st3 st4. rand_init of_nat = Some st \<and> uuid_gen of_nat st (replicate 37 0) = Some (u, st1) \<and>
    rand_draws of_nat st1 ([16, 8] @ replicate 13 16 @ [4, 4]) = Some (vs, st2) \<and> rand_fill of_nat st2 16 = Some (v, st3) \<and>
    uuid_gen of_nat st3 (replicate 37 0) = Some (u, st4)"
proof -
  obtain st where st: "rand_init of_nat = Some st" using rand_init_ok [of of_nat] by blast
  have ns: "sum_list ([16, 8] @ replicate 13 16 @ [4, 4]) = (240 :: nat)" "0 \<notin> set ([16, 8] @ replicate 13 16 @ [4, 4 :: nat])"
    by (simp_all add: sum_list_replicate)
  from uuid_first_repeats [OF st ns, of 16 "replicate 37 0" "replicate 37 0"] st show ?thesis by (auto simp: SSIZE_MAX_def)
qed

end
