(* ===== verification/Json.thy ===== *)
theory Json
  imports Format Rand
begin

text \<open>
  Model of \<^verbatim>\<open>adsbus/json.c\<close>. The library \<^verbatim>\<open>jansson\<close> is not part of the program: its reading
  side is the parameter record \<open>jansson\<close> (one field per library call, over an abstract type of
  parsed values), its printing side a function from a value to the chunks of text handed to
  the callback. What the program relies on is \<open>jansson_ok\<close>: a successful load consumes at least
  one byte and no more than it was given. Log output is left out; the release of the previous
  value is modelled in \<open>Lifetimes\<close>. The theory shows the parser contract, that nothing is accepted before a
  header of another server, and that printing never leaves the buffer.
\<close>

section \<open>The library\<close>

text \<open>
  \<open>json_loadb\<close> returns the value and \<^verbatim>\<open>err.position\<close>; \<open>json_string\<close> is \<open>None\<close> when the value is
  no string and its contents (which may hold zeros) otherwise; \<open>json_integer\<close> likewise.
\<close>

record 'j jansson =
  json_loadb :: "u8 list \<Rightarrow> ('j \<times> nat) option"
  json_is_object :: "'j \<Rightarrow> bool"
  json_object_get :: "'j \<Rightarrow> u8 list \<Rightarrow> 'j option"
  json_string :: "'j \<Rightarrow> u8 list option"
  json_integer :: "'j \<Rightarrow> int option"

definition jansson_ok :: "'j jansson \<Rightarrow> bool" where
  "jansson_ok J \<longleftrightarrow> (\<forall>v j n. json_loadb J v = Some (j, n) \<longrightarrow> 0 < n \<and> n \<le> length v)"

text \<open>The member access of \<^verbatim>\<open>json_unpack\<close> with the conversions \<^verbatim>\<open>s\<close> and \<^verbatim>\<open>I\<close>.\<close>

definition json_unpack_s :: "'j jansson \<Rightarrow> 'j \<Rightarrow> u8 list \<Rightarrow> u8 list option" where
  "json_unpack_s J j k = (case json_object_get J j k of None \<Rightarrow> None | Some v \<Rightarrow> json_string J v)"

definition json_unpack_I :: "'j jansson \<Rightarrow> 'j \<Rightarrow> u8 list \<Rightarrow> int option" where
  "json_unpack_I J j k = (case json_object_get J j k of None \<Rightarrow> None | Some v \<Rightarrow> json_integer J v)"

text \<open>The values the program builds, and the printer.\<close>

datatype json_val = JString "u8 list" | JInteger int | JObject "(u8 list \<times> json_val) list"

type_synonym json_dump_fn = "json_val \<Rightarrow> u8 list list"

definition JSON_MAGIC :: "u8 list" where
  "JSON_MAGIC = c_strz (c_str ''aDsB'')"

section \<open>Printing\<close>

definition json_buf_append_callback :: "u8 list \<Rightarrow> buf \<Rightarrow> (int \<times> buf) option" where
  "json_buf_append_callback chunk b =
     (if BUF_LEN_MAX < buf_length b + length chunk + 1 then Some (-1, b)
      else do {
        b \<leftarrow> buf_put b (buf_length b) chunk;
        Some (0, b\<lparr>buf_length := buf_length b + length chunk\<rparr>)
      })"

text \<open>\<^verbatim>\<open>json_dump_callback\<close> calls the callback chunk by chunk and stops at the first failure.\<close>

fun json_dump_callback :: "u8 list list \<Rightarrow> buf \<Rightarrow> (int \<times> buf) option" where
  "json_dump_callback [] b = Some (0, b)"
| "json_dump_callback (c # cs) b = do {
     (rc, b) \<leftarrow> json_buf_append_callback c b;
     if rc \<noteq> 0 then Some (-1, b) else json_dump_callback cs b
   }"

definition json_serialize_to_buf :: "json_dump_fn \<Rightarrow> json_val \<Rightarrow> buf \<Rightarrow> buf option" where
  "json_serialize_to_buf dump obj b = do {
     (rc, b) \<leftarrow> json_dump_callback (dump obj) b;
     c_assert (rc = 0);
     b \<leftarrow> buf_set_chr b (buf_length b) 10;
     Some (b\<lparr>buf_length := buf_length b + 1\<rparr>)
   }"

text \<open>
  The members added by \<^verbatim>\<open>json_add_common\<close>. The source id of a packet that passed the sanity
  check is printable ASCII, so \<^verbatim>\<open>json_string\<close> does not reject it.
\<close>

definition json_add_common :: "packet \<Rightarrow> (u8 list \<times> json_val) list \<Rightarrow> (u8 list \<times> json_val) list option" where
  "json_add_common p obj = do {
     sid \<leftarrow> (case source_id p of None \<Rightarrow> None | Some s \<Rightarrow> c_content s);
     Some (obj @ [(c_str ''hops'', JInteger (uint (hops p))),
                  (c_str ''type'', JString (packet_type_names (ptype p))),
                  (c_str ''source_id'', JString sid)]
       @ (if mlat_timestamp p \<noteq> 0
          then [(c_str ''mlat_timestamp'', JInteger (uint (mlat_timestamp p mod INT64_MAX)))] else [])
       @ (if rssi p \<noteq> 0 then [(c_str ''rssi'', JInteger (uint (rssi p)))] else []))
   }"

definition json_serialize_payload :: "json_dump_fn \<Rightarrow> packet \<Rightarrow> buf \<Rightarrow> buf option" where
  "json_serialize_payload dump p b = do {
     let bytes = packet_payload_len (ptype p);
     hexbuf \<leftarrow> hex_from_bin_upper (payload p) bytes;
     obj \<leftarrow> json_add_common p [(c_str ''payload'', JString hexbuf)];
     json_serialize_to_buf dump (JObject obj) b
   }"

definition json_serialize :: "json_dump_fn \<Rightarrow> serializer_fn" where
  "json_serialize dump p b = (case ptype p of
     PACKET_TYPE_NONE \<Rightarrow> Some b
   | PACKET_TYPE_MODE_AC \<Rightarrow> json_serialize_payload dump p b
   | PACKET_TYPE_MODE_S_SHORT \<Rightarrow> json_serialize_payload dump p b
   | PACKET_TYPE_MODE_S_LONG \<Rightarrow> json_serialize_payload dump p b)"

text \<open>
  \<^verbatim>\<open>json_init\<close> draws the eight bytes of the hash seed and prints the hello line. The seed only
  orders the hash tables of the library.
\<close>

definition json_init ::
    "entropy \<Rightarrow> rand_state \<Rightarrow> json_dump_fn \<Rightarrow> u8 list \<Rightarrow> u8 list \<Rightarrow> (buf \<times> rand_state) option" where
  "json_init src rs dump server_version server_id = do {
     (seed, rs) \<leftarrow> rand_fill src rs 8;
     magic \<leftarrow> c_content JSON_MAGIC;
     version \<leftarrow> c_content server_version;
     sid \<leftarrow> c_content server_id;
     let hello = JObject [(c_str ''type'', JString (c_str ''header'')), (c_str ''magic'', JString magic),
       (c_str ''server_version'', JString version), (c_str ''server_id'', JString sid),
       (c_str ''mlat_timestamp_mhz'', JInteger (uint PACKET_MLAT_MHZ)),
       (c_str ''mlat_timestamp_max'', JInteger (uint PACKET_MLAT_MAX)),
       (c_str ''rssi_max'', JInteger (uint PACKET_RSSI_MAX))];
     b \<leftarrow> json_serialize_to_buf dump hello BUF_INIT;
     Some (b, rs)
   }"

section \<open>Parsing\<close>

definition json_parse_header ::
    "'j jansson \<Rightarrow> u8 list \<Rightarrow> 'j \<Rightarrow> packet \<Rightarrow> parser_state \<Rightarrow> (bool \<times> packet \<times> parser_state) option" where
  "json_parse_header J server_id j p st =
     (case (json_unpack_s J j (c_str ''magic''), json_unpack_s J j (c_str ''server_id''),
            json_unpack_I J j (c_str ''mlat_timestamp_mhz''), json_unpack_I J j (c_str ''mlat_timestamp_max''),
            json_unpack_I J j (c_str ''rssi_max'')) of
        (Some magic, Some json_server_id, Some mhz, Some mlat_max, Some max_rssi) \<Rightarrow> do {
          magic_ok \<leftarrow> c_streq (c_strz magic) JSON_MAGIC;
          if \<not> magic_ok then Some (False, p, st)
          else if 0xffff < mhz \<or> mhz \<le> 0 \<or> mlat_max \<le> 0 \<or> 0xffffffff < max_rssi \<or> max_rssi \<le> 0
          then Some (False, p, st)
          else do {
            own \<leftarrow> c_streq (c_strz json_server_id) server_id;
            if own then Some (False, p, st)
            else Some (True, p\<lparr>ptype := PACKET_TYPE_NONE\<rparr>,
                   st\<lparr>mlat_timestamp_mhz := word_of_int mhz, mlat_timestamp_max := word_of_int mlat_max,
                      rssi_max := word_of_int max_rssi, have_header := True\<rparr>)
          }
        }
      | _ \<Rightarrow> Some (False, p, st))"

definition json_parse_mlat ::
    "'j jansson \<Rightarrow> 'j \<Rightarrow> packet \<Rightarrow> parser_state \<Rightarrow> (bool \<times> packet \<times> parser_state) option" where
  "json_parse_mlat J j p st =
     (case json_unpack_I J j (c_str ''mlat_timestamp'') of
        None \<Rightarrow> Some (True, p, st)
      | Some val \<Rightarrow>
          (if val < 0 then Some (False, p, st)
           else do {
             (ts, ms) \<leftarrow> packet_mlat_timestamp_scale_in (word_of_int val) (mlat_timestamp_max st)
                           (mlat_timestamp_mhz st) (mlat_state st);
             Some (True, p\<lparr>mlat_timestamp := ts\<rparr>, st\<lparr>mlat_state := ms\<rparr>)
           }))"

definition json_parse_rssi :: "'j jansson \<Rightarrow> 'j \<Rightarrow> packet \<Rightarrow> parser_state \<Rightarrow> (bool \<times> packet) option" where
  "json_parse_rssi J j p st =
     (case json_unpack_I J j (c_str ''rssi'') of
        None \<Rightarrow> Some (True, p)
      | Some val \<Rightarrow>
          (if uint (rssi_max st) < val then Some (False, p)
           else do {
             r \<leftarrow> packet_rssi_scale_in (word_of_int val) (rssi_max st);
             Some (True, p\<lparr>rssi := r\<rparr>)
           }))"

text \<open>\<^verbatim>\<open>json_unpack\<close> stores \<^verbatim>\<open>source_id\<close> before it finds that \<^verbatim>\<open>hops\<close> is missing.\<close>

definition json_parse_common ::
    "'j jansson \<Rightarrow> 'j \<Rightarrow> packet \<Rightarrow> parser_state \<Rightarrow> (bool \<times> packet \<times> parser_state) option" where
  "json_parse_common J j p st =
     (if \<not> have_header st then Some (False, p, st)
      else case json_unpack_s J j (c_str ''source_id'') of
        None \<Rightarrow> Some (False, p, st)
      | Some sid \<Rightarrow> do {
          let p = p\<lparr>source_id := Some (c_strz sid)\<rparr>;
          case json_unpack_I J j (c_str ''hops'') of
            None \<Rightarrow> Some (False, p, st)
          | Some h \<Rightarrow> do {
              id_ok \<leftarrow> packet_validate_id (source_id p);
              if \<not> id_ok then Some (False, p, st)
              else if h < 0 \<or> 0xffffffff < h then Some (False, p, st)
              else do {
                let p = p\<lparr>hops := ucast (word_of_int h :: u16)\<rparr>;
                (ok, p, st) \<leftarrow> json_parse_mlat J j p st;
                if \<not> ok then Some (False, p, st)
                else do {
                  (ok, p) \<leftarrow> json_parse_rssi J j p st;
                  Some (ok, p, st)
                }
              }
            }
        })"

definition json_parse_payload ::
    "'j jansson \<Rightarrow> 'j \<Rightarrow> packet \<Rightarrow> parser_state \<Rightarrow> packet_type \<Rightarrow> (bool \<times> packet \<times> parser_state) option" where
  "json_parse_payload J j p st t = do {
     let bytes = packet_payload_len t;
     (ok, p, st) \<leftarrow> json_parse_common J j p st;
     if \<not> ok then Some (False, p, st)
     else (case json_unpack_s J j (c_str ''payload'') of
       None \<Rightarrow> Some (False, p, st)
     | Some txt \<Rightarrow>
         (if length txt \<noteq> bytes * 2 then Some (False, p, st)
          else do {
            (ok, out) \<leftarrow> hex_to_bin (payload p) (c_strz txt) bytes;
            let p = p\<lparr>payload := out\<rparr>;
            if \<not> ok then Some (False, p, st) else Some (True, p\<lparr>ptype := t\<rparr>, st)
          }))
   }"

text \<open>The dispatch on the member \<^verbatim>\<open>type\<close>.\<close>

definition json_parse_obj ::
    "'j jansson \<Rightarrow> u8 list \<Rightarrow> 'j \<Rightarrow> packet \<Rightarrow> parser_state \<Rightarrow> (bool \<times> packet \<times> parser_state) option" where
  "json_parse_obj J server_id j p st =
     (if \<not> json_is_object J j then Some (False, p, st)
      else case json_unpack_s J j (c_str ''type'') of
        None \<Rightarrow> Some (False, p, st)
      | Some type_str \<Rightarrow> do {
          is_header \<leftarrow> c_streq (c_strz type_str) (c_strz (c_str ''header''));
          is_ac \<leftarrow> c_streq (c_strz type_str) (c_strz (c_str ''Mode-AC''));
          is_short \<leftarrow> c_streq (c_strz type_str) (c_strz (c_str ''Mode-S short''));
          is_long \<leftarrow> c_streq (c_strz type_str) (c_strz (c_str ''Mode-S long''));
          if is_header then json_parse_header J server_id j p st
          else if is_ac then json_parse_payload J j p st PACKET_TYPE_MODE_AC
          else if is_short then json_parse_payload J j p st PACKET_TYPE_MODE_S_SHORT
          else if is_long then json_parse_payload J j p st PACKET_TYPE_MODE_S_LONG
          else Some (False, p, st)
        })"

text \<open>The loop that drops line ends behind the value; \<open>n\<close> is the number of bytes left.\<close>

fun json_skip_eol :: "nat \<Rightarrow> buf \<Rightarrow> buf option" where
  "json_skip_eol 0 b = Some b"
| "json_skip_eol (Suc n) b = do {
     c \<leftarrow> buf_chr b 0;
     if c = 13 \<or> c = 10 then do {
       b \<leftarrow> buf_consume b 1;
       json_skip_eol n b
     } else Some b
   }"

definition json_parse :: "'j jansson \<Rightarrow> u8 list \<Rightarrow> parser" where
  "json_parse J server_id b p st = do {
     bytes \<leftarrow> buf_get b 0 (buf_length b);
     case json_loadb J bytes of
       None \<Rightarrow> Some (False, b, p, st)
     | Some (j, position) \<Rightarrow> do {
         (ok, p, st) \<leftarrow> json_parse_obj J server_id j p st;
         if \<not> ok then Some (False, b, p, st)
         else do {
           c_assert (0 < position);
           b \<leftarrow> buf_consume b position;
           b \<leftarrow> json_skip_eol (buf_length b) b;
           Some (True, b, p, st)
         }
       }
   }"

section \<open>Printing stays inside the buffer\<close>

lemma json_append_spec:
  assumes b: "buf_ok b" "buf_start b = 0"
  shows "if buf_length b + length chunk + 1 \<le> BUF_LEN_MAX
    then \<exists>b'. json_buf_append_callback chunk b = Some (0, b') \<and> buf_ok b' \<and> buf_start b' = 0 \<and>
      buf_view b' = buf_view b @ chunk \<and> buf_length b' = buf_length b + length chunk
    else json_buf_append_callback chunk b = Some (-1, b)"
proof (cases "buf_length b + length chunk + 1 \<le> BUF_LEN_MAX")
  case True
  from buf_put_append [OF b(1), of chunk] True b(2) obtain b' where
    b': "buf_put b (buf_length b) chunk = Some b'"
      "buf_ok (b'\<lparr>buf_length := buf_length b' + length chunk\<rparr>)"
      "buf_view (b'\<lparr>buf_length := buf_length b' + length chunk\<rparr>) = buf_view b @ chunk" by auto
  then show ?thesis
    using True b(2) buf_put_fields [OF b'(1)] by (simp add: json_buf_append_callback_def)
next
  case False
  then show ?thesis by (simp add: json_buf_append_callback_def)
qed

lemma json_dump_callback_spec:
  assumes "buf_ok b" and "buf_start b = 0" and "buf_length b < BUF_LEN_MAX"
  shows "if buf_length b + length (concat cs) < BUF_LEN_MAX
    then \<exists>b'. json_dump_callback cs b = Some (0, b') \<and> buf_ok b' \<and> buf_start b' = 0 \<and>
      buf_view b' = buf_view b @ concat cs \<and> buf_length b' = buf_length b + length (concat cs)
    else \<exists>b'. json_dump_callback cs b = Some (-1, b')"
  using assms
proof (induction cs arbitrary: b)
  case Nil
  then show ?case by simp
next
  case (Cons c cs)
  note ap = json_append_spec [OF Cons.prems(1,2), of c]
  show ?case
  proof (cases "buf_length b + length c + 1 \<le> BUF_LEN_MAX")
    case True
    with ap obtain b1 where b1: "json_buf_append_callback c b = Some (0, b1)" "buf_ok b1" "buf_start b1 = 0"
      "buf_view b1 = buf_view b @ c" "buf_length b1 = buf_length b + length c" by auto
    from Cons.IH [OF b1(2,3)] True b1 show ?thesis by (simp add: add.assoc split: if_split_asm)
  next
    case False
    with ap show ?thesis by simp
  qed
qed

lemma json_serialize_to_buf_spec:
  assumes "buf_fresh b"
  shows "if length (concat (dump obj)) < BUF_LEN_MAX
    then \<exists>b'. json_serialize_to_buf dump obj b = Some b' \<and> buf_ok b' \<and> buf_start b' = 0 \<and>
      buf_view b' = concat (dump obj) @ [10]
    else json_serialize_to_buf dump obj b = None"
proof -
  have b: "buf_ok b" "buf_start b = 0" "buf_length b = 0" "buf_length b < BUF_LEN_MAX"
    using assms by (auto simp: buf_fresh_def BUF_LEN_MAX_def)
  have v: "buf_view b = []" using b by (simp add: buf_view_def)
  note d = json_dump_callback_spec [OF b(1,2,4), of "dump obj"]
  show ?thesis
  proof (cases "length (concat (dump obj)) < BUF_LEN_MAX")
    case True
    with d b(3) v obtain b1 where b1: "json_dump_callback (dump obj) b = Some (0, b1)" "buf_ok b1"
      "buf_start b1 = 0" "buf_view b1 = concat (dump obj)" "buf_length b1 = length (concat (dump obj))" by auto
    have room: "buf_start b1 + buf_length b1 + length [10 :: u8] \<le> BUF_LEN_MAX" using b1 True by simp
    have i: "buf_length b1 < length (buf_data b1)" using b1 True by (simp add: buf_ok_def)
    have "buf_set_chr b1 (buf_length b1) 10 = buf_put b1 (buf_length b1) [10]"
      using i b1(3) by (simp add: buf_set_chr_def buf_put_def c_upd_def list_put_single)
    with buf_put_append [OF b1(2) room] obtain b2 where
      b2: "buf_set_chr b1 (buf_length b1) 10 = Some b2" "buf_ok (b2\<lparr>buf_length := buf_length b2 + 1\<rparr>)"
        "buf_view (b2\<lparr>buf_length := buf_length b2 + 1\<rparr>) = concat (dump obj) @ [10]"
      using b1(4) by auto
    have "buf_start b2 = 0" using b2(1) b1(3) by (auto simp: buf_set_chr_def bind_Some_iff)
    with b2 True b1(1) show ?thesis by (simp add: json_serialize_to_buf_def)
  next
    case False
    with d b(3) show ?thesis by (auto simp: json_serialize_to_buf_def)
  qed
qed

section \<open>The parser contract\<close>

lemma json_skip_eol_spec:
  assumes "buf_ok b" and "n = buf_length b"
  shows "\<exists>b'. json_skip_eol n b = Some b' \<and> buf_ok b' \<and>
    buf_view b' = dropWhile (\<lambda>c. c = 13 \<or> c = 10) (buf_view b)"
  using assms
proof (induction n arbitrary: b)
  case 0
  then show ?case by (simp add: buf_view_def)
next
  case (Suc n)
  obtain c v where v: "buf_view b = c # v"
    using Suc.prems length_buf_view [of b] by (cases "buf_view b") auto
  obtain b1 where b1: "buf_chr b 0 = Some c" "buf_consume b 1 = Some b1" "buf_ok b1" "buf_view b1 = v"
    using bufq.consume_step [OF Suc.prems(1) v] by metis
  have "n = buf_length b1"
    using Suc.prems b1(3,4) v length_buf_view [of b] length_buf_view [of b1] by simp
  from Suc.IH [OF b1(3) this] b1 v show ?case
    using Suc.prems(1) by (cases "c = 13 \<or> c = 10") auto
qed

text \<open>What the parsing steps may do to the packet.\<close>

definition json_packet_kept :: "packet \<Rightarrow> packet \<Rightarrow> bool" where
  "json_packet_kept p p' \<longleftrightarrow> input_stat p' = input_stat p \<and> mlat_timestamp p' \<le> PACKET_MLAT_MAX \<and>
     length (payload p') = PACKET_PAYLOAD_LEN_MAX"

lemma json_parse_mlat_total:
  assumes st: "parser_state_ok st" "have_header st" and p: "json_packet_kept q p"
  shows "\<exists>ok p' st'. json_parse_mlat J j p st = Some (ok, p', st') \<and> parser_state_ok st' \<and> have_header st' \<and>
    json_packet_kept q p' \<and> source_id p' = source_id p"
proof (cases "json_unpack_I J j (c_str ''mlat_timestamp'')")
  case None
  with assms show ?thesis by (simp add: json_parse_mlat_def)
next
  case (Some val)
  have hdr: "0 < mlat_timestamp_mhz st" using st by (simp add: parser_state_ok_def)
  obtain ts ms where ts: "packet_mlat_timestamp_scale_in (word_of_int val) (mlat_timestamp_max st)
      (mlat_timestamp_mhz st) (mlat_state st) = Some (ts, ms)" "ts < PACKET_MLAT_MAX"
    using packet_mlat_timestamp_scale_in_total [OF hdr] by blast
  with Some assms show ?thesis
    by (cases "val < 0") (simp_all add: json_parse_mlat_def json_packet_kept_def)
qed

lemma json_parse_rssi_total:
  assumes st: "parser_state_ok st" "have_header st" and p: "json_packet_kept q p"
  shows "\<exists>ok p'. json_parse_rssi J j p st = Some (ok, p') \<and> json_packet_kept q p' \<and> source_id p' = source_id p"
proof (cases "json_unpack_I J j (c_str ''rssi'')")
  case None
  with assms show ?thesis by (simp add: json_parse_rssi_def)
next
  case (Some val)
  have hdr: "0 < rssi_max st" using st by (simp add: parser_state_ok_def)
  obtain r where "packet_rssi_scale_in (word_of_int val) (rssi_max st) = Some r"
    using packet_rssi_scale_in_total [OF hdr] by blast
  with Some assms show ?thesis
    by (cases "uint (rssi_max st) < val") (simp_all add: json_parse_rssi_def json_packet_kept_def)
qed

lemma json_parse_common_total:
  assumes st: "parser_state_ok st" and p: "json_packet_kept q p"
  shows "\<exists>ok p' st'. json_parse_common J j p st = Some (ok, p', st') \<and> parser_state_ok st' \<and>
    json_packet_kept q p' \<and> (ok \<longrightarrow> have_header st \<and> have_header st' \<and> (\<exists>s. source_id p' = Some s \<and> valid_id s))"
proof (cases "have_header st")
  case False
  with assms show ?thesis by (simp add: json_parse_common_def)
next
  case hdr: True
  show ?thesis
  proof (cases "json_unpack_s J j (c_str ''source_id'')")
    case None
    with hdr assms show ?thesis by (simp add: json_parse_common_def)
  next
    case sid: (Some sid)
    let ?p = "p\<lparr>source_id := Some (c_strz sid)\<rparr>"
    have kept: "json_packet_kept q ?p" using p by (simp add: json_packet_kept_def)
    show ?thesis
    proof (cases "json_unpack_I J j (c_str ''hops'')")
      case None
      with hdr sid st kept show ?thesis by (simp add: json_parse_common_def Let_def)
    next
      case h: (Some h)
      obtain v where v: "packet_validate_id (Some (c_strz sid)) = Some v"
        using packet_validate_id_total [of "Some (c_strz sid)"] by auto
      show ?thesis
      proof (cases "v \<and> 0 \<le> h \<and> h \<le> 0xffffffff")
        case False
        with hdr sid h v st kept show ?thesis by (auto simp: json_parse_common_def Let_def)
      next
        case True
        let ?q = "?p\<lparr>hops := ucast (word_of_int h :: u16)\<rparr>"
        have id: "valid_id (c_strz sid)" using v True by (simp add: packet_validate_id_True_iff [symmetric])
        have "json_packet_kept q ?q" using kept by (simp add: json_packet_kept_def)
        from json_parse_mlat_total [OF st hdr this] obtain ok1 p1 st1 where
          m: "json_parse_mlat J j ?q st = Some (ok1, p1, st1)" "parser_state_ok st1" "have_header st1"
            "json_packet_kept q p1" "source_id p1 = Some (c_strz sid)" by fastforce
        from json_parse_rssi_total [OF m(2-4)] obtain ok2 p2 where
          r: "json_parse_rssi J j p1 st1 = Some (ok2, p2)" "json_packet_kept q p2" "source_id p2 = Some (c_strz sid)"
          using m(5) by metis
        have "json_parse_common J j p st = (if ok1 then Some (ok2, p2, st1) else Some (False, p1, st1))"
          using hdr sid h v True m(1) r(1) by (simp add: json_parse_common_def Let_def)
        with m r id hdr show ?thesis by (cases ok1) simp_all
      qed
    qed
  qed
qed

lemma json_parse_payload_total:
  assumes st: "parser_state_ok st" and p: "json_packet_kept q p" and t: "t \<noteq> PACKET_TYPE_NONE"
  shows "\<exists>ok p' st'. json_parse_payload J j p st t = Some (ok, p', st') \<and> parser_state_ok st' \<and>
    json_packet_kept q p' \<and> (ok \<longrightarrow> have_header st \<and> have_header st' \<and> packet_sane p')"
proof -
  from json_parse_common_total [OF st p, of J j] obtain ok p1 st1 where
    c: "json_parse_common J j p st = Some (ok, p1, st1)" "parser_state_ok st1" "json_packet_kept q p1"
      "ok \<longrightarrow> have_header st \<and> have_header st1 \<and> (\<exists>s. source_id p1 = Some s \<and> valid_id s)" by blast
  show ?thesis
  proof (cases ok)
    case False
    with c show ?thesis by (simp add: json_parse_payload_def)
  next
    case ok: True
    show ?thesis
    proof (cases "json_unpack_s J j (c_str ''payload'')")
      case None
      with c ok show ?thesis by (simp add: json_parse_payload_def)
    next
      case (Some tx)
      show ?thesis
      proof (cases "length tx = packet_payload_len t * 2")
        case False
        with Some c ok show ?thesis by (simp add: json_parse_payload_def)
      next
        case True
        have n: "packet_payload_len t \<le> length (payload p1)"
          using c(3) length_payload_len [of t] by (simp add: json_packet_kept_def)
        have "2 * packet_payload_len t \<le> length (c_strz tx)" using True by (simp add: c_strz_def)
        from hex_to_bin_spec [OF this n] obtain okh out where
          h: "hex_to_bin (payload p1) (c_strz tx) (packet_payload_len t) = Some (okh, out)"
            "length out = length (payload p1)" by blast
        have "json_packet_kept q (p1\<lparr>payload := out\<rparr>)" "json_packet_kept q (p1\<lparr>payload := out, ptype := t\<rparr>)"
          using c(3) h(2) by (simp_all add: json_packet_kept_def)
        moreover have "packet_sane (p1\<lparr>payload := out, ptype := t\<rparr>)"
          using c(3,4) ok t by (simp add: packet_sane_def json_packet_kept_def)
        ultimately show ?thesis
          using c ok Some True h(1) by (cases okh) (simp_all add: json_parse_payload_def)
      qed
    qed
  qed
qed

lemma word_of_int_pos:
  assumes "0 < i" and "i < 2 ^ LENGTH('a)"
  shows "0 < (word_of_int i :: 'a::len word)"
proof -
  have "uint (word_of_int i :: 'a word) = i"
    using assms by (simp add: uint_word_of_int take_bit_int_eq_self)
  with assms show ?thesis by (simp add: word_less_def)
qed

lemma json_parse_header_total:
  assumes st: "parser_state_ok st" and p: "json_packet_kept q p" and sid: "is_c_str sid"
  shows "\<exists>ok p' st'. json_parse_header J sid j p st = Some (ok, p', st') \<and> parser_state_ok st' \<and>
    json_packet_kept q p' \<and> (ok \<longrightarrow> ptype p' = PACKET_TYPE_NONE \<and> have_header st')"
proof (cases "json_unpack_s J j (c_str ''magic'') = None \<or> json_unpack_s J j (c_str ''server_id'') = None \<or>
    json_unpack_I J j (c_str ''mlat_timestamp_mhz'') = None \<or> json_unpack_I J j (c_str ''mlat_timestamp_max'') = None \<or>
    json_unpack_I J j (c_str ''rssi_max'') = None")
  case True
  with st p show ?thesis by (auto simp: json_parse_header_def split: option.split)
next
  case False
  then obtain magic sid' mhz mmax rmax where f:
    "json_unpack_s J j (c_str ''magic'') = Some magic" "json_unpack_s J j (c_str ''server_id'') = Some sid'"
    "json_unpack_I J j (c_str ''mlat_timestamp_mhz'') = Some mhz"
    "json_unpack_I J j (c_str ''mlat_timestamp_max'') = Some mmax"
    "json_unpack_I J j (c_str ''rssi_max'') = Some rmax" by auto
  obtain m where m: "c_streq (c_strz magic) JSON_MAGIC = Some m"
    using c_streq_total [of "c_strz magic" JSON_MAGIC] by (auto simp: JSON_MAGIC_def)
  obtain w where w: "c_streq (c_strz sid') sid = Some w"
    using c_streq_total [OF is_c_str_strz sid] by blast
  have st': "parser_state_ok (st\<lparr>mlat_timestamp_mhz := word_of_int mhz, mlat_timestamp_max := word_of_int mmax,
      rssi_max := word_of_int rmax, have_header := True\<rparr>)"
    if "\<not> (0xffff < mhz \<or> mhz \<le> 0 \<or> mmax \<le> 0 \<or> 0xffffffff < rmax \<or> rmax \<le> 0)"
    using that word_of_int_pos [of mhz, where 'a = 16] word_of_int_pos [of rmax, where 'a = 32]
    by (simp add: parser_state_ok_def)
  show ?thesis
    using f m w st st' p
    by (cases m; cases w; cases "0xffff < mhz \<or> mhz \<le> 0 \<or> mmax \<le> 0 \<or> 0xffffffff < rmax \<or> rmax \<le> 0")
      (simp_all add: json_parse_header_def json_packet_kept_def)
qed

lemma json_parse_obj_total:
  assumes st: "parser_state_ok st" and p: "json_packet_kept q p" and sid: "is_c_str sid"
  shows "\<exists>ok p' st'. json_parse_obj J sid j p st = Some (ok, p', st') \<and> parser_state_ok st' \<and>
    json_packet_kept q p' \<and>
    (ok \<longrightarrow> have_header st' \<and> (ptype p' = PACKET_TYPE_NONE \<or> have_header st \<and> packet_sane p'))"
proof -
  have rej: ?thesis if "json_parse_obj J sid j p st = Some (False, p, st)" using that st p by simp
  show ?thesis
  proof (cases "\<not> json_is_object J j \<or> json_unpack_s J j (c_str ''type'') = None")
    case True
    with rej show ?thesis by (auto simp: json_parse_obj_def split: option.splits)
  next
    case False
    then obtain ty where ty: "json_is_object J j" "json_unpack_s J j (c_str ''type'') = Some ty" by auto
    obtain h a s l where e: "c_streq (c_strz ty) (c_strz (c_str ''header'')) = Some h"
      "c_streq (c_strz ty) (c_strz (c_str ''Mode-AC'')) = Some a"
      "c_streq (c_strz ty) (c_strz (c_str ''Mode-S short'')) = Some s"
      "c_streq (c_strz ty) (c_strz (c_str ''Mode-S long'')) = Some l"
      using c_streq_total [OF is_c_str_strz is_c_str_strz] by metis
    have pl: "\<exists>ok p' st'. json_parse_payload J j p st t = Some (ok, p', st') \<and> parser_state_ok st' \<and>
        json_packet_kept q p' \<and> (ok \<longrightarrow> have_header st' \<and> (ptype p' = PACKET_TYPE_NONE \<or> have_header st \<and> packet_sane p'))"
      if "t \<noteq> PACKET_TYPE_NONE" for t
      using json_parse_payload_total [OF st p that, of J j] by blast
    have hd: "\<exists>ok p' st'. json_parse_header J sid j p st = Some (ok, p', st') \<and> parser_state_ok st' \<and>
        json_packet_kept q p' \<and> (ok \<longrightarrow> have_header st' \<and> (ptype p' = PACKET_TYPE_NONE \<or> have_header st \<and> packet_sane p'))"
      using json_parse_header_total [OF st p sid, of J j] by blast
    have "json_parse_obj J sid j p st = (if h then json_parse_header J sid j p st
        else if a then json_parse_payload J j p st PACKET_TYPE_MODE_AC
        else if s then json_parse_payload J j p st PACKET_TYPE_MODE_S_SHORT
        else if l then json_parse_payload J j p st PACKET_TYPE_MODE_S_LONG
        else Some (False, p, st))"
      using ty e by (simp add: json_parse_obj_def)
    with hd pl [of PACKET_TYPE_MODE_AC] pl [of PACKET_TYPE_MODE_S_SHORT] pl [of PACKET_TYPE_MODE_S_LONG] rej
    show ?thesis by (cases h; cases a; cases s; cases l) simp_all
  qed
qed

lemma consumed_drop_more:
  assumes "consumed b b1" and "buf_ok b2" and "buf_view b2 = drop k (buf_view b1)" and "buf_ok b"
  shows "consumed b b2"
proof -
  from assms(1) obtain n where n: "0 < n" "n \<le> buf_length b" "buf_view b1 = drop n (buf_view b)" "buf_ok b1"
    "buf_length b1 < buf_length b" by (auto simp: consumed_def)
  have v: "buf_view b2 = drop (k + n) (buf_view b)" by (simp add: assms(3) n(3))
  have l: "buf_length b2 = buf_length b - (k + n)"
    using length_buf_view [OF assms(2)] length_buf_view [OF assms(4)] v by simp
  show ?thesis
  proof (cases "k + n \<le> buf_length b")
    case True
    with v l assms(2) n show ?thesis by (auto simp: consumed_def intro: exI [of _ "k + n"])
  next
    case False
    with v have "buf_view b2 = drop (buf_length b) (buf_view b)"
      using length_buf_view [OF assms(4)] by simp
    with l n False assms(2) show ?thesis by (auto simp: consumed_def intro: exI [of _ "buf_length b"])
  qed
qed

lemma json_parse_total:
  assumes J: "jansson_ok J" and sid: "is_c_str sid"
    and b: "buf_ok b" and p: "packet_ready p" and st: "parser_state_ok st"
  shows "\<exists>r. json_parse J sid b p st = Some r \<and> parse_result_ok b p r \<and>
    (fst r \<longrightarrow> have_header (snd (snd (snd r))) \<and> (ptype (fst (snd (snd r))) = PACKET_TYPE_NONE \<or> have_header st))"
proof -
  have kept: "json_packet_kept p p" using p by (simp add: json_packet_kept_def packet_ready_def)
  have get: "buf_get b 0 (buf_length b) = Some (buf_view b)" using b by (simp add: buf_get_view)
  show ?thesis
  proof (cases "json_loadb J (buf_view b)")
    case None
    with get st p show ?thesis
      by (simp add: json_parse_def parse_result_ok_def packet_frame_def packet_ready_def)
  next
    case (Some jn)
    obtain j n where jn: "jn = (j, n)" by (cases jn)
    then have n: "0 < n" "n \<le> buf_length b"
      using J Some length_buf_view [OF b] unfolding jansson_ok_def by metis+
    from json_parse_obj_total [OF st kept sid, of J j] obtain ok p' st' where
      o: "json_parse_obj J sid j p st = Some (ok, p', st')" "parser_state_ok st'" "json_packet_kept p p'"
        "ok \<longrightarrow> have_header st' \<and> (ptype p' = PACKET_TYPE_NONE \<or> have_header st \<and> packet_sane p')" by blast
    have frame: "packet_frame p p'" using o(3) by (simp add: json_packet_kept_def packet_frame_def)
    from buf_consume_Some [OF b n] obtain b1 where b1: "buf_consume b n = Some b1" "consumed b b1" by metis
    then have b1ok: "buf_ok b1" by (simp add: consumed_def)
    from json_skip_eol_spec [OF b1ok refl] obtain b2 where
      b2: "json_skip_eol (buf_length b1) b1 = Some b2" "buf_ok b2"
        "buf_view b2 = dropWhile (\<lambda>c. c = 13 \<or> c = 10) (buf_view b1)" by blast
    have c2: "consumed b b2"
      using consumed_drop_more [OF b1(2) b2(2) _ b] b2(3) by (simp add: dropWhile_eq_drop)
    show ?thesis
      using get Some jn n o b1(1) b2(1) c2 frame
      by (cases ok) (auto simp: json_parse_def parse_result_ok_def)
  qed
qed

lemma json_contract: "jansson_ok J \<Longrightarrow> is_c_str sid \<Longrightarrow> parser_contract (json_parse J sid)"
proof (unfold_locales, goal_cases)
  case (1 b p st)
  from json_parse_total [OF this] show ?case by blast
qed

section \<open>The serializer\<close>

text \<open>
  What the printer promises about sizes: the line of a packet with a source id of at most 36
  characters and at most 14 payload bytes leaves room for its line end.
\<close>

definition json_object_of :: "packet \<Rightarrow> json_val option" where
  "json_object_of p = do {
     hexbuf \<leftarrow> hex_from_bin_upper (payload p) (packet_payload_len (ptype p));
     map_option JObject (json_add_common p [(c_str ''payload'', JString hexbuf)])
   }"

definition json_dump_ok :: "json_dump_fn \<Rightarrow> bool" where
  "json_dump_ok dump \<longleftrightarrow> (\<forall>p obj. packet_full p \<longrightarrow> json_object_of p = Some obj \<longrightarrow>
     length (concat (dump obj)) < BUF_LEN_MAX)"

lemma json_object_of_total:
  assumes "packet_full p"
  shows "\<exists>obj. json_object_of p = Some obj"
proof -
  obtain s where s: "source_id p = Some s" "valid_id s" using assms by (auto simp: packet_full_def packet_sane_def)
  then have "c_content s = Some (takeWhile (\<lambda>c. c \<noteq> 0) s)" using valid_id_c_str by (simp add: c_content_def)
  moreover have "packet_payload_len (ptype p) \<le> length (payload p)"
    using assms length_payload_len by (simp add: packet_full_def)
  then have "\<exists>h. hex_from_bin_upper (payload p) (packet_payload_len (ptype p)) = Some h"
    using hex_encode(1) [OF hex_tables(1)] by (simp add: hex_from_bin_upper_def)
  ultimately show ?thesis using s by (auto simp: json_object_of_def json_add_common_def)
qed

lemma json_serialize_eq:
  assumes "packet_full p" and "json_object_of p = Some obj"
  shows "json_serialize dump p b = json_serialize_to_buf dump obj b"
proof -
  have "ptype p \<noteq> PACKET_TYPE_NONE" using assms(1) by (simp add: packet_full_def packet_sane_def)
  then have "json_serialize dump p b = json_serialize_payload dump p b"
    by (cases "ptype p") (simp_all add: json_serialize_def)
  with assms(2) show ?thesis by (auto simp: json_serialize_payload_def json_object_of_def bind_Some_iff)
qed

lemma json_serializer_contract:
  assumes "json_dump_ok dump"
  shows "serializer_contract (json_serialize dump)"
proof
  fix p :: packet and b
  assume p: "packet_full p" and b: "buf_fresh b"
  obtain obj where obj: "json_object_of p = Some obj" using json_object_of_total [OF p] by blast
  then have "length (concat (dump obj)) < BUF_LEN_MAX" using assms p by (auto simp: json_dump_ok_def)
  with json_serialize_to_buf_spec [OF b, of dump obj]
  show "\<exists>b'. json_serialize dump p b = Some b' \<and> buf_ok b'"
    unfolding json_serialize_eq [OF p obj] by auto
qed

section \<open>Properties\<close>

text \<open>A library that parses nothing, for evaluating the properties.\<close>

definition sample_jansson :: "unit jansson" where
  "sample_jansson = \<lparr>json_loadb = \<lambda>v. None, json_is_object = \<lambda>j. False, json_object_get = \<lambda>j k. None,
     json_string = \<lambda>j. None, json_integer = \<lambda>j. None\<rparr>"

text \<open>
  C28. The JSON parser is safe whatever the library parsed, as long as a successful load consumes
  between one and all of the bytes it was given: it returns, stays inside the arrays, consumes a
  byte when it accepts, and what it accepts is a header or passes the sanity check. It accepts
  packets only on a connection that has a header.
\<close>

theorem json_parse_safe:
  assumes "jansson_ok J" and "is_c_str sid" and "buf_ok b" and "packet_ready p" and "parser_state_ok st"
  shows "\<exists>r. json_parse J sid b p st = Some r \<and> parse_result_ok b p r \<and>
    (fst r \<longrightarrow> have_header (snd (snd (snd r))) \<and> (ptype (fst (snd (snd r))) = PACKET_TYPE_NONE \<or> have_header st))"
  by (rule json_parse_total [OF assms])

text \<open>A library that knows two values: a header of another server, and a packet.\<close>

definition small_header :: json_val where
  "small_header = JObject [(c_str ''type'', JString (c_str ''header'')), (c_str ''magic'', JString (c_str ''aDsB'')),
     (c_str ''server_id'', JString (c_str ''other'')), (c_str ''mlat_timestamp_mhz'', JInteger 120),
     (c_str ''mlat_timestamp_max'', JInteger 1000000), (c_str ''rssi_max'', JInteger 255)]"

definition small_packet :: json_val where
  "small_packet = JObject [(c_str ''type'', JString (c_str ''Mode-AC'')), (c_str ''source_id'', JString (c_str ''abc'')),
     (c_str ''hops'', JInteger 1), (c_str ''rssi'', JInteger 7), (c_str ''payload'', JString (c_str ''12AB''))]"

definition small_jansson :: "json_val jansson" where
  "small_jansson = \<lparr>json_loadb = \<lambda>v. (case v of [] \<Rightarrow> None | c # cs \<Rightarrow>
       if c = 104 then Some (small_header, 1) else if c = 112 then Some (small_packet, 1) else None),
     json_is_object = \<lambda>j. (case j of JObject ms \<Rightarrow> True | _ \<Rightarrow> False),
     json_object_get = \<lambda>j k. (case j of JObject ms \<Rightarrow> map_of ms k | _ \<Rightarrow> None),
     json_string = \<lambda>j. (case j of JString s \<Rightarrow> Some s | _ \<Rightarrow> None),
     json_integer = \<lambda>j. (case j of JInteger n \<Rightarrow> Some n | _ \<Rightarrow> None)\<rparr>"

lemma small_jansson_ok: "jansson_ok small_jansson"
  by (auto simp: jansson_ok_def small_jansson_def split: list.splits if_splits)

text \<open>The header with its line end, and then the packet, on one connection.\<close>

definition small_input :: buf where
  "small_input = BUF_INIT\<lparr>buf_data := [104, 13, 10, 112, 10] @ replicate 251 0, buf_length := 5\<rparr>"

lemma small_accepted:
  "map_option fst (json_parse small_jansson sample_id small_input sample_empty parser_state_zero) = Some True"
  "map_option fst (Option.bind (json_parse small_jansson sample_id small_input sample_empty parser_state_zero)
     (\<lambda>(ok, b, p, st). json_parse small_jansson sample_id b sample_empty st)) = Some True"
  by code_simp+

theorem json_parse_safe_witness:
  "\<exists>b p st r. json_parse small_jansson sample_id small_input sample_empty parser_state_zero = Some (True, b, p, st) \<and>
    parse_result_ok small_input sample_empty (True, b, p, st) \<and> have_header st \<and> ptype p = PACKET_TYPE_NONE \<and>
    json_parse small_jansson sample_id b sample_empty st = Some r \<and> fst r \<and> parse_result_ok b sample_empty r"
proof -
  have b: "buf_ok small_input" by (simp add: buf_ok_def small_input_def BUF_INIT_def BUF_LEN_MAX_def)
  have c: "is_c_str sample_id" and z: "parser_state_ok parser_state_zero"
    by (simp_all add: is_c_str_def sample_id_def)
  obtain b1 p1 st1 where r: "json_parse small_jansson sample_id small_input sample_empty parser_state_zero = Some (True, b1, p1, st1)"
    using small_accepted(1) by auto
  from json_parse_safe [OF small_jansson_ok c b sample_empty_ready z] r have
    1: "parse_result_ok small_input sample_empty (True, b1, p1, st1)" "have_header st1" "ptype p1 = PACKET_TYPE_NONE"
    by (auto simp: parser_state_zero_def)
  then have "buf_ok b1" "parser_state_ok st1" by (auto simp: parse_result_ok_def consumed_def)
  from json_parse_safe [OF small_jansson_ok c this(1) sample_empty_ready this(2)] small_accepted(2) r obtain r2 where
    "json_parse small_jansson sample_id b1 sample_empty st1 = Some r2" "parse_result_ok b1 sample_empty r2" "fst r2" by auto
  then show ?thesis using r 1 by blast
qed

text \<open>
  C34. Printing a JSON line into a fresh buffer never writes outside of it. Whatever chunks the printer hands out, the
  callback always returns (the checked write is \<open>None\<close> out of bounds), and reports success exactly if all the text was stored and
  leaves room for the line end. Then the line is stored with its end; only otherwise the assertion stops the program.
\<close>

theorem json_print_bounded:
  assumes "buf_fresh b"
  shows "\<exists>res b'. json_dump_callback (dump obj) b = Some (res, b') \<and> (res = 0 \<longleftrightarrow> length (concat (dump obj)) < BUF_LEN_MAX) \<and>
    (if res = 0 then buf_ok b' \<and> buf_view b' = concat (dump obj) \<and>
       (\<exists>b''. json_serialize_to_buf dump obj b = Some b'' \<and> buf_ok b'' \<and> buf_view b'' = concat (dump obj) @ [10])
     else json_serialize_to_buf dump obj b = None)"
proof -
  have b: "buf_ok b" "buf_start b = 0" "buf_length b = 0" "buf_length b < BUF_LEN_MAX"
    using assms by (auto simp: buf_fresh_def BUF_LEN_MAX_def)
  have "buf_view b = []" using b by (simp add: buf_view_def)
  note spec = json_dump_callback_spec [OF b(1,2,4), of "dump obj"] json_serialize_to_buf_spec [OF assms, of dump obj]
  show ?thesis
  proof (cases "length (concat (dump obj)) < BUF_LEN_MAX")
    case True
    then show ?thesis using spec b(3) \<open>buf_view b = []\<close> by auto
  next
    case False
    then obtain b' where "json_dump_callback (dump obj) b = Some (-1, b')" using spec(1) b(3) by auto
    then show ?thesis using False spec(2) by (intro exI [of _ "-1"] exI [of _ b']) simp
  qed
qed

definition sample_dump :: json_dump_fn where
  "sample_dump obj = [[123], [125]]"

theorem json_print_bounded_witness:
  "\<exists>b. json_dump_callback (sample_dump (JObject [])) BUF_INIT = Some (0, b) \<and> buf_view b = [123, 125] \<and>
    (\<exists>b''. json_serialize_to_buf sample_dump (JObject []) BUF_INIT = Some b'' \<and> buf_view b'' = [123, 125, 10]) \<and>
    json_serialize_to_buf (\<lambda>obj. replicate 3 (replicate 100 32)) (JObject []) BUF_INIT = None"
  using json_print_bounded [of BUF_INIT sample_dump "JObject []"]
    json_print_bounded [of BUF_INIT "\<lambda>obj. replicate 3 (replicate 100 32)" "JObject []"]
  by (auto simp: sample_dump_def BUF_LEN_MAX_def length_concat sum_list_replicate split: if_splits)

end
