(* ===== verification/Proto.thy ===== *)
theory Proto
  imports Format
begin

text \<open>
  Model of \<^verbatim>\<open>adsbus/proto.c\<close>, the protobuf format. The messages are the structures of the
  generated \<^verbatim>\<open>adsb.pb-c.h\<close>; a string field holds the contents of its zero-terminated object.
  The library \<^verbatim>\<open>protobuf-c\<close> is not part of the program: \<^verbatim>\<open>adsb__unpack\<close> and
  \<^verbatim>\<open>protobuf_c_message_pack\<close> are the parameters \<open>unpack\<close> and \<open>pack\<close>. The varint and the stream
  wrapper, which the program reads itself, are modelled in full. Log output is left out, and so is the
  release of the previous message. The theory shows that the parser keeps its contract for
  every \<open>unpack\<close>, that no packet is accepted before a header of another server, and that what
  the serializer writes is parsed back.
\<close>

section \<open>Messages\<close>

record AdsbHeader =
  hdr_magic :: "u8 list"
  hdr_server_version :: "u8 list"
  hdr_server_id :: "u8 list"
  hdr_mlat_timestamp_mhz :: u32
  hdr_mlat_timestamp_max :: u64
  hdr_rssi_max :: u32

record AdsbPacket =
  pkt_source_id :: "u8 list"
  pkt_hops :: u32
  pkt_has_mlat_timestamp :: bool
  pkt_mlat_timestamp :: u64
  pkt_has_rssi :: bool
  pkt_rssi :: u32
  pkt_payload :: "u8 list"

record Adsb =
  msg_header :: "AdsbHeader option"
  msg_mode_ac :: "AdsbPacket option"
  msg_mode_s_short :: "AdsbPacket option"
  msg_mode_s_long :: "AdsbPacket option"

definition ADSB_PACKET_INIT :: AdsbPacket where
  "ADSB_PACKET_INIT = \<lparr>pkt_source_id = [], pkt_hops = 0, pkt_has_mlat_timestamp = False,
     pkt_mlat_timestamp = 0, pkt_has_rssi = False, pkt_rssi = 0, pkt_payload = []\<rparr>"

definition ADSB_INIT :: Adsb where
  "ADSB_INIT = \<lparr>msg_header = None, msg_mode_ac = None, msg_mode_s_short = None, msg_mode_s_long = None\<rparr>"

type_synonym unpack_fn = "u8 list \<Rightarrow> Adsb option"

text \<open>\<^verbatim>\<open>protobuf_c_message_pack\<close> of an \<^verbatim>\<open>AdsbStream\<close> with the given messages.\<close>

type_synonym pack_fn = "Adsb list \<Rightarrow> u8 list"

definition PROTO_MAGIC :: "u8 list" where
  "PROTO_MAGIC = c_strz (c_str ''aDsB'')"

section \<open>Serializing\<close>

definition proto_obj_to_buf :: "u8 list \<Rightarrow> buf \<Rightarrow> buf option" where
  "proto_obj_to_buf packed b = do {
     c_assert (buf_length b = 0);
     c_assert (length packed \<le> BUF_LEN_MAX);
     b \<leftarrow> buf_put b 0 packed;
     let b = b\<lparr>buf_length := length packed\<rparr>;
     c_assert (buf_length b \<noteq> 0);
     Some b
   }"

definition proto_wrap_to_buf :: "pack_fn \<Rightarrow> Adsb \<Rightarrow> buf \<Rightarrow> buf option" where
  "proto_wrap_to_buf pack msg b = proto_obj_to_buf (pack [msg]) b"

definition proto_serialize_packet :: "packet \<Rightarrow> AdsbPacket \<Rightarrow> nat \<Rightarrow> AdsbPacket option" where
  "proto_serialize_packet p out n = do {
     sid \<leftarrow> (case source_id p of None \<Rightarrow> Some [] | Some s \<Rightarrow> c_content s);
     let out = out\<lparr>pkt_source_id := sid, pkt_hops := hops p\<rparr>;
     let out = (if mlat_timestamp p \<noteq> 0
                then out\<lparr>pkt_mlat_timestamp := mlat_timestamp p, pkt_has_mlat_timestamp := True\<rparr> else out);
     let out = (if rssi p \<noteq> 0 then out\<lparr>pkt_rssi := rssi p, pkt_has_rssi := True\<rparr> else out);
     bytes \<leftarrow> c_take n (payload p);
     Some (out\<lparr>pkt_payload := bytes\<rparr>)
   }"

definition proto_serialize_mode_ac :: "pack_fn \<Rightarrow> packet \<Rightarrow> buf \<Rightarrow> buf option" where
  "proto_serialize_mode_ac pack p b = do {
     out \<leftarrow> proto_serialize_packet p ADSB_PACKET_INIT 2;
     proto_wrap_to_buf pack (ADSB_INIT\<lparr>msg_mode_ac := Some out\<rparr>) b
   }"

definition proto_serialize_mode_s_short :: "pack_fn \<Rightarrow> packet \<Rightarrow> buf \<Rightarrow> buf option" where
  "proto_serialize_mode_s_short pack p b = do {
     out \<leftarrow> proto_serialize_packet p ADSB_PACKET_INIT 7;
     proto_wrap_to_buf pack (ADSB_INIT\<lparr>msg_mode_s_short := Some out\<rparr>) b
   }"

definition proto_serialize_mode_s_long :: "pack_fn \<Rightarrow> packet \<Rightarrow> buf \<Rightarrow> buf option" where
  "proto_serialize_mode_s_long pack p b = do {
     out \<leftarrow> proto_serialize_packet p ADSB_PACKET_INIT 14;
     proto_wrap_to_buf pack (ADSB_INIT\<lparr>msg_mode_s_long := Some out\<rparr>) b
   }"

definition proto_serialize :: "pack_fn \<Rightarrow> serializer_fn" where
  "proto_serialize pack p b = (case ptype p of
     PACKET_TYPE_NONE \<Rightarrow> Some b
   | PACKET_TYPE_MODE_AC \<Rightarrow> proto_serialize_mode_ac pack p b
   | PACKET_TYPE_MODE_S_SHORT \<Rightarrow> proto_serialize_mode_s_short pack p b
   | PACKET_TYPE_MODE_S_LONG \<Rightarrow> proto_serialize_mode_s_long pack p b)"

text \<open>\<^verbatim>\<open>proto_init\<close> fills the hello buffer every new connection is sent first.\<close>

definition proto_init :: "pack_fn \<Rightarrow> u8 list \<Rightarrow> u8 list \<Rightarrow> buf option" where
  "proto_init pack server_version server_id = do {
     magic \<leftarrow> c_content PROTO_MAGIC;
     version \<leftarrow> c_content server_version;
     sid \<leftarrow> c_content server_id;
     let hdr = \<lparr>hdr_magic = magic, hdr_server_version = version, hdr_server_id = sid,
                hdr_mlat_timestamp_mhz = PACKET_MLAT_MHZ, hdr_mlat_timestamp_max = PACKET_MLAT_MAX,
                hdr_rssi_max = PACKET_RSSI_MAX\<rparr>;
     proto_wrap_to_buf pack (ADSB_INIT\<lparr>msg_header := Some hdr\<rparr>) BUF_INIT
   }"

section \<open>Parsing\<close>

text \<open>
  The loop of \<^verbatim>\<open>proto_parse_varint\<close> with \<open>r = buf->length - *start\<close> bytes left; the result is
  the value or \<open>-1\<close>, and the new \<^verbatim>\<open>*start\<close>.
\<close>

fun proto_varint_loop :: "nat \<Rightarrow> buf \<Rightarrow> nat \<Rightarrow> u64 \<Rightarrow> u16 \<Rightarrow> (int \<times> nat) option" where
  "proto_varint_loop 0 b start val shift = Some (-1, start)"
| "proto_varint_loop (Suc r) b start val shift = do {
     c \<leftarrow> buf_chr b start;
     let val = val OR push_bit (unat shift) (ucast c AND 0x7f);
     if SSIZE_MAX < unat val then Some (-1, start)
     else if c AND 0x80 = 0 then Some (uint val, start + 1)
     else do {
       let shift = shift + 7;
       if 21 < shift then Some (-1, start)
       else proto_varint_loop r b (start + 1) val shift
     }
   }"

definition proto_parse_varint :: "buf \<Rightarrow> nat \<Rightarrow> (int \<times> nat) option" where
  "proto_parse_varint b start = proto_varint_loop (buf_length b - start) b start 0 0"

definition proto_unwrap :: "unpack_fn \<Rightarrow> buf \<Rightarrow> (int \<times> Adsb option) option" where
  "proto_unwrap unpack wrapper =
     (if buf_length wrapper < 1 then Some (-1, None)
      else do {
        c \<leftarrow> buf_chr wrapper 0;
        if c \<noteq> (push_bit 3 1 OR 2) then Some (-1, None)
        else do {
          (n, start) \<leftarrow> proto_parse_varint wrapper 1;
          if n = -1 then Some (-1, None)
          else do {
            let msg_len = nat n;
            if buf_length wrapper < start + msg_len then Some (-1, None)
            else do {
              body \<leftarrow> buf_get wrapper start msg_len;
              case unpack body of
                None \<Rightarrow> Some (-1, None)
              | Some msg \<Rightarrow> Some (int (start + msg_len), Some msg)
            }
          }
        }
      })"

definition proto_parse_header :: "u8 list \<Rightarrow> AdsbHeader \<Rightarrow> parser_state \<Rightarrow> (bool \<times> parser_state) option" where
  "proto_parse_header server_id h st = do {
     magic_ok \<leftarrow> c_streq (c_strz (hdr_magic h)) PROTO_MAGIC;
     if \<not> magic_ok then Some (False, st)
     else if hdr_mlat_timestamp_mhz h = 0 \<or> 0xffff < hdr_mlat_timestamp_mhz h \<or>
             hdr_mlat_timestamp_max h = 0 \<or> hdr_rssi_max h = 0 then Some (False, st)
     else do {
       let st = st\<lparr>mlat_timestamp_mhz := ucast (hdr_mlat_timestamp_mhz h),
                   mlat_timestamp_max := hdr_mlat_timestamp_max h,
                   rssi_max := hdr_rssi_max h\<rparr>;
       own \<leftarrow> c_streq (c_strz (hdr_server_id h)) server_id;
       if own then Some (False, st)
       else Some (True, st\<lparr>have_header := True\<rparr>)
     }
   }"

definition proto_parse_packet ::
    "AdsbPacket \<Rightarrow> packet \<Rightarrow> parser_state \<Rightarrow> nat \<Rightarrow> (bool \<times> packet \<times> parser_state) option" where
  "proto_parse_packet inp p st n =
     (if \<not> have_header st then Some (False, p, st)
      else if length (pkt_payload inp) \<noteq> n then Some (False, p, st)
      else do {
        id_ok \<leftarrow> packet_validate_id (Some (c_strz (pkt_source_id inp)));
        if \<not> id_ok then Some (False, p, st)
        else do {
          let p = p\<lparr>source_id := Some (c_strz (pkt_source_id inp)),
                    hops := ucast (ucast (pkt_hops inp) :: u16)\<rparr>;
          pl \<leftarrow> c_memcpy (payload p) (pkt_payload inp);
          let p = p\<lparr>payload := pl\<rparr>;
          (p, st) \<leftarrow> (if pkt_has_mlat_timestamp inp then do {
              (ts, ms) \<leftarrow> packet_mlat_timestamp_scale_in (pkt_mlat_timestamp inp) (mlat_timestamp_max st)
                            (mlat_timestamp_mhz st) (mlat_state st);
              Some (p\<lparr>mlat_timestamp := ts\<rparr>, st\<lparr>mlat_state := ms\<rparr>)
            } else Some (p, st));
          p \<leftarrow> (if pkt_has_rssi inp then do {
              r \<leftarrow> packet_rssi_scale_in (pkt_rssi inp) (rssi_max st);
              Some (p\<lparr>rssi := r\<rparr>)
            } else Some p);
          Some (True, p, st)
        }
      })"

text \<open>The dispatch on the message, and the whole parser.\<close>

definition proto_parse_msg ::
    "u8 list \<Rightarrow> Adsb \<Rightarrow> packet \<Rightarrow> parser_state \<Rightarrow> (bool \<times> packet \<times> parser_state) option" where
  "proto_parse_msg server_id msg p st =
     (case msg_header msg of
        Some h \<Rightarrow> do {
          (ok, st) \<leftarrow> proto_parse_header server_id h st;
          Some (ok, if ok then p\<lparr>ptype := PACKET_TYPE_NONE\<rparr> else p, st)
        }
      | None \<Rightarrow> (case msg_mode_ac msg of
        Some q \<Rightarrow> do {
          (ok, p, st) \<leftarrow> proto_parse_packet q p st 2;
          Some (ok, if ok then p\<lparr>ptype := PACKET_TYPE_MODE_AC\<rparr> else p, st)
        }
      | None \<Rightarrow> (case msg_mode_s_short msg of
        Some q \<Rightarrow> do {
          (ok, p, st) \<leftarrow> proto_parse_packet q p st 7;
          Some (ok, if ok then p\<lparr>ptype := PACKET_TYPE_MODE_S_SHORT\<rparr> else p, st)
        }
      | None \<Rightarrow> (case msg_mode_s_long msg of
        Some q \<Rightarrow> do {
          (ok, p, st) \<leftarrow> proto_parse_packet q p st 14;
          Some (ok, if ok then p\<lparr>ptype := PACKET_TYPE_MODE_S_LONG\<rparr> else p, st)
        }
      | None \<Rightarrow> Some (False, p, st)))))"

definition proto_parse :: "unpack_fn \<Rightarrow> u8 list \<Rightarrow> parser" where
  "proto_parse unpack server_id b p st = do {
     (n, m) \<leftarrow> proto_unwrap unpack b;
     if n = -1 then Some (False, b, p, st)
     else (case m of
       None \<Rightarrow> None
     | Some msg \<Rightarrow> do {
         (ok, p, st) \<leftarrow> proto_parse_msg server_id msg p st;
         if \<not> ok then Some (False, b, p, st)
         else do {
           b \<leftarrow> buf_consume b (nat n);
           Some (True, b, p, st)
         }
       })
   }"

section \<open>The varint\<close>

text \<open>The little-endian base-128 encoding of a length, as the protobuf format defines it.\<close>

fun varint_bytes :: "nat \<Rightarrow> u8 list" where
  "varint_bytes n = (if n < 128 then [of_nat n] else of_nat (n mod 128 + 128) # varint_bytes (n div 128))"

declare varint_bytes.simps [simp del]

lemma proto_varint_total:
  assumes "buf_ok b" and "start + r = buf_length b"
  shows "\<exists>n start'. proto_varint_loop r b start v shift = Some (n, start') \<and>
    (n = -1 \<or> 0 \<le> n \<and> start < start' \<and> start' \<le> buf_length b)"
  using assms
proof (induction r b start v shift rule: proto_varint_loop.induct)
  case (1 b start v shift)
  then show ?case by simp
next
  case (2 r b start v shift)
  then have c: "buf_chr b start = Some (buf_view b ! start)" by (simp add: buf_chr_view)
  show ?case
    using 2 c by (fastforce simp: Let_def)
qed

section \<open>The parser contract\<close>

lemma proto_unwrap_total:
  assumes b: "buf_ok b"
  shows "\<exists>n m. proto_unwrap unpack b = Some (n, m) \<and>
    (n = -1 \<or> 0 < n \<and> nat n \<le> buf_length b \<and> (\<exists>msg. m = Some msg))"
proof (cases "buf_length b < 1")
  case True
  then show ?thesis by (simp add: proto_unwrap_def)
next
  case False
  then have c: "buf_chr b 0 = Some (buf_view b ! 0)" using b by (simp add: buf_chr_view)
  from False b obtain n start where v: "proto_parse_varint b 1 = Some (n, start)"
    "n = -1 \<or> 0 \<le> n \<and> 1 < start \<and> start \<le> buf_length b"
    using proto_varint_total [of b 1 "buf_length b - 1" 0 0] by (auto simp: proto_parse_varint_def)
  show ?thesis
  proof (cases "n = -1 \<or> buf_length b < start + nat n")
    case True
    with c v False show ?thesis by (cases "n = -1") (simp_all add: proto_unwrap_def)
  next
    case ok: False
    then have g: "buf_get b start (nat n) = Some (take (nat n) (drop start (buf_view b)))"
      using b v by (intro buf_get_view) auto
    show ?thesis
      using c v g False ok
      by (cases "unpack (take (nat n) (drop start (buf_view b)))") (auto simp: proto_unwrap_def)
  qed
qed

lemma proto_parse_header_total:
  assumes "is_c_str sid" and "parser_state_ok st"
  shows "\<exists>ok st'. proto_parse_header sid h st = Some (ok, st') \<and> parser_state_ok st'"
proof -
  obtain m where m: "c_streq (c_strz (hdr_magic h)) PROTO_MAGIC = Some m"
    using c_streq_total [of "c_strz (hdr_magic h)" PROTO_MAGIC] by (auto simp: PROTO_MAGIC_def)
  obtain w where w: "c_streq (c_strz (hdr_server_id h)) sid = Some w"
    using c_streq_total [OF is_c_str_strz assms(1)] by blast
  have "0 < (ucast x :: u16)" if "x \<noteq> 0" "\<not> 0xffff < x" for x :: u32
  proof -
    have "unat x < 65536" "0 < unat x"
      using that by (simp_all add: word_less_nat_alt unat_gt_0)
    then have "unat (ucast x :: u16) = unat x" by (simp add: unsigned_ucast_eq take_bit_nat_eq_self)
    with \<open>0 < unat x\<close> show ?thesis by (simp add: word_less_nat_alt)
  qed
  then show ?thesis
    using m w assms(2)
    by (cases m; cases w) (simp_all add: proto_parse_header_def parser_state_ok_def Let_def word_neq_0_conv)
qed

definition proto_packet_ok :: "packet \<Rightarrow> packet \<Rightarrow> bool" where
  "proto_packet_ok p p' \<longleftrightarrow> (\<exists>s. source_id p' = Some s \<and> valid_id s) \<and> input_stat p' = input_stat p \<and>
     length (payload p') = PACKET_PAYLOAD_LEN_MAX \<and> mlat_timestamp p' \<le> PACKET_MLAT_MAX"

lemma proto_parse_packet_total:
  assumes p: "packet_ready p" and st: "parser_state_ok st" and n: "n \<le> PACKET_PAYLOAD_LEN_MAX"
  shows "\<exists>ok p' st'. proto_parse_packet inp p st n = Some (ok, p', st') \<and> parser_state_ok st' \<and>
    (if ok then have_header st \<and> proto_packet_ok p p' else p' = p \<and> st' = st)"
proof -
  let ?s = "c_strz (pkt_source_id inp)"
  obtain v where v: "packet_validate_id (Some ?s) = Some v"
    using packet_validate_id_total [of "Some ?s"] by auto
  show ?thesis
  proof (cases "have_header st \<and> length (pkt_payload inp) = n \<and> v")
    case False
    with v st show ?thesis by (auto simp: proto_parse_packet_def)
  next
    case ok: True
    then have hdr: "0 < mlat_timestamp_mhz st" "0 < rssi_max st" using st by (auto simp: parser_state_ok_def)
    have id: "valid_id ?s" using v ok by (simp add: packet_validate_id_True_iff [symmetric])
    obtain pl where pl: "c_memcpy (payload p) (pkt_payload inp) = Some pl" "length pl = PACKET_PAYLOAD_LEN_MAX"
      using p n ok by (auto simp: c_memcpy_def packet_ready_def)
    obtain ts ms where ts: "packet_mlat_timestamp_scale_in (pkt_mlat_timestamp inp) (mlat_timestamp_max st)
        (mlat_timestamp_mhz st) (mlat_state st) = Some (ts, ms)" "ts < PACKET_MLAT_MAX"
      using packet_mlat_timestamp_scale_in_total [OF hdr(1)] by blast
    obtain r where r: "packet_rssi_scale_in (pkt_rssi inp) (rssi_max st) = Some r"
      using packet_rssi_scale_in_total [OF hdr(2)] by blast
    let ?p = "p\<lparr>source_id := Some ?s, hops := ucast (ucast (pkt_hops inp) :: u16), payload := pl\<rparr>"
    have p0: "proto_packet_ok p ?p" using id pl(2) p by (simp add: proto_packet_ok_def packet_ready_def)
    obtain p1 st1 where m: "(if pkt_has_mlat_timestamp inp then do {
              (ts, ms) \<leftarrow> packet_mlat_timestamp_scale_in (pkt_mlat_timestamp inp) (mlat_timestamp_max st)
                            (mlat_timestamp_mhz st) (mlat_state st);
              Some (?p\<lparr>mlat_timestamp := ts\<rparr>, st\<lparr>mlat_state := ms\<rparr>)
            } else Some (?p, st)) = Some (p1, st1)" "proto_packet_ok p p1" "parser_state_ok st1"
      "rssi_max st1 = rssi_max st"
      using ts p0 st by (cases "pkt_has_mlat_timestamp inp") (simp_all add: proto_packet_ok_def)
    obtain p2 where q: "(if pkt_has_rssi inp then do {
              r \<leftarrow> packet_rssi_scale_in (pkt_rssi inp) (rssi_max st1);
              Some (p1\<lparr>rssi := r\<rparr>)
            } else Some p1) = Some p2" "proto_packet_ok p p2"
      using r m(2,4) by (cases "pkt_has_rssi inp") (simp_all add: proto_packet_ok_def)
    have "proto_parse_packet inp p st n = Some (True, p2, st1)"
      using ok v pl(1) m(1) q(1) by (simp add: proto_parse_packet_def Let_def)
    with ok q(2) m(3) show ?thesis by simp
  qed
qed

lemma proto_parse_msg_total:
  assumes p: "packet_ready p" and st: "parser_state_ok st" and sid: "is_c_str sid"
  shows "\<exists>ok p' st'. proto_parse_msg sid msg p st = Some (ok, p', st') \<and> parser_state_ok st' \<and>
    packet_frame p p' \<and> (if ok then ptype p' = PACKET_TYPE_NONE \<or> packet_sane p' else p' = p)"
proof -
  have pkt: "\<exists>ok p' st'. do {
          (ok, p, st) \<leftarrow> proto_parse_packet q p st (packet_payload_len t);
          Some (ok, if ok then p\<lparr>ptype := t\<rparr> else p, st)
        } = Some (ok, p', st') \<and> parser_state_ok st' \<and>
    packet_frame p p' \<and> (if ok then ptype p' = PACKET_TYPE_NONE \<or> packet_sane p' else p' = p)" for q t
  proof -
    obtain ok p' st' where r: "proto_parse_packet q p st (packet_payload_len t) = Some (ok, p', st')"
      "parser_state_ok st'" "if ok then have_header st \<and> proto_packet_ok p p' else p' = p \<and> st' = st"
      using proto_parse_packet_total [OF p st length_payload_len] by metis
    show ?thesis
      using r p by (cases ok)
        (auto simp: proto_packet_ok_def packet_frame_def packet_sane_def packet_ready_def)
  qed
  show ?thesis
  proof (cases "msg_header msg")
    case (Some h)
    obtain ok st' where "proto_parse_header sid h st = Some (ok, st')" "parser_state_ok st'"
      using proto_parse_header_total [OF sid st] by blast
    with Some p show ?thesis by (auto simp: proto_parse_msg_def packet_frame_def packet_ready_def)
  next
    case hdr: None
    have rej: "packet_frame p p" using p by (simp add: packet_frame_def packet_ready_def)
    consider (ac) q where "msg_mode_ac msg = Some q"
      | (short) q where "msg_mode_ac msg = None" "msg_mode_s_short msg = Some q"
      | (long) q where "msg_mode_ac msg = None" "msg_mode_s_short msg = None" "msg_mode_s_long msg = Some q"
      | (none) "msg_mode_ac msg = None" "msg_mode_s_short msg = None" "msg_mode_s_long msg = None"
      by (metis option.exhaust)
    then show ?thesis
    proof cases
      case (ac q)
      with hdr pkt [of q PACKET_TYPE_MODE_AC] show ?thesis by (simp add: proto_parse_msg_def)
    next
      case (short q)
      with hdr pkt [of q PACKET_TYPE_MODE_S_SHORT] show ?thesis by (simp add: proto_parse_msg_def)
    next
      case (long q)
      with hdr pkt [of q PACKET_TYPE_MODE_S_LONG] show ?thesis by (simp add: proto_parse_msg_def)
    next
      case none
      with hdr rej st show ?thesis
        by (intro exI [of _ False] exI [of _ p] exI [of _ st]) (simp add: proto_parse_msg_def)
    qed
  qed
qed

lemma proto_parse_total:
  assumes b: "buf_ok b" and p: "packet_ready p" and st: "parser_state_ok st" and sid: "is_c_str sid"
  shows "\<exists>ok b' p' st'. proto_parse unpack sid b p st = Some (ok, b', p', st') \<and>
    parse_result_ok b p (ok, b', p', st') \<and> (\<not> ok \<longrightarrow> p' = p)"
proof -
  have frame: "packet_frame p p" using p by (simp add: packet_frame_def packet_ready_def)
  from proto_unwrap_total [OF b] obtain n m where u: "proto_unwrap unpack b = Some (n, m)"
    "n = -1 \<or> 0 < n \<and> nat n \<le> buf_length b \<and> (\<exists>msg. m = Some msg)" by blast
  show ?thesis
  proof (cases "n = -1")
    case True
    with u(1) st frame show ?thesis
      by (intro exI [of _ False] exI [of _ b] exI [of _ p] exI [of _ st])
        (simp add: proto_parse_def parse_result_ok_def)
  next
    case False
    with u(2) obtain msg where m: "m = Some msg" and n: "0 < nat n" "nat n \<le> buf_length b" by auto
    from buf_consume_Some [OF b n] obtain b' where b': "buf_consume b (nat n) = Some b'" "consumed b b'"
      by metis
    from proto_parse_msg_total [OF p st sid, of msg] obtain ok p' st' where
      r: "proto_parse_msg sid msg p st = Some (ok, p', st')" "parser_state_ok st'" "packet_frame p p'"
        "if ok then ptype p' = PACKET_TYPE_NONE \<or> packet_sane p' else p' = p" by metis
    show ?thesis
      using False u(1) m b' r by (cases ok) (simp_all add: proto_parse_def parse_result_ok_def)
  qed
qed

lemma proto_contract: "is_c_str sid \<Longrightarrow> chained_parser (proto_parse unpack sid)"
proof (unfold_locales, goal_cases)
  case (1 b p st)
  from proto_parse_total [OF 1(2-4) 1(1)] show ?case by blast
next
  case (2 b p st b' p' st')
  from proto_parse_total [OF 2(2-4) 2(1), of unpack] 2(3,5) show ?case by auto
qed

section \<open>Headers\<close>

text \<open>The condition under which a header is accepted, as one predicate.\<close>

definition proto_header_good :: "u8 list \<Rightarrow> AdsbHeader \<Rightarrow> bool" where
  "proto_header_good sid h \<longleftrightarrow>
     c_streq (c_strz (hdr_magic h)) PROTO_MAGIC = Some True \<and>
     0 < hdr_mlat_timestamp_mhz h \<and> hdr_mlat_timestamp_mhz h \<le> 0xffff \<and>
     0 < hdr_mlat_timestamp_max h \<and> 0 < hdr_rssi_max h \<and>
     c_streq (c_strz (hdr_server_id h)) sid = Some False"

lemma proto_parse_header_True_iff:
  assumes "is_c_str sid"
  shows "(\<exists>st'. proto_parse_header sid h st = Some (True, st')) \<longleftrightarrow> proto_header_good sid h"
proof -
  obtain m where m: "c_streq (c_strz (hdr_magic h)) PROTO_MAGIC = Some m"
    using c_streq_total [of "c_strz (hdr_magic h)" PROTO_MAGIC] by (auto simp: PROTO_MAGIC_def)
  obtain w where w: "c_streq (c_strz (hdr_server_id h)) sid = Some w"
    using c_streq_total [OF is_c_str_strz assms] by blast
  show ?thesis
    by (auto simp: proto_parse_header_def proto_header_good_def m w Let_def not_less word_neq_0_conv
        dest: leD)
qed

lemma proto_parse_header_post:
  "case proto_parse_header sid h st of None \<Rightarrow> True
   | Some (ok, st') \<Rightarrow> have_header st' = (have_header st \<or> ok) \<and> mlat_state st' = mlat_state st"
  by (cases "c_streq (c_strz (hdr_magic h)) PROTO_MAGIC"; cases "c_streq (c_strz (hdr_server_id h)) sid";
      simp add: proto_parse_header_def Let_def)

lemma proto_parse_header_state:
  assumes "proto_parse_header sid h st = Some (ok, st')"
  shows "have_header st' = (have_header st \<or> ok)" and "mlat_state st' = mlat_state st"
  using proto_parse_header_post [where sid = sid and h = h and st = st] unfolding assms by simp_all

lemma proto_parse_packet_post:
  "case proto_parse_packet q p st n of None \<Rightarrow> True
   | Some (ok, p', st') \<Rightarrow> (ok \<longrightarrow> have_header st) \<and> have_header st' = have_header st"
proof -
  let ?s = "c_strz (pkt_source_id q)"
  let ?ts = "packet_mlat_timestamp_scale_in (pkt_mlat_timestamp q) (mlat_timestamp_max st) (mlat_timestamp_mhz st) (mlat_state st)"
  show ?thesis
    by (cases "packet_validate_id (Some ?s)"; cases "c_memcpy (payload p) (pkt_payload q)"; cases ?ts;
        cases "packet_rssi_scale_in (pkt_rssi q) (rssi_max st)")
      (simp_all add: proto_parse_packet_def Let_def split: prod.split)
qed

lemma proto_parse_packet_header:
  assumes "proto_parse_packet q p st n = Some (ok, p', st')"
  shows "ok \<Longrightarrow> have_header st" and "have_header st' = have_header st"
  using proto_parse_packet_post [where q = q and p = p and st = st and n = n] unfolding assms by simp_all

lemma proto_parse_msg_header:
  assumes "proto_parse_msg sid msg p st = Some (True, p', st')"
  shows "have_header st' \<and> (have_header st \<and> msg_header msg = None \<or>
    ptype p' = PACKET_TYPE_NONE \<and> (\<exists>h. msg_header msg = Some h \<and> (\<exists>st'. proto_parse_header sid h st = Some (True, st'))))"
proof (cases "msg_header msg")
  case (Some h)
  with assms show ?thesis
    by (auto simp: proto_parse_msg_def bind_Some_iff dest: proto_parse_header_state)
next
  case None
  with assms show ?thesis
    by (auto simp: proto_parse_msg_def bind_Some_iff split: option.splits dest: proto_parse_packet_header)
qed

lemma proto_parse_needs_header:
  assumes "is_c_str sid" and "proto_parse unpack sid b p st = Some (True, b', p', st')"
  shows "have_header st' \<and> (have_header st \<or>
    ptype p' = PACKET_TYPE_NONE \<and> (\<exists>body msg h. unpack body = Some msg \<and> msg_header msg = Some h \<and>
      proto_header_good sid h))"
proof -
  from assms(2) obtain n msg where u: "proto_unwrap unpack b = Some (n, Some msg)" "n \<noteq> -1"
    and m: "proto_parse_msg sid msg p st = Some (True, p', st')"
    by (auto simp: proto_parse_def bind_Some_iff split: if_splits option.splits)
  from u have "\<exists>body. unpack body = Some msg"
    by (auto simp: proto_unwrap_def bind_Some_iff Let_def split: if_splits option.splits)
  with proto_parse_msg_header [OF m] proto_parse_header_True_iff [OF assms(1)] show ?thesis by blast
qed

section \<open>Reading a length back\<close>

lemma varint_low_bits: "unat (ucast (c :: u8) AND 0x7f :: u64) = unat c mod 128"
proof -
  have e: "(ucast c AND 0x7f :: u64) = take_bit 7 (ucast c)"
    using mask_eq_exp_minus_1 [of 7, where 'a = u64] by (simp add: take_bit_eq_mask)
  show ?thesis unfolding e by (simp only: unsigned_take_bit_eq) (simp add: take_bit_eq_mod)
qed

lemma varint_high_bit: "(c :: u8) AND 0x80 = 0 \<longleftrightarrow> unat c < 128"
proof -
  have "c AND 0x80 = 0 \<longleftrightarrow> \<not> bit c 7"
    using and_exp_eq_0_iff_not_bit [of c 7] by simp
  also have "\<dots> \<longleftrightarrow> even (unat c div 128)"
  proof -
    have "bit c 7 = odd (unat c div 128)"
      using bit_unsigned_iff [of c 7, where 'a = nat] by (simp add: bit_iff_odd [of "unat c"])
    then show ?thesis by simp
  qed
  also have "\<dots> \<longleftrightarrow> unat c < 128"
  proof -
    have "unat c div 128 < 2" using unat_less_len(1) [of c] by linarith
    then have "unat c div 128 = 0 \<or> unat c div 128 = 1" by linarith
    then show ?thesis by auto
  qed
  finally show ?thesis .
qed

lemma or_push_bit_add:
  fixes a x :: u64
  assumes "unat a < 2 ^ k" and "unat a + unat x * 2 ^ k < 2 ^ 64"
  shows "unat (a OR push_bit k x) = unat a + unat x * 2 ^ k"
proof -
  have t: "take_bit k a = a"
    using assms(1) by (simp add: word_eq_iff_unsigned [where 'a = nat] unsigned_take_bit_eq take_bit_nat_eq_self)
  have "\<not> bit a n \<or> \<not> bit (push_bit k x) n" for n
    using bit_take_bit_iff [of k a n] t by (auto simp: bit_push_bit_iff)
  then have o: "a OR push_bit k x = a + push_bit k x"
    by (simp add: disjunctive_add)
  have "unat (push_bit k x) = unat x * 2 ^ k"
    using assms(2) by (simp only: unsigned_push_bit_eq) (simp add: take_bit_nat_eq_self push_bit_eq_mult)
  with assms(2) show ?thesis
    unfolding o by (simp add: unat_word_ariths)
qed
lemma varint_step:
  assumes b: "buf_ok b" and v: "buf_view b ! start = of_nat m" and i: "start < buf_length b" and m: "m < 256"
    and j: "j \<le> 3" and acc: "unat v < 2 ^ (7 * j)" and sh: "shift = of_nat (7 * j)"
  defines "w \<equiv> v OR push_bit (7 * j) (ucast (of_nat m :: u8) AND 0x7f)"
  shows "unat w = unat v + m mod 128 * 2 ^ (7 * j)" and "unat w < 2 ^ (7 * (j + 1))"
    and "proto_varint_loop (Suc r) b start v shift =
      (if m < 128 then Some (int (unat w), start + 1)
       else if j = 3 then Some (-1, start)
       else proto_varint_loop r b (start + 1) w (of_nat (7 * (j + 1))))"
proof -
  have um: "unat (of_nat m :: u8) = m" using m by (simp add: unsigned_of_nat take_bit_nat_eq_self)
  note lo = varint_low_bits [of "of_nat m", unfolded um]
  have pw: "(2 :: nat) ^ (7 * j) \<le> 2 ^ 21" using j by (intro power_increasing) auto
  have "m mod 128 * 2 ^ (7 * j) \<le> 127 * 2 ^ (7 * j)" by (intro mult_right_mono) auto
  with acc have lt: "unat v + m mod 128 * 2 ^ (7 * j) < 128 * 2 ^ (7 * j)" by linarith
  with pw have "unat v + m mod 128 * 2 ^ (7 * j) < 2 ^ 64" by simp
  with acc lo show w: "unat w = unat v + m mod 128 * 2 ^ (7 * j)"
    unfolding w_def by (subst or_push_bit_add) simp_all
  then show wl: "unat w < 2 ^ (7 * (j + 1))" using lt by (simp add: power_add)
  have small: "\<not> SSIZE_MAX < unat w"
    using w lt pw by (simp add: SSIZE_MAX_def)
  have nat16: "unat (of_nat k :: u16) = k" if "k \<le> 28" for k
    using that by (simp only: unsigned_of_nat) (simp add: take_bit_nat_eq_self)
  have us: "unat shift = 7 * j" using j unfolding sh by (intro nat16) simp
  have sh': "shift + 7 = of_nat (7 * (j + 1))" by (simp add: sh)
  have "(21 :: u16) < of_nat (7 * (j + 1)) \<longleftrightarrow> 21 < 7 * (j + 1)"
    using j nat16 [of "7 * (j + 1)"] by (simp only: word_less_nat_alt) simp
  then have s21: "(21 :: u16) < of_nat (7 * (j + 1)) \<longleftrightarrow> j = 3" using j by auto
  have chr: "buf_chr b start = Some (of_nat m)" using buf_chr_view [OF b i] v by simp
  show "proto_varint_loop (Suc r) b start v shift =
      (if m < 128 then Some (int (unat w), start + 1)
       else if j = 3 then Some (-1, start)
       else proto_varint_loop r b (start + 1) w (of_nat (7 * (j + 1))))"
    unfolding proto_varint_loop.simps chr Option.bind.bind_lunit us Let_def w_def [symmetric] sh' s21
      varint_high_bit um
    using small by simp
qed

lemma proto_varint_loop_bytes:
  assumes "buf_ok b" and "j \<le> 3" and "n < 2 ^ (28 - 7 * j)"
    and "drop start (buf_view b) = varint_bytes n @ rest" and "start + r = buf_length b"
    and "unat v < 2 ^ (7 * j)" and "shift = of_nat (7 * j)"
  shows "proto_varint_loop r b start v shift =
    Some (int (unat v + n * 2 ^ (7 * j)), start + length (varint_bytes n))"
  using assms(2-7)
proof (induction n arbitrary: r start v shift j rule: varint_bytes.induct)
  case (1 n)
  define m where "m = (if n < 128 then n else n mod 128 + 128)"
  have m: "m < 256" "m < 128 \<longleftrightarrow> n < 128" by (auto simp: m_def)
  have mm: "m mod 128 = n mod 128" by (auto simp: m_def)
  obtain tl where tl: "varint_bytes n = of_nat m # tl" "n < 128 \<longrightarrow> tl = []"
    "\<not> n < 128 \<longrightarrow> tl = varint_bytes (n div 128)"
    by (cases "n < 128") (simp_all add: m_def varint_bytes.simps [of n])
  have hd: "drop start (buf_view b) = of_nat m # tl @ rest" using 1(4) tl(1) by simp
  then have i: "start < buf_length b" "buf_view b ! start = of_nat m" "drop (start + 1) (buf_view b) = tl @ rest"
    using assms(1) length_buf_view [OF assms(1)]
    by (metis drop_all list.discI not_le)
      (metis hd drop_all hd_drop_conv_nth list.discI list.sel(1) not_le,
       metis hd drop_Suc tl_drop list.sel(3) Suc_eq_plus1)
  from i(1) 1(5) obtain r' where r: "r = Suc r'" "start + 1 + r' = buf_length b" by (cases r) auto
  note st = varint_step [OF assms(1) i(2,1) m(1) 1(2,6,7)]
  show ?case
  proof (cases "n < 128")
    case True
    with st(1,3) tl mm show ?thesis by (simp add: r(1) m(2))
  next
    case False
    let ?w = "v OR push_bit (7 * j) (ucast (of_nat m :: u8) AND 0x7f)"
    have j: "j < 3"
    proof (rule ccontr)
      assume "\<not> j < 3"
      with 1(2,3) False show False by simp
    qed
    have d: "n div 128 < 2 ^ (28 - 7 * (j + 1))"
    proof -
      define k where "k = 28 - 7 * (j + 1)"
      have "28 - 7 * j = k + 7" using j by (simp add: k_def)
      with 1(3) have "n < 2 ^ k * 128" by (simp add: power_add)
      then show ?thesis unfolding k_def [symmetric] by (rule less_mult_imp_div_less)
    qed
    have step: "proto_varint_loop (Suc r') b start v shift =
        proto_varint_loop r' b (start + 1) ?w (of_nat (7 * (j + 1)))"
      unfolding st(3) using False m(2) j by simp
    have ih: "proto_varint_loop r' b (start + 1) ?w (of_nat (7 * (j + 1))) =
        Some (int (unat ?w + n div 128 * 2 ^ (7 * (j + 1))), start + 1 + length (varint_bytes (n div 128)))"
      using False j d i(3) tl(3) r(2) st(2) by (intro 1(1)) auto
    have sum: "unat ?w + n div 128 * 2 ^ (7 * (j + 1)) = unat v + n * 2 ^ (7 * j)"
    proof -
      have e: "(2 :: nat) ^ (7 * (j + 1)) = 128 * 2 ^ (7 * j)" by (simp add: power_add)
      have "n mod 128 * 2 ^ (7 * j) + n div 128 * (128 * 2 ^ (7 * j)) = (n mod 128 + n div 128 * 128) * 2 ^ (7 * j)"
        by (simp only: distrib_right mult.assoc)
      then show ?thesis unfolding st(1) mm e add.assoc by simp
    qed
    show ?thesis unfolding r(1) step ih sum using tl(1,3) False by simp
  qed
qed

section \<open>The serializer\<close>

text \<open>The message that stands for a packet, and the stream frame around its encoding.\<close>

definition proto_packet_msg :: "packet \<Rightarrow> AdsbPacket" where
  "proto_packet_msg p =
     \<lparr>pkt_source_id = (case source_id p of None \<Rightarrow> [] | Some s \<Rightarrow> takeWhile (\<lambda>c. c \<noteq> 0) s),
      pkt_hops = hops p, pkt_has_mlat_timestamp = (mlat_timestamp p \<noteq> 0), pkt_mlat_timestamp = mlat_timestamp p,
      pkt_has_rssi = (rssi p \<noteq> 0), pkt_rssi = rssi p,
      pkt_payload = take (packet_payload_len (ptype p)) (payload p)\<rparr>"

fun proto_msg :: "packet_type \<Rightarrow> AdsbPacket \<Rightarrow> Adsb" where
  "proto_msg PACKET_TYPE_NONE q = ADSB_INIT"
| "proto_msg PACKET_TYPE_MODE_AC q = ADSB_INIT\<lparr>msg_mode_ac := Some q\<rparr>"
| "proto_msg PACKET_TYPE_MODE_S_SHORT q = ADSB_INIT\<lparr>msg_mode_s_short := Some q\<rparr>"
| "proto_msg PACKET_TYPE_MODE_S_LONG q = ADSB_INIT\<lparr>msg_mode_s_long := Some q\<rparr>"

definition proto_frame :: "u8 list \<Rightarrow> u8 list" where
  "proto_frame body = 10 # varint_bytes (length body) @ body"

lemma valid_id_content:
  assumes "valid_id s"
  shows "is_c_str s" and "length (takeWhile (\<lambda>c. c \<noteq> 0) s) \<le> 36" and "valid_id (c_strz (takeWhile (\<lambda>c. c \<noteq> 0) s))"
proof -
  from assms obtain n where n: "n < UUID_LEN" "n < length s" "s ! n = 0" "\<forall>k<n. 32 \<le> s ! k \<and> s ! k \<le> 126"
    by (auto simp: valid_id_def)
  have nz: "s ! k \<noteq> 0" if "k < n" for k using n(4) that by fastforce
  have tw: "takeWhile (\<lambda>c. c \<noteq> 0) s = take n s"
    using n nz by (intro takeWhile_eq_take_P_nth) auto
  show "is_c_str s" using valid_id_c_str [OF assms] .
  show "length (takeWhile (\<lambda>c. c \<noteq> 0) s) \<le> 36" using n(1) by (simp add: tw UUID_LEN_def)
  show "valid_id (c_strz (takeWhile (\<lambda>c. c \<noteq> 0) s))"
    unfolding valid_id_def tw c_strz_def using n by (intro exI [of _ n]) (auto simp: nth_append)
qed

lemma proto_serialize_packet_eq:
  assumes p: "packet_full p" and n: "n = packet_payload_len (ptype p)"
  shows "\<exists>q. proto_serialize_packet p ADSB_PACKET_INIT n = Some q \<and>
    q\<lparr>pkt_mlat_timestamp := mlat_timestamp p, pkt_rssi := rssi p\<rparr> = proto_packet_msg p \<and> q = proto_packet_msg p"
proof -
  from p obtain s where s: "source_id p = Some s" "valid_id s" by (auto simp: packet_full_def packet_sane_def)
  have len: "n \<le> length (payload p)" using p n length_payload_len by (simp add: packet_full_def)
  show ?thesis
    using s valid_id_content(1) [OF s(2)] len
    by (simp add: proto_serialize_packet_def c_content_def c_take_def Let_def ADSB_PACKET_INIT_def
        proto_packet_msg_def n)
qed

lemma proto_serialize_spec:
  assumes p: "packet_full p" and b: "buf_fresh b"
    and len: "0 < length (pack [proto_msg (ptype p) (proto_packet_msg p)])"
      "length (pack [proto_msg (ptype p) (proto_packet_msg p)]) \<le> BUF_LEN_MAX"
  shows "\<exists>b'. proto_serialize pack p b = Some b' \<and> buf_ok b' \<and>
    buf_view b' = pack [proto_msg (ptype p) (proto_packet_msg p)]"
proof -
  let ?m = "pack [proto_msg (ptype p) (proto_packet_msg p)]"
  from proto_serialize_packet_eq [OF p refl] have
    q: "proto_serialize_packet p ADSB_PACKET_INIT (packet_payload_len (ptype p)) = Some (proto_packet_msg p)"
    by blast
  have t: "ptype p \<noteq> PACKET_TYPE_NONE" using p by (simp add: packet_full_def packet_sane_def)
  have fresh: "buf_length b = 0" "buf_start b = 0" "length (buf_data b) = BUF_LEN_MAX"
    using b by (auto simp: buf_fresh_def buf_ok_def)
  have "\<exists>b'. proto_obj_to_buf ?m b = Some b' \<and> buf_ok b' \<and> buf_view b' = ?m"
    using fresh len
    by (auto simp: proto_obj_to_buf_def buf_put_def buf_ok_def buf_view_def list_put_def)
  moreover have "proto_serialize pack p b = proto_obj_to_buf ?m b"
    using q t by (cases "ptype p") (simp_all add: proto_serialize_def proto_serialize_mode_ac_def
        proto_serialize_mode_s_short_def proto_serialize_mode_s_long_def proto_wrap_to_buf_def)
  ultimately show ?thesis by simp
qed

text \<open>
  What the protobuf encoding promises about sizes: a packet message with a source id of at most
  36 characters and at most 14 payload bytes fits the buffer (it needs less than 100 bytes).
\<close>

definition proto_pack_ok :: "pack_fn \<Rightarrow> bool" where
  "proto_pack_ok pack \<longleftrightarrow> (\<forall>t q. t \<noteq> PACKET_TYPE_NONE \<longrightarrow>
     length (pkt_source_id q) \<le> 36 \<longrightarrow> length (pkt_payload q) \<le> 14 \<longrightarrow>
     0 < length (pack [proto_msg t q]) \<and> length (pack [proto_msg t q]) \<le> BUF_LEN_MAX)"

lemma proto_serializer_contract:
  assumes "proto_pack_ok pack"
  shows "serializer_contract (proto_serialize pack)"
proof
  fix p :: packet and b
  assume p: "packet_full p" and b: "buf_fresh b"
  then obtain s where s: "source_id p = Some s" "valid_id s" by (auto simp: packet_full_def packet_sane_def)
  have "0 < length (pack [proto_msg (ptype p) (proto_packet_msg p)]) \<and>
      length (pack [proto_msg (ptype p) (proto_packet_msg p)]) \<le> BUF_LEN_MAX"
    using assms p s valid_id_content(2) [OF s(2)] packet_payload_len_le [of "ptype p"]
    by (simp add: proto_pack_ok_def packet_full_def packet_sane_def proto_packet_msg_def)
  with proto_serialize_spec [OF p b] show "\<exists>b'. proto_serialize pack p b = Some b' \<and> buf_ok b'" by blast
qed

section \<open>Round trip\<close>

lemma proto_unwrap_frame:
  assumes b: "buf_ok b" and v: "buf_view b = proto_frame body @ rest" and u: "unpack body = Some msg"
  shows "proto_unwrap unpack b = Some (int (length (proto_frame body)), Some msg)"
    and "length (proto_frame body) \<le> buf_length b"
proof -
  let ?k = "length (varint_bytes (length body))"
  have len: "buf_length b = 1 + ?k + length body + length rest"
    using length_buf_view [OF b] by (simp add: v proto_frame_def)
  have lb: "length body < 256" using len buf_view_bound [OF b] by simp
  have d: "drop 1 (buf_view b) = varint_bytes (length body) @ (body @ rest)" by (simp add: v proto_frame_def)
  have "proto_varint_loop (buf_length b - 1) b 1 0 0 =
      Some (int (unat (0 :: u64) + length body * 2 ^ (7 * 0)), 1 + ?k)"
    by (rule proto_varint_loop_bytes [OF b _ _ d]) (use lb len in auto)
  then have vi: "proto_parse_varint b 1 = Some (int (length body), 1 + ?k)"
    by (simp add: proto_parse_varint_def)
  have chr: "buf_chr b 0 = Some 10"
    using buf_chr_view [OF b, of 0] len by (simp add: v proto_frame_def)
  have get: "buf_get b (1 + ?k) (length body) = Some body"
    using buf_get_view [OF b, of "1 + ?k" "length body"] len by (simp add: v proto_frame_def)
  have pb: "push_bit 3 1 OR 2 = (10 :: u8)" by code_simp
  have l0: "\<not> buf_length b < 1" "\<not> buf_length b < 1 + ?k + length body" using len by simp_all
  show "proto_unwrap unpack b = Some (int (length (proto_frame body)), Some msg)"
    unfolding proto_unwrap_def chr pb vi Option.bind.bind_lunit Let_def prod.case nat_int get u
    using l0 by (simp add: proto_frame_def)
  show "length (proto_frame body) \<le> buf_length b" using len by (simp add: proto_frame_def)
qed

lemma proto_mlat_identity:
  assumes "ts < PACKET_MLAT_MAX" and "timestamp_generation ms = 0" and "timestamp_last ms \<le> ts"
  shows "\<exists>ms'. packet_mlat_timestamp_scale_in ts PACKET_MLAT_MAX 120 ms = Some (ts, ms')"
proof -
  have "ts mod PACKET_MLAT_MAX = ts"
    using assms(1) by (simp add: word_eq_iff_unsigned [where 'a = nat] unat_mod_distrib word_less_nat_alt)
  then show ?thesis
    using assms(2,3) by (simp add: packet_mlat_timestamp_scale_in_def packet_mlat_timestamp_scale_mhz_in_def
        packet_mlat_timestamp_scale_width_in_def Let_def leD PACKET_MLAT_MHZ_def)
qed

lemma proto_parse_frame:
  assumes p: "packet_full p" and src: "source_id p = Some s" and q: "packet_ready q" "mlat_timestamp q = 0" "rssi q = 0"
    and b: "buf_ok b" "buf_view b = proto_frame body @ rest"
    and u: "unpack body = Some (proto_msg (ptype p) (proto_packet_msg p))"
    and st: "have_header st" "mlat_timestamp_mhz st = 120" "mlat_timestamp_max st = PACKET_MLAT_MAX"
      "rssi_max st = PACKET_RSSI_MAX"
    and ms: "timestamp_generation (mlat_state st) = 0" "timestamp_last (mlat_state st) \<le> mlat_timestamp p"
      "mlat_timestamp p < PACKET_MLAT_MAX"
  shows "\<exists>b' st'. buf_view b' = rest \<and> buf_ok b' \<and>
    proto_parse unpack sid b q st = Some (True, b',
      q\<lparr>source_id := Some (c_strz (takeWhile (\<lambda>c. c \<noteq> 0) s)), ptype := ptype p,
        hops := ucast (ucast (hops p) :: u16), mlat_timestamp := mlat_timestamp p, rssi := rssi p,
        payload := take (packet_payload_len (ptype p)) (payload p) @
          drop (packet_payload_len (ptype p)) (payload q)\<rparr>, st')"
proof -
  let ?n = "packet_payload_len (ptype p)"
  let ?s = "c_strz (takeWhile (\<lambda>c. c \<noteq> 0) s)"
  let ?q = "q\<lparr>source_id := Some ?s, hops := ucast (ucast (hops p) :: u16), mlat_timestamp := mlat_timestamp p,
    rssi := rssi p, payload := take ?n (payload p) @ drop ?n (payload q)\<rparr>"
  have t: "ptype p \<noteq> PACKET_TYPE_NONE" using p by (simp add: packet_full_def packet_sane_def)
  have id: "packet_validate_id (Some ?s) = Some True"
    using p src valid_id_content(3) by (auto simp: packet_full_def packet_sane_def packet_validate_id_True_iff)
  have lp: "length (payload p) = 14" "?n \<le> 14" using p packet_payload_len_le
    by (simp_all add: packet_full_def PACKET_PAYLOAD_LEN_MAX_def)
  have cp: "c_memcpy (payload q) (take ?n (payload p)) = Some (take ?n (payload p) @ drop ?n (payload q))"
    using q(1) lp by (simp add: c_memcpy_def packet_ready_def PACKET_PAYLOAD_LEN_MAX_def)
  obtain ms' where m: "packet_mlat_timestamp_scale_in (mlat_timestamp p) PACKET_MLAT_MAX 120 (mlat_state st) =
      Some (mlat_timestamp p, ms')"
    using proto_mlat_identity [OF ms(3,1,2)] by blast
  have r: "packet_rssi_scale_in (rssi p) PACKET_RSSI_MAX = Some (rssi p)"
    by (simp add: packet_rssi_scale_in_def PACKET_RSSI_MAX_def)
  have "\<exists>st'. proto_parse_packet (proto_packet_msg p) q st ?n = Some (True, ?q, st')"
    using id cp m r st src q(2,3) lp
    by (simp add: proto_parse_packet_def proto_packet_msg_def Let_def)
  then obtain st' where "proto_parse_packet (proto_packet_msg p) q st ?n = Some (True, ?q, st')" by blast
  then have msg: "proto_parse_msg sid (proto_msg (ptype p) (proto_packet_msg p)) q st =
      Some (True, ?q\<lparr>ptype := ptype p\<rparr>, st')"
    using t by (cases "ptype p") (simp_all add: proto_parse_msg_def ADSB_INIT_def)
  note un = proto_unwrap_frame [where unpack = unpack, OF b u]
  from buf_consume_view [OF b(1) un(2)] b(2) obtain b' where
    b': "buf_consume b (length (proto_frame body)) = Some b'" "buf_view b' = rest" "buf_ok b'" by auto
  have "proto_parse unpack sid b q st = Some (True, b', ?q\<lparr>ptype := ptype p\<rparr>, st')"
    unfolding proto_parse_def un(1) Option.bind.bind_lunit prod.case
    using msg b'(1) by simp
  with b'(2,3) show ?thesis by (intro exI [of _ b'] exI [of _ st']) simp
qed

section \<open>Properties\<close>

text \<open>
  The protobuf parser is safe for every unpacking function and every buffer: it returns,
  stays inside the arrays, consumes at least one byte when it accepts and leaves packet and
  buffer alone when it rejects, and what it accepts is a header or passes the sanity check. No
  assertion on the scaling factors can fail, because a header with a zero factor is rejected.
\<close>

theorem proto_parse_safe:
  assumes "buf_ok b" and "packet_ready p" and "parser_state_ok st" and "is_c_str sid"
  shows "\<exists>ok b' p' st'. proto_parse unpack sid b p st = Some (ok, b', p', st') \<and>
    parse_result_ok b p (ok, b', p', st') \<and> (\<not> ok \<longrightarrow> p' = p)"
  by (rule proto_parse_total [OF assms])

theorem proto_parse_safe_witness:
  "\<exists>ok b' p' st'. proto_parse (\<lambda>v. None) sample_id BUF_INIT sample_empty parser_state_zero = Some (ok, b', p', st') \<and>
    parse_result_ok BUF_INIT sample_empty (ok, b', p', st') \<and> (\<not> ok \<longrightarrow> p' = sample_empty)"
  by (rule proto_parse_safe) (simp_all add: sample_empty_ready is_c_str_def sample_id_def)

text \<open>The message of the sample packet, encoded by a stand-in for the protobuf encoder.\<close>

definition sample_msg :: Adsb where
  "sample_msg = proto_msg (ptype sample_packet) (proto_packet_msg sample_packet)"

definition sample_pack :: pack_fn where
  "sample_pack ms = proto_frame [1, 2, 3]"

definition sample_unpack :: unpack_fn where
  "sample_unpack v = (if v = [1, 2, 3] then Some sample_msg else None)"

definition sample_header_state :: parser_state where
  "sample_header_state = parser_state_zero\<lparr>mlat_timestamp_mhz := 120, mlat_timestamp_max := PACKET_MLAT_MAX,
     rssi_max := PACKET_RSSI_MAX, have_header := True\<rparr>"

lemma sample_pack_length: "length (proto_frame [1, 2, 3]) = 5"
  by (simp add: proto_frame_def varint_bytes.simps)

lemma sample_proto_serialize:
  "\<exists>f. proto_serialize sample_pack sample_packet BUF_INIT = Some f \<and> buf_ok f \<and> buf_view f = proto_frame [1, 2, 3]"
proof -
  have "\<exists>f. proto_serialize sample_pack sample_packet BUF_INIT = Some f \<and> buf_ok f \<and>
      buf_view f = sample_pack [proto_msg (ptype sample_packet) (proto_packet_msg sample_packet)]"
    by (rule proto_serialize_spec [OF sample_packet_full buf_fresh_INIT])
      (simp_all add: sample_pack_def sample_pack_length BUF_LEN_MAX_def)
  then show ?thesis by (simp add: sample_pack_def)
qed

text \<open>
  C24. A packet one adsbus serializes and another, which has received the hello of an adsbus, parses is the
  same packet in type, payload, source id, timestamp and level; its hop count arrives modulo
  2^16. The receiver has the scaling of that hello (120 MHz, the largest counter, the largest level), its counter
  has not wrapped yet, and the timestamp is not below the one received last and below the largest counter: those are the timestamps
  that need no unwrapping, which is the subject of \<open>mlat_unwrap_exact\<close>. The library unpacks what it packed.
\<close>

theorem proto_roundtrip:
  assumes p: "packet_full p" and src: "source_id p = Some s" and q: "packet_ready q" "mlat_timestamp q = 0" "rssi q = 0"
    and f: "proto_serialize pack p BUF_INIT = Some f"
    and pk: "pack [proto_msg (ptype p) (proto_packet_msg p)] = proto_frame body"
      "length (proto_frame body) \<le> BUF_LEN_MAX"
    and u: "unpack body = Some (proto_msg (ptype p) (proto_packet_msg p))"
    and b: "buf_ok b" "buf_view b = buf_view f @ rest"
    and st: "have_header st" "mlat_timestamp_mhz st = 120" "mlat_timestamp_max st = PACKET_MLAT_MAX"
      "rssi_max st = PACKET_RSSI_MAX"
    and ms: "timestamp_generation (mlat_state st) = 0" "timestamp_last (mlat_state st) \<le> mlat_timestamp p"
      "mlat_timestamp p < PACKET_MLAT_MAX"
  shows "\<exists>b' st'. buf_view b' = rest \<and> buf_ok b' \<and>
    proto_parse unpack sid b q st = Some (True, b',
      q\<lparr>source_id := Some (c_strz (takeWhile (\<lambda>c. c \<noteq> 0) s)), ptype := ptype p,
        hops := ucast (ucast (hops p) :: u16), mlat_timestamp := mlat_timestamp p, rssi := rssi p,
        payload := take (packet_payload_len (ptype p)) (payload p) @
          drop (packet_payload_len (ptype p)) (payload q)\<rparr>, st')"
proof -
  have "0 < length (pack [proto_msg (ptype p) (proto_packet_msg p)])" by (simp add: pk(1) proto_frame_def)
  from proto_serialize_spec [where pack = pack, OF p buf_fresh_INIT this] pk f have "buf_view f = proto_frame body" by auto
  with b(2) have "buf_view b = proto_frame body @ rest" by simp
  from proto_parse_frame [where unpack = unpack, OF p src q b(1) this u st ms] show ?thesis .
qed

theorem proto_roundtrip_witness:
  "\<exists>f b' st'. proto_serialize sample_pack sample_packet BUF_INIT = Some f \<and> buf_view b' = [] \<and> buf_ok b' \<and>
    proto_parse sample_unpack sample_id f sample_empty sample_header_state = Some (True, b',
      sample_empty\<lparr>source_id := Some (c_strz (takeWhile (\<lambda>c. c \<noteq> 0) sample_id)), ptype := ptype sample_packet,
        hops := ucast (ucast (hops sample_packet) :: u16), mlat_timestamp := mlat_timestamp sample_packet,
        rssi := rssi sample_packet,
        payload := take (packet_payload_len (ptype sample_packet)) (payload sample_packet) @
          drop (packet_payload_len (ptype sample_packet)) (payload sample_empty)\<rparr>, st')"
proof -
  obtain f where f: "proto_serialize sample_pack sample_packet BUF_INIT = Some f" "buf_ok f"
    "buf_view f = proto_frame [1, 2, 3]" using sample_proto_serialize by blast
  have pk: "sample_pack [proto_msg (ptype sample_packet) (proto_packet_msg sample_packet)] = proto_frame [1, 2, 3]"
    "length (proto_frame [1, 2, 3]) \<le> BUF_LEN_MAX"
    by (simp_all add: sample_pack_def sample_pack_length BUF_LEN_MAX_def)
  have u: "sample_unpack [1, 2, 3] = Some (proto_msg (ptype sample_packet) (proto_packet_msg sample_packet))"
    by (simp add: sample_unpack_def sample_msg_def)
  have s: "source_id sample_packet = Some sample_id" and e: "mlat_timestamp sample_empty = 0" "rssi sample_empty = 0"
    by (simp_all add: sample_packet_def sample_empty_def)
  have v: "buf_view f = buf_view f @ []" by simp
  have st: "have_header sample_header_state" "mlat_timestamp_mhz sample_header_state = 120"
    "mlat_timestamp_max sample_header_state = PACKET_MLAT_MAX" "rssi_max sample_header_state = PACKET_RSSI_MAX"
    "timestamp_generation (mlat_state sample_header_state) = 0"
    "timestamp_last (mlat_state sample_header_state) \<le> mlat_timestamp sample_packet"
    "mlat_timestamp sample_packet < PACKET_MLAT_MAX"
    by (simp_all add: sample_header_state_def parser_state_zero_def sample_packet_def PACKET_MLAT_MAX_def INT64_MAX_def)
  from proto_roundtrip [where unpack = sample_unpack and sid = sample_id,
      OF sample_packet_full s sample_empty_ready e f(1) pk u f(2) v st] f(1)
  show ?thesis by blast
qed

text \<open>
  C25. Nothing but a header is accepted on a connection before a header was: an accepted message
  leaves the connection with a header, and if it had none before, the message was one with the
  right magic, usable scaling factors and the id of another server.
\<close>

theorem proto_header_first:
  assumes "is_c_str sid" and "proto_parse unpack sid b p st = Some (True, b', p', st')"
  shows "have_header st' \<and> (have_header st \<or>
    ptype p' = PACKET_TYPE_NONE \<and> (\<exists>body msg h. unpack body = Some msg \<and> msg_header msg = Some h \<and>
      proto_header_good sid h))"
  by (rule proto_parse_needs_header [OF assms])

theorem proto_header_first_witness:
  "\<exists>f b' p' st'. proto_parse sample_unpack sample_id f sample_empty sample_header_state = Some (True, b', p', st') \<and>
    have_header st' \<and> (have_header sample_header_state \<or> ptype p' = PACKET_TYPE_NONE \<and>
      (\<exists>body msg h. sample_unpack body = Some msg \<and> msg_header msg = Some h \<and> proto_header_good sample_id h))"
proof -
  obtain f where f: "buf_ok f" "buf_view f = proto_frame [1, 2, 3] @ []" using sample_proto_serialize by auto
  have s: "source_id sample_packet = Some sample_id" and e: "mlat_timestamp sample_empty = 0" "rssi sample_empty = 0"
    by (simp_all add: sample_packet_def sample_empty_def)
  have u: "sample_unpack [1, 2, 3] = Some (proto_msg (ptype sample_packet) (proto_packet_msg sample_packet))"
    by (simp add: sample_unpack_def sample_msg_def)
  have st: "have_header sample_header_state" "mlat_timestamp_mhz sample_header_state = 120"
    "mlat_timestamp_max sample_header_state = PACKET_MLAT_MAX" "rssi_max sample_header_state = PACKET_RSSI_MAX"
    "timestamp_generation (mlat_state sample_header_state) = 0"
    "timestamp_last (mlat_state sample_header_state) \<le> mlat_timestamp sample_packet"
    "mlat_timestamp sample_packet < PACKET_MLAT_MAX"
    by (simp_all add: sample_header_state_def parser_state_zero_def sample_packet_def PACKET_MLAT_MAX_def INT64_MAX_def)
  have c: "is_c_str sample_id" by (simp add: is_c_str_def sample_id_def)
  from proto_parse_frame [where unpack = sample_unpack and sid = sample_id,
      OF sample_packet_full s sample_empty_ready e f u st] obtain b' p' st' where
    r: "proto_parse sample_unpack sample_id f sample_empty sample_header_state = Some (True, b', p', st')" by blast
  from proto_header_first [OF c r] r show ?thesis by blast
qed

end
