(* ===== verification/Stats.thy ===== *)
theory Stats
  imports Json
begin

text \<open>
  Model of \<^verbatim>\<open>adsbus/stats.c\<close>: the pseudo-format that counts the packets offered to it and
  prints the counts as one JSON line whenever the total is a multiple of 1000. The clock and
  the JSON printer are parameters.
\<close>

record stats_state =
  total_count :: u64
  type_count :: "u64 list"
  start_sec :: int

definition NUM_TYPES :: nat where
  "NUM_TYPES = 4"

fun type_index :: "packet_type \<Rightarrow> nat" where
  "type_index PACKET_TYPE_NONE = 0"
| "type_index PACKET_TYPE_MODE_AC = 1"
| "type_index PACKET_TYPE_MODE_S_SHORT = 2"
| "type_index PACKET_TYPE_MODE_S_LONG = 3"

definition stats_init :: "int \<Rightarrow> stats_state" where
  "stats_init now = \<lparr>total_count = 0, type_count = replicate NUM_TYPES 0, start_sec = now\<rparr>"

text \<open>The members of \<^verbatim>\<open>packet_counts\<close>: every type but \<^verbatim>\<open>PACKET_TYPE_NONE\<close>. A count becomes a \<^verbatim>\<open>json_int_t\<close>.\<close>

definition stats_counts :: "stats_state \<Rightarrow> (u8 list \<times> json_val) list option" where
  "stats_counts ss = do {
     ac \<leftarrow> c_nth (type_count ss) 1;
     short \<leftarrow> c_nth (type_count ss) 2;
     long \<leftarrow> c_nth (type_count ss) 3;
     Some [(packet_type_names PACKET_TYPE_MODE_AC, JInteger (sint ac)),
           (packet_type_names PACKET_TYPE_MODE_S_SHORT, JInteger (sint short)),
           (packet_type_names PACKET_TYPE_MODE_S_LONG, JInteger (sint long))]
   }"

definition stats_serialize ::
    "json_dump_fn \<Rightarrow> int \<Rightarrow> packet option \<Rightarrow> buf \<Rightarrow> stats_state \<Rightarrow> (buf \<times> stats_state) option" where
  "stats_serialize dump now p b ss = do {
     ss \<leftarrow> (case p of
              None \<Rightarrow> Some ss
            | Some p \<Rightarrow> do {
                n \<leftarrow> c_nth (type_count ss) (type_index (ptype p));
                tc \<leftarrow> c_upd (type_count ss) (type_index (ptype p)) (n + 1);
                Some (ss\<lparr>total_count := total_count ss + 1, type_count := tc\<rparr>)
              });
     if total_count ss mod 1000 \<noteq> 0 then Some (b, ss)
     else do {
       counts \<leftarrow> stats_counts ss;
       b \<leftarrow> json_serialize_to_buf dump
              (JObject [(c_str ''uptime_seconds'', JInteger (now - start_sec ss)),
                        (c_str ''packet_counts'', JObject counts)]) b;
       Some (b, ss)
     }
   }"

section \<open>Counting\<close>

definition stats_ok :: "stats_state \<Rightarrow> bool" where
  "stats_ok ss \<longleftrightarrow> length (type_count ss) = NUM_TYPES"

lemma stats_ok_init [simp]: "stats_ok (stats_init now)"
  by (simp add: stats_ok_def stats_init_def)

lemma type_index_less: "type_index t < NUM_TYPES"
  by (cases t) (simp_all add: NUM_TYPES_def)

text \<open>The counters after one more packet.\<close>

definition stats_count :: "packet \<Rightarrow> stats_state \<Rightarrow> stats_state" where
  "stats_count p ss = ss\<lparr>total_count := total_count ss + 1,
     type_count := (type_count ss)[type_index (ptype p) := type_count ss ! type_index (ptype p) + 1]\<rparr>"

lemma stats_ok_count [simp]: "stats_ok ss \<Longrightarrow> stats_ok (stats_count p ss)"
  by (simp add: stats_ok_def stats_count_def)

text \<open>What the printer promises about the length of the statistics line.\<close>

definition stats_dump_ok :: "json_dump_fn \<Rightarrow> bool" where
  "stats_dump_ok dump \<longleftrightarrow> (\<forall>up a s l. length (concat (dump
     (JObject [(c_str ''uptime_seconds'', JInteger up), (c_str ''packet_counts'',
       JObject [(packet_type_names PACKET_TYPE_MODE_AC, JInteger (sint (a :: u64))),
         (packet_type_names PACKET_TYPE_MODE_S_SHORT, JInteger (sint (s :: u64))),
         (packet_type_names PACKET_TYPE_MODE_S_LONG, JInteger (sint (l :: u64)))])]))) < BUF_LEN_MAX)"

lemma stats_serialize_spec:
  assumes ok: "stats_ok ss" and dump: "stats_dump_ok dump" and b: "buf_fresh b"
  shows "\<exists>b'. stats_serialize dump now (Some p) b ss = Some (b', stats_count p ss) \<and> buf_ok b' \<and>
    (buf_view b' = [] \<longleftrightarrow> total_count (stats_count p ss) mod 1000 \<noteq> 0)"
proof -
  have idx: "type_index (ptype p) < length (type_count ss)"
    using ok type_index_less by (simp add: stats_ok_def)
  have ok': "stats_ok (stats_count p ss)" using ok by simp
  then obtain counts where counts: "stats_counts (stats_count p ss) = Some counts"
    and shape: "\<exists>a s l. counts = [(packet_type_names PACKET_TYPE_MODE_AC, JInteger (sint (a :: u64))),
           (packet_type_names PACKET_TYPE_MODE_S_SHORT, JInteger (sint (s :: u64))),
           (packet_type_names PACKET_TYPE_MODE_S_LONG, JInteger (sint (l :: u64)))]"
    by (auto simp: stats_counts_def c_nth_def stats_ok_def NUM_TYPES_def)
  let ?obj = "JObject [(c_str ''uptime_seconds'', JInteger (now - start_sec (stats_count p ss))),
      (c_str ''packet_counts'', JObject counts)]"
  have "length (concat (dump ?obj)) < BUF_LEN_MAX"
    using dump shape unfolding stats_dump_ok_def by blast
  with json_serialize_to_buf_spec [OF b, of dump ?obj] obtain b' where
    b': "json_serialize_to_buf dump ?obj b = Some b'" "buf_ok b'" "buf_view b' = concat (dump ?obj) @ [10]" by auto
  have count: "c_nth (type_count ss) (type_index (ptype p)) = Some (type_count ss ! type_index (ptype p))"
    "c_upd (type_count ss) (type_index (ptype p)) v = Some ((type_count ss)[type_index (ptype p) := v])" for v
    using idx by (simp_all add: c_nth_def c_upd_def)
  have eq: "stats_serialize dump now (Some p) b ss =
      (if total_count (stats_count p ss) mod 1000 \<noteq> 0 then Some (b, stats_count p ss)
       else Some (b', stats_count p ss))"
    using count counts b'(1) by (simp add: stats_serialize_def stats_count_def)
  have "buf_ok b" "buf_view b = []" using b by (simp_all add: buf_fresh_def buf_view_def)
  with b' show ?thesis unfolding eq by (cases "total_count (stats_count p ss) mod 1000 \<noteq> 0") auto
qed

text \<open>Counting a sequence of packets, and the consistency of the counters.\<close>

fun stats_run :: "packet list \<Rightarrow> stats_state \<Rightarrow> stats_state" where
  "stats_run [] ss = ss"
| "stats_run (p # ps) ss = stats_run ps (stats_count p ss)"

lemma stats_run_total: "total_count (stats_run ps ss) = total_count ss + of_nat (length ps)"
  by (induction ps arbitrary: ss) (simp_all add: stats_count_def algebra_simps)

lemma sum_list_update_word:
  fixes xs :: "'a::len word list"
  assumes "i < length xs"
  shows "sum_list (xs[i := xs ! i + v]) = sum_list xs + v"
  using assms by (induction xs arbitrary: i) (auto simp: nth_Cons algebra_simps split: nat.splits)

lemma stats_count_sum:
  assumes "stats_ok ss" and "sum_list (type_count ss) = total_count ss"
  shows "sum_list (type_count (stats_count p ss)) = total_count (stats_count p ss)"
  using assms type_index_less [of "ptype p"]
  by (simp add: stats_count_def stats_ok_def sum_list_update_word)

lemma stats_run_sum:
  assumes "stats_ok ss" and "sum_list (type_count ss) = total_count ss"
  shows "sum_list (type_count (stats_run ps ss)) = total_count (stats_run ps ss)"
  using assms
proof (induction ps arbitrary: ss)
  case (Cons p ps)
  from Cons.IH [OF stats_ok_count [OF Cons.prems(1)] stats_count_sum [OF Cons.prems]] show ?case by simp
qed simp

section \<open>Properties\<close>

text \<open>
  A packet offered to the statistics is counted once, in the total and under its type, and a
  line is printed exactly when the total reaches a multiple of 1000.
\<close>

theorem stats_counts_and_prints:
  assumes "stats_ok ss" and "stats_dump_ok dump" and "buf_fresh b"
  shows "\<exists>b'. stats_serialize dump now (Some p) b ss = Some (b', stats_count p ss) \<and> buf_ok b' \<and>
    (buf_view b' = [] \<longleftrightarrow> (total_count ss + 1) mod 1000 \<noteq> 0)"
  using stats_serialize_spec [OF assms] by (simp add: stats_count_def)

theorem stats_counts_and_prints_witness:
  "\<exists>b'. stats_serialize (\<lambda>obj. []) 0 (Some sample_packet) BUF_INIT (stats_init 0) =
      Some (b', stats_count sample_packet (stats_init 0)) \<and> buf_ok b' \<and>
    (buf_view b' = [] \<longleftrightarrow> (total_count (stats_init 0) + 1) mod 1000 \<noteq> 0)"
  by (rule stats_counts_and_prints) (simp_all add: stats_dump_ok_def BUF_LEN_MAX_def)

text \<open>
  After any sequence of packets the total is their number and the sum of the per-type counts
  (modulo 2^64).
\<close>

theorem stats_totals_agree:
  "total_count (stats_run ps (stats_init now)) = of_nat (length ps) \<and>
   sum_list (type_count (stats_run ps (stats_init now))) = total_count (stats_run ps (stats_init now))"
proof -
  have "sum_list (type_count (stats_init now)) = total_count (stats_init now)"
    by (simp add: stats_init_def NUM_TYPES_def numeral_eq_Suc)
  from stats_run_sum [OF stats_ok_init this] show ?thesis by (simp add: stats_run_total stats_init_def)
qed

end
