(* ===== verification/Send.thy ===== *)
theory Send
  imports Peer Raw Airspy Beast Json Proto Stats "HOL-Library.Multiset"
begin

text \<open>
  Model of \<^verbatim>\<open>adsbus/send.c\<close>: the table of output formats, the connections subscribed to each,
  and \<^verbatim>\<open>send_write\<close>, which offers every packet to every connection but the one it came from.
  The libraries and the system calls with a result are the fields of \<open>env\<close>; a call may depend
  on the number of calls made before it, which \<open>tick\<close> counts. What the program sends is
  recorded in \<open>trace\<close>.
\<close>

section \<open>The environment\<close>

record 'j env =
  env_server_id :: "u8 list"
  env_jansson :: "'j jansson"
  env_dump :: json_dump_fn
  env_unpack :: unpack_fn
  env_pack :: pack_fn
  env_entropy :: entropy
  env_read :: "nat \<Rightarrow> int \<Rightarrow> read_fn"
  env_write :: "nat \<Rightarrow> int \<Rightarrow> u8 list \<Rightarrow> int"
  env_clock :: "nat \<Rightarrow> int"

text \<open>
  What the program relies on: POSIX for \<^verbatim>\<open>read\<close>, and the documented sizes and positions of the two
  libraries. Nothing is assumed about \<^verbatim>\<open>write\<close> or about what is parsed.
\<close>

definition env_ok :: "'j env \<Rightarrow> bool" where
  "env_ok E \<longleftrightarrow> is_c_str (env_server_id E) \<and> jansson_ok (env_jansson E) \<and> json_dump_ok (env_dump E) \<and>
     stats_dump_ok (env_dump E) \<and> proto_pack_ok (env_pack E) \<and> (\<forall>n fd. read_ok (env_read E n fd))"

datatype out_event =
    Ev_packet packet
  | Ev_write int "u8 list" int
  | Ev_shutdown int

section \<open>State\<close>

text \<open>One outgoing connection; \<open>snd_addr\<close> is the identity of its allocation.\<close>

record send =
  snd_addr :: nat
  snd_peer :: peer
  snd_stat :: stat
  snd_on_close :: "peer_ref option"
  snd_id :: "u8 list"

text \<open>\<open>send_heads\<close> holds the list \<^verbatim>\<open>send_head\<close> of each entry of \<^verbatim>\<open>serializers\<close>, in table order.\<close>

record send_state = peer_state +
  send_heads :: "send list list"
  stats :: stats_state
  json_hello_buf :: buf
  proto_hello_buf :: buf
  rnd :: rand_state
  next_addr :: nat
  tick :: nat
  trace :: "out_event list"

section \<open>The table of formats\<close>

type_synonym counted_serializer_fn = "packet \<Rightarrow> buf \<Rightarrow> stats_state \<Rightarrow> (buf \<times> stats_state) option"

text \<open>A format that does not touch the statistics.\<close>

definition plain :: "serializer_fn \<Rightarrow> counted_serializer_fn" where
  "plain s p b ss = map_option (\<lambda>b. (b, ss)) (s p b)"

definition serializer_names :: "string list" where
  "serializer_names = [''airspy_adsb'', ''beast'', ''json'', ''proto'', ''raw'', ''stats'']"

definition serializers :: "'j env \<Rightarrow> int \<Rightarrow> counted_serializer_fn list" where
  "serializers E now =
     [plain airspy_adsb_serialize,
      plain beast_serialize,
      plain (json_serialize (env_dump E)),
      plain (proto_serialize (env_pack E)),
      plain raw_serialize,
      (\<lambda>p. stats_serialize (env_dump E) now (Some p))]"

definition NUM_SERIALIZERS :: nat where
  "NUM_SERIALIZERS = 6"

text \<open>\<^verbatim>\<open>strcasecmp\<close> on ASCII.\<close>

definition ascii_lower :: "char \<Rightarrow> char" where
  "ascii_lower c = (let n = of_char c :: nat in if 65 \<le> n \<and> n \<le> 90 then char_of (n + 32) else c)"

fun send_get_serializer_loop :: "nat \<Rightarrow> string list \<Rightarrow> string \<Rightarrow> nat option" where
  "send_get_serializer_loop i [] name = None"
| "send_get_serializer_loop i (s # ss) name =
     (if map ascii_lower s = map ascii_lower name then Some i else send_get_serializer_loop (i + 1) ss name)"

definition send_get_serializer :: "string \<Rightarrow> nat option" where
  "send_get_serializer name = send_get_serializer_loop 0 serializer_names name"

text \<open>\<^verbatim>\<open>send_get_hello\<close>: the buffer the pointer is redirected to, if the format has one.\<close>

definition send_get_hello :: "buf \<Rightarrow> nat \<Rightarrow> 'a send_state_scheme \<Rightarrow> buf" where
  "send_get_hello b i w = (if i = 2 then json_hello_buf w else if i = 3 then proto_hello_buf w else b)"

section \<open>Connections\<close>

definition send_init :: "'a send_state_scheme \<Rightarrow> 'a send_state_scheme" where
  "send_init w = w\<lparr>send_heads := replicate NUM_SERIALIZERS []\<rparr>"

definition send_new ::
    "'j env \<Rightarrow> int \<Rightarrow> nat \<Rightarrow> peer_ref option \<Rightarrow> 'a send_state_scheme \<Rightarrow> 'a send_state_scheme option" where
  "send_new E fd i on_close w = do {
     let w = w\<lparr>peer_count_out := peer_count_out w + 1\<rparr>;
     let a = next_addr w;
     let w = w\<lparr>next_addr := a + 1\<rparr>;
     (uid, rs) \<leftarrow> uuid_gen (env_entropy E) (rnd w) (replicate UUID_LEN 0);
     let w = w\<lparr>rnd := rs\<rparr>;
     info \<leftarrow> fds w fd;
     let s = \<lparr>snd_addr = a, snd_peer = \<lparr>peer_fd = fd, peer_always_trigger = False\<rparr>,
              snd_stat = fd_stat info, snd_on_close = on_close, snd_id = uid\<rparr>;
     (p, w) \<leftarrow> peer_epoll_add (Peer_send a) (snd_peer s) False w;
     head \<leftarrow> c_nth (send_heads w) i;
     heads \<leftarrow> c_upd (send_heads w) i (head @ [s\<lparr>snd_peer := p\<rparr>]);
     Some (w\<lparr>send_heads := heads\<rparr>)
   }"

definition send_del ::
    "(peer_ref \<Rightarrow> 'a send_state_scheme \<Rightarrow> 'a send_state_scheme option) \<Rightarrow>
      send \<Rightarrow> 'a send_state_scheme \<Rightarrow> 'a send_state_scheme option" where
  "send_del call s w = do {
     let w = w\<lparr>peer_count_out := peer_count_out w - 1\<rparr>;
     (p, w) \<leftarrow> peer_close (Peer_send (snd_addr s)) (snd_peer s) w;
     let w = w\<lparr>send_heads := map (filter (\<lambda>t. snd_addr t \<noteq> snd_addr s)) (send_heads w)\<rparr>;
     peer_call call (snd_on_close s) w
   }"

text \<open>The event handler: epoll only reports errors and hang-ups of a send connection.\<close>

definition send_del_wrapper ::
    "(peer_ref \<Rightarrow> 'a send_state_scheme \<Rightarrow> 'a send_state_scheme option) \<Rightarrow>
      nat \<Rightarrow> 'a send_state_scheme \<Rightarrow> 'a send_state_scheme option" where
  "send_del_wrapper call a w =
     (case find (\<lambda>s. snd_addr s = a) (concat (send_heads w)) of
        None \<Rightarrow> None
      | Some s \<Rightarrow> send_del call s w)"

fun send_del_all ::
    "(peer_ref \<Rightarrow> 'a send_state_scheme \<Rightarrow> 'a send_state_scheme option) \<Rightarrow>
      send list \<Rightarrow> 'a send_state_scheme \<Rightarrow> 'a send_state_scheme option" where
  "send_del_all call [] w = Some w"
| "send_del_all call (s # ss) w = do {
     w \<leftarrow> send_del call s w;
     send_del_all call ss w
   }"

definition send_cleanup ::
    "(peer_ref \<Rightarrow> 'a send_state_scheme \<Rightarrow> 'a send_state_scheme option) \<Rightarrow>
      'a send_state_scheme \<Rightarrow> 'a send_state_scheme option" where
  "send_cleanup call w = send_del_all call (concat (send_heads w)) w"

section \<open>Distributing a packet\<close>

text \<open>The loop over the connections of one format. Only counter and trace change.\<close>

fun send_write_loop ::
    "'j env \<Rightarrow> packet \<Rightarrow> u8 list \<Rightarrow> send list \<Rightarrow> 'a send_state_scheme \<Rightarrow> 'a send_state_scheme" where
  "send_write_loop E p bytes [] w = w"
| "send_write_loop E p bytes (s # ss) w =
     (if st_dev (snd_stat s) = st_dev (input_stat p) \<and> st_ino (snd_stat s) = st_ino (input_stat p)
      then send_write_loop E p bytes ss w
      else
        (let fd = peer_fd (snd_peer s);
             n = env_write E (tick w) fd bytes;
             w = w\<lparr>tick := tick w + 1, trace := trace w @ [Ev_write fd bytes n]\<rparr>;
             w = (if n \<noteq> int (length bytes) then w\<lparr>trace := trace w @ [Ev_shutdown fd]\<rparr> else w)
         in send_write_loop E p bytes ss w))"

fun send_write_formats ::
    "'j env \<Rightarrow> packet \<Rightarrow> nat list \<Rightarrow> 'a send_state_scheme \<Rightarrow> 'a send_state_scheme option" where
  "send_write_formats E p [] w = Some w"
| "send_write_formats E p (i # is) w = do {
     head \<leftarrow> c_nth (send_heads w) i;
     if head = [] then send_write_formats E p is w
     else do {
       serialize \<leftarrow> c_nth (serializers E (env_clock E (tick w))) i;
       (b, ss) \<leftarrow> serialize p BUF_INIT (stats w);
       let w = w\<lparr>stats := ss\<rparr>;
       if buf_length b = 0 then send_write_formats E p is w
       else do {
         bytes \<leftarrow> buf_get b 0 (buf_length b);
         send_write_formats E p is (send_write_loop E p bytes head w)
       }
     }
   }"

definition send_write :: "'j env \<Rightarrow> packet \<Rightarrow> 'a send_state_scheme \<Rightarrow> 'a send_state_scheme option" where
  "send_write E p w = do {
     packet_sanity_check p;
     send_write_formats E p [0..<NUM_SERIALIZERS] (w\<lparr>trace := trace w @ [Ev_packet p]\<rparr>)
   }"

section \<open>The formats keep their contract\<close>

text \<open>The contract of a table entry: a serializer that may also update the statistics.\<close>

locale counted_serializer =
  fixes serialize :: counted_serializer_fn
  assumes counted_returns:
    "packet_full p \<Longrightarrow> buf_fresh b \<Longrightarrow> stats_ok ss \<Longrightarrow>
      \<exists>b' ss'. serialize p b ss = Some (b', ss') \<and> buf_ok b' \<and> stats_ok ss'"
begin

lemma counted_view:
  assumes "packet_full p" and "stats_ok ss"
  obtains b' ss' where "serialize p BUF_INIT ss = Some (b', ss')" and "buf_ok b'" and "stats_ok ss'"
    and "buf_get b' 0 (buf_length b') = Some (buf_view b')" and "length (buf_view b') = buf_length b'"
proof -
  from counted_returns [OF assms(1) buf_fresh_INIT assms(2)] obtain b' ss' where
    r: "serialize p BUF_INIT ss = Some (b', ss')" "buf_ok b'" "stats_ok ss'" by blast
  moreover from r(2) have "buf_get b' 0 (buf_length b') = Some (buf_view b')" by (simp add: buf_get_view)
  moreover from r(2) have "length (buf_view b') = buf_length b'" by simp
  ultimately show thesis by (rule that)
qed

end

text \<open>Every plain serializer is one.\<close>

sublocale serializer_contract \<subseteq> counted: counted_serializer "plain serialize"
proof
  fix p :: packet and b and ss :: stats_state
  assume "packet_full p" and "buf_fresh b" and "stats_ok ss"
  then show "\<exists>b' ss'. plain serialize p b ss = Some (b', ss') \<and> buf_ok b' \<and> stats_ok ss'"
    using serialize_returns [of p b] by (auto simp: plain_def)
qed

context serializer_contract
begin

lemma plain_counted: "counted_serializer (plain serialize)"
  by (rule counted.counted_serializer_axioms)

end

lemma stats_counted: "stats_dump_ok dump \<Longrightarrow> counted_serializer (\<lambda>p. stats_serialize dump now (Some p))"
proof
  fix p b and ss :: stats_state
  assume dump: "stats_dump_ok dump" and p: "packet_full p" and b: "buf_fresh b" and ss: "stats_ok ss"
  from stats_serialize_spec [OF ss dump b] obtain b' where
    r: "stats_serialize dump now (Some p) b ss = Some (b', stats_count p ss)" "buf_ok b'" by blast
  from ss have "stats_ok (stats_count p ss)" by simp
  with r show "\<exists>b' ss'. stats_serialize dump now (Some p) b ss = Some (b', ss') \<and> buf_ok b' \<and> stats_ok ss'"
    by blast
qed

lemma serializers_contract:
  assumes E: "env_ok E" and i: "i < NUM_SERIALIZERS"
  shows "\<exists>s. c_nth (serializers E now) i = Some s \<and> counted_serializer s"
proof -
  have s: "stats_dump_ok (env_dump E)" "json_dump_ok (env_dump E)" "proto_pack_ok (env_pack E)"
    using E by (simp_all add: env_ok_def)
  have all: "\<forall>s \<in> set (serializers E now). counted_serializer s"
    using airspy.plain_counted beast.plain_counted raw.plain_counted stats_counted [OF s(1)]
      serializer_contract.plain_counted [OF json_serializer_contract [OF s(2)]]
      serializer_contract.plain_counted [OF proto_serializer_contract [OF s(3)]]
    by (simp add: serializers_def)
  have len: "length (serializers E now) = NUM_SERIALIZERS" by (simp add: serializers_def NUM_SERIALIZERS_def)
  show ?thesis using i all by (auto simp: c_nth_def len)
qed

section \<open>Distribution\<close>

text \<open>What one connection gets, and what the connections of one format get.\<close>

definition same_file :: "stat \<Rightarrow> stat \<Rightarrow> bool" where
  "same_file a b \<longleftrightarrow> st_dev a = st_dev b \<and> st_ino a = st_ino b"

definition send_targets :: "packet \<Rightarrow> send list \<Rightarrow> send list" where
  "send_targets p ss = filter (\<lambda>s. \<not> same_file (snd_stat s) (input_stat p)) ss"

fun writes_of :: "out_event list \<Rightarrow> (int \<times> u8 list) list" where
  "writes_of [] = []"
| "writes_of (Ev_write fd bytes n # es) = (fd, bytes) # writes_of es"
| "writes_of (Ev_packet p # es) = writes_of es"
| "writes_of (Ev_shutdown fd # es) = writes_of es"

lemma writes_of_append [simp]: "writes_of (es @ fs) = writes_of es @ writes_of fs"
  by (induction es rule: writes_of.induct) simp_all

text \<open>What \<^verbatim>\<open>send_write\<close> may change: nothing but the statistics, the call counter and the trace.\<close>

definition only_output :: "'a send_state_scheme \<Rightarrow> 'a send_state_scheme \<Rightarrow> bool" where
  "only_output w w' \<longleftrightarrow> (\<exists>ss n tr. w' = w\<lparr>stats := ss, tick := n, trace := tr\<rparr>)"

lemma only_output_refl [simp]: "only_output w w"
proof -
  have "w = w\<lparr>stats := stats w, tick := tick w, trace := trace w\<rparr>" by simp
  then show ?thesis unfolding only_output_def by blast
qed

lemma only_output_trans: "only_output u v \<Longrightarrow> only_output v w \<Longrightarrow> only_output u w"
  by (auto simp: only_output_def) blast

lemma only_output_stats [simp]: "only_output w (w\<lparr>stats := ss\<rparr>)"
  and only_output_trace [simp]: "only_output w (w\<lparr>trace := tr\<rparr>)"
  and only_output_tick [simp]: "only_output w (w\<lparr>tick := n, trace := tr\<rparr>)"
proof -
  have e: "w\<lparr>stats := ss\<rparr> = w\<lparr>stats := ss, tick := tick w, trace := trace w\<rparr>"
    "w\<lparr>trace := tr\<rparr> = w\<lparr>stats := stats w, tick := tick w, trace := tr\<rparr>"
    "w\<lparr>tick := n, trace := tr\<rparr> = w\<lparr>stats := stats w, tick := n, trace := tr\<rparr>" by simp_all
  show "only_output w (w\<lparr>stats := ss\<rparr>)" "only_output w (w\<lparr>trace := tr\<rparr>)"
    "only_output w (w\<lparr>tick := n, trace := tr\<rparr>)"
    unfolding only_output_def by (metis e(1), metis e(2), metis e(3))
qed

lemma only_output_heads: "only_output w w' \<Longrightarrow> send_heads w' = send_heads w"
  by (auto simp: only_output_def)

text \<open>
  The events of one distribution: writes, and a short or failed write, and nothing else, is
  followed by shutting the connection down.
\<close>

fun shut_ok :: "out_event list \<Rightarrow> bool" where
  "shut_ok [] = True"
| "shut_ok (Ev_packet p # es) = False"
| "shut_ok (Ev_shutdown fd # es) = False"
| "shut_ok (Ev_write fd bytes n # es) =
     (if n = int (length bytes) then shut_ok es
      else (case es of Ev_shutdown g # es' \<Rightarrow> g = fd \<and> shut_ok es' | _ \<Rightarrow> False))"

lemma shut_ok_append: "shut_ok es \<Longrightarrow> shut_ok fs \<Longrightarrow> shut_ok (es @ fs)"
  by (induction es rule: shut_ok.induct) (auto split: list.splits out_event.splits if_splits)

definition send_deliver :: "u8 list \<Rightarrow> packet \<Rightarrow> send list \<Rightarrow> (int \<times> u8 list) list" where
  "send_deliver bytes p ss =
     (if bytes = [] then [] else map (\<lambda>s. (peer_fd (snd_peer s), bytes)) (send_targets p ss))"

lemma send_write_loop_spec:
  assumes "bytes \<noteq> []"
  shows "\<exists>es. trace (send_write_loop E p bytes ss w) = trace w @ es \<and> shut_ok es \<and>
    writes_of es = send_deliver bytes p ss \<and> only_output w (send_write_loop E p bytes ss w) \<and>
    stats (send_write_loop E p bytes ss w) = stats w"
proof (induction ss arbitrary: w)
  case Nil
  then show ?case by (simp add: send_deliver_def send_targets_def)
next
  case (Cons s ss)
  show ?case
  proof (cases "same_file (snd_stat s) (input_stat p)")
    case True
    then have "send_write_loop E p bytes (s # ss) w = send_write_loop E p bytes ss w"
      "send_deliver bytes p (s # ss) = send_deliver bytes p ss"
      by (simp_all add: same_file_def send_deliver_def send_targets_def)
    with Cons.IH [of w] show ?thesis by simp
  next
    case False
    define fd where "fd = peer_fd (snd_peer s)"
    define n where "n = env_write E (tick w) fd bytes"
    define new where "new = Ev_write fd bytes n # (if n = int (length bytes) then [] else [Ev_shutdown fd])"
    define w1 where "w1 = w\<lparr>tick := tick w + 1, trace := trace w @ new\<rparr>"
    have step: "send_write_loop E p bytes (s # ss) w = send_write_loop E p bytes ss w1"
      using False by (auto simp: same_file_def w1_def new_def n_def fd_def Let_def)
    have del: "send_deliver bytes p (s # ss) = (fd, bytes) # send_deliver bytes p ss"
      using False assms by (simp add: send_deliver_def send_targets_def fd_def)
    from Cons.IH [of w1] obtain es where es: "trace (send_write_loop E p bytes ss w1) = trace w1 @ es"
      "shut_ok es" "writes_of es = send_deliver bytes p ss" "only_output w1 (send_write_loop E p bytes ss w1)"
      "stats (send_write_loop E p bytes ss w1) = stats w1" by blast
    have "shut_ok new" "writes_of new = [(fd, bytes)]" by (simp_all add: new_def)
    moreover have "only_output w w1" "stats w1 = stats w" "trace w1 = trace w @ new" by (simp_all add: w1_def)
    ultimately show ?thesis
      unfolding step del using es shut_ok_append [of new es] only_output_trans [of w w1]
      by (intro exI [of _ "new @ es"]) simp
  qed
qed

text \<open>The frame of a packet in one of the five plain formats.\<close>

definition plain_frame :: "'j env \<Rightarrow> packet \<Rightarrow> nat \<Rightarrow> u8 list" where
  "plain_frame E p i = (case (serializers E 0 ! i) p BUF_INIT (stats_init 0) of
     None \<Rightarrow> [] | Some (b, ss) \<Rightarrow> buf_view b)"

lemma plain_frame:
  assumes "i < 5" and "c_nth (serializers E now) i = Some s" and "s p BUF_INIT ss = Some (b, ss')"
  shows "plain_frame E p i = buf_view b" and "ss' = ss"
proof -
  have "i = 0 \<or> i = 1 \<or> i = 2 \<or> i = 3 \<or> i = 4" using assms(1) by linarith
  then show "plain_frame E p i = buf_view b" "ss' = ss"
    using assms(2,3) by (elim disjE; auto simp: serializers_def c_nth_def plain_def plain_frame_def)+
qed

lemma send_write_formats_spec:
  assumes E: "env_ok E" and p: "packet_full p" and "stats_ok (stats w)"
    and "length (send_heads w) = NUM_SERIALIZERS" and "\<forall>i \<in> set is. i < NUM_SERIALIZERS"
  shows "\<exists>w' es frames. send_write_formats E p is w = Some w' \<and> only_output w w' \<and> stats_ok (stats w') \<and>
    trace w' = trace w @ es \<and> shut_ok es \<and> length frames = length is \<and>
    (\<forall>k < length is. is ! k < 5 \<longrightarrow> frames ! k = plain_frame E p (is ! k)) \<and>
    writes_of es = concat (map2 (\<lambda>i bs. send_deliver bs p (send_heads w ! i)) is frames)"
  using assms(3-5)
proof (induction "is" arbitrary: w)
  case Nil
  then show ?case by simp
next
  case (Cons i "is")
  have i: "i < NUM_SERIALIZERS" using Cons.prems(3) by simp
  then have head: "c_nth (send_heads w) i = Some (send_heads w ! i)" using Cons.prems(2) by (simp add: c_nth_def)
  have go: ?case
    if step: "send_write_formats E p (i # is) w = send_write_formats E p is w1"
      and w1: "only_output w w1" "stats_ok (stats w1)" "trace w1 = trace w @ new" "shut_ok new"
      and wr: "writes_of new = send_deliver bs p (send_heads w ! i)"
      and fr: "i < 5 \<longrightarrow> bs = plain_frame E p i" for w1 new bs
  proof -
    have h: "send_heads w1 = send_heads w" using only_output_heads [OF w1(1)] .
    from Cons.IH [OF w1(2)] Cons.prems(2,3) h obtain w' es frames where
      r: "send_write_formats E p is w1 = Some w'" "only_output w1 w'" "stats_ok (stats w')"
        "trace w' = trace w1 @ es" "shut_ok es" "length frames = length is"
        "\<forall>k < length is. is ! k < 5 \<longrightarrow> frames ! k = plain_frame E p (is ! k)"
        "writes_of es = concat (map2 (\<lambda>i bs. send_deliver bs p (send_heads w ! i)) is frames)" by auto
    have "\<forall>k < length (i # is). (i # is) ! k < 5 \<longrightarrow> (bs # frames) ! k = plain_frame E p ((i # is) ! k)"
      using r(7) fr by (auto simp: less_Suc_eq_0_disj)
    then show ?thesis
      unfolding step using r w1 wr shut_ok_append [of new es] only_output_trans [OF w1(1) r(2)]
      by (intro exI [of _ w'] exI [of _ "new @ es"] exI [of _ "bs # frames"]) simp
  qed
  show ?case
  proof (cases "send_heads w ! i = []")
    case True
    then have "send_deliver (plain_frame E p i) p (send_heads w ! i) = []"
      by (simp add: send_deliver_def send_targets_def)
    with True head Cons.prems(1) show ?thesis by (intro go [of w "[]" "plain_frame E p i"]) simp_all
  next
    case False
    obtain s where s: "c_nth (serializers E (env_clock E (tick w))) i = Some s" "counted_serializer s"
      using serializers_contract [OF E i] by blast
    from counted_serializer.counted_view [OF s(2) p Cons.prems(1)] obtain b ss where
      r: "s p BUF_INIT (stats w) = Some (b, ss)" "buf_ok b" "stats_ok ss"
        "buf_get b 0 (buf_length b) = Some (buf_view b)" "length (buf_view b) = buf_length b" by metis
    have fr: "i < 5 \<longrightarrow> buf_view b = plain_frame E p i" using plain_frame(1) [OF _ s(1) r(1)] by simp
    show ?thesis
    proof (cases "buf_length b = 0")
      case True
      then have "buf_view b = []" using r(5) by simp
      with True head False s(1) r fr show ?thesis
        by (intro go [of "w\<lparr>stats := ss\<rparr>" "[]" "buf_view b"]) (simp_all add: send_deliver_def)
    next
      case nz: False
      then have ne: "buf_view b \<noteq> []" using r(5) by auto
      let ?w = "send_write_loop E p (buf_view b) (send_heads w ! i) (w\<lparr>stats := ss\<rparr>)"
      from send_write_loop_spec [OF ne, of E p "send_heads w ! i" "w\<lparr>stats := ss\<rparr>"] obtain es where
        l: "trace ?w = trace w @ es" "shut_ok es" "writes_of es = send_deliver (buf_view b) p (send_heads w ! i)"
          "only_output (w\<lparr>stats := ss\<rparr>) ?w" "stats ?w = ss" by auto
      have "only_output w ?w" using only_output_trans [OF only_output_stats l(4)] .
      with nz head False s(1) r fr l show ?thesis
        by (intro go [of ?w es "buf_view b"]) simp_all
    qed
  qed
qed

lemma send_write_spec:
  assumes E: "env_ok E" and p: "packet_full p" and ss: "stats_ok (stats w)"
    and h: "length (send_heads w) = NUM_SERIALIZERS"
  shows "\<exists>w' es frames. send_write E p w = Some w' \<and> only_output w w' \<and> stats_ok (stats w') \<and>
    trace w' = trace w @ Ev_packet p # es \<and> shut_ok es \<and> length frames = NUM_SERIALIZERS \<and>
    (\<forall>i < 5. frames ! i = plain_frame E p i) \<and>
    writes_of es = concat (map2 (\<lambda>i bs. send_deliver bs p (send_heads w ! i)) [0..<NUM_SERIALIZERS] frames)"
proof -
  let ?w = "w\<lparr>trace := trace w @ [Ev_packet p]\<rparr>"
  have "packet_sanity_check p = Some ()" using p by (simp add: packet_sanity_check_iff packet_full_def)
  then have eq: "send_write E p w = send_write_formats E p [0..<NUM_SERIALIZERS] ?w" by (simp add: send_write_def)
  have "stats_ok (stats ?w)" "length (send_heads ?w) = NUM_SERIALIZERS"
    "\<forall>i \<in> set [0..<NUM_SERIALIZERS]. i < NUM_SERIALIZERS" using ss h by simp_all
  from send_write_formats_spec [OF E p this] obtain w' es frames where
    r: "send_write_formats E p [0..<NUM_SERIALIZERS] ?w = Some w'" "only_output ?w w'" "stats_ok (stats w')"
      "trace w' = trace ?w @ es" "shut_ok es" "length frames = length [0..<NUM_SERIALIZERS]"
      "\<forall>k < length [0..<NUM_SERIALIZERS]. [0..<NUM_SERIALIZERS] ! k < 5 \<longrightarrow>
         frames ! k = plain_frame E p ([0..<NUM_SERIALIZERS] ! k)"
      "writes_of es = concat (map2 (\<lambda>i bs. send_deliver bs p (send_heads ?w ! i)) [0..<NUM_SERIALIZERS] frames)"
    by blast
  have "frames ! i = plain_frame E p i" if "i < 5" for i
    using r(7) that by (auto simp: NUM_SERIALIZERS_def)
  with r show ?thesis
    unfolding eq using only_output_trans [OF only_output_trace r(2)]
    by (intro exI [of _ w'] exI [of _ es] exI [of _ frames]) simp
qed

lemma send_write_insane: "\<not> packet_sane p \<Longrightarrow> send_write E p w = None"
proof -
  assume "\<not> packet_sane p"
  then have "packet_sanity_check p \<noteq> Some ()" by (simp add: packet_sanity_check_iff)
  then have "packet_sanity_check p = None" by (cases "packet_sanity_check p") auto
  then show ?thesis by (simp add: send_write_def)
qed

section \<open>Opening and closing connections\<close>

text \<open>
  Every connection in the lists is registered under its own descriptor, and no two share an
  address or a descriptor.
\<close>

definition all_sends :: "'a send_state_scheme \<Rightarrow> send list" where
  "all_sends w = concat (send_heads w)"

definition snd_fd :: "send \<Rightarrow> int" where
  "snd_fd s = peer_fd (snd_peer s)"

definition send_ok :: "'a send_state_scheme \<Rightarrow> bool" where
  "send_ok w \<longleftrightarrow> peer_state_ok w \<and> length (send_heads w) = NUM_SERIALIZERS \<and>
     distinct (map snd_addr (all_sends w)) \<and> distinct (map snd_fd (all_sends w)) \<and>
     (\<forall>s \<in> set (all_sends w). snd_addr s < next_addr w \<and> valid_id (snd_id s) \<and>
        peer_registered (Peer_send (snd_addr s)) (snd_peer s) w \<and>
        (\<forall>i. fds w (snd_fd s) = Some i \<longrightarrow> snd_stat s = fd_stat i)) \<and>
     (\<forall>a. Peer_send a \<notin> set (peer_always_trigger_head w)) \<and>
     rand_ok (rnd w) \<and> stats_ok (stats w)"

text \<open>A descriptor that was just handed over: open, not used by a connection, not registered.\<close>

definition fd_fresh :: "int \<Rightarrow> 'a send_state_scheme \<Rightarrow> bool" where
  "fd_fresh fd w \<longleftrightarrow> fd \<noteq> -1 \<and> fds w fd \<noteq> None \<and> epoll_set w fd = None \<and> fd \<notin> snd_fd ` set (all_sends w)"

lemma concat_update_append:
  assumes "i < length xss"
  shows "mset (concat (xss[i := xss ! i @ [x]])) = add_mset x (mset (concat xss))"
  using assms by (induction xss arbitrary: i) (auto simp: nth_Cons split: nat.splits)

lemma distinct_map_add:
  assumes "mset ys = add_mset x (mset xs)"
  shows "distinct (map f ys) \<longleftrightarrow> f x \<notin> f ` set xs \<and> distinct (map f xs)" and "set ys = insert x (set xs)"
proof -
  have "mset (map f ys) = mset (f x # map f xs)" using assms by simp
  from mset_eq_imp_distinct_iff [OF this]
  show "distinct (map f ys) \<longleftrightarrow> f x \<notin> f ` set xs \<and> distinct (map f xs)" by simp
  have "set_mset (mset ys) = set_mset (add_mset x (mset xs))" using assms by simp
  then show "set ys = insert x (set xs)" by simp
qed

lemma concat_filter: "concat (map (filter P) xss) = filter P (concat xss)"
  by (induction xss) auto

lemma filter_distinct_addr:
  assumes "distinct (map f xs)" and "s \<in> set xs"
  shows "length (filter (\<lambda>t. f t \<noteq> f s) xs) = length xs - 1" "set (filter (\<lambda>t. f t \<noteq> f s) xs) = set xs - {s}"
proof -
  from assms(2) obtain us vs where xs: "xs = us @ s # vs" by (auto simp: in_set_conv_decomp)
  then have "filter (\<lambda>t. f t \<noteq> f s) us = us" "filter (\<lambda>t. f t \<noteq> f s) vs = vs"
    using assms(1) by (auto simp: filter_id_conv image_iff)
  with xs show "length (filter (\<lambda>t. f t \<noteq> f s) xs) = length xs - 1" by simp
  show "set (filter (\<lambda>t. f t \<noteq> f s) xs) = set xs - {s}"
    using assms by (auto simp: distinct_map inj_on_def)
qed

lemma send_new_eq:
  assumes ok: "send_ok w" and fd: "fd_fresh fd w" and i: "i < NUM_SERIALIZERS"
  shows "\<exists>uid rs info p. valid_id uid \<and> rand_ok rs \<and> fds w fd = Some info \<and> peer_fd p = fd \<and>
    send_new E fd i on_close w =
      (let s = \<lparr>snd_addr = next_addr w, snd_peer = p, snd_stat = fd_stat info, snd_on_close = on_close, snd_id = uid\<rparr>
       in Some (w\<lparr>peer_count_out := peer_count_out w + 1, next_addr := next_addr w + 1, rnd := rs,
            epoll_set := (if fd_pollable info then (epoll_set w)(fd \<mapsto> Peer_send (next_addr w)) else epoll_set w),
            send_heads := (send_heads w)[i := send_heads w ! i @ [s]]\<rparr>)) \<and>
    \<not> peer_always_trigger p"
proof -
  obtain info where info: "fds w fd = Some info" "epoll_set w fd = None" using fd by (auto simp: fd_fresh_def)
  have r: "rand_ok (rnd w)" using ok by (simp add: send_ok_def)
  obtain uid rs where u: "uuid_gen (env_entropy E) (rnd w) (replicate UUID_LEN 0) = Some (uid, rs)" "rand_ok rs"
    "valid_id uid"
    using uuid_gen_valid [OF r, of "replicate UUID_LEN 0" "env_entropy E"] by (auto simp: UUID_LEN_def)
  have h: "c_nth (send_heads w) i = Some (send_heads w ! i)" "i < length (send_heads w)"
    using ok i by (auto simp: send_ok_def c_nth_def)
  show ?thesis
    using info u h
    by (intro exI [of _ uid] exI [of _ rs] exI [of _ info] exI [of _ "\<lparr>peer_fd = fd, peer_always_trigger = False\<rparr>"])
      (simp add: send_new_def Let_def peer_epoll_add_def epoll_ctl_add_def c_upd_def c_nth_def)
qed

lemma send_new_spec:
  assumes ok: "send_ok w" and fd: "fd_fresh fd w" and i: "i < NUM_SERIALIZERS"
  shows "\<exists>w' s. send_new E fd i on_close w = Some w' \<and> send_ok w' \<and> snd_fd s = fd \<and> snd_on_close s = on_close \<and>
    snd_addr s = next_addr w \<and> send_heads w' = (send_heads w)[i := send_heads w ! i @ [s]] \<and>
    peer_count_out w' = peer_count_out w + 1 \<and> peer_count_in w' = peer_count_in w \<and>
    peer_count_out_in w' = peer_count_out_in w \<and> fds w' = fds w \<and>
    peer_always_trigger_head w' = peer_always_trigger_head w \<and> trace w' = trace w"
proof -
  from send_new_eq [OF ok fd i] obtain uid rs info p where
    r: "valid_id uid" "rand_ok rs" "fds w fd = Some info" "peer_fd p = fd" "\<not> peer_always_trigger p"
    and eq: "send_new E fd i on_close w =
      (let s = \<lparr>snd_addr = next_addr w, snd_peer = p, snd_stat = fd_stat info, snd_on_close = on_close, snd_id = uid\<rparr>
       in Some (w\<lparr>peer_count_out := peer_count_out w + 1, next_addr := next_addr w + 1, rnd := rs,
            epoll_set := (if fd_pollable info then (epoll_set w)(fd \<mapsto> Peer_send (next_addr w)) else epoll_set w),
            send_heads := (send_heads w)[i := send_heads w ! i @ [s]]\<rparr>))" by blast
  define s where "s = \<lparr>snd_addr = next_addr w, snd_peer = p, snd_stat = fd_stat info, snd_on_close = on_close, snd_id = uid\<rparr>"
  define w' where "w' = w\<lparr>peer_count_out := peer_count_out w + 1, next_addr := next_addr w + 1, rnd := rs,
      epoll_set := (if fd_pollable info then (epoll_set w)(fd \<mapsto> Peer_send (next_addr w)) else epoll_set w),
      send_heads := (send_heads w)[i := send_heads w ! i @ [s]]\<rparr>"
  have new: "send_new E fd i on_close w = Some w'" unfolding eq by (simp add: w'_def s_def)
  have f: "snd_fd s = fd" "snd_addr s = next_addr w" "snd_on_close s = on_close" "snd_id s = uid"
    "snd_stat s = fd_stat info" "snd_peer s = p"
    by (simp_all add: s_def snd_fd_def r(4))
  have len: "i < length (send_heads w)" using ok i by (simp add: send_ok_def)
  have "mset (all_sends w') = add_mset s (mset (all_sends w))"
    using concat_update_append [OF len] by (simp add: all_sends_def w'_def)
  note all = distinct_map_add [OF this]
  have other: "peer_registered (Peer_send (snd_addr t)) (snd_peer t) w'" if "t \<in> set (all_sends w)" for t
  proof -
    have "peer_registered (Peer_send (snd_addr t)) (snd_peer t) w" using ok that by (auto simp: send_ok_def)
    moreover have "peer_fd (snd_peer t) \<noteq> fd" using fd that by (auto simp: fd_fresh_def snd_fd_def)
    ultimately show ?thesis by (auto simp: peer_registered_def w'_def)
  qed
  have self: "peer_registered (Peer_send (snd_addr s)) (snd_peer s) w'"
    using ok fd r by (auto simp: peer_registered_def w'_def f send_ok_def fd_fresh_def)
  have "send_ok w'"
    unfolding send_ok_def
  proof (intro conjI)
    show "peer_state_ok w'"
      using ok r(3) by (auto simp: send_ok_def peer_state_ok_def w'_def split: if_splits)
    show "distinct (map snd_addr (all_sends w'))"
      unfolding all(1) using ok by (auto simp: send_ok_def f)
    show "distinct (map snd_fd (all_sends w'))"
      unfolding all(1) using ok fd by (auto simp: send_ok_def f fd_fresh_def)
    show "\<forall>t \<in> set (all_sends w'). snd_addr t < next_addr w' \<and> valid_id (snd_id t) \<and>
        peer_registered (Peer_send (snd_addr t)) (snd_peer t) w' \<and>
        (\<forall>i. fds w' (snd_fd t) = Some i \<longrightarrow> snd_stat t = fd_stat i)"
      unfolding all(2) using ok other self r
      by (auto simp: send_ok_def f w'_def less_Suc_eq)
  qed (use ok r(2) in \<open>auto simp: send_ok_def w'_def\<close>)
  then show ?thesis
    using new f by (intro exI [of _ w'] exI [of _ s]) (simp add: w'_def)
qed

text \<open>The part of \<^verbatim>\<open>send_del\<close> before the callback.\<close>

definition send_unlink :: "send \<Rightarrow> 'a send_state_scheme \<Rightarrow> 'a send_state_scheme" where
  "send_unlink s w = w\<lparr>peer_count_out := peer_count_out w - 1,
     peer_always_trigger_head := filter (\<lambda>q. q \<noteq> Peer_send (snd_addr s)) (peer_always_trigger_head w),
     fds := (fds w)(snd_fd s := None), epoll_set := (epoll_set w)(snd_fd s := None),
     send_heads := map (filter (\<lambda>t. snd_addr t \<noteq> snd_addr s)) (send_heads w)\<rparr>"

lemma send_del_eq:
  assumes ok: "send_ok w" and s: "s \<in> set (all_sends w)"
  shows "send_del call s w = peer_call call (snd_on_close s) (send_unlink s w)"
proof -
  have reg: "peer_registered (Peer_send (snd_addr s)) (snd_peer s) w"
    and na: "Peer_send (snd_addr s) \<notin> set (peer_always_trigger_head w)" using ok s by (auto simp: send_ok_def)
  then have at: "\<not> peer_always_trigger (snd_peer s)" by (simp add: peer_registered_def)
  have flt: "filter (\<lambda>q. q \<noteq> Peer_send (snd_addr s)) (peer_always_trigger_head w) = peer_always_trigger_head w"
    using na by (auto simp: filter_id_conv)
  show ?thesis
    using reg at flt
    by (auto simp: send_del_def send_unlink_def Let_def peer_close_def peer_epoll_del_def epoll_ctl_del_def close_fd_def
        peer_registered_def snd_fd_def split: if_splits)
qed

lemma send_unlink_spec:
  assumes ok: "send_ok w" and s: "s \<in> set (all_sends w)"
  shows "send_ok (send_unlink s w)" and "set (all_sends (send_unlink s w)) = set (all_sends w) - {s}"
    and "length (all_sends (send_unlink s w)) = length (all_sends w) - 1"
    and "peer_count_out (send_unlink s w) = peer_count_out w - 1"
proof -
  have all: "all_sends (send_unlink s w) = filter (\<lambda>t. snd_addr t \<noteq> snd_addr s) (all_sends w)"
    by (simp add: all_sends_def send_unlink_def concat_filter)
  have dist: "distinct (map snd_addr (all_sends w))" using ok by (simp add: send_ok_def)
  note f = filter_distinct_addr [OF dist s]
  show set: "set (all_sends (send_unlink s w)) = set (all_sends w) - {s}"
    and "length (all_sends (send_unlink s w)) = length (all_sends w) - 1"
    unfolding all using f by simp_all
  show "peer_count_out (send_unlink s w) = peer_count_out w - 1" by (simp add: send_unlink_def)
  have other: "peer_registered (Peer_send (snd_addr t)) (snd_peer t) (send_unlink s w)"
    if t: "t \<in> set (all_sends w)" "t \<noteq> s" for t
  proof -
    have "inj_on snd_fd (set (all_sends w))" "inj_on snd_addr (set (all_sends w))"
      using ok by (simp_all add: send_ok_def distinct_map)
    then have "snd_fd t \<noteq> snd_fd s" "snd_addr t \<noteq> snd_addr s"
      using s t by (auto dest: inj_onD)
    moreover have "peer_registered (Peer_send (snd_addr t)) (snd_peer t) w" using ok t by (auto simp: send_ok_def)
    ultimately show ?thesis
      by - (rule peer_registered_other [of _ _ w "snd_fd s" "Peer_send (snd_addr s)"],
        simp_all add: send_unlink_def snd_fd_def)
  qed
  show "send_ok (send_unlink s w)"
    unfolding send_ok_def set
  proof (intro conjI)
    show "peer_state_ok (send_unlink s w)"
      using ok by (auto simp: send_ok_def peer_state_ok_def send_unlink_def split: if_splits)
    show "distinct (map snd_addr (all_sends (send_unlink s w)))" "distinct (map snd_fd (all_sends (send_unlink s w)))"
      unfolding all using ok by (auto simp: send_ok_def intro: distinct_map_filter)
    show "\<forall>t \<in> set (all_sends w) - {s}. snd_addr t < next_addr (send_unlink s w) \<and> valid_id (snd_id t) \<and>
        peer_registered (Peer_send (snd_addr t)) (snd_peer t) (send_unlink s w) \<and>
        (\<forall>i. fds (send_unlink s w) (snd_fd t) = Some i \<longrightarrow> snd_stat t = fd_stat i)"
      using ok other by (auto simp: send_ok_def send_unlink_def split: if_splits)
  qed (use ok in \<open>auto simp: send_ok_def send_unlink_def\<close>)
qed

section \<open>Properties\<close>

definition sample_env :: "unit env" where
  "sample_env = \<lparr>env_server_id = sample_id, env_jansson = sample_jansson, env_dump = sample_dump,
     env_unpack = sample_unpack, env_pack = sample_pack, env_entropy = of_nat, env_read = (\<lambda>n fd. sample_read),
     env_write = (\<lambda>n fd bytes. int (length bytes) - 1), env_clock = (\<lambda>n. 0)\<rparr>"

lemma sample_env_ok: "env_ok sample_env"
  by (simp add: env_ok_def sample_env_def is_c_str_def sample_id_def jansson_ok_def sample_jansson_def json_dump_ok_def
      stats_dump_ok_def sample_dump_def BUF_LEN_MAX_def proto_pack_ok_def sample_pack_def proto_frame_def
      varint_bytes.simps read_ok_def sample_read_def)

definition sample_send :: "nat \<Rightarrow> int \<Rightarrow> nat \<Rightarrow> send" where
  "sample_send a fd ino = \<lparr>snd_addr = a, snd_peer = \<lparr>peer_fd = fd, peer_always_trigger = False\<rparr>,
     snd_stat = \<lparr>st_dev = 1, st_ino = ino\<rparr>, snd_on_close = None, snd_id = sample_id\<rparr>"

definition sample_fds :: "int \<Rightarrow> fd_info option" where
  "sample_fds = [5 \<mapsto> \<lparr>fd_pollable = True, fd_stat = \<lparr>st_dev = 1, st_ino = 2\<rparr>\<rparr>,
     6 \<mapsto> \<lparr>fd_pollable = True, fd_stat = \<lparr>st_dev = 1, st_ino = 3\<rparr>\<rparr>,
     7 \<mapsto> \<lparr>fd_pollable = False, fd_stat = \<lparr>st_dev = 1, st_ino = 4\<rparr>\<rparr>]"

text \<open>Two raw outputs: descriptor 5 is the file the sample packet comes from, 6 another one.\<close>

definition sample_send_state :: send_state where
  "sample_send_state = \<lparr>peer_count_in = 0, peer_count_out = 2, peer_count_out_in = 0, peer_shutdown_flag = False,
     peer_shutdown_peer = \<lparr>peer_fd = -1, peer_always_trigger = False\<rparr>, peer_always_trigger_head = [],
     fds = sample_fds, epoll_set = [5 \<mapsto> Peer_send 0, 6 \<mapsto> Peer_send 1],
     send_heads = [[], [], [], [], [sample_send 0 5 2, sample_send 1 6 3], []],
     stats = stats_init 0, json_hello_buf = BUF_INIT, proto_hello_buf = BUF_INIT,
     rnd = \<lparr>rand_buf = BUF_INIT, rand_pos = 0\<rparr>, next_addr = 2, tick = 0, trace = []\<rparr>"

lemma sample_send_ok: "send_ok sample_send_state"
  using sample_id_valid
  by (auto simp: send_ok_def sample_send_state_def peer_state_ok_def NUM_SERIALIZERS_def all_sends_def sample_send_def
      snd_fd_def peer_registered_def sample_fds_def rand_ok_def BUF_INIT_def split: if_splits)

text \<open>
  C5. A sane packet is delivered: \<^verbatim>\<open>send_write\<close> returns, changes nothing but the statistics and its output, and in every
  format each connection of the format gets the same bytes exactly once, in list order, unless
  it is the file the packet came from, which gets nothing (no echo). For the five plain formats
  the bytes are the serialized packet. A write that is short or fails, and no other, is followed
  by shutting that connection down; the remaining connections are served regardless.
\<close>

theorem send_write_delivers:
  assumes "env_ok E" and "packet_full p" and "stats_ok (stats w)" and "length (send_heads w) = NUM_SERIALIZERS"
  shows "\<exists>w' es frames. send_write E p w = Some w' \<and> only_output w w' \<and> stats_ok (stats w') \<and>
    trace w' = trace w @ Ev_packet p # es \<and> shut_ok es \<and> length frames = NUM_SERIALIZERS \<and>
    (\<forall>i < 5. frames ! i = plain_frame E p i) \<and>
    writes_of es = concat (map2 (\<lambda>i bs. send_deliver bs p (send_heads w ! i)) [0..<NUM_SERIALIZERS] frames)"
  by (rule send_write_spec [OF assms])

theorem send_write_delivers_witness:
  "\<exists>w' es frames. send_write sample_env sample_packet sample_send_state = Some w' \<and> only_output sample_send_state w' \<and>
    stats_ok (stats w') \<and> trace w' = trace sample_send_state @ Ev_packet sample_packet # es \<and> shut_ok es \<and>
    length frames = NUM_SERIALIZERS \<and> (\<forall>i < 5. frames ! i = plain_frame sample_env sample_packet i) \<and>
    writes_of es = concat (map2 (\<lambda>i bs. send_deliver bs sample_packet (send_heads sample_send_state ! i))
      [0..<NUM_SERIALIZERS] frames)"
  by (rule send_write_delivers [OF sample_env_ok sample_packet_full])
    (simp_all add: sample_send_state_def NUM_SERIALIZERS_def)

text \<open>
  A packet that fails the sanity check never reaches a connection: the program aborts before anything is written.
\<close>

theorem send_write_refuses_insane:
  assumes "\<not> packet_sane p"
  shows "send_write E p w = None"
  by (rule send_write_insane [OF assms])

theorem send_write_refuses_insane_witness: "send_write sample_env sample_empty sample_send_state = None"
  by (rule send_write_refuses_insane) (simp add: packet_sane_def sample_empty_def)

text \<open>
  Opening an output on a fresh descriptor never aborts and keeps the invariant of the
  connections: the new one is registered, has a valid id and a new address, sits at the tail of
  its format's list, and the count of outputs grows by one.
\<close>

theorem send_new_keeps_invariant:
  assumes "send_ok w" and "fd_fresh fd w" and "i < NUM_SERIALIZERS"
  shows "\<exists>w' s. send_new E fd i on_close w = Some w' \<and> send_ok w' \<and> snd_fd s = fd \<and> snd_on_close s = on_close \<and>
    snd_addr s = next_addr w \<and> send_heads w' = (send_heads w)[i := send_heads w ! i @ [s]] \<and>
    peer_count_out w' = peer_count_out w + 1 \<and> peer_count_in w' = peer_count_in w \<and>
    peer_count_out_in w' = peer_count_out_in w \<and> fds w' = fds w \<and>
    peer_always_trigger_head w' = peer_always_trigger_head w \<and> trace w' = trace w"
  by (rule send_new_spec [OF assms])

theorem send_new_keeps_invariant_witness:
  "\<exists>w' s. send_new sample_env 7 1 None sample_send_state = Some w' \<and> send_ok w' \<and> snd_fd s = 7 \<and> snd_on_close s = None \<and>
    snd_addr s = next_addr sample_send_state \<and>
    send_heads w' = (send_heads sample_send_state)[1 := send_heads sample_send_state ! 1 @ [s]] \<and>
    peer_count_out w' = peer_count_out sample_send_state + 1 \<and> peer_count_in w' = peer_count_in sample_send_state \<and>
    peer_count_out_in w' = peer_count_out_in sample_send_state \<and> fds w' = fds sample_send_state \<and>
    peer_always_trigger_head w' = peer_always_trigger_head sample_send_state \<and> trace w' = trace sample_send_state"
  by (rule send_new_keeps_invariant [OF sample_send_ok])
    (simp_all add: fd_fresh_def sample_send_state_def sample_fds_def all_sends_def sample_send_def snd_fd_def
      NUM_SERIALIZERS_def)

text \<open>
  C31. Closing an output unregisters and closes its descriptor, removes it and nothing else from the lists,
  lowers the count of outputs by one and keeps the invariant; only then the owner is told.
\<close>

theorem send_del_keeps_invariant:
  assumes "send_ok w" and "s \<in> set (all_sends w)"
  shows "\<exists>w'. send_del call s w = peer_call call (snd_on_close s) w' \<and> send_ok w' \<and>
    set (all_sends w') = set (all_sends w) - {s} \<and> length (all_sends w') = length (all_sends w) - 1 \<and>
    peer_count_out w' = peer_count_out w - 1 \<and> fds w' (snd_fd s) = None"
  using send_del_eq [OF assms, of call] send_unlink_spec [OF assms]
  by (intro exI [of _ "send_unlink s w"]) (simp add: send_unlink_def)

theorem send_del_keeps_invariant_witness:
  "\<exists>w'. send_del (\<lambda>ptr. Some) (sample_send 1 6 3) sample_send_state =
      peer_call (\<lambda>ptr. Some) (snd_on_close (sample_send 1 6 3)) w' \<and> send_ok w' \<and>
    set (all_sends w') = set (all_sends sample_send_state) - {sample_send 1 6 3} \<and>
    length (all_sends w') = length (all_sends sample_send_state) - 1 \<and>
    peer_count_out w' = peer_count_out sample_send_state - 1 \<and> fds w' (snd_fd (sample_send 1 6 3)) = None"
  by (rule send_del_keeps_invariant [OF sample_send_ok]) (simp add: all_sends_def sample_send_state_def)

end
