(* ===== verification/Receive.thy ===== *)
theory Receive
  imports Send
begin

text \<open>
  Model of \<^verbatim>\<open>adsbus/receive.c\<close>: incoming connections, detection of their format, the loop that
  drains the input buffer packet by packet, the hop limit, and what happens at end of input or
  when the buffer is full of bytes no parser understands.
\<close>

text \<open>
  \<open>rx_parser\<close> stands for the two function pointers: \<open>None\<close> is \<^verbatim>\<open>receive_autodetect_parse\<close>, \<open>Some i\<close> is
  \<^verbatim>\<open>receive_parse_wrapper\<close> with entry \<open>i\<close> of the table \<^verbatim>\<open>parsers\<close>.
\<close>

record receive =
  rx_addr :: nat
  rx_peer :: peer
  rx_stat :: stat
  rx_on_close :: "peer_ref option"
  rx_id :: "u8 list"
  rx_buf :: buf
  rx_parser_state :: parser_state
  rx_parser :: "nat option"

record receive_state = send_state +
  receive_head :: "receive list"
  receive_max_hops :: u32

definition NUM_PARSERS :: nat where
  "NUM_PARSERS = 5"

definition parsers :: "'j env \<Rightarrow> parser list" where
  "parsers E =
     [airspy_adsb_parse,
      beast_parse,
      json_parse (env_jansson E) (env_server_id E),
      proto_parse (env_unpack E) (env_server_id E),
      raw_parse]"

section \<open>Parsing one packet\<close>

text \<open>
  \<^verbatim>\<open>receive_autodetect_parse\<close>: the parsers are tried in table order; the packet, but not the
  parser state, is restored after a failure, except after the last one.
\<close>

fun receive_autodetect_loop ::
    "packet \<Rightarrow> nat \<Rightarrow> parser list \<Rightarrow> buf \<Rightarrow> packet \<Rightarrow> parser_state \<Rightarrow>
      (nat option \<times> buf \<times> packet \<times> parser_state) option" where
  "receive_autodetect_loop orig i [] b p st = Some (None, b, p, st)"
| "receive_autodetect_loop orig i (f # fs) b p st = do {
     (ok, b, p, st) \<leftarrow> f b p st;
     if ok then Some (Some i, b, p, st)
     else receive_autodetect_loop orig (i + 1) fs b (if fs \<noteq> [] then orig else p) st
   }"

definition receive_parse :: "'j env \<Rightarrow> receive \<Rightarrow> packet \<Rightarrow> (bool \<times> receive \<times> packet) option" where
  "receive_parse E r p =
     (case rx_parser r of
        None \<Rightarrow> do {
          (found, b, p, st) \<leftarrow> receive_autodetect_loop p 0 (parsers E) (rx_buf r) p (rx_parser_state r);
          Some (found \<noteq> None, r\<lparr>rx_buf := b, rx_parser_state := st, rx_parser := found\<rparr>, p)
        }
      | Some i \<Rightarrow> do {
          f \<leftarrow> c_nth (parsers E) i;
          (ok, b, p, st) \<leftarrow> f (rx_buf r) p (rx_parser_state r);
          Some (ok, r\<lparr>rx_buf := b, rx_parser_state := st\<rparr>, p)
        })"

section \<open>Reading\<close>

text \<open>The packet every turn of the loop starts from; the fields not named are zero.\<close>

definition receive_packet :: "receive \<Rightarrow> packet" where
  "receive_packet r = \<lparr>source_id = Some (rx_id r), input_stat = rx_stat r, ptype = PACKET_TYPE_NONE, hops = 0,
     payload = replicate PACKET_PAYLOAD_LEN_MAX 0, mlat_timestamp = 0, rssi = 0\<rparr>"

text \<open>
  The loop \<^verbatim>\<open>while (receive->buf.length)\<close>. Every turn that goes on has consumed a byte, so the
  number of buffered bytes is enough fuel \<open>n\<close>; running out of it would be \<open>None\<close>.
\<close>

fun receive_drain ::
    "'j env \<Rightarrow> nat \<Rightarrow> receive \<Rightarrow> 'a receive_state_scheme \<Rightarrow> (receive \<times> 'a receive_state_scheme) option" where
  "receive_drain E 0 r w = (if buf_length (rx_buf r) = 0 then Some (r, w) else None)"
| "receive_drain E (Suc n) r w =
     (if buf_length (rx_buf r) = 0 then Some (r, w)
      else do {
        (ok, r, p) \<leftarrow> receive_parse E r (receive_packet r);
        if \<not> ok then Some (r, w)
        else if ptype p = PACKET_TYPE_NONE then receive_drain E n r w
        else do {
          let p = p\<lparr>hops := hops p + 1\<rparr>;
          if receive_max_hops w < hops p then receive_drain E n r w
          else do {
            w \<leftarrow> send_write E p w;
            receive_drain E n r w
          }
        }
      })"

definition receive_del ::
    "(peer_ref \<Rightarrow> 'a receive_state_scheme \<Rightarrow> 'a receive_state_scheme option) \<Rightarrow>
      receive \<Rightarrow> 'a receive_state_scheme \<Rightarrow> 'a receive_state_scheme option" where
  "receive_del call r w = do {
     let w = w\<lparr>peer_count_in := peer_count_in w - 1\<rparr>;
     (p, w) \<leftarrow> peer_close (Peer_receive (rx_addr r)) (rx_peer r) w;
     let w = w\<lparr>receive_head := filter (\<lambda>q. rx_addr q \<noteq> rx_addr r) (receive_head w)\<rparr>;
     peer_call call (rx_on_close r) w
   }"

text \<open>The event handler on the structure at address \<open>a\<close>; a pointer to freed memory is \<open>None\<close>.\<close>

definition receive_read ::
    "'j env \<Rightarrow> (peer_ref \<Rightarrow> 'a receive_state_scheme \<Rightarrow> 'a receive_state_scheme option) \<Rightarrow>
      nat \<Rightarrow> 'a receive_state_scheme \<Rightarrow> 'a receive_state_scheme option" where
  "receive_read E call a w =
     (case find (\<lambda>r. rx_addr r = a) (receive_head w) of
        None \<Rightarrow> None
      | Some r \<Rightarrow> do {
          (n, b) \<leftarrow> buf_fill (env_read E (tick w) (peer_fd (rx_peer r))) (rx_buf r);
          let w = w\<lparr>tick := tick w + 1\<rparr>;
          let r = r\<lparr>rx_buf := b\<rparr>;
          if n \<le> 0 then receive_del call r w
          else do {
            (r, w) \<leftarrow> receive_drain E (buf_length (rx_buf r)) r w;
            let w = w\<lparr>receive_head := map (\<lambda>q. if rx_addr q = a then r else q) (receive_head w)\<rparr>;
            if buf_length (rx_buf r) = BUF_LEN_MAX then receive_del call r w
            else Some w
          }
        })"

section \<open>Opening, closing, starting up\<close>

definition receive_new ::
    "'j env \<Rightarrow> int \<Rightarrow> peer_ref option \<Rightarrow> 'a receive_state_scheme \<Rightarrow> 'a receive_state_scheme option" where
  "receive_new E fd on_close w = do {
     let w = w\<lparr>peer_count_in := peer_count_in w + 1\<rparr>;
     let a = next_addr w;
     let w = w\<lparr>next_addr := a + 1\<rparr>;
     (uid, rs) \<leftarrow> uuid_gen (env_entropy E) (rnd w) (replicate UUID_LEN 0);
     let w = w\<lparr>rnd := rs\<rparr>;
     info \<leftarrow> fds w fd;
     let r = \<lparr>rx_addr = a, rx_peer = \<lparr>peer_fd = fd, peer_always_trigger = False\<rparr>, rx_stat = fd_stat info,
              rx_on_close = on_close, rx_id = uid, rx_buf = buf_init BUF_INIT,
              rx_parser_state = parser_state_zero, rx_parser = None\<rparr>;
     (p, w) \<leftarrow> peer_epoll_add (Peer_receive a) (rx_peer r) True w;
     Some (w\<lparr>receive_head := receive_head w @ [r\<lparr>rx_peer := p\<rparr>]\<rparr>)
   }"

fun receive_del_all ::
    "(peer_ref \<Rightarrow> 'a receive_state_scheme \<Rightarrow> 'a receive_state_scheme option) \<Rightarrow>
      receive list \<Rightarrow> 'a receive_state_scheme \<Rightarrow> 'a receive_state_scheme option" where
  "receive_del_all call [] w = Some w"
| "receive_del_all call (r # rs) w = do {
     w \<leftarrow> receive_del call r w;
     receive_del_all call rs w
   }"

definition receive_cleanup ::
    "(peer_ref \<Rightarrow> 'a receive_state_scheme \<Rightarrow> 'a receive_state_scheme option) \<Rightarrow>
      'a receive_state_scheme \<Rightarrow> 'a receive_state_scheme option" where
  "receive_cleanup call w = receive_del_all call (receive_head w) w"

text \<open>
  \<^verbatim>\<open>strtoul(s, &end, 10)\<close>: the value, clamped to \<^verbatim>\<open>ULONG_MAX\<close> and negated modulo its width after a
  minus sign, and the rest of the string; without a digit the rest is the whole string.
\<close>

definition is_space :: "char \<Rightarrow> bool" where
  "is_space c = (let n = of_char c :: nat in n = 32 \<or> 9 \<le> n \<and> n \<le> 13)"

definition is_digit :: "char \<Rightarrow> bool" where
  "is_digit c = (let n = of_char c :: nat in 48 \<le> n \<and> n \<le> 57)"

definition digits_value :: "string \<Rightarrow> nat" where
  "digits_value ds = foldl (\<lambda>v c. v * 10 + (of_char c - 48)) 0 ds"

definition strtoul :: "string \<Rightarrow> nat \<times> string" where
  "strtoul s =
     (let t = dropWhile is_space s;
          neg = (case t of c # _ \<Rightarrow> c = CHR ''-'' | [] \<Rightarrow> False);
          t = (case t of c # cs \<Rightarrow> if c = CHR ''-'' \<or> c = CHR ''+'' then cs else t | [] \<Rightarrow> t);
          ds = takeWhile is_digit t
      in if ds = [] then (0, s)
         else if 2 ^ 64 \<le> digits_value ds then (2 ^ 64 - 1, dropWhile is_digit t)
         else (if neg then (2 ^ 64 - digits_value ds) mod 2 ^ 64 else digits_value ds, dropWhile is_digit t))"

definition receive_init :: "string option \<Rightarrow> 'a receive_state_scheme \<Rightarrow> 'a receive_state_scheme option" where
  "receive_init max_hops w =
     (case max_hops of
        None \<Rightarrow> Some (w\<lparr>receive_max_hops := 10\<rparr>)
      | Some s \<Rightarrow> do {
          let (v, rest) = strtoul s;
          c_assert (s \<noteq> []);
          c_assert (rest = []);
          c_assert (v \<le> 4294967295);
          Some (w\<lparr>receive_max_hops := of_nat v\<rparr>)
        })"

section \<open>The parsing step\<close>

lemma parsers_contract:
  assumes "env_ok E"
  shows "\<forall>f \<in> set (parsers E). parser_contract f" and "length (parsers E) = NUM_PARSERS"
proof -
  have "jansson_ok (env_jansson E)" "is_c_str (env_server_id E)" using assms by (simp_all add: env_ok_def)
  then show "\<forall>f \<in> set (parsers E). parser_contract f"
    using airspy.parser_contract_axioms beast.parser_contract_axioms raw.parser_contract_axioms
      json_contract chained_parser.axioms(1) [OF proto_contract]
    by (simp add: parsers_def)
  show "length (parsers E) = NUM_PARSERS" by (simp add: parsers_def NUM_PARSERS_def)
qed

lemma receive_autodetect_spec:
  assumes "\<forall>f \<in> set fs. parser_contract f" and "buf_ok b" and "packet_ready p" and "parser_state_ok st"
  shows "\<exists>found b' p' st'. receive_autodetect_loop p i fs b p st = Some (found, b', p', st') \<and>
    parse_result_ok b p (found \<noteq> None, b', p', st') \<and> (\<forall>j. found = Some j \<longrightarrow> i \<le> j \<and> j < i + length fs)"
  using assms
proof (induction fs arbitrary: i st)
  case Nil
  then show ?case by (simp add: parse_result_ok_def packet_frame_def packet_ready_def)
next
  case (Cons f fs)
  have f: "parser_contract f" and fs: "\<forall>f \<in> set fs. parser_contract f" using Cons.prems(1) by simp_all
  from parser_contract.parse_returns [OF f Cons.prems(2-4)] obtain ok b1 p1 st1 where
    r: "f b p st = Some (ok, b1, p1, st1)" "parse_result_ok b p (ok, b1, p1, st1)" by (metis prod.collapse)
  show ?case
  proof (cases ok)
    case True
    with r show ?thesis by simp
  next
    case False
    with r(2) have b1: "b1 = b" "parser_state_ok st1" by (simp_all add: parse_result_ok_def)
    show ?thesis
    proof (cases "fs = []")
      case True
      with False r b1 show ?thesis by simp
    next
      case ne: False
      from Cons.IH [OF fs Cons.prems(2,3) b1(2), of "i + 1"] r(1) False ne b1(1) show ?thesis by fastforce
    qed
  qed
qed

text \<open>The parts of a connection the event handler never changes.\<close>

definition rx_same :: "receive \<Rightarrow> receive \<Rightarrow> bool" where
  "rx_same r r' \<longleftrightarrow> rx_addr r' = rx_addr r \<and> rx_peer r' = rx_peer r \<and> rx_stat r' = rx_stat r \<and>
     rx_on_close r' = rx_on_close r \<and> rx_id r' = rx_id r"

lemma rx_same_refl [simp]: "rx_same r r"
  by (simp add: rx_same_def)

lemma rx_same_trans: "rx_same r s \<Longrightarrow> rx_same s t \<Longrightarrow> rx_same r t"
  by (simp add: rx_same_def)

text \<open>A connection whose buffer and parser state are well formed.\<close>

definition rx_ok :: "receive \<Rightarrow> bool" where
  "rx_ok r \<longleftrightarrow> buf_ok (rx_buf r) \<and> parser_state_ok (rx_parser_state r) \<and> valid_id (rx_id r) \<and>
     (\<forall>i. rx_parser r = Some i \<longrightarrow> i < NUM_PARSERS)"

lemma receive_packet_ready: "valid_id (rx_id r) \<Longrightarrow> packet_ready (receive_packet r)"
  by (simp add: packet_ready_def receive_packet_def PACKET_MLAT_MAX_def INT64_MAX_def)

lemma receive_parse_spec:
  assumes E: "env_ok E" and r: "rx_ok r" and p: "packet_ready p"
  shows "\<exists>ok r' p'. receive_parse E r p = Some (ok, r', p') \<and> rx_ok r' \<and> rx_same r r' \<and>
    packet_frame p p' \<and> (\<not> ok \<longrightarrow> rx_buf r' = rx_buf r) \<and>
    (ok \<longrightarrow> consumed (rx_buf r) (rx_buf r') \<and> rx_parser r' \<noteq> None \<and> (ptype p' = PACKET_TYPE_NONE \<or> packet_sane p'))"
proof (cases "rx_parser r")
  case None
  have r': "buf_ok (rx_buf r)" "parser_state_ok (rx_parser_state r)" using r by (simp_all add: rx_ok_def)
  from receive_autodetect_spec [OF parsers_contract(1) [OF E] r'(1) p r'(2), of 0] parsers_contract(2) [OF E]
  obtain found b' p' st' where
    f: "receive_autodetect_loop p 0 (parsers E) (rx_buf r) p (rx_parser_state r) = Some (found, b', p', st')"
      "parse_result_ok (rx_buf r) p (found \<noteq> None, b', p', st')" "\<forall>j. found = Some j \<longrightarrow> j < NUM_PARSERS"
    by auto
  then show ?thesis
    using None r by (cases found) (auto simp: receive_parse_def parse_result_ok_def rx_ok_def rx_same_def consumed_def)
next
  case (Some i)
  then have i: "i < length (parsers E)" using r parsers_contract(2) [OF E] by (simp add: rx_ok_def)
  then have "parser_contract (parsers E ! i)" using parsers_contract(1) [OF E] by simp
  from parser_contract.parse_returns [OF this _ p] r obtain ok b1 p1 st1 where
    "(parsers E ! i) (rx_buf r) p (rx_parser_state r) = Some (ok, b1, p1, st1)"
    "parse_result_ok (rx_buf r) p (ok, b1, p1, st1)" unfolding rx_ok_def by (metis prod.collapse)
  then show ?thesis
    using Some r i
    by (cases ok) (auto simp: receive_parse_def c_nth_def parse_result_ok_def rx_ok_def rx_same_def consumed_def)
qed

section \<open>The drain loop\<close>

text \<open>The packets handed to \<^verbatim>\<open>send_write\<close> according to a trace.\<close>

definition offered :: "out_event list \<Rightarrow> packet set" where
  "offered es = {p. Ev_packet p \<in> set es}"

lemma offered_simps [simp]:
  "offered [] = {}" "offered (es @ fs) = offered es \<union> offered fs" "offered (Ev_packet p # es) = insert p (offered es)"
  by (auto simp: offered_def)

lemma offered_shut_ok: "shut_ok es \<Longrightarrow> offered es = {}"
  by (induction es rule: shut_ok.induct)
    (auto simp: offered_def split: if_splits list.splits out_event.splits)

text \<open>What a packet that leaves the program satisfies.\<close>

definition forwarded_ok :: "u32 \<Rightarrow> packet \<Rightarrow> bool" where
  "forwarded_ok limit p \<longleftrightarrow> packet_full p \<and> hops p \<le> limit"

definition out_ok :: "'a send_state_scheme \<Rightarrow> bool" where
  "out_ok w \<longleftrightarrow> stats_ok (stats w) \<and> length (send_heads w) = NUM_SERIALIZERS"

lemma only_output_receive:
  fixes w :: "'a receive_state_scheme"
  assumes "only_output w w'"
  shows "receive_max_hops w' = receive_max_hops w" and "receive_head w' = receive_head w"
  using assms by (auto simp: only_output_def)

lemma receive_forward:
  assumes E: "env_ok E" and w: "out_ok w" and p: "packet_full p"
  shows "\<exists>w' es. send_write E p w = Some w' \<and> only_output w w' \<and> out_ok w' \<and>
    trace w' = trace w @ es \<and> offered es = {p}"
proof -
  from send_write_spec [OF E p] w obtain w' es where
    r: "send_write E p w = Some w'" "only_output w w'" "stats_ok (stats w')" "trace w' = trace w @ Ev_packet p # es"
      "shut_ok es" unfolding out_ok_def by blast
  then have "out_ok w'" using w only_output_heads [OF r(2)] by (simp add: out_ok_def)
  moreover have "offered (Ev_packet p # es) = {p}" using offered_shut_ok [OF r(5)] by simp
  ultimately show ?thesis using r by (intro exI [of _ w'] exI [of _ "Ev_packet p # es"]) simp
qed

lemma receive_drain_spec:
  fixes w :: "'a receive_state_scheme"
  assumes E: "env_ok E" and "rx_ok r" and "out_ok w" and "buf_length (rx_buf r) \<le> n"
  shows "\<exists>r' w' es. receive_drain E n r w = Some (r', w') \<and> rx_ok r' \<and> rx_same r r' \<and> only_output w w' \<and>
    out_ok w' \<and> trace w' = trace w @ es \<and> (\<forall>q \<in> offered es. forwarded_ok (receive_max_hops w) q) \<and>
    buf_length (rx_buf r') \<le> buf_length (rx_buf r)"
  using assms(2-4)
proof (induction n arbitrary: r w)
  case 0
  then show ?case by auto
next
  case (Suc n)
  show ?case
  proof (cases "buf_length (rx_buf r) = 0")
    case True
    with Suc.prems show ?thesis by auto
  next
    case False
    have ready: "packet_ready (receive_packet r)" using Suc.prems(1) by (simp add: receive_packet_ready rx_ok_def)
    from receive_parse_spec [OF E Suc.prems(1) ready] obtain ok r1 p where
      r: "receive_parse E r (receive_packet r) = Some (ok, r1, p)" "rx_ok r1" "rx_same r r1"
        "packet_frame (receive_packet r) p" "\<not> ok \<longrightarrow> rx_buf r1 = rx_buf r"
        "ok \<longrightarrow> consumed (rx_buf r) (rx_buf r1) \<and> (ptype p = PACKET_TYPE_NONE \<or> packet_sane p)" by blast
    have cont: ?thesis
      if ok and step: "receive_drain E (Suc n) r w = receive_drain E n r1 w1"
        and w1: "only_output w w1" "out_ok w1" "trace w1 = trace w @ es"
          "\<forall>q \<in> offered es. forwarded_ok (receive_max_hops w) q" for w1 :: "'a receive_state_scheme" and es
    proof -
      have len: "buf_length (rx_buf r1) < buf_length (rx_buf r)" using r(6) that(1) by (simp add: consumed_def)
      with Suc.prems(3) have "buf_length (rx_buf r1) \<le> n" by simp
      from Suc.IH [OF r(2) w1(2) this] obtain r' w' es' where
        i: "receive_drain E n r1 w1 = Some (r', w')" "rx_ok r'" "rx_same r1 r'" "only_output w1 w'" "out_ok w'"
          "trace w' = trace w1 @ es'" "\<forall>q \<in> offered es'. forwarded_ok (receive_max_hops w1) q"
          "buf_length (rx_buf r') \<le> buf_length (rx_buf r1)" by blast
      show ?thesis
        unfolding step i(1)
        using i r(3) w1 len only_output_receive(1) [OF w1(1)] rx_same_trans [OF r(3) i(3)] only_output_trans [OF w1(1) i(4)]
        by (intro exI [of _ r'] exI [of _ w'] exI [of _ "es @ es'"]) auto
    qed
    show ?thesis
    proof (cases ok)
      case False
      with r \<open>buf_length (rx_buf r) \<noteq> 0\<close> Suc.prems(2) show ?thesis
        by (intro exI [of _ r1] exI [of _ w] exI [of _ "[]"]) simp
    next
      case ok: True
      let ?p = "p\<lparr>hops := hops p + 1\<rparr>"
      show ?thesis
      proof (cases "ptype p = PACKET_TYPE_NONE \<or> receive_max_hops w < hops p + 1")
        case True
        with ok r(1) \<open>buf_length (rx_buf r) \<noteq> 0\<close> Suc.prems(2) show ?thesis
          by (intro cont [of w "[]"]) auto
      next
        case False
        have full: "packet_full ?p"
          using r(4,6) ok False by (auto simp: packet_full_def packet_frame_def packet_sane_def)
        from receive_forward [OF E Suc.prems(2) full] obtain w1 es where
          f: "send_write E ?p w = Some w1" "only_output w w1" "out_ok w1" "trace w1 = trace w @ es" "offered es = {?p}"
          by blast
        have "forwarded_ok (receive_max_hops w) ?p" using full False by (simp add: forwarded_ok_def not_less)
        with f ok False r(1) \<open>buf_length (rx_buf r) \<noteq> 0\<close> show ?thesis
          by (intro cont [of w1 es]) (auto simp: not_less)
      qed
    qed
  qed
qed

section \<open>The invariant of the connections\<close>

definition rx_fd :: "receive \<Rightarrow> int" where
  "rx_fd r = peer_fd (rx_peer r)"

text \<open>
  Input and output connections own different descriptors; every input connection is registered,
  its buffer is not full, and every always-triggered input is in the list.
\<close>

definition receive_ok :: "'a receive_state_scheme \<Rightarrow> bool" where
  "receive_ok w \<longleftrightarrow> send_ok w \<and>
     distinct (map rx_addr (receive_head w)) \<and> distinct (map rx_fd (receive_head w)) \<and>
     (\<forall>r \<in> set (receive_head w). rx_addr r < next_addr w \<and> rx_ok r \<and> buf_length (rx_buf r) < BUF_LEN_MAX \<and>
        peer_registered (Peer_receive (rx_addr r)) (rx_peer r) w) \<and>
     (\<forall>r \<in> set (receive_head w). \<forall>s \<in> set (all_sends w). rx_fd r \<noteq> snd_fd s) \<and>
     (\<forall>a. Peer_receive a \<in> set (peer_always_trigger_head w) \<longrightarrow> a \<in> rx_addr ` set (receive_head w))"

lemma receive_ok_out: "receive_ok w \<Longrightarrow> out_ok w"
  by (simp add: receive_ok_def send_ok_def out_ok_def)

lemma receive_find:
  assumes "receive_ok w" and "r \<in> set (receive_head w)"
  shows "find (\<lambda>q. rx_addr q = rx_addr r) (receive_head w) = Some r"
proof -
  have d: "inj_on rx_addr (set (receive_head w))" using assms(1) by (simp add: receive_ok_def distinct_map)
  show ?thesis
  proof (cases "find (\<lambda>q. rx_addr q = rx_addr r) (receive_head w)")
    case None
    with assms(2) show ?thesis by (auto simp: find_None_iff)
  next
    case (Some q)
    then have "q \<in> set (receive_head w)" "rx_addr q = rx_addr r" by (auto simp: find_Some_iff)
    with d assms(2) have "q = r" by (auto dest: inj_onD)
    with Some show ?thesis by simp
  qed
qed

text \<open>Output, counters and a changed buffer do not matter to the registration.\<close>

lemma peer_state_ok_cong:
  assumes "fds w' = fds w" "epoll_set w' = epoll_set w" "peer_always_trigger_head w' = peer_always_trigger_head w"
  shows "peer_state_ok w' = peer_state_ok w" "peer_registered ptr p w' = peer_registered ptr p w"
  by (simp_all add: peer_state_ok_def peer_registered_def assms)

lemma send_ok_output:
  assumes "send_ok w" and "only_output w w'" and "stats_ok (stats w')"
  shows "send_ok w'"
proof -
  from assms(2) obtain ss n tr where w': "w' = w\<lparr>stats := ss, tick := n, trace := tr\<rparr>" by (auto simp: only_output_def)
  have reg: "peer_registered ptr p w' = peer_registered ptr p w" "peer_state_ok w' = peer_state_ok w" for ptr p
    by (simp_all add: peer_state_ok_def peer_registered_def w')
  show ?thesis
    using assms(1,3) unfolding send_ok_def reg by (simp add: w' all_sends_def)
qed

text \<open>The structure of one connection is updated in place.\<close>

definition rx_store :: "receive \<Rightarrow> 'a receive_state_scheme \<Rightarrow> 'a receive_state_scheme" where
  "rx_store r w = w\<lparr>receive_head := map (\<lambda>q. if rx_addr q = rx_addr r then r else q) (receive_head w)\<rparr>"

lemma map_store:
  assumes "rx_same r r'"
  shows "map rx_addr (map (\<lambda>q. if rx_addr q = rx_addr r' then r' else q) rs) = map rx_addr rs"
    and "inj_on rx_addr (insert r (set rs)) \<Longrightarrow>
      map rx_fd (map (\<lambda>q. if rx_addr q = rx_addr r' then r' else q) rs) = map rx_fd rs"
  using assms by (induction rs) (auto simp: rx_same_def rx_fd_def inj_on_def)

definition receive_unlink :: "receive \<Rightarrow> 'a receive_state_scheme \<Rightarrow> 'a receive_state_scheme" where
  "receive_unlink r w = w\<lparr>peer_count_in := peer_count_in w - 1,
     peer_always_trigger_head := filter (\<lambda>q. q \<noteq> Peer_receive (rx_addr r)) (peer_always_trigger_head w),
     fds := (fds w)(rx_fd r := None), epoll_set := (epoll_set w)(rx_fd r := None),
     receive_head := filter (\<lambda>q. rx_addr q \<noteq> rx_addr r) (receive_head w)\<rparr>"

lemma receive_del_eq:
  assumes reg: "peer_registered (Peer_receive (rx_addr r)) (rx_peer r) w"
  shows "receive_del call r w = peer_call call (rx_on_close r) (receive_unlink r w)"
proof -
  have flt: "filter (\<lambda>q. q \<noteq> Peer_receive (rx_addr r)) (peer_always_trigger_head w) = peer_always_trigger_head w"
    if "\<not> peer_always_trigger (rx_peer r)"
    using that reg by (auto simp: peer_registered_def filter_id_conv)
  show ?thesis
    using reg flt
    by (cases "peer_always_trigger (rx_peer r)")
      (auto simp: receive_del_def receive_unlink_def Let_def peer_close_def peer_epoll_del_def epoll_ctl_del_def close_fd_def
        peer_registered_def rx_fd_def split: if_splits)
qed

lemma receive_unlink_sends:
  assumes ok: "receive_ok w" and r: "r \<in> set (receive_head w)"
  shows "send_ok (receive_unlink r w)"
proof -
  have s: "send_ok w" using ok by (simp add: receive_ok_def)
  have all: "all_sends (receive_unlink r w) = all_sends w" by (simp add: all_sends_def receive_unlink_def)
  have reg: "peer_registered (Peer_send (snd_addr t)) (snd_peer t) (receive_unlink r w)" if "t \<in> set (all_sends w)" for t
  proof -
    have "peer_registered (Peer_send (snd_addr t)) (snd_peer t) w" using s that by (auto simp: send_ok_def)
    moreover have "snd_fd t \<noteq> rx_fd r" using ok r that unfolding receive_ok_def by metis
    ultimately show ?thesis
      by - (rule peer_registered_other [of _ _ w "rx_fd r" "Peer_receive (rx_addr r)"],
        simp_all add: receive_unlink_def snd_fd_def)
  qed
  have st: "peer_state_ok (receive_unlink r w)"
    using s by (auto simp: send_ok_def peer_state_ok_def receive_unlink_def split: if_splits)
  show ?thesis
    using s reg st unfolding send_ok_def all
    by (auto simp: receive_unlink_def split: if_splits)
qed

lemma receive_unlink_spec:
  assumes ok: "receive_ok w" and r: "r \<in> set (receive_head w)"
  shows "receive_ok (receive_unlink r w)" and "set (receive_head (receive_unlink r w)) = set (receive_head w) - {r}"
    and "length (receive_head (receive_unlink r w)) = length (receive_head w) - 1"
    and "peer_count_in (receive_unlink r w) = peer_count_in w - 1"
proof -
  have dist: "distinct (map rx_addr (receive_head w))" using ok by (simp add: receive_ok_def)
  note f = filter_distinct_addr [OF dist r]
  show set: "set (receive_head (receive_unlink r w)) = set (receive_head w) - {r}"
    and "length (receive_head (receive_unlink r w)) = length (receive_head w) - 1"
    using f by (simp_all add: receive_unlink_def)
  show "peer_count_in (receive_unlink r w) = peer_count_in w - 1" by (simp add: receive_unlink_def)
  have inj: "inj_on rx_fd (set (receive_head w))" "inj_on rx_addr (set (receive_head w))"
    using ok by (simp_all add: receive_ok_def distinct_map)
  have other: "peer_registered (Peer_receive (rx_addr t)) (rx_peer t) (receive_unlink r w)"
    if t: "t \<in> set (receive_head w)" "t \<noteq> r" for t
  proof -
    have "rx_fd t \<noteq> rx_fd r" "rx_addr t \<noteq> rx_addr r" using inj r t by (auto dest: inj_onD)
    moreover have "peer_registered (Peer_receive (rx_addr t)) (rx_peer t) w" using ok t by (auto simp: receive_ok_def)
    ultimately show ?thesis
      by - (rule peer_registered_other [of _ _ w "rx_fd r" "Peer_receive (rx_addr r)"],
        simp_all add: receive_unlink_def rx_fd_def)
  qed
  have all: "all_sends (receive_unlink r w) = all_sends w" by (simp add: all_sends_def receive_unlink_def)
  show "receive_ok (receive_unlink r w)"
    unfolding receive_ok_def set all
  proof (intro conjI)
    show "send_ok (receive_unlink r w)" by (rule receive_unlink_sends [OF ok r])
    show "distinct (map rx_addr (receive_head (receive_unlink r w)))" "distinct (map rx_fd (receive_head (receive_unlink r w)))"
      using ok by (auto simp: receive_ok_def receive_unlink_def intro: distinct_map_filter)
    show "\<forall>t \<in> set (receive_head w) - {r}. rx_addr t < next_addr (receive_unlink r w) \<and> rx_ok t \<and>
        buf_length (rx_buf t) < BUF_LEN_MAX \<and> peer_registered (Peer_receive (rx_addr t)) (rx_peer t) (receive_unlink r w)"
      using ok other by (auto simp: receive_ok_def receive_unlink_def)
    show "\<forall>t \<in> set (receive_head w) - {r}. \<forall>s \<in> set (all_sends w). rx_fd t \<noteq> snd_fd s"
      using ok by (auto simp: receive_ok_def)
    show "\<forall>a. Peer_receive a \<in> set (peer_always_trigger_head (receive_unlink r w)) \<longrightarrow>
        a \<in> rx_addr ` (set (receive_head w) - {r})"
      using ok inj(2) r by (auto simp: receive_ok_def receive_unlink_def)
  qed
qed

section \<open>The event handler\<close>

lemma receive_store_other:
  assumes "rx_same r r'"
  shows "filter (\<lambda>q. rx_addr q \<noteq> rx_addr r) (map (\<lambda>q. if rx_addr q = rx_addr r' then r' else q) rs) =
    filter (\<lambda>q. rx_addr q \<noteq> rx_addr r) rs"
  using assms by (induction rs) (auto simp: rx_same_def)

lemma receive_store_ok:
  assumes ok: "receive_ok w" and r: "r \<in> set (receive_head w)" and same: "rx_same r r'"
    and r': "rx_ok r'" "buf_length (rx_buf r') < BUF_LEN_MAX"
  shows "receive_ok (rx_store r' w)"
proof -
  have set: "set (receive_head (rx_store r' w)) = insert r' (set (receive_head w) - {r})"
  proof -
    have "inj_on rx_addr (set (receive_head w))" using ok by (simp add: receive_ok_def distinct_map)
    then have "rx_addr q = rx_addr r' \<longleftrightarrow> q = r" if "q \<in> set (receive_head w)" for q
      using that r same by (auto simp: rx_same_def dest: inj_onD)
    with r show ?thesis by (auto simp: rx_store_def)
  qed
  have inj: "inj_on rx_addr (insert r (set (receive_head w)))"
    using ok r by (simp add: receive_ok_def distinct_map insert_absorb)
  have maps: "map rx_addr (receive_head (rx_store r' w)) = map rx_addr (receive_head w)"
    "map rx_fd (receive_head (rx_store r' w)) = map rx_fd (receive_head w)"
    using map_store [OF same] inj by (simp_all add: rx_store_def)
  have img: "rx_addr ` set (receive_head (rx_store r' w)) = rx_addr ` set (receive_head w)"
    using arg_cong [OF maps(1), of set] by simp
  have all: "all_sends (rx_store r' w) = all_sends w" by (simp add: all_sends_def rx_store_def)
  have reg: "peer_registered ptr p (rx_store r' w) = peer_registered ptr p w"
    "peer_state_ok (rx_store r' w) = peer_state_ok w" for ptr p
    by (simp_all add: peer_registered_def peer_state_ok_def rx_store_def)
  have f: "rx_addr r' = rx_addr r" "rx_peer r' = rx_peer r" "rx_fd r' = rx_fd r"
    using same by (simp_all add: rx_same_def rx_fd_def)
  have so: "send_ok (rx_store r' w)"
    using ok unfolding receive_ok_def send_ok_def all reg by (simp add: rx_store_def)
  show ?thesis
    unfolding receive_ok_def maps img set all reg
    using ok r r' so by (auto simp: receive_ok_def f) (auto simp: rx_store_def)
qed

text \<open>A world that differs only in its output and counters.\<close>

lemma receive_ok_output:
  fixes w :: "'a receive_state_scheme"
  assumes ok: "receive_ok w" and w': "only_output w w'" "stats_ok (stats w')"
  shows "receive_ok w'"
proof -
  from w'(1) obtain ss n tr where eq: "w' = w\<lparr>stats := ss, tick := n, trace := tr\<rparr>" by (auto simp: only_output_def)
  have reg: "peer_registered ptr p w' = peer_registered ptr p w" "all_sends w' = all_sends w" for ptr p
    by (simp_all add: peer_registered_def all_sends_def eq)
  have "send_ok w'" using send_ok_output [OF _ w'] ok by (simp add: receive_ok_def)
  then show ?thesis
    using ok unfolding receive_ok_def reg by (simp add: eq)
qed

lemma only_output_ticked: "only_output w (w\<lparr>tick := n\<rparr>)"
proof -
  have "w\<lparr>tick := n\<rparr> = w\<lparr>stats := stats w, tick := n, trace := trace w\<rparr>" by simp
  then show ?thesis unfolding only_output_def by blast
qed

lemma only_output_fields:
  fixes w :: "'a receive_state_scheme"
  assumes "only_output w w'"
  shows "peer_count_in w' = peer_count_in w" "receive_head w' = receive_head w" "fds w' = fds w"
    "peer_shutdown_flag w' = peer_shutdown_flag w"
  using assms by (auto simp: only_output_def)

text \<open>
  What the handler does to the world: output and counters change, and then either the structure of
  the connection is updated or the connection is unlinked and its owner called.
\<close>

lemma receive_read_frame:
  fixes w :: "'a receive_state_scheme"
  assumes E: "env_ok E" and ok: "receive_ok w" and r: "r \<in> set (receive_head w)"
  shows "\<exists>w' es. only_output w w' \<and> receive_ok w' \<and> trace w' = trace w @ es \<and>
    (\<forall>p \<in> offered es. forwarded_ok (receive_max_hops w) p) \<and>
    (receive_read E call (rx_addr r) w = peer_call call (rx_on_close r) (receive_unlink r w') \<or>
     (\<exists>r'. rx_same r r' \<and> rx_ok r' \<and> buf_length (rx_buf r') < BUF_LEN_MAX \<and>
        receive_read E call (rx_addr r) w = Some (rx_store r' w')))"
proof -
  have rok: "rx_ok r" "buf_length (rx_buf r) < BUF_LEN_MAX" "buf_ok (rx_buf r)"
    and reg: "peer_registered (Peer_receive (rx_addr r)) (rx_peer r) w"
    using ok r by (auto simp: receive_ok_def rx_ok_def)
  define rd where "rd = env_read E (tick w) (peer_fd (rx_peer r))"
  have "read_ok rd" using E by (simp add: env_ok_def rd_def)
  from buf_fill_view [OF rok(3) this rok(2)] obtain n b where
    fill: "buf_fill rd (rx_buf r) = Some (n, b)" "buf_ok b" by (auto split: option.splits)
  define wt where "wt = w\<lparr>tick := tick w + 1\<rparr>"
  have wt: "only_output w wt" "out_ok wt" "receive_max_hops wt = receive_max_hops w" "trace wt = trace w"
    using receive_ok_out [OF ok] by (simp_all add: wt_def only_output_ticked out_ok_def)
  have wt_ok: "receive_ok wt"
    using receive_ok_output [OF ok wt(1)] wt(2) by (simp add: out_ok_def)
  define r0 where "r0 = r\<lparr>rx_buf := b\<rparr>"
  have r0: "rx_ok r0" "rx_same r r0" using rok fill(2) by (simp_all add: r0_def rx_ok_def rx_same_def)
  have rd0: "receive_read E call (rx_addr r) w =
      (if n \<le> 0 then receive_del call r0 wt
       else do {
         (r', w') \<leftarrow> receive_drain E (buf_length (rx_buf r0)) r0 wt;
         if buf_length (rx_buf r') = BUF_LEN_MAX then receive_del call r' (rx_store r' w')
         else Some (rx_store r' w')
       })"
  proof (cases "n \<le> 0")
    case True
    then show ?thesis
      using receive_find [OF ok r] fill(1) by (simp add: receive_read_def rd_def [symmetric] wt_def r0_def)
  next
    case False
    from receive_drain_spec [OF E r0(1) wt(2) le_refl] obtain r' w' where
      "receive_drain E (buf_length (rx_buf r0)) r0 wt = Some (r', w')" "rx_same r0 r'" by blast
    moreover from this have "rx_addr r' = rx_addr r" using r0(2) by (simp add: rx_same_def)
    ultimately show ?thesis
      using receive_find [OF ok r] fill(1) False
      by (simp add: receive_read_def rd_def [symmetric] wt_def r0_def rx_store_def)
  qed
  have unlink_same: "receive_unlink r' v = receive_unlink r v" if "rx_same r r'" for r' and v :: "'a receive_state_scheme"
    using that by (simp add: receive_unlink_def rx_same_def rx_fd_def)
  show ?thesis
  proof (cases "n \<le> 0")
    case True
    have "peer_registered ptr p wt = peer_registered ptr p w" for ptr p
      by (simp add: wt_def peer_registered_def)
    then have "peer_registered (Peer_receive (rx_addr r0)) (rx_peer r0) wt" using reg by (simp add: r0_def)
    then have "receive_del call r0 wt = peer_call call (rx_on_close r) (receive_unlink r wt)"
      using receive_del_eq [of r0 wt call] r0(2) unlink_same [OF r0(2)] by (simp add: rx_same_def)
    then show ?thesis
      using True rd0 wt wt_ok by (intro exI [of _ wt] exI [of _ "[]"]) simp
  next
    case False
    from receive_drain_spec [OF E r0(1) wt(2) le_refl] obtain r' w' es where
      d: "receive_drain E (buf_length (rx_buf r0)) r0 wt = Some (r', w')" "rx_ok r'" "rx_same r0 r'" "only_output wt w'"
        "out_ok w'" "trace w' = trace wt @ es" "\<forall>q \<in> offered es. forwarded_ok (receive_max_hops wt) q" by blast
    have same: "rx_same r r'" using rx_same_trans [OF r0(2) d(3)] .
    have w'ok: "receive_ok w'" using receive_ok_output [OF wt_ok d(4)] d(5) by (simp add: out_ok_def)
    have heads: "receive_head w' = receive_head w" using only_output_fields [OF d(4)] by (simp add: wt_def)
    have oo: "only_output w w'" using only_output_trans [OF wt(1) d(4)] .
    have rw': "r \<in> set (receive_head w')" using r heads by simp
    show ?thesis
    proof (cases "buf_length (rx_buf r') = BUF_LEN_MAX")
      case True
      have regw: "peer_registered (Peer_receive (rx_addr r')) (rx_peer r') (rx_store r' w')"
      proof -
        have "peer_registered (Peer_receive (rx_addr r)) (rx_peer r) w'" using w'ok rw' by (simp add: receive_ok_def)
        moreover have "peer_registered ptr p (rx_store r' w') = peer_registered ptr p w'" for ptr p
          by (simp add: peer_registered_def rx_store_def)
        ultimately show ?thesis using same by (simp add: rx_same_def)
      qed
      have un: "receive_unlink r' (rx_store r' w') = receive_unlink r w'"
        using receive_store_other [OF same, of "receive_head w'"]
        by (simp add: unlink_same [OF same]) (simp add: receive_unlink_def rx_store_def)
      have "receive_read E call (rx_addr r) w = peer_call call (rx_on_close r) (receive_unlink r w')"
        using rd0 False d(1) True receive_del_eq [OF regw] same by (simp add: un rx_same_def)
      then show ?thesis
        using oo w'ok d(6,7) wt(3,4) by (intro exI [of _ w'] exI [of _ es]) simp
    next
      case small: False
      have "buf_length (rx_buf r') < BUF_LEN_MAX"
        using small d(2) buf_view_bound [of "rx_buf r'"] by (simp add: rx_ok_def BUF_LEN_MAX_def)
      then show ?thesis
        using oo w'ok same rd0 False d(1,2,6,7) small wt(3,4) by (intro exI [of _ w'] exI [of _ es]) auto
    qed
  qed
qed

lemma receive_read_spec:
  fixes w :: "'a receive_state_scheme"
  assumes E: "env_ok E" and ok: "receive_ok w" and r: "r \<in> set (receive_head w)"
  shows "\<exists>w1 es. receive_ok w1 \<and> trace w1 = trace w @ es \<and>
    (\<forall>p \<in> offered es. forwarded_ok (receive_max_hops w) p) \<and>
    (receive_read E call (rx_addr r) w = Some w1 \<and> peer_count_in w1 = peer_count_in w \<and>
       map rx_addr (receive_head w1) = map rx_addr (receive_head w)
     \<or> receive_read E call (rx_addr r) w = peer_call call (rx_on_close r) w1 \<and>
       peer_count_in w1 = peer_count_in w - 1 \<and>
       receive_head w1 = filter (\<lambda>q. rx_addr q \<noteq> rx_addr r) (receive_head w))"
proof -
  from receive_read_frame [OF assms, of call] obtain w' es where
    f: "only_output w w'" "receive_ok w'" "trace w' = trace w @ es"
      "\<forall>p \<in> offered es. forwarded_ok (receive_max_hops w) p"
    and c: "receive_read E call (rx_addr r) w = peer_call call (rx_on_close r) (receive_unlink r w') \<or>
     (\<exists>r'. rx_same r r' \<and> rx_ok r' \<and> buf_length (rx_buf r') < BUF_LEN_MAX \<and>
        receive_read E call (rx_addr r) w = Some (rx_store r' w'))" by blast
  note heads = only_output_fields [OF f(1)]
  have rw': "r \<in> set (receive_head w')" using r heads by simp
  from c show ?thesis
  proof (elim disjE exE conjE)
    assume "receive_read E call (rx_addr r) w = peer_call call (rx_on_close r) (receive_unlink r w')"
    then show ?thesis
      using receive_unlink_spec(1) [OF f(2) rw'] f(3,4) heads
      by (intro exI [of _ "receive_unlink r w'"] exI [of _ es]) (simp add: receive_unlink_def)
  next
    fix r'
    assume r': "rx_same r r'" "rx_ok r'" "buf_length (rx_buf r') < BUF_LEN_MAX"
      and go: "receive_read E call (rx_addr r) w = Some (rx_store r' w')"
    note st = receive_store_ok [OF f(2) rw' r']
    have "map rx_addr (receive_head (rx_store r' w')) = map rx_addr (receive_head w)"
      using map_store(1) [OF r'(1)] heads by (simp add: rx_store_def)
    then show ?thesis
      using st go f(3,4) heads by (intro exI [of _ "rx_store r' w'"] exI [of _ es]) (simp add: rx_store_def)
  qed
qed

section \<open>New connections\<close>

definition fd_free :: "int \<Rightarrow> 'a receive_state_scheme \<Rightarrow> bool" where
  "fd_free fd w \<longleftrightarrow> fd_fresh fd w \<and> fd \<notin> rx_fd ` set (receive_head w)"

lemma receive_new_eq:
  assumes ok: "receive_ok w" and fd: "fd_free fd w"
  shows "\<exists>uid rs info p. valid_id uid \<and> rand_ok rs \<and> fds w fd = Some info \<and> peer_fd p = fd \<and>
    peer_always_trigger p = (\<not> fd_pollable info) \<and>
    receive_new E fd on_close w =
      (let r = \<lparr>rx_addr = next_addr w, rx_peer = p, rx_stat = fd_stat info, rx_on_close = on_close, rx_id = uid,
         rx_buf = buf_init BUF_INIT, rx_parser_state = parser_state_zero, rx_parser = None\<rparr>
       in Some (w\<lparr>peer_count_in := peer_count_in w + 1, next_addr := next_addr w + 1, rnd := rs,
            epoll_set := (if fd_pollable info then (epoll_set w)(fd \<mapsto> Peer_receive (next_addr w)) else epoll_set w),
            peer_always_trigger_head := (if fd_pollable info then peer_always_trigger_head w
              else peer_always_trigger_head w @ [Peer_receive (next_addr w)]),
            receive_head := receive_head w @ [r]\<rparr>))"
proof -
  obtain info where info: "fds w fd = Some info" "epoll_set w fd = None" using fd by (auto simp: fd_free_def fd_fresh_def)
  have r: "rand_ok (rnd w)" using ok by (simp add: receive_ok_def send_ok_def)
  obtain uid rs where u: "uuid_gen (env_entropy E) (rnd w) (replicate UUID_LEN 0) = Some (uid, rs)" "rand_ok rs"
    "valid_id uid"
    using uuid_gen_valid [OF r, of "replicate UUID_LEN 0" "env_entropy E"] by (auto simp: UUID_LEN_def)
  show ?thesis
    using info u
    by (intro exI [of _ uid] exI [of _ rs] exI [of _ info]
        exI [of _ "\<lparr>peer_fd = fd, peer_always_trigger = \<not> fd_pollable info\<rparr>"])
      (simp add: receive_new_def Let_def peer_epoll_add_def epoll_ctl_add_def)
qed

lemma receive_new_spec:
  fixes w :: "'a receive_state_scheme"
  assumes ok: "receive_ok w" and fd: "fd_free fd w"
  shows "\<exists>w' r. receive_new E fd on_close w = Some w' \<and> receive_ok w' \<and> rx_fd r = fd \<and>
    rx_on_close r = on_close \<and> receive_head w' = receive_head w @ [r] \<and>
    peer_count_in w' = peer_count_in w + 1 \<and> send_heads w' = send_heads w \<and> trace w' = trace w \<and>
    receive_max_hops w' = receive_max_hops w \<and> peer_count_out w' = peer_count_out w"
proof -
  from receive_new_eq [OF ok fd] obtain uid rs info p where
    u: "valid_id uid" "rand_ok rs" "fds w fd = Some info" "peer_fd p = fd" "peer_always_trigger p = (\<not> fd_pollable info)"
    and eq: "receive_new E fd on_close w =
      (let r = \<lparr>rx_addr = next_addr w, rx_peer = p, rx_stat = fd_stat info, rx_on_close = on_close, rx_id = uid,
         rx_buf = buf_init BUF_INIT, rx_parser_state = parser_state_zero, rx_parser = None\<rparr>
       in Some (w\<lparr>peer_count_in := peer_count_in w + 1, next_addr := next_addr w + 1, rnd := rs,
            epoll_set := (if fd_pollable info then (epoll_set w)(fd \<mapsto> Peer_receive (next_addr w)) else epoll_set w),
            peer_always_trigger_head := (if fd_pollable info then peer_always_trigger_head w
              else peer_always_trigger_head w @ [Peer_receive (next_addr w)]),
            receive_head := receive_head w @ [r]\<rparr>))" by blast
  define r where "r = \<lparr>rx_addr = next_addr w, rx_peer = p, rx_stat = fd_stat info, rx_on_close = on_close, rx_id = uid,
     rx_buf = buf_init BUF_INIT, rx_parser_state = parser_state_zero, rx_parser = None\<rparr>"
  define w' where "w' = w\<lparr>peer_count_in := peer_count_in w + 1, next_addr := next_addr w + 1, rnd := rs,
     epoll_set := (if fd_pollable info then (epoll_set w)(fd \<mapsto> Peer_receive (next_addr w)) else epoll_set w),
     peer_always_trigger_head := (if fd_pollable info then peer_always_trigger_head w
       else peer_always_trigger_head w @ [Peer_receive (next_addr w)]),
     receive_head := receive_head w @ [r]\<rparr>"
  have new: "receive_new E fd on_close w = Some w'" unfolding eq by (simp add: w'_def r_def)
  have f: "rx_fd r = fd" "rx_addr r = next_addr w" "rx_on_close r = on_close" "rx_peer r = p"
    by (simp_all add: r_def rx_fd_def u(4))
  have rok: "rx_ok r" "buf_length (rx_buf r) < BUF_LEN_MAX"
    using u(1) buf_ok_init [of BUF_INIT] by (simp_all add: r_def rx_ok_def BUF_INIT_def buf_init_def BUF_LEN_MAX_def)
  have all: "all_sends w' = all_sends w" by (simp add: all_sends_def w'_def)
  have s: "send_ok w" using ok by (simp add: receive_ok_def)
  have fresh: "Peer_receive (next_addr w) \<notin> set (peer_always_trigger_head w)"
    using ok unfolding receive_ok_def by (metis imageE less_irrefl)
  have fdn: "\<forall>t \<in> set (all_sends w). snd_fd t \<noteq> fd" "\<forall>t \<in> set (receive_head w). rx_fd t \<noteq> fd"
    using fd by (auto simp: fd_free_def fd_fresh_def)
  have other: "peer_registered ptr q w'"
    if "peer_registered ptr q w" "peer_fd q \<noteq> fd" "ptr \<noteq> Peer_receive (next_addr w)" for ptr q
    using that by (auto simp: peer_registered_def w'_def)
  have self: "peer_registered (Peer_receive (rx_addr r)) (rx_peer r) w'"
    using fd u(3-5) fresh by (auto simp: peer_registered_def w'_def f fd_free_def fd_fresh_def)
  have st: "peer_state_ok w'"
    using s u(3) fresh by (auto simp: send_ok_def peer_state_ok_def w'_def split: if_splits)
  have "send_ok w'"
    unfolding send_ok_def all
  proof (intro conjI)
    show "\<forall>t \<in> set (all_sends w). snd_addr t < next_addr w' \<and> valid_id (snd_id t) \<and>
        peer_registered (Peer_send (snd_addr t)) (snd_peer t) w' \<and>
        (\<forall>i. fds w' (snd_fd t) = Some i \<longrightarrow> snd_stat t = fd_stat i)"
      using s fdn(1) other by (auto simp: send_ok_def snd_fd_def) (auto simp: w'_def)
  qed (use s st u(2) in \<open>auto simp: send_ok_def w'_def\<close>)
  moreover have "\<forall>t \<in> set (receive_head w). rx_addr t < next_addr w"
    using ok by (simp add: receive_ok_def)
  ultimately have "receive_ok w'"
    unfolding receive_ok_def all
  proof (intro conjI)
    show "\<forall>t \<in> set (receive_head w'). rx_addr t < next_addr w' \<and> rx_ok t \<and> buf_length (rx_buf t) < BUF_LEN_MAX \<and>
        peer_registered (Peer_receive (rx_addr t)) (rx_peer t) w'"
    proof
      fix t
      assume "t \<in> set (receive_head w')"
      then consider "t = r" | "t \<in> set (receive_head w)" by (auto simp: w'_def)
      then show "rx_addr t < next_addr w' \<and> rx_ok t \<and> buf_length (rx_buf t) < BUF_LEN_MAX \<and>
          peer_registered (Peer_receive (rx_addr t)) (rx_peer t) w'"
      proof cases
        case 1
        then show ?thesis using rok self f by (simp add: w'_def)
      next
        case 2
        then have t: "rx_addr t < next_addr w" "rx_ok t" "buf_length (rx_buf t) < BUF_LEN_MAX"
          "peer_registered (Peer_receive (rx_addr t)) (rx_peer t) w" "rx_fd t \<noteq> fd"
          using ok fdn(2) by (auto simp: receive_ok_def)
        then have "peer_registered (Peer_receive (rx_addr t)) (rx_peer t) w'"
          by (intro other) (auto simp: rx_fd_def)
        with t show ?thesis by (simp add: w'_def)
      qed
    qed
  qed (use ok fdn f in \<open>auto simp: receive_ok_def w'_def\<close>)
  then show ?thesis
    using new f by (intro exI [of _ w'] exI [of _ r]) (simp add: w'_def)
qed

section \<open>Outgoing connections in the same world\<close>

lemma send_unlink_receive_ok:
  fixes w :: "'a receive_state_scheme"
  assumes ok: "receive_ok w" and s: "s \<in> set (all_sends w)"
  shows "receive_ok (send_unlink s w)"
proof -
  have so: "send_ok w" using ok by (simp add: receive_ok_def)
  note u = send_unlink_spec [OF so s]
  have reg: "peer_registered (Peer_receive (rx_addr r)) (rx_peer r) (send_unlink s w)" if "r \<in> set (receive_head w)" for r
  proof -
    have "peer_registered (Peer_receive (rx_addr r)) (rx_peer r) w" "rx_fd r \<noteq> snd_fd s"
      using ok s that by (auto simp: receive_ok_def)
    then show ?thesis
      by - (rule peer_registered_other [of _ _ w "snd_fd s" "Peer_send (snd_addr s)"],
        simp_all add: send_unlink_def rx_fd_def)
  qed
  have frame: "receive_head (send_unlink s w) = receive_head w" "next_addr (send_unlink s w) = next_addr w"
    "\<forall>a. Peer_receive a \<in> set (peer_always_trigger_head (send_unlink s w)) \<longleftrightarrow>
      Peer_receive a \<in> set (peer_always_trigger_head w)"
    by (simp_all add: send_unlink_def)
  show ?thesis
    using ok reg u(1) unfolding receive_ok_def frame(1,2) u(2) by (auto simp: frame(3))
qed

lemma send_new_receive_ok:
  fixes w :: "'a receive_state_scheme"
  assumes ok: "receive_ok w" and fd: "fd_free fd w" and i: "i < NUM_SERIALIZERS"
  shows "\<exists>w' s uid rs info p. send_new E fd i on_close w = Some w' \<and> receive_ok w' \<and> fds w fd = Some info \<and> rand_ok rs \<and>
    s = \<lparr>snd_addr = next_addr w, snd_peer = p, snd_stat = fd_stat info, snd_on_close = on_close, snd_id = uid\<rparr> \<and>
    peer_fd p = fd \<and>
    w' = w\<lparr>peer_count_out := peer_count_out w + 1, next_addr := next_addr w + 1, rnd := rs,
      epoll_set := (if fd_pollable info then (epoll_set w)(fd \<mapsto> Peer_send (next_addr w)) else epoll_set w),
      send_heads := (send_heads w)[i := send_heads w ! i @ [s]]\<rparr> \<and>
    set (all_sends w') = insert s (set (all_sends w)) \<and> mset (all_sends w') = add_mset s (mset (all_sends w))"
proof -
  have so: "send_ok w" and fr: "fd_fresh fd w" using ok fd by (simp_all add: receive_ok_def fd_free_def)
  from send_new_eq [OF so fr i, of E on_close] obtain uid rs info p where
    r: "rand_ok rs" "fds w fd = Some info" "peer_fd p = fd"
    and eq: "send_new E fd i on_close w =
      (let s = \<lparr>snd_addr = next_addr w, snd_peer = p, snd_stat = fd_stat info, snd_on_close = on_close, snd_id = uid\<rparr>
       in Some (w\<lparr>peer_count_out := peer_count_out w + 1, next_addr := next_addr w + 1, rnd := rs,
            epoll_set := (if fd_pollable info then (epoll_set w)(fd \<mapsto> Peer_send (next_addr w)) else epoll_set w),
            send_heads := (send_heads w)[i := send_heads w ! i @ [s]]\<rparr>))" by blast
  define s where "s = \<lparr>snd_addr = next_addr w, snd_peer = p, snd_stat = fd_stat info, snd_on_close = on_close, snd_id = uid\<rparr>"
  define w' where "w' = w\<lparr>peer_count_out := peer_count_out w + 1, next_addr := next_addr w + 1, rnd := rs,
      epoll_set := (if fd_pollable info then (epoll_set w)(fd \<mapsto> Peer_send (next_addr w)) else epoll_set w),
      send_heads := (send_heads w)[i := send_heads w ! i @ [s]]\<rparr>"
  have new: "send_new E fd i on_close w = Some w'" unfolding eq by (simp add: w'_def s_def)
  have so': "send_ok w'" using send_new_spec [OF so fr i, of E on_close] new by auto
  have len: "i < length (send_heads w)" using so i by (simp add: send_ok_def)
  have m: "mset (all_sends w') = add_mset s (mset (all_sends w))"
    using concat_update_append [OF len] by (simp add: all_sends_def w'_def)
  have all: "set (all_sends w') = insert s (set (all_sends w))" using distinct_map_add(2) [OF m] .
  have sfd: "snd_fd s = fd" using r(3) by (simp add: s_def snd_fd_def)
  have fdn: "\<forall>t \<in> set (receive_head w). rx_fd t \<noteq> fd" using fd by (auto simp: fd_free_def)
  have reg: "peer_registered (Peer_receive (rx_addr t)) (rx_peer t) w'" if t: "t \<in> set (receive_head w)" for t
  proof -
    have "peer_registered (Peer_receive (rx_addr t)) (rx_peer t) w" "peer_fd (rx_peer t) \<noteq> fd"
      using ok fdn t by (auto simp: receive_ok_def rx_fd_def)
    then show ?thesis by (auto simp: peer_registered_def w'_def)
  qed
  have frame: "receive_head w' = receive_head w" "next_addr w' = next_addr w + 1"
    "peer_always_trigger_head w' = peer_always_trigger_head w" by (simp_all add: w'_def)
  have "receive_ok w'"
    using ok so' reg fdn unfolding receive_ok_def frame all by (auto simp: sfd intro: less_SucI)
  then show ?thesis using new r m all s_def w'_def by blast
qed

section \<open>Properties\<close>

text \<open>One input on a descriptor epoll refuses, and the two outputs of the sample.\<close>

definition sample_receive :: receive where
  "sample_receive = \<lparr>rx_addr = 2, rx_peer = \<lparr>peer_fd = 7, peer_always_trigger = True\<rparr>,
     rx_stat = \<lparr>st_dev = 1, st_ino = 4\<rparr>, rx_on_close = None, rx_id = sample_id, rx_buf = BUF_INIT,
     rx_parser_state = parser_state_zero, rx_parser = None\<rparr>"

definition sample_world :: receive_state where
  "sample_world = \<lparr>peer_count_in = 1, peer_count_out = 2, peer_count_out_in = 0, peer_shutdown_flag = False,
     peer_shutdown_peer = \<lparr>peer_fd = -1, peer_always_trigger = False\<rparr>, peer_always_trigger_head = [Peer_receive 2],
     fds = sample_fds, epoll_set = [5 \<mapsto> Peer_send 0, 6 \<mapsto> Peer_send 1],
     send_heads = [[], [], [], [], [sample_send 0 5 2, sample_send 1 6 3], []],
     stats = stats_init 0, json_hello_buf = BUF_INIT, proto_hello_buf = BUF_INIT,
     rnd = \<lparr>rand_buf = BUF_INIT, rand_pos = 0\<rparr>, next_addr = 3, tick = 0, trace = [],
     receive_head = [sample_receive], receive_max_hops = 10\<rparr>"

lemma sample_rx_ok: "rx_ok sample_receive"
  using sample_id_valid by (simp add: rx_ok_def sample_receive_def)

lemma sample_world_send_ok: "send_ok sample_world"
  using sample_id_valid
  by (auto simp: send_ok_def sample_world_def peer_state_ok_def NUM_SERIALIZERS_def all_sends_def sample_send_def
      snd_fd_def peer_registered_def sample_fds_def rand_ok_def BUF_INIT_def split: if_splits)

lemma sample_world_ok: "receive_ok sample_world"
  using sample_rx_ok sample_world_send_ok
  by (auto simp: receive_ok_def sample_world_def sample_receive_def all_sends_def sample_send_def snd_fd_def rx_fd_def
      peer_registered_def sample_fds_def BUF_INIT_def BUF_LEN_MAX_def)

text \<open>
  C12. The drain loop terminates and is safe: on any buffered bytes and any parser state, as many
  turns as there are bytes suffice, no assertion, array bound or scaling factor fails, the
  connection stays well formed, and every packet handed to the outputs passed the sanity check
  and has not exceeded the hop limit.
\<close>

theorem receive_drain_safe:
  fixes w :: "'a receive_state_scheme"
  assumes "env_ok E" and "rx_ok r" and "out_ok w"
  shows "\<exists>r' w' es. receive_drain E (buf_length (rx_buf r)) r w = Some (r', w') \<and> rx_ok r' \<and> rx_same r r' \<and>
    only_output w w' \<and> out_ok w' \<and> trace w' = trace w @ es \<and>
    (\<forall>q \<in> offered es. forwarded_ok (receive_max_hops w) q) \<and> buf_length (rx_buf r') \<le> buf_length (rx_buf r)"
  by (rule receive_drain_spec [OF assms le_refl])

theorem receive_drain_safe_witness:
  "\<exists>r' w' es. receive_drain sample_env (buf_length (rx_buf sample_receive)) sample_receive sample_world = Some (r', w') \<and>
    rx_ok r' \<and> rx_same sample_receive r' \<and> only_output sample_world w' \<and> out_ok w' \<and>
    trace w' = trace sample_world @ es \<and> (\<forall>q \<in> offered es. forwarded_ok (receive_max_hops sample_world) q) \<and>
    buf_length (rx_buf r') \<le> buf_length (rx_buf sample_receive)"
  by (rule receive_drain_safe [OF sample_env_ok sample_rx_ok receive_ok_out [OF sample_world_ok]])

text \<open>
  C4. The input handler keeps the invariant of all connections, whatever arrives: either it
  returns with the connection alive, its buffer not full and the counts unchanged, or the
  connection ended (end of input, read error, or 256 bytes no parser understands) and has been unregistered, closed
  and removed, and only then its owner is told. In both cases only sane packets within the hop
  limit were handed to the outputs.
\<close>

theorem receive_read_safe:
  fixes w :: "'a receive_state_scheme"
  assumes "env_ok E" and "receive_ok w" and "r \<in> set (receive_head w)"
  shows "\<exists>w1 es. receive_ok w1 \<and> trace w1 = trace w @ es \<and>
    (\<forall>p \<in> offered es. forwarded_ok (receive_max_hops w) p) \<and>
    (receive_read E call (rx_addr r) w = Some w1 \<and> peer_count_in w1 = peer_count_in w \<and>
       map rx_addr (receive_head w1) = map rx_addr (receive_head w)
     \<or> receive_read E call (rx_addr r) w = peer_call call (rx_on_close r) w1 \<and>
       peer_count_in w1 = peer_count_in w - 1 \<and>
       receive_head w1 = filter (\<lambda>q. rx_addr q \<noteq> rx_addr r) (receive_head w))"
  by (rule receive_read_spec [OF assms])

theorem receive_read_safe_witness:
  "\<exists>w1 es. receive_ok w1 \<and> trace w1 = trace sample_world @ es \<and>
    (\<forall>p \<in> offered es. forwarded_ok (receive_max_hops sample_world) p) \<and>
    (receive_read sample_env (\<lambda>ptr. Some) (rx_addr sample_receive) sample_world = Some w1 \<and>
       peer_count_in w1 = peer_count_in sample_world \<and>
       map rx_addr (receive_head w1) = map rx_addr (receive_head sample_world)
     \<or> receive_read sample_env (\<lambda>ptr. Some) (rx_addr sample_receive) sample_world =
         peer_call (\<lambda>ptr. Some) (rx_on_close sample_receive) w1 \<and>
       peer_count_in w1 = peer_count_in sample_world - 1 \<and>
       receive_head w1 = filter (\<lambda>q. rx_addr q \<noteq> rx_addr sample_receive) (receive_head sample_world))"
  by (rule receive_read_safe [OF sample_env_ok sample_world_ok]) (simp add: sample_world_def)

text \<open>
  Opening an input on a free descriptor never aborts and keeps the invariant: it starts with an
  empty buffer in format detection, registered with epoll or in the always-trigger list, and the
  count of inputs grows by one.
\<close>

theorem receive_new_keeps_invariant:
  fixes w :: "'a receive_state_scheme"
  assumes "receive_ok w" and "fd_free fd w"
  shows "\<exists>w' r. receive_new E fd on_close w = Some w' \<and> receive_ok w' \<and> rx_fd r = fd \<and>
    rx_on_close r = on_close \<and> receive_head w' = receive_head w @ [r] \<and>
    peer_count_in w' = peer_count_in w + 1 \<and> send_heads w' = send_heads w \<and> trace w' = trace w \<and>
    receive_max_hops w' = receive_max_hops w \<and> peer_count_out w' = peer_count_out w"
  by (rule receive_new_spec [OF assms])

definition sample_world2 :: receive_state where
  "sample_world2 = sample_world\<lparr>fds := (fds sample_world)(8 \<mapsto> \<lparr>fd_pollable = True, fd_stat = \<lparr>st_dev = 1, st_ino = 9\<rparr>\<rparr>)\<rparr>"

lemma sample_world2_ok: "receive_ok sample_world2"
proof -
  have "send_ok sample_world2"
    using sample_id_valid
    by (auto simp: send_ok_def sample_world2_def sample_world_def peer_state_ok_def NUM_SERIALIZERS_def all_sends_def
        sample_send_def snd_fd_def peer_registered_def sample_fds_def rand_ok_def BUF_INIT_def split: if_splits)
  then show ?thesis
    using sample_rx_ok
    by (auto simp: receive_ok_def sample_world2_def sample_world_def sample_receive_def all_sends_def sample_send_def
        snd_fd_def rx_fd_def peer_registered_def sample_fds_def BUF_INIT_def BUF_LEN_MAX_def)
qed

theorem receive_new_keeps_invariant_witness:
  "\<exists>w' r. receive_new sample_env 8 None sample_world2 = Some w' \<and> receive_ok w' \<and> rx_fd r = 8 \<and>
    rx_on_close r = None \<and> receive_head w' = receive_head sample_world2 @ [r] \<and>
    peer_count_in w' = peer_count_in sample_world2 + 1 \<and> send_heads w' = send_heads sample_world2 \<and>
    trace w' = trace sample_world2 \<and> receive_max_hops w' = receive_max_hops sample_world2 \<and>
    peer_count_out w' = peer_count_out sample_world2"
  by (rule receive_new_keeps_invariant [OF sample_world2_ok])
    (simp add: fd_free_def fd_fresh_def sample_world2_def sample_world_def sample_fds_def all_sends_def sample_send_def
      snd_fd_def rx_fd_def sample_receive_def)

text \<open>
  Detection of the format is safe on every buffer: the parsers are tried in order from the same
  packet, the index recorded is that of the parser that accepted, and rejected bytes stay for
  the next read.
\<close>

theorem receive_parse_safe:
  assumes "env_ok E" and "rx_ok r" and "packet_ready p"
  shows "\<exists>ok r' p'. receive_parse E r p = Some (ok, r', p') \<and> rx_ok r' \<and> rx_same r r' \<and>
    packet_frame p p' \<and> (\<not> ok \<longrightarrow> rx_buf r' = rx_buf r) \<and>
    (ok \<longrightarrow> consumed (rx_buf r) (rx_buf r') \<and> rx_parser r' \<noteq> None \<and> (ptype p' = PACKET_TYPE_NONE \<or> packet_sane p'))"
  by (rule receive_parse_spec [OF assms])

theorem receive_parse_safe_witness:
  "\<exists>ok r' p'. receive_parse sample_env sample_receive sample_empty = Some (ok, r', p') \<and> rx_ok r' \<and>
    rx_same sample_receive r' \<and> packet_frame sample_empty p' \<and> (\<not> ok \<longrightarrow> rx_buf r' = rx_buf sample_receive) \<and>
    (ok \<longrightarrow> consumed (rx_buf sample_receive) (rx_buf r') \<and> rx_parser r' \<noteq> None \<and>
      (ptype p' = PACKET_TYPE_NONE \<or> packet_sane p'))"
  by (rule receive_parse_safe [OF sample_env_ok sample_rx_ok sample_empty_ready])

end
