(* ===== verification/Wakeup.thy ===== *)
theory Wakeup
  imports Receive
begin

text \<open>
  Model of \<^verbatim>\<open>adsbus/wakeup.c\<close>: one-shot timers that call a peer back, and the retry delay with
  its jitter. A timer descriptor is created and armed in the kernel state \<open>timers\<close>: \<open>None\<close> for
  a descriptor that is no timer, \<open>Some None\<close> for a disarmed timer, \<open>Some (Some ns)\<close> for one that
  will expire once after \<open>ns\<close> nanoseconds.
\<close>

section \<open>State\<close>

record wakeup =
  wk_addr :: nat
  wk_peer :: peer
  wk_inner :: peer_ref

record wakeup_state = receive_state +
  wakeup_head :: "wakeup list"
  timers :: "int \<Rightarrow> nat option option"

section \<open>The kernel calls\<close>

text \<open>\<^verbatim>\<open>timerfd_create\<close>, given the descriptor it returns; timers can be polled.\<close>

definition timerfd_create :: "int \<Rightarrow> stat \<Rightarrow> 'a wakeup_state_scheme \<Rightarrow> 'a wakeup_state_scheme" where
  "timerfd_create fd st w =
     (if fd < 0 then w
      else w\<lparr>fds := (fds w)(fd \<mapsto> \<lparr>fd_pollable = True, fd_stat = st\<rparr>), timers := (timers w)(fd \<mapsto> None)\<rparr>)"

text \<open>\<^verbatim>\<open>timerfd_settime\<close> with a zero interval; a value of zero disarms the timer.\<close>

definition timerfd_settime :: "int \<Rightarrow> u64 \<Rightarrow> u64 \<Rightarrow> 'a wakeup_state_scheme \<Rightarrow> (bool \<times> 'a wakeup_state_scheme)" where
  "timerfd_settime fd sec nsec w =
     (if timers w fd = None \<or> 1000000000 \<le> nsec then (False, w)
      else (True, w\<lparr>timers := (timers w)(fd \<mapsto>
        (if sec = 0 \<and> nsec = 0 then None else Some (unat sec * 1000000000 + unat nsec)))\<rparr>))"

section \<open>Operations\<close>

definition MS_PER_S :: u64 where
  "MS_PER_S = 1000"

definition NS_PER_MS :: u64 where
  "NS_PER_MS = 1000000"

definition wakeup_del :: "wakeup \<Rightarrow> 'a wakeup_state_scheme \<Rightarrow> 'a wakeup_state_scheme option" where
  "wakeup_del wk w = do {
     (p, w) \<leftarrow> peer_close (Peer_wakeup (wk_addr wk)) (wk_peer wk) w;
     Some (w\<lparr>wakeup_head := filter (\<lambda>v. wk_addr v \<noteq> wk_addr wk) (wakeup_head w)\<rparr>)
   }"

text \<open>
  The event handler of the timer at address \<open>a\<close>. The parameter is what \<^verbatim>\<open>read\<close> on the timer returns and
  stores. A structure that is no longer in the list has been freed.
\<close>

definition wakeup_find :: "nat \<Rightarrow> 'a wakeup_state_scheme \<Rightarrow> wakeup option" where
  "wakeup_find a w = find (\<lambda>v. wk_addr v = a) (wakeup_head w)"

definition wakeup_handler ::
    "(int \<Rightarrow> int \<times> u64) \<Rightarrow> (peer_ref \<Rightarrow> 'a wakeup_state_scheme \<Rightarrow> 'a wakeup_state_scheme option) \<Rightarrow>
      nat \<Rightarrow> 'a wakeup_state_scheme \<Rightarrow> 'a wakeup_state_scheme option" where
  "wakeup_handler read_timer call a w = do {
     wk \<leftarrow> wakeup_find a w;
     let (n, events) = read_timer (peer_fd (wk_peer wk));
     c_assert (n = 8);
     c_assert (events = 1);
     w \<leftarrow> peer_call call (Some (wk_inner wk)) w;
     wk \<leftarrow> wakeup_find a w;
     wakeup_del wk w
   }"

fun wakeup_del_all :: "wakeup list \<Rightarrow> 'a wakeup_state_scheme \<Rightarrow> 'a wakeup_state_scheme option" where
  "wakeup_del_all [] w = Some w"
| "wakeup_del_all (wk # wks) w = do {
     w \<leftarrow> wakeup_del wk w;
     wakeup_del_all wks w
   }"

definition wakeup_cleanup :: "'a wakeup_state_scheme \<Rightarrow> 'a wakeup_state_scheme option" where
  "wakeup_cleanup w = wakeup_del_all (wakeup_head w) w"

text \<open>\<open>fd\<close> and \<open>st\<close> are the descriptor and the file status \<^verbatim>\<open>timerfd_create\<close> gives the new timer.\<close>

definition wakeup_add ::
    "int \<Rightarrow> stat \<Rightarrow> peer_ref \<Rightarrow> u32 \<Rightarrow> 'a wakeup_state_scheme \<Rightarrow> 'a wakeup_state_scheme option" where
  "wakeup_add fd st inner delay_ms w = do {
     let a = next_addr w;
     let w = w\<lparr>next_addr := a + 1\<rparr>;
     let w = timerfd_create fd st w;
     c_assert (0 \<le> fd);
     let delay = (ucast delay_ms :: u64);
     let (ok, w) = timerfd_settime fd (delay div MS_PER_S) ((delay mod MS_PER_S) * NS_PER_MS) w;
     c_assert ok;
     (p, w) \<leftarrow> peer_epoll_add (Peer_wakeup a) \<lparr>peer_fd = fd, peer_always_trigger = False\<rparr> True w;
     Some (w\<lparr>wakeup_head := wakeup_head w @ [\<lparr>wk_addr = a, wk_peer = p, wk_inner = inner\<rparr>]\<rparr>)
   }"

section \<open>The retry delay\<close>

definition RETRY_MIN_MS :: int where
  "RETRY_MIN_MS = 2000"

definition RETRY_MAX_MS :: u32 where
  "RETRY_MAX_MS = 60000"

definition INT_MAX :: int where
  "INT_MAX = 2147483647"

text \<open>
  \<^verbatim>\<open>RETRY_MIN_MS * (1 << attempt)\<close> is computed in \<^verbatim>\<open>int\<close>: a shift or a product beyond
  \<^verbatim>\<open>INT_MAX\<close> is undefined.
\<close>

definition retry_max_delay :: "u32 \<Rightarrow> u32 option" where
  "retry_max_delay attempt = do {
     c_assert (unat attempt < 31);
     let d = RETRY_MIN_MS * 2 ^ unat attempt;
     c_assert (d \<le> INT_MAX);
     let max_delay = (of_int d :: u32);
     Some (if RETRY_MAX_MS < max_delay then RETRY_MAX_MS else max_delay)
   }"

text \<open>The four bytes of the jitter are little endian; a modulus of zero is undefined.\<close>

definition wakeup_get_retry_delay_ms :: "entropy \<Rightarrow> u32 \<Rightarrow> rand_state \<Rightarrow> (u32 \<times> rand_state) option" where
  "wakeup_get_retry_delay_ms src attempt rs = do {
     max_delay \<leftarrow> retry_max_delay attempt;
     (v, rs) \<leftarrow> rand_fill src rs 4;
     c_assert (max_delay \<noteq> 0);
     Some (word_rcat (rev v) mod max_delay, rs)
   }"

section \<open>Descriptors that belong to other components\<close>

text \<open>
  The connections do not notice that another component opens and registers a new descriptor,
  or closes one that is registered to it.
\<close>

lemma receive_ok_open:
  fixes w w' :: "'a receive_state_scheme"
  assumes ok: "receive_ok w" and new: "fds w fd = None" and info: "fd_pollable info"
    and w': "fds w' = (fds w)(fd \<mapsto> info)" "epoll_set w' = (epoll_set w)(fd \<mapsto> ptr)"
      "peer_always_trigger_head w' = peer_always_trigger_head w" "send_heads w' = send_heads w"
      "receive_head w' = receive_head w" "next_addr w \<le> next_addr w'" "rnd w' = rnd w" "stats w' = stats w"
  shows "receive_ok w'"
proof -
  have reg: "peer_registered q p w'" if "peer_registered q p w" for q p
    using that new by (auto simp: peer_registered_def w')
  have fd: "\<forall>s \<in> set (all_sends w). snd_fd s \<noteq> fd"
    using ok new by (auto simp: receive_ok_def send_ok_def peer_registered_def snd_fd_def)
  have st: "peer_state_ok w'" using ok new info by (auto simp: receive_ok_def send_ok_def peer_state_ok_def w')
  have all: "all_sends w' = all_sends w" by (simp add: all_sends_def w')
  have "send_ok w'"
    using ok st reg fd unfolding receive_ok_def send_ok_def all w'(3,4,7,8) by (auto simp: w'(1) intro: less_le_trans [OF _ w'(6)])
  then show ?thesis
    using ok reg unfolding receive_ok_def all w'(3,5) by (auto intro: less_le_trans [OF _ w'(6)])
qed

lemma receive_ok_close:
  fixes w w' :: "'a receive_state_scheme"
  assumes ok: "receive_ok w" and fd: "epoll_set w fd = Some ptr" "\<forall>a. ptr \<noteq> Peer_receive a" "\<forall>a. ptr \<noteq> Peer_send a"
    and w': "fds w' = (fds w)(fd := None)" "epoll_set w' = (epoll_set w)(fd := None)"
      "peer_always_trigger_head w' = peer_always_trigger_head w" "send_heads w' = send_heads w"
      "receive_head w' = receive_head w" "next_addr w' = next_addr w" "rnd w' = rnd w" "stats w' = stats w"
  shows "receive_ok w'"
proof -
  have st0: "peer_state_ok w" using ok by (simp add: receive_ok_def send_ok_def)
  obtain i where i: "fds w fd = Some i" "fd_pollable i" using st0 fd(1) by (auto simp: peer_state_ok_def)
  have reg: "peer_registered q p w'" if "peer_registered q p w" "q \<noteq> ptr" for q p
  proof -
    have "peer_fd p \<noteq> fd" using that i fd(1) by (auto simp: peer_registered_def)
    then show ?thesis using that by (auto simp: peer_registered_def w')
  qed
  have st: "peer_state_ok w'" using st0 by (auto simp: peer_state_ok_def w')
  have all: "all_sends w' = all_sends w" by (simp add: all_sends_def w')
  have s: "send_ok w'"
    unfolding send_ok_def all w'(3,4,6,7,8)
  proof (intro conjI)
    show "\<forall>s \<in> set (all_sends w). snd_addr s < next_addr w \<and> valid_id (snd_id s) \<and>
        peer_registered (Peer_send (snd_addr s)) (snd_peer s) w' \<and>
        (\<forall>i. fds w' (snd_fd s) = Some i \<longrightarrow> snd_stat s = fd_stat i)"
      using ok reg fd(3) by (auto simp: receive_ok_def send_ok_def w'(1) split: if_splits)
  qed (use ok st in \<open>auto simp: receive_ok_def send_ok_def\<close>)
  show ?thesis
    using ok reg s fd(2) unfolding receive_ok_def all w'(3,5,6) by auto
qed

section \<open>Invariant\<close>

definition wk_fd :: "wakeup \<Rightarrow> int" where
  "wk_fd wk = peer_fd (wk_peer wk)"

text \<open>Every pending wakeup owns a timer that is registered under its address.\<close>

definition wakeup_ok :: "'a wakeup_state_scheme \<Rightarrow> bool" where
  "wakeup_ok w \<longleftrightarrow> receive_ok w \<and> distinct (map wk_addr (wakeup_head w)) \<and>
     (\<forall>wk \<in> set (wakeup_head w). wk_addr wk < next_addr w \<and> wk_fd wk \<noteq> -1 \<and> \<not> peer_always_trigger (wk_peer wk) \<and>
        epoll_set w (wk_fd wk) = Some (Peer_wakeup (wk_addr wk)) \<and> timers w (wk_fd wk) \<noteq> None) \<and>
     (\<forall>a. Peer_wakeup a \<notin> set (peer_always_trigger_head w))"

lemma wakeup_find_eq:
  assumes "wakeup_ok w" and "wk \<in> set (wakeup_head w)"
  shows "wakeup_find (wk_addr wk) w = Some wk"
proof -
  obtain ys zs where l: "wakeup_head w = ys @ wk # zs" using split_list [OF assms(2)] by blast
  moreover have "wk_addr wk \<notin> wk_addr ` set ys" using assms(1) l by (auto simp: wakeup_ok_def)
  then have "find (\<lambda>v. wk_addr v = wk_addr wk) (ys @ wk # zs) = Some wk"
    by (induction ys) auto
  ultimately show ?thesis by (simp add: wakeup_find_def)
qed

text \<open>How long the armed timer runs, in nanoseconds.\<close>

definition delay_ns :: "u32 \<Rightarrow> nat option" where
  "delay_ns delay_ms = (if delay_ms = 0 then None else Some (unat delay_ms * 1000000))"

lemma delay_split:
  fixes delay_ms :: u32
  defines "d \<equiv> (ucast delay_ms :: u64)"
  shows "(d mod MS_PER_S) * NS_PER_MS < 1000000000"
    and "unat (d div MS_PER_S) * 1000000000 + unat ((d mod MS_PER_S) * NS_PER_MS) = unat delay_ms * 1000000"
    and "d div MS_PER_S = 0 \<and> (d mod MS_PER_S) * NS_PER_MS = 0 \<longleftrightarrow> delay_ms = 0"
proof -
  have "uint d = uint delay_ms" unfolding d_def by (rule uint_up_ucast) (simp add: is_up)
  then have d: "unat d = unat delay_ms" by (simp only: unat_eq_nat_uint)
  have dv: "unat (d div MS_PER_S) = unat delay_ms div 1000" by (simp add: unat_div MS_PER_S_def d)
  have md: "unat (d mod MS_PER_S) = unat delay_ms mod 1000" by (simp add: unat_mod MS_PER_S_def d)
  have lt: "unat (d mod MS_PER_S) * unat NS_PER_MS < 2 ^ LENGTH(64)"
  proof -
    have "unat delay_ms mod 1000 < 1000" by simp
    then have "(unat delay_ms mod 1000) * 1000000 < 1000 * 1000000" by linarith
    then show ?thesis by (simp add: md NS_PER_MS_def)
  qed
  have ns: "unat ((d mod MS_PER_S) * NS_PER_MS) = (unat delay_ms mod 1000) * 1000000"
    using lt by (simp add: unat_mult_lem [THEN iffD1] md NS_PER_MS_def)
  have m: "unat delay_ms mod 1000 < 1000" by simp
  then show "(d mod MS_PER_S) * NS_PER_MS < 1000000000"
    unfolding word_less_nat_alt ns by simp
  have dm: "unat delay_ms = unat delay_ms div 1000 * 1000 + unat delay_ms mod 1000" by simp
  show e: "unat (d div MS_PER_S) * 1000000000 + unat ((d mod MS_PER_S) * NS_PER_MS) = unat delay_ms * 1000000"
    unfolding dv ns using dm by linarith
  have "d div MS_PER_S = 0 \<and> (d mod MS_PER_S) * NS_PER_MS = 0 \<longleftrightarrow>
      unat (d div MS_PER_S) * 1000000000 + unat ((d mod MS_PER_S) * NS_PER_MS) = 0"
    by (simp add: unat_eq_0)
  then show "d div MS_PER_S = 0 \<and> (d mod MS_PER_S) * NS_PER_MS = 0 \<longleftrightarrow> delay_ms = 0"
    unfolding e by (simp add: unat_eq_0)
qed

lemma timerfd_settime_delay:
  assumes "timers w fd \<noteq> None"
  shows "timerfd_settime fd ((ucast (delay_ms :: u32) :: u64) div MS_PER_S) ((ucast delay_ms mod MS_PER_S) * NS_PER_MS) w =
    (True, w\<lparr>timers := (timers w)(fd \<mapsto> delay_ns delay_ms)\<rparr>)"
  using assms delay_split [of delay_ms] by (simp add: timerfd_settime_def delay_ns_def not_le [symmetric])

section \<open>Creating, firing and removing a wakeup\<close>

definition new_wakeup :: "int \<Rightarrow> peer_ref \<Rightarrow> 'a wakeup_state_scheme \<Rightarrow> wakeup" where
  "new_wakeup fd inner w =
     \<lparr>wk_addr = next_addr w, wk_peer = \<lparr>peer_fd = fd, peer_always_trigger = False\<rparr>, wk_inner = inner\<rparr>"

definition wakeup_linked :: "int \<Rightarrow> stat \<Rightarrow> peer_ref \<Rightarrow> u32 \<Rightarrow> 'a wakeup_state_scheme \<Rightarrow> 'a wakeup_state_scheme" where
  "wakeup_linked fd st inner delay_ms w = w\<lparr>next_addr := next_addr w + 1,
     fds := (fds w)(fd \<mapsto> \<lparr>fd_pollable = True, fd_stat = st\<rparr>), timers := (timers w)(fd \<mapsto> delay_ns delay_ms),
     epoll_set := (epoll_set w)(fd \<mapsto> Peer_wakeup (next_addr w)),
     wakeup_head := wakeup_head w @ [new_wakeup fd inner w]\<rparr>"

lemma wakeup_add_eq:
  assumes "peer_state_ok w" and "0 \<le> fd" and "fds w fd = None"
  shows "wakeup_add fd st inner delay_ms w = Some (wakeup_linked fd st inner delay_ms w)"
proof -
  have e: "epoll_set w fd = None" using assms(1,3) unfolding peer_state_ok_def by (metis not_Some_eq option.distinct(1))
  define w1 where "w1 = timerfd_create fd st (w\<lparr>next_addr := next_addr w + 1\<rparr>)"
  have t: "timers w1 fd \<noteq> None" using assms(2) by (simp add: w1_def timerfd_create_def)
  show ?thesis
    using e assms(2) unfolding wakeup_add_def Let_def w1_def [symmetric] timerfd_settime_delay [OF t]
    by (simp add: w1_def timerfd_create_def peer_epoll_add_def epoll_ctl_add_def Let_def wakeup_linked_def new_wakeup_def)
qed

lemma wakeup_add_spec:
  assumes ok: "wakeup_ok w" and fd: "0 \<le> fd" "fds w fd = None"
  shows "wakeup_add fd st inner delay_ms w = Some (wakeup_linked fd st inner delay_ms w)"
    and "wakeup_ok (wakeup_linked fd st inner delay_ms w)"
proof -
  have r: "receive_ok w" and ps: "peer_state_ok w" using ok by (simp_all add: wakeup_ok_def receive_ok_def send_ok_def)
  show "wakeup_add fd st inner delay_ms w = Some (wakeup_linked fd st inner delay_ms w)"
    by (rule wakeup_add_eq [OF ps fd])
  have r': "receive_ok (wakeup_linked fd st inner delay_ms w)"
    by (rule receive_ok_open [OF r fd(2), of "\<lparr>fd_pollable = True, fd_stat = st\<rparr>"]) (simp_all add: wakeup_linked_def)
  have "epoll_set w fd = None" using ps fd(2) unfolding peer_state_ok_def by (metis not_Some_eq option.distinct(1))
  then have other: "\<forall>wk \<in> set (wakeup_head w). wk_fd wk \<noteq> fd" using ok by (auto simp: wakeup_ok_def)
  have new: "wk_addr (new_wakeup fd inner w) = next_addr w" "wk_fd (new_wakeup fd inner w) = fd"
    "\<not> peer_always_trigger (wk_peer (new_wakeup fd inner w))" by (simp_all add: new_wakeup_def wk_fd_def)
  show "wakeup_ok (wakeup_linked fd st inner delay_ms w)"
    unfolding wakeup_ok_def
  proof (intro conjI r')
    show "distinct (map wk_addr (wakeup_head (wakeup_linked fd st inner delay_ms w)))"
      using ok by (auto simp: wakeup_ok_def wakeup_linked_def new)
    show "\<forall>a. Peer_wakeup a \<notin> set (peer_always_trigger_head (wakeup_linked fd st inner delay_ms w))"
      using ok by (simp add: wakeup_ok_def wakeup_linked_def)
    show "\<forall>wk \<in> set (wakeup_head (wakeup_linked fd st inner delay_ms w)).
        wk_addr wk < next_addr (wakeup_linked fd st inner delay_ms w) \<and> wk_fd wk \<noteq> -1 \<and>
        \<not> peer_always_trigger (wk_peer wk) \<and>
        epoll_set (wakeup_linked fd st inner delay_ms w) (wk_fd wk) = Some (Peer_wakeup (wk_addr wk)) \<and>
        timers (wakeup_linked fd st inner delay_ms w) (wk_fd wk) \<noteq> None"
      using ok other fd(1) by (auto simp: wakeup_ok_def wakeup_linked_def new intro: less_SucI)
  qed
qed

definition wakeup_unlink :: "wakeup \<Rightarrow> 'a wakeup_state_scheme \<Rightarrow> 'a wakeup_state_scheme" where
  "wakeup_unlink wk w = w\<lparr>fds := (fds w)(wk_fd wk := None), epoll_set := (epoll_set w)(wk_fd wk := None),
     wakeup_head := filter (\<lambda>v. wk_addr v \<noteq> wk_addr wk) (wakeup_head w)\<rparr>"

lemma wakeup_del_spec:
  assumes ok: "wakeup_ok w" and wk: "wk \<in> set (wakeup_head w)"
  shows "wakeup_del wk w = Some (wakeup_unlink wk w)" and "wakeup_ok (wakeup_unlink wk w)"
proof -
  have r: "receive_ok w" and ps: "peer_state_ok w" using ok by (simp_all add: wakeup_ok_def receive_ok_def send_ok_def)
  have w: "epoll_set w (wk_fd wk) = Some (Peer_wakeup (wk_addr wk))" "wk_fd wk \<noteq> -1" "\<not> peer_always_trigger (wk_peer wk)"
    using ok wk by (auto simp: wakeup_ok_def)
  then obtain i where i: "fds w (wk_fd wk) = Some i" "fd_pollable i" using ps unfolding peer_state_ok_def by blast
  show "wakeup_del wk w = Some (wakeup_unlink wk w)"
    using w i by (simp add: wakeup_del_def wakeup_unlink_def peer_close_def peer_epoll_del_def epoll_ctl_del_def
        close_fd_def Let_def wk_fd_def)
  have r': "receive_ok (wakeup_unlink wk w)"
    by (rule receive_ok_close [OF r w(1)]) (simp_all add: wakeup_unlink_def)
  have other: "wk_fd v \<noteq> wk_fd wk" if "v \<in> set (wakeup_head w)" "wk_addr v \<noteq> wk_addr wk" for v
    using ok that w(1) by (auto simp: wakeup_ok_def)
  have "distinct (map wk_addr (wakeup_head (wakeup_unlink wk w)))"
    using ok by (auto simp: wakeup_ok_def wakeup_unlink_def intro: distinct_map_filter)
  then show "wakeup_ok (wakeup_unlink wk w)"
    using ok r' other unfolding wakeup_ok_def by (auto simp: wakeup_unlink_def)
qed

section \<open>Connections come and go\<close>

lemma wakeup_ok_frame:
  fixes w w' :: "'a wakeup_state_scheme"
  assumes ok: "wakeup_ok w" and r: "receive_ok w'"
    and w': "wakeup_head w' = wakeup_head w" "timers w' = timers w" "next_addr w \<le> next_addr w'"
      "\<And>g a. epoll_set w g = Some (Peer_wakeup a) \<Longrightarrow> epoll_set w' g = Some (Peer_wakeup a)"
      "\<And>a. Peer_wakeup a \<in> set (peer_always_trigger_head w') \<Longrightarrow> Peer_wakeup a \<in> set (peer_always_trigger_head w)"
  shows "wakeup_ok w'"
  using ok r w' unfolding wakeup_ok_def by (auto intro: less_le_trans)

lemma wakeup_ok_output:
  fixes w w' :: "'a wakeup_state_scheme"
  assumes "wakeup_ok w" and "only_output w w'" and "receive_ok w'"
  shows "wakeup_ok w'"
  using assms(2) by (intro wakeup_ok_frame [OF assms(1,3)]) (auto simp: only_output_def)

lemma wakeup_ok_store:
  fixes w :: "'a wakeup_state_scheme"
  assumes "wakeup_ok w" and "receive_ok (rx_store r w)"
  shows "wakeup_ok (rx_store r w)"
  by (rule wakeup_ok_frame [OF assms]) (auto simp: rx_store_def)

lemma wakeup_ok_receive_unlink:
  fixes w :: "'a wakeup_state_scheme"
  assumes ok: "wakeup_ok w" and r: "r \<in> set (receive_head w)"
  shows "wakeup_ok (receive_unlink r w)"
proof -
  have ro: "receive_ok w" using ok by (simp add: wakeup_ok_def)
  have "peer_registered (Peer_receive (rx_addr r)) (rx_peer r) w" using ro r by (simp add: receive_ok_def)
  then have "epoll_set w (rx_fd r) \<noteq> Some (Peer_wakeup a)" for a
    by (auto simp: peer_registered_def rx_fd_def split: if_splits)
  then show ?thesis
    by (intro wakeup_ok_frame [OF ok receive_unlink_spec(1) [OF ro r]]) (auto simp: receive_unlink_def)
qed

lemma wakeup_ok_send_unlink:
  fixes w :: "'a wakeup_state_scheme"
  assumes ok: "wakeup_ok w" and s: "s \<in> set (all_sends w)"
  shows "wakeup_ok (send_unlink s w)"
proof -
  have ro: "receive_ok w" using ok by (simp add: wakeup_ok_def)
  have "peer_registered (Peer_send (snd_addr s)) (snd_peer s) w" using ro s by (simp add: receive_ok_def send_ok_def)
  then have "epoll_set w (snd_fd s) \<noteq> Some (Peer_wakeup a)" for a
    by (auto simp: peer_registered_def snd_fd_def split: if_splits)
  then show ?thesis
    by (intro wakeup_ok_frame [OF ok send_unlink_receive_ok [OF ro s]]) (auto simp: send_unlink_def)
qed

section \<open>The retry delay\<close>

lemma retry_max_delay_cases:
  "retry_max_delay attempt =
     (if unat attempt \<le> 20 then Some (if unat attempt \<le> 4 then 2000 * 2 ^ unat attempt else 60000) else None)"
proof -
  define n where "n = unat attempt"
  have small: "n \<in> {0, 1, 2, 3, 4, 5, 6, 7, 8, 9, 10, 11, 12, 13, 14, 15, 16, 17, 18, 19, 20}" if "n \<le> 20"
    using that by (auto simp: numeral_eq_Suc le_Suc_eq)
  have big: "2147483647 < 2000 * (2::int) ^ n" if "20 < n"
  proof -
    have "(2::int) ^ 21 \<le> 2 ^ n" using that by (intro power_increasing) simp_all
    then show ?thesis by simp
  qed
  show ?thesis
  proof (cases "n \<le> 20")
    case True
    from small [OF True] show ?thesis
      unfolding retry_max_delay_def n_def [symmetric]
      by (elim insertE; simp add: RETRY_MIN_MS_def RETRY_MAX_MS_def INT_MAX_def word_less_nat_alt)
  next
    case False
    then show ?thesis
      using big by (simp add: retry_max_delay_def n_def [symmetric] RETRY_MIN_MS_def INT_MAX_def bind_eq_None_conv)
  qed
qed

lemma retry_delay_spec:
  assumes ok: "rand_ok rs"
  shows "case wakeup_get_retry_delay_ms src attempt rs of
      None \<Rightarrow> 20 < unat attempt
    | Some (d, rs') \<Rightarrow> rand_ok rs' \<and> unat attempt \<le> 20 \<and> unat d < min 60000 (2000 * 2 ^ unat attempt)"
proof (cases "unat attempt \<le> 20")
  case False
  then show ?thesis by (simp add: wakeup_get_retry_delay_ms_def retry_max_delay_cases)
next
  case True
  define m :: u32 where "m = (if unat attempt \<le> 4 then 2000 * 2 ^ unat attempt else 60000)"
  have m: "unat m = min 60000 (2000 * 2 ^ unat attempt)"
  proof (cases "unat attempt \<le> 4")
    case True
    then have "unat attempt = 0 \<or> unat attempt = 1 \<or> unat attempt = 2 \<or> unat attempt = 3 \<or> unat attempt = 4" by linarith
    then show ?thesis by (elim disjE; simp add: m_def)
  next
    case False
    then have "(2::nat) ^ 5 \<le> 2 ^ unat attempt" by (intro power_increasing) simp_all
    with False show ?thesis by (simp add: m_def)
  qed
  then have m0: "0 < unat m" "m \<noteq> 0" by (auto simp: unat_eq_0 [symmetric])
  from rand_fill_ok [OF ok, of 4 src] obtain v rs' where r: "rand_fill src rs 4 = Some (v, rs')" "rand_ok rs'"
    by (auto simp: BUF_LEN_MAX_def SSIZE_MAX_def)
  have "retry_max_delay attempt = Some m" using True by (simp add: retry_max_delay_cases m_def)
  then have "wakeup_get_retry_delay_ms src attempt rs = Some (word_rcat (rev v) mod m, rs')"
    using r(1) m0(2) by (simp add: wakeup_get_retry_delay_ms_def)
  moreover have "unat (word_rcat (rev v) mod m) < unat m" using m0(1) by (simp add: unat_mod)
  ultimately show ?thesis using True r(2) m by simp
qed

section \<open>Properties\<close>

definition sample_wakeup_state :: wakeup_state where
  "sample_wakeup_state = \<lparr>peer_count_in = 1, peer_count_out = 2, peer_count_out_in = 0, peer_shutdown_flag = False,
     peer_shutdown_peer = \<lparr>peer_fd = -1, peer_always_trigger = False\<rparr>, peer_always_trigger_head = [Peer_receive 2],
     fds = sample_fds, epoll_set = [5 \<mapsto> Peer_send 0, 6 \<mapsto> Peer_send 1],
     send_heads = [[], [], [], [], [sample_send 0 5 2, sample_send 1 6 3], []],
     stats = stats_init 0, json_hello_buf = BUF_INIT, proto_hello_buf = BUF_INIT,
     rnd = \<lparr>rand_buf = BUF_INIT, rand_pos = 0\<rparr>, next_addr = 3, tick = 0, trace = [],
     receive_head = [sample_receive], receive_max_hops = 10, wakeup_head = [], timers = Map.empty\<rparr>"

lemma sample_wakeup_receive_ok: "receive_ok sample_wakeup_state"
proof -
  have "send_ok sample_wakeup_state"
    using sample_id_valid
    by (auto simp: send_ok_def sample_wakeup_state_def peer_state_ok_def NUM_SERIALIZERS_def all_sends_def
        sample_send_def snd_fd_def peer_registered_def sample_fds_def rand_ok_def BUF_INIT_def split: if_splits)
  then show ?thesis
    using sample_rx_ok
    by (auto simp: receive_ok_def sample_wakeup_state_def sample_receive_def all_sends_def sample_send_def
        snd_fd_def rx_fd_def peer_registered_def sample_fds_def BUF_INIT_def BUF_LEN_MAX_def)
qed

lemma sample_wakeup_ok: "wakeup_ok sample_wakeup_state"
  using sample_wakeup_receive_ok by (simp add: wakeup_ok_def) (simp add: sample_wakeup_state_def)

text \<open>
  Requesting a wakeup never aborts and keeps the invariant of all connections and timers: the
  request is queued with its peer, its timer is registered and armed to expire once after exactly
  \<open>delay_ms\<close> milliseconds. A delay of zero leaves the timer disarmed, so that such a wakeup never comes.
\<close>

theorem wakeup_add_arms:
  assumes "wakeup_ok w" and "0 \<le> fd" and "fds w fd = None"
  shows "\<exists>w' wk. wakeup_add fd st inner delay_ms w = Some w' \<and> wakeup_ok w' \<and>
    wakeup_head w' = wakeup_head w @ [wk] \<and> wk_inner wk = inner \<and> wk_fd wk = fd \<and>
    epoll_set w' fd = Some (Peer_wakeup (wk_addr wk)) \<and>
    timers w' = (timers w)(fd \<mapsto> (if delay_ms = 0 then None else Some (unat delay_ms * 1000000)))"
  using wakeup_add_spec [OF assms, of st inner delay_ms]
  by (intro exI [of _ "wakeup_linked fd st inner delay_ms w"] exI [of _ "new_wakeup fd inner w"])
    (simp add: wakeup_linked_def new_wakeup_def wk_fd_def delay_ns_def)

theorem wakeup_add_arms_witness:
  "\<exists>w' wk. wakeup_add 9 \<lparr>st_dev = 0, st_ino = 0\<rparr> (Peer_transport 1) 2500 sample_wakeup_state = Some w' \<and> wakeup_ok w' \<and>
    wakeup_head w' = wakeup_head sample_wakeup_state @ [wk] \<and> wk_inner wk = Peer_transport 1 \<and> wk_fd wk = 9 \<and>
    epoll_set w' 9 = Some (Peer_wakeup (wk_addr wk)) \<and>
    timers w' = (timers sample_wakeup_state)(9 \<mapsto> (if (2500::u32) = 0 then None else Some (unat (2500::u32) * 1000000)))"
  by (rule wakeup_add_arms [OF sample_wakeup_ok]) (simp_all add: sample_wakeup_state_def sample_fds_def)

text \<open>
  C36. The retry delay backs off exponentially with jitter: up to attempt 20 it is drawn below
  2 s times two to the attempt, at most 60 s, and the random state stays well formed. From attempt
  21 on the computation overflows \<^verbatim>\<open>int\<close>, which is undefined behaviour.
\<close>

theorem retry_delay_bounds:
  assumes "rand_ok rs"
  shows "case wakeup_get_retry_delay_ms src attempt rs of
      None \<Rightarrow> 20 < unat attempt
    | Some (d, rs') \<Rightarrow> rand_ok rs' \<and> unat attempt \<le> 20 \<and> unat d < min 60000 (2000 * 2 ^ unat attempt)"
  by (rule retry_delay_spec [OF assms])

theorem retry_delay_bounds_witness:
  "case wakeup_get_retry_delay_ms of_nat 3 (rnd sample_wakeup_state) of
      None \<Rightarrow> 20 < unat (3 :: u32)
    | Some (d, rs') \<Rightarrow> rand_ok rs' \<and> unat (3 :: u32) \<le> 20 \<and> unat d < min 60000 (2000 * 2 ^ unat (3 :: u32))"
  by (rule retry_delay_bounds) (simp add: sample_wakeup_state_def rand_ok_def BUF_INIT_def)

end
