(* ===== verification/Socket.thy ===== *)
theory Socket
  imports Prelude
begin

text \<open>
  Model of \<^verbatim>\<open>adsbus/socket.c\<close>: the options set on the sockets of the transports. The two system calls are
  parameters that return 0 or the number of the error, and may depend on how many calls were made before
  (\<open>n\<close>); every function stops the program when a call it relies on fails.
\<close>

datatype sockopt = SO_REUSEPORT | SO_KEEPALIVE | SO_RCVBUF | TCP_FASTOPEN | TCP_KEEPIDLE | TCP_KEEPINTVL | TCP_KEEPCNT |
  TCP_USER_TIMEOUT | TCP_WINDOW_CLAMP

datatype shut_how = SHUT_RD | SHUT_WR

record socket_kernel =
  k_setsockopt :: "nat \<Rightarrow> int \<Rightarrow> sockopt \<Rightarrow> int \<Rightarrow> int"
  k_shutdown :: "nat \<Rightarrow> int \<Rightarrow> shut_how \<Rightarrow> int"

definition ENOTSOCK :: int where "ENOTSOCK = 88"
definition ENOTCONN :: int where "ENOTCONN = 107"
definition EINPROGRESS :: int where "EINPROGRESS = 115"

definition socket_pre_bind :: "socket_kernel \<Rightarrow> nat \<Rightarrow> int \<Rightarrow> unit option" where
  "socket_pre_bind S n fd = c_assert (k_setsockopt S n fd SO_REUSEPORT 1 = 0)"

definition socket_pre_listen :: "socket_kernel \<Rightarrow> nat \<Rightarrow> int \<Rightarrow> unit option" where
  "socket_pre_listen S n fd = c_assert (k_setsockopt S n fd TCP_FASTOPEN 5 = 0)"

definition socket_ready :: "socket_kernel \<Rightarrow> nat \<Rightarrow> int \<Rightarrow> unit option" where
  "socket_ready S n fd = do {
     c_assert (k_setsockopt S n fd SO_KEEPALIVE 1 = 0);
     c_assert (k_setsockopt S n fd TCP_KEEPIDLE 30 = 0);
     c_assert (k_setsockopt S n fd TCP_KEEPINTVL 10 = 0);
     c_assert (k_setsockopt S n fd TCP_KEEPCNT 3 = 0);
     c_assert (k_setsockopt S n fd TCP_USER_TIMEOUT 60000 = 0)
   }"

definition socket_ready_send :: "socket_kernel \<Rightarrow> nat \<Rightarrow> int \<Rightarrow> unit option" where
  "socket_ready_send S n fd =
     (let res = k_setsockopt S n fd SO_RCVBUF 128
      in if res = ENOTSOCK then Some ()
         else do {
           c_assert (res = 0);
           c_assert (k_setsockopt S n fd TCP_WINDOW_CLAMP 128 = 0)
         })"

definition socket_connected_send :: "socket_kernel \<Rightarrow> nat \<Rightarrow> int \<Rightarrow> unit option" where
  "socket_connected_send S n fd = (let res = k_shutdown S n fd SHUT_RD in c_assert (res = 0 \<or> res = ENOTSOCK))"

definition socket_connected_receive :: "socket_kernel \<Rightarrow> nat \<Rightarrow> int \<Rightarrow> unit option" where
  "socket_connected_receive S n fd = (let res = k_shutdown S n fd SHUT_WR in c_assert (res = 0 \<or> res = ENOTSOCK))"

text \<open>
  The options are supported for TCP sockets, and half of a connection that is still established can be shut
  down.
\<close>

definition socket_kernel_ok :: "socket_kernel \<Rightarrow> bool" where
  "socket_kernel_ok S \<longleftrightarrow> (\<forall>n fd opt v. k_setsockopt S n fd opt v = 0) \<and> (\<forall>n fd how. k_shutdown S n fd how = 0)"

lemma socket_calls_return:
  assumes "socket_kernel_ok S"
  shows "socket_pre_bind S n fd = Some ()" and "socket_pre_listen S n fd = Some ()" and "socket_ready S n fd = Some ()"
    and "socket_ready_send S n fd = Some ()" and "socket_connected_send S n fd = Some ()"
    and "socket_connected_receive S n fd = Some ()"
  using assms
  by (simp_all add: socket_kernel_ok_def socket_pre_bind_def socket_pre_listen_def socket_ready_def socket_ready_send_def
      socket_connected_send_def socket_connected_receive_def)

text \<open>
  A connection that was reset before half of it could be shut down (\<^verbatim>\<open>ENOTCONN\<close>) stops the program.
\<close>

lemma socket_connected_reset:
  assumes "k_shutdown S n fd SHUT_RD = ENOTCONN" and "k_shutdown S n fd SHUT_WR = ENOTCONN"
  shows "socket_connected_send S n fd = None" and "socket_connected_receive S n fd = None"
  using assms by (simp_all add: socket_connected_send_def socket_connected_receive_def ENOTCONN_def ENOTSOCK_def)

end
