(* ===== verification/Flow.thy ===== *)
theory Flow
  imports Wakeup Socket
begin

text \<open>
  Model of \<^verbatim>\<open>adsbus/flow.c\<close>: the interface between a transport, which opens descriptors, and what
  happens on them (receiving, sending, both). A flow is a record of functions, as in the code;
  \<^verbatim>\<open>void *passthrough\<close> is \<open>None\<close> for a null pointer and otherwise the index of the output format.
  The hooks of sockets only make system calls; they are given the parameters of \<^verbatim>\<open>socket.c\<close>.
\<close>

section \<open>The kernel\<close>

text \<open>
  The allocation of descriptors is a parameter: \<open>k_new_fd\<close> picks the descriptor for a new file from
  the table of the open ones. \<open>k_timer_stat\<close> is the file status of a timer.
\<close>

record kernel =
  k_new_fd :: "(int \<Rightarrow> fd_info option) \<Rightarrow> int"
  k_timer_stat :: stat
  k_socket :: socket_kernel

text \<open>POSIX: a new descriptor is a non-negative number that is not open.\<close>

definition kernel_ok :: "'k kernel_scheme \<Rightarrow> bool" where
  "kernel_ok K \<longleftrightarrow> (\<forall>t. finite (dom t) \<longrightarrow> 0 \<le> k_new_fd K t \<and> t (k_new_fd K t) = None)"

definition new_fd :: "'k kernel_scheme \<Rightarrow> 'a peer_state_scheme \<Rightarrow> int" where
  "new_fd K w = k_new_fd K (fds w)"

lemma new_fd_fresh:
  assumes "kernel_ok K" and "finite (dom (fds w))"
  shows "0 \<le> new_fd K w" and "fds w (new_fd K w) = None"
  using assms by (simp_all add: kernel_ok_def new_fd_def)

section \<open>Flows\<close>

record 'w flow =
  flow_name :: string
  flow_ready :: "(socket_kernel \<Rightarrow> nat \<Rightarrow> int \<Rightarrow> unit option) option"
  flow_connected :: "(socket_kernel \<Rightarrow> nat \<Rightarrow> int \<Rightarrow> unit option) option"
  flow_create :: "int \<Rightarrow> nat option \<Rightarrow> peer_ref option \<Rightarrow> 'w \<Rightarrow> 'w option"
  flow_hello :: "(buf \<Rightarrow> nat option \<Rightarrow> 'w \<Rightarrow> buf option) option"
  flow_ref_count :: "(u32 \<Rightarrow> u32) \<Rightarrow> 'w \<Rightarrow> 'w"

definition flow_socket_ready :: "socket_kernel \<Rightarrow> nat \<Rightarrow> int \<Rightarrow> 'w flow \<Rightarrow> unit option" where
  "flow_socket_ready S n fd flow = do {
     socket_ready S n fd;
     case flow_ready flow of None \<Rightarrow> Some () | Some hook \<Rightarrow> hook S n fd
   }"

definition flow_socket_connected :: "socket_kernel \<Rightarrow> nat \<Rightarrow> int \<Rightarrow> 'w flow \<Rightarrow> unit option" where
  "flow_socket_connected S n fd flow = (case flow_connected flow of None \<Rightarrow> Some () | Some hook \<Rightarrow> hook S n fd)"

definition flow_new :: "int \<Rightarrow> 'w flow \<Rightarrow> nat option \<Rightarrow> peer_ref option \<Rightarrow> 'w \<Rightarrow> 'w option" where
  "flow_new fd flow pass on_close w = flow_create flow fd pass on_close w"

definition flow_get_hello :: "'w flow \<Rightarrow> buf \<Rightarrow> nat option \<Rightarrow> 'w \<Rightarrow> buf option" where
  "flow_get_hello flow b pass w = (case flow_hello flow of None \<Rightarrow> Some b | Some f \<Rightarrow> f b pass w)"

definition flow_ref_inc :: "'w flow \<Rightarrow> 'w \<Rightarrow> 'w" where
  "flow_ref_inc flow w = flow_ref_count flow (\<lambda>n. n + 1) w"

definition flow_ref_dec :: "'w flow \<Rightarrow> 'w \<Rightarrow> 'w" where
  "flow_ref_dec flow w = flow_ref_count flow (\<lambda>n. n - 1) w"

text \<open>The greeting is written in one call; a short or failed write is a failure.\<close>

definition flow_send_hello ::
    "'j env \<Rightarrow> int \<Rightarrow> ('a send_state_scheme) flow \<Rightarrow> nat option \<Rightarrow> 'a send_state_scheme \<Rightarrow>
      (bool \<times> 'a send_state_scheme) option" where
  "flow_send_hello E fd flow pass w = do {
     b \<leftarrow> flow_get_hello flow BUF_INIT pass w;
     if buf_length b = 0 then Some (True, w)
     else do {
       bytes \<leftarrow> buf_get b 0 (buf_length b);
       let n = env_write E (tick w) fd bytes;
       let w = w\<lparr>tick := tick w + 1, trace := trace w @ [Ev_write fd bytes n]\<rparr>;
       Some (n = int (length bytes), w)
     }
   }"

definition flow_new_send_hello ::
    "'j env \<Rightarrow> int \<Rightarrow> ('a send_state_scheme) flow \<Rightarrow> nat option \<Rightarrow> peer_ref option \<Rightarrow> 'a send_state_scheme \<Rightarrow>
      (bool \<times> 'a send_state_scheme) option" where
  "flow_new_send_hello E fd flow pass on_close w = do {
     (ok, w) \<leftarrow> flow_send_hello E fd flow pass w;
     if \<not> ok then do {
       w \<leftarrow> close_fd fd w;
       Some (False, w)
     }
     else do {
       w \<leftarrow> flow_new fd flow pass on_close w;
       Some (True, w)
     }
   }"

section \<open>The contract of a flow\<close>

text \<open>
  A flow takes over an open, unused descriptor and keeps the invariant \<open>inv\<close> of the program;
  \<open>pass_ok\<close> are the values of \<^verbatim>\<open>passthrough\<close> it understands and \<open>owner_ok\<close> the peers it may be asked to
  tell of the end. \<open>made w c w'\<close> is what else creation guarantees. The greeting is a well-formed buffer.
\<close>

definition fd_unused :: "int \<Rightarrow> 'a receive_state_scheme \<Rightarrow> bool" where
  "fd_unused fd w \<longleftrightarrow> 0 \<le> fd \<and> fd_free fd w"

locale flow_contract =
  fixes flow :: "('a receive_state_scheme) flow"
    and inv :: "'a receive_state_scheme \<Rightarrow> bool"
    and pass_ok :: "nat option \<Rightarrow> bool"
    and owner_ok :: "peer_ref option \<Rightarrow> 'a receive_state_scheme \<Rightarrow> bool"
    and made :: "'a receive_state_scheme \<Rightarrow> peer_ref option \<Rightarrow> 'a receive_state_scheme \<Rightarrow> bool"
  assumes create_returns:
    "inv w \<Longrightarrow> fd_unused fd w \<Longrightarrow> pass_ok pass \<Longrightarrow> owner_ok on_close w \<Longrightarrow>
       \<exists>w'. flow_create flow fd pass on_close w = Some w' \<and> inv w' \<and> made w on_close w'"
    and hello_returns:
    "inv w \<Longrightarrow> pass_ok pass \<Longrightarrow> \<exists>b. flow_get_hello flow BUF_INIT pass w = Some b \<and> buf_ok b"
    and inv_output: "inv w \<Longrightarrow> inv (w\<lparr>tick := n, trace := tr\<rparr>)"
    and inv_closed: "inv w \<Longrightarrow> fd_unused fd w \<Longrightarrow> inv (w\<lparr>fds := (fds w)(fd := None), epoll_set := (epoll_set w)(fd := None)\<rparr>)"
    and owner_output: "owner_ok on_close w \<Longrightarrow> owner_ok on_close (w\<lparr>tick := n, trace := tr\<rparr>)"
begin

text \<open>
  Greeting and creation together: the descriptor is handed over after a complete greeting and
  closed after a failed one; in both cases the invariant holds.
\<close>

lemma send_hello_returns:
  assumes "inv w" and "pass_ok pass"
  shows "\<exists>ok n tr. flow_send_hello E fd flow pass w = Some (ok, w\<lparr>tick := n, trace := trace w @ tr\<rparr>) \<and>
    length tr \<le> 1 \<and> (ok \<longleftrightarrow> (\<forall>e \<in> set tr. \<exists>bytes. e = Ev_write fd bytes (int (length bytes))))"
proof -
  from hello_returns [OF assms] obtain b where b: "flow_get_hello flow BUF_INIT pass w = Some b" "buf_ok b" by blast
  show ?thesis
  proof (cases "buf_length b = 0")
    case True
    have "w = w\<lparr>tick := tick w, trace := trace w @ []\<rparr>" by simp
    then have "flow_send_hello E fd flow pass w = Some (True, w\<lparr>tick := tick w, trace := trace w @ []\<rparr>)"
      using b True by (simp add: flow_send_hello_def)
    then show ?thesis by (intro exI [of _ True] exI [of _ "tick w"] exI [of _ "[]"]) simp
  next
    case False
    define bytes where "bytes = buf_view b"
    have "buf_get b 0 (buf_length b) = Some bytes" using b(2) by (simp add: buf_get_view bytes_def)
    then show ?thesis
      using b False
      by (intro exI [of _ "env_write E (tick w) fd bytes = int (length bytes)"] exI [of _ "tick w + 1"]
          exI [of _ "[Ev_write fd bytes (env_write E (tick w) fd bytes)]"])
        (auto simp: flow_send_hello_def Let_def)
  qed
qed

lemma new_send_hello_returns:
  assumes inv: "inv w" and fd: "fd_unused fd w" and pass: "pass_ok pass" and owner: "owner_ok on_close w"
  shows "\<exists>ok w' n tr. flow_new_send_hello E fd flow pass on_close w = Some (ok, w') \<and> inv w' \<and>
    (if ok then made (w\<lparr>tick := n, trace := tr\<rparr>) on_close w'
     else w' = w\<lparr>tick := n, trace := tr, fds := (fds w)(fd := None), epoll_set := (epoll_set w)(fd := None)\<rparr>)"
proof -
  from send_hello_returns [OF inv pass, of E fd] obtain ok n tr where
    h: "flow_send_hello E fd flow pass w = Some (ok, w\<lparr>tick := n, trace := trace w @ tr\<rparr>)" by blast
  define v where "v = w\<lparr>tick := n, trace := trace w @ tr\<rparr>"
  have v: "inv v" "fd_unused fd v" "owner_ok on_close v"
    using inv_output [OF inv] fd owner_output [OF owner]
    by (simp_all add: v_def fd_unused_def fd_free_def fd_fresh_def all_sends_def)
  show ?thesis
  proof (cases ok)
    case True
    from create_returns [OF v(1,2) pass v(3)] obtain w' where
      "flow_create flow fd pass on_close v = Some w'" "inv w'" "made v on_close w'" by blast
    then show ?thesis
      using h True by (intro exI [of _ True] exI [of _ w'] exI [of _ n] exI [of _ "trace w @ tr"])
        (simp add: flow_new_send_hello_def flow_new_def v_def)
  next
    case False
    have "fds v fd \<noteq> None" using v(2) by (simp add: fd_unused_def fd_free_def fd_fresh_def)
    then have "close_fd fd v = Some (v\<lparr>fds := (fds v)(fd := None), epoll_set := (epoll_set v)(fd := None)\<rparr>)"
      by (auto simp: close_fd_def)
    then have "flow_new_send_hello E fd flow pass on_close w =
        Some (False, v\<lparr>fds := (fds v)(fd := None), epoll_set := (epoll_set v)(fd := None)\<rparr>)"
      using h False by (simp add: flow_new_send_hello_def v_def)
    then show ?thesis
      using inv_closed [OF v(1,2)]
      by (intro exI [of _ False] exI [of _ "v\<lparr>fds := (fds v)(fd := None), epoll_set := (epoll_set v)(fd := None)\<rparr>"]
          exI [of _ n] exI [of _ "trace w @ tr"]) (simp add: v_def)
  qed
qed

end

end
