(* ===== verification/Send_Receive.thy ===== *)
theory Send_Receive
  imports Flow
begin

text \<open>
  Model of \<^verbatim>\<open>adsbus/send_receive.c\<close>, duplex connections: one descriptor handed to a sending and a
  duplicate of it to a receiving half, joined by a reference count. The theory also states the
  invariant of everything that is told when a connection ends: which structure the callback
  pointers of connections, duplex connections and wakeups point to.
\<close>

record send_receive =
  sr_addr :: nat
  sr_on_close :: "peer_ref option"
  sr_ref_count :: u8

record sr_state = wakeup_state +
  send_receive_head :: "send_receive list"

section \<open>The flows\<close>

definition receive_flow :: "'j env \<Rightarrow> ('a receive_state_scheme) flow" where
  "receive_flow E = \<lparr>flow_name = ''receive'',
     flow_ready = None,
     flow_connected = Some socket_connected_receive,
     flow_create = (\<lambda>fd pass on_close w. receive_new E fd on_close w),
     flow_hello = None,
     flow_ref_count = peer_count_in_update\<rparr>"

definition send_flow :: "'j env \<Rightarrow> ('a receive_state_scheme) flow" where
  "send_flow E = \<lparr>flow_name = ''send'',
     flow_ready = Some socket_ready_send,
     flow_connected = Some socket_connected_send,
     flow_create = (\<lambda>fd pass on_close w. Option.bind pass (\<lambda>i. send_new E fd i on_close w)),
     flow_hello = Some (\<lambda>b pass w. map_option (\<lambda>i. send_get_hello b i w) pass),
     flow_ref_count = peer_count_out_update\<rparr>"

section \<open>Operations\<close>

definition send_receive_del ::
    "(peer_ref \<Rightarrow> 'a sr_state_scheme \<Rightarrow> 'a sr_state_scheme option) \<Rightarrow>
      send_receive \<Rightarrow> 'a sr_state_scheme \<Rightarrow> 'a sr_state_scheme option" where
  "send_receive_del call sr w = do {
     let w = w\<lparr>send_receive_head := filter (\<lambda>q. sr_addr q \<noteq> sr_addr sr) (send_receive_head w)\<rparr>;
     peer_call call (sr_on_close sr) w
   }"

text \<open>The callback of both halves of the connection at address \<open>a\<close>; a freed structure is \<open>None\<close>.\<close>

definition send_receive_on_close ::
    "(peer_ref \<Rightarrow> 'a sr_state_scheme \<Rightarrow> 'a sr_state_scheme option) \<Rightarrow>
      nat \<Rightarrow> 'a sr_state_scheme \<Rightarrow> 'a sr_state_scheme option" where
  "send_receive_on_close call a w = do {
     sr \<leftarrow> find (\<lambda>q. sr_addr q = a) (send_receive_head w);
     let sr = sr\<lparr>sr_ref_count := sr_ref_count sr - 1\<rparr>;
     let w = w\<lparr>send_receive_head := map (\<lambda>q. if sr_addr q = a then sr else q) (send_receive_head w)\<rparr>;
     if sr_ref_count sr = 0 then send_receive_del call sr w else Some w
   }"

text \<open>\<^verbatim>\<open>fcntl(fd, F_DUPFD_CLOEXEC, 0)\<close>: a second descriptor of the same file.\<close>

definition dup_fd :: "'k kernel_scheme \<Rightarrow> int \<Rightarrow> 'a peer_state_scheme \<Rightarrow> (int \<times> 'a peer_state_scheme) option" where
  "dup_fd K fd w = do {
     info \<leftarrow> fds w fd;
     let fd2 = new_fd K w;
     c_assert (0 \<le> fd2);
     Some (fd2, w\<lparr>fds := (fds w)(fd2 \<mapsto> info)\<rparr>)
   }"

definition send_receive_new ::
    "'j env \<Rightarrow> 'k kernel_scheme \<Rightarrow> int \<Rightarrow> nat option \<Rightarrow> peer_ref option \<Rightarrow>
      'a sr_state_scheme \<Rightarrow> 'a sr_state_scheme option" where
  "send_receive_new E K fd pass on_close w = do {
     let a = next_addr w;
     let w = w\<lparr>next_addr := a + 1\<rparr>;
     let w = w\<lparr>send_receive_head := send_receive_head w @
       [\<lparr>sr_addr = a, sr_on_close = on_close, sr_ref_count = 2\<rparr>]\<rparr>;
     w \<leftarrow> flow_new fd (send_flow E) pass (Some (Peer_send_receive a)) w;
     (fd2, w) \<leftarrow> dup_fd K fd w;
     flow_new fd2 (receive_flow E) None (Some (Peer_send_receive a)) w
   }"

definition send_receive_flow :: "'j env \<Rightarrow> 'k kernel_scheme \<Rightarrow> ('a sr_state_scheme) flow" where
  "send_receive_flow E K = \<lparr>flow_name = ''send_receive'',
     flow_ready = None,
     flow_connected = None,
     flow_create = send_receive_new E K,
     flow_hello = Some (\<lambda>b pass w. map_option (\<lambda>i. send_get_hello b i w) pass),
     flow_ref_count = peer_count_out_in_update\<rparr>"

fun send_receive_del_all ::
    "(peer_ref \<Rightarrow> 'a sr_state_scheme \<Rightarrow> 'a sr_state_scheme option) \<Rightarrow>
      send_receive list \<Rightarrow> 'a sr_state_scheme \<Rightarrow> 'a sr_state_scheme option" where
  "send_receive_del_all call [] w = Some w"
| "send_receive_del_all call (sr # srs) w = do {
     w \<leftarrow> send_receive_del call sr w;
     send_receive_del_all call srs w
   }"

definition send_receive_cleanup ::
    "(peer_ref \<Rightarrow> 'a sr_state_scheme \<Rightarrow> 'a sr_state_scheme option) \<Rightarrow>
      'a sr_state_scheme \<Rightarrow> 'a sr_state_scheme option" where
  "send_receive_cleanup call w = send_receive_del_all call (send_receive_head w) w"

section \<open>Who is told\<close>

text \<open>
  The callbacks of the open connections, and the callbacks that lead to a transport: those of
  connections, of duplex connections and of wakeups but the one (\<open>f\<close>) that is just firing.
\<close>

definition closers :: "'a sr_state_scheme \<Rightarrow> peer_ref option multiset" where
  "closers w = image_mset rx_on_close (mset (receive_head w)) + image_mset snd_on_close (mset (all_sends w))"

definition conn_owners :: "'a sr_state_scheme \<Rightarrow> peer_ref option multiset" where
  "conn_owners w = closers w + image_mset sr_on_close (mset (send_receive_head w))"

definition owners :: "nat option \<Rightarrow> 'a sr_state_scheme \<Rightarrow> peer_ref option multiset" where
  "owners f w = conn_owners w +
     image_mset (\<lambda>v. Some (wk_inner v)) (filter_mset (\<lambda>v. f \<noteq> Some (wk_addr v)) (mset (wakeup_head w)))"

text \<open>
  The descriptors a pointer may be registered for: that of the live structure it points to; a
  pointer to freed memory has none. Shutdown and the transports are not told apart here.
\<close>

definition peer_fds :: "'a sr_state_scheme \<Rightarrow> peer_ref \<Rightarrow> int set" where
  "peer_fds w p = (case p of
     Peer_receive a \<Rightarrow> rx_fd ` {r \<in> set (receive_head w). rx_addr r = a}
   | Peer_send a \<Rightarrow> snd_fd ` {s \<in> set (all_sends w). snd_addr s = a}
   | Peer_wakeup a \<Rightarrow> wk_fd ` {v \<in> set (wakeup_head w). wk_addr v = a}
   | Peer_send_receive a \<Rightarrow> {}
   | _ \<Rightarrow> UNIV)"

definition reg_inv :: "'a sr_state_scheme \<Rightarrow> bool" where
  "reg_inv w \<longleftrightarrow> (\<forall>g p. epoll_set w g = Some p \<longrightarrow> g \<in> peer_fds w p) \<and>
     (\<forall>p \<in> set (peer_always_trigger_head w). peer_fds w p \<noteq> {})"

text \<open>
  The invariant. The kernel and the always-trigger list hold no pointer to freed memory
  (\<open>reg_inv\<close>). Callbacks lead to live structures: those of connections to nobody, a transport or a live
  duplex connection, those of duplex connections and wakeups to nobody or a transport; at most one
  callback leads to each transport. The reference count of a duplex connection is the number of
  its open halves plus \<open>pend\<close>, the halves that are about to report or to be created.
\<close>

definition conn_inv :: "(nat \<Rightarrow> nat) \<Rightarrow> nat option \<Rightarrow> 'a sr_state_scheme \<Rightarrow> bool" where
  "conn_inv pend f w \<longleftrightarrow> wakeup_ok w \<and> reg_inv w \<and> finite (dom (fds w)) \<and> buf_ok (json_hello_buf w) \<and> buf_ok (proto_hello_buf w) \<and>
     distinct (map sr_addr (send_receive_head w)) \<and>
     (\<forall>sr \<in> set (send_receive_head w). sr_addr sr < next_addr w \<and> 0 < sr_ref_count sr \<and>
        unat (sr_ref_count sr) = count (closers w) (Some (Peer_send_receive (sr_addr sr))) + pend (sr_addr sr) \<and>
        (\<forall>c. sr_on_close sr = Some c \<longrightarrow> (\<exists>t. c = Peer_transport t))) \<and>
     (\<forall>v \<in> set (wakeup_head w). \<exists>t. wk_inner v = Peer_transport t) \<and>
     (\<forall>c. Some c \<in># closers w \<longrightarrow>
        (\<exists>t. c = Peer_transport t) \<or> (\<exists>a \<in> sr_addr ` set (send_receive_head w). c = Peer_send_receive a)) \<and>
     (\<forall>t. count (owners f w) (Some (Peer_transport t)) \<le> 1) \<and> (\<forall>a. f = Some a \<longrightarrow> a < next_addr w)"

definition pend_add :: "peer_ref option \<Rightarrow> (nat \<Rightarrow> nat) \<Rightarrow> nat \<Rightarrow> nat" where
  "pend_add c pend = (case c of Some (Peer_send_receive a) \<Rightarrow> pend(a := Suc (pend a)) | _ \<Rightarrow> pend)"

lemma closers_cong:
  "receive_head w' = receive_head w \<Longrightarrow> send_heads w' = send_heads w \<Longrightarrow> closers w' = closers w"
  by (simp add: closers_def all_sends_def)

lemma reg_inv_mono:
  assumes "reg_inv w" and "\<And>p. peer_fds w p \<subseteq> peer_fds w' p"
    and "\<And>g p. epoll_set w' g = Some p \<Longrightarrow> epoll_set w g = Some p \<or> g \<in> peer_fds w' p"
    and "\<And>p. p \<in> set (peer_always_trigger_head w') \<Longrightarrow> p \<in> set (peer_always_trigger_head w) \<or> peer_fds w' p \<noteq> {}"
  shows "reg_inv w'"
  using assms unfolding reg_inv_def by blast

lemma reg_inv_unlink:
  assumes reg: "reg_inv w" and other: "\<And>p. p \<noteq> q \<Longrightarrow> peer_fds w p \<subseteq> peer_fds w' p" and q: "peer_fds w q \<subseteq> {fd}"
    and e: "epoll_set w' = (epoll_set w)(fd := None)"
    and al: "q \<notin> set (peer_always_trigger_head w')" "set (peer_always_trigger_head w') \<subseteq> set (peer_always_trigger_head w)"
  shows "reg_inv w'"
  unfolding reg_inv_def
proof (intro conjI allI impI ballI)
  fix g p
  assume "epoll_set w' g = Some p"
  then have g: "g \<noteq> fd" "epoll_set w g = Some p" by (auto simp: e split: if_splits)
  then have "g \<in> peer_fds w p" using reg by (simp add: reg_inv_def)
  then show "g \<in> peer_fds w' p" using other [of p] q g(1) by blast
next
  fix p
  assume "p \<in> set (peer_always_trigger_head w')"
  then have "p \<noteq> q" "peer_fds w p \<noteq> {}" using al reg by (auto simp: reg_inv_def)
  then show "peer_fds w' p \<noteq> {}" using other [of p] by blast
qed

lemma peer_fds_cong:
  "receive_head w' = receive_head w \<Longrightarrow> send_heads w' = send_heads w \<Longrightarrow> wakeup_head w' = wakeup_head w \<Longrightarrow>
   peer_fds w' p = peer_fds w p"
  by (cases p) (simp_all add: peer_fds_def all_sends_def)

lemma peer_fds_monoI:
  "set (receive_head w) \<subseteq> set (receive_head w') \<Longrightarrow> set (all_sends w) \<subseteq> set (all_sends w') \<Longrightarrow>
   set (wakeup_head w) \<subseteq> set (wakeup_head w') \<Longrightarrow> peer_fds w p \<subseteq> peer_fds w' p"
  by (cases p) (auto simp: peer_fds_def)

lemma reg_inv_cong:
  assumes "reg_inv w" and "receive_head w' = receive_head w" and "send_heads w' = send_heads w"
    and "wakeup_head w' = wakeup_head w" and "epoll_set w' = epoll_set w"
    and "peer_always_trigger_head w' = peer_always_trigger_head w"
  shows "reg_inv w'"
  using assms(1) peer_fds_cong [OF assms(2-4)] by (simp add: reg_inv_def assms(5,6))

lemma owners_cong:
  "closers w' = closers w \<Longrightarrow> send_receive_head w' = send_receive_head w \<Longrightarrow> wakeup_head w' = wakeup_head w \<Longrightarrow>
   owners f w' = owners f w"
  by (simp add: owners_def conn_owners_def)

lemma conn_inv_count:
  assumes "conn_inv pend f w"
  shows "count (owners f w) (Some (Peer_transport t)) \<le> 1"
    and "owners f w = add_mset c m \<Longrightarrow> count m (Some (Peer_transport t)) \<le> 1"
proof -
  show le: "count (owners f w) (Some (Peer_transport t)) \<le> 1" using assms by (simp add: conn_inv_def)
  assume "owners f w = add_mset c m"
  then have "count m (Some (Peer_transport t)) \<le> count (owners f w) (Some (Peer_transport t))" by simp
  with le show "count m (Some (Peer_transport t)) \<le> 1" by (rule order_trans [rotated])
qed

text \<open>A connection has been unlinked: its half is pending.\<close>

lemma conn_inv_unlink:
  fixes w w' :: "'a sr_state_scheme"
  assumes inv: "conn_inv pend f w" and wk: "wakeup_ok w'" and reg: "reg_inv w'" and fin: "finite (dom (fds w'))"
    and c: "closers w = add_mset c (closers w')"
    and w': "send_receive_head w' = send_receive_head w" "wakeup_head w' = wakeup_head w" "next_addr w \<le> next_addr w'"
      "json_hello_buf w' = json_hello_buf w" "proto_hello_buf w' = proto_hello_buf w"
  shows "conn_inv (pend_add c pend) f w'" and "owners f w = add_mset c (owners f w')"
proof -
  show o: "owners f w = add_mset c (owners f w')" by (simp add: owners_def conn_owners_def c w')
  have cnt: "count (owners f w') (Some (Peer_transport t)) \<le> 1" for t by (rule conn_inv_count(2) [OF inv o])
  have ref: "count (closers w) (Some (Peer_send_receive a)) + pend a =
      count (closers w') (Some (Peer_send_receive a)) + pend_add c pend a" for a
    by (auto simp: c pend_add_def split: option.split peer_ref.split)
  have sub: "Some x \<in># closers w' \<Longrightarrow> Some x \<in># closers w" for x by (simp add: c)
  show "conn_inv (pend_add c pend) f w'"
    using inv wk reg fin cnt sub unfolding conn_inv_def w'(1,2,4,5) ref by (auto intro: less_le_trans [OF _ w'(3)])
qed

text \<open>A connection has been created for an owner that has no other, or for a pending half.\<close>

definition may_own :: "(nat \<Rightarrow> nat) \<Rightarrow> nat option \<Rightarrow> peer_ref option \<Rightarrow> 'a sr_state_scheme \<Rightarrow> bool" where
  "may_own pend f c w \<longleftrightarrow> (case c of
     None \<Rightarrow> True
   | Some (Peer_transport t) \<Rightarrow> Some (Peer_transport t) \<notin># owners f w
   | Some (Peer_send_receive a) \<Rightarrow> a \<in> sr_addr ` set (send_receive_head w) \<and> 0 < pend a
   | _ \<Rightarrow> False)"

lemma conn_inv_link:
  fixes w w' :: "'a sr_state_scheme"
  assumes inv: "conn_inv (pend_add c pend) f w" and own: "may_own (pend_add c pend) f c w" and wk: "wakeup_ok w'"
    and reg: "reg_inv w'" and fin: "finite (dom (fds w'))" and c: "closers w' = add_mset c (closers w)"
    and w': "send_receive_head w' = send_receive_head w" "wakeup_head w' = wakeup_head w" "next_addr w \<le> next_addr w'"
      "json_hello_buf w' = json_hello_buf w" "proto_hello_buf w' = proto_hello_buf w"
  shows "conn_inv pend f w'" and "owners f w' = add_mset c (owners f w)"
proof -
  show o: "owners f w' = add_mset c (owners f w)" by (simp add: owners_def conn_owners_def c w')
  have cnt: "count (owners f w') (Some (Peer_transport t)) \<le> 1" for t
    using inv own by (cases "c = Some (Peer_transport t)") (auto simp: o conn_inv_def may_own_def not_in_iff)
  have ref: "count (closers w) (Some (Peer_send_receive a)) + pend_add c pend a =
      count (closers w') (Some (Peer_send_receive a)) + pend a" for a
    by (auto simp: c pend_add_def split: option.split peer_ref.split)
  have sub: "(\<exists>t. x = Peer_transport t) \<or> (\<exists>a \<in> sr_addr ` set (send_receive_head w). x = Peer_send_receive a)"
    if "Some x \<in># closers w'" for x
  proof (cases "c = Some x")
    case True
    then show ?thesis using own by (auto simp: may_own_def split: peer_ref.splits)
  next
    case False
    then have "Some x \<in># closers w" using that by (simp add: c)
    then show ?thesis using inv by (simp add: conn_inv_def)
  qed
  show "conn_inv pend f w'"
    using inv wk reg fin cnt sub unfolding conn_inv_def w'(1,2,4,5) ref by (auto intro: less_le_trans [OF _ w'(3)])
qed

text \<open>\<open>pend\<close> matters only at the live duplex connections.\<close>

lemma conn_inv_pend:
  assumes "conn_inv pend f w" and "\<forall>a \<in> sr_addr ` set (send_receive_head w). pend' a = pend a"
  shows "conn_inv pend' f w"
  using assms unfolding conn_inv_def by auto

section \<open>The callbacks after each operation\<close>

lemma image_filter_addr:
  assumes "distinct (map f xs)" and "x \<in> set xs"
  shows "image_mset g (mset xs) = add_mset (g x) (image_mset g (mset (filter (\<lambda>y. f y \<noteq> f x) xs)))"
proof -
  obtain ys zs where xs: "xs = ys @ x # zs" using split_list [OF assms(2)] by blast
  have "filter (\<lambda>y. f y \<noteq> f x) ys = ys" "filter (\<lambda>y. f y \<noteq> f x) zs = zs"
    using assms(1) unfolding xs by (auto simp: filter_id_conv image_iff)
  then show ?thesis by (simp add: xs)
qed

lemma find_distinct_addr:
  assumes "distinct (map f xs)" and "x \<in> set xs"
  shows "find (\<lambda>y. f y = f x) xs = Some x"
proof -
  obtain ys zs where xs: "xs = ys @ x # zs" using split_list [OF assms(2)] by blast
  have "f x \<notin> f ` set ys" using assms(1) unfolding xs by auto
  then show ?thesis unfolding xs by (induction ys) auto
qed

lemma closers_receive_unlink:
  fixes w :: "'a sr_state_scheme"
  assumes "receive_ok w" and "r \<in> set (receive_head w)"
  shows "closers w = add_mset (rx_on_close r) (closers (receive_unlink r w))"
proof -
  have "distinct (map rx_addr (receive_head w))" using assms(1) by (simp add: receive_ok_def)
  note m = image_filter_addr [OF this assms(2), of rx_on_close]
  show ?thesis unfolding closers_def m by (simp add: all_sends_def receive_unlink_def)
qed

lemma closers_send_unlink:
  fixes w :: "'a sr_state_scheme"
  assumes "receive_ok w" and "s \<in> set (all_sends w)"
  shows "closers w = add_mset (snd_on_close s) (closers (send_unlink s w))"
proof -
  have "distinct (map snd_addr (all_sends w))" using assms(1) by (simp add: receive_ok_def send_ok_def)
  note m = image_filter_addr [OF this assms(2), of snd_on_close]
  have "all_sends (send_unlink s w) = filter (\<lambda>t. snd_addr t \<noteq> snd_addr s) (all_sends w)"
    by (simp add: all_sends_def send_unlink_def concat_filter)
  then show ?thesis unfolding closers_def m by (simp add: send_unlink_def)
qed

lemma closers_store:
  fixes w :: "'a sr_state_scheme"
  assumes "receive_ok w" and "r \<in> set (receive_head w)" and "rx_same r r'"
  shows "closers (rx_store r' w) = closers w"
proof -
  have "inj_on rx_addr (set (receive_head w))" using assms(1) by (simp add: receive_ok_def distinct_map)
  then have "map rx_on_close (map (\<lambda>q. if rx_addr q = rx_addr r' then r' else q) (receive_head w)) =
      map rx_on_close (receive_head w)"
    using assms(2,3) by (auto simp: rx_same_def dest: inj_onD)
  from arg_cong [OF this, of mset]
  have "image_mset rx_on_close (mset (map (\<lambda>q. if rx_addr q = rx_addr r' then r' else q) (receive_head w))) =
      image_mset rx_on_close (mset (receive_head w))" by (simp only: mset_map)
  then show ?thesis unfolding closers_def by (simp only: all_sends_def rx_store_def receive_state.simps receive_state.select_convs
        receive_state.surjective receive_state.update_convs)  simp
qed

lemma closers_output:
  fixes w w' :: "'a sr_state_scheme"
  assumes "only_output w w'"
  shows "closers w' = closers w" and "send_receive_head w' = send_receive_head w" and "wakeup_head w' = wakeup_head w"
    and "next_addr w' = next_addr w" and "json_hello_buf w' = json_hello_buf w" and "proto_hello_buf w' = proto_hello_buf w"
    and "fds w' = fds w" and "sr_state.more w' = sr_state.more w" and "peer_shutdown_flag w' = peer_shutdown_flag w"
  using assms by (auto simp: only_output_def closers_def all_sends_def)

lemma conn_inv_output:
  fixes w w' :: "'a sr_state_scheme"
  assumes inv: "conn_inv pend f w" and o: "only_output w w'" and ok: "receive_ok w'"
  shows "conn_inv pend f w'" and "owners f w' = owners f w"
proof -
  note c = closers_output [OF o]
  show ow: "owners f w' = owners f w" by (rule owners_cong [OF c(1-3)])
  have "wakeup_ok w'" using wakeup_ok_output [OF _ o ok] inv by (simp add: conn_inv_def)
  moreover have "reg_inv w'"
    by (rule reg_inv_cong [of w]) (use inv o in \<open>auto simp: conn_inv_def only_output_def\<close>)
  ultimately show "conn_inv pend f w'" using inv unfolding conn_inv_def ow c by simp
qed

lemma peer_fds_store:
  fixes w :: "'a sr_state_scheme"
  assumes "receive_ok w" and "r \<in> set (receive_head w)" and "rx_same r r'"
  shows "peer_fds w p \<subseteq> peer_fds (rx_store r' w) p"
proof -
  have inj: "inj_on rx_addr (set (receive_head w))" using assms(1) by (simp add: receive_ok_def distinct_map)
  have "\<exists>q' \<in> set (receive_head (rx_store r' w)). rx_addr q' = rx_addr q \<and> rx_fd q' = rx_fd q" if "q \<in> set (receive_head w)" for q
  proof (cases "rx_addr q = rx_addr r")
    case True
    then have "q = r" using inj that assms(2) by (auto dest: inj_onD)
    then show ?thesis using that assms(3) by (intro bexI [of _ r']) (auto simp: rx_store_def rx_same_def rx_fd_def)
  next
    case False
    then show ?thesis using that assms(3) by (intro bexI [of _ q]) (auto simp: rx_store_def rx_same_def image_iff)
  qed
  note ex = this
  show ?thesis
  proof (cases "\<exists>a. p = Peer_receive a")
    case True
    then obtain a where a: "p = Peer_receive a" by blast
    show ?thesis
    proof
      fix g
      assume "g \<in> peer_fds w p"
      then obtain q where q: "q \<in> set (receive_head w)" "rx_addr q = a" "rx_fd q = g" by (auto simp: peer_fds_def a)
      from ex [OF q(1)] obtain q' where "q' \<in> set (receive_head (rx_store r' w))" "rx_addr q' = a" "rx_fd q' = g"
        using q(2,3) by blast
      then show "g \<in> peer_fds (rx_store r' w) p" by (auto simp: peer_fds_def a)
    qed
  next
    case False
    then have "peer_fds (rx_store r' w) p = peer_fds w p"
      by (cases p) (simp_all add: peer_fds_def all_sends_def rx_store_def)
    then show ?thesis by simp
  qed
qed

lemma conn_inv_store:
  fixes w :: "'a sr_state_scheme"
  assumes inv: "conn_inv pend f w" and r: "r \<in> set (receive_head w)" and same: "rx_same r r'"
    and r': "rx_ok r'" "buf_length (rx_buf r') < BUF_LEN_MAX"
  shows "conn_inv pend f (rx_store r' w)" and "owners f (rx_store r' w) = owners f w"
proof -
  have wo: "wakeup_ok w" and ro: "receive_ok w" using inv by (simp_all add: conn_inv_def wakeup_ok_def)
  note c = closers_store [OF ro r same]
  have frame: "send_receive_head (rx_store r' w) = send_receive_head w" "wakeup_head (rx_store r' w) = wakeup_head w"
    "next_addr (rx_store r' w) = next_addr w" "json_hello_buf (rx_store r' w) = json_hello_buf w"
    "proto_hello_buf (rx_store r' w) = proto_hello_buf w" "fds (rx_store r' w) = fds w" by (simp_all add: rx_store_def)
  show ow: "owners f (rx_store r' w) = owners f w" by (rule owners_cong [OF c frame(1,2)])
  have "wakeup_ok (rx_store r' w)" by (rule wakeup_ok_store [OF wo receive_store_ok [OF ro r same r']])
  moreover have "reg_inv (rx_store r' w)"
  proof (rule reg_inv_mono [of w])
    show "reg_inv w" using inv by (simp add: conn_inv_def)
    show "peer_fds w p \<subseteq> peer_fds (rx_store r' w) p" for p by (rule peer_fds_store [OF ro r same])
  qed (simp_all add: rx_store_def)
  ultimately show "conn_inv pend f (rx_store r' w)" using inv unfolding conn_inv_def ow c frame by simp
qed

lemma conn_inv_receive_unlink:
  fixes w :: "'a sr_state_scheme"
  assumes inv: "conn_inv pend f w" and r: "r \<in> set (receive_head w)"
  shows "conn_inv (pend_add (rx_on_close r) pend) f (receive_unlink r w)"
    and "owners f w = add_mset (rx_on_close r) (owners f (receive_unlink r w))"
proof -
  have wo: "wakeup_ok w" and ro: "receive_ok w" and fin: "finite (dom (fds w))"
    using inv by (simp_all add: conn_inv_def wakeup_ok_def)
  have fin': "finite (dom (fds (receive_unlink r w)))" using fin by (simp add: receive_unlink_def)
  have reg: "reg_inv (receive_unlink r w)"
  proof (rule reg_inv_unlink [of w "Peer_receive (rx_addr r)" _ "rx_fd r"])
    show "reg_inv w" using inv by (simp add: conn_inv_def)
    have "inj_on rx_addr (set (receive_head w))" using ro by (simp add: receive_ok_def distinct_map)
    then show "peer_fds w (Peer_receive (rx_addr r)) \<subseteq> {rx_fd r}" using r by (auto simp: peer_fds_def dest: inj_onD)
    show "peer_fds w p \<subseteq> peer_fds (receive_unlink r w) p" if "p \<noteq> Peer_receive (rx_addr r)" for p
      using that by (cases p) (auto simp: peer_fds_def receive_unlink_def all_sends_def)
  qed (auto simp: receive_unlink_def)
  note u = conn_inv_unlink [OF inv wakeup_ok_receive_unlink [OF wo r] reg fin' closers_receive_unlink [OF ro r]]
  show "conn_inv (pend_add (rx_on_close r) pend) f (receive_unlink r w)"
    "owners f w = add_mset (rx_on_close r) (owners f (receive_unlink r w))"
    by (rule u; simp add: receive_unlink_def)+
qed

lemma conn_inv_send_unlink:
  fixes w :: "'a sr_state_scheme"
  assumes inv: "conn_inv pend f w" and s: "s \<in> set (all_sends w)"
  shows "conn_inv (pend_add (snd_on_close s) pend) f (send_unlink s w)"
    and "owners f w = add_mset (snd_on_close s) (owners f (send_unlink s w))"
proof -
  have wo: "wakeup_ok w" and ro: "receive_ok w" and fin: "finite (dom (fds w))"
    using inv by (simp_all add: conn_inv_def wakeup_ok_def)
  have fin': "finite (dom (fds (send_unlink s w)))" using fin by (simp add: send_unlink_def)
  have reg: "reg_inv (send_unlink s w)"
  proof (rule reg_inv_unlink [of w "Peer_send (snd_addr s)" _ "snd_fd s"])
    show "reg_inv w" using inv by (simp add: conn_inv_def)
    have "inj_on snd_addr (set (all_sends w))" using ro by (simp add: receive_ok_def send_ok_def distinct_map)
    then show "peer_fds w (Peer_send (snd_addr s)) \<subseteq> {snd_fd s}" using s by (auto simp: peer_fds_def dest: inj_onD)
    show "peer_fds w p \<subseteq> peer_fds (send_unlink s w) p" if "p \<noteq> Peer_send (snd_addr s)" for p
      using that by (cases p) (auto simp: peer_fds_def send_unlink_def all_sends_def)
  qed (auto simp: send_unlink_def)
  note u = conn_inv_unlink [OF inv wakeup_ok_send_unlink [OF wo s] reg fin' closers_send_unlink [OF ro s]]
  show "conn_inv (pend_add (snd_on_close s) pend) f (send_unlink s w)"
    "owners f w = add_mset (snd_on_close s) (owners f (send_unlink s w))"
    by (rule u; simp add: send_unlink_def)+
qed

section \<open>New connections\<close>

text \<open>
  What the operations on connections never touch: the state of the transports, and the
  registrations of transports and of the shutdown signal.
\<close>

definition foreign :: "peer_ref \<Rightarrow> bool" where
  "foreign p \<longleftrightarrow> p = Peer_shutdown \<or> (\<exists>t. p = Peer_transport t)"

lemma foreign_simps [simp]:
  "foreign Peer_shutdown" "foreign (Peer_transport t)" "\<not> foreign (Peer_receive a)" "\<not> foreign (Peer_send a)"
  "\<not> foreign (Peer_wakeup a)" "\<not> foreign (Peer_send_receive a)"
  by (simp_all add: foreign_def)

definition tp_frame :: "'a sr_state_scheme \<Rightarrow> 'a sr_state_scheme \<Rightarrow> bool" where
  "tp_frame w w' \<longleftrightarrow> sr_state.more w' = sr_state.more w \<and> next_addr w \<le> next_addr w' \<and>
     (\<forall>g t. epoll_set w' g = Some (Peer_transport t) \<longleftrightarrow> epoll_set w g = Some (Peer_transport t)) \<and>
     (\<forall>t. Peer_transport t \<in> set (peer_always_trigger_head w') \<longrightarrow> Peer_transport t \<in> set (peer_always_trigger_head w))"

definition t_frame :: "'a sr_state_scheme \<Rightarrow> 'a sr_state_scheme \<Rightarrow> bool" where
  "t_frame w w' \<longleftrightarrow> sr_state.more w' = sr_state.more w \<and> next_addr w \<le> next_addr w' \<and>
     peer_shutdown_peer w' = peer_shutdown_peer w \<and>
     (\<forall>g p. foreign p \<longrightarrow> (epoll_set w' g = Some p \<longleftrightarrow> epoll_set w g = Some p)) \<and>
     (\<forall>p. foreign p \<longrightarrow> p \<in> set (peer_always_trigger_head w') \<longrightarrow> p \<in> set (peer_always_trigger_head w))"

lemma t_frame_tp: "t_frame w w' \<Longrightarrow> tp_frame w w'"
  by (simp add: t_frame_def tp_frame_def)

lemma t_frame_refl [simp]: "t_frame w w"
  by (simp add: t_frame_def)

lemma t_frame_trans: "t_frame u v \<Longrightarrow> t_frame v w \<Longrightarrow> t_frame u w"
  by (simp add: t_frame_def)

text \<open>What a new connection leaves alone.\<close>

definition conn_frame :: "'a sr_state_scheme \<Rightarrow> 'a sr_state_scheme \<Rightarrow> bool" where
  "conn_frame w w' \<longleftrightarrow> t_frame w w' \<and> wakeup_head w' = wakeup_head w \<and> json_hello_buf w' = json_hello_buf w \<and>
     proto_hello_buf w' = proto_hello_buf w \<and> peer_shutdown_flag w' = peer_shutdown_flag w \<and>
     (\<forall>p. peer_fds w p \<subseteq> peer_fds w' p)"

lemma conn_frame_refl [simp]: "conn_frame w w"
  by (simp add: conn_frame_def)

lemma conn_frameI:
  "t_frame w w' \<Longrightarrow> receive_head w' = receive_head w \<Longrightarrow> send_heads w' = send_heads w \<Longrightarrow>
   wakeup_head w' = wakeup_head w \<Longrightarrow> json_hello_buf w' = json_hello_buf w \<Longrightarrow>
   proto_hello_buf w' = proto_hello_buf w \<Longrightarrow> peer_shutdown_flag w' = peer_shutdown_flag w \<Longrightarrow> conn_frame w w'"
  using peer_fds_cong [of w' w] by (simp add: conn_frame_def)

lemma conn_frame_trans: "conn_frame u v \<Longrightarrow> conn_frame v w \<Longrightarrow> conn_frame u w"
  unfolding conn_frame_def by (auto intro: t_frame_trans dest: subsetD)

lemma conn_inv_receive_new:
  fixes w :: "'a sr_state_scheme"
  assumes inv: "conn_inv (pend_add c pend) f w" and own: "may_own (pend_add c pend) f c w" and fd: "fd_unused fd w"
  shows "\<exists>w' r info. receive_new E fd c w = Some w' \<and> conn_inv pend f w' \<and> owners f w' = add_mset c (owners f w) \<and>
    conn_frame w w' \<and> send_receive_head w' = send_receive_head w \<and> fds w' = fds w \<and> send_heads w' = send_heads w \<and>
    receive_head w' = receive_head w @ [r] \<and> rx_on_close r = c \<and> fds w fd = Some info \<and> rx_stat r = fd_stat info"
proof -
  have wo: "wakeup_ok w" and ro: "receive_ok w" and fin: "finite (dom (fds w))"
    using inv by (simp_all add: conn_inv_def wakeup_ok_def)
  have free: "fd_free fd w" and fe: "epoll_set w fd = None" using fd by (simp_all add: fd_unused_def fd_free_def fd_fresh_def)
  from receive_new_eq [OF ro free, of E c] obtain uid rs info p where
    info: "fds w fd = Some info" and p: "peer_fd p = fd"
    and eq: "receive_new E fd c w =
      (let r = \<lparr>rx_addr = next_addr w, rx_peer = p, rx_stat = fd_stat info, rx_on_close = c, rx_id = uid,
         rx_buf = buf_init BUF_INIT, rx_parser_state = parser_state_zero, rx_parser = None\<rparr>
       in Some (w\<lparr>peer_count_in := peer_count_in w + 1, next_addr := next_addr w + 1, rnd := rs,
            epoll_set := (if fd_pollable info then (epoll_set w)(fd \<mapsto> Peer_receive (next_addr w)) else epoll_set w),
            peer_always_trigger_head := (if fd_pollable info then peer_always_trigger_head w
              else peer_always_trigger_head w @ [Peer_receive (next_addr w)]),
            receive_head := receive_head w @ [r]\<rparr>))" by blast
  define r where "r = \<lparr>rx_addr = next_addr w, rx_peer = p, rx_stat = fd_stat info, rx_on_close = c, rx_id = uid,
     rx_buf = buf_init BUF_INIT, rx_parser_state = parser_state_zero, rx_parser = None\<rparr>"
  define w' where "w' = w\<lparr>peer_count_in := peer_count_in w + 1, next_addr := next_addr w + 1, rnd := rs,
     epoll_set := (if fd_pollable info then (epoll_set w)(fd \<mapsto> Peer_receive (next_addr w)) else epoll_set w),
     peer_always_trigger_head := (if fd_pollable info then peer_always_trigger_head w
       else peer_always_trigger_head w @ [Peer_receive (next_addr w)]),
     receive_head := receive_head w @ [r]\<rparr>"
  have new: "receive_new E fd c w = Some w'" unfolding eq by (simp add: w'_def r_def)
  have ro': "receive_ok w'" using receive_new_spec [OF ro free, of E c] new by auto
  have wo': "wakeup_ok w'"
    by (rule wakeup_ok_frame [OF wo ro']) (use fe in \<open>auto simp: w'_def split: if_splits\<close>)
  have cl: "closers w' = add_mset c (closers w)" by (simp add: closers_def all_sends_def w'_def r_def)
  have mono: "peer_fds w q \<subseteq> peer_fds w' q" for q
    by (rule peer_fds_monoI) (auto simp: w'_def all_sends_def)
  have "r \<in> set (receive_head w')" "rx_addr r = next_addr w" "rx_fd r = fd"
    using p by (simp_all add: w'_def r_def rx_fd_def)
  then have new_fds: "fd \<in> peer_fds w' (Peer_receive (next_addr w))"
    unfolding peer_fds_def peer_ref.case by blast
  then have ne: "peer_fds w' (Peer_receive (next_addr w)) \<noteq> {}" by blast
  have ep: "epoll_set w g = Some q \<or> g \<in> peer_fds w' q" if "epoll_set w' g = Some q" for g q
    using that new_fds by (auto simp: w'_def split: if_splits)
  have al: "q \<in> set (peer_always_trigger_head w) \<or> peer_fds w' q \<noteq> {}" if "q \<in> set (peer_always_trigger_head w')" for q
    using that ne by (auto simp: w'_def split: if_splits)
  have fr: "conn_frame w w'" "send_receive_head w' = send_receive_head w" "fds w' = fds w" "send_heads w' = send_heads w"
    using fe mono by (auto simp: conn_frame_def t_frame_def w'_def)
  have fin': "finite (dom (fds w'))" using fin fr(3) by simp
  have reg: "reg_inv w'"
  proof (rule reg_inv_mono [of w])
    show "reg_inv w" using inv by (simp add: conn_inv_def)
  qed (fact mono ep al)+
  note l = conn_inv_link [OF inv own wo' reg fin' cl fr(2)]
  have "conn_inv pend f w'" "owners f w' = add_mset c (owners f w)"
    by (rule l; use fr(1) in \<open>simp add: conn_frame_def t_frame_def\<close>)+
  then show ?thesis using new fr info by (intro exI [of _ w'] exI [of _ r] exI [of _ info]) (simp add: w'_def r_def)
qed

lemma conn_inv_send_new:
  fixes w :: "'a sr_state_scheme"
  assumes inv: "conn_inv (pend_add c pend) f w" and own: "may_own (pend_add c pend) f c w" and fd: "fd_unused fd w"
    and i: "i < NUM_SERIALIZERS"
  shows "\<exists>w' s info. send_new E fd i c w = Some w' \<and> conn_inv pend f w' \<and> owners f w' = add_mset c (owners f w) \<and>
    conn_frame w w' \<and> send_receive_head w' = send_receive_head w \<and> fds w' = fds w \<and> receive_head w' = receive_head w \<and>
    set (all_sends w') = insert s (set (all_sends w)) \<and> snd_on_close s = c \<and> snd_fd s = fd \<and>
    fds w fd = Some info \<and> snd_stat s = fd_stat info"
proof -
  have wo: "wakeup_ok w" and ro: "receive_ok w" and fin: "finite (dom (fds w))"
    using inv by (simp_all add: conn_inv_def wakeup_ok_def)
  have free: "fd_free fd w" and fe: "epoll_set w fd = None" using fd by (simp_all add: fd_unused_def fd_free_def fd_fresh_def)
  from send_new_receive_ok [OF ro free i, of E c] obtain w' s uid rs info p where
    new: "send_new E fd i c w = Some w'" and ro': "receive_ok w'" and info: "fds w fd = Some info" "peer_fd p = fd"
    and s: "s = \<lparr>snd_addr = next_addr w, snd_peer = p, snd_stat = fd_stat info, snd_on_close = c, snd_id = uid\<rparr>"
    and w': "w' = w\<lparr>peer_count_out := peer_count_out w + 1, next_addr := next_addr w + 1, rnd := rs,
      epoll_set := (if fd_pollable info then (epoll_set w)(fd \<mapsto> Peer_send (next_addr w)) else epoll_set w),
      send_heads := (send_heads w)[i := send_heads w ! i @ [s]]\<rparr>"
    and all: "set (all_sends w') = insert s (set (all_sends w))" "mset (all_sends w') = add_mset s (mset (all_sends w))"
    by blast
  have wo': "wakeup_ok w'"
    by (rule wakeup_ok_frame [OF wo ro']) (use fe in \<open>auto simp: w' split: if_splits\<close>)
  have mono: "peer_fds w q \<subseteq> peer_fds w' q" for q
    by (rule peer_fds_monoI) (use all(1) in \<open>auto simp: w'\<close>)
  have new_fds: "fd \<in> peer_fds w' (Peer_send (next_addr w))"
    using info(2) unfolding peer_fds_def all(1) peer_ref.case by (intro image_eqI [of _ _ s]) (simp_all add: s snd_fd_def)
  have ep: "epoll_set w g = Some q \<or> g \<in> peer_fds w' q" if "epoll_set w' g = Some q" for g q
    using that new_fds by (auto simp: w' split: if_splits)
  have al: "q \<in> set (peer_always_trigger_head w) \<or> peer_fds w' q \<noteq> {}" if "q \<in> set (peer_always_trigger_head w')" for q
    using that by (simp add: w')
  have fr: "conn_frame w w'" "send_receive_head w' = send_receive_head w" "fds w' = fds w" "receive_head w' = receive_head w"
    using fe mono by (auto simp: conn_frame_def t_frame_def w')
  have reg: "reg_inv w'"
  proof (rule reg_inv_mono [of w])
    show "reg_inv w" using inv by (simp add: conn_inv_def)
  qed (fact mono ep al)+
  have cl: "closers w' = add_mset c (closers w)" unfolding closers_def all(2) fr(4) by (simp add: s)
  have fin': "finite (dom (fds w'))" using fin fr(3) by simp
  note l = conn_inv_link [OF inv own wo' reg fin' cl fr(2)]
  have "conn_inv pend f w'" "owners f w' = add_mset c (owners f w)"
    by (rule l; use fr(1) in \<open>simp add: conn_frame_def t_frame_def\<close>)+
  then show ?thesis using new fr info all(1) by (intro exI [of _ w'] exI [of _ s] exI [of _ info]) (simp add: s snd_fd_def)
qed

section \<open>Descriptors nobody uses\<close>

lemma receive_ok_unused:
  fixes w w' :: "'a receive_state_scheme"
  assumes ok: "receive_ok w" and fd: "fd \<notin> snd_fd ` set (all_sends w)" "fd \<notin> rx_fd ` set (receive_head w)"
    and w': "\<And>g. g \<noteq> fd \<Longrightarrow> fds w' g = fds w g" "\<And>g. g \<noteq> fd \<Longrightarrow> epoll_set w' g = epoll_set w g"
      "\<And>p. epoll_set w' fd = Some p \<Longrightarrow> \<exists>i. fds w' fd = Some i \<and> fd_pollable i"
      "peer_always_trigger_head w' = peer_always_trigger_head w" "send_heads w' = send_heads w"
      "receive_head w' = receive_head w" "next_addr w' = next_addr w" "rnd w' = rnd w" "stats w' = stats w"
  shows "receive_ok w'"
proof -
  have reg: "peer_registered q p w' = peer_registered q p w" if "peer_fd p \<noteq> fd" for q p
    using that by (simp add: peer_registered_def w')
  have "\<exists>i. fds w' g = Some i \<and> fd_pollable i" if "epoll_set w' g = Some p" for g p
    using ok w'(1-3) that by (cases "g = fd") (auto simp: receive_ok_def send_ok_def peer_state_ok_def)
  then have st: "peer_state_ok w'"
    using ok unfolding receive_ok_def send_ok_def peer_state_ok_def w'(4) by blast
  have all: "all_sends w' = all_sends w" by (simp add: all_sends_def w')
  have fd': "\<forall>s \<in> set (all_sends w). snd_fd s \<noteq> fd" "\<forall>r \<in> set (receive_head w). rx_fd r \<noteq> fd" using fd by auto
  have "send_ok w'"
    using ok st fd'(1) reg unfolding receive_ok_def send_ok_def all w'(4,5,7,8,9) by (auto simp: snd_fd_def w'(1))
  then show ?thesis
    using ok fd'(2) reg unfolding receive_ok_def all w'(4,6,7) by (auto simp: rx_fd_def)
qed

lemma fd_new_unused:
  assumes "receive_ok w" and "fds w fd = None"
  shows "fd \<notin> snd_fd ` set (all_sends w)" and "fd \<notin> rx_fd ` set (receive_head w)" and "epoll_set w fd = None"
proof -
  have "\<forall>s \<in> set (all_sends w). fds w (snd_fd s) \<noteq> None" "\<forall>r \<in> set (receive_head w). fds w (rx_fd r) \<noteq> None"
    using assms(1) by (auto simp: receive_ok_def send_ok_def peer_registered_def snd_fd_def rx_fd_def)
  then show "fd \<notin> snd_fd ` set (all_sends w)" "fd \<notin> rx_fd ` set (receive_head w)" using assms(2) by auto
  have "peer_state_ok w" using assms(1) by (simp add: receive_ok_def send_ok_def)
  then show "epoll_set w fd = None"
    using assms(2) unfolding peer_state_ok_def by (metis not_Some_eq option.distinct(1))
qed

lemma conn_inv_unused:
  fixes w w' :: "'a sr_state_scheme"
  assumes inv: "conn_inv pend f w" and fd: "fd \<notin> snd_fd ` set (all_sends w)" "fd \<notin> rx_fd ` set (receive_head w)"
      "epoll_set w fd = None"
    and w': "w' = w\<lparr>fds := (fds w)(fd := i), epoll_set := (epoll_set w)(fd := None)\<rparr>"
  shows "conn_inv pend f w'" and "owners f w' = owners f w"
proof -
  have wo: "wakeup_ok w" and ro: "receive_ok w" using inv by (simp_all add: conn_inv_def wakeup_ok_def)
  have "receive_ok w'" by (rule receive_ok_unused [OF ro fd(1,2)]) (simp_all add: w')
  then have wo': "wakeup_ok w'" using fd(3) by (intro wakeup_ok_frame [OF wo]) (auto simp: w')
  have cl: "closers w' = closers w" by (rule closers_cong) (simp_all add: w')
  show ow: "owners f w' = owners f w" by (rule owners_cong [OF cl]) (simp_all add: w')
  have "reg_inv w'"
    by (rule reg_inv_cong [of w]) (use inv fd(3) in \<open>simp_all add: conn_inv_def w' fun_upd_idem\<close>)
  moreover have "finite (dom (fds w'))" using inv by (simp add: conn_inv_def w' fun_upd_def dom_if)
  ultimately show "conn_inv pend f w'"
    using inv wo' unfolding conn_inv_def ow cl by (simp add: w')
qed

text \<open>A fresh descriptor has been opened.\<close>

lemma conn_inv_opened:
  fixes w :: "'a sr_state_scheme" and info :: fd_info
  assumes inv: "conn_inv pend f w" and fd: "0 \<le> fd" "fds w fd = None"
  defines "w' \<equiv> w\<lparr>fds := (fds w)(fd \<mapsto> info)\<rparr>"
  shows "conn_inv pend f w'" and "owners f w' = owners f w" and "fd_unused fd w'"
proof -
  have ro: "receive_ok w" using inv by (simp add: conn_inv_def wakeup_ok_def)
  note u = fd_new_unused [OF ro fd(2)]
  have "w' = w\<lparr>fds := (fds w)(fd := Some info), epoll_set := (epoll_set w)(fd := None)\<rparr>"
    using u(3) by (simp add: w'_def fun_upd_idem)
  note n = conn_inv_unused [OF inv u this]
  show "conn_inv pend f w'" "owners f w' = owners f w" by (fact n)+
  show "fd_unused fd w'"
    using u fd(1) by (simp add: fd_unused_def fd_free_def fd_fresh_def w'_def all_sends_def)
qed

section \<open>Duplex connections\<close>

definition owner_free :: "nat option \<Rightarrow> peer_ref option \<Rightarrow> 'a sr_state_scheme \<Rightarrow> bool" where
  "owner_free f c w \<longleftrightarrow> c = None \<or> (\<exists>t. c = Some (Peer_transport t) \<and> c \<notin># owners f w)"

lemma owner_free_may_own: "owner_free f c w \<Longrightarrow> may_own pend f c w \<and> pend_add c pend = pend"
  by (auto simp: owner_free_def may_own_def pend_add_def)

text \<open>The structure before its halves exist.\<close>

lemma conn_inv_duplex_start:
  fixes w :: "'a sr_state_scheme"
  assumes inv: "conn_inv (\<lambda>_. 0) f w" and own: "owner_free f c w"
  defines "a \<equiv> next_addr w"
  defines "w' \<equiv> w\<lparr>next_addr := a + 1, send_receive_head := send_receive_head w @
    [\<lparr>sr_addr = a, sr_on_close = c, sr_ref_count = 2\<rparr>]\<rparr>"
  shows "conn_inv ((\<lambda>_. 0)(a := 2)) f w'" and "owners f w' = add_mset c (owners f w)"
proof -
  have wo: "wakeup_ok w" and ro: "receive_ok w" using inv by (simp_all add: conn_inv_def wakeup_ok_def)
  have reg: "peer_registered q p w' = peer_registered q p w" "peer_state_ok w' = peer_state_ok w"
    "all_sends w' = all_sends w" for q p
    by (simp_all add: peer_registered_def peer_state_ok_def all_sends_def w'_def)
  have "send_ok w'" using ro unfolding receive_ok_def send_ok_def reg
    by (auto simp: w'_def a_def intro: less_SucI)
  then have "receive_ok w'" using ro unfolding receive_ok_def reg
    by (auto simp: w'_def a_def intro: less_SucI)
  then have wo': "wakeup_ok w'" by (intro wakeup_ok_frame [OF wo]) (auto simp: w'_def a_def)
  have cl: "closers w' = closers w" by (rule closers_cong) (simp_all add: w'_def)
  have reg: "reg_inv w'"
    by (rule reg_inv_cong [of w]) (use inv in \<open>simp_all add: conn_inv_def w'_def\<close>)
  show ow: "owners f w' = add_mset c (owners f w)" unfolding owners_def conn_owners_def cl by (simp add: w'_def)
  have fresh: "a \<notin> sr_addr ` set (send_receive_head w)" using inv by (auto simp: conn_inv_def a_def)
  then have "Some (Peer_send_receive a) \<notin># closers w" using inv by (auto simp: conn_inv_def)
  then have zero: "count (closers w) (Some (Peer_send_receive a)) = 0" by (simp add: not_in_iff)
  have cnt: "count (owners f w') (Some (Peer_transport t)) \<le> 1" for t
    using inv own by (cases "c = Some (Peer_transport t)") (auto simp: ow conn_inv_def owner_free_def not_in_iff)
  have srs: "\<forall>sr \<in> set (send_receive_head w'). sr_addr sr < next_addr w' \<and> 0 < sr_ref_count sr \<and>
      unat (sr_ref_count sr) = count (closers w) (Some (Peer_send_receive (sr_addr sr))) + ((\<lambda>_. 0)(a := 2)) (sr_addr sr) \<and>
      (\<forall>c. sr_on_close sr = Some c \<longrightarrow> (\<exists>t. c = Peer_transport t))"
  proof
    fix sr
    assume "sr \<in> set (send_receive_head w')"
    then consider "sr = \<lparr>sr_addr = a, sr_on_close = c, sr_ref_count = 2\<rparr>" | "sr \<in> set (send_receive_head w)"
      by (auto simp: w'_def)
    then show "sr_addr sr < next_addr w' \<and> 0 < sr_ref_count sr \<and>
        unat (sr_ref_count sr) = count (closers w) (Some (Peer_send_receive (sr_addr sr))) + ((\<lambda>_. 0)(a := 2)) (sr_addr sr) \<and>
        (\<forall>c. sr_on_close sr = Some c \<longrightarrow> (\<exists>t. c = Peer_transport t))"
    proof cases
      case 1
      then show ?thesis using zero own by (auto simp: w'_def owner_free_def)
    next
      case 2
      then have "sr_addr sr \<noteq> a" using fresh by auto
      with 2 show ?thesis using inv by (auto simp: conn_inv_def w'_def a_def)
    qed
  qed
  show "conn_inv ((\<lambda>_. 0)(a := 2)) f w'"
    unfolding conn_inv_def cl
  proof (intro conjI wo' reg srs allI cnt)
    show "distinct (map sr_addr (send_receive_head w'))" using inv fresh by (auto simp: conn_inv_def w'_def)
    show "\<And>x. Some x \<in># closers w \<longrightarrow> (\<exists>t. x = Peer_transport t) \<or>
        (\<exists>b \<in> sr_addr ` set (send_receive_head w'). x = Peer_send_receive b)"
      using inv by (auto simp: conn_inv_def w'_def)
  qed (use inv in \<open>auto simp: conn_inv_def w'_def a_def\<close>)
qed

lemma conn_inv_duplex:
  fixes w :: "'a sr_state_scheme"
  assumes K: "kernel_ok K" and inv: "conn_inv (\<lambda>_. 0) f w" and own: "owner_free f c w" and fd: "fd_unused fd w"
    and i: "i < NUM_SERIALIZERS"
  shows "\<exists>w' r s a. send_receive_new E K fd (Some i) c w = Some w' \<and> conn_inv (\<lambda>_. 0) f w' \<and>
    owners f w' = {#Some (Peer_send_receive a), Some (Peer_send_receive a), c#} + owners f w \<and> conn_frame w w' \<and>
    send_receive_head w' = send_receive_head w @ [\<lparr>sr_addr = a, sr_on_close = c, sr_ref_count = 2\<rparr>] \<and>
    receive_head w' = receive_head w @ [r] \<and> set (all_sends w') = insert s (set (all_sends w)) \<and>
    rx_on_close r = Some (Peer_send_receive a) \<and> snd_on_close s = Some (Peer_send_receive a) \<and>
    snd_fd s = fd \<and> rx_stat r = snd_stat s"
proof -
  define a where "a = next_addr w"
  define ptr where "ptr = Some (Peer_send_receive a)"
  define w1 where "w1 = w\<lparr>next_addr := a + 1, send_receive_head := send_receive_head w @
    [\<lparr>sr_addr = a, sr_on_close = c, sr_ref_count = 2\<rparr>]\<rparr>"
  have p: "(\<lambda>_. 0)(a := 2) = pend_add ptr ((\<lambda>_. 0)(a := 1))" "(\<lambda>_. 0)(a := 1) = pend_add ptr (\<lambda>_. 0)"
    by (auto simp: pend_add_def ptr_def)
  have i1: "conn_inv (pend_add ptr ((\<lambda>_. 0)(a := 1))) f w1" and o1: "owners f w1 = add_mset c (owners f w)"
    using conn_inv_duplex_start [OF inv own] p(1) unfolding w1_def a_def by (simp_all only:)
  have m1: "may_own (pend_add ptr ((\<lambda>_. 0)(a := 1))) f ptr w1" by (simp add: may_own_def ptr_def pend_add_def w1_def)
  have f1: "fd_unused fd w1" using fd by (simp add: fd_unused_def fd_free_def fd_fresh_def w1_def all_sends_def)
  from conn_inv_send_new [OF i1 m1 f1 i, of E] obtain w2 s info where
    s2: "send_new E fd i ptr w1 = Some w2" "conn_inv ((\<lambda>_. 0)(a := 1)) f w2" "owners f w2 = add_mset ptr (owners f w1)"
      "conn_frame w1 w2" "send_receive_head w2 = send_receive_head w1" "fds w2 = fds w1" "receive_head w2 = receive_head w1"
      "set (all_sends w2) = insert s (set (all_sends w1))" "snd_on_close s = ptr" "snd_fd s = fd"
      "fds w1 fd = Some info" "snd_stat s = fd_stat info" by blast
  have "finite (dom (fds w2))" using s2(2) by (simp add: conn_inv_def)
  note fr = new_fd_fresh [OF K this]
  define w3 where "w3 = w2\<lparr>fds := (fds w2)(new_fd K w2 \<mapsto> info)\<rparr>"
  note o3 = conn_inv_opened [OF s2(2) fr, of info, folded w3_def]
  have d: "dup_fd K fd w2 = Some (new_fd K w2, w3)"
    using s2(6,11) fr(1) by (simp add: dup_fd_def w3_def Let_def)
  have i3: "conn_inv (pend_add ptr (\<lambda>_. 0)) f w3" using o3(1) unfolding p(2) .
  have m3: "may_own (pend_add ptr (\<lambda>_. 0)) f ptr w3"
    using s2(5) by (simp add: may_own_def ptr_def pend_add_def w3_def w1_def)
  from conn_inv_receive_new [OF i3 m3 o3(3), of E] obtain w4 r info' where
    r4: "receive_new E (new_fd K w2) ptr w3 = Some w4" "conn_inv (\<lambda>_. 0) f w4" "owners f w4 = add_mset ptr (owners f w3)"
      "conn_frame w3 w4" "send_receive_head w4 = send_receive_head w3" "send_heads w4 = send_heads w3"
      "receive_head w4 = receive_head w3 @ [r]" "rx_on_close r = ptr" "fds w3 (new_fd K w2) = Some info'"
      "rx_stat r = fd_stat info'" by blast
  have "info' = info" using r4(9) by (simp add: w3_def)
  have "send_receive_new E K fd (Some i) c w = Some w4"
    using s2(1) d r4(1) unfolding send_receive_new_def Let_def a_def [symmetric]
    by (simp add: flow_new_def send_flow_def receive_flow_def ptr_def [symmetric])
      (simp add: w1_def flow_new_def)
  moreover have "conn_frame w w4"
  proof -
    have "conn_frame w w1" by (simp add: conn_frame_def t_frame_def w1_def a_def peer_fds_def all_sends_def split: peer_ref.split)
    moreover have "conn_frame w2 w3" by (simp add: conn_frame_def t_frame_def w3_def peer_fds_def all_sends_def split: peer_ref.split)
    ultimately show ?thesis using s2(4) r4(4) by (blast intro: conn_frame_trans)
  qed
  moreover have "owners f w4 = {#ptr, ptr, c#} + owners f w" by (simp add: r4(3) o3(2) s2(3) o1)
  moreover have "all_sends w4 = all_sends w2" "all_sends w1 = all_sends w"
    using r4(6) by (simp_all add: all_sends_def w3_def w1_def)
  ultimately show ?thesis
    using s2 r4 \<open>info' = info\<close> unfolding ptr_def
    by (intro exI [of _ w4] exI [of _ r] exI [of _ s] exI [of _ a]) (simp add: w3_def w1_def)
qed

section \<open>The flows keep their contract\<close>

definition made :: "nat option \<Rightarrow> 'a sr_state_scheme \<Rightarrow> peer_ref option \<Rightarrow> 'a sr_state_scheme \<Rightarrow> bool" where
  "made f w c w' \<longleftrightarrow> conn_frame w w' \<and>
     (\<forall>t. Some (Peer_transport t) \<in># conn_owners w' \<longrightarrow>
        c = Some (Peer_transport t) \<or> Some (Peer_transport t) \<in># conn_owners w)"

lemma owners_add_conn:
  assumes "owners f w' = m + owners f w" and "wakeup_head w' = wakeup_head w"
  shows "conn_owners w' = m + conn_owners w"
  using assms by (simp add: owners_def)

definition format_ok :: "nat option \<Rightarrow> bool" where
  "format_ok pass \<longleftrightarrow> (\<exists>i < NUM_SERIALIZERS. pass = Some i)"

lemma conn_inv_ticked:
  fixes w :: "'a sr_state_scheme"
  assumes "conn_inv pend f w"
  shows "conn_inv pend f (w\<lparr>tick := n, trace := tr\<rparr>)" and "owners f (w\<lparr>tick := n, trace := tr\<rparr>) = owners f w"
proof -
  have ok: "receive_ok w" using assms by (simp add: conn_inv_def wakeup_ok_def)
  have o: "only_output w (w\<lparr>tick := n, trace := tr\<rparr>)" by simp
  have "receive_ok (w\<lparr>tick := n, trace := tr\<rparr>)"
    using receive_ok_output [OF ok o] ok by (simp add: receive_ok_def send_ok_def)
  from conn_inv_output [OF assms o this]
  show "conn_inv pend f (w\<lparr>tick := n, trace := tr\<rparr>)" "owners f (w\<lparr>tick := n, trace := tr\<rparr>) = owners f w" by blast+
qed

lemma conn_inv_closed:
  fixes w :: "'a sr_state_scheme"
  assumes "conn_inv pend f w" and "fd_unused fd w"
  shows "conn_inv pend f (w\<lparr>fds := (fds w)(fd := None), epoll_set := (epoll_set w)(fd := None)\<rparr>)"
  using assms(2) by (intro conn_inv_unused(1) [OF assms(1)]) (auto simp: fd_unused_def fd_free_def fd_fresh_def)

lemma hello_ok:
  assumes "conn_inv pend f w" and "format_ok pass"
  shows "\<exists>b. map_option (\<lambda>i. send_get_hello BUF_INIT i w) pass = Some b \<and> buf_ok b"
proof -
  obtain i where i: "pass = Some i" using assms(2) by (auto simp: format_ok_def)
  have "buf_ok (json_hello_buf w)" "buf_ok (proto_hello_buf w)" using assms(1) by (simp_all add: conn_inv_def)
  then have "buf_ok (send_get_hello BUF_INIT i w)" by (simp add: send_get_hello_def)
  then show ?thesis using i by simp
qed

text \<open>The three flows under their common conditions, once for each firing wakeup \<open>f\<close>.\<close>

abbreviation conn_flow ::
    "('a sr_state_scheme) flow \<Rightarrow> nat option \<Rightarrow> (nat option \<Rightarrow> bool) \<Rightarrow> bool" where
  "conn_flow flow f pass_ok \<equiv> flow_contract flow (conn_inv (\<lambda>_. 0) f) pass_ok (owner_free f) (made f)"

lemma conn_flowI:
  fixes flow :: "('a sr_state_scheme) flow"
  assumes create: "\<And>w fd pass c. conn_inv (\<lambda>_. 0) f w \<Longrightarrow> fd_unused fd w \<Longrightarrow> pass_ok pass \<Longrightarrow> owner_free f c w \<Longrightarrow>
      \<exists>w'. flow_create flow fd pass c w = Some w' \<and> conn_inv (\<lambda>_. 0) f w' \<and> made f w c w'"
    and hello: "\<And>w pass. conn_inv (\<lambda>_. 0) f w \<Longrightarrow> pass_ok pass \<Longrightarrow>
      \<exists>b. flow_get_hello flow BUF_INIT pass w = Some b \<and> buf_ok b"
  shows "conn_flow flow f pass_ok"
proof
  show "\<And>w n tr. conn_inv (\<lambda>_. 0) f w \<Longrightarrow> conn_inv (\<lambda>_. 0) f (w\<lparr>tick := n, trace := tr\<rparr>)"
    by (rule conn_inv_ticked(1))
  show "\<And>w fd. conn_inv (\<lambda>_. 0) f w \<Longrightarrow> fd_unused fd w \<Longrightarrow>
      conn_inv (\<lambda>_. 0) f (w\<lparr>fds := (fds w)(fd := None), epoll_set := (epoll_set w)(fd := None)\<rparr>)"
    by (rule conn_inv_closed)
  show "\<And>on_close w n tr. owner_free f on_close w \<Longrightarrow> owner_free f on_close (w\<lparr>tick := n, trace := tr\<rparr>)"
    by (auto simp: owner_free_def owners_def conn_owners_def closers_def all_sends_def)
qed (use create hello in blast)+

lemma receive_conn_flow: "conn_flow (receive_flow E :: ('a sr_state_scheme) flow) f (\<lambda>_. True)"
proof (rule conn_flowI)
  fix w :: "'a sr_state_scheme" and fd pass c
  assume w: "conn_inv (\<lambda>_. 0) f w" "fd_unused fd w" "owner_free f c w"
  have m: "may_own (pend_add c (\<lambda>_. 0)) f c w" "pend_add c (\<lambda>_. 0) = (\<lambda>_. 0)"
    using owner_free_may_own [OF w(3)] by blast+
  from conn_inv_receive_new [of c "\<lambda>_. 0" f w fd E] w m obtain w' where
    "receive_new E fd c w = Some w'" "conn_inv (\<lambda>_. 0) f w'" "owners f w' = add_mset c (owners f w)" "conn_frame w w'"
    by auto
  then show "\<exists>w'. flow_create (receive_flow E) fd pass c w = Some w' \<and> conn_inv (\<lambda>_. 0) f w' \<and> made f w c w'"
    using owners_add_conn [of f w' "{#c#}" w] by (auto simp: receive_flow_def made_def conn_frame_def)
next
  show "\<And>w pass. \<exists>b. flow_get_hello (receive_flow E) BUF_INIT pass w = Some b \<and> buf_ok b"
    by (simp add: flow_get_hello_def receive_flow_def buf_ok_def BUF_INIT_def)
qed

lemma send_conn_flow: "conn_flow (send_flow E :: ('a sr_state_scheme) flow) f format_ok"
proof (rule conn_flowI)
  fix w :: "'a sr_state_scheme" and fd pass c
  assume w: "conn_inv (\<lambda>_. 0) f w" "fd_unused fd w" "format_ok pass" "owner_free f c w"
  obtain i where i: "pass = Some i" "i < NUM_SERIALIZERS" using w(3) by (auto simp: format_ok_def)
  have m: "may_own (pend_add c (\<lambda>_. 0)) f c w" "pend_add c (\<lambda>_. 0) = (\<lambda>_. 0)"
    using owner_free_may_own [OF w(4)] by blast+
  from conn_inv_send_new [of c "\<lambda>_. 0" f w fd i E] w m i obtain w' where
    "send_new E fd i c w = Some w'" "conn_inv (\<lambda>_. 0) f w'" "owners f w' = add_mset c (owners f w)" "conn_frame w w'"
    by auto
  then show "\<exists>w'. flow_create (send_flow E) fd pass c w = Some w' \<and> conn_inv (\<lambda>_. 0) f w' \<and> made f w c w'"
    using owners_add_conn [of f w' "{#c#}" w] by (auto simp: send_flow_def made_def conn_frame_def i)
next
  show "\<And>w pass. conn_inv (\<lambda>_. 0) f w \<Longrightarrow> format_ok pass \<Longrightarrow>
      \<exists>b. flow_get_hello (send_flow E) BUF_INIT pass w = Some b \<and> buf_ok b"
    unfolding flow_get_hello_def send_flow_def flow.select_convs option.case by (rule hello_ok)
qed

lemma send_receive_conn_flow:
  assumes K: "kernel_ok K"
  shows "conn_flow (send_receive_flow E K :: ('a sr_state_scheme) flow) f format_ok"
proof (rule conn_flowI)
  fix w :: "'a sr_state_scheme" and fd pass c
  assume w: "conn_inv (\<lambda>_. 0) f w" "fd_unused fd w" "format_ok pass" "owner_free f c w"
  obtain i where i: "pass = Some i" "i < NUM_SERIALIZERS" using w(3) by (auto simp: format_ok_def)
  from conn_inv_duplex [OF K w(1,4,2) i(2), of E] obtain w' a where
    "send_receive_new E K fd (Some i) c w = Some w'" "conn_inv (\<lambda>_. 0) f w'"
    "owners f w' = {#Some (Peer_send_receive a), Some (Peer_send_receive a), c#} + owners f w" "conn_frame w w'"
    by blast
  then show "\<exists>w'. flow_create (send_receive_flow E K) fd pass c w = Some w' \<and> conn_inv (\<lambda>_. 0) f w' \<and> made f w c w'"
    using owners_add_conn [of f w' "{#Some (Peer_send_receive a), Some (Peer_send_receive a), c#}" w]
    by (auto simp: send_receive_flow_def made_def conn_frame_def i)
next
  show "\<And>w pass. conn_inv (\<lambda>_. 0) f w \<Longrightarrow> format_ok pass \<Longrightarrow>
      \<exists>b. flow_get_hello (send_receive_flow E K) BUF_INIT pass w = Some b \<and> buf_ok b"
    unfolding flow_get_hello_def send_receive_flow_def flow.select_convs option.case by (rule hello_ok)
qed

interpretation receiving: flow_contract "receive_flow E" "conn_inv (\<lambda>_. 0) f" "\<lambda>_. True" "owner_free f" "made f" for E f
  by (rule receive_conn_flow)

interpretation sending: flow_contract "send_flow E" "conn_inv (\<lambda>_. 0) f" format_ok "owner_free f" "made f" for E f
  by (rule send_conn_flow)

section \<open>The end of a half\<close>

lemma conn_inv_sr_heads:
  fixes w :: "'a sr_state_scheme"
  assumes inv: "conn_inv pend f w" and dist: "distinct (map sr_addr srs)"
    and srs: "\<And>sr. sr \<in> set srs \<Longrightarrow> sr_addr sr < next_addr w \<and> 0 < sr_ref_count sr \<and>
      unat (sr_ref_count sr) = count (closers w) (Some (Peer_send_receive (sr_addr sr))) + pend' (sr_addr sr) \<and>
      (\<forall>c. sr_on_close sr = Some c \<longrightarrow> (\<exists>t. c = Peer_transport t))"
    and live: "\<And>a. Some (Peer_send_receive a) \<in># closers w \<Longrightarrow> a \<in> sr_addr ` set srs"
    and cnt: "\<And>t. count (owners f (w\<lparr>send_receive_head := srs\<rparr>)) (Some (Peer_transport t)) \<le> 1"
  shows "conn_inv pend' f (w\<lparr>send_receive_head := srs\<rparr>)"
proof -
  define w' where "w' = w\<lparr>send_receive_head := srs\<rparr>"
  have wo: "wakeup_ok w" and ro: "receive_ok w" using inv by (simp_all add: conn_inv_def wakeup_ok_def)
  have reg: "peer_registered q p w' = peer_registered q p w" "peer_state_ok w' = peer_state_ok w"
    "all_sends w' = all_sends w" for q p
    by (simp_all add: peer_registered_def peer_state_ok_def all_sends_def w'_def)
  have "send_ok w'" using ro unfolding receive_ok_def send_ok_def reg by (simp add: w'_def)
  then have "receive_ok w'" using ro unfolding receive_ok_def reg by (simp add: w'_def)
  then have wo': "wakeup_ok w'" by (intro wakeup_ok_frame [OF wo]) (auto simp: w'_def)
  have cl: "closers w' = closers w" by (rule closers_cong) (simp_all add: w'_def)
  have reg: "reg_inv w'"
    by (rule reg_inv_cong [of w]) (use inv in \<open>simp_all add: conn_inv_def w'_def\<close>)
  have "conn_inv pend' f w'"
    unfolding conn_inv_def cl
  proof (intro conjI wo' reg ballI allI)
    fix x
    show "Some x \<in># closers w \<longrightarrow> (\<exists>t. x = Peer_transport t) \<or>
        (\<exists>b \<in> sr_addr ` set (send_receive_head w'). x = Peer_send_receive b)"
    proof
      assume x: "Some x \<in># closers w"
      then consider t where "x = Peer_transport t" | a where "x = Peer_send_receive a"
        using inv unfolding conn_inv_def by blast
      then show "(\<exists>t. x = Peer_transport t) \<or> (\<exists>b \<in> sr_addr ` set (send_receive_head w'). x = Peer_send_receive b)"
        using live x by cases (auto simp: w'_def)
    qed
  qed (use inv dist srs cnt in \<open>auto simp: conn_inv_def w'_def\<close>)
  then show ?thesis by (simp add: w'_def)
qed

text \<open>
  The callback of a half: either the other half is still open and the count goes down, or the
  structure is removed and its own owner is called.
\<close>

lemma send_receive_on_close_spec:
  fixes w :: "'a sr_state_scheme"
  assumes inv: "conn_inv (pend_add (Some (Peer_send_receive a)) (\<lambda>_. 0)) f w"
    and a: "a \<in> sr_addr ` set (send_receive_head w)"
  shows "\<exists>sr \<in> set (send_receive_head w). \<exists>srs. sr_addr sr = a \<and>
    conn_inv (\<lambda>_. 0) f (w\<lparr>send_receive_head := srs\<rparr>) \<and>
    (if sr_ref_count sr = 1
     then send_receive_on_close call a w = peer_call call (sr_on_close sr) (w\<lparr>send_receive_head := srs\<rparr>) \<and>
       owners f w = add_mset (sr_on_close sr) (owners f (w\<lparr>send_receive_head := srs\<rparr>)) \<and>
       sr_addr ` set srs = sr_addr ` set (send_receive_head w) - {a}
     else send_receive_on_close call a w = Some (w\<lparr>send_receive_head := srs\<rparr>) \<and>
       owners f (w\<lparr>send_receive_head := srs\<rparr>) = owners f w \<and>
       sr_addr ` set srs = sr_addr ` set (send_receive_head w))"
proof -
  let ?H = "send_receive_head w"
  from a obtain sr where sr: "sr \<in> set ?H" "sr_addr sr = a" by blast
  have dist: "distinct (map sr_addr ?H)" using inv by (simp add: conn_inv_def)
  then have inj: "inj_on sr_addr (set ?H)" by (simp add: distinct_map)
  have find: "find (\<lambda>q. sr_addr q = a) ?H = Some sr" using find_distinct_addr [OF dist sr(1)] by (simp add: sr(2))
  have r: "unat (sr_ref_count sr) = count (closers w) (Some (Peer_send_receive a)) + 1" "0 < sr_ref_count sr"
    using inv sr by (auto simp: conn_inv_def pend_add_def)
  define sr' where "sr' = sr\<lparr>sr_ref_count := sr_ref_count sr - 1\<rparr>"
  define upd where "upd = map (\<lambda>q. if sr_addr q = a then sr' else q) ?H"
  have dec: "unat (sr_ref_count sr - 1) = count (closers w) (Some (Peer_send_receive a))"
    using r by (simp add: unat_minus_one word_neq_0_conv)
  have others: "sr_addr q < next_addr w \<and> 0 < sr_ref_count q \<and>
      unat (sr_ref_count q) = count (closers w) (Some (Peer_send_receive (sr_addr q))) + 0 \<and>
      (\<forall>c. sr_on_close q = Some c \<longrightarrow> (\<exists>t. c = Peer_transport t))"
    if "q \<in> set ?H" "sr_addr q \<noteq> a" for q
    using inv that by (auto simp: conn_inv_def pend_add_def)
  show ?thesis
  proof (cases "sr_ref_count sr = 1")
    case True
    define srs where "srs = filter (\<lambda>q. sr_addr q \<noteq> a) ?H"
    have none: "Some (Peer_send_receive a) \<notin># closers w" using r(1) True by (simp add: not_in_iff)
    have "filter (\<lambda>q. sr_addr q \<noteq> a) (map (\<lambda>q. if sr_addr q = a then sr' else q) xs) = filter (\<lambda>q. sr_addr q \<noteq> a) xs"
      for xs by (induction xs) (auto simp: sr'_def sr(2))
    then have eq: "filter (\<lambda>q. sr_addr q \<noteq> a) upd = srs" unfolding upd_def srs_def .
    have fl: "image_mset sr_on_close (mset ?H) = add_mset (sr_on_close sr) (image_mset sr_on_close (mset srs))"
      using image_filter_addr [OF dist sr(1), of sr_on_close] by (simp add: srs_def sr(2))
    have cl: "closers (w\<lparr>send_receive_head := srs\<rparr>) = closers w" by (rule closers_cong) simp_all
    have ow: "owners f w = add_mset (sr_on_close sr) (owners f (w\<lparr>send_receive_head := srs\<rparr>))"
      unfolding owners_def conn_owners_def cl fl by simp
    have cnt: "count (owners f (w\<lparr>send_receive_head := srs\<rparr>)) (Some (Peer_transport t)) \<le> 1" for t
      by (rule conn_inv_count(2) [OF inv ow])
    have "conn_inv (\<lambda>_. 0) f (w\<lparr>send_receive_head := srs\<rparr>)"
    proof (rule conn_inv_sr_heads [OF inv _ _ _ cnt])
      show "distinct (map sr_addr srs)" using dist by (simp add: srs_def distinct_map_filter)
      show "\<And>b. Some (Peer_send_receive b) \<in># closers w \<Longrightarrow> b \<in> sr_addr ` set srs"
        using inv none by (auto simp: conn_inv_def srs_def)
    qed (use others in \<open>auto simp: srs_def\<close>)
    moreover have "send_receive_on_close call a w = peer_call call (sr_on_close sr) (w\<lparr>send_receive_head := srs\<rparr>)"
    proof -
      have "send_receive_on_close call a w = send_receive_del call sr' (w\<lparr>send_receive_head := upd\<rparr>)"
        using True unfolding send_receive_on_close_def find Option.bind.simps Let_def sr'_def [symmetric] upd_def [symmetric]
        by (simp add: sr'_def)
      then show ?thesis using eq by (simp add: send_receive_del_def sr'_def sr(2))
    qed
    moreover have "sr_addr ` set srs = sr_addr ` set ?H - {a}" by (auto simp: srs_def)
    ultimately show ?thesis using True sr ow by (intro bexI [of _ sr] exI [of _ srs]) simp_all
  next
    case False
    have "upd = map (\<lambda>q. if q = sr then sr' else q) ?H"
      using inj sr unfolding upd_def by (auto dest: inj_onD)
    then have set: "set upd = insert sr' (set ?H - {sr})" using sr(1) by auto
    have maps: "map sr_addr upd = map sr_addr ?H" by (auto simp: upd_def sr'_def sr(2))
    have "map sr_on_close upd = map sr_on_close ?H"
      using inj sr unfolding upd_def by (auto simp: sr'_def dest: inj_onD)
    then have im: "image_mset sr_on_close (mset upd) = image_mset sr_on_close (mset ?H)" by (metis mset_map)
    have cl: "closers (w\<lparr>send_receive_head := upd\<rparr>) = closers w" by (rule closers_cong) simp_all
    have ow: "owners f (w\<lparr>send_receive_head := upd\<rparr>) = owners f w" unfolding owners_def conn_owners_def cl by (simp add: im)
    have img: "sr_addr ` set upd = sr_addr ` set ?H" using arg_cong [OF maps, of set] by simp
    have "sr_ref_count sr - 1 \<noteq> 0" using False by (metis diff_add_cancel add_0)
    then have pos: "0 < sr_ref_count sr'" by (simp add: sr'_def word_neq_0_conv [symmetric])
    have "conn_inv (\<lambda>_. 0) f (w\<lparr>send_receive_head := upd\<rparr>)"
    proof (rule conn_inv_sr_heads [OF inv])
      show "distinct (map sr_addr upd)" using dist by (simp add: maps)
      show "\<And>t. count (owners f (w\<lparr>send_receive_head := upd\<rparr>)) (Some (Peer_transport t)) \<le> 1"
        unfolding ow using inv by (simp add: conn_inv_def)
      show "\<And>b. Some (Peer_send_receive b) \<in># closers w \<Longrightarrow> b \<in> sr_addr ` set upd"
        unfolding img using inv by (auto simp: conn_inv_def)
      fix q
      assume "q \<in> set upd"
      then consider "q = sr'" | "q \<in> set ?H" "sr_addr q \<noteq> a" using inj sr by (auto simp: set dest: inj_onD)
      then show "sr_addr q < next_addr w \<and> 0 < sr_ref_count q \<and>
          unat (sr_ref_count q) = count (closers w) (Some (Peer_send_receive (sr_addr q))) + 0 \<and>
          (\<forall>c. sr_on_close q = Some c \<longrightarrow> (\<exists>t. c = Peer_transport t))"
      proof cases
        case 1
        then show ?thesis using inv sr dec pos by (auto simp: conn_inv_def sr'_def)
      next
        case 2
        then show ?thesis using others by blast
      qed
    qed
    moreover have "send_receive_on_close call a w = Some (w\<lparr>send_receive_head := upd\<rparr>)"
      using pos unfolding send_receive_on_close_def find Option.bind.simps Let_def sr'_def [symmetric] upd_def [symmetric]
      by (cases "sr_ref_count sr' = 0") simp_all
    ultimately show ?thesis using False sr ow img by (intro bexI [of _ sr] exI [of _ upd]) simp_all
  qed
qed

section \<open>Properties\<close>

definition sample_kernel :: kernel where
  "sample_kernel = \<lparr>k_new_fd = (\<lambda>t. Max (insert 0 (dom t)) + 1), k_timer_stat = \<lparr>st_dev = 0, st_ino = 0\<rparr>,
     k_socket = \<lparr>k_setsockopt = (\<lambda>n fd opt v. 0), k_shutdown = (\<lambda>n fd how. 0)\<rparr>\<rparr>"

lemma sample_kernel_ok: "kernel_ok sample_kernel"
proof -
  have "0 \<le> Max (insert 0 (dom t)) + 1 \<and> t (Max (insert 0 (dom t)) + 1) = None"
    if "finite (dom t)" for t :: "int \<Rightarrow> fd_info option"
  proof -
    have f: "finite (insert 0 (dom t))" using that by simp
    have "0 \<le> Max (insert 0 (dom t))" using Max_ge [OF f] by blast
    moreover have "Max (insert 0 (dom t)) + 1 \<notin> dom t"
    proof
      assume "Max (insert 0 (dom t)) + 1 \<in> dom t"
      then have "Max (insert 0 (dom t)) + 1 \<le> Max (insert 0 (dom t))" using Max_ge [OF f] by blast
      then show False by simp
    qed
    ultimately show ?thesis by auto
  qed
  then show ?thesis by (simp add: kernel_ok_def sample_kernel_def)
qed

text \<open>A duplex connection both halves of which are open on the same file, and a free descriptor 8.\<close>

definition sample_sr_state :: sr_state where
  "sample_sr_state = \<lparr>peer_count_in = 1, peer_count_out = 1, peer_count_out_in = 1, peer_shutdown_flag = False,
     peer_shutdown_peer = \<lparr>peer_fd = -1, peer_always_trigger = False\<rparr>, peer_always_trigger_head = [],
     fds = [5 \<mapsto> \<lparr>fd_pollable = True, fd_stat = \<lparr>st_dev = 1, st_ino = 4\<rparr>\<rparr>,
       6 \<mapsto> \<lparr>fd_pollable = True, fd_stat = \<lparr>st_dev = 1, st_ino = 4\<rparr>\<rparr>,
       8 \<mapsto> \<lparr>fd_pollable = True, fd_stat = \<lparr>st_dev = 1, st_ino = 9\<rparr>\<rparr>],
     epoll_set = [5 \<mapsto> Peer_send 1, 6 \<mapsto> Peer_receive 2],
     send_heads = [[], [], [], [], [(sample_send 1 5 4)\<lparr>snd_on_close := Some (Peer_send_receive 0)\<rparr>], []],
     stats = stats_init 0, json_hello_buf = BUF_INIT, proto_hello_buf = BUF_INIT,
     rnd = \<lparr>rand_buf = BUF_INIT, rand_pos = 0\<rparr>, next_addr = 3, tick = 0, trace = [],
     receive_head = [sample_receive\<lparr>rx_peer := \<lparr>peer_fd = 6, peer_always_trigger = False\<rparr>,
       rx_on_close := Some (Peer_send_receive 0)\<rparr>],
     receive_max_hops = 10, wakeup_head = [], timers = Map.empty,
     send_receive_head = [\<lparr>sr_addr = 0, sr_on_close = None, sr_ref_count = 2\<rparr>]\<rparr>"

lemma sample_sr_receive_ok: "receive_ok sample_sr_state"
proof -
  have "send_ok sample_sr_state"
    using sample_id_valid
    by (auto simp: send_ok_def sample_sr_state_def peer_state_ok_def NUM_SERIALIZERS_def all_sends_def
        sample_send_def snd_fd_def peer_registered_def rand_ok_def BUF_INIT_def split: if_splits)
  then show ?thesis
    using sample_rx_ok
    by (auto simp: receive_ok_def sample_sr_state_def sample_receive_def all_sends_def sample_send_def rx_ok_def
        snd_fd_def rx_fd_def peer_registered_def BUF_INIT_def BUF_LEN_MAX_def)
qed

lemma sample_sr_conn_inv: "conn_inv (\<lambda>_. 0) None sample_sr_state"
proof -
  have w: "wakeup_ok sample_sr_state"
    using sample_sr_receive_ok by (simp add: wakeup_ok_def) (simp add: sample_sr_state_def)
  have c: "closers sample_sr_state = {#Some (Peer_send_receive 0), Some (Peer_send_receive 0)#}"
    by (simp add: closers_def sample_sr_state_def all_sends_def)
  have o: "owners None sample_sr_state = {#Some (Peer_send_receive 0), Some (Peer_send_receive 0), None#}"
    unfolding owners_def conn_owners_def c by (simp add: sample_sr_state_def)
  have e: "g = 5 \<and> p = Peer_send 1 \<or> g = 6 \<and> p = Peer_receive 2" if "epoll_set sample_sr_state g = Some p" for g p
    using that by (simp add: sample_sr_state_def split: if_splits)
  have "peer_fds sample_sr_state (Peer_send 1) = {5}" "peer_fds sample_sr_state (Peer_receive 2) = {6}"
    by (simp_all add: peer_fds_def sample_sr_state_def all_sends_def snd_fd_def rx_fd_def sample_send_def sample_receive_def
        Collect_conv_if)
  then have "reg_inv sample_sr_state"
    using e unfolding reg_inv_def by (auto simp: sample_sr_state_def)
  then show ?thesis unfolding conn_inv_def c o using w by (simp add: sample_sr_state_def)
qed

text \<open>
  Opening a duplex connection never aborts and keeps the invariant: the two halves are open on the
  same file, point to the new structure, whose reference count is two, and only it will tell the owner. No packet
  the receiving half reads is ever written to the sending half.
\<close>

theorem duplex_connection_opens:
  fixes w :: "'a sr_state_scheme"
  assumes "kernel_ok K" and "conn_inv (\<lambda>_. 0) f w" and "owner_free f c w" and "fd_unused fd w"
    and "i < NUM_SERIALIZERS"
  shows "\<exists>w' r s a. send_receive_new E K fd (Some i) c w = Some w' \<and> conn_inv (\<lambda>_. 0) f w' \<and>
    owners f w' = {#Some (Peer_send_receive a), Some (Peer_send_receive a), c#} + owners f w \<and>
    send_receive_head w' = send_receive_head w @ [\<lparr>sr_addr = a, sr_on_close = c, sr_ref_count = 2\<rparr>] \<and>
    receive_head w' = receive_head w @ [r] \<and> set (all_sends w') = insert s (set (all_sends w)) \<and>
    rx_on_close r = Some (Peer_send_receive a) \<and> snd_on_close s = Some (Peer_send_receive a) \<and>
    (\<forall>ss. s \<notin> set (send_targets (receive_packet r) ss))"
  using conn_inv_duplex [OF assms, of E]
  by (auto simp: send_targets_def same_file_def receive_packet_def)

theorem duplex_connection_opens_witness:
  "\<exists>w' r s a. send_receive_new sample_env sample_kernel 8 (Some 4) None sample_sr_state = Some w' \<and>
    conn_inv (\<lambda>_. 0) None w' \<and>
    owners None w' = {#Some (Peer_send_receive a), Some (Peer_send_receive a), None#} + owners None sample_sr_state \<and>
    send_receive_head w' = send_receive_head sample_sr_state @ [\<lparr>sr_addr = a, sr_on_close = None, sr_ref_count = 2\<rparr>] \<and>
    receive_head w' = receive_head sample_sr_state @ [r] \<and>
    set (all_sends w') = insert s (set (all_sends sample_sr_state)) \<and>
    rx_on_close r = Some (Peer_send_receive a) \<and> snd_on_close s = Some (Peer_send_receive a) \<and>
    (\<forall>ss. s \<notin> set (send_targets (receive_packet r) ss))"
  by (rule duplex_connection_opens [OF sample_kernel_ok sample_sr_conn_inv])
    (simp_all add: owner_free_def fd_unused_def fd_free_def fd_fresh_def sample_sr_state_def all_sends_def sample_send_def
      snd_fd_def rx_fd_def sample_receive_def NUM_SERIALIZERS_def)

text \<open>
  C37. The reference count of a duplex connection is exact: when a half reports its end, the structure is
  found; if the other half is open the count goes down to match it and nobody is told, otherwise
  the structure is removed and its owner called, once. The invariant holds again in both cases.
\<close>

theorem duplex_half_ends:
  fixes w :: "'a sr_state_scheme"
  assumes "conn_inv (pend_add (Some (Peer_send_receive a)) (\<lambda>_. 0)) f w" and "a \<in> sr_addr ` set (send_receive_head w)"
  shows "\<exists>sr \<in> set (send_receive_head w). \<exists>srs. sr_addr sr = a \<and>
    conn_inv (\<lambda>_. 0) f (w\<lparr>send_receive_head := srs\<rparr>) \<and>
    (if sr_ref_count sr = 1
     then send_receive_on_close call a w = peer_call call (sr_on_close sr) (w\<lparr>send_receive_head := srs\<rparr>) \<and>
       owners f w = add_mset (sr_on_close sr) (owners f (w\<lparr>send_receive_head := srs\<rparr>)) \<and>
       sr_addr ` set srs = sr_addr ` set (send_receive_head w) - {a}
     else send_receive_on_close call a w = Some (w\<lparr>send_receive_head := srs\<rparr>) \<and>
       owners f (w\<lparr>send_receive_head := srs\<rparr>) = owners f w \<and>
       sr_addr ` set srs = sr_addr ` set (send_receive_head w))"
  by (rule send_receive_on_close_spec [OF assms])

definition sample_sr_half :: sr_state where
  "sample_sr_half = receive_unlink (hd (receive_head sample_sr_state)) sample_sr_state"

theorem duplex_half_ends_witness:
  "\<exists>sr \<in> set (send_receive_head sample_sr_half). \<exists>srs. sr_addr sr = 0 \<and>
    conn_inv (\<lambda>_. 0) None (sample_sr_half\<lparr>send_receive_head := srs\<rparr>) \<and>
    (if sr_ref_count sr = 1
     then send_receive_on_close (\<lambda>p. Some) 0 sample_sr_half =
         peer_call (\<lambda>p. Some) (sr_on_close sr) (sample_sr_half\<lparr>send_receive_head := srs\<rparr>) \<and>
       owners None sample_sr_half = add_mset (sr_on_close sr) (owners None (sample_sr_half\<lparr>send_receive_head := srs\<rparr>)) \<and>
       sr_addr ` set srs = sr_addr ` set (send_receive_head sample_sr_half) - {0}
     else send_receive_on_close (\<lambda>p. Some) 0 sample_sr_half = Some (sample_sr_half\<lparr>send_receive_head := srs\<rparr>) \<and>
       owners None (sample_sr_half\<lparr>send_receive_head := srs\<rparr>) = owners None sample_sr_half \<and>
       sr_addr ` set srs = sr_addr ` set (send_receive_head sample_sr_half))"
proof (rule duplex_half_ends)
  have "hd (receive_head sample_sr_state) \<in> set (receive_head sample_sr_state)" by (simp add: sample_sr_state_def)
  from conn_inv_receive_unlink(1) [OF sample_sr_conn_inv this]
  show "conn_inv (pend_add (Some (Peer_send_receive 0)) (\<lambda>_. 0)) None sample_sr_half"
    by (simp add: sample_sr_half_def) (simp add: sample_sr_state_def)
  show "0 \<in> sr_addr ` set (send_receive_head sample_sr_half)"
    by (simp add: sample_sr_half_def receive_unlink_def sample_sr_state_def)
qed

end
