(* ===== verification/Owners.thy ===== *)
theory Owners
  imports Send_Receive
begin

text \<open>
  What happens when a connection ends or a wakeup fires: the owner is called, which may be a transport
  (file, outgoing or incoming connection, child process). The contract of the transports is a
  locale; inside it the handlers of connections and wakeups are shown to return and to keep the
  invariant of the whole program.
\<close>

section \<open>Calling the owner of a connection that ended\<close>

text \<open>The event handlers a callback of a connection may lead to.\<close>

definition close_call ::
    "(nat \<Rightarrow> 'a sr_state_scheme \<Rightarrow> 'a sr_state_scheme option) \<Rightarrow> peer_ref \<Rightarrow> 'a sr_state_scheme \<Rightarrow> 'a sr_state_scheme option" where
  "close_call transport ptr w = (case ptr of
     Peer_send_receive a \<Rightarrow>
       send_receive_on_close (\<lambda>p w. case p of Peer_transport t \<Rightarrow> transport t w | _ \<Rightarrow> None) a w
   | Peer_transport t \<Rightarrow> transport t w
   | _ \<Rightarrow> None)"

text \<open>
  The contract of the transports: \<open>live\<close> are their structures, \<open>shut\<close> those whose handler expects the end of
  a connection, \<open>tinv\<close> what they keep of their own state, \<open>tries\<close> the highest number of retries
  in a row. Every callback leads to a live transport, those of connections to one that
  expects it (it then returns in any case), and a transport that is registered with the kernel itself is live and has no callback
  leading to it. A transport that is called, when no callback leads to it any more, returns and keeps
  all this, unless it has used up its retries. It frees no connection and no wakeup, keeps
  the other transports ready that were, and adds no input that is always triggered unless a wakeup called it.
\<close>

definition regs_ok ::
    "('a sr_state_scheme \<Rightarrow> nat set) \<Rightarrow> ('a sr_state_scheme \<Rightarrow> nat set) \<Rightarrow> nat option \<Rightarrow> 'a sr_state_scheme \<Rightarrow> bool" where
  "regs_ok live ready f w \<longleftrightarrow>
     (\<forall>g t. epoll_set w g = Some (Peer_transport t) \<longrightarrow> t \<in> ready w) \<and>
     (\<forall>t \<in> ready w. t \<in> live w \<and> Some (Peer_transport t) \<notin># owners f w) \<and>
     (\<forall>t. Peer_transport t \<notin> set (peer_always_trigger_head w))"

lemma regs_ok_tp:
  assumes "regs_ok live ready f w" and "tp_frame w w'" and "live w' = live w" and "ready w' = ready w"
    and "set_mset (owners f' w') \<subseteq> set_mset (owners f w)"
  shows "regs_ok live ready f' w'"
proof -
  have "epoll_set w' g = Some (Peer_transport t) \<longleftrightarrow> epoll_set w g = Some (Peer_transport t)"
    "Peer_transport t \<in> set (peer_always_trigger_head w') \<Longrightarrow> Peer_transport t \<in> set (peer_always_trigger_head w)" for g t
    using assms(2) by (simp_all add: tp_frame_def)
  then show ?thesis using assms(1,3-5) unfolding regs_ok_def by auto
qed

lemmas regs_ok_frame = regs_ok_tp [OF _ t_frame_tp]

definition sys_inv ::
    "('a sr_state_scheme \<Rightarrow> nat set) \<Rightarrow> ('a sr_state_scheme \<Rightarrow> nat set) \<Rightarrow> ('a sr_state_scheme \<Rightarrow> nat set) \<Rightarrow>
      ('a sr_state_scheme \<Rightarrow> bool) \<Rightarrow> nat option \<Rightarrow> 'a sr_state_scheme \<Rightarrow> bool" where
  "sys_inv live shut ready tinv f w \<longleftrightarrow> conn_inv (\<lambda>_. 0) f w \<and> tinv w \<and> regs_ok live ready f w \<and>
     (\<forall>t. Some (Peer_transport t) \<in># owners f w \<longrightarrow> t \<in> live w) \<and>
     (\<forall>t. Some (Peer_transport t) \<in># conn_owners w \<longrightarrow> t \<in> shut w)"

text \<open>The registration of the shutdown signal is left alone, and so is every structure but \<open>q\<close>.\<close>

definition shut_frame :: "'a sr_state_scheme \<Rightarrow> 'a sr_state_scheme \<Rightarrow> bool" where
  "shut_frame w w' \<longleftrightarrow> peer_shutdown_flag w' = peer_shutdown_flag w \<and> peer_shutdown_peer w' = peer_shutdown_peer w \<and>
     (\<forall>g. epoll_set w' g = Some Peer_shutdown \<longleftrightarrow> epoll_set w g = Some Peer_shutdown) \<and>
     (Peer_shutdown \<in> set (peer_always_trigger_head w') \<longrightarrow> Peer_shutdown \<in> set (peer_always_trigger_head w))"

definition fds_kept :: "(peer_ref \<Rightarrow> bool) \<Rightarrow> 'a sr_state_scheme \<Rightarrow> 'a sr_state_scheme \<Rightarrow> bool" where
  "fds_kept P w w' \<longleftrightarrow> (\<forall>p. P p \<longrightarrow> peer_fds w p \<subseteq> peer_fds w' p)"

definition call_frame :: "'a sr_state_scheme \<Rightarrow> 'a sr_state_scheme \<Rightarrow> bool" where
  "call_frame w w' \<longleftrightarrow> set (wakeup_head w) \<subseteq> set (wakeup_head w') \<and> shut_frame w w' \<and> fds_kept (\<lambda>_. True) w w'"

text \<open>A transport that a callback leads to is not ready, so the ready ones stay ready when it is called.\<close>

lemma ready_owned:
  assumes "regs_ok live ready f w" and "Some (Peer_transport t) \<in># owners f w" and "ready w - {t} \<subseteq> R"
  shows "ready w \<subseteq> R"
  using assms by (auto simp: regs_ok_def)

lemma shut_frame_refl [simp]: "shut_frame w w"
  by (simp add: shut_frame_def)

lemma shut_frame_trans: "shut_frame u v \<Longrightarrow> shut_frame v w \<Longrightarrow> shut_frame u w"
  by (simp add: shut_frame_def)

lemma shut_frameI: "t_frame w w' \<Longrightarrow> peer_shutdown_flag w' = peer_shutdown_flag w \<Longrightarrow> shut_frame w w'"
  by (simp add: t_frame_def shut_frame_def)

lemma fds_kept_refl [simp]: "fds_kept P w w"
  by (simp add: fds_kept_def)

lemma fds_kept_trans: "fds_kept P u v \<Longrightarrow> fds_kept P v w \<Longrightarrow> fds_kept P u w"
  unfolding fds_kept_def by blast

lemma fds_kept_all: "fds_kept (\<lambda>_. True) w w' \<Longrightarrow> fds_kept P w w'"
  by (simp add: fds_kept_def)

lemma call_frame_refl [simp]: "call_frame w w"
  by (simp add: call_frame_def)

lemma call_frame_trans: "call_frame u v \<Longrightarrow> call_frame v w \<Longrightarrow> call_frame u w"
  by (auto simp: call_frame_def intro: shut_frame_trans fds_kept_trans)

lemma call_frameI: "conn_frame w w' \<Longrightarrow> call_frame w w'"
  using shut_frameI [of w w'] by (simp add: conn_frame_def call_frame_def fds_kept_def)

lemma call_frame_heads:
  fixes w w' :: "'a sr_state_scheme"
  assumes "receive_head w' = receive_head w" and "send_heads w' = send_heads w" and "wakeup_head w' = wakeup_head w"
    and "peer_shutdown_flag w' = peer_shutdown_flag w" and "peer_shutdown_peer w' = peer_shutdown_peer w"
    and "peer_always_trigger_head w' = peer_always_trigger_head w"
    and "\<And>g. epoll_set w' g = Some Peer_shutdown \<longleftrightarrow> epoll_set w g = Some Peer_shutdown"
  shows "call_frame w w'"
  using peer_fds_cong [OF assms(1-3)] assms(3-7) by (simp add: call_frame_def shut_frame_def fds_kept_def)

lemma call_frame_srs: "call_frame w (w\<lparr>send_receive_head := srs\<rparr>)"
  by (rule call_frameI, rule conn_frameI) (simp_all add: t_frame_def)

lemma fds_kept_receive_unlink:
  fixes w :: "'a sr_state_scheme"
  shows "fds_kept (\<lambda>p. p \<noteq> Peer_receive (rx_addr r)) w (receive_unlink r w)"
  unfolding fds_kept_def
proof (intro allI impI)
  fix p
  assume "p \<noteq> Peer_receive (rx_addr r)"
  then show "peer_fds w p \<subseteq> peer_fds (receive_unlink r w) p"
    by (cases p) (auto simp: peer_fds_def receive_unlink_def all_sends_def)
qed

lemma fds_kept_send_unlink:
  fixes w :: "'a sr_state_scheme"
  shows "fds_kept (\<lambda>p. p \<noteq> Peer_send (snd_addr s)) w (send_unlink s w)"
  unfolding fds_kept_def
proof (intro allI impI)
  fix p
  assume "p \<noteq> Peer_send (snd_addr s)"
  then show "peer_fds w p \<subseteq> peer_fds (send_unlink s w) p"
    by (cases p) (auto simp: peer_fds_def send_unlink_def all_sends_def)
qed

locale transports =
  fixes transport :: "nat \<Rightarrow> 'a sr_state_scheme \<Rightarrow> 'a sr_state_scheme option"
    and live :: "'a sr_state_scheme \<Rightarrow> nat set"
    and shut :: "'a sr_state_scheme \<Rightarrow> nat set"
    and ready :: "'a sr_state_scheme \<Rightarrow> nat set"
    and tinv :: "'a sr_state_scheme \<Rightarrow> bool"
    and tries :: "'a sr_state_scheme \<Rightarrow> nat"
  assumes more_frame:
    "sr_state.more w' = sr_state.more w \<Longrightarrow> live w' = live w \<and> shut w' = shut w \<and> ready w' = ready w \<and> tries w' = tries w"
    and tinv_tp: "tinv w \<Longrightarrow> tp_frame w w' \<Longrightarrow> tinv w'"
    and transport_returns:
    "sys_inv live shut ready tinv f w \<Longrightarrow> t \<in> live w \<Longrightarrow> Some (Peer_transport t) \<notin># owners f w \<Longrightarrow>
       case transport t w of
         None \<Rightarrow> t \<notin> shut w \<and> 20 < tries w
       | Some w' \<Rightarrow> sys_inv live shut ready tinv f w' \<and> call_frame w w' \<and> ready w - {t} \<subseteq> ready w' \<and>
           tries w' \<le> Suc (tries w) \<and>
           (t \<in> shut w \<longrightarrow> peer_always_trigger_head w' = peer_always_trigger_head w \<and> tries w' \<le> max 2 (tries w))"
begin

lemma tinv_frame: "tinv w \<Longrightarrow> t_frame w w' \<Longrightarrow> tinv w'"
  by (rule tinv_tp [OF _ t_frame_tp])

text \<open>
  The state while the program runs, and while it shuts down: then no owner is called, and the
  halves whose report was suppressed stay pending.
\<close>

definition sys_ok :: "'a sr_state_scheme \<Rightarrow> bool" where
  "sys_ok w \<longleftrightarrow> (\<exists>pend. conn_inv pend None w \<and> (\<not> peer_shutdown_flag w \<longrightarrow> pend = (\<lambda>_. 0))) \<and> tinv w \<and>
     regs_ok live ready None w \<and>
     (\<forall>t. Some (Peer_transport t) \<in># owners None w \<longrightarrow> t \<in> live w) \<and>
     (\<forall>t. Some (Peer_transport t) \<in># conn_owners w \<longrightarrow> t \<in> shut w)"

lemma sys_ok_inv: "sys_ok w \<Longrightarrow> \<not> peer_shutdown_flag w \<Longrightarrow> sys_inv live shut ready tinv None w"
  by (auto simp: sys_ok_def sys_inv_def)

lemma sys_inv_ok: "sys_inv live shut ready tinv None w \<Longrightarrow> sys_ok w"
  by (auto simp: sys_ok_def sys_inv_def)

lemma owner_unique:
  assumes "conn_inv pend f w" and "owners f w = add_mset (Some (Peer_transport t)) m"
  shows "Some (Peer_transport t) \<notin># m"
proof -
  have "count (owners f w) (Some (Peer_transport t)) \<le> 1" using assms(1) by (simp add: conn_inv_def)
  then show ?thesis by (simp add: assms(2) not_in_iff)
qed

text \<open>What the end of the connection at \<open>q\<close> leads to.\<close>

definition event_frame :: "peer_ref \<Rightarrow> 'a sr_state_scheme \<Rightarrow> 'a sr_state_scheme \<Rightarrow> bool" where
  "event_frame q w w' \<longleftrightarrow> shut_frame w w' \<and> fds_kept (\<lambda>p. p \<noteq> q) w w' \<and>
     {t \<in> ready w. Peer_transport t \<noteq> q} \<subseteq> ready w' \<and> tries w' \<le> Suc (max 1 (tries w))"

text \<open>A connection that has been unlinked (\<open>w\<close> before, \<open>u\<close> after) reports to its owner \<open>c\<close>.\<close>

lemma owner_called:
  assumes inv: "sys_inv live shut ready tinv f w" and u: "conn_inv (pend_add c (\<lambda>_. 0)) f u"
      "owners f w = add_mset c (owners f u)" "conn_owners w = add_mset c (conn_owners u)"
    and fr: "t_frame w u" and c: "c \<in># closers w" and srh: "send_receive_head u = send_receive_head w"
    and run: "\<not> peer_shutdown_flag u"
  shows "\<exists>w'. peer_call (close_call transport) c u = Some w' \<and> sys_inv live shut ready tinv f w' \<and> call_frame u w' \<and>
    ready w \<subseteq> ready w' \<and> tries w' \<le> max 2 (tries w) \<and>
    peer_always_trigger_head w' = peer_always_trigger_head u"
proof -
  have more: "live u = live w" "shut u = shut w" "tries u = tries w" "ready u = ready w"
    using fr more_frame [of u w] by (simp_all add: t_frame_def)
  have tu: "tinv u" using tinv_frame [OF _ fr] inv by (simp add: sys_inv_def)
  have cw: "conn_inv (\<lambda>_. 0) f w" using inv by (simp add: sys_inv_def)
  have ow: "t \<in> live w" if "Some (Peer_transport t) \<in># owners f w" for t
    using inv that by (simp add: sys_inv_def)
  have sw: "t \<in> shut w" if "Some (Peer_transport t) \<in># conn_owners w" for t
    using inv that by (simp add: sys_inv_def)
  have cow: "set_mset (conn_owners w) \<subseteq> set_mset (owners f w)" by (auto simp: owners_def)
  have done': "sys_inv live shut ready tinv f v"
    if "conn_inv (\<lambda>_. 0) f v" "set_mset (owners f v) \<subseteq> set_mset (owners f w)"
      "set_mset (conn_owners v) \<subseteq> set_mset (conn_owners w)" "t_frame u v" for v
  proof -
    have m: "live v = live w" "shut v = shut w" "ready v = ready w"
      using that(4) more_frame [of v u] more by (simp_all add: t_frame_def)
    have "regs_ok live ready f w" using inv by (simp add: sys_inv_def)
    then have "regs_ok live ready f v" using regs_ok_frame [OF _ t_frame_trans [OF fr that(4)] m(1,3) that(2)] by blast
    then show ?thesis using that tinv_frame [OF tu that(4)] ow sw m by (auto simp: sys_inv_def)
  qed
  have go: "\<exists>w'. transport t v = Some w' \<and> sys_inv live shut ready tinv f w' \<and> call_frame u w' \<and>
      ready w \<subseteq> ready w' \<and> tries w' \<le> max 2 (tries w) \<and>
      peer_always_trigger_head w' = peer_always_trigger_head u"
    if v: "conn_inv (\<lambda>_. 0) f v" "set_mset (owners f v) \<subseteq> set_mset (owners f w)"
      "set_mset (conn_owners v) \<subseteq> set_mset (conn_owners w)" "t_frame u v"
      "call_frame u v" "peer_always_trigger_head v = peer_always_trigger_head u"
      and t: "Some (Peer_transport t) \<in># conn_owners w" "Some (Peer_transport t) \<notin># owners f v" for t v
  proof -
    have more': "live v = live w" "shut v = shut w" "tries v = tries w" "ready v = ready w"
      using v(4) more_frame [of v u] more by (simp_all add: t_frame_def)
    have live: "t \<in> live v" "t \<in> shut v" using ow sw t(1) cow more' by auto
    have "Some (Peer_transport t) \<in># owners f w" using t(1) cow by blast
    moreover have "regs_ok live ready f w" using inv by (simp add: sys_inv_def)
    ultimately have rk: "ready w - {t} \<subseteq> R \<Longrightarrow> ready w \<subseteq> R" for R using ready_owned by blast
    from transport_returns [OF done' [OF v(1-4)] live(1) t(2)] live(2) show ?thesis
      unfolding more' using v(5,6) call_frame_trans rk by (auto split: option.splits)
  qed
  have sub: "set_mset (owners f u) \<subseteq> set_mset (owners f w)" "set_mset (conn_owners u) \<subseteq> set_mset (conn_owners w)"
    using u(2,3) by auto
  show ?thesis
  proof (cases c)
    case None
    then have "sys_inv live shut ready tinv f u" using done' [OF _ sub t_frame_refl] u(1) by (simp add: pend_add_def)
    with None run more show ?thesis by (simp add: peer_call_def)
  next
    case (Some ptr)
    then consider t where "ptr = Peer_transport t" | a where "ptr = Peer_send_receive a"
        "a \<in> sr_addr ` set (send_receive_head u)"
      using cw c srh unfolding conn_inv_def by (metis (no_types, lifting))
    then show ?thesis
    proof cases
      case 1
      then have "conn_inv (\<lambda>_. 0) f u" using u(1) Some by (simp add: pend_add_def)
      with go [of u t] 1 Some u(2,3) owner_unique [OF cw, of t "owners f u"] sub run
      show ?thesis by (simp add: peer_call_def close_call_def)
    next
      case 2
      define k where "k = (\<lambda>p w. case p of Peer_transport t \<Rightarrow> transport t w | _ \<Rightarrow> None)"
      have call: "peer_call (close_call transport) c u = send_receive_on_close k a u"
        using Some 2 run by (simp add: peer_call_def close_call_def k_def)
      have ui: "conn_inv (pend_add (Some (Peer_send_receive a)) (\<lambda>_. 0)) f u" using u(1) Some 2 by simp
      from send_receive_on_close_spec [OF ui 2(2), of k] obtain sr srs where sr:
        "sr \<in> set (send_receive_head u)" "conn_inv (\<lambda>_. 0) f (u\<lparr>send_receive_head := srs\<rparr>)"
        "if sr_ref_count sr = 1
         then send_receive_on_close k a u = peer_call k (sr_on_close sr) (u\<lparr>send_receive_head := srs\<rparr>) \<and>
           owners f u = add_mset (sr_on_close sr) (owners f (u\<lparr>send_receive_head := srs\<rparr>)) \<and>
           sr_addr ` set srs = sr_addr ` set (send_receive_head u) - {a}
         else send_receive_on_close k a u = Some (u\<lparr>send_receive_head := srs\<rparr>) \<and>
           owners f (u\<lparr>send_receive_head := srs\<rparr>) = owners f u \<and>
           sr_addr ` set srs = sr_addr ` set (send_receive_head u)" by blast
      define v where "v = u\<lparr>send_receive_head := srs\<rparr>"
      have v: "t_frame u v" "conn_inv (\<lambda>_. 0) f v" "peer_shutdown_flag v = peer_shutdown_flag u" "call_frame u v"
        "peer_always_trigger_head v = peer_always_trigger_head u" "wakeup_head u = wakeup_head v"
        using sr(2) call_frame_srs by (simp_all add: v_def t_frame_def)
      show ?thesis
      proof (cases "sr_ref_count sr = 1")
        case False
        then have r: "send_receive_on_close k a u = Some v" "owners f v = owners f u" using sr(3) by (simp_all add: v_def)
        have "conn_owners v = {#} + conn_owners u"
          by (rule owners_add_conn [of f]) (simp_all add: r(2) v(6))
        then have "sys_inv live shut ready tinv f v" using done' [OF v(2) _ _ v(1)] sub r(2) by simp
        moreover have "tries v = tries u" and rv: "ready v = ready u" using more_frame [of v u] v(1)
          by (simp_all add: t_frame_def)
        ultimately show ?thesis using call r(1) v more(3,4) rv by simp
      next
        case True
        then have r: "send_receive_on_close k a u = peer_call k (sr_on_close sr) v"
          "owners f u = add_mset (sr_on_close sr) (owners f v)" using sr(3) by (simp_all add: v_def)
        have rc: "conn_owners u = {#sr_on_close sr#} + conn_owners v"
          by (rule owners_add_conn [of f]) (simp_all add: r(2) v(6))
        have sub': "set_mset (owners f v) \<subseteq> set_mset (owners f w)"
          "set_mset (conn_owners v) \<subseteq> set_mset (conn_owners w)" using sub r(2) rc by auto
        show ?thesis
        proof (cases "sr_on_close sr")
          case None
          moreover have "tries v = tries u" and rv: "ready v = ready u" using more_frame [of v u] v(1)
            by (simp_all add: t_frame_def)
          ultimately show ?thesis
            using call r(1) done' [OF v(2) sub' v(1)] v more(3,4) rv run
            by (simp add: peer_call_def)
        next
          case (Some q)
          then obtain t where t: "q = Peer_transport t" using ui sr(1) unfolding conn_inv_def by blast
          have "Some (Peer_transport t) \<in># conn_owners w" "Some (Peer_transport t) \<notin># owners f v"
            using sub(2) rc r(2) Some t owner_unique [OF ui, of t "owners f v"] by auto
          from go [OF v(2) sub' v(1,4,5) this] show ?thesis
            using call r(1) Some t v(3) run by (simp add: peer_call_def k_def)
        qed
      qed
    qed
  qed
qed

text \<open>The same while the program may be shutting down.\<close>

lemma owner_called_ok:
  assumes ok: "sys_ok w" and u: "\<And>pend. conn_inv pend None w \<Longrightarrow> conn_inv (pend_add c pend) None u"
    and ow: "owners None w = add_mset c (owners None u)" and fr: "t_frame w u" and c: "c \<in># closers w"
    and srh: "send_receive_head u = send_receive_head w" and flag: "peer_shutdown_flag u = peer_shutdown_flag w"
    and wkh: "wakeup_head w = wakeup_head u" and kept: "fds_kept (\<lambda>p. p \<noteq> q) w u"
    and al: "peer_always_trigger_head u = filter (\<lambda>p. p \<noteq> q) (peer_always_trigger_head w)"
  shows "\<exists>w'. peer_call (close_call transport) c u = Some w' \<and> sys_ok w' \<and> event_frame q w w' \<and>
    tries w' \<le> max 2 (tries w) \<and>
    peer_always_trigger_head w' = filter (\<lambda>p. p \<noteq> q) (peer_always_trigger_head w)"
proof -
  have cow: "conn_owners w = {#c#} + conn_owners u" by (rule owners_add_conn [of None]) (simp_all add: ow wkh)
  have sf: "shut_frame w u" by (rule shut_frameI [OF fr flag])
  show ?thesis
  proof (cases "peer_shutdown_flag w")
    case True
    have "tinv u" using tinv_frame [OF _ fr] ok by (simp add: sys_ok_def)
    moreover have l: "live u = live w" "shut u = shut w" "tries u = tries w" "ready u = ready w"
      using fr more_frame [of u w] by (simp_all add: t_frame_def)
    moreover have "regs_ok live ready None w" using ok by (simp add: sys_ok_def)
    then have "regs_ok live ready None u" by (rule regs_ok_frame [OF _ fr l(1,4)]) (auto simp: ow)
    moreover have "\<exists>pend. conn_inv pend None u" using ok u by (auto simp: sys_ok_def)
    ultimately have "sys_ok u" "event_frame q w u" "tries u \<le> max 2 (tries w)"
      using ok True sf kept unfolding sys_ok_def event_frame_def ow cow flag by auto
    then show ?thesis using True al by (simp add: peer_call_def flag)
  next
    case False
    have inv: "sys_inv live shut ready tinv None w" by (rule sys_ok_inv [OF ok False])
    then have ui: "conn_inv (pend_add c (\<lambda>_. 0)) None u" using u by (simp add: sys_inv_def)
    have cow': "conn_owners w = add_mset c (conn_owners u)" using cow by simp
    have "event_frame q w w'" if "call_frame u w'" "ready w \<subseteq> ready w'" "tries w' \<le> max 2 (tries w)" for w'
      using that shut_frame_trans [OF sf] fds_kept_trans [OF kept fds_kept_all]
      unfolding call_frame_def event_frame_def by (auto simp: subset_iff)
    with owner_called [OF inv ui ow cow' fr c srh] False sys_inv_ok show ?thesis
      by (auto simp: flag al split: option.splits)
  qed
qed

text \<open>The three kinds of events.\<close>

lemma send_event:
  assumes ok: "sys_ok w" and s: "s \<in> set (all_sends w)"
  defines "q \<equiv> Peer_send (snd_addr s)"
  shows "\<exists>w'. send_del_wrapper (close_call transport) (snd_addr s) w = Some w' \<and> sys_ok w' \<and> event_frame q w w' \<and>
    tries w' \<le> max 2 (tries w) \<and>
    peer_always_trigger_head w' = filter (\<lambda>p. p \<noteq> q) (peer_always_trigger_head w)"
proof -
  have so: "send_ok w" using ok by (auto simp: sys_ok_def conn_inv_def wakeup_ok_def receive_ok_def)
  then have "distinct (map snd_addr (all_sends w))" by (simp add: send_ok_def)
  then have find: "find (\<lambda>t. snd_addr t = snd_addr s) (all_sends w) = Some s"
    using find_distinct_addr [OF _ s] by blast
  have go: "send_del_wrapper (close_call transport) (snd_addr s) w =
      peer_call (close_call transport) (snd_on_close s) (send_unlink s w)"
    using find send_del_eq [OF so s] by (simp add: send_del_wrapper_def all_sends_def)
  have c: "snd_on_close s \<in># closers w" using s by (simp add: closers_def)
  have fr: "t_frame w (send_unlink s w)"
  proof -
    have "peer_registered (Peer_send (snd_addr s)) (snd_peer s) w" using so s by (simp add: send_ok_def)
    then have "epoll_set w (snd_fd s) \<noteq> Some p" if "foreign p" for p
      using that by (auto simp: peer_registered_def snd_fd_def split: if_splits)
    then show ?thesis by (auto simp: t_frame_def send_unlink_def)
  qed
  obtain pend where p: "conn_inv pend None w" using ok by (auto simp: sys_ok_def)
  show ?thesis unfolding go q_def
    by (rule owner_called_ok [OF ok conn_inv_send_unlink(1) [OF _ s] conn_inv_send_unlink(2) [OF p s] fr c _ _ _
          fds_kept_send_unlink]) (simp_all add: send_unlink_def)
qed

lemma sys_ok_output:
  fixes w w' :: "'a sr_state_scheme"
  assumes ok: "sys_ok w" and o: "only_output w w'" and r: "receive_ok w'"
  shows "sys_ok w'" and "shut_frame w w'" and "fds_kept P w w'" and "ready w' = ready w" and "tries w' = tries w"
    and "peer_always_trigger_head w' = peer_always_trigger_head w"
proof -
  obtain pend where p: "conn_inv pend None w" "\<not> peer_shutdown_flag w \<longrightarrow> pend = (\<lambda>_. 0)"
    using ok by (auto simp: sys_ok_def)
  note co = closers_output [OF o]
  have t: "t_frame w w'" using o by (auto simp: t_frame_def only_output_def)
  then have tw: "tinv w'" using tinv_frame ok by (auto simp: sys_ok_def)
  note ci = conn_inv_output [OF p(1) o r]
  have "regs_ok live ready None w" using ok by (simp add: sys_ok_def)
  then have "regs_ok live ready None w'" by (rule regs_ok_frame [OF _ t]) (simp_all add: more_frame [OF co(8)] ci(2))
  moreover have "conn_owners w' = conn_owners w" by (simp add: conn_owners_def co)
  ultimately show "sys_ok w'"
    using ok p tw ci more_frame [OF co(8)] co(9) by (auto simp: sys_ok_def)
  show "shut_frame w w'" by (rule shut_frameI [OF t co(9)])
  show "ready w' = ready w" using more_frame [OF co(8)] by simp
  have "peer_fds w' q = peer_fds w q" for q by (rule peer_fds_cong) (use o in \<open>auto simp: only_output_def\<close>)
  then show "fds_kept P w w'" by (simp add: fds_kept_def)
  show "tries w' = tries w" using more_frame [OF co(8)] by simp
  show "peer_always_trigger_head w' = peer_always_trigger_head w" using o by (auto simp: only_output_def)
qed

lemma sys_ok_store:
  fixes w :: "'a sr_state_scheme"
  assumes ok: "sys_ok w" and r: "r \<in> set (receive_head w)" and same: "rx_same r r'"
    and r': "rx_ok r'" "buf_length (rx_buf r') < BUF_LEN_MAX"
  shows "sys_ok (rx_store r' w)" and "shut_frame w (rx_store r' w)" and "fds_kept P w (rx_store r' w)"
    and "ready (rx_store r' w) = ready w" and "tries (rx_store r' w) = tries w"
    and "peer_always_trigger_head (rx_store r' w) = peer_always_trigger_head w"
proof -
  obtain pend where p: "conn_inv pend None w" "\<not> peer_shutdown_flag w \<longrightarrow> pend = (\<lambda>_. 0)"
    using ok by (auto simp: sys_ok_def)
  then have ro: "receive_ok w" by (simp add: conn_inv_def wakeup_ok_def)
  have t: "t_frame w (rx_store r' w)" by (auto simp: t_frame_def rx_store_def)
  then have tw: "tinv (rx_store r' w)" using tinv_frame ok by (auto simp: sys_ok_def)
  have m: "sr_state.more (rx_store r' w) = sr_state.more w" using t by (simp add: t_frame_def)
  note ci = conn_inv_store [OF p(1) r same r']
  have "regs_ok live ready None w" using ok by (simp add: sys_ok_def)
  then have "regs_ok live ready None (rx_store r' w)" by (rule regs_ok_frame [OF _ t]) (simp_all add: more_frame [OF m] ci(2))
  moreover have "conn_owners (rx_store r' w) = conn_owners w"
    using closers_store [OF ro r same] by (simp add: conn_owners_def) (simp add: rx_store_def)
  ultimately show "sys_ok (rx_store r' w)"
    using ok p tw ci more_frame [OF m]
    by (auto simp: sys_ok_def) (auto simp: rx_store_def)
  show "ready (rx_store r' w) = ready w" using more_frame [OF m] by simp
  show "shut_frame w (rx_store r' w)" by (rule shut_frameI [OF t]) (simp add: rx_store_def)
  show "fds_kept P w (rx_store r' w)" using peer_fds_store [OF ro r same] by (simp add: fds_kept_def)
  show "tries (rx_store r' w) = tries w" using more_frame [OF m] by simp
  show "peer_always_trigger_head (rx_store r' w) = peer_always_trigger_head w" by (simp add: rx_store_def)
qed

lemma receive_event:
  assumes E: "env_ok E" and ok: "sys_ok w" and r: "r \<in> set (receive_head w)"
  defines "q \<equiv> Peer_receive (rx_addr r)"
  shows "\<exists>w'. receive_read E (close_call transport) (rx_addr r) w = Some w' \<and> sys_ok w' \<and> event_frame q w w' \<and>
    tries w' \<le> max 2 (tries w) \<and>
        (peer_always_trigger_head w' = peer_always_trigger_head w \<or>
         peer_always_trigger_head w' = filter (\<lambda>p. p \<noteq> q) (peer_always_trigger_head w))"
proof -
  obtain pend where p: "conn_inv pend None w" using ok by (auto simp: sys_ok_def)
  then have ro: "receive_ok w" by (simp add: conn_inv_def wakeup_ok_def)
  from receive_read_frame [OF E ro r, of "close_call transport"] obtain v es where
    f: "only_output w v" "receive_ok v"
    and c: "receive_read E (close_call transport) (rx_addr r) w =
        peer_call (close_call transport) (rx_on_close r) (receive_unlink r v) \<or>
      (\<exists>r'. rx_same r r' \<and> rx_ok r' \<and> buf_length (rx_buf r') < BUF_LEN_MAX \<and>
        receive_read E (close_call transport) (rx_addr r) w = Some (rx_store r' v))" by blast
  note so = sys_ok_output [OF ok f]
  note v = so(1)
  have ef: "event_frame q w x" if "event_frame q v x" for x
    using that so(2-5) by (auto simp: event_frame_def intro: shut_frame_trans fds_kept_trans)
  have rv: "r \<in> set (receive_head v)" using r only_output_fields(2) [OF f(1)] by simp
  from c show ?thesis
  proof (elim disjE exE conjE)
    fix r'
    assume r': "rx_same r r'" "rx_ok r'" "buf_length (rx_buf r') < BUF_LEN_MAX"
      and go: "receive_read E (close_call transport) (rx_addr r) w = Some (rx_store r' v)"
    note st = sys_ok_store [OF v rv r']
    have "event_frame q v (rx_store r' v)" using st(2-5) by (simp add: event_frame_def)
    then show ?thesis using ef st(1,5,6) so(5,6) by (simp add: go)
  next
    assume go: "receive_read E (close_call transport) (rx_addr r) w =
        peer_call (close_call transport) (rx_on_close r) (receive_unlink r v)"
    have fr: "t_frame v (receive_unlink r v)"
    proof -
      have "peer_registered (Peer_receive (rx_addr r)) (rx_peer r) v" using f(2) rv by (simp add: receive_ok_def)
      then have "epoll_set v (rx_fd r) \<noteq> Some p" if "foreign p" for p
        using that by (auto simp: peer_registered_def rx_fd_def split: if_splits)
      then show ?thesis by (auto simp: t_frame_def receive_unlink_def)
    qed
    have cl: "rx_on_close r \<in># closers v" using rv by (simp add: closers_def)
    obtain pend where p: "conn_inv pend None v" using v by (auto simp: sys_ok_def)
    have "\<exists>w'. peer_call (close_call transport) (rx_on_close r) (receive_unlink r v) = Some w' \<and> sys_ok w' \<and>
        event_frame q v w' \<and> tries w' \<le> max 2 (tries v) \<and>
          peer_always_trigger_head w' = filter (\<lambda>p. p \<noteq> q) (peer_always_trigger_head v)"
      unfolding q_def
      by (rule owner_called_ok [OF v conn_inv_receive_unlink(1) [OF _ rv] conn_inv_receive_unlink(2) [OF p rv] fr cl _ _ _
            fds_kept_receive_unlink]) (simp_all add: receive_unlink_def)
    then show ?thesis using ef unfolding go so(5,6) by blast
  qed
qed

end

section \<open>Wakeups\<close>

lemma owners_wakeup_unlink:
  fixes w :: "'a sr_state_scheme"
  shows "owners None (wakeup_unlink wk w) = owners (Some (wk_addr wk)) w"
proof -
  have "closers (wakeup_unlink wk w) = closers w" by (rule closers_cong) (simp_all add: wakeup_unlink_def)
  then show ?thesis unfolding owners_def conn_owners_def by (simp add: wakeup_unlink_def eq_commute)
qed

lemma fds_kept_wakeup_unlink:
  fixes w :: "'a sr_state_scheme"
  shows "fds_kept (\<lambda>p. p \<noteq> Peer_wakeup (wk_addr wk)) w (wakeup_unlink wk w)"
  unfolding fds_kept_def
proof (intro allI impI)
  fix p
  assume "p \<noteq> Peer_wakeup (wk_addr wk)"
  then show "peer_fds w p \<subseteq> peer_fds (wakeup_unlink wk w) p"
    by (cases p) (auto simp: peer_fds_def wakeup_unlink_def all_sends_def)
qed

lemma conn_inv_wakeup_unlink:
  fixes w :: "'a sr_state_scheme"
  assumes inv: "conn_inv pend (Some (wk_addr wk)) w" and wk: "wk \<in> set (wakeup_head w)"
  shows "conn_inv pend None (wakeup_unlink wk w)"
proof -
  have wo: "wakeup_ok w" using inv by (simp add: conn_inv_def)
  have cl: "closers (wakeup_unlink wk w) = closers w" by (rule closers_cong) (simp_all add: wakeup_unlink_def)
  have reg: "reg_inv (wakeup_unlink wk w)"
  proof (rule reg_inv_unlink [of w "Peer_wakeup (wk_addr wk)" _ "wk_fd wk"])
    show "reg_inv w" using inv by (simp add: conn_inv_def)
    have "inj_on wk_addr (set (wakeup_head w))" using wo by (simp add: wakeup_ok_def distinct_map)
    then show "peer_fds w (Peer_wakeup (wk_addr wk)) \<subseteq> {wk_fd wk}" using wk by (auto simp: peer_fds_def dest: inj_onD)
    show "peer_fds w p \<subseteq> peer_fds (wakeup_unlink wk w) p" if "p \<noteq> Peer_wakeup (wk_addr wk)" for p
      using fds_kept_wakeup_unlink [of wk w] that by (simp add: fds_kept_def)
    show "Peer_wakeup (wk_addr wk) \<notin> set (peer_always_trigger_head (wakeup_unlink wk w))"
      using wo by (simp add: wakeup_ok_def wakeup_unlink_def)
  qed (simp_all add: wakeup_unlink_def)
  have "finite (dom (fds (wakeup_unlink wk w)))" using inv by (simp add: conn_inv_def wakeup_unlink_def)
  with reg show ?thesis
    using inv wakeup_del_spec(2) [OF wo wk] unfolding conn_inv_def cl owners_wakeup_unlink
    by (auto simp: wakeup_unlink_def)
qed

text \<open>A wakeup that fires no longer counts as a callback to its peer.\<close>

lemma owners_fire:
  fixes w :: "'a sr_state_scheme"
  assumes "wakeup_ok w" and "wk \<in> set (wakeup_head w)"
  shows "owners None w = add_mset (Some (wk_inner wk)) (owners (Some (wk_addr wk)) w)"
proof -
  have "distinct (map wk_addr (wakeup_head w))" using assms(1) by (simp add: wakeup_ok_def)
  note m = image_filter_addr [OF this assms(2), of "\<lambda>v. Some (wk_inner v)"]
  have "{#v \<in># mset (wakeup_head w). wk_addr wk \<noteq> wk_addr v#} = mset (filter (\<lambda>v. wk_addr v \<noteq> wk_addr wk) (wakeup_head w))"
    by (simp add: eq_commute)
  then show ?thesis using m by (simp add: owners_def)
qed

lemma conn_inv_fire:
  fixes w :: "'a sr_state_scheme"
  assumes inv: "conn_inv pend None w" and wk: "wk \<in> set (wakeup_head w)"
  shows "conn_inv pend (Some (wk_addr wk)) w" and "\<exists>t. wk_inner wk = Peer_transport t \<and>
    Some (Peer_transport t) \<notin># owners (Some (wk_addr wk)) w \<and> Some (Peer_transport t) \<in># owners None w"
proof -
  have wo: "wakeup_ok w" using inv by (simp add: conn_inv_def)
  note o = owners_fire [OF wo wk]
  have "count (owners (Some (wk_addr wk)) w) (Some (Peer_transport t)) \<le> 1" for t
    by (rule conn_inv_count(2) [OF inv o])
  moreover have "wk_addr wk < next_addr w" using wo wk by (auto simp: wakeup_ok_def)
  ultimately show "conn_inv pend (Some (wk_addr wk)) w" using inv by (auto simp: conn_inv_def)
  obtain t where t: "wk_inner wk = Peer_transport t" using inv wk by (auto simp: conn_inv_def)
  have "count (owners None w) (Some (Peer_transport t)) \<le> 1" using inv by (simp add: conn_inv_def)
  then show "\<exists>t. wk_inner wk = Peer_transport t \<and>
      Some (Peer_transport t) \<notin># owners (Some (wk_addr wk)) w \<and> Some (Peer_transport t) \<in># owners None w"
    using t by (auto simp: o not_in_iff)
qed

context transports
begin

lemma wakeup_event:
  assumes ok: "sys_ok w" and wk: "wk \<in> set (wakeup_head w)" and rd: "read_timer (wk_fd wk) = (8, 1)"
  shows "case wakeup_handler read_timer (close_call transport) (wk_addr wk) w of
      None \<Rightarrow> 20 < tries w
    | Some w' \<Rightarrow> sys_ok w' \<and> event_frame (Peer_wakeup (wk_addr wk)) w w'"
proof -
  let ?f = "Some (wk_addr wk)"
  obtain pend where p: "conn_inv pend None w" "\<not> peer_shutdown_flag w \<longrightarrow> pend = (\<lambda>_. 0)"
    using ok by (auto simp: sys_ok_def)
  then have wo: "wakeup_ok w" by (simp add: conn_inv_def)
  from conn_inv_fire(2) [OF p(1) wk] obtain t where
    t: "wk_inner wk = Peer_transport t" "Some (Peer_transport t) \<notin># owners ?f w" "Some (Peer_transport t) \<in># owners None w"
    by blast
  have eq: "wakeup_handler read_timer (close_call transport) (wk_addr wk) w =
      Option.bind (if peer_shutdown_flag w then Some w else transport t w)
        (\<lambda>v. Option.bind (wakeup_find (wk_addr wk) v) (\<lambda>wk. wakeup_del wk v))"
    using wakeup_find_eq [OF wo wk] rd t(1)
    by (simp add: wakeup_handler_def wk_fd_def peer_call_def close_call_def)
  have fin: "sys_ok (wakeup_unlink wk v) \<and> event_frame (Peer_wakeup (wk_addr wk)) w (wakeup_unlink wk v) \<and>
      wakeup_find (wk_addr wk) v = Some wk \<and> wakeup_del wk v = Some (wakeup_unlink wk v)"
    if v: "conn_inv q ?f v" "\<not> peer_shutdown_flag v \<longrightarrow> q = (\<lambda>_. 0)" "tinv v"
      "\<forall>t. Some (Peer_transport t) \<in># owners ?f v \<longrightarrow> t \<in> live v" "\<forall>t. Some (Peer_transport t) \<in># conn_owners v \<longrightarrow> t \<in> shut v"
      "regs_ok live ready ?f v"
      and k: "call_frame w v" "tries v \<le> Suc (tries w)" "ready w \<subseteq> ready v" for q v
  proof -
    have wv: "wakeup_ok v" using v(1) by (simp add: conn_inv_def)
    have wkv: "wk \<in> set (wakeup_head v)" using wk k(1) by (auto simp: call_frame_def)
    have fr: "t_frame v (wakeup_unlink wk v)" using wv wkv by (auto simp: t_frame_def wakeup_unlink_def wakeup_ok_def)
    have flag: "peer_shutdown_flag (wakeup_unlink wk v) = peer_shutdown_flag v" by (simp add: wakeup_unlink_def)
    have m: "live (wakeup_unlink wk v) = live v" "shut (wakeup_unlink wk v) = shut v" "tries (wakeup_unlink wk v) = tries v"
      "ready (wakeup_unlink wk v) = ready v"
      using more_frame [of "wakeup_unlink wk v" v] fr by (simp_all add: t_frame_def)
    have co: "conn_owners (wakeup_unlink wk v) = conn_owners v"
      using closers_cong [of "wakeup_unlink wk v" v] by (simp add: conn_owners_def wakeup_unlink_def)
    have "regs_ok live ready None (wakeup_unlink wk v)"
      by (rule regs_ok_frame [OF v(6) fr m(1,4)]) (simp add: owners_wakeup_unlink)
    then have "sys_ok (wakeup_unlink wk v)"
      using conn_inv_wakeup_unlink [OF v(1) wkv] v(2,4,5) tinv_frame [OF v(3) fr]
      by (auto simp: sys_ok_def owners_wakeup_unlink flag m co)
    moreover have "event_frame (Peer_wakeup (wk_addr wk)) w (wakeup_unlink wk v)"
    proof -
      have "fds_kept (\<lambda>_. True) w v" using k(1) by (simp add: call_frame_def)
      note fds_kept_trans [OF fds_kept_all [OF this] fds_kept_wakeup_unlink]
      then show ?thesis
        using k shut_frame_trans [OF _ shut_frameI [OF fr flag], of w] by (auto simp: event_frame_def call_frame_def m)
    qed
    ultimately show ?thesis using wakeup_find_eq [OF wv wkv] wakeup_del_spec(1) [OF wv wkv] by simp
  qed
  have sub: "set_mset (owners ?f w) \<subseteq> set_mset (owners None w)" by (auto simp: owners_fire [OF wo wk])
  have live: "\<forall>t. Some (Peer_transport t) \<in># owners ?f w \<longrightarrow> t \<in> live w" "t \<in> live w"
    "\<forall>t. Some (Peer_transport t) \<in># conn_owners w \<longrightarrow> t \<in> shut w"
    using ok sub t(3) by (auto simp: sys_ok_def)
  have "regs_ok live ready None w" using ok by (simp add: sys_ok_def)
  then have regs: "regs_ok live ready ?f w" by (rule regs_ok_frame [OF _ t_frame_refl]) (use sub in simp_all)
  have tw: "tinv w" using ok by (simp add: sys_ok_def)
  show ?thesis
  proof (cases "peer_shutdown_flag w")
    case True
    have n: "\<not> peer_shutdown_flag w \<longrightarrow> pend = (\<lambda>_. 0)" using p(2) .
    from fin [OF conn_inv_fire(1) [OF p(1) wk] n tw live(1,3) regs call_frame_refl _ subset_refl] True show ?thesis
      by (simp add: eq)
  next
    case False
    then have inv: "sys_inv live shut ready tinv ?f w"
      using conn_inv_fire(1) [OF p(1) wk] p(2) tw live(1,3) regs by (simp add: sys_inv_def)
    note tr = transport_returns [OF inv live(2) t(2)]
    show ?thesis
    proof (cases "transport t w")
      case None
      then show ?thesis using tr False by (simp add: eq)
    next
      case (Some v)
      then have v: "sys_inv live shut ready tinv ?f v" "call_frame w v" "tries v \<le> Suc (tries w)" using tr by auto
      have v': "conn_inv (\<lambda>_. 0) ?f v" "tinv v" "\<forall>t. Some (Peer_transport t) \<in># owners ?f v \<longrightarrow> t \<in> live v"
        "\<forall>t. Some (Peer_transport t) \<in># conn_owners v \<longrightarrow> t \<in> shut v" "regs_ok live ready ?f v"
        using v(1) by (simp_all add: sys_inv_def)
      have rw: "regs_ok live ready None w" using ok by (simp add: sys_ok_def)
      have "ready w - {t} \<subseteq> ready v" using tr Some by simp
      note rk = ready_owned [OF rw t(3) this]
      from fin [OF v'(1) _ v'(2-5) v(2,3) rk] Some False show ?thesis by (simp add: eq)
    qed
  qed
qed

end

end
