(* ===== verification/Opts.thy ===== *)
theory Opts
  imports Receive
begin

text \<open>
  Model of \<^verbatim>\<open>adsbus/opts.c\<close>, the table of command-line options every component fills and is
  called back from, and of the option parsing of \<^verbatim>\<open>adsbus/send.c\<close> that uses it. The library
  function \<^verbatim>\<open>getopt_long_only\<close> is a parameter: what each of its calls in a row returns for the
  given arguments and table.
\<close>

section \<open>The table\<close>

text \<open>A function returns, or calls \<^verbatim>\<open>exit\<close> with success or a failure.\<close>

datatype 's outcome = Returns 's | Exits bool

text \<open>
  A handler takes \<^verbatim>\<open>optarg\<close> and says whether the value was valid; it may change the program's state, or end the program.
  Most handlers always return.
\<close>

type_synonym 's opts_fn = "string option \<Rightarrow> 's \<Rightarrow> (bool \<times> 's) outcome option"

type_synonym 's opts_handler = "string option \<Rightarrow> 's \<Rightarrow> (bool \<times> 's) option"

definition returning :: "'s opts_handler \<Rightarrow> 's opts_fn" where
  "returning h arg s = map_option Returns (h arg s)"

record 's opt =
  arg_help :: "string option"
  opt_handler :: "'s opts_fn"
  opt_group :: nat

record long_opt =
  lo_name :: "string option"
  lo_has_arg :: bool

record 's opts_state =
  opts :: "'s opt option list"
  opts_long :: "long_opt list"
  opts_num :: nat

definition OPTS_MAX :: nat where
  "OPTS_MAX = 128"

text \<open>Static storage is zero: no entry of either table is in use.\<close>

definition opts_empty :: "'s opts_state" where
  "opts_empty = \<lparr>opts = replicate OPTS_MAX None, opts_long = replicate OPTS_MAX \<lparr>lo_name = None, lo_has_arg = False\<rparr>,
     opts_num = 0\<rparr>"

definition opts_add ::
    "string \<Rightarrow> string option \<Rightarrow> 's opts_fn \<Rightarrow> nat \<Rightarrow> 's opts_state \<Rightarrow> 's opts_state option" where
  "opts_add name help handler grp st = do {
     c_assert (opts_num st < OPTS_MAX);
     os \<leftarrow> c_upd (opts st) (opts_num st) (Some \<lparr>arg_help = help, opt_handler = handler, opt_group = grp\<rparr>);
     ls \<leftarrow> c_upd (opts_long st) (opts_num st) \<lparr>lo_name = Some name, lo_has_arg = help \<noteq> None\<rparr>;
     Some (st\<lparr>opts := os, opts_long := ls, opts_num := opts_num st + 1\<rparr>)
   }"

section \<open>Calling the handlers of a group\<close>

text \<open>A call of \<^verbatim>\<open>getopt_long_only\<close>: its result, \<^verbatim>\<open>longindex\<close>, \<^verbatim>\<open>optarg\<close> and \<^verbatim>\<open>optind\<close> afterwards.\<close>

record getopt_res =
  go_opt :: int
  go_longindex :: nat
  go_optarg :: "string option"
  go_optind :: nat

text \<open>
  The loop of \<^verbatim>\<open>opts_call\<close>; \<open>k\<close> counts the calls. The fuel \<open>n\<close> is enough when the arguments run out
  before, which they do: every call that returns 0 uses up an argument. \<open>Inr\<close> is the last result, \<open>Inl\<close> says that the program
  has ended.
\<close>

fun opts_loop ::
    "(nat \<Rightarrow> getopt_res) \<Rightarrow> nat \<Rightarrow> 's opts_state \<Rightarrow> nat \<Rightarrow> nat \<Rightarrow> 's \<Rightarrow> (bool + getopt_res \<times> 's) option" where
  "opts_loop getopt grp st 0 k s = None"
| "opts_loop getopt grp st (Suc n) k s =
     (let r = getopt k in
      if go_opt r \<noteq> 0 then Some (Inr (r, s))
      else do {
        entry \<leftarrow> c_nth (opts st) (go_longindex r);
        e \<leftarrow> entry;
        if opt_group e \<noteq> grp then opts_loop getopt grp st n (k + 1) s
        else do {
          out \<leftarrow> opt_handler e (go_optarg r) s;
          case out of
            Exits code \<Rightarrow> Some (Inl code)
          | Returns (ok, s) \<Rightarrow>
              if \<not> ok then Some (Inl False)
              else opts_loop getopt grp st n (k + 1) s
        }
      })"

definition opts_call ::
    "(nat \<Rightarrow> getopt_res) \<Rightarrow> nat \<Rightarrow> nat \<Rightarrow> 's opts_state \<Rightarrow> 's \<Rightarrow> 's outcome option" where
  "opts_call getopt argc grp st s = do {
     res \<leftarrow> opts_loop getopt grp st argc 0 s;
     case res of
       Inl code \<Rightarrow> Some (Exits code)
     | Inr (r, s) \<Rightarrow>
         if go_opt r \<noteq> -1 then Some (Exits False)
         else if go_optind r \<noteq> argc then Some (Exits False)
         else Some (Returns s)
   }"

text \<open>
  \<^verbatim>\<open>opts_init\<close>: the option \<^verbatim>\<open>--help\<close>, the terminating entry, and a first pass for the help option alone.
  Its handler is a parameter; it prints the usage and exits.
\<close>

definition opts_complete :: "'s opts_fn \<Rightarrow> nat \<Rightarrow> 's opts_state \<Rightarrow> 's opts_state option" where
  "opts_complete opts_help internal st = do {
     st \<leftarrow> opts_add ''help'' None opts_help internal st;
     c_assert (opts_num st < OPTS_MAX);
     ls \<leftarrow> c_upd (opts_long st) (opts_num st) \<lparr>lo_name = None, lo_has_arg = False\<rparr>;
     Some (st\<lparr>opts_long := ls\<rparr>)
   }"

definition opts_init ::
    "(nat \<Rightarrow> getopt_res) \<Rightarrow> nat \<Rightarrow> 's opts_fn \<Rightarrow> nat \<Rightarrow> 's opts_state \<Rightarrow> 's \<Rightarrow>
      ('s opts_state \<times> 's outcome) option" where
  "opts_init getopt argc opts_help internal st s = do {
     st \<leftarrow> opts_complete opts_help internal st;
     r \<leftarrow> opts_call getopt argc internal st s;
     Some (st, r)
   }"

section \<open>Splitting an argument\<close>

fun strchr :: "string \<Rightarrow> char \<Rightarrow> nat option" where
  "strchr [] d = None"
| "strchr (c # cs) d = (if c = d then Some 0 else map_option Suc (strchr cs d))"

text \<open>The part before the delimiter, and the new value of \<^verbatim>\<open>*arg\<close>.\<close>

definition opts_split :: "string \<Rightarrow> char \<Rightarrow> string option \<times> string" where
  "opts_split arg delim = (case strchr arg delim of
     None \<Rightarrow> (None, arg)
   | Some n \<Rightarrow> (Some (take n arg), drop (n + 1) arg))"

text \<open>\<^verbatim>\<open>send_parse_format\<close> and \<^verbatim>\<open>send_add\<close> of \<^verbatim>\<open>adsbus/send.c\<close>; \<open>next_fn\<close> is the function pointer.\<close>

definition send_parse_format :: "string \<Rightarrow> nat option \<times> string" where
  "send_parse_format arg = (case opts_split arg (CHR ''='') of
     (None, arg) \<Rightarrow> (None, arg)
   | (Some format, arg) \<Rightarrow> (send_get_serializer format, arg))"

definition send_add ::
    "(string \<Rightarrow> 'f \<Rightarrow> nat option \<Rightarrow> 's \<Rightarrow> (bool \<times> 's) option) \<Rightarrow> 'f \<Rightarrow> string \<Rightarrow> 's \<Rightarrow> (bool \<times> 's) option" where
  "send_add next_fn flow arg s = (case send_parse_format arg of
     (None, arg) \<Rightarrow> Some (False, s)
   | (Some i, arg) \<Rightarrow> next_fn arg flow (Some i) s)"

section \<open>The table is well formed\<close>

text \<open>The first \<open>opts_num\<close> entries of both tables are in use, and only they.\<close>

definition opts_ok :: "'s opts_state \<Rightarrow> bool" where
  "opts_ok st \<longleftrightarrow> length (opts st) = OPTS_MAX \<and> length (opts_long st) = OPTS_MAX \<and> opts_num st \<le> OPTS_MAX \<and>
     (\<forall>i < OPTS_MAX. (opts st ! i \<noteq> None \<longleftrightarrow> i < opts_num st) \<and>
        (lo_name (opts_long st ! i) \<noteq> None \<longleftrightarrow> i < opts_num st))"

lemma opts_ok_empty: "opts_ok opts_empty"
  by (simp add: opts_ok_def opts_empty_def)

lemma opts_add_spec:
  assumes "opts_ok st"
  shows "case opts_add name help handler grp st of
      None \<Rightarrow> opts_num st = OPTS_MAX
    | Some st' \<Rightarrow> opts_ok st' \<and> opts_num st < OPTS_MAX \<and> opts_num st' = opts_num st + 1 \<and>
        opts st' = (opts st)[opts_num st := Some \<lparr>arg_help = help, opt_handler = handler, opt_group = grp\<rparr>] \<and>
        opts_long st' = (opts_long st)[opts_num st := \<lparr>lo_name = Some name, lo_has_arg = help \<noteq> None\<rparr>]"
proof (cases "opts_num st < OPTS_MAX")
  case True
  have "opts_ok (st\<lparr>opts := (opts st)[opts_num st := Some e], opts_long := (opts_long st)[opts_num st := l],
      opts_num := opts_num st + 1\<rparr>)" if "lo_name l \<noteq> None" for e l
    using assms True that by (auto simp: opts_ok_def nth_list_update less_Suc_eq)
  from this [of "\<lparr>lo_name = Some name, lo_has_arg = help \<noteq> None\<rparr>"]
  show ?thesis using True assms by (simp add: opts_add_def c_upd_def) (simp add: opts_ok_def)
next
  case False
  then show ?thesis using assms by (simp add: opts_add_def opts_ok_def)
qed

section \<open>Handlers run in order\<close>

text \<open>
  The reference for \<^verbatim>\<open>opts_call\<close>: the options on the command line as pairs of index and argument; the
  handlers of the group run on them in order until one rejects its value or ends the program.
\<close>

fun run_handlers :: "('s opts_fn \<times> string option) list \<Rightarrow> 's \<Rightarrow> (bool \<times> 's) outcome option" where
  "run_handlers [] s = Some (Returns (True, s))"
| "run_handlers ((h, v) # hs) s = do {
     out \<leftarrow> h v s;
     case out of
       Exits code \<Rightarrow> Some (Exits code)
     | Returns (ok, s) \<Rightarrow> if ok then run_handlers hs s else Some (Returns (False, s))
   }"

definition selected :: "'s opts_state \<Rightarrow> nat \<Rightarrow> getopt_res list \<Rightarrow> ('s opts_fn \<times> string option) list" where
  "selected st grp rs = concat (map (\<lambda>r. case opts st ! go_longindex r of
     None \<Rightarrow> []
   | Some e \<Rightarrow> if opt_group e = grp then [(opt_handler e, go_optarg r)] else []) rs)"

text \<open>The first \<open>m\<close> calls return 0 with the index of an entry in use, the next one does not return 0.\<close>

definition getopt_ok :: "(nat \<Rightarrow> getopt_res) \<Rightarrow> nat \<Rightarrow> 's opts_state \<Rightarrow> bool" where
  "getopt_ok getopt m st \<longleftrightarrow> (\<forall>k < m. go_opt (getopt k) = 0 \<and> go_longindex (getopt k) < opts_num st) \<and> go_opt (getopt m) \<noteq> 0"

lemma opts_loop_spec:
  assumes ok: "opts_ok st" and g: "getopt_ok getopt m st" and "k \<le> m" and "m - k < n"
  shows "opts_loop getopt grp st n k s =
    (case run_handlers (selected st grp (map getopt [k..<m])) s of
       None \<Rightarrow> None
     | Some (Exits code) \<Rightarrow> Some (Inl code)
     | Some (Returns (ok, s')) \<Rightarrow> Some (if ok then Inr (getopt m, s') else Inl False))"
  using assms(3,4)
proof (induction "m - k" arbitrary: k n s)
  case 0
  then obtain n' where "n = Suc n'" "k = m" by (cases n) auto
  then show ?case using g by (simp add: getopt_ok_def selected_def)
next
  case (Suc d)
  then obtain n' where n: "n = Suc n'" by (cases n) auto
  have k: "k < m" using Suc.hyps(2) by simp
  have r: "go_opt (getopt k) = 0" "go_longindex (getopt k) < opts_num st" using g k by (auto simp: getopt_ok_def)
  have len: "go_longindex (getopt k) < length (opts st)" "opts st ! go_longindex (getopt k) \<noteq> None"
    using r(2) ok by (auto simp: opts_ok_def)
  obtain e where e: "opts st ! go_longindex (getopt k) = Some e" using len(2) by auto
  have sel: "selected st grp (map getopt [k..<m]) =
      (if opt_group e = grp then [(opt_handler e, go_optarg (getopt k))] else []) @
      selected st grp (map getopt [Suc k..<m])"
    using k e by (simp add: selected_def upt_conv_Cons)
  have IH: "opts_loop getopt grp st n' (Suc k) s' =
    (case run_handlers (selected st grp (map getopt [Suc k..<m])) s' of
       None \<Rightarrow> None
     | Some (Exits code) \<Rightarrow> Some (Inl code)
     | Some (Returns (ok, s')) \<Rightarrow> Some (if ok then Inr (getopt m, s') else Inl False))" for s'
    using Suc.hyps Suc.prems n by (intro Suc.hyps(1)) auto
  have step: "opts_loop getopt grp st (Suc n') k s =
    (if opt_group e \<noteq> grp then opts_loop getopt grp st n' (Suc k) s
     else Option.bind (opt_handler e (go_optarg (getopt k)) s)
       (\<lambda>out. case out of
          Exits code \<Rightarrow> Some (Inl code)
        | Returns (ok, s) \<Rightarrow> if \<not> ok then Some (Inl False) else opts_loop getopt grp st n' (k + 1) s))"
    using len(1) e r(1) by (simp add: c_nth_def Let_def)
  show ?case
  proof (cases "opt_group e = grp")
    case False
    then show ?thesis unfolding n step sel using IH by simp
  next
    case True
    then show ?thesis unfolding n step sel using IH [unfolded Suc_eq_plus1]
      by (cases "opt_handler e (go_optarg (getopt k)) s") (auto split: outcome.split)
  qed
qed

lemma opts_call_spec:
  assumes "opts_ok st" and "getopt_ok getopt m st" and "m < argc"
  shows "opts_call getopt argc grp st s =
    (case run_handlers (selected st grp (map getopt [0..<m])) s of
       None \<Rightarrow> None
     | Some (Exits code) \<Rightarrow> Some (Exits code)
     | Some (Returns (ok, s')) \<Rightarrow>
         Some (if ok \<and> go_opt (getopt m) = -1 \<and> go_optind (getopt m) = argc then Returns s' else Exits False))"
  using opts_loop_spec [OF assms(1,2) le0, of argc grp s] assms(3)
  by (auto simp: opts_call_def split: option.splits outcome.splits)

text \<open>
  Handlers that keep a predicate of the state, or end the program with a status that \<open>Q\<close> allows; an option that is rejected ends
  it with a failure.
\<close>

definition handler_keeps :: "(bool \<Rightarrow> bool) \<Rightarrow> ('s \<Rightarrow> bool) \<Rightarrow> 's opts_fn \<Rightarrow> string option \<Rightarrow> bool" where
  "handler_keeps Q P h arg \<longleftrightarrow> (\<forall>s. P s \<longrightarrow>
     (\<exists>code. h arg s = Some (Exits code) \<and> Q code) \<or> (\<exists>ok s'. h arg s = Some (Returns (ok, s')) \<and> P s'))"

lemma handler_keeps_returning:
  "handler_keeps Q P (returning h) arg \<longleftrightarrow> (\<forall>s. P s \<longrightarrow> (\<exists>ok s'. h arg s = Some (ok, s') \<and> P s'))"
  by (auto simp: handler_keeps_def returning_def)

lemma run_handlers_keeps:
  assumes "\<forall>(h, arg) \<in> set hs. handler_keeps Q P h arg" and "P s"
  shows "(\<exists>code. run_handlers hs s = Some (Exits code) \<and> Q code) \<or> (\<exists>ok s'. run_handlers hs s = Some (Returns (ok, s')) \<and> P s')"
  using assms
proof (induction hs arbitrary: s)
  case Nil
  then show ?case by simp
next
  case (Cons x hs)
  obtain h arg where x: "x = (h, arg)" by (cases x)
  have "handler_keeps Q P h arg" using Cons.prems(1) x by simp
  then consider code where "h arg s = Some (Exits code)" "Q code" | ok s' where "h arg s = Some (Returns (ok, s'))" "P s'"
    using Cons.prems(2) unfolding handler_keeps_def by blast
  then show ?case
  proof cases
    case 1
    then show ?thesis by (simp add: x)
  next
    case 2
    have "\<forall>(h, arg) \<in> set hs. handler_keeps Q P h arg" using Cons.prems(1) by simp
    from Cons.IH [OF this 2(2)] 2 show ?thesis by (cases ok) (simp_all add: x)
  qed
qed

text \<open>The entries of a table, with the names of the options.\<close>

definition table_is :: "'s opts_state \<Rightarrow> (string \<times> 's opt) list \<Rightarrow> bool" where
  "table_is st es \<longleftrightarrow> opts_ok st \<and> opts_num st = length es \<and>
     (\<forall>i < length es. opts st ! i = Some (snd (es ! i)) \<and>
        opts_long st ! i = \<lparr>lo_name = Some (fst (es ! i)), lo_has_arg = arg_help (snd (es ! i)) \<noteq> None\<rparr>)"

lemma table_is_empty: "table_is opts_empty []"
  by (simp add: table_is_def opts_ok_empty) (simp add: opts_empty_def)

lemma table_is_add:
  assumes "table_is st es" and "length es < OPTS_MAX"
  shows "\<exists>st'. opts_add name hlp handler grp st = Some st' \<and>
    table_is st' (es @ [(name, \<lparr>arg_help = hlp, opt_handler = handler, opt_group = grp\<rparr>)])"
proof -
  have ok: "opts_ok st" and n: "opts_num st = length es" using assms(1) by (simp_all add: table_is_def)
  have l: "length (opts st) = OPTS_MAX" "length (opts_long st) = OPTS_MAX" using ok by (simp_all add: opts_ok_def)
  have "case opts_add name hlp handler grp st of None \<Rightarrow> opts_num st = OPTS_MAX
    | Some st' \<Rightarrow> opts_ok st' \<and> opts_num st < OPTS_MAX \<and> opts_num st' = opts_num st + 1 \<and>
        opts st' = (opts st)[opts_num st := Some \<lparr>arg_help = hlp, opt_handler = handler, opt_group = grp\<rparr>] \<and>
        opts_long st' = (opts_long st)[opts_num st := \<lparr>lo_name = Some name, lo_has_arg = hlp \<noteq> None\<rparr>]"
    by (rule opts_add_spec [OF ok])
  then obtain st' where
    st': "opts_add name hlp handler grp st = Some st'" "opts_ok st'" "opts_num st' = opts_num st + 1"
      "opts st' = (opts st)[opts_num st := Some \<lparr>arg_help = hlp, opt_handler = handler, opt_group = grp\<rparr>]"
      "opts_long st' = (opts_long st)[opts_num st := \<lparr>lo_name = Some name, lo_has_arg = hlp \<noteq> None\<rparr>]"
    using n assms(2) by (auto split: option.splits)
  have "opts st' ! i = Some (snd ((es @ [(name, \<lparr>arg_help = hlp, opt_handler = handler, opt_group = grp\<rparr>)]) ! i)) \<and>
      opts_long st' ! i = \<lparr>lo_name = Some (fst ((es @ [(name, \<lparr>arg_help = hlp, opt_handler = handler, opt_group = grp\<rparr>)]) ! i)),
        lo_has_arg = arg_help (snd ((es @ [(name, \<lparr>arg_help = hlp, opt_handler = handler, opt_group = grp\<rparr>)]) ! i)) \<noteq> None\<rparr>"
    if "i < length es + 1" for i
  proof (cases "i = length es")
    case True
    then show ?thesis unfolding st'(4,5) n using assms(2) l by simp
  next
    case False
    then have i: "i < length es" using that by simp
    then show ?thesis using assms(1) unfolding st'(4,5) n table_is_def by (simp add: nth_append)
  qed
  then show ?thesis using st'(1-3) n by (simp add: table_is_def)
qed

lemma table_is_then:
  assumes "table_is st es" and "length es < OPTS_MAX"
    and "\<And>st'. table_is st' (es @ [(name, \<lparr>arg_help = hlp, opt_handler = handler, opt_group = grp\<rparr>)]) \<Longrightarrow> \<exists>st''. f st' = Some st'' \<and> Q st''"
  shows "\<exists>st''. Option.bind (opts_add name hlp handler grp st) f = Some st'' \<and> Q st''"
  using table_is_add [OF assms(1,2), where name = name and hlp = hlp and handler = handler and grp = grp] assms(3) by auto

lemma table_is_complete:
  assumes "table_is st es" and "length es + 1 < OPTS_MAX"
  shows "\<exists>st'. opts_complete opts_help internal st = Some st' \<and>
    table_is st' (es @ [(''help'', \<lparr>arg_help = None, opt_handler = opts_help, opt_group = internal\<rparr>)])"
proof -
  let ?es = "es @ [(''help'', \<lparr>arg_help = None, opt_handler = opts_help, opt_group = internal\<rparr>)]"
  from table_is_add [OF assms(1)] assms(2) obtain u where
    u: "opts_add ''help'' None opts_help internal st = Some u" "table_is u ?es" by fastforce
  have n: "opts_num u = length es + 1" "opts_num u < length (opts_long u)" "opts_num u < OPTS_MAX"
    using u(2) assms(2) by (simp_all add: table_is_def opts_ok_def)
  let ?v = "u\<lparr>opts_long := (opts_long u)[opts_num u := \<lparr>lo_name = None, lo_has_arg = False\<rparr>]\<rparr>"
  have "table_is ?v ?es" using u(2) n unfolding table_is_def opts_ok_def by (auto simp: nth_list_update)
  then show ?thesis using u(1) n by (simp add: opts_complete_def c_upd_def)
qed

text \<open>\<^verbatim>\<open>opts_call\<close> when the handlers that the command line selects keep a predicate.\<close>

lemma opts_call_keeps:
  assumes tab: "table_is st es" and g: "getopt_ok getopt m st" and "m < argc" and "P s"
    and keeps: "\<And>k. k < m \<Longrightarrow> go_longindex (getopt k) < length es \<Longrightarrow> opt_group (snd (es ! go_longindex (getopt k))) = grp \<Longrightarrow>
      handler_keeps Q P (opt_handler (snd (es ! go_longindex (getopt k)))) (go_optarg (getopt k))"
  shows "(\<exists>code. opts_call getopt argc grp st s = Some (Exits code) \<and> (code \<longrightarrow> Q code)) \<or> (\<exists>s'. opts_call getopt argc grp st s = Some (Returns s') \<and> P s')"
proof -
  have ok: "opts_ok st" and n: "opts_num st = length es" using tab by (simp_all add: table_is_def)
  have "\<forall>(h, arg) \<in> set (selected st grp (map getopt [0..<m])). handler_keeps Q P h arg"
  proof safe
    fix h arg
    assume "(h, arg) \<in> set (selected st grp (map getopt [0..<m]))"
    then obtain k where m: "k < m" and sel: "(h, arg) \<in> set (case opts st ! go_longindex (getopt k) of None \<Rightarrow> []
        | Some e \<Rightarrow> if opt_group e = grp then [(opt_handler e, go_optarg (getopt k))] else [])"
      unfolding selected_def set_concat set_map by fastforce
    from sel obtain e where "opts st ! go_longindex (getopt k) = Some e" "opt_group e = grp" "h = opt_handler e"
        "arg = go_optarg (getopt k)"
      by (cases "opts st ! go_longindex (getopt k)") (simp_all split: if_splits)
    note k = m this
    have i: "go_longindex (getopt k) < length es" using g k(1) n by (simp add: getopt_ok_def)
    then have "e = snd (es ! go_longindex (getopt k))" using tab k(2) by (simp add: table_is_def)
    then show "handler_keeps Q P h arg" using keeps [OF k(1) i] k(3-5) by simp
  qed
  from run_handlers_keeps [OF this assms(4)] show ?thesis using opts_call_spec [OF ok g assms(3), of grp s] by fastforce
qed

section \<open>Splitting\<close>

lemma strchr_spec:
  "case strchr s d of None \<Rightarrow> d \<notin> set s | Some n \<Rightarrow> n < length s \<and> s ! n = d \<and> d \<notin> set (take n s)"
  by (induction s d rule: strchr.induct) (auto split: option.splits)

lemma strchr_append: "d \<notin> set a \<Longrightarrow> strchr (a @ d # b) d = Some (length a)"
  by (induction a) auto

lemma opts_split_spec:
  "case opts_split arg d of
     (None, rest) \<Rightarrow> rest = arg \<and> d \<notin> set arg
   | (Some pre, rest) \<Rightarrow> arg = pre @ d # rest \<and> d \<notin> set pre"
proof (cases "strchr arg d")
  case None
  then show ?thesis using strchr_spec [where s = arg and d = d] by (simp add: opts_split_def)
next
  case (Some n)
  then have "n < length arg" "arg ! n = d" "d \<notin> set (take n arg)" using strchr_spec [where s = arg and d = d] by simp_all
  then show ?thesis using Some id_take_nth_drop [where xs = arg and i = n] by (simp add: opts_split_def)
qed

lemma opts_split_append: "d \<notin> set pre \<Longrightarrow> opts_split (pre @ d # rest) d = (Some pre, rest)"
  by (simp add: opts_split_def strchr_append)

text \<open>Looking a format up.\<close>

lemma get_serializer_loop_spec:
  "case send_get_serializer_loop i names name of
     None \<Rightarrow> \<forall>n \<in> set names. map ascii_lower n \<noteq> map ascii_lower name
   | Some j \<Rightarrow> i \<le> j \<and> j < i + length names \<and> map ascii_lower (names ! (j - i)) = map ascii_lower name"
proof (induction names arbitrary: i)
  case (Cons s ss)
  show ?case
  proof (cases "map ascii_lower s = map ascii_lower name")
    case False
    show ?thesis
    proof (cases "send_get_serializer_loop (i + 1) ss name")
      case None
      with Cons.IH [of "i + 1"] False show ?thesis by simp
    next
      case (Some j)
      with Cons.IH [of "i + 1"] have j: "i + 1 \<le> j" "j < i + 1 + length ss"
        "map ascii_lower (ss ! (j - (i + 1))) = map ascii_lower name" by simp_all
      have "j - i = Suc (j - (i + 1))" using j(1) by simp
      then have "(s # ss) ! (j - i) = ss ! (j - (i + 1))" by simp
      with Some j False show ?thesis by simp
    qed
  qed simp
qed simp

lemma send_get_serializer_spec:
  "case send_get_serializer name of
     None \<Rightarrow> \<forall>n \<in> set serializer_names. map ascii_lower n \<noteq> map ascii_lower name
   | Some i \<Rightarrow> i < NUM_SERIALIZERS \<and> map ascii_lower (serializer_names ! i) = map ascii_lower name"
  using get_serializer_loop_spec [where i = 0 and names = serializer_names and name = name]
  by (auto simp: send_get_serializer_def serializer_names_def NUM_SERIALIZERS_def split: option.splits)

section \<open>Properties\<close>

text \<open>
  C38. \<^verbatim>\<open>opts_call\<close> does what the order of the command line says: the handlers of the called group, and
  no others, run once each on their arguments, in command-line order, until one rejects its value or ends the program itself. The
  program goes on exactly when none does, every option is known and nothing but options is given; otherwise it exits, with a
  failure unless it was a handler that ended it.
\<close>

theorem opts_call_in_order:
  assumes "opts_ok st" and "getopt_ok getopt m st" and "m < argc"
  shows "opts_call getopt argc grp st s =
    (case run_handlers (selected st grp (map getopt [0..<m])) s of
       None \<Rightarrow> None
     | Some (Exits code) \<Rightarrow> Some (Exits code)
     | Some (Returns (ok, s')) \<Rightarrow>
         Some (if ok \<and> go_opt (getopt m) = -1 \<and> go_optind (getopt m) = argc then Returns s' else Exits False))"
  by (rule opts_call_spec [OF assms])

text \<open>Two options of two groups, both given; the handlers append their argument to the state.\<close>

definition sample_handler :: "(string list) opts_fn" where
  "sample_handler v s = Some (Returns (v \<noteq> None, s @ [the v]))"

definition sample_opts :: "(string list) opts_state" where
  "sample_opts = \<lparr>opts = [Some \<lparr>arg_help = Some ''PATH'', opt_handler = sample_handler, opt_group = 1\<rparr>,
       Some \<lparr>arg_help = Some ''PATH'', opt_handler = sample_handler, opt_group = 2\<rparr>] @ replicate 126 None,
     opts_long = [\<lparr>lo_name = Some ''a'', lo_has_arg = True\<rparr>, \<lparr>lo_name = Some ''b'', lo_has_arg = True\<rparr>] @
       replicate 126 \<lparr>lo_name = None, lo_has_arg = False\<rparr>,
     opts_num = 2\<rparr>"

definition sample_getopt :: "nat \<Rightarrow> getopt_res" where
  "sample_getopt k = (if k = 0 then \<lparr>go_opt = 0, go_longindex = 1, go_optarg = Some ''x'', go_optind = 2\<rparr>
     else if k = 1 then \<lparr>go_opt = 0, go_longindex = 0, go_optarg = Some ''y'', go_optind = 3\<rparr>
     else \<lparr>go_opt = -1, go_longindex = 0, go_optarg = None, go_optind = 3\<rparr>)"

lemma sample_opts_ok: "opts_ok sample_opts"
  unfolding opts_ok_def
proof (intro conjI allI impI)
  fix i
  assume "i < OPTS_MAX"
  then show "(opts sample_opts ! i \<noteq> None) = (i < opts_num sample_opts)"
    and "(lo_name (opts_long sample_opts ! i) \<noteq> None) = (i < opts_num sample_opts)"
    by (auto simp: sample_opts_def OPTS_MAX_def nth_Cons nth_append split: nat.splits)
qed (simp_all add: sample_opts_def OPTS_MAX_def)

theorem opts_call_in_order_witness:
  "opts_call sample_getopt 3 1 sample_opts [] =
    (case run_handlers (selected sample_opts 1 (map sample_getopt [0..<2])) [] of
       None \<Rightarrow> None
     | Some (Exits code) \<Rightarrow> Some (Exits code)
     | Some (Returns (ok, s')) \<Rightarrow>
         Some (if ok \<and> go_opt (sample_getopt 2) = -1 \<and> go_optind (sample_getopt 2) = 3 then Returns s' else Exits False))"
  by (rule opts_call_in_order [OF sample_opts_ok]) (auto simp: getopt_ok_def sample_getopt_def sample_opts_def)

text \<open>
  Adding an option never writes outside the tables: it fills the next entry of both, or aborts
  exactly when all 128 are in use, and the tables stay well formed, with nothing in use behind the last option.
\<close>

theorem opts_add_bounded:
  assumes "opts_ok st"
  shows "case opts_add name help handler grp st of
      None \<Rightarrow> opts_num st = OPTS_MAX
    | Some st' \<Rightarrow> opts_ok st' \<and> opts_num st < OPTS_MAX \<and> opts_num st' = opts_num st + 1 \<and>
        opts st' = (opts st)[opts_num st := Some \<lparr>arg_help = help, opt_handler = handler, opt_group = grp\<rparr>] \<and>
        opts_long st' = (opts_long st)[opts_num st := \<lparr>lo_name = Some name, lo_has_arg = help \<noteq> None\<rparr>]"
  by (rule opts_add_spec [OF assms])

theorem opts_add_bounded_witness:
  "case opts_add ''c'' None sample_handler 1 sample_opts of
      None \<Rightarrow> opts_num sample_opts = OPTS_MAX
    | Some st' \<Rightarrow> opts_ok st' \<and> opts_num sample_opts < OPTS_MAX \<and> opts_num st' = opts_num sample_opts + 1 \<and>
        opts st' = (opts sample_opts)[opts_num sample_opts :=
          Some \<lparr>arg_help = None, opt_handler = sample_handler, opt_group = 1\<rparr>] \<and>
        opts_long st' = (opts_long sample_opts)[opts_num sample_opts := \<lparr>lo_name = Some ''c'', lo_has_arg = None \<noteq> (None :: string option)\<rparr>]"
  by (rule opts_add_bounded [OF sample_opts_ok])

text \<open>
  \<^verbatim>\<open>opts_split\<close> cuts at the first delimiter: the part before it, which does not contain it, and the
  rest make up the argument again; without a delimiter the argument is left alone and nothing is returned.
\<close>

theorem opts_split_exact:
  "case opts_split arg d of
     (None, rest) \<Rightarrow> rest = arg \<and> d \<notin> set arg
   | (Some pre, rest) \<Rightarrow> arg = pre @ d # rest \<and> d \<notin> set pre"
  by (rule opts_split_spec)

text \<open>
  An argument \<^verbatim>\<open>FORMAT=REST\<close> is handed on with the rest and the table index of the format, whose name
  matches up to case; an unknown format, or an argument without \<^verbatim>\<open>=\<close>, is rejected and nothing is called.
\<close>

theorem send_add_selects:
  "case send_add next_fn flow arg s of
     None \<Rightarrow> \<exists>fmt rest i. arg = fmt @ CHR ''='' # rest \<and> send_get_serializer fmt = Some i \<and> next_fn rest flow (Some i) s = None
   | Some r \<Rightarrow>
       (\<exists>fmt rest i. arg = fmt @ CHR ''='' # rest \<and> CHR ''='' \<notin> set fmt \<and> i < NUM_SERIALIZERS \<and>
          map ascii_lower (serializer_names ! i) = map ascii_lower fmt \<and> next_fn rest flow (Some i) s = Some r) \<or>
       r = (False, s) \<and> (CHR ''='' \<notin> set arg \<or> (\<exists>fmt rest. arg = fmt @ CHR ''='' # rest \<and>
          (\<forall>n \<in> set serializer_names. map ascii_lower n \<noteq> map ascii_lower fmt)))"
proof (cases "opts_split arg (CHR ''='')")
  case (Pair pre rest)
  note sp = opts_split_spec [where arg = arg and d = "CHR ''=''"]
  show ?thesis
  proof (cases pre)
    case None
    then show ?thesis using Pair sp by (simp add: send_add_def send_parse_format_def)
  next
    case (Some fmt)
    then have a: "arg = fmt @ CHR ''='' # rest" "CHR ''='' \<notin> set fmt" using Pair sp by simp_all
    have add: "send_add next_fn flow arg s =
        (case send_get_serializer fmt of None \<Rightarrow> Some (False, s) | Some i \<Rightarrow> next_fn rest flow (Some i) s)"
      using Pair Some by (simp add: send_add_def send_parse_format_def split: option.split)
    show ?thesis
    proof (cases "send_get_serializer fmt")
      case None
      then have "\<forall>n \<in> set serializer_names. map ascii_lower n \<noteq> map ascii_lower fmt"
        using send_get_serializer_spec [where name = fmt] by simp
      then show ?thesis unfolding add using None a(1) by auto
    next
      case (Some i)
      then have i: "i < NUM_SERIALIZERS" "map ascii_lower (serializer_names ! i) = map ascii_lower fmt"
        using send_get_serializer_spec [where name = fmt] by simp_all
      show ?thesis
      proof (cases "next_fn rest flow (Some i) s")
        case None
        then show ?thesis unfolding add using Some a by auto
      next
        case (Some r)
        then have "send_add next_fn flow arg s = Some r" using \<open>send_get_serializer fmt = Some i\<close> by (simp add: add)
        then show ?thesis using Some a i by auto
      qed
    qed
  qed
qed

definition sample_next :: "string \<Rightarrow> nat \<Rightarrow> nat option \<Rightarrow> string \<Rightarrow> (bool \<times> string) option" where
  "sample_next rest flow i s = Some (True, s @ rest)"

lemma sample_send_add: "send_add sample_next 7 ''Raw=HOST/80'' ''to '' = Some (True, ''to HOST/80'')"
  by code_simp

theorem send_add_selects_witness:
  "\<exists>fmt rest i. ''Raw=HOST/80'' = fmt @ CHR ''='' # rest \<and> CHR ''='' \<notin> set fmt \<and> i < NUM_SERIALIZERS \<and>
     map ascii_lower (serializer_names ! i) = map ascii_lower fmt \<and>
     sample_next rest 7 (Some i) ''to '' = Some (True, ''to HOST/80'')"
  using send_add_selects [where next_fn = sample_next and flow = 7 and arg = "''Raw=HOST/80''" and s = "''to ''"]
  by (simp only: sample_send_add option.case) simp

end
