(* ===== verification/Transport.thy ===== *)
theory Transport
  imports Owners Opts
begin

text \<open>
  What the transports (files, outgoing and incoming connections, child processes) share: the
  choice of a flow, handing a descriptor over to it, and asking for a wakeup to retry. The lemmas
  state what each of these does to the invariant of the connections.
\<close>

section \<open>Flows by name\<close>

datatype flow_ref = Receive_flow | Send_flow | Send_receive_flow

definition the_flow :: "'j env \<Rightarrow> 'k kernel_scheme \<Rightarrow> flow_ref \<Rightarrow> ('a sr_state_scheme) flow" where
  "the_flow E K r = (case r of
     Receive_flow \<Rightarrow> receive_flow E
   | Send_flow \<Rightarrow> send_flow E
   | Send_receive_flow \<Rightarrow> send_receive_flow E K)"

definition flow_pass_ok :: "flow_ref \<Rightarrow> nat option \<Rightarrow> bool" where
  "flow_pass_ok r pass \<longleftrightarrow> (r \<noteq> Receive_flow \<longrightarrow> format_ok pass)"

lemma the_flow_contract:
  assumes "kernel_ok K"
  shows "conn_flow (the_flow E K r :: ('a sr_state_scheme) flow) f (flow_pass_ok r)"
proof (cases r)
  case Receive_flow
  have "flow_pass_ok r = (\<lambda>_. True)" by (simp add: fun_eq_iff flow_pass_ok_def Receive_flow)
  then show ?thesis using receive_conn_flow [of E f] by (simp add: the_flow_def Receive_flow)
next
  case Send_flow
  have "flow_pass_ok r = format_ok" by (simp add: fun_eq_iff flow_pass_ok_def Send_flow)
  then show ?thesis using send_conn_flow [of E f] by (simp add: the_flow_def Send_flow)
next
  case Send_receive_flow
  have "flow_pass_ok r = format_ok" by (simp add: fun_eq_iff flow_pass_ok_def Send_receive_flow)
  then show ?thesis using send_receive_conn_flow [OF assms, of E f] by (simp add: the_flow_def Send_receive_flow)
qed

lemma flow_hooks_return:
  assumes "socket_kernel_ok S"
  shows "flow_socket_ready S n fd (the_flow E K r) = Some ()" and "flow_socket_connected S n fd (the_flow E K r) = Some ()"
  using socket_calls_return [OF assms]
  by (cases r; simp add: flow_socket_ready_def flow_socket_connected_def the_flow_def receive_flow_def send_flow_def
      send_receive_flow_def)+

section \<open>Changes the connections do not see\<close>

lemma conn_inv_same:
  fixes w w' :: "'a sr_state_scheme"
  assumes inv: "conn_inv pend f w"
    and w': "fds w' = fds w" "epoll_set w' = epoll_set w" "peer_always_trigger_head w' = peer_always_trigger_head w"
      "send_heads w' = send_heads w" "receive_head w' = receive_head w" "next_addr w \<le> next_addr w'"
      "rand_ok (rnd w')" "stats w' = stats w" "wakeup_head w' = wakeup_head w" "timers w' = timers w"
      "json_hello_buf w' = json_hello_buf w" "proto_hello_buf w' = proto_hello_buf w"
      "send_receive_head w' = send_receive_head w"
  shows "conn_inv pend f w'" and "owners f w' = owners f w"
proof -
  have reg: "peer_registered q p w' = peer_registered q p w" "peer_state_ok w' = peer_state_ok w"
    "all_sends w' = all_sends w" for q p
    by (simp_all add: peer_registered_def peer_state_ok_def all_sends_def w')
  have wo: "wakeup_ok w" and ro: "receive_ok w" using inv by (simp_all add: conn_inv_def wakeup_ok_def)
  have "send_ok w'"
    using ro w'(7) unfolding receive_ok_def send_ok_def reg w'(1,3,4,8) by (auto intro: less_le_trans [OF _ w'(6)])
  then have "receive_ok w'" using ro unfolding receive_ok_def reg w'(3,5) by (auto intro: less_le_trans [OF _ w'(6)])
  then have wo': "wakeup_ok w'" using w' by (intro wakeup_ok_frame [OF wo]) auto
  have cl: "closers w' = closers w" by (rule closers_cong [OF w'(5,4)])
  have reg': "reg_inv w'"
    by (rule reg_inv_cong [of w]) (use inv in \<open>simp_all add: conn_inv_def w'\<close>)
  show ow: "owners f w' = owners f w" by (rule owners_cong [OF cl w'(13,9)])
  show "conn_inv pend f w'"
    using inv wo' reg' unfolding conn_inv_def ow cl w'(1,9,11,12,13) by (auto intro: less_le_trans [OF _ w'(6)])
qed

lemma conn_inv_rand: "conn_inv pend f w \<Longrightarrow> rand_ok (rnd w)"
  by (simp add: conn_inv_def wakeup_ok_def receive_ok_def send_ok_def)

text \<open>Counting the users of a flow.\<close>

lemma conn_inv_counted:
  fixes w :: "'a sr_state_scheme" and r :: flow_ref and E :: "'j env" and K :: "'k kernel_scheme" and g :: "u32 \<Rightarrow> u32"
  assumes "conn_inv pend f w"
  defines "w' \<equiv> flow_ref_count (the_flow E K r) g w"
  shows "conn_inv pend f w'" and "owners f w' = owners f w" and "conn_frame w w'" and "receive_head w' = receive_head w"
    and "send_heads w' = send_heads w" and "fds w' = fds w" and "rnd w' = rnd w" and "next_addr w' = next_addr w"
    and "send_receive_head w' = send_receive_head w"
proof -
  consider "w' = peer_count_in_update g w" | "w' = peer_count_out_update g w" | "w' = peer_count_out_in_update g w"
    by (cases r) (auto simp: w'_def the_flow_def receive_flow_def send_flow_def send_receive_flow_def)
  then have "conn_inv pend f w' \<and> owners f w' = owners f w \<and> conn_frame w w' \<and> receive_head w' = receive_head w \<and>
      send_heads w' = send_heads w \<and> fds w' = fds w \<and> rnd w' = rnd w \<and> next_addr w' = next_addr w \<and>
      send_receive_head w' = send_receive_head w"
  proof cases
    case 1
    then show ?thesis using conn_inv_same [OF assms(1), of w'] conn_inv_rand [OF assms(1)]
      conn_frameI [of w w'] by (simp add: t_frame_def)
  next
    case 2
    then show ?thesis using conn_inv_same [OF assms(1), of w'] conn_inv_rand [OF assms(1)]
      conn_frameI [of w w'] by (simp add: t_frame_def)
  next
    case 3
    then show ?thesis using conn_inv_same [OF assms(1), of w'] conn_inv_rand [OF assms(1)]
      conn_frameI [of w w'] by (simp add: t_frame_def)
  qed
  then show "conn_inv pend f w'" and "owners f w' = owners f w" and "conn_frame w w'"
    and "receive_head w' = receive_head w" and "send_heads w' = send_heads w" and "fds w' = fds w"
    and "rnd w' = rnd w" and "next_addr w' = next_addr w" and "send_receive_head w' = send_receive_head w" by blast+
qed

section \<open>The descriptors of transports\<close>

text \<open>
  A descriptor no connection or wakeup owns is opened, closed, registered for a transport or unregistered.
\<close>

lemma conn_inv_foreign:
  fixes w w' :: "'a sr_state_scheme"
  assumes inv: "conn_inv pend f w" and fd: "fd \<notin> snd_fd ` set (all_sends w)" "fd \<notin> rx_fd ` set (receive_head w)"
    and old: "\<And>p. epoll_set w fd = Some p \<Longrightarrow> foreign p"
    and new: "\<And>p. e = Some p \<Longrightarrow> foreign p \<and> (\<exists>info. i = Some info \<and> fd_pollable info)"
    and w': "w' = w\<lparr>fds := (fds w)(fd := i), epoll_set := (epoll_set w)(fd := e)\<rparr>"
  shows "conn_inv pend f w'" and "owners f w' = owners f w" and "conn_owners w' = conn_owners w"
proof -
  have wo: "wakeup_ok w" and ro: "receive_ok w" using inv by (simp_all add: conn_inv_def wakeup_ok_def)
  have "receive_ok w'" by (rule receive_ok_unused [OF ro fd]) (use new in \<open>simp_all add: w'\<close>)
  then have wo': "wakeup_ok w'" using old by (intro wakeup_ok_frame [OF wo]) (auto simp: w' dest: old)
  have cl: "closers w' = closers w" by (rule closers_cong) (simp_all add: w')
  show ow: "owners f w' = owners f w" by (rule owners_cong [OF cl]) (simp_all add: w')
  show "conn_owners w' = conn_owners w" by (simp add: conn_owners_def cl) (simp add: w')
  have "peer_fds w' p = peer_fds w p" for p by (rule peer_fds_cong) (simp_all add: w')
  moreover have "peer_fds w p = UNIV" if "foreign p" for p using that by (auto simp: foreign_def peer_fds_def)
  ultimately have "reg_inv w'" using inv new unfolding reg_inv_def conn_inv_def by (auto simp: w')
  moreover have "finite (dom (fds w'))" using inv by (simp add: conn_inv_def w' fun_upd_def dom_if)
  ultimately show "conn_inv pend f w'"
    using inv wo' unfolding conn_inv_def ow cl by (simp add: w')
qed

text \<open>A registered descriptor of a transport is open and not that of a connection.\<close>

lemma foreign_registered:
  fixes w :: "'a sr_state_scheme"
  assumes inv: "conn_inv pend f w" and e: "epoll_set w fd = Some p" "foreign p"
  shows "\<exists>i. fds w fd = Some i \<and> fd_pollable i" and "fd \<notin> snd_fd ` set (all_sends w)"
    and "fd \<notin> rx_fd ` set (receive_head w)" and "fd \<noteq> -1 \<Longrightarrow> 0 \<le> fd \<Longrightarrow> fd_unused fd (w\<lparr>epoll_set := (epoll_set w)(fd := None)\<rparr>)"
proof -
  have ro: "receive_ok w" using inv by (simp add: conn_inv_def wakeup_ok_def)
  then show i: "\<exists>i. fds w fd = Some i \<and> fd_pollable i"
    using e unfolding receive_ok_def send_ok_def peer_state_ok_def by blast
  then show s: "fd \<notin> snd_fd ` set (all_sends w)" "fd \<notin> rx_fd ` set (receive_head w)"
    using ro e by (auto simp: receive_ok_def send_ok_def peer_registered_def snd_fd_def rx_fd_def)
  show "fd_unused fd (w\<lparr>epoll_set := (epoll_set w)(fd := None)\<rparr>)" if "fd \<noteq> -1" "0 \<le> fd"
    using i s that by (auto simp: fd_unused_def fd_free_def fd_fresh_def all_sends_def)
qed

section \<open>Handing a descriptor over\<close>

lemma handed_over:
  fixes w :: "'a sr_state_scheme"
  assumes K: "kernel_ok K" and inv: "conn_inv (\<lambda>_. 0) f w" and fd: "fd_unused fd w" and pass: "flow_pass_ok r pass"
    and own: "owner_free f c w"
  shows "\<exists>ok w'. flow_new_send_hello E fd (the_flow E K r) pass c w = Some (ok, w') \<and> conn_inv (\<lambda>_. 0) f w' \<and>
    conn_frame w w' \<and> (if ok then made f w c w' else owners f w' = owners f w)"
proof -
  note ct = the_flow_contract [OF K, of E r f]
  from flow_contract.new_send_hello_returns [OF ct inv fd pass own, of E] obtain ok w' n tr where
    r: "flow_new_send_hello E fd (the_flow E K r) pass c w = Some (ok, w')" "conn_inv (\<lambda>_. 0) f w'"
    "if ok then made f (w\<lparr>tick := n, trace := tr\<rparr>) c w'
     else w' = w\<lparr>tick := n, trace := tr, fds := (fds w)(fd := None), epoll_set := (epoll_set w)(fd := None)\<rparr>"
    by blast
  define v where "v = w\<lparr>tick := n, trace := tr\<rparr>"
  have fv: "conn_frame w v" by (rule conn_frameI) (simp_all add: v_def t_frame_def)
  have v: "conn_inv (\<lambda>_. 0) f v" "owners f v = owners f w" using conn_inv_ticked [OF inv] by (simp_all add: v_def)
  show ?thesis
  proof (cases ok)
    case True
    then have "made f v c w'" using r(3) by (simp add: v_def)
    moreover have "conn_owners v = conn_owners w" by (simp add: v_def conn_owners_def closers_def all_sends_def)
    ultimately have "made f w c w'" "conn_frame w w'" using fv by (auto simp: made_def intro: conn_frame_trans)
    then show ?thesis using r True by auto
  next
    case False
    then have w': "w' = v\<lparr>fds := (fds v)(fd := None), epoll_set := (epoll_set v)(fd := None)\<rparr>"
      using r(3) by (simp add: v_def)
    have fd': "fd \<notin> snd_fd ` set (all_sends v)" "fd \<notin> rx_fd ` set (receive_head v)" "epoll_set v fd = None"
      using fd by (auto simp: fd_unused_def fd_free_def fd_fresh_def v_def all_sends_def)
    have "owners f w' = owners f v" by (rule conn_inv_unused(2) [OF v(1) fd' w'])
    moreover have "conn_frame w w'"
      using fd'(3) by (intro conn_frameI) (auto simp: w' v_def t_frame_def)
    ultimately show ?thesis using r(1,2) False v(2) by auto
  qed
qed

section \<open>Asking for a wakeup\<close>

lemma conn_inv_wakeup_add:
  fixes w :: "'a sr_state_scheme"
  assumes K: "kernel_ok K" and inv: "conn_inv (\<lambda>_. 0) f w" and own: "Some (Peer_transport t) \<notin># owners f w"
  shows "\<exists>w'. wakeup_add (new_fd K w) st (Peer_transport t) delay w = Some w' \<and> conn_inv (\<lambda>_. 0) f w' \<and>
    owners f w' = add_mset (Some (Peer_transport t)) (owners f w) \<and> conn_owners w' = conn_owners w \<and> t_frame w w' \<and>
    call_frame w w' \<and> peer_always_trigger_head w' = peer_always_trigger_head w"
proof -
  have wo: "wakeup_ok w" and fin: "finite (dom (fds w))" using inv by (simp_all add: conn_inv_def)
  note fd = new_fd_fresh [OF K fin]
  define w' where "w' = wakeup_linked (new_fd K w) st (Peer_transport t) delay w"
  note add = wakeup_add_spec [OF wo fd, of st "Peer_transport t" delay, folded w'_def]
  have cl: "closers w' = closers w" by (rule closers_cong) (simp_all add: w'_def wakeup_linked_def)
  have "f \<noteq> Some (next_addr w)" using inv by (auto simp: conn_inv_def)
  then have ow: "owners f w' = add_mset (Some (Peer_transport t)) (owners f w)"
    unfolding owners_def conn_owners_def cl by (simp add: w'_def wakeup_linked_def new_wakeup_def)
  have cnt: "count (owners f w') (Some (Peer_transport x)) \<le> 1" for x
    using conn_inv_count(1) [OF inv, of x] own by (auto simp: ow not_in_iff)
  have mono: "peer_fds w p \<subseteq> peer_fds w' p" for p
    by (rule peer_fds_monoI) (auto simp: w'_def wakeup_linked_def all_sends_def)
  have "new_wakeup (new_fd K w) (Peer_transport t) w \<in> set (wakeup_head w')" by (simp add: w'_def wakeup_linked_def)
  then have "wk_fd (new_wakeup (new_fd K w) (Peer_transport t) w) \<in>
      peer_fds w' (Peer_wakeup (wk_addr (new_wakeup (new_fd K w) (Peer_transport t) w)))"
    unfolding peer_fds_def peer_ref.case by blast
  then have nf: "new_fd K w \<in> peer_fds w' (Peer_wakeup (next_addr w))" by (simp add: new_wakeup_def wk_fd_def)
  have reg: "reg_inv w'"
  proof (rule reg_inv_mono [of w])
    show "reg_inv w" using inv by (simp add: conn_inv_def)
    show "epoll_set w g = Some p \<or> g \<in> peer_fds w' p" if "epoll_set w' g = Some p" for g p
      using that nf by (auto simp: w'_def wakeup_linked_def split: if_splits)
  qed (use mono in \<open>auto simp: w'_def wakeup_linked_def\<close>)
  have "finite (dom (fds w'))" using fin by (simp add: w'_def wakeup_linked_def)
  with reg have "conn_inv (\<lambda>_. 0) f w'"
    using inv add(2) cnt unfolding conn_inv_def cl by (auto simp: w'_def wakeup_linked_def new_wakeup_def intro: less_SucI)
  moreover have "epoll_set w (new_fd K w) = None"
    using fd_new_unused(3) [OF _ fd(2)] wo by (simp add: wakeup_ok_def)
  then have "t_frame w w'" by (auto simp: t_frame_def w'_def wakeup_linked_def)
  moreover have "call_frame w w'"
    using shut_frameI [OF calculation(2)] mono by (auto simp: call_frame_def fds_kept_def w'_def wakeup_linked_def)
  moreover have "peer_always_trigger_head w' = peer_always_trigger_head w" by (simp add: w'_def wakeup_linked_def)
  ultimately show ?thesis using add(1) ow cl by (intro exI [of _ w']) (simp add: conn_owners_def w'_def wakeup_linked_def)
qed

text \<open>The two calls every retry makes.\<close>

lemma retry_asked:
  fixes w :: "'a sr_state_scheme"
  assumes K: "kernel_ok K" and inv: "conn_inv (\<lambda>_. 0) f w" and own: "Some (Peer_transport t) \<notin># owners f w"
  shows "case wakeup_get_retry_delay_ms src attempt (rnd w) of
      None \<Rightarrow> 20 < unat attempt
    | Some (delay, rs) \<Rightarrow> \<exists>w'. wakeup_add (new_fd K w) st (Peer_transport t) delay (w\<lparr>rnd := rs\<rparr>) = Some w' \<and>
        conn_inv (\<lambda>_. 0) f w' \<and> owners f w' = add_mset (Some (Peer_transport t)) (owners f w) \<and>
        conn_owners w' = conn_owners w \<and> t_frame w w' \<and> call_frame w w' \<and>
        peer_always_trigger_head w' = peer_always_trigger_head w"
proof (cases "wakeup_get_retry_delay_ms src attempt (rnd w)")
  case None
  then show ?thesis using retry_delay_spec [OF conn_inv_rand [OF inv], where src = src and attempt = attempt] by simp
next
  case (Some p)
  obtain delay rs where p: "p = (delay, rs)" by (cases p)
  have rs: "rand_ok rs" using retry_delay_spec [OF conn_inv_rand [OF inv], where src = src and attempt = attempt] Some p by simp
  define v where "v = w\<lparr>rnd := rs\<rparr>"
  have v: "conn_inv (\<lambda>_. 0) f v" "owners f v = owners f w"
    using conn_inv_same [OF inv, of v] rs by (simp_all add: v_def)
  have fr: "t_frame w v" "new_fd K v = new_fd K w" "peer_always_trigger_head v = peer_always_trigger_head w"
      "conn_owners v = conn_owners w"
    by (simp_all add: v_def t_frame_def new_fd_def conn_owners_def closers_def all_sends_def)
  have cf: "call_frame w v" by (intro call_frameI conn_frameI fr(1)) (simp_all add: v_def)
  from conn_inv_wakeup_add [OF K v(1), of t st delay] own v(2) obtain w' where
    "wakeup_add (new_fd K w) st (Peer_transport t) delay v = Some w'" "conn_inv (\<lambda>_. 0) f w'"
    "owners f w' = add_mset (Some (Peer_transport t)) (owners f w)" "conn_owners w' = conn_owners w" "t_frame v w'"
    "call_frame v w'" "peer_always_trigger_head w' = peer_always_trigger_head w"
    by (auto simp: fr(2-4))
  then show ?thesis using Some p t_frame_trans [OF fr(1)] call_frame_trans [OF cf] by (auto simp: v_def)
qed

end
