(* ===== verification/Kinds.thy ===== *)
theory Kinds
  imports Owners
begin

text \<open>
  The transports come in several kinds, each with a list of structures of its own. A kind is
  shown to keep the invariant whatever transports of other kinds there are; two kinds that do not
  disturb each other make up one, and a kind on its own satisfies the contract of the transports.
\<close>

section \<open>The others\<close>

text \<open>
  The transports of other kinds: their addresses, those that are live, that expect the end of a
  connection, and that may be called by the event loop.
\<close>

record others =
  o_addrs :: "nat set"
  o_live :: "nat set"
  o_shut :: "nat set"
  o_ready :: "nat set"

definition nobody :: others where
  "nobody = \<lparr>o_addrs = {}, o_live = {}, o_shut = {}, o_ready = {}\<rparr>"

definition kind_sys ::
    "('a sr_state_scheme \<Rightarrow> nat set) \<Rightarrow> ('a sr_state_scheme \<Rightarrow> nat set) \<Rightarrow> ('a sr_state_scheme \<Rightarrow> nat set) \<Rightarrow>
      ('a sr_state_scheme \<Rightarrow> nat set) \<Rightarrow> ('a sr_state_scheme \<Rightarrow> bool) \<Rightarrow> others \<Rightarrow> nat option \<Rightarrow> 'a sr_state_scheme \<Rightarrow> bool" where
  "kind_sys live shut ready addrs kinv oth f w \<longleftrightarrow>
     sys_inv (\<lambda>w. live w \<union> o_live oth) (\<lambda>w. shut w \<union> o_shut oth) (\<lambda>w. ready w \<union> o_ready oth) kinv f w \<and>
     o_addrs oth \<inter> addrs w = {} \<and> (\<forall>t \<in> o_addrs oth. t < next_addr w) \<and> o_live oth \<union> o_ready oth \<subseteq> o_addrs oth"

lemma kind_sysD:
  assumes "kind_sys live shut ready addrs kinv oth f w"
  shows "conn_inv (\<lambda>_. 0) f w" and "kinv w" and "o_addrs oth \<inter> addrs w = {}"
    and "t \<in> o_addrs oth \<Longrightarrow> t < next_addr w" and "o_live oth \<union> o_ready oth \<subseteq> o_addrs oth"
    and "Some (Peer_transport t) \<in># owners f w \<Longrightarrow> t \<in> live w \<union> o_live oth"
    and "Some (Peer_transport t) \<in># conn_owners w \<Longrightarrow> t \<in> shut w \<union> o_shut oth"
    and "epoll_set w g = Some (Peer_transport t) \<Longrightarrow> t \<in> ready w \<union> o_ready oth"
    and "t \<in> ready w \<union> o_ready oth \<Longrightarrow> t \<in> live w \<union> o_live oth"
    and "t \<in> ready w \<union> o_ready oth \<Longrightarrow> Some (Peer_transport t) \<notin># owners f w"
    and "Peer_transport t \<notin> set (peer_always_trigger_head w)"
  using assms by (simp_all add: kind_sys_def sys_inv_def regs_ok_def)

lemma kind_sysI:
  assumes "conn_inv (\<lambda>_. 0) f w" and "kinv w" and "o_addrs oth \<inter> addrs w = {}"
    and "\<And>t. t \<in> o_addrs oth \<Longrightarrow> t < next_addr w" and "o_live oth \<union> o_ready oth \<subseteq> o_addrs oth"
    and "\<And>t. Some (Peer_transport t) \<in># owners f w \<Longrightarrow> t \<in> live w \<union> o_live oth"
    and "\<And>t. Some (Peer_transport t) \<in># conn_owners w \<Longrightarrow> t \<in> shut w \<union> o_shut oth"
    and "\<And>g t. epoll_set w g = Some (Peer_transport t) \<Longrightarrow> t \<in> ready w \<union> o_ready oth"
    and "\<And>t. t \<in> ready w \<union> o_ready oth \<Longrightarrow> t \<in> live w \<union> o_live oth"
    and "\<And>t. t \<in> ready w \<union> o_ready oth \<Longrightarrow> Some (Peer_transport t) \<notin># owners f w"
    and "\<And>t. Peer_transport t \<notin> set (peer_always_trigger_head w)"
  shows "kind_sys live shut ready addrs kinv oth f w"
  using assms by (simp add: kind_sys_def sys_inv_def regs_ok_def)

section \<open>Steps of a kind\<close>

text \<open>
  A change of the structures, and maybe of the view of them: it may only take the transport \<open>a\<close>, to which
  no callback leads, out of its state, and register or unregister it.
\<close>

lemma kind_sys_change:
  assumes sys: "kind_sys live shut ready addrs kinv oth f w" and ci: "conn_inv (\<lambda>_. 0) f w'" and k': "kinv' w'"
    and o: "owners f w' = owners f w" "wakeup_head w' = wakeup_head w"
    and fr: "next_addr w \<le> next_addr w'" "peer_always_trigger_head w' = peer_always_trigger_head w"
    and own: "Some (Peer_transport a) \<notin># owners f w" and a: "a \<notin> o_addrs oth"
    and sub: "live w - {a} \<subseteq> live' w'" "shut w - {a} \<subseteq> shut' w'" "ready w - {a} \<subseteq> ready' w'" "ready' w' - {a} \<subseteq> ready w"
    and addr: "addrs' w' \<subseteq> insert a (addrs w)"
    and reg: "\<And>g t. epoll_set w' g = Some (Peer_transport t) \<Longrightarrow> t \<noteq> a \<Longrightarrow> epoll_set w g = Some (Peer_transport t)"
      "\<And>g. epoll_set w' g = Some (Peer_transport a) \<Longrightarrow> a \<in> ready' w'"
    and live: "a \<in> ready' w' \<Longrightarrow> a \<in> live' w'"
  shows "kind_sys live' shut' ready' addrs' kinv' oth f w'" and "conn_owners w' = conn_owners w"
proof -
  note d = kind_sysD [OF sys]
  have "conn_owners w' = {#} + conn_owners w" by (rule owners_add_conn [of f]) (simp_all add: o)
  then show co: "conn_owners w' = conn_owners w" by simp
  have own': "Some (Peer_transport a) \<notin># conn_owners w" using own by (simp add: owners_def)
  show "kind_sys live' shut' ready' addrs' kinv' oth f w'"
  proof (rule kind_sysI)
    show "conn_inv (\<lambda>_. 0) f w'" "kinv' w'" using ci k' by simp_all
    show "o_addrs oth \<inter> addrs' w' = {}" "o_live oth \<union> o_ready oth \<subseteq> o_addrs oth" using d(3,5) addr a by blast+
    show "\<And>t. t \<in> o_addrs oth \<Longrightarrow> t < next_addr w'" using d(4) fr(1) less_le_trans by blast
    show "t \<in> live' w' \<union> o_live oth" if "Some (Peer_transport t) \<in># owners f w'" for t
      using that d(6) own sub(1) unfolding o(1) by blast
    show "t \<in> shut' w' \<union> o_shut oth" if "Some (Peer_transport t) \<in># conn_owners w'" for t
      using that d(7) own' sub(2) unfolding co by blast
    show "\<And>t. Peer_transport t \<notin> set (peer_always_trigger_head w')" using d(11) by (simp add: fr(2))
    show "t \<in> ready' w' \<union> o_ready oth" if "epoll_set w' g = Some (Peer_transport t)" for g t
      using that reg d(8) sub(3) by blast
    fix t
    assume r: "t \<in> ready' w' \<union> o_ready oth"
    show "Some (Peer_transport t) \<notin># owners f w'"
    proof (cases "t = a")
      case True
      then show ?thesis using own by (simp add: o(1))
    next
      case False
      then have "t \<in> ready w \<union> o_ready oth" using r sub(4) by blast
      then show ?thesis using d(10) by (simp add: o(1))
    qed
    show "t \<in> live' w' \<union> o_live oth"
    proof (cases "t = a")
      case True
      then have "t \<in> ready' w'" using r d(5) a by blast
      then show ?thesis using live True by simp
    next
      case False
      then have "t \<in> live w \<union> o_live oth" using r d(9) [of t] sub(4) by blast
      then show ?thesis using False sub(1) by blast
    qed
  qed
qed

locale kind_sets =
  fixes live :: "'a sr_state_scheme \<Rightarrow> nat set"
    and shut :: "'a sr_state_scheme \<Rightarrow> nat set"
    and ready :: "'a sr_state_scheme \<Rightarrow> nat set"
    and addrs :: "'a sr_state_scheme \<Rightarrow> nat set"
    and kinv :: "'a sr_state_scheme \<Rightarrow> bool"
    and tries :: "'a sr_state_scheme \<Rightarrow> nat"
  assumes more_frame: "sr_state.more w' = sr_state.more w \<Longrightarrow>
      live w' = live w \<and> shut w' = shut w \<and> ready w' = ready w \<and> addrs w' = addrs w \<and> tries w' = tries w"
    and inv_tp: "kinv w \<Longrightarrow> tp_frame w w' \<Longrightarrow> kinv w'"
    and live_addrs: "live w \<subseteq> addrs w"
    and shut_live: "shut w \<subseteq> live w"
    and ready_addrs: "ready w \<subseteq> addrs w"
    and addrs_old: "kinv w \<Longrightarrow> t \<in> addrs w \<Longrightarrow> t < next_addr w"
begin

abbreviation sys :: "others \<Rightarrow> nat option \<Rightarrow> 'a sr_state_scheme \<Rightarrow> bool" where
  "sys \<equiv> kind_sys live shut ready addrs kinv"

lemma others_apart:
  assumes "sys oth f w"
  shows "t \<in> o_live oth \<Longrightarrow> t \<notin> live w" and "t \<in> o_ready oth \<Longrightarrow> t \<notin> live w"
    and "t \<in> o_ready oth \<Longrightarrow> t \<notin> ready w"
  using kind_sysD(3,5) [OF assms] live_addrs ready_addrs by blast+

lemma new_addr_free:
  assumes "sys oth f w"
  shows "next_addr w \<notin> addrs w" and "next_addr w \<notin> o_addrs oth" and "Some (Peer_transport (next_addr w)) \<notin># owners f w"
proof -
  note d = kind_sysD [OF assms]
  show a: "next_addr w \<notin> addrs w" using addrs_old [OF d(2), of "next_addr w"] by blast
  show b: "next_addr w \<notin> o_addrs oth" using d(4) [of "next_addr w"] by blast
  show "Some (Peer_transport (next_addr w)) \<notin># owners f w" using d(5,6) a b live_addrs by blast
qed

text \<open>A step of the connections: new owners must be live, those of connections expecting their end.\<close>

lemma step:
  assumes sys: "sys oth f w" and ci: "conn_inv (\<lambda>_. 0) f w'" and fr: "t_frame w w'"
    and o: "\<And>t. Some (Peer_transport t) \<in># owners f w' \<Longrightarrow>
        t \<in> live w \<and> t \<notin> ready w \<or> Some (Peer_transport t) \<in># owners f w"
      "\<And>t. Some (Peer_transport t) \<in># conn_owners w' \<Longrightarrow> t \<in> shut w \<or> Some (Peer_transport t) \<in># conn_owners w"
  shows "sys oth f w'"
proof -
  have "sr_state.more w' = sr_state.more w" using fr by (simp add: t_frame_def)
  note m = more_frame [OF this]
  note d = kind_sysD [OF sys]
  have t: "next_addr w \<le> next_addr w'"
    "\<And>g t. epoll_set w' g = Some (Peer_transport t) \<longleftrightarrow> epoll_set w g = Some (Peer_transport t)"
    "\<And>t. Peer_transport t \<in> set (peer_always_trigger_head w') \<Longrightarrow> Peer_transport t \<in> set (peer_always_trigger_head w)"
    using fr by (simp_all add: t_frame_def)
  show ?thesis
  proof (rule kind_sysI)
    show "conn_inv (\<lambda>_. 0) f w'" "kinv w'" using ci inv_tp [OF d(2) t_frame_tp [OF fr]] by simp_all
    show "o_addrs oth \<inter> addrs w' = {}" "o_live oth \<union> o_ready oth \<subseteq> o_addrs oth" using d(3,5) m by simp_all
    show "\<And>t. t \<in> o_addrs oth \<Longrightarrow> t < next_addr w'" using d(4) t(1) less_le_trans by blast
    show "\<And>t. Some (Peer_transport t) \<in># owners f w' \<Longrightarrow> t \<in> live w' \<union> o_live oth" using o(1) d(6) m by blast
    show "\<And>t. Some (Peer_transport t) \<in># conn_owners w' \<Longrightarrow> t \<in> shut w' \<union> o_shut oth" using o(2) d(7) m by blast
    show "\<And>t. Peer_transport t \<notin> set (peer_always_trigger_head w')" using d(11) t(3) by blast
    show "\<And>g t. epoll_set w' g = Some (Peer_transport t) \<Longrightarrow> t \<in> ready w' \<union> o_ready oth" using d(8) t(2) m by blast
    show "\<And>t. t \<in> ready w' \<union> o_ready oth \<Longrightarrow> t \<in> live w' \<union> o_live oth" using d(9) m by blast
    fix t
    assume r: "t \<in> ready w' \<union> o_ready oth"
    then have n: "Some (Peer_transport t) \<notin># owners f w" using d(10) m by blast
    have "t \<in> ready w \<or> t \<notin> live w" using r others_apart(2) [OF sys] m by blast
    then show "Some (Peer_transport t) \<notin># owners f w'" using o(1) n by blast
  qed
qed

lemma step_same:
  assumes sys: "sys oth f w" and ci: "conn_inv (\<lambda>_. 0) f w'" and fr: "t_frame w w'"
    and o: "owners f w' = owners f w" "wakeup_head w' = wakeup_head w"
  shows "sys oth f w'"
proof -
  have "conn_owners w' = {#} + conn_owners w" by (rule owners_add_conn [of f]) (simp_all add: o)
  then show ?thesis using o(1) by (intro step [OF sys ci fr]) simp_all
qed

text \<open>A connection has been made for a transport that expects its end, or for nobody.\<close>

lemma step_made:
  assumes sys: "sys oth f w" and ci: "conn_inv (\<lambda>_. 0) f w'" and md: "made f w c w'"
    and c: "c = None \<or> (\<exists>a. c = Some (Peer_transport a) \<and> a \<in> shut w \<and> a \<notin> ready w)"
  shows "sys oth f w'"
proof -
  have fr: "t_frame w w'" "wakeup_head w' = wakeup_head w" using md by (simp_all add: made_def conn_frame_def)
  have co: "c = Some (Peer_transport t) \<or> Some (Peer_transport t) \<in># conn_owners w"
    if "Some (Peer_transport t) \<in># conn_owners w'" for t using md that by (simp add: made_def)
  have ow: "c = Some (Peer_transport t) \<or> Some (Peer_transport t) \<in># owners f w"
    if "Some (Peer_transport t) \<in># owners f w'" for t using co that by (auto simp: owners_def fr(2))
  show ?thesis by (rule step [OF sys ci fr(1)]) (use ow co c shut_live in blast)+
qed

lemmas step_heads = kind_sys_change [where live = live and live' = live and shut = shut and shut' = shut
    and ready = ready and ready' = ready and addrs = addrs and addrs' = addrs and kinv = kinv and kinv' = kinv]

end

section \<open>Kinds\<close>

locale kind = kind_sets live shut ready addrs kinv tries
  for live :: "'a sr_state_scheme \<Rightarrow> nat set" and shut ready addrs kinv tries +
  fixes event :: "nat \<Rightarrow> 'a sr_state_scheme \<Rightarrow> 'a sr_state_scheme option"
    and kept :: "'a sr_state_scheme \<Rightarrow> 'a sr_state_scheme \<Rightarrow> bool"
  assumes event_returns: "sys oth f w \<Longrightarrow> t \<in> live w \<Longrightarrow> Some (Peer_transport t) \<notin># owners f w \<Longrightarrow>
    case event t w of
      None \<Rightarrow> t \<notin> shut w \<and> 20 < tries w
    | Some w' \<Rightarrow> sys oth f w' \<and> kept w w' \<and> call_frame w w' \<and> ready w - {t} \<subseteq> ready w' \<and> tries w' \<le> Suc (tries w) \<and>
        (t \<in> shut w \<longrightarrow> peer_always_trigger_head w' = peer_always_trigger_head w \<and> tries w' \<le> max 2 (tries w))"
begin

text \<open>A kind on its own satisfies the contract of the transports.\<close>

lemma alone: "sys nobody f w \<longleftrightarrow> sys_inv live shut ready kinv f w"
  by (simp add: kind_sys_def nobody_def)

lemma alone_transports: "transports event live shut ready kinv tries"
proof
  show "sr_state.more w' = sr_state.more w \<Longrightarrow>
      live w' = live w \<and> shut w' = shut w \<and> ready w' = ready w \<and> tries w' = tries w" for w w' :: "'a sr_state_scheme"
    using more_frame by blast
  show "kinv w \<Longrightarrow> tp_frame w w' \<Longrightarrow> kinv w'" for w w' by (rule inv_tp)
  fix f :: "nat option" and w t
  assume "sys_inv live shut ready kinv f w" "t \<in> live w" "Some (Peer_transport t) \<notin># owners f w"
  then show "case event t w of
      None \<Rightarrow> t \<notin> shut w \<and> 20 < tries w
    | Some w' \<Rightarrow> sys_inv live shut ready kinv f w' \<and> call_frame w w' \<and> ready w - {t} \<subseteq> ready w' \<and>
        tries w' \<le> Suc (tries w) \<and>
        (t \<in> shut w \<longrightarrow> peer_always_trigger_head w' = peer_always_trigger_head w \<and> tries w' \<le> max 2 (tries w))"
    using event_returns [of nobody f w t] unfolding alone by (auto split: option.splits)
qed

end

section \<open>Two kinds\<close>

text \<open>
  Two kinds with separate structures, neither of which touches the structures of the other, behave as one
  kind: a callback goes to the kind that has a structure at the address.
\<close>

definition both :: "('a \<Rightarrow> nat set) \<Rightarrow> ('a \<Rightarrow> nat set) \<Rightarrow> 'a \<Rightarrow> nat set" where
  "both A B w = A w \<union> B w"

definition others_add ::
    "('a \<Rightarrow> nat set) \<Rightarrow> ('a \<Rightarrow> nat set) \<Rightarrow> ('a \<Rightarrow> nat set) \<Rightarrow> ('a \<Rightarrow> nat set) \<Rightarrow> 'a \<Rightarrow> others \<Rightarrow> others" where
  "others_add live shut ready addrs w oth = \<lparr>o_addrs = o_addrs oth \<union> addrs w, o_live = o_live oth \<union> live w,
     o_shut = o_shut oth \<union> shut w, o_ready = o_ready oth \<union> ready w\<rparr>"

definition keeps ::
    "('a \<Rightarrow> nat set) \<Rightarrow> ('a \<Rightarrow> nat set) \<Rightarrow> ('a \<Rightarrow> nat set) \<Rightarrow> ('a \<Rightarrow> nat set) \<Rightarrow> ('a \<Rightarrow> bool) \<Rightarrow> ('a \<Rightarrow> nat) \<Rightarrow> 'a \<Rightarrow> 'a \<Rightarrow> bool" where
  "keeps live shut ready addrs kinv tries w w' \<longleftrightarrow>
     live w' = live w \<and> shut w' = shut w \<and> ready w' = ready w \<and> addrs w' = addrs w \<and> tries w' = tries w \<and>
     (kinv w \<longrightarrow> kinv w')"

text \<open>The invariant of both, seen from one of them.\<close>

lemma both_sys:
  "kind_sys (both l1 l2) (both s1 s2) (both r1 r2) (both a1 a2) (\<lambda>w. k1 w \<and> k2 w \<and> a1 w \<inter> a2 w = {}) oth f w \<longleftrightarrow>
    kind_sys l1 s1 r1 a1 k1 (others_add l2 s2 r2 a2 w oth) f w \<and> k2 w \<and> o_addrs oth \<inter> a2 w = {} \<and>
    o_live oth \<union> o_ready oth \<subseteq> o_addrs oth"
  if "l2 w \<subseteq> a2 w" and "r2 w \<subseteq> a2 w" and "k2 w \<Longrightarrow> \<forall>t \<in> a2 w. t < next_addr w"
proof -
  have u: "both A B w \<union> C = A w \<union> (C \<union> B w)" for A B :: "'a sr_state_scheme \<Rightarrow> nat set" and C
    by (auto simp: both_def)
  have s: "sys_inv (\<lambda>w. both l1 l2 w \<union> o_live oth) (\<lambda>w. both s1 s2 w \<union> o_shut oth) (\<lambda>w. both r1 r2 w \<union> o_ready oth)
      (\<lambda>w. k1 w \<and> k2 w \<and> a1 w \<inter> a2 w = {}) f w \<longleftrightarrow>
    sys_inv (\<lambda>v. l1 v \<union> (o_live oth \<union> l2 w)) (\<lambda>v. s1 v \<union> (o_shut oth \<union> s2 w)) (\<lambda>v. r1 v \<union> (o_ready oth \<union> r2 w)) k1 f w \<and>
    k2 w \<and> a1 w \<inter> a2 w = {}"
    unfolding sys_inv_def regs_ok_def u by blast
  show ?thesis
    unfolding kind_sys_def s others_add_def using that by (auto simp: both_def)
qed

definition both_inv :: "('a \<Rightarrow> bool) \<Rightarrow> ('a \<Rightarrow> bool) \<Rightarrow> ('a \<Rightarrow> nat set) \<Rightarrow> ('a \<Rightarrow> nat set) \<Rightarrow> 'a \<Rightarrow> bool" where
  "both_inv kinv kinv2 addrs addrs2 w \<longleftrightarrow> kinv w \<and> kinv2 w \<and> addrs w \<inter> addrs2 w = {}"

definition both_event ::
    "('a \<Rightarrow> nat set) \<Rightarrow> (nat \<Rightarrow> 'a \<Rightarrow> 'a option) \<Rightarrow> (nat \<Rightarrow> 'a \<Rightarrow> 'a option) \<Rightarrow> nat \<Rightarrow> 'a \<Rightarrow> 'a option" where
  "both_event addrs event event2 t w = (if t \<in> addrs w then event t w else event2 t w)"

definition both_kept :: "('a \<Rightarrow> 'a \<Rightarrow> bool) \<Rightarrow> ('a \<Rightarrow> 'a \<Rightarrow> bool) \<Rightarrow> 'a \<Rightarrow> 'a \<Rightarrow> bool" where
  "both_kept kept kept2 w w' \<longleftrightarrow> kept w w' \<or> kept2 w w'"

locale two_kinds =
  one: kind live shut ready addrs kinv tries event kept +
  two: kind live2 shut2 ready2 addrs2 kinv2 tries2 event2 kept2
  for live :: "'a sr_state_scheme \<Rightarrow> nat set" and shut ready addrs kinv tries event kept
    and live2 :: "'a sr_state_scheme \<Rightarrow> nat set" and shut2 ready2 addrs2 kinv2 tries2 event2 kept2 +
  assumes one_keeps: "kept w w' \<Longrightarrow> addrs w \<inter> addrs2 w = {} \<Longrightarrow> keeps live2 shut2 ready2 addrs2 kinv2 tries2 w w'"
    and two_keeps: "kept2 w w' \<Longrightarrow> addrs w \<inter> addrs2 w = {} \<Longrightarrow> keeps live shut ready addrs kinv tries w w'"
begin

abbreviation both_sys1 where
  "both_sys1 \<equiv> kind_sys (both live live2) (both shut shut2) (both ready ready2) (both addrs addrs2)
     (both_inv kinv kinv2 addrs addrs2)"

lemma sys_one:
  "both_sys1 oth f w \<longleftrightarrow> one.sys (others_add live2 shut2 ready2 addrs2 w oth) f w \<and> kinv2 w \<and>
    o_addrs oth \<inter> addrs2 w = {} \<and> o_live oth \<union> o_ready oth \<subseteq> o_addrs oth"
  using both_sys [of live2 w addrs2 ready2 kinv2] two.live_addrs two.ready_addrs two.addrs_old
  unfolding both_inv_def [abs_def] by blast

lemma sys_two:
  "both_sys1 oth f w \<longleftrightarrow> two.sys (others_add live shut ready addrs w oth) f w \<and> kinv w \<and>
    o_addrs oth \<inter> addrs w = {} \<and> o_live oth \<union> o_ready oth \<subseteq> o_addrs oth"
proof -
  have "both A B = both B A" for A B :: "'a sr_state_scheme \<Rightarrow> nat set" by (auto simp: both_def)
  moreover have "both_inv kinv kinv2 addrs addrs2 = (\<lambda>w. kinv2 w \<and> kinv w \<and> addrs2 w \<inter> addrs w = {})"
    by (auto simp: both_inv_def fun_eq_iff)
  ultimately have eq: "both_sys1 = kind_sys (both live2 live) (both shut2 shut) (both ready2 ready) (both addrs2 addrs)
      (\<lambda>w. kinv2 w \<and> kinv w \<and> addrs2 w \<inter> addrs w = {})" by metis
  show ?thesis
    unfolding eq by (rule both_sys) (use one.live_addrs one.ready_addrs one.addrs_old in blast)+
qed

text \<open>A step of one kind that leaves the structures of the other alone is a step of both.\<close>

lemma addrs_apart: "both_sys1 oth f w \<Longrightarrow> addrs w \<inter> addrs2 w = {}"
  using kind_sysD(2) by (fastforce simp: both_inv_def)

lemma one_step:
  assumes "both_sys1 oth f w" and "one.sys (others_add live2 shut2 ready2 addrs2 w oth) f w'"
    and "keeps live2 shut2 ready2 addrs2 kinv2 tries2 w w'"
  shows "both_sys1 oth f w'"
  using assms(1,2) assms(3) [unfolded keeps_def] unfolding sys_one by (simp add: others_add_def)

lemma two_step:
  assumes "both_sys1 oth f w" and "two.sys (others_add live shut ready addrs w oth) f w'"
    and "keeps live shut ready addrs kinv tries w w'"
  shows "both_sys1 oth f w'"
  using assms(1,2) assms(3) [unfolded keeps_def] unfolding sys_two by (simp add: others_add_def)

lemma both_kind:
  "kind (both live live2) (both shut shut2) (both ready ready2) (both addrs addrs2)
     (both_inv kinv kinv2 addrs addrs2) (\<lambda>w. max (tries w) (tries2 w)) (both_event addrs event event2) (both_kept kept kept2)"
proof
  fix w w' :: "'a sr_state_scheme"
  show "both live live2 w' = both live live2 w \<and> both shut shut2 w' = both shut shut2 w \<and>
      both ready ready2 w' = both ready ready2 w \<and> both addrs addrs2 w' = both addrs addrs2 w \<and>
      max (tries w') (tries2 w') = max (tries w) (tries2 w)"
    if "sr_state.more w' = sr_state.more w"
    using one.more_frame [OF that] two.more_frame [OF that] by (simp add: both_def)
  show "both_inv kinv kinv2 addrs addrs2 w'" if "both_inv kinv kinv2 addrs addrs2 w" "tp_frame w w'"
    using that one.inv_tp [of w w'] two.inv_tp [of w w'] one.more_frame [of w' w] two.more_frame [of w' w]
    by (simp add: both_inv_def tp_frame_def)
  show "both live live2 w \<subseteq> both addrs addrs2 w" "both shut shut2 w \<subseteq> both live live2 w"
    "both ready ready2 w \<subseteq> both addrs addrs2 w"
    using one.live_addrs two.live_addrs one.shut_live two.shut_live one.ready_addrs two.ready_addrs
    unfolding both_def by blast+
  show "t < next_addr w" if "both_inv kinv kinv2 addrs addrs2 w" "t \<in> both addrs addrs2 w" for t
    using that one.addrs_old two.addrs_old by (auto simp: both_inv_def both_def)
  fix oth f t
  assume sys: "both_sys1 oth f w" and t: "t \<in> both live live2 w" and own: "Some (Peer_transport t) \<notin># owners f w"
  note s1 = sys [unfolded sys_one] and s2 = sys [unfolded sys_two]
  note dis = addrs_apart [OF sys]
  show "case both_event addrs event event2 t w of
      None \<Rightarrow> t \<notin> both shut shut2 w \<and> 20 < max (tries w) (tries2 w)
    | Some w' \<Rightarrow> both_sys1 oth f w' \<and> both_kept kept kept2 w w' \<and> call_frame w w' \<and> both ready ready2 w - {t} \<subseteq> both ready ready2 w' \<and>
        max (tries w') (tries2 w') \<le> Suc (max (tries w) (tries2 w)) \<and>
        (t \<in> both shut shut2 w \<longrightarrow> peer_always_trigger_head w' = peer_always_trigger_head w \<and>
          max (tries w') (tries2 w') \<le> max 2 (max (tries w) (tries2 w)))"
  proof (cases "t \<in> addrs w")
    case True
    then have l: "t \<in> live w" "t \<notin> shut2 w" "both_event addrs event event2 t w = event t w"
      using t dis two.live_addrs [of w] two.shut_live [of w] unfolding both_def both_event_def by auto
    note r = one.event_returns [OF conjunct1 [OF s1] l(1) own]
    show ?thesis
    proof (cases "event t w")
      case None
      then show ?thesis using r l by (simp add: both_def less_max_iff_disj)
    next
      case (Some w')
      then have k: "kept w w'" using r by simp
      note k2 = one_keeps [OF k dis, unfolded keeps_def]
      have "both_sys1 oth f w'" using r Some by (intro one_step [OF sys _ one_keeps [OF k dis]]) simp
      then show ?thesis using r l k k2 Some by (auto simp: both_def both_kept_def)
    qed
  next
    case False
    then have l: "t \<in> live2 w" "t \<notin> shut w" "both_event addrs event event2 t w = event2 t w"
      using t one.live_addrs [of w] one.shut_live [of w] unfolding both_def both_event_def by auto
    note r = two.event_returns [OF conjunct1 [OF s2] l(1) own]
    show ?thesis
    proof (cases "event2 t w")
      case None
      then show ?thesis using r l by (simp add: both_def less_max_iff_disj)
    next
      case (Some w')
      then have k: "kept2 w w'" using r by simp
      note k2 = two_keeps [OF k dis, unfolded keeps_def]
      have "both_sys1 oth f w'" using r Some by (intro two_step [OF sys _ two_keeps [OF k dis]]) simp
      then show ?thesis using r l k k2 Some by (auto simp: both_def both_kept_def)
    qed
  qed
qed

end

sublocale two_kinds \<subseteq> sum: kind "both live live2" "both shut shut2" "both ready ready2" "both addrs addrs2"
    "both_inv kinv kinv2 addrs addrs2" "\<lambda>w. max (tries w) (tries2 w)" "both_event addrs event event2" "both_kept kept kept2"
  by (rule both_kind)

end
