(* ===== verification/File.thy ===== *)
theory File
  imports Transport Kinds
begin

text \<open>
  Model of \<^verbatim>\<open>adsbus/file.c\<close>: files and devices that are opened, handed over to a flow, and opened
  again when they end or cannot be opened. The two event handlers of a file are the values of
  \<open>fl_handler\<close>; the descriptor in its peer is always -1 and left out.
\<close>

section \<open>State\<close>

datatype file_handler = File_open_wrapper | File_handle_close

record file_conn =
  fl_addr :: nat
  fl_id :: "u8 list"
  fl_path :: string
  fl_flags :: u32
  fl_attempt :: u32
  fl_flow :: flow_ref
  fl_pass :: "nat option"
  fl_retry :: bool
  fl_handler :: "file_handler option"

record file_state = sr_state +
  file_head :: "file_conn list"

text \<open>
  \<^verbatim>\<open>open\<close> as a function of the number of calls so far, the path and the flags: \<open>None\<close> for a failure, otherwise what is
  behind the new descriptor.
\<close>

record file_kernel = kernel +
  k_open :: "nat \<Rightarrow> string \<Rightarrow> u32 \<Rightarrow> fd_info option"

text \<open>The flags as Linux defines them.\<close>

definition O_RDONLY :: u32 where "O_RDONLY = 0"
definition O_WRONLY :: u32 where "O_WRONLY = 1"
definition O_CREAT :: u32 where "O_CREAT = 0x40"
definition O_NOCTTY :: u32 where "O_NOCTTY = 0x100"
definition O_TRUNC :: u32 where "O_TRUNC = 0x200"
definition O_NOFOLLOW :: u32 where "O_NOFOLLOW = 0x20000"
definition O_CLOEXEC :: u32 where "O_CLOEXEC = 0x80000"

definition file_find :: "nat \<Rightarrow> 'a file_state_scheme \<Rightarrow> file_conn option" where
  "file_find a w = find (\<lambda>q. fl_addr q = a) (file_head w)"

definition file_store :: "file_conn \<Rightarrow> 'a file_state_scheme \<Rightarrow> 'a file_state_scheme" where
  "file_store fl w = w\<lparr>file_head := map (\<lambda>q. if fl_addr q = fl_addr fl then fl else q) (file_head w)\<rparr>"

section \<open>Operations\<close>

text \<open>
  The expression \<^verbatim>\<open>!file->flags & O_RDONLY\<close> as C parses it: the logical negation comes first. Then a
  descriptor is tried out in a new epoll set, whose own descriptor is closed again.
\<close>

definition file_should_retry :: "'k kernel_scheme \<Rightarrow> int \<Rightarrow> file_conn \<Rightarrow> 'a peer_state_scheme \<Rightarrow> bool option" where
  "file_should_retry K fd fl w =
     (if (if fl_flags fl = 0 then 1 else 0) AND O_RDONLY \<noteq> 0 then Some True
      else do {
        c_assert (0 \<le> new_fd K w);
        info \<leftarrow> fds w fd;
        Some (fd_pollable info)
      })"

definition file_del ::
    "'j env \<Rightarrow> 'k file_kernel_scheme \<Rightarrow> nat \<Rightarrow> 'a file_state_scheme \<Rightarrow> 'a file_state_scheme option" where
  "file_del E K a w = do {
     fl \<leftarrow> file_find a w;
     let w = flow_ref_dec (the_flow E K (fl_flow fl)) w;
     Some (w\<lparr>file_head := filter (\<lambda>q. fl_addr q \<noteq> a) (file_head w)\<rparr>)
   }"

definition file_retry ::
    "'j env \<Rightarrow> 'k file_kernel_scheme \<Rightarrow> nat \<Rightarrow> 'a file_state_scheme \<Rightarrow> 'a file_state_scheme option" where
  "file_retry E K a w = do {
     fl \<leftarrow> file_find a w;
     let w = file_store (fl\<lparr>fl_attempt := fl_attempt fl + 1, fl_handler := Some File_open_wrapper\<rparr>) w;
     (delay, rs) \<leftarrow> wakeup_get_retry_delay_ms (env_entropy E) (fl_attempt fl) (rnd w);
     wakeup_add (new_fd K w) (k_timer_stat K) (Peer_transport a) delay (w\<lparr>rnd := rs\<rparr>)
   }"

definition file_handle_close ::
    "'j env \<Rightarrow> 'k file_kernel_scheme \<Rightarrow> nat \<Rightarrow> 'a file_state_scheme \<Rightarrow> 'a file_state_scheme option" where
  "file_handle_close E K a w = do {
     fl \<leftarrow> file_find a w;
     if fl_retry fl then file_retry E K a w else file_del E K a w
   }"

definition file_open ::
    "'j env \<Rightarrow> 'k file_kernel_scheme \<Rightarrow> nat \<Rightarrow> 'a file_state_scheme \<Rightarrow> 'a file_state_scheme option" where
  "file_open E K a w = do {
     fl \<leftarrow> file_find a w;
     let opened = k_open K (tick w) (fl_path fl) (fl_flags fl OR O_CLOEXEC OR O_NOCTTY);
     let w = w\<lparr>tick := tick w + 1\<rparr>;
     case opened of
       None \<Rightarrow> file_retry E K a w
     | Some info \<Rightarrow> do {
         let fd = new_fd K w;
         let w = w\<lparr>fds := (fds w)(fd \<mapsto> info)\<rparr>;
         retry \<leftarrow> file_should_retry K fd fl w;
         let w = file_store (fl\<lparr>fl_retry := retry, fl_handler := Some File_handle_close, fl_attempt := 0\<rparr>) w;
         (ok, w) \<leftarrow> flow_new_send_hello E fd (the_flow E K (fl_flow fl)) (fl_pass fl) (Some (Peer_transport a)) w;
         if \<not> ok then file_retry E K a w else Some w
       }
   }"

text \<open>\<^verbatim>\<open>peer->event_handler(peer)\<close> for the peer of a file.\<close>

definition file_event ::
    "'j env \<Rightarrow> 'k file_kernel_scheme \<Rightarrow> nat \<Rightarrow> 'a file_state_scheme \<Rightarrow> 'a file_state_scheme option" where
  "file_event E K a w = do {
     fl \<leftarrow> file_find a w;
     h \<leftarrow> fl_handler fl;
     case h of
       File_open_wrapper \<Rightarrow> file_open E K a w
     | File_handle_close \<Rightarrow> file_handle_close E K a w
   }"

definition file_new ::
    "'j env \<Rightarrow> 'k file_kernel_scheme \<Rightarrow> string \<Rightarrow> u32 \<Rightarrow> flow_ref \<Rightarrow> nat option \<Rightarrow>
      'a file_state_scheme \<Rightarrow> 'a file_state_scheme option" where
  "file_new E K path flags flow pass w = do {
     let w = flow_ref_inc (the_flow E K flow) w;
     let a = next_addr w;
     let w = w\<lparr>next_addr := a + 1\<rparr>;
     (uid, rs) \<leftarrow> uuid_gen (env_entropy E) (rnd w) (replicate UUID_LEN 0);
     let w = w\<lparr>rnd := rs, file_head := file_head w @
       [\<lparr>fl_addr = a, fl_id = uid, fl_path = path, fl_flags = flags, fl_attempt = 0, fl_flow = flow, fl_pass = pass,
         fl_retry = False, fl_handler = None\<rparr>]\<rparr>;
     file_open E K a w
   }"

definition file_read_new where
  "file_read_new E K path flow pass w = file_new E K path O_RDONLY flow pass w"

definition file_write_new where
  "file_write_new E K path flow pass w = file_new E K path (O_WRONLY OR O_CREAT OR O_NOFOLLOW OR O_TRUNC) flow pass w"

definition file_append_new where
  "file_append_new E K path flow pass w = file_new E K path (O_WRONLY OR O_CREAT OR O_NOFOLLOW) flow pass w"

text \<open>The handlers of the five options; \<^verbatim>\<open>optarg\<close> is never null for them.\<close>

definition file_write_add where
  "file_write_add E K path flow pass w = map_option (Pair True) (file_write_new E K path flow pass w)"

definition file_append_add where
  "file_append_add E K path flow pass w = map_option (Pair True) (file_append_new E K path flow pass w)"

definition file_read :: "'j env \<Rightarrow> 'k file_kernel_scheme \<Rightarrow> ('a file_state_scheme) opts_handler" where
  "file_read E K arg w = do {
     path \<leftarrow> arg;
     w \<leftarrow> file_read_new E K path Receive_flow None w;
     Some (True, w)
   }"

definition file_write :: "'j env \<Rightarrow> 'k file_kernel_scheme \<Rightarrow> ('a file_state_scheme) opts_handler" where
  "file_write E K arg w = Option.bind arg (\<lambda>arg. send_add (file_write_add E K) Send_flow arg w)"

definition file_write_read :: "'j env \<Rightarrow> 'k file_kernel_scheme \<Rightarrow> ('a file_state_scheme) opts_handler" where
  "file_write_read E K arg w = Option.bind arg (\<lambda>arg. send_add (file_write_add E K) Send_receive_flow arg w)"

definition file_append :: "'j env \<Rightarrow> 'k file_kernel_scheme \<Rightarrow> ('a file_state_scheme) opts_handler" where
  "file_append E K arg w = Option.bind arg (\<lambda>arg. send_add (file_append_add E K) Send_flow arg w)"

definition file_append_read :: "'j env \<Rightarrow> 'k file_kernel_scheme \<Rightarrow> ('a file_state_scheme) opts_handler" where
  "file_append_read E K arg w = Option.bind arg (\<lambda>arg. send_add (file_append_add E K) Send_receive_flow arg w)"

definition file_opts_add ::
    "'j env \<Rightarrow> 'k file_kernel_scheme \<Rightarrow> nat \<Rightarrow> ('a file_state_scheme) opts_state \<Rightarrow>
      ('a file_state_scheme) opts_state option" where
  "file_opts_add E K file_opts st = do {
     st \<leftarrow> opts_add ''file-read'' (Some ''PATH'') (returning (file_read E K)) file_opts st;
     st \<leftarrow> opts_add ''file-write'' (Some ''FORMAT=PATH'') (returning (file_write E K)) file_opts st;
     st \<leftarrow> opts_add ''file-write-read'' (Some ''FORMAT=PATH'') (returning (file_write_read E K)) file_opts st;
     st \<leftarrow> opts_add ''file-append'' (Some ''FORMAT=PATH'') (returning (file_append E K)) file_opts st;
     opts_add ''file-append-read'' (Some ''FORMAT=PATH'') (returning (file_append_read E K)) file_opts st
   }"

fun file_del_all ::
    "'j env \<Rightarrow> 'k file_kernel_scheme \<Rightarrow> file_conn list \<Rightarrow> 'a file_state_scheme \<Rightarrow> 'a file_state_scheme option" where
  "file_del_all E K [] w = Some w"
| "file_del_all E K (fl # fls) w = do {
     w \<leftarrow> file_del E K (fl_addr fl) w;
     file_del_all E K fls w
   }"

definition file_cleanup ::
    "'j env \<Rightarrow> 'k file_kernel_scheme \<Rightarrow> 'a file_state_scheme \<Rightarrow> 'a file_state_scheme option" where
  "file_cleanup E K w = file_del_all E K (file_head w) w"

section \<open>Invariant\<close>

definition file_ok :: "file_conn \<Rightarrow> bool" where
  "file_ok fl \<longleftrightarrow> flow_pass_ok (fl_flow fl) (fl_pass fl) \<and> (fl_handler fl = Some File_handle_close \<longrightarrow> fl_attempt fl = 0)"

definition file_inv :: "'a file_state_scheme \<Rightarrow> bool" where
  "file_inv w \<longleftrightarrow> distinct (map fl_addr (file_head w)) \<and> (\<forall>fl \<in> set (file_head w). fl_addr fl < next_addr w \<and> file_ok fl)"

text \<open>
  A file is live once its event handler has been set. It expects the end of a connection in the
  state \<open>File_handle_close\<close> and a wakeup in the state \<open>File_open_wrapper\<close>.
\<close>

definition file_addrs :: "'a file_state_scheme \<Rightarrow> nat set" where
  "file_addrs w = fl_addr ` set (file_head w)"

definition file_live :: "'a file_state_scheme \<Rightarrow> nat set" where
  "file_live w = fl_addr ` {fl \<in> set (file_head w). fl_handler fl \<noteq> None}"

definition file_shut :: "'a file_state_scheme \<Rightarrow> nat set" where
  "file_shut w = fl_addr ` {fl \<in> set (file_head w). fl_handler fl = Some File_handle_close}"

definition file_tries :: "'a file_state_scheme \<Rightarrow> nat" where
  "file_tries w = Max (insert 0 ((\<lambda>fl. unat (fl_attempt fl)) ` set (file_head w)))"

text \<open>
  The invariant of the connections and the files, whatever transports of other kinds there are. A file
  is never registered with the kernel itself.
\<close>

abbreviation file_sys :: "others \<Rightarrow> nat option \<Rightarrow> 'a file_state_scheme \<Rightarrow> bool" where
  "file_sys \<equiv> kind_sys file_live file_shut (\<lambda>_. {}) file_addrs file_inv"

lemmas file_sysD = kind_sysD [where ready = "\<lambda>_. {}" and kinv = file_inv]

lemma file_find_eq: "file_inv w \<Longrightarrow> fl \<in> set (file_head w) \<Longrightarrow> file_find (fl_addr fl) w = Some fl"
  using find_distinct_addr [of fl_addr "file_head w" fl] by (simp add: file_inv_def file_find_def)

lemma file_tries_le: "fl \<in> set (file_head w) \<Longrightarrow> unat (fl_attempt fl) \<le> file_tries w"
  unfolding file_tries_def by (rule Max_ge) auto

lemma file_tries_leI: "(\<And>fl. fl \<in> set (file_head w) \<Longrightarrow> unat (fl_attempt fl) \<le> n) \<Longrightarrow> file_tries w \<le> n"
  unfolding file_tries_def by (subst Max_le_iff) auto

lemma more_file:
  fixes w w' :: "'a file_state_scheme"
  assumes "sr_state.more w' = sr_state.more w"
  shows "file_head w' = file_head w" and "file_state.more w' = file_state.more w"
  using assms by (cases w; cases w'; simp)+

lemma file_more_frame:
  fixes w w' :: "'a file_state_scheme"
  assumes "sr_state.more w' = sr_state.more w"
  shows "file_live w' = file_live w \<and> file_shut w' = file_shut w \<and> file_addrs w' = file_addrs w \<and> file_tries w' = file_tries w"
  by (simp add: file_live_def file_shut_def file_addrs_def file_tries_def more_file(1) [OF assms])

lemma file_inv_tp:
  fixes w w' :: "'a file_state_scheme"
  assumes "file_inv w" and "tp_frame w w'"
  shows "file_inv w'"
proof -
  have "file_head w' = file_head w" "next_addr w \<le> next_addr w'"
    using assms(2) more_file [of w' w] by (simp_all add: tp_frame_def)
  then show ?thesis using assms(1) by (auto simp: file_inv_def intro: less_le_trans)
qed

interpretation file_k: kind_sets file_live file_shut "\<lambda>_. {}" file_addrs file_inv file_tries
proof
  fix w w' :: "'a file_state_scheme"
  show "file_live w \<subseteq> file_addrs w" "file_shut w \<subseteq> file_live w" "{} \<subseteq> file_addrs w"
    by (auto simp: file_live_def file_shut_def file_addrs_def)
  show "t < next_addr w" if "file_inv w" "t \<in> file_addrs w" for t
    using that by (auto simp: file_inv_def file_addrs_def)
qed (use file_more_frame file_inv_tp in blast)+

text \<open>
  What a step of a file leaves alone: the connections, wakeups and registrations of others, and
  the state of other transports.
\<close>

definition file_kept :: "'a file_state_scheme \<Rightarrow> 'a file_state_scheme \<Rightarrow> bool" where
  "file_kept w w' \<longleftrightarrow> file_state.more w' = file_state.more w \<and> next_addr w \<le> next_addr w' \<and> call_frame w w' \<and>
     (\<forall>g t. epoll_set w' g = Some (Peer_transport t) \<longleftrightarrow> epoll_set w g = Some (Peer_transport t)) \<and>
     (\<forall>t. Peer_transport t \<in> set (peer_always_trigger_head w') \<longrightarrow> Peer_transport t \<in> set (peer_always_trigger_head w))"

lemma file_kept_trans: "file_kept u v \<Longrightarrow> file_kept v w \<Longrightarrow> file_kept u w"
  unfolding file_kept_def using call_frame_trans [of u v w] by auto

lemma file_keptI:
  fixes w w' :: "'a file_state_scheme"
  assumes "t_frame w w'" and "call_frame w w'"
  shows "file_kept w w'"
  using assms more_file(2) [of w' w] by (simp add: file_kept_def t_frame_def)

text \<open>A step of the connections, as the files see it.\<close>

lemma file_sys_step:
  fixes w w' :: "'a file_state_scheme"
  assumes sys: "file_sys oth f w" and inv: "conn_inv (\<lambda>_. 0) f w'" and fr: "t_frame w w'"
    and o: "\<And>t. Some (Peer_transport t) \<in># owners f w' \<Longrightarrow> t \<in> file_live w \<or> Some (Peer_transport t) \<in># owners f w"
      "\<And>t. Some (Peer_transport t) \<in># conn_owners w' \<Longrightarrow> t \<in> file_shut w \<or> Some (Peer_transport t) \<in># conn_owners w"
  shows "file_sys oth f w'" and "file_head w' = file_head w"
proof -
  show "file_sys oth f w'" by (rule file_k.step [OF sys inv fr]) (use o in auto)
  show "file_head w' = file_head w" using more_file(1) [of w' w] fr by (simp add: t_frame_def)
qed

lemma file_sys_same:
  fixes w w' :: "'a file_state_scheme"
  assumes sys: "file_sys oth f w" and inv: "conn_inv (\<lambda>_. 0) f w'" and fr: "t_frame w w'"
    and o: "owners f w' = owners f w" "wakeup_head w' = wakeup_head w"
  shows "file_sys oth f w'" and "file_head w' = file_head w"
proof -
  show "file_sys oth f w'" by (rule file_k.step_same [OF assms])
  show "file_head w' = file_head w" using more_file(1) [of w' w] fr by (simp add: t_frame_def)
qed

lemma file_store_sys:
  fixes w :: "'a file_state_scheme"
  assumes sys: "file_sys oth f w" and fl: "fl \<in> set (file_head w)"
    and own: "Some (Peer_transport (fl_addr fl)) \<notin># owners f w"
    and fl': "fl_addr fl' = fl_addr fl" "file_ok fl'" "fl_handler fl' \<noteq> None"
  defines "w' \<equiv> file_store fl' w"
  shows "file_sys oth f w'" and "file_kept w w'" and "owners f w' = owners f w" and "conn_owners w' = conn_owners w"
    and "fl' \<in> set (file_head w')" and "fl_addr fl \<in> file_live w'"
    and "fl_handler fl' = Some File_handle_close \<Longrightarrow> fl_addr fl \<in> file_shut w'"
    and "file_tries w' \<le> max (file_tries w) (unat (fl_attempt fl'))"
    and "peer_always_trigger_head w' = peer_always_trigger_head w"
proof -
  note inv = file_sysD(1) [OF sys] and fi = file_sysD(2) [OF sys]
  have maps: "map fl_addr (file_head w') = map fl_addr (file_head w)"
    by (auto simp: w'_def file_store_def fl'(1))
  have "\<forall>q \<in> set (file_head w'). fl_addr q < next_addr w \<and> file_ok q"
    using fi fl fl' by (auto simp: file_inv_def w'_def file_store_def)
  moreover have ad: "fl_addr ` set (file_head w') = fl_addr ` set (file_head w)" using arg_cong [OF maps, of set] by simp
  ultimately have fi': "file_inv w'" using fi unfolding file_inv_def maps ad by (simp add: w'_def file_store_def)
  have ci: "conn_inv (\<lambda>_. 0) f w'" "owners f w' = owners f w"
    using conn_inv_same [OF inv, of w'] conn_inv_rand [OF inv] by (simp_all add: w'_def file_store_def)
  have other: "q \<in> set (file_head w')" if "q \<in> set (file_head w)" "fl_addr q \<noteq> fl_addr fl" for q
    using that fl'(1) by (force simp: w'_def file_store_def)
  show in': "fl' \<in> set (file_head w')" using fl fl'(1) by (auto simp: w'_def file_store_def)
  show "fl_addr fl \<in> file_live w'"
    unfolding file_live_def by (rule image_eqI [of _ _ fl']) (use in' fl'(1,3) in simp_all)
  show "fl_addr fl \<in> file_shut w'" if "fl_handler fl' = Some File_handle_close"
    unfolding file_shut_def by (rule image_eqI [of _ _ fl']) (use in' fl'(1) that in simp_all)
  have sub: "file_live w - {fl_addr fl} \<subseteq> file_live w'" "file_shut w - {fl_addr fl} \<subseteq> file_shut w'"
    using other by (auto simp: file_live_def file_shut_def)
  have oa: "fl_addr fl \<notin> o_addrs oth" using file_sysD(3) [OF sys] fl by (auto simp: file_addrs_def)
  have aa: "file_addrs w' \<subseteq> insert (fl_addr fl) (file_addrs w)" by (auto simp: file_addrs_def ad)
  note st = file_k.step_heads [OF sys ci(1) fi' ci(2) _ _ _ own oa sub _ _ aa]
  show "file_sys oth f w'"
    by (rule st(1)) (use oa file_sysD(5,8) [OF sys] in \<open>auto simp: w'_def file_store_def\<close>)
  show "conn_owners w' = conn_owners w"
    by (rule st(2)) (use oa file_sysD(5,8) [OF sys] in \<open>auto simp: w'_def file_store_def\<close>)
  show "owners f w' = owners f w" by (rule ci(2))
  have "peer_fds w' p = peer_fds w p" for p by (rule peer_fds_cong) (simp_all add: w'_def file_store_def)
  then have "call_frame w w'"
    by (simp add: call_frame_def shut_frame_def fds_kept_def) (simp add: w'_def file_store_def)
  then show "file_kept w w'" by (simp add: file_kept_def) (simp add: w'_def file_store_def)
  show "file_tries w' \<le> max (file_tries w) (unat (fl_attempt fl'))"
  proof (rule file_tries_leI)
    fix q
    assume "q \<in> set (file_head w')"
    then consider "q = fl'" | "q \<in> set (file_head w)" by (auto simp: w'_def file_store_def split: if_splits)
    then show "unat (fl_attempt q) \<le> max (file_tries w) (unat (fl_attempt fl'))"
      by cases (auto dest: file_tries_le)
  qed
  show "peer_always_trigger_head w' = peer_always_trigger_head w" by (simp add: w'_def file_store_def)
qed

section \<open>The operations keep the invariant\<close>

lemma file_retry_spec:
  fixes w :: "'a file_state_scheme"
  assumes K: "kernel_ok K" and sys: "file_sys oth f w" and fl: "fl \<in> set (file_head w)"
    and own: "Some (Peer_transport (fl_addr fl)) \<notin># owners f w"
  shows "case file_retry E K (fl_addr fl) w of
      None \<Rightarrow> 20 < unat (fl_attempt fl)
    | Some w' \<Rightarrow> file_sys oth f w' \<and> file_kept w w' \<and> fl_addr fl \<in> file_live w' \<and>
        file_tries w' \<le> max (file_tries w) (Suc (unat (fl_attempt fl))) \<and>
        peer_always_trigger_head w' = peer_always_trigger_head w"
proof -
  note fi = file_sysD(2) [OF sys]
  define fl' where "fl' = fl\<lparr>fl_attempt := fl_attempt fl + 1, fl_handler := Some File_open_wrapper\<rparr>"
  have fl': "fl_addr fl' = fl_addr fl" "file_ok fl'" "fl_handler fl' \<noteq> None"
    using fi fl by (auto simp: fl'_def file_inv_def file_ok_def)
  have att: "unat (fl_attempt fl') \<le> Suc (unat (fl_attempt fl))"
    by (simp add: fl'_def unat_word_ariths)
  define v where "v = file_store fl' w"
  note st = file_store_sys [OF sys fl own fl', folded v_def]
  have v: "conn_inv (\<lambda>_. 0) f v" "rnd v = rnd w" using file_sysD(1) [OF st(1)] by (simp_all add: v_def file_store_def)
  have own': "Some (Peer_transport (fl_addr fl)) \<notin># owners f v" using own st(3) by simp
  have eq: "file_retry E K (fl_addr fl) w =
      (case wakeup_get_retry_delay_ms (env_entropy E) (fl_attempt fl) (rnd v) of
         None \<Rightarrow> None
       | Some (delay, rs) \<Rightarrow>
           wakeup_add (new_fd K v) (k_timer_stat K) (Peer_transport (fl_addr fl)) delay (v\<lparr>rnd := rs\<rparr>))"
    using file_find_eq [OF fi fl]
    by (simp add: file_retry_def fl'_def [symmetric] v_def [symmetric] v(2) Let_def split: option.split prod.split)
  note ra = retry_asked [OF K v(1) own', where src = "env_entropy E" and attempt = "fl_attempt fl" and st = "k_timer_stat K"]
  show ?thesis
  proof (cases "wakeup_get_retry_delay_ms (env_entropy E) (fl_attempt fl) (rnd v)")
    case None
    then show ?thesis using ra by (simp add: eq)
  next
    case (Some p)
    obtain delay rs where p: "p = (delay, rs)" by (cases p)
    from ra Some p obtain w' where
      w': "wakeup_add (new_fd K v) (k_timer_stat K) (Peer_transport (fl_addr fl)) delay (v\<lparr>rnd := rs\<rparr>) = Some w'"
      "conn_inv (\<lambda>_. 0) f w'" "owners f w' = add_mset (Some (Peer_transport (fl_addr fl))) (owners f v)"
      "conn_owners w' = conn_owners v" "t_frame v w'" "call_frame v w'"
      "peer_always_trigger_head w' = peer_always_trigger_head v"
      by auto
    have own: "\<And>t. Some (Peer_transport t) \<in># owners f w' \<Longrightarrow> t \<in> file_live v \<or> Some (Peer_transport t) \<in># owners f v"
      "\<And>t. Some (Peer_transport t) \<in># conn_owners w' \<Longrightarrow> t \<in> file_shut v \<or> Some (Peer_transport t) \<in># conn_owners v"
      using st(6) w'(3,4) by auto
    note fin = file_sys_step [OF st(1) w'(2,5) own]
    have more: "file_live w' = file_live v" "file_tries w' = file_tries v" using file_more_frame [of w' v] w'(5)
      by (simp_all add: t_frame_def)
    have "file_tries w' \<le> max (file_tries w) (Suc (unat (fl_attempt fl)))" using st(8) att more(2) by linarith
    then show ?thesis
      using Some p w'(1,7) st(6,9) fin(1) file_kept_trans [OF st(2) file_keptI [OF w'(5,6)]]
      by (simp add: eq more(1))
  qed
qed

lemma file_should_retry_some:
  assumes "kernel_ok K" and "finite (dom (fds w))" and "fds w fd = Some info"
  shows "file_should_retry K fd fl w = Some (fd_pollable info)"
  using new_fd_fresh [OF assms(1,2)] assms(3) by (simp add: file_should_retry_def O_RDONLY_def)

lemma file_open_spec:
  fixes w :: "'a file_state_scheme"
  assumes K: "kernel_ok K" and sys: "file_sys oth f w" and fl: "fl \<in> set (file_head w)"
    and own: "Some (Peer_transport (fl_addr fl)) \<notin># owners f w"
  shows "case file_open E K (fl_addr fl) w of
      None \<Rightarrow> 20 < unat (fl_attempt fl)
    | Some w' \<Rightarrow> file_sys oth f w' \<and> file_kept w w' \<and> fl_addr fl \<in> file_live w' \<and> file_tries w' \<le> Suc (file_tries w)"
proof -
  let ?a = "fl_addr fl"
  note inv = file_sysD(1) [OF sys] and fi = file_sysD(2) [OF sys]
  define v where "v = w\<lparr>tick := Suc (tick w)\<rparr>"
  have v: "conn_inv (\<lambda>_. 0) f v" "owners f v = owners f w" "conn_frame w v"
    using conn_inv_same [OF inv, of v] conn_inv_rand [OF inv] by (simp_all add: v_def conn_frameI t_frame_def)
  have vf: "t_frame w v" "wakeup_head v = wakeup_head w" using v(3) by (simp_all add: conn_frame_def)
  note vs = file_sys_same [OF sys v(1) vf(1) v(2) vf(2)]
  have vk: "file_kept w v" by (rule file_keptI [OF vf(1) call_frameI [OF v(3)]])
  have tries_v: "file_tries v = file_tries w" by (simp add: file_tries_def vs(2))
  have tries_fl: "unat (fl_attempt fl) \<le> file_tries w" by (rule file_tries_le [OF fl])
  have find: "file_find ?a w = Some fl" by (rule file_find_eq [OF fi fl])
  define opened where "opened = k_open K (tick w) (fl_path fl) (fl_flags fl OR O_CLOEXEC OR O_NOCTTY)"
  show ?thesis
  proof (cases opened)
    case None
    then have eq: "file_open E K ?a w = file_retry E K ?a v"
      by (simp add: file_open_def find opened_def [symmetric] v_def [symmetric] Let_def)
    have flv: "fl \<in> set (file_head v)" using fl by (simp add: vs(2))
    have ownv: "Some (Peer_transport ?a) \<notin># owners f v" using own by (simp add: v(2))
    from file_retry_spec [OF K vs(1) flv ownv, of E] show ?thesis
      unfolding eq tries_v using file_kept_trans [OF vk] tries_fl by (auto split: option.splits)
  next
    case (Some info)
    define fd where "fd = new_fd K v"
    have fin: "finite (dom (fds v))" using v(1) by (simp add: conn_inv_def)
    note fr = new_fd_fresh [OF K fin, folded fd_def]
    define x where "x = v\<lparr>fds := (fds v)(fd \<mapsto> info)\<rparr>"
    note x = conn_inv_opened [OF v(1) fr, of info, folded x_def]
    have xf: "t_frame v x" "wakeup_head x = wakeup_head v" "conn_frame v x"
      by (simp_all add: x_def t_frame_def conn_frameI)
    note xs = file_sys_same [OF vs(1) x(1) xf(1) x(2) xf(2)]
    have xk: "file_kept v x" by (rule file_keptI [OF xf(1) call_frameI [OF xf(3)]])
    define fl1 where "fl1 = fl\<lparr>fl_retry := fd_pollable info, fl_handler := Some File_handle_close, fl_attempt := 0\<rparr>"
    have fl1: "fl_addr fl1 = ?a" "file_ok fl1" "fl_handler fl1 \<noteq> None" "fl_attempt fl1 = 0"
        "fl_handler fl1 = Some File_handle_close"
      and ok: "flow_pass_ok (fl_flow fl) (fl_pass fl)"
      using fi fl by (auto simp: fl1_def file_inv_def file_ok_def)
    define y where "y = file_store fl1 x"
    have flx: "fl \<in> set (file_head x)" using fl by (simp add: xs(2) vs(2))
    have ownx: "Some (Peer_transport ?a) \<notin># owners f x" using own by (simp add: x(2) v(2))
    note y = file_store_sys [OF xs(1) flx ownx fl1(1-3), folded y_def]
    note yi = file_sysD(1) [OF y(1)]
    have yfd: "fd_unused fd y"
      using x(3) by (simp add: fd_unused_def fd_free_def fd_fresh_def y_def file_store_def all_sends_def)
    have yo: "owners f y = owners f w" using y(3) x(2) v(2) by simp
    have free: "owner_free f (Some (Peer_transport ?a)) y" using own by (simp add: owner_free_def yo)
    from handed_over [OF K yi yfd ok free, of E] obtain ok z where
      z: "flow_new_send_hello E fd (the_flow E K (fl_flow fl)) (fl_pass fl) (Some (Peer_transport ?a)) y = Some (ok, z)"
        "conn_inv (\<lambda>_. 0) f z" "conn_frame y z"
        "if ok then made f y (Some (Peer_transport ?a)) z else owners f z = owners f y"
      by blast
    have zf: "t_frame y z" "wakeup_head z = wakeup_head y" using z(3) by (simp_all add: conn_frame_def)
    have zk: "file_kept y z" by (rule file_keptI [OF zf(1) call_frameI [OF z(3)]])
    have kept: "file_kept w z"
      by (rule file_kept_trans [OF file_kept_trans [OF vk xk] file_kept_trans [OF y(2) zk]])
    have "conn_owners z = conn_owners y \<or> ok"
      using z(4) owners_add_conn [of f z "{#}" y] zf(2) by auto
    then have co: "Some (Peer_transport t) \<in># conn_owners z \<Longrightarrow> t = ?a \<or> Some (Peer_transport t) \<in># conn_owners y" for t
      using z(4) by (auto simp: made_def split: if_splits)
    have own': "\<And>t. Some (Peer_transport t) \<in># owners f z \<Longrightarrow> t \<in> file_live y \<or> Some (Peer_transport t) \<in># owners f y"
      "\<And>t. Some (Peer_transport t) \<in># conn_owners z \<Longrightarrow> t \<in> file_shut y \<or> Some (Peer_transport t) \<in># conn_owners y"
      using co y(7) [OF fl1(5)] y(6) by (auto simp: owners_def zf(2))
    note zs = file_sys_step [OF y(1) z(2) zf(1) own']
    have live: "?a \<in> file_live z" using y(6) by (simp add: file_live_def zs(2))
    have tries: "file_tries z \<le> file_tries w"
      using y(8) by (simp add: fl1(4)) (simp add: file_tries_def zs(2) xs(2) vs(2))
    have "finite (dom (fds x))" using x(1) by (simp add: conn_inv_def)
    then have retry: "file_should_retry K fd fl x = Some (fd_pollable info)"
      by (rule file_should_retry_some [OF K]) (simp add: x_def)
    have eq: "file_open E K ?a w = (if ok then Some z else file_retry E K ?a z)"
      using Some retry z(1)
      by (simp add: file_open_def find opened_def [symmetric] v_def [symmetric] fd_def [symmetric] x_def [symmetric]
          fl1_def [symmetric] y_def [symmetric] Let_def)
    show ?thesis
    proof (cases ok)
      case True
      then show ?thesis using eq kept live tries zs(1) by simp
    next
      case False
      have flz: "fl1 \<in> set (file_head z)" using y(5) by (simp add: zs(2))
      have "Some (Peer_transport (fl_addr fl1)) \<notin># owners f z" using own False z(4) yo by (simp add: fl1(1))
      from file_retry_spec [OF K zs(1) flz this, of E] False show ?thesis
        unfolding eq fl1(1,4) using file_kept_trans [OF kept] tries by (auto split: option.splits)
    qed
  qed
qed

lemma file_del_spec:
  fixes w :: "'a file_state_scheme"
  assumes sys: "file_sys oth f w" and fl: "fl \<in> set (file_head w)"
    and own: "Some (Peer_transport (fl_addr fl)) \<notin># owners f w"
  shows "\<exists>w'. file_del E K (fl_addr fl) w = Some w' \<and> file_sys oth f w' \<and> file_kept w w' \<and>
    file_tries w' \<le> file_tries w \<and> peer_always_trigger_head w' = peer_always_trigger_head w \<and>
    file_head w' = filter (\<lambda>q. fl_addr q \<noteq> fl_addr fl) (file_head w)"
proof -
  note inv = file_sysD(1) [OF sys] and fi = file_sysD(2) [OF sys]
  define v where "v = flow_ref_dec (the_flow E K (fl_flow fl)) w"
  note c = conn_inv_counted [OF inv, of E K "fl_flow fl" "\<lambda>n. n - 1", folded flow_ref_dec_def, folded v_def]
  have vf: "t_frame w v" "wakeup_head v = wakeup_head w" using c(3) by (simp_all add: conn_frame_def)
  note vs = file_sys_same [OF sys c(1) vf(1) c(2) vf(2)]
  have val: "peer_always_trigger_head v = peer_always_trigger_head w"
    by (cases "fl_flow fl")
      (simp_all add: v_def flow_ref_dec_def the_flow_def receive_flow_def send_flow_def send_receive_flow_def)
  define w' where "w' = v\<lparr>file_head := filter (\<lambda>q. fl_addr q \<noteq> fl_addr fl) (file_head v)\<rparr>"
  have del: "file_del E K (fl_addr fl) w = Some w'"
    using file_find_eq [OF fi fl] by (simp add: file_del_def v_def [symmetric] w'_def)
  have ci: "conn_inv (\<lambda>_. 0) f w'" "owners f w' = owners f v"
    using conn_inv_same [OF c(1), of w'] conn_inv_rand [OF c(1)] by (simp_all add: w'_def)
  have fi': "file_inv w'"
    using file_sysD(2) [OF vs(1)] by (auto simp: file_inv_def w'_def intro: distinct_map_filter)
  have sub: "file_live v - {fl_addr fl} \<subseteq> file_live w'" "file_shut v - {fl_addr fl} \<subseteq> file_shut w'"
    by (auto simp: file_live_def file_shut_def w'_def)
  have ownv: "Some (Peer_transport (fl_addr fl)) \<notin># owners f v" using own c(2) by simp
  have oa: "fl_addr fl \<notin> o_addrs oth" using file_sysD(3) [OF sys] fl by (auto simp: file_addrs_def)
  have aa: "file_addrs w' \<subseteq> insert (fl_addr fl) (file_addrs v)" by (auto simp: file_addrs_def w'_def)
  have sys': "file_sys oth f w'"
    by (rule file_k.step_heads(1) [OF vs(1) ci(1) fi' ci(2) _ _ _ ownv oa sub _ _ aa])
      (use oa file_sysD(5,8) [OF vs(1)] in \<open>auto simp: w'_def\<close>)
  have "peer_fds w' p = peer_fds v p" for p by (rule peer_fds_cong) (simp_all add: w'_def)
  then have "call_frame v w'" by (simp add: call_frame_def shut_frame_def fds_kept_def) (simp add: w'_def)
  then have k: "file_kept v w'" by (simp add: file_kept_def) (simp add: w'_def)
  have kept: "file_kept w w'" by (rule file_kept_trans [OF file_keptI [OF vf(1) call_frameI [OF c(3)]] k])
  have tries: "file_tries w' \<le> file_tries w"
    by (rule file_tries_leI) (auto simp: w'_def vs(2) intro: file_tries_le)
  have "peer_always_trigger_head w' = peer_always_trigger_head w"
    "file_head w' = filter (\<lambda>q. fl_addr q \<noteq> fl_addr fl) (file_head w)"
    by (simp_all add: w'_def val vs(2))
  with del sys' kept tries show ?thesis by blast
qed

lemma file_handle_close_spec:
  fixes w :: "'a file_state_scheme"
  assumes K: "kernel_ok K" and sys: "file_sys oth f w" and fl: "fl \<in> set (file_head w)"
    and h: "fl_handler fl = Some File_handle_close" and own: "Some (Peer_transport (fl_addr fl)) \<notin># owners f w"
  shows "\<exists>w'. file_handle_close E K (fl_addr fl) w = Some w' \<and> file_sys oth f w' \<and> file_kept w w' \<and>
    file_tries w' \<le> max 1 (file_tries w) \<and> peer_always_trigger_head w' = peer_always_trigger_head w \<and>
    (if fl_retry fl then fl_addr fl \<in> file_live w'
     else file_head w' = filter (\<lambda>q. fl_addr q \<noteq> fl_addr fl) (file_head w))"
proof -
  note fi = file_sysD(2) [OF sys]
  have att: "fl_attempt fl = 0" using fi fl h by (auto simp: file_inv_def file_ok_def)
  note find = file_find_eq [OF fi fl]
  show ?thesis
  proof (cases "fl_retry fl")
    case True
    then have "file_handle_close E K (fl_addr fl) w = file_retry E K (fl_addr fl) w"
      by (simp add: file_handle_close_def find)
    with file_retry_spec [OF K sys fl own, of E] att True show ?thesis
      by (auto split: option.splits)
  next
    case False
    then have "file_handle_close E K (fl_addr fl) w = file_del E K (fl_addr fl) w"
      by (simp add: file_handle_close_def find)
    with file_del_spec [OF sys fl own, of E K] False show ?thesis by auto
  qed
qed

text \<open>Both handlers of a file satisfy the contract of a transport.\<close>

lemma file_event_returns:
  fixes w :: "'a file_state_scheme"
  assumes K: "kernel_ok K" and sys: "file_sys oth f w" and t: "t \<in> file_live w"
    and own: "Some (Peer_transport t) \<notin># owners f w"
  shows "case file_event E K t w of
      None \<Rightarrow> t \<notin> file_shut w \<and> 20 < file_tries w
    | Some w' \<Rightarrow> file_sys oth f w' \<and> file_kept w w' \<and> file_tries w' \<le> Suc (file_tries w) \<and>
        (t \<in> file_shut w \<longrightarrow> peer_always_trigger_head w' = peer_always_trigger_head w \<and>
           file_tries w' \<le> max 1 (file_tries w))"
proof -
  note fi = file_sysD(2) [OF sys]
  from t obtain fl h where fl: "fl \<in> set (file_head w)" "fl_addr fl = t" "fl_handler fl = Some h"
    by (auto simp: file_live_def)
  have find: "file_find t w = Some fl" using file_find_eq [OF fi fl(1)] fl(2) by simp
  have own': "Some (Peer_transport (fl_addr fl)) \<notin># owners f w" using own fl(2) by simp
  show ?thesis
  proof (cases h)
    case File_open_wrapper
    have inj: "inj_on fl_addr (set (file_head w))" using fi by (simp add: file_inv_def distinct_map)
    have "q = fl" if "q \<in> set (file_head w)" "fl_addr q = t" for q
      using inj_onD [OF inj _ that(1) fl(1)] that(2) fl(2) by simp
    then have "t \<notin> file_shut w" using fl(3) File_open_wrapper by (auto simp: file_shut_def)
    moreover have "file_event E K t w = file_open E K t w" using find fl(3) File_open_wrapper by (simp add: file_event_def)
    moreover note file_open_spec [OF K sys fl(1) own', of E, unfolded fl(2)] file_tries_le [OF fl(1)]
    ultimately show ?thesis by (cases "file_open E K t w") simp_all
  next
    case File_handle_close
    then have "file_event E K t w = file_handle_close E K t w" using find fl(3) by (simp add: file_event_def)
    moreover have "fl_handler fl = Some File_handle_close" using fl(3) File_handle_close by simp
    note file_handle_close_spec [OF K sys fl(1) this own', of E, unfolded fl(2)]
    ultimately show ?thesis by (elim exE conjE) simp
  qed
qed

lemma file_sys_alone:
  "kind_sys file_live file_shut (\<lambda>_. {}) file_addrs (\<lambda>w. kernel_ok K \<and> file_inv w) oth f w \<longleftrightarrow> kernel_ok K \<and> file_sys oth f w"
  by (auto simp: kind_sys_def sys_inv_def)

interpretation files: kind file_live file_shut "\<lambda>_. {}" file_addrs "\<lambda>w. kernel_ok K \<and> file_inv w" file_tries
  "file_event E K" file_kept for E K
proof
  fix oth f and w :: "'a file_state_scheme" and t
  assume a: "kind_sys file_live file_shut (\<lambda>_. {}) file_addrs (\<lambda>w. kernel_ok K \<and> file_inv w) oth f w" "t \<in> file_live w"
    "Some (Peer_transport t) \<notin># owners f w"
  then have "kernel_ok K" "file_sys oth f w" by (simp_all add: file_sys_alone)
  from file_event_returns [OF this a(2,3), of E] \<open>kernel_ok K\<close> show "case file_event E K t w of
      None \<Rightarrow> t \<notin> file_shut w \<and> 20 < file_tries w
    | Some w' \<Rightarrow> kind_sys file_live file_shut (\<lambda>_. {}) file_addrs (\<lambda>w. kernel_ok K \<and> file_inv w) oth f w' \<and>
        file_kept w w' \<and> call_frame w w' \<and> {} - {t} \<subseteq> {} \<and> file_tries w' \<le> Suc (file_tries w) \<and>
        (t \<in> file_shut w \<longrightarrow> peer_always_trigger_head w' = peer_always_trigger_head w \<and>
           file_tries w' \<le> max 2 (file_tries w))"
    unfolding file_sys_alone by (auto simp: file_kept_def split: option.splits)
qed (use file_k.more_frame file_k.inv_tp file_k.live_addrs file_k.shut_live file_k.addrs_old in blast)+

section \<open>New files and the end\<close>

text \<open>The structure of a new file before it is opened: it is not live yet.\<close>

lemma file_linked_sys:
  fixes w :: "'a file_state_scheme"
  assumes sys: "file_sys oth f w" and rs: "rand_ok rs" and fl: "fl_addr fl = next_addr w" "fl_handler fl = None" "file_ok fl"
  defines "w' \<equiv> w\<lparr>next_addr := next_addr w + 1, rnd := rs, file_head := file_head w @ [fl]\<rparr>"
  shows "file_sys oth f w'" and "file_kept w w'" and "owners f w' = owners f w" and "fl \<in> set (file_head w')"
    and "Some (Peer_transport (next_addr w)) \<notin># owners f w"
proof -
  note d = file_sysD [OF sys]
  note inv = d(1) and fi = d(2)
  have ci: "conn_inv (\<lambda>_. 0) f w'" "owners f w' = owners f w"
    using conn_inv_same [OF inv, of w'] rs by (simp_all add: w'_def)
  have fi': "file_inv w'" using fi fl(1,3) by (auto simp: file_inv_def w'_def)
  have sub: "file_live w \<subseteq> file_live w'" "file_shut w \<subseteq> file_shut w'"
    by (auto simp: file_live_def file_shut_def w'_def)
  show own: "Some (Peer_transport (next_addr w)) \<notin># owners f w" by (rule file_k.new_addr_free(3) [OF sys])
  have oa: "next_addr w \<notin> o_addrs oth" by (rule file_k.new_addr_free(2) [OF sys])
  have aa: "file_addrs w' \<subseteq> insert (next_addr w) (file_addrs w)" by (auto simp: file_addrs_def w'_def fl(1))
  have sub': "file_live w - {next_addr w} \<subseteq> file_live w'" "file_shut w - {next_addr w} \<subseteq> file_shut w'" using sub by blast+
  show "file_sys oth f w'"
    by (rule file_k.step_heads(1) [OF sys ci(1) fi' ci(2) _ _ _ own oa sub' _ _ aa])
      (use oa d(5,8) in \<open>auto simp: w'_def\<close>)
  show "owners f w' = owners f w" by (rule ci(2))
  have "peer_fds w' p = peer_fds w p" for p by (rule peer_fds_cong) (simp_all add: w'_def)
  then have "call_frame w w'" by (simp add: call_frame_def shut_frame_def fds_kept_def) (simp add: w'_def)
  then show "file_kept w w'" by (simp add: file_kept_def) (simp add: w'_def)
  show "fl \<in> set (file_head w')" by (simp add: w'_def)
qed

lemma file_new_spec:
  fixes w :: "'a file_state_scheme"
  assumes K: "kernel_ok K" and sys: "file_sys oth f w" and pass: "flow_pass_ok flow pass"
  shows "\<exists>w'. file_new E K path flags flow pass w = Some w' \<and> file_sys oth f w' \<and> file_kept w w' \<and>
    next_addr w \<in> file_live w'"
proof -
  note inv = file_sysD(1) [OF sys]
  define v where "v = flow_ref_inc (the_flow E K flow) w"
  note c = conn_inv_counted [OF inv, of E K flow "\<lambda>n. n + 1", folded flow_ref_inc_def, folded v_def]
  have vf: "t_frame w v" "wakeup_head v = wakeup_head w" using c(3) by (simp_all add: conn_frame_def)
  note vs = file_sys_same [OF sys c(1) vf(1) c(2) vf(2)]
  have vk: "file_kept w v" by (rule file_keptI [OF vf(1) call_frameI [OF c(3)]])
  from uuid_gen_valid [OF conn_inv_rand [OF c(1)], of "replicate UUID_LEN 0" "env_entropy E"] obtain uid rs where
    u: "uuid_gen (env_entropy E) (rnd v) (replicate UUID_LEN 0) = Some (uid, rs)" "rand_ok rs"
    by (auto simp: UUID_LEN_def)
  define fl where "fl = \<lparr>fl_addr = next_addr v, fl_id = uid, fl_path = path, fl_flags = flags, fl_attempt = 0,
    fl_flow = flow, fl_pass = pass, fl_retry = False, fl_handler = None\<rparr>"
  have fl: "fl_addr fl = next_addr v" "fl_handler fl = None" "file_ok fl"
    using pass by (simp_all add: fl_def file_ok_def)
  define x where "x = v\<lparr>next_addr := next_addr v + 1, rnd := rs, file_head := file_head v @ [fl]\<rparr>"
  note x = file_linked_sys [OF vs(1) u(2) fl, folded x_def]
  have own: "Some (Peer_transport (fl_addr fl)) \<notin># owners f x" using x(3,5) fl(1) by simp
  have eq: "file_new E K path flags flow pass w = file_open E K (next_addr w) x"
    using u(1) c(8) by (simp add: file_new_def Let_def v_def [symmetric] x_def fl_def)
  have "fl_attempt fl = 0" "fl_addr fl = next_addr w" using c(8) by (simp_all add: fl_def)
  with file_open_spec [OF K x(1) x(4) own, of E] show ?thesis
    unfolding eq using file_kept_trans [OF file_kept_trans [OF vk x(2)]] by (auto split: option.splits)
qed

lemma file_del_cleanup:
  assumes "file_find a w = Some fl"
  shows "\<exists>w'. file_del E K a w = Some w' \<and> file_head w' = filter (\<lambda>q. fl_addr q \<noteq> a) (file_head w) \<and>
    fds w' = fds w \<and> epoll_set w' = epoll_set w \<and> receive_head w' = receive_head w \<and> send_heads w' = send_heads w \<and>
    wakeup_head w' = wakeup_head w"
  using assms
  by (cases "fl_flow fl")
    (simp_all add: file_del_def flow_ref_dec_def the_flow_def receive_flow_def send_flow_def send_receive_flow_def Let_def)

lemma file_del_all_empties:
  assumes "distinct (map fl_addr (file_head w))"
  shows "\<exists>w'. file_del_all E K (file_head w) w = Some w' \<and> file_head w' = [] \<and>
    fds w' = fds w \<and> epoll_set w' = epoll_set w \<and> receive_head w' = receive_head w \<and> send_heads w' = send_heads w \<and>
    wakeup_head w' = wakeup_head w"
  using assms
proof (induction "file_head w" arbitrary: w)
  case Nil
  from Nil(1) [symmetric] show ?case by simp
next
  case (Cons fl fls)
  note h = Cons(2) [symmetric]
  have "file_find (fl_addr fl) w = Some fl" by (simp add: file_find_def h)
  from file_del_cleanup [OF this, of E K] obtain v where v: "file_del E K (fl_addr fl) w = Some v"
    "file_head v = filter (\<lambda>q. fl_addr q \<noteq> fl_addr fl) (file_head w)"
    "fds v = fds w" "epoll_set v = epoll_set w" "receive_head v = receive_head w" "send_heads v = send_heads w"
    "wakeup_head v = wakeup_head w" by blast
  have "fl_addr fl \<notin> fl_addr ` set fls" using Cons(3) by (simp add: h)
  then have "fl_addr q \<noteq> fl_addr fl" if "q \<in> set fls" for q using that by (metis imageI)
  then have fv: "file_head v = fls" by (simp add: v(2) h filter_id_conv)
  moreover have "distinct (map fl_addr (file_head v))" using Cons(3) by (simp add: fv h)
  ultimately show ?case using Cons(1) [of v] v by (simp add: h)
qed

section \<open>Properties\<close>

text \<open>
  A descriptor 9 that is free, and a regular file that is being read on descriptor 7 for the file at
  address 3. Output goes to descriptors 5 and 6; signals arrive on descriptor 4.
\<close>

definition sample_file_fds :: "int \<Rightarrow> fd_info option" where
  "sample_file_fds = [4 \<mapsto> \<lparr>fd_pollable = True, fd_stat = \<lparr>st_dev = 0, st_ino = 1\<rparr>\<rparr>,
     5 \<mapsto> \<lparr>fd_pollable = True, fd_stat = \<lparr>st_dev = 1, st_ino = 2\<rparr>\<rparr>,
     6 \<mapsto> \<lparr>fd_pollable = True, fd_stat = \<lparr>st_dev = 1, st_ino = 3\<rparr>\<rparr>,
     7 \<mapsto> \<lparr>fd_pollable = False, fd_stat = \<lparr>st_dev = 1, st_ino = 4\<rparr>\<rparr>]"

definition sample_file :: file_conn where
  "sample_file = \<lparr>fl_addr = 3, fl_id = sample_id, fl_path = ''/dev/adsb'', fl_flags = O_RDONLY, fl_attempt = 0,
     fl_flow = Receive_flow, fl_pass = None, fl_retry = False, fl_handler = Some File_handle_close\<rparr>"

definition sample_files :: "'m \<Rightarrow> 'm file_state_scheme" where
  "sample_files m = \<lparr>peer_count_in = 2, peer_count_out = 2, peer_count_out_in = 0, peer_shutdown_flag = False,
     peer_shutdown_peer = \<lparr>peer_fd = 4, peer_always_trigger = False\<rparr>, peer_always_trigger_head = [Peer_receive 2],
     fds = sample_file_fds, epoll_set = [4 \<mapsto> Peer_shutdown, 5 \<mapsto> Peer_send 0, 6 \<mapsto> Peer_send 1],
     send_heads = [[], [], [], [], [sample_send 0 5 2, sample_send 1 6 3], []],
     stats = stats_init 0, json_hello_buf = BUF_INIT, proto_hello_buf = BUF_INIT,
     rnd = \<lparr>rand_buf = BUF_INIT, rand_pos = 0\<rparr>, next_addr = 4, tick = 0, trace = [],
     receive_head = [sample_receive\<lparr>rx_on_close := Some (Peer_transport 3)\<rparr>], receive_max_hops = 10,
     wakeup_head = [], timers = Map.empty, send_receive_head = [], file_head = [sample_file], \<dots> = m\<rparr>"

abbreviation sample_file_state :: file_state where
  "sample_file_state \<equiv> sample_files ()"

lemma sample_file_receive_ok: "receive_ok (sample_files m)"
proof -
  have "send_ok (sample_files m)"
    using sample_id_valid
    by (auto simp: send_ok_def sample_files_def peer_state_ok_def NUM_SERIALIZERS_def all_sends_def
        sample_send_def snd_fd_def peer_registered_def sample_file_fds_def rand_ok_def BUF_INIT_def split: if_splits)
  then show ?thesis
    using sample_rx_ok
    by (auto simp: receive_ok_def sample_files_def sample_receive_def all_sends_def sample_send_def rx_ok_def
        snd_fd_def rx_fd_def peer_registered_def sample_file_fds_def BUF_INIT_def BUF_LEN_MAX_def)
qed

lemma sample_file_reg_inv: "reg_inv (sample_files m)"
proof -
  have e: "g = 4 \<and> p = Peer_shutdown \<or> g = 5 \<and> p = Peer_send 0 \<or> g = 6 \<and> p = Peer_send 1"
    if "epoll_set (sample_files m) g = Some p" for g p
    using that by (simp add: sample_files_def split: if_splits)
  have "sample_send 0 5 2 \<in> set (all_sends (sample_files m))" "sample_send 1 6 3 \<in> set (all_sends (sample_files m))"
    by (simp_all add: sample_files_def all_sends_def)
  then have "snd_fd (sample_send 0 5 2) \<in> peer_fds (sample_files m) (Peer_send (snd_addr (sample_send 0 5 2)))"
    "snd_fd (sample_send 1 6 3) \<in> peer_fds (sample_files m) (Peer_send (snd_addr (sample_send 1 6 3)))"
    unfolding peer_fds_def peer_ref.case by blast+
  then have "5 \<in> peer_fds (sample_files m) (Peer_send 0)" "6 \<in> peer_fds (sample_files m) (Peer_send 1)"
    by (simp_all add: snd_fd_def sample_send_def)
  moreover have "peer_fds (sample_files m) (Peer_receive 2) \<noteq> {}" "peer_fds (sample_files m) Peer_shutdown = UNIV"
    by (simp_all add: peer_fds_def) (simp add: sample_files_def sample_receive_def)
  ultimately show ?thesis using e unfolding reg_inv_def by (auto simp: sample_files_def)
qed

lemma sample_file_sys: "file_sys nobody None (sample_files m)"
proof -
  have w: "wakeup_ok (sample_files m)"
    using sample_file_receive_ok by (simp add: wakeup_ok_def) (simp add: sample_files_def)
  have c: "closers (sample_files m) = {#Some (Peer_transport 3), None, None#}"
    by (simp add: closers_def sample_files_def all_sends_def sample_send_def)
  then have co: "conn_owners (sample_files m) = {#Some (Peer_transport 3), None, None#}"
    unfolding conn_owners_def c by (simp add: sample_files_def)
  have o: "owners None (sample_files m) = {#Some (Peer_transport 3), None, None#}"
    unfolding owners_def co by (simp add: sample_files_def)
  have ci: "conn_inv (\<lambda>_. 0) None (sample_files m)"
    unfolding conn_inv_def c o using w sample_file_reg_inv by (simp add: sample_files_def sample_file_fds_def)
  have fi: "file_inv (sample_files m)" "3 \<in> file_live (sample_files m)" "3 \<in> file_shut (sample_files m)"
    by (simp_all add: file_inv_def file_live_def file_shut_def sample_files_def sample_file_def file_ok_def
        flow_pass_ok_def Collect_conv_if)
  show ?thesis
    by (rule kind_sysI) (use ci fi o co in \<open>auto simp: nobody_def sample_files_def split: if_splits\<close>)
qed

text \<open>
  A new file never stops the program, whether it can be opened or not and whether its greeting can be written:
  the file is live, either open with its end reported to it or waiting for a retry, and the
  invariant of the connections, the wakeups and the files holds.
\<close>

theorem file_new_returns:
  fixes w :: "'a file_state_scheme"
  assumes "kernel_ok K" and "file_sys nobody None w" and "flow_pass_ok flow pass"
  shows "\<exists>w'. file_new E K path flags flow pass w = Some w' \<and> file_sys nobody None w' \<and> next_addr w \<in> file_live w'"
  using file_new_spec [OF assms] by blast

definition sample_file_kernel :: file_kernel where
  "sample_file_kernel = \<lparr>k_new_fd = (\<lambda>t. Max (insert 0 (dom t)) + 1), k_timer_stat = \<lparr>st_dev = 0, st_ino = 0\<rparr>,
     k_socket = k_socket sample_kernel, k_open = (\<lambda>n path flags. None)\<rparr>"

lemma sample_file_kernel_ok: "kernel_ok sample_file_kernel"
  using sample_kernel_ok by (simp add: kernel_ok_def sample_file_kernel_def sample_kernel_def)

theorem file_new_returns_witness:
  "\<exists>w'. file_new sample_env sample_file_kernel ''/dev/x'' O_RDONLY Receive_flow None sample_file_state = Some w' \<and>
    file_sys nobody None w' \<and> next_addr sample_file_state \<in> file_live w'"
  by (rule file_new_returns [OF sample_file_kernel_ok sample_file_sys]) (simp add: flow_pass_ok_def)

text \<open>What a retry does to the file and to the timers.\<close>

lemma wakeup_add_head:
  fixes w :: "'a file_state_scheme"
  assumes "wakeup_add fd st inner delay w = Some w'"
  shows "\<exists>wk. wakeup_head w' = wakeup_head w @ [wk] \<and> wk_inner wk = inner" and "file_head w' = file_head w"
  using assms
  by (auto simp: wakeup_add_def timerfd_create_def timerfd_settime_def peer_epoll_add_def epoll_ctl_add_def Let_def bind_Some_iff
      split: if_splits prod.splits option.splits)

lemma file_retry_exact:
  fixes w :: "'a file_state_scheme"
  assumes "file_retry E K (fl_addr fl) w = Some w'" and "file_find (fl_addr fl) w = Some fl"
  defines "fl' \<equiv> fl\<lparr>fl_attempt := fl_attempt fl + 1, fl_handler := Some File_open_wrapper\<rparr>"
  shows "file_head w' = file_head (file_store fl' w)"
    and "\<exists>wk. wakeup_head w' = wakeup_head w @ [wk] \<and> wk_inner wk = Peer_transport (fl_addr fl)"
proof -
  obtain delay rs fd st where a: "wakeup_add fd st (Peer_transport (fl_addr fl)) delay ((file_store fl' w)\<lparr>rnd := rs\<rparr>) = Some w'"
    using assms(1,2) by (auto simp: file_retry_def fl'_def Let_def bind_Some_iff)
  have "wakeup_head ((file_store fl' w)\<lparr>rnd := rs\<rparr>) = wakeup_head w" by (simp add: file_store_def)
  then show "file_head w' = file_head (file_store fl' w)"
    "\<exists>wk. wakeup_head w' = wakeup_head w @ [wk] \<and> wk_inner wk = Peer_transport (fl_addr fl)"
    using wakeup_add_head [OF a] by simp_all
qed

text \<open>
  C39. When the connection of a file has ended, exactly one of two things happens. If the file is to be opened again, a new timer is armed
  that calls it, its attempt is counted and its handler is the one that opens; otherwise it is removed and no timer is
  made. Every other file stays as it is, neither case stops the program, and both keep the invariant. Whether a file is to be
  opened again was decided when it was opened: for any access mode, if its descriptor can be polled. (The
  comment in \<^verbatim>\<open>file_should_retry\<close> says that only files that are read are decided so.) The kernel gives new descriptors that are not
  in use.
\<close>

theorem file_close_handled:
  fixes w :: "'a file_state_scheme"
  assumes "kernel_ok K" and "file_sys oth f w" and "fl \<in> set (file_head w)"
    and "fl_handler fl = Some File_handle_close" and "Some (Peer_transport (fl_addr fl)) \<notin># owners f w"
  shows "\<exists>w'. file_handle_close E K (fl_addr fl) w = Some w' \<and> file_sys oth f w' \<and>
    (if fl_retry fl
     then file_head w' = map (\<lambda>q. if q = fl then fl\<lparr>fl_attempt := 1, fl_handler := Some File_open_wrapper\<rparr> else q) (file_head w) \<and>
       (\<exists>wk. wakeup_head w' = wakeup_head w @ [wk] \<and> wk_inner wk = Peer_transport (fl_addr fl))
     else file_head w' = filter (\<lambda>q. q \<noteq> fl) (file_head w) \<and> wakeup_head w' = wakeup_head w) \<and>
    (\<forall>flags fd. fds w fd \<noteq> None \<longrightarrow> file_should_retry K fd (fl\<lparr>fl_flags := flags\<rparr>) w = map_option fd_pollable (fds w fd))"
proof -
  note fi = file_sysD(2) [OF assms(2)]
  note find = file_find_eq [OF fi assms(3)]
  from file_handle_close_spec [OF assms, of E] obtain w' where
    w': "file_handle_close E K (fl_addr fl) w = Some w'" "file_sys oth f w'"
      "\<not> fl_retry fl \<Longrightarrow> file_head w' = filter (\<lambda>q. fl_addr q \<noteq> fl_addr fl) (file_head w)" by auto
  have same: "fl_addr q = fl_addr fl \<longleftrightarrow> q = fl" if "q \<in> set (file_head w)" for q
    using fi that assms(3) by (auto simp: file_inv_def distinct_map dest: inj_onD)
  have att: "fl_attempt fl = 0" using fi assms(3,4) by (auto simp: file_inv_def file_ok_def)
  have "fl_retry fl \<Longrightarrow> file_retry E K (fl_addr fl) w = Some w'" using w'(1) find by (simp add: file_handle_close_def)
  note re = file_retry_exact [OF this find]
  have h: "file_head w' = map (\<lambda>q. if q = fl then fl\<lparr>fl_attempt := 1, fl_handler := Some File_open_wrapper\<rparr> else q) (file_head w)"
    if "fl_retry fl" using re(1) [OF that] same att by (simp add: file_store_def)
  have d: "file_head w' = filter (\<lambda>q. q \<noteq> fl) (file_head w)" "wakeup_head w' = wakeup_head w" if "\<not> fl_retry fl"
  proof -
    show "file_head w' = filter (\<lambda>q. q \<noteq> fl) (file_head w)" using w'(3) [OF that] same by (auto intro: filter_cong)
    have "file_del E K (fl_addr fl) w = Some w'" using w'(1) find that by (simp add: file_handle_close_def)
    then show "wakeup_head w' = wakeup_head w"
      using find by (cases "fl_flow fl")
        (auto simp: file_del_def flow_ref_dec_def the_flow_def receive_flow_def send_flow_def send_receive_flow_def)
  qed
  have "finite (dom (fds w))" using file_sysD(1) [OF assms(2)] by (simp add: conn_inv_def)
  then have "0 \<le> new_fd K w" by (rule new_fd_fresh(1) [OF assms(1)])
  then have "file_should_retry K fd (fl\<lparr>fl_flags := flags\<rparr>) w = map_option fd_pollable (fds w fd)" if "fds w fd \<noteq> None" for fd flags
    using that by (auto simp: file_should_retry_def O_RDONLY_def)
  then show ?thesis using w'(1,2) h re(2) d by (intro exI [of _ w']) simp
qed

text \<open>The sample after its connection was unlinked.\<close>

definition sample_file_ended :: file_state where
  "sample_file_ended = receive_unlink (hd (receive_head sample_file_state)) sample_file_state"

lemma sample_file_ended_sys:
  shows "file_sys nobody None sample_file_ended" and "Some (Peer_transport 3) \<notin># owners None sample_file_ended"
proof -
  let ?r = "sample_receive\<lparr>rx_on_close := Some (Peer_transport 3)\<rparr>"
  have u: "sample_file_ended = receive_unlink ?r sample_file_state" "?r \<in> set (receive_head sample_file_state)"
    by (simp_all add: sample_file_ended_def) (simp_all add: sample_files_def)
  have inv: "conn_inv (\<lambda>_. 0) None sample_file_state" by (rule file_sysD(1) [OF sample_file_sys])
  note ui = conn_inv_receive_unlink [OF inv u(2), folded u(1)]
  have ci: "conn_inv (\<lambda>_. 0) None sample_file_ended" using ui(1) by (simp add: pend_add_def)
  have o: "owners None sample_file_state = add_mset (Some (Peer_transport 3)) (owners None sample_file_ended)"
    using ui(2) by simp
  have n: "Some (Peer_transport 3) \<notin># owners None sample_file_ended"
    using conn_inv_count(1) [OF inv, of 3] by (simp add: o not_in_iff)
  then show "Some (Peer_transport 3) \<notin># owners None sample_file_ended" .
  have fr: "t_frame sample_file_state sample_file_ended"
    by (auto simp: t_frame_def u(1) receive_unlink_def) (auto simp: sample_files_def sample_receive_def rx_fd_def)
  have sub: "set_mset (owners None sample_file_ended) \<subseteq> set_mset (owners None sample_file_state)" by (auto simp: o)
  have "set_mset (conn_owners sample_file_ended) \<subseteq> set_mset (conn_owners sample_file_state)"
    using owners_add_conn [of None sample_file_state "{#Some (Peer_transport 3)#}" sample_file_ended]
    by (simp add: o) (auto simp: u(1) receive_unlink_def)
  with sub show "file_sys nobody None sample_file_ended"
    by (intro file_sys_step(1) [OF sample_file_sys ci fr]) auto
qed

theorem file_close_handled_witness:
  "\<exists>w'. file_handle_close sample_env sample_file_kernel (fl_addr sample_file) sample_file_ended = Some w' \<and>
    file_sys nobody None w' \<and>
    (if fl_retry sample_file
     then file_head w' = map (\<lambda>q. if q = sample_file then sample_file\<lparr>fl_attempt := 1, fl_handler := Some File_open_wrapper\<rparr> else q)
         (file_head sample_file_ended) \<and>
       (\<exists>wk. wakeup_head w' = wakeup_head sample_file_ended @ [wk] \<and> wk_inner wk = Peer_transport (fl_addr sample_file))
     else file_head w' = filter (\<lambda>q. q \<noteq> sample_file) (file_head sample_file_ended) \<and>
       wakeup_head w' = wakeup_head sample_file_ended)"
proof -
  have m: "sample_file \<in> set (file_head sample_file_ended)" "fl_handler sample_file = Some File_handle_close" "fl_addr sample_file = 3"
    by (simp_all add: sample_file_ended_def receive_unlink_def sample_files_def) (simp_all add: sample_file_def)
  have "Some (Peer_transport (fl_addr sample_file)) \<notin># owners None sample_file_ended" using sample_file_ended_sys(2) m(3) by simp
  from file_close_handled [OF sample_file_kernel_ok sample_file_ended_sys(1) m(1,2) this, of sample_env] show ?thesis
    by (elim exE conjE) (intro exI conjI)
qed

text \<open>
  The access mode of a file plays no part in the decision to open it again: \<^verbatim>\<open>!file->flags & O_RDONLY\<close> is
  zero for every mode, so a file that was opened for writing is retried only if its descriptor can
  be polled, as one that was opened for reading.
\<close>

theorem file_retry_ignores_mode:
  "file_should_retry K fd fl w = file_should_retry K fd (fl\<lparr>fl_flags := flags\<rparr>) w"
  by (simp add: file_should_retry_def O_RDONLY_def)

text \<open>
  At the end every file is removed, in whatever state it is, and nothing else is touched.
\<close>

theorem file_cleanup_empties:
  assumes "file_inv w"
  shows "\<exists>w'. file_cleanup E K w = Some w' \<and> file_head w' = [] \<and> fds w' = fds w \<and> epoll_set w' = epoll_set w \<and>
    receive_head w' = receive_head w \<and> send_heads w' = send_heads w \<and> wakeup_head w' = wakeup_head w"
  using file_del_all_empties [of w E K] assms by (simp add: file_cleanup_def file_inv_def)

theorem file_cleanup_empties_witness:
  "\<exists>w'. file_cleanup sample_env sample_file_kernel sample_file_state = Some w' \<and> file_head w' = [] \<and>
    fds w' = fds sample_file_state \<and> epoll_set w' = epoll_set sample_file_state \<and>
    receive_head w' = receive_head sample_file_state \<and> send_heads w' = send_heads sample_file_state \<and>
    wakeup_head w' = wakeup_head sample_file_state"
  by (rule file_cleanup_empties) (rule file_sysD(2) [OF sample_file_sys])

end
