(* ===== verification/Structs.thy ===== *)
theory Structs
  imports Kinds Transport
begin

text \<open>
  A kind of transport that keeps its structures in a list, each with an event handler that says what it
  waits for. The locale of this theory gives the steps such a kind is made of: a structure that was
  called is taken out of its state, worked on, and put into its next state.
\<close>

section \<open>What a structure waits for\<close>

text \<open>
  \<open>Ph_fresh\<close>: its handler has not been set. \<open>Ph_waiting\<close>: for a wakeup. \<open>Ph_open\<close>: for the end of a connection.
  \<open>Ph_armed\<close>: for its own descriptor.
\<close>

datatype phase = Ph_fresh | Ph_waiting | Ph_open | Ph_armed

definition in_phase :: "('w \<Rightarrow> 'c list) \<Rightarrow> ('c \<Rightarrow> nat) \<Rightarrow> ('c \<Rightarrow> phase) \<Rightarrow> phase set \<Rightarrow> 'w \<Rightarrow> nat set" where
  "in_phase heads at phase P w = at ` {q \<in> set (heads w). phase q \<in> P}"

definition structs_addrs :: "('w \<Rightarrow> 'c list) \<Rightarrow> ('c \<Rightarrow> nat) \<Rightarrow> 'w \<Rightarrow> nat set" where
  "structs_addrs heads at w = at ` set (heads w)"

text \<open>The invariant of the structures but the one at \<open>a\<close>, which is being worked on (\<open>None\<close>: of all).\<close>

definition structs_inv ::
    "('a sr_state_scheme \<Rightarrow> 'c list) \<Rightarrow> ('c \<Rightarrow> nat) \<Rightarrow> ('c \<Rightarrow> 'a sr_state_scheme \<Rightarrow> bool) \<Rightarrow> ('a sr_state_scheme \<Rightarrow> bool) \<Rightarrow>
      nat option \<Rightarrow> 'a sr_state_scheme \<Rightarrow> bool" where
  "structs_inv heads at ok glob a w \<longleftrightarrow> distinct (map at (heads w)) \<and>
     (\<forall>q \<in> set (heads w). at q < next_addr w \<and> (a \<noteq> Some (at q) \<longrightarrow> ok q w)) \<and> glob w"

definition structs_tries :: "('w \<Rightarrow> 'c list) \<Rightarrow> ('c \<Rightarrow> nat) \<Rightarrow> 'w \<Rightarrow> nat" where
  "structs_tries heads attempt w = Max (insert 0 (attempt ` set (heads w)))"

text \<open>The structure \<open>q\<close> is replaced by one at the same address.\<close>

definition struct_upd :: "('c \<Rightarrow> nat) \<Rightarrow> 'c \<Rightarrow> 'c list \<Rightarrow> 'c list" where
  "struct_upd at q qs = map (\<lambda>p. if at p = at q then q else p) qs"

lemma struct_upd_maps [simp]: "map at (struct_upd at q qs) = map at qs"
  by (simp add: struct_upd_def)

lemma struct_upd_upd [simp]: "at q' = at q \<Longrightarrow> struct_upd at q' (struct_upd at q qs) = struct_upd at q' qs"
  by (simp add: struct_upd_def)

lemma struct_upd_addrs [simp]: "at ` set (struct_upd at q qs) = at ` set qs"
  by (metis list.set_map struct_upd_maps)

lemma struct_upd_set: "p \<in> set (struct_upd at q qs) \<Longrightarrow> p = q \<or> p \<in> set qs \<and> at p \<noteq> at q"
  by (auto simp: struct_upd_def split: if_splits)

lemma struct_upd_in: "at q \<in> at ` set qs \<Longrightarrow> q \<in> set (struct_upd at q qs)"
  by (auto simp: struct_upd_def)

lemma struct_upd_other: "p \<in> set qs \<Longrightarrow> at p \<noteq> at q \<Longrightarrow> p \<in> set (struct_upd at q qs)"
  by (force simp: struct_upd_def)

lemma struct_upd_same:
  assumes "distinct (map at qs)" and "q \<in> set qs"
  shows "struct_upd at q qs = qs"
proof -
  have "inj_on at (set qs)" using assms(1) by (simp add: distinct_map)
  then have "(if at p = at q then q else p) = p" if "p \<in> set qs" for p
    using that assms(2) by (auto dest: inj_onD)
  then show ?thesis by (simp add: struct_upd_def map_idI)
qed

lemma structs_tries_le: "q \<in> set (heads w) \<Longrightarrow> attempt q \<le> structs_tries heads attempt w"
  unfolding structs_tries_def by (rule Max_ge) auto

lemma structs_tries_leI: "(\<And>q. q \<in> set (heads w) \<Longrightarrow> attempt q \<le> n) \<Longrightarrow> structs_tries heads attempt w \<le> n"
  unfolding structs_tries_def by (subst Max_le_iff) auto

lemma structs_tries_upd:
  assumes "heads w' = struct_upd at q (heads w)"
  shows "structs_tries heads attempt w' \<le> max (structs_tries heads attempt w) (attempt q)"
proof (rule structs_tries_leI)
  fix p
  assume "p \<in> set (heads w')"
  then have "p \<in> set (struct_upd at q (heads w))" by (simp add: assms)
  then consider "p = q" | "p \<in> set (heads w)" using struct_upd_set [of p at q "heads w"] by blast
  then show "attempt p \<le> max (structs_tries heads attempt w) (attempt q)"
    by cases (use structs_tries_le [of p heads w attempt] in auto)
qed

lemma in_phase_upd:
  assumes "heads w' = struct_upd at q (heads w)"
  shows "in_phase heads at phase P w - {at q} \<subseteq> in_phase heads at phase P w'"
proof
  fix t
  assume "t \<in> in_phase heads at phase P w - {at q}"
  then obtain p where p: "p \<in> set (heads w)" "phase p \<in> P" "at p = t" "t \<noteq> at q" by (auto simp: in_phase_def)
  then have "p \<in> set (heads w')" using struct_upd_other [of p "heads w" at q] by (simp add: assms)
  then show "t \<in> in_phase heads at phase P w'" using p by (auto simp: in_phase_def)
qed

section \<open>The kind\<close>

locale structs =
  fixes heads :: "'a sr_state_scheme \<Rightarrow> 'c list"
    and at :: "'c \<Rightarrow> nat"
    and phase :: "'c \<Rightarrow> phase"
    and attempt :: "'c \<Rightarrow> nat"
    and ok :: "'c \<Rightarrow> 'a sr_state_scheme \<Rightarrow> bool"
    and glob :: "'a sr_state_scheme \<Rightarrow> bool"
    and fr :: "nat \<Rightarrow> 'a sr_state_scheme \<Rightarrow> 'a sr_state_scheme \<Rightarrow> bool"
  assumes heads_more: "sr_state.more w' = sr_state.more w \<Longrightarrow> heads w' = heads w"
    and fr_tp: "tp_frame w w' \<Longrightarrow> fr a w w'"
    and ok_fr: "ok q w \<Longrightarrow> fr a w w' \<Longrightarrow> at q \<noteq> a \<Longrightarrow> ok q w'"
    and glob_fr: "glob w \<Longrightarrow> fr a w w' \<Longrightarrow> glob w'"
begin

abbreviation live where "live \<equiv> in_phase heads at phase {Ph_waiting, Ph_open, Ph_armed}"
abbreviation shut where "shut \<equiv> in_phase heads at phase {Ph_open}"
abbreviation ready where "ready \<equiv> in_phase heads at phase {Ph_armed}"
abbreviation addrs where "addrs \<equiv> structs_addrs heads at"
abbreviation inv_but where "inv_but \<equiv> structs_inv heads at ok glob"
abbreviation tries where "tries \<equiv> structs_tries heads attempt"

lemma in_phase_more: "sr_state.more w' = sr_state.more w \<Longrightarrow> in_phase heads at phase P w' = in_phase heads at phase P w"
  using heads_more [of w' w] by (simp add: in_phase_def)

lemma inv_but_tp:
  assumes "inv_but a w" and "tp_frame w w'"
  shows "inv_but a w'"
proof -
  have h: "heads w' = heads w" "next_addr w \<le> next_addr w'" using assms(2) heads_more [of w' w] by (simp_all add: tp_frame_def)
  have "ok q w'" if "ok q w" for q using ok_fr [OF that fr_tp [OF assms(2), of "Suc (at q)"]] by simp
  then show ?thesis
    using assms h glob_fr [OF _ fr_tp [OF assms(2)]] by (auto simp: structs_inv_def intro: less_le_trans)
qed

sublocale kind_sets live shut ready addrs "inv_but None" tries
proof
  fix w w' :: "'a sr_state_scheme"
  show "live w' = live w \<and> shut w' = shut w \<and> ready w' = ready w \<and> addrs w' = addrs w \<and> tries w' = tries w"
    if "sr_state.more w' = sr_state.more w"
    using in_phase_more [OF that] heads_more [OF that] by (simp add: structs_addrs_def structs_tries_def)
  show "live w \<subseteq> addrs w" "shut w \<subseteq> live w" "ready w \<subseteq> addrs w"
    by (auto simp: in_phase_def structs_addrs_def)
  show "t < next_addr w" if "inv_but None w" "t \<in> addrs w" for t
    using that by (auto simp: structs_inv_def structs_addrs_def)
qed (rule inv_but_tp)

text \<open>The structure \<open>q\<close> is being worked on: no callback leads to it and it is not registered.\<close>

abbreviation sys_but :: "nat \<Rightarrow> others \<Rightarrow> nat option \<Rightarrow> 'a sr_state_scheme \<Rightarrow> bool" where
  "sys_but a \<equiv> kind_sys (\<lambda>w. live w - {a}) (\<lambda>w. shut w - {a}) (\<lambda>w. ready w - {a}) (\<lambda>w. addrs w - {a}) (inv_but (Some a))"

definition work :: "others \<Rightarrow> nat option \<Rightarrow> 'c \<Rightarrow> 'a sr_state_scheme \<Rightarrow> bool" where
  "work oth f q w \<longleftrightarrow> sys_but (at q) oth f w \<and> q \<in> set (heads w) \<and> Some (Peer_transport (at q)) \<notin># owners f w \<and>
     at q \<notin> o_addrs oth"

lemma workD:
  assumes "work oth f q w"
  shows "conn_inv (\<lambda>_. 0) f w" and "inv_but (Some (at q)) w" and "q \<in> set (heads w)"
    and "Some (Peer_transport (at q)) \<notin># owners f w" and "at q \<notin> o_addrs oth" and "glob w"
    and "epoll_set w g \<noteq> Some (Peer_transport (at q))"
proof -
  have s: "sys_but (at q) oth f w" using assms by (simp add: work_def)
  show "conn_inv (\<lambda>_. 0) f w" "inv_but (Some (at q)) w" "q \<in> set (heads w)"
    "Some (Peer_transport (at q)) \<notin># owners f w" "at q \<notin> o_addrs oth" "glob w"
    using assms kind_sysD(1,2) [OF s] by (simp_all add: work_def structs_inv_def)
  then show "epoll_set w g \<noteq> Some (Peer_transport (at q))" using kind_sysD(5,8) [OF s] by blast
qed

lemma phase_at:
  assumes "distinct (map at (heads w))" and "q \<in> set (heads w)"
  shows "at q \<in> in_phase heads at phase P w \<longleftrightarrow> phase q \<in> P"
proof -
  have "inj_on at (set (heads w))" using assms(1) by (simp add: distinct_map)
  then show ?thesis using assms(2) by (auto simp: in_phase_def dest: inj_onD)
qed

lemma found:
  assumes "inv_but b w" and "q \<in> set (heads w)"
  shows "find (\<lambda>p. at p = at q) (heads w) = Some q" and "struct_upd at q (heads w) = heads w"
  using assms find_distinct_addr [of at "heads w" q] struct_upd_same [of at "heads w" q] by (simp_all add: structs_inv_def)

lemma called:
  assumes "sys oth f w" and "q \<in> set (heads w)"
  shows "find (\<lambda>p. at p = at q) (heads w) = Some q" and "ok q w" and "glob w" and "conn_inv (\<lambda>_. 0) f w"
    and "struct_upd at q (heads w) = heads w"
proof -
  note d = kind_sysD(1,2) [OF assms(1)]
  show "ok q w" "glob w" "conn_inv (\<lambda>_. 0) f w" using d assms(2) by (simp_all add: structs_inv_def)
qed (rule found [OF kind_sysD(2) [OF assms(1)] assms(2)])+

text \<open>A structure that is called, after its descriptor has been closed or unregistered.\<close>

lemma enter:
  assumes sys: "sys oth f w" and q: "q \<in> set (heads w)" and own: "Some (Peer_transport (at q)) \<notin># owners f w"
    and w': "conn_inv (\<lambda>_. 0) f w'" "owners f w' = owners f w" "wakeup_head w' = wakeup_head w"
      "next_addr w \<le> next_addr w'" "peer_always_trigger_head w' = peer_always_trigger_head w" "heads w' = heads w"
    and fr: "fr (at q) w w'"
    and reg: "\<And>g t. epoll_set w' g = Some (Peer_transport t) \<Longrightarrow> t \<noteq> at q \<and> epoll_set w g = Some (Peer_transport t)"
  shows "work oth f q w'" and "conn_owners w' = conn_owners w"
proof -
  note d = kind_sysD [OF sys]
  have a: "at q \<notin> o_addrs oth" using d(3) q by (auto simp: structs_addrs_def)
  have k: "inv_but (Some (at q)) w'"
    using d(2) w'(4) glob_fr [OF _ fr] ok_fr [OF _ fr] unfolding structs_inv_def w'(6)
    by (auto intro: less_le_trans)
  have "in_phase heads at phase P w' = in_phase heads at phase P w" "addrs w' = addrs w" for P
    using w'(6) by (simp_all add: in_phase_def structs_addrs_def)
  note ch = kind_sys_change [where live' = "\<lambda>w. live w - {at q}" and shut' = "\<lambda>w. shut w - {at q}"
      and ready' = "\<lambda>w. ready w - {at q}" and addrs' = "\<lambda>w. addrs w - {at q}" and kinv' = "inv_but (Some (at q))",
      OF sys w'(1) k w'(2,3,4,5) own a] this
  have "sys_but (at q) oth f w' \<and> conn_owners w' = conn_owners w"
    by (intro conjI; rule ch(1) ch(2)) (use reg ch(3,4) in auto)
  then show "work oth f q w'" "conn_owners w' = conn_owners w"
    using q own a w'(2,6) by (simp_all add: work_def)
qed

lemma enter_waiting:
  assumes sys: "sys oth f w" and q: "q \<in> set (heads w)" and own: "Some (Peer_transport (at q)) \<notin># owners f w"
    and ph: "phase q \<noteq> Ph_armed"
  shows "work oth f q w"
proof -
  note d = kind_sysD [OF sys]
  have "at q \<notin> ready w" using phase_at [of w q] d(2) q ph by (simp add: structs_inv_def)
  moreover have "at q \<notin> o_ready oth" using d(3,5) q by (auto simp: structs_addrs_def)
  ultimately have "t \<noteq> at q" if "epoll_set w g = Some (Peer_transport t)" for g t using d(8) [OF that] by blast
  then show ?thesis
    by (intro enter(1) [OF sys q own d(1)]) (simp_all add: fr_tp tp_frame_def)
qed

text \<open>A step of a transport of another kind.\<close>

lemma kept_other:
  assumes h: "heads w' = heads w" and n: "next_addr w \<le> next_addr w'" and fr: "fr a w w'" and a: "a \<notin> addrs w"
  shows "keeps live shut ready addrs (inv_but None) tries w w'"
proof -
  have "at q \<noteq> a" if "q \<in> set (heads w)" for q using a that by (auto simp: structs_addrs_def)
  then have "inv_but None w'" if "inv_but None w"
    using that n glob_fr [OF _ fr] ok_fr [OF _ fr] unfolding structs_inv_def h by (auto intro: less_le_trans)
  then show ?thesis by (simp add: keeps_def in_phase_def structs_addrs_def structs_tries_def h)
qed

text \<open>Without the structure that is being worked on, the others are a kind as before.\<close>

sublocale but: kind_sets "\<lambda>w. live w - {a}" "\<lambda>w. shut w - {a}" "\<lambda>w. ready w - {a}" "\<lambda>w. addrs w - {a}"
  "inv_but (Some a)" tries for a
proof
  fix w w' :: "'a sr_state_scheme"
  show "live w' - {a} = live w - {a} \<and> shut w' - {a} = shut w - {a} \<and> ready w' - {a} = ready w - {a} \<and>
      addrs w' - {a} = addrs w - {a} \<and> tries w' = tries w"
    if "sr_state.more w' = sr_state.more w"
    using more_frame [OF that] by simp
  show "live w - {a} \<subseteq> addrs w - {a}" "shut w - {a} \<subseteq> live w - {a}" "ready w - {a} \<subseteq> addrs w - {a}"
    using live_addrs shut_live ready_addrs by blast+
  show "t < next_addr w" if "inv_but (Some a) w" "t \<in> addrs w - {a}" for t
    using that by (auto simp: structs_inv_def structs_addrs_def)
qed (rule inv_but_tp)

text \<open>What the connections do meanwhile, and what happens to the structure itself.\<close>

lemma work_step:
  assumes wk: "work oth f q w" and ci: "conn_inv (\<lambda>_. 0) f w'" and fr: "t_frame w w'"
    and o: "owners f w' = owners f w" "wakeup_head w' = wakeup_head w"
  shows "work oth f q w'" and "heads w' = heads w"
proof -
  show h: "heads w' = heads w" using fr by (intro heads_more) (simp add: t_frame_def)
  show "work oth f q w'" using but.step_same [OF _ ci fr o] wk o(1) h by (simp add: work_def)
qed

text \<open>
  The structure is changed to \<open>q'\<close>; \<open>w'\<close> may also register or close its descriptor.
\<close>

definition stored :: "'c \<Rightarrow> nat option \<Rightarrow> 'a sr_state_scheme \<Rightarrow> 'a sr_state_scheme \<Rightarrow> bool" where
  "stored q f w w' \<longleftrightarrow> conn_inv (\<lambda>_. 0) f w' \<and> owners f w' = owners f w \<and> wakeup_head w' = wakeup_head w \<and>
     next_addr w \<le> next_addr w' \<and> peer_always_trigger_head w' = peer_always_trigger_head w \<and>
     heads w' = struct_upd at q (heads w) \<and> fr (at q) w w' \<and>
     (\<forall>g t. epoll_set w' g = Some (Peer_transport t) \<longrightarrow> t \<noteq> at q \<longrightarrow> epoll_set w g = Some (Peer_transport t))"

lemma stored_others:
  assumes wk: "work oth f q w" and at: "at q' = at q" and st: "stored q' f w w'"
  shows "structs_inv heads at ok glob (Some (at q)) w'" and "in_phase heads at phase P w' - {at q} = in_phase heads at phase P w - {at q}"
    and "addrs w' = addrs w" and "q' \<in> set (heads w')" and "distinct (map at (heads w'))"
proof -
  note k = workD(2) [OF wk]
  have h: "heads w' = struct_upd at q' (heads w)" "fr (at q) w w'" "next_addr w \<le> next_addr w'"
    using st by (simp_all add: stored_def at)
  show "q' \<in> set (heads w')" using workD(3) [OF wk] by (simp add: h(1) struct_upd_in at)
  show "distinct (map at (heads w'))" using k by (simp add: h(1) structs_inv_def)
  have e: "p \<in> set (heads w') \<longleftrightarrow> p \<in> set (heads w)" if "at p \<noteq> at q" for p
    using that struct_upd_set [of p at q' "heads w"] struct_upd_other [of p "heads w" at q'] by (auto simp: h(1) at)
  show "addrs w' = addrs w" by (simp add: structs_addrs_def h(1))
  then have lt: "at p < next_addr w'" if "p \<in> set (heads w')" for p
    using k h(3) that unfolding structs_addrs_def structs_inv_def by (metis image_iff less_le_trans)
  show "in_phase heads at phase P w' - {at q} = in_phase heads at phase P w - {at q}"
    using e by (auto simp: in_phase_def)
  show "structs_inv heads at ok glob (Some (at q)) w'"
    using k lt e ok_fr [OF _ h(2)] glob_fr [OF _ h(2)] unfolding structs_inv_def by (auto simp: h(1))
qed

lemma work_store:
  assumes wk: "work oth f q w" and at: "at q' = at q" and st: "stored q' f w w'"
    and reg: "\<And>g. epoll_set w' g \<noteq> Some (Peer_transport (at q))"
  shows "work oth f q' w'" and "conn_owners w' = conn_owners w"
proof -
  note so = stored_others [OF wk at st]
  have s: "sys_but (at q) oth f w" using wk by (simp add: work_def)
  have w': "conn_inv (\<lambda>_. 0) f w'" "owners f w' = owners f w" "wakeup_head w' = wakeup_head w"
    "next_addr w \<le> next_addr w'" "peer_always_trigger_head w' = peer_always_trigger_head w"
    "\<And>g t. epoll_set w' g = Some (Peer_transport t) \<Longrightarrow> t \<noteq> at q \<Longrightarrow> epoll_set w g = Some (Peer_transport t)"
    using st by (simp_all add: stored_def at)
  note ch = but.step_heads [OF s w'(1) so(1) w'(2-5) workD(4,5) [OF wk]]
  have "sys_but (at q) oth f w' \<and> conn_owners w' = conn_owners w"
    by (intro conjI; rule ch) (use so(2,3) w'(6) reg in auto)
  then show "work oth f q' w'" "conn_owners w' = conn_owners w"
    using so(4) workD(4,5) [OF wk] w'(2) by (simp_all add: work_def at)
qed

text \<open>The structure is put into its next state.\<close>

lemma leave:
  assumes wk: "work oth f q w" and at: "at q' = at q" and st: "stored q' f w w'"
    and ok: "ok q' w'" and ph: "phase q' \<noteq> Ph_fresh"
    and reg: "\<And>g. epoll_set w' g = Some (Peer_transport (at q)) \<Longrightarrow> phase q' = Ph_armed"
  shows "sys oth f w'" and "conn_owners w' = conn_owners w"
proof -
  note so = stored_others [OF wk at st]
  have s: "sys_but (at q) oth f w" using wk by (simp add: work_def)
  have w': "conn_inv (\<lambda>_. 0) f w'" "owners f w' = owners f w" "wakeup_head w' = wakeup_head w"
    "next_addr w \<le> next_addr w'" "peer_always_trigger_head w' = peer_always_trigger_head w"
    "\<And>g t. epoll_set w' g = Some (Peer_transport t) \<Longrightarrow> t \<noteq> at q \<Longrightarrow> epoll_set w g = Some (Peer_transport t)"
    using st by (simp_all add: stored_def at)
  have in': "at q \<in> in_phase heads at phase P w' \<longleftrightarrow> phase q' \<in> P" for P
    using phase_at [OF so(5,4)] at by simp
  have "p = q'" if "p \<in> set (heads w')" "at p = at q" for p
    using so(4,5) that at by (simp add: distinct_map inj_on_def)
  then have k: "inv_but None w'" using so(1) ok unfolding structs_inv_def by auto
  note ch = kind_sys_change [where live' = live and shut' = shut and ready' = ready and addrs' = addrs
      and kinv' = "inv_but None", OF s w'(1) k w'(2-5) workD(4,5) [OF wk]]
  have pl: "phase q' \<in> {Ph_waiting, Ph_open, Ph_armed}" using ph by (cases "phase q'") simp_all
  have "sys oth f w' \<and> conn_owners w' = conn_owners w"
    by (intro conjI; rule ch) (use so(2,3) w'(6) reg in' pl in auto)
  then show "sys oth f w'" "conn_owners w' = conn_owners w" by simp_all
qed

text \<open>A new structure.\<close>

lemma link:
  assumes sys: "sys oth f w" and at: "at q = next_addr w" and ci: "conn_inv (\<lambda>_. 0) f w'"
    and w': "owners f w' = owners f w" "wakeup_head w' = wakeup_head w" "next_addr w < next_addr w'"
      "peer_always_trigger_head w' = peer_always_trigger_head w" "heads w' = heads w @ [q]"
    and fr: "fr (at q) w w'"
    and reg: "\<And>g t. epoll_set w' g = Some (Peer_transport t) \<Longrightarrow> epoll_set w g = Some (Peer_transport t)"
  shows "work oth f q w'" and "conn_owners w' = conn_owners w"
proof -
  note d = kind_sysD [OF sys] and n = new_addr_free [OF sys, folded at]
  have na: "next_addr w \<notin> at ` set (heads w)" using n(1) by (simp add: structs_addrs_def at)
  then have na': "\<forall>p \<in> set (heads w). at p \<noteq> at q" by (metis at image_eqI)
  from na have k: "inv_but (Some (at q)) w'"
    using d(2) w'(3) glob_fr [OF _ fr] ok_fr [OF _ fr] unfolding structs_inv_def w'(5)
    by (auto simp: at)
  have ph: "in_phase heads at phase P w' - {at q} = in_phase heads at phase P w"
    "addrs w' = insert (at q) (addrs w)" for P
    using na' by (auto simp: in_phase_def structs_addrs_def w'(5))
  note ch = kind_sys_change [where live' = "\<lambda>w. live w - {at q}" and shut' = "\<lambda>w. shut w - {at q}"
      and ready' = "\<lambda>w. ready w - {at q}" and addrs' = "\<lambda>w. addrs w - {at q}" and kinv' = "inv_but (Some (at q))",
      OF sys ci k w'(1,2) less_imp_le [OF w'(3)] w'(4) n(3,2)]
  have "at q \<notin> ready w \<union> o_ready oth" using n ready_addrs d(5) by blast
  then have r: "epoll_set w' g \<noteq> Some (Peer_transport (at q))" for g using d(8) [OF reg] by blast
  have "sys_but (at q) oth f w' \<and> conn_owners w' = conn_owners w"
    by (intro conjI; rule ch) (use ph reg r in auto)
  then show "work oth f q w'" "conn_owners w' = conn_owners w"
    using n(2,3) w'(1,5) by (simp_all add: work_def)
qed

end

section \<open>Handlers\<close>

text \<open>
  \<open>store\<close> writes one structure back; \<open>frame\<close> is what a handler of the structure \<open>a\<close> leaves alone.
\<close>

locale handlers = structs heads at phase attempt ok glob fr
  for heads :: "'a sr_state_scheme \<Rightarrow> 'c list" and at phase attempt ok glob fr +
  fixes store :: "'c \<Rightarrow> 'a sr_state_scheme \<Rightarrow> 'a sr_state_scheme"
    and frame :: "nat \<Rightarrow> 'a sr_state_scheme \<Rightarrow> 'a sr_state_scheme \<Rightarrow> bool"
  assumes store_base: "\<exists>m. store q w = sr_state.more_update (\<lambda>_. m) w"
    and heads_store: "heads (store q w) = struct_upd at q (heads w)"
    and frame_store: "frame (at q) w (store q w)"
    and frame_t: "t_frame w w' \<Longrightarrow> call_frame w w' \<Longrightarrow> frame a w w'"
    and frame_trans: "frame a u v \<Longrightarrow> frame a v w \<Longrightarrow> frame a u w"
    and frame_fr: "frame a w w' \<Longrightarrow> fr a w w'"
    and frame_call: "frame a w w' \<Longrightarrow> call_frame w w'"
begin

lemma store_fields:
  shows "fds (store q w) = fds w" and "epoll_set (store q w) = epoll_set w" and "receive_head (store q w) = receive_head w"
    and "peer_always_trigger_head (store q w) = peer_always_trigger_head w" and "send_heads (store q w) = send_heads w"
    and "next_addr (store q w) = next_addr w" and "rnd (store q w) = rnd w" and "stats (store q w) = stats w"
    and "wakeup_head (store q w) = wakeup_head w" and "timers (store q w) = timers w" and "tick (store q w) = tick w"
    and "json_hello_buf (store q w) = json_hello_buf w" and "proto_hello_buf (store q w) = proto_hello_buf w"
    and "send_receive_head (store q w) = send_receive_head w" and "all_sends (store q w) = all_sends w"
    and "new_fd K (store q w) = new_fd K w" and "trace (store q w) = trace w"
proof -
  obtain m where "store q w = sr_state.more_update (\<lambda>_. m) w" using store_base by blast
  then show "fds (store q w) = fds w" "epoll_set (store q w) = epoll_set w" "receive_head (store q w) = receive_head w"
    "peer_always_trigger_head (store q w) = peer_always_trigger_head w" "send_heads (store q w) = send_heads w"
    "next_addr (store q w) = next_addr w" "rnd (store q w) = rnd w" "stats (store q w) = stats w"
    "wakeup_head (store q w) = wakeup_head w" "timers (store q w) = timers w" "tick (store q w) = tick w"
    "json_hello_buf (store q w) = json_hello_buf w" "proto_hello_buf (store q w) = proto_hello_buf w"
    "send_receive_head (store q w) = send_receive_head w" "all_sends (store q w) = all_sends w"
    "new_fd K (store q w) = new_fd K w" "trace (store q w) = trace w"
    by (simp_all add: all_sends_def new_fd_def)
qed

lemma fd_unused_store: "fd_unused fd (store q w) \<longleftrightarrow> fd_unused fd w"
  by (simp add: fd_unused_def fd_free_def fd_fresh_def store_fields)

text \<open>The step from \<open>w\<close> to \<open>v\<close> leaves the structures alone; then \<open>q\<close> is written.\<close>

lemma stored_after:
  assumes v: "conn_inv (\<lambda>_. 0) f v" "owners f v = owners f w" "wakeup_head v = wakeup_head w" "next_addr w \<le> next_addr v"
      "peer_always_trigger_head v = peer_always_trigger_head w" "heads v = heads w" "frame (at q) w v"
    and reg: "\<And>g t. epoll_set v g = Some (Peer_transport t) \<Longrightarrow> t \<noteq> at q \<Longrightarrow> epoll_set w g = Some (Peer_transport t)"
  shows "stored q f w (store q v)" and "frame (at q) w (store q v)"
proof -
  show fr: "frame (at q) w (store q v)" by (rule frame_trans [OF v(7) frame_store])
  have "conn_inv (\<lambda>_. 0) f (store q v)" "owners f (store q v) = owners f v"
    using conn_inv_same [OF v(1), of "store q v"] conn_inv_rand [OF v(1)] by (simp_all add: store_fields)
  then show "stored q f w (store q v)"
    using v(2-6) reg frame_fr [OF fr] by (simp add: stored_def store_fields heads_store)
qed

lemma stored_only:
  assumes "conn_inv (\<lambda>_. 0) f w"
  shows "stored q f w (store q w)"
  by (rule stored_after(1)) (simp_all add: assms frame_t)

lemma work_stored:
  assumes wk: "work oth f q w" and at: "at q' = at q"
  shows "work oth f q' (store q' w)" and "frame (at q) w (store q' w)"
proof -
  show "work oth f q' (store q' w)"
    using workD(7) [OF wk] by (intro work_store(1) [OF wk at stored_only [OF workD(1) [OF wk]]]) (simp add: store_fields)
  show "frame (at q) w (store q' w)" using frame_store [of q' w] by (simp add: at)
qed

lemma work_conn:
  assumes wk: "work oth f q w" and v: "conn_inv (\<lambda>_. 0) f v" "owners f v = owners f w" "conn_frame w v"
  shows "work oth f q v" and "frame a w v" and "heads v = heads w"
proof -
  have fr: "t_frame w v" "wakeup_head v = wakeup_head w" using v(3) by (simp_all add: conn_frame_def)
  show "work oth f q v" "heads v = heads w" using work_step [OF wk v(1) fr(1) v(2) fr(2)] by simp_all
  show "frame a w v" by (rule frame_t [OF fr(1) call_frameI [OF v(3)]])
qed

text \<open>What a handler ends with: the structure at \<open>a\<close> is in a new state, tried at most \<open>n\<close> times.\<close>

definition finished :: "others \<Rightarrow> nat option \<Rightarrow> nat \<Rightarrow> nat \<Rightarrow> 'a sr_state_scheme \<Rightarrow> 'a sr_state_scheme \<Rightarrow> bool" where
  "finished oth f a n w w' \<longleftrightarrow> sys oth f w' \<and> frame a w w' \<and>
     (\<exists>q. at q = a \<and> heads w' = struct_upd at q (heads w) \<and> attempt q \<le> n \<and> phase q \<noteq> Ph_fresh)"

definition returns :: "others \<Rightarrow> nat option \<Rightarrow> nat \<Rightarrow> nat \<Rightarrow> 'a sr_state_scheme \<Rightarrow> 'a sr_state_scheme option \<Rightarrow> bool" where
  "returns oth f a n w r \<longleftrightarrow> (case r of None \<Rightarrow> 20 < n | Some w' \<Rightarrow> finished oth f a (Suc n) w w')"

lemma finishedI:
  "sys oth f w' \<Longrightarrow> frame (at q) w w' \<Longrightarrow> heads w' = struct_upd at q (heads w) \<Longrightarrow> attempt q \<le> n \<Longrightarrow> phase q \<noteq> Ph_fresh \<Longrightarrow>
   finished oth f (at q) n w w'"
  by (auto simp: finished_def)

lemma finished_same:
  assumes "sys oth f w'" and "frame (at q) w w'" and "heads w' = heads w" and "q \<in> set (heads w)" and "phase q \<noteq> Ph_fresh"
  shows "finished oth f (at q) (attempt q) w w'"
  using assms found(2) [OF kind_sysD(2) [OF assms(1)], of q] by (intro finishedI) simp_all

lemma finished_le: "finished oth f a m w w' \<Longrightarrow> m \<le> n \<Longrightarrow> finished oth f a n w w'"
  by (fastforce simp: finished_def)

lemma finished_after:
  assumes "frame a w v" and "heads v = heads w \<or> (\<exists>q. at q = a \<and> heads v = struct_upd at q (heads w))"
    and "finished oth f a n v w'"
  shows "finished oth f a n w w'"
  using assms frame_trans [OF assms(1)] by (fastforce simp: finished_def)

lemma returns_after:
  assumes "frame a w v" and "heads v = heads w \<or> (\<exists>q. at q = a \<and> heads v = struct_upd at q (heads w))"
    and "returns oth f a n v r"
  shows "returns oth f a n w r"
  using assms(3) finished_after [OF assms(1,2)] by (auto simp: returns_def split: option.splits)

lemma finishedD:
  assumes d: "finished oth f a n w w'" and a: "a \<in> addrs w"
  shows "sys oth f w'" and "frame a w w'" and "call_frame w w'" and "ready w - {a} \<subseteq> ready w'"
    and "tries w' \<le> max (tries w) n" and "a \<in> live w'"
proof -
  from d obtain q where q: "at q = a" "heads w' = struct_upd at q (heads w)" "attempt q \<le> n" "phase q \<noteq> Ph_fresh"
    by (auto simp: finished_def)
  show "sys oth f w'" "frame a w w'" using d by (simp_all add: finished_def)
  then show "call_frame w w'" by (simp add: frame_call)
  show "ready w - {a} \<subseteq> ready w'" using in_phase_upd [where heads = heads, OF q(2)] q(1) by simp
  show "tries w' \<le> max (tries w) n"
    using structs_tries_upd [where heads = heads and attempt = attempt, OF q(2)] q(3) by linarith
  have "q \<in> set (heads w')" using a q(1) by (simp add: q(2) struct_upd_in structs_addrs_def)
  moreover have "phase q \<in> {Ph_waiting, Ph_open, Ph_armed}" using q(4) by (cases "phase q") simp_all
  ultimately show "a \<in> live w'" using q(1) by (auto simp: in_phase_def)
qed

text \<open>A structure that is not registered asks for a wakeup.\<close>

lemma asked:
  assumes wk: "work oth f q w" and K: "kernel_ok K" and q': "at q' = at q" "phase q' = Ph_waiting" "ok q' (store q' w)"
  shows "case wakeup_get_retry_delay_ms src att (rnd w) of
      None \<Rightarrow> 20 < unat att
    | Some (delay, rs) \<Rightarrow> \<exists>w'. wakeup_add (new_fd K (store q' w)) st (Peer_transport (at q)) delay ((store q' w)\<lparr>rnd := rs\<rparr>) = Some w' \<and>
        finished oth f (at q) (attempt q') w w' \<and> peer_always_trigger_head w' = peer_always_trigger_head w"
proof -
  let ?a = "at q"
  define v where "v = store q' w"
  note inv = workD(1) [OF wk]
  note st = stored_only [OF inv, of q', folded v_def]
  have sys: "sys oth f v"
    by (rule leave(1) [OF wk q'(1) st]) (use q'(2,3) workD(7) [OF wk] in \<open>simp_all add: v_def store_fields\<close>)
  have hv: "heads v = struct_upd at q' (heads w)" "rnd v = rnd w" "peer_always_trigger_head v = peer_always_trigger_head w"
    by (simp_all add: v_def store_fields heads_store)
  have in': "q' \<in> set (heads v)" using workD(3) [OF wk] by (simp add: hv(1) struct_upd_in q'(1))
  have own: "Some (Peer_transport ?a) \<notin># owners f v" using workD(4) [OF wk] st by (simp add: stored_def)
  have "distinct (map at (heads v))" using kind_sysD(2) [OF sys] by (simp add: structs_inv_def)
  note ph = phase_at [OF this in', unfolded q'(1,2)]
  note ra = retry_asked [OF K kind_sysD(1) [OF sys] own, where src = src and attempt = att and st = st]
  show ?thesis
  proof (cases "wakeup_get_retry_delay_ms src att (rnd w)")
    case None
    then show ?thesis using ra by (simp add: hv(2))
  next
    case (Some p)
    obtain delay rs where p: "p = (delay, rs)" by (cases p)
    from ra Some p obtain w' where
      w': "wakeup_add (new_fd K v) st (Peer_transport ?a) delay (v\<lparr>rnd := rs\<rparr>) = Some w'"
      "conn_inv (\<lambda>_. 0) f w'" "owners f w' = add_mset (Some (Peer_transport ?a)) (owners f v)"
      "conn_owners w' = conn_owners v" "t_frame v w'" "call_frame v w'"
      "peer_always_trigger_head w' = peer_always_trigger_head v"
      by (auto simp: hv(2))
    have "sys oth f w'" by (rule step [OF sys w'(2,5)]) (use w'(3,4) ph in auto)
    moreover have "frame ?a w w'"
      using frame_trans [OF _ frame_t [OF w'(5,6)]] frame_store [of q' w] by (simp add: v_def q'(1))
    moreover have "heads w' = struct_upd at q' (heads w)"
      using heads_more [of w' v] w'(5) hv(1) by (simp add: t_frame_def)
    ultimately have "finished oth f ?a (attempt q') w w'"
      unfolding finished_def using q'(1,2) by (metis order_refl phase.distinct(1))
    then show ?thesis using Some p w'(1,7) hv(3) by (simp add: v_def)
  qed
qed

text \<open>A connection has been made for a structure that will be told of its end.\<close>

lemma opened:
  assumes wk: "work oth f q w" and q': "at q' = at q" "phase q' = Ph_open" "ok q' (store q' w)"
    and w': "conn_inv (\<lambda>_. 0) f w'" "made f (store q' w) (Some (Peer_transport (at q))) w'"
  shows "finished oth f (at q) (attempt q') w w'"
proof -
  define v where "v = store q' w"
  note st = stored_only [OF workD(1) [OF wk], of q', folded v_def]
  have sys: "sys oth f v"
    by (rule leave(1) [OF wk q'(1) st]) (use q'(2,3) workD(7) [OF wk] in \<open>simp_all add: v_def store_fields\<close>)
  have hv: "heads v = struct_upd at q' (heads w)" by (simp add: v_def heads_store)
  have in': "q' \<in> set (heads v)" using workD(3) [OF wk] by (simp add: hv(1) struct_upd_in q'(1))
  have "distinct (map at (heads v))" using kind_sysD(2) [OF sys] by (simp add: structs_inv_def)
  note ph = phase_at [OF this in', unfolded q'(1,2)]
  have "sys oth f w'" by (rule step_made [OF sys w'(1) w'(2) [folded v_def]]) (use ph in simp)
  moreover have cf: "conn_frame v w'" using w'(2) by (simp add: made_def v_def)
  have cf2: "frame (at q) v w'" by (rule frame_t [OF _ call_frameI]) (use cf in \<open>simp_all add: conn_frame_def\<close>)
  have "frame (at q) w w'" using frame_trans [OF _ cf2] frame_store [of q' w] by (simp add: v_def q'(1))
  moreover have "heads w' = struct_upd at q' (heads w)"
    using heads_more [of w' v] cf hv by (simp add: conn_frame_def t_frame_def)
  ultimately show ?thesis unfolding finished_def using q'(1,2) by (metis order_refl phase.distinct(3))
qed

text \<open>The handlers of all structures make up a kind.\<close>

lemma handlers_kind:
  assumes ev: "\<And>oth f q w. sys oth f w \<Longrightarrow> q \<in> set (heads w) \<Longrightarrow> phase q \<noteq> Ph_fresh \<Longrightarrow>
      Some (Peer_transport (at q)) \<notin># owners f w \<Longrightarrow> returns oth f (at q) (attempt q) w (event (at q) w)"
    and op: "\<And>oth f q w. sys oth f w \<Longrightarrow> q \<in> set (heads w) \<Longrightarrow> phase q = Ph_open \<Longrightarrow>
      Some (Peer_transport (at q)) \<notin># owners f w \<Longrightarrow> \<exists>w'. event (at q) w = Some w' \<and> finished oth f (at q) 2 w w' \<and>
        peer_always_trigger_head w' = peer_always_trigger_head w"
  shows "kind live shut ready addrs (inv_but None) tries event (\<lambda>w w'. \<exists>a \<in> addrs w. frame a w w')"
proof
  fix oth f t w
  assume sys: "sys oth f w" and t: "t \<in> live w" and own: "Some (Peer_transport t) \<notin># owners f w"
  from t obtain q where q: "q \<in> set (heads w)" "at q = t" "phase q \<noteq> Ph_fresh" by (auto simp: in_phase_def)
  have a: "t \<in> addrs w" using q by (auto simp: structs_addrs_def)
  have own': "Some (Peer_transport (at q)) \<notin># owners f w" using own q(2) by simp
  note r = ev [OF sys q(1,3) own', unfolded q(2)] and o = op [OF sys q(1) _ own', unfolded q(2)]
  have "distinct (map at (heads w))" using kind_sysD(2) [OF sys] by (simp add: structs_inv_def)
  from phase_at [OF this q(1), of "{Ph_open}"] have s: "t \<in> shut w \<longleftrightarrow> phase q = Ph_open" using q(2) by simp
  have le: "attempt q \<le> tries w" by (rule structs_tries_le [where heads = heads, OF q(1)])
  show "case event t w of
      None \<Rightarrow> t \<notin> shut w \<and> 20 < tries w
    | Some w' \<Rightarrow> sys oth f w' \<and> (\<exists>a \<in> addrs w. frame a w w') \<and> call_frame w w' \<and> ready w - {t} \<subseteq> ready w' \<and>
        tries w' \<le> Suc (tries w) \<and>
        (t \<in> shut w \<longrightarrow> peer_always_trigger_head w' = peer_always_trigger_head w \<and> tries w' \<le> max 2 (tries w))"
  proof (cases "event t w")
    case None
    then show ?thesis using r o s le by (auto simp: returns_def)
  next
    case (Some w')
    then have fin: "finished oth f t (Suc (attempt q)) w w'" using r by (simp add: returns_def)
    have "peer_always_trigger_head w' = peer_always_trigger_head w \<and> tries w' \<le> max 2 (tries w)" if "t \<in> shut w"
      using o s that Some finishedD(5) [OF _ a, of oth f 2 w'] by (auto simp: max.commute)
    then show ?thesis using finishedD [OF fin a] a le Some by auto
  qed
qed

end

end
