(* ===== verification/Resolve.thy ===== *)
theory Resolve
  imports File Structs
begin

text \<open>
  Model of \<^verbatim>\<open>adsbus/asyncaddrinfo.c\<close> and \<^verbatim>\<open>adsbus/resolve.c\<close>: names are resolved by other threads. A request
  is sent to them through a socket, the answer comes back on a socket pair of its own, whose near end is
  registered for the peer that asked. The descriptors of the threads are not in the table of the main
  thread; \<open>async_requests\<close> are the requests by the near end of their socket pair. Receiving the answer blocks
  until it has been sent, so it does not matter when a thread computes it.
\<close>

section \<open>The network\<close>

record addrinfo =
  ai_family :: int
  ai_socktype :: int
  ai_protocol :: int
  ai_addr :: "u8 list"

record addr_hints =
  hint_flags :: "32 word"
  hint_family :: int
  hint_socktype :: int

text \<open>
  The calls of the network. Results may depend on the number of calls so far. \<open>k_getaddrinfo\<close> and \<open>k_getnameinfo\<close> return
  an error number and the addresses, \<open>k_sendto\<close> its result and \<^verbatim>\<open>errno\<close>, \<open>k_so_error\<close> the error of a socket,
  \<open>k_bind\<close> and \<open>k_listen\<close> an error number, \<open>k_accept\<close> the addresses of both ends of a new connection, if there is one.
\<close>

record net_kernel = file_kernel +
  k_sock_stat :: "nat \<Rightarrow> int \<Rightarrow> stat"
  k_getaddrinfo :: "nat \<Rightarrow> string option \<Rightarrow> string option \<Rightarrow> addr_hints option \<Rightarrow> int \<times> addrinfo list"
  k_getnameinfo :: "u8 list \<Rightarrow> int"
  k_sendto :: "nat \<Rightarrow> int \<Rightarrow> u8 list \<Rightarrow> u8 list \<Rightarrow> int \<times> int"
  k_so_error :: "nat \<Rightarrow> int \<Rightarrow> int"
  k_bind :: "nat \<Rightarrow> int \<Rightarrow> u8 list \<Rightarrow> int"
  k_listen :: "nat \<Rightarrow> int \<Rightarrow> int"
  k_accept :: "nat \<Rightarrow> int \<Rightarrow> (u8 list \<times> u8 list) option"

definition AF_UNSPEC :: int where "AF_UNSPEC = 0"
definition SOCK_STREAM :: int where "SOCK_STREAM = 1"
definition AI_PASSIVE :: "32 word" where "AI_PASSIVE = 0x1"
definition AI_V4MAPPED :: "32 word" where "AI_V4MAPPED = 0x8"

text \<open>A new socket, or the near end of a socket pair; sockets can be polled.\<close>

definition sock_info :: "'k net_kernel_scheme \<Rightarrow> 'a send_state_scheme \<Rightarrow> fd_info" where
  "sock_info K w = \<lparr>fd_pollable = True, fd_stat = k_sock_stat K (tick w) (new_fd K w)\<rparr>"

definition open_socket :: "'k net_kernel_scheme \<Rightarrow> 'a send_state_scheme \<Rightarrow> (int \<times> 'a send_state_scheme) option" where
  "open_socket K w = (let fd = new_fd K w in do {
     c_assert (0 \<le> fd);
     Some (fd, w\<lparr>fds := (fds w)(fd \<mapsto> sock_info K w)\<rparr>)
   })"

text \<open>
  What the program relies on: the addresses of the resolver can be printed, sockets can listen, and
  connections are accepted from addresses that fit into a \<^verbatim>\<open>struct sockaddr\<close>.
\<close>

definition SOCKADDR_SIZE :: nat where "SOCKADDR_SIZE = 16"

definition net_ok :: "'k net_kernel_scheme \<Rightarrow> bool" where
  "net_ok K \<longleftrightarrow> kernel_ok K \<and> socket_kernel_ok (k_socket K) \<and> (\<forall>sa. k_getnameinfo K sa = 0) \<and>
     (\<forall>n fd. k_listen K n fd = 0) \<and>
     (\<forall>n fd there here. k_accept K n fd = Some (there, here) \<longrightarrow> length there \<le> SOCKADDR_SIZE \<and> length here \<le> SOCKADDR_SIZE)"

section \<open>Asynchronous resolution\<close>

record async_resolution =
  aq_node :: "string option"
  aq_service :: "string option"
  aq_hints :: "addr_hints option"
  aq_err :: int
  aq_addrs :: "addrinfo list"

record resolve_state = file_state +
  async_threads :: "nat option"
  async_write_fd :: int
  async_requests :: "int \<Rightarrow> async_resolution option"

text \<open>What a thread does with one request.\<close>

definition asyncaddrinfo_main :: "'k net_kernel_scheme \<Rightarrow> nat \<Rightarrow> async_resolution \<Rightarrow> async_resolution" where
  "asyncaddrinfo_main K n res =
     (let (err, addrs) = k_getaddrinfo K n (aq_node res) (aq_service res) (aq_hints res)
      in res\<lparr>aq_err := err, aq_addrs := addrs\<rparr>)"

definition asyncaddrinfo_init :: "'k net_kernel_scheme \<Rightarrow> nat \<Rightarrow> 'a resolve_state_scheme \<Rightarrow> 'a resolve_state_scheme option" where
  "asyncaddrinfo_init K threads w = do {
     c_assert (async_threads w = None);
     (fd, w) \<leftarrow> open_socket K w;
     Some (w\<lparr>async_write_fd := fd, async_threads := Some threads\<rparr>)
   }"

definition asyncaddrinfo_cleanup :: "'a resolve_state_scheme \<Rightarrow> 'a resolve_state_scheme option" where
  "asyncaddrinfo_cleanup w = do {
     c_assert (async_threads w \<noteq> None);
     w \<leftarrow> close_fd (async_write_fd w) w;
     Some (w\<lparr>async_write_fd := -1, async_threads := None\<rparr>)
   }"

definition asyncaddrinfo_resolve ::
    "'k net_kernel_scheme \<Rightarrow> string option \<Rightarrow> string option \<Rightarrow> addr_hints option \<Rightarrow> 'a resolve_state_scheme \<Rightarrow>
      (int \<times> 'a resolve_state_scheme) option" where
  "asyncaddrinfo_resolve K node service hints w = do {
     (fd, w) \<leftarrow> open_socket K w;
     let res = \<lparr>aq_node = node, aq_service = service, aq_hints = hints, aq_err = 0, aq_addrs = []\<rparr>;
     c_assert (async_threads w \<noteq> None);
     Some (fd, w\<lparr>async_requests := (async_requests w)(fd \<mapsto> res)\<rparr>)
   }"

definition asyncaddrinfo_result ::
    "'k net_kernel_scheme \<Rightarrow> int \<Rightarrow> 'a resolve_state_scheme \<Rightarrow> (int \<times> addrinfo list \<times> 'a resolve_state_scheme) option" where
  "asyncaddrinfo_result K fd w = do {
     res \<leftarrow> async_requests w fd;
     let res = asyncaddrinfo_main K (tick w) res;
     w \<leftarrow> close_fd fd (w\<lparr>tick := tick w + 1\<rparr>);
     Some (aq_err res, aq_addrs res, w\<lparr>async_requests := (async_requests w)(fd := None)\<rparr>)
   }"

definition resolve_init :: "'k net_kernel_scheme \<Rightarrow> 'a resolve_state_scheme \<Rightarrow> 'a resolve_state_scheme option" where
  "resolve_init K w = asyncaddrinfo_init K 2 w"

definition resolve_cleanup :: "'a resolve_state_scheme \<Rightarrow> 'a resolve_state_scheme option" where
  "resolve_cleanup w = asyncaddrinfo_cleanup w"

definition resolve ::
    "'k net_kernel_scheme \<Rightarrow> peer_ref \<Rightarrow> peer \<Rightarrow> string option \<Rightarrow> string \<Rightarrow> 32 word \<Rightarrow> 'a resolve_state_scheme \<Rightarrow>
      (peer \<times> 'a resolve_state_scheme) option" where
  "resolve K ptr p node service flags w = do {
     let hints = \<lparr>hint_flags = AI_V4MAPPED OR flags, hint_family = AF_UNSPEC, hint_socktype = SOCK_STREAM\<rparr>;
     (fd, w) \<leftarrow> asyncaddrinfo_resolve K node (Some service) (Some hints) w;
     peer_epoll_add ptr (p\<lparr>peer_fd := fd\<rparr>) True w
   }"

definition resolve_result ::
    "'k net_kernel_scheme \<Rightarrow> peer \<Rightarrow> 'a resolve_state_scheme \<Rightarrow> (int \<times> addrinfo list \<times> peer \<times> 'a resolve_state_scheme) option" where
  "resolve_result K p w = do {
     (err, addrs, w) \<leftarrow> asyncaddrinfo_result K (peer_fd p) w;
     Some (err, addrs, p\<lparr>peer_fd := -1\<rparr>, w)
   }"

section \<open>What resolving keeps\<close>

text \<open>A step of the transport at \<open>a\<close> leaves the registrations and the requests of all others alone.\<close>

definition net_frame :: "nat \<Rightarrow> 'a resolve_state_scheme \<Rightarrow> 'a resolve_state_scheme \<Rightarrow> bool" where
  "net_frame a w w' \<longleftrightarrow> async_threads w' = async_threads w \<and>
     (\<forall>g t. t \<noteq> a \<longrightarrow> (epoll_set w' g = Some (Peer_transport t) \<longleftrightarrow> epoll_set w g = Some (Peer_transport t)) \<and>
        (epoll_set w g = Some (Peer_transport t) \<longrightarrow> async_requests w' g = async_requests w g))"

lemma net_frame_refl [simp]: "net_frame a w w"
  by (simp add: net_frame_def)

lemma net_frame_trans: "net_frame a u v \<Longrightarrow> net_frame a v w \<Longrightarrow> net_frame a u w"
  by (simp add: net_frame_def)

lemma more_resolve:
  fixes w w' :: "'a resolve_state_scheme"
  assumes "sr_state.more w' = sr_state.more w"
  shows "async_threads w' = async_threads w" and "async_requests w' = async_requests w"
    and "file_state.more w' = file_state.more w" and "resolve_state.more w' = resolve_state.more w"
  using assms by (cases w; cases w'; simp)+

lemma net_frame_tp:
  fixes w w' :: "'a resolve_state_scheme"
  shows "tp_frame w w' \<Longrightarrow> net_frame a w w'"
  using more_resolve [of w' w] by (simp add: tp_frame_def net_frame_def)

text \<open>A descriptor of the transport \<open>a\<close> is opened and registered, or unregistered and closed.\<close>

lemma socket_opened:
  fixes w :: "'a sr_state_scheme"
  assumes K: "kernel_ok K" and inv: "conn_inv pend f w"
  defines "w' \<equiv> w\<lparr>fds := (fds w)(new_fd K w \<mapsto> sock_info K w)\<rparr>"
  shows "open_socket K w = Some (new_fd K w, w')" and "conn_inv pend f w'" and "owners f w' = owners f w"
    and "fd_unused (new_fd K w) w'" and "epoll_set w (new_fd K w) = None" and "0 \<le> new_fd K w"
proof -
  have fin: "finite (dom (fds w))" using inv by (simp add: conn_inv_def)
  note n = new_fd_fresh [OF K fin]
  show "0 \<le> new_fd K w" by (rule n)
  then show "open_socket K w = Some (new_fd K w, w')" by (simp add: open_socket_def Let_def w'_def)
  show "conn_inv pend f w'" "owners f w' = owners f w" "fd_unused (new_fd K w) w'"
    using conn_inv_opened [OF inv n] by (simp_all add: w'_def)
  have "receive_ok w" using inv by (simp add: conn_inv_def wakeup_ok_def)
  then show "epoll_set w (new_fd K w) = None" using fd_new_unused(3) n(2) by blast
qed

lemma socket_registered:
  fixes w :: "'a sr_state_scheme" and a :: nat
  assumes inv: "conn_inv pend f w" and fd: "fd_unused fd w" "fds w fd = Some info" "fd_pollable info" and p: "peer_fd p = fd"
  defines "w' \<equiv> w\<lparr>epoll_set := (epoll_set w)(fd \<mapsto> Peer_transport a)\<rparr>"
  shows "peer_epoll_add (Peer_transport a) p ev w = Some (p\<lparr>peer_always_trigger := False\<rparr>, w')"
    and "conn_inv pend f w'" and "owners f w' = owners f w" and "conn_owners w' = conn_owners w"
proof -
  have u: "epoll_set w fd = None" "fd \<notin> snd_fd ` set (all_sends w)" "fd \<notin> rx_fd ` set (receive_head w)"
    using fd(1) by (simp_all add: fd_unused_def fd_free_def fd_fresh_def)
  show "peer_epoll_add (Peer_transport a) p ev w = Some (p\<lparr>peer_always_trigger := False\<rparr>, w')"
    using u(1) fd p by (simp add: peer_epoll_add_def epoll_ctl_add_def Let_def w'_def)
  have w': "w' = w\<lparr>fds := (fds w)(fd := Some info), epoll_set := (epoll_set w)(fd := Some (Peer_transport a))\<rparr>"
    using fd(2) by (simp add: w'_def fun_upd_idem)
  from conn_inv_foreign [OF inv u(2,3) _ _ w'] show "conn_inv pend f w'" "owners f w' = owners f w"
      "conn_owners w' = conn_owners w"
    using u(1) fd(3) by simp_all
qed

lemma resolve_spec:
  fixes w :: "'a resolve_state_scheme"
  assumes K: "kernel_ok K" and inv: "conn_inv pend f w" and th: "async_threads w \<noteq> None"
  shows "\<exists>fd res info w'. resolve K (Peer_transport a) p node service flags w =
      Some (p\<lparr>peer_fd := fd, peer_always_trigger := False\<rparr>, w') \<and> 0 \<le> fd \<and> epoll_set w fd = None \<and>
    w' = w\<lparr>fds := (fds w)(fd \<mapsto> info), async_requests := (async_requests w)(fd \<mapsto> res),
      epoll_set := (epoll_set w)(fd \<mapsto> Peer_transport a)\<rparr> \<and> conn_inv pend f w' \<and> owners f w' = owners f w"
proof -
  note so = socket_opened [OF K inv]
  define fd where "fd = new_fd K w"
  define res where "res = \<lparr>aq_node = node, aq_service = Some service, aq_hints = Some \<lparr>hint_flags = AI_V4MAPPED OR flags,
    hint_family = AF_UNSPEC, hint_socktype = SOCK_STREAM\<rparr>, aq_err = 0, aq_addrs = []\<rparr>"
  define v where "v = w\<lparr>fds := (fds w)(fd \<mapsto> sock_info K w), async_requests := (async_requests w)(fd \<mapsto> res)\<rparr>"
  have v: "conn_inv pend f v" "owners f v = owners f w"
    using conn_inv_same [OF so(2), of v] so(3) conn_inv_rand [OF inv] by (simp_all add: v_def fd_def)
  have "fd_unused fd v" using so(4) by (simp add: v_def fd_def fd_unused_def fd_free_def fd_fresh_def all_sends_def)
  from socket_registered [OF v(1) this, where info = "sock_info K w" and p = "p\<lparr>peer_fd := fd\<rparr>" and a = a] have
    r: "peer_epoll_add (Peer_transport a) (p\<lparr>peer_fd := fd\<rparr>) True v = Some (p\<lparr>peer_fd := fd, peer_always_trigger := False\<rparr>,
      v\<lparr>epoll_set := (epoll_set v)(fd \<mapsto> Peer_transport a)\<rparr>)"
      "conn_inv pend f (v\<lparr>epoll_set := (epoll_set v)(fd \<mapsto> Peer_transport a)\<rparr>)"
      "owners f (v\<lparr>epoll_set := (epoll_set v)(fd \<mapsto> Peer_transport a)\<rparr>) = owners f v"
    by (simp_all add: v_def sock_info_def)
  have "resolve K (Peer_transport a) p node service flags w = peer_epoll_add (Peer_transport a) (p\<lparr>peer_fd := fd\<rparr>) True v"
    using so(1) th by (simp add: resolve_def asyncaddrinfo_resolve_def Let_def v_def res_def fd_def)
  then show ?thesis using r v(2) so(5,6) by (auto simp: v_def fd_def)
qed

lemma resolve_result_spec:
  fixes w :: "'a resolve_state_scheme"
  assumes inv: "conn_inv pend f w" and e: "epoll_set w (peer_fd p) = Some (Peer_transport a)"
    and r: "async_requests w (peer_fd p) \<noteq> None"
  defines "w' \<equiv> w\<lparr>tick := tick w + 1, fds := (fds w)(peer_fd p := None), epoll_set := (epoll_set w)(peer_fd p := None),
    async_requests := (async_requests w)(peer_fd p := None)\<rparr>"
  shows "\<exists>err addrs. resolve_result K p w = Some (err, addrs, p\<lparr>peer_fd := -1\<rparr>, w')"
    and "conn_inv pend f w'" and "owners f w' = owners f w"
proof -
  define v where "v = w\<lparr>fds := (fds w)(peer_fd p := None), epoll_set := (epoll_set w)(peer_fd p := None)\<rparr>"
  note fr = foreign_registered [OF inv e foreign_simps(2)]
  note c = conn_inv_foreign [OF inv fr(2,3), where e = None and i = None, OF _ _ v_def]
  have v: "conn_inv pend f v" "owners f v = owners f w" using c e by simp_all
  show "conn_inv pend f w'" "owners f w' = owners f w"
    using conn_inv_same [OF v(1), of w'] v(2) conn_inv_rand [OF inv] by (simp_all add: w'_def v_def)
  show "\<exists>err addrs. resolve_result K p w = Some (err, addrs, p\<lparr>peer_fd := -1\<rparr>, w')"
    using fr(1) r by (auto simp: resolve_result_def asyncaddrinfo_result_def close_fd_def Let_def w'_def)
qed

text \<open>Only the descriptor \<open>fd\<close> changes, and it is and was registered for \<open>a\<close> or not at all.\<close>

lemma net_changed:
  fixes w :: "'a resolve_state_scheme"
  assumes same: "v = w\<lparr>tick := n, fds := ft, epoll_set := et, async_requests := rt\<rparr>"
    and et: "\<And>g. g \<noteq> fd \<Longrightarrow> et g = epoll_set w g" "\<And>g. g \<noteq> fd \<Longrightarrow> rt g = async_requests w g"
    and fd: "epoll_set w fd \<in> {None, Some (Peer_transport a)}" "et fd \<in> {None, Some (Peer_transport a)}"
  shows "net_frame a w v" and "call_frame w v"
    and "t \<noteq> a \<Longrightarrow> epoll_set v g = Some (Peer_transport t) \<longleftrightarrow> epoll_set w g = Some (Peer_transport t)"
proof -
  have e: "et g = Some (Peer_transport t) \<longleftrightarrow> epoll_set w g = Some (Peer_transport t)" if "t \<noteq> a" for g t
    using et fd that by (cases "g = fd") auto
  then show "t \<noteq> a \<Longrightarrow> epoll_set v g = Some (Peer_transport t) \<longleftrightarrow> epoll_set w g = Some (Peer_transport t)" by (simp add: same)
  have s: "et g = Some Peer_shutdown \<longleftrightarrow> epoll_set w g = Some Peer_shutdown" for g
    using et fd by (cases "g = fd") auto
  have r: "rt g = async_requests w g" if "epoll_set w g = Some (Peer_transport t)" "t \<noteq> a" for g t
    using et(2) [of g] fd(1) that by (cases "g = fd") auto
  show "net_frame a w v" using e r by (simp add: net_frame_def same)
  show "call_frame w v" by (rule call_frame_heads) (simp_all add: same s)
qed

text \<open>Some descriptor is not registered.\<close>

lemma conn_inv_unregistered:
  assumes "conn_inv pend f w"
  shows "\<exists>g. epoll_set w g = None"
proof -
  have "receive_ok w" using assms by (simp add: conn_inv_def wakeup_ok_def)
  then have ps: "peer_state_ok w" by (simp add: receive_ok_def send_ok_def)
  have "\<exists>g. fds w g = None"
  proof (rule ccontr)
    assume "\<not> ?thesis"
    then have "dom (fds w) = UNIV" by auto
    then show False using assms infinite_UNIV_int by (simp add: conn_inv_def)
  qed
  then show ?thesis using ps unfolding peer_state_ok_def by (metis not_Some_eq option.distinct(1))
qed

section \<open>Peers that are registered\<close>

text \<open>The peer is registered for its descriptor, and for no other.\<close>

definition registered_at :: "nat \<Rightarrow> peer \<Rightarrow> 'a peer_state_scheme \<Rightarrow> bool" where
  "registered_at a p w \<longleftrightarrow> 0 \<le> peer_fd p \<and> \<not> peer_always_trigger p \<and> epoll_set w (peer_fd p) = Some (Peer_transport a) \<and>
     (\<forall>g. epoll_set w g = Some (Peer_transport a) \<longrightarrow> g = peer_fd p)"

definition net_up :: "'k net_kernel_scheme \<Rightarrow> 'a resolve_state_scheme \<Rightarrow> bool" where
  "net_up K w \<longleftrightarrow> net_ok K \<and> async_threads w \<noteq> None"

lemma registered_at_fr: "registered_at a p w \<Longrightarrow> net_frame b w w' \<Longrightarrow> a \<noteq> b \<Longrightarrow> registered_at a p w'"
  by (simp add: registered_at_def net_frame_def)

text \<open>The answer of the resolver is fetched, which closes the descriptor.\<close>

lemma resolve_answered:
  fixes w :: "'a resolve_state_scheme"
  assumes inv: "conn_inv (\<lambda>_. 0) f w" and reg: "registered_at a p w" and r: "async_requests w (peer_fd p) \<noteq> None"
  shows "\<exists>err addrs v. resolve_result K p w = Some (err, addrs, p\<lparr>peer_fd := -1\<rparr>, v) \<and> conn_inv (\<lambda>_. 0) f v \<and>
    owners f v = owners f w \<and> net_frame a w v \<and> call_frame w v \<and> next_addr v = next_addr w \<and>
    wakeup_head v = wakeup_head w \<and> peer_always_trigger_head v = peer_always_trigger_head w \<and>
    (\<forall>g t. epoll_set v g = Some (Peer_transport t) \<longrightarrow> t \<noteq> a \<and> epoll_set w g = Some (Peer_transport t)) \<and>
    (\<exists>n ft et rt. v = w\<lparr>tick := n, fds := ft, epoll_set := et, async_requests := rt\<rparr>)"
proof -
  define fd where "fd = peer_fd p"
  have e: "epoll_set w fd = Some (Peer_transport a)" and only: "epoll_set w g = Some (Peer_transport a) \<Longrightarrow> g = fd" for g
    using reg by (simp_all add: registered_at_def fd_def)
  define v where "v = w\<lparr>tick := tick w + 1, fds := (fds w)(fd := None), epoll_set := (epoll_set w)(fd := None),
    async_requests := (async_requests w)(fd := None)\<rparr>"
  note rr = resolve_result_spec [OF inv e [unfolded fd_def] r, folded fd_def, folded v_def]
  from rr(1) [of K] obtain err addrs where res: "resolve_result K p w = Some (err, addrs, p\<lparr>peer_fd := -1\<rparr>, v)" by blast
  have "net_frame a w v" "call_frame w v"
    by (rule net_changed [OF v_def, where fd = fd]; use e in simp)+
  moreover have "\<exists>n ft et rt. v = w\<lparr>tick := n, fds := ft, epoll_set := et, async_requests := rt\<rparr>" unfolding v_def by blast
  ultimately show ?thesis using res rr(2,3) only
    by (intro exI [of _ err] exI [of _ addrs] exI [of _ v]) (auto simp: v_def split: if_splits)
qed

section \<open>Handlers of network transports\<close>

text \<open>An open socket that is not registered and that no connection owns.\<close>

definition socket_held :: "int \<Rightarrow> 'a sr_state_scheme \<Rightarrow> bool" where
  "socket_held fd w \<longleftrightarrow> fd_unused fd w \<and> (\<exists>info. fds w fd = Some info \<and> fd_pollable info)"

lemma socket_held_new:
  assumes K: "kernel_ok K" and inv: "conn_inv pend f w"
  shows "\<exists>fd v. open_socket K w = Some (fd, v) \<and> conn_inv pend f v \<and> owners f v = owners f w \<and> conn_frame w v \<and>
    socket_held fd v \<and> (\<forall>g. socket_held g w \<longrightarrow> g \<noteq> fd \<and> socket_held g v)"
proof -
  note so = socket_opened [OF K inv]
  define v where "v = w\<lparr>fds := (fds w)(new_fd K w \<mapsto> sock_info K w)\<rparr>"
  have "fds w (new_fd K w) = None" using K inv by (intro new_fd_fresh(2)) (simp_all add: conn_inv_def)
  then have "g \<noteq> new_fd K w \<and> socket_held g v" if "socket_held g w" for g
    using that by (auto simp: socket_held_def v_def fd_unused_def fd_free_def fd_fresh_def all_sends_def)
  moreover have "conn_frame w v" by (rule conn_frameI) (simp_all add: v_def t_frame_def)
  moreover have "socket_held (new_fd K w) v" using so(4) by (simp add: socket_held_def v_def sock_info_def)
  ultimately show ?thesis using so(1-3) by (auto simp: v_def)
qed

lemma socket_held_closed:
  assumes inv: "conn_inv pend f w" and fd: "socket_held fd w"
  shows "\<exists>v. close_fd fd w = Some v \<and> conn_inv pend f v \<and> owners f v = owners f w \<and> conn_frame w v \<and>
    (\<forall>g. g \<noteq> fd \<longrightarrow> socket_held g w \<longrightarrow> socket_held g v)"
proof -
  have fd': "fd \<notin> snd_fd ` set (all_sends w)" "fd \<notin> rx_fd ` set (receive_head w)" "epoll_set w fd = None" "fds w fd \<noteq> None"
    using fd by (auto simp: socket_held_def fd_unused_def fd_free_def fd_fresh_def)
  define v where "v = w\<lparr>fds := (fds w)(fd := None), epoll_set := (epoll_set w)(fd := None)\<rparr>"
  note c = conn_inv_unused [OF inv fd'(1-3) v_def]
  have "conn_frame w v" using fd'(3) by (intro conn_frameI) (auto simp: v_def t_frame_def)
  moreover have "socket_held g v" if "g \<noteq> fd" "socket_held g w" for g
    using that by (auto simp: socket_held_def v_def fd_unused_def fd_free_def fd_fresh_def all_sends_def)
  ultimately show ?thesis using c fd'(4) by (auto simp: close_fd_def v_def)
qed

text \<open>
  The steps the handlers of outgoing connections and incoming transports are made of. \<open>frame_net\<close> and \<open>heads_net\<close>:
  the calls of the resolver and of the poller do not change the structures.
\<close>

locale net_handlers = handlers heads at phase attempt ok "net_up K" net_frame store frame
  for heads :: "'a resolve_state_scheme \<Rightarrow> 'c list" and at phase attempt ok and K :: "'k net_kernel_scheme" and store frame +
  assumes heads_net: "heads (w\<lparr>tick := n, fds := ft, epoll_set := et, async_requests := rt\<rparr>) = heads w"
    and frame_net: "v = w\<lparr>tick := n, fds := ft, epoll_set := et, async_requests := rt\<rparr> \<Longrightarrow> net_frame a w v \<Longrightarrow>
      call_frame w v \<Longrightarrow> frame a w v"
    and store_net: "async_requests (store q w) = async_requests w"
begin

lemma work_up:
  assumes "work oth f q w"
  shows "kernel_ok K" and "net_ok K" and "async_threads w \<noteq> None" and "find (\<lambda>p. at p = at q) (heads w) = Some q"
  using workD(6) [OF assms] found(1) [OF workD(2,3) [OF assms]] by (simp_all add: net_up_def net_ok_def)

lemma held_store: "socket_held fd (store q w) \<longleftrightarrow> socket_held fd w"
  by (simp add: socket_held_def fd_unused_store store_fields)

text \<open>A socket is opened, or closed again.\<close>

lemma work_open:
  assumes wk: "work oth f q w"
  shows "\<exists>fd v. open_socket K w = Some (fd, v) \<and> work oth f q v \<and> frame a w v \<and> heads v = heads w \<and> socket_held fd v"
  using socket_held_new [OF work_up(1) [OF wk] workD(1) [OF wk]] work_conn [OF wk] by blast

lemma work_close:
  assumes wk: "work oth f q w" and fd: "socket_held fd w"
  shows "\<exists>v. close_fd fd w = Some v \<and> work oth f q v \<and> frame a w v \<and> heads v = heads w"
  using socket_held_closed [OF workD(1) [OF wk] fd] work_conn [OF wk] by blast

lemma work_tick:
  assumes wk: "work oth f q w"
  shows "work oth f q (w\<lparr>tick := n, trace := tr\<rparr>)" and "frame a w (w\<lparr>tick := n, trace := tr\<rparr>)"
    and "heads (w\<lparr>tick := n, trace := tr\<rparr>) = heads w"
proof -
  have "conn_frame w (w\<lparr>tick := n, trace := tr\<rparr>)" by (rule conn_frameI) (simp_all add: t_frame_def)
  from work_conn [OF wk conn_inv_ticked [OF workD(1) [OF wk]] this] show "work oth f q (w\<lparr>tick := n, trace := tr\<rparr>)"
    "frame a w (w\<lparr>tick := n, trace := tr\<rparr>)" "heads (w\<lparr>tick := n, trace := tr\<rparr>) = heads w" .
qed

text \<open>A descriptor of the structure is registered, and the structure is put into its next state.\<close>

lemma leave_armed:
  assumes wk: "work oth f q w" and q': "at q' = at q" "phase q' = Ph_armed"
    and v: "v = w\<lparr>tick := n, fds := ft, epoll_set := (epoll_set w)(fd \<mapsto> Peer_transport (at q)), async_requests := rt\<rparr>"
    and rt: "\<And>g. g \<noteq> fd \<Longrightarrow> rt g = async_requests w g"
    and ci: "conn_inv (\<lambda>_. 0) f v" "owners f v = owners f w" and e: "epoll_set w fd = None" "0 \<le> fd"
    and ok: "registered_at (at q) (p\<lparr>peer_fd := fd, peer_always_trigger := False\<rparr>) (store q' v) \<Longrightarrow>
      async_requests (store q' v) fd = rt fd \<Longrightarrow> ok q' (store q' v)"
  shows "finished oth f (at q) (attempt q') w (store q' v)"
proof -
  have ch: "net_frame (at q) w v" "call_frame w v"
    "\<And>g t. t \<noteq> at q \<Longrightarrow> epoll_set v g = Some (Peer_transport t) \<longleftrightarrow> epoll_set w g = Some (Peer_transport t)"
    by (rule net_changed [OF v, where fd = fd]; use rt e in simp)+
  have hv: "heads v = heads w" by (simp add: v heads_net)
  note st = stored_after [OF ci, of q', unfolded q'(1), OF _ _ _ hv frame_net [OF v ch(1,2)] iffD1 [OF ch(3)]]
  have st: "stored q' f w (store q' v)" "frame (at q) w (store q' v)"
    by (rule st; simp add: v)+
  have "registered_at (at q) (p\<lparr>peer_fd := fd, peer_always_trigger := False\<rparr>) (store q' v)"
    using e workD(7) [OF wk] by (auto simp: registered_at_def store_fields v)
  then have "ok q' (store q' v)" by (rule ok) (simp add: store_net v)
  then have "sys oth f (store q' v)" by (intro leave(1) [OF wk q'(1) st(1)]) (simp_all add: q'(2))
  then show ?thesis
    using finishedI [of oth f "store q' v" q' w "attempt q'"] st(2) q' by (simp add: heads_store hv)
qed

lemma held_armed:
  assumes wk: "work oth f q w" and q': "at q' = at q" "phase q' = Ph_armed" and fd: "socket_held (peer_fd p) w"
    and ok: "\<And>v. registered_at (at q) (p\<lparr>peer_always_trigger := False\<rparr>) v \<Longrightarrow> ok q' v"
  shows "\<exists>v. peer_epoll_add (Peer_transport (at q)) p True w = Some (p\<lparr>peer_always_trigger := False\<rparr>, v) \<and>
    finished oth f (at q) (attempt q') w (store q' v)"
proof -
  obtain info where i: "fd_unused (peer_fd p) w" "fds w (peer_fd p) = Some info" "fd_pollable info"
    using fd by (auto simp: socket_held_def)
  note r = socket_registered [OF workD(1) [OF wk] i refl, where a = "at q"]
  have e: "epoll_set w (peer_fd p) = None" "0 \<le> peer_fd p" using i(1) by (simp_all add: fd_unused_def fd_free_def fd_fresh_def)
  have "finished oth f (at q) (attempt q') w (store q' (w\<lparr>epoll_set := (epoll_set w)(peer_fd p \<mapsto> Peer_transport (at q))\<rparr>))"
    by (rule leave_armed [OF wk q' _ _ r(2,3) e, where n = "tick w" and ft = "fds w" and rt = "async_requests w" and p = p])
      (use ok in simp_all)
  then show ?thesis using r(1) by blast
qed

lemma resolve_armed:
  assumes wk: "work oth f q w" and q': "\<And>fd. at (q' fd) = at q" "\<And>fd. phase (q' fd) = Ph_armed" "\<And>fd. attempt (q' fd) = n"
    and ok: "\<And>fd v. registered_at (at q) (p\<lparr>peer_fd := fd, peer_always_trigger := False\<rparr>) v \<Longrightarrow>
      async_requests v fd \<noteq> None \<Longrightarrow> ok (q' fd) v"
  shows "\<exists>fd v. resolve K (Peer_transport (at q)) p node service flags w =
      Some (p\<lparr>peer_fd := fd, peer_always_trigger := False\<rparr>, v) \<and> finished oth f (at q) n w (store (q' fd) v)"
proof -
  note up = work_up [OF wk] and inv = workD(1) [OF wk]
  from resolve_spec [OF up(1) inv up(3), of "at q" p node service flags] obtain fd res info v where
    v: "resolve K (Peer_transport (at q)) p node service flags w = Some (p\<lparr>peer_fd := fd, peer_always_trigger := False\<rparr>, v)"
      "0 \<le> fd" "epoll_set w fd = None"
      "v = w\<lparr>fds := (fds w)(fd \<mapsto> info), async_requests := (async_requests w)(fd \<mapsto> res),
        epoll_set := (epoll_set w)(fd \<mapsto> Peer_transport (at q))\<rparr>" "conn_inv (\<lambda>_. 0) f v" "owners f v = owners f w" by blast
  have "finished oth f (at q) (attempt (q' fd)) w (store (q' fd) v)"
    by (rule leave_armed [OF wk q'(1,2) _ _ v(5,6,3,2), where n = "tick w" and ft = "(fds w)(fd \<mapsto> info)"
        and rt = "(async_requests w)(fd \<mapsto> res)" and p = p]) (use ok v(4) in simp_all)
  then show ?thesis using v(1) by (auto simp: q'(3))
qed

text \<open>A structure whose answer has come, or whose socket has been unregistered.\<close>

lemma enter_answered:
  assumes sys: "sys oth f w" and q: "q \<in> set (heads w)" and own: "Some (Peer_transport (at q)) \<notin># owners f w"
    and reg: "registered_at (at q) p w" and r: "async_requests w (peer_fd p) \<noteq> None"
  shows "\<exists>err addrs v. resolve_result K p w = Some (err, addrs, p\<lparr>peer_fd := -1\<rparr>, v) \<and> work oth f q v \<and>
    frame (at q) w v \<and> heads v = heads w"
proof -
  from resolve_answered [OF called(4) [OF sys q] reg r, of K] obtain err addrs v n ft et rt where
    r: "resolve_result K p w = Some (err, addrs, p\<lparr>peer_fd := -1\<rparr>, v)"
      "conn_inv (\<lambda>_. 0) f v" "owners f v = owners f w" "net_frame (at q) w v" "call_frame w v"
      "\<And>g t. epoll_set v g = Some (Peer_transport t) \<Longrightarrow> t \<noteq> at q \<and> epoll_set w g = Some (Peer_transport t)"
      "v = w\<lparr>tick := n, fds := ft, epoll_set := et, async_requests := rt\<rparr>" by blast
  have h: "heads v = heads w" by (simp add: r(7) heads_net)
  have "work oth f q v"
    by (rule enter(1) [OF sys q own r(2,3) _ _ _ h r(4)]) (use r(6) in \<open>auto simp: r(7)\<close>)
  then show ?thesis using r(1) h frame_net [OF r(7,4,5)] by blast
qed

lemma enter_unregistered:
  assumes sys: "sys oth f w" and q: "q \<in> set (heads w)" and own: "Some (Peer_transport (at q)) \<notin># owners f w"
    and reg: "registered_at (at q) p w"
  shows "\<exists>v. peer_epoll_del (Peer_transport (at q)) p w = Some v \<and> work oth f q v \<and>
    frame (at q) w v \<and> heads v = heads w \<and> socket_held (peer_fd p) v"
proof -
  note ci = called(4) [OF sys q]
  define fd where "fd = peer_fd p"
  have e: "epoll_set w fd = Some (Peer_transport (at q))" "0 \<le> fd"
    and only: "\<And>g. epoll_set w g = Some (Peer_transport (at q)) \<Longrightarrow> g = fd"
    using reg by (simp_all add: registered_at_def fd_def)
  note fr = foreign_registered [OF ci e(1) foreign_simps(2)]
  obtain info where i: "fds w fd = Some info" "fd_pollable info" using fr(1) by blast
  define v where "v = w\<lparr>epoll_set := (epoll_set w)(fd := None)\<rparr>"
  have v': "v = w\<lparr>fds := (fds w)(fd := Some info), epoll_set := (epoll_set w)(fd := None)\<rparr>"
    using i(1) by (simp add: v_def fun_upd_idem)
  from conn_inv_foreign [OF ci fr(2,3) _ _ v'] have ui: "conn_inv (\<lambda>_. 0) f v" "owners f v = owners f w" using e(1) by simp_all
  have vn: "v = w\<lparr>tick := tick w, fds := fds w, epoll_set := (epoll_set w)(fd := None), async_requests := async_requests w\<rparr>"
    by (simp add: v_def)
  have ch: "net_frame (at q) w v" "call_frame w v" by (rule net_changed [OF vn, where fd = fd]; use e in simp)+
  have h: "heads v = heads w" unfolding vn by (rule heads_net)
  have "work oth f q v"
    by (rule enter(1) [OF sys q own ui _ _ _ h ch(1)]) (use only in \<open>auto simp: v_def split: if_splits\<close>)
  moreover have "peer_epoll_del (Peer_transport (at q)) p w = Some v"
    using i e(1) by (simp add: peer_epoll_del_def epoll_ctl_del_def Let_def fd_def [symmetric] v_def)
  moreover have "socket_held fd v"
    using fr(4) e(2) i by (auto simp: socket_held_def v_def)
  ultimately show ?thesis using h frame_net [OF vn ch] by (auto simp: fd_def)
qed

end

end
