(* ===== verification/Outgoing.thy ===== *)
theory Outgoing
  imports Resolve
begin

text \<open>
  Model of \<^verbatim>\<open>adsbus/outgoing.c\<close>: connections to other hosts. An outgoing connection resolves its
  name, tries the addresses one after the other, hands the connected socket over to its flow, and starts again when the
  connection has ended or nothing could be reached. Its four event handlers are the values of \<open>ou_handler\<close>.
\<close>

section \<open>State\<close>

datatype outgoing_handler =
  Outgoing_resolve_handler | Outgoing_connect_handler | Outgoing_disconnect_handler | Outgoing_resolve_wrapper

text \<open>
  \<open>ou_addrs\<close> is the list of addresses while it is allocated, \<open>ou_addr\<close> what is left of it to be tried. The heap is not
  modelled, but \<open>addrs_lost\<close> collects the lists that are still allocated when the last pointer to them is gone.
\<close>

record outgoing =
  ou_at :: nat
  ou_peer :: peer
  ou_handler :: "outgoing_handler option"
  ou_id :: "u8 list"
  ou_node :: string
  ou_service :: string
  ou_addrs :: "addrinfo list option"
  ou_addr :: "addrinfo list"
  ou_attempt :: u32
  ou_flow :: flow_ref
  ou_pass :: "nat option"

record outgoing_state = resolve_state +
  outgoing_head :: "outgoing list"
  addrs_lost :: "addrinfo list list"

definition outgoing_find :: "nat \<Rightarrow> 'a outgoing_state_scheme \<Rightarrow> outgoing option" where
  "outgoing_find a w = find (\<lambda>q. ou_at q = a) (outgoing_head w)"

definition outgoing_store :: "outgoing \<Rightarrow> 'a outgoing_state_scheme \<Rightarrow> 'a outgoing_state_scheme" where
  "outgoing_store ou w = w\<lparr>outgoing_head := struct_upd ou_at ou (outgoing_head w)\<rparr>"

text \<open>\<^verbatim>\<open>outgoing->addrs\<close> is overwritten, or goes with the structure, whatever it points to.\<close>

definition outgoing_forget :: "outgoing \<Rightarrow> 'a outgoing_state_scheme \<Rightarrow> 'a outgoing_state_scheme" where
  "outgoing_forget ou w = (case ou_addrs ou of None \<Rightarrow> w | Some addrs \<Rightarrow> w\<lparr>addrs_lost := addrs_lost w @ [addrs]\<rparr>)"

section \<open>Operations\<close>

definition outgoing_retry ::
    "'j env \<Rightarrow> 'k net_kernel_scheme \<Rightarrow> nat \<Rightarrow> 'a outgoing_state_scheme \<Rightarrow> 'a outgoing_state_scheme option" where
  "outgoing_retry E K a w = do {
     ou \<leftarrow> outgoing_find a w;
     let ou = ou\<lparr>ou_peer := (ou_peer ou)\<lparr>peer_fd := -1\<rparr>, ou_attempt := ou_attempt ou + 1\<rparr>;
     (delay, rs) \<leftarrow> wakeup_get_retry_delay_ms (env_entropy E) (ou_attempt ou) (rnd w);
     let w = outgoing_store (ou\<lparr>ou_handler := Some Outgoing_resolve_wrapper\<rparr>) w;
     wakeup_add (new_fd K w) (k_timer_stat K) (Peer_transport a) delay (w\<lparr>rnd := rs\<rparr>)
   }"

text \<open>
  The first argument is \<^verbatim>\<open>outgoing->addr\<close>, the addresses left. The second function decides by the \<open>result\<close> of
  connecting to the first of them. Using the list of addresses after it was freed, or freeing it twice, is \<open>None\<close>.
\<close>

function outgoing_connect_next ::
    "'j env \<Rightarrow> 'k net_kernel_scheme \<Rightarrow> addrinfo list \<Rightarrow> nat \<Rightarrow> 'a outgoing_state_scheme \<Rightarrow> 'a outgoing_state_scheme option"
  and outgoing_connect_result ::
    "'j env \<Rightarrow> 'k net_kernel_scheme \<Rightarrow> addrinfo \<Rightarrow> addrinfo list \<Rightarrow> int \<Rightarrow> nat \<Rightarrow>
      'a outgoing_state_scheme \<Rightarrow> 'a outgoing_state_scheme option" where
  "outgoing_connect_next E K [] a w = do {
     ou \<leftarrow> outgoing_find a w;
     c_assert (ou_addrs ou \<noteq> None);
     outgoing_retry E K a (outgoing_store (ou\<lparr>ou_addrs := None\<rparr>) w)
   }"
| "outgoing_connect_next E K (ai # ais) a w = do {
     ou \<leftarrow> outgoing_find a w;
     c_assert (ou_addrs ou \<noteq> None);
     c_assert (k_getnameinfo K (ai_addr ai) = 0);
     (fd, w) \<leftarrow> open_socket K w;
     let w = outgoing_store (ou\<lparr>ou_peer := (ou_peer ou)\<lparr>peer_fd := fd\<rparr>\<rparr>) w;
     b \<leftarrow> flow_get_hello (the_flow E K (ou_flow ou)) BUF_INIT (ou_pass ou) w;
     bytes \<leftarrow> buf_get b 0 (buf_length b);
     let (n, errno) = k_sendto K (tick w) fd bytes (ai_addr ai);
     let w = w\<lparr>tick := tick w + 1, trace := trace w @ [Ev_write fd bytes n]\<rparr>;
     outgoing_connect_result E K ai ais (if n = int (length bytes) then EINPROGRESS else errno) a w
   }"
| "outgoing_connect_result E K ai ais result a w = do {
     ou \<leftarrow> outgoing_find a w;
     c_assert (ou_addrs ou \<noteq> None);
     c_assert (k_getnameinfo K (ai_addr ai) = 0);
     let fd = peer_fd (ou_peer ou);
     let flow = the_flow E K (ou_flow ou);
     if result = 0 then do {
       let w = outgoing_store (ou\<lparr>ou_addrs := None, ou_attempt := 0, ou_peer := (ou_peer ou)\<lparr>peer_fd := -1\<rparr>,
         ou_handler := Some Outgoing_disconnect_handler\<rparr>) w;
       flow_socket_ready (k_socket K) (tick w) fd flow;
       flow_socket_connected (k_socket K) (tick w) fd flow;
       flow_new fd flow (ou_pass ou) (Some (Peer_transport a)) w
     }
     else if result = EINPROGRESS then do {
       (p, w) \<leftarrow> peer_epoll_add (Peer_transport a) (ou_peer ou) True w;
       Some (outgoing_store (ou\<lparr>ou_peer := p, ou_handler := Some Outgoing_connect_handler\<rparr>) w)
     }
     else do {
       w \<leftarrow> close_fd fd w;
       outgoing_connect_next E K ais a (outgoing_store (ou\<lparr>ou_addr := ais\<rparr>) w)
     }
   }"
  by pat_completeness auto

termination
  by (relation "measure (case_sum (\<lambda>(E, K, ais, a, w). 2 * length ais) (\<lambda>(E, K, ai, ais, result, a, w). 2 * length ais + 1))")
    auto

declare outgoing_connect_next.simps [simp del] outgoing_connect_result.simps [simp del]

definition outgoing_connect_handler ::
    "'j env \<Rightarrow> 'k net_kernel_scheme \<Rightarrow> nat \<Rightarrow> 'a outgoing_state_scheme \<Rightarrow> 'a outgoing_state_scheme option" where
  "outgoing_connect_handler E K a w = do {
     ou \<leftarrow> outgoing_find a w;
     w \<leftarrow> peer_epoll_del (Peer_transport a) (ou_peer ou) w;
     let error = k_so_error K (tick w) (peer_fd (ou_peer ou));
     let w = w\<lparr>tick := tick w + 1\<rparr>;
     case ou_addr ou of
       [] \<Rightarrow> None
     | ai # ais \<Rightarrow> outgoing_connect_result E K ai ais error a w
   }"

definition outgoing_disconnect_handler ::
    "'j env \<Rightarrow> 'k net_kernel_scheme \<Rightarrow> nat \<Rightarrow> 'a outgoing_state_scheme \<Rightarrow> 'a outgoing_state_scheme option" where
  "outgoing_disconnect_handler E K a w = outgoing_retry E K a w"

definition outgoing_resolve_handler ::
    "'j env \<Rightarrow> 'k net_kernel_scheme \<Rightarrow> nat \<Rightarrow> 'a outgoing_state_scheme \<Rightarrow> 'a outgoing_state_scheme option" where
  "outgoing_resolve_handler E K a w = do {
     ou \<leftarrow> outgoing_find a w;
     (err, addrs, p, w) \<leftarrow> resolve_result K (ou_peer ou) w;
     let w = outgoing_forget ou w;
     if err \<noteq> 0 then outgoing_retry E K a (outgoing_store (ou\<lparr>ou_peer := p, ou_addrs := None\<rparr>) w)
     else outgoing_connect_next E K addrs a
       (outgoing_store (ou\<lparr>ou_peer := p, ou_addrs := Some addrs, ou_addr := addrs\<rparr>) w)
   }"

definition outgoing_resolve ::
    "'k net_kernel_scheme \<Rightarrow> nat \<Rightarrow> 'a outgoing_state_scheme \<Rightarrow> 'a outgoing_state_scheme option" where
  "outgoing_resolve K a w = do {
     ou \<leftarrow> outgoing_find a w;
     (p, w) \<leftarrow> resolve K (Peer_transport a) (ou_peer ou) (Some (ou_node ou)) (ou_service ou) 0 w;
     Some (outgoing_store (ou\<lparr>ou_peer := p, ou_handler := Some Outgoing_resolve_handler\<rparr>) w)
   }"

definition outgoing_resolve_wrapper ::
    "'k net_kernel_scheme \<Rightarrow> nat \<Rightarrow> 'a outgoing_state_scheme \<Rightarrow> 'a outgoing_state_scheme option" where
  "outgoing_resolve_wrapper K a w = outgoing_resolve K a w"

text \<open>\<^verbatim>\<open>peer->event_handler(peer)\<close> for the peer of an outgoing connection.\<close>

definition outgoing_event ::
    "'j env \<Rightarrow> 'k net_kernel_scheme \<Rightarrow> nat \<Rightarrow> 'a outgoing_state_scheme \<Rightarrow> 'a outgoing_state_scheme option" where
  "outgoing_event E K a w = do {
     ou \<leftarrow> outgoing_find a w;
     h \<leftarrow> ou_handler ou;
     case h of
       Outgoing_resolve_handler \<Rightarrow> outgoing_resolve_handler E K a w
     | Outgoing_connect_handler \<Rightarrow> outgoing_connect_handler E K a w
     | Outgoing_disconnect_handler \<Rightarrow> outgoing_disconnect_handler E K a w
     | Outgoing_resolve_wrapper \<Rightarrow> outgoing_resolve_wrapper K a w
   }"

definition outgoing_new ::
    "'j env \<Rightarrow> 'k net_kernel_scheme \<Rightarrow> string \<Rightarrow> string \<Rightarrow> flow_ref \<Rightarrow> nat option \<Rightarrow>
      'a outgoing_state_scheme \<Rightarrow> 'a outgoing_state_scheme option" where
  "outgoing_new E K node service flow pass w = do {
     let w = flow_ref_inc (the_flow E K flow) w;
     let a = next_addr w;
     let w = w\<lparr>next_addr := a + 1\<rparr>;
     (uid, rs) \<leftarrow> uuid_gen (env_entropy E) (rnd w) (replicate UUID_LEN 0);
     let w = w\<lparr>rnd := rs, outgoing_head := outgoing_head w @
       [\<lparr>ou_at = a, ou_peer = \<lparr>peer_fd = -1, peer_always_trigger = False\<rparr>, ou_handler = None, ou_id = uid, ou_node = node,
         ou_service = service, ou_addrs = None, ou_addr = [], ou_attempt = 0, ou_flow = flow, ou_pass = pass\<rparr>]\<rparr>;
     outgoing_resolve K a w
   }"

definition outgoing_del ::
    "'j env \<Rightarrow> 'k net_kernel_scheme \<Rightarrow> nat \<Rightarrow> 'a outgoing_state_scheme \<Rightarrow> 'a outgoing_state_scheme option" where
  "outgoing_del E K a w = do {
     ou \<leftarrow> outgoing_find a w;
     let w = flow_ref_dec (the_flow E K (ou_flow ou)) w;
     (p, w) \<leftarrow> peer_close (Peer_transport a) (ou_peer ou) w;
     Some ((outgoing_forget ou w)\<lparr>outgoing_head := filter (\<lambda>q. ou_at q \<noteq> a) (outgoing_head w)\<rparr>)
   }"

text \<open>The options; the argument is never null for them.\<close>

definition outgoing_add where
  "outgoing_add E K host_port flow pass w = (case opts_split host_port (CHR ''/'') of
     (None, rest) \<Rightarrow> Some (False, w)
   | (Some host, rest) \<Rightarrow> map_option (Pair True) (outgoing_new E K host rest flow pass w))"

definition outgoing_connect_receive :: "'j env \<Rightarrow> 'k net_kernel_scheme \<Rightarrow> ('a outgoing_state_scheme) opts_handler" where
  "outgoing_connect_receive E K arg w = Option.bind arg (\<lambda>arg. outgoing_add E K arg Receive_flow None w)"

definition outgoing_connect_send :: "'j env \<Rightarrow> 'k net_kernel_scheme \<Rightarrow> ('a outgoing_state_scheme) opts_handler" where
  "outgoing_connect_send E K arg w = Option.bind arg (\<lambda>arg. send_add (outgoing_add E K) Send_flow arg w)"

definition outgoing_connect_send_receive :: "'j env \<Rightarrow> 'k net_kernel_scheme \<Rightarrow> ('a outgoing_state_scheme) opts_handler" where
  "outgoing_connect_send_receive E K arg w = Option.bind arg (\<lambda>arg. send_add (outgoing_add E K) Send_receive_flow arg w)"

definition outgoing_opts_add ::
    "'j env \<Rightarrow> 'k net_kernel_scheme \<Rightarrow> nat \<Rightarrow> ('a outgoing_state_scheme) opts_state \<Rightarrow>
      ('a outgoing_state_scheme) opts_state option" where
  "outgoing_opts_add E K outgoing_opts st = do {
     st \<leftarrow> opts_add ''connect-receive'' (Some ''HOST/PORT'') (returning (outgoing_connect_receive E K)) outgoing_opts st;
     st \<leftarrow> opts_add ''connect-send'' (Some ''FORMAT=HOST/PORT'') (returning (outgoing_connect_send E K)) outgoing_opts st;
     opts_add ''connect-send-receive'' (Some ''FORMAT=HOST/PORT'') (returning (outgoing_connect_send_receive E K)) outgoing_opts st
   }"

fun outgoing_del_all ::
    "'j env \<Rightarrow> 'k net_kernel_scheme \<Rightarrow> outgoing list \<Rightarrow> 'a outgoing_state_scheme \<Rightarrow> 'a outgoing_state_scheme option" where
  "outgoing_del_all E K [] w = Some w"
| "outgoing_del_all E K (ou # ous) w = do {
     w \<leftarrow> outgoing_del E K (ou_at ou) w;
     outgoing_del_all E K ous w
   }"

definition outgoing_cleanup ::
    "'j env \<Rightarrow> 'k net_kernel_scheme \<Rightarrow> 'a outgoing_state_scheme \<Rightarrow> 'a outgoing_state_scheme option" where
  "outgoing_cleanup E K w = outgoing_del_all E K (outgoing_head w) w"

section \<open>Invariant\<close>

definition outgoing_phase :: "outgoing \<Rightarrow> phase" where
  "outgoing_phase ou = (case ou_handler ou of
     None \<Rightarrow> Ph_fresh
   | Some Outgoing_resolve_handler \<Rightarrow> Ph_armed
   | Some Outgoing_connect_handler \<Rightarrow> Ph_armed
   | Some Outgoing_disconnect_handler \<Rightarrow> Ph_open
   | Some Outgoing_resolve_wrapper \<Rightarrow> Ph_waiting)"

text \<open>
  While resolving, the request is pending. While connecting, the list of addresses is allocated and some are
  left. In the two other states there is no descriptor and the list has been freed; a new connection has no descriptor either.
\<close>

definition outgoing_ok :: "outgoing \<Rightarrow> 'a outgoing_state_scheme \<Rightarrow> bool" where
  "outgoing_ok ou w \<longleftrightarrow> flow_pass_ok (ou_flow ou) (ou_pass ou) \<and> (case ou_handler ou of
     None \<Rightarrow> peer_fd (ou_peer ou) = -1
   | Some Outgoing_resolve_handler \<Rightarrow> registered_at (ou_at ou) (ou_peer ou) w \<and> ou_addrs ou = None \<and>
       async_requests w (peer_fd (ou_peer ou)) \<noteq> None
   | Some Outgoing_connect_handler \<Rightarrow> registered_at (ou_at ou) (ou_peer ou) w \<and> ou_addrs ou \<noteq> None \<and> ou_addr ou \<noteq> []
   | Some Outgoing_disconnect_handler \<Rightarrow> peer_fd (ou_peer ou) = -1 \<and> ou_addrs ou = None \<and> ou_attempt ou = 0
   | Some Outgoing_resolve_wrapper \<Rightarrow> peer_fd (ou_peer ou) = -1 \<and> ou_addrs ou = None)"

definition outgoing_tried :: "outgoing \<Rightarrow> nat" where
  "outgoing_tried ou = Suc (unat (ou_attempt ou))"

lemma more_outgoing:
  fixes w w' :: "'a outgoing_state_scheme"
  assumes "sr_state.more w' = sr_state.more w"
  shows "outgoing_head w' = outgoing_head w" and "file_head w' = file_head w"
    and "outgoing_state.more w' = outgoing_state.more w" and "addrs_lost w' = addrs_lost w"
  using assms by (cases w; cases w'; simp)+

text \<open>What a step of the outgoing connection \<open>a\<close> leaves alone; no list of addresses is lost.\<close>

definition outgoing_frame :: "nat \<Rightarrow> 'a outgoing_state_scheme \<Rightarrow> 'a outgoing_state_scheme \<Rightarrow> bool" where
  "outgoing_frame a w w' \<longleftrightarrow> outgoing_state.more w' = outgoing_state.more w \<and> file_head w' = file_head w \<and>
     addrs_lost w' = addrs_lost w \<and> next_addr w \<le> next_addr w' \<and> call_frame w w' \<and> net_frame a w w'"

interpretation outgoings: net_handlers outgoing_head ou_at outgoing_phase outgoing_tried outgoing_ok K outgoing_store outgoing_frame
  for K
proof
  fix w w' v u :: "'a outgoing_state_scheme" and a q n ft et rt
  show "outgoing_head w' = outgoing_head w" if "sr_state.more w' = sr_state.more w" by (rule more_outgoing(1) [OF that])
  show "net_frame a w w'" if "tp_frame w w'" by (rule net_frame_tp [OF that])
  show "net_up K w'" if "net_up K w" "net_frame a w w'" using that by (simp add: net_up_def net_frame_def)
  show "outgoing_ok q w'" if "outgoing_ok q w" "net_frame a w w'" "ou_at q \<noteq> a"
    using that registered_at_fr [OF _ that(2), of "ou_at q" "ou_peer q"]
    by (auto simp: outgoing_ok_def registered_at_def net_frame_def split: option.splits outgoing_handler.splits)
  show "\<exists>m. outgoing_store q w = sr_state.more_update (\<lambda>_. m) w"
    by (rule exI [of _ "sr_state.more (outgoing_store q w)"]) (cases w; simp add: outgoing_store_def)
  show "outgoing_head (outgoing_store q w) = struct_upd ou_at q (outgoing_head w)" by (simp add: outgoing_store_def)
  have "call_frame w (outgoing_store q w)" by (rule call_frame_heads) (simp_all add: outgoing_store_def)
  then show "outgoing_frame (ou_at q) w (outgoing_store q w)"
    by (simp add: outgoing_frame_def outgoing_store_def net_frame_def)
  show "outgoing_frame a w w'" if "t_frame w w'" "call_frame w w'"
    using that more_outgoing [of w' w] net_frame_tp [OF t_frame_tp [OF that(1)]] by (simp add: outgoing_frame_def t_frame_def)
  show "outgoing_frame a u w" if "outgoing_frame a u v" "outgoing_frame a v w"
    using that call_frame_trans [of u v w] net_frame_trans [of a u v w] by (simp add: outgoing_frame_def)
  show "net_frame a w w'" "call_frame w w'" if "outgoing_frame a w w'" using that by (simp_all add: outgoing_frame_def)
  show "outgoing_head (w\<lparr>tick := n, fds := ft, epoll_set := et, async_requests := rt\<rparr>) = outgoing_head w" by simp
  show "outgoing_frame a w v" if "v = w\<lparr>tick := n, fds := ft, epoll_set := et, async_requests := rt\<rparr>" "net_frame a w v" "call_frame w v"
    using that(2,3) by (simp add: outgoing_frame_def) (simp add: that(1))
  show "async_requests (outgoing_store q w) = async_requests w" by (simp add: outgoing_store_def)
qed

abbreviation outgoing_sys :: "'k net_kernel_scheme \<Rightarrow> others \<Rightarrow> nat option \<Rightarrow> 'a outgoing_state_scheme \<Rightarrow> bool" where
  "outgoing_sys K \<equiv> outgoings.sys TYPE('k) K"

abbreviation outgoing_work ::
    "'k net_kernel_scheme \<Rightarrow> others \<Rightarrow> nat option \<Rightarrow> outgoing \<Rightarrow> 'a outgoing_state_scheme \<Rightarrow> bool" where
  "outgoing_work K \<equiv> outgoings.work TYPE('k) K"

abbreviation outgoing_done ::
    "'k net_kernel_scheme \<Rightarrow> others \<Rightarrow> nat option \<Rightarrow> nat \<Rightarrow> nat \<Rightarrow> 'a outgoing_state_scheme \<Rightarrow> 'a outgoing_state_scheme \<Rightarrow> bool" where
  "outgoing_done K \<equiv> outgoings.finished TYPE('k) K"

abbreviation outgoing_returns ::
    "'k net_kernel_scheme \<Rightarrow> others \<Rightarrow> nat option \<Rightarrow> nat \<Rightarrow> nat \<Rightarrow> 'a outgoing_state_scheme \<Rightarrow>
      'a outgoing_state_scheme option \<Rightarrow> bool" where
  "outgoing_returns K \<equiv> outgoings.returns TYPE('k) K"

lemmas outgoing_find_eq = outgoings.work_up(4) [folded outgoing_find_def]
  and outgoing_called = outgoings.called [folded outgoing_find_def]

lemma outgoing_store_head [simp]: "outgoing_head (outgoing_store ou w) = struct_upd ou_at ou (outgoing_head w)"
  by (simp add: outgoing_store_def)

section \<open>The operations keep the invariant\<close>

lemma outgoing_retry_spec:
  fixes w :: "'a outgoing_state_scheme"
  assumes wk: "outgoing_work K oth f ou w" and ad: "ou_addrs ou = None" and pass: "flow_pass_ok (ou_flow ou) (ou_pass ou)"
  shows "case outgoing_retry E K (ou_at ou) w of
      None \<Rightarrow> 20 < outgoing_tried ou
    | Some w' \<Rightarrow> outgoing_done K oth f (ou_at ou) (Suc (outgoing_tried ou)) w w' \<and>
        peer_always_trigger_head w' = peer_always_trigger_head w"
proof -
  define att where "att = ou_attempt ou + 1"
  define ou' where "ou' = ou\<lparr>ou_peer := (ou_peer ou)\<lparr>peer_fd := -1\<rparr>, ou_attempt := att, ou_handler := Some Outgoing_resolve_wrapper\<rparr>"
  have ou': "ou_at ou' = ou_at ou" "outgoing_phase ou' = Ph_waiting" "outgoing_tried ou' = Suc (unat att)"
    by (simp_all add: ou'_def outgoing_phase_def outgoing_tried_def)
  have att: "unat att \<le> outgoing_tried ou" by (simp add: att_def outgoing_tried_def unat_word_ariths)
  have ok: "outgoing_ok ou' (outgoing_store ou' w)" using ad pass by (simp add: outgoing_ok_def ou'_def)
  have eq: "outgoing_retry E K (ou_at ou) w = (case wakeup_get_retry_delay_ms (env_entropy E) att (rnd w) of
      None \<Rightarrow> None
    | Some (delay, rs) \<Rightarrow> wakeup_add (new_fd K (outgoing_store ou' w)) (k_timer_stat K) (Peer_transport (ou_at ou)) delay
        ((outgoing_store ou' w)\<lparr>rnd := rs\<rparr>))"
    using outgoing_find_eq [OF wk]
    by (simp add: outgoing_retry_def att_def [symmetric] ou'_def Let_def split: option.split prod.split)
  note as = outgoings.asked [OF wk outgoings.work_up(1) [OF wk] ou'(1,2) ok, where src = "env_entropy E" and att = att
      and st = "k_timer_stat K"]
  have le: "outgoing_tried ou' \<le> Suc (outgoing_tried ou)" using att ou'(3) by simp
  show ?thesis using as att outgoings.finished_le [OF _ le] by (auto simp: eq split: option.splits)
qed

text \<open>
  A structure that is being worked on: its list of addresses is allocated, \<open>ais\<close> are left and \<open>n\<close> is the
  number of attempts.
\<close>

definition outgoing_trying ::
    "'k net_kernel_scheme \<Rightarrow> others \<Rightarrow> nat option \<Rightarrow> nat \<Rightarrow> nat \<Rightarrow> addrinfo list \<Rightarrow> outgoing \<Rightarrow> 'a outgoing_state_scheme \<Rightarrow> bool" where
  "outgoing_trying K oth f a n ais ou w \<longleftrightarrow> outgoing_work K oth f ou w \<and> ou_at ou = a \<and> outgoing_tried ou = n \<and>
     ou_addrs ou \<noteq> None \<and> ou_addr ou = ais \<and> flow_pass_ok (ou_flow ou) (ou_pass ou)"

text \<open>From \<open>w\<close> to \<open>v\<close> only the structure at \<open>a\<close> has changed.\<close>

definition outgoing_only :: "nat \<Rightarrow> 'a outgoing_state_scheme \<Rightarrow> 'a outgoing_state_scheme \<Rightarrow> bool" where
  "outgoing_only a w v \<longleftrightarrow> outgoing_frame a w v \<and> (\<exists>ou. ou_at ou = a \<and> outgoing_head v = struct_upd ou_at ou (outgoing_head w))"

lemma outgoing_returns_after:
  "outgoing_only a w v \<Longrightarrow> outgoing_returns K oth f a n v r \<Longrightarrow> outgoing_returns K oth f a n w r"
  by (rule outgoings.returns_after) (auto simp: outgoing_only_def)

lemma outgoing_done_after:
  "outgoing_only a w v \<Longrightarrow> outgoing_done K oth f a n v w' \<Longrightarrow> outgoing_done K oth f a n w w'"
  by (rule outgoings.finished_after) (auto simp: outgoing_only_def)

text \<open>The next address gets a socket, on which the greeting is sent.\<close>

lemma outgoing_socket:
  fixes w :: "'a outgoing_state_scheme" and K :: "'k net_kernel_scheme"
  assumes tr: "outgoing_trying K oth f a n (ai # ais) ou w"
  shows "\<exists>result ou' v. outgoing_connect_next E K (ai # ais) a w = outgoing_connect_result E K ai ais result a v \<and>
    outgoing_trying K oth f a n (ai # ais) ou' v \<and> socket_held (peer_fd (ou_peer ou')) v \<and> outgoing_only a w v"
proof -
  have wk: "outgoing_work K oth f ou w" and a: "ou_at ou = a" and pass: "flow_pass_ok (ou_flow ou) (ou_pass ou)"
    using tr by (simp_all add: outgoing_trying_def)
  note up = outgoings.work_up [OF wk]
  from outgoings.work_open [OF wk] obtain fd u where u: "open_socket K w = Some (fd, u)" "outgoing_work K oth f ou u"
    "outgoing_frame a w u" "outgoing_head u = outgoing_head w" "socket_held fd u" by blast
  define ou' where "ou' = ou\<lparr>ou_peer := (ou_peer ou)\<lparr>peer_fd := fd\<rparr>\<rparr>"
  define v where "v = outgoing_store ou' u"
  have a': "ou_at ou' = ou_at ou" by (simp add: ou'_def)
  note vs = outgoings.work_stored [OF u(2) a', folded v_def, unfolded a]
  from flow_contract.hello_returns [OF the_flow_contract [OF up(1)] outgoings.workD(1) [OF vs(1)] pass] obtain b where
    b: "flow_get_hello (the_flow E K (ou_flow ou)) BUF_INIT (ou_pass ou) v = Some b" "buf_ok b" by blast
  obtain m errno where m: "k_sendto K (tick v) fd (buf_view b) (ai_addr ai) = (m, errno)" by fastforce
  define x where "x = v\<lparr>tick := tick v + 1, trace := trace v @ [Ev_write fd (buf_view b) m]\<rparr>"
  note xs = outgoings.work_tick [OF vs(1), where n = "tick v + 1" and tr = "trace v @ [Ev_write fd (buf_view b) m]", folded x_def]
  have eq: "outgoing_connect_next E K (ai # ais) a w =
      outgoing_connect_result E K ai ais (if m = int (length (buf_view b)) then EINPROGRESS else errno) a x"
    using outgoing_find_eq [OF wk] tr u(1) b m up(2)
    by (auto simp: outgoing_connect_next.simps(2) Let_def outgoing_trying_def net_ok_def buf_get_view ou'_def v_def x_def)
  have "socket_held (peer_fd (ou_peer ou')) x"
    using u(5) outgoings.held_store [of fd ou' u]
    by (simp add: ou'_def x_def v_def socket_held_def fd_unused_def fd_free_def fd_fresh_def all_sends_def)
  moreover have "outgoing_trying K oth f a n (ai # ais) ou' x"
    using tr xs(1) by (simp add: outgoing_trying_def ou'_def outgoing_tried_def)
  moreover have "outgoing_only a w x"
    using outgoings.frame_trans [OF u(3) outgoings.frame_trans [OF vs(2) xs(2)]] a a' u(4) xs(3)
    by (auto simp: outgoing_only_def v_def)
  ultimately show ?thesis using eq by blast
qed

text \<open>The socket is connected: it is handed over to the flow, which will tell of its end.\<close>

lemma outgoing_connected:
  fixes w :: "'a outgoing_state_scheme" and K :: "'k net_kernel_scheme"
  assumes tr: "outgoing_trying K oth f a n (ai # ais) ou w" and fd: "socket_held (peer_fd (ou_peer ou)) w"
  shows "\<exists>w'. outgoing_connect_result E K ai ais 0 a w = Some w' \<and> outgoing_done K oth f a 1 w w'"
proof -
  have wk: "outgoing_work K oth f ou w" and a: "ou_at ou = a" and pass: "flow_pass_ok (ou_flow ou) (ou_pass ou)"
    using tr by (simp_all add: outgoing_trying_def)
  note up = outgoings.work_up [OF wk]
  define ou' where "ou' = ou\<lparr>ou_addrs := None, ou_attempt := 0, ou_peer := (ou_peer ou)\<lparr>peer_fd := -1\<rparr>,
    ou_handler := Some Outgoing_disconnect_handler\<rparr>"
  have ou': "ou_at ou' = ou_at ou" "outgoing_phase ou' = Ph_open" "outgoing_tried ou' = 1"
    by (simp_all add: ou'_def outgoing_phase_def outgoing_tried_def)
  define v where "v = outgoing_store ou' w"
  have ok: "outgoing_ok ou' v" using pass by (simp add: outgoing_ok_def ou'_def)
  note vs = outgoings.work_stored [OF wk ou'(1), folded v_def, unfolded a]
  have own: "owner_free f (Some (Peer_transport a)) v"
    using outgoings.workD(4) [OF vs(1)] a ou'(1) by (simp add: owner_free_def)
  have "fd_unused (peer_fd (ou_peer ou)) v" using fd outgoings.fd_unused_store [of _ ou' w] by (simp add: v_def socket_held_def)
  from flow_contract.create_returns [OF the_flow_contract [OF up(1)] outgoings.workD(1) [OF vs(1)] this pass own] obtain w' where
    w': "flow_new (peer_fd (ou_peer ou)) (the_flow E K (ou_flow ou)) (ou_pass ou) (Some (Peer_transport a)) v = Some w'"
      "conn_inv (\<lambda>_. 0) f w'" "made f v (Some (Peer_transport a)) w'" by (auto simp: flow_new_def)
  have "outgoing_done K oth f a 1 w w'"
    using outgoings.opened [OF wk ou'(1,2) ok [unfolded v_def] w'(2)] w'(3) ou'(3) by (simp add: a v_def)
  moreover have "outgoing_connect_result E K ai ais 0 a w = Some w'"
    using outgoing_find_eq [OF wk] tr up(2) w'(1)
    by (auto simp: flow_hooks_return outgoing_connect_result.simps Let_def outgoing_trying_def net_ok_def ou'_def v_def)
  ultimately show ?thesis by blast
qed

text \<open>The connection is in progress: the socket is registered.\<close>

lemma outgoing_in_progress:
  fixes w :: "'a outgoing_state_scheme" and K :: "'k net_kernel_scheme"
  assumes tr: "outgoing_trying K oth f a n (ai # ais) ou w" and fd: "socket_held (peer_fd (ou_peer ou)) w"
  shows "\<exists>w'. outgoing_connect_result E K ai ais EINPROGRESS a w = Some w' \<and> outgoing_done K oth f a n w w'"
proof -
  have wk: "outgoing_work K oth f ou w" and a: "ou_at ou = a" using tr by (simp_all add: outgoing_trying_def)
  define ou' where "ou' = ou\<lparr>ou_peer := (ou_peer ou)\<lparr>peer_always_trigger := False\<rparr>, ou_handler := Some Outgoing_connect_handler\<rparr>"
  have ou': "ou_at ou' = ou_at ou" "outgoing_phase ou' = Ph_armed" "outgoing_tried ou' = n"
    using tr by (simp_all add: ou'_def outgoing_phase_def outgoing_tried_def outgoing_trying_def)
  have "outgoing_ok ou' v" if "registered_at (ou_at ou) ((ou_peer ou)\<lparr>peer_always_trigger := False\<rparr>) v" for v :: "'a outgoing_state_scheme"
    using that tr by (simp add: outgoing_ok_def ou'_def outgoing_trying_def)
  from outgoings.held_armed [OF wk ou'(1,2) fd this] obtain v where v:
    "peer_epoll_add (Peer_transport a) (ou_peer ou) True w = Some ((ou_peer ou)\<lparr>peer_always_trigger := False\<rparr>, v)"
    "outgoing_done K oth f a n w (outgoing_store ou' v)" by (auto simp: a ou'(3))
  then have "outgoing_connect_result E K ai ais EINPROGRESS a w = Some (outgoing_store ou' v)"
    using outgoing_find_eq [OF wk] tr outgoings.work_up(2) [OF wk]
    by (auto simp: outgoing_connect_result.simps Let_def outgoing_trying_def net_ok_def ou'_def EINPROGRESS_def)
  then show ?thesis using v(2) by blast
qed

text \<open>Connecting has failed: the socket is closed and the address is dropped.\<close>

lemma outgoing_failed:
  fixes w :: "'a outgoing_state_scheme" and K :: "'k net_kernel_scheme"
  assumes tr: "outgoing_trying K oth f a n (ai # ais) ou w" and fd: "socket_held (peer_fd (ou_peer ou)) w"
    and res: "result \<noteq> 0" "result \<noteq> EINPROGRESS"
  shows "\<exists>ou' v. outgoing_connect_result E K ai ais result a w = outgoing_connect_next E K ais a v \<and>
    outgoing_trying K oth f a n ais ou' v \<and> outgoing_only a w v"
proof -
  have wk: "outgoing_work K oth f ou w" and a: "ou_at ou = a" using tr by (simp_all add: outgoing_trying_def)
  from outgoings.work_close [OF wk fd] obtain u where u: "close_fd (peer_fd (ou_peer ou)) w = Some u"
    "outgoing_work K oth f ou u" "outgoing_frame a w u" "outgoing_head u = outgoing_head w" by blast
  define ou' where "ou' = ou\<lparr>ou_addr := ais\<rparr>"
  have a': "ou_at ou' = ou_at ou" by (simp add: ou'_def)
  define v where "v = outgoing_store ou' u"
  note vs = outgoings.work_stored [OF u(2) a', folded v_def, unfolded a]
  have "outgoing_connect_result E K ai ais result a w = outgoing_connect_next E K ais a v"
    using outgoing_find_eq [OF wk] tr outgoings.work_up(2) [OF wk] res u(1)
    by (auto simp: outgoing_connect_result.simps Let_def outgoing_trying_def net_ok_def ou'_def v_def)
  moreover have "outgoing_trying K oth f a n ais ou' v"
    using tr vs(1) by (simp add: outgoing_trying_def ou'_def outgoing_tried_def)
  moreover have "outgoing_only a w v"
    using outgoings.frame_trans [OF u(3) vs(2)] a a' u(4) by (auto simp: outgoing_only_def v_def)
  ultimately show ?thesis by blast
qed

text \<open>Both functions together, by induction on the addresses that are left.\<close>

lemma outgoing_result_spec:
  fixes w :: "'a outgoing_state_scheme" and K :: "'k net_kernel_scheme"
  assumes tr: "outgoing_trying K oth f a n (ai # ais) ou w" and fd: "socket_held (peer_fd (ou_peer ou)) w"
    and rest: "\<And>ou (v :: 'a outgoing_state_scheme). outgoing_trying K oth f a n ais ou v \<Longrightarrow>
      outgoing_returns K oth f a n v (outgoing_connect_next E K ais a v)"
  shows "outgoing_returns K oth f a n w (outgoing_connect_result E K ai ais result a w)"
proof -
  consider "result = 0" | "result = EINPROGRESS" | "result \<noteq> 0" "result \<noteq> EINPROGRESS" by blast
  then show ?thesis
  proof cases
    case 1
    from outgoing_connected [OF tr fd, of E] obtain w' where
      "outgoing_connect_result E K ai ais 0 a w = Some w'" "outgoing_done K oth f a 1 w w'" by blast
    then show ?thesis using 1 outgoings.finished_le [of K oth f a 1 w w' "Suc n"] by (simp add: outgoings.returns_def)
  next
    case 2
    from outgoing_in_progress [OF tr fd, of E] obtain w' where
      "outgoing_connect_result E K ai ais EINPROGRESS a w = Some w'" "outgoing_done K oth f a n w w'" by blast
    then show ?thesis using 2 outgoings.finished_le [of K oth f a n w w' "Suc n"] by (simp add: outgoings.returns_def)
  next
    case 3
    from outgoing_failed [OF tr fd 3, of E] obtain ou' v where v:
      "outgoing_connect_result E K ai ais result a w = outgoing_connect_next E K ais a v"
      "outgoing_trying K oth f a n ais ou' v" "outgoing_only a w v" by blast
    from outgoing_returns_after [OF v(3) rest [OF v(2)]] show ?thesis by (simp add: v(1))
  qed
qed

text \<open>A retry after the list of addresses has been freed, or was never allocated.\<close>

lemma outgoing_retry_freed:
  fixes w :: "'a outgoing_state_scheme" and K :: "'k net_kernel_scheme"
  assumes wk: "outgoing_work K oth f ou w" and pass: "flow_pass_ok (ou_flow ou) (ou_pass ou)"
    and ou': "ou' = ou\<lparr>ou_peer := p, ou_addrs := None\<rparr>"
  shows "outgoing_returns K oth f (ou_at ou) (outgoing_tried ou) w (outgoing_retry E K (ou_at ou) (outgoing_store ou' w))"
proof -
  have a: "ou_at ou' = ou_at ou" and o: "ou_addrs ou' = None" "flow_pass_ok (ou_flow ou') (ou_pass ou')"
    "outgoing_tried ou' = outgoing_tried ou" using pass by (simp_all add: ou' outgoing_tried_def)
  note st = outgoings.work_stored [OF wk a]
  have "outgoing_only (ou_at ou) w (outgoing_store ou' w)" using st(2) a by (auto simp: outgoing_only_def)
  moreover have "outgoing_returns K oth f (ou_at ou) (outgoing_tried ou) (outgoing_store ou' w)
      (outgoing_retry E K (ou_at ou) (outgoing_store ou' w))"
    using outgoing_retry_spec [OF st(1) o(1,2), of E] o(3) a by (auto simp: outgoings.returns_def split: option.splits)
  ultimately show ?thesis by (rule outgoing_returns_after)
qed

lemma outgoing_next_spec:
  fixes w :: "'a outgoing_state_scheme" and K :: "'k net_kernel_scheme"
  assumes "outgoing_trying K oth f a n ais ou w"
  shows "outgoing_returns K oth f a n w (outgoing_connect_next E K ais a w)"
  using assms
proof (induction ais arbitrary: ou w)
  case Nil
  then have wk: "outgoing_work K oth f ou w" and t: "ou_at ou = a" "outgoing_tried ou = n" "ou_addrs ou \<noteq> None"
    "flow_pass_ok (ou_flow ou) (ou_pass ou)" by (simp_all add: outgoing_trying_def)
  have "ou\<lparr>ou_addrs := None\<rparr> = ou\<lparr>ou_peer := ou_peer ou, ou_addrs := None\<rparr>" by simp
  note r = outgoing_retry_freed [OF wk t(4) this, of E, unfolded t(1,2)]
  have "outgoing_connect_next E K [] a w = outgoing_retry E K a (outgoing_store (ou\<lparr>ou_addrs := None\<rparr>) w)"
    using outgoing_find_eq [OF wk] t by (auto simp: outgoing_connect_next.simps(1))
  then show ?case using r by simp
next
  case (Cons ai ais)
  from outgoing_socket [OF Cons.prems, of E] obtain result ou' v where v:
    "outgoing_connect_next E K (ai # ais) a w = outgoing_connect_result E K ai ais result a v"
    "outgoing_trying K oth f a n (ai # ais) ou' v" "socket_held (peer_fd (ou_peer ou')) v" "outgoing_only a w v" by blast
  from outgoing_returns_after [OF v(4) outgoing_result_spec [OF v(2,3) Cons.IH]] show ?case by (simp add: v(1))
qed

section \<open>The event handlers\<close>

lemma outgoing_entered:
  assumes "outgoing_sys K oth f w" and "ou \<in> set (outgoing_head w)" and "outgoing_frame (ou_at ou) w v"
    and "outgoing_head v = outgoing_head w"
  shows "outgoing_only (ou_at ou) w v"
  using assms(3,4) outgoing_called(5) [OF assms(1,2)] unfolding outgoing_only_def by metis

lemma outgoing_resolve_handler_spec:
  fixes w :: "'a outgoing_state_scheme" and K :: "'k net_kernel_scheme"
  assumes sys: "outgoing_sys K oth f w" and ou: "ou \<in> set (outgoing_head w)" "ou_handler ou = Some Outgoing_resolve_handler"
    and own: "Some (Peer_transport (ou_at ou)) \<notin># owners f w"
  shows "outgoing_returns K oth f (ou_at ou) (outgoing_tried ou) w (outgoing_resolve_handler E K (ou_at ou) w)"
proof -
  let ?a = "ou_at ou"
  note c = outgoing_called [OF sys ou(1)]
  have ok: "registered_at ?a (ou_peer ou) w" "async_requests w (peer_fd (ou_peer ou)) \<noteq> None"
    "flow_pass_ok (ou_flow ou) (ou_pass ou)" "ou_addrs ou = None" using c(2) ou(2) by (simp_all add: outgoing_ok_def)
  have fg: "outgoing_forget ou u = u" for u :: "'a outgoing_state_scheme" by (simp add: outgoing_forget_def ok(4))
  from outgoings.enter_answered [OF sys ou(1) own ok(1,2)] obtain err addrs v where
    r: "resolve_result K (ou_peer ou) w = Some (err, addrs, (ou_peer ou)\<lparr>peer_fd := -1\<rparr>, v)"
      "outgoing_work K oth f ou v" "outgoing_frame ?a w v" "outgoing_head v = outgoing_head w" by blast
  have on: "outgoing_only ?a w v" by (rule outgoing_entered [OF sys ou(1) r(3,4)])
  show ?thesis
  proof (cases "err = 0")
    case True
    define ou' where "ou' = ou\<lparr>ou_peer := (ou_peer ou)\<lparr>peer_fd := -1\<rparr>, ou_addrs := Some addrs, ou_addr := addrs\<rparr>"
    have a': "ou_at ou' = ?a" by (simp add: ou'_def)
    note st = outgoings.work_stored [OF r(2) a']
    have tr: "outgoing_trying K oth f ?a (outgoing_tried ou) addrs ou' (outgoing_store ou' v)"
      using st(1) ok(3) by (simp add: outgoing_trying_def ou'_def outgoing_tried_def)
    have on': "outgoing_only ?a v (outgoing_store ou' v)" using st(2) a' by (auto simp: outgoing_only_def)
    have "outgoing_resolve_handler E K ?a w = outgoing_connect_next E K addrs ?a (outgoing_store ou' v)"
      using c(1) r(1) True by (simp add: outgoing_resolve_handler_def fg ou'_def)
    then show ?thesis using outgoing_returns_after [OF on outgoing_returns_after [OF on' outgoing_next_spec [OF tr]]] by simp
  next
    case False
    then have "outgoing_resolve_handler E K ?a w =
        outgoing_retry E K ?a (outgoing_store (ou\<lparr>ou_peer := (ou_peer ou)\<lparr>peer_fd := -1\<rparr>, ou_addrs := None\<rparr>) v)"
      using c(1) r(1) by (simp add: outgoing_resolve_handler_def fg)
    then show ?thesis using outgoing_returns_after [OF on outgoing_retry_freed [OF r(2) ok(3) refl]] by simp
  qed
qed

lemma outgoing_connect_handler_spec:
  fixes w :: "'a outgoing_state_scheme" and K :: "'k net_kernel_scheme"
  assumes sys: "outgoing_sys K oth f w" and ou: "ou \<in> set (outgoing_head w)" "ou_handler ou = Some Outgoing_connect_handler"
    and own: "Some (Peer_transport (ou_at ou)) \<notin># owners f w"
  shows "outgoing_returns K oth f (ou_at ou) (outgoing_tried ou) w (outgoing_connect_handler E K (ou_at ou) w)"
proof -
  let ?a = "ou_at ou" and ?fd = "peer_fd (ou_peer ou)"
  note c = outgoing_called [OF sys ou(1)]
  have ok: "registered_at ?a (ou_peer ou) w" "ou_addrs ou \<noteq> None" "ou_addr ou \<noteq> []"
    "flow_pass_ok (ou_flow ou) (ou_pass ou)" using c(2) ou(2) by (simp_all add: outgoing_ok_def)
  from outgoings.enter_unregistered [OF sys ou(1) own ok(1)] obtain u where
    u: "peer_epoll_del (Peer_transport ?a) (ou_peer ou) w = Some u" "outgoing_work K oth f ou u" "outgoing_frame ?a w u"
      "outgoing_head u = outgoing_head w" "socket_held ?fd u" by blast
  define v where "v = u\<lparr>tick := tick u + 1\<rparr>"
  have vt: "v = u\<lparr>tick := tick u + 1, trace := trace u\<rparr>" by (simp add: v_def)
  note ts = outgoings.work_tick [OF u(2), where n = "tick u + 1" and tr = "trace u", folded vt]
  have on: "outgoing_only ?a w v"
    by (rule outgoing_entered [OF sys ou(1) outgoings.frame_trans [OF u(3) ts(2)]]) (simp add: ts(3) u(4))
  have held: "socket_held ?fd v"
    using u(5) by (simp add: v_def socket_held_def fd_unused_def fd_free_def fd_fresh_def all_sends_def)
  obtain ai ais where ais: "ou_addr ou = ai # ais" using ok(3) by (cases "ou_addr ou") auto
  have tr: "outgoing_trying K oth f ?a (outgoing_tried ou) (ai # ais) ou v"
    using ts(1) ok ais by (simp add: outgoing_trying_def)
  note sp = outgoing_result_spec [OF tr held outgoing_next_spec, where E = E and result = "k_so_error K (tick u) ?fd"]
  have "outgoing_connect_handler E K ?a w = outgoing_connect_result E K ai ais (k_so_error K (tick u) ?fd) ?a v"
    using c(1) ais u(1) by (simp add: outgoing_connect_handler_def v_def Let_def)
  then show ?thesis using outgoing_returns_after [OF on sp] by simp
qed

lemma outgoing_resolve_spec:
  fixes w :: "'a outgoing_state_scheme" and K :: "'k net_kernel_scheme"
  assumes wk: "outgoing_work K oth f ou w" and ok: "ou_addrs ou = None" "flow_pass_ok (ou_flow ou) (ou_pass ou)"
  shows "\<exists>w'. outgoing_resolve K (ou_at ou) w = Some w' \<and> outgoing_done K oth f (ou_at ou) (outgoing_tried ou) w w'"
proof -
  define ou' where "ou' fd = ou\<lparr>ou_peer := (ou_peer ou)\<lparr>peer_fd := fd, peer_always_trigger := False\<rparr>,
    ou_handler := Some Outgoing_resolve_handler\<rparr>" for fd
  have ou': "ou_at (ou' fd) = ou_at ou" "outgoing_phase (ou' fd) = Ph_armed" "outgoing_tried (ou' fd) = outgoing_tried ou" for fd
    by (simp_all add: ou'_def outgoing_phase_def outgoing_tried_def)
  have "outgoing_ok (ou' fd) v" if "registered_at (ou_at ou) ((ou_peer ou)\<lparr>peer_fd := fd, peer_always_trigger := False\<rparr>) v"
      "async_requests v fd \<noteq> None" for fd and v :: "'a outgoing_state_scheme"
    using that ok by (simp add: outgoing_ok_def ou'_def)
  then have "\<exists>fd v. resolve K (Peer_transport (ou_at ou)) (ou_peer ou) (Some (ou_node ou)) (ou_service ou) 0 w =
      Some ((ou_peer ou)\<lparr>peer_fd := fd, peer_always_trigger := False\<rparr>, v) \<and>
    outgoing_done K oth f (ou_at ou) (outgoing_tried ou) w (outgoing_store (ou' fd) v)"
    by (intro outgoings.resolve_armed [OF wk ou']) simp_all
  then show ?thesis using outgoing_find_eq [OF wk] by (auto simp: outgoing_resolve_def ou'_def)
qed

text \<open>All four handlers satisfy the contract of a transport.\<close>

lemma outgoing_event_returns:
  fixes w :: "'a outgoing_state_scheme" and K :: "'k net_kernel_scheme"
  assumes sys: "outgoing_sys K oth f w" and ou: "ou \<in> set (outgoing_head w)" "outgoing_phase ou \<noteq> Ph_fresh"
    and own: "Some (Peer_transport (ou_at ou)) \<notin># owners f w"
  shows "outgoing_returns K oth f (ou_at ou) (outgoing_tried ou) w (outgoing_event E K (ou_at ou) w)"
    and "outgoing_phase ou = Ph_open \<Longrightarrow> \<exists>w'. outgoing_event E K (ou_at ou) w = Some w' \<and>
      outgoing_done K oth f (ou_at ou) 2 w w' \<and> peer_always_trigger_head w' = peer_always_trigger_head w"
proof -
  note c = outgoing_called [OF sys ou(1)]
  obtain h where h: "ou_handler ou = Some h" using ou(2) by (cases "ou_handler ou") (simp_all add: outgoing_phase_def)
  have wk: "outgoing_work K oth f ou w" if "outgoing_phase ou \<noteq> Ph_armed"
    by (rule outgoings.enter_waiting [OF sys ou(1) own that])
  have dis: "\<exists>w'. outgoing_event E K (ou_at ou) w = Some w' \<and>
      outgoing_done K oth f (ou_at ou) 2 w w' \<and> peer_always_trigger_head w' = peer_always_trigger_head w \<and> outgoing_tried ou = 1"
    if d: "h = Outgoing_disconnect_handler"
  proof -
    have ok: "ou_addrs ou = None" "ou_attempt ou = 0" "flow_pass_ok (ou_flow ou) (ou_pass ou)"
      using c(2) h d by (simp_all add: outgoing_ok_def)
    have "outgoing_phase ou \<noteq> Ph_armed" using h d by (simp add: outgoing_phase_def)
    moreover have "outgoing_tried ou = 1" by (simp add: outgoing_tried_def ok(2))
    ultimately show ?thesis
      using outgoing_retry_spec [OF wk ok(1,3), of E] c(1) h d
      by (auto simp: outgoing_event_def outgoing_disconnect_handler_def numeral_2_eq_2 split: option.splits)
  qed
  have "outgoing_phase ou = Ph_open \<Longrightarrow> h = Outgoing_disconnect_handler"
    using h by (simp add: outgoing_phase_def split: outgoing_handler.splits)
  then show "outgoing_phase ou = Ph_open \<Longrightarrow> \<exists>w'. outgoing_event E K (ou_at ou) w = Some w' \<and>
      outgoing_done K oth f (ou_at ou) 2 w w' \<and> peer_always_trigger_head w' = peer_always_trigger_head w" using dis by blast
  show "outgoing_returns K oth f (ou_at ou) (outgoing_tried ou) w (outgoing_event E K (ou_at ou) w)"
  proof (cases h)
    case Outgoing_resolve_handler
    then show ?thesis using outgoing_resolve_handler_spec [OF sys ou(1) _ own, of E] c(1) h by (simp add: outgoing_event_def)
  next
    case Outgoing_connect_handler
    then show ?thesis using outgoing_connect_handler_spec [OF sys ou(1) _ own, of E] c(1) h by (simp add: outgoing_event_def)
  next
    case Outgoing_disconnect_handler
    then show ?thesis using dis by (auto simp: outgoings.returns_def numeral_2_eq_2)
  next
    case Outgoing_resolve_wrapper
    then have ok: "ou_addrs ou = None" "flow_pass_ok (ou_flow ou) (ou_pass ou)" using c(2) h by (simp_all add: outgoing_ok_def)
    have "outgoing_phase ou \<noteq> Ph_armed" using h Outgoing_resolve_wrapper by (simp add: outgoing_phase_def)
    from outgoing_resolve_spec [OF wk [OF this] ok] show ?thesis
      using c(1) h Outgoing_resolve_wrapper outgoings.finished_le [of K oth f "ou_at ou" "outgoing_tried ou" w _ "Suc (outgoing_tried ou)"]
      by (auto simp: outgoing_event_def outgoing_resolve_wrapper_def outgoings.returns_def)
  qed
qed

section \<open>Outgoing connections as transports\<close>

abbreviation outgoing_live :: "'a outgoing_state_scheme \<Rightarrow> nat set" where
  "outgoing_live \<equiv> in_phase outgoing_head ou_at outgoing_phase {Ph_waiting, Ph_open, Ph_armed}"

abbreviation outgoing_shut :: "'a outgoing_state_scheme \<Rightarrow> nat set" where
  "outgoing_shut \<equiv> in_phase outgoing_head ou_at outgoing_phase {Ph_open}"

abbreviation outgoing_ready :: "'a outgoing_state_scheme \<Rightarrow> nat set" where
  "outgoing_ready \<equiv> in_phase outgoing_head ou_at outgoing_phase {Ph_armed}"

abbreviation outgoing_addresses :: "'a outgoing_state_scheme \<Rightarrow> nat set" where
  "outgoing_addresses \<equiv> structs_addrs outgoing_head ou_at"

abbreviation outgoing_inv :: "'k net_kernel_scheme \<Rightarrow> 'a outgoing_state_scheme \<Rightarrow> bool" where
  "outgoing_inv K \<equiv> structs_inv outgoing_head ou_at outgoing_ok (net_up K) None"

abbreviation outgoing_tries :: "'a outgoing_state_scheme \<Rightarrow> nat" where
  "outgoing_tries \<equiv> structs_tries outgoing_head outgoing_tried"

definition outgoing_kept :: "'a outgoing_state_scheme \<Rightarrow> 'a outgoing_state_scheme \<Rightarrow> bool" where
  "outgoing_kept w w' \<longleftrightarrow> (\<exists>a \<in> outgoing_addresses w. outgoing_frame a w w')"

interpretation outgoing_k: kind outgoing_live outgoing_shut outgoing_ready outgoing_addresses "outgoing_inv K" outgoing_tries
  "outgoing_event E K" outgoing_kept for E K
  unfolding outgoing_kept_def [abs_def]
  by (rule outgoings.handlers_kind) (simp_all add: outgoing_event_returns)

section \<open>New connections\<close>

lemma outgoing_new_spec:
  fixes w :: "'a outgoing_state_scheme" and K :: "'k net_kernel_scheme"
  assumes sys: "outgoing_sys K oth f w" and pass: "flow_pass_ok flow pass"
  shows "\<exists>w'. outgoing_new E K node service flow pass w = Some w' \<and> outgoing_sys K oth f w' \<and>
    next_addr w \<in> outgoing_live w' \<and> outgoing_frame (next_addr w) w w'"
proof -
  note inv = kind_sysD(1) [OF sys]
  define v where "v = flow_ref_inc (the_flow E K flow) w"
  note c = conn_inv_counted [OF inv, of E K flow "\<lambda>n. n + 1", folded flow_ref_inc_def, folded v_def]
  have vf: "t_frame w v" "wakeup_head v = wakeup_head w" using c(3) by (simp_all add: conn_frame_def)
  have vs: "outgoing_sys K oth f v" by (rule outgoings.step_same [OF sys c(1) vf(1) c(2) vf(2)])
  have f1: "outgoing_frame a w v" for a by (rule outgoings.frame_t [OF vf(1) call_frameI [OF c(3)]])
  from uuid_gen_valid [OF conn_inv_rand [OF c(1)], of "replicate UUID_LEN 0" "env_entropy E"] obtain uid rs where
    u: "uuid_gen (env_entropy E) (rnd v) (replicate UUID_LEN 0) = Some (uid, rs)" "rand_ok rs"
    by (auto simp: UUID_LEN_def)
  define ou where "ou = \<lparr>ou_at = next_addr v, ou_peer = \<lparr>peer_fd = -1, peer_always_trigger = False\<rparr>, ou_handler = None,
    ou_id = uid, ou_node = node, ou_service = service, ou_addrs = None, ou_addr = [], ou_attempt = 0, ou_flow = flow, ou_pass = pass\<rparr>"
  have ou: "ou_at ou = next_addr v" "ou_addrs ou = None" "flow_pass_ok (ou_flow ou) (ou_pass ou)"
    using pass by (simp_all add: ou_def)
  define x where "x = v\<lparr>next_addr := next_addr v + 1, rnd := rs, outgoing_head := outgoing_head v @ [ou]\<rparr>"
  have xi: "conn_inv (\<lambda>_. 0) f x" "owners f x = owners f v"
    using conn_inv_same [OF c(1), of x] u(2) by (simp_all add: x_def)
  have wk: "outgoing_work K oth f ou x"
    by (rule outgoings.link(1) [OF vs ou(1) xi]) (simp_all add: x_def net_frame_def)
  have "call_frame v x" by (rule call_frame_heads) (simp_all add: x_def)
  then have f2: "outgoing_frame a v x" for a by (simp add: outgoing_frame_def net_frame_def) (simp add: x_def)
  from outgoing_resolve_spec [OF wk ou(2,3)] obtain w' where
    w': "outgoing_resolve K (next_addr v) x = Some w'" "outgoing_done K oth f (next_addr v) (outgoing_tried ou) x w'"
    by (auto simp: ou(1))
  have "next_addr v \<in> outgoing_addresses x" by (simp add: x_def structs_addrs_def ou(1))
  note d = outgoings.finishedD [OF w'(2) this]
  have "outgoing_new E K node service flow pass w = Some w'"
    using u(1) w'(1) by (simp add: outgoing_new_def Let_def v_def [symmetric] x_def ou_def)
  moreover have "outgoing_frame (next_addr v) w w'"
    by (rule outgoings.frame_trans [OF f1 outgoings.frame_trans [OF f2 d(2)]])
  ultimately show ?thesis using d(1,6) c(8) by auto
qed

end
