(* ===== verification/Incoming.thy ===== *)
theory Incoming
  imports Outgoing
begin

text \<open>
  Model of \<^verbatim>\<open>adsbus/incoming.c\<close>: sockets that listen for connections. An incoming transport resolves the
  address to listen on, binds to the first address that it can, and hands every connection it
  accepts over to its flow; nobody is told of the end of these. Its three event handlers are the values of
  \<open>ic_handler\<close>.
\<close>

section \<open>State\<close>

datatype incoming_handler = Incoming_handler | Incoming_listen | Incoming_resolve_wrapper

record incoming =
  ic_at :: nat
  ic_peer :: peer
  ic_handler :: incoming_handler
  ic_id :: "u8 list"
  ic_node :: "string option"
  ic_service :: string
  ic_attempt :: u32
  ic_flow :: flow_ref
  ic_pass :: "nat option"

record incoming_state = outgoing_state +
  incoming_head :: "incoming list"

definition incoming_find :: "nat \<Rightarrow> 'a incoming_state_scheme \<Rightarrow> incoming option" where
  "incoming_find a w = find (\<lambda>q. ic_at q = a) (incoming_head w)"

definition incoming_store :: "incoming \<Rightarrow> 'a incoming_state_scheme \<Rightarrow> 'a incoming_state_scheme" where
  "incoming_store ic w = w\<lparr>incoming_head := struct_upd ic_at ic (incoming_head w)\<rparr>"

section \<open>Operations\<close>

definition incoming_retry ::
    "'j env \<Rightarrow> 'k net_kernel_scheme \<Rightarrow> nat \<Rightarrow> 'a incoming_state_scheme \<Rightarrow> 'a incoming_state_scheme option" where
  "incoming_retry E K a w = do {
     ic \<leftarrow> incoming_find a w;
     (delay, rs) \<leftarrow> wakeup_get_retry_delay_ms (env_entropy E) (ic_attempt ic) (rnd w);
     let w = incoming_store (ic\<lparr>ic_attempt := ic_attempt ic + 1, ic_handler := Incoming_resolve_wrapper\<rparr>) w;
     wakeup_add (new_fd K w) (k_timer_stat K) (Peer_transport a) delay (w\<lparr>rnd := rs\<rparr>)
   }"

text \<open>
  A \<^verbatim>\<open>struct sockaddr\<close> on the stack, \<open>None\<close> for a byte that was never written. \<^verbatim>\<open>accept4\<close> and \<^verbatim>\<open>getsockname\<close> store as
  much of an address as there is room for, and replace the length they are given by the length of the whole address.
\<close>

definition sockaddr_uninit :: "u8 option list" where
  "sockaddr_uninit = replicate SOCKADDR_SIZE None"

definition sockaddr_out :: "u8 list \<Rightarrow> u8 option list \<Rightarrow> nat \<Rightarrow> u8 option list \<times> nat" where
  "sockaddr_out sa mem len = (map Some (take len sa) @ drop (min len (length sa)) mem, length sa)"

text \<open>\<^verbatim>\<open>getnameinfo\<close> reads as many bytes as it is told there are: past the structure, or uninitialised, that is \<open>None\<close>.\<close>

fun sockaddr_in :: "u8 option list \<Rightarrow> nat \<Rightarrow> u8 list option" where
  "sockaddr_in mem 0 = Some []"
| "sockaddr_in [] (Suc n) = None"
| "sockaddr_in (b # mem) (Suc n) = do {
     b \<leftarrow> b;
     sa \<leftarrow> sockaddr_in mem n;
     Some (b # sa)
   }"

text \<open>A connection is accepted.\<close>

definition incoming_handler ::
    "'j env \<Rightarrow> 'k net_kernel_scheme \<Rightarrow> nat \<Rightarrow> 'a incoming_state_scheme \<Rightarrow> 'a incoming_state_scheme option" where
  "incoming_handler E K a w = do {
     ic \<leftarrow> incoming_find a w;
     let (peer_addr, peer_addrlen) = (sockaddr_uninit, SOCKADDR_SIZE);
     let (local_addr, local_addrlen) = (sockaddr_uninit, SOCKADDR_SIZE);
     let accepted = k_accept K (tick w) (peer_fd (ic_peer ic));
     let w = w\<lparr>tick := tick w + 1\<rparr>;
     case accepted of
       None \<Rightarrow> Some w
     | Some (there, here) \<Rightarrow> do {
         (fd, w) \<leftarrow> open_socket K w;
         let (peer_addr, peer_addrlen) = sockaddr_out there peer_addr peer_addrlen;
         let (local_addr, local_addrlen) = sockaddr_out here local_addr local_addrlen;
         sa \<leftarrow> sockaddr_in peer_addr peer_addrlen;
         c_assert (k_getnameinfo K sa = 0);
         sa \<leftarrow> sockaddr_in local_addr local_addrlen;
         c_assert (k_getnameinfo K sa = 0);
         let flow = the_flow E K (ic_flow ic);
         flow_socket_connected (k_socket K) (tick w) fd flow;
         (ok, w) \<leftarrow> flow_new_send_hello E fd flow (ic_pass ic) None w;
         Some w
       }
   }"

definition incoming_del ::
    "'j env \<Rightarrow> 'k net_kernel_scheme \<Rightarrow> nat \<Rightarrow> 'a incoming_state_scheme \<Rightarrow> 'a incoming_state_scheme option" where
  "incoming_del E K a w = do {
     ic \<leftarrow> incoming_find a w;
     let w = flow_ref_dec (the_flow E K (ic_flow ic)) w;
     (p, w) \<leftarrow> peer_close (Peer_transport a) (ic_peer ic) w;
     Some (w\<lparr>incoming_head := filter (\<lambda>q. ic_at q \<noteq> a) (incoming_head w)\<rparr>)
   }"

text \<open>The loop over the addresses of \<^verbatim>\<open>incoming_listen\<close>; the result says whether one could be bound.\<close>

fun incoming_bind ::
    "'j env \<Rightarrow> 'k net_kernel_scheme \<Rightarrow> addrinfo list \<Rightarrow> nat \<Rightarrow> 'a incoming_state_scheme \<Rightarrow>
      (bool \<times> 'a incoming_state_scheme) option" where
  "incoming_bind E K [] a w = Some (False, w)"
| "incoming_bind E K (ai # ais) a w = do {
     ic \<leftarrow> incoming_find a w;
     c_assert (k_getnameinfo K (ai_addr ai) = 0);
     (fd, w) \<leftarrow> open_socket K w;
     let w = incoming_store (ic\<lparr>ic_peer := (ic_peer ic)\<lparr>peer_fd := fd\<rparr>\<rparr>) w;
     socket_pre_bind (k_socket K) (tick w) fd;
     let err = k_bind K (tick w) fd (ai_addr ai);
     let w = w\<lparr>tick := tick w + 1\<rparr>;
     if err \<noteq> 0 then do {
       w \<leftarrow> close_fd fd w;
       incoming_bind E K ais a w
     }
     else do {
       socket_pre_listen (k_socket K) (tick w) fd;
       flow_socket_ready (k_socket K) (tick w) fd (the_flow E K (ic_flow ic) :: ('a incoming_state_scheme) flow);
       c_assert (k_listen K (tick w) fd = 0);
       Some (True, w)
     }
   }"

definition incoming_listen ::
    "'j env \<Rightarrow> 'k net_kernel_scheme \<Rightarrow> nat \<Rightarrow> 'a incoming_state_scheme \<Rightarrow> 'a incoming_state_scheme option" where
  "incoming_listen E K a w = do {
     ic \<leftarrow> incoming_find a w;
     (err, addrs, p, w) \<leftarrow> resolve_result K (ic_peer ic) w;
     let w = incoming_store (ic\<lparr>ic_peer := p\<rparr>) w;
     if err \<noteq> 0 then incoming_retry E K a w
     else do {
       (bound, w) \<leftarrow> incoming_bind E K addrs a w;
       if \<not> bound then incoming_retry E K a w
       else do {
         ic \<leftarrow> incoming_find a w;
         (p, w) \<leftarrow> peer_epoll_add (Peer_transport a) (ic_peer ic) True w;
         Some (incoming_store (ic\<lparr>ic_peer := p, ic_attempt := 0, ic_handler := Incoming_handler\<rparr>) w)
       }
     }
   }"

definition incoming_resolve ::
    "'k net_kernel_scheme \<Rightarrow> nat \<Rightarrow> 'a incoming_state_scheme \<Rightarrow> 'a incoming_state_scheme option" where
  "incoming_resolve K a w = do {
     ic \<leftarrow> incoming_find a w;
     (p, w) \<leftarrow> resolve K (Peer_transport a) (ic_peer ic) (ic_node ic) (ic_service ic) AI_PASSIVE w;
     Some (incoming_store (ic\<lparr>ic_peer := p, ic_handler := Incoming_listen\<rparr>) w)
   }"

definition incoming_resolve_wrapper ::
    "'k net_kernel_scheme \<Rightarrow> nat \<Rightarrow> 'a incoming_state_scheme \<Rightarrow> 'a incoming_state_scheme option" where
  "incoming_resolve_wrapper K a w = incoming_resolve K a w"

text \<open>\<^verbatim>\<open>peer->event_handler(peer)\<close> for the peer of an incoming transport.\<close>

definition incoming_event ::
    "'j env \<Rightarrow> 'k net_kernel_scheme \<Rightarrow> nat \<Rightarrow> 'a incoming_state_scheme \<Rightarrow> 'a incoming_state_scheme option" where
  "incoming_event E K a w = do {
     ic \<leftarrow> incoming_find a w;
     case ic_handler ic of
       Incoming_handler \<Rightarrow> incoming_handler E K a w
     | Incoming_listen \<Rightarrow> incoming_listen E K a w
     | Incoming_resolve_wrapper \<Rightarrow> incoming_resolve_wrapper K a w
   }"

definition incoming_new ::
    "'j env \<Rightarrow> 'k net_kernel_scheme \<Rightarrow> string option \<Rightarrow> string \<Rightarrow> flow_ref \<Rightarrow> nat option \<Rightarrow>
      'a incoming_state_scheme \<Rightarrow> 'a incoming_state_scheme option" where
  "incoming_new E K node service flow pass w = do {
     let w = flow_ref_inc (the_flow E K flow) w;
     let a = next_addr w;
     let w = w\<lparr>next_addr := a + 1\<rparr>;
     (uid, rs) \<leftarrow> uuid_gen (env_entropy E) (rnd w) (replicate UUID_LEN 0);
     let w = w\<lparr>rnd := rs, incoming_head := incoming_head w @
       [\<lparr>ic_at = a, ic_peer = \<lparr>peer_fd = -1, peer_always_trigger = False\<rparr>, ic_handler = Incoming_handler, ic_id = uid,
         ic_node = node, ic_service = service, ic_attempt = 0, ic_flow = flow, ic_pass = pass\<rparr>]\<rparr>;
     incoming_resolve K a w
   }"

text \<open>The options; the argument is never null for them.\<close>

definition incoming_add where
  "incoming_add E K host_port flow pass w = (case opts_split host_port (CHR ''/'') of
     (host, rest) \<Rightarrow> map_option (Pair True) (incoming_new E K host rest flow pass w))"

definition incoming_listen_receive :: "'j env \<Rightarrow> 'k net_kernel_scheme \<Rightarrow> ('a incoming_state_scheme) opts_handler" where
  "incoming_listen_receive E K arg w = Option.bind arg (\<lambda>arg. incoming_add E K arg Receive_flow None w)"

definition incoming_listen_send :: "'j env \<Rightarrow> 'k net_kernel_scheme \<Rightarrow> ('a incoming_state_scheme) opts_handler" where
  "incoming_listen_send E K arg w = Option.bind arg (\<lambda>arg. send_add (incoming_add E K) Send_flow arg w)"

definition incoming_listen_send_receive :: "'j env \<Rightarrow> 'k net_kernel_scheme \<Rightarrow> ('a incoming_state_scheme) opts_handler" where
  "incoming_listen_send_receive E K arg w = Option.bind arg (\<lambda>arg. send_add (incoming_add E K) Send_receive_flow arg w)"

definition incoming_opts_add ::
    "'j env \<Rightarrow> 'k net_kernel_scheme \<Rightarrow> nat \<Rightarrow> ('a incoming_state_scheme) opts_state \<Rightarrow>
      ('a incoming_state_scheme) opts_state option" where
  "incoming_opts_add E K incoming_opts st = do {
     st \<leftarrow> opts_add ''listen-receive'' (Some ''[HOST/]PORT'') (returning (incoming_listen_receive E K)) incoming_opts st;
     st \<leftarrow> opts_add ''listen-send'' (Some ''FORMAT=[HOST/]PORT'') (returning (incoming_listen_send E K)) incoming_opts st;
     opts_add ''listen-send-receive'' (Some ''FORMAT=[HOST/]PORT'') (returning (incoming_listen_send_receive E K)) incoming_opts st
   }"

fun incoming_del_all ::
    "'j env \<Rightarrow> 'k net_kernel_scheme \<Rightarrow> incoming list \<Rightarrow> 'a incoming_state_scheme \<Rightarrow> 'a incoming_state_scheme option" where
  "incoming_del_all E K [] w = Some w"
| "incoming_del_all E K (ic # ics) w = do {
     w \<leftarrow> incoming_del E K (ic_at ic) w;
     incoming_del_all E K ics w
   }"

definition incoming_cleanup ::
    "'j env \<Rightarrow> 'k net_kernel_scheme \<Rightarrow> 'a incoming_state_scheme \<Rightarrow> 'a incoming_state_scheme option" where
  "incoming_cleanup E K w = incoming_del_all E K (incoming_head w) w"

section \<open>Addresses on the stack\<close>

lemma sockaddr_in_stored: "sockaddr_in (map Some sa @ rest) (length sa) = Some sa"
  by (induction sa) simp_all

lemma sockaddr_in_past: "length mem < n \<Longrightarrow> sockaddr_in mem n = None"
proof (induction mem n rule: sockaddr_in.induct)
  case (3 b mem n)
  then show ?case by (cases b) simp_all
qed simp_all

text \<open>An address is read back exactly when it fits.\<close>

lemma sockaddr_out_in:
  "(case sockaddr_out sa sockaddr_uninit SOCKADDR_SIZE of (mem, len) \<Rightarrow> sockaddr_in mem len) =
     (if length sa \<le> SOCKADDR_SIZE then Some sa else None)"
proof (cases "length sa \<le> SOCKADDR_SIZE")
  case True
  then show ?thesis by (simp add: sockaddr_out_def sockaddr_in_stored)
next
  case False
  then have "length (map Some (take SOCKADDR_SIZE sa) @ drop (min SOCKADDR_SIZE (length sa)) sockaddr_uninit) < length sa"
    by (simp add: sockaddr_uninit_def)
  from sockaddr_in_past [OF this] show ?thesis using False by (simp add: sockaddr_out_def)
qed

text \<open>So what is accepted is the two addresses, if both fit.\<close>

lemma incoming_handler_accepts:
  assumes "incoming_find a w = Some ic" and "k_accept K (tick w) (peer_fd (ic_peer ic)) = Some (there, here)"
  shows "incoming_handler E K a w = do {
     (fd, w) \<leftarrow> open_socket K (w\<lparr>tick := tick w + 1\<rparr>);
     c_assert (length there \<le> SOCKADDR_SIZE \<and> k_getnameinfo K there = 0);
     c_assert (length here \<le> SOCKADDR_SIZE \<and> k_getnameinfo K here = 0);
     flow_socket_connected (k_socket K) (tick w) fd (the_flow E K (ic_flow ic) :: ('a incoming_state_scheme) flow);
     (ok, w :: 'a incoming_state_scheme) \<leftarrow> flow_new_send_hello E fd (the_flow E K (ic_flow ic)) (ic_pass ic) None w;
     Some w
   }"
proof -
  have "sockaddr_in (fst (sockaddr_out sa sockaddr_uninit SOCKADDR_SIZE)) (snd (sockaddr_out sa sockaddr_uninit SOCKADDR_SIZE)) =
      (if length sa \<le> SOCKADDR_SIZE then Some sa else None)" for sa
    using sockaddr_out_in [of sa] by (simp add: split_beta)
  then show ?thesis using assms by (simp add: incoming_handler_def Let_def split_beta c_assert_def cong: if_cong)
qed

section \<open>Invariant\<close>

definition incoming_phase :: "incoming \<Rightarrow> phase" where
  "incoming_phase ic = (if ic_handler ic = Incoming_resolve_wrapper then Ph_waiting else Ph_armed)"

text \<open>
  The socket that listens, or the near end of the resolver, is registered. Nothing is known of the
  descriptor while the transport waits for a retry.
\<close>

definition incoming_ok :: "incoming \<Rightarrow> 'a incoming_state_scheme \<Rightarrow> bool" where
  "incoming_ok ic w \<longleftrightarrow> flow_pass_ok (ic_flow ic) (ic_pass ic) \<and> (case ic_handler ic of
     Incoming_handler \<Rightarrow> registered_at (ic_at ic) (ic_peer ic) w
   | Incoming_listen \<Rightarrow> registered_at (ic_at ic) (ic_peer ic) w \<and> async_requests w (peer_fd (ic_peer ic)) \<noteq> None
   | Incoming_resolve_wrapper \<Rightarrow> True)"

definition incoming_tried :: "incoming \<Rightarrow> nat" where
  "incoming_tried ic = unat (ic_attempt ic)"

lemma more_incoming:
  fixes w w' :: "'a incoming_state_scheme"
  assumes "sr_state.more w' = sr_state.more w"
  shows "incoming_head w' = incoming_head w" and "outgoing_head w' = outgoing_head w" and "file_head w' = file_head w"
    and "incoming_state.more w' = incoming_state.more w"
  using assms by (cases w; cases w'; simp)+

text \<open>What a step of the incoming transport \<open>a\<close> leaves alone.\<close>

definition incoming_frame :: "nat \<Rightarrow> 'a incoming_state_scheme \<Rightarrow> 'a incoming_state_scheme \<Rightarrow> bool" where
  "incoming_frame a w w' \<longleftrightarrow> incoming_state.more w' = incoming_state.more w \<and> file_head w' = file_head w \<and>
     outgoing_head w' = outgoing_head w \<and> next_addr w \<le> next_addr w' \<and> call_frame w w' \<and> net_frame a w w'"

interpretation incomings: net_handlers incoming_head ic_at incoming_phase incoming_tried incoming_ok K incoming_store incoming_frame
  for K
proof
  fix w w' v u :: "'a incoming_state_scheme" and a q n ft et rt
  show "incoming_head w' = incoming_head w" if "sr_state.more w' = sr_state.more w" by (rule more_incoming(1) [OF that])
  show "net_frame a w w'" if "tp_frame w w'" by (rule net_frame_tp [OF that])
  show "net_up K w'" if "net_up K w" "net_frame a w w'" using that by (simp add: net_up_def net_frame_def)
  show "incoming_ok q w'" if "incoming_ok q w" "net_frame a w w'" "ic_at q \<noteq> a"
    using that registered_at_fr [OF _ that(2), of "ic_at q" "ic_peer q"]
    by (auto simp: incoming_ok_def registered_at_def net_frame_def split: incoming_handler.splits)
  show "\<exists>m. incoming_store q w = sr_state.more_update (\<lambda>_. m) w"
    by (rule exI [of _ "sr_state.more (incoming_store q w)"]) (cases w; simp add: incoming_store_def)
  show "incoming_head (incoming_store q w) = struct_upd ic_at q (incoming_head w)" by (simp add: incoming_store_def)
  have "call_frame w (incoming_store q w)" by (rule call_frame_heads) (simp_all add: incoming_store_def)
  then show "incoming_frame (ic_at q) w (incoming_store q w)"
    by (simp add: incoming_frame_def incoming_store_def net_frame_def)
  show "incoming_frame a w w'" if "t_frame w w'" "call_frame w w'"
    using that more_incoming [of w' w] net_frame_tp [OF t_frame_tp [OF that(1)]] by (simp add: incoming_frame_def t_frame_def)
  show "incoming_frame a u w" if "incoming_frame a u v" "incoming_frame a v w"
    using that call_frame_trans [of u v w] net_frame_trans [of a u v w] by (simp add: incoming_frame_def)
  show "net_frame a w w'" "call_frame w w'" if "incoming_frame a w w'" using that by (simp_all add: incoming_frame_def)
  show "incoming_head (w\<lparr>tick := n, fds := ft, epoll_set := et, async_requests := rt\<rparr>) = incoming_head w" by simp
  show "incoming_frame a w v" if "v = w\<lparr>tick := n, fds := ft, epoll_set := et, async_requests := rt\<rparr>" "net_frame a w v" "call_frame w v"
    using that(2,3) by (simp add: incoming_frame_def) (simp add: that(1))
  show "async_requests (incoming_store q w) = async_requests w" by (simp add: incoming_store_def)
qed

abbreviation incoming_sys :: "'k net_kernel_scheme \<Rightarrow> others \<Rightarrow> nat option \<Rightarrow> 'a incoming_state_scheme \<Rightarrow> bool" where
  "incoming_sys K \<equiv> incomings.sys TYPE('k) K"

abbreviation incoming_work ::
    "'k net_kernel_scheme \<Rightarrow> others \<Rightarrow> nat option \<Rightarrow> incoming \<Rightarrow> 'a incoming_state_scheme \<Rightarrow> bool" where
  "incoming_work K \<equiv> incomings.work TYPE('k) K"

abbreviation incoming_done ::
    "'k net_kernel_scheme \<Rightarrow> others \<Rightarrow> nat option \<Rightarrow> nat \<Rightarrow> nat \<Rightarrow> 'a incoming_state_scheme \<Rightarrow> 'a incoming_state_scheme \<Rightarrow> bool" where
  "incoming_done K \<equiv> incomings.finished TYPE('k) K"

abbreviation incoming_returns ::
    "'k net_kernel_scheme \<Rightarrow> others \<Rightarrow> nat option \<Rightarrow> nat \<Rightarrow> nat \<Rightarrow> 'a incoming_state_scheme \<Rightarrow>
      'a incoming_state_scheme option \<Rightarrow> bool" where
  "incoming_returns K \<equiv> incomings.returns TYPE('k) K"

lemmas incoming_find_eq = incomings.work_up(4) [folded incoming_find_def]
  and incoming_called = incomings.called [folded incoming_find_def]

lemma incoming_store_head [simp]: "incoming_head (incoming_store ic w) = struct_upd ic_at ic (incoming_head w)"
  by (simp add: incoming_store_def)

section \<open>The operations keep the invariant\<close>

lemma incoming_retry_spec:
  fixes w :: "'a incoming_state_scheme" and K :: "'k net_kernel_scheme"
  assumes wk: "incoming_work K oth f ic w" and pass: "flow_pass_ok (ic_flow ic) (ic_pass ic)"
  shows "incoming_returns K oth f (ic_at ic) (incoming_tried ic) w (incoming_retry E K (ic_at ic) w)"
proof -
  define ic' where "ic' = ic\<lparr>ic_attempt := ic_attempt ic + 1, ic_handler := Incoming_resolve_wrapper\<rparr>"
  have ic': "ic_at ic' = ic_at ic" "incoming_phase ic' = Ph_waiting" by (simp_all add: ic'_def incoming_phase_def)
  have le: "incoming_tried ic' \<le> Suc (incoming_tried ic)" by (simp add: ic'_def incoming_tried_def unat_word_ariths)
  have ok: "incoming_ok ic' (incoming_store ic' w)" using pass by (simp add: incoming_ok_def ic'_def)
  have eq: "incoming_retry E K (ic_at ic) w = (case wakeup_get_retry_delay_ms (env_entropy E) (ic_attempt ic) (rnd w) of
      None \<Rightarrow> None
    | Some (delay, rs) \<Rightarrow> wakeup_add (new_fd K (incoming_store ic' w)) (k_timer_stat K) (Peer_transport (ic_at ic)) delay
        ((incoming_store ic' w)\<lparr>rnd := rs\<rparr>))"
    using incoming_find_eq [OF wk]
    by (simp add: incoming_retry_def ic'_def Let_def split: option.split prod.split)
  note as = incomings.asked [OF wk incomings.work_up(1) [OF wk] ic'(1,2) ok, where src = "env_entropy E" and att = "ic_attempt ic"
      and st = "k_timer_stat K"]
  show ?thesis
    using as incomings.finished_le [OF _ le]
    by (auto simp: eq incomings.returns_def incoming_tried_def split: option.splits)
qed

text \<open>From \<open>w\<close> to \<open>v\<close> only the structure at \<open>a\<close> has changed.\<close>

definition incoming_only :: "nat \<Rightarrow> 'a incoming_state_scheme \<Rightarrow> 'a incoming_state_scheme \<Rightarrow> bool" where
  "incoming_only a w v \<longleftrightarrow> incoming_frame a w v \<and> (\<exists>ic. ic_at ic = a \<and> incoming_head v = struct_upd ic_at ic (incoming_head w))"

lemma incoming_returns_after:
  "incoming_only a w v \<Longrightarrow> incoming_returns K oth f a n v r \<Longrightarrow> incoming_returns K oth f a n w r"
  by (rule incomings.returns_after) (auto simp: incoming_only_def)

lemma incoming_done_after:
  "incoming_only a w v \<Longrightarrow> incoming_done K oth f a n v w' \<Longrightarrow> incoming_done K oth f a n w w'"
  by (rule incomings.finished_after) (auto simp: incoming_only_def)

lemma incoming_only_trans: "incoming_only a u v \<Longrightarrow> incoming_only a v w \<Longrightarrow> incoming_only a u w"
  unfolding incoming_only_def using incomings.frame_trans by fastforce

text \<open>The peer holds the socket \<open>p\<close>; the other fields are unchanged.\<close>

lemma incoming_bind_spec:
  fixes w :: "'a incoming_state_scheme" and K :: "'k net_kernel_scheme"
  assumes wk: "incoming_work K oth f ic w" and on: "incoming_only (ic_at ic) w0 w"
  shows "\<exists>bound v p. incoming_bind E K ais (ic_at ic) w = Some (bound, v) \<and> incoming_work K oth f (ic\<lparr>ic_peer := p\<rparr>) v \<and>
    incoming_only (ic_at ic) w0 v \<and> (bound \<longrightarrow> socket_held (peer_fd p) v)"
  using assms
proof (induction ais arbitrary: ic w)
  case Nil
  have "ic\<lparr>ic_peer := ic_peer ic\<rparr> = ic" by simp
  then show ?case using Nil by (metis incoming_bind.simps(1))
next
  case (Cons ai ais)
  note wk = Cons.prems(1)
  let ?a = "ic_at ic"
  note nok = incomings.work_up(2) [OF wk]
  have K: "k_getnameinfo K (ai_addr ai) = 0" "socket_kernel_ok (k_socket K)" "k_listen K n fd = 0" for n fd
    using nok by (simp_all add: net_ok_def)
  from incomings.work_open [OF wk] obtain fd u where u: "open_socket K w = Some (fd, u)" "incoming_work K oth f ic u"
    "incoming_frame ?a w u" "incoming_head u = incoming_head w" "socket_held fd u" by blast
  define ic' where "ic' = ic\<lparr>ic_peer := (ic_peer ic)\<lparr>peer_fd := fd\<rparr>\<rparr>"
  have a: "ic_at ic' = ?a" by (simp add: ic'_def)
  define v where "v = incoming_store ic' u"
  note vs = incomings.work_stored [OF u(2) a, folded v_def]
  define x where "x = v\<lparr>tick := tick v + 1\<rparr>"
  have xt: "x = v\<lparr>tick := tick v + 1, trace := trace v\<rparr>" by (simp add: x_def)
  note xs = incomings.work_tick [OF vs(1), where n = "tick v + 1" and tr = "trace v", folded xt, unfolded a]
  have held: "socket_held fd x"
    using u(5) incomings.held_store [of fd ic' u]
    by (simp add: x_def v_def socket_held_def fd_unused_def fd_free_def fd_fresh_def all_sends_def)
  have "incoming_only ?a w x"
    using incomings.frame_trans [OF u(3) incomings.frame_trans [OF vs(2) xs(2)]] a u(4) xs(3)
    by (auto simp: incoming_only_def v_def)
  note on = incoming_only_trans [OF Cons.prems(2) this]
  note step = incoming_find_eq [OF wk] K u(1) socket_calls_return [OF K(2)]
  show ?case
  proof (cases "k_bind K (tick v) fd (ai_addr ai) = 0")
    case True
    have "incoming_bind E K (ai # ais) ?a w = Some (True, x)"
      using step True by (simp add: flow_hooks_return Let_def ic'_def v_def x_def)
    then show ?thesis using xs(1) on held by (auto simp: ic'_def)
  next
    case False
    from incomings.work_close [OF xs(1) held] obtain y where y: "close_fd fd x = Some y" "incoming_work K oth f ic' y"
      "incoming_frame ?a x y" "incoming_head y = incoming_head x" by blast
    have "incoming_bind E K (ai # ais) ?a w = incoming_bind E K ais ?a y"
      using step False y(1) by (simp add: Let_def ic'_def v_def x_def)
    moreover have "incoming_only ?a w0 y"
      using on incomings.frame_trans [OF _ y(3)] by (auto simp: incoming_only_def y(4))
    ultimately show ?thesis using Cons.IH [OF y(2), unfolded a] by (simp add: ic'_def)
  qed
qed

section \<open>The event handlers\<close>

lemma incoming_listen_spec:
  fixes w :: "'a incoming_state_scheme" and K :: "'k net_kernel_scheme"
  assumes sys: "incoming_sys K oth f w" and ic: "ic \<in> set (incoming_head w)" "ic_handler ic = Incoming_listen"
    and own: "Some (Peer_transport (ic_at ic)) \<notin># owners f w"
  shows "incoming_returns K oth f (ic_at ic) (incoming_tried ic) w (incoming_listen E K (ic_at ic) w)"
proof -
  let ?a = "ic_at ic"
  note c = incoming_called [OF sys ic(1)]
  have ok: "registered_at ?a (ic_peer ic) w" "async_requests w (peer_fd (ic_peer ic)) \<noteq> None"
    and pass: "flow_pass_ok (ic_flow ic) (ic_pass ic)" using c(2) ic(2) by (simp_all add: incoming_ok_def)
  from incomings.enter_answered [OF sys ic(1) own ok] obtain err addrs v where
    r: "resolve_result K (ic_peer ic) w = Some (err, addrs, (ic_peer ic)\<lparr>peer_fd := -1\<rparr>, v)"
      "incoming_work K oth f ic v" "incoming_frame ?a w v" "incoming_head v = incoming_head w" by blast
  define ic' where "ic' = ic\<lparr>ic_peer := (ic_peer ic)\<lparr>peer_fd := -1\<rparr>\<rparr>"
  have a: "ic_at ic' = ?a" "incoming_tried ic' = incoming_tried ic" by (simp_all add: ic'_def incoming_tried_def)
  define u where "u = incoming_store ic' v"
  note us = incomings.work_stored [OF r(2) a(1), folded u_def]
  have on: "incoming_only ?a w u"
    using incomings.frame_trans [OF r(3) us(2)] a(1) by (auto simp: incoming_only_def u_def r(4))
  have pass': "flow_pass_ok (ic_flow ic') (ic_pass ic')" using pass by (simp add: ic'_def)
  have retry: "incoming_returns K oth f ?a (incoming_tried ic) w (incoming_retry E K ?a x)"
    if "incoming_work K oth f (ic'\<lparr>ic_peer := p\<rparr>) x" "incoming_only ?a w x" for p x
    using incoming_returns_after [OF that(2)] incoming_retry_spec [OF that(1), of E] pass' a
    by (simp add: incoming_tried_def)
  show ?thesis
  proof (cases "err = 0")
    case False
    have "ic'\<lparr>ic_peer := ic_peer ic'\<rparr> = ic'" by simp
    then show ?thesis
      using False c(1) r(1) retry [of "ic_peer ic'" u] us(1) on by (simp add: incoming_listen_def ic'_def u_def)
  next
    case True
    from incoming_bind_spec [OF us(1) on [folded a(1)], of E addrs] obtain bound x p where
      x: "incoming_bind E K addrs ?a u = Some (bound, x)" "incoming_work K oth f (ic'\<lparr>ic_peer := p\<rparr>) x"
        "incoming_only ?a w x" "bound \<longrightarrow> socket_held (peer_fd p) x" unfolding a(1) by blast
    show ?thesis
    proof (cases bound)
      case False
      then show ?thesis using True c(1) r(1) x(1) retry [OF x(2,3)] by (simp add: incoming_listen_def ic'_def u_def)
    next
      case bd: True
      define q where "q = ic'\<lparr>ic_peer := p\<lparr>peer_always_trigger := False\<rparr>, ic_attempt := 0, ic_handler := Incoming_handler\<rparr>"
      have q: "ic_at q = ic_at (ic'\<lparr>ic_peer := p\<rparr>)" "incoming_phase q = Ph_armed" "incoming_tried q = 0"
        by (simp_all add: q_def incoming_phase_def incoming_tried_def)
      have "incoming_ok q z" if "registered_at ?a (p\<lparr>peer_always_trigger := False\<rparr>) z" for z :: "'a incoming_state_scheme"
        using that pass' a(1) by (simp add: incoming_ok_def q_def)
      then have "\<exists>z. peer_epoll_add (Peer_transport (ic_at (ic'\<lparr>ic_peer := p\<rparr>))) p True x =
          Some (p\<lparr>peer_always_trigger := False\<rparr>, z) \<and>
        incoming_done K oth f (ic_at (ic'\<lparr>ic_peer := p\<rparr>)) (incoming_tried q) x (incoming_store q z)"
        using x(4) bd a(1) by (intro incomings.held_armed [OF x(2) q(1,2)]) simp_all
      then obtain z where z: "peer_epoll_add (Peer_transport ?a) p True x = Some (p\<lparr>peer_always_trigger := False\<rparr>, z)"
        "incoming_done K oth f ?a 0 x (incoming_store q z)" using a(1) q(3) by auto
      have "incoming_listen E K ?a w = Some (incoming_store q z)"
        using True bd c(1) r(1) x(1) z(1) incoming_find_eq [OF x(2)] a(1)
        by (simp add: incoming_listen_def ic'_def u_def q_def)
      then show ?thesis
        using incomings.finished_le [OF incoming_done_after [OF x(3) z(2)], of "Suc (incoming_tried ic)"]
        by (simp add: incomings.returns_def)
    qed
  qed
qed

text \<open>A connection is accepted: the incoming transport itself does not change.\<close>

lemma incoming_handler_spec:
  fixes w :: "'a incoming_state_scheme" and K :: "'k net_kernel_scheme"
  assumes sys: "incoming_sys K oth f w" and ic: "ic \<in> set (incoming_head w)" "ic_handler ic = Incoming_handler"
  shows "\<exists>w'. incoming_handler E K (ic_at ic) w = Some w' \<and> incoming_done K oth f (ic_at ic) (incoming_tried ic) w w' \<and>
    incoming_head w' = incoming_head w"
proof -
  let ?a = "ic_at ic"
  note c = incoming_called [OF sys ic(1)]
  have up: "net_ok K" "kernel_ok K" using c(3) by (simp_all add: net_up_def net_ok_def)
  have pass: "flow_pass_ok (ic_flow ic) (ic_pass ic)" using c(2) by (simp add: incoming_ok_def)
  have same: "incoming_done K oth f ?a (incoming_tried ic) w w' \<and> incoming_head w' = incoming_head w"
    if "incoming_sys K oth f w'" "conn_frame w w'" for w' :: "'a incoming_state_scheme"
    using that incomings.frame_t [OF _ call_frameI [OF that(2)]] more_incoming(1) [of w' w]
    by (intro conjI incomings.finished_same [OF _ _ _ ic(1)]) (simp_all add: conn_frame_def t_frame_def incoming_phase_def ic(2))
  define v where "v = w\<lparr>tick := tick w + 1\<rparr>"
  have vt: "v = w\<lparr>tick := tick w + 1, trace := trace w\<rparr>" and vS: "v = w\<lparr>tick := Suc (tick w)\<rparr>" by (simp_all add: v_def)
  have vi: "conn_inv (\<lambda>_. 0) f v" "owners f v = owners f w" unfolding vt by (rule conn_inv_ticked [OF c(4)])+
  have vf: "conn_frame w v" by (rule conn_frameI) (simp_all add: v_def t_frame_def)
  have vs: "incoming_sys K oth f v"
    using vf by (intro incomings.step_same [OF sys vi(1) _ vi(2)]) (simp_all add: conn_frame_def)
  show ?thesis
  proof (cases "k_accept K (tick w) (peer_fd (ic_peer ic))")
    case None
    then show ?thesis using same [OF vs vf] c(1) by (simp add: incoming_handler_def v_def)
  next
    case (Some p)
    obtain there here where p: "p = (there, here)" by (cases p)
    have len: "length there \<le> SOCKADDR_SIZE" "length here \<le> SOCKADDR_SIZE" "\<And>sa. k_getnameinfo K sa = 0"
      using up(1) Some p unfolding net_ok_def by blast+
    note so = socket_opened [OF up(2) vi(1)]
    define u where "u = v\<lparr>fds := (fds v)(new_fd K v \<mapsto> sock_info K v)\<rparr>"
    have ui: "conn_inv (\<lambda>_. 0) f u" "owners f u = owners f v" "fd_unused (new_fd K v) u"
      using so by (simp_all add: u_def)
    have uf: "conn_frame v u" by (rule conn_frameI) (simp_all add: u_def t_frame_def)
    have us: "incoming_sys K oth f u"
      using uf by (intro incomings.step_same [OF vs ui(1) _ ui(2)]) (simp_all add: conn_frame_def)
    have own: "owner_free f None u" by (simp add: owner_free_def)
    from handed_over [OF up(2) ui(1,3) pass own, of E] obtain sent w' where
      w': "flow_new_send_hello E (new_fd K v) (the_flow E K (ic_flow ic)) (ic_pass ic) None u = Some (sent, w')"
        "conn_inv (\<lambda>_. 0) f w'" "conn_frame u w'" "if sent then made f u None w' else owners f w' = owners f u" by blast
    have "incoming_sys K oth f w'"
    proof (cases sent)
      case True
      then show ?thesis using w'(4) by (intro incomings.step_made [OF us w'(2), of None]) simp_all
    next
      case False
      then show ?thesis
        using w'(3,4) by (intro incomings.step_same [OF us w'(2)]) (simp_all add: conn_frame_def)
    qed
    moreover have "incoming_handler E K ?a w = Some w'"
      using c(1) Some p so(1) len up(1) w'(1)
      by (simp add: incoming_handler_accepts [OF c(1)] net_ok_def flow_hooks_return vS [symmetric] u_def)
    ultimately show ?thesis using same [OF _ conn_frame_trans [OF vf conn_frame_trans [OF uf w'(3)]]] by blast
  qed
qed

lemma incoming_resolve_spec:
  fixes w :: "'a incoming_state_scheme" and K :: "'k net_kernel_scheme"
  assumes wk: "incoming_work K oth f ic w" and pass: "flow_pass_ok (ic_flow ic) (ic_pass ic)"
  shows "\<exists>w'. incoming_resolve K (ic_at ic) w = Some w' \<and> incoming_done K oth f (ic_at ic) (incoming_tried ic) w w'"
proof -
  define ic' where "ic' fd = ic\<lparr>ic_peer := (ic_peer ic)\<lparr>peer_fd := fd, peer_always_trigger := False\<rparr>,
    ic_handler := Incoming_listen\<rparr>" for fd
  have ic': "ic_at (ic' fd) = ic_at ic" "incoming_phase (ic' fd) = Ph_armed" "incoming_tried (ic' fd) = incoming_tried ic" for fd
    by (simp_all add: ic'_def incoming_phase_def incoming_tried_def)
  have "incoming_ok (ic' fd) v" if "registered_at (ic_at ic) ((ic_peer ic)\<lparr>peer_fd := fd, peer_always_trigger := False\<rparr>) v"
      "async_requests v fd \<noteq> None" for fd and v :: "'a incoming_state_scheme"
    using that pass by (simp add: incoming_ok_def ic'_def)
  then have "\<exists>fd v. resolve K (Peer_transport (ic_at ic)) (ic_peer ic) (ic_node ic) (ic_service ic) AI_PASSIVE w =
      Some ((ic_peer ic)\<lparr>peer_fd := fd, peer_always_trigger := False\<rparr>, v) \<and>
    incoming_done K oth f (ic_at ic) (incoming_tried ic) w (incoming_store (ic' fd) v)"
    by (intro incomings.resolve_armed [OF wk ic']) simp_all
  then show ?thesis using incoming_find_eq [OF wk] by (auto simp: incoming_resolve_def ic'_def)
qed

text \<open>All three handlers satisfy the contract of a transport.\<close>

lemma incoming_event_returns:
  fixes w :: "'a incoming_state_scheme" and K :: "'k net_kernel_scheme"
  assumes sys: "incoming_sys K oth f w" and ic: "ic \<in> set (incoming_head w)"
    and own: "Some (Peer_transport (ic_at ic)) \<notin># owners f w"
  shows "incoming_returns K oth f (ic_at ic) (incoming_tried ic) w (incoming_event E K (ic_at ic) w)"
proof -
  note c = incoming_called [OF sys ic]
  have le: "incoming_tried ic \<le> Suc (incoming_tried ic)" by simp
  show ?thesis
  proof (cases "ic_handler ic")
    case Incoming_handler
    then show ?thesis
      using incoming_handler_spec [OF sys ic Incoming_handler, of E] incomings.finished_le [OF _ le] c(1)
      by (auto simp: incoming_event_def incomings.returns_def)
  next
    case Incoming_listen
    then show ?thesis using incoming_listen_spec [OF sys ic Incoming_listen own, of E] c(1) by (simp add: incoming_event_def)
  next
    case Incoming_resolve_wrapper
    have "incoming_phase ic \<noteq> Ph_armed" by (simp add: incoming_phase_def Incoming_resolve_wrapper)
    note wk = incomings.enter_waiting [OF sys ic own this]
    have "flow_pass_ok (ic_flow ic) (ic_pass ic)" using c(2) by (simp add: incoming_ok_def)
    from incoming_resolve_spec [OF wk this] show ?thesis
      using incomings.finished_le [OF _ le] c(1) Incoming_resolve_wrapper
      by (auto simp: incoming_event_def incoming_resolve_wrapper_def incomings.returns_def)
  qed
qed

section \<open>Incoming transports as transports\<close>

abbreviation incoming_live :: "'a incoming_state_scheme \<Rightarrow> nat set" where
  "incoming_live \<equiv> in_phase incoming_head ic_at incoming_phase {Ph_waiting, Ph_open, Ph_armed}"

abbreviation incoming_shut :: "'a incoming_state_scheme \<Rightarrow> nat set" where
  "incoming_shut \<equiv> in_phase incoming_head ic_at incoming_phase {Ph_open}"

abbreviation incoming_ready :: "'a incoming_state_scheme \<Rightarrow> nat set" where
  "incoming_ready \<equiv> in_phase incoming_head ic_at incoming_phase {Ph_armed}"

abbreviation incoming_addresses :: "'a incoming_state_scheme \<Rightarrow> nat set" where
  "incoming_addresses \<equiv> structs_addrs incoming_head ic_at"

abbreviation incoming_inv :: "'k net_kernel_scheme \<Rightarrow> 'a incoming_state_scheme \<Rightarrow> bool" where
  "incoming_inv K \<equiv> structs_inv incoming_head ic_at incoming_ok (net_up K) None"

abbreviation incoming_tries :: "'a incoming_state_scheme \<Rightarrow> nat" where
  "incoming_tries \<equiv> structs_tries incoming_head incoming_tried"

definition incoming_kept :: "'a incoming_state_scheme \<Rightarrow> 'a incoming_state_scheme \<Rightarrow> bool" where
  "incoming_kept w w' \<longleftrightarrow> (\<exists>a \<in> incoming_addresses w. incoming_frame a w w')"

interpretation incoming_k: kind incoming_live incoming_shut incoming_ready incoming_addresses "incoming_inv K" incoming_tries
  "incoming_event E K" incoming_kept for E K
  unfolding incoming_kept_def [abs_def]
  by (rule incomings.handlers_kind) (simp_all add: incoming_event_returns incoming_phase_def split: if_splits)

section \<open>New transports\<close>

lemma incoming_new_spec:
  fixes w :: "'a incoming_state_scheme" and K :: "'k net_kernel_scheme"
  assumes sys: "incoming_sys K oth f w" and pass: "flow_pass_ok flow pass"
  shows "\<exists>w'. incoming_new E K node service flow pass w = Some w' \<and> incoming_sys K oth f w' \<and>
    next_addr w \<in> incoming_live w' \<and> incoming_frame (next_addr w) w w'"
proof -
  note inv = kind_sysD(1) [OF sys]
  define v where "v = flow_ref_inc (the_flow E K flow) w"
  note c = conn_inv_counted [OF inv, of E K flow "\<lambda>n. n + 1", folded flow_ref_inc_def, folded v_def]
  have vf: "t_frame w v" "wakeup_head v = wakeup_head w" using c(3) by (simp_all add: conn_frame_def)
  have vs: "incoming_sys K oth f v" by (rule incomings.step_same [OF sys c(1) vf(1) c(2) vf(2)])
  have f1: "incoming_frame a w v" for a by (rule incomings.frame_t [OF vf(1) call_frameI [OF c(3)]])
  from uuid_gen_valid [OF conn_inv_rand [OF c(1)], of "replicate UUID_LEN 0" "env_entropy E"] obtain uid rs where
    u: "uuid_gen (env_entropy E) (rnd v) (replicate UUID_LEN 0) = Some (uid, rs)" "rand_ok rs"
    by (auto simp: UUID_LEN_def)
  define ic where "ic = \<lparr>ic_at = next_addr v, ic_peer = \<lparr>peer_fd = -1, peer_always_trigger = False\<rparr>, ic_handler = Incoming_handler,
    ic_id = uid, ic_node = node, ic_service = service, ic_attempt = 0, ic_flow = flow, ic_pass = pass\<rparr>"
  have ic: "ic_at ic = next_addr v" "flow_pass_ok (ic_flow ic) (ic_pass ic)"
    using pass by (simp_all add: ic_def)
  define x where "x = v\<lparr>next_addr := next_addr v + 1, rnd := rs, incoming_head := incoming_head v @ [ic]\<rparr>"
  have xi: "conn_inv (\<lambda>_. 0) f x" "owners f x = owners f v"
    using conn_inv_same [OF c(1), of x] u(2) by (simp_all add: x_def)
  have wk: "incoming_work K oth f ic x"
    by (rule incomings.link(1) [OF vs ic(1) xi]) (simp_all add: x_def net_frame_def)
  have "call_frame v x" by (rule call_frame_heads) (simp_all add: x_def)
  then have f2: "incoming_frame a v x" for a by (simp add: incoming_frame_def net_frame_def) (simp add: x_def)
  from incoming_resolve_spec [OF wk ic(2)] obtain w' where
    w': "incoming_resolve K (next_addr v) x = Some w'" "incoming_done K oth f (next_addr v) (incoming_tried ic) x w'"
    by (auto simp: ic(1))
  have "next_addr v \<in> incoming_addresses x" by (simp add: x_def structs_addrs_def ic(1))
  note d = incomings.finishedD [OF w'(2) this]
  have "incoming_new E K node service flow pass w = Some w'"
    using u(1) w'(1) by (simp add: incoming_new_def Let_def v_def [symmetric] x_def ic_def)
  moreover have "incoming_frame (next_addr v) w w'"
    by (rule incomings.frame_trans [OF f1 incomings.frame_trans [OF f2 d(2)]])
  ultimately show ?thesis using d(1,6) c(8) by auto
qed

end
