(* ===== verification/Loop.thy ===== *)
theory Loop
  imports Transport
begin

text \<open>
  The event loop of \<^verbatim>\<open>adsbus/peer.c\<close> with the handlers of the program plugged in: the \<^verbatim>\<open>event_handler\<close>
  pointers of all peers as one function, the handler of the shutdown signal, and the proof that
  a whole turn of the loop never calls a freed structure and never stops at an assertion.
\<close>

section \<open>The handlers\<close>

definition SIGNALFD_SIGINFO_SIZE :: int where
  "SIGNALFD_SIGINFO_SIZE = 128"

text \<open>\<open>read_signal\<close> is the result of \<^verbatim>\<open>read\<close> on the descriptor of the signals.\<close>

definition peer_shutdown_handler ::
    "(int \<Rightarrow> int) \<Rightarrow> 'a peer_state_scheme \<Rightarrow> 'a peer_state_scheme option" where
  "peer_shutdown_handler read_signal w = do {
     c_assert (read_signal (peer_fd (peer_shutdown_peer w)) = SIGNALFD_SIGINFO_SIZE);
     peer_shutdown w
   }"

text \<open>
  What the kernel promises: a descriptor of signals that is ready yields one whole structure, a
  timer that has been armed once eight bytes with the count one, and \<^verbatim>\<open>epoll_wait\<close> at most ten
  registered pointers, each once.
\<close>

definition reads_ok :: "(int \<Rightarrow> int) \<Rightarrow> (int \<Rightarrow> int \<times> u64) \<Rightarrow> bool" where
  "reads_ok read_signal read_timer \<longleftrightarrow>
     (\<forall>fd. read_signal fd = SIGNALFD_SIGINFO_SIZE) \<and> (\<forall>fd. read_timer fd = (8, 1))"

definition wait_ok :: "(bool \<Rightarrow> peer_ref list option) \<Rightarrow> 'a peer_state_scheme \<Rightarrow> bool" where
  "wait_ok wait w \<longleftrightarrow> (\<forall>z events. wait z = Some events \<longrightarrow> distinct events \<and> length events \<le> MAX_EVENTS \<and>
     (\<forall>p \<in> set events. \<exists>g. epoll_set w g = Some p))"

text \<open>\<^verbatim>\<open>peer->event_handler(peer)\<close> for every kind of peer.\<close>

definition event_handler ::
    "'j env \<Rightarrow> (int \<Rightarrow> int) \<Rightarrow> (int \<Rightarrow> int \<times> u64) \<Rightarrow> (nat \<Rightarrow> 'a sr_state_scheme \<Rightarrow> 'a sr_state_scheme option) \<Rightarrow>
      peer_ref \<Rightarrow> 'a sr_state_scheme \<Rightarrow> 'a sr_state_scheme option" where
  "event_handler E read_signal read_timer transport p w = (case p of
     Peer_shutdown \<Rightarrow> peer_shutdown_handler read_signal w
   | Peer_receive a \<Rightarrow> receive_read E (close_call transport) a w
   | Peer_send a \<Rightarrow> send_del_wrapper (close_call transport) a w
   | Peer_wakeup a \<Rightarrow> wakeup_handler read_timer (close_call transport) a w
   | _ \<Rightarrow> close_call transport p w)"

section \<open>Shutting down\<close>

text \<open>The signal is registered until it has arrived.\<close>

definition shutdown_ok :: "'a sr_state_scheme \<Rightarrow> bool" where
  "shutdown_ok w \<longleftrightarrow> Peer_shutdown \<notin> set (peer_always_trigger_head w) \<and>
     (\<forall>g. epoll_set w g = Some Peer_shutdown \<longrightarrow> g = peer_fd (peer_shutdown_peer w)) \<and>
     (\<not> peer_shutdown_flag w \<longrightarrow> epoll_set w (peer_fd (peer_shutdown_peer w)) = Some Peer_shutdown \<and>
        peer_fd (peer_shutdown_peer w) \<noteq> -1 \<and> \<not> peer_always_trigger (peer_shutdown_peer w))"

lemma shutdown_ok_frame: "shutdown_ok w \<Longrightarrow> shut_frame w w' \<Longrightarrow> shutdown_ok w'"
  by (simp add: shutdown_ok_def shut_frame_def)

definition shutdown_done :: "'a sr_state_scheme \<Rightarrow> 'a sr_state_scheme" where
  "shutdown_done w = (let fd = peer_fd (peer_shutdown_peer w) in
     w\<lparr>peer_shutdown_peer := (peer_shutdown_peer w)\<lparr>peer_fd := -1\<rparr>, peer_shutdown_flag := True,
       fds := (fds w)(fd := None), epoll_set := (epoll_set w)(fd := None)\<rparr>)"

lemma peer_shutdown_eq:
  assumes "shutdown_ok w" and "\<not> peer_shutdown_flag w" and "peer_state_ok w"
  shows "peer_shutdown w = Some (shutdown_done w)"
proof -
  let ?fd = "peer_fd (peer_shutdown_peer w)"
  have e: "epoll_set w ?fd = Some Peer_shutdown" "?fd \<noteq> -1" "\<not> peer_always_trigger (peer_shutdown_peer w)"
    using assms(1,2) by (simp_all add: shutdown_ok_def)
  then obtain i where "fds w ?fd = Some i" "fd_pollable i" using assms(3) unfolding peer_state_ok_def by blast
  then show ?thesis
    using e by (simp add: peer_shutdown_def peer_close_def peer_epoll_del_def epoll_ctl_del_def close_fd_def Let_def
        shutdown_done_def)
qed

lemma conn_inv_shutdown:
  fixes w :: "'a sr_state_scheme"
  assumes inv: "conn_inv pend f w" and e: "epoll_set w (peer_fd (peer_shutdown_peer w)) = Some Peer_shutdown"
  shows "conn_inv pend f (shutdown_done w)" and "owners f (shutdown_done w) = owners f w"
    and "conn_owners (shutdown_done w) = conn_owners w"
proof -
  let ?fd = "peer_fd (peer_shutdown_peer w)"
  define v where "v = w\<lparr>fds := (fds w)(?fd := None), epoll_set := (epoll_set w)(?fd := None)\<rparr>"
  note r = foreign_registered [OF inv e foreign_simps(1)]
  note v = conn_inv_foreign [OF inv r(2,3), where e = None and i = None, OF _ _ v_def]
  have "conn_inv pend f v" "owners f v = owners f w" "conn_owners v = conn_owners w" using v e by simp_all
  moreover have "conn_owners (shutdown_done w) = conn_owners v"
    by (simp add: shutdown_done_def v_def Let_def conn_owners_def closers_def all_sends_def)
  ultimately show "conn_inv pend f (shutdown_done w)" "owners f (shutdown_done w) = owners f w"
      "conn_owners (shutdown_done w) = conn_owners w"
    using conn_inv_same [of pend f v "shutdown_done w"] conn_inv_rand [of pend f v]
    by (simp_all add: shutdown_done_def v_def Let_def)
qed

section \<open>Callable peers\<close>

text \<open>
  A pointer may be called if the structure it leads to is live: connections and wakeups are in their lists,
  transports are ready, and the signal is registered.
\<close>

definition callable :: "('a sr_state_scheme \<Rightarrow> nat set) \<Rightarrow> 'a sr_state_scheme \<Rightarrow> peer_ref \<Rightarrow> bool" where
  "callable ready w p \<longleftrightarrow> (case p of
     Peer_shutdown \<Rightarrow> \<exists>g. epoll_set w g = Some p
   | Peer_transport t \<Rightarrow> t \<in> ready w
   | _ \<Rightarrow> peer_fds w p \<noteq> {})"

lemma callable_conn: "\<not> foreign p \<Longrightarrow> callable ready w p \<longleftrightarrow> peer_fds w p \<noteq> {}"
  by (cases p) (simp_all add: callable_def)

lemma registered_callable:
  assumes "reg_inv w" and "regs_ok live ready f w" and "epoll_set w g = Some p"
  shows "callable ready w p"
proof -
  have "g \<in> peer_fds w p" using assms(1,3) by (simp add: reg_inv_def)
  then show ?thesis using assms(2,3) by (cases p) (auto simp: regs_ok_def callable_def)
qed

context transports
begin

definition loop_ok :: "'a sr_state_scheme \<Rightarrow> bool" where
  "loop_ok w \<longleftrightarrow> sys_ok w \<and> shutdown_ok w"

lemma loop_ok_conn: "loop_ok w \<Longrightarrow> \<exists>pend. conn_inv pend None w"
  by (auto simp: loop_ok_def sys_ok_def)

lemma loop_ok_facts:
  assumes "loop_ok w"
  shows "wakeup_ok w" and "receive_ok w" and "peer_state_ok w" and "reg_inv w" and "regs_ok live ready None w"
proof -
  obtain pend where "conn_inv pend None w" using loop_ok_conn [OF assms] by blast
  then show "wakeup_ok w" "receive_ok w" "peer_state_ok w" "reg_inv w"
    by (simp_all add: conn_inv_def wakeup_ok_def receive_ok_def send_ok_def)
  show "regs_ok live ready None w" using assms by (simp add: loop_ok_def sys_ok_def)
qed

lemma loop_ok_shutdown:
  assumes ok: "loop_ok w" and flag: "\<not> peer_shutdown_flag w"
  shows "peer_shutdown w = Some (shutdown_done w)" and "loop_ok (shutdown_done w)" and "peer_shutdown_flag (shutdown_done w)"
    and "tries (shutdown_done w) = tries w"
proof -
  have s: "shutdown_ok w" using ok by (simp add: loop_ok_def)
  then have e: "epoll_set w (peer_fd (peer_shutdown_peer w)) = Some Peer_shutdown" using flag by (simp add: shutdown_ok_def)
  show "peer_shutdown w = Some (shutdown_done w)" by (rule peer_shutdown_eq [OF s flag loop_ok_facts(3) [OF ok]])
  have fr: "tp_frame w (shutdown_done w)" using e by (auto simp: tp_frame_def shutdown_done_def Let_def)
  then have "sr_state.more (shutdown_done w) = sr_state.more w" by (simp add: tp_frame_def)
  note m = more_frame [OF this]
  have so: "sys_ok w" using ok by (simp add: loop_ok_def)
  obtain pend where p: "conn_inv pend None w" using loop_ok_conn [OF ok] by blast
  note c = conn_inv_shutdown [OF p e]
  have "tinv (shutdown_done w)" using tinv_tp [OF _ fr] so by (simp add: sys_ok_def)
  moreover have "regs_ok live ready None (shutdown_done w)"
    using regs_ok_tp [OF loop_ok_facts(5) [OF ok] fr] m c(2) by simp
  moreover show flag': "peer_shutdown_flag (shutdown_done w)" by (simp add: shutdown_done_def Let_def)
  ultimately have "sys_ok (shutdown_done w)" using so c m by (auto simp: sys_ok_def)
  moreover have "shutdown_ok (shutdown_done w)"
    using s by (auto simp: shutdown_ok_def shutdown_done_def Let_def)
  ultimately show "loop_ok (shutdown_done w)" by (simp add: loop_ok_def)
  show "tries (shutdown_done w) = tries w" using m by simp
qed

lemma callable_frame:
  assumes "event_frame p w w'" and "q \<noteq> p" and "callable ready w q"
  shows "callable ready w' q"
proof (cases "foreign q")
  case True
  then consider "q = Peer_shutdown" | t where "q = Peer_transport t" by (auto simp: foreign_def)
  then show ?thesis
    by cases (use assms in \<open>auto simp: callable_def event_frame_def shut_frame_def\<close>)
next
  case False
  have "peer_fds w q \<subseteq> peer_fds w' q" using assms(1,2) by (simp add: event_frame_def fds_kept_def)
  then show ?thesis using assms(3) False by (auto simp: callable_conn)
qed

lemma loop_ok_frame: "loop_ok w \<Longrightarrow> sys_ok w' \<Longrightarrow> event_frame p w w' \<Longrightarrow> loop_ok w'"
  using shutdown_ok_frame [of w w'] by (simp add: loop_ok_def event_frame_def)

text \<open>
  The handler of a peer that may be called returns, unless it is a wakeup or a registered transport
  that has used up its retries; the peers that could be called before, but the one that was, still can.
\<close>

lemma event_handled:
  assumes E: "env_ok E" and rd: "reads_ok read_signal read_timer" and ok: "loop_ok w" and c: "callable ready w p"
    and run: "\<not> peer_shutdown_flag w"
  shows "case event_handler E read_signal read_timer transport p w of
      None \<Rightarrow> 20 < tries w
    | Some w' \<Rightarrow> loop_ok w' \<and> tries w' \<le> Suc (max 1 (tries w)) \<and>
        (peer_shutdown_flag w' \<or> (\<forall>q. q \<noteq> p \<longrightarrow> callable ready w q \<longrightarrow> callable ready w' q))"
proof -
  have so: "sys_ok w" using ok by (simp add: loop_ok_def)
  have fin: "loop_ok w' \<and> tries w' \<le> Suc (max 1 (tries w)) \<and>
      (peer_shutdown_flag w' \<or> (\<forall>q. q \<noteq> p \<longrightarrow> callable ready w q \<longrightarrow> callable ready w' q))"
    if "sys_ok w'" "event_frame p w w'" for w'
    using that loop_ok_frame [OF ok that] callable_frame by (auto simp: event_frame_def)
  show ?thesis
  proof (cases p)
    case Peer_shutdown
    have "event_handler E read_signal read_timer transport p w = Some (shutdown_done w)"
      using rd loop_ok_shutdown(1) [OF ok run] Peer_shutdown
      by (simp add: event_handler_def peer_shutdown_handler_def reads_ok_def)
    then show ?thesis using loop_ok_shutdown [OF ok run] by simp
  next
    case (Peer_receive a)
    then obtain r where r: "r \<in> set (receive_head w)" "rx_addr r = a" using c by (auto simp: callable_def peer_fds_def)
    from receive_event [OF E so r(1)] r(2) fin show ?thesis
      by (auto simp: event_handler_def Peer_receive)
  next
    case (Peer_send a)
    then obtain s where s: "s \<in> set (all_sends w)" "snd_addr s = a" using c by (auto simp: callable_def peer_fds_def)
    from send_event [OF so s(1)] s(2) fin show ?thesis by (auto simp: event_handler_def Peer_send)
  next
    case (Peer_send_receive a)
    then show ?thesis using c by (simp add: callable_def peer_fds_def)
  next
    case (Peer_wakeup a)
    then obtain v where v: "v \<in> set (wakeup_head w)" "wk_addr v = a" using c by (auto simp: callable_def peer_fds_def)
    have "read_timer (wk_fd v) = (8, 1)" using rd by (simp add: reads_ok_def)
    from wakeup_event [where read_timer = read_timer, OF so v(1) this] v(2) fin show ?thesis
      by (auto simp: event_handler_def Peer_wakeup split: option.splits)
  next
    case (Peer_transport t)
    then have t: "t \<in> live w" "Some (Peer_transport t) \<notin># owners None w"
      using c loop_ok_facts(5) [OF ok] by (auto simp: regs_ok_def callable_def)
    have ef: "event_frame p w w'"
      if "call_frame w w'" "ready w - {t} \<subseteq> ready w'" "tries w' \<le> Suc (tries w)" for w'
      using that fds_kept_all [of w w'] by (auto simp: call_frame_def event_frame_def Peer_transport)
    from transport_returns [OF sys_ok_inv [OF so run] t] fin ef sys_inv_ok show ?thesis
      by (auto simp: event_handler_def close_call_def Peer_transport split: option.splits)
  qed
qed

text \<open>A batch of events: a handler never meets a structure an earlier one has freed.\<close>

lemma events_handled:
  assumes E: "env_ok E" and rd: "reads_ok read_signal read_timer"
  shows "loop_ok w \<Longrightarrow> distinct ps \<Longrightarrow> peer_shutdown_flag w \<or> (\<forall>p \<in> set ps. callable ready w p) \<Longrightarrow>
    case peer_call_all (event_handler E read_signal read_timer transport) ps w of
      None \<Rightarrow> 20 < max 1 (tries w) + length ps
    | Some w' \<Rightarrow> loop_ok w' \<and> tries w' \<le> max 1 (tries w) + length ps"
proof (induction ps arbitrary: w)
  case Nil
  then show ?case by simp
next
  case (Cons p ps)
  show ?case
  proof (cases "peer_shutdown_flag w")
    case True
    then have "case peer_call_all (event_handler E read_signal read_timer transport) ps w of
        None \<Rightarrow> 20 < max 1 (tries w) + length ps
      | Some w' \<Rightarrow> loop_ok w' \<and> tries w' \<le> max 1 (tries w) + length ps"
      using Cons by simp
    then show ?thesis using True by (auto simp: peer_call_def split: option.splits)
  next
    case False
    then have c: "callable ready w p" using Cons.prems(3) by simp
    note h = event_handled [OF E rd Cons.prems(1) c False]
    show ?thesis
    proof (cases "event_handler E read_signal read_timer transport p w")
      case None
      then show ?thesis using h False by (simp add: peer_call_def)
    next
      case (Some v)
      then have v: "loop_ok v" "tries v \<le> Suc (max 1 (tries w))"
        "peer_shutdown_flag v \<or> (\<forall>q. q \<noteq> p \<longrightarrow> callable ready w q \<longrightarrow> callable ready v q)" using h by simp_all
      have "peer_shutdown_flag v \<or> (\<forall>q \<in> set ps. callable ready v q)"
        using v(3) Cons.prems(2,3) False by auto
      from Cons.IH [OF v(1) _ this] Cons.prems(2) v(2) Some False show ?thesis
        by (auto simp: peer_call_def split: option.splits)
    qed
  qed
qed

text \<open>
  The list of always-triggered peers: the handler of one of them removes at most that one, so the
  successor that was read before is still in the list.
\<close>

lemma always_kind:
  assumes ok: "loop_ok w" and p: "p \<in> set (peer_always_trigger_head w)"
  shows "(\<exists>r \<in> set (receive_head w). p = Peer_receive (rx_addr r)) \<or> (\<exists>s \<in> set (all_sends w). p = Peer_send (snd_addr s))"
proof -
  have n: "peer_fds w p \<noteq> {}" using loop_ok_facts(4) [OF ok] p by (simp add: reg_inv_def)
  have "p \<noteq> Peer_wakeup a" for a using loop_ok_facts(1) [OF ok] p by (auto simp: wakeup_ok_def)
  moreover have "p \<noteq> Peer_transport t" for t using loop_ok_facts(5) [OF ok] p by (auto simp: regs_ok_def)
  moreover have "p \<noteq> Peer_shutdown" using ok p by (auto simp: loop_ok_def shutdown_ok_def)
  ultimately show ?thesis using n by (cases p) (auto simp: peer_fds_def)
qed

lemma always_handled:
  assumes E: "env_ok E" and ok: "loop_ok w" and p: "p \<in> set (peer_always_trigger_head w)"
  shows "\<exists>w'. peer_call (event_handler E read_signal read_timer transport) (Some p) w = Some w' \<and> loop_ok w' \<and>
    tries w' \<le> max 2 (tries w) \<and> (peer_always_trigger_head w' = peer_always_trigger_head w \<or>
      peer_always_trigger_head w' = filter (\<lambda>q. q \<noteq> p) (peer_always_trigger_head w))"
proof (cases "peer_shutdown_flag w")
  case True
  then show ?thesis using ok by (simp add: peer_call_def)
next
  case False
  have so: "sys_ok w" using ok by (simp add: loop_ok_def)
  from always_kind [OF ok p] show ?thesis
  proof (elim disjE bexE)
    fix r
    assume r: "r \<in> set (receive_head w)" "p = Peer_receive (rx_addr r)"
    from receive_event [OF E so r(1)] loop_ok_frame [OF ok] False r(2) show ?thesis
      by (auto simp: peer_call_def event_handler_def)
  next
    fix s
    assume s: "s \<in> set (all_sends w)" "p = Peer_send (snd_addr s)"
    from send_event [OF so s(1)] loop_ok_frame [OF ok] False s(2) show ?thesis
      by (auto simp: peer_call_def event_handler_def)
  qed
qed

lemma list_succ_middle:
  "p \<notin> set xs \<Longrightarrow> list_succ p (xs @ p # ys) = (case ys of [] \<Rightarrow> None | q # qs \<Rightarrow> Some q)"
  by (induction xs) auto

lemma always_loop_returns:
  assumes E: "env_ok E"
  shows "loop_ok w \<Longrightarrow> peer_always_trigger_head w = xs @ ys \<Longrightarrow> length ys \<le> n \<Longrightarrow>
    \<exists>w'. peer_always_loop (event_handler E read_signal read_timer transport) n
        (case ys of [] \<Rightarrow> None | q # qs \<Rightarrow> Some q) w = Some w' \<and> loop_ok w' \<and> tries w' \<le> max 2 (tries w)"
proof (induction n arbitrary: w xs ys)
  case 0
  then show ?case by simp
next
  case (Suc n)
  show ?case
  proof (cases ys)
    case Nil
    then show ?thesis using Suc.prems by simp
  next
    case (Cons p zs)
    let ?h = "event_handler E read_signal read_timer transport"
    have p: "p \<in> set (peer_always_trigger_head w)" using Suc.prems(2) Cons by simp
    have "distinct (peer_always_trigger_head w)"
      using loop_ok_facts(3) [OF Suc.prems(1)] by (simp add: peer_state_ok_def)
    then have d: "p \<notin> set xs" "p \<notin> set zs" using Suc.prems(2) Cons by auto
    from always_handled [OF E Suc.prems(1) p] obtain v where v:
      "peer_call ?h (Some p) w = Some v" "loop_ok v" "tries v \<le> max 2 (tries w)"
      "peer_always_trigger_head v = peer_always_trigger_head w \<or>
        peer_always_trigger_head v = filter (\<lambda>q. q \<noteq> p) (peer_always_trigger_head w)" by blast
    have "filter (\<lambda>q. q \<noteq> p) zs' = zs'" if "p \<notin> set zs'" for zs' using that by (induction zs') auto
    then have "filter (\<lambda>q. q \<noteq> p) (xs @ p # zs) = xs @ zs" using d by simp
    then have "\<exists>us. peer_always_trigger_head v = us @ zs"
      using v(4) Suc.prems(2) Cons by (auto intro: exI [of _ "xs @ [p]"])
    then obtain us where us: "peer_always_trigger_head v = us @ zs" by blast
    have s: "list_succ p (peer_always_trigger_head w) = (case zs of [] \<Rightarrow> None | q # qs \<Rightarrow> Some q)"
      using list_succ_middle [OF d(1)] Suc.prems(2) Cons by simp
    from Suc.IH [OF v(2) us] Suc.prems(3) Cons obtain w' where
      "peer_always_loop ?h n (case zs of [] \<Rightarrow> None | q # qs \<Rightarrow> Some q) v = Some w'" "loop_ok w'"
      "tries w' \<le> max 2 (tries v)" by auto
    then show ?thesis using Cons p v(1,3) s by (intro exI [of _ w']) simp
  qed
qed

text \<open>One turn of the loop.\<close>

lemma turn_returns:
  assumes E: "env_ok E" and rd: "reads_ok read_signal read_timer" and ok: "loop_ok w" and wait: "wait_ok wait w"
  shows "case peer_loop_turn (event_handler E read_signal read_timer transport) wait w of
      None \<Rightarrow> 20 < tries w + MAX_EVENTS
    | Some (go, w') \<Rightarrow> loop_ok w' \<and> tries w' \<le> max 1 (tries w) + MAX_EVENTS \<and> (go \<or> peer_shutdown_flag w')"
proof -
  let ?h = "event_handler E read_signal read_timer transport"
  consider "peer_shutdown_flag w"
    | "\<not> peer_shutdown_flag w" "peer_count_in w + peer_count_out_in w = 0 \<or> peer_count_out w + peer_count_out_in w = 0"
    | "\<not> peer_shutdown_flag w" "peer_count_in w + peer_count_out_in w \<noteq> 0" "peer_count_out w + peer_count_out_in w \<noteq> 0"
    by blast
  then show ?thesis
  proof cases
    case 1
    then show ?thesis using ok by (simp add: peer_loop_turn_def)
  next
    case 2
    then have "peer_loop_turn ?h wait w = Some (False, shutdown_done w)"
      using loop_ok_shutdown(1) [OF ok] by (auto simp: peer_loop_turn_def)
    then show ?thesis using loop_ok_shutdown [OF ok 2(1)] by simp
  next
    case 3
    show ?thesis
    proof (cases "wait (peer_always_trigger_head w \<noteq> [])")
      case None
      then show ?thesis using 3 ok by (simp add: peer_loop_turn_def)
    next
      case (Some events)
      then have ev: "distinct events" "length events \<le> MAX_EVENTS" "\<forall>p \<in> set events. callable ready w p"
        using wait registered_callable [OF loop_ok_facts(4,5) [OF ok]] unfolding wait_ok_def by blast+
      note b = events_handled [OF E rd ok ev(1) disjI2 [OF ev(3)]]
      show ?thesis
      proof (cases "peer_call_all ?h events w")
        case None
        then have "20 < max 1 (tries w) + length events" using b by simp
        then have "20 < tries w + MAX_EVENTS" using ev(2) by (simp add: MAX_EVENTS_def max_def split: if_splits)
        then show ?thesis using None Some 3 by (simp add: peer_loop_turn_def)
      next
        case v: (Some v)
        then have ok': "loop_ok v" "tries v \<le> max 1 (tries w) + MAX_EVENTS" using b ev(2) by auto
        from always_loop_returns [OF E ok'(1), of "[]" "peer_always_trigger_head v"
            "length (peer_always_trigger_head v)" read_signal read_timer]
        obtain w' where w': "peer_always_loop ?h (length (peer_always_trigger_head v))
            (case peer_always_trigger_head v of [] \<Rightarrow> None | q # qs \<Rightarrow> Some q) v = Some w'" "loop_ok w'"
            "tries w' \<le> max 2 (tries v)" by auto
        have "peer_loop_turn ?h wait w = Some (True, w')"
          using 3 Some v w'(1) by (simp add: peer_loop_turn_def Let_def)
        moreover have "tries w' \<le> max 1 (tries w) + MAX_EVENTS" using w'(3) ok'(2) by (simp add: MAX_EVENTS_def)
        ultimately show ?thesis using w'(2) by simp
      qed
    qed
  qed
qed

text \<open>What the invariant says of the pointers.\<close>

lemma loop_ok_no_dangling:
  assumes "loop_ok w"
  shows "(\<forall>g p. epoll_set w g = Some p \<longrightarrow> fds w g \<noteq> None \<and> g \<in> peer_fds w p) \<and>
    (\<forall>p \<in> set (peer_always_trigger_head w). peer_fds w p \<noteq> {}) \<and>
    (\<forall>p. Some p \<in># conn_owners w \<longrightarrow> (\<exists>t \<in> shut w. p = Peer_transport t) \<or>
       (\<exists>sr \<in> set (send_receive_head w). p = Peer_send_receive (sr_addr sr))) \<and>
    (\<not> peer_shutdown_flag w \<longrightarrow> (\<forall>sr \<in> set (send_receive_head w).
       unat (sr_ref_count sr) = count (conn_owners w) (Some (Peer_send_receive (sr_addr sr)))))"
proof -
  obtain pend where p: "conn_inv pend None w" "\<not> peer_shutdown_flag w \<longrightarrow> pend = (\<lambda>_. 0)"
    using assms by (auto simp: loop_ok_def sys_ok_def)
  have st: "peer_state_ok w" and reg: "reg_inv w"
    using p(1) by (simp_all add: conn_inv_def wakeup_ok_def receive_ok_def send_ok_def)
  have e: "fds w g \<noteq> None \<and> g \<in> peer_fds w q" if "epoll_set w g = Some q" for g q
    using that st reg unfolding peer_state_ok_def reg_inv_def by fastforce
  have tr: "q = None \<or> (\<exists>t. q = Some (Peer_transport t))" if "q \<in> sr_on_close ` set (send_receive_head w)" for q
    using p(1) that by (cases q) (auto simp: conn_inv_def)
  have o: "(\<exists>t \<in> shut w. q = Peer_transport t) \<or>
      (\<exists>sr \<in> set (send_receive_head w). q = Peer_send_receive (sr_addr sr))" if "Some q \<in># conn_owners w" for q
  proof -
    have cl: "(\<exists>t. q = Peer_transport t) \<or> (\<exists>a \<in> sr_addr ` set (send_receive_head w). q = Peer_send_receive a)"
      if "Some q \<in># closers w"
      using that p(1) unfolding conn_inv_def by blast
    have "Some q \<in># closers w \<or> Some q \<in> sr_on_close ` set (send_receive_head w)"
      using that by (auto simp: conn_owners_def)
    then consider t where "q = Peer_transport t" | "\<exists>sr \<in> set (send_receive_head w). q = Peer_send_receive (sr_addr sr)"
      using cl tr [of "Some q"] by blast
    then show ?thesis using assms that by cases (auto simp: loop_ok_def sys_ok_def)
  qed
  have z: "count (image_mset sr_on_close (mset (send_receive_head w))) (Some (Peer_send_receive a)) = 0" for a
    using tr [of "Some (Peer_send_receive a)"] by (auto simp: not_in_iff [symmetric])
  have c: "unat (sr_ref_count sr) = count (conn_owners w) (Some (Peer_send_receive (sr_addr sr)))"
    if "\<not> peer_shutdown_flag w" "sr \<in> set (send_receive_head w)" for sr
    using p that by (simp add: conn_inv_def conn_owners_def z)
  show ?thesis using e o c reg by (auto simp: reg_inv_def)
qed

text \<open>Without an input or without an output the loop ends.\<close>

lemma loop_ends:
  assumes ok: "loop_ok w" and n: "peer_count_in w + peer_count_out_in w = 0 \<or> peer_count_out w + peer_count_out_in w = 0"
  shows "\<exists>w'. peer_loop_turn h wait w = Some (False, w') \<and> peer_shutdown_flag w' \<and> loop_ok w' \<and>
    (\<forall>h' p. peer_call h' p w' = Some w') \<and> (\<forall>h' wait'. peer_loop_turn h' wait' w' = Some (False, w'))"
proof (cases "peer_shutdown_flag w")
  case True
  then show ?thesis using ok by (simp add: peer_loop_turn_def peer_call_def)
next
  case False
  note sd = loop_ok_shutdown [OF ok False]
  then have "peer_loop_turn h wait w = Some (False, shutdown_done w)" using False n by (auto simp: peer_loop_turn_def)
  then show ?thesis
    using sd by (intro exI [of _ "shutdown_done w"]) (simp add: peer_loop_turn_def peer_call_def)
qed

end

end
