(* ===== verification/Exec.thy ===== *)
theory Exec
  imports Incoming Loop
begin

text \<open>
  Model of \<^verbatim>\<open>adsbus/exec.c\<close>: child processes whose standard input and output are a connection and whose
  standard error is read line by line into the log. A child has two peers: its own, which is only
  called back (by the handler of \<^verbatim>\<open>SIGCHLD\<close> or by the wakeup of a retry), and that of its log, which is registered.
  The peer of the signal is a third kind of pointer.
\<close>

section \<open>State\<close>

text \<open>
  The calls of the kernel: \<open>k_fork\<close> is the result in the parent, \<open>k_waitpid\<close> the process and its status when any child is
  polled for, \<open>k_wait_for\<close> when a child is waited for, \<open>k_read_log\<close> the bytes read (\<open>None\<close> for an error)
  and \<open>k_read_chld\<close> the number of bytes read from the descriptor of the signal.
\<close>

record exec_kernel = net_kernel +
  k_fork :: "nat \<Rightarrow> int"
  k_waitpid :: "nat \<Rightarrow> int \<times> 32 word"
  k_wait_for :: "nat \<Rightarrow> int \<Rightarrow> int \<times> 32 word"
  k_read_log :: "nat \<Rightarrow> int \<Rightarrow> u8 list option"
  k_read_chld :: "nat \<Rightarrow> int \<Rightarrow> int"

datatype exec_handler = Exec_retry | Exec_spawn_wrapper

text \<open>\<open>ex_at\<close> and \<open>ex_log_at\<close> are the addresses of the two peers; \<open>ex_log_set\<close> says that the handler of the log is set.\<close>

record exec =
  ex_at :: nat
  ex_log_at :: nat
  ex_peer :: peer
  ex_handler :: "exec_handler option"
  ex_log_peer :: peer
  ex_log_set :: bool
  ex_id :: "u8 list"
  ex_command :: string
  ex_flow :: flow_ref
  ex_pass :: "nat option"
  ex_child :: int

text \<open>
  \<open>exec_sig\<close> is the static \<^verbatim>\<open>exec_peer\<close> and its address, once it has been set up. \<open>exec_log\<close> is what has been written to
  the log for the children: the identity of the child and the line.
\<close>

record exec_state = incoming_state +
  exec_head :: "exec list"
  exec_sig :: "(nat \<times> peer) option"
  exec_log :: "(u8 list \<times> u8 list) list"

definition exec_find :: "nat \<Rightarrow> 'a exec_state_scheme \<Rightarrow> exec option" where
  "exec_find a w = find (\<lambda>ex. ex_at ex = a) (exec_head w)"

definition exec_find_log :: "nat \<Rightarrow> 'a exec_state_scheme \<Rightarrow> exec option" where
  "exec_find_log a w = find (\<lambda>ex. ex_log_at ex = a) (exec_head w)"

definition exec_store :: "exec \<Rightarrow> 'a exec_state_scheme \<Rightarrow> 'a exec_state_scheme" where
  "exec_store ex w = w\<lparr>exec_head := struct_upd ex_at ex (exec_head w)\<rparr>"

section \<open>The log of a child\<close>

text \<open>\<^verbatim>\<open>memchr(buf + i, c, n)\<close>: the index of the first \<open>c\<close>; reading outside of the buffer is \<open>None\<close>.\<close>

fun memchr :: "u8 list \<Rightarrow> nat \<Rightarrow> u8 \<Rightarrow> nat \<Rightarrow> nat option option" where
  "memchr buf i c 0 = Some None"
| "memchr buf i c (Suc n) = do {
     b \<leftarrow> c_nth buf i;
     if b = c then Some (Some i) else memchr buf (Suc i) c n
   }"

lemma memchr_bounds: "memchr buf i c n = Some (Some j) \<Longrightarrow> i \<le> j \<and> j < i + n"
  by (induction buf i c n rule: memchr.induct) (fastforce split: if_splits simp: bind_Some_iff)+

text \<open>\<^verbatim>\<open>"%.*s"\<close>: at most \<open>n\<close> characters, up to a terminator.\<close>

definition c_precision :: "u8 list \<Rightarrow> nat \<Rightarrow> nat \<Rightarrow> u8 list option" where
  "c_precision buf i n = (if i + n \<le> length buf then Some (takeWhile (\<lambda>c. c \<noteq> 0) (take n (drop i buf))) else None)"

definition NEWLINE :: u8 where "NEWLINE = 10"

text \<open>The loop of \<^verbatim>\<open>exec_log_handler\<close> over the bytes read, from \<^verbatim>\<open>iter\<close> on.\<close>

function exec_log_lines :: "u8 list \<Rightarrow> nat \<Rightarrow> nat \<Rightarrow> u8 list list option" where
  "exec_log_lines buf i len = do {
     eol \<leftarrow> memchr buf i NEWLINE len;
     case eol of
       None \<Rightarrow> if len = 0 then Some [] else map_option (\<lambda>l. [l]) (c_precision buf i len)
     | Some j \<Rightarrow> do {
         c_assert (i \<le> j);
         let linelen = j - i;
         l \<leftarrow> c_precision buf i linelen;
         ls \<leftarrow> exec_log_lines buf (i + (linelen + 1)) (len - (linelen + 1));
         Some (l # ls)
       }
   }"
  by pat_completeness auto

termination
  by (relation "measure (\<lambda>(buf, i, len). len)") (auto dest: memchr_bounds)

declare exec_log_lines.simps [simp del]

section \<open>Operations\<close>

definition WTERMSIG :: "32 word \<Rightarrow> 32 word" where "WTERMSIG status = status AND 0x7F"
definition WIFEXITED :: "32 word \<Rightarrow> bool" where "WIFEXITED status \<longleftrightarrow> WTERMSIG status = 0"
definition WIFSIGNALED :: "32 word \<Rightarrow> bool" where "WIFSIGNALED status \<longleftrightarrow> WTERMSIG status \<noteq> 0 \<and> WTERMSIG status \<noteq> 0x7F"

definition exec_child_cleanup :: "nat \<Rightarrow> 32 word \<Rightarrow> 'a exec_state_scheme \<Rightarrow> 'a exec_state_scheme option" where
  "exec_child_cleanup a status w = do {
     ex \<leftarrow> exec_find a w;
     c_assert (WIFEXITED status \<or> WIFSIGNALED status);
     (p, w) \<leftarrow> peer_close (Peer_transport a) (ex_peer ex) w;
     (lp, w) \<leftarrow> peer_close (Peer_transport (ex_log_at ex)) (ex_log_peer ex) w;
     Some (exec_store (ex\<lparr>ex_child := -1, ex_peer := p, ex_log_peer := lp\<rparr>) w)
   }"

definition exec_del ::
    "'j env \<Rightarrow> 'k exec_kernel_scheme \<Rightarrow> nat \<Rightarrow> 'a exec_state_scheme \<Rightarrow> 'a exec_state_scheme option" where
  "exec_del E K a w = do {
     ex \<leftarrow> exec_find a w;
     let w = flow_ref_dec (the_flow E K (ex_flow ex)) w;
     w \<leftarrow> (if 0 < ex_child ex then do {
         let (pid, status) = k_wait_for K (tick w) (ex_child ex);
         c_assert (pid = ex_child ex);
         exec_child_cleanup a status (w\<lparr>tick := tick w + 1\<rparr>)
       }
       else Some w);
     Some (w\<lparr>exec_head := filter (\<lambda>q. ex_at q \<noteq> a) (exec_head w)\<rparr>)
   }"

definition exec_retry ::
    "'j env \<Rightarrow> 'k exec_kernel_scheme \<Rightarrow> nat \<Rightarrow> 'a exec_state_scheme \<Rightarrow> 'a exec_state_scheme option" where
  "exec_retry E K a w = do {
     ex \<leftarrow> exec_find a w;
     (delay, rs) \<leftarrow> wakeup_get_retry_delay_ms (env_entropy E) 1 (rnd w);
     let w = exec_store (ex\<lparr>ex_handler := Some Exec_spawn_wrapper\<rparr>) w;
     wakeup_add (new_fd K w) (k_timer_stat K) (Peer_transport a) delay (w\<lparr>rnd := rs\<rparr>)
   }"

text \<open>A descriptor that is not open cannot be read from.\<close>

definition exec_log_handler ::
    "'k exec_kernel_scheme \<Rightarrow> nat \<Rightarrow> 'a exec_state_scheme \<Rightarrow> 'a exec_state_scheme option" where
  "exec_log_handler K a w = do {
     ex \<leftarrow> exec_find_log a w;
     let fd = peer_fd (ex_log_peer ex);
     let ret = (if fds w fd = None then None else k_read_log K (tick w) fd);
     let w = w\<lparr>tick := tick w + 1\<rparr>;
     if ret = None \<or> ret = Some [] then do {
       (lp, w) \<leftarrow> peer_close (Peer_transport a) (ex_log_peer ex) w;
       Some (exec_store (ex\<lparr>ex_log_peer := lp\<rparr>) w)
     }
     else do {
       buf \<leftarrow> ret;
       ls \<leftarrow> exec_log_lines buf 0 (length buf);
       Some (w\<lparr>exec_log := exec_log w @ map (Pair (ex_id ex)) ls\<rparr>)
     }
   }"

definition exec_parent ::
    "'j env \<Rightarrow> 'k exec_kernel_scheme \<Rightarrow> nat \<Rightarrow> int \<Rightarrow> int \<Rightarrow> int \<Rightarrow> 'a exec_state_scheme \<Rightarrow> 'a exec_state_scheme option" where
  "exec_parent E K a child data_fd log_fd w = do {
     ex \<leftarrow> exec_find a w;
     c_assert (fds w data_fd \<noteq> None);
     c_assert (fds w log_fd \<noteq> None);
     (lp, w) \<leftarrow> peer_epoll_add (Peer_transport (ex_log_at ex)) ((ex_log_peer ex)\<lparr>peer_fd := log_fd\<rparr>) True w;
     let w = exec_store (ex\<lparr>ex_child := child, ex_log_peer := lp, ex_log_set := True, ex_handler := Some Exec_retry\<rparr>) w;
     (ok, w) \<leftarrow> flow_new_send_hello E data_fd (the_flow E K (ex_flow ex)) (ex_pass ex) None w;
     Some w
   }"

text \<open>
  The child process: \<^verbatim>\<open>dup2\<close> and \<^verbatim>\<open>close\<close> on its own table of descriptors, before it executes the command.
\<close>

definition fd_dup2 :: "int \<Rightarrow> int \<Rightarrow> (int \<Rightarrow> 'f option) \<Rightarrow> (int \<Rightarrow> 'f option) option" where
  "fd_dup2 old new t = do { f \<leftarrow> t old; Some (t(new \<mapsto> f)) }"

definition fd_close :: "int \<Rightarrow> (int \<Rightarrow> 'f option) \<Rightarrow> (int \<Rightarrow> 'f option) option" where
  "fd_close fd t = do { f \<leftarrow> t fd; Some (t(fd := None)) }"

definition exec_child :: "int \<Rightarrow> int \<Rightarrow> (int \<Rightarrow> 'f option) \<Rightarrow> (int \<Rightarrow> 'f option) option" where
  "exec_child data_fd log_fd t = do {
     t \<leftarrow> (if data_fd \<noteq> 0 then fd_dup2 data_fd 0 t else Some t);
     t \<leftarrow> (if data_fd \<noteq> 1 then fd_dup2 data_fd 1 t else Some t);
     t \<leftarrow> (if data_fd \<noteq> 0 \<and> data_fd \<noteq> 1 then fd_close data_fd t else Some t);
     if log_fd \<noteq> 2 then do { t \<leftarrow> fd_dup2 log_fd 2 t; fd_close log_fd t } else Some t
   }"

text \<open>
  Both ends of both socket pairs are opened; after the fork the parent closes the ends of the child. The child
  never comes back to the event loop: for it the result is \<open>None\<close>.
\<close>

definition exec_spawn ::
    "'j env \<Rightarrow> 'k exec_kernel_scheme \<Rightarrow> nat \<Rightarrow> 'a exec_state_scheme \<Rightarrow> 'a exec_state_scheme option" where
  "exec_spawn E K a w = do {
     (data0, w) \<leftarrow> open_socket K w;
     (data1, w) \<leftarrow> open_socket K w;
     (log0, w) \<leftarrow> open_socket K w;
     (log1, w) \<leftarrow> open_socket K w;
     let res = k_fork K (tick w);
     let w = w\<lparr>tick := tick w + 1\<rparr>;
     c_assert (0 \<le> res);
     c_assert (res \<noteq> 0);
     w \<leftarrow> close_fd data1 w;
     w \<leftarrow> close_fd log1 w;
     c_assert (k_shutdown (k_socket K) (tick w) log0 SHUT_WR = 0);
     exec_parent E K a res data0 log0 w
   }"

definition exec_spawn_wrapper ::
    "'j env \<Rightarrow> 'k exec_kernel_scheme \<Rightarrow> nat \<Rightarrow> 'a exec_state_scheme \<Rightarrow> 'a exec_state_scheme option" where
  "exec_spawn_wrapper E K a w = exec_spawn E K a w"

text \<open>\<^verbatim>\<open>peer->event_handler(peer)\<close> for the peer of a child.\<close>

definition exec_peer_event ::
    "'j env \<Rightarrow> 'k exec_kernel_scheme \<Rightarrow> nat \<Rightarrow> 'a exec_state_scheme \<Rightarrow> 'a exec_state_scheme option" where
  "exec_peer_event E K a w = do {
     ex \<leftarrow> exec_find a w;
     h \<leftarrow> ex_handler ex;
     case h of
       Exec_retry \<Rightarrow> exec_retry E K a w
     | Exec_spawn_wrapper \<Rightarrow> exec_spawn_wrapper E K a w
   }"

definition exec_sigchld_handler ::
    "'j env \<Rightarrow> 'k exec_kernel_scheme \<Rightarrow> peer \<Rightarrow> 'a exec_state_scheme \<Rightarrow> 'a exec_state_scheme option" where
  "exec_sigchld_handler E K p w = do {
     c_assert (k_read_chld K (tick w) (peer_fd p) = SIGNALFD_SIGINFO_SIZE);
     let (pid, status) = k_waitpid K (tick w);
     let w = w\<lparr>tick := tick w + 1\<rparr>;
     if pid = 0 then Some w
     else do {
       c_assert (0 < pid);
       case find (\<lambda>ex. ex_child ex = pid) (exec_head w) of
         None \<Rightarrow> Some w
       | Some ex \<Rightarrow> do {
           w \<leftarrow> exec_child_cleanup (ex_at ex) status w;
           peer_call (\<lambda>_. exec_peer_event E K (ex_at ex)) (Some (Peer_transport (ex_at ex))) w
         }
     }
   }"

text \<open>The event handlers of all three kinds of pointers.\<close>

definition exec_event ::
    "'j env \<Rightarrow> 'k exec_kernel_scheme \<Rightarrow> nat \<Rightarrow> 'a exec_state_scheme \<Rightarrow> 'a exec_state_scheme option" where
  "exec_event E K t w = (case exec_sig w of
     Some (s, p) \<Rightarrow> if t = s then exec_sigchld_handler E K p w
       else if t \<in> ex_at ` set (exec_head w) then exec_peer_event E K t w else exec_log_handler K t w
   | None \<Rightarrow> if t \<in> ex_at ` set (exec_head w) then exec_peer_event E K t w else exec_log_handler K t w)"

definition exec_new ::
    "'j env \<Rightarrow> 'k exec_kernel_scheme \<Rightarrow> string \<Rightarrow> flow_ref \<Rightarrow> nat option \<Rightarrow>
      'a exec_state_scheme \<Rightarrow> 'a exec_state_scheme option" where
  "exec_new E K command flow pass w = do {
     let w = flow_ref_inc (the_flow E K flow) w;
     let a = next_addr w;
     let w = w\<lparr>next_addr := a + 2\<rparr>;
     (uid, rs) \<leftarrow> uuid_gen (env_entropy E) (rnd w) (replicate UUID_LEN 0);
     let w = w\<lparr>rnd := rs, exec_head := exec_head w @
       [\<lparr>ex_at = a, ex_log_at = a + 1, ex_peer = \<lparr>peer_fd = -1, peer_always_trigger = False\<rparr>, ex_handler = None,
         ex_log_peer = \<lparr>peer_fd = -1, peer_always_trigger = False\<rparr>, ex_log_set = False, ex_id = uid,
         ex_command = command, ex_flow = flow, ex_pass = pass, ex_child = -1\<rparr>]\<rparr>;
     exec_spawn E K a w
   }"

text \<open>The options; the argument is never null for them.\<close>

definition exec_add where
  "exec_add E K cmd flow pass w = map_option (Pair True) (exec_new E K cmd flow pass w)"

definition exec_receive :: "'j env \<Rightarrow> 'k exec_kernel_scheme \<Rightarrow> ('a exec_state_scheme) opts_handler" where
  "exec_receive E K arg w = Option.bind arg (\<lambda>arg. exec_add E K arg Receive_flow None w)"

definition exec_send :: "'j env \<Rightarrow> 'k exec_kernel_scheme \<Rightarrow> ('a exec_state_scheme) opts_handler" where
  "exec_send E K arg w = Option.bind arg (\<lambda>arg. send_add (exec_add E K) Send_flow arg w)"

definition exec_send_receive :: "'j env \<Rightarrow> 'k exec_kernel_scheme \<Rightarrow> ('a exec_state_scheme) opts_handler" where
  "exec_send_receive E K arg w = Option.bind arg (\<lambda>arg. send_add (exec_add E K) Send_receive_flow arg w)"

definition exec_opts_add ::
    "'j env \<Rightarrow> 'k exec_kernel_scheme \<Rightarrow> nat \<Rightarrow> ('a exec_state_scheme) opts_state \<Rightarrow>
      ('a exec_state_scheme) opts_state option" where
  "exec_opts_add E K exec_opts st = do {
     st \<leftarrow> opts_add ''exec-receive'' (Some ''COMMAND'') (returning (exec_receive E K)) exec_opts st;
     st \<leftarrow> opts_add ''exec-send'' (Some ''FORMAT=COMMAND'') (returning (exec_send E K)) exec_opts st;
     opts_add ''exec-send-receive'' (Some ''FORMAT=COMMAND'') (returning (exec_send_receive E K)) exec_opts st
   }"

text \<open>What \<^verbatim>\<open>exec_init\<close> does after the options: the descriptor of the signal is opened and registered.\<close>

definition exec_init_peer :: "'k exec_kernel_scheme \<Rightarrow> 'a exec_state_scheme \<Rightarrow> 'a exec_state_scheme option" where
  "exec_init_peer K w = do {
     (fd, w) \<leftarrow> open_socket K w;
     let a = next_addr w;
     (p, w) \<leftarrow> peer_epoll_add (Peer_transport a) \<lparr>peer_fd = fd, peer_always_trigger = False\<rparr> True w;
     Some (w\<lparr>next_addr := a + 1, exec_sig := Some (a, p)\<rparr>)
   }"

fun exec_del_all ::
    "'j env \<Rightarrow> 'k exec_kernel_scheme \<Rightarrow> exec list \<Rightarrow> 'a exec_state_scheme \<Rightarrow> 'a exec_state_scheme option" where
  "exec_del_all E K [] w = Some w"
| "exec_del_all E K (ex # exs) w = do {
     w \<leftarrow> exec_del E K (ex_at ex) w;
     exec_del_all E K exs w
   }"

definition exec_cleanup ::
    "'j env \<Rightarrow> 'k exec_kernel_scheme \<Rightarrow> 'a exec_state_scheme \<Rightarrow> 'a exec_state_scheme option" where
  "exec_cleanup E K w = do {
     w \<leftarrow> exec_del_all E K (exec_head w) w;
     (s, p) \<leftarrow> exec_sig w;
     (p, w) \<leftarrow> peer_close (Peer_transport s) p w;
     Some (w\<lparr>exec_sig := Some (s, p)\<rparr>)
   }"

section \<open>Invariant\<close>

definition exec_kernel_ok :: "'k exec_kernel_scheme \<Rightarrow> bool" where
  "exec_kernel_ok K \<longleftrightarrow> kernel_ok K \<and> socket_kernel_ok (k_socket K) \<and> (\<forall>n. 0 < k_fork K n) \<and>
     (\<forall>n pid status. k_waitpid K n = (pid, status) \<longrightarrow> 0 \<le> pid \<and> (WIFEXITED status \<or> WIFSIGNALED status)) \<and>
     (\<forall>n pid p status. k_wait_for K n pid = (p, status) \<longrightarrow> p = pid \<and> (WIFEXITED status \<or> WIFSIGNALED status)) \<and>
     (\<forall>n fd. k_read_chld K n fd = SIGNALFD_SIGINFO_SIZE)"

text \<open>
  The peer of a child never has a descriptor. While the child runs, it waits for no callback; while none runs, as before a
  retry, the log is closed. The log is registered for its descriptor, or it is closed.
\<close>

definition exec_log_ok :: "exec \<Rightarrow> 'a exec_state_scheme \<Rightarrow> bool" where
  "exec_log_ok ex w \<longleftrightarrow>
     (peer_fd (ex_log_peer ex) = -1 \<and> (\<forall>g. epoll_set w g \<noteq> Some (Peer_transport (ex_log_at ex)))) \<or>
     (ex_log_set ex \<and> registered_at (ex_log_at ex) (ex_log_peer ex) w)"

definition exec_ok :: "exec \<Rightarrow> 'a exec_state_scheme \<Rightarrow> bool" where
  "exec_ok ex w \<longleftrightarrow> flow_pass_ok (ex_flow ex) (ex_pass ex) \<and> peer_fd (ex_peer ex) = -1 \<and>
     (0 < ex_child ex \<longrightarrow> ex_handler ex = Some Exec_retry) \<and>
     (\<not> 0 < ex_child ex \<longrightarrow> peer_fd (ex_log_peer ex) = -1) \<and> exec_log_ok ex w"

definition exec_sig_addr :: "'a exec_state_scheme \<Rightarrow> nat set" where
  "exec_sig_addr w = fst ` set_option (exec_sig w)"

definition exec_addrs :: "'a exec_state_scheme \<Rightarrow> nat set" where
  "exec_addrs w = ex_at ` set (exec_head w) \<union> ex_log_at ` set (exec_head w) \<union> exec_sig_addr w"

definition exec_ready :: "'a exec_state_scheme \<Rightarrow> nat set" where
  "exec_ready w = ex_log_at ` {ex \<in> set (exec_head w). ex_log_set ex} \<union> exec_sig_addr w"

definition exec_live :: "'a exec_state_scheme \<Rightarrow> nat set" where
  "exec_live w = ex_at ` {ex \<in> set (exec_head w). ex_handler ex = Some Exec_spawn_wrapper} \<union> exec_ready w"

text \<open>No two pointers are equal.\<close>

definition exec_apart :: "'a exec_state_scheme \<Rightarrow> bool" where
  "exec_apart w \<longleftrightarrow> distinct (map ex_at (exec_head w) @ map ex_log_at (exec_head w)) \<and>
     exec_sig_addr w \<inter> (ex_at ` set (exec_head w) \<union> ex_log_at ` set (exec_head w)) = {}"

definition exec_inv :: "'k exec_kernel_scheme \<Rightarrow> 'a exec_state_scheme \<Rightarrow> bool" where
  "exec_inv K w \<longleftrightarrow> exec_kernel_ok K \<and> exec_apart w \<and> (\<forall>t \<in> exec_addrs w. t < next_addr w) \<and>
     (\<forall>ex \<in> set (exec_head w). exec_ok ex w) \<and> (\<forall>s p. exec_sig w = Some (s, p) \<longrightarrow> registered_at s p w)"

text \<open>What a step of the child whose log is at \<open>a\<close> leaves alone.\<close>

definition exec_frame :: "nat \<Rightarrow> 'a exec_state_scheme \<Rightarrow> 'a exec_state_scheme \<Rightarrow> bool" where
  "exec_frame a w w' \<longleftrightarrow> exec_state.more w' = exec_state.more w \<and> file_head w' = file_head w \<and>
     outgoing_head w' = outgoing_head w \<and> incoming_head w' = incoming_head w \<and> next_addr w \<le> next_addr w' \<and>
     call_frame w w' \<and> net_frame a w w'"

lemma more_exec:
  fixes w w' :: "'a exec_state_scheme"
  assumes "sr_state.more w' = sr_state.more w"
  shows "exec_head w' = exec_head w" and "exec_sig w' = exec_sig w" and "file_head w' = file_head w"
    and "outgoing_head w' = outgoing_head w" and "incoming_head w' = incoming_head w" and "exec_state.more w' = exec_state.more w"
  using assms by (cases w; cases w'; simp)+

lemma exec_frame_trans: "exec_frame a u v \<Longrightarrow> exec_frame a v w \<Longrightarrow> exec_frame a u w"
  unfolding exec_frame_def using call_frame_trans [of u v w] net_frame_trans [of a u v w] by auto

lemma exec_frame_t:
  fixes w w' :: "'a exec_state_scheme"
  assumes "t_frame w w'" and "call_frame w w'"
  shows "exec_frame a w w'"
  using assms more_exec [of w' w] net_frame_tp [OF t_frame_tp [OF assms(1)]] by (simp add: exec_frame_def t_frame_def)

lemma exec_log_ok_cong:
  "(\<And>g. epoll_set w' g = Some (Peer_transport (ex_log_at ex)) \<longleftrightarrow> epoll_set w g = Some (Peer_transport (ex_log_at ex))) \<Longrightarrow>
   exec_log_ok ex w' = exec_log_ok ex w"
  by (simp add: exec_log_ok_def registered_at_def)

lemma exec_ok_cong:
  "(\<And>g. epoll_set w' g = Some (Peer_transport (ex_log_at ex)) \<longleftrightarrow> epoll_set w g = Some (Peer_transport (ex_log_at ex))) \<Longrightarrow>
   exec_ok ex w' = exec_ok ex w"
  using exec_log_ok_cong [of w' ex w] by (simp add: exec_ok_def)

text \<open>A step that leaves the structures, and the registrations that are theirs, alone.\<close>

lemma exec_inv_same:
  assumes inv: "exec_inv K w" and h: "exec_head w' = exec_head w" "exec_sig w' = exec_sig w" "next_addr w \<le> next_addr w'"
    and reg: "\<And>g t. t \<in> exec_addrs w \<Longrightarrow> epoll_set w' g = Some (Peer_transport t) \<longleftrightarrow> epoll_set w g = Some (Peer_transport t)"
  shows "exec_inv K w'"
proof -
  have ad: "exec_addrs w' = exec_addrs w" "exec_apart w' = exec_apart w"
    by (simp_all add: exec_addrs_def exec_apart_def exec_sig_addr_def h)
  have lt: "\<forall>t \<in> exec_addrs w. t < next_addr w'" using inv h(3) unfolding exec_inv_def by (auto intro: less_le_trans)
  have ok: "exec_ok ex w'" if "ex \<in> set (exec_head w)" for ex
  proof -
    have "ex_log_at ex \<in> exec_addrs w" using that by (simp add: exec_addrs_def)
    then have "exec_ok ex w' = exec_ok ex w" by (intro exec_ok_cong reg)
    then show ?thesis using inv that by (simp add: exec_inv_def)
  qed
  have "registered_at s p w'" if "exec_sig w = Some (s, p)" for s p
  proof -
    have "s \<in> exec_addrs w" using that by (simp add: exec_addrs_def exec_sig_addr_def)
    moreover have "registered_at s p w" using inv that by (simp add: exec_inv_def)
    ultimately show ?thesis using reg [of s] by (simp add: registered_at_def)
  qed
  then show ?thesis using inv lt ok by (simp add: exec_inv_def ad h)
qed

interpretation execs: kind_sets exec_live "\<lambda>_. {}" exec_ready exec_addrs "exec_inv K" "\<lambda>_. 0" for K
proof
  fix w w' :: "'a exec_state_scheme"
  show "exec_live w' = exec_live w \<and> {} = {} \<and> exec_ready w' = exec_ready w \<and> exec_addrs w' = exec_addrs w \<and> 0 = 0"
    if "sr_state.more w' = sr_state.more w"
    using more_exec [OF that] by (simp add: exec_live_def exec_ready_def exec_addrs_def exec_sig_addr_def)
  show "exec_inv K w'" if "exec_inv K w" "tp_frame w w'"
    using that more_exec [of w' w] by (intro exec_inv_same [OF that(1)]) (simp_all add: tp_frame_def)
  show "exec_live w \<subseteq> exec_addrs w" "{} \<subseteq> exec_live w" "exec_ready w \<subseteq> exec_addrs w"
    by (auto simp: exec_live_def exec_ready_def exec_addrs_def)
  show "t < next_addr w" if "exec_inv K w" "t \<in> exec_addrs w" for t using that by (simp add: exec_inv_def)
qed

abbreviation exec_sys :: "'k exec_kernel_scheme \<Rightarrow> others \<Rightarrow> nat option \<Rightarrow> 'a exec_state_scheme \<Rightarrow> bool" where
  "exec_sys K \<equiv> kind_sys exec_live (\<lambda>_. {}) exec_ready exec_addrs (exec_inv K)"

lemma exec_sysD:
  assumes "exec_sys K oth f w"
  shows "conn_inv (\<lambda>_. 0) f w" and "exec_inv K w" and "exec_kernel_ok K" and "kernel_ok K" and "exec_apart w"
    and "ex \<in> set (exec_head w) \<Longrightarrow> exec_ok ex w"
    and "ex \<in> set (exec_head w) \<Longrightarrow> exec_find (ex_at ex) w = Some ex"
    and "ex \<in> set (exec_head w) \<Longrightarrow> exec_find_log (ex_log_at ex) w = Some ex"
    and "ex \<in> set (exec_head w) \<Longrightarrow> struct_upd ex_at ex (exec_head w) = exec_head w"
proof -
  show ci: "conn_inv (\<lambda>_. 0) f w" and inv: "exec_inv K w" by (rule kind_sysD(1,2) [OF assms])+
  then show "exec_kernel_ok K" "kernel_ok K" and ap: "exec_apart w" by (simp_all add: exec_inv_def exec_kernel_ok_def)
  then have d: "distinct (map ex_at (exec_head w))" "distinct (map ex_log_at (exec_head w))" by (simp_all add: exec_apart_def)
  show "ex \<in> set (exec_head w) \<Longrightarrow> exec_ok ex w" using inv by (simp add: exec_inv_def)
  show "ex \<in> set (exec_head w) \<Longrightarrow> exec_find (ex_at ex) w = Some ex"
    unfolding exec_find_def by (rule find_distinct_addr [OF d(1)])
  show "ex \<in> set (exec_head w) \<Longrightarrow> exec_find_log (ex_log_at ex) w = Some ex"
    unfolding exec_find_log_def by (rule find_distinct_addr [OF d(2)])
  show "ex \<in> set (exec_head w) \<Longrightarrow> struct_upd ex_at ex (exec_head w) = exec_head w" by (rule struct_upd_same [OF d(1)])
qed

text \<open>Neither the log nor, while the child runs, the peer of a child is called back.\<close>

lemma exec_not_owned:
  assumes sys: "exec_sys K oth f w" and ex: "ex \<in> set (exec_head w)"
  shows "Some (Peer_transport (ex_log_at ex)) \<notin># owners f w"
    and "ex_handler ex \<noteq> Some Exec_spawn_wrapper \<Longrightarrow> Some (Peer_transport (ex_at ex)) \<notin># owners f w"
proof -
  note d = kind_sysD [OF sys] and ap = exec_sysD(5) [OF sys]
  have ats: "distinct (map ex_at (exec_head w))" "distinct (map ex_log_at (exec_head w))"
    "ex_at ` set (exec_head w) \<inter> ex_log_at ` set (exec_head w) = {}" "exec_sig_addr w \<inter> ex_at ` set (exec_head w) = {}"
    "exec_sig_addr w \<inter> ex_log_at ` set (exec_head w) = {}"
    using ap by (auto simp: exec_apart_def)
  have o: "ex_log_at ex \<notin> o_live oth" "ex_at ex \<notin> o_live oth" using d(3,5) ex by (auto simp: exec_addrs_def)
  have "q = ex" if "q \<in> set (exec_head w)" "ex_at q = ex_at ex" for q
    using ats(1) ex that by (auto simp: distinct_map dest: inj_onD)
  then have "ex_at ex \<notin> ex_at ` {ex \<in> set (exec_head w). ex_handler ex = Some Exec_spawn_wrapper}"
    if "ex_handler ex \<noteq> Some Exec_spawn_wrapper" using that by fastforce
  moreover have "ex_at ex \<notin> exec_ready w" using ats(3,4) ex by (auto simp: exec_ready_def)
  ultimately have "ex_at ex \<notin> exec_live w" if "ex_handler ex \<noteq> Some Exec_spawn_wrapper"
    using that by (simp add: exec_live_def)
  then show "ex_handler ex \<noteq> Some Exec_spawn_wrapper \<Longrightarrow> Some (Peer_transport (ex_at ex)) \<notin># owners f w"
    using d(6) o by blast
  show "Some (Peer_transport (ex_log_at ex)) \<notin># owners f w"
  proof (cases "ex_log_at ex \<in> exec_ready w")
    case True
    then show ?thesis using d(10) by blast
  next
    case False
    then have "ex_log_at ex \<notin> exec_live w" using ats(3) ex by (auto simp: exec_live_def)
    then show ?thesis using d(6) o by blast
  qed
qed

text \<open>
  One child is changed, and maybe the registration of its log. It may be put into the state in which its peer is not
  called back only if no callback leads to it.
\<close>

lemma exec_change:
  fixes w w' :: "'a exec_state_scheme"
  assumes sys: "exec_sys K oth f w" and ex: "ex \<in> set (exec_head w)"
    and ex': "ex_at ex' = ex_at ex" "ex_log_at ex' = ex_log_at ex" "ex_log_set ex \<Longrightarrow> ex_log_set ex'" "exec_ok ex' w'"
    and own: "ex_handler ex' = Some Exec_spawn_wrapper \<or> Some (Peer_transport (ex_at ex)) \<notin># owners f w"
    and w': "exec_head w' = struct_upd ex_at ex' (exec_head w)" "exec_sig w' = exec_sig w" "conn_inv (\<lambda>_. 0) f w'"
      "owners f w' = owners f w" "wakeup_head w' = wakeup_head w" "next_addr w \<le> next_addr w'"
      "peer_always_trigger_head w' = peer_always_trigger_head w"
    and reg: "\<And>g t. t \<noteq> ex_log_at ex \<Longrightarrow> epoll_set w' g = Some (Peer_transport t) \<longleftrightarrow> epoll_set w g = Some (Peer_transport t)"
  shows "exec_sys K oth f w'" and "exec_live w - {ex_at ex} \<subseteq> exec_live w'" and "exec_ready w \<subseteq> exec_ready w'"
    and "exec_addrs w' = exec_addrs w" and "ex' \<in> set (exec_head w')"
proof -
  note d = kind_sysD [OF sys] and inv = exec_sysD(2) [OF sys] and ap = exec_sysD(5) [OF sys] and no = exec_not_owned [OF sys]
  have maps: "map ex_at (exec_head w') = map ex_at (exec_head w)" by (simp add: w'(1))
  have eqs: "q = ex" if "q \<in> set (exec_head w)" "ex_at q = ex_at ex" for q
    using ap ex that by (auto simp: exec_apart_def distinct_map dest: inj_onD)
  have maps2: "map ex_log_at (exec_head w') = map ex_log_at (exec_head w)"
    unfolding w'(1) struct_upd_def using eqs ex'(1,2) by (auto simp: map_idI)
  have sigs: "exec_sig_addr w' = exec_sig_addr w" by (simp add: exec_sig_addr_def w'(2))
  have sets: "ex_at ` set (exec_head w') = ex_at ` set (exec_head w)" "ex_log_at ` set (exec_head w') = ex_log_at ` set (exec_head w)"
    using maps maps2 by (metis list.set_map)+
  show ad: "exec_addrs w' = exec_addrs w" by (simp add: exec_addrs_def sets sigs)
  have ap': "exec_apart w'" using ap by (simp add: exec_apart_def maps maps2 sets sigs)
  show in': "ex' \<in> set (exec_head w')" using ex by (simp add: w'(1) struct_upd_in ex'(1))
  have mem: "q = ex' \<or> q \<in> set (exec_head w) \<and> ex_at q \<noteq> ex_at ex" if "q \<in> set (exec_head w')" for q
    using struct_upd_set [of q ex_at ex' "exec_head w"] that by (simp add: w'(1) ex'(1))
  have mem': "q \<in> set (exec_head w')" if "q \<in> set (exec_head w)" "ex_at q \<noteq> ex_at ex" for q
    using struct_upd_other [of q "exec_head w" ex_at ex'] that by (simp add: w'(1) ex'(1))
  have logs: "ex_log_at q \<noteq> ex_log_at ex" if "q \<in> set (exec_head w)" "ex_at q \<noteq> ex_at ex" for q
    using ap ex that by (auto simp: exec_apart_def distinct_map dest: inj_onD)
  have "ex_log_at q \<in> exec_ready w'" if "q \<in> set (exec_head w)" "ex_log_set q" for q
  proof (cases "ex_at q = ex_at ex")
    case True
    then have "q = ex" using eqs that(1) by simp
    moreover have "ex_log_at ex' \<in> exec_ready w'" using calculation that(2) ex'(3) in' by (simp add: exec_ready_def)
    ultimately show ?thesis using ex'(2) by simp
  next
    case False
    then show ?thesis using mem' [OF that(1)] that(2) unfolding exec_ready_def by blast
  qed
  then show rd: "exec_ready w \<subseteq> exec_ready w'" unfolding exec_ready_def [of w] using sigs by (auto simp: exec_ready_def)
  show lv: "exec_live w - {ex_at ex} \<subseteq> exec_live w'"
    using mem' rd unfolding exec_live_def by (auto simp: image_iff)
  have rd': "t \<in> exec_ready w" if "t \<in> exec_ready w'" "t \<noteq> ex_log_at ex" for t
    using that mem ex'(2) unfolding exec_ready_def sigs by (auto simp: image_iff)
  have lv': "ex_at ex \<in> exec_live w'" if "ex_handler ex' = Some Exec_spawn_wrapper"
    using in' that ex'(1) unfolding exec_live_def by (auto simp: image_iff)
  have reg': "epoll_set w' g = Some (Peer_transport t) \<Longrightarrow> t \<in> exec_ready w' \<union> o_ready oth" for g t
  proof (cases "t = ex_log_at ex")
    case True
    assume "epoll_set w' g = Some (Peer_transport t)"
    then have "ex_log_set ex'" using True ex'(2,4) by (auto simp: exec_ok_def exec_log_ok_def)
    then show ?thesis using True in' ex'(2) unfolding exec_ready_def by (auto simp: image_iff)
  next
    case False
    assume "epoll_set w' g = Some (Peer_transport t)"
    then show ?thesis using reg [OF False] d(8) rd by blast
  qed
  have "co": "conn_owners w' = conn_owners w"
  proof -
    have "conn_owners w' = {#} + conn_owners w" by (rule owners_add_conn [of f]) (simp_all add: w'(4,5))
    then show ?thesis by simp
  qed
  have lt: "\<forall>t \<in> exec_addrs w'. t < next_addr w'" using inv w'(6) unfolding exec_inv_def ad by (auto intro: less_le_trans)
  have ok: "exec_ok q w'" if "q \<in> set (exec_head w')" for q
  proof (cases "q = ex'")
    case False
    then have q: "q \<in> set (exec_head w)" "ex_at q \<noteq> ex_at ex" using mem that by auto
    then have "exec_ok q w" using inv by (simp add: exec_inv_def)
    then show ?thesis using exec_ok_cong [of w' q w] reg [OF logs [OF q]] by simp
  qed (use ex'(4) in simp)
  have "registered_at s p w'" if "exec_sig w = Some (s, p)" for s p
  proof -
    have "s \<in> exec_sig_addr w" using that by (simp add: exec_sig_addr_def)
    then have "s \<noteq> ex_log_at ex" using ap ex by (auto simp: exec_apart_def)
    moreover have "registered_at s p w" using inv that by (simp add: exec_inv_def)
    ultimately show ?thesis using reg [of s] by (simp add: registered_at_def)
  qed
  then have inv': "exec_inv K w'" using inv ap' lt ok by (simp add: exec_inv_def w'(2))
  show "exec_sys K oth f w'"
  proof (rule kind_sysI)
    show "conn_inv (\<lambda>_. 0) f w'" "exec_inv K w'" by (rule w'(3) inv')+
    show "o_addrs oth \<inter> exec_addrs w' = {}" "o_live oth \<union> o_ready oth \<subseteq> o_addrs oth" using d(3,5) by (simp_all add: ad)
    show "\<And>t. t \<in> o_addrs oth \<Longrightarrow> t < next_addr w'" using d(4) w'(6) less_le_trans by blast
    show "t \<in> exec_live w' \<union> o_live oth" if "Some (Peer_transport t) \<in># owners f w'" for t
      using that d(6) [of t] lv lv' own unfolding w'(4) by (cases "t = ex_at ex") auto
    show "t \<in> {} \<union> o_shut oth" if "Some (Peer_transport t) \<in># conn_owners w'" for t using that d(7) unfolding co by blast
    show "\<And>g t. epoll_set w' g = Some (Peer_transport t) \<Longrightarrow> t \<in> exec_ready w' \<union> o_ready oth" by (rule reg')
    show "t \<in> exec_live w' \<union> o_live oth" if "t \<in> exec_ready w' \<union> o_ready oth" for t
    proof (cases "t \<in> exec_ready w'")
      case False
      then have t: "t \<in> o_ready oth" using that by blast
      then have "t \<notin> exec_live w" using d(3,5) execs.live_addrs [of w] by blast
      then show ?thesis using t d(9) by blast
    qed (simp add: exec_live_def)
    show "Some (Peer_transport t) \<notin># owners f w'" if "t \<in> exec_ready w' \<union> o_ready oth" for t
      using that d(10) rd' no(1) [OF ex] unfolding w'(4) by (cases "t = ex_log_at ex") auto
    show "\<And>t. Peer_transport t \<notin> set (peer_always_trigger_head w')" using d(11) by (simp add: w'(7))
  qed
qed

section \<open>The log is split into lines\<close>

text \<open>The reference: the lines of a block of bytes, each up to a terminator.\<close>

function byte_lines :: "u8 list \<Rightarrow> u8 list list" where
  "byte_lines bs = (if bs = [] then []
     else takeWhile (\<lambda>c. c \<noteq> 0) (takeWhile (\<lambda>c. c \<noteq> NEWLINE) bs) # byte_lines (drop 1 (dropWhile (\<lambda>c. c \<noteq> NEWLINE) bs)))"
  by pat_completeness auto

termination
proof (relation "measure length")
  fix bs :: "u8 list"
  assume "bs \<noteq> []"
  moreover have "length (dropWhile (\<lambda>c. c \<noteq> NEWLINE) bs) \<le> length bs" by (rule length_dropWhile_le)
  ultimately show "(drop 1 (dropWhile (\<lambda>c. c \<noteq> NEWLINE) bs), bs) \<in> measure length" by (cases bs) (auto simp: less_Suc_eq_le)
qed simp

declare byte_lines.simps [simp del]

lemma memchr_spec:
  "i + n \<le> length buf \<Longrightarrow> memchr buf i c n =
    (let k = length (takeWhile (\<lambda>b. b \<noteq> c) (take n (drop i buf))) in Some (if k < n then Some (i + k) else None))"
proof (induction buf i c n rule: memchr.induct)
  case (2 buf i c n)
  have d: "drop i buf = buf ! i # drop (Suc i) buf" using 2(2) by (simp add: Cons_nth_drop_Suc)
  show ?case using 2 by (simp add: c_nth_def d Let_def)
qed simp

lemma takeWhile_take_short:
  "length (takeWhile P (take n xs)) < n \<Longrightarrow> n \<le> length xs \<Longrightarrow>
    takeWhile P (take n xs) = take (length (takeWhile P (take n xs))) xs"
  by (metis min.absorb3 order.strict_implies_order take_take takeWhile_eq_take)

lemma exec_log_lines_spec:
  "i + len \<le> length buf \<Longrightarrow> exec_log_lines buf i len = Some (byte_lines (take len (drop i buf)))"
proof (induction buf i len rule: exec_log_lines.induct)
  case (1 buf i len)
  define bs where "bs = take len (drop i buf)"
  define k where "k = length (takeWhile (\<lambda>b. b \<noteq> NEWLINE) bs)"
  have len: "length bs = len" using 1(2) by (simp add: bs_def)
  have m: "memchr buf i NEWLINE len = Some (if k < len then Some (i + k) else None)"
    using memchr_spec [OF 1(2), of NEWLINE] by (simp add: k_def bs_def Let_def)
  show ?case
  proof (cases "k < len")
    case True
    have tk: "takeWhile (\<lambda>b. b \<noteq> NEWLINE) bs = take k bs" by (simp add: k_def takeWhile_eq_take [symmetric])
    have dk: "drop 1 (dropWhile (\<lambda>b. b \<noteq> NEWLINE) bs) = drop (k + 1) bs" by (simp add: k_def dropWhile_eq_drop)
    have "exec_log_lines buf (i + (k + 1)) (len - (k + 1)) = Some (byte_lines (take (len - (k + 1)) (drop (i + (k + 1)) buf)))"
      using 1(1) [of "Some (i + k)" "i + k" "()" k "takeWhile (\<lambda>c. c \<noteq> 0) (take k (drop i buf))"] m True 1(2)
      by (simp add: c_precision_def)
    moreover have "take (len - (k + 1)) (drop (i + (k + 1)) buf) = drop (k + 1) bs"
      by (simp add: bs_def drop_take add.commute)
    ultimately have r: "exec_log_lines buf (i + (k + 1)) (len - (k + 1)) = Some (byte_lines (drop (k + 1) bs))" by simp
    have "bs \<noteq> []" using True len by auto
    then have b: "byte_lines bs = takeWhile (\<lambda>c. c \<noteq> 0) (take k bs) # byte_lines (drop (k + 1) bs)"
      using byte_lines.simps [of bs] unfolding tk dk by simp
    have "take k (drop i buf) = take k bs" using True by (simp add: bs_def min_def)
    then show ?thesis
      unfolding exec_log_lines.simps [of buf i len] bs_def [symmetric] b
      using m True r 1(2) by (simp add: c_precision_def Let_def)
  next
    case False
    have "k \<le> len" unfolding k_def len [symmetric] by (rule length_takeWhile_le)
    then have "k = length bs" using False len by simp
    then have tk: "takeWhile (\<lambda>b. b \<noteq> NEWLINE) bs = bs" unfolding k_def
      by (metis takeWhile_eq_take take_all order_refl)
    then have dk: "dropWhile (\<lambda>b. b \<noteq> NEWLINE) bs = []" by (metis append_self_conv takeWhile_dropWhile_id)
    have "byte_lines bs = (if len = 0 then [] else [takeWhile (\<lambda>c. c \<noteq> 0) bs])"
      using byte_lines.simps [of bs] byte_lines.simps [of "[]"] len unfolding tk dk by auto
    then show ?thesis
      unfolding exec_log_lines.simps [of buf i len] bs_def [symmetric]
      using m False 1(2) by (simp add: c_precision_def bs_def)
  qed
qed

section \<open>The operations keep the invariant\<close>

lemma exec_stored:
  fixes v :: "'a exec_state_scheme"
  assumes "conn_inv pend f v"
  shows "conn_inv pend f (exec_store ex v)" and "owners f (exec_store ex v) = owners f v" and "exec_frame a v (exec_store ex v)"
    and "socket_held fd (exec_store ex v) = socket_held fd v" and "new_fd K (exec_store ex v) = new_fd K v"
proof -
  show "conn_inv pend f (exec_store ex v)" "owners f (exec_store ex v) = owners f v"
    using conn_inv_same [OF assms, of "exec_store ex v"] conn_inv_rand [OF assms] by (simp_all add: exec_store_def)
  have "call_frame v (exec_store ex v)" by (rule call_frame_heads) (simp_all add: exec_store_def)
  then show "exec_frame a v (exec_store ex v)" by (simp add: exec_frame_def net_frame_def) (simp add: exec_store_def)
  show "socket_held fd (exec_store ex v) = socket_held fd v" "new_fd K (exec_store ex v) = new_fd K v"
    by (simp_all add: exec_store_def socket_held_def fd_unused_def fd_free_def fd_fresh_def all_sends_def new_fd_def)
qed

lemma exec_store_simps [simp]:
  "exec_head (exec_store ex v) = struct_upd ex_at ex (exec_head v)" "exec_sig (exec_store ex v) = exec_sig v"
  "epoll_set (exec_store ex v) = epoll_set v" "fds (exec_store ex v) = fds v" "next_addr (exec_store ex v) = next_addr v"
  "wakeup_head (exec_store ex v) = wakeup_head v" "rnd (exec_store ex v) = rnd v" "tick (exec_store ex v) = tick v"
  "peer_always_trigger_head (exec_store ex v) = peer_always_trigger_head v"
  by (simp_all add: exec_store_def)

lemma exec_change_tick:
  fixes w :: "'a exec_state_scheme"
  assumes sys: "exec_sys K oth f w"
  shows "exec_sys K oth f (w\<lparr>tick := n, trace := tr\<rparr>)" and "conn_frame w (w\<lparr>tick := n, trace := tr\<rparr>)"
    and "owners f (w\<lparr>tick := n, trace := tr\<rparr>) = owners f w"
proof -
  note c = conn_inv_ticked [OF exec_sysD(1) [OF sys], where n = n and tr = tr]
  show cf: "conn_frame w (w\<lparr>tick := n, trace := tr\<rparr>)" by (rule conn_frameI) (simp_all add: t_frame_def)
  show "owners f (w\<lparr>tick := n, trace := tr\<rparr>) = owners f w" by (rule c(2))
  show "exec_sys K oth f (w\<lparr>tick := n, trace := tr\<rparr>)"
    using cf by (intro execs.step_same [OF sys c(1) _ c(2)]) (simp_all add: conn_frame_def)
qed

text \<open>What an event of the child \<open>ex\<close> ends with.\<close>

definition exec_done ::
    "'k exec_kernel_scheme \<Rightarrow> others \<Rightarrow> nat option \<Rightarrow> exec \<Rightarrow> 'a exec_state_scheme \<Rightarrow> 'a exec_state_scheme \<Rightarrow> bool" where
  "exec_done K oth f ex w w' \<longleftrightarrow> exec_sys K oth f w' \<and> exec_frame (ex_log_at ex) w w' \<and> exec_ready w \<subseteq> exec_ready w' \<and>
     exec_addrs w' = exec_addrs w \<and> exec_sig w' = exec_sig w"

lemma exec_done_trans: "exec_done K oth f ex u v \<Longrightarrow> exec_done K oth f ex v w \<Longrightarrow> exec_done K oth f ex u w"
  unfolding exec_done_def using exec_frame_trans [of "ex_log_at ex" u v w] by auto

lemma exec_done_conn:
  assumes "exec_sys K oth f w'" and "conn_frame w w'"
  shows "exec_done K oth f ex w w'"
proof -
  have t: "t_frame w w'" "sr_state.more w' = sr_state.more w" using assms(2) by (simp_all add: conn_frame_def t_frame_def)
  note m = more_exec [OF t(2)]
  show ?thesis
    using assms(1) exec_frame_t [OF t(1) call_frameI [OF assms(2)]]
    by (simp add: exec_done_def exec_ready_def exec_addrs_def exec_sig_addr_def m)
qed

text \<open>The log is closed, if it is open.\<close>

lemma exec_log_closed:
  fixes w :: "'a exec_state_scheme"
  assumes sys: "exec_sys K oth f w" and ex: "ex \<in> set (exec_head w)"
  shows "\<exists>lp v. peer_close (Peer_transport (ex_log_at ex)) (ex_log_peer ex) w = Some (lp, v) \<and> peer_fd lp = -1 \<and>
    conn_inv (\<lambda>_. 0) f v \<and> owners f v = owners f w \<and> exec_frame (ex_log_at ex) w v \<and>
    (\<forall>g. epoll_set v g \<noteq> Some (Peer_transport (ex_log_at ex))) \<and> (\<exists>ft et. v = w\<lparr>fds := ft, epoll_set := et\<rparr>)"
proof -
  note d = exec_sysD [OF sys] and ok = exec_sysD(6) [OF sys ex]
  let ?a = "ex_log_at ex" and ?fd = "peer_fd (ex_log_peer ex)"
  show ?thesis
  proof (cases "?fd = -1")
    case True
    then have "\<forall>g. epoll_set w g \<noteq> Some (Peer_transport ?a)" using ok by (auto simp: exec_ok_def exec_log_ok_def registered_at_def)
    moreover have "\<exists>ft et. w = w\<lparr>fds := ft, epoll_set := et\<rparr>"
      by (rule exI [of _ "fds w"], rule exI [of _ "epoll_set w"]) simp
    moreover have "exec_frame ?a w w" by (rule exec_frame_t) (simp_all add: call_frameI)
    ultimately show ?thesis using True d(1) by (auto simp: peer_close_def)
  next
    case False
    then have r: "registered_at ?a (ex_log_peer ex) w" using ok by (auto simp: exec_ok_def exec_log_ok_def)
    then have e: "epoll_set w ?fd = Some (Peer_transport ?a)" "\<not> peer_always_trigger (ex_log_peer ex)"
      and only: "\<And>g. epoll_set w g = Some (Peer_transport ?a) \<Longrightarrow> g = ?fd" by (simp_all add: registered_at_def)
    note fr = foreign_registered [OF d(1) e(1) foreign_simps(2)]
    obtain info where i: "fds w ?fd = Some info" "fd_pollable info" using fr(1) by blast
    define v where "v = w\<lparr>fds := (fds w)(?fd := None), epoll_set := (epoll_set w)(?fd := None)\<rparr>"
    from conn_inv_foreign [OF d(1) fr(2,3) _ _ v_def] have c: "conn_inv (\<lambda>_. 0) f v" "owners f v = owners f w"
      using e(1) by simp_all
    have "v = w\<lparr>tick := tick w, fds := (fds w)(?fd := None), epoll_set := (epoll_set w)(?fd := None), async_requests := async_requests w\<rparr>"
      by (simp add: v_def)
    note ch = net_changed [OF this, where fd = ?fd and a = ?a]
    have nf: "net_frame ?a w v" "call_frame w v" using ch(1,2) e(1) by simp_all
    then have "exec_frame ?a w v" by (simp add: exec_frame_def) (simp add: v_def)
    moreover have "peer_close (Peer_transport ?a) (ex_log_peer ex) w = Some ((ex_log_peer ex)\<lparr>peer_fd := -1\<rparr>, v)"
      using i e False by (simp add: peer_close_def peer_epoll_del_def epoll_ctl_del_def close_fd_def Let_def v_def)
    moreover have "\<forall>g. epoll_set v g \<noteq> Some (Peer_transport ?a)" using only by (auto simp: v_def)
    ultimately show ?thesis using c by (intro exI [of _ "(ex_log_peer ex)\<lparr>peer_fd := -1\<rparr>"] exI [of _ v]) (auto simp: v_def)
  qed
qed

text \<open>The structure is written after its log was closed.\<close>

lemma exec_log_stored:
  fixes w :: "'a exec_state_scheme"
  assumes sys: "exec_sys K oth f w" and ex: "ex \<in> set (exec_head w)"
    and ex': "ex_at ex' = ex_at ex" "ex_log_at ex' = ex_log_at ex" "ex_log_set ex' = ex_log_set ex" "ex_handler ex' = ex_handler ex"
      "ex_flow ex' = ex_flow ex" "ex_pass ex' = ex_pass ex" "peer_fd (ex_peer ex') = -1" "peer_fd (ex_log_peer ex') = -1"
      "ex_child ex' = ex_child ex \<or> ex_child ex' = -1"
    and v: "conn_inv (\<lambda>_. 0) f v" "owners f v = owners f w" "exec_frame (ex_log_at ex) w v"
      "\<forall>g. epoll_set v g \<noteq> Some (Peer_transport (ex_log_at ex))" "v = w\<lparr>fds := ft, epoll_set := et\<rparr>"
  shows "exec_done K oth f ex w (exec_store ex' v)" and "ex' \<in> set (exec_head (exec_store ex' v))"
proof -
  note s = exec_stored [OF v(1), where ex = ex'] and ok = exec_sysD(6) [OF sys ex]
  have ok': "exec_ok ex' (exec_store ex' v)" using ok ex' v(4) by (auto simp: exec_ok_def exec_log_ok_def)
  have own: "ex_handler ex' = Some Exec_spawn_wrapper \<or> Some (Peer_transport (ex_at ex)) \<notin># owners f w"
    using exec_not_owned(2) [OF sys ex] ex'(4) by auto
  have "epoll_set (exec_store ex' v) g = Some (Peer_transport t) \<longleftrightarrow> epoll_set w g = Some (Peer_transport t)"
    if "t \<noteq> ex_log_at ex" for g t using v(3) that by (simp add: exec_frame_def net_frame_def)
  note ch = exec_change [OF sys ex ex'(1,2) _ ok' own _ _ s(1) _ _ _ _ this]
  have ch: "exec_sys K oth f (exec_store ex' v)" "exec_ready w \<subseteq> exec_ready (exec_store ex' v)"
    "exec_addrs (exec_store ex' v) = exec_addrs w" "ex' \<in> set (exec_head (exec_store ex' v))"
    by (rule ch(1,3-5); use s(2) v(2) ex'(3) in \<open>simp add: v(5)\<close>)+
  then show "exec_done K oth f ex w (exec_store ex' v)" "ex' \<in> set (exec_head (exec_store ex' v))"
    using exec_frame_trans [OF v(3) s(3)] v(5) by (simp_all add: exec_done_def)
qed

lemma exec_log_handler_spec:
  fixes w :: "'a exec_state_scheme" and K :: "'k exec_kernel_scheme"
  assumes sys: "exec_sys K oth f w" and ex: "ex \<in> set (exec_head w)"
  shows "\<exists>w'. exec_log_handler K (ex_log_at ex) w = Some w' \<and> exec_done K oth f ex w w'"
proof -
  let ?fd = "peer_fd (ex_log_peer ex)"
  define ret where "ret = (if fds w ?fd = None then None else k_read_log K (tick w) ?fd)"
  define v where "v = w\<lparr>tick := tick w + 1\<rparr>"
  have vt: "v = w\<lparr>tick := tick w + 1, trace := trace w\<rparr>" by (simp add: v_def)
  note t = exec_change_tick [OF sys, where n = "tick w + 1" and tr = "trace w", folded vt]
  have dv: "exec_done K oth f ex w v" by (rule exec_done_conn [OF t(1,2)])
  have ev: "ex \<in> set (exec_head v)" using ex by (simp add: v_def)
  have eq: "exec_log_handler K (ex_log_at ex) w = (if ret = None \<or> ret = Some [] then do {
        (lp, w) \<leftarrow> peer_close (Peer_transport (ex_log_at ex)) (ex_log_peer ex) v;
        Some (exec_store (ex\<lparr>ex_log_peer := lp\<rparr>) w)
      } else do {
        buf \<leftarrow> ret;
        ls \<leftarrow> exec_log_lines buf 0 (length buf);
        Some (v\<lparr>exec_log := exec_log v @ map (Pair (ex_id ex)) ls\<rparr>)
      })"
    using exec_sysD(8) [OF sys ex] unfolding exec_log_handler_def ret_def v_def Let_def by simp
  show ?thesis
  proof (cases "ret = None \<or> ret = Some []")
    case True
    from exec_log_closed [OF t(1) ev] obtain lp u ft et where
      u: "peer_close (Peer_transport (ex_log_at ex)) (ex_log_peer ex) v = Some (lp, u)" "peer_fd lp = -1"
        "conn_inv (\<lambda>_. 0) f u" "owners f u = owners f v" "exec_frame (ex_log_at ex) v u"
        "\<forall>g. epoll_set u g \<noteq> Some (Peer_transport (ex_log_at ex))" "u = v\<lparr>fds := ft, epoll_set := et\<rparr>" by blast
    have "exec_done K oth f ex v (exec_store (ex\<lparr>ex_log_peer := lp\<rparr>) u)"
      by (rule exec_log_stored(1) [OF t(1) ev _ _ _ _ _ _ _ _ _ u(3-7)])
        (use u(2) exec_sysD(6) [OF sys ex] in \<open>simp_all add: exec_ok_def\<close>)
    then show ?thesis using u(1) True exec_done_trans [OF dv] by (simp add: eq)
  next
    case False
    then obtain buf where b: "ret = Some buf" by (cases ret) auto
    define w' where "w' = v\<lparr>exec_log := exec_log v @ map (Pair (ex_id ex)) (byte_lines buf)\<rparr>"
    have c: "conn_inv (\<lambda>_. 0) f w'" "owners f w' = owners f v"
      using conn_inv_same [OF exec_sysD(1) [OF t(1)], of w'] conn_inv_rand [OF exec_sysD(1) [OF t(1)]] by (simp_all add: w'_def)
    have h: "struct_upd ex_at ex (exec_head v) = exec_head v" by (rule exec_sysD(9) [OF t(1) ev])
    have ok: "exec_ok ex w'" using exec_sysD(6) [OF t(1) ev] exec_ok_cong [of w' ex v] by (simp add: w'_def)
    have own: "ex_handler ex = Some Exec_spawn_wrapper \<or> Some (Peer_transport (ex_at ex)) \<notin># owners f v"
      using exec_not_owned(2) [OF t(1) ev] by auto
    note ch = exec_change [OF t(1) ev refl refl _ ok own _ _ c(1,2)]
    have ch: "exec_sys K oth f w'" "exec_ready v \<subseteq> exec_ready w'" "exec_addrs w' = exec_addrs v"
      by (rule ch(1,3,4); simp add: w'_def h)+
    have "call_frame v w'" by (rule call_frame_heads) (simp_all add: w'_def)
    then have "exec_frame (ex_log_at ex) v w'" by (simp add: exec_frame_def net_frame_def) (simp add: w'_def)
    moreover have "exec_sig w' = exec_sig v" by (simp add: w'_def)
    ultimately have "exec_done K oth f ex v w'" using ch by (simp add: exec_done_def)
    then show ?thesis
      using exec_done_trans [OF dv] False b exec_log_lines_spec [of 0 "length buf" buf] by (simp add: eq w'_def)
  qed
qed

text \<open>A retry after the child has ended.\<close>

lemma exec_retry_spec:
  fixes w :: "'a exec_state_scheme" and K :: "'k exec_kernel_scheme"
  assumes sys: "exec_sys K oth f w" and ex: "ex \<in> set (exec_head w)" and own: "Some (Peer_transport (ex_at ex)) \<notin># owners f w"
    and lp: "peer_fd (ex_log_peer ex) = -1" and ch: "\<not> 0 < ex_child ex"
  shows "\<exists>w'. exec_retry E K (ex_at ex) w = Some w' \<and> exec_done K oth f ex w w'"
proof -
  note d = exec_sysD [OF sys] and ok = exec_sysD(6) [OF sys ex]
  define ex' where "ex' = ex\<lparr>ex_handler := Some Exec_spawn_wrapper\<rparr>"
  define v where "v = exec_store ex' w"
  note s = exec_stored [OF d(1), where ex = ex', folded v_def]
  have ok': "exec_ok ex' v" using ok lp ch by (auto simp: exec_ok_def exec_log_ok_def registered_at_def ex'_def v_def)
  note c = exec_change [OF sys ex, of ex' v, OF _ _ _ ok' _ _ _ s(1,2)]
  have c: "exec_sys K oth f v" "exec_ready w \<subseteq> exec_ready v" "exec_addrs v = exec_addrs w" "ex' \<in> set (exec_head v)"
    by (rule c(1,3-5); simp add: ex'_def v_def)+
  have "exec_sig v = exec_sig w" by (simp add: v_def)
  then have dv: "exec_done K oth f ex w v" using c s(3) by (simp add: exec_done_def)
  have lv: "ex_at ex \<in> exec_live v" using c(4) by (auto simp: exec_live_def ex'_def image_iff intro!: bexI [of _ ex'])
  have "ex_at ex' \<in> ex_at ` set (exec_head v)" using c(4) by (rule imageI)
  then have "ex_at ex \<notin> exec_ready v"
    using exec_sysD(5) [OF c(1)] by (auto simp: exec_apart_def exec_ready_def ex'_def)
  note ra = retry_asked [OF exec_sysD(4) [OF c(1)] exec_sysD(1) [OF c(1)], where t = "ex_at ex" and src = "env_entropy E" and attempt = 1 and st = "k_timer_stat K"]
  have o: "Some (Peer_transport (ex_at ex)) \<notin># owners f v" using own s(2) by simp
  obtain delay rs w' where r: "wakeup_get_retry_delay_ms (env_entropy E) 1 (rnd w) = Some (delay, rs)"
    "wakeup_add (new_fd K v) (k_timer_stat K) (Peer_transport (ex_at ex)) delay (v\<lparr>rnd := rs\<rparr>) = Some w'"
    "conn_inv (\<lambda>_. 0) f w'" "owners f w' = add_mset (Some (Peer_transport (ex_at ex))) (owners f v)"
    "conn_owners w' = conn_owners v" "t_frame v w'" "call_frame v w'"
    using ra [OF o] by (auto simp: v_def split: option.splits)
  have ne: "ex_at ex \<notin> o_ready oth" using kind_sysD(3,5) [OF sys] ex by (auto simp: exec_addrs_def)
  have "exec_sys K oth f w'"
    by (rule execs.step [OF c(1) r(3,6)]) (use r(4,5) lv \<open>ex_at ex \<notin> exec_ready v\<close> ne in auto)
  moreover have "exec_frame (ex_log_at ex) v w'" by (rule exec_frame_t [OF r(6,7)])
  moreover have "exec_ready w' = exec_ready v" "exec_addrs w' = exec_addrs v" "exec_sig w' = exec_sig v"
    using more_exec [of w' v] r(6) by (simp_all add: t_frame_def exec_ready_def exec_addrs_def exec_sig_addr_def)
  ultimately have "exec_done K oth f ex v w'" by (simp add: exec_done_def)
  moreover have "exec_retry E K (ex_at ex) w = Some w'"
    using d(7) [OF ex] r(1,2) by (simp add: exec_retry_def ex'_def [symmetric] v_def Let_def)
  ultimately show ?thesis using exec_done_trans [OF dv] by blast
qed

text \<open>A child is started: both of its sockets are opened, its log is registered and its data handed over.\<close>

lemma exec_parent_spec:
  fixes w :: "'a exec_state_scheme" and K :: "'k exec_kernel_scheme"
  assumes sys: "exec_sys K oth f w" and ex: "ex \<in> set (exec_head w)" and own: "Some (Peer_transport (ex_at ex)) \<notin># owners f w"
    and lp: "peer_fd (ex_log_peer ex) = -1" and held: "socket_held data w" "socket_held log w" "data \<noteq> log"
    and child: "0 < child"
  shows "\<exists>w'. exec_parent E K (ex_at ex) child data log w = Some w' \<and> exec_done K oth f ex w w'"
proof -
  let ?a = "ex_log_at ex"
  note d = exec_sysD [OF sys] and ok = exec_sysD(6) [OF sys ex]
  define p where "p = (ex_log_peer ex)\<lparr>peer_fd := log\<rparr>"
  obtain info where i: "fd_unused (peer_fd p) w" "fds w (peer_fd p) = Some info" "fd_pollable info"
    using held(2) by (auto simp: socket_held_def p_def)
  define u where "u = w\<lparr>epoll_set := (epoll_set w)(log \<mapsto> Peer_transport ?a)\<rparr>"
  have pf: "peer_fd p = log" by (simp add: p_def)
  note r = socket_registered [OF d(1) i refl, where a = ?a, unfolded pf, folded u_def]
  have e: "epoll_set w log = None" "0 \<le> log"
    using held(2) by (simp_all add: socket_held_def fd_unused_def fd_free_def fd_fresh_def)
  have "u = w\<lparr>tick := tick w, fds := fds w, epoll_set := (epoll_set w)(log \<mapsto> Peer_transport ?a), async_requests := async_requests w\<rparr>"
    by (simp add: u_def)
  note ch = net_changed [OF this, where fd = log and a = ?a]
  have nf: "net_frame ?a w u" "call_frame w u"
    "\<And>g t. t \<noteq> ?a \<Longrightarrow> epoll_set u g = Some (Peer_transport t) \<longleftrightarrow> epoll_set w g = Some (Peer_transport t)"
    using ch e by simp_all
  then have uf: "exec_frame ?a w u" by (simp add: exec_frame_def) (simp add: u_def)
  define ex' where "ex' = ex\<lparr>ex_child := child, ex_log_peer := p\<lparr>peer_always_trigger := False\<rparr>, ex_log_set := True,
    ex_handler := Some Exec_retry\<rparr>"
  define v where "v = exec_store ex' u"
  note s = exec_stored [OF r(2), where ex = ex', folded v_def]
  have no: "epoll_set w g \<noteq> Some (Peer_transport ?a)" for g
    using ok lp by (auto simp: exec_ok_def exec_log_ok_def registered_at_def)
  have "registered_at ?a (p\<lparr>peer_always_trigger := False\<rparr>) v"
    using e no by (auto simp: registered_at_def v_def u_def p_def)
  then have ok': "exec_ok ex' v" using ok child by (simp add: exec_ok_def exec_log_ok_def ex'_def)
  have eo: "owners f v = owners f w" using s(2) r(3) by simp
  have "epoll_set v g = Some (Peer_transport t) \<longleftrightarrow> epoll_set w g = Some (Peer_transport t)" if "t \<noteq> ?a" for g t
    using nf(3) [OF that] by (simp add: v_def)
  note c = exec_change [OF sys ex, of ex' v, OF _ _ _ ok' _ _ _ s(1) eo _ _ _ this]
  have c: "exec_sys K oth f v" "exec_ready w \<subseteq> exec_ready v" "exec_addrs v = exec_addrs w"
    by (rule c(1,3,4); use own in \<open>simp add: ex'_def v_def u_def\<close>)+
  have "exec_sig v = exec_sig w" by (simp add: v_def u_def)
  then have dv: "exec_done K oth f ex w v" using c exec_frame_trans [OF uf s(3)] by (simp add: exec_done_def)
  have pass: "flow_pass_ok (ex_flow ex) (ex_pass ex)" using ok by (simp add: exec_ok_def)
  have "socket_held data u"
    using held(1,3) by (simp add: u_def socket_held_def fd_unused_def fd_free_def fd_fresh_def all_sends_def)
  then have fd: "fd_unused data v" using s(4) [of data] by (simp add: socket_held_def)
  have none: "owner_free f None v" by (simp add: owner_free_def)
  from handed_over [OF d(4) exec_sysD(1) [OF c(1)] fd pass none, of E] obtain sent w' where
    w': "flow_new_send_hello E data (the_flow E K (ex_flow ex)) (ex_pass ex) None v = Some (sent, w')"
      "conn_inv (\<lambda>_. 0) f w'" "conn_frame v w'" "if sent then made f v None w' else owners f w' = owners f v" by blast
  have "exec_sys K oth f w'"
  proof (cases sent)
    case True
    then show ?thesis using w'(4) by (intro execs.step_made [OF c(1) w'(2), of None]) simp_all
  next
    case False
    then show ?thesis using w'(3,4) by (intro execs.step_same [OF c(1) w'(2)]) (simp_all add: conn_frame_def)
  qed
  then have "exec_done K oth f ex v w'" by (rule exec_done_conn [OF _ w'(3)])
  moreover have "exec_parent E K (ex_at ex) child data log w = Some w'"
    using d(7) [OF ex] held r(1) w'(1)
    by (auto simp: exec_parent_def socket_held_def p_def ex'_def v_def Let_def)
  ultimately show ?thesis using exec_done_trans [OF dv] by blast
qed

lemma exec_spawn_spec:
  fixes w :: "'a exec_state_scheme" and K :: "'k exec_kernel_scheme"
  assumes sys: "exec_sys K oth f w" and ex: "ex \<in> set (exec_head w)" and own: "Some (Peer_transport (ex_at ex)) \<notin># owners f w"
    and lp: "peer_fd (ex_log_peer ex) = -1"
  shows "\<exists>w'. exec_spawn E K (ex_at ex) w = Some w' \<and> exec_done K oth f ex w w'"
proof -
  note K = exec_sysD(4) [OF sys] and inv = exec_sysD(1) [OF sys]
  from socket_held_new [OF K inv] obtain d0 w1 where
    1: "open_socket K w = Some (d0, w1)" "conn_inv (\<lambda>_. 0) f w1" "owners f w1 = owners f w" "conn_frame w w1"
      "socket_held d0 w1" by blast
  from socket_held_new [OF K 1(2)] 1(5) obtain d1 w2 where
    2: "open_socket K w1 = Some (d1, w2)" "conn_inv (\<lambda>_. 0) f w2" "owners f w2 = owners f w1" "conn_frame w1 w2"
      "socket_held d1 w2" "socket_held d0 w2" "d0 \<noteq> d1" by blast
  from socket_held_new [OF K 2(2)] 2(5,6) obtain l0 w3 where
    3: "open_socket K w2 = Some (l0, w3)" "conn_inv (\<lambda>_. 0) f w3" "owners f w3 = owners f w2" "conn_frame w2 w3"
      "socket_held l0 w3" "socket_held d0 w3" "socket_held d1 w3" "d0 \<noteq> l0" "d1 \<noteq> l0" by metis
  from socket_held_new [OF K 3(2)] 3(5-7) obtain l1 w4 where
    4: "open_socket K w3 = Some (l1, w4)" "conn_inv (\<lambda>_. 0) f w4" "owners f w4 = owners f w3" "conn_frame w3 w4"
      "socket_held l1 w4" "socket_held d0 w4" "socket_held d1 w4" "socket_held l0 w4" "d0 \<noteq> l1" "d1 \<noteq> l1" "l0 \<noteq> l1" by metis
  define w5 where "w5 = w4\<lparr>tick := tick w4 + 1\<rparr>"
  have "w5 = w4\<lparr>tick := tick w4 + 1, trace := trace w4\<rparr>" by (simp add: w5_def)
  note t5 = conn_inv_ticked [OF 4(2), where n = "tick w4 + 1" and tr = "trace w4", folded this]
  have 5: "conn_frame w4 w5" "\<And>g. socket_held g w5 = socket_held g w4"
    by (auto simp: w5_def t_frame_def socket_held_def fd_unused_def fd_free_def fd_fresh_def all_sends_def intro: conn_frameI)
  from socket_held_closed [OF t5(1), of d1] 4(6-11) 2(7) 3(8,9) obtain w6 where
    6: "close_fd d1 w5 = Some w6" "conn_inv (\<lambda>_. 0) f w6" "owners f w6 = owners f w5" "conn_frame w5 w6"
      "socket_held d0 w6" "socket_held l0 w6" "socket_held l1 w6" unfolding 5(2) using 4(5) by metis
  from socket_held_closed [OF 6(2,7)] 6(5,6) 4(9,11) obtain w7 where
    7: "close_fd l1 w6 = Some w7" "conn_inv (\<lambda>_. 0) f w7" "owners f w7 = owners f w6" "conn_frame w6 w7"
      "socket_held d0 w7" "socket_held l0 w7" by metis
  have cf: "conn_frame w w7"
    by (rule conn_frame_trans [OF 1(4) conn_frame_trans [OF 2(4) conn_frame_trans [OF 3(4) conn_frame_trans [OF 4(4)
        conn_frame_trans [OF 5(1) conn_frame_trans [OF 6(4) 7(4)]]]]]])
  have o: "owners f w7 = owners f w" using 1(3) 2(3) 3(3) 4(3) t5(2) 6(3) 7(3) by simp
  have s7: "exec_sys K oth f w7"
    using cf by (intro execs.step_same [OF sys 7(2) _ o]) (simp_all add: conn_frame_def)
  have e7: "ex \<in> set (exec_head w7)" using cf ex more_exec(1) [of w7 w] by (simp add: conn_frame_def t_frame_def)
  have fk: "0 < k_fork K (tick w4)" "k_shutdown (k_socket K) (tick w7) l0 SHUT_WR = 0"
    using exec_sysD(3) [OF sys] by (simp_all add: exec_kernel_ok_def socket_kernel_ok_def)
  from exec_parent_spec [OF s7 e7 _ lp 7(5,6) 3(8) fk(1), of E] own o obtain w' where
    p: "exec_parent E K (ex_at ex) (k_fork K (tick w4)) d0 l0 w7 = Some w'" "exec_done K oth f ex w7 w'" by auto
  have "exec_spawn E K (ex_at ex) w = Some w'"
    using 1(1) 2(1) 3(1) 4(1) 6(1) 7(1) fk p(1) less_imp_le [OF fk(1)]
    by (simp add: exec_spawn_def w5_def Let_def)
  then show ?thesis using exec_done_trans [OF exec_done_conn [OF s7 cf] p(2)] by blast
qed

lemma exec_sigchld_spec:
  fixes w :: "'a exec_state_scheme" and K :: "'k exec_kernel_scheme"
  assumes sys: "exec_sys K oth f w"
  shows "\<exists>w'. exec_sigchld_handler E K p w = Some w' \<and> exec_sys K oth f w' \<and> exec_ready w \<subseteq> exec_ready w' \<and>
    exec_addrs w' = exec_addrs w \<and> ((\<forall>a. exec_frame a w w') \<or> (\<exists>a \<in> exec_addrs w. exec_frame a w w'))"
proof -
  obtain pid status where k: "k_waitpid K (tick w) = (pid, status)" by fastforce
  have K: "0 \<le> pid" "WIFEXITED status \<or> WIFSIGNALED status" "k_read_chld K (tick w) fd = SIGNALFD_SIGINFO_SIZE" for fd
    using exec_sysD(3) [OF sys] k unfolding exec_kernel_ok_def by blast+
  define v where "v = w\<lparr>tick := tick w + 1\<rparr>"
  have vt: "v = w\<lparr>tick := tick w + 1, trace := trace w\<rparr>" by (simp add: v_def)
  note t = exec_change_tick [OF sys, where n = "tick w + 1" and tr = "trace w", folded vt]
  have dv: "exec_done K oth f ex w v" for ex by (rule exec_done_conn [OF t(1,2)])
  have eq: "exec_sigchld_handler E K p w = (if pid = 0 then Some v
      else case find (\<lambda>ex. ex_child ex = pid) (exec_head w) of
        None \<Rightarrow> Some v
      | Some ex \<Rightarrow> do {
          w \<leftarrow> exec_child_cleanup (ex_at ex) status v;
          peer_call (\<lambda>_. exec_peer_event E K (ex_at ex)) (Some (Peer_transport (ex_at ex))) w
        })"
    using K k by (auto simp: exec_sigchld_handler_def v_def split: option.splits)
  show ?thesis
  proof (cases "pid = 0 \<or> find (\<lambda>ex. ex_child ex = pid) (exec_head w) = None")
    case True
    then have "exec_sigchld_handler E K p w = Some v" by (auto simp: eq)
    moreover have "exec_frame a w v" for a
      using t(2) by (intro exec_frame_t call_frameI) (simp_all add: conn_frame_def)
    ultimately show ?thesis using dv t(1) unfolding exec_done_def by blast
  next
    case False
    then obtain ex where f: "find (\<lambda>ex. ex_child ex = pid) (exec_head w) = Some ex" "0 < pid" using K(1) by auto
    then have ex: "ex \<in> set (exec_head w)" "ex_child ex = pid" by (auto simp: find_Some_iff)
    then have ev: "ex \<in> set (exec_head v)" by (simp add: v_def)
    have ok: "ex_handler ex = Some Exec_retry" "peer_fd (ex_peer ex) = -1"
      using exec_sysD(6) [OF sys ex(1)] f(2) ex(2) by (auto simp: exec_ok_def)
    have own: "Some (Peer_transport (ex_at ex)) \<notin># owners f v" using exec_not_owned(2) [OF t(1) ev] ok(1) by simp
    from exec_log_closed [OF t(1) ev] obtain lp u ft et where
      u: "peer_close (Peer_transport (ex_log_at ex)) (ex_log_peer ex) v = Some (lp, u)" "peer_fd lp = -1"
        "conn_inv (\<lambda>_. 0) f u" "owners f u = owners f v" "exec_frame (ex_log_at ex) v u"
        "\<forall>g. epoll_set u g \<noteq> Some (Peer_transport (ex_log_at ex))" "u = v\<lparr>fds := ft, epoll_set := et\<rparr>" by blast
    define ex' where "ex' = ex\<lparr>ex_child := -1, ex_log_peer := lp\<rparr>"
    define x where "x = exec_store ex' u"
    have fields: "ex_at ex' = ex_at ex" "ex_log_at ex' = ex_log_at ex" "ex_log_set ex' = ex_log_set ex"
      "ex_handler ex' = ex_handler ex" "ex_flow ex' = ex_flow ex" "ex_pass ex' = ex_pass ex" "peer_fd (ex_peer ex') = -1"
      "peer_fd (ex_log_peer ex') = -1" "ex_child ex' = ex_child ex \<or> ex_child ex' = -1"
      using ok(2) u(2) by (simp_all add: ex'_def)
    note st = exec_log_stored [OF t(1) ev fields u(3-7), folded x_def]
    have sx: "exec_sys K oth f x" using st(1) by (simp add: exec_done_def)
    have "owners f x = owners f v" using exec_stored(2) [OF u(3), of ex'] u(4) by (simp add: x_def)
    then have ox: "Some (Peer_transport (ex_at ex')) \<notin># owners f x" using own fields(1) by simp
    have cl: "exec_child_cleanup (ex_at ex) status v = Some x"
      using exec_sysD(7) [OF t(1) ev] K(2) u(1) ok(2)
      by (simp add: exec_child_cleanup_def peer_close_def [of "Peer_transport (ex_at ex)"] x_def ex'_def c_assert_def)
    have "\<not> 0 < ex_child ex'" by (simp add: ex'_def)
    from exec_retry_spec [OF sx st(2) ox fields(8) this, of E] obtain y where
      y: "exec_retry E K (ex_at ex) x = Some y" "exec_done K oth f ex' x y" by (auto simp: fields(1))
    have pe: "exec_peer_event E K (ex_at ex) x = Some y"
      using exec_sysD(7) [OF sx st(2)] y(1) ok(1) fields(1,4) by (simp add: exec_peer_event_def)
    have eqx: "exec_sigchld_handler E K p w = (if peer_shutdown_flag x then Some x else Some y)"
      using f ex(2) cl pe by (simp add: eq peer_call_def)
    have "exec_done K oth f ex x y" using y(2) fields(2) by (simp add: exec_done_def)
    then have "exec_done K oth f ex w x" "exec_done K oth f ex w y"
      using exec_done_trans [OF dv st(1)] exec_done_trans by blast+
    moreover have "ex_log_at ex \<in> exec_addrs w" using ex(1) by (simp add: exec_addrs_def)
    ultimately show ?thesis unfolding eqx by (cases "peer_shutdown_flag x") (auto simp: exec_done_def)
  qed
qed

section \<open>Children as transports\<close>

definition exec_kept :: "'a exec_state_scheme \<Rightarrow> 'a exec_state_scheme \<Rightarrow> bool" where
  "exec_kept w w' \<longleftrightarrow> (\<forall>a. exec_frame a w w') \<or> (\<exists>a \<in> exec_addrs w. exec_frame a w w')"

lemma exec_event_returns:
  fixes w :: "'a exec_state_scheme" and K :: "'k exec_kernel_scheme"
  assumes sys: "exec_sys K oth f w" and t: "t \<in> exec_live w" and own: "Some (Peer_transport t) \<notin># owners f w"
  shows "\<exists>w'. exec_event E K t w = Some w' \<and> exec_sys K oth f w' \<and> exec_kept w w' \<and> exec_ready w \<subseteq> exec_ready w'"
proof -
  note ap = exec_sysD(5) [OF sys]
  have dn: "exec_sys K oth f w' \<and> exec_kept w w' \<and> exec_ready w \<subseteq> exec_ready w'"
    if "exec_done K oth f ex w w'" "ex \<in> set (exec_head w)" for ex w'
    using that by (auto simp: exec_done_def exec_kept_def exec_addrs_def)
  from t consider (sig) p where "exec_sig w = Some (t, p)"
    | (peer) ex where "ex \<in> set (exec_head w)" "ex_at ex = t" "ex_handler ex = Some Exec_spawn_wrapper"
    | (log) ex where "ex \<in> set (exec_head w)" "ex_log_at ex = t"
    by (auto simp: exec_live_def exec_ready_def exec_sig_addr_def)
  then show ?thesis
  proof cases
    case sig
    then show ?thesis using exec_sigchld_spec [OF sys, of E p] by (auto simp: exec_event_def exec_kept_def)
  next
    case peer
    have "peer_fd (ex_log_peer ex) = -1" using exec_sysD(6) [OF sys peer(1)] peer(3) by (simp add: exec_ok_def)
    from exec_spawn_spec [OF sys peer(1) _ this, of E] own peer(2) obtain w' where
      w': "exec_spawn E K t w = Some w'" "exec_done K oth f ex w w'" by auto
    have "t \<notin> exec_sig_addr w" using ap peer(1,2) by (auto simp: exec_apart_def)
    then have "exec_event E K t w = exec_peer_event E K t w"
      using peer(1,2) by (auto simp: exec_event_def exec_sig_addr_def split: option.splits)
    then have "exec_event E K t w = Some w'"
      using exec_sysD(7) [OF sys peer(1)] peer(2,3) w'(1) by (simp add: exec_peer_event_def exec_spawn_wrapper_def)
    then show ?thesis using dn [OF w'(2) peer(1)] by blast
  next
    case log
    from exec_log_handler_spec [OF sys log(1)] log(2) obtain w' where
      w': "exec_log_handler K t w = Some w'" "exec_done K oth f ex w w'" by auto
    have "t \<notin> exec_sig_addr w" "t \<notin> ex_at ` set (exec_head w)" using ap log by (auto simp: exec_apart_def)
    then have "exec_event E K t w = Some w'" using w'(1) by (auto simp: exec_event_def exec_sig_addr_def split: option.splits)
    then show ?thesis using dn [OF w'(2) log(1)] by blast
  qed
qed

interpretation exec_k: kind exec_live "\<lambda>_. {}" exec_ready exec_addrs "exec_inv K" "\<lambda>_. 0" "exec_event E K" exec_kept for E K
proof
  fix oth f t and w :: "'a exec_state_scheme"
  assume sys: "exec_sys K oth f w" and t: "t \<in> exec_live w" and own: "Some (Peer_transport t) \<notin># owners f w"
  from exec_event_returns [OF sys t own, of E] obtain w' where
    w': "exec_event E K t w = Some w'" "exec_sys K oth f w'" "exec_kept w w'" "exec_ready w \<subseteq> exec_ready w'" by blast
  moreover have "call_frame w w'" using w'(3) by (auto simp: exec_kept_def exec_frame_def)
  ultimately show "case exec_event E K t w of
      None \<Rightarrow> t \<notin> {} \<and> 20 < (0::nat)
    | Some w' \<Rightarrow> exec_sys K oth f w' \<and> exec_kept w w' \<and> call_frame w w' \<and> exec_ready w - {t} \<subseteq> exec_ready w' \<and> 0 \<le> Suc 0 \<and>
        (t \<in> {} \<longrightarrow> peer_always_trigger_head w' = peer_always_trigger_head w \<and> 0 \<le> max 2 0)" by auto
qed

section \<open>New children and the signal\<close>

text \<open>A new structure, to which nothing leads yet.\<close>

lemma exec_linked:
  fixes w :: "'a exec_state_scheme"
  assumes sys: "exec_sys K oth f w" and ex: "ex_at ex = next_addr w" "ex_log_at ex = next_addr w + 1" "ex_handler ex = None"
      "\<not> ex_log_set ex" "peer_fd (ex_peer ex) = -1" "peer_fd (ex_log_peer ex) = -1" "\<not> 0 < ex_child ex"
      "flow_pass_ok (ex_flow ex) (ex_pass ex)"
    and rs: "rand_ok rs"
  defines "w' \<equiv> w\<lparr>next_addr := next_addr w + 2, rnd := rs, exec_head := exec_head w @ [ex]\<rparr>"
  shows "exec_sys K oth f w'" and "exec_frame a w w'" and "ex \<in> set (exec_head w')"
    and "Some (Peer_transport (ex_at ex)) \<notin># owners f w'"
proof -
  note d = kind_sysD [OF sys] and inv = exec_sysD(2) [OF sys]
  have ci: "conn_inv (\<lambda>_. 0) f w'" "owners f w' = owners f w"
    by (rule conn_inv_same [OF d(1)]; use rs in \<open>simp add: w'_def\<close>)+
  have "conn_owners w' = {#} + conn_owners w" by (rule owners_add_conn [of f]) (use ci(2) in simp, simp add: w'_def)
  then have co: "conn_owners w' = conn_owners w" by simp
  have old: "t < next_addr w" if "t \<in> exec_addrs w \<union> o_addrs oth" for t
    using that inv d(4) by (auto simp: exec_inv_def)
  have sigs: "exec_sig_addr w' = exec_sig_addr w" by (simp add: exec_sig_addr_def w'_def)
  have ad: "exec_addrs w' = insert (next_addr w) (insert (next_addr w + 1) (exec_addrs w))"
    by (auto simp: exec_addrs_def sigs) (auto simp: w'_def ex(1,2))
  have rl: "exec_ready w' = exec_ready w" "exec_live w' = exec_live w"
    using ex(3,4) by (auto simp: exec_ready_def exec_live_def exec_sig_addr_def w'_def)
  have new: "next_addr w \<notin> exec_addrs w \<union> o_addrs oth" "next_addr w + 1 \<notin> exec_addrs w \<union> o_addrs oth"
    using old by fastforce+
  have ap: "exec_apart w'"
    using exec_sysD(5) [OF sys] new(1,2) unfolding exec_apart_def sigs by (auto simp: w'_def ex(1,2) exec_addrs_def)
  have reg: "epoll_set w g \<noteq> Some (Peer_transport t)" if "t \<in> {next_addr w, next_addr w + 1}" for g t
    using d(8) [of g t] that new execs.ready_addrs [of w] d(5) by blast
  have e: "epoll_set w' = epoll_set w" by (simp add: w'_def)
  have ok: "exec_ok q w'" if "q \<in> set (exec_head w')" for q
  proof (cases "q = ex")
    case True
    then show ?thesis using ex(2-8) reg by (auto simp: exec_ok_def exec_log_ok_def e)
  next
    case False
    then show ?thesis using that inv exec_ok_cong [of w' q w] by (auto simp: exec_inv_def w'_def)
  qed
  have "registered_at s p w'" if "exec_sig w = Some (s, p)" for s p
    using inv that by (auto simp: exec_inv_def registered_at_def e)
  moreover have "exec_sig w' = exec_sig w" "\<forall>t \<in> exec_addrs w'. t < next_addr w'"
    using old unfolding ad by (simp_all add: w'_def) fastforce
  ultimately have inv': "exec_inv K w'" using inv ap ok unfolding exec_inv_def by simp
  show "exec_sys K oth f w'"
  proof (rule kind_sysI)
    show "conn_inv (\<lambda>_. 0) f w'" "exec_inv K w'" by (rule ci(1) inv')+
    show "o_addrs oth \<inter> exec_addrs w' = {}" "o_live oth \<union> o_ready oth \<subseteq> o_addrs oth"
      using d(3,5) new by (auto simp: ad)
    show "\<And>t. t \<in> o_addrs oth \<Longrightarrow> t < next_addr w'" using d(4) by (auto simp: w'_def intro: less_SucI)
  qed (use d(6-11) in \<open>simp_all add: ci(2) co rl e\<close>, use d(11) in \<open>simp add: w'_def\<close>)
  have "call_frame w w'" by (rule call_frame_heads) (simp_all add: w'_def)
  then show "exec_frame a w w'" by (simp add: exec_frame_def net_frame_def) (simp add: w'_def)
  show "ex \<in> set (exec_head w')" by (simp add: w'_def)
  show "Some (Peer_transport (ex_at ex)) \<notin># owners f w'"
    using d(6) [of "next_addr w"] new(1) execs.live_addrs [of w] d(5) unfolding ci(2) ex(1) by blast
qed

lemma exec_new_spec:
  fixes w :: "'a exec_state_scheme" and K :: "'k exec_kernel_scheme"
  assumes sys: "exec_sys K oth f w" and pass: "flow_pass_ok flow pass"
  shows "\<exists>w'. exec_new E K command flow pass w = Some w' \<and> exec_sys K oth f w' \<and>
    exec_frame (next_addr w + 1) w w' \<and> next_addr w + 1 \<in> exec_addrs w' \<and> exec_sig w' = exec_sig w"
proof -
  note inv = kind_sysD(1) [OF sys]
  define v where "v = flow_ref_inc (the_flow E K flow) w"
  note c = conn_inv_counted [OF inv, of E K flow "\<lambda>n. n + 1", folded flow_ref_inc_def, folded v_def]
  have vf: "t_frame w v" "wakeup_head v = wakeup_head w" using c(3) by (simp_all add: conn_frame_def)
  have vs: "exec_sys K oth f v" by (rule execs.step_same [OF sys c(1) vf(1) c(2) vf(2)])
  have f1: "exec_frame a w v" for a by (rule exec_frame_t [OF vf(1) call_frameI [OF c(3)]])
  from uuid_gen_valid [OF conn_inv_rand [OF c(1)], of "replicate UUID_LEN 0" "env_entropy E"] obtain uid rs where
    u: "uuid_gen (env_entropy E) (rnd v) (replicate UUID_LEN 0) = Some (uid, rs)" "rand_ok rs"
    by (auto simp: UUID_LEN_def)
  define ex where "ex = \<lparr>ex_at = next_addr v, ex_log_at = next_addr v + 1, ex_peer = \<lparr>peer_fd = -1, peer_always_trigger = False\<rparr>,
    ex_handler = None, ex_log_peer = \<lparr>peer_fd = -1, peer_always_trigger = False\<rparr>, ex_log_set = False, ex_id = uid,
    ex_command = command, ex_flow = flow, ex_pass = pass, ex_child = -1\<rparr>"
  define x where "x = v\<lparr>next_addr := next_addr v + 2, rnd := rs, exec_head := exec_head v @ [ex]\<rparr>"
  have ln: "exec_sys K oth f x" "exec_frame (next_addr v + 1) v x" "ex \<in> set (exec_head x)"
      "Some (Peer_transport (ex_at ex)) \<notin># owners f x"
    unfolding x_def by (rule exec_linked [OF vs]; use u(2) pass in \<open>simp add: ex_def\<close>)+
  have at: "ex_at ex = next_addr v" "ex_log_at ex = next_addr v + 1" "peer_fd (ex_log_peer ex) = -1" by (simp_all add: ex_def)
  from exec_spawn_spec [OF ln(1,3,4) at(3), of E] obtain w' where
    w': "exec_spawn E K (next_addr v) x = Some w'" "exec_done K oth f ex x w'" by (auto simp: at(1))
  have "exec_new E K command flow pass w = Some w'"
    using u(1) w'(1) by (simp add: exec_new_def Let_def v_def [symmetric] x_def ex_def)
  moreover have "exec_frame (next_addr v + 1) x w'" using w'(2) at(2) by (simp add: exec_done_def)
  then have "exec_frame (next_addr v + 1) w w'" using exec_frame_trans [OF f1 exec_frame_trans [OF ln(2)]] by blast
  moreover have "next_addr v + 1 \<in> exec_addrs x" using ln(3) at(2) by (force simp: exec_addrs_def)
  then have "next_addr v + 1 \<in> exec_addrs w'" using w'(2) by (simp add: exec_done_def)
  moreover have "exec_sig x = exec_sig w" using more_exec(2) [of v w] vf(1) by (simp add: x_def t_frame_def)
  ultimately show ?thesis using w'(2) c(8) by (auto simp: exec_done_def)
qed

text \<open>A step of a transport of another kind.\<close>

lemma exec_kept_other:
  fixes w w' :: "'a exec_state_scheme" and K :: "'k exec_kernel_scheme"
  assumes h: "exec_head w' = exec_head w" "exec_sig w' = exec_sig w" "next_addr w \<le> next_addr w'"
    and fr: "net_frame a w w'" and a: "a \<notin> exec_addrs w"
  shows "keeps exec_live (\<lambda>_. {}) exec_ready exec_addrs (exec_inv K) (\<lambda>_. 0) w w'"
proof -
  have "epoll_set w' g = Some (Peer_transport t) \<longleftrightarrow> epoll_set w g = Some (Peer_transport t)" if "t \<in> exec_addrs w" for g t
    using that a fr by (auto simp: net_frame_def)
  then have "exec_inv K w'" if "exec_inv K w" by (intro exec_inv_same [OF that h])
  then show ?thesis
    by (simp add: keeps_def exec_live_def exec_ready_def exec_addrs_def exec_sig_addr_def h)
qed

text \<open>The descriptor of the signal is registered once.\<close>

lemma exec_init_peer_spec:
  fixes w :: "'a exec_state_scheme" and K :: "'k exec_kernel_scheme"
  assumes sys: "exec_sys K oth f w" and none: "exec_sig w = None"
  shows "\<exists>w'. exec_init_peer K w = Some w' \<and> exec_sys K oth f w' \<and> exec_frame (next_addr w) w w' \<and>
    next_addr w \<in> exec_ready w'"
proof -
  note d = kind_sysD [OF sys] and inv = exec_sysD(2) [OF sys] and K = exec_sysD(4) [OF sys]
  from socket_held_new [OF K d(1)] obtain fd v where
    v: "open_socket K w = Some (fd, v)" "conn_inv (\<lambda>_. 0) f v" "owners f v = owners f w" "conn_frame w v" "socket_held fd v" by blast
  obtain info where i: "fd_unused fd v" "fds v fd = Some info" "fd_pollable info" using v(5) by (auto simp: socket_held_def)
  have vw: "v = w\<lparr>fds := (fds w)(fd \<mapsto> sock_info K w)\<rparr>"
    using v(1) by (auto simp: open_socket_def Let_def bind_Some_iff)
  let ?a = "next_addr w"
  define p where "p = \<lparr>peer_fd = fd, peer_always_trigger = False\<rparr>"
  define u where "u = v\<lparr>epoll_set := (epoll_set v)(fd \<mapsto> Peer_transport ?a)\<rparr>"
  have pf: "peer_fd p = fd" by (simp add: p_def)
  note r = socket_registered [OF v(2) i pf, where a = ?a, folded u_def]
  have r1: "peer_epoll_add (Peer_transport ?a) p True v = Some (p, u)" using r(1) by (simp add: p_def)
  have e: "epoll_set w fd = None" "0 \<le> fd"
    using i(1) by (simp_all add: fd_unused_def fd_free_def fd_fresh_def vw)
  define w' where "w' = u\<lparr>next_addr := ?a + 1, exec_sig := Some (?a, p)\<rparr>"
  have ci: "conn_inv (\<lambda>_. 0) f w'" "owners f w' = owners f w"
  proof -
    have "conn_inv (\<lambda>_. 0) f w'" "owners f w' = owners f u"
      by (rule conn_inv_same [OF r(2)]; use conn_inv_rand [OF r(2)] in \<open>simp add: w'_def u_def vw\<close>)+
    then show "conn_inv (\<lambda>_. 0) f w'" "owners f w' = owners f w" using r(3) v(3) by simp_all
  qed
  have "conn_owners w' = {#} + conn_owners w" by (rule owners_add_conn [of f]) (use ci(2) in simp, simp add: w'_def u_def vw)
  then have co: "conn_owners w' = conn_owners w" by simp
  have old: "t < next_addr w" if "t \<in> exec_addrs w \<union> o_addrs oth" for t using that inv d(4) by (auto simp: exec_inv_def)
  then have new: "?a \<notin> exec_addrs w \<union> o_addrs oth" by blast
  have reg: "epoll_set w g \<noteq> Some (Peer_transport ?a)" for g
    using d(8) [of g ?a] new execs.ready_addrs [of w] d(5) by blast
  have ew: "epoll_set w' = (epoll_set w)(fd \<mapsto> Peer_transport ?a)" by (simp add: w'_def u_def vw)
  have hw: "exec_head w' = exec_head w" "exec_sig w' = Some (?a, p)" "next_addr w' = ?a + 1" by (simp_all add: w'_def u_def vw)
  have sg: "exec_sig_addr w = {}" "exec_sig_addr w' = {?a}" by (simp_all add: exec_sig_addr_def none hw)
  have ad: "exec_addrs w' = insert ?a (exec_addrs w)" "exec_ready w' = insert ?a (exec_ready w)" "exec_live w' = insert ?a (exec_live w)"
    by (auto simp: exec_addrs_def exec_ready_def exec_live_def sg hw)
  have same: "epoll_set w' g = Some (Peer_transport t) \<longleftrightarrow> epoll_set w g = Some (Peer_transport t)" if "t \<noteq> ?a" for g t
    using that e by (auto simp: ew)
  have ap: "exec_apart w'" using exec_sysD(5) [OF sys] new by (auto simp: exec_apart_def sg hw exec_addrs_def)
  have ok: "exec_ok q w'" if "q \<in> set (exec_head w)" for q
  proof -
    have "ex_log_at q \<in> exec_addrs w" using that by (simp add: exec_addrs_def)
    then have "ex_log_at q \<noteq> ?a" using new by auto
    then show ?thesis using that inv exec_ok_cong [of w' q w] same by (simp add: exec_inv_def)
  qed
  have "registered_at ?a p w'" using e reg by (auto simp: registered_at_def ew p_def)
  then have inv': "exec_inv K w'" using inv ap ok old unfolding exec_inv_def ad by (auto simp: hw intro: less_SucI)
  have own: "Some (Peer_transport ?a) \<notin># owners f w"
    using d(6) [of ?a] new execs.live_addrs [of w] d(5) by blast
  have "exec_sys K oth f w'"
  proof (rule kind_sysI)
    show "conn_inv (\<lambda>_. 0) f w'" "exec_inv K w'" by (rule ci(1) inv')+
    show "o_addrs oth \<inter> exec_addrs w' = {}" "o_live oth \<union> o_ready oth \<subseteq> o_addrs oth" using d(3,5) new by (auto simp: ad)
    show "\<And>t. t \<in> o_addrs oth \<Longrightarrow> t < next_addr w'" using d(4) by (auto simp: hw intro: less_SucI)
    show "t \<in> exec_live w' \<union> o_live oth" if "Some (Peer_transport t) \<in># owners f w'" for t
      using that d(6) unfolding ci(2) ad by blast
    show "t \<in> {} \<union> o_shut oth" if "Some (Peer_transport t) \<in># conn_owners w'" for t using that d(7) unfolding co by blast
    show "t \<in> exec_ready w' \<union> o_ready oth" if "epoll_set w' g = Some (Peer_transport t)" for g t
      using that d(8) [of g t] same [of t g] unfolding ad by blast
    show "t \<in> exec_live w' \<union> o_live oth" if "t \<in> exec_ready w' \<union> o_ready oth" for t using that d(9) unfolding ad by blast
    show "Some (Peer_transport t) \<notin># owners f w'" if "t \<in> exec_ready w' \<union> o_ready oth" for t
      using that d(10) own unfolding ad ci(2) by blast
    show "\<And>t. Peer_transport t \<notin> set (peer_always_trigger_head w')" using d(11) by (simp add: w'_def u_def vw)
  qed
  moreover have "exec_init_peer K w = Some w'"
    using v(1) r1 by (simp add: exec_init_peer_def Let_def p_def w'_def vw)
  moreover have "call_frame w w'"
    by (rule call_frame_heads) (use e in \<open>auto simp: w'_def u_def vw\<close>)
  then have "exec_frame ?a w w'"
    using same e by (simp add: exec_frame_def net_frame_def hw) (auto simp: w'_def u_def vw)
  ultimately show ?thesis by (auto simp: ad)
qed

section \<open>The descriptors of the child process\<close>

text \<open>
  The command finds the connection on its standard input and output and the log on its standard error, and neither of the
  two descriptors any more unless it is one of these three; all others are as they were. This needs the log socket to be
  none of the first two, which are overwritten before it is copied.
\<close>

definition child_fds :: "int \<Rightarrow> int \<Rightarrow> 'f \<Rightarrow> 'f \<Rightarrow> (int \<Rightarrow> 'f option) \<Rightarrow> int \<Rightarrow> 'f option" where
  "child_fds data_fd log_fd d l t fd =
     (if fd = 0 \<or> fd = 1 then Some d else if fd = 2 then Some l else if fd = data_fd \<or> fd = log_fd then None else t fd)"

lemma exec_child_spec:
  assumes "t data_fd = Some d" and "t log_fd = Some l" and "data_fd \<noteq> log_fd"
  shows "log_fd \<noteq> 0 \<and> log_fd \<noteq> 1 \<Longrightarrow> exec_child data_fd log_fd t = Some (child_fds data_fd log_fd d l t)"
    and "log_fd = 0 \<or> log_fd = 1 \<Longrightarrow> exec_child data_fd log_fd t = Some ((child_fds data_fd log_fd d d t)(log_fd := None))"
  using assms by (auto simp: exec_child_def fd_dup2_def fd_close_def child_fds_def fun_eq_iff)

end
