(* ===== verification/Adsbus.thy ===== *)
theory Adsbus
  imports Exec
begin

text \<open>
  The transports of the program together: files, outgoing connections, incoming transports and child
  processes in one state. None of them touches the structures of another, so they make up one kind of transports,
  whose handler goes by the structure at the address.
\<close>

section \<open>What a step of one kind leaves alone of the others\<close>

lemma keeps_file:
  fixes w w' :: "'a file_state_scheme"
  assumes "file_head w' = file_head w" and "next_addr w \<le> next_addr w'"
  shows "keeps file_live file_shut (\<lambda>_. {}) file_addrs (\<lambda>w. kernel_ok K \<and> file_inv w) file_tries w w'"
  using assms
  by (auto simp: keeps_def file_live_def file_shut_def file_addrs_def file_tries_def file_inv_def intro: less_le_trans)

text \<open>A file registers nothing, and only its own structure changes.\<close>

lemma file_kept_net:
  fixes w w' :: "'a exec_state_scheme"
  assumes "file_kept w w'"
  shows "outgoing_head w' = outgoing_head w" and "incoming_head w' = incoming_head w" and "exec_head w' = exec_head w"
    and "exec_sig w' = exec_sig w" and "next_addr w \<le> next_addr w'" and "net_frame a w w'" and "exec_state.more w' = exec_state.more w"
proof -
  have m: "file_state.more w' = file_state.more w" using assms by (simp add: file_kept_def)
  then have "async_threads w' = async_threads w" "async_requests w' = async_requests w"
    and h: "outgoing_head w' = outgoing_head w" "incoming_head w' = incoming_head w" "exec_head w' = exec_head w"
      "exec_sig w' = exec_sig w" "exec_state.more w' = exec_state.more w" by (cases w; cases w'; simp)+
  then show "net_frame a w w'" using assms by (simp add: net_frame_def file_kept_def)
  show "outgoing_head w' = outgoing_head w" "incoming_head w' = incoming_head w" "exec_head w' = exec_head w"
    "exec_sig w' = exec_sig w" "next_addr w \<le> next_addr w'" "exec_state.more w' = exec_state.more w"
    using h assms by (simp_all add: file_kept_def)
qed

lemma outgoing_frame_net:
  fixes w w' :: "'a exec_state_scheme"
  assumes "outgoing_frame a w w'"
  shows "file_head w' = file_head w" and "incoming_head w' = incoming_head w" and "exec_head w' = exec_head w"
    and "exec_sig w' = exec_sig w" and "next_addr w \<le> next_addr w'" and "net_frame a w w'" and "exec_state.more w' = exec_state.more w"
proof -
  have m: "outgoing_state.more w' = outgoing_state.more w" using assms by (simp add: outgoing_frame_def)
  then show "incoming_head w' = incoming_head w" "exec_head w' = exec_head w" "exec_sig w' = exec_sig w"
    "exec_state.more w' = exec_state.more w" by (cases w; cases w'; simp)+
  show "file_head w' = file_head w" "next_addr w \<le> next_addr w'" "net_frame a w w'"
    using assms by (simp_all add: outgoing_frame_def)
qed

lemma incoming_frame_net:
  fixes w w' :: "'a exec_state_scheme"
  assumes "incoming_frame a w w'"
  shows "file_head w' = file_head w" and "outgoing_head w' = outgoing_head w" and "exec_head w' = exec_head w"
    and "exec_sig w' = exec_sig w" and "next_addr w \<le> next_addr w'" and "net_frame a w w'" and "exec_state.more w' = exec_state.more w"
proof -
  have m: "incoming_state.more w' = incoming_state.more w" using assms by (simp add: incoming_frame_def)
  then show "exec_head w' = exec_head w" "exec_sig w' = exec_sig w" "exec_state.more w' = exec_state.more w"
    by (cases w; cases w'; simp)+
  show "file_head w' = file_head w" "outgoing_head w' = outgoing_head w" "next_addr w \<le> next_addr w'" "net_frame a w w'"
    using assms by (simp_all add: incoming_frame_def)
qed

lemma exec_frame_net:
  fixes w w' :: "'a exec_state_scheme"
  assumes "exec_frame a w w'"
  shows "file_head w' = file_head w" and "outgoing_head w' = outgoing_head w" and "incoming_head w' = incoming_head w"
    and "next_addr w \<le> next_addr w'" and "net_frame a w w'" and "exec_state.more w' = exec_state.more w"
  using assms by (simp_all add: exec_frame_def)

abbreviation file_kinv :: "'k file_kernel_scheme \<Rightarrow> 'a file_state_scheme \<Rightarrow> bool" where
  "file_kinv K \<equiv> (\<lambda>w. kernel_ok K \<and> file_inv w)"

abbreviation keeps_files :: "'k file_kernel_scheme \<Rightarrow> 'a file_state_scheme \<Rightarrow> 'a file_state_scheme \<Rightarrow> bool" where
  "keeps_files K \<equiv> keeps file_live file_shut (\<lambda>_. {}) file_addrs (file_kinv K) file_tries"

abbreviation keeps_outgoings :: "'k net_kernel_scheme \<Rightarrow> 'a outgoing_state_scheme \<Rightarrow> 'a outgoing_state_scheme \<Rightarrow> bool" where
  "keeps_outgoings K \<equiv> keeps outgoing_live outgoing_shut outgoing_ready outgoing_addresses (outgoing_inv K) outgoing_tries"

abbreviation keeps_incomings :: "'k net_kernel_scheme \<Rightarrow> 'a incoming_state_scheme \<Rightarrow> 'a incoming_state_scheme \<Rightarrow> bool" where
  "keeps_incomings K \<equiv> keeps incoming_live incoming_shut incoming_ready incoming_addresses (incoming_inv K) incoming_tries"

abbreviation keeps_execs :: "'k exec_kernel_scheme \<Rightarrow> 'a exec_state_scheme \<Rightarrow> 'a exec_state_scheme \<Rightarrow> bool" where
  "keeps_execs K \<equiv> keeps exec_live (\<lambda>_. {}) exec_ready exec_addrs (exec_inv K) (\<lambda>_. 0)"

lemma address_unused:
  fixes w :: "'a exec_state_scheme"
  obtains a where "a \<notin> outgoing_addresses w" and "a \<notin> incoming_addresses w" and "a \<notin> exec_addrs w"
proof -
  have "finite (exec_sig_addr w)" by (cases "exec_sig w") (simp_all add: exec_sig_addr_def)
  then have "finite (outgoing_addresses w \<union> incoming_addresses w \<union> exec_addrs w)"
    by (simp add: structs_addrs_def exec_addrs_def)
  from ex_new_if_finite [OF infinite_UNIV_nat this] show ?thesis using that by blast
qed

lemma file_keeps:
  fixes w w' :: "'a exec_state_scheme" and K :: "'k exec_kernel_scheme"
  assumes "file_kept w w'"
  shows "keeps_outgoings K w w'" and "keeps_incomings K w w'" and "keeps_execs K w w'"
proof -
  note f = file_kept_net [OF assms]
  obtain a where a: "a \<notin> outgoing_addresses w" "a \<notin> incoming_addresses w" "a \<notin> exec_addrs w" by (rule address_unused)
  show "keeps_outgoings K w w'" by (rule outgoings.kept_other [OF f(1,5,6) a(1)])
  show "keeps_incomings K w w'" by (rule incomings.kept_other [OF f(2,5,6) a(2)])
  show "keeps_execs K w w'" by (rule exec_kept_other [OF f(3,4,5,6) a(3)])
qed

lemma outgoing_keeps:
  fixes w w' :: "'a exec_state_scheme" and K :: "'k exec_kernel_scheme"
  assumes "outgoing_frame a w w'"
  shows "keeps_files K w w'" and "a \<notin> incoming_addresses w \<Longrightarrow> keeps_incomings K w w'"
    and "a \<notin> exec_addrs w \<Longrightarrow> keeps_execs K w w'"
  using keeps_file [of w' w K] incomings.kept_other [of w' w a K] exec_kept_other [of w' w a K] outgoing_frame_net [OF assms] by blast+

lemma incoming_keeps:
  fixes w w' :: "'a exec_state_scheme" and K :: "'k exec_kernel_scheme"
  assumes "incoming_frame a w w'"
  shows "keeps_files K w w'" and "a \<notin> outgoing_addresses w \<Longrightarrow> keeps_outgoings K w w'"
    and "a \<notin> exec_addrs w \<Longrightarrow> keeps_execs K w w'"
  using keeps_file [of w' w K] outgoings.kept_other [of w' w a K] exec_kept_other [of w' w a K] incoming_frame_net [OF assms] by blast+

lemma exec_keeps:
  fixes w w' :: "'a exec_state_scheme" and K :: "'k exec_kernel_scheme"
  assumes "exec_frame a w w'"
  shows "keeps_files K w w'" and "a \<notin> outgoing_addresses w \<Longrightarrow> keeps_outgoings K w w'"
    and "a \<notin> incoming_addresses w \<Longrightarrow> keeps_incomings K w w'"
  using keeps_file [of w' w K] outgoings.kept_other [of w' w a K] incomings.kept_other [of w' w a K] exec_frame_net [OF assms] by blast+

section \<open>Four kinds as one\<close>

lemma keeps_both:
  assumes "keeps l1 s1 r1 a1 k1 t1 w w'" and "keeps l2 s2 r2 a2 k2 t2 w w'"
  shows "keeps (both l1 l2) (both s1 s2) (both r1 r2) (both a1 a2) (both_inv k1 k2 a1 a2) (\<lambda>w. max (t1 w) (t2 w)) w w'"
  using assms by (simp add: keeps_def both_def both_inv_def)

interpretation two: two_kinds file_live file_shut "\<lambda>_. {}" file_addrs "file_kinv K" file_tries
  "file_event E K" file_kept outgoing_live outgoing_shut outgoing_ready outgoing_addresses "outgoing_inv K" outgoing_tries
  "outgoing_event E K" "outgoing_kept :: 'a exec_state_scheme \<Rightarrow> _"
  for E :: "'j env" and K :: "'k exec_kernel_scheme"
  by unfold_locales (auto simp: outgoing_kept_def intro: file_keeps outgoing_keeps)

interpretation three: two_kinds "both file_live outgoing_live" "both file_shut outgoing_shut" "both (\<lambda>_. {}) outgoing_ready"
  "both file_addrs outgoing_addresses" "both_inv (file_kinv K) (outgoing_inv K) file_addrs outgoing_addresses"
  "\<lambda>w. max (file_tries w) (outgoing_tries w)" "both_event file_addrs (file_event E K) (outgoing_event E K)"
  "both_kept file_kept outgoing_kept" incoming_live incoming_shut incoming_ready incoming_addresses "incoming_inv K"
  incoming_tries "incoming_event E K" "incoming_kept :: 'a exec_state_scheme \<Rightarrow> _"
  for E :: "'j env" and K :: "'k exec_kernel_scheme"
proof unfold_locales
  fix w w' :: "'a exec_state_scheme"
  show "keeps_incomings K w w'"
    if "both_kept file_kept outgoing_kept w w'" "both file_addrs outgoing_addresses w \<inter> incoming_addresses w = {}"
    using that file_keeps(2) [of w w' K] outgoing_keeps(2) [of _ w w' K]
    by (auto simp: both_kept_def outgoing_kept_def both_def)
  show "keeps (both file_live outgoing_live) (both file_shut outgoing_shut) (both (\<lambda>_. {}) outgoing_ready)
      (both file_addrs outgoing_addresses)
      (both_inv (file_kinv K) (outgoing_inv K) file_addrs outgoing_addresses)
      (\<lambda>w. max (file_tries w) (outgoing_tries w)) w w'"
    if kept: "incoming_kept w w'" and dis: "both file_addrs outgoing_addresses w \<inter> incoming_addresses w = {}"
  proof -
    from kept obtain a where a: "a \<in> incoming_addresses w" "incoming_frame a w w'" by (auto simp: incoming_kept_def)
    then have "a \<notin> outgoing_addresses w" using dis by (auto simp: both_def)
    then show ?thesis using incoming_keeps [OF a(2)] by (intro keeps_both)
  qed
qed

interpretation four: two_kinds "both (both file_live outgoing_live) incoming_live" "both (both file_shut outgoing_shut) incoming_shut"
  "both (both (\<lambda>_. {}) outgoing_ready) incoming_ready" "both (both file_addrs outgoing_addresses) incoming_addresses"
  "both_inv (both_inv (file_kinv K) (outgoing_inv K) file_addrs outgoing_addresses) (incoming_inv K)
    (both file_addrs outgoing_addresses) incoming_addresses"
  "\<lambda>w. max (max (file_tries w) (outgoing_tries w)) (incoming_tries w)"
  "both_event (both file_addrs outgoing_addresses) (both_event file_addrs (file_event E K) (outgoing_event E K)) (incoming_event E K)"
  "both_kept (both_kept file_kept outgoing_kept) incoming_kept" exec_live "\<lambda>_. {}" exec_ready exec_addrs "exec_inv K"
  "\<lambda>_. 0" "exec_event E K" "exec_kept :: 'a exec_state_scheme \<Rightarrow> _"
  for E :: "'j env" and K :: "'k exec_kernel_scheme"
proof unfold_locales
  fix w w' :: "'a exec_state_scheme"
  assume dis: "both (both file_addrs outgoing_addresses) incoming_addresses w \<inter> exec_addrs w = {}"
  show "keeps_execs K w w'" if "both_kept (both_kept file_kept outgoing_kept) incoming_kept w w'"
    using that dis file_keeps(3) [of w w' K] outgoing_keeps(3) [of _ w w' K] incoming_keeps(3) [of _ w w' K]
    by (auto simp: both_kept_def outgoing_kept_def incoming_kept_def both_def)
  show "keeps (both (both file_live outgoing_live) incoming_live) (both (both file_shut outgoing_shut) incoming_shut)
      (both (both (\<lambda>_. {}) outgoing_ready) incoming_ready) (both (both file_addrs outgoing_addresses) incoming_addresses)
      (both_inv (both_inv (file_kinv K) (outgoing_inv K) file_addrs outgoing_addresses) (incoming_inv K)
        (both file_addrs outgoing_addresses) incoming_addresses)
      (\<lambda>w. max (max (file_tries w) (outgoing_tries w)) (incoming_tries w)) w w'"
    if kept: "exec_kept w w'"
  proof -
    have "\<exists>a. a \<notin> outgoing_addresses w \<and> a \<notin> incoming_addresses w \<and> exec_frame a w w'"
      using kept dis address_unused [of w] unfolding exec_kept_def both_def by blast
    then obtain a where a: "a \<notin> outgoing_addresses w" "a \<notin> incoming_addresses w" "exec_frame a w w'" by blast
    show ?thesis by (intro keeps_both exec_keeps [OF a(3)] a(1,2))
  qed
qed

section \<open>The transports of the program\<close>

definition adsbus_live :: "'a exec_state_scheme \<Rightarrow> nat set" where
  "adsbus_live w = file_live w \<union> outgoing_live w \<union> incoming_live w \<union> exec_live w"

definition adsbus_shut :: "'a exec_state_scheme \<Rightarrow> nat set" where
  "adsbus_shut w = file_shut w \<union> outgoing_shut w \<union> incoming_shut w"

definition adsbus_ready :: "'a exec_state_scheme \<Rightarrow> nat set" where
  "adsbus_ready w = outgoing_ready w \<union> incoming_ready w \<union> exec_ready w"

definition adsbus_addrs :: "'a exec_state_scheme \<Rightarrow> nat set" where
  "adsbus_addrs w = file_addrs w \<union> outgoing_addresses w \<union> incoming_addresses w \<union> exec_addrs w"

definition adsbus_inv :: "'k exec_kernel_scheme \<Rightarrow> 'a exec_state_scheme \<Rightarrow> bool" where
  "adsbus_inv K w \<longleftrightarrow> kernel_ok K \<and> file_inv w \<and> outgoing_inv K w \<and> incoming_inv K w \<and> exec_inv K w \<and>
     file_addrs w \<inter> outgoing_addresses w = {} \<and> (file_addrs w \<union> outgoing_addresses w) \<inter> incoming_addresses w = {} \<and>
     (file_addrs w \<union> outgoing_addresses w \<union> incoming_addresses w) \<inter> exec_addrs w = {}"

definition adsbus_tries :: "'a exec_state_scheme \<Rightarrow> nat" where
  "adsbus_tries w = max (max (file_tries w) (outgoing_tries w)) (incoming_tries w)"

text \<open>\<^verbatim>\<open>event_handler\<close> of the peer of a transport.\<close>

definition transport_event ::
    "'j env \<Rightarrow> 'k exec_kernel_scheme \<Rightarrow> nat \<Rightarrow> 'a exec_state_scheme \<Rightarrow> 'a exec_state_scheme option" where
  "transport_event E K t w =
     (if t \<in> file_addrs w then file_event E K t w
      else if t \<in> outgoing_addresses w then outgoing_event E K t w
      else if t \<in> incoming_addresses w then incoming_event E K t w
      else exec_event E K t w)"

definition adsbus_kept :: "'a exec_state_scheme \<Rightarrow> 'a exec_state_scheme \<Rightarrow> bool" where
  "adsbus_kept w w' \<longleftrightarrow> file_kept w w' \<or> outgoing_kept w w' \<or> incoming_kept w w' \<or> exec_kept w w'"

lemma adsbus_both:
  shows "adsbus_live = both (both (both file_live outgoing_live) incoming_live) exec_live"
    and "adsbus_shut = both (both (both file_shut outgoing_shut) incoming_shut) (\<lambda>_. {})"
    and "adsbus_ready = both (both (both (\<lambda>_. {}) outgoing_ready) incoming_ready) exec_ready"
    and "adsbus_addrs = both (both (both file_addrs outgoing_addresses) incoming_addresses) exec_addrs"
    and "adsbus_inv K = both_inv (both_inv (both_inv (file_kinv K) (outgoing_inv K) file_addrs outgoing_addresses)
      (incoming_inv K) (both file_addrs outgoing_addresses) incoming_addresses) (exec_inv K)
      (both (both file_addrs outgoing_addresses) incoming_addresses) exec_addrs"
    and "adsbus_tries = (\<lambda>w. max (max (max (file_tries w) (outgoing_tries w)) (incoming_tries w)) 0)"
    and "adsbus_kept = both_kept (both_kept (both_kept file_kept outgoing_kept) incoming_kept) exec_kept"
  by (auto simp: fun_eq_iff both_def both_inv_def both_kept_def adsbus_live_def adsbus_shut_def adsbus_ready_def
      adsbus_addrs_def adsbus_inv_def adsbus_tries_def adsbus_kept_def)

lemma transport_both:
  "transport_event E K = both_event (both (both file_addrs outgoing_addresses) incoming_addresses)
    (both_event (both file_addrs outgoing_addresses) (both_event file_addrs (file_event E K) (outgoing_event E K)) (incoming_event E K))
    (exec_event E K)"
  by (auto simp: fun_eq_iff both_event_def both_def transport_event_def)

interpretation adsbus: kind adsbus_live adsbus_shut adsbus_ready adsbus_addrs "adsbus_inv K" adsbus_tries
  "transport_event E K" adsbus_kept
  for E :: "'j env" and K :: "'k exec_kernel_scheme"
  unfolding adsbus_both transport_both by (rule four.both_kind)

abbreviation adsbus_sys :: "'k exec_kernel_scheme \<Rightarrow> others \<Rightarrow> nat option \<Rightarrow> 'a exec_state_scheme \<Rightarrow> bool" where
  "adsbus_sys K \<equiv> kind_sys adsbus_live adsbus_shut adsbus_ready adsbus_addrs (adsbus_inv K)"

section \<open>Steps of one kind in the whole\<close>

text \<open>What one kind keeps of its own invariant, and of the structures of the others, the program keeps.\<close>

lemma adsbus_one:
  fixes w :: "'a exec_state_scheme" and K :: "'k exec_kernel_scheme"
  assumes sys: "adsbus_sys K oth f w"
  shows "\<exists>oth'. file_sys oth' f w \<and> (\<forall>w'. file_sys oth' f w' \<longrightarrow>
      keeps_outgoings K w w' \<longrightarrow> keeps_incomings K w w' \<longrightarrow> keeps_execs K w w' \<longrightarrow> adsbus_sys K oth f w')" (is ?file)
    and "\<exists>oth'. outgoing_sys K oth' f w \<and> (\<forall>w'. outgoing_sys K oth' f w' \<longrightarrow>
      keeps_files K w w' \<longrightarrow> keeps_incomings K w w' \<longrightarrow> keeps_execs K w w' \<longrightarrow> adsbus_sys K oth f w')" (is ?outgoing)
    and "\<exists>oth'. incoming_sys K oth' f w \<and> (\<forall>w'. incoming_sys K oth' f w' \<longrightarrow>
      keeps_files K w w' \<longrightarrow> keeps_outgoings K w w' \<longrightarrow> keeps_execs K w w' \<longrightarrow> adsbus_sys K oth f w')" (is ?incoming)
    and "\<exists>oth'. exec_sys K oth' f w \<and> (\<forall>w'. exec_sys K oth' f w' \<longrightarrow>
      keeps_files K w w' \<longrightarrow> keeps_outgoings K w w' \<longrightarrow> keeps_incomings K w w' \<longrightarrow> adsbus_sys K oth f w')" (is ?exec)
proof -
  note s4 = sys [unfolded adsbus_both]
  note s3 = conjunct1 [OF s4 [unfolded four.sys_one]] and x = conjunct1 [OF s4 [unfolded four.sys_two]]
  note s2 = conjunct1 [OF s3 [unfolded three.sys_one]] and ic = conjunct1 [OF s3 [unfolded three.sys_two]]
  note fl = conjunct1 [OF s2 [unfolded two.sys_one]] and ou = conjunct1 [OF s2 [unfolded two.sys_two]]
  have K: "kernel_ok K" using kind_sysD(2) [OF sys] by (simp add: adsbus_inv_def)
  note fa = iffD2 [OF file_sys_alone, OF conjI [OF K]]
  show ?file
    by (intro exI conjI allI impI, rule conjunct2 [OF iffD1 [OF file_sys_alone fl]], unfold adsbus_both,
        intro four.one_step [OF s4] three.one_step [OF s3] two.one_step [OF s2] keeps_both fa; assumption)
  show ?outgoing
    by (intro exI conjI allI impI, rule ou, unfold adsbus_both,
        intro four.one_step [OF s4] three.one_step [OF s3] two.two_step [OF s2] keeps_both; assumption)
  show ?incoming
    by (intro exI conjI allI impI, rule ic, unfold adsbus_both,
        intro four.one_step [OF s4] three.two_step [OF s3] keeps_both; assumption)
  show ?exec
    by (intro exI conjI allI impI, rule x, unfold adsbus_both, intro four.two_step [OF s4] keeps_both; assumption)
qed

section \<open>New transports\<close>

lemma adsbus_new_addr:
  assumes "adsbus_sys K oth f w" and "next_addr w \<le> a"
  shows "a \<notin> outgoing_addresses w" and "a \<notin> incoming_addresses w" and "a \<notin> exec_addrs w"
proof -
  have "t < next_addr w" if "t \<in> adsbus_addrs w" for t
    using adsbus.addrs_old [OF kind_sysD(2) [OF assms(1)] that] .
  then have "a \<notin> adsbus_addrs w" using assms(2) not_less by blast
  then show "a \<notin> outgoing_addresses w" "a \<notin> incoming_addresses w" "a \<notin> exec_addrs w" by (simp_all add: adsbus_addrs_def)
qed

text \<open>What creating a transport leaves alone; the registrations that change lead to a new address.\<close>

definition adsbus_made :: "'a exec_state_scheme \<Rightarrow> 'a exec_state_scheme \<Rightarrow> bool" where
  "adsbus_made w w' \<longleftrightarrow> call_frame w w' \<and> exec_state.more w' = exec_state.more w \<and> next_addr w \<le> next_addr w' \<and>
     (\<exists>a \<ge> next_addr w. net_frame a w w')"

text \<open>Every transport can be created in every state of the program.\<close>

lemma adsbus_new:
  fixes w :: "'a exec_state_scheme" and K :: "'k exec_kernel_scheme"
  assumes sys: "adsbus_sys K oth f w" and pass: "flow_pass_ok flow pass"
  shows "\<exists>w'. file_new E K path flags flow pass w = Some w' \<and> adsbus_sys K oth f w' \<and> adsbus_made w w' \<and> exec_sig w' = exec_sig w"
    and "\<exists>w'. outgoing_new E K node service flow pass w = Some w' \<and> adsbus_sys K oth f w' \<and> adsbus_made w w' \<and> exec_sig w' = exec_sig w"
    and "\<exists>w'. incoming_new E K node' service flow pass w = Some w' \<and> adsbus_sys K oth f w' \<and> adsbus_made w w' \<and> exec_sig w' = exec_sig w"
    and "\<exists>w'. exec_new E K command flow pass w = Some w' \<and> adsbus_sys K oth f w' \<and> adsbus_made w w' \<and> exec_sig w' = exec_sig w"
proof -
  note n = adsbus_new_addr [OF sys]
  have K: "kernel_ok K" using kind_sysD(2) [OF sys] by (simp add: adsbus_inv_def)
  from adsbus_one(1) [OF sys] obtain o1 where o1: "file_sys o1 f w" "\<And>w'. file_sys o1 f w' \<Longrightarrow>
      keeps_outgoings K w w' \<Longrightarrow> keeps_incomings K w w' \<Longrightarrow> keeps_execs K w w' \<Longrightarrow> adsbus_sys K oth f w'" by blast
  from file_new_spec [OF K o1(1) pass, of E path flags] obtain w1 where
    w1: "file_new E K path flags flow pass w = Some w1" "file_sys o1 f w1" "file_kept w w1" by blast
  show "\<exists>w'. file_new E K path flags flow pass w = Some w' \<and> adsbus_sys K oth f w' \<and> adsbus_made w w' \<and> exec_sig w' = exec_sig w"
    using w1(1,3) o1(2) [OF w1(2) file_keeps [OF w1(3)]] file_kept_net(4-7) [OF w1(3)] by (auto simp: file_kept_def adsbus_made_def)
  from adsbus_one(2) [OF sys] obtain o2 where o2: "outgoing_sys K o2 f w" "\<And>w'. outgoing_sys K o2 f w' \<Longrightarrow>
      keeps_files K w w' \<Longrightarrow> keeps_incomings K w w' \<Longrightarrow> keeps_execs K w w' \<Longrightarrow> adsbus_sys K oth f w'" by blast
  from outgoing_new_spec [OF o2(1) pass, of E node service] obtain w2 where
    w2: "outgoing_new E K node service flow pass w = Some w2" "outgoing_sys K o2 f w2" "outgoing_frame (next_addr w) w w2" by blast
  show "\<exists>w'. outgoing_new E K node service flow pass w = Some w' \<and> adsbus_sys K oth f w' \<and> adsbus_made w w' \<and> exec_sig w' = exec_sig w"
    using w2(1,3) o2(2) [OF w2(2) outgoing_keeps(1) [OF w2(3)] outgoing_keeps(2) [OF w2(3) n(2) [OF order_refl]]
        outgoing_keeps(3) [OF w2(3) n(3) [OF order_refl]]]
      outgoing_frame_net(4-7) [OF w2(3)] by (auto simp: outgoing_frame_def adsbus_made_def)
  from adsbus_one(3) [OF sys] obtain o3 where o3: "incoming_sys K o3 f w" "\<And>w'. incoming_sys K o3 f w' \<Longrightarrow>
      keeps_files K w w' \<Longrightarrow> keeps_outgoings K w w' \<Longrightarrow> keeps_execs K w w' \<Longrightarrow> adsbus_sys K oth f w'" by blast
  from incoming_new_spec [OF o3(1) pass, of E node' service] obtain w3 where
    w3: "incoming_new E K node' service flow pass w = Some w3" "incoming_sys K o3 f w3" "incoming_frame (next_addr w) w w3" by blast
  show "\<exists>w'. incoming_new E K node' service flow pass w = Some w' \<and> adsbus_sys K oth f w' \<and> adsbus_made w w' \<and> exec_sig w' = exec_sig w"
    using w3(1,3) o3(2) [OF w3(2) incoming_keeps(1) [OF w3(3)] incoming_keeps(2) [OF w3(3) n(1) [OF order_refl]]
        incoming_keeps(3) [OF w3(3) n(3) [OF order_refl]]]
      incoming_frame_net(4-7) [OF w3(3)] by (auto simp: incoming_frame_def adsbus_made_def)
  from adsbus_one(4) [OF sys] obtain o4 where o4: "exec_sys K o4 f w" "\<And>w'. exec_sys K o4 f w' \<Longrightarrow>
      keeps_files K w w' \<Longrightarrow> keeps_outgoings K w w' \<Longrightarrow> keeps_incomings K w w' \<Longrightarrow> adsbus_sys K oth f w'" by blast
  have "next_addr w \<le> next_addr w + 1" by simp
  note n1 = n(1,2) [OF this]
  from exec_new_spec [OF o4(1) pass, of E command] obtain w4 where
    w4: "exec_new E K command flow pass w = Some w4" "exec_sys K o4 f w4" "exec_frame (next_addr w + 1) w w4" "exec_sig w4 = exec_sig w"
    by blast
  show "\<exists>w'. exec_new E K command flow pass w = Some w' \<and> adsbus_sys K oth f w' \<and> adsbus_made w w' \<and> exec_sig w' = exec_sig w"
    using w4(1,3,4) o4(2) [OF w4(2) exec_keeps(1) [OF w4(3)] exec_keeps(2) [OF w4(3) n1(1)] exec_keeps(3) [OF w4(3) n1(2)]] exec_frame_net(4-6) [OF w4(3)]
    unfolding adsbus_made_def by (auto simp: exec_frame_def intro!: exI [of _ "Suc (next_addr w)"])
qed

lemma adsbus_exec_init:
  fixes w :: "'a exec_state_scheme" and K :: "'k exec_kernel_scheme"
  assumes sys: "adsbus_sys K oth f w" and none: "exec_sig w = None"
  shows "\<exists>w'. exec_init_peer K w = Some w' \<and> adsbus_sys K oth f w' \<and> adsbus_made w w'"
proof -
  from adsbus_one(4) [OF sys] obtain o4 where o4: "exec_sys K o4 f w" "\<And>w'. exec_sys K o4 f w' \<Longrightarrow>
      keeps_files K w w' \<Longrightarrow> keeps_outgoings K w w' \<Longrightarrow> keeps_incomings K w w' \<Longrightarrow> adsbus_sys K oth f w'" by blast
  from exec_init_peer_spec [OF o4(1) none] obtain w' where
    w': "exec_init_peer K w = Some w'" "exec_sys K o4 f w'" "exec_frame (next_addr w) w w'" by blast
  show ?thesis
    using w'(1,3) o4(2) [OF w'(2) exec_keeps(1) [OF w'(3)] exec_keeps(2) [OF w'(3) adsbus_new_addr(1) [OF sys order_refl]]
        exec_keeps(3) [OF w'(3) adsbus_new_addr(2) [OF sys order_refl]]]
      exec_frame_net(4-6) [OF w'(3)]
    by (auto simp: exec_frame_def adsbus_made_def)
qed

end
