(* ===== verification/Log.thy ===== *)
theory Log
  imports Adsbus
begin

text \<open>
  Model of \<^verbatim>\<open>adsbus/log.c\<close>: the log, its options, and its rotation when \<^verbatim>\<open>SIGHUP\<close> arrives. The lines that the functions
  of this file write are modelled in full; those of the other components are left out. The peer of the signal is a
  transport of its own, so this theory also completes the invariant of the program.
\<close>

section \<open>State\<close>

text \<open>
  \<open>k_datetime\<close> is the current time as \<^verbatim>\<open>strftime\<close> prints it with \<^verbatim>\<open>"%FT%TZ "\<close>, \<open>k_fprintf\<close> the result of printing
  some characters to the log, \<open>k_read_hup\<close> the number of bytes read from the descriptor of the signal, \<open>k_std_info\<close> what is
  behind one of the standard descriptors.
\<close>

record log_kernel = exec_kernel +
  k_datetime :: "nat \<Rightarrow> u8 list"
  k_fprintf :: "nat \<Rightarrow> u8 list \<Rightarrow> int"
  k_read_hup :: "nat \<Rightarrow> int \<Rightarrow> int"
  k_std_info :: "int \<Rightarrow> fd_info"

text \<open>
  \<open>std_files\<close> are the standard descriptors, which are not in the table of the others, with the path of what is open;
  \<open>log_lines\<close> is what has been written to the log. \<open>log_rotate_peer\<close> is the address of the static peer and
  the peer; \<open>None\<close> while its descriptor is -1.
\<close>

record log_state = exec_state +
  std_files :: "int \<Rightarrow> string option"
  log_path :: "string option"
  log_id :: "u8 list"
  log_rotate_peer :: "(nat \<times> peer) option"
  log_timestamps :: bool
  log_quiet :: bool
  log_lines :: "u8 list list"

definition STDIN_FILENO :: int where "STDIN_FILENO = 0"
definition STDOUT_FILENO :: int where "STDOUT_FILENO = 1"
definition STDERR_FILENO :: int where "STDERR_FILENO = 2"
definition O_APPEND :: u32 where "O_APPEND = 0x400"

text \<open>
  \<^verbatim>\<open>open\<close> returns the lowest descriptor that is not open, so a standard one if one is closed. Both callers
  rely on success.
\<close>

definition sys_open :: "'k log_kernel_scheme \<Rightarrow> string \<Rightarrow> u32 \<Rightarrow> 'a log_state_scheme \<Rightarrow> (int \<times> 'a log_state_scheme) option" where
  "sys_open K path flags w = do {
     info \<leftarrow> k_open K (tick w) path flags;
     let w = w\<lparr>tick := tick w + 1\<rparr>;
     case find (\<lambda>fd. std_files w fd = None) [STDIN_FILENO, STDOUT_FILENO, STDERR_FILENO] of
       Some fd \<Rightarrow> Some (fd, w\<lparr>std_files := (std_files w)(fd \<mapsto> path)\<rparr>)
     | None \<Rightarrow> Some (new_fd K w, w\<lparr>fds := (fds w)(new_fd K w \<mapsto> info)\<rparr>)
   }"

definition sys_close :: "int \<Rightarrow> 'a log_state_scheme \<Rightarrow> 'a log_state_scheme option" where
  "sys_close fd w =
     (if fd \<le> STDERR_FILENO then do {
        path \<leftarrow> std_files w fd;
        Some (w\<lparr>std_files := (std_files w)(fd := None)\<rparr>)
      }
      else close_fd fd w)"

section \<open>Writing\<close>

text \<open>\<^verbatim>\<open>"%s[%18s] %c %s: "\<close>, the message and the end of the line; \<^verbatim>\<open>LOG\<close> gives the location.\<close>

definition pad_left :: "nat \<Rightarrow> u8 list \<Rightarrow> u8 list" where
  "pad_left n s = replicate (n - length s) (of_char (CHR '' '')) @ s"

definition log_write ::
    "'k log_kernel_scheme \<Rightarrow> char \<Rightarrow> string \<Rightarrow> u8 list \<Rightarrow> u8 list \<Rightarrow> 'a log_state_scheme \<Rightarrow> 'a log_state_scheme option" where
  "log_write K ty loc uid msg w =
     (if log_quiet w then Some w
      else do {
        let datetime = (if log_timestamps w then k_datetime K (tick w) else []);
        let w = w\<lparr>tick := tick w + 1\<rparr>;
        c_assert (log_timestamps w \<longrightarrow> datetime \<noteq> []);
        s \<leftarrow> c_content uid;
        let start = datetime @ c_str ''['' @ pad_left 18 (c_str loc) @ c_str ''] '' @ [of_char ty] @ c_str '' '' @ s @ c_str '': '';
        c_assert (0 < k_fprintf K (tick w) start);
        c_assert (0 < k_fprintf K (tick w + 1) msg);
        c_assert (k_fprintf K (tick w + 2) [10] = 1);
        Some (w\<lparr>tick := tick w + 3, log_lines := log_lines w @ [start @ msg]\<rparr>)
      })"

section \<open>Opening and rotating\<close>

definition log_open :: "'k log_kernel_scheme \<Rightarrow> 'a log_state_scheme \<Rightarrow> 'a log_state_scheme option" where
  "log_open K w = (case log_path w of
     None \<Rightarrow> Some w
   | Some path \<Rightarrow> do {
       (fd, w) \<leftarrow> sys_open K path (O_WRONLY OR O_CREAT OR O_APPEND OR O_NOCTTY OR O_CLOEXEC) w;
       c_assert (0 \<le> fd);
       if fd \<noteq> STDERR_FILENO then sys_close fd (w\<lparr>std_files := (std_files w)(STDERR_FILENO \<mapsto> path)\<rparr>)
       else Some w
     })"

definition log_rotate :: "'j env \<Rightarrow> 'k log_kernel_scheme \<Rightarrow> 'a log_state_scheme \<Rightarrow> 'a log_state_scheme option" where
  "log_rotate E K w = do {
     path \<leftarrow> log_path w;
     (new_log_id, rs) \<leftarrow> uuid_gen (env_entropy E) (rnd w) (replicate UUID_LEN 0);
     s \<leftarrow> c_content new_log_id;
     w \<leftarrow> log_write K (CHR ''L'') ''log.c:49'' (log_id w)
       (c_str ''Switching to new log with ID '' @ s @ c_str '' at: '' @ c_str path) (w\<lparr>rnd := rs\<rparr>);
     let old_log_id = log_id w;
     w \<leftarrow> log_open K (w\<lparr>log_id := new_log_id\<rparr>);
     s \<leftarrow> c_content old_log_id;
     log_write K (CHR ''L'') ''log.c:53'' (log_id w) (c_str ''Log start after switch from log ID '' @ s) w
   }"

text \<open>The descriptor is only told of \<^verbatim>\<open>SIGHUP\<close>, the signal 1.\<close>

definition log_rotate_handler :: "'j env \<Rightarrow> 'k log_kernel_scheme \<Rightarrow> peer \<Rightarrow> 'a log_state_scheme \<Rightarrow> 'a log_state_scheme option" where
  "log_rotate_handler E K p w = do {
     c_assert (k_read_hup K (tick w) (peer_fd p) = SIGNALFD_SIGINFO_SIZE);
     w \<leftarrow> log_write K (CHR ''L'') ''log.c:59'' (log_id w) (c_str ''Received signal 1; rotating logs'') (w\<lparr>tick := tick w + 1\<rparr>);
     log_rotate E K w
   }"

definition log_event :: "'j env \<Rightarrow> 'k log_kernel_scheme \<Rightarrow> nat \<Rightarrow> 'a log_state_scheme \<Rightarrow> 'a log_state_scheme option" where
  "log_event E K t w = do {
     (a, p) \<leftarrow> log_rotate_peer w;
     log_rotate_handler E K p w
   }"

section \<open>Options and initialisation\<close>

definition log_set_path :: "('a log_state_scheme) opts_handler" where
  "log_set_path arg w =
     (if log_path w \<noteq> None then Some (False, w)
      else do {
        path \<leftarrow> arg;
        Some (True, w\<lparr>log_path := Some path\<rparr>)
      })"

definition log_enable_timestamps :: "('a log_state_scheme) opts_handler" where
  "log_enable_timestamps arg w = Some (True, w\<lparr>log_timestamps := True\<rparr>)"

definition log_set_quiet :: "('a log_state_scheme) opts_handler" where
  "log_set_quiet arg w = Some (True, w\<lparr>log_quiet := True\<rparr>)"

definition log_opts_add :: "nat \<Rightarrow> ('a log_state_scheme) opts_state \<Rightarrow> ('a log_state_scheme) opts_state option" where
  "log_opts_add log_opts st = do {
     st \<leftarrow> opts_add ''log-file'' (Some ''PATH'') (returning log_set_path) log_opts st;
     st \<leftarrow> opts_add ''log-timestamps'' None (returning log_enable_timestamps) log_opts st;
     opts_add ''quiet'' None (returning log_set_quiet) log_opts st
   }"

text \<open>What \<^verbatim>\<open>log_init\<close> does after the options; \<^verbatim>\<open>fdopen\<close> fails if the standard error is closed.\<close>

definition log_start :: "'j env \<Rightarrow> 'k log_kernel_scheme \<Rightarrow> 'a log_state_scheme \<Rightarrow> 'a log_state_scheme option" where
  "log_start E K w = do {
     w \<leftarrow> log_open K w;
     c_assert (std_files w STDERR_FILENO \<noteq> None);
     (uid, rs) \<leftarrow> uuid_gen (env_entropy E) (rnd w) (replicate UUID_LEN 0);
     log_write K (CHR ''L'') ''log.c:96'' uid (c_str ''Log start'') (w\<lparr>rnd := rs, log_id := uid\<rparr>)
   }"

definition log_init_peer :: "'k log_kernel_scheme \<Rightarrow> 'a log_state_scheme \<Rightarrow> 'a log_state_scheme option" where
  "log_init_peer K w =
     (if log_path w \<noteq> None then do {
        (fd, w) \<leftarrow> open_socket K w;
        let a = next_addr w;
        (p, w) \<leftarrow> peer_epoll_add (Peer_transport a) \<lparr>peer_fd = fd, peer_always_trigger = False\<rparr> True w;
        Some (w\<lparr>next_addr := a + 1, log_rotate_peer := Some (a, p)\<rparr>)
      }
      else Some (w\<lparr>log_rotate_peer := None\<rparr>))"

definition log_cleanup_peer :: "'a log_state_scheme \<Rightarrow> 'a log_state_scheme option" where
  "log_cleanup_peer w = (case log_rotate_peer w of
     None \<Rightarrow> Some w
   | Some (a, p) \<Rightarrow> do {
       (p, w) \<leftarrow> peer_close (Peer_transport a) p w;
       Some (w\<lparr>log_rotate_peer := None\<rparr>)
     })"

text \<open>\<^verbatim>\<open>fclose\<close> closes the standard error.\<close>

definition log_cleanup :: "'k log_kernel_scheme \<Rightarrow> 'a log_state_scheme \<Rightarrow> 'a log_state_scheme option" where
  "log_cleanup K w = do {
     w \<leftarrow> log_write K (CHR ''L'') ''log.c:120'' (log_id w) (c_str ''Log end'') w;
     w \<leftarrow> sys_close STDERR_FILENO w;
     Some (w\<lparr>log_path := None\<rparr>)
   }"

section \<open>Invariant\<close>

text \<open>
  The log can be written, and the log file opened, whenever it is asked for; the standard descriptors are given out to nobody.
\<close>

definition log_kernel_ok :: "'k log_kernel_scheme \<Rightarrow> bool" where
  "log_kernel_ok K \<longleftrightarrow> kernel_ok K \<and> (\<forall>t. finite (dom t) \<longrightarrow> STDERR_FILENO < k_new_fd K t) \<and>
     (\<forall>n. k_datetime K n \<noteq> []) \<and> (\<forall>n s. k_fprintf K n s = int (length s)) \<and> (\<forall>n fd. k_read_hup K n fd = SIGNALFD_SIGINFO_SIZE)"

definition path_opens :: "'k log_kernel_scheme \<Rightarrow> string \<Rightarrow> bool" where
  "path_opens K path \<longleftrightarrow> (\<forall>n flags. k_open K n path flags \<noteq> None)"

definition log_ready :: "'a log_state_scheme \<Rightarrow> nat set" where
  "log_ready w = fst ` set_option (log_rotate_peer w)"

definition std_open :: "'a log_state_scheme \<Rightarrow> bool" where
  "std_open w \<longleftrightarrow> (\<forall>fd \<in> {STDIN_FILENO, STDOUT_FILENO, STDERR_FILENO}. std_files w fd \<noteq> None)"

definition log_inv :: "'k log_kernel_scheme \<Rightarrow> 'a log_state_scheme \<Rightarrow> bool" where
  "log_inv K w \<longleftrightarrow> log_kernel_ok K \<and> std_open w \<and> is_c_str (log_id w) \<and> (\<forall>path. log_path w = Some path \<longrightarrow> path_opens K path) \<and>
     (\<forall>a p. log_rotate_peer w = Some (a, p) \<longrightarrow> a < next_addr w \<and> log_path w \<noteq> None \<and> registered_at a p w)"

text \<open>What the handler of the signal leaves alone: everything but the log.\<close>

definition log_kept :: "'a log_state_scheme \<Rightarrow> 'a log_state_scheme \<Rightarrow> bool" where
  "log_kept w w' \<longleftrightarrow> file_head w' = file_head w \<and> outgoing_head w' = outgoing_head w \<and> incoming_head w' = incoming_head w \<and>
     exec_head w' = exec_head w \<and> exec_sig w' = exec_sig w \<and> next_addr w' = next_addr w \<and> (\<forall>a. net_frame a w w') \<and>
     call_frame w w'"

section \<open>The operations of the log\<close>

text \<open>The fields the log writes.\<close>

definition log_step :: "'a log_state_scheme \<Rightarrow> 'a log_state_scheme \<Rightarrow> bool" where
  "log_step w w' \<longleftrightarrow> (\<exists>n rs sf uid ls. w' = w\<lparr>tick := n, rnd := rs, std_files := sf, log_id := uid, log_lines := ls\<rparr>) \<and>
     (rand_ok (rnd w) \<longrightarrow> rand_ok (rnd w')) \<and> (std_open w \<longrightarrow> std_open w') \<and> (is_c_str (log_id w) \<longrightarrow> is_c_str (log_id w'))"

lemma log_step_refl [simp]: "log_step w w"
  by (auto simp: log_step_def intro!: exI [of _ "tick w"] exI [of _ "rnd w"] exI [of _ "std_files w"] exI [of _ "log_id w"]
      exI [of _ "log_lines w"])

lemma log_stepI:
  assumes "w' = w\<lparr>tick := n, rnd := rs, std_files := sf, log_id := uid, log_lines := ls\<rparr>"
    and "rand_ok (rnd w) \<Longrightarrow> rand_ok rs" and "std_open w \<Longrightarrow> std_open w'" and "is_c_str (log_id w) \<Longrightarrow> is_c_str uid"
  shows "log_step w w'"
  using assms(2-4) unfolding log_step_def
  by (intro conjI exI [of _ n] exI [of _ rs] exI [of _ sf] exI [of _ uid] exI [of _ ls]) (simp_all add: assms(1))

text \<open>The changes such a step is made of.\<close>

lemma log_steps:
  shows "log_step w (w\<lparr>tick := n\<rparr>)" and "log_step w (w\<lparr>tick := n, log_lines := ls\<rparr>)"
    and "rand_ok rs \<Longrightarrow> log_step w (w\<lparr>rnd := rs\<rparr>)" and "is_c_str uid \<Longrightarrow> log_step w (w\<lparr>log_id := uid\<rparr>)"
    and "rand_ok rs \<Longrightarrow> is_c_str uid \<Longrightarrow> log_step w (w\<lparr>rnd := rs, log_id := uid\<rparr>)"
    and "std_open (w\<lparr>tick := n, std_files := sf\<rparr>) \<Longrightarrow> log_step w (w\<lparr>tick := n, std_files := sf\<rparr>)"
proof -
  show "log_step w (w\<lparr>tick := n\<rparr>)"
    by (rule log_stepI [where n = n and rs = "rnd w" and sf = "std_files w" and uid = "log_id w" and ls = "log_lines w"]) (simp_all add: std_open_def)
  show "log_step w (w\<lparr>tick := n, log_lines := ls\<rparr>)"
    by (rule log_stepI [where n = n and rs = "rnd w" and sf = "std_files w" and uid = "log_id w" and ls = ls]) (simp_all add: std_open_def)
  show "rand_ok rs \<Longrightarrow> log_step w (w\<lparr>rnd := rs\<rparr>)"
    by (rule log_stepI [where n = "tick w" and rs = rs and sf = "std_files w" and uid = "log_id w" and ls = "log_lines w"]) (simp_all add: std_open_def)
  show "is_c_str uid \<Longrightarrow> log_step w (w\<lparr>log_id := uid\<rparr>)"
    by (rule log_stepI [where n = "tick w" and rs = "rnd w" and sf = "std_files w" and uid = uid and ls = "log_lines w"]) (simp_all add: std_open_def)
  show "rand_ok rs \<Longrightarrow> is_c_str uid \<Longrightarrow> log_step w (w\<lparr>rnd := rs, log_id := uid\<rparr>)"
    by (rule log_stepI [where n = "tick w" and rs = rs and sf = "std_files w" and uid = uid and ls = "log_lines w"]) (simp_all add: std_open_def)
  show "std_open (w\<lparr>tick := n, std_files := sf\<rparr>) \<Longrightarrow> log_step w (w\<lparr>tick := n, std_files := sf\<rparr>)"
    by (rule log_stepI [where n = n and rs = "rnd w" and sf = sf and uid = "log_id w" and ls = "log_lines w"]) simp_all
qed

lemma log_step_fields:
  assumes "log_step w w'"
  shows "fds w' = fds w" "epoll_set w' = epoll_set w" "log_path w' = log_path w" "log_rotate_peer w' = log_rotate_peer w"
    "log_quiet w' = log_quiet w" "log_timestamps w' = log_timestamps w" "next_addr w' = next_addr w" "new_fd K w' = new_fd K w"
    "rand_ok (rnd w) \<Longrightarrow> rand_ok (rnd w')" "std_open w \<Longrightarrow> std_open w'" "is_c_str (log_id w) \<Longrightarrow> is_c_str (log_id w')"
  using assms by (auto simp: log_step_def new_fd_def)

lemma log_step_trans:
  assumes "log_step u v" and "log_step v w"
  shows "log_step u w"
proof -
  obtain n rs sf uid ls where v: "v = u\<lparr>tick := n, rnd := rs, std_files := sf, log_id := uid, log_lines := ls\<rparr>"
    using assms(1) by (auto simp: log_step_def)
  obtain n' rs' sf' uid' ls' where "w = v\<lparr>tick := n', rnd := rs', std_files := sf', log_id := uid', log_lines := ls'\<rparr>"
    using assms(2) by (auto simp: log_step_def)
  then have "w = u\<lparr>tick := n', rnd := rs', std_files := sf', log_id := uid', log_lines := ls'\<rparr>" by (simp add: v)
  then show ?thesis using assms unfolding log_step_def by blast
qed

lemma log_step_conn:
  assumes st: "log_step w w'" and inv: "conn_inv pend f w"
  shows "conn_inv pend f w'" and "owners f w' = owners f w" and "log_kept w w'" and "wakeup_head w' = wakeup_head w"
    and "peer_always_trigger_head w' = peer_always_trigger_head w"
proof -
  obtain n rs sf uid ls where w': "w' = w\<lparr>tick := n, rnd := rs, std_files := sf, log_id := uid, log_lines := ls\<rparr>"
    using st by (auto simp: log_step_def)
  have r: "rand_ok (rnd w')" by (rule log_step_fields(9) [OF st conn_inv_rand [OF inv]])
  show "conn_inv pend f w'" "owners f w' = owners f w" by (rule conn_inv_same [OF inv]; use r in \<open>simp add: w'\<close>)+
  have "call_frame w w'" by (rule call_frame_heads) (simp_all add: w')
  then show "log_kept w w'" by (simp add: log_kept_def net_frame_def) (simp add: w')
  show "wakeup_head w' = wakeup_head w" "peer_always_trigger_head w' = peer_always_trigger_head w" by (simp_all add: w')
qed

text \<open>Writing a line returns unless there is none to write, or the log cannot be written.\<close>

lemma log_write_spec:
  assumes "log_kernel_ok K" and "is_c_str uid" and "msg \<noteq> []"
  shows "\<exists>w'. log_write K ty loc uid msg w = Some w' \<and> log_step w w' \<and> log_id w' = log_id w \<and>
    std_files w' = std_files w \<and> length (log_lines w') = length (log_lines w) + (if log_quiet w then 0 else 1)"
proof -
  obtain s where s: "c_content uid = Some s" using c_content_total [OF assms(2)] by blast
  show ?thesis using assms s log_steps(2) by (auto simp: log_write_def log_kernel_ok_def Let_def)
qed

text \<open>A log that cannot be written, for example because the disk is full, stops the program.\<close>

lemma log_write_full:
  assumes "\<not> log_quiet w" and "\<And>n s. k_fprintf K n s \<le> 0"
  shows "log_write K ty loc uid msg w = None"
  using assms(1) assms(2) [THEN leD] by (cases "c_content uid") (simp_all add: log_write_def Let_def c_assert_def)

text \<open>Opening the log again replaces the standard error; the new descriptor is closed.\<close>

definition fds_tidy :: "'k kernel_scheme \<Rightarrow> 'a peer_state_scheme \<Rightarrow> bool" where
  "fds_tidy K w \<longleftrightarrow> finite (dom (fds w)) \<and> fds w (new_fd K w) = None \<and> epoll_set w (new_fd K w) = None"

lemma new_fd_tidy:
  fixes w :: "'a sr_state_scheme" and K :: "'k net_kernel_scheme"
  assumes "kernel_ok K" and "conn_inv pend f w"
  shows "fds_tidy K w"
proof -
  have "finite (dom (fds w))" using assms(2) by (simp add: conn_inv_def)
  then show ?thesis using new_fd_fresh [OF assms(1)] socket_opened(5) [OF assms] by (simp add: fds_tidy_def)
qed

lemma log_open_spec:
  assumes K: "log_kernel_ok K" and inv: "fds_tidy K w" and std: "std_open w"
    and path: "\<And>path. log_path w = Some path \<Longrightarrow> path_opens K path"
  shows "\<exists>w'. log_open K w = Some w' \<and> log_step w w' \<and> log_id w' = log_id w \<and> log_lines w' = log_lines w \<and>
    (\<forall>path. log_path w = Some path \<longrightarrow> std_files w' = (std_files w)(STDERR_FILENO \<mapsto> path))"
proof (cases "log_path w")
  case None
  then show ?thesis by (simp add: log_open_def)
next
  case (Some path)
  then obtain info where i: "k_open K (tick w) path (O_WRONLY OR O_CREAT OR O_APPEND OR O_NOCTTY OR O_CLOEXEC) = Some info"
    using path by (fastforce simp: path_opens_def)
  have fin: "finite (dom (fds w))" and fr: "fds w (new_fd K w) = None" "epoll_set w (new_fd K w) = None"
    using inv by (simp_all add: fds_tidy_def)
  have fd: "STDERR_FILENO < new_fd K w" using K fin by (simp add: log_kernel_ok_def new_fd_def)
  let ?fd = "new_fd K w"
  define w' where "w' = w\<lparr>tick := tick w + 1, std_files := (std_files w)(STDERR_FILENO \<mapsto> path)\<rparr>"
  define v where "v = w'\<lparr>fds := (fds w)(?fd \<mapsto> info)\<rparr>"
  have so: "sys_open K path (O_WRONLY OR O_CREAT OR O_APPEND OR O_NOCTTY OR O_CLOEXEC) w =
      Some (?fd, w\<lparr>tick := tick w + 1, fds := (fds w)(?fd \<mapsto> info)\<rparr>)"
    unfolding sys_open_def i using std by (auto simp: new_fd_def std_open_def Let_def)
  have vw: "v = w\<lparr>tick := tick w + 1, fds := (fds w)(?fd \<mapsto> info), std_files := (std_files w)(STDERR_FILENO \<mapsto> path)\<rparr>"
    by (simp add: v_def w'_def)
  have "fds v = (fds w)(?fd \<mapsto> info)" "epoll_set v = epoll_set w" by (simp_all add: vw)
  then have cl: "close_fd ?fd v = Some (v\<lparr>fds := (fds w)(?fd := None), epoll_set := (epoll_set w)(?fd := None)\<rparr>)"
    by (simp add: close_fd_def)
  have "(fds w)(?fd := None) = fds w" "(epoll_set w)(?fd := None) = epoll_set w" using fr by (simp_all add: fun_upd_idem)
  then have "close_fd ?fd v = Some w'" unfolding cl by (simp add: v_def) (simp add: w'_def)
  then have "sys_close ?fd v = Some w'" using fd by (simp add: sys_close_def)
  then have "log_open K w = Some w'"
    using Some so fd by (simp add: log_open_def vw STDERR_FILENO_def)
  moreover have "log_step w w'"
    unfolding w'_def by (rule log_steps(6)) (use std in \<open>auto simp: std_open_def\<close>)
  ultimately show ?thesis using Some by (simp add: w'_def)
qed

lemma log_new_id:
  assumes "rand_ok (rnd w)" and "std_open w"
  shows "\<exists>uid rs. uuid_gen (env_entropy E) (rnd w) (replicate UUID_LEN 0) = Some (uid, rs) \<and> rand_ok rs \<and> is_c_str uid"
  using uuid_gen_valid [OF assms(1), of "replicate UUID_LEN 0" "env_entropy E"] valid_id_c_str by (auto simp: UUID_LEN_def)

lemma c_str_eq_Nil [simp]: "c_str s = [] \<longleftrightarrow> s = ''''"
  by (simp add: c_str_def)

lemma log_rotate_spec:
  assumes K: "log_kernel_ok K" and inv: "conn_inv pend f w" and std: "std_open w" and uid: "is_c_str (log_id w)"
    and path: "log_path w \<noteq> None" "\<And>path. log_path w = Some path \<Longrightarrow> path_opens K path"
  shows "\<exists>w'. log_rotate E K w = Some w' \<and> log_step w w' \<and>
    (\<forall>path. log_path w = Some path \<longrightarrow> std_files w' = (std_files w)(STDERR_FILENO \<mapsto> path)) \<and>
    length (log_lines w') = length (log_lines w) + (if log_quiet w then 0 else 2)"
proof -
  obtain p where p: "log_path w = Some p" using path(1) by blast
  note rw = conn_inv_rand [OF inv]
  from log_new_id [OF rw std, of E] obtain new rs where
    u: "uuid_gen (env_entropy E) (rnd w) (replicate UUID_LEN 0) = Some (new, rs)" "rand_ok rs" "is_c_str new" by blast
  obtain s where s: "c_content new = Some s" using c_content_total [OF u(3)] by blast
  note st1 = log_steps(3) [OF u(2), of w]
  let ?m = "c_str ''Switching to new log with ID '' @ s @ c_str '' at: '' @ c_str p"
  have "?m \<noteq> []" by simp
  from log_write_spec [OF K uid this, of "CHR ''L''" "''log.c:49''" "w\<lparr>rnd := rs\<rparr>"] obtain w1 where
    w1: "log_write K (CHR ''L'') ''log.c:49'' (log_id w) ?m (w\<lparr>rnd := rs\<rparr>) = Some w1" "log_step (w\<lparr>rnd := rs\<rparr>) w1"
      "log_id w1 = log_id w" "std_files w1 = std_files w"
      "length (log_lines w1) = length (log_lines w) + (if log_quiet w then 0 else 1)" by auto
  note st2 = log_step_trans [OF log_step_trans [OF st1 w1(2)] log_steps(4) [OF u(3)]]
  let ?w2 = "w1\<lparr>log_id := new\<rparr>"
  note f2 = log_step_fields [OF st2]
  have k: "kernel_ok K" using K by (simp add: log_kernel_ok_def)
  from log_open_spec [OF K new_fd_tidy [OF k log_step_conn(1) [OF st2 inv]] f2(10) [OF std]] path(2) f2(3) obtain w3 where
    w3: "log_open K ?w2 = Some w3" "log_step ?w2 w3" "log_id w3 = new" "std_files w3 = (std_files w1)(STDERR_FILENO \<mapsto> p)"
      "log_lines w3 = log_lines w1"
    using p by auto
  obtain s' where s': "c_content (log_id w1) = Some s'" using c_content_total [OF uid] w1(3) by auto
  let ?m' = "c_str ''Log start after switch from log ID '' @ s'"
  have m': "?m' \<noteq> []" by simp
  have "is_c_str (log_id w3)" by (simp add: w3(3) u(3))
  from log_write_spec [OF K this m', of "CHR ''L''" "''log.c:53''" w3] obtain w4 where
    w4: "log_write K (CHR ''L'') ''log.c:53'' (log_id w3) ?m' w3 = Some w4" "log_step w3 w4" "std_files w4 = std_files w3"
      "length (log_lines w4) = length (log_lines w3) + (if log_quiet w3 then 0 else 1)" by blast
  note n = w1(5) w3(5) w4(4) log_step_fields(5) [OF w3(2)] f2(5)
  have "log_rotate E K w = Some w4" using p u(1) s w1(1) w3(1) s' w4(1) by (simp add: log_rotate_def Let_def)
  then show ?thesis using log_step_trans [OF log_step_trans [OF st2 w3(2)] w4(2)] w1(4) w3(4) w4(3) p n by simp
qed

lemma log_event_spec:
  assumes inv: "conn_inv pend f w" and li: "log_inv K w" and t: "t \<in> log_ready w"
  shows "\<exists>w'. log_event E K t w = Some w' \<and> log_step w w' \<and>
    (\<forall>path. log_path w = Some path \<longrightarrow> std_files w' = (std_files w)(STDERR_FILENO \<mapsto> path)) \<and>
    length (log_lines w') = length (log_lines w) + (if log_quiet w then 0 else 3)"
proof -
  obtain p where p: "log_rotate_peer w = Some (t, p)" using t by (auto simp: log_ready_def)
  have K: "log_kernel_ok K" and std: "std_open w" and uid: "is_c_str (log_id w)" and lp: "log_path w \<noteq> None"
    and po: "\<And>path. log_path w = Some path \<Longrightarrow> path_opens K path" using li p by (auto simp: log_inv_def)
  let ?v = "w\<lparr>tick := tick w + 1\<rparr>"
  have st1: "log_step w ?v" by (rule log_steps(1))
  let ?m = "c_str ''Received signal 1; rotating logs''"
  have m: "?m \<noteq> []" by simp
  from log_write_spec [OF K uid m, of "CHR ''L''" "''log.c:59''" ?v] obtain x where
    x: "log_write K (CHR ''L'') ''log.c:59'' (log_id w) ?m ?v = Some x" "log_step ?v x" "std_files x = std_files ?v"
      "length (log_lines x) = length (log_lines ?v) + (if log_quiet ?v then 0 else 1)" by blast
  note st2 = log_step_trans [OF st1 x(2)]
  note f2 = log_step_fields [OF st2]
  have "log_path x \<noteq> None" "\<And>path. log_path x = Some path \<Longrightarrow> path_opens K path" using lp po f2(3) by simp_all
  from log_rotate_spec [OF K log_step_conn(1) [OF st2 inv] f2(10) [OF std] f2(11) [OF uid] this, of E] obtain y where
    y: "log_rotate E K x = Some y" "log_step x y"
      "\<forall>path. log_path x = Some path \<longrightarrow> std_files y = (std_files x)(STDERR_FILENO \<mapsto> path)"
      "length (log_lines y) = length (log_lines x) + (if log_quiet x then 0 else 2)" by blast
  have "log_event E K t w = Some y"
    using p K x(1) y(1) by (simp add: log_event_def log_rotate_handler_def log_kernel_ok_def)
  then show ?thesis using log_step_trans [OF st2 y(2)] y(3,4) x(3,4) f2(3,5) by simp
qed

section \<open>The rotation as a transport\<close>

lemma more_log:
  fixes w w' :: "'a log_state_scheme"
  assumes "exec_state.more w' = exec_state.more w"
  shows "log_rotate_peer w' = log_rotate_peer w" and "log_path w' = log_path w" and "log_id w' = log_id w"
    and "std_files w' = std_files w" and "log_state.more w' = log_state.more w"
  using assms by (cases w; cases w'; simp)+

lemma more_log_sr:
  fixes w w' :: "'a log_state_scheme"
  shows "sr_state.more w' = sr_state.more w \<Longrightarrow> exec_state.more w' = exec_state.more w"
  using more_exec(6) by blast

text \<open>A step that leaves the log and the registration of its signal alone.\<close>

lemma log_inv_same:
  fixes w w' :: "'a log_state_scheme"
  assumes inv: "log_inv K w" and m: "exec_state.more w' = exec_state.more w" and n: "next_addr w \<le> next_addr w'"
    and fr: "net_frame a w w'" and a: "a \<notin> log_ready w"
  shows "log_inv K w'"
proof -
  note h = more_log [OF m]
  have "registered_at b p w'" if "registered_at b p w" "log_rotate_peer w = Some (b, p)" for b p
    using registered_at_fr [OF that(1) fr] that(2) a by (auto simp: log_ready_def)
  moreover have "b < next_addr w'" if "b < next_addr w" for b using that n by simp
  ultimately show ?thesis using inv unfolding log_inv_def std_open_def h by simp
qed

abbreviation keeps_log :: "'k log_kernel_scheme \<Rightarrow> 'a log_state_scheme \<Rightarrow> 'a log_state_scheme \<Rightarrow> bool" where
  "keeps_log K \<equiv> keeps log_ready (\<lambda>_. {}) log_ready log_ready (log_inv K) (\<lambda>_. 0)"

lemma log_keeps:
  fixes w w' :: "'a log_state_scheme" and K :: "'k log_kernel_scheme"
  assumes "exec_state.more w' = exec_state.more w" and "next_addr w \<le> next_addr w'" and "net_frame a w w'" and "a \<notin> log_ready w"
  shows "keeps_log K w w'"
  using log_inv_same [where K = K, OF _ assms] more_log(1) [OF assms(1)] by (simp add: keeps_def log_ready_def)

interpretation logs: kind_sets log_ready "\<lambda>_. {}" log_ready log_ready "log_inv K" "\<lambda>_. 0"
  for K :: "'k log_kernel_scheme"
proof
  fix w w' :: "'a log_state_scheme" and t
  show "log_ready w' = log_ready w \<and> {} = {} \<and> log_ready w' = log_ready w \<and> log_ready w' = log_ready w \<and> (0 :: nat) = 0"
    if "sr_state.more w' = sr_state.more w"
    using more_log(1) [OF more_log_sr [OF that]] by (simp add: log_ready_def)
  have ex: "\<exists>a. a \<notin> log_ready w"
    by (rule ex_new_if_finite [OF infinite_UNIV_nat]) (cases "log_rotate_peer w"; simp add: log_ready_def)
  show "log_inv K w'" if "log_inv K w" "tp_frame w w'"
    using that(2) ex log_inv_same [OF that(1) more_log_sr _ net_frame_tp [OF that(2)]] by (auto simp: tp_frame_def)
  show "log_ready w \<subseteq> log_ready w" by simp
  show "{} \<subseteq> log_ready w" by simp
  show "t < next_addr w" if "log_inv K w" "t \<in> log_ready w" using that by (auto simp: log_inv_def log_ready_def)
qed

abbreviation log_sys :: "'k log_kernel_scheme \<Rightarrow> others \<Rightarrow> nat option \<Rightarrow> 'a log_state_scheme \<Rightarrow> bool" where
  "log_sys K \<equiv> kind_sys log_ready (\<lambda>_. {}) log_ready log_ready (log_inv K)"

lemma log_step_sys:
  assumes sys: "log_sys K oth f w" and st: "log_step w v"
  shows "log_sys K oth f v" and "log_ready v = log_ready w"
proof -
  note d = kind_sysD [OF sys]
  note c = log_step_conn [OF st d(1)] and lf = log_step_fields [OF st]
  have "conn_owners v = {#} + conn_owners w" by (rule owners_add_conn [of f]) (simp_all add: c)
  then have co: "conn_owners v = conn_owners w" by simp
  show lr: "log_ready v = log_ready w" by (simp add: log_ready_def lf)
  have li: "log_inv K v"
    using d(2) lf(10) [OF _] lf(11) [OF _] unfolding log_inv_def lf(3,4,7) registered_at_def lf(2) by blast
  show "log_sys K oth f v"
  proof (rule kind_sysI)
    show "conn_inv (\<lambda>_. 0) f v" "log_inv K v" by (rule c(1) li)+
    show "o_addrs oth \<inter> log_ready v = {}" "o_live oth \<union> o_ready oth \<subseteq> o_addrs oth"
      "\<And>t. t \<in> o_addrs oth \<Longrightarrow> t < next_addr v" unfolding lr lf(7) by (rule d(3) d(5) d(4), assumption?)+
  qed (unfold lr co c(2,5) lf(2), (rule d(6-11); assumption?)+)
qed

interpretation log_k: kind log_ready "\<lambda>_. {}" log_ready log_ready "log_inv K" "\<lambda>_. 0" "log_event E K" log_kept
  for E :: "'j env" and K :: "'k log_kernel_scheme"
proof
  fix w :: "'a log_state_scheme" and t oth f
  let ?sys = "kind_sys log_ready (\<lambda>_. {}) log_ready log_ready (log_inv K)"
  assume sys: "?sys oth f w" and t: "t \<in> log_ready w" and own: "Some (Peer_transport t) \<notin># owners f w"
  note d = kind_sysD [OF sys]
  from log_event_spec [OF d(1,2) t, of E] obtain v where v: "log_event E K t w = Some v" "log_step w v" by blast
  note c = log_step_conn [OF v(2) d(1)] and sv = log_step_sys [OF sys v(2)]
  show "case log_event E K t w of
      None \<Rightarrow> t \<notin> {} \<and> 20 < (0 :: nat)
    | Some w' \<Rightarrow> ?sys oth f w' \<and> log_kept w w' \<and> call_frame w w' \<and> log_ready w - {t} \<subseteq> log_ready w' \<and> (0 :: nat) \<le> Suc 0 \<and>
        (t \<in> {} \<longrightarrow> peer_always_trigger_head w' = peer_always_trigger_head w \<and> (0 :: nat) \<le> max 2 0)"
    using v(1) c(3) sv by (simp add: log_kept_def)
qed

section \<open>The transports and the log\<close>

lemma log_kept_net:
  fixes w w' :: "'a log_state_scheme" and K :: "'k log_kernel_scheme"
  assumes "log_kept w w'"
  shows "keeps_files K w w'" and "keeps_outgoings K w w'" and "keeps_incomings K w w'" and "keeps_execs K w w'"
proof -
  have h: "file_head w' = file_head w" "outgoing_head w' = outgoing_head w" "incoming_head w' = incoming_head w"
    "exec_head w' = exec_head w" "exec_sig w' = exec_sig w" "next_addr w \<le> next_addr w'" "\<And>a. net_frame a w w'"
    using assms by (simp_all add: log_kept_def)
  obtain a where a: "a \<notin> outgoing_addresses w" "a \<notin> incoming_addresses w" "a \<notin> exec_addrs w" by (rule address_unused)
  show "keeps_files K w w'" by (rule keeps_file [OF h(1,6)])
  show "keeps_outgoings K w w'" by (rule outgoings.kept_other [OF h(2,6,7) a(1)])
  show "keeps_incomings K w w'" by (rule incomings.kept_other [OF h(3,6,7) a(2)])
  show "keeps_execs K w w'" by (rule exec_kept_other [OF h(4,5,6,7) a(3)])
qed

lemma adsbus_kept_log:
  fixes w w' :: "'a log_state_scheme" and K :: "'k log_kernel_scheme"
  assumes kept: "adsbus_kept w w'" and dis: "adsbus_addrs w \<inter> log_ready w = {}"
  shows "keeps_log K w w'"
proof -
  have "finite (log_ready w)" by (cases "log_rotate_peer w") (simp_all add: log_ready_def)
  from ex_new_if_finite [OF infinite_UNIV_nat this] obtain b where b: "b \<notin> log_ready w" by blast
  have "\<exists>a. a \<notin> log_ready w \<and> exec_state.more w' = exec_state.more w \<and> next_addr w \<le> next_addr w' \<and> net_frame a w w'"
    using kept dis b unfolding adsbus_kept_def outgoing_kept_def incoming_kept_def exec_kept_def adsbus_addrs_def
    using file_kept_net(5-7) [of w w'] outgoing_frame_net(5-7) [of _ w w'] incoming_frame_net(5-7) [of _ w w'] exec_frame_net(4-6) [of _ w w']
    by blast
  then show ?thesis using log_keeps by blast
qed

interpretation program: two_kinds adsbus_live adsbus_shut adsbus_ready adsbus_addrs "adsbus_inv K" adsbus_tries
  "transport_event E K" adsbus_kept log_ready "\<lambda>_. {}" log_ready log_ready "log_inv K" "\<lambda>_. 0" "log_event E K"
  "log_kept :: 'a log_state_scheme \<Rightarrow> _"
  for E :: "'j env" and K :: "'k log_kernel_scheme"
proof unfold_locales
  fix w w' :: "'a log_state_scheme"
  show "keeps_log K w w'" if "adsbus_kept w w'" "adsbus_addrs w \<inter> log_ready w = {}" by (rule adsbus_kept_log [OF that])
  show "keeps adsbus_live adsbus_shut adsbus_ready adsbus_addrs (adsbus_inv K) adsbus_tries w w'" if "log_kept w w'"
    unfolding adsbus_both by (intro keeps_both log_kept_net [OF that])
qed

section \<open>The whole program\<close>

definition program_live :: "'a log_state_scheme \<Rightarrow> nat set" where
  "program_live w = adsbus_live w \<union> log_ready w"

definition program_ready :: "'a log_state_scheme \<Rightarrow> nat set" where
  "program_ready w = adsbus_ready w \<union> log_ready w"

definition program_addrs :: "'a log_state_scheme \<Rightarrow> nat set" where
  "program_addrs w = adsbus_addrs w \<union> log_ready w"

definition program_inv :: "'k log_kernel_scheme \<Rightarrow> 'a log_state_scheme \<Rightarrow> bool" where
  "program_inv K w \<longleftrightarrow> adsbus_inv K w \<and> log_inv K w \<and> adsbus_addrs w \<inter> log_ready w = {}"

text \<open>The event handler of a transport, or of the rotation.\<close>

definition program_event ::
    "'j env \<Rightarrow> 'k log_kernel_scheme \<Rightarrow> nat \<Rightarrow> 'a log_state_scheme \<Rightarrow> 'a log_state_scheme option" where
  "program_event E K t w = (if t \<in> adsbus_addrs w then transport_event E K t w else log_event E K t w)"

definition program_kept :: "'a log_state_scheme \<Rightarrow> 'a log_state_scheme \<Rightarrow> bool" where
  "program_kept w w' \<longleftrightarrow> adsbus_kept w w' \<or> log_kept w w'"

lemma program_both:
  shows "program_live = both adsbus_live log_ready" and "adsbus_shut = both adsbus_shut (\<lambda>_. {})"
    and "program_ready = both adsbus_ready log_ready" and "program_addrs = both adsbus_addrs log_ready"
    and "program_inv K = both_inv (adsbus_inv K) (log_inv K) adsbus_addrs log_ready"
    and "adsbus_tries = (\<lambda>w. max (adsbus_tries w) 0)" and "program_kept = both_kept adsbus_kept log_kept"
    and "program_event E K = both_event adsbus_addrs (transport_event E K) (log_event E K)"
  by (auto simp: fun_eq_iff both_def both_inv_def both_kept_def both_event_def program_live_def program_ready_def
      program_addrs_def program_inv_def program_kept_def program_event_def)

interpretation programs: kind program_live adsbus_shut program_ready program_addrs "program_inv K" adsbus_tries
  "program_event E K" program_kept
  for E :: "'j env" and K :: "'k log_kernel_scheme"
  using program.both_kind [of K E]
  unfolding program_both(1,3,4,5,7,8) program_both(2) [symmetric] by simp

abbreviation program_sys :: "'k log_kernel_scheme \<Rightarrow> others \<Rightarrow> nat option \<Rightarrow> 'a log_state_scheme \<Rightarrow> bool" where
  "program_sys K \<equiv> kind_sys program_live adsbus_shut program_ready program_addrs (program_inv K)"

text \<open>The transports in the program, and a new one among them.\<close>

lemma program_one:
  fixes w :: "'a log_state_scheme" and K :: "'k log_kernel_scheme"
  assumes sys: "program_sys K oth f w"
  shows "\<exists>oth'. adsbus_sys K oth' f w \<and> (\<forall>w'. adsbus_sys K oth' f w' \<longrightarrow> adsbus_made w w' \<longrightarrow> program_sys K oth f w')"
proof -
  have s: "kind_sys (both adsbus_live log_ready) (both adsbus_shut (\<lambda>_. {})) (both adsbus_ready log_ready)
      (both adsbus_addrs log_ready) (both_inv (adsbus_inv K) (log_inv K) adsbus_addrs log_ready) oth f w"
    using sys unfolding program_both(1,3,4,5) program_both(2) [symmetric] .
  have ret: "program_sys K oth f w'"
    if "adsbus_sys K (others_add log_ready (\<lambda>_. {}) log_ready log_ready w oth) f w'" "adsbus_made w w'" for w'
  proof -
    have "a \<notin> log_ready w" if "next_addr w \<le> a" for a
      using logs.addrs_old [of K w a] kind_sysD(2) [OF sys] that by (auto simp: program_inv_def)
    then have "keeps_log K w w'" using that(2) log_keeps unfolding adsbus_made_def by blast
    from program.one_step [OF s that(1) this] show ?thesis
      unfolding program_both(1,3,4,5) program_both(2) [symmetric] .
  qed
  then show ?thesis using conjunct1 [OF s [unfolded program.sys_one]] by blast
qed

lemma program_new:
  fixes w :: "'a log_state_scheme" and K :: "'k log_kernel_scheme"
  assumes sys: "program_sys K oth f w" and pass: "flow_pass_ok flow pass"
  shows "\<exists>w'. file_new E K path flags flow pass w = Some w' \<and> program_sys K oth f w' \<and> adsbus_made w w' \<and> exec_sig w' = exec_sig w"
    and "\<exists>w'. outgoing_new E K node service flow pass w = Some w' \<and> program_sys K oth f w' \<and> adsbus_made w w' \<and> exec_sig w' = exec_sig w"
    and "\<exists>w'. incoming_new E K node' service flow pass w = Some w' \<and> program_sys K oth f w' \<and> adsbus_made w w' \<and> exec_sig w' = exec_sig w"
    and "\<exists>w'. exec_new E K command flow pass w = Some w' \<and> program_sys K oth f w' \<and> adsbus_made w w' \<and> exec_sig w' = exec_sig w"
proof -
  from program_one [OF sys] obtain oth' where
    a: "adsbus_sys K oth' f w" "\<And>w'. adsbus_sys K oth' f w' \<Longrightarrow> adsbus_made w w' \<Longrightarrow> program_sys K oth f w'" by blast
  note n = adsbus_new [OF a(1) pass]
  show "\<exists>w'. file_new E K path flags flow pass w = Some w' \<and> program_sys K oth f w' \<and> adsbus_made w w' \<and> exec_sig w' = exec_sig w"
    using n(1) [of E path flags] a(2) by blast
  show "\<exists>w'. outgoing_new E K node service flow pass w = Some w' \<and> program_sys K oth f w' \<and> adsbus_made w w' \<and> exec_sig w' = exec_sig w"
    using n(2) [of E node service] a(2) by blast
  show "\<exists>w'. incoming_new E K node' service flow pass w = Some w' \<and> program_sys K oth f w' \<and> adsbus_made w w' \<and> exec_sig w' = exec_sig w"
    using n(3) [of E node' service] a(2) by blast
  show "\<exists>w'. exec_new E K command flow pass w = Some w' \<and> program_sys K oth f w' \<and> adsbus_made w w' \<and> exec_sig w' = exec_sig w"
    using n(4) [of E command] a(2) by blast
qed

lemma program_exec_init:
  fixes w :: "'a log_state_scheme" and K :: "'k log_kernel_scheme"
  assumes sys: "program_sys K oth f w" and none: "exec_sig w = None"
  shows "\<exists>w'. exec_init_peer K w = Some w' \<and> program_sys K oth f w' \<and> adsbus_made w w'"
proof -
  from program_one [OF sys] obtain oth' where
    a: "adsbus_sys K oth' f w" "\<And>w'. adsbus_sys K oth' f w' \<Longrightarrow> adsbus_made w w' \<Longrightarrow> program_sys K oth f w'" by blast
  from adsbus_exec_init [OF a(1) none] show ?thesis using a(2) by blast
qed

text \<open>The descriptor of the rotation signal is registered.\<close>

lemma log_init_peer_spec:
  fixes w :: "'a log_state_scheme" and K :: "'k log_kernel_scheme"
  assumes sys: "program_sys K oth f w" and none: "log_rotate_peer w = None"
  shows "\<exists>w'. log_init_peer K w = Some w' \<and> program_sys K oth f w' \<and> call_frame w w' \<and> exec_sig w' = exec_sig w"
proof (cases "log_path w")
  case None
  have "w\<lparr>log_rotate_peer := None\<rparr> = w" using none by simp
  then show ?thesis using None sys by (simp add: log_init_peer_def)
next
  case (Some path)
  note d = kind_sysD [OF sys]
  have ai: "adsbus_inv K w" and li: "log_inv K w" using d(2) by (simp_all add: program_inv_def)
  have K: "kernel_ok K" using ai by (simp add: adsbus_inv_def)
  from socket_held_new [OF K d(1)] obtain fd v where
    v: "open_socket K w = Some (fd, v)" "conn_inv (\<lambda>_. 0) f v" "owners f v = owners f w" "conn_frame w v" "socket_held fd v" by blast
  obtain info where i: "fd_unused fd v" "fds v fd = Some info" "fd_pollable info" using v(5) by (auto simp: socket_held_def)
  have vw: "v = w\<lparr>fds := (fds w)(fd \<mapsto> sock_info K w)\<rparr>"
    using v(1) by (auto simp: open_socket_def Let_def bind_Some_iff)
  let ?a = "next_addr w"
  define p where "p = \<lparr>peer_fd = fd, peer_always_trigger = False\<rparr>"
  define u where "u = v\<lparr>epoll_set := (epoll_set v)(fd \<mapsto> Peer_transport ?a)\<rparr>"
  have pf: "peer_fd p = fd" by (simp add: p_def)
  note r = socket_registered [OF v(2) i pf, where a = ?a, folded u_def]
  have r1: "peer_epoll_add (Peer_transport ?a) p True v = Some (p, u)" using r(1) by (simp add: p_def)
  have e: "epoll_set w fd = None" "0 \<le> fd" using i(1) by (simp_all add: fd_unused_def fd_free_def fd_fresh_def vw)
  define w' where "w' = u\<lparr>next_addr := ?a + 1, log_rotate_peer := Some (?a, p)\<rparr>"
  have ci: "conn_inv (\<lambda>_. 0) f w'" "owners f w' = owners f u"
    by (rule conn_inv_same [OF r(2)]; use conn_inv_rand [OF r(2)] in \<open>simp add: w'_def u_def vw\<close>)+
  have ow: "owners f w' = owners f w" using ci(2) r(3) v(3) by simp
  note new = programs.new_addr_free [OF sys]
  have ew: "epoll_set w' = (epoll_set w)(fd \<mapsto> Peer_transport ?a)" by (simp add: w'_def u_def vw)
  have fr: "file_head w' = file_head w" "outgoing_head w' = outgoing_head w" "incoming_head w' = incoming_head w"
    "exec_head w' = exec_head w" "exec_sig w' = exec_sig w" "next_addr w \<le> next_addr w'" "net_frame ?a w w'"
    using e by (simp_all add: w'_def u_def vw net_frame_def)
  have "call_frame w w'" by (rule call_frame_heads) (use e in \<open>auto simp: w'_def u_def vw\<close>)
  have na: "?a \<notin> outgoing_addresses w" "?a \<notin> incoming_addresses w" "?a \<notin> exec_addrs w" "?a \<notin> adsbus_addrs w"
    using new(1) by (simp_all add: program_addrs_def adsbus_addrs_def)
  have kp: "keeps adsbus_live adsbus_shut adsbus_ready adsbus_addrs (adsbus_inv K) adsbus_tries w w'"
    unfolding adsbus_both
    by (intro keeps_both keeps_file [OF fr(1,6)] outgoings.kept_other [OF fr(2,6,7) na(1)] incomings.kept_other [OF fr(3,6,7) na(2)]
        exec_kept_other [OF fr(4-7) na(3)])
  have lr: "log_ready w = {}" "log_ready w' = {?a}" by (simp_all add: log_ready_def none w'_def)
  have sets: "program_live w' = insert ?a (program_live w)" "program_ready w' = insert ?a (program_ready w)"
    "program_addrs w' = insert ?a (program_addrs w)" "adsbus_shut w' = adsbus_shut w"
    using kp by (simp_all add: keeps_def program_live_def program_ready_def program_addrs_def lr)
  have not: "epoll_set w g \<noteq> Some (Peer_transport ?a)" for g
    using d(5) d(8) [of g ?a] new(1,2) programs.ready_addrs [of w] by blast
  have "registered_at ?a p w'" using e not by (auto simp: registered_at_def ew p_def)
  then have "log_inv K w'" using li Some unfolding log_inv_def std_open_def by (simp add: w'_def u_def vw)
  then have pi: "program_inv K w'" using kp ai na(4) by (auto simp: program_inv_def keeps_def lr)
  have wl: "wakeup_head w' = wakeup_head w" "peer_always_trigger_head w' = peer_always_trigger_head w" by (simp_all add: w'_def u_def vw)
  have "program_sys K oth f w'"
    by (rule programs.step_heads(1) [OF sys ci(1) pi ow wl(1) fr(6) wl(2) new(3,2)])
      (use e in \<open>auto simp: sets ew split: if_splits\<close>)
  moreover have "log_init_peer K w = Some w'"
    using Some v(1) r1 by (simp add: log_init_peer_def Let_def p_def w'_def vw)
  ultimately show ?thesis using \<open>call_frame w w'\<close> fr(5) by blast
qed

text \<open>Writing to the log, and whatever else only changes the log, is a step of the program.\<close>

lemma program_log_step:
  fixes w :: "'a log_state_scheme" and K :: "'k log_kernel_scheme"
  assumes sys: "program_sys K oth f w" and st: "log_step w w'"
  shows "program_sys K oth f w'" and "call_frame w w'" and "exec_sig w' = exec_sig w"
proof -
  have s: "kind_sys (both adsbus_live log_ready) (both adsbus_shut (\<lambda>_. {})) (both adsbus_ready log_ready)
      (both adsbus_addrs log_ready) (both_inv (adsbus_inv K) (log_inv K) adsbus_addrs log_ready) oth f w"
    using sys unfolding program_both(1,3,4,5) program_both(2) [symmetric] .
  note l = conjunct1 [OF s [unfolded program.sys_two]]
  note c = log_step_conn [OF st kind_sysD(1) [OF sys]]
  have "keeps adsbus_live adsbus_shut adsbus_ready adsbus_addrs (adsbus_inv K) adsbus_tries w w'"
    unfolding adsbus_both by (intro keeps_both log_kept_net [OF c(3)])
  from program.two_step [OF s log_step_sys(1) [OF l st] this] show "program_sys K oth f w'"
    unfolding program_both(1,3,4,5) program_both(2) [symmetric] .
  show "call_frame w w'" "exec_sig w' = exec_sig w" using c(3) by (simp_all add: log_kept_def)
qed

end
