(* ===== verification/Event_Loop.thy ===== *)
theory Event_Loop
  imports Log
begin

text \<open>
  The event loop with the handlers of the whole program plugged in.
\<close>

section \<open>The program\<close>

text \<open>The invariant of the event loop, written out.\<close>

definition loop_inv :: "'k log_kernel_scheme \<Rightarrow> 'a log_state_scheme \<Rightarrow> bool" where
  "loop_inv K w \<longleftrightarrow> program_inv K w \<and> shutdown_ok w \<and> regs_ok program_live program_ready None w \<and>
     (\<exists>pend. conn_inv pend None w \<and> (\<not> peer_shutdown_flag w \<longrightarrow> pend = (\<lambda>_. 0))) \<and>
     (\<forall>t. Some (Peer_transport t) \<in># owners None w \<longrightarrow> t \<in> program_live w) \<and>
     (\<forall>t. Some (Peer_transport t) \<in># conn_owners w \<longrightarrow> t \<in> adsbus_shut w)"

interpretation program_t: transports "program_event E K" program_live adsbus_shut program_ready "program_inv K" adsbus_tries for E K
  by (rule programs.alone_transports)

lemma loop_inv_transports: "loop_inv (K :: 'k log_kernel_scheme) w \<longleftrightarrow> program_t.loop_ok TYPE('k) K w"
  by (auto simp: loop_inv_def program_t.loop_ok_def program_t.sys_ok_def)

text \<open>
  The same with its three parts apart. What the kernel is expected to do: descriptors are new and not standard ones,
  the options of sockets can be set, connections shut down, addresses printed, and sockets listen; connections come from
  addresses of at most 16 bytes; a process can be forked, and one that is waited for has ended; a signal is
  read in full; and the log can be written.
\<close>

definition status_final :: "32 word \<Rightarrow> bool" where
  "status_final status \<longleftrightarrow> WIFEXITED status \<or> WIFSIGNALED status"

definition kernel_cooperates :: "'k log_kernel_scheme \<Rightarrow> bool" where
  "kernel_cooperates K \<longleftrightarrow>
     (\<forall>t. finite (dom t) \<longrightarrow> 2 < k_new_fd K t \<and> t (k_new_fd K t) = None) \<and>
     (\<forall>n fd opt v. k_setsockopt (k_socket K) n fd opt v = 0) \<and> (\<forall>n fd how. k_shutdown (k_socket K) n fd how = 0) \<and>
     (\<forall>sa. k_getnameinfo K sa = 0) \<and> (\<forall>n fd. k_listen K n fd = 0) \<and>
     (\<forall>n fd there here. k_accept K n fd = Some (there, here) \<longrightarrow> length there \<le> 16 \<and> length here \<le> 16) \<and>
     (\<forall>n. 0 < k_fork K n) \<and> (\<forall>n. 0 \<le> fst (k_waitpid K n) \<and> status_final (snd (k_waitpid K n))) \<and>
     (\<forall>n pid. fst (k_wait_for K n pid) = pid \<and> status_final (snd (k_wait_for K n pid))) \<and>
     (\<forall>n fd. k_read_chld K n fd = SIGNALFD_SIGINFO_SIZE \<and> k_read_hup K n fd = SIGNALFD_SIGINFO_SIZE) \<and>
     (\<forall>n. k_datetime K n \<noteq> []) \<and> (\<forall>n s. k_fprintf K n s = int (length s))"

lemma kernel_cooperates_iff: "kernel_cooperates K \<longleftrightarrow> net_ok K \<and> exec_kernel_ok K \<and> log_kernel_ok K"
proof -
  have "kernel_ok K" if "\<forall>t. finite (dom t) \<longrightarrow> 2 < k_new_fd K t \<and> t (k_new_fd K t) = None"
    unfolding kernel_ok_def
  proof (intro allI impI)
    fix t :: "int \<Rightarrow> fd_info option"
    assume "finite (dom t)"
    then have "2 < k_new_fd K t \<and> t (k_new_fd K t) = None" using that by blast
    then show "0 \<le> k_new_fd K t \<and> t (k_new_fd K t) = None" by simp
  qed
  then have fd: "(\<forall>t. finite (dom t) \<longrightarrow> 2 < k_new_fd K t \<and> t (k_new_fd K t) = None) \<longleftrightarrow>
      kernel_ok K \<and> (\<forall>t. finite (dom t) \<longrightarrow> STDERR_FILENO < k_new_fd K t)"
    unfolding STDERR_FILENO_def by (auto simp: kernel_ok_def)
  have w: "(\<forall>n pid status. k_waitpid K n = (pid, status) \<longrightarrow> 0 \<le> pid \<and> (WIFEXITED status \<or> WIFSIGNALED status)) \<longleftrightarrow>
      (\<forall>n. 0 \<le> fst (k_waitpid K n) \<and> status_final (snd (k_waitpid K n)))"
    "(\<forall>n pid p status. k_wait_for K n pid = (p, status) \<longrightarrow> p = pid \<and> (WIFEXITED status \<or> WIFSIGNALED status)) \<longleftrightarrow>
      (\<forall>n pid. fst (k_wait_for K n pid) = pid \<and> status_final (snd (k_wait_for K n pid)))"
    unfolding status_final_def by (metis prod.collapse fst_conv snd_conv)+
  show ?thesis
    unfolding kernel_cooperates_def net_ok_def exec_kernel_ok_def log_kernel_ok_def socket_kernel_ok_def fd w SOCKADDR_SIZE_def
    by (rule iffI; simp)
qed

text \<open>The file of the log, if there is one, can be opened.\<close>

definition log_opens :: "'k log_kernel_scheme \<Rightarrow> 'a log_state_scheme \<Rightarrow> bool" where
  "log_opens K w \<longleftrightarrow> (\<forall>path n flags. log_path w = Some path \<longrightarrow> k_open K n path flags \<noteq> None)"

text \<open>And the invariant of the data of the program, which says nothing of the kernel.\<close>

definition loop_state :: "'a log_state_scheme \<Rightarrow> bool" where
  "loop_state w \<longleftrightarrow> file_inv w \<and> async_threads w \<noteq> None \<and>
     structs_inv outgoing_head ou_at outgoing_ok (\<lambda>_. True) None w \<and> structs_inv incoming_head ic_at incoming_ok (\<lambda>_. True) None w \<and>
     exec_apart w \<and> (\<forall>t \<in> exec_addrs w. t < next_addr w) \<and> (\<forall>ex \<in> set (exec_head w). exec_ok ex w) \<and>
     (\<forall>s p. exec_sig w = Some (s, p) \<longrightarrow> registered_at s p w) \<and>
     file_addrs w \<inter> outgoing_addresses w = {} \<and> (file_addrs w \<union> outgoing_addresses w) \<inter> incoming_addresses w = {} \<and>
     (file_addrs w \<union> outgoing_addresses w \<union> incoming_addresses w) \<inter> exec_addrs w = {} \<and> adsbus_addrs w \<inter> log_ready w = {} \<and>
     std_open w \<and> is_c_str (log_id w) \<and>
     (\<forall>a p. log_rotate_peer w = Some (a, p) \<longrightarrow> a < next_addr w \<and> log_path w \<noteq> None \<and> registered_at a p w) \<and>
     shutdown_ok w \<and> regs_ok program_live program_ready None w \<and>
     (\<exists>pend. conn_inv pend None w \<and> (\<not> peer_shutdown_flag w \<longrightarrow> pend = (\<lambda>_. 0))) \<and>
     (\<forall>t. Some (Peer_transport t) \<in># owners None w \<longrightarrow> t \<in> program_live w) \<and>
     (\<forall>t. Some (Peer_transport t) \<in># conn_owners w \<longrightarrow> t \<in> adsbus_shut w)"

lemma loop_inv_parts: "loop_inv K w \<longleftrightarrow> kernel_cooperates K \<and> log_opens K w \<and> loop_state w"
proof -
  have "log_kernel_ok K \<Longrightarrow> kernel_ok K" by (simp add: log_kernel_ok_def)
  then show ?thesis
    unfolding kernel_cooperates_iff loop_inv_def program_inv_def adsbus_inv_def exec_inv_def log_inv_def structs_inv_def net_up_def
      log_opens_def path_opens_def loop_state_def
    by (rule_tac iffI; simp)
qed

lemmas loop_inv_apart = loop_inv_parts [THEN iffD2, OF conjI, OF _ conjI]

lemma loop_invI: "program_sys K nobody None w \<Longrightarrow> shutdown_ok w \<Longrightarrow> loop_inv K w"
  by (auto simp: loop_inv_def kind_sys_def sys_inv_def nobody_def)

lemma loop_inv_sys: "loop_inv K w \<Longrightarrow> \<not> peer_shutdown_flag w \<Longrightarrow> program_sys K nobody None w"
  by (auto simp: loop_inv_def kind_sys_def sys_inv_def nobody_def)

text \<open>The handlers of the program.\<close>

definition program_handler ::
    "'j env \<Rightarrow> 'k log_kernel_scheme \<Rightarrow> (int \<Rightarrow> int) \<Rightarrow> (int \<Rightarrow> int \<times> u64) \<Rightarrow>
      peer_ref \<Rightarrow> 'a log_state_scheme \<Rightarrow> 'a log_state_scheme option" where
  "program_handler E K read_signal read_timer = event_handler E read_signal read_timer (program_event E K)"

text \<open>The states the loop goes through, whatever events the kernel reports.\<close>

inductive loop_reach ::
    "'j env \<Rightarrow> 'k log_kernel_scheme \<Rightarrow> (int \<Rightarrow> int) \<Rightarrow> (int \<Rightarrow> int \<times> u64) \<Rightarrow>
      'a log_state_scheme \<Rightarrow> 'a log_state_scheme \<Rightarrow> bool"
  for E :: "'j env" and K :: "'k log_kernel_scheme" and read_signal read_timer and w0 :: "'a log_state_scheme" where
  loop_start: "loop_reach E K read_signal read_timer w0 w0"
| loop_turn: "loop_reach E K read_signal read_timer w0 w \<Longrightarrow> wait_ok wait w \<Longrightarrow>
    peer_loop_turn (program_handler E K read_signal read_timer) wait w = Some (go, w') \<Longrightarrow>
    loop_reach E K read_signal read_timer w0 w'"

lemma loop_turn_safe:
  assumes "env_ok E" and "reads_ok read_signal read_timer" and "loop_inv K w" and "wait_ok wait w"
  shows "case peer_loop_turn (program_handler E K read_signal read_timer) wait w of
      None \<Rightarrow> 20 < adsbus_tries w + MAX_EVENTS
    | Some (go, w') \<Rightarrow> loop_inv K w' \<and> adsbus_tries w' \<le> max 1 (adsbus_tries w) + MAX_EVENTS \<and> (go \<or> peer_shutdown_flag w')"
  using program_t.turn_returns [OF assms(1,2) _ assms(4), of K E] assms(3)
  unfolding loop_inv_transports program_handler_def by blast

lemma loop_reach_inv:
  assumes "loop_reach E K read_signal read_timer w0 w" and "env_ok E" and "reads_ok read_signal read_timer"
    and "loop_inv K w0"
  shows "loop_inv K w"
  using assms(1)
proof induction
  case loop_start
  show ?case by (rule assms(4))
next
  case (loop_turn w wait go w')
  show ?case using loop_turn_safe [OF assms(2,3) loop_turn.IH loop_turn.hyps(2)] loop_turn.hyps(3) by simp
qed

section \<open>A sample\<close>

text \<open>
  Besides the connections of the sample of the files: a connection is being made on descriptor 8 for the outgoing
  connection at address 4; the incoming transport at 5 listens on descriptor 9; the child at 6 is running and its
  log, at 7, is read from descriptor 10; its end is told on descriptor 11 to the peer at 8. The log is rotated when
  descriptor 12 says so to the peer at 9.
\<close>

definition sample_addrinfo :: addrinfo where
  "sample_addrinfo = \<lparr>ai_family = 2, ai_socktype = SOCK_STREAM, ai_protocol = 6, ai_addr = replicate 16 0\<rparr>"

definition sample_peer :: "int \<Rightarrow> peer" where
  "sample_peer fd = \<lparr>peer_fd = fd, peer_always_trigger = False\<rparr>"

definition sample_outgoing :: outgoing where
  "sample_outgoing = \<lparr>ou_at = 4, ou_peer = sample_peer 8, ou_handler = Some Outgoing_connect_handler, ou_id = sample_id,
     ou_node = ''host'', ou_service = ''30002'', ou_addrs = Some [sample_addrinfo], ou_addr = [sample_addrinfo], ou_attempt = 0,
     ou_flow = Receive_flow, ou_pass = None\<rparr>"

definition sample_incoming :: incoming where
  "sample_incoming = \<lparr>ic_at = 5, ic_peer = sample_peer 9, ic_handler = Incoming_handler, ic_id = sample_id, ic_node = None,
     ic_service = ''30003'', ic_attempt = 0, ic_flow = Receive_flow, ic_pass = None\<rparr>"

definition sample_exec :: exec where
  "sample_exec = \<lparr>ex_at = 6, ex_log_at = 7, ex_peer = sample_peer (-1), ex_handler = Some Exec_retry, ex_log_peer = sample_peer 10,
     ex_log_set = True, ex_id = sample_id, ex_command = ''dump1090'', ex_flow = Receive_flow, ex_pass = None, ex_child = 77\<rparr>"

definition sample_sock_info :: fd_info where
  "sample_sock_info = \<lparr>fd_pollable = True, fd_stat = \<lparr>st_dev = 2, st_ino = 9\<rparr>\<rparr>"

text \<open>The other transports of the program, as an extension of the state of the files.\<close>

definition sample_more :: "unit log_state_ext exec_state_ext incoming_state_ext outgoing_state_ext resolve_state_ext" where
  "sample_more = \<lparr>async_threads = Some 2, async_write_fd = 13, async_requests = Map.empty, outgoing_head = [sample_outgoing], addrs_lost = [],
     incoming_head = [sample_incoming], exec_head = [sample_exec], exec_sig = Some (8, sample_peer 11), exec_log = [],
     std_files = (\<lambda>fd. Some ''/dev/null''), log_path = Some ''/var/log/adsbus'', log_id = sample_id,
     log_rotate_peer = Some (9, sample_peer 12), log_timestamps = True, log_quiet = False, log_lines = []\<rparr>"

definition sample_registered :: "(int \<times> nat) list \<Rightarrow> 'a sr_state_scheme \<Rightarrow> 'a sr_state_scheme" where
  "sample_registered regs w = fold (\<lambda>(fd, t) w. w\<lparr>fds := (fds w)(fd \<mapsto> sample_sock_info),
     epoll_set := (epoll_set w)(fd \<mapsto> Peer_transport t)\<rparr>) regs w"

definition sample_program :: log_state where
  "sample_program = (sample_registered [(8, 4), (9, 5), (10, 7), (11, 8), (12, 9)] (sample_files sample_more))\<lparr>next_addr := 10\<rparr>"

lemma sample_program_eq:
  "sample_program = (sample_files sample_more)\<lparr>next_addr := 10,
     fds := sample_file_fds(8 \<mapsto> sample_sock_info, 9 \<mapsto> sample_sock_info, 10 \<mapsto> sample_sock_info, 11 \<mapsto> sample_sock_info,
       12 \<mapsto> sample_sock_info),
     epoll_set := [4 \<mapsto> Peer_shutdown, 5 \<mapsto> Peer_send 0, 6 \<mapsto> Peer_send 1, 8 \<mapsto> Peer_transport 4, 9 \<mapsto> Peer_transport 5,
       10 \<mapsto> Peer_transport 7, 11 \<mapsto> Peer_transport 8, 12 \<mapsto> Peer_transport 9]\<rparr>"
  by (simp add: sample_program_def sample_registered_def sample_files_def)

lemma sample_program_simps:
  "epoll_set sample_program = [4 \<mapsto> Peer_shutdown, 5 \<mapsto> Peer_send 0, 6 \<mapsto> Peer_send 1, 8 \<mapsto> Peer_transport 4, 9 \<mapsto> Peer_transport 5,
     10 \<mapsto> Peer_transport 7, 11 \<mapsto> Peer_transport 8, 12 \<mapsto> Peer_transport 9]"
  "next_addr sample_program = 10" "file_head sample_program = [sample_file]" "outgoing_head sample_program = [sample_outgoing]"
  "incoming_head sample_program = [sample_incoming]" "exec_head sample_program = [sample_exec]"
  "exec_sig sample_program = Some (8, sample_peer 11)" "log_rotate_peer sample_program = Some (9, sample_peer 12)"
  "log_path sample_program = Some ''/var/log/adsbus''" "log_id sample_program = sample_id"
  "std_files sample_program = (\<lambda>fd. Some ''/dev/null'')" "async_threads sample_program = Some 2" "wakeup_head sample_program = []"
  "peer_always_trigger_head sample_program = [Peer_receive 2]" "peer_shutdown_flag sample_program = False"
  "peer_shutdown_peer sample_program = \<lparr>peer_fd = 4, peer_always_trigger = False\<rparr>" "send_receive_head sample_program = []"
  "peer_count_in sample_program = 2" "peer_count_out sample_program = 2" "peer_count_out_in sample_program = 0"
  by (simp_all add: sample_program_eq sample_files_def sample_more_def)

lemma sample_registered_inv:
  fixes w :: "'a sr_state_scheme"
  assumes "conn_inv pend f w" and "\<forall>(fd, t) \<in> set regs. fd \<notin> snd_fd ` set (all_sends w) \<and> fd \<notin> rx_fd ` set (receive_head w) \<and> epoll_set w fd = None"
    and "distinct (map fst regs)"
  shows "conn_inv pend f (sample_registered regs w) \<and> owners f (sample_registered regs w) = owners f w \<and>
    conn_owners (sample_registered regs w) = conn_owners w"
  using assms
proof (induction regs arbitrary: w)
  case Nil
  then show ?case by (simp add: sample_registered_def)
next
  case (Cons r regs)
  obtain fd t where r: "r = (fd, t)" by (cases r)
  define v where "v = w\<lparr>fds := (fds w)(fd := Some sample_sock_info), epoll_set := (epoll_set w)(fd := Some (Peer_transport t))\<rparr>"
  have fd: "fd \<notin> snd_fd ` set (all_sends w)" "fd \<notin> rx_fd ` set (receive_head w)" "epoll_set w fd = None"
    using Cons.prems(2) r by auto
  note c = conn_inv_foreign [OF Cons.prems(1) fd(1,2) _ _ v_def]
  have c: "conn_inv pend f v" "owners f v = owners f w" "conn_owners v = conn_owners w"
    by (rule c; use fd(3) in \<open>simp add: sample_sock_info_def\<close>)+
  have "\<forall>(g, t) \<in> set regs. g \<notin> snd_fd ` set (all_sends v) \<and> g \<notin> rx_fd ` set (receive_head v) \<and> epoll_set v g = None"
    using Cons.prems(2,3) r by (force simp: v_def all_sends_def)
  with Cons.IH [OF c(1)] Cons.prems(3) have "conn_inv pend f (sample_registered regs v) \<and> owners f (sample_registered regs v) = owners f v \<and>
    conn_owners (sample_registered regs v) = conn_owners v" by simp
  then show ?case using c by (simp add: sample_registered_def r v_def)
qed

definition sample_log_kernel :: log_kernel where
  "sample_log_kernel = \<lparr>k_new_fd = (\<lambda>t. Max (insert 2 (dom t)) + 1), k_timer_stat = \<lparr>st_dev = 0, st_ino = 0\<rparr>,
     k_socket = k_socket sample_kernel, k_open = (\<lambda>n path flags. if path = ''/var/log/adsbus'' then Some sample_sock_info else None), k_sock_stat = (\<lambda>n fd. \<lparr>st_dev = 2, st_ino = 9\<rparr>),
     k_getaddrinfo = (\<lambda>n node service hints. (0, [sample_addrinfo])), k_getnameinfo = (\<lambda>sa. 0), k_sendto = (\<lambda>n fd bytes sa. (-1, EINPROGRESS)),
     k_so_error = (\<lambda>n fd. 0), k_bind = (\<lambda>n fd sa. 0), k_listen = (\<lambda>n fd. 0),
     k_accept = (\<lambda>n fd. Some (replicate 16 0, replicate 16 0)), k_fork = (\<lambda>n. 100), k_waitpid = (\<lambda>n. (77, 0)),
     k_wait_for = (\<lambda>n pid. (pid, 0)), k_read_log = (\<lambda>n fd. Some (map of_char ''ready'')), k_read_chld = (\<lambda>n fd. 128),
     k_datetime = (\<lambda>n. c_str ''2016-01-01T00:00:00Z ''),
     k_fprintf = (\<lambda>n s. int (length s)), k_read_hup = (\<lambda>n fd. 128), k_std_info = (\<lambda>fd. sample_sock_info)\<rparr>"

lemma sample_log_kernel_ok: "net_ok sample_log_kernel" "exec_kernel_ok sample_log_kernel" "kernel_ok sample_log_kernel"
  "log_kernel_ok sample_log_kernel" "path_opens sample_log_kernel ''/var/log/adsbus''"
proof -
  have n: "2 < Max (insert 2 (dom t)) + 1 \<and> t (Max (insert 2 (dom t)) + 1) = None"
    if "finite (dom t)" for t :: "int \<Rightarrow> fd_info option"
  proof -
    have f: "finite (insert 2 (dom t))" using that by simp
    have "2 \<le> Max (insert 2 (dom t))" by (rule Max_ge [OF f]) simp
    moreover have "Max (insert 2 (dom t)) + 1 \<notin> dom t" using Max_ge [OF f, of "Max (insert 2 (dom t)) + 1"] by auto
    ultimately show ?thesis by auto
  qed
  have kn: "k_new_fd sample_log_kernel t = Max (insert 2 (dom t)) + 1" for t by (simp add: sample_log_kernel_def)
  have "0 \<le> Max (insert 2 (dom t)) + 1" if "finite (dom t)" for t :: "int \<Rightarrow> fd_info option" using n [OF that] by linarith
  then show k: "kernel_ok sample_log_kernel" using n unfolding kernel_ok_def kn by blast
  show "log_kernel_ok sample_log_kernel"
    using k n unfolding log_kernel_ok_def kn by (simp add: sample_log_kernel_def STDERR_FILENO_def SIGNALFD_SIGINFO_SIZE_def)
  show "path_opens sample_log_kernel ''/var/log/adsbus''" by (simp add: path_opens_def sample_log_kernel_def)
  have s: "socket_kernel_ok (k_socket sample_log_kernel)"
    by (simp add: socket_kernel_ok_def sample_log_kernel_def sample_kernel_def)
  show "net_ok sample_log_kernel" using k s by (simp add: net_ok_def) (simp add: sample_log_kernel_def SOCKADDR_SIZE_def)
  show "exec_kernel_ok sample_log_kernel"
    using k s by (simp add: exec_kernel_ok_def)
      (simp add: sample_log_kernel_def SIGNALFD_SIGINFO_SIZE_def WIFEXITED_def WTERMSIG_def)
qed

lemma sample_program_sys: "program_sys sample_log_kernel nobody None sample_program"
proof -
  let ?w = "sample_files sample_more"
  let ?v = "sample_registered [(8, 4), (9, 5), (10, 7), (11, 8), (12, 9)] ?w"
  have d: "conn_inv (\<lambda>_. 0) None ?w" by (rule file_sysD(1) [OF sample_file_sys])
  have u: "\<forall>(fd, t) \<in> set [(8, 4), (9, 5), (10, 7), (11, 8), (12, 9)].
      fd \<notin> snd_fd ` set (all_sends ?w) \<and> fd \<notin> rx_fd ` set (receive_head ?w) \<and> epoll_set ?w fd = None"
    by (simp add: sample_files_def all_sends_def sample_send_def snd_fd_def sample_receive_def rx_fd_def)
  have c: "conn_inv (\<lambda>_. 0) None ?v" "owners None ?v = owners None ?w" "conn_owners ?v = conn_owners ?w"
    using sample_registered_inv [OF d u] by simp_all
  have ci: "conn_inv (\<lambda>_. 0) None sample_program" and o: "owners None sample_program = owners None ?w"
    using conn_inv_same [OF c(1), of sample_program] conn_inv_rand [OF c(1)] c(2)
    by (simp_all add: sample_program_def) (simp_all add: sample_registered_def sample_files_def)
  have co: "conn_owners sample_program = conn_owners ?w"
    using c(3) by (simp add: sample_program_def conn_owners_def closers_def all_sends_def)
  have cw: "conn_owners ?w = {#Some (Peer_transport 3), None, None#}"
    by (simp add: conn_owners_def closers_def sample_files_def all_sends_def sample_send_def)
  then have ow: "owners None ?w = {#Some (Peer_transport 3), None, None#}" unfolding owners_def by (simp add: sample_files_def)
  note ps = sample_program_simps
  have up: "net_up sample_log_kernel sample_program" using sample_log_kernel_ok by (simp add: net_up_def ps)
  have fi: "file_inv sample_program" by (simp add: file_inv_def ps sample_file_def file_ok_def flow_pass_ok_def)
  have oi: "outgoing_inv sample_log_kernel sample_program"
    using up by (simp add: structs_inv_def ps sample_outgoing_def outgoing_ok_def flow_pass_ok_def registered_at_def sample_peer_def)
  have ii: "incoming_inv sample_log_kernel sample_program"
    using up by (simp add: structs_inv_def ps sample_incoming_def incoming_ok_def flow_pass_ok_def registered_at_def sample_peer_def)
  have ei: "exec_inv sample_log_kernel sample_program"
    using sample_log_kernel_ok
    by (simp add: exec_inv_def exec_apart_def exec_addrs_def exec_sig_addr_def ps sample_exec_def exec_ok_def exec_log_ok_def
        flow_pass_ok_def registered_at_def sample_peer_def)
  have li: "log_inv sample_log_kernel sample_program"
    using sample_log_kernel_ok(4,5) sample_id_valid valid_id_c_str
    by (simp add: log_inv_def std_open_def ps registered_at_def sample_peer_def)
  have ad: "adsbus_addrs sample_program = {3, 4, 5, 6, 7, 8}" and lr: "log_ready sample_program = {9}"
    by (auto simp: adsbus_addrs_def file_addrs_def structs_addrs_def exec_addrs_def exec_sig_addr_def log_ready_def ps sample_file_def
        sample_outgoing_def sample_incoming_def sample_exec_def)
  have "adsbus_inv sample_log_kernel sample_program"
    using fi oi ii ei sample_log_kernel_ok
    by (simp add: adsbus_inv_def file_addrs_def structs_addrs_def exec_addrs_def exec_sig_addr_def ps sample_file_def
        sample_outgoing_def sample_incoming_def sample_exec_def)
  then have ai: "program_inv sample_log_kernel sample_program" using li by (simp add: program_inv_def ad lr)
  have rd: "program_ready sample_program = {4, 5, 7, 8, 9}"
    unfolding program_ready_def lr
    by (simp add: adsbus_ready_def in_phase_def exec_ready_def exec_sig_addr_def ps sample_outgoing_def outgoing_phase_def
        sample_incoming_def incoming_phase_def sample_exec_def Collect_conv_if) auto
  have lv: "program_live sample_program = {3, 4, 5, 7, 8, 9}"
    unfolding program_live_def lr
    by (simp add: adsbus_live_def file_live_def in_phase_def exec_live_def exec_ready_def exec_sig_addr_def ps sample_file_def
        sample_outgoing_def outgoing_phase_def sample_incoming_def incoming_phase_def sample_exec_def Collect_conv_if) auto
  have sh: "3 \<in> adsbus_shut sample_program" by (simp add: adsbus_shut_def file_shut_def ps sample_file_def Collect_conv_if)
  show ?thesis
    by (rule kind_sysI) (use ci ai o ow co cw rd lv sh in \<open>auto simp: nobody_def ps split: if_splits\<close>)
qed

lemma sample_shutdown_ok: "shutdown_ok sample_program"
  by (simp add: shutdown_ok_def sample_program_simps)

lemma sample_loop_inv: "loop_inv sample_log_kernel sample_program"
  by (rule loop_invI [OF sample_program_sys sample_shutdown_ok])

lemma sample_reads_ok: "reads_ok (\<lambda>_. 128) (\<lambda>_. (8, 1))"
  by (simp add: reads_ok_def SIGNALFD_SIGINFO_SIZE_def)

text \<open>A batch: the rotation of the log, the end of the child, its log, a new connection, the socket that connects and the signal.\<close>

definition sample_events :: "peer_ref list" where
  "sample_events = [Peer_transport 9, Peer_transport 8, Peer_transport 7, Peer_transport 5, Peer_transport 4, Peer_shutdown, Peer_send 0]"

lemma sample_wait_ok: "wait_ok (\<lambda>_. Some sample_events) sample_program"
proof -
  note e = sample_program_simps(1)
  have "\<exists>g. epoll_set sample_program g = Some p" if "p \<in> set sample_events" for p
    using that by (auto simp: sample_events_def e intro: exI [of _ 12] exI [of _ 11] exI [of _ 10] exI [of _ 9] exI [of _ 8] exI [of _ 4] exI [of _ 5])
  then show ?thesis by (simp add: wait_ok_def) (simp add: sample_events_def MAX_EVENTS_def)
qed

section \<open>Properties\<close>

text \<open>
  C6. A turn of the event loop is safe while the kernel cooperates (\<open>kernel_cooperates\<close>: no call that the code
  asserts on fails, and connections come from addresses that fit into a \<^verbatim>\<open>struct sockaddr\<close>) and the log can be opened.
  Whatever batch of registered peers the kernel reports, in
  whatever order, and whatever bytes the connections then deliver: no handler of the batch, and
  none of the always-triggered inputs afterwards, meets a freed structure or a failing assertion, and the invariant
  of the program holds again. The turn can stop the program only if, when it begins, some file, outgoing connection or incoming
  transport has made more than ten attempts in a row; a turn calls handlers for at most ten events, and the
  attempt that fails is the twenty-first. If the loop ends, the program is shutting down.
\<close>

theorem event_loop_turn_safe:
  assumes "kernel_cooperates K" and "log_opens K w" and "loop_state w"
    and "env_ok E" and "reads_ok read_signal read_timer" and "wait_ok wait w"
  shows "case peer_loop_turn (program_handler E K read_signal read_timer) wait w of
      None \<Rightarrow> 10 < adsbus_tries w
    | Some (go, w') \<Rightarrow> loop_state w' \<and> log_opens K w' \<and> (go \<or> peer_shutdown_flag w')"
  using loop_turn_safe [OF assms(4,5) loop_inv_apart [OF assms(1-3)] assms(6)]
  by (auto simp: loop_inv_parts MAX_EVENTS_def split: option.splits)

theorem event_loop_turn_safe_witness:
  "\<exists>go w'. peer_loop_turn (program_handler sample_env sample_log_kernel (\<lambda>_. 128) (\<lambda>_. (8, 1)))
      (\<lambda>_. Some sample_events) sample_program = Some (go, w') \<and> loop_state w' \<and> log_opens sample_log_kernel w' \<and>
    (go \<or> peer_shutdown_flag w')"
proof -
  have k: "kernel_cooperates sample_log_kernel" "log_opens sample_log_kernel sample_program" "loop_state sample_program"
    using sample_loop_inv by (simp_all add: loop_inv_parts)
  have "\<not> 10 < adsbus_tries sample_program"
    by (simp add: adsbus_tries_def file_tries_def structs_tries_def sample_program_simps)
      (simp add: sample_outgoing_def sample_incoming_def sample_file_def outgoing_tried_def incoming_tried_def)
  then show ?thesis
    using event_loop_turn_safe [OF k sample_env_ok sample_reads_ok sample_wait_ok] by (auto split: option.splits)
qed

text \<open>
  C7. In every state the loop reaches there are no dangling pointers: what the kernel has registered is an open
  descriptor of a structure that is live and owns it; what is always triggered is live; the owner a connection will
  report to is a live transport that expects it, or a duplex connection whose reference count is the number of its open halves.
\<close>

theorem reachable_no_dangling:
  fixes K :: "'k log_kernel_scheme" and w :: "'a log_state_scheme"
  assumes "loop_reach E K read_signal read_timer w0 w" and "env_ok E" and "reads_ok read_signal read_timer"
    and "loop_inv K w0"
  shows "(\<forall>g p. epoll_set w g = Some p \<longrightarrow> fds w g \<noteq> None \<and> g \<in> peer_fds w p) \<and>
    (\<forall>p \<in> set (peer_always_trigger_head w). peer_fds w p \<noteq> {}) \<and>
    (\<forall>p. Some p \<in># conn_owners w \<longrightarrow> (\<exists>t \<in> adsbus_shut w. p = Peer_transport t) \<or>
       (\<exists>sr \<in> set (send_receive_head w). p = Peer_send_receive (sr_addr sr))) \<and>
    (\<not> peer_shutdown_flag w \<longrightarrow> (\<forall>sr \<in> set (send_receive_head w).
       unat (sr_ref_count sr) = count (conn_owners w) (Some (Peer_send_receive (sr_addr sr)))))"
proof -
  have "program_t.loop_ok TYPE('k) K w" using loop_reach_inv [OF assms] by (simp add: loop_inv_transports)
  from program_t.loop_ok_no_dangling [OF this] show ?thesis .
qed

theorem reachable_no_dangling_witness:
  "fds sample_program 4 \<noteq> None \<and> 5 \<in> peer_fds sample_program (Peer_send 0) \<and>
    peer_fds sample_program (Peer_receive 2) \<noteq> {} \<and> 3 \<in> adsbus_shut sample_program"
proof -
  note ps = sample_program_simps
  have e: "epoll_set sample_program 4 = Some Peer_shutdown" "epoll_set sample_program 5 = Some (Peer_send 0)"
    "Peer_receive 2 \<in> set (peer_always_trigger_head sample_program)" "send_receive_head sample_program = []"
    by (simp_all add: ps)
  have "Some (Peer_transport 3) \<in># conn_owners sample_program"
    by (simp add: sample_program_eq conn_owners_def closers_def sample_files_def)
  then show ?thesis
    using reachable_no_dangling [OF loop_start sample_env_ok sample_reads_ok sample_loop_inv] e by auto
qed

text \<open>
  C40. The loop ends when there is nothing left to do: without an input, or without an output, the next turn shuts the
  program down without waiting for an event, and from then on no event handler is called and every turn ends the loop.
\<close>

theorem loop_ends_without_work:
  fixes w :: "'a log_state_scheme" and K :: "'k log_kernel_scheme"
  assumes "loop_inv K w" and "peer_count_in w + peer_count_out_in w = 0 \<or> peer_count_out w + peer_count_out_in w = 0"
  shows "\<exists>w'. peer_loop_turn h wait w = Some (False, w') \<and> peer_shutdown_flag w' \<and> loop_inv K w' \<and>
    (\<forall>h' p. peer_call h' p w' = Some w') \<and> (\<forall>h' wait'. peer_loop_turn h' wait' w' = Some (False, w'))"
proof -
  have "program_t.loop_ok TYPE('k) K w" using assms(1) by (simp add: loop_inv_transports)
  from program_t.loop_ends [OF this assms(2)] show ?thesis by (simp add: loop_inv_transports)
qed

definition sample_idle :: log_state where
  "sample_idle = sample_program\<lparr>peer_count_out := 0\<rparr>"

lemma sample_idle_inv: "loop_inv sample_log_kernel sample_idle"
proof -
  note ci = kind_sysD(1) [OF sample_program_sys]
  have c: "conn_inv (\<lambda>_. 0) None sample_idle" "owners None sample_idle = owners None sample_program"
    using conn_inv_same [OF ci, of sample_idle] conn_inv_rand [OF ci] by (simp_all add: sample_idle_def)
  have fr: "t_frame sample_program sample_idle" "wakeup_head sample_idle = wakeup_head sample_program"
    by (simp_all add: t_frame_def sample_idle_def)
  have "shutdown_ok sample_idle" using sample_shutdown_ok by (simp add: shutdown_ok_def sample_idle_def)
  then show ?thesis using programs.step_same [OF sample_program_sys c(1) fr(1) c(2) fr(2)] by (intro loop_invI)
qed

theorem loop_ends_without_work_witness:
  "\<exists>w'. peer_loop_turn (program_handler sample_env sample_log_kernel (\<lambda>_. 128) (\<lambda>_. (8, 1))) (\<lambda>_. None)
      sample_idle = Some (False, w') \<and> peer_shutdown_flag w' \<and> loop_inv sample_log_kernel w' \<and>
    (\<forall>(h' :: peer_ref \<Rightarrow> log_state \<Rightarrow> log_state option) p. peer_call h' p w' = Some w') \<and>
    (\<forall>(h' :: peer_ref \<Rightarrow> log_state \<Rightarrow> log_state option) wait'. peer_loop_turn h' wait' w' = Some (False, w'))"
  by (rule loop_ends_without_work [OF sample_idle_inv])
    (simp add: sample_idle_def sample_program_simps)

end
