(* ===== verification/Stdinout.thy ===== *)
theory Stdinout
  imports Log
begin

text \<open>
  Model of \<^verbatim>\<open>adsbus/stdinout.c\<close>: the standard input as a source and the standard output as a sink. Both are
  duplicated for their flow and then replaced by devices, so that nothing else ever uses their numbers.
\<close>

section \<open>Operations\<close>

definition stdinout_open ::
    "'k log_kernel_scheme \<Rightarrow> int \<Rightarrow> string \<Rightarrow> u32 \<Rightarrow> 'a log_state_scheme \<Rightarrow> 'a log_state_scheme option" where
  "stdinout_open K fd path flags w = do {
     (opened, w) \<leftarrow> sys_open K path (flags OR O_CLOEXEC OR O_NOCTTY) w;
     c_assert (opened = fd);
     Some w
   }"

definition stdinout_reopen ::
    "'k log_kernel_scheme \<Rightarrow> int \<Rightarrow> string \<Rightarrow> u32 \<Rightarrow> 'a log_state_scheme \<Rightarrow> 'a log_state_scheme option" where
  "stdinout_reopen K fd path flags w = do {
     w \<leftarrow> sys_close fd w;
     stdinout_open K fd path flags w
   }"

text \<open>\<^verbatim>\<open>fcntl(fd, F_DUPFD_CLOEXEC, 0)\<close>: the lowest descriptor that is not open.\<close>

definition std_dup :: "'k log_kernel_scheme \<Rightarrow> int \<Rightarrow> 'a log_state_scheme \<Rightarrow> (int \<times> 'a log_state_scheme) option" where
  "std_dup K fd w = do {
     path \<leftarrow> std_files w fd;
     case find (\<lambda>fd. std_files w fd = None) [STDIN_FILENO, STDOUT_FILENO, STDERR_FILENO] of
       Some new \<Rightarrow> Some (new, w\<lparr>std_files := (std_files w)(new \<mapsto> path)\<rparr>)
     | None \<Rightarrow> Some (new_fd K w, w\<lparr>fds := (fds w)(new_fd K w \<mapsto> k_std_info K fd)\<rparr>)
   }"

definition stdinout_stdin :: "'j env \<Rightarrow> 'k log_kernel_scheme \<Rightarrow> ('a log_state_scheme) opts_handler" where
  "stdinout_stdin E K arg w = do {
     (fd, w) \<leftarrow> std_dup K STDIN_FILENO w;
     c_assert (0 \<le> fd);
     flow_new_send_hello E fd (the_flow E K Receive_flow) None None w
   }"

definition stdinout_stdout :: "'j env \<Rightarrow> 'k log_kernel_scheme \<Rightarrow> ('a log_state_scheme) opts_handler" where
  "stdinout_stdout E K arg w = do {
     arg \<leftarrow> arg;
     case send_get_serializer arg of
       None \<Rightarrow> Some (False, w)
     | Some serializer \<Rightarrow> do {
         (fd, w) \<leftarrow> std_dup K STDOUT_FILENO w;
         c_assert (0 \<le> fd);
         flow_new_send_hello E fd (the_flow E K Send_flow) (Some serializer) None w
       }
   }"

definition stdinout_preinit :: "'k log_kernel_scheme \<Rightarrow> 'a log_state_scheme \<Rightarrow> 'a log_state_scheme option" where
  "stdinout_preinit K w = do {
     w \<leftarrow> (if std_files w STDIN_FILENO = None then stdinout_open K STDIN_FILENO ''/dev/null'' O_RDONLY w else Some w);
     if std_files w STDOUT_FILENO = None then stdinout_open K STDOUT_FILENO ''/dev/full'' O_WRONLY w else Some w
   }"

definition stdinout_opts_add ::
    "'j env \<Rightarrow> 'k log_kernel_scheme \<Rightarrow> nat \<Rightarrow> ('a log_state_scheme) opts_state \<Rightarrow> ('a log_state_scheme) opts_state option" where
  "stdinout_opts_add E K stdinout_opts st = do {
     st \<leftarrow> opts_add ''stdin'' None (returning (stdinout_stdin E K)) stdinout_opts st;
     opts_add ''stdout'' (Some ''FORMAT'') (returning (stdinout_stdout E K)) stdinout_opts st
   }"

text \<open>What \<^verbatim>\<open>stdinout_init\<close> does after the options.\<close>

definition stdinout_replace :: "'k log_kernel_scheme \<Rightarrow> 'a log_state_scheme \<Rightarrow> 'a log_state_scheme option" where
  "stdinout_replace K w = do {
     w \<leftarrow> stdinout_reopen K STDIN_FILENO ''/dev/null'' O_RDONLY w;
     stdinout_reopen K STDOUT_FILENO ''/dev/full'' O_WRONLY w
   }"

definition stdinout_cleanup :: "'a log_state_scheme \<Rightarrow> 'a log_state_scheme option" where
  "stdinout_cleanup w = do {
     w \<leftarrow> sys_close STDIN_FILENO w;
     sys_close STDOUT_FILENO w
   }"

section \<open>The descriptors stay where they are\<close>

text \<open>The devices can be opened.\<close>

definition devices_open :: "'k log_kernel_scheme \<Rightarrow> bool" where
  "devices_open K \<longleftrightarrow> path_opens K ''/dev/null'' \<and> path_opens K ''/dev/full''"

lemmas std_numbers = STDIN_FILENO_def STDOUT_FILENO_def STDERR_FILENO_def

text \<open>A standard descriptor that is closed, when those below are open, is opened again with its own number.\<close>

lemma stdinout_open_spec:
  assumes "path_opens K path" and "fd \<in> {STDIN_FILENO, STDOUT_FILENO, STDERR_FILENO}" and "std_files w fd = None"
    and "STDIN_FILENO < fd \<Longrightarrow> std_files w STDIN_FILENO \<noteq> None"
    and "STDOUT_FILENO < fd \<Longrightarrow> std_files w STDOUT_FILENO \<noteq> None"
  shows "stdinout_open K fd path flags w = Some (w\<lparr>tick := tick w + 1, std_files := (std_files w)(fd \<mapsto> path)\<rparr>)"
proof -
  obtain info where i: "k_open K (tick w) path (flags OR O_CLOEXEC OR O_NOCTTY) = Some info"
    using assms(1) by (fastforce simp: path_opens_def)
  then show ?thesis
    using assms(2-5) unfolding stdinout_open_def sys_open_def i by (auto simp: std_numbers Let_def)
qed

lemma stdinout_reopen_spec:
  assumes "path_opens K path" and "fd \<in> {STDIN_FILENO, STDOUT_FILENO, STDERR_FILENO}" and "std_open w"
  shows "stdinout_reopen K fd path flags w = Some (w\<lparr>tick := tick w + 1, std_files := (std_files w)(fd \<mapsto> path)\<rparr>)"
proof -
  obtain old where o: "std_files w fd = Some old" using assms(2,3) by (auto simp: std_open_def)
  let ?v = "w\<lparr>std_files := (std_files w)(fd := None)\<rparr>"
  have le: "fd \<le> STDERR_FILENO" using assms(2) by (auto simp: std_numbers)
  have "stdinout_open K fd path flags ?v = Some (?v\<lparr>tick := tick ?v + 1, std_files := (std_files ?v)(fd \<mapsto> path)\<rparr>)"
    by (rule stdinout_open_spec [OF assms(1,2)]) (use assms(3) in \<open>auto simp: std_open_def\<close>)
  then show ?thesis using o le by (simp add: stdinout_reopen_def sys_close_def)
qed

lemma stdinout_preinit_spec:
  assumes "devices_open K"
  shows "\<exists>n sf. stdinout_preinit K w = Some (w\<lparr>tick := n, std_files := sf\<rparr>) \<and> sf STDIN_FILENO \<noteq> None \<and> sf STDOUT_FILENO \<noteq> None \<and>
    sf STDERR_FILENO = std_files w STDERR_FILENO"
proof -
  have p: "path_opens K ''/dev/null''" "path_opens K ''/dev/full''" using assms by (simp_all add: devices_open_def)
  have "\<exists>n sf. (if std_files w STDIN_FILENO = None then stdinout_open K STDIN_FILENO ''/dev/null'' O_RDONLY w else Some w) =
      Some (w\<lparr>tick := n, std_files := sf\<rparr>) \<and> sf STDIN_FILENO \<noteq> None \<and> sf STDERR_FILENO = std_files w STDERR_FILENO"
  proof (cases "std_files w STDIN_FILENO")
    case None
    have "stdinout_open K STDIN_FILENO ''/dev/null'' O_RDONLY w =
        Some (w\<lparr>tick := tick w + 1, std_files := (std_files w)(STDIN_FILENO \<mapsto> ''/dev/null'')\<rparr>)"
      by (rule stdinout_open_spec [OF p(1) _ None]) (simp_all add: std_numbers)
    then show ?thesis using None by (intro exI [of _ "tick w + 1"] exI [of _ "(std_files w)(STDIN_FILENO \<mapsto> ''/dev/null'')"])
      (simp add: std_numbers)
  next
    case (Some f)
    then show ?thesis by (intro exI [of _ "tick w"] exI [of _ "std_files w"]) simp
  qed
  then obtain n sf where v: "(if std_files w STDIN_FILENO = None then stdinout_open K STDIN_FILENO ''/dev/null'' O_RDONLY w else Some w) =
      Some (w\<lparr>tick := n, std_files := sf\<rparr>)" "sf STDIN_FILENO \<noteq> None" "sf STDERR_FILENO = std_files w STDERR_FILENO" by blast
  show ?thesis
  proof (cases "sf STDOUT_FILENO")
    case None
    have "stdinout_open K STDOUT_FILENO ''/dev/full'' O_WRONLY (w\<lparr>tick := n, std_files := sf\<rparr>) =
        Some (w\<lparr>tick := n, std_files := sf, tick := n + 1, std_files := sf(STDOUT_FILENO \<mapsto> ''/dev/full'')\<rparr>)"
      using v(2) None
      by (subst stdinout_open_spec [OF p(2)]) (simp_all add: std_numbers)
    then have "stdinout_preinit K w = Some (w\<lparr>tick := n + 1, std_files := sf(STDOUT_FILENO \<mapsto> ''/dev/full'')\<rparr>)"
      using None by (simp add: stdinout_preinit_def v(1))
    then show ?thesis using v(2,3)
      by (intro exI [of _ "n + 1"] exI [of _ "sf(STDOUT_FILENO \<mapsto> ''/dev/full'')"]) (simp add: std_numbers)
  next
    case (Some f)
    then show ?thesis using v(2,3)
      by (intro exI [of _ n] exI [of _ sf]) (simp add: stdinout_preinit_def v(1))
  qed
qed

section \<open>The options\<close>

lemma std_dup_spec:
  assumes "std_open w" and "fd \<in> {STDIN_FILENO, STDOUT_FILENO, STDERR_FILENO}"
  shows "std_dup K fd w = Some (new_fd K w, w\<lparr>fds := (fds w)(new_fd K w \<mapsto> k_std_info K fd)\<rparr>)"
proof -
  obtain path where p: "std_files w fd = Some path" using assms by (auto simp: std_open_def)
  have "find (\<lambda>fd. std_files w fd = None) [STDIN_FILENO, STDOUT_FILENO, STDERR_FILENO] = None"
    using assms(1) by (auto simp: std_open_def)
  then show ?thesis unfolding std_dup_def p by simp
qed

text \<open>A duplicate of a standard descriptor is handed over to a flow; nobody is told of its end.\<close>

lemma std_handed_over:
  fixes w :: "'a log_state_scheme" and K :: "'k log_kernel_scheme"
  assumes sys: "program_sys K oth f w" and fd: "fd \<in> {STDIN_FILENO, STDOUT_FILENO, STDERR_FILENO}"
    and pass: "flow_pass_ok flow pass"
  shows "\<exists>ok w'. (do {
      (fd, w) \<leftarrow> std_dup K fd w;
      c_assert (0 \<le> fd);
      flow_new_send_hello E fd (the_flow E K flow) pass None w
    }) = Some (ok, w') \<and> program_sys K oth f w' \<and> call_frame w w' \<and> exec_sig w' = exec_sig w"
proof -
  note inv = kind_sysD(1) [OF sys]
  have pi: "adsbus_inv K w" "log_inv K w" using kind_sysD(2) [OF sys] by (simp_all add: program_inv_def)
  have K: "kernel_ok K" and std: "std_open w" using pi by (simp_all add: adsbus_inv_def log_inv_def)
  have fin: "finite (dom (fds w))" using inv by (simp add: conn_inv_def)
  note n = new_fd_fresh [OF K fin]
  define v where "v = w\<lparr>fds := (fds w)(new_fd K w \<mapsto> k_std_info K fd)\<rparr>"
  have vi: "conn_inv (\<lambda>_. 0) f v" "owners f v = owners f w" "fd_unused (new_fd K w) v"
    using conn_inv_opened [OF inv n] by (simp_all add: v_def)
  have vf: "conn_frame w v" by (rule conn_frameI) (simp_all add: v_def t_frame_def)
  have vs: "program_sys K oth f v"
    using vf by (intro programs.step_same [OF sys vi(1) _ vi(2)]) (simp_all add: conn_frame_def)
  have own: "owner_free f None v" by (simp add: owner_free_def)
  from handed_over [OF K vi(1,3) pass own, of E] obtain ok w' where
    w': "flow_new_send_hello E (new_fd K w) (the_flow E K flow) pass None v = Some (ok, w')"
      "conn_inv (\<lambda>_. 0) f w'" "conn_frame v w'" "if ok then made f v None w' else owners f w' = owners f v" by blast
  have "program_sys K oth f w'"
  proof (cases ok)
    case True
    then show ?thesis using w'(4) by (intro programs.step_made [OF vs w'(2), of None]) simp_all
  next
    case False
    then show ?thesis using w'(3,4) by (intro programs.step_same [OF vs w'(2)]) (simp_all add: conn_frame_def)
  qed
  moreover have cf: "conn_frame w w'" by (rule conn_frame_trans [OF vf w'(3)])
  moreover have "exec_sig w' = exec_sig w" using cf more_exec(2) [of w' w] by (simp add: conn_frame_def t_frame_def)
  moreover have "(do {
      (fd, w) \<leftarrow> std_dup K fd w;
      c_assert (0 \<le> fd);
      flow_new_send_hello E fd (the_flow E K flow) pass None w
    }) = Some (ok, w')"
    using std_dup_spec [OF std fd, of K] n(1) w'(1) by (simp add: v_def)
  ultimately show ?thesis using call_frameI by blast
qed

lemma stdinout_stdin_spec:
  fixes w :: "'a log_state_scheme" and K :: "'k log_kernel_scheme"
  assumes "program_sys K oth f w"
  shows "\<exists>ok w'. stdinout_stdin E K arg w = Some (ok, w') \<and> program_sys K oth f w' \<and> call_frame w w' \<and> exec_sig w' = exec_sig w"
  unfolding stdinout_stdin_def by (rule std_handed_over [OF assms]) (simp_all add: flow_pass_ok_def)

lemma stdinout_stdout_spec:
  fixes w :: "'a log_state_scheme" and K :: "'k log_kernel_scheme"
  assumes sys: "program_sys K oth f w"
  shows "\<exists>ok w'. stdinout_stdout E K (Some arg) w = Some (ok, w') \<and> program_sys K oth f w' \<and> call_frame w w' \<and> exec_sig w' = exec_sig w"
proof (cases "send_get_serializer arg")
  case None
  then show ?thesis using sys by (simp add: stdinout_stdout_def)
next
  case (Some i)
  then have "i < NUM_SERIALIZERS" using send_get_serializer_spec [of arg] by simp
  then have "flow_pass_ok Send_flow (Some i)" by (simp add: flow_pass_ok_def format_ok_def)
  from std_handed_over [OF sys _ this, of STDOUT_FILENO E] show ?thesis using Some by (simp add: stdinout_stdout_def)
qed

text \<open>Replacing both descriptors by the devices never fails.\<close>

lemma stdinout_replace_spec:
  fixes w :: "'a log_state_scheme" and K :: "'k log_kernel_scheme"
  assumes sys: "program_sys K oth f w" and dev: "devices_open K"
  shows "\<exists>w'. stdinout_replace K w = Some w' \<and> program_sys K oth f w' \<and> call_frame w w' \<and> exec_sig w' = exec_sig w \<and>
    std_files w' = (std_files w)(STDIN_FILENO \<mapsto> ''/dev/null'', STDOUT_FILENO \<mapsto> ''/dev/full'')"
proof -
  have std: "std_open w" using kind_sysD(2) [OF sys] by (simp add: program_inv_def log_inv_def)
  define v where "v = w\<lparr>tick := tick w + 1, std_files := (std_files w)(STDIN_FILENO \<mapsto> ''/dev/null'')\<rparr>"
  define u where "u = w\<lparr>tick := tick w + 2, std_files := (std_files w)(STDIN_FILENO \<mapsto> ''/dev/null'', STDOUT_FILENO \<mapsto> ''/dev/full'')\<rparr>"
  have sv: "std_open v" "std_open u" using std by (simp_all add: std_open_def v_def u_def)
  have p: "path_opens K ''/dev/null''" "path_opens K ''/dev/full''" using dev by (simp_all add: devices_open_def)
  have 1: "stdinout_reopen K STDIN_FILENO ''/dev/null'' O_RDONLY w = Some v"
    using stdinout_reopen_spec [OF p(1) _ std, where fd = STDIN_FILENO and flags = O_RDONLY] by (simp add: v_def)
  have 2: "stdinout_reopen K STDOUT_FILENO ''/dev/full'' O_WRONLY v = Some u"
    using stdinout_reopen_spec [OF p(2) _ sv(1), where fd = STDOUT_FILENO and flags = O_WRONLY] by (simp add: v_def u_def)
  have "stdinout_replace K w = Some u" unfolding stdinout_replace_def 1 using 2 by simp
  moreover have "log_step w u" using sv(2) unfolding u_def by (rule log_steps(6))
  moreover have "std_files u = (std_files w)(STDIN_FILENO \<mapsto> ''/dev/null'', STDOUT_FILENO \<mapsto> ''/dev/full'')" by (simp add: u_def)
  ultimately show ?thesis using program_log_step [OF sys, of u] by blast
qed

end
