(* ===== verification/Server.thy ===== *)
theory Server
  imports Log
begin

text \<open>
  Model of \<^verbatim>\<open>adsbus/server.c\<close>: the identity of this server, what it writes to the log when it starts, and the two
  options of the process. \<^verbatim>\<open>fork\<close> returns in both processes, and its result says which one is followed: the parent exits, the child goes on.
  What the preprocessor puts in for the build, and the libraries for the machine, are parameters.
\<close>

section \<open>State\<close>

text \<open>
  \<open>k_detach\<close> is the result of \<^verbatim>\<open>fork\<close>, \<open>k_setsid\<close> of \<^verbatim>\<open>setsid\<close>, \<open>k_pid\<close> the number of the process, \<open>k_write_pid\<close> whether the
  three calls that write a file succeed. \<open>k_macro\<close> is what a macro of the build stands for, with \<open>k_glibc\<close> and
  \<open>k_git_local_clean\<close> for those that are numbers; \<open>k_uname\<close> and \<open>k_caps\<close> are whether the calls about the system and the
  capabilities succeed, \<open>k_system\<close> what they and \<^verbatim>\<open>getlogin\<close> give.
\<close>

record server_kernel = log_kernel +
  k_detach :: "nat \<Rightarrow> int"
  k_setsid :: "nat \<Rightarrow> int"
  k_pid :: nat
  k_write_pid :: "string \<Rightarrow> bool"
  k_macro :: "string \<Rightarrow> u8 list"
  k_glibc :: "nat \<times> nat"
  k_git_local_clean :: bool
  k_uname :: bool
  k_caps :: bool
  k_system :: "string \<Rightarrow> u8 list"

record server_state = log_state +
  server_id :: "u8 list"
  pid_files :: "(string \<times> u8 list) list"

definition server_version :: "u8 list" where
  "server_version = c_strz (c_str ''https://github.com/flamingcowtv/adsb-tools#1'')"

text \<open>\<^verbatim>\<open>"%u"\<close>.\<close>

fun decimal :: "nat \<Rightarrow> u8 list" where
  "decimal n = (if n < 10 then [48 + of_nat n] else decimal (n div 10) @ [48 + of_nat (n mod 10)])"

declare decimal.simps [simp del]

section \<open>Operations\<close>

definition server_detach :: "'k server_kernel_scheme \<Rightarrow> ('a server_state_scheme) opts_fn" where
  "server_detach K arg w = do {
     w \<leftarrow> log_write K (CHR ''X'') ''server.c:27'' (server_id w) (c_str ''Detaching'') w;
     let ret = k_detach K (tick w);
     let w = w\<lparr>tick := tick w + 1\<rparr>;
     c_assert (0 \<le> ret);
     if 0 < ret then Some (Exits True)
     else do {
       w \<leftarrow> log_write K (CHR ''X'') ''server.c:36'' (server_id w) (c_str ''Background process ID: '' @ decimal (k_pid K)) w;
       c_assert (0 \<le> k_setsid K (tick w));
       Some (Returns (True, w))
     }
   }"

definition server_pid_file :: "'k server_kernel_scheme \<Rightarrow> ('a server_state_scheme) opts_handler" where
  "server_pid_file K arg w = do {
     path \<leftarrow> arg;
     w \<leftarrow> log_write K (CHR ''X'') ''server.c:45'' (server_id w)
       (c_str ''Writing process ID '' @ decimal (k_pid K) @ c_str '' to pid-file: '' @ c_str path) w;
     c_assert (k_write_pid K path);
     Some (True, w\<lparr>pid_files := pid_files w @ [(path, decimal (k_pid K) @ [10])]\<rparr>)
   }"

definition server_opts_add ::
    "'k server_kernel_scheme \<Rightarrow> nat \<Rightarrow> nat \<Rightarrow> ('a server_state_scheme) opts_state \<Rightarrow> ('a server_state_scheme) opts_state option" where
  "server_opts_add K server_opts1 server_opts2 st = do {
     st \<leftarrow> opts_add ''detach'' None (server_detach K) server_opts1 st;
     opts_add ''pid-file'' (Some ''PATH'') (returning (server_pid_file K)) server_opts2 st
   }"

text \<open>The lines about the build and about the machine, with their places.\<close>

definition server_build :: "'k server_kernel_scheme \<Rightarrow> (string \<times> u8 list) list" where
  "server_build K =
     [(''server.c:61'', c_str ''Build data:''),
      (''server.c:62'', 9 # c_str ''git_last_change: '' @ k_macro K ''GIT_LAST_CHANGE''),
      (''server.c:63'', 9 # c_str ''git_local_clean: '' @ c_str (if k_git_local_clean K then ''true'' else ''false'')),
      (''server.c:64'', 9 # c_str ''clang_version: '' @ k_macro K ''__clang_version__''),
      (''server.c:65'', 9 # c_str ''glibc_version: '' @ decimal (fst (k_glibc K)) @ c_str ''.'' @ decimal (snd (k_glibc K))),
      (''server.c:66'', 9 # c_str ''jansson_version: '' @ k_macro K ''JANSSON_VERSION''),
      (''server.c:67'', 9 # c_str ''protobuf-c_version: '' @ k_macro K ''PROTOBUF_C_VERSION''),
      (''server.c:68'', 9 # c_str ''datetime: '' @ k_macro K ''__DATE__'' @ c_str '' '' @ k_macro K ''__TIME__''),
      (''server.c:69'', 9 # c_str ''username: '' @ k_macro K ''USERNAME''),
      (''server.c:70'', 9 # c_str ''hostname: '' @ k_macro K ''HOSTNAME''),
      (''server.c:72'', c_str ''Runtime data:'')]"

definition server_runtime :: "'k server_kernel_scheme \<Rightarrow> (string \<times> u8 list) list" where
  "server_runtime K =
     [(''server.c:80'', 9 # c_str ''username: '' @ k_system K ''getlogin''),
      (''server.c:81'', 9 # c_str ''hostname: '' @ k_system K ''nodename''),
      (''server.c:82'', 9 # c_str ''process_id: '' @ decimal (k_pid K)),
      (''server.c:83'', 9 # c_str ''capabilities: '' @ k_system K ''caps_str''),
      (''server.c:84'', 9 # c_str ''system: '' @ k_system K ''sysname''),
      (''server.c:85'', 9 # c_str ''release: '' @ k_system K ''release''),
      (''server.c:86'', 9 # c_str ''version: '' @ k_system K ''version''),
      (''server.c:87'', 9 # c_str ''machine: '' @ k_system K ''machine'')]"

fun server_info :: "'k server_kernel_scheme \<Rightarrow> (string \<times> u8 list) list \<Rightarrow> 'a server_state_scheme \<Rightarrow> 'a server_state_scheme option" where
  "server_info K [] w = Some w"
| "server_info K ((loc, msg) # lines) w = do {
     w \<leftarrow> log_write K (CHR ''X'') loc (server_id w) msg w;
     server_info K lines w
   }"

text \<open>What \<^verbatim>\<open>server_init\<close> does before the options.\<close>

definition server_start :: "'j env \<Rightarrow> 'k server_kernel_scheme \<Rightarrow> 'a server_state_scheme \<Rightarrow> 'a server_state_scheme option" where
  "server_start E K w = do {
     (uid, rs) \<leftarrow> uuid_gen (env_entropy E) (rnd w) (replicate UUID_LEN 0);
     w \<leftarrow> log_write K (CHR ''X'') ''server.c:60'' uid (c_str ''Server start'') (w\<lparr>rnd := rs, server_id := uid\<rparr>);
     w \<leftarrow> server_info K (server_build K) w;
     c_assert (k_uname K);
     c_assert (k_caps K);
     server_info K (server_runtime K) w
   }"

section \<open>What they rely on\<close>

text \<open>A process can be forked, every pid-file can be written, and the system tells of itself.\<close>

definition server_kernel_ok :: "'k server_kernel_scheme \<Rightarrow> bool" where
  "server_kernel_ok K \<longleftrightarrow> log_kernel_ok K \<and> (\<forall>n. 0 \<le> k_detach K n \<and> 0 \<le> k_setsid K n) \<and> (\<forall>path. k_write_pid K path) \<and>
     k_uname K \<and> k_caps K"

text \<open>Besides the log, only the identity and the pid-files are written.\<close>

definition server_step :: "'a server_state_scheme \<Rightarrow> 'a server_state_scheme \<Rightarrow> bool" where
  "server_step w w' \<longleftrightarrow> (\<exists>v uid ps. log_step w v \<and> w' = v\<lparr>server_id := uid, pid_files := ps\<rparr>) \<and>
     (is_c_str (server_id w) \<longrightarrow> is_c_str (server_id w'))"

lemma log_server:
  fixes w v :: "'a server_state_scheme"
  assumes "log_step w v"
  shows "log_step (w\<lparr>server_id := uid, pid_files := ps\<rparr>) (v\<lparr>server_id := uid, pid_files := ps\<rparr>)"
    and "server_id v = server_id w" and "pid_files v = pid_files w"
proof -
  obtain n rs sf lid ls where v: "v = w\<lparr>tick := n, rnd := rs, std_files := sf, log_id := lid, log_lines := ls\<rparr>"
    using assms by (auto simp: log_step_def)
  then show "server_id v = server_id w" "pid_files v = pid_files w" by simp_all
  have "v\<lparr>server_id := uid, pid_files := ps\<rparr> =
      w\<lparr>server_id := uid, pid_files := ps, tick := n, rnd := rs, std_files := sf, log_id := lid, log_lines := ls\<rparr>" by (simp add: v)
  then show "log_step (w\<lparr>server_id := uid, pid_files := ps\<rparr>) (v\<lparr>server_id := uid, pid_files := ps\<rparr>)"
    by (rule log_stepI) (use assms v in \<open>simp_all add: log_step_def std_open_def\<close>)
qed

lemma server_step_log:
  fixes w v :: "'a server_state_scheme"
  assumes "log_step w v"
  shows "server_step w v"
  using log_server(2) [OF assms] assms unfolding server_step_def
  by (intro conjI exI [of _ v] exI [of _ "server_id v"] exI [of _ "pid_files v"]) simp_all

lemma server_step_trans: "server_step u v \<Longrightarrow> server_step v w \<Longrightarrow> server_step u w"
proof -
  assume uv: "server_step u v" and vw: "server_step v w"
  obtain x uid ps where x: "log_step u x" "v = x\<lparr>server_id := uid, pid_files := ps\<rparr>" using uv by (auto simp: server_step_def)
  obtain y uid' ps' where y: "log_step v y" "w = y\<lparr>server_id := uid', pid_files := ps'\<rparr>" using vw by (auto simp: server_step_def)
  have "log_step x (y\<lparr>server_id := server_id x, pid_files := pid_files x\<rparr>)"
    using log_server(1) [OF y(1), where uid = "server_id x" and ps = "pid_files x"] x(2) by simp
  from log_step_trans [OF x(1) this] show "server_step u w"
    using uv vw unfolding server_step_def
    by (intro conjI exI [of _ "y\<lparr>server_id := server_id x, pid_files := pid_files x\<rparr>"] exI [of _ uid'] exI [of _ ps'])
      (simp_all add: y(2))
qed

lemma decimal_ne [simp]: "decimal n \<noteq> []"
  by (subst decimal.simps) simp

lemma server_log_write:
  fixes w :: "'a server_state_scheme"
  assumes "log_kernel_ok K" and "is_c_str uid" and "msg \<noteq> []"
  shows "\<exists>w'. log_write K ty loc uid msg w = Some w' \<and> server_step w w' \<and> server_id w' = server_id w"
  using log_write_spec [OF assms, of ty loc w] server_step_log log_server(2) by blast

lemma server_detach_spec:
  fixes w :: "'a server_state_scheme"
  assumes K: "server_kernel_ok K" and uid: "is_c_str (server_id w)"
  shows "server_detach K arg w = Some (Exits True) \<or>
    (\<exists>w'. server_detach K arg w = Some (Returns (True, w')) \<and> server_step w w' \<and> server_id w' = server_id w)"
proof -
  have lk: "log_kernel_ok K" and k: "0 \<le> k_detach K n" "0 \<le> k_setsid K n" for n using K by (simp_all add: server_kernel_ok_def)
  have m: "c_str ''Detaching'' \<noteq> []" by simp
  from server_log_write [OF lk uid m] obtain u where
    u: "log_write K (CHR ''X'') ''server.c:27'' (server_id w) (c_str ''Detaching'') w = Some u" "server_step w u"
      "server_id u = server_id w" by blast
  let ?u = "u\<lparr>tick := tick u + 1\<rparr>"
  note su = server_step_trans [OF u(2) server_step_log [OF log_steps(1) [of u "tick u + 1"]]]
  let ?m = "c_str ''Background process ID: '' @ decimal (k_pid K)"
  have "?m \<noteq> []" by simp
  from server_log_write [OF lk uid this, of "CHR ''X''" "''server.c:36''" ?u] obtain v where
    v: "log_write K (CHR ''X'') ''server.c:36'' (server_id w) ?m ?u = Some v" "server_step ?u v" "server_id v = server_id w"
    using u(3) by auto
  have "server_detach K arg w = (if 0 < k_detach K (tick u) then Some (Exits True) else Some (Returns (True, v)))"
    using u(1,3) v(1) k by (simp add: server_detach_def Let_def)
  then show ?thesis using server_step_trans [OF su v(2)] v(3) by simp
qed

lemma server_pid_file_spec:
  fixes w :: "'a server_state_scheme"
  assumes K: "server_kernel_ok K" and uid: "is_c_str (server_id w)"
  shows "\<exists>w'. server_pid_file K (Some path) w = Some (True, w') \<and> server_step w w' \<and> server_id w' = server_id w \<and>
    pid_files w' = pid_files w @ [(path, decimal (k_pid K) @ [10])]"
proof -
  have lk: "log_kernel_ok K" and k: "k_write_pid K path" using K by (simp_all add: server_kernel_ok_def)
  let ?m = "c_str ''Writing process ID '' @ decimal (k_pid K) @ c_str '' to pid-file: '' @ c_str path"
  have "?m \<noteq> []" by simp
  from log_write_spec [OF lk uid this] obtain u where
    u: "log_write K (CHR ''X'') ''server.c:45'' (server_id w) ?m w = Some u" "log_step w u" by blast
  note l = log_server(2,3) [OF u(2)]
  have "server_step w (u\<lparr>pid_files := pid_files u @ [(path, decimal (k_pid K) @ [10])]\<rparr>)"
    unfolding server_step_def
    by (intro conjI exI [of _ u] exI [of _ "server_id u"] exI [of _ "pid_files u @ [(path, decimal (k_pid K) @ [10])]"])
      (simp_all add: u(2) l uid)
  then show ?thesis using u(1) k l by (simp add: server_pid_file_def)
qed

lemma server_info_spec:
  fixes w :: "'a server_state_scheme"
  assumes "log_kernel_ok K" and "is_c_str (server_id w)" and "\<forall>line \<in> set lines. snd line \<noteq> []"
  shows "\<exists>w'. server_info K lines w = Some w' \<and> log_step w w'"
  using assms(2,3)
proof (induction lines arbitrary: w)
  case Nil
  then show ?case by simp
next
  case (Cons line lines)
  obtain loc msg where line: "line = (loc, msg)" by (cases line)
  have "msg \<noteq> []" using Cons.prems(2) line by simp
  from log_write_spec [OF assms(1) Cons.prems(1) this] obtain u where
    u: "log_write K (CHR ''X'') loc (server_id w) msg w = Some u" "log_step w u" by blast
  have "is_c_str (server_id u)" using Cons.prems(1) log_server(2) [OF u(2)] by simp
  from Cons.IH [OF this] Cons.prems(2) obtain v where "server_info K lines u = Some v" "log_step u v" by auto
  then show ?case using u log_step_trans by (simp add: line) blast
qed

text \<open>The identity is a valid one, and different only by chance from what it was.\<close>

lemma server_start_spec:
  fixes w :: "'a server_state_scheme"
  assumes K: "server_kernel_ok K" and rw: "rand_ok (rnd w)"
  shows "\<exists>w'. server_start E K w = Some w' \<and> server_step w w' \<and> is_c_str (server_id w') \<and>
    (\<exists>rs. uuid_gen (env_entropy E) (rnd w) (replicate UUID_LEN 0) = Some (server_id w', rs)) \<and> valid_id (server_id w')"
proof -
  have lk: "log_kernel_ok K" and k: "k_uname K" "k_caps K" using K by (simp_all add: server_kernel_ok_def)
  have lines: "\<forall>line \<in> set (server_build K). snd line \<noteq> []" "\<forall>line \<in> set (server_runtime K). snd line \<noteq> []"
    by (simp_all add: server_build_def server_runtime_def)
  from uuid_gen_valid [OF rw, of "replicate UUID_LEN 0" "env_entropy E"] obtain uid rs where
    u: "uuid_gen (env_entropy E) (rnd w) (replicate UUID_LEN 0) = Some (uid, rs)" "rand_ok rs" "valid_id uid"
    by (auto simp: UUID_LEN_def)
  note cs = valid_id_c_str [OF u(3)]
  let ?v = "w\<lparr>rnd := rs, server_id := uid\<rparr>"
  have sv: "server_step w ?v" using log_steps(3) [OF u(2), of w] unfolding server_step_def
    by (intro conjI exI [of _ "w\<lparr>rnd := rs\<rparr>"] exI [of _ uid] exI [of _ "pid_files w"]) (simp_all add: cs)
  have m: "c_str ''Server start'' \<noteq> []" by simp
  from log_write_spec [OF lk cs m] obtain x where
    x: "log_write K (CHR ''X'') ''server.c:60'' uid (c_str ''Server start'') ?v = Some x" "log_step ?v x" by blast
  have ix: "server_id x = uid" using log_server(2) [OF x(2)] by simp
  from server_info_spec [OF lk _ lines(1), of x] ix cs obtain z where z: "server_info K (server_build K) x = Some z" "log_step x z" by auto
  have iz: "server_id z = uid" using log_server(2) [OF z(2)] ix by simp
  from server_info_spec [OF lk _ lines(2), of z] iz cs obtain y where y: "server_info K (server_runtime K) z = Some y" "log_step x y"
    using log_step_trans [OF z(2)] by auto
  have iy: "server_id y = uid" using log_server(2) [OF y(2)] ix by simp
  have "server_start E K w = Some y" using u(1) x(1) z(1) y(1) k by (simp add: server_start_def)
  moreover have "server_step w y"
    using server_step_trans [OF sv server_step_log [OF log_step_trans [OF x(2) y(2)]]] .
  ultimately show ?thesis using u(1,3) cs iy by auto
qed

end
