(* ===== verification/Program.thy ===== *)
theory Program
  imports Event_Loop Stdinout Server
begin

text \<open>
  Model of \<^verbatim>\<open>adsbus/adsbus.c\<close>: how \<^verbatim>\<open>main\<close> starts the program. The components register their options, then each is
  initialised in turn and its options are carried out; what comes out is a state the event loop can start in. Also here are
  the initialisation functions of the components that call back the options, which need the table of all of them.
\<close>

section \<open>The static storage\<close>

text \<open>\<open>std\<close> are the standard descriptors the process is given. Addresses count from 1.\<close>

definition program_zero :: "(int \<Rightarrow> string option) \<Rightarrow> server_state" where
  "program_zero std = \<lparr>peer_count_in = 0, peer_count_out = 0, peer_count_out_in = 0, peer_shutdown_flag = False,
     peer_shutdown_peer = \<lparr>peer_fd = 0, peer_always_trigger = False\<rparr>, peer_always_trigger_head = [], fds = Map.empty,
     epoll_set = Map.empty, send_heads = [], stats = stats_init 0, json_hello_buf = BUF_INIT, proto_hello_buf = BUF_INIT,
     rnd = \<lparr>rand_buf = BUF_INIT, rand_pos = 0\<rparr>, next_addr = 1, tick = 0, trace = [], receive_head = [], receive_max_hops = 10,
     wakeup_head = [], timers = Map.empty, send_receive_head = [], file_head = [], async_threads = None, async_write_fd = -1,
     async_requests = Map.empty, outgoing_head = [], addrs_lost = [], incoming_head = [], exec_head = [], exec_sig = None, exec_log = [],
     std_files = std, log_path = None, log_id = replicate UUID_LEN 0, log_rotate_peer = None, log_timestamps = False,
     log_quiet = False, log_lines = [], server_id = replicate UUID_LEN 0, pid_files = []\<rparr>"

text \<open>The groups of options are the addresses of static arrays, so all different.\<close>

definition opts_group_internal :: nat where "opts_group_internal = 0"
definition server_opts1 :: nat where "server_opts1 = 1"
definition server_opts2 :: nat where "server_opts2 = 2"
definition log_opts :: nat where "log_opts = 3"
definition outgoing_opts :: nat where "outgoing_opts = 4"
definition incoming_opts :: nat where "incoming_opts = 5"
definition exec_opts :: nat where "exec_opts = 6"
definition file_opts :: nat where "file_opts = 7"
definition stdinout_opts :: nat where "stdinout_opts = 8"

lemmas opts_groups = opts_group_internal_def server_opts1_def server_opts2_def log_opts_def outgoing_opts_def incoming_opts_def
  exec_opts_def file_opts_def stdinout_opts_def

type_synonym server_opts = "server_state opts_state"

section \<open>Initialisation\<close>

definition adsbus_opts_add :: "'j env \<Rightarrow> 'k server_kernel_scheme \<Rightarrow> server_opts \<Rightarrow> server_opts option" where
  "adsbus_opts_add E K st = do {
     st \<leftarrow> server_opts_add K server_opts1 server_opts2 st;
     st \<leftarrow> log_opts_add log_opts st;
     st \<leftarrow> outgoing_opts_add E K outgoing_opts st;
     st \<leftarrow> incoming_opts_add E K incoming_opts st;
     st \<leftarrow> exec_opts_add E K exec_opts st;
     st \<leftarrow> file_opts_add E K file_opts st;
     stdinout_opts_add E K stdinout_opts st
   }"

text \<open>\<^verbatim>\<open>--help\<close> prints the usage and exits with success.\<close>

definition opts_help :: "server_state opts_fn" where
  "opts_help arg w = Some (Exits True)"

text \<open>An option that is refused, or that exits, ends the program.\<close>

definition outcome_then :: "'s outcome option \<Rightarrow> ('s \<Rightarrow> 't outcome option) \<Rightarrow> 't outcome option" where
  "outcome_then r f = (case r of
     None \<Rightarrow> None
   | Some (Returns s) \<Rightarrow> f s
   | Some (Exits ok) \<Rightarrow> Some (Exits ok))"

record 'j program_args =
  arg_env :: "'j env"
  arg_getopt :: "nat \<Rightarrow> getopt_res"
  arg_argc :: nat
  arg_max_hops :: "string option"

definition call_group :: "'j program_args \<Rightarrow> nat \<Rightarrow> server_opts \<Rightarrow> server_state \<Rightarrow> server_state outcome option" where
  "call_group A grp st w = opts_call (arg_getopt A) (arg_argc A) grp st w"

definition log_init ::
    "'j program_args \<Rightarrow> 'k server_kernel_scheme \<Rightarrow> server_opts \<Rightarrow> server_state \<Rightarrow> server_state outcome option" where
  "log_init A K st w = outcome_then (call_group A log_opts st w) (\<lambda>w. map_option Returns (log_start (arg_env A) K w))"

definition server_init ::
    "'j program_args \<Rightarrow> 'k server_kernel_scheme \<Rightarrow> server_opts \<Rightarrow> server_state \<Rightarrow> server_state outcome option" where
  "server_init A K st w = do {
     w \<leftarrow> server_start (arg_env A) K w;
     outcome_then (call_group A server_opts1 st w) (call_group A server_opts2 st)
   }"

definition exec_init ::
    "'j program_args \<Rightarrow> 'k server_kernel_scheme \<Rightarrow> server_opts \<Rightarrow> server_state \<Rightarrow> server_state outcome option" where
  "exec_init A K st w = outcome_then (call_group A exec_opts st w) (\<lambda>w. map_option Returns (exec_init_peer K w))"

definition stdinout_init ::
    "'j program_args \<Rightarrow> 'k server_kernel_scheme \<Rightarrow> server_opts \<Rightarrow> server_state \<Rightarrow> server_state outcome option" where
  "stdinout_init A K st w = outcome_then (call_group A stdinout_opts st w) (\<lambda>w. map_option Returns (stdinout_replace K w))"

text \<open>The descriptors of the two signals come from \<^verbatim>\<open>signalfd\<close>. The formats without state have nothing to set up.\<close>

definition program_peers :: "'k server_kernel_scheme \<Rightarrow> server_state \<Rightarrow> server_state option" where
  "program_peers K w = do {
     w \<leftarrow> resolve_init K w;
     (fd, w) \<leftarrow> open_socket K w;
     w \<leftarrow> peer_init fd w;
     log_init_peer K w
   }"

definition program_formats :: "'j program_args \<Rightarrow> server_state \<Rightarrow> server_state option" where
  "program_formats A w = do {
     w \<leftarrow> receive_init (arg_max_hops A) w;
     let w = send_init w;
     beast_init;
     (b, rs) \<leftarrow> json_init (env_entropy (arg_env A)) (rnd w) (env_dump (arg_env A)) server_version (server_id w);
     let w = w\<lparr>json_hello_buf := b, rnd := rs\<rparr>;
     b \<leftarrow> proto_init (env_pack (arg_env A)) server_version (server_id w);
     let w = w\<lparr>proto_hello_buf := b\<rparr>;
     Some (w\<lparr>stats := stats_init (env_clock (arg_env A) (tick w)), tick := tick w + 1\<rparr>)
   }"

definition program_transports ::
    "'j program_args \<Rightarrow> 'k server_kernel_scheme \<Rightarrow> server_opts \<Rightarrow> server_state \<Rightarrow> server_state outcome option" where
  "program_transports A K st w =
     outcome_then (call_group A outgoing_opts st w) (\<lambda>w.
     outcome_then (call_group A incoming_opts st w) (\<lambda>w.
     outcome_then (exec_init A K st w) (\<lambda>w.
     outcome_then (call_group A file_opts st w)
       (stdinout_init A K st))))"

text \<open>
  The beginning of \<^verbatim>\<open>main\<close>, up to the event loop. The handlers of the options read the variable \<^verbatim>\<open>server_id\<close>, which is part of
  the environment here; the table is therefore taken with the environment as it is after \<^verbatim>\<open>server_init\<close>.
  The result is that environment and the state.
\<close>

definition program_env :: "'j env \<Rightarrow> server_state \<Rightarrow> 'j env" where
  "program_env E w = E\<lparr>env_server_id := server_id w\<rparr>"

definition program_table :: "'j program_args \<Rightarrow> 'k server_kernel_scheme \<Rightarrow> server_opts option" where
  "program_table A K = do {
     st \<leftarrow> adsbus_opts_add (arg_env A) K opts_empty;
     opts_complete opts_help opts_group_internal st
   }"

definition program_started :: "'j program_args \<Rightarrow> 'k server_kernel_scheme \<Rightarrow> server_state \<Rightarrow> server_state outcome option" where
  "program_started A K w = do {
     w \<leftarrow> stdinout_preinit K w;
     st \<leftarrow> adsbus_opts_add (arg_env A) K opts_empty;
     (st, r) \<leftarrow> opts_init (arg_getopt A) (arg_argc A) opts_help opts_group_internal st w;
     outcome_then (Some r) (\<lambda>w. do {
       rs \<leftarrow> rand_init (env_entropy (arg_env A));
       outcome_then (log_init A K st (w\<lparr>rnd := rs\<rparr>)) (server_init A K st)
     })
   }"

definition adsbus_init ::
    "'j program_args \<Rightarrow> 'k server_kernel_scheme \<Rightarrow> server_state \<Rightarrow> ('j program_args \<times> server_state) outcome option" where
  "adsbus_init A K w = outcome_then (program_started A K w) (\<lambda>w. do {
     let A = A\<lparr>arg_env := program_env (arg_env A) w\<rparr>;
     st \<leftarrow> program_table A K;
     w \<leftarrow> program_peers K w;
     w \<leftarrow> program_formats A w;
     outcome_then (program_transports A K st w) (\<lambda>w. Some (Returns (A, w)))
   })"

section \<open>The table of options\<close>

text \<open>Which options there are, and whether they take an argument.\<close>

definition program_options :: "(string \<times> bool) list" where
  "program_options =
     [(''detach'', False), (''pid-file'', True), (''log-file'', True), (''log-timestamps'', False), (''quiet'', False),
      (''connect-receive'', True), (''connect-send'', True), (''connect-send-receive'', True),
      (''listen-receive'', True), (''listen-send'', True), (''listen-send-receive'', True),
      (''exec-receive'', True), (''exec-send'', True), (''exec-send-receive'', True),
      (''file-read'', True), (''file-write'', True), (''file-write-read'', True), (''file-append'', True),
      (''file-append-read'', True), (''stdin'', False), (''stdout'', True), (''help'', False)]"

definition program_entries :: "'j env \<Rightarrow> 'k server_kernel_scheme \<Rightarrow> (string \<times> server_state opt) list" where
  "program_entries E K =
     [(''detach'', \<lparr>arg_help = None, opt_handler = server_detach K, opt_group = server_opts1\<rparr>),
      (''pid-file'', \<lparr>arg_help = Some ''PATH'', opt_handler = returning (server_pid_file K), opt_group = server_opts2\<rparr>),
      (''log-file'', \<lparr>arg_help = Some ''PATH'', opt_handler = returning log_set_path, opt_group = log_opts\<rparr>),
      (''log-timestamps'', \<lparr>arg_help = None, opt_handler = returning log_enable_timestamps, opt_group = log_opts\<rparr>),
      (''quiet'', \<lparr>arg_help = None, opt_handler = returning log_set_quiet, opt_group = log_opts\<rparr>),
      (''connect-receive'', \<lparr>arg_help = Some ''HOST/PORT'', opt_handler = returning (outgoing_connect_receive E K), opt_group = outgoing_opts\<rparr>),
      (''connect-send'', \<lparr>arg_help = Some ''FORMAT=HOST/PORT'', opt_handler = returning (outgoing_connect_send E K), opt_group = outgoing_opts\<rparr>),
      (''connect-send-receive'', \<lparr>arg_help = Some ''FORMAT=HOST/PORT'', opt_handler = returning (outgoing_connect_send_receive E K),
         opt_group = outgoing_opts\<rparr>),
      (''listen-receive'', \<lparr>arg_help = Some ''[HOST/]PORT'', opt_handler = returning (incoming_listen_receive E K), opt_group = incoming_opts\<rparr>),
      (''listen-send'', \<lparr>arg_help = Some ''FORMAT=[HOST/]PORT'', opt_handler = returning (incoming_listen_send E K), opt_group = incoming_opts\<rparr>),
      (''listen-send-receive'', \<lparr>arg_help = Some ''FORMAT=[HOST/]PORT'', opt_handler = returning (incoming_listen_send_receive E K),
         opt_group = incoming_opts\<rparr>),
      (''exec-receive'', \<lparr>arg_help = Some ''COMMAND'', opt_handler = returning (exec_receive E K), opt_group = exec_opts\<rparr>),
      (''exec-send'', \<lparr>arg_help = Some ''FORMAT=COMMAND'', opt_handler = returning (exec_send E K), opt_group = exec_opts\<rparr>),
      (''exec-send-receive'', \<lparr>arg_help = Some ''FORMAT=COMMAND'', opt_handler = returning (exec_send_receive E K), opt_group = exec_opts\<rparr>),
      (''file-read'', \<lparr>arg_help = Some ''PATH'', opt_handler = returning (file_read E K), opt_group = file_opts\<rparr>),
      (''file-write'', \<lparr>arg_help = Some ''FORMAT=PATH'', opt_handler = returning (file_write E K), opt_group = file_opts\<rparr>),
      (''file-write-read'', \<lparr>arg_help = Some ''FORMAT=PATH'', opt_handler = returning (file_write_read E K), opt_group = file_opts\<rparr>),
      (''file-append'', \<lparr>arg_help = Some ''FORMAT=PATH'', opt_handler = returning (file_append E K), opt_group = file_opts\<rparr>),
      (''file-append-read'', \<lparr>arg_help = Some ''FORMAT=PATH'', opt_handler = returning (file_append_read E K), opt_group = file_opts\<rparr>),
      (''stdin'', \<lparr>arg_help = None, opt_handler = returning (stdinout_stdin E K), opt_group = stdinout_opts\<rparr>),
      (''stdout'', \<lparr>arg_help = Some ''FORMAT'', opt_handler = returning (stdinout_stdout E K), opt_group = stdinout_opts\<rparr>)]"

text \<open>\<^verbatim>\<open>opts_init\<close> adds the last one.\<close>

definition full_entries :: "'j env \<Rightarrow> 'k server_kernel_scheme \<Rightarrow> (string \<times> server_state opt) list" where
  "full_entries E K = program_entries E K @ [(''help'', \<lparr>arg_help = None, opt_handler = opts_help, opt_group = opts_group_internal\<rparr>)]"

lemma full_entries_options: "map (\<lambda>(n, e). (n, arg_help e \<noteq> None)) (full_entries E K) = program_options"
  by (simp add: full_entries_def program_entries_def program_options_def)

lemma program_entries_length: "length (program_entries E K) = 21"
  by (simp add: program_entries_def)

text \<open>Every option fits, and ends up where the list says.\<close>

lemma adsbus_opts_table: "\<exists>st. adsbus_opts_add E K opts_empty = Some st \<and> table_is st (program_entries E K)"
proof -
  have b: "Option.bind (Option.bind a f) g = Option.bind a (\<lambda>x. Option.bind (f x) g)" for a :: "'x option" and f :: "'x \<Rightarrow> 'y option"
    and g :: "'y \<Rightarrow> 'z option" by (cases a) simp_all
  have last: "\<exists>st'. opts_add name hlp handler grp st = Some st' \<and> table_is st' (program_entries E K)"
    if "table_is st es" "es @ [(name, \<lparr>arg_help = hlp, opt_handler = handler, opt_group = grp\<rparr>)] = program_entries E K"
    for st es name hlp handler grp
  proof -
    have "length es + 1 = 21" using arg_cong [OF that(2), of length] program_entries_length [of E K] by simp
    then show ?thesis using table_is_add [OF that(1), of name hlp handler grp] that(2) by (simp add: OPTS_MAX_def)
  qed
  show ?thesis
    unfolding adsbus_opts_add_def server_opts_add_def log_opts_add_def outgoing_opts_add_def incoming_opts_add_def exec_opts_add_def
      file_opts_add_def stdinout_opts_add_def b
    apply (rule table_is_then [OF table_is_empty], simp add: OPTS_MAX_def)
    apply (erule table_is_then, simp add: OPTS_MAX_def)+
    apply (erule last)
    apply (simp add: program_entries_def)
    done
qed

abbreviation full_table :: "'j env \<Rightarrow> 'k server_kernel_scheme \<Rightarrow> server_opts \<Rightarrow> bool" where
  "full_table E K st \<equiv> table_is st (full_entries E K)"

lemma program_table_spec:
  "\<exists>st. program_table A K = Some st \<and>
    full_table (arg_env A) K st"
proof -
  from adsbus_opts_table [of "arg_env A" K] obtain st where
    st: "adsbus_opts_add (arg_env A) K opts_empty = Some st" "table_is st (program_entries (arg_env A) K)" by blast
  have "length (program_entries (arg_env A) K) + 1 < OPTS_MAX" by (simp add: program_entries_length OPTS_MAX_def)
  from table_is_complete [OF st(2) this] st(1) show ?thesis by (simp add: program_table_def full_entries_def)
qed

section \<open>Before the event loop is set up\<close>

text \<open>
  The command line: \<open>m\<close> options of the table, in any order, with arguments where they take one; a log file that is given
  can be opened.
\<close>

definition args_ok :: "'j program_args \<Rightarrow> 'k server_kernel_scheme \<Rightarrow> nat \<Rightarrow> bool" where
  "args_ok A K m \<longleftrightarrow> m < arg_argc A \<and> go_opt (arg_getopt A m) \<noteq> 0 \<and>
     (\<forall>k < m. go_opt (arg_getopt A k) = 0 \<and> go_longindex (arg_getopt A k) < length program_options \<and>
        (snd (program_options ! go_longindex (arg_getopt A k)) \<longrightarrow> go_optarg (arg_getopt A k) \<noteq> None) \<and>
        (fst (program_options ! go_longindex (arg_getopt A k)) = ''log-file'' \<longrightarrow>
           (\<forall>path. go_optarg (arg_getopt A k) = Some path \<longrightarrow> path_opens K path)))"

text \<open>A step that ends the program, with an exit code that \<open>b\<close> allows, or goes on.\<close>

definition goes_on :: "(bool \<Rightarrow> bool) \<Rightarrow> ('s \<Rightarrow> bool) \<Rightarrow> 's outcome option \<Rightarrow> bool" where
  "goes_on b P r \<longleftrightarrow> (\<exists>ok. b ok \<and> r = Some (Exits ok)) \<or> (\<exists>s. r = Some (Returns s) \<and> P s)"

lemma goes_on_then:
  assumes "goes_on b P r" and "\<And>s. P s \<Longrightarrow> goes_on b Q (f s)"
  shows "goes_on b Q (outcome_then r f)"
proof -
  from assms(1) consider ok where "b ok" "r = Some (Exits ok)" | s where "r = Some (Returns s)" "P s" by (auto simp: goes_on_def)
  then show ?thesis
  proof cases
    case 1
    then show ?thesis by (simp add: goes_on_def outcome_then_def)
  next
    case 2
    then show ?thesis using assms(2) by (simp add: outcome_then_def)
  qed
qed

text \<open>Without options nothing can be refused.\<close>

definition no_args :: "'j program_args \<Rightarrow> nat \<Rightarrow> bool" where
  "no_args A m \<longleftrightarrow> m = 0 \<and> go_opt (arg_getopt A m) = -1 \<and> go_optind (arg_getopt A m) = arg_argc A"

text \<open>\<open>name\<close> is among the options; the program exits with success only if an option asks for it.\<close>

definition option_given :: "'j program_args \<Rightarrow> nat \<Rightarrow> string \<Rightarrow> bool" where
  "option_given A m name \<longleftrightarrow> (\<exists>k < m. fst (program_options ! go_longindex (arg_getopt A k)) = name)"

definition may_exit :: "'j program_args \<Rightarrow> nat \<Rightarrow> bool \<Rightarrow> bool" where
  "may_exit A m ok \<longleftrightarrow> \<not> no_args A m \<and> (ok \<longrightarrow> option_given A m ''help'' \<or> option_given A m ''detach'')"

text \<open>The group of options \<open>grp\<close> is called in a state with \<open>P\<close>, which all its handlers keep.\<close>

lemma call_group_keeps:
  assumes args: "args_ok A K m"
    and tab: "full_table E K st"
    and "P w"
    and keeps: "\<And>name e arg. (name, e) \<in> set (program_entries E K) \<Longrightarrow> opt_group e = grp \<Longrightarrow> (arg_help e \<noteq> None \<Longrightarrow> arg \<noteq> None) \<Longrightarrow>
      (\<And>path. name = ''log-file'' \<Longrightarrow> arg = Some path \<Longrightarrow> path_opens K path) \<Longrightarrow> option_given A m name \<Longrightarrow>
      handler_keeps (may_exit A m) P (opt_handler e) arg"
  shows "goes_on (may_exit A m) P (call_group A grp st w)"
proof -
  let ?es = "full_entries E K"
  have len: "length program_options = 22" by (simp add: program_options_def)
  have el: "length ?es = 22" by (simp add: full_entries_def program_entries_length)
  have n: "opts_num st = 22" using tab el by (simp add: table_is_def)
  have g: "getopt_ok (arg_getopt A) m st" using args n by (fastforce simp: getopt_ok_def args_ok_def len)
  have m: "m < arg_argc A" using args by (simp add: args_ok_def)
  have given: "may_exit A m ok" if "k < m" "ok \<longrightarrow> fst (program_options ! go_longindex (arg_getopt A k)) \<in> {''help'', ''detach''}" for k ok
    using that by (auto simp: may_exit_def option_given_def no_args_def)
  have "(\<exists>ok. opts_call (arg_getopt A) (arg_argc A) grp st w = Some (Exits ok) \<and> (ok \<longrightarrow> may_exit A m ok)) \<or>
      (\<exists>w'. opts_call (arg_getopt A) (arg_argc A) grp st w = Some (Returns w') \<and> P w')"
  proof (rule opts_call_keeps [OF tab g m, where P = P, OF assms(3)])
    fix k
    assume k: "k < m" "opt_group (snd (?es ! go_longindex (arg_getopt A k))) = grp"
    define i where "i = go_longindex (arg_getopt A k)"
    have a: "i < 22" "snd (program_options ! i) \<Longrightarrow> go_optarg (arg_getopt A k) \<noteq> None"
      "\<And>path. fst (program_options ! i) = ''log-file'' \<Longrightarrow> go_optarg (arg_getopt A k) = Some path \<Longrightarrow> path_opens K path"
      using args k(1) by (auto simp: args_ok_def len i_def)
    let ?e = "?es ! i"
    have il: "i < length ?es" using a(1) el by simp
    have o: "program_options ! i = (fst ?e, arg_help (snd ?e) \<noteq> None)"
      using arg_cong [OF full_entries_options [of E K], of "\<lambda>l. l ! i"] il by (simp add: split_beta)
    have "(fst ?e, snd ?e) \<in> set ?es" using il by simp
    then consider "(fst ?e, snd ?e) \<in> set (program_entries E K)" | "fst ?e = ''help''" "opt_handler (snd ?e) = opts_help"
      by (auto simp: full_entries_def)
    then have "handler_keeps (may_exit A m) P (opt_handler (snd ?e)) (go_optarg (arg_getopt A k))"
    proof cases
      case 1
      then show ?thesis
      proof (rule keeps)
        show "opt_group (snd ?e) = grp" using k(2) by (simp add: i_def)
        show "option_given A m (fst ?e)" using k(1) o by (auto simp: option_given_def i_def)
      qed (use a o in auto)
    next
      case 2
      then show ?thesis using given [of k True] k(1) o by (simp add: handler_keeps_def opts_help_def i_def)
    qed
    then show "handler_keeps (may_exit A m) P (opt_handler (snd (?es ! go_longindex (arg_getopt A k)))) (go_optarg (arg_getopt A k))"
      by (simp add: i_def)
  qed
  note r = this
  have none: "opts_call (arg_getopt A) (arg_argc A) grp st w = Some (Returns w)" if "no_args A m"
  proof -
    have z: "m = 0" "go_opt (arg_getopt A 0) = -1" "go_optind (arg_getopt A 0) = arg_argc A" using that by (auto simp: no_args_def)
    have "opts_ok st" using tab by (simp add: table_is_def)
    from opts_call_spec [OF this g m, of grp w] show ?thesis by (simp add: z selected_def)
  qed
  show ?thesis
  proof (cases "no_args A m")
    case True
    then show ?thesis using none assms(3) by (simp add: goes_on_def call_group_def)
  next
    case False
    then have "may_exit A m ok" if "ok \<longrightarrow> may_exit A m ok" for ok using that by (cases ok) (simp_all add: may_exit_def)
    then show ?thesis using r by (auto simp: goes_on_def call_group_def)
  qed
qed

text \<open>What is as in the static storage.\<close>

definition early :: "server_state \<Rightarrow> bool" where
  "early w \<longleftrightarrow> peer_shutdown_flag w = False \<and> peer_always_trigger_head w = [] \<and> fds w = Map.empty \<and> epoll_set w = Map.empty \<and>
     send_heads w = [] \<and> receive_head w = [] \<and> wakeup_head w = [] \<and> timers w = Map.empty \<and> send_receive_head w = [] \<and>
     file_head w = [] \<and> async_threads w = None \<and> outgoing_head w = [] \<and> incoming_head w = [] \<and> exec_head w = [] \<and>
     exec_sig w = None \<and> log_rotate_peer w = None"

definition early_inv :: "'k server_kernel_scheme \<Rightarrow> server_state \<Rightarrow> bool" where
  "early_inv K w \<longleftrightarrow> early w \<and> std_open w \<and> rand_ok (rnd w) \<and> is_c_str (log_id w) \<and> is_c_str (server_id w) \<and>
     (\<forall>path. log_path w = Some path \<longrightarrow> path_opens K path)"

lemma early_server_step:
  assumes "early_inv K w" and "server_step w w'"
  shows "early_inv K w'"
proof -
  obtain v uid ps where v: "log_step w v" "w' = v\<lparr>server_id := uid, pid_files := ps\<rparr>" and uid: "is_c_str (server_id w) \<longrightarrow> is_c_str (server_id w')"
    using assms(2) by (auto simp: server_step_def)
  obtain n rs sf lid ls where x: "v = w\<lparr>tick := n, rnd := rs, std_files := sf, log_id := lid, log_lines := ls\<rparr>"
    using v(1) by (auto simp: log_step_def)
  note l = log_step_fields [OF v(1)]
  have "early w'" using assms(1) by (simp add: early_inv_def early_def v(2) x)
  moreover have "std_open w'" using assms(1) l(10) by (simp add: early_inv_def v(2) std_open_def)
  moreover have "rand_ok (rnd w')" "is_c_str (log_id w')" using assms(1) l(9,11) by (simp_all add: early_inv_def v(2))
  ultimately show ?thesis using assms(1) uid l(3) by (simp add: early_inv_def v(2))
qed

lemma early_log_step: "early_inv K w \<Longrightarrow> log_step w w' \<Longrightarrow> early_inv K w'"
  by (rule early_server_step [OF _ server_step_log])

lemma early_inv_options:
  assumes "early_inv K w"
  shows "early_inv K (w\<lparr>log_timestamps := b\<rparr>)" and "early_inv K (w\<lparr>log_quiet := b\<rparr>)"
    and "path_opens K path \<Longrightarrow> early_inv K (w\<lparr>log_path := Some path\<rparr>)"
  using assms by (simp_all add: early_inv_def early_def std_open_def)

lemma early_tidy:
  assumes "log_kernel_ok K" and "early w"
  shows "fds_tidy K w"
  using assms(2) by (simp add: fds_tidy_def early_def)

text \<open>The log and the identity of the server.\<close>

lemma log_start_spec:
  assumes K: "log_kernel_ok K" and inv: "early_inv K w"
  shows "\<exists>w'. log_start E K w = Some w' \<and> log_step w w'"
proof -
  have e: "early w" "std_open w" "rand_ok (rnd w)" "\<And>path. log_path w = Some path \<Longrightarrow> path_opens K path"
    using inv by (simp_all add: early_inv_def)
  from log_open_spec [OF K early_tidy [OF K e(1)] e(2,4)] obtain u where u: "log_open K w = Some u" "log_step w u" by blast
  note l = log_step_fields [OF u(2)]
  have std: "std_open u" and ru: "rand_ok (rnd u)" using l(9,10) e by simp_all
  have err: "std_files u STDERR_FILENO \<noteq> None" using std by (simp add: std_open_def)
  from log_new_id [OF ru std, of E] obtain uid rs where
    uid: "uuid_gen (env_entropy E) (rnd u) (replicate UUID_LEN 0) = Some (uid, rs)" "rand_ok rs" "is_c_str uid" by blast
  have m: "c_str ''Log start'' \<noteq> []" by simp
  from log_write_spec [OF K uid(3) m, of "CHR ''L''" "''log.c:96''" "u\<lparr>rnd := rs, log_id := uid\<rparr>"] obtain v where
    v: "log_write K (CHR ''L'') ''log.c:96'' uid (c_str ''Log start'') (u\<lparr>rnd := rs, log_id := uid\<rparr>) = Some v"
      "log_step (u\<lparr>rnd := rs, log_id := uid\<rparr>) v" by blast
  have "log_start E K w = Some v" using u(1) err uid(1) v(1) by (simp add: log_start_def)
  then show ?thesis using log_step_trans [OF u(2) log_step_trans [OF log_steps(5) [OF uid(2,3)] v(2)]] by blast
qed

lemma log_init_spec:
  assumes args: "args_ok A K m"
    and tab: "full_table E K st"
    and K: "log_kernel_ok K" and inv: "early_inv K w"
  shows "goes_on (may_exit A m) (early_inv K) (log_init A K st w)"
proof -
  have "handler_keeps (may_exit A m) (early_inv K) (opt_handler e) arg"
    if e: "(name, e) \<in> set (program_entries E K)" "opt_group e = log_opts" and a: "arg_help e \<noteq> None \<Longrightarrow> arg \<noteq> None"
      "\<And>path. name = ''log-file'' \<Longrightarrow> arg = Some path \<Longrightarrow> path_opens K path" for name e arg
  proof -
    from e have "name = ''log-file'' \<and> opt_handler e = returning log_set_path \<and> arg_help e \<noteq> None \<or>
        opt_handler e = returning log_enable_timestamps \<or> opt_handler e = returning log_set_quiet"
      by (auto simp: program_entries_def opts_groups)
    moreover have "handler_keeps (may_exit A m) (early_inv K) (returning log_set_path) (Some path)" if "path_opens K path" for path
      using early_inv_options(3) [OF _ that] by (simp add: handler_keeps_returning log_set_path_def)
    moreover have "handler_keeps (may_exit A m) (early_inv K) (returning log_enable_timestamps) arg"
      "handler_keeps (may_exit A m) (early_inv K) (returning log_set_quiet) arg"
      by (simp_all add: handler_keeps_returning log_enable_timestamps_def log_set_quiet_def early_inv_options)
    ultimately show ?thesis using a by (cases arg) auto
  qed
  from call_group_keeps [OF args tab, where P = "early_inv K" and grp = log_opts, OF inv this] show ?thesis
    unfolding log_init_def
  proof (rule goes_on_then)
    fix v
    assume v: "early_inv K v"
    from log_start_spec [OF K v, of "arg_env A"] show "goes_on (may_exit A m) (early_inv K) (map_option Returns (log_start (arg_env A) K v))"
      using early_log_step [OF v] by (auto simp: goes_on_def)
  qed
qed

lemma server_init_spec:
  assumes args: "args_ok A K m"
    and tab: "full_table E K st"
    and K: "server_kernel_ok K" and inv: "early_inv K w"
  shows "goes_on (may_exit A m) (\<lambda>w. early_inv K w \<and> valid_id (server_id w)) (server_init A K st w)"
proof -
  let ?P = "\<lambda>w. early_inv K w \<and> valid_id (server_id w)"
  have rw: "rand_ok (rnd w)" using inv by (simp add: early_inv_def)
  from server_start_spec [OF K rw, of "arg_env A"] obtain u where
    u: "server_start (arg_env A) K w = Some u" "server_step w u" "valid_id (server_id u)" by blast
  have pu: "?P u" using early_server_step [OF inv u(2)] u(3) by simp
  have sid: "server_id v' = server_id v" if "log_step v v'" for v v' :: server_state using log_server(2) [OF that] .
  have call: "goes_on (may_exit A m) ?P (call_group A grp st v)"
    if v: "?P v" and grp: "grp = server_opts1 \<or> grp = server_opts2" for grp v
  proof (rule call_group_keeps [OF args tab, where P = ?P, OF v])
    fix name e and arg :: "string option"
    assume e: "(name, e) \<in> set (program_entries E K)" "opt_group e = grp" and a: "arg_help e \<noteq> None \<Longrightarrow> arg \<noteq> None"
      and given: "option_given A m name"
    from e(1) grp e(2) have c: "name = ''detach'' \<and> opt_handler e = server_detach K \<or>
        opt_handler e = returning (server_pid_file K) \<and> arg_help e \<noteq> None"
      unfolding program_entries_def list.set opts_groups by (elim insertE emptyE; elim Pair_inject; simp)
    have "(opt_handler e arg v = Some (Exits True) \<and> may_exit A m True) \<or>
        (\<exists>v'. opt_handler e arg v = Some (Returns (True, v')) \<and> ?P v')" if v: "?P v" for v
    proof -
      note vc = valid_id_c_str [OF conjunct2 [OF v]]
      have step: "?P v'" if "server_step v v'" "server_id v' = server_id v" for v'
        using early_server_step [OF conjunct1 [OF v] that(1)] that(2) v by simp
      from c show ?thesis
      proof
        assume d: "name = ''detach'' \<and> opt_handler e = server_detach K"
        then have "may_exit A m True" using given by (auto simp: may_exit_def option_given_def no_args_def)
        then show ?thesis using server_detach_spec [OF K vc, of arg] step unfolding conjunct2 [OF d] by blast
      next
        assume p: "opt_handler e = returning (server_pid_file K) \<and> arg_help e \<noteq> None"
        then obtain path where path: "arg = Some path" using a by blast
        from server_pid_file_spec [OF K vc, of path] obtain v' where
          v': "server_pid_file K (Some path) v = Some (True, v')" "server_step v v'" "server_id v' = server_id v" by blast
        then have "opt_handler e arg v = Some (Returns (True, v'))" by (simp add: conjunct1 [OF p] path returning_def)
        then show ?thesis using step [OF v'(2,3)] by blast
      qed
    qed
    then show "handler_keeps (may_exit A m) ?P (opt_handler e) arg" unfolding handler_keeps_def by blast
  qed
  have "goes_on (may_exit A m) ?P (outcome_then (call_group A server_opts1 st u) (call_group A server_opts2 st))"
    by (rule goes_on_then [OF call [OF pu] call]) simp_all
  then show ?thesis by (simp add: server_init_def u(1))
qed

end
