(* ===== verification/Start.thy ===== *)
theory Start
  imports Program
begin

text \<open>
  The start of the program is correct, given a kernel and a system that cooperate: whatever options are given, \<^verbatim>\<open>main\<close> either
  ends in order, with an error for a refused option or with success for \<^verbatim>\<open>--help\<close> and in the parent of \<^verbatim>\<open>--detach\<close>, or reaches the
  event loop in a state with the invariant of the program. Together with the theorems on the event loop this covers
  every state the program goes through.
\<close>

section \<open>The event loop is set up\<close>

text \<open>What the libraries and the kernel must do for the start; the greetings of the formats fit into their buffers.\<close>

definition program_kernel_ok :: "'k server_kernel_scheme \<Rightarrow> bool" where
  "program_kernel_ok K \<longleftrightarrow> server_kernel_ok K \<and> net_ok K \<and> exec_kernel_ok K \<and> devices_open K"

definition json_hello :: "u8 list \<Rightarrow> json_val" where
  "json_hello sid = JObject [(c_str ''type'', JString (c_str ''header'')), (c_str ''magic'', JString (c_str ''aDsB'')),
     (c_str ''server_version'', JString (c_str ''https://github.com/flamingcowtv/adsb-tools#1'')), (c_str ''server_id'', JString sid),
     (c_str ''mlat_timestamp_mhz'', JInteger (uint PACKET_MLAT_MHZ)),
     (c_str ''mlat_timestamp_max'', JInteger (uint PACKET_MLAT_MAX)), (c_str ''rssi_max'', JInteger (uint PACKET_RSSI_MAX))]"

definition proto_hello :: "u8 list \<Rightarrow> Adsb" where
  "proto_hello sid = ADSB_INIT\<lparr>msg_header := Some \<lparr>hdr_magic = c_str ''aDsB'',
     hdr_server_version = c_str ''https://github.com/flamingcowtv/adsb-tools#1'', hdr_server_id = sid,
     hdr_mlat_timestamp_mhz = PACKET_MLAT_MHZ, hdr_mlat_timestamp_max = PACKET_MLAT_MAX, hdr_rssi_max = PACKET_RSSI_MAX\<rparr>\<rparr>"

definition greetings_fit :: "'j env \<Rightarrow> bool" where
  "greetings_fit E \<longleftrightarrow> (\<forall>sid. length sid < UUID_LEN \<longrightarrow> length (concat (env_dump E (json_hello sid))) < BUF_LEN_MAX \<and>
     0 < length (env_pack E [proto_hello sid]) \<and> length (env_pack E [proto_hello sid]) \<le> BUF_LEN_MAX)"

definition hops_ok :: "string option \<Rightarrow> bool" where
  "hops_ok max_hops \<longleftrightarrow> (\<forall>s. max_hops = Some s \<longrightarrow> s \<noteq> [] \<and> snd (strtoul s) = [] \<and> fst (strtoul s) \<le> 4294967295)"

lemma receive_init_spec:
  assumes "hops_ok max_hops"
  shows "\<exists>h. \<forall>w :: server_state. receive_init max_hops w = Some (w\<lparr>receive_max_hops := h\<rparr>)"
proof (cases max_hops)
  case None
  then show ?thesis by (auto simp: receive_init_def)
next
  case (Some s)
  obtain v rest where v: "strtoul s = (v, rest)" by (cases "strtoul s")
  then have "receive_init max_hops w = Some (w\<lparr>receive_max_hops := of_nat v\<rparr>)" for w :: server_state
    using assms Some by (simp add: receive_init_def hops_ok_def)
  then show ?thesis by blast
qed

lemma c_content_strz:
  assumes "0 \<notin> set s"
  shows "c_content (c_strz s) = Some s"
proof -
  have "takeWhile (\<lambda>c. c \<noteq> 0) (s @ [0]) = s @ takeWhile (\<lambda>c. c \<noteq> 0) [0]"
    by (rule takeWhile_append2) (use assms in auto)
  then show ?thesis by (simp add: c_content_def c_strz_def is_c_str_def)
qed

lemma greeting_texts:
  "c_content JSON_MAGIC = Some (c_str ''aDsB'')" "c_content PROTO_MAGIC = Some (c_str ''aDsB'')"
  "c_content server_version = Some (c_str ''https://github.com/flamingcowtv/adsb-tools#1'')"
proof -
  have "(0 :: u8) \<notin> set (c_str ''aDsB'')" by code_simp
  from c_content_strz [OF this] show "c_content JSON_MAGIC = Some (c_str ''aDsB'')" "c_content PROTO_MAGIC = Some (c_str ''aDsB'')"
    by (simp_all add: JSON_MAGIC_def PROTO_MAGIC_def)
  have "(0 :: u8) \<notin> set (c_str ''https://github.com/flamingcowtv/adsb-tools#1'')" by code_simp
  from c_content_strz [OF this]
  show "c_content server_version = Some (c_str ''https://github.com/flamingcowtv/adsb-tools#1'')" by (simp add: server_version_def)
qed

lemma valid_id_short:
  assumes "valid_id s"
  shows "\<exists>c. c_content s = Some c \<and> length c < UUID_LEN"
proof -
  obtain n where n: "n < UUID_LEN" "n < length s" "s ! n = 0" using assms by (auto simp: valid_id_def)
  have "length (takeWhile (\<lambda>c. c \<noteq> 0) s) \<le> n"
  proof (rule ccontr)
    assume "\<not> length (takeWhile (\<lambda>c. c \<noteq> 0) s) \<le> n"
    then have "n < length (takeWhile (\<lambda>c. c \<noteq> 0) s)" by simp
    from nth_mem [OF this] takeWhile_nth [OF this] n(3) show False by (auto dest: set_takeWhileD)
  qed
  then show ?thesis using valid_id_c_str [OF assms] n(1) by (simp add: c_content_def)
qed

lemma greetings_spec:
  assumes E: "greetings_fit E" and rs: "rand_ok rs" and sid: "valid_id sid"
  shows "\<exists>b rs'. json_init (env_entropy E) rs (env_dump E) server_version sid = Some (b, rs') \<and> buf_ok b \<and> rand_ok rs'"
    and "\<exists>b. proto_init (env_pack E) server_version sid = Some b \<and> buf_ok b"
proof -
  obtain s where s: "c_content sid = Some s" "length s < UUID_LEN" using valid_id_short [OF sid] by blast
  have e: "length (concat (env_dump E (json_hello s))) < BUF_LEN_MAX" "0 < length (env_pack E [proto_hello s])"
    "length (env_pack E [proto_hello s]) \<le> BUF_LEN_MAX" using E s(2) by (simp_all add: greetings_fit_def)
  have "8 + BUF_LEN_MAX < SSIZE_MAX" by (simp add: BUF_LEN_MAX_def SSIZE_MAX_def)
  from rand_fill_ok [OF rs this, of "env_entropy E"] obtain v rs' where
    r: "rand_fill (env_entropy E) rs 8 = Some (v, rs')" "rand_ok rs'" by blast
  have bf: "buf_fresh BUF_INIT" by simp
  from json_serialize_to_buf_spec [OF bf, of "env_dump E" "json_hello s"] e(1) obtain b where
    b: "json_serialize_to_buf (env_dump E) (json_hello s) BUF_INIT = Some b" "buf_ok b" by auto
  have "json_init (env_entropy E) rs (env_dump E) server_version sid = Some (b, rs')"
    unfolding json_init_def r(1) s(1) greeting_texts Let_def using b(1) by (simp add: json_hello_def)
  then show "\<exists>b rs'. json_init (env_entropy E) rs (env_dump E) server_version sid = Some (b, rs') \<and> buf_ok b \<and> rand_ok rs'"
    using b(2) r(2) by blast
  let ?p = "env_pack E [proto_hello s]"
  have "buf_length BUF_INIT = 0" "buf_start BUF_INIT = 0" "length (buf_data BUF_INIT) = BUF_LEN_MAX"
    using bf by (auto simp: buf_fresh_def buf_ok_def)
  then have "\<exists>b. proto_wrap_to_buf (env_pack E) (proto_hello s) BUF_INIT = Some b \<and> buf_ok b"
    using e(2,3) by (auto simp: proto_wrap_to_buf_def proto_obj_to_buf_def buf_put_def buf_ok_def list_put_def)
  then show "\<exists>b. proto_init (env_pack E) server_version sid = Some b \<and> buf_ok b"
    unfolding proto_init_def s(1) greeting_texts Let_def by (simp add: proto_hello_def)
qed

text \<open>
  The two signals and the resolver threads. While the lists of connections are not set up yet the invariant does not hold;
  the descriptor of the rotation is registered before they are, which gives the same as registering it afterwards.
\<close>

definition set_formats :: "u32 \<Rightarrow> buf \<Rightarrow> rand_state \<Rightarrow> buf \<Rightarrow> int \<Rightarrow> server_state \<Rightarrow> server_state" where
  "set_formats h jb rs pb now w = w\<lparr>receive_max_hops := h, send_heads := replicate NUM_SERIALIZERS [], json_hello_buf := jb,
     rnd := rs, proto_hello_buf := pb, stats := stats_init now\<rparr>"

lemma log_init_peer_formats:
  "log_init_peer K (set_formats h jb rs pb now w) = map_option (set_formats h jb rs pb now) (log_init_peer K w)"
proof (cases "log_path w")
  case None
  then show ?thesis by (simp add: log_init_peer_def set_formats_def)
next
  case (Some path)
  let ?fd = "new_fd K w"
  have c: "open_socket K (set_formats h jb rs pb now w) =
      map_option (\<lambda>(fd, w). (fd, set_formats h jb rs pb now w)) (open_socket K w)"
    by (simp add: open_socket_def set_formats_def new_fd_def sock_info_def Let_def c_assert_def)
  have a: "peer_epoll_add p peer ev (set_formats h jb rs pb now w) =
      map_option (\<lambda>(q, w). (q, set_formats h jb rs pb now w)) (peer_epoll_add p peer ev w)" for p peer ev and w :: server_state
    by (simp add: peer_epoll_add_def epoll_ctl_add_def set_formats_def Let_def c_assert_def split: option.split)
  have f: "log_path (set_formats h jb rs pb now w) = log_path w" "next_addr (set_formats h jb rs pb now w) = next_addr w"
    "(set_formats h jb rs pb now w)\<lparr>next_addr := n, log_rotate_peer := q\<rparr> =
      set_formats h jb rs pb now (w\<lparr>next_addr := n, log_rotate_peer := q\<rparr>)" for w n q
    by (simp_all add: set_formats_def)
  show ?thesis
    unfolding log_init_peer_def f(1) c using Some
    by (auto simp: a f Let_def split_beta split: option.split bind_splits)
qed

lemma log_init_peer_rest:
  assumes "log_init_peer K w = Some w'"
  shows "rnd w' = rnd w" and "server_id w' = server_id w"
  using assms
  by (auto simp: log_init_peer_def open_socket_def peer_epoll_add_def epoll_ctl_add_def Let_def c_assert_def
      split: if_splits option.splits bind_splits)

text \<open>The program before anything is connected.\<close>

lemma program_sys_idle:
  fixes w :: server_state
  assumes K: "program_kernel_ok K" and inv: "early_inv K w" and bufs: "buf_ok jb" "buf_ok pb" "rand_ok rs"
    and fds: "finite (dom ft)" "fd \<noteq> -1" "ft fd = Some i" "fd_pollable i"
    and v: "v = set_formats h jb rs pb now (w\<lparr>async_write_fd := afd, async_threads := Some 2, fds := ft,
      epoll_set := Map.empty(fd \<mapsto> Peer_shutdown), peer_shutdown_peer := \<lparr>peer_fd = fd, peer_always_trigger = False\<rparr>\<rparr>)"
  shows "program_sys K nobody None v" and "shutdown_ok v"
proof -
  have e: "early w" using inv by (simp add: early_inv_def)
  have vf: "peer_always_trigger_head v = []" "receive_head v = []" "all_sends v = []" "wakeup_head v = []" "send_receive_head v = []"
    "file_head v = []" "outgoing_head v = []" "incoming_head v = []" "exec_head v = []" "exec_sig v = None" "log_rotate_peer v = None"
    "async_threads v = Some 2" "epoll_set v = Map.empty(fd \<mapsto> Peer_shutdown)" "fds v = ft" "peer_shutdown_flag v = False"
    "peer_shutdown_peer v = \<lparr>peer_fd = fd, peer_always_trigger = False\<rparr>" "log_path v = log_path w" "log_id v = log_id w"
    "std_files v = std_files w" "length (send_heads v) = NUM_SERIALIZERS" "rnd v = rs" "stats v = stats_init now"
    "json_hello_buf v = jb" "proto_hello_buf v = pb"
    using e by (simp_all add: v set_formats_def early_def all_sends_def)
  have k: "kernel_ok K" "net_ok K" "exec_kernel_ok K" "log_kernel_ok K"
    using K by (simp_all add: program_kernel_ok_def server_kernel_ok_def net_ok_def)
  have c: "conn_owners v = {#}" "owners None v = {#}" by (simp_all add: conn_owners_def closers_def owners_def vf)
  have ps: "peer_state_ok v" using fds by (auto simp: peer_state_ok_def vf)
  have "wakeup_ok v" using ps bufs(3) by (simp add: wakeup_ok_def receive_ok_def send_ok_def vf)
  moreover have "reg_inv v" by (auto simp: reg_inv_def vf peer_fds_def split: if_splits)
  ultimately have ci: "conn_inv (\<lambda>_. 0) None v"
    using fds(1) bufs(1,2) by (simp add: conn_inv_def vf c) (simp add: closers_def vf)
  have "net_up K v" using k by (simp add: net_up_def vf)
  then have "adsbus_inv K v"
    using k by (simp add: adsbus_inv_def file_inv_def structs_inv_def exec_inv_def exec_apart_def exec_addrs_def exec_sig_addr_def
        file_addrs_def structs_addrs_def vf)
  moreover have "log_inv K v" using inv k by (simp add: log_inv_def early_inv_def std_open_def vf)
  moreover have ad: "adsbus_addrs v = {}" "program_ready v = {}"
    by (simp_all add: adsbus_addrs_def file_addrs_def structs_addrs_def exec_addrs_def exec_sig_addr_def program_ready_def
        adsbus_ready_def in_phase_def exec_ready_def log_ready_def vf)
  ultimately have "program_inv K v" by (simp add: program_inv_def)
  then show "program_sys K nobody None v"
    by (intro kind_sysI) (use ci ad c in \<open>auto simp: nobody_def vf split: if_splits\<close>)
  show "shutdown_ok v" using fds(2) by (auto simp: shutdown_ok_def vf)
qed

lemma program_setup_spec:
  assumes K: "program_kernel_ok K" and inv: "early_inv K w" and sid: "valid_id (server_id w)"
    and E: "greetings_fit (arg_env A)" and hops: "hops_ok (arg_max_hops A)"
  shows "\<exists>u w'. program_peers K w = Some u \<and> program_formats A u = Some w' \<and> program_sys K nobody None w' \<and> shutdown_ok w' \<and>
    exec_sig w' = None"
proof -
  have e: "early w" and rw: "rand_ok (rnd w)" using inv by (simp_all add: early_inv_def)
  have k: "kernel_ok K" using K by (simp add: program_kernel_ok_def net_ok_def)
  obtain h where h: "\<And>w :: server_state. receive_init (arg_max_hops A) w = Some (w\<lparr>receive_max_hops := h\<rparr>)"
    using receive_init_spec [OF hops] by blast
  from greetings_spec [OF E rw sid] obtain jb rs pb where
    jb: "json_init (env_entropy (arg_env A)) (rnd w) (env_dump (arg_env A)) server_version (server_id w) = Some (jb, rs)"
      "buf_ok jb" "rand_ok rs" and pb: "proto_init (env_pack (arg_env A)) server_version (server_id w) = Some pb" "buf_ok pb" by blast
  let ?now = "env_clock (arg_env A) (tick w)"
  define w1 where "w1 = w\<lparr>fds := [new_fd K w \<mapsto> sock_info K w], async_write_fd := new_fd K w, async_threads := Some 2\<rparr>"
  define fd where "fd = new_fd K w1"
  define w3 where "w3 = w\<lparr>async_write_fd := new_fd K w, async_threads := Some 2, fds := (fds w1)(fd \<mapsto> sock_info K w1),
      epoll_set := Map.empty(fd \<mapsto> Peer_shutdown), peer_shutdown_peer := \<lparr>peer_fd = fd, peer_always_trigger = False\<rparr>\<rparr>"
  have we: "fds w = Map.empty" "epoll_set w = Map.empty" "async_threads w = None" "log_rotate_peer w = None" "exec_sig w = None"
    using e by (simp_all add: early_def)
  have "finite (dom (fds w))" "finite (dom (fds w1))" by (simp_all add: we w1_def)
  note n = new_fd_fresh [OF k this(1)] new_fd_fresh [OF k this(2)]
  have r1: "resolve_init K w = Some w1"
    using n(1) by (simp add: resolve_init_def asyncaddrinfo_init_def open_socket_def we w1_def Let_def)
  have fd0: "0 \<le> fd" using n(3) by (simp add: fd_def)
  have pl: "fd_pollable (sock_info K u)" for u :: server_state by (simp add: sock_info_def)
  have r2: "open_socket K w1 = Some (fd, w1\<lparr>fds := (fds w1)(fd \<mapsto> sock_info K w1)\<rparr>)"
    using fd0 by (simp add: open_socket_def fd_def [symmetric] Let_def)
  have r3: "peer_init fd (w1\<lparr>fds := (fds w1)(fd \<mapsto> sock_info K w1)\<rparr>) = Some w3"
    using fd0 pl by (simp add: peer_init_def peer_epoll_add_def epoll_ctl_add_def Let_def) (simp add: w1_def w3_def we)
  define v where "v = set_formats h jb rs pb ?now w3"
  have id: "program_sys K nobody None v" "shutdown_ok v"
    by (rule program_sys_idle [OF K inv jb(2) pb(2) jb(3), where v = v and ft = "fds w3" and fd = fd and i = "sock_info K w1"
          and h = h and now = ?now and afd = "new_fd K w"];
        use fd0 in \<open>simp add: v_def w3_def w1_def sock_info_def\<close>)+
  have vf: "log_rotate_peer v = None" "exec_sig v = None" by (simp_all add: v_def set_formats_def w3_def we)
  from log_init_peer_spec [OF id(1) vf(1)] obtain x where
    x: "log_init_peer K v = Some x" "program_sys K nobody None x" "call_frame v x" "exec_sig x = exec_sig v" by blast
  from x(1) obtain u where u: "log_init_peer K w3 = Some u" "x = set_formats h jb rs pb ?now u"
    unfolding v_def log_init_peer_formats by auto
  note lr = log_init_peer_rest [OF u(1)]
  have tu: "tick u = tick w"
    using u(1) by (auto simp: log_init_peer_def open_socket_def peer_epoll_add_def epoll_ctl_add_def Let_def c_assert_def w3_def
        split: if_splits option.splits bind_splits)
  have ru: "rnd u = rnd w" "server_id u = server_id w" using lr by (simp_all add: w3_def)
  have "program_peers K w = Some u" unfolding program_peers_def r1 using r2 r3 u(1) by simp
  moreover have "program_formats A u = Some (x\<lparr>tick := tick x + 1\<rparr>)"
  proof -
    have bi: "Option.bind beast_init f = f ()" for f :: "unit \<Rightarrow> server_state option" by (simp add: beast_init_def beast_overlay_size_def PACKET_PAYLOAD_LEN_MAX_def BUF_LEN_MAX_def)
    then show ?thesis
      unfolding program_formats_def h bi using jb(1) pb(1) ru tu by (simp add: u(2) send_init_def set_formats_def)
  qed
  moreover have "program_sys K nobody None (x\<lparr>tick := tick x + 1\<rparr>)" by (rule program_log_step(1) [OF x(2) log_steps(1)])
  moreover have "shutdown_ok (x\<lparr>tick := tick x + 1\<rparr>)"
    using shutdown_ok_frame [OF id(2)] x(3) by (simp add: call_frame_def shutdown_ok_def)
  ultimately show ?thesis using x(4) vf(2) by simp
qed

section \<open>The transports of the options\<close>

text \<open>While the options are carried out, the invariant of the program holds; \<open>b\<close>: the signal of the children is not set up.\<close>

definition late_inv :: "'k server_kernel_scheme \<Rightarrow> bool \<Rightarrow> server_state \<Rightarrow> bool" where
  "late_inv K b w \<longleftrightarrow> program_sys K nobody None w \<and> shutdown_ok w \<and> (b \<longrightarrow> exec_sig w = None)"

lemma late_frame:
  "late_inv K b w \<Longrightarrow> program_sys K nobody None w' \<Longrightarrow> call_frame w w' \<Longrightarrow> exec_sig w' = exec_sig w \<Longrightarrow> late_inv K b w'"
  using shutdown_ok_frame [of w w'] by (simp add: late_inv_def call_frame_def)

lemma late_made:
  "late_inv K b w \<Longrightarrow> program_sys K nobody None w' \<Longrightarrow> adsbus_made w w' \<Longrightarrow> exec_sig w' = exec_sig w \<Longrightarrow> late_inv K b w'"
  by (erule late_frame) (simp_all add: adsbus_made_def)

text \<open>An option with a format names one of the table, or is refused.\<close>

lemma send_add_keeps:
  assumes "P s" and "\<And>rest i. i < NUM_SERIALIZERS \<Longrightarrow> \<exists>ok s'. f rest flow (Some i) s = Some (ok, s') \<and> P s'"
  shows "\<exists>ok s'. send_add f flow arg s = Some (ok, s') \<and> P s'"
proof (cases "send_parse_format arg")
  case (Pair fmt rest)
  show ?thesis
  proof (cases fmt)
    case None
    then show ?thesis using Pair assms(1) by (simp add: send_add_def)
  next
    case (Some i)
    then obtain name where "send_get_serializer name = Some i"
      using Pair by (auto simp: send_parse_format_def split: prod.splits option.splits)
    then have "i < NUM_SERIALIZERS" using send_get_serializer_spec [of name] by simp
    then show ?thesis using assms(2) Pair Some by (simp add: send_add_def)
  qed
qed

lemma pass_ok:
  "flow_pass_ok Receive_flow None" "i < NUM_SERIALIZERS \<Longrightarrow> flow_pass_ok Send_flow (Some i)"
  "i < NUM_SERIALIZERS \<Longrightarrow> flow_pass_ok Send_receive_flow (Some i)"
  by (simp_all add: flow_pass_ok_def format_ok_def)

text \<open>Making each kind of transport.\<close>

lemma late_new:
  assumes inv: "late_inv K b w" and pass: "flow_pass_ok flow pass"
  shows "\<exists>w'. file_new E K path flags flow pass w = Some w' \<and> late_inv K b w'"
    and "\<exists>ok w'. outgoing_add E K host_port flow pass w = Some (ok, w') \<and> late_inv K b w'"
    and "\<exists>ok w'. incoming_add E K host_port flow pass w = Some (ok, w') \<and> late_inv K b w'"
    and "\<exists>ok w'. exec_add E K command flow pass w = Some (ok, w') \<and> late_inv K b w'"
proof -
  have sys: "program_sys K nobody None w" using inv by (simp add: late_inv_def)
  note new = program_new [OF sys pass] and made = late_made [OF inv]
  show "\<exists>w'. file_new E K path flags flow pass w = Some w' \<and> late_inv K b w'"
    using new(1) [of E path flags] made by blast
  show "\<exists>ok w'. outgoing_add E K host_port flow pass w = Some (ok, w') \<and> late_inv K b w'"
  proof (cases "opts_split host_port (CHR ''/'')")
    case (Pair host rest)
    then show ?thesis
    proof (cases host)
      case None
      then show ?thesis using Pair inv by (simp add: outgoing_add_def)
    next
      case (Some node)
      then show ?thesis using Pair new(2) [of E node rest] made by (auto simp: outgoing_add_def)
    qed
  qed
  show "\<exists>ok w'. incoming_add E K host_port flow pass w = Some (ok, w') \<and> late_inv K b w'"
  proof (cases "opts_split host_port (CHR ''/'')")
    case (Pair host rest)
    then show ?thesis using new(3) [of E host rest] made by (auto simp: incoming_add_def)
  qed
  show "\<exists>ok w'. exec_add E K command flow pass w = Some (ok, w') \<and> late_inv K b w'"
    using new(4) [of E command] made by (auto simp: exec_add_def)
qed

lemma late_file_add:
  assumes "late_inv K b w" and "flow_pass_ok flow pass"
  shows "\<exists>w'. file_read_new E K path flow pass w = Some w' \<and> late_inv K b w'"
    and "\<exists>ok w'. file_write_add E K path flow pass w = Some (ok, w') \<and> late_inv K b w'"
    and "\<exists>ok w'. file_append_add E K path flow pass w = Some (ok, w') \<and> late_inv K b w'"
proof -
  note f = late_new(1) [OF assms, of E path]
  show "\<exists>w'. file_read_new E K path flow pass w = Some w' \<and> late_inv K b w'" unfolding file_read_new_def by (rule f)
  have m: "\<exists>ok w'. map_option (Pair True) r = Some (ok, w') \<and> P w'" if "\<exists>w'. r = Some w' \<and> P w'"
    for r :: "server_state option" and P using that by auto
  show "\<exists>ok w'. file_write_add E K path flow pass w = Some (ok, w') \<and> late_inv K b w'"
    unfolding file_write_add_def file_write_new_def by (rule m [OF f])
  show "\<exists>ok w'. file_append_add E K path flow pass w = Some (ok, w') \<and> late_inv K b w'"
    unfolding file_append_add_def file_append_new_def by (rule m [OF f])
qed

text \<open>So does every handler.\<close>

lemma late_add:
  assumes f: "\<And>a flow pass. flow_pass_ok flow pass \<Longrightarrow> \<exists>ok w'. f a flow pass w = Some (ok, w') \<and> late_inv K b w'"
    and "late_inv K b w"
  shows "\<exists>ok w'. f a Receive_flow None w = Some (ok, w') \<and> late_inv K b w'"
    and "\<exists>ok w'. send_add f Send_flow a w = Some (ok, w') \<and> late_inv K b w'"
    and "\<exists>ok w'. send_add f Send_receive_flow a w = Some (ok, w') \<and> late_inv K b w'"
  using f pass_ok send_add_keeps [where P = "late_inv K b" and f = f, OF assms(2)] by simp_all

lemma late_stdinout:
  assumes "late_inv K b w"
  shows "\<exists>ok w'. stdinout_stdin E K arg w = Some (ok, w') \<and> late_inv K b w'"
    and "\<exists>ok w'. stdinout_stdout E K (Some a) w = Some (ok, w') \<and> late_inv K b w'"
proof -
  have sys: "program_sys K nobody None w" using assms by (simp add: late_inv_def)
  from stdinout_stdin_spec [OF sys, of E arg] late_frame [OF assms]
  show "\<exists>ok w'. stdinout_stdin E K arg w = Some (ok, w') \<and> late_inv K b w'" by blast
  from stdinout_stdout_spec [OF sys, of E a] late_frame [OF assms]
  show "\<exists>ok w'. stdinout_stdout E K (Some a) w = Some (ok, w') \<and> late_inv K b w'" by blast
qed

lemma late_file_read:
  assumes "late_inv K b w"
  shows "\<exists>ok w'. file_read E K (Some a) w = Some (ok, w') \<and> late_inv K b w'"
  using late_file_add(1) [OF assms pass_ok(1), of E a] by (auto simp: file_read_def)

lemma late_handler:
  assumes "late_inv K b w"
  shows "\<exists>ok w'. outgoing_connect_receive E K (Some a) w = Some (ok, w') \<and> late_inv K b w'"
    and "\<exists>ok w'. outgoing_connect_send E K (Some a) w = Some (ok, w') \<and> late_inv K b w'"
    and "\<exists>ok w'. outgoing_connect_send_receive E K (Some a) w = Some (ok, w') \<and> late_inv K b w'"
    and "\<exists>ok w'. incoming_listen_receive E K (Some a) w = Some (ok, w') \<and> late_inv K b w'"
    and "\<exists>ok w'. incoming_listen_send E K (Some a) w = Some (ok, w') \<and> late_inv K b w'"
    and "\<exists>ok w'. incoming_listen_send_receive E K (Some a) w = Some (ok, w') \<and> late_inv K b w'"
    and "\<exists>ok w'. exec_receive E K (Some a) w = Some (ok, w') \<and> late_inv K b w'"
    and "\<exists>ok w'. exec_send E K (Some a) w = Some (ok, w') \<and> late_inv K b w'"
    and "\<exists>ok w'. exec_send_receive E K (Some a) w = Some (ok, w') \<and> late_inv K b w'"
    and "\<exists>ok w'. file_write E K (Some a) w = Some (ok, w') \<and> late_inv K b w'"
    and "\<exists>ok w'. file_write_read E K (Some a) w = Some (ok, w') \<and> late_inv K b w'"
    and "\<exists>ok w'. file_append E K (Some a) w = Some (ok, w') \<and> late_inv K b w'"
    and "\<exists>ok w'. file_append_read E K (Some a) w = Some (ok, w') \<and> late_inv K b w'"
  unfolding outgoing_connect_receive_def outgoing_connect_send_def outgoing_connect_send_receive_def incoming_listen_receive_def
    incoming_listen_send_def incoming_listen_send_receive_def exec_receive_def exec_send_def exec_send_receive_def
    file_write_def file_write_read_def file_append_def file_append_read_def bind.bind_lunit
  by (rule late_add, rule late_new [OF assms] late_file_add [OF assms], assumption, rule assms)+

text \<open>As handlers of the table.\<close>

lemma late_keeps:
  "handler_keeps Q (late_inv K b) (returning (stdinout_stdin E K)) arg"
  "handler_keeps Q (late_inv K b) (returning (outgoing_connect_receive E K)) (Some a)"
  "handler_keeps Q (late_inv K b) (returning (outgoing_connect_send E K)) (Some a)"
  "handler_keeps Q (late_inv K b) (returning (outgoing_connect_send_receive E K)) (Some a)"
  "handler_keeps Q (late_inv K b) (returning (incoming_listen_receive E K)) (Some a)"
  "handler_keeps Q (late_inv K b) (returning (incoming_listen_send E K)) (Some a)"
  "handler_keeps Q (late_inv K b) (returning (incoming_listen_send_receive E K)) (Some a)"
  "handler_keeps Q (late_inv K b) (returning (exec_receive E K)) (Some a)"
  "handler_keeps Q (late_inv K b) (returning (exec_send E K)) (Some a)"
  "handler_keeps Q (late_inv K b) (returning (exec_send_receive E K)) (Some a)"
  "handler_keeps Q (late_inv K b) (returning (file_write E K)) (Some a)"
  "handler_keeps Q (late_inv K b) (returning (file_write_read E K)) (Some a)"
  "handler_keeps Q (late_inv K b) (returning (file_append E K)) (Some a)"
  "handler_keeps Q (late_inv K b) (returning (file_append_read E K)) (Some a)"
  "handler_keeps Q (late_inv K b) (returning (file_read E K)) (Some a)"
  "handler_keeps Q (late_inv K b) (returning (stdinout_stdout E K)) (Some a)"
  unfolding handler_keeps_returning
  by (intro allI impI late_handler late_file_read late_stdinout, assumption)+

lemma late_handlers:
  assumes e: "(name, e) \<in> set (program_entries E K)" and grp: "opt_group e \<in> {outgoing_opts, incoming_opts, exec_opts, file_opts, stdinout_opts}"
    and arg: "arg_help e \<noteq> None \<Longrightarrow> arg \<noteq> None"
  shows "handler_keeps Q (late_inv K b) (opt_handler e) arg"
proof -
  note k = late_keeps [of Q K b E]
  have some: "\<exists>a. arg = Some a" if "arg_help e \<noteq> None" using arg [OF that] by blast
  show ?thesis
    using e grp some unfolding program_entries_def list.set opts_groups
    by (elim insertE emptyE; elim Pair_inject) (auto simp: k)
qed

lemma late_call:
  assumes args: "args_ok A K m" and tab: "full_table E K st" and inv: "late_inv K b w"
    and grp: "grp \<in> {outgoing_opts, incoming_opts, exec_opts, file_opts, stdinout_opts}"
  shows "goes_on (may_exit A m) (late_inv K b) (call_group A grp st w)"
  by (rule call_group_keeps [where P = "late_inv K b", OF args tab inv]) (rule late_handlers, assumption, use grp in blast, blast)

lemma late_transports:
  assumes K: "program_kernel_ok K" and args: "args_ok A K m" and tab: "full_table E K st" and inv: "late_inv K True w"
  shows "goes_on (may_exit A m) (late_inv K False) (program_transports A K st w)"
proof -
  have call: "goes_on (may_exit A m) (late_inv K b) (call_group A grp st v)"
    if "late_inv K b v" "grp \<in> {outgoing_opts, incoming_opts, exec_opts, file_opts, stdinout_opts}" for b v grp
    by (rule late_call [OF args tab that])
  have ei: "goes_on (may_exit A m) (late_inv K False) (exec_init A K st v)" if v: "late_inv K True v" for v
    unfolding exec_init_def
  proof (rule goes_on_then [OF call [OF v]])
    fix u
    assume u: "late_inv K True u"
    from program_exec_init [of K nobody None u] u obtain x where
      x: "exec_init_peer K u = Some x" "program_sys K nobody None x" "adsbus_made u x" by (auto simp: late_inv_def)
    have "shutdown_ok x" using u x(3) shutdown_ok_frame [of u x] by (simp add: late_inv_def adsbus_made_def call_frame_def)
    then show "goes_on (may_exit A m) (late_inv K False) (map_option Returns (exec_init_peer K u))"
      using x by (simp add: goes_on_def late_inv_def)
  qed simp
  have si: "goes_on (may_exit A m) (late_inv K False) (stdinout_init A K st v)" if v: "late_inv K False v" for v
    unfolding stdinout_init_def
  proof (rule goes_on_then [OF call [OF v]])
    fix u
    assume u: "late_inv K False u"
    have "devices_open K" using K by (simp add: program_kernel_ok_def)
    from stdinout_replace_spec [OF _ this, of nobody None u] u obtain x where
      x: "stdinout_replace K u = Some x" "program_sys K nobody None x" "call_frame u x" "exec_sig x = exec_sig u"
      by (auto simp: late_inv_def)
    then show "goes_on (may_exit A m) (late_inv K False) (map_option Returns (stdinout_replace K u))"
      using late_frame [OF u x(2-4)] by (simp add: goes_on_def)
  qed simp
  show ?thesis unfolding program_transports_def
    by (rule goes_on_then [OF call [OF inv]], simp, rule goes_on_then [OF call], assumption, simp,
        rule goes_on_then [OF ei], assumption, rule goes_on_then [OF call], assumption, simp, rule si)
qed

section \<open>The whole start\<close>

text \<open>The kernel forks and makes a session for \<^verbatim>\<open>--detach\<close>, pid-files can be written, and the system tells of itself; the two
  devices that stand for closed standard streams are there.\<close>

definition system_cooperates :: "'k server_kernel_scheme \<Rightarrow> bool" where
  "system_cooperates K \<longleftrightarrow> (\<forall>n. 0 \<le> k_detach K n \<and> 0 \<le> k_setsid K n) \<and> (\<forall>path. k_write_pid K path) \<and> k_uname K \<and> k_caps K \<and>
     (\<forall>n flags. k_open K n ''/dev/null'' flags \<noteq> None \<and> k_open K n ''/dev/full'' flags \<noteq> None)"

lemma program_kernel_ok_iff: "program_kernel_ok K \<longleftrightarrow> kernel_cooperates K \<and> system_cooperates K"
  unfolding program_kernel_ok_def server_kernel_ok_def devices_open_def path_opens_def kernel_cooperates_iff system_cooperates_def
  by blast

text \<open>What \<^verbatim>\<open>main\<close> is given: a standard error, and the parameters the components rely on.\<close>

definition start_ok :: "'j program_args \<Rightarrow> 'k server_kernel_scheme \<Rightarrow> nat \<Rightarrow> (int \<Rightarrow> string option) \<Rightarrow> bool" where
  "start_ok A K m std \<longleftrightarrow> program_kernel_ok K \<and> args_ok A K m \<and> std STDERR_FILENO \<noteq> None \<and> greetings_fit (arg_env A) \<and>
     hops_ok (arg_max_hops A)"

lemma call_internal:
  assumes args: "args_ok A K m" and tab: "full_table E K st"
  shows "goes_on (may_exit A m) (\<lambda>v. v = w) (call_group A opts_group_internal st w)"
proof -
  have "handler_keeps (may_exit A m) (\<lambda>v. v = w) (opt_handler e) arg"
    if "(name, e) \<in> set (program_entries E K)" "opt_group e = opts_group_internal" for name e arg
    using that by (auto simp: program_entries_def opts_groups)
  from call_group_keeps [OF args tab, where P = "\<lambda>v. v = w" and grp = opts_group_internal, OF refl this] show ?thesis .
qed

lemma program_started_spec:
  assumes ok: "start_ok A K m std"
  shows "goes_on (may_exit A m) (\<lambda>w. early_inv K w \<and> valid_id (server_id w)) (program_started A K (program_zero std))"
proof -
  have K: "server_kernel_ok K" "log_kernel_ok K" "devices_open K" and args: "args_ok A K m"
    using ok by (simp_all add: start_ok_def program_kernel_ok_def server_kernel_ok_def)
  from stdinout_preinit_spec [OF K(3), of "program_zero std"] obtain n sf where
    w: "stdinout_preinit K (program_zero std) = Some ((program_zero std)\<lparr>tick := n, std_files := sf\<rparr>)"
      "sf STDIN_FILENO \<noteq> None" "sf STDOUT_FILENO \<noteq> None" "sf STDERR_FILENO = std STDERR_FILENO"
    by (auto simp: program_zero_def)
  let ?w = "(program_zero std)\<lparr>tick := n, std_files := sf\<rparr>"
  from program_table_spec [of A K] obtain st where
    st: "program_table A K = Some st" "full_table (arg_env A) K st" by blast
  then obtain st0 where st0: "adsbus_opts_add (arg_env A) K opts_empty = Some st0" "opts_complete opts_help opts_group_internal st0 = Some st"
    by (auto simp: program_table_def bind_Some_iff)
  from rand_init_ok [of "env_entropy (arg_env A)"] obtain rs where
    rs: "rand_init (env_entropy (arg_env A)) = Some rs" "rand_ok rs" by blast
  have zero: "is_c_str (replicate UUID_LEN 0)" by (simp add: is_c_str_def UUID_LEN_def)
  have inv: "early_inv K (?w\<lparr>rnd := rs\<rparr>)"
    using w(2-4) rs(2) ok zero by (simp add: early_inv_def early_def std_open_def program_zero_def start_ok_def)
  have rest: "goes_on (may_exit A m) (\<lambda>w. early_inv K w \<and> valid_id (server_id w))
      (outcome_then (log_init A K st (?w\<lparr>rnd := rs\<rparr>)) (server_init A K st))"
  proof (rule goes_on_then)
    show "goes_on (may_exit A m) (early_inv K) (log_init A K st (?w\<lparr>rnd := rs\<rparr>))"
      by (rule log_init_spec [OF args st(2) K(2) inv])
    show "goes_on (may_exit A m) (\<lambda>w. early_inv K w \<and> valid_id (server_id w)) (server_init A K st v)" if "early_inv K v" for v
      by (rule server_init_spec [OF args st(2) K(1) that])
  qed
  obtain r where r: "opts_init (arg_getopt A) (arg_argc A) opts_help opts_group_internal st0 ?w = Some (st, r)"
    "goes_on (may_exit A m) (\<lambda>v. v = ?w) (Some r)"
    using call_internal [OF args st(2), of ?w] st0(2) by (auto simp: opts_init_def call_group_def goes_on_def)
  have "goes_on (may_exit A m) (\<lambda>w. early_inv K w \<and> valid_id (server_id w))
      (outcome_then (Some r) (\<lambda>w. outcome_then (log_init A K st (w\<lparr>rnd := rs\<rparr>)) (server_init A K st)))"
    by (rule goes_on_then [OF r(2)]) (use rest in simp)
  then show ?thesis by (simp add: program_started_def w(1) st0(1) r(1) rs(1))
qed

lemma adsbus_init_spec:
  assumes ok: "start_ok A K m std" and E: "env_ok (arg_env A)"
  shows "goes_on (may_exit A m) (\<lambda>(A', w). loop_inv K w \<and> env_ok (arg_env A')) (adsbus_init A K (program_zero std))"
  unfolding adsbus_init_def
proof (rule goes_on_then [OF program_started_spec [OF ok]])
  fix w
  assume w: "early_inv K w \<and> valid_id (server_id w)"
  let ?A = "A\<lparr>arg_env := program_env (arg_env A) w\<rparr>"
  have K: "program_kernel_ok K" and args: "args_ok ?A K m" and g: "greetings_fit (arg_env ?A)" and h: "hops_ok (arg_max_hops ?A)"
    using ok by (simp_all add: start_ok_def args_ok_def greetings_fit_def program_env_def)
  have na: "may_exit ?A m = may_exit A m" by (simp add: fun_eq_iff may_exit_def no_args_def option_given_def)
  have E': "env_ok (arg_env ?A)" using E w valid_id_c_str by (simp add: env_ok_def program_env_def)
  from program_table_spec [of ?A K] obtain st where st: "program_table ?A K = Some st" "full_table (arg_env ?A) K st" by blast
  from program_setup_spec [OF K conjunct1 [OF w] conjunct2 [OF w] g h] obtain u v where
    v: "program_peers K w = Some u" "program_formats ?A u = Some v" "program_sys K nobody None v" "shutdown_ok v" "exec_sig v = None"
    by blast
  have li: "late_inv K True v" using v(3-5) by (simp add: late_inv_def)
  have "goes_on (may_exit A m) (\<lambda>(A', w). loop_inv K w \<and> env_ok (arg_env A'))
      (outcome_then (program_transports ?A K st v) (\<lambda>w. Some (Returns (?A, w))))"
    unfolding na [symmetric] by (rule goes_on_then [OF late_transports [OF K args st(2) li]])
      (use E' loop_invI in \<open>auto simp: goes_on_def late_inv_def\<close>)
  then show "goes_on (may_exit A m) (\<lambda>(A', w). loop_inv K w \<and> env_ok (arg_env A')) (let A = ?A in do {
      st \<leftarrow> program_table A K;
      w \<leftarrow> program_peers K w;
      w \<leftarrow> program_formats A w;
      outcome_then (program_transports A K st w) (\<lambda>w. Some (Returns (A, w)))
    })"
    using st(1) v(1,2) by (simp add: Let_def)
qed

section \<open>A sample\<close>

text \<open>The kernel of the sample of the event loop, with devices that can be opened; the command line is \<^verbatim>\<open>adsbus --listen-receive=30003\<close>.\<close>

definition sample_server_kernel :: server_kernel where
  "sample_server_kernel = \<lparr>k_new_fd = k_new_fd sample_log_kernel, k_timer_stat = k_timer_stat sample_log_kernel,
     k_socket = k_socket sample_log_kernel, k_open = (\<lambda>n path flags. Some sample_sock_info), k_sock_stat = k_sock_stat sample_log_kernel,
     k_getaddrinfo = k_getaddrinfo sample_log_kernel, k_getnameinfo = k_getnameinfo sample_log_kernel, k_sendto = k_sendto sample_log_kernel,
     k_so_error = k_so_error sample_log_kernel, k_bind = k_bind sample_log_kernel, k_listen = k_listen sample_log_kernel,
     k_accept = k_accept sample_log_kernel, k_fork = k_fork sample_log_kernel, k_waitpid = k_waitpid sample_log_kernel,
     k_wait_for = k_wait_for sample_log_kernel, k_read_log = k_read_log sample_log_kernel, k_read_chld = k_read_chld sample_log_kernel,
     k_datetime = k_datetime sample_log_kernel, k_fprintf = k_fprintf sample_log_kernel,
     k_read_hup = k_read_hup sample_log_kernel, k_std_info = k_std_info sample_log_kernel,
     k_detach = (\<lambda>n. 0), k_setsid = (\<lambda>n. 1), k_pid = 42, k_write_pid = (\<lambda>path. True), k_macro = (\<lambda>name. c_str name),
     k_glibc = (2, 23), k_git_local_clean = True, k_uname = True, k_caps = True, k_system = (\<lambda>name. c_str name)\<rparr>"

definition sample_args :: "nat \<Rightarrow> unit program_args" where
  "sample_args m = \<lparr>arg_env = sample_env,
     arg_getopt = (\<lambda>k. if k < m then \<lparr>go_opt = 0, go_longindex = 8, go_optarg = Some ''30003'', go_optind = Suc m\<rparr>
       else \<lparr>go_opt = -1, go_longindex = 0, go_optarg = None, go_optind = Suc m\<rparr>),
     arg_argc = Suc m, arg_max_hops = None\<rparr>"

lemma sample_server_kernel_ok: "program_kernel_ok sample_server_kernel"
proof -
  note s = sample_log_kernel_ok
  have k: "kernel_ok sample_server_kernel" using s(3) by (simp add: kernel_ok_def sample_server_kernel_def)
  have n: "net_ok sample_server_kernel" using s(1) k unfolding net_ok_def by (simp add: sample_server_kernel_def)
  have e: "exec_kernel_ok sample_server_kernel" using s(2) k unfolding exec_kernel_ok_def by (simp add: sample_server_kernel_def)
  have l: "log_kernel_ok sample_server_kernel" using s(4) k unfolding log_kernel_ok_def by (simp add: sample_server_kernel_def)
  have "server_kernel_ok sample_server_kernel" using l unfolding server_kernel_ok_def by (simp add: sample_server_kernel_def)
  then show ?thesis using n e by (simp add: program_kernel_ok_def devices_open_def path_opens_def) (simp add: sample_server_kernel_def)
qed

lemma sample_start_ok: "start_ok (sample_args m) sample_server_kernel m (\<lambda>fd. Some ''/dev/tty'')"
proof -
  have "args_ok (sample_args m) sample_server_kernel m" by (simp add: args_ok_def sample_args_def program_options_def)
  moreover have "greetings_fit sample_env"
    by (simp add: greetings_fit_def sample_env_def BUF_LEN_MAX_def sample_dump_def sample_pack_def sample_pack_length proto_frame_def
        varint_bytes.simps)
  ultimately show ?thesis using sample_server_kernel_ok by (simp add: start_ok_def hops_ok_def) (simp add: sample_args_def)
qed

section \<open>Properties\<close>

text \<open>
  C1. The program starts. Let the kernel cooperate (\<open>kernel_cooperates\<close>; a child is forked at once for an option that asks for one)
  and the system too (\<open>system_cooperates\<close>: the process can be detached, a pid-file can be
  written, the system and the capabilities can be read); let a log file that is given be one that can be
  opened, options that need an argument have one (\<open>args_ok\<close>), \<^verbatim>\<open>ADSBUS_MAX_HOPS\<close> be a number if it is set (\<open>hops_ok\<close>),
  the standard error be open, and the greetings of the formats fit. Then, whatever options are given, in whatever order, and whatever
  the resolver, the files and the sockets answer: \<^verbatim>\<open>main\<close> never meets a failing assertion before the event loop.
  It exits with an error because an option was refused, with success only if \<^verbatim>\<open>--help\<close> or \<^verbatim>\<open>--detach\<close> was given, and without
  options not at all; otherwise it reaches the loop with the invariant of the program, with the identity of the server set.
\<close>

theorem main_starts:
  assumes "kernel_cooperates K" and "system_cooperates K" and "args_ok A K m" and "hops_ok (arg_max_hops A)"
    and "std STDERR_FILENO \<noteq> None" and "greetings_fit (arg_env A)" and "env_ok (arg_env A)"
  shows "case adsbus_init A K (program_zero std) of
      None \<Rightarrow> False
    | Some (Exits ok) \<Rightarrow> \<not> no_args A m \<and> (ok \<longrightarrow> option_given A m ''help'' \<or> option_given A m ''detach'')
    | Some (Returns (A', w)) \<Rightarrow> loop_state w \<and> log_opens K w \<and> env_ok (arg_env A')"
proof -
  have "start_ok A K m std" using assms(1-6) by (simp add: start_ok_def program_kernel_ok_iff)
  from adsbus_init_spec [OF this assms(7)] show ?thesis by (auto simp: goes_on_def may_exit_def loop_inv_parts)
qed

lemma sample_start_parts:
  "kernel_cooperates sample_server_kernel" "system_cooperates sample_server_kernel" "args_ok (sample_args m) sample_server_kernel m"
  "hops_ok (arg_max_hops (sample_args m))" "greetings_fit (arg_env (sample_args m))" "env_ok (arg_env (sample_args m))"
  using sample_start_ok [of m] by (simp_all add: start_ok_def program_kernel_ok_iff) (simp add: sample_args_def sample_env_ok)

theorem main_starts_witness:
  "(case adsbus_init (sample_args 1) sample_server_kernel (program_zero (\<lambda>fd. Some ''/dev/tty'')) of
      None \<Rightarrow> False
    | Some (Exits ok) \<Rightarrow> \<not> ok
    | Some (Returns (A', w)) \<Rightarrow> loop_state w \<and> log_opens sample_server_kernel w \<and> env_ok (arg_env A')) \<and>
    (\<exists>A' w. adsbus_init (sample_args 0) sample_server_kernel (program_zero (\<lambda>fd. Some ''/dev/tty'')) = Some (Returns (A', w)) \<and>
      loop_state w)"
proof -
  have g: "\<not> option_given (sample_args 1) 1 ''help''" "\<not> option_given (sample_args 1) 1 ''detach''"
    by (simp_all add: option_given_def sample_args_def program_options_def)
  have n: "no_args (sample_args 0) 0" by (simp add: no_args_def sample_args_def)
  have e: "(\<lambda>fd. Some ''/dev/tty'') STDERR_FILENO \<noteq> None" by simp
  note s = main_starts [OF sample_start_parts(1-4) e sample_start_parts(5,6)]
  show ?thesis using s [of 1] s [of 0] g n by (auto split: option.splits outcome.splits)
qed

text \<open>
  C2. From \<^verbatim>\<open>main\<close> on, the program is safe. Under the conditions of the property before (above all that the kernel goes on
  to cooperate: no call that the code asserts on fails, shutting half of a connection down does not find it reset, and connections come
  from addresses of at most 16 bytes), in every state that the event loop goes through after such a start, for every
  sequence of events the kernel may report, the next turn of the loop returns and keeps the invariant, unless
  some file, outgoing connection or incoming transport has made more than ten attempts in a row when it begins; the loop ends only
  when the program is shutting down.
\<close>

theorem main_runs_safely:
  assumes "kernel_cooperates K" and "system_cooperates K" and "args_ok A K m" and "hops_ok (arg_max_hops A)"
    and "std STDERR_FILENO \<noteq> None" and "greetings_fit (arg_env A)" and "env_ok (arg_env A)" and "reads_ok read_signal read_timer"
    and "adsbus_init A K (program_zero std) = Some (Returns (A', w0))"
    and "loop_reach (arg_env A') K read_signal read_timer w0 w" and "wait_ok wait w"
  shows "case peer_loop_turn (program_handler (arg_env A') K read_signal read_timer) wait w of
      None \<Rightarrow> 10 < adsbus_tries w
    | Some (go, w') \<Rightarrow> loop_state w' \<and> log_opens K w' \<and> (go \<or> peer_shutdown_flag w')"
proof -
  have "start_ok A K m std" using assms(1-6) by (simp add: start_ok_def program_kernel_ok_iff)
  from adsbus_init_spec [OF this assms(7)] assms(9) have s: "loop_inv K w0" "env_ok (arg_env A')" by (auto simp: goes_on_def)
  show ?thesis using loop_turn_safe [OF s(2) assms(8) loop_reach_inv [OF assms(10) s(2) assms(8) s(1)] assms(11)]
    by (auto simp: loop_inv_parts MAX_EVENTS_def split: option.splits)
qed

theorem main_runs_safely_witness:
  "\<exists>A' w0. adsbus_init (sample_args 0) sample_server_kernel (program_zero (\<lambda>fd. Some ''/dev/tty'')) = Some (Returns (A', w0)) \<and>
    (case peer_loop_turn (program_handler (arg_env A') sample_server_kernel (\<lambda>_. 128) (\<lambda>_. (8, 1))) (\<lambda>_. None) w0 of
       None \<Rightarrow> 10 < adsbus_tries w0
     | Some (go, w') \<Rightarrow> loop_state w' \<and> log_opens sample_server_kernel w' \<and> (go \<or> peer_shutdown_flag w'))"
proof -
  have e: "(\<lambda>fd. Some ''/dev/tty'') STDERR_FILENO \<noteq> None" by simp
  have "no_args (sample_args 0) 0" by (simp add: no_args_def sample_args_def)
  with adsbus_init_spec [OF sample_start_ok sample_start_parts(6), of 0] obtain A' w0 where
    i: "adsbus_init (sample_args 0) sample_server_kernel (program_zero (\<lambda>fd. Some ''/dev/tty'')) = Some (Returns (A', w0))"
    by (auto simp: goes_on_def may_exit_def)
  have "wait_ok (\<lambda>_. None) w0" by (simp add: wait_ok_def)
  from main_runs_safely [OF sample_start_parts(1-4) e sample_start_parts(5,6) sample_reads_ok i loop_start this] i show ?thesis by blast
qed

end
