(* ===== verification/Connections.thy ===== *)
theory Connections
  imports Event_Loop
begin

text \<open>
  What the handlers of the transports do in any state of the program while the kernel cooperates, and what a pointer that is
  registered points to. Errors the code does not survive are shown too: each stops the whole program.
\<close>

section \<open>Registered pointers are typed\<close>

text \<open>
  \<^verbatim>\<open>container_of\<close> turns the pointer to a peer into one to the structure it is part of; which one the event handler tells.
  Here the structures with a peer, other than those of connections and timers, are told apart.
\<close>

datatype struct_kind = Struct_file | Struct_outgoing | Struct_incoming | Struct_exec | Struct_exec_log | Struct_exec_sig | Struct_log

fun struct_addresses :: "struct_kind \<Rightarrow> 'a log_state_scheme \<Rightarrow> nat set" where
  "struct_addresses Struct_file w = fl_addr ` set (file_head w)"
| "struct_addresses Struct_outgoing w = ou_at ` set (outgoing_head w)"
| "struct_addresses Struct_incoming w = ic_at ` set (incoming_head w)"
| "struct_addresses Struct_exec w = ex_at ` set (exec_head w)"
| "struct_addresses Struct_exec_log w = ex_log_at ` set (exec_head w)"
| "struct_addresses Struct_exec_sig w = fst ` set_option (exec_sig w)"
| "struct_addresses Struct_log w = fst ` set_option (log_rotate_peer w)"

text \<open>The descriptor of the peer at an address, for each kind.\<close>

fun struct_fds :: "struct_kind \<Rightarrow> nat \<Rightarrow> 'a log_state_scheme \<Rightarrow> int set" where
  "struct_fds Struct_file t w = {}"
| "struct_fds Struct_outgoing t w = (\<lambda>ou. peer_fd (ou_peer ou)) ` {ou \<in> set (outgoing_head w). ou_at ou = t}"
| "struct_fds Struct_incoming t w = (\<lambda>ic. peer_fd (ic_peer ic)) ` {ic \<in> set (incoming_head w). ic_at ic = t}"
| "struct_fds Struct_exec t w = (\<lambda>ex. peer_fd (ex_peer ex)) ` {ex \<in> set (exec_head w). ex_at ex = t}"
| "struct_fds Struct_exec_log t w = (\<lambda>ex. peer_fd (ex_log_peer ex)) ` {ex \<in> set (exec_head w). ex_log_at ex = t}"
| "struct_fds Struct_exec_sig t w = (\<lambda>(s, p). peer_fd p) ` {sp \<in> set_option (exec_sig w). fst sp = t}"
| "struct_fds Struct_log t w = (\<lambda>(s, p). peer_fd p) ` {sp \<in> set_option (log_rotate_peer w). fst sp = t}"

lemma distinct_at:
  assumes "distinct (map at qs)" and "q \<in> set qs"
  shows "{p \<in> set qs. at p = at q} = {q}"
  using assms by (auto simp: distinct_map dest: inj_onD)

lemma struct_kind_cases: "P Struct_file \<Longrightarrow> P Struct_outgoing \<Longrightarrow> P Struct_incoming \<Longrightarrow> P Struct_exec \<Longrightarrow> P Struct_exec_log \<Longrightarrow>
    P Struct_exec_sig \<Longrightarrow> P Struct_log \<Longrightarrow> P k"
  by (cases k) simp_all

text \<open>The structures are all apart.\<close>

lemma structs_apart:
  fixes w :: "'a log_state_scheme"
  assumes "program_inv K w" and "t \<in> struct_addresses k w" and "t \<in> struct_addresses k' w"
  shows "k = k'"
proof -
  have ai: "adsbus_inv K w" and lr: "adsbus_addrs w \<inter> log_ready w = {}" using assms(1) by (simp_all add: program_inv_def)
  then have "exec_apart w" by (simp add: adsbus_inv_def exec_inv_def)
  then have ex: "ex_at ` set (exec_head w) \<inter> ex_log_at ` set (exec_head w) = {}"
    "exec_sig_addr w \<inter> (ex_at ` set (exec_head w) \<union> ex_log_at ` set (exec_head w)) = {}"
    unfolding exec_apart_def distinct_append set_map by blast+
  have d: "file_addrs w \<inter> outgoing_addresses w = {}" "(file_addrs w \<union> outgoing_addresses w) \<inter> incoming_addresses w = {}"
    "(file_addrs w \<union> outgoing_addresses w \<union> incoming_addresses w) \<inter> exec_addrs w = {}"
    using ai by (simp_all add: adsbus_inv_def)
  have s: "file_addrs w = struct_addresses Struct_file w" "outgoing_addresses w = struct_addresses Struct_outgoing w"
    "incoming_addresses w = struct_addresses Struct_incoming w" "exec_sig_addr w = struct_addresses Struct_exec_sig w"
    "log_ready w = struct_addresses Struct_log w"
    "exec_addrs w = struct_addresses Struct_exec w \<union> struct_addresses Struct_exec_log w \<union> struct_addresses Struct_exec_sig w"
    by (simp_all add: file_addrs_def structs_addrs_def exec_sig_addr_def log_ready_def exec_addrs_def)
  have e: "struct_addresses Struct_exec w \<inter> struct_addresses Struct_exec_log w = {}"
    "struct_addresses Struct_exec_sig w \<inter> (struct_addresses Struct_exec w \<union> struct_addresses Struct_exec_log w) = {}"
    using ex by (simp_all add: exec_sig_addr_def)
  note all = d [unfolded s] e lr [unfolded adsbus_addrs_def s]
  show ?thesis using assms(2,3) all by (cases k; cases k') (simp_all only:, blast+)
qed

lemma ready_typed:
  fixes w :: "'a log_state_scheme"
  assumes inv: "program_inv K w" and t: "t \<in> program_ready w" and reg: "epoll_set w g = Some (Peer_transport t)"
  shows "\<exists>k. k \<notin> {Struct_file, Struct_exec} \<and> t \<in> struct_addresses k w \<and> struct_fds k t w = {g} \<and> 0 \<le> g"
proof -
  have ai: "adsbus_inv K w" and li: "log_inv K w" using inv by (simp_all add: program_inv_def)
  have fd: "g = peer_fd p \<and> 0 \<le> g" if "registered_at t p w" for p using that reg by (auto simp: registered_at_def)
  from t consider (ou) "t \<in> outgoing_ready w" | (ic) "t \<in> incoming_ready w" | (lg) "t \<in> ex_log_at ` {ex \<in> set (exec_head w). ex_log_set ex}"
    | (sg) "t \<in> exec_sig_addr w" | (rot) "t \<in> log_ready w"
    by (auto simp: program_ready_def adsbus_ready_def exec_ready_def)
  then show ?thesis
  proof cases
    case ou
    then obtain q where q: "q \<in> set (outgoing_head w)" "ou_at q = t" "outgoing_phase q = Ph_armed" by (auto simp: in_phase_def)
    have "structs_inv outgoing_head ou_at outgoing_ok (net_up K) None w" using ai by (simp add: adsbus_inv_def)
    then have di: "distinct (map ou_at (outgoing_head w))" and ok: "outgoing_ok q w" using q(1) by (auto simp: structs_inv_def)
    have "registered_at t (ou_peer q) w"
      using ok q(2,3) by (simp add: outgoing_ok_def outgoing_phase_def split: option.splits outgoing_handler.splits)
    then show ?thesis using fd distinct_at [OF di q(1)] q(1,2) by (intro exI [of _ Struct_outgoing]) auto
  next
    case ic
    then obtain q where q: "q \<in> set (incoming_head w)" "ic_at q = t" "incoming_phase q = Ph_armed" by (auto simp: in_phase_def)
    have "structs_inv incoming_head ic_at incoming_ok (net_up K) None w" using ai by (simp add: adsbus_inv_def)
    then have di: "distinct (map ic_at (incoming_head w))" and ok: "incoming_ok q w" using q(1) by (auto simp: structs_inv_def)
    have "registered_at t (ic_peer q) w"
      using ok q(2,3) by (simp add: incoming_ok_def incoming_phase_def split: if_splits incoming_handler.splits)
    then show ?thesis using fd distinct_at [OF di q(1)] q(1,2) by (intro exI [of _ Struct_incoming]) auto
  next
    case lg
    then obtain q where q: "q \<in> set (exec_head w)" "ex_log_at q = t" "ex_log_set q" by auto
    have ei: "exec_inv K w" using ai by (simp add: adsbus_inv_def)
    then have "distinct (map ex_log_at (exec_head w))" unfolding exec_inv_def exec_apart_def distinct_append by blast
    note di = distinct_at [OF this q(1)]
    have "exec_log_ok q w" using ei q(1) by (auto simp: exec_inv_def exec_ok_def)
    then have "registered_at t (ex_log_peer q) w" using reg q(2) by (auto simp: exec_log_ok_def)
    then show ?thesis using fd di q(1,2) by (intro exI [of _ Struct_exec_log]) auto
  next
    case sg
    then obtain p where p: "exec_sig w = Some (t, p)" by (auto simp: exec_sig_addr_def)
    have "registered_at t p w" using ai p by (simp add: adsbus_inv_def exec_inv_def)
    then show ?thesis using fd p by (intro exI [of _ Struct_exec_sig]) auto
  next
    case rot
    then obtain p where p: "log_rotate_peer w = Some (t, p)" by (auto simp: log_ready_def)
    have "registered_at t p w" using li p by (simp add: log_inv_def)
    then show ?thesis using fd p by (intro exI [of _ Struct_log]) auto
  qed
qed

section \<open>The handlers in the program\<close>

text \<open>While the program runs, every transport is in its place among the others.\<close>

lemma program_kinds:
  fixes w :: "'a log_state_scheme" and K :: "'k log_kernel_scheme"
  assumes "loop_inv K w" and "\<not> peer_shutdown_flag w"
  shows "program_sys K nobody None w" and "program_inv K w" and "shutdown_ok w"
    and "\<exists>oth. outgoing_sys K oth None w" and "\<exists>oth. incoming_sys K oth None w" and "\<exists>oth. exec_sys K oth None w"
proof -
  show sys: "program_sys K nobody None w" by (rule loop_inv_sys [OF assms])
  show "program_inv K w" "shutdown_ok w" using assms(1) by (simp_all add: loop_inv_def)
  from program_one [OF sys] obtain oth where a: "adsbus_sys K oth None w" by blast
  show "\<exists>oth. outgoing_sys K oth None w" "\<exists>oth. incoming_sys K oth None w" "\<exists>oth. exec_sys K oth None w"
    using adsbus_one [OF a] by blast+
qed

text \<open>Each event goes to the handler of its kind.\<close>

lemma program_event_kind:
  assumes "program_inv K w" and "t \<in> struct_addresses k w"
  shows "k = Struct_outgoing \<Longrightarrow> program_event E K t w = outgoing_event E K t w"
    and "k = Struct_incoming \<Longrightarrow> program_event E K t w = incoming_event E K t w"
    and "k \<in> {Struct_exec, Struct_exec_log, Struct_exec_sig} \<Longrightarrow> program_event E K t w = exec_event E K t w"
    and "k = Struct_log \<Longrightarrow> program_event E K t w = log_event E K t w"
  using structs_apart [OF assms(1), of t k] assms(2)
  unfolding program_event_def transport_event_def adsbus_addrs_def file_addrs_def structs_addrs_def exec_addrs_def exec_sig_addr_def
  by (metis (no_types, lifting) UnCI UnE insert_iff empty_iff struct_addresses.simps struct_kind.distinct)+

text \<open>A handler that returns leaves the program in order.\<close>

lemma program_event_inv:
  fixes w :: "'a log_state_scheme" and K :: "'k log_kernel_scheme"
  assumes inv: "loop_inv K w" and run: "\<not> peer_shutdown_flag w" and t: "t \<in> program_live w"
    and own: "Some (Peer_transport t) \<notin># owners None w" and ev: "program_event E K t w = Some w'"
  shows "loop_inv K w'"
proof -
  note p = program_kinds [OF inv run]
  from programs.event_returns [OF p(1) t own, of E] ev have s: "program_sys K nobody None w'" "call_frame w w'" by simp_all
  have "shutdown_ok w'" using shutdown_ok_frame [OF p(3)] s(2) by (simp add: call_frame_def)
  then show ?thesis by (rule loop_invI [OF s(1)])
qed

section \<open>Properties\<close>

text \<open>
  C8. Registered pointers are typed. In every state the loop reaches, also after the shutdown, the address the kernel gives back
  for a transport is that of a structure of exactly one kind, and the peer in that structure has the descriptor it
  was given back for; so the handler that is called converts the pointer to the structure it belongs to.
\<close>

theorem registered_peer_typed:
  fixes K :: "'k log_kernel_scheme" and w :: "'a log_state_scheme"
  assumes "loop_reach E K read_signal read_timer w0 w" and "env_ok E" and "reads_ok read_signal read_timer"
    and "loop_inv K w0" and "epoll_set w g = Some (Peer_transport t)"
  shows "\<exists>k. {k'. t \<in> struct_addresses k' w} = {k} \<and> struct_fds k t w = {g}"
proof -
  have "loop_inv K w" by (rule loop_reach_inv [OF assms(1-4)])
  then have inv: "program_inv K w" "regs_ok program_live program_ready None w" by (simp_all add: loop_inv_def)
  then have "t \<in> program_ready w" using assms(5) by (auto simp: regs_ok_def)
  from ready_typed [OF inv(1) this assms(5)] obtain k where k: "t \<in> struct_addresses k w" "struct_fds k t w = {g}" by blast
  have "{k'. t \<in> struct_addresses k' w} = {k}" using k(1) structs_apart [OF inv(1)] by blast
  then show ?thesis using k(2) by blast
qed

theorem registered_peer_typed_witness:
  "\<exists>k. {k'. 7 \<in> struct_addresses k' sample_program} = {k} \<and> struct_fds k 7 sample_program = {10}"
  by (rule registered_peer_typed [OF loop_start sample_env_ok sample_reads_ok sample_loop_inv]) (simp add: sample_program_simps)

text \<open>A pointer that is registered may be called.\<close>

lemma transport_callable:
  fixes w :: "'a log_state_scheme" and K :: "'k log_kernel_scheme"
  assumes "loop_inv K w" and "epoll_set w g = Some (Peer_transport t)"
  shows "t \<in> program_live w" and "Some (Peer_transport t) \<notin># owners None w"
  using assms by (auto simp: loop_inv_def regs_ok_def)

lemma sample_parts:
  "kernel_cooperates sample_log_kernel" "log_opens sample_log_kernel sample_program" "loop_state sample_program"
  using sample_loop_inv by (simp_all add: loop_inv_parts)

lemma sample_callable:
  "Some (Peer_transport 4) \<notin># owners None sample_program" "Some (Peer_transport 5) \<notin># owners None sample_program"
  "7 \<in> program_live sample_program" "Some (Peer_transport 7) \<notin># owners None sample_program"
  using transport_callable [OF sample_loop_inv, of 8 4] transport_callable [OF sample_loop_inv, of 9 5]
    transport_callable [OF sample_loop_inv, of 10 7] by (simp_all add: sample_program_simps)

text \<open>The list of addresses is allocated exactly while a connection is being made, and then some are left.\<close>

definition outgoing_lists_ok :: "'a outgoing_state_scheme \<Rightarrow> bool" where
  "outgoing_lists_ok w \<longleftrightarrow> (\<forall>ou \<in> set (outgoing_head w). ou_handler ou \<noteq> None \<longrightarrow>
     (ou_addrs ou \<noteq> None \<longleftrightarrow> ou_handler ou = Some Outgoing_connect_handler) \<and> (ou_addrs ou \<noteq> None \<longrightarrow> ou_addr ou \<noteq> []))"

lemma outgoing_lists:
  assumes "program_inv K w"
  shows "outgoing_lists_ok w"
proof -
  have ok: "outgoing_ok ou w" if "ou \<in> set (outgoing_head w)" for ou
    using assms that by (auto simp: program_inv_def adsbus_inv_def structs_inv_def)
  have "(ou_addrs ou \<noteq> None \<longleftrightarrow> ou_handler ou = Some Outgoing_connect_handler) \<and> (ou_addrs ou \<noteq> None \<longrightarrow> ou_addr ou \<noteq> [])"
    if ou: "ou \<in> set (outgoing_head w)" "ou_handler ou = Some h" for ou h
    using ok [OF ou(1)] ou(2) by (cases h) (simp_all add: outgoing_ok_def)
  then show ?thesis by (auto simp: outgoing_lists_ok_def)
qed

text \<open>
  C9. The handlers of an outgoing connection are safe while the kernel cooperates (\<open>kernel_cooperates\<close>; of its
  conditions the connection needs that options can be set on its socket, that half of it can be shut down once it is
  connected, and that addresses can be printed) and the log can be opened. Whichever of the
  four handlers is called in a state of the running program, whatever the resolver answers, and however
  connecting ends: the handler returns unless the connection
  has used up its twenty attempts, the invariant of the program holds again, and the list of addresses the resolver allocated
  is held exactly while connecting and no list is lost, so that it is neither leaked, nor used or freed after it was freed.
\<close>

theorem outgoing_handlers_safe:
  fixes w :: "'a log_state_scheme" and K :: "'k log_kernel_scheme"
  assumes K: "kernel_cooperates K" and L: "log_opens K w" and S: "loop_state w"
    and "\<not> peer_shutdown_flag w" and "ou \<in> set (outgoing_head w)" and "ou_handler ou \<noteq> None"
    and "Some (Peer_transport (ou_at ou)) \<notin># owners None w"
  shows "case outgoing_event E K (ou_at ou) w of
      None \<Rightarrow> 20 \<le> unat (ou_attempt ou)
    | Some w' \<Rightarrow> loop_state w' \<and> log_opens K w' \<and> outgoing_lists_ok w' \<and> addrs_lost w' = addrs_lost w"
proof -
  note assms = loop_inv_apart [OF K L S] assms(4-)
  note p = program_kinds [OF assms(1,2)]
  obtain oth where sys: "outgoing_sys K oth None w" using p(4) by blast
  have ph: "outgoing_phase ou \<noteq> Ph_fresh" using assms(4) by (auto simp: outgoing_phase_def split: outgoing_handler.splits)
  have at: "ou_at ou \<in> struct_addresses Struct_outgoing w" using assms(3) by simp
  have live: "ou_at ou \<in> program_live w"
    using assms(3) ph by (cases "outgoing_phase ou") (auto simp: program_live_def adsbus_live_def in_phase_def)
  show ?thesis
  proof (cases "outgoing_event E K (ou_at ou) w")
    case None
    then show ?thesis using outgoing_event_returns(1) [OF sys assms(3) ph assms(5), of E]
      by (simp add: outgoings.returns_def outgoing_tried_def)
  next
    case (Some w')
    then have "program_event E K (ou_at ou) w = Some w'" using program_event_kind(1) [OF p(2) at refl, of E] by simp
    note inv = program_event_inv [OF assms(1,2) live assms(5) this]
    then have "program_inv K w'" by (simp add: loop_inv_def)
    moreover have "addrs_lost w' = addrs_lost w"
      using outgoing_event_returns(1) [OF sys assms(3) ph assms(5), of E] Some outgoings.finishedD(2) assms(3)
      by (fastforce simp: outgoings.returns_def outgoing_frame_def structs_addrs_def)
    ultimately show ?thesis using Some inv outgoing_lists by (simp add: loop_inv_parts)
  qed
qed

theorem outgoing_handlers_safe_witness:
  "\<exists>w'. outgoing_event sample_env sample_log_kernel 4 sample_program = Some w' \<and> loop_state w' \<and>
    log_opens sample_log_kernel w' \<and> outgoing_lists_ok w' \<and> addrs_lost w' = []"
proof -
  have "sample_outgoing \<in> set (outgoing_head sample_program)" "ou_handler sample_outgoing \<noteq> None" "ou_at sample_outgoing = 4"
    "ou_attempt sample_outgoing = 0" "\<not> peer_shutdown_flag sample_program" "addrs_lost sample_program = []"
    by (simp_all add: sample_program_simps) (simp_all add: sample_outgoing_def sample_program_eq sample_files_def sample_more_def)
  with outgoing_handlers_safe [OF sample_parts _ this(1,2), of sample_env] sample_callable(1)
  show ?thesis by (auto split: option.splits)
qed

text \<open>The event of an incoming transport.\<close>

lemma incoming_handlers_inv:
  fixes w :: "'a log_state_scheme" and K :: "'k log_kernel_scheme"
  assumes K: "kernel_cooperates K" and L: "log_opens K w" and S: "loop_state w"
    and "\<not> peer_shutdown_flag w" and "ic \<in> set (incoming_head w)"
    and "Some (Peer_transport (ic_at ic)) \<notin># owners None w"
  shows "case incoming_event E K (ic_at ic) w of
      None \<Rightarrow> 20 < unat (ic_attempt ic) \<and> ic_handler ic \<noteq> Incoming_handler
    | Some w' \<Rightarrow> loop_state w' \<and> log_opens K w' \<and> (ic_handler ic = Incoming_handler \<longrightarrow> incoming_head w' = incoming_head w)"
proof -
  note assms = loop_inv_apart [OF K L S] assms(4-)
  note p = program_kinds [OF assms(1,2)]
  obtain oth where sys: "incoming_sys K oth None w" using p(5) by blast
  have at: "ic_at ic \<in> struct_addresses Struct_incoming w" using assms(3) by simp
  have live: "ic_at ic \<in> program_live w"
    using assms(3) by (auto simp: program_live_def adsbus_live_def in_phase_def incoming_phase_def)
  note c = incoming_called [OF sys assms(3)]
  have acc: "\<exists>w'. incoming_event E K (ic_at ic) w = Some w' \<and> incoming_head w' = incoming_head w" if "ic_handler ic = Incoming_handler"
    using incoming_handler_spec [OF sys assms(3) that, of E] c(1) that by (auto simp: incoming_event_def)
  show ?thesis
  proof (cases "incoming_event E K (ic_at ic) w")
    case None
    then show ?thesis using incoming_event_returns [OF sys assms(3,4), of E] acc
      by (auto simp: incomings.returns_def incoming_tried_def)
  next
    case (Some w')
    then have "program_event E K (ic_at ic) w = Some w'" using program_event_kind(2) [OF p(2) at refl, of E] by simp
    from program_event_inv [OF assms(1,2) live assms(4) this] show ?thesis using Some acc by (auto simp: loop_inv_parts)
  qed
qed

text \<open>
  C10. The handlers of an incoming transport are safe while the kernel cooperates (\<open>kernel_cooperates\<close>; of its
  conditions the transport needs that options can be set on a socket and it can listen, that addresses can be printed and
  those of an accepted connection have at most 16 bytes, and that half of the connection can be shut down; the next two
  properties show what happens without the last two) and the log can be opened. Listening, accepting a connection and asking the
  resolver again return unless the transport has used up its retries, and the invariant of the program
  holds again; accepting a connection leaves the transport, and so the socket it listens on, as it was.
\<close>

theorem incoming_handlers_safe:
  fixes w :: "'a log_state_scheme" and K :: "'k log_kernel_scheme"
  assumes K: "kernel_cooperates K" and L: "log_opens K w" and S: "loop_state w"
    and "\<not> peer_shutdown_flag w" and "ic \<in> set (incoming_head w)"
    and "Some (Peer_transport (ic_at ic)) \<notin># owners None w"
  shows "case incoming_event E K (ic_at ic) w of
      None \<Rightarrow> 20 < unat (ic_attempt ic) \<and> ic_handler ic \<noteq> Incoming_handler
    | Some w' \<Rightarrow> loop_state w' \<and> log_opens K w' \<and> (ic_handler ic = Incoming_handler \<longrightarrow> incoming_head w' = incoming_head w)"
  by (rule incoming_handlers_inv [OF assms])

theorem incoming_handlers_safe_witness:
  "\<exists>w'. incoming_event sample_env sample_log_kernel 5 sample_program = Some w' \<and> loop_state w' \<and>
    log_opens sample_log_kernel w' \<and> incoming_head w' = incoming_head sample_program"
proof -
  have "sample_incoming \<in> set (incoming_head sample_program)" "ic_at sample_incoming = 5" "ic_handler sample_incoming = Incoming_handler"
    "\<not> peer_shutdown_flag sample_program"
    by (simp_all add: sample_program_simps) (simp_all add: sample_incoming_def)
  with incoming_handlers_safe [OF sample_parts _ this(1), of sample_env] sample_callable(2)
  show ?thesis by (auto split: option.splits)
qed

text \<open>
  C20. Exactly the connections between addresses of at most 16 bytes can be accepted. In a running program whose
  kernel cooperates but for the addresses it reports, the event of a socket that listens leaves the
  program in order if there is no connection, or the addresses of both ends fit into a \<^verbatim>\<open>struct sockaddr\<close>; otherwise, and
  so always for an IPv6 connection, with 28 bytes, \<^verbatim>\<open>getnameinfo\<close> is told to read past the end of the structure on the
  stack, which is undefined behaviour (\<open>None\<close>).
\<close>

theorem incoming_accepts_short_addresses:
  fixes w :: "'a log_state_scheme" and K :: "'k log_kernel_scheme"
  assumes K: "kernel_cooperates (K\<lparr>k_accept := \<lambda>_ _. None\<rparr>)" and L: "log_opens K w" and S: "loop_state w"
    and run: "\<not> peer_shutdown_flag w" and ic: "ic \<in> set (incoming_head w)" "ic_handler ic = Incoming_handler"
  shows "case incoming_event E K (ic_at ic) w of
      None \<Rightarrow> \<exists>there here. k_accept K (tick w) (peer_fd (ic_peer ic)) = Some (there, here) \<and> (16 < length there \<or> 16 < length here)
    | Some w' \<Rightarrow> loop_state w' \<and> (\<forall>there here. k_accept K (tick w) (peer_fd (ic_peer ic)) = Some (there, here) \<longrightarrow>
        length there \<le> 16 \<and> length here \<le> 16)"
proof -
  let ?acc = "k_accept K (tick w) (peer_fd (ic_peer ic))"
  have inv: "loop_inv (K\<lparr>k_accept := \<lambda>_ _. None\<rparr>) w" by (rule loop_inv_apart [OF K _ S]) (use L in \<open>simp add: log_opens_def\<close>)
  note p = program_kinds [OF inv run]
  obtain oth where sys: "incoming_sys (K\<lparr>k_accept := \<lambda>_ _. None\<rparr>) oth None w" using p(5) by blast
  note f = incoming_called(1) [OF sys ic(1)]
  have ev: "incoming_event E K' (ic_at ic) w = incoming_handler E K' (ic_at ic) w" for K' :: "'k log_kernel_scheme"
    using f ic(2) by (simp add: incoming_event_def)
  show ?thesis
  proof (cases "\<forall>there here. ?acc = Some (there, here) \<longrightarrow> length there \<le> 16 \<and> length here \<le> 16")
    case True
    define K' where "K' = K\<lparr>k_accept := \<lambda>_ _. ?acc\<rparr>"
    have K': "kernel_cooperates K'" using K True by (simp add: kernel_cooperates_def K'_def)
    have L': "log_opens K' w" using L by (simp add: log_opens_def K'_def)
    have dup: "dup_fd K' g v = dup_fd K g v" for g and v :: "'a log_state_scheme"
      by (simp add: dup_fd_def new_fd_def K'_def)
    have "send_receive_new E K' = (send_receive_new E K :: int \<Rightarrow> nat option \<Rightarrow> peer_ref option \<Rightarrow> 'a log_state_scheme \<Rightarrow> _)"
      by (simp add: fun_eq_iff send_receive_new_def dup)
    then have fl: "the_flow E K' fl = (the_flow E K fl :: ('a log_state_scheme) flow)" for fl
      by (simp add: the_flow_def send_receive_flow_def split: flow_ref.split)
    have same: "incoming_handler E K' (ic_at ic) w = incoming_handler E K (ic_at ic) w"
    proof (cases ?acc)
      case None
      then show ?thesis using f by (simp add: incoming_handler_def K'_def)
    next
      case (Some there_here)
      obtain there here where a: "there_here = (there, here)" by (cases there_here)
      have k: "open_socket K' v = open_socket K v" "k_getnameinfo K' = k_getnameinfo K" "k_socket K' = k_socket K" for v :: "'a log_state_scheme"
        by (simp_all add: open_socket_def sock_info_def new_fd_def K'_def)
      have "k_accept K' (tick w) (peer_fd (ic_peer ic)) = Some (there, here)" using Some by (simp add: K'_def a)
      from incoming_handler_accepts [OF f this, where E = E] incoming_handler_accepts [OF f Some [unfolded a], where E = E] show ?thesis by (simp add: k fl)
    qed
    have own: "Some (Peer_transport (ic_at ic)) \<notin># owners None w"
    proof (rule transport_callable(2) [OF inv])
      have "registered_at (ic_at ic) (ic_peer ic) w" using incoming_called(2) [OF sys ic(1)] ic(2) by (simp add: incoming_ok_def)
      then show "epoll_set w (peer_fd (ic_peer ic)) = Some (Peer_transport (ic_at ic))" by (simp add: registered_at_def)
    qed
    show ?thesis using incoming_handlers_inv [OF K' L' S run ic(1) own, of E] True ev [of K'] ev [of K] ic(2) same by (auto split: option.splits)
  next
    case False
    then obtain there here where a: "?acc = Some (there, here)" "16 < length there \<or> 16 < length here" by (meson not_le)
    have "incoming_handler E K (ic_at ic) w = None"
      using a(2) by (auto simp: incoming_handler_accepts [OF f a(1)] open_socket_def Let_def bind_eq_None_conv c_assert_def SOCKADDR_SIZE_def)
    then show ?thesis using a ev [of K] by auto
  qed
qed

definition ipv6_kernel :: log_kernel where
  "ipv6_kernel = sample_log_kernel\<lparr>k_accept := \<lambda>n fd. Some (replicate 28 0, replicate 28 0)\<rparr>"

theorem incoming_accepts_short_addresses_witness:
  "incoming_event sample_env ipv6_kernel 5 sample_program = None \<and>
    (\<exists>w'. incoming_event sample_env sample_log_kernel 5 sample_program = Some w' \<and> loop_state w')"
proof -
  have ic: "sample_incoming \<in> set (incoming_head sample_program)" "ic_handler sample_incoming = Incoming_handler"
    "ic_at sample_incoming = 5" "\<not> peer_shutdown_flag sample_program"
    by (simp_all add: sample_program_simps) (simp_all add: sample_incoming_def)
  have k: "kernel_cooperates (K\<lparr>k_accept := \<lambda>_ _. None\<rparr>)" "log_opens K sample_program"
    if "K \<in> {sample_log_kernel, ipv6_kernel}" for K
    using that sample_parts(1,2) by (auto simp: kernel_cooperates_def log_opens_def ipv6_kernel_def)
  have a: "k_accept ipv6_kernel n fd = Some (replicate 28 0, replicate 28 0)"
    "k_accept sample_log_kernel n fd = Some (replicate 16 0, replicate 16 0)" for n fd
    by (simp_all add: ipv6_kernel_def sample_log_kernel_def)
  show ?thesis
    using incoming_accepts_short_addresses [OF k [of ipv6_kernel] sample_parts(3) ic(4,1,2), of sample_env]
      incoming_accepts_short_addresses [OF k [of sample_log_kernel] sample_parts(3) ic(4,1,2), of sample_env]
    by (auto simp: a ic(3) split: option.splits)
qed

text \<open>
  C21. A peer that resets its connection before it is handled stops the program. The half of a one-way
  connection that is not used is shut down; if the connection is gone by then, the kernel answers \<^verbatim>\<open>ENOTCONN\<close>, which the
  assertions of \<^verbatim>\<open>socket.c\<close> do not allow for.
\<close>

theorem incoming_reset_stops:
  assumes "incoming_find a w = Some ic" and "ic_handler ic = Incoming_handler" and "ic_flow ic = Receive_flow \<or> ic_flow ic = Send_flow"
    and "k_accept K (tick w) (peer_fd (ic_peer ic)) = Some (there, here)"
    and "\<And>how. k_shutdown (k_socket K) (Suc (tick w)) (new_fd K w) how = ENOTCONN"
  shows "incoming_event E K a w = None"
proof -
  have "flow_socket_connected (k_socket K) (Suc (tick w)) (new_fd K w) (the_flow E K (ic_flow ic) :: ('a incoming_state_scheme) flow) = None"
    using assms(3) socket_connected_reset [OF assms(5,5)]
    by (auto simp: flow_socket_connected_def the_flow_def receive_flow_def send_flow_def)
  moreover have "new_fd K (w\<lparr>tick := Suc (tick w)\<rparr>) = new_fd K w" by (simp add: new_fd_def)
  ultimately show ?thesis using assms(1,2)
    by (auto simp: incoming_event_def incoming_handler_accepts [OF assms(1,4)] Let_def open_socket_def bind_eq_None_conv c_assert_def)
qed

definition reset_kernel :: log_kernel where
  "reset_kernel = sample_log_kernel\<lparr>k_socket := (k_socket sample_kernel)\<lparr>k_shutdown := \<lambda>n fd how. ENOTCONN\<rparr>\<rparr>"

theorem incoming_reset_stops_witness: "incoming_event sample_env reset_kernel 5 sample_program = None"
  by (rule incoming_reset_stops [where ic = sample_incoming and there = "replicate 16 0" and here = "replicate 16 0"])
    (simp_all add: incoming_find_def sample_program_simps sample_incoming_def reset_kernel_def sample_log_kernel_def)

text \<open>
  C22. When no address can be bound, the transport keeps the number of the last socket, which has been closed. Removing the
  transport then closes a descriptor that is not open, or whatever has got its number in the meantime: the former stops the
  program.
\<close>

theorem incoming_bind_stale:
  assumes "incoming_bind E K addrs a w = Some (False, w')" and "addrs \<noteq> []"
  shows "\<exists>ic. incoming_find a w' = Some ic \<and> 0 \<le> peer_fd (ic_peer ic) \<and> fds w' (peer_fd (ic_peer ic)) = None \<and>
    incoming_del E K a w' = None"
proof -
  have "\<exists>ic. incoming_find a w' = Some ic \<and> 0 \<le> peer_fd (ic_peer ic) \<and> fds w' (peer_fd (ic_peer ic)) = None"
    using assms
  proof (induction addrs arbitrary: w)
    case Nil
    then show ?case by simp
  next
    case (Cons ai ais)
    from Cons.prems(1) obtain ic0 fd v n x where
      b: "incoming_find a w = Some ic0" "open_socket K w = Some (fd, v)"
        "close_fd fd (incoming_store (ic0\<lparr>ic_peer := (ic_peer ic0)\<lparr>peer_fd := fd\<rparr>\<rparr>) v\<lparr>tick := n\<rparr>) = Some x"
        "incoming_bind E K ais a x = Some (False, w')"
      by (auto simp: bind_Some_iff Let_def split: if_splits)
    show ?case
    proof (cases "ais = []")
      case False
      then show ?thesis by (rule Cons.IH [OF b(4)])
    next
      case True
      then have "w' = x" using b(4) by simp
      moreover have "0 \<le> fd" "incoming_head v = incoming_head w"
        using b(2) by (auto simp: open_socket_def Let_def bind_Some_iff)
      moreover have "find (\<lambda>q. ic_at q = a) (struct_upd ic_at ic' qs) = Some ic'"
        if "find (\<lambda>q. ic_at q = a) qs = Some ic0" "ic_at ic' = ic_at ic0" for ic' qs
        using that by (induction qs) (auto simp: struct_upd_def split: if_splits)
      ultimately show ?thesis using b(1,3)
        by (auto simp: close_fd_def incoming_find_def incoming_store_def split: option.splits)
    qed
  qed
  then obtain ic where ic: "incoming_find a w' = Some ic" "0 \<le> peer_fd (ic_peer ic)" "fds w' (peer_fd (ic_peer ic)) = None" by blast
  have "fds (flow_ref_dec (the_flow E K (ic_flow ic)) w') = fds w'"
    by (simp add: flow_ref_dec_def the_flow_def receive_flow_def send_flow_def send_receive_flow_def split: flow_ref.split)
  then have "incoming_del E K a w' = None"
    using ic by (simp add: incoming_del_def peer_close_def peer_epoll_del_def epoll_ctl_del_def Let_def c_assert_def)
  then show ?thesis using ic by blast
qed

definition in_use_kernel :: log_kernel where
  "in_use_kernel = sample_log_kernel\<lparr>k_bind := \<lambda>n fd sa. 98\<rparr>"

lemma in_use_bind: "\<exists>w'. incoming_bind sample_env in_use_kernel [sample_addrinfo] 5 sample_program = Some (False, w')"
proof -
  have "kernel_ok in_use_kernel" using sample_log_kernel_ok(3) by (simp add: kernel_ok_def in_use_kernel_def)
  moreover have "finite (dom (fds sample_program))" using kind_sysD(1) [OF sample_program_sys] by (simp add: conn_inv_def)
  ultimately have n: "0 \<le> new_fd in_use_kernel sample_program" by (rule new_fd_fresh)
  have f: "incoming_find 5 sample_program = Some sample_incoming"
    by (simp add: incoming_find_def sample_program_simps sample_incoming_def)
  have p: "socket_pre_bind (k_socket in_use_kernel) k fd = Some ()" for k fd
    by (simp add: socket_pre_bind_def in_use_kernel_def sample_log_kernel_def sample_kernel_def)
  have g: "k_getnameinfo in_use_kernel sa = 0" "k_bind in_use_kernel k fd sa = 98" for k fd sa
    by (simp_all add: in_use_kernel_def sample_log_kernel_def)
  show ?thesis using n f p g by (simp add: open_socket_def Let_def close_fd_def incoming_store_def)
qed

theorem incoming_bind_stale_witness:
  "\<exists>w'. incoming_bind sample_env in_use_kernel [sample_addrinfo] 5 sample_program = Some (False, w') \<and>
    incoming_del sample_env in_use_kernel 5 w' = None"
  using in_use_bind incoming_bind_stale [of sample_env in_use_kernel "[sample_addrinfo]" 5 sample_program] by blast

text \<open>
  C11. The handlers of the children are safe while the kernel cooperates (\<open>kernel_cooperates\<close>; of its conditions
  the children need that a process can be forked, that \<^verbatim>\<open>waitpid\<close> reports no error but a process that has exited or was
  killed, and that the signal is read in full) and the log can be opened. Whether the log of a child can be read, the
  signal says that a child
  has ended, or one is started again: the handler returns, the invariant of the program holds again,
  and every pointer of a child that the kernel may give back can still be called.
\<close>

theorem exec_handlers_safe:
  fixes w :: "'a log_state_scheme" and K :: "'k log_kernel_scheme"
  assumes K: "kernel_cooperates K" and L: "log_opens K w" and S: "loop_state w"
    and "\<not> peer_shutdown_flag w" and "t \<in> exec_live w" and "Some (Peer_transport t) \<notin># owners None w"
  shows "\<exists>w'. exec_event E K t w = Some w' \<and> loop_state w' \<and> log_opens K w' \<and> exec_ready w \<subseteq> exec_ready w'"
proof -
  note assms = loop_inv_apart [OF K L S] assms(4-)
  note p = program_kinds [OF assms(1,2)]
  obtain oth where sys: "exec_sys K oth None w" using p(6) by blast
  from exec_event_returns [OF sys assms(3,4), of E] obtain w' where w': "exec_event E K t w = Some w'" "exec_ready w \<subseteq> exec_ready w'" by blast
  have live: "t \<in> program_live w" using assms(3) by (simp add: program_live_def adsbus_live_def)
  have "t \<in> struct_addresses Struct_exec w \<union> struct_addresses Struct_exec_log w \<union> struct_addresses Struct_exec_sig w"
    using assms(3) by (auto simp: exec_live_def exec_ready_def exec_sig_addr_def)
  then obtain k where k: "t \<in> struct_addresses k w" "k \<in> {Struct_exec, Struct_exec_log, Struct_exec_sig}" by blast
  have "program_event E K t w = Some w'" using program_event_kind(3) [OF p(2) k, of E] w'(1) by simp
  from program_event_inv [OF assms(1,2) live assms(4) this] have "loop_inv K w'" .
  then show ?thesis using w' unfolding loop_inv_parts by blast
qed

theorem exec_handlers_safe_witness:
  "\<exists>w'. exec_event sample_env sample_log_kernel 7 sample_program = Some w' \<and> loop_state w' \<and>
    log_opens sample_log_kernel w' \<and> exec_ready sample_program \<subseteq> exec_ready w'"
proof (rule exec_handlers_safe [OF sample_parts])
  show "\<not> peer_shutdown_flag sample_program" by (simp add: sample_program_simps)
  have "ex_log_at sample_exec = 7" "ex_log_set sample_exec" by (simp_all add: sample_exec_def)
  then show "7 \<in> exec_live sample_program"
    unfolding exec_live_def exec_ready_def sample_program_simps by force
qed (rule sample_callable)

text \<open>
  C19. The log of a child is split as the reference says: the loop over the bytes that were read, which looks for
  the next end of a line with \<^verbatim>\<open>memchr\<close> and moves a pointer, never reads outside of them and writes the lines of the
  block in order, the last one also when it is not complete.
\<close>

theorem exec_log_split:
  "exec_log_lines buf 0 (length buf) = Some (byte_lines buf)"
  using exec_log_lines_spec [of 0 "length buf" buf] by simp

text \<open>
  C23. The child gets its descriptors where it expects them, also if the sockets have got standard numbers themselves:
  the standard input and output are the data socket and the standard error is the log socket, whatever was there
  before; the numbers of the two sockets are closed unless they are standard ones; and no other descriptor is changed.
  This holds for all numbers but one case, which is shown too: if the log socket is 0 or 1 it is overwritten before it is
  copied, and the child has the data socket as its standard error and the other one closed. (It is the last of four that are
  opened in a row, so with the lowest numbers given out first it is neither.)
\<close>

theorem exec_child_descriptors:
  assumes "t data_fd = Some d" and "t log_fd = Some l" and "data_fd \<noteq> log_fd"
  shows "exec_child data_fd log_fd t = Some (\<lambda>fd.
    if (log_fd = 0 \<or> log_fd = 1) \<and> fd = log_fd then None
    else if fd = 0 \<or> fd = 1 then Some d
    else if fd = 2 then Some (if log_fd = 0 \<or> log_fd = 1 then d else l)
    else if fd = data_fd \<or> fd = log_fd then None
    else t fd)"
  using exec_child_spec [OF assms] by (auto simp: child_fds_def fun_eq_iff)

theorem exec_child_descriptors_witness:
  "map (the (exec_child 5 6 [0 \<mapsto> ''tty'', 5 \<mapsto> ''data'', 6 \<mapsto> ''log''])) [0, 1, 2, 3, 5, 6] =
      [Some ''data'', Some ''data'', Some ''log'', None, None, None] \<and>
    map (the (exec_child 0 2 [0 \<mapsto> ''data'', 2 \<mapsto> ''log'', 3 \<mapsto> ''file''])) [0, 1, 2, 3] =
      [Some ''data'', Some ''data'', Some ''log'', Some ''file''] \<and>
    map (the (exec_child 1 2 [1 \<mapsto> ''data'', 2 \<mapsto> ''log''])) [0, 1, 2] = [Some ''data'', Some ''data'', Some ''log'']"
  using exec_child_descriptors [of "[0 \<mapsto> ''tty'', 5 \<mapsto> ''data'', 6 \<mapsto> ''log'']" 5 "''data''" 6 "''log''"]
    exec_child_descriptors [of "[0 \<mapsto> ''data'', 2 \<mapsto> ''log'', 3 \<mapsto> ''file'']" 0 "''data''" 2 "''log''"]
    exec_child_descriptors [of "[1 \<mapsto> ''data'', 2 \<mapsto> ''log'']" 1 "''data''" 2 "''log''"]
  by simp

text \<open>
  C18. Rotating the log returns if the log file can be opened again and can be written (\<open>log_opens\<close>, and the part of
  \<open>kernel_cooperates\<close> about the log; the code asserts both). When the signal arrives, the log file is opened and
  replaces the standard error, nothing else is open or registered afterwards than before, three lines have been written
  unless the log is quiet, and the invariant of the program holds again.
\<close>

theorem log_rotation_safe:
  fixes w :: "'a log_state_scheme" and K :: "'k log_kernel_scheme"
  assumes K: "kernel_cooperates K" and L: "log_opens K w" and S: "loop_state w"
    and "\<not> peer_shutdown_flag w" and "log_rotate_peer w = Some (t, p)"
  shows "\<exists>w' path. log_path w = Some path \<and> log_event E K t w = Some w' \<and> loop_state w' \<and> log_opens K w' \<and>
    fds w' = fds w \<and> epoll_set w' = epoll_set w \<and> std_files w' = (std_files w)(STDERR_FILENO \<mapsto> path) \<and>
    length (log_lines w') = length (log_lines w) + (if log_quiet w then 0 else 3)"
proof -
  note assms = loop_inv_apart [OF K L S] assms(4-)
  note k = program_kinds [OF assms(1,2)]
  have li: "log_inv K w" using k(2) by (simp add: program_inv_def)
  have t: "t \<in> log_ready w" "t \<in> struct_addresses Struct_log w" using assms(3) by (simp_all add: log_ready_def)
  obtain path where path: "log_path w = Some path" using li assms(3) by (auto simp: log_inv_def)
  from log_event_spec [OF kind_sysD(1) [OF k(1)] li t(1), of E] path obtain w' where
    w': "log_event E K t w = Some w'" "log_step w w'" "std_files w' = (std_files w)(STDERR_FILENO \<mapsto> path)"
      "length (log_lines w') = length (log_lines w) + (if log_quiet w then 0 else 3)" by auto
  have live: "t \<in> program_live w" "t \<in> program_ready w" using t(1) by (simp_all add: program_live_def program_ready_def)
  have own: "Some (Peer_transport t) \<notin># owners None w" using kind_sysD(10) [OF k(1), of t] live(2) by (simp add: nobody_def)
  have "program_event E K t w = Some w'" using program_event_kind(4) [OF k(2) t(2) refl, of E] w'(1) by simp
  from program_event_inv [OF assms(1,2) live(1) own this] show ?thesis
    using path w' log_step_fields(1,2) [OF w'(2)] unfolding loop_inv_parts by blast
qed

theorem log_rotation_safe_witness:
  "\<exists>w'. log_event sample_env sample_log_kernel 9 sample_program = Some w' \<and> loop_state w' \<and>
    std_files w' STDERR_FILENO = Some ''/var/log/adsbus'' \<and> length (log_lines w') = length (log_lines sample_program) + 3"
proof -
  have "\<not> log_quiet sample_program" by (simp add: sample_program_eq sample_files_def sample_more_def)
  then show ?thesis using log_rotation_safe [OF sample_parts, of 9 "sample_peer 12" sample_env] by (auto simp: sample_program_simps)
qed

text \<open>
  C17. A transport can be made at any time while the kernel cooperates (\<open>kernel_cooperates\<close>; a child is forked and
  half of its log socket shut down at once, and a file may have to be told its socket options) and the log can be opened.
  Opening a file, which may fail, asking the resolver for a host to connect to or listen on, and starting a child
  return in every state of the running program and leave the invariant in place; a file that cannot be opened, or a host that
  cannot be found or reached, is only ever tried again later.
\<close>

theorem transports_created:
  fixes w :: "'a log_state_scheme" and K :: "'k log_kernel_scheme"
  assumes K: "kernel_cooperates K" and L: "log_opens K w" and S: "loop_state w"
    and "\<not> peer_shutdown_flag w" and "flow_pass_ok flow pass"
  shows "(\<exists>w'. file_new E K path flags flow pass w = Some w' \<and> loop_state w' \<and> log_opens K w') \<and>
    (\<exists>w'. outgoing_new E K node service flow pass w = Some w' \<and> loop_state w' \<and> log_opens K w') \<and>
    (\<exists>w'. incoming_new E K host service flow pass w = Some w' \<and> loop_state w' \<and> log_opens K w') \<and>
    (\<exists>w'. exec_new E K command flow pass w = Some w' \<and> loop_state w' \<and> log_opens K w')"
proof -
  note assms = loop_inv_apart [OF K L S] assms(4-)
  note k = program_kinds [OF assms(1,2)]
  have inv: "loop_inv K w'" if "program_sys K nobody None w'" "adsbus_made w w'" for w'
    using loop_invI [OF that(1)] shutdown_ok_frame [OF k(3)] that(2) by (simp add: adsbus_made_def call_frame_def)
  show ?thesis
    using program_new(1) [OF k(1) assms(3), of E path flags] program_new(2) [OF k(1) assms(3), of E node service]
      program_new(3) [OF k(1) assms(3), of E host service] program_new(4) [OF k(1) assms(3), of E command] inv
    unfolding loop_inv_parts by blast
qed

theorem transports_created_witness:
  "(\<exists>w'. file_new sample_env sample_log_kernel ''in'' 0 Receive_flow None sample_program = Some w' \<and> loop_state w' \<and>
      log_opens sample_log_kernel w') \<and>
    (\<exists>w'. outgoing_new sample_env sample_log_kernel ''host'' ''30005'' Receive_flow None sample_program = Some w' \<and>
      loop_state w' \<and> log_opens sample_log_kernel w') \<and>
    (\<exists>w'. incoming_new sample_env sample_log_kernel None ''30005'' Receive_flow None sample_program = Some w' \<and>
      loop_state w' \<and> log_opens sample_log_kernel w') \<and>
    (\<exists>w'. exec_new sample_env sample_log_kernel ''dump1090'' Receive_flow None sample_program = Some w' \<and> loop_state w' \<and>
      log_opens sample_log_kernel w')"
  by (rule transports_created [OF sample_parts]) (simp_all add: sample_program_simps flow_pass_ok_def)

end
