(* ===== verification/Lifetimes.thy ===== *)
theory Lifetimes
  imports Receive
begin

text \<open>
  Who owns what the two libraries parsed. The parsers of JSON and protobuf store a pointer into the parsed value in the packet
  (\<^verbatim>\<open>packet->source_id\<close>), so the value must outlive the packet; each keeps the last one in \<^verbatim>\<open>json_prev\<close> or \<^verbatim>\<open>proto_prev\<close> and
  releases it when it is called the next time. Here the parsers and the loop that drains a buffer are modelled with these
  values as allocated memory; the models of the other theories, which know only what a packet contains, are shown to be equal.
\<close>

section \<open>Parsed values\<close>

datatype 'j parsed = Parsed_json 'j | Parsed_proto Adsb

text \<open>Where \<^verbatim>\<open>packet->source_id\<close> points to: the id in the connection, or a string in a parsed value.\<close>

datatype source_ref = Src_receive | Src_value nat

record 'j parse_memory =
  live_values :: "nat \<Rightarrow> 'j parsed option"
  next_value :: nat
  json_prev :: "nat option"
  proto_prev :: "nat option"

definition value_new :: "'j parsed \<Rightarrow> 'j parse_memory \<Rightarrow> nat \<times> 'j parse_memory" where
  "value_new v m = (next_value m, m\<lparr>live_values := (live_values m)(next_value m \<mapsto> v), next_value := next_value m + 1\<rparr>)"

text \<open>Releasing what is not allocated, or not of the kind, is undefined.\<close>

definition json_decref :: "nat \<Rightarrow> 'j parse_memory \<Rightarrow> 'j parse_memory option" where
  "json_decref a m = (case live_values m a of
     Some (Parsed_json j) \<Rightarrow> Some (m\<lparr>live_values := (live_values m)(a := None)\<rparr>)
   | _ \<Rightarrow> None)"

definition adsb_free_unpacked :: "nat \<Rightarrow> 'j parse_memory \<Rightarrow> 'j parse_memory option" where
  "adsb_free_unpacked a m = (case live_values m a of
     Some (Parsed_proto g) \<Rightarrow> Some (m\<lparr>live_values := (live_values m)(a := None)\<rparr>)
   | _ \<Rightarrow> None)"

definition source_live :: "source_ref \<Rightarrow> 'j parse_memory \<Rightarrow> bool" where
  "source_live src m \<longleftrightarrow> (case src of Src_receive \<Rightarrow> True | Src_value a \<Rightarrow> live_values m a \<noteq> None)"

section \<open>The parsers\<close>

text \<open>\<^verbatim>\<open>json_parse_common\<close> stores the pointer once there was a header and the member is a string.\<close>

definition json_stores_source :: "'j jansson \<Rightarrow> 'j \<Rightarrow> parser_state \<Rightarrow> bool" where
  "json_stores_source J j st \<longleftrightarrow> json_is_object J j \<and> have_header st \<and> json_unpack_s J j (c_str ''source_id'') \<noteq> None \<and>
     (case json_unpack_s J j (c_str ''type'') of
        None \<Rightarrow> False
      | Some ty \<Rightarrow> (\<exists>s \<in> {''Mode-AC'', ''Mode-S short'', ''Mode-S long''}. c_streq (c_strz ty) (c_strz (c_str s)) = Some True))"

type_synonym 'j memory_parser =
  "buf \<Rightarrow> packet \<Rightarrow> source_ref \<Rightarrow> parser_state \<Rightarrow> 'j parse_memory \<Rightarrow>
     (bool \<times> buf \<times> packet \<times> source_ref \<times> parser_state \<times> 'j parse_memory) option"

definition json_parse_memory :: "'j jansson \<Rightarrow> u8 list \<Rightarrow> 'j memory_parser" where
  "json_parse_memory J server_id b p src st m = do {
     m \<leftarrow> (case json_prev m of
         None \<Rightarrow> Some m
       | Some a \<Rightarrow> do { m \<leftarrow> json_decref a m; Some (m\<lparr>json_prev := None\<rparr>) });
     bytes \<leftarrow> buf_get b 0 (buf_length b);
     case json_loadb J bytes of
       None \<Rightarrow> Some (False, b, p, src, st, m)
     | Some (j, position) \<Rightarrow> do {
         let (a, m) = value_new (Parsed_json j) m;
         let src = (if json_stores_source J j st then Src_value a else src);
         (ok, p, st) \<leftarrow> json_parse_obj J server_id j p st;
         if \<not> ok then do { m \<leftarrow> json_decref a m; Some (False, b, p, src, st, m) }
         else do {
           c_assert (0 < position);
           b \<leftarrow> buf_consume b position;
           b \<leftarrow> json_skip_eol (buf_length b) b;
           Some (True, b, p, src, st, m\<lparr>json_prev := Some a\<rparr>)
         }
       }
   }"

definition json_cleanup :: "'j parse_memory \<Rightarrow> 'j parse_memory option" where
  "json_cleanup m = (case json_prev m of None \<Rightarrow> Some m | Some a \<Rightarrow> json_decref a m)"

text \<open>\<^verbatim>\<open>proto_parse_packet\<close> stores the pointer after the length and the id have been checked.\<close>

definition proto_packet_stores :: "AdsbPacket \<Rightarrow> nat \<Rightarrow> parser_state \<Rightarrow> bool" where
  "proto_packet_stores q n st \<longleftrightarrow> have_header st \<and> length (pkt_payload q) = n \<and>
     packet_validate_id (Some (c_strz (pkt_source_id q))) = Some True"

definition proto_stores_source :: "Adsb \<Rightarrow> parser_state \<Rightarrow> bool" where
  "proto_stores_source msg st \<longleftrightarrow> (case msg_header msg of
     Some h \<Rightarrow> False
   | None \<Rightarrow> (case msg_mode_ac msg of
     Some q \<Rightarrow> proto_packet_stores q 2 st
   | None \<Rightarrow> (case msg_mode_s_short msg of
     Some q \<Rightarrow> proto_packet_stores q 7 st
   | None \<Rightarrow> (case msg_mode_s_long msg of
     Some q \<Rightarrow> proto_packet_stores q 14 st
   | None \<Rightarrow> False))))"

definition proto_parse_memory :: "unpack_fn \<Rightarrow> u8 list \<Rightarrow> 'j memory_parser" where
  "proto_parse_memory unpack server_id b p src st m = do {
     m \<leftarrow> (case proto_prev m of
         None \<Rightarrow> Some m
       | Some a \<Rightarrow> do { m \<leftarrow> adsb_free_unpacked a m; Some (m\<lparr>proto_prev := None\<rparr>) });
     (n, msg) \<leftarrow> proto_unwrap unpack b;
     if n = -1 then Some (False, b, p, src, st, m)
     else (case msg of
       None \<Rightarrow> None
     | Some msg \<Rightarrow> do {
         let (a, m) = value_new (Parsed_proto msg) m;
         let src = (if proto_stores_source msg st then Src_value a else src);
         (ok, p, st) \<leftarrow> proto_parse_msg server_id msg p st;
         if \<not> ok then do { m \<leftarrow> adsb_free_unpacked a m; Some (False, b, p, src, st, m) }
         else do {
           b \<leftarrow> buf_consume b (nat n);
           Some (True, b, p, src, st, m\<lparr>proto_prev := Some a\<rparr>)
         }
       })
   }"

definition proto_cleanup :: "'j parse_memory \<Rightarrow> 'j parse_memory option" where
  "proto_cleanup m = (case proto_prev m of None \<Rightarrow> Some m | Some a \<Rightarrow> adsb_free_unpacked a m)"

text \<open>The other parsers neither allocate nor touch the pointer.\<close>

definition without_values :: "parser \<Rightarrow> 'j memory_parser" where
  "without_values f b p src st m = do {
     (ok, b, p, st) \<leftarrow> f b p st;
     Some (ok, b, p, src, st, m)
   }"

definition parsers_memory :: "'j env \<Rightarrow> 'j memory_parser list" where
  "parsers_memory E =
     [without_values airspy_adsb_parse,
      without_values beast_parse,
      json_parse_memory (env_jansson E) (env_server_id E),
      proto_parse_memory (env_unpack E) (env_server_id E),
      without_values raw_parse]"

section \<open>Receiving\<close>

text \<open>A copy of the packet holds a copy of the pointer; \<^verbatim>\<open>memcpy\<close> restores both.\<close>

fun receive_autodetect_memory ::
    "packet \<times> source_ref \<Rightarrow> nat \<Rightarrow> 'j memory_parser list \<Rightarrow> buf \<Rightarrow> packet \<Rightarrow> source_ref \<Rightarrow> parser_state \<Rightarrow> 'j parse_memory \<Rightarrow>
      (nat option \<times> buf \<times> packet \<times> source_ref \<times> parser_state \<times> 'j parse_memory) option" where
  "receive_autodetect_memory orig i [] b p src st m = Some (None, b, p, src, st, m)"
| "receive_autodetect_memory orig i (f # fs) b p src st m = do {
     (ok, b, p, src, st, m) \<leftarrow> f b p src st m;
     if ok then Some (Some i, b, p, src, st, m)
     else receive_autodetect_memory orig (i + 1) fs b (if fs \<noteq> [] then fst orig else p) (if fs \<noteq> [] then snd orig else src) st m
   }"

definition receive_parse_memory ::
    "'j env \<Rightarrow> receive \<Rightarrow> packet \<Rightarrow> source_ref \<Rightarrow> 'j parse_memory \<Rightarrow> (bool \<times> receive \<times> packet \<times> source_ref \<times> 'j parse_memory) option" where
  "receive_parse_memory E r p src m =
     (case rx_parser r of
        None \<Rightarrow> do {
          (found, b, p, src, st, m) \<leftarrow>
            receive_autodetect_memory (p, src) 0 (parsers_memory E) (rx_buf r) p src (rx_parser_state r) m;
          Some (found \<noteq> None, r\<lparr>rx_buf := b, rx_parser_state := st, rx_parser := found\<rparr>, p, src, m)
        }
      | Some i \<Rightarrow> do {
          f \<leftarrow> c_nth (parsers_memory E) i;
          (ok, b, p, src, st, m) \<leftarrow> f (rx_buf r) p src (rx_parser_state r) m;
          Some (ok, r\<lparr>rx_buf := b, rx_parser_state := st\<rparr>, p, src, m)
        })"

text \<open>The loop of \<^verbatim>\<open>receive_read\<close>. Whatever \<^verbatim>\<open>send_write\<close> does with a packet reads its source, which has to be allocated.\<close>

fun receive_drain_memory ::
    "'j env \<Rightarrow> nat \<Rightarrow> receive \<Rightarrow> 'a receive_state_scheme \<Rightarrow> 'j parse_memory \<Rightarrow>
      (receive \<times> 'a receive_state_scheme \<times> 'j parse_memory) option" where
  "receive_drain_memory E 0 r w m = (if buf_length (rx_buf r) = 0 then Some (r, w, m) else None)"
| "receive_drain_memory E (Suc n) r w m =
     (if buf_length (rx_buf r) = 0 then Some (r, w, m)
      else do {
        (ok, r, p, src, m) \<leftarrow> receive_parse_memory E r (receive_packet r) Src_receive m;
        if \<not> ok then Some (r, w, m)
        else if ptype p = PACKET_TYPE_NONE then receive_drain_memory E n r w m
        else do {
          let p = p\<lparr>hops := hops p + 1\<rparr>;
          if receive_max_hops w < hops p then receive_drain_memory E n r w m
          else do {
            c_assert (source_live src m);
            w \<leftarrow> send_write E p w;
            receive_drain_memory E n r w m
          }
        }
      })"

section \<open>Invariant\<close>

text \<open>The values that are allocated are those the two parsers keep, each of its kind.\<close>

definition memory_ok :: "'j parse_memory \<Rightarrow> bool" where
  "memory_ok m \<longleftrightarrow> (\<forall>a. json_prev m = Some a \<longrightarrow> (\<exists>j. live_values m a = Some (Parsed_json j))) \<and>
     (\<forall>a. proto_prev m = Some a \<longrightarrow> (\<exists>g. live_values m a = Some (Parsed_proto g))) \<and>
     (\<forall>a v. live_values m a = Some v \<longrightarrow> a < next_value m \<and> (json_prev m = Some a \<or> proto_prev m = Some a))"

lemma memory_okD:
  assumes "memory_ok m"
  shows "json_prev m = Some a \<Longrightarrow> \<exists>j. live_values m a = Some (Parsed_json j)"
    and "proto_prev m = Some a \<Longrightarrow> \<exists>g. live_values m a = Some (Parsed_proto g)"
    and "live_values m a = Some v \<Longrightarrow> a < next_value m" and "live_values m a = Some v \<Longrightarrow> json_prev m = Some a \<or> proto_prev m = Some a"
    and "live_values m (next_value m) = None"
  using assms unfolding memory_ok_def by (blast, blast, blast, blast, metis less_irrefl not_Some_eq)

text \<open>The last value is released.\<close>

lemma json_prev_released:
  assumes "memory_ok m"
  shows "\<exists>m'. (case json_prev m of None \<Rightarrow> Some m | Some a \<Rightarrow> do { m \<leftarrow> json_decref a m; Some (m\<lparr>json_prev := None\<rparr>) }) = Some m' \<and>
    memory_ok m' \<and> json_prev m' = None"
proof (cases "json_prev m")
  case (Some a)
  note d = memory_okD [OF assms]
  obtain j where j: "live_values m a = Some (Parsed_json j)" using d(1) Some by blast
  have "proto_prev m \<noteq> Some a" using d(2) [of a] j by auto
  moreover have left: "proto_prev m = Some b" if "live_values m b = Some u" "b \<noteq> a" for b u using d(4) [OF that(1)] that(2) Some by auto
  ultimately have "memory_ok (m\<lparr>live_values := (live_values m)(a := None), json_prev := None\<rparr>)"
    using d(2,3) left unfolding memory_ok_def by auto
  then show ?thesis using Some j by (simp add: json_decref_def)
qed (use assms in simp)

lemma proto_prev_released:
  assumes "memory_ok m"
  shows "\<exists>m'. (case proto_prev m of None \<Rightarrow> Some m | Some a \<Rightarrow> do { m \<leftarrow> adsb_free_unpacked a m; Some (m\<lparr>proto_prev := None\<rparr>) }) = Some m' \<and>
    memory_ok m' \<and> proto_prev m' = None"
proof (cases "proto_prev m")
  case (Some a)
  note d = memory_okD [OF assms]
  obtain g where g: "live_values m a = Some (Parsed_proto g)" using d(2) Some by blast
  have "json_prev m \<noteq> Some a" using d(1) [of a] g by auto
  moreover have left: "json_prev m = Some b" if "live_values m b = Some u" "b \<noteq> a" for b u using d(4) [OF that(1)] that(2) Some by auto
  ultimately have "memory_ok (m\<lparr>live_values := (live_values m)(a := None), proto_prev := None\<rparr>)"
    using d(1,3) left unfolding memory_ok_def by auto
  then show ?thesis using Some g by (simp add: adsb_free_unpacked_def)
qed (use assms in simp)

text \<open>A new value is released again, or kept.\<close>

lemma value_new_cases:
  assumes ok: "memory_ok m" and n: "value_new v m = (a, m1)"
  shows "json_prev m = None \<Longrightarrow> v = Parsed_json j \<Longrightarrow> memory_ok (m1\<lparr>json_prev := Some a\<rparr>)"
    and "v = Parsed_json j \<Longrightarrow> \<exists>m2. json_decref a m1 = Some m2 \<and> memory_ok m2"
    and "proto_prev m = None \<Longrightarrow> v = Parsed_proto g \<Longrightarrow> memory_ok (m1\<lparr>proto_prev := Some a\<rparr>)"
    and "v = Parsed_proto g \<Longrightarrow> \<exists>m2. adsb_free_unpacked a m1 = Some m2 \<and> memory_ok m2"
    and "live_values m1 a \<noteq> None"
proof -
  note d = memory_okD [OF ok]
  have e: "a = next_value m" "m1 = m\<lparr>live_values := (live_values m)(a \<mapsto> v), next_value := a + 1\<rparr>" using n by (auto simp: value_new_def)
  have new: "json_prev m \<noteq> Some a" "proto_prev m \<noteq> Some a" using d(1,2,5) by (auto simp: e(1))
  have lt: "b < a + 1" if "live_values m b = Some u" for b u using d(3) [OF that] by (simp add: e(1))
  have "(live_values m)(a := None) = live_values m" using d(5) by (auto simp: e(1))
  then have old: "memory_ok (m1\<lparr>live_values := (live_values m1)(a := None)\<rparr>)"
    using ok lt by (auto simp: memory_ok_def e(2) less_Suc_eq)
  show "memory_ok (m1\<lparr>json_prev := Some a\<rparr>)" if "json_prev m = None" "v = Parsed_json j"
    using that new d(2,4) lt by (auto simp: memory_ok_def e(2))
  show "memory_ok (m1\<lparr>proto_prev := Some a\<rparr>)" if "proto_prev m = None" "v = Parsed_proto g"
    using that new d(1,4) lt by (auto simp: memory_ok_def e(2))
  show "\<exists>m2. json_decref a m1 = Some m2 \<and> memory_ok m2" if "v = Parsed_json j"
    using that old by (simp add: json_decref_def) (simp add: e(2))
  show "\<exists>m2. adsb_free_unpacked a m1 = Some m2 \<and> memory_ok m2" if "v = Parsed_proto g"
    using that old by (simp add: adsb_free_unpacked_def) (simp add: e(2))
  show "live_values m1 a \<noteq> None" by (simp add: e(2))
qed

section \<open>The models agree\<close>

text \<open>
  A parser with memory does what the parser does without, never fails over its memory, and a packet
  it recognised points to something that is allocated.
\<close>

locale memory_parsing =
  fixes parse :: parser and parse_memory :: "'j memory_parser"
  assumes stops: "memory_ok m \<Longrightarrow> parse b p st = None \<Longrightarrow> parse_memory b p src st m = None"
    and returns: "memory_ok m \<Longrightarrow> parse b p st = Some (ok, b', p', st') \<Longrightarrow>
      \<exists>src' m'. parse_memory b p src st m = Some (ok, b', p', src', st', m') \<and> memory_ok m' \<and> (ok \<longrightarrow> src' = src \<or> source_live src' m')"
begin

lemma agrees:
  assumes "memory_ok m"
  shows "case parse b p st of
      None \<Rightarrow> parse_memory b p src st m = None
    | Some (ok, b', p', st') \<Rightarrow> \<exists>src' m'. parse_memory b p src st m = Some (ok, b', p', src', st', m') \<and> memory_ok m' \<and>
        (ok \<longrightarrow> src' = src \<or> source_live src' m')"
  using stops [OF assms] returns [OF assms] by (auto split: option.splits)

end

interpretation simple: memory_parsing f "without_values f" for f
  by unfold_locales (auto simp: without_values_def)

interpretation json: memory_parsing "json_parse J server_id" "json_parse_memory J server_id" for J :: "'j jansson" and server_id
proof
  fix m :: "'j parse_memory" and b p st src ok b' p' st'
  assume "memory_ok m"
  from json_prev_released [OF this] obtain m0 where
    m0: "(case json_prev m of None \<Rightarrow> Some m | Some a \<Rightarrow> do { m \<leftarrow> json_decref a m; Some (m\<lparr>json_prev := None\<rparr>) }) = Some m0"
      "memory_ok m0" "json_prev m0 = None" by blast
  note e = json_parse_memory_def [of J server_id b p src st m, unfolded m0(1)]
  have kept: "memory_ok (m1\<lparr>json_prev := Some a\<rparr>)" "\<exists>m2. json_decref a m1 = Some m2 \<and> memory_ok m2" "live_values m1 a \<noteq> None"
    if "value_new (Parsed_json j) m0 = (a, m1)" for j a m1
    using value_new_cases(1,2,5) [OF m0(2) that] m0(3) by simp_all
  show "json_parse_memory J server_id b p src st m = None" if none: "json_parse J server_id b p st = None"
  proof (cases "buf_get b 0 (buf_length b)")
    case (Some bytes)
    then obtain j pos where "json_loadb J bytes = Some (j, pos)" using none by (cases "json_loadb J bytes") (auto simp: json_parse_def)
    moreover obtain a m1 where "value_new (Parsed_json j) m0 = (a, m1)" by fastforce
    ultimately show ?thesis using none Some
      by (cases "json_parse_obj J server_id j p st") (auto simp: e json_parse_def Let_def bind_eq_None_conv split: if_splits)
  qed (simp add: e)
  assume run: "json_parse J server_id b p st = Some (ok, b', p', st')"
  obtain bytes where bytes: "buf_get b 0 (buf_length b) = Some bytes" using run by (auto simp: json_parse_def bind_Some_iff)
  consider (empty) "json_loadb J bytes = None" "\<not> ok" "b' = b" "p' = p" "st' = st"
    | (refused) j pos where "json_loadb J bytes = Some (j, pos)" "json_parse_obj J server_id j p st = Some (False, p', st')" "\<not> ok" "b' = b"
    | (parsed) j pos c where "json_loadb J bytes = Some (j, pos)" "json_parse_obj J server_id j p st = Some (True, p', st')" "ok"
        "0 < pos" "buf_consume b pos = Some c" "json_skip_eol (buf_length c) c = Some b'"
  proof (cases "json_loadb J bytes")
    case None
    then show ?thesis using run bytes that(1) by (simp add: json_parse_def)
  next
    case (Some l)
    obtain j pos where "l = (j, pos)" by (cases l)
    then have l: "json_loadb J bytes = Some (j, pos)" using Some by simp
    then obtain o1 p1 st1 where o: "json_parse_obj J server_id j p st = Some (o1, p1, st1)"
      using run bytes by (auto simp: json_parse_def bind_Some_iff)
    show ?thesis
    proof (cases o1)
      case True
      obtain c where "0 < pos" "buf_consume b pos = Some c" "json_skip_eol (buf_length c) c = Some b'" "ok" "p' = p1" "st' = st1"
        using run by (auto simp: json_parse_def bytes l o True bind_Some_iff)
      then show ?thesis using that(3) l o True by simp
    next
      case False
      then show ?thesis using run that(2) by (simp add: json_parse_def bytes l o)
    qed
  qed
  then show "\<exists>src' m'. json_parse_memory J server_id b p src st m = Some (ok, b', p', src', st', m') \<and> memory_ok m' \<and>
      (ok \<longrightarrow> src' = src \<or> source_live src' m')"
  proof cases
    case empty
    then show ?thesis using m0(2) by (simp add: e bytes)
  next
    case refused
    obtain a m1 where n: "value_new (Parsed_json j) m0 = (a, m1)" by fastforce
    obtain m2 where "json_decref a m1 = Some m2" "memory_ok m2" using kept(2) [OF n] by blast
    then show ?thesis using refused by (simp add: e bytes n Let_def)
  next
    case parsed
    obtain a m1 where n: "value_new (Parsed_json j) m0 = (a, m1)" by fastforce
    show ?thesis using parsed kept(1,3) [OF n] by (simp add: e bytes n Let_def c_assert_def source_live_def)
  qed
qed

interpretation proto: memory_parsing "proto_parse unpack server_id" "proto_parse_memory unpack server_id :: 'j memory_parser"
  for unpack server_id
proof
  fix m :: "'j parse_memory" and b p st src ok b' p' st'
  assume "memory_ok m"
  from proto_prev_released [OF this] obtain m0 where
    m0: "(case proto_prev m of None \<Rightarrow> Some m | Some a \<Rightarrow> do { m \<leftarrow> adsb_free_unpacked a m; Some (m\<lparr>proto_prev := None\<rparr>) }) = Some m0"
      "memory_ok m0" "proto_prev m0 = None" by blast
  note e = proto_parse_memory_def [of unpack server_id b p src st m, unfolded m0(1)]
  have kept: "memory_ok (m1\<lparr>proto_prev := Some a\<rparr>)" "\<exists>m2. adsb_free_unpacked a m1 = Some m2 \<and> memory_ok m2" "live_values m1 a \<noteq> None"
    if "value_new (Parsed_proto g) m0 = (a, m1)" for g a m1
    using value_new_cases(3-5) [OF m0(2) that] m0(3) by simp_all
  have minus: "proto_parse unpack server_id b p st = Some (False, b, p, st)" "proto_parse_memory unpack server_id b p src st m = Some (False, b, p, src, st, m0)"
    if "proto_unwrap unpack b = Some (-1, q)" for q using that by (simp_all add: e proto_parse_def)
  show "proto_parse_memory unpack server_id b p src st m = None" if none: "proto_parse unpack server_id b p st = None"
  proof (cases "proto_unwrap unpack b")
    case (Some u)
    then obtain n g where u: "proto_unwrap unpack b = Some (n, g)" by (cases u) simp
    then have n: "n \<noteq> -1" using minus(1) none by auto
    show ?thesis
    proof (cases g)
      case (Some msg)
      obtain a m1 where "value_new (Parsed_proto msg) m0 = (a, m1)" by fastforce
      then show ?thesis using none u n Some
        by (cases "proto_parse_msg server_id msg p st") (auto simp: e proto_parse_def Let_def bind_eq_None_conv split: if_splits)
    qed (use u n in \<open>simp add: e\<close>)
  qed (simp add: e)
  assume run: "proto_parse unpack server_id b p st = Some (ok, b', p', st')"
  obtain n u where u: "proto_unwrap unpack b = Some (n, u)" using run by (auto simp: proto_parse_def bind_Some_iff)
  consider (empty) "n = -1" "\<not> ok" "b' = b" "p' = p" "st' = st"
    | (refused) g where "u = Some g" "n \<noteq> -1" "proto_parse_msg server_id g p st = Some (False, p', st')" "\<not> ok" "b' = b"
    | (parsed) g where "u = Some g" "n \<noteq> -1" "proto_parse_msg server_id g p st = Some (True, p', st')" "ok" "buf_consume b (nat n) = Some b'"
  proof (cases "n = -1")
    case True
    then show ?thesis using run minus(1) u that(1) by simp
  next
    case n: False
    then obtain g where g: "u = Some g" using run u by (cases u) (simp_all add: proto_parse_def)
    then obtain o1 p1 st1 where o: "proto_parse_msg server_id g p st = Some (o1, p1, st1)"
      using run u n by (auto simp: proto_parse_def bind_Some_iff)
    show ?thesis
    proof (cases o1)
      case True
      obtain c where "buf_consume b (nat n) = Some b'" "ok" "p' = p1" "st' = st1"
        using run n by (auto simp: proto_parse_def u g o True bind_Some_iff)
      then show ?thesis using that(3) g o True n by simp
    next
      case False
      then show ?thesis using run that(2) g n by (simp add: proto_parse_def u o)
    qed
  qed
  then show "\<exists>src' m'. proto_parse_memory unpack server_id b p src st m = Some (ok, b', p', src', st', m') \<and> memory_ok m' \<and>
      (ok \<longrightarrow> src' = src \<or> source_live src' m')"
  proof cases
    case empty
    then show ?thesis using m0(2) minus(2) u by simp
  next
    case refused
    obtain a m1 where n: "value_new (Parsed_proto g) m0 = (a, m1)" by fastforce
    obtain m2 where "adsb_free_unpacked a m1 = Some m2" "memory_ok m2" using kept(2) [OF n] by blast
    then show ?thesis using refused by (simp add: e u n Let_def)
  next
    case parsed
    obtain a m1 where n: "value_new (Parsed_proto g) m0 = (a, m1)" by fastforce
    show ?thesis using parsed kept(1,3) [OF n] by (simp add: e u n Let_def source_live_def)
  qed
qed

definition memory_agrees :: "parser \<Rightarrow> 'j memory_parser \<Rightarrow> bool" where
  "memory_agrees f g \<longleftrightarrow> (\<forall>m b p src st. memory_ok m \<longrightarrow> (case f b p st of
     None \<Rightarrow> g b p src st m = None
   | Some (ok, b', p', st') \<Rightarrow> \<exists>src' m'. g b p src st m = Some (ok, b', p', src', st', m') \<and> memory_ok m' \<and>
       (ok \<longrightarrow> src' = src \<or> source_live src' m')))"

lemma parsers_agree: "list_all2 memory_agrees (parsers E) (parsers_memory E)"
  unfolding parsers_def parsers_memory_def memory_agrees_def
  using simple.agrees json.agrees proto.agrees by (simp add: list_all2_Cons1) blast

lemma receive_autodetect_agrees:
  assumes "list_all2 memory_agrees fs gs" and "memory_ok m"
  shows "case receive_autodetect_loop orig i fs b p st of
      None \<Rightarrow> receive_autodetect_memory (orig, src) i gs b p src st m = None
    | Some (found, b', p', st') \<Rightarrow> \<exists>src' m'. receive_autodetect_memory (orig, src) i gs b p src st m = Some (found, b', p', src', st', m') \<and>
        memory_ok m' \<and> (found \<noteq> None \<longrightarrow> src' = src \<or> source_live src' m')"
  using assms
proof (induction fs gs arbitrary: i b p st m rule: list_all2_induct)
  case Nil
  then show ?case by simp
next
  case (Cons f fs g gs)
  have ag: "case f b p st of
      None \<Rightarrow> g b p src st m = None
    | Some (ok, b', p', st') \<Rightarrow> \<exists>src' m'. g b p src st m = Some (ok, b', p', src', st', m') \<and> memory_ok m' \<and>
        (ok \<longrightarrow> src' = src \<or> source_live src' m')"
    using Cons.hyps(1) Cons.prems unfolding memory_agrees_def by blast
  show ?case
  proof (cases "f b p st")
    case None
    then show ?thesis using ag by simp
  next
    case (Some r)
    obtain ok b' p' st' where "r = (ok, b', p', st')" by (cases r)
    then have f: "f b p st = Some (ok, b', p', st')" using Some by simp
    obtain src' m' where g: "g b p src st m = Some (ok, b', p', src', st', m')" "memory_ok m'" "ok \<longrightarrow> src' = src \<or> source_live src' m'"
      using ag f by auto
    have nil: "gs = [] \<longleftrightarrow> fs = []" using Cons.hyps(2) by auto
    show ?thesis
    proof (cases "ok \<or> fs = []")
      case True
      then show ?thesis using g nil by (auto simp: f)
    next
      case False
      then have k: "\<not> ok" "fs \<noteq> []" "gs \<noteq> []" using nil by auto
      then have "receive_autodetect_memory (orig, src) i (g # gs) b p src st m =
          receive_autodetect_memory (orig, src) (i + 1) gs b' orig src st' m'" using g(1) by simp
      moreover have "receive_autodetect_loop orig i (f # fs) b p st = receive_autodetect_loop orig (i + 1) fs b' orig st'"
        using k f by simp
      ultimately show ?thesis using Cons.IH [OF g(2), where i = "i + 1" and b = b' and p = orig and st = st'] by (simp only:)
    qed
  qed
qed

lemma receive_parse_agrees:
  assumes "memory_ok m"
  shows "case receive_parse E r p of
      None \<Rightarrow> receive_parse_memory E r p src m = None
    | Some (ok, r', p') \<Rightarrow> \<exists>src' m'. receive_parse_memory E r p src m = Some (ok, r', p', src', m') \<and> memory_ok m' \<and>
        (ok \<longrightarrow> src' = src \<or> source_live src' m')"
proof (cases "rx_parser r")
  case None
  from receive_autodetect_agrees [OF parsers_agree [of E] assms, where orig = p and i = 0 and b = "rx_buf r" and p = p and
      st = "rx_parser_state r" and src = src] show ?thesis
    by (auto simp: receive_parse_def receive_parse_memory_def None split: option.splits)
next
  case (Some i)
  have len: "length (parsers_memory E) = length (parsers E)" by (simp add: parsers_def parsers_memory_def)
  show ?thesis
  proof (cases "i < length (parsers E)")
    case True
    then have "memory_agrees (parsers E ! i) (parsers_memory E ! i)" using parsers_agree [of E] by (simp add: list_all2_conv_all_nth)
    then have "case (parsers E ! i) (rx_buf r) p (rx_parser_state r) of
        None \<Rightarrow> (parsers_memory E ! i) (rx_buf r) p src (rx_parser_state r) m = None
      | Some (ok, b', p', st') \<Rightarrow> \<exists>src' m'. (parsers_memory E ! i) (rx_buf r) p src (rx_parser_state r) m = Some (ok, b', p', src', st', m') \<and>
          memory_ok m' \<and> (ok \<longrightarrow> src' = src \<or> source_live src' m')"
      using assms unfolding memory_agrees_def by blast
    then show ?thesis using True len
      by (auto simp: receive_parse_def receive_parse_memory_def Some c_nth_def split: option.splits)
  next
    case False
    then show ?thesis using len by (simp add: receive_parse_def receive_parse_memory_def Some c_nth_def)
  qed
qed

lemma receive_drain_agrees:
  assumes "memory_ok m"
  shows "case receive_drain E n r w of
      None \<Rightarrow> receive_drain_memory E n r w m = None
    | Some (r', w') \<Rightarrow> \<exists>m'. receive_drain_memory E n r w m = Some (r', w', m') \<and> memory_ok m'"
  using assms
proof (induction n arbitrary: r w m)
  case 0
  then show ?case by simp
next
  case (Suc n)
  have ag: "case receive_parse E r (receive_packet r) of
      None \<Rightarrow> receive_parse_memory E r (receive_packet r) Src_receive m = None
    | Some (ok, r', p') \<Rightarrow> \<exists>src' m'. receive_parse_memory E r (receive_packet r) Src_receive m = Some (ok, r', p', src', m') \<and>
        memory_ok m' \<and> (ok \<longrightarrow> src' = Src_receive \<or> source_live src' m')"
    by (rule receive_parse_agrees [OF Suc.prems])
  show ?case
  proof (cases "receive_parse E r (receive_packet r)")
    case None
    then show ?thesis using ag Suc.prems by simp
  next
    case (Some x)
    obtain ok r' p' where "x = (ok, r', p')" by (cases x)
    then have f: "receive_parse E r (receive_packet r) = Some (ok, r', p')" using Some by simp
    obtain src m' where g: "receive_parse_memory E r (receive_packet r) Src_receive m = Some (ok, r', p', src, m')" "memory_ok m'"
      "ok \<longrightarrow> src = Src_receive \<or> source_live src m'" using ag f by auto
    have live: "ok \<Longrightarrow> source_live src m'" using g(3) by (auto simp: source_live_def)
    note IH = Suc.IH [OF g(2)]
    define q where "q = p'\<lparr>hops := hops p' + 1\<rparr>"
    consider (empty) "buf_length (rx_buf r) = 0" | (refused) "buf_length (rx_buf r) \<noteq> 0" "\<not> ok"
      | (dropped) "buf_length (rx_buf r) \<noteq> 0" "ok" "ptype p' = PACKET_TYPE_NONE \<or> receive_max_hops w < hops q"
      | (written) "buf_length (rx_buf r) \<noteq> 0" "ok" "ptype p' \<noteq> PACKET_TYPE_NONE" "\<not> receive_max_hops w < hops q" by blast
    then show ?thesis
    proof cases
      case empty
      then show ?thesis using Suc.prems by simp
    next
      case refused
      then show ?thesis using g by (simp add: f)
    next
      case dropped
      then have "receive_drain E (Suc n) r w = receive_drain E n r' w" by (auto simp: f q_def)
      moreover have "receive_drain_memory E (Suc n) r w m = receive_drain_memory E n r' w m'" using dropped g(1) by (auto simp: q_def)
      ultimately show ?thesis using IH [of r' w] by (simp only:)
    next
      case written
      have "receive_drain E (Suc n) r w = send_write E q w \<bind> receive_drain E n r'"
        using written by (simp add: f Let_def flip: q_def)
      moreover have "receive_drain_memory E (Suc n) r w m = send_write E q w \<bind> (\<lambda>w. receive_drain_memory E n r' w m')"
        using written g(1) live by (simp add: Let_def c_assert_def flip: q_def)
      ultimately show ?thesis using IH by (cases "send_write E q w") (simp_all only: bind.simps option.case)
    qed
  qed
qed

text \<open>At the end both values that are left are released.\<close>

lemma values_released:
  assumes "memory_ok m"
  shows "\<exists>m'. do { m \<leftarrow> json_cleanup m; proto_cleanup m } = Some m' \<and> live_values m' = Map.empty"
proof -
  note d = memory_okD [OF assms]
  show ?thesis
  proof (cases "json_prev m")
    case None
    show ?thesis
    proof (cases "proto_prev m")
      case None
      have "live_values m a = None" for a using d(4) [of a] \<open>json_prev m = None\<close> None by (cases "live_values m a") auto
      then show ?thesis using \<open>json_prev m = None\<close> None by (auto simp: json_cleanup_def proto_cleanup_def)
    next
      case (Some b)
      obtain g where g: "live_values m b = Some (Parsed_proto g)" using d(2) Some by blast
      have "live_values m a = None" if "a \<noteq> b" for a using d(4) [of a] None Some that by (cases "live_values m a") auto
      then show ?thesis using None Some g by (auto simp: json_cleanup_def proto_cleanup_def adsb_free_unpacked_def)
    qed
  next
    case (Some a)
    obtain j where j: "live_values m a = Some (Parsed_json j)" using d(1) Some by blast
    show ?thesis
    proof (cases "proto_prev m")
      case None
      have "live_values m b = None" if "b \<noteq> a" for b using d(4) [of b] None Some that by (cases "live_values m b") auto
      then show ?thesis using None Some j by (auto simp: json_cleanup_def proto_cleanup_def json_decref_def)
    next
      case (Some b)
      obtain g where g: "live_values m b = Some (Parsed_proto g)" using d(2) Some by blast
      have "a \<noteq> b" using j g by auto
      moreover have "live_values m c = None" if "c \<noteq> a" "c \<noteq> b" for c
        using d(4) [of c] \<open>json_prev m = Some a\<close> Some that by (cases "live_values m c") auto
      ultimately show ?thesis using \<open>json_prev m = Some a\<close> Some j g
        by (auto simp: json_cleanup_def proto_cleanup_def json_decref_def adsb_free_unpacked_def)
    qed
  qed
qed

section \<open>Properties\<close>

text \<open>
  C16. Packets never point to released memory. Draining a buffer with the values of the two libraries as allocated memory gives
  the same result as without: no value is released twice, the id of the source of every packet handed to the outputs is
  still allocated, whichever parser stored it and however many packets and formats there were before; the memory
  holds at most the last value of either library, and the cleanup of the two components leaves nothing.
\<close>

theorem parsed_values_live:
  fixes w :: "'a receive_state_scheme" and m :: "'j parse_memory"
  assumes "memory_ok m"
  shows "case receive_drain E n r w of
      None \<Rightarrow> receive_drain_memory E n r w m = None
    | Some (r', w') \<Rightarrow> \<exists>m' m''. receive_drain_memory E n r w m = Some (r', w', m') \<and> memory_ok m' \<and>
        do { m \<leftarrow> json_cleanup m'; proto_cleanup m } = Some m'' \<and> live_values m'' = Map.empty"
  using receive_drain_agrees [OF assms, of E n r w] values_released by (fastforce split: option.splits)

text \<open>In the sample a protobuf message is what was parsed last.\<close>

definition sample_memory :: "unit parse_memory" where
  "sample_memory = \<lparr>live_values = [4 \<mapsto> Parsed_proto sample_msg], next_value = 5, json_prev = None, proto_prev = Some 4\<rparr>"

lemma sample_memory_ok: "memory_ok sample_memory"
  by (simp add: memory_ok_def sample_memory_def)

theorem parsed_values_live_witness:
  "\<exists>r' w' m'. receive_drain_memory sample_env (buf_length (rx_buf sample_receive)) sample_receive sample_world sample_memory =
    Some (r', w', m') \<and> memory_ok m'"
proof -
  obtain r' w' where "receive_drain sample_env (buf_length (rx_buf sample_receive)) sample_receive sample_world = Some (r', w')"
    using receive_drain_spec [OF sample_env_ok sample_rx_ok receive_ok_out [OF sample_world_ok] le_refl] by blast
  then show ?thesis
    using parsed_values_live [OF sample_memory_ok, of sample_env "buf_length (rx_buf sample_receive)" sample_receive sample_world] by auto
qed

end
