(* ===== verification/Cleanup.thy ===== *)
theory Cleanup
  imports Connections Stdinout Lifetimes
begin

text \<open>
  The end of \<^verbatim>\<open>main\<close> in \<^verbatim>\<open>adsbus/adsbus.c\<close>: after the event loop the components release what they hold, in a fixed
  order. The loop has set the flag of the shutdown by then, so that nobody is told of a connection that is closed.
  The values of the two libraries that are still allocated are released with them; lists of addresses and requests to the
  resolver may be left behind. \<^verbatim>\<open>rand_cleanup\<close> and \<^verbatim>\<open>peer_cleanup\<close> only
  close the random device and the epoll descriptor, which the table of descriptors does not hold, and are left out.
\<close>

section \<open>The end of the program\<close>

definition adsbus_cleanup ::
    "'j env \<Rightarrow> 'k log_kernel_scheme \<Rightarrow> 'a log_state_scheme \<Rightarrow> 'j parse_memory \<Rightarrow> ('a log_state_scheme \<times> 'j parse_memory) option" where
  "adsbus_cleanup E K w m = (let call = close_call (program_event E K) in do {
     w \<leftarrow> resolve_cleanup w;
     w \<leftarrow> receive_cleanup call w;
     w \<leftarrow> send_cleanup call w;
     w \<leftarrow> send_receive_cleanup call w;
     w \<leftarrow> incoming_cleanup E K w;
     w \<leftarrow> outgoing_cleanup E K w;
     w \<leftarrow> exec_cleanup E K w;
     w \<leftarrow> file_cleanup E K w;
     m \<leftarrow> json_cleanup m;
     m \<leftarrow> proto_cleanup m;
     w \<leftarrow> wakeup_cleanup w;
     w \<leftarrow> log_cleanup_peer w;
     w \<leftarrow> log_cleanup K w;
     w \<leftarrow> stdinout_cleanup w;
     Some (w, m)
   })"

section \<open>Peers that are still to be closed\<close>

text \<open>
  The peers in \<open>L\<close> can be closed in this order: they are apart, each that has a descriptor is registered for it, and
  but for the signal of the shutdown nothing else is registered.
\<close>

definition closable :: "(peer_ref \<times> peer) list \<Rightarrow> 'a peer_state_scheme \<Rightarrow> bool" where
  "closable L w \<longleftrightarrow> peer_state_ok w \<and> distinct (map fst L) \<and> Peer_shutdown \<notin> fst ` set L \<and>
     (\<forall>(ptr, p) \<in> set L. peer_fd p \<noteq> -1 \<longrightarrow> peer_registered ptr p w) \<and>
     (\<forall>(ptr, p) \<in> set L. \<forall>(ptr', p') \<in> set L. peer_fd p = peer_fd p' \<longrightarrow> peer_fd p \<noteq> -1 \<longrightarrow> ptr = ptr') \<and>
     (\<forall>g ptr. epoll_set w g = Some ptr \<longrightarrow> ptr \<noteq> Peer_shutdown \<longrightarrow> (\<exists>p. (ptr, p) \<in> set L \<and> peer_fd p = g \<and> g \<noteq> -1)) \<and>
     (\<forall>ptr \<in> set (peer_always_trigger_head w). \<exists>p. (ptr, p) \<in> set L \<and> peer_fd p \<noteq> -1)"

lemma closable_cong:
  assumes "fds w' = fds w" and "epoll_set w' = epoll_set w" and "peer_always_trigger_head w' = peer_always_trigger_head w"
  shows "closable L w' = closable L w"
  using assms by (simp add: closable_def peer_state_ok_def peer_registered_def)

lemma closableD:
  assumes "closable L w"
  shows "peer_state_ok w" and "distinct (map fst L)"
    and "(ptr, p) \<in> set L \<Longrightarrow> peer_fd p \<noteq> -1 \<Longrightarrow> peer_registered ptr p w"
    and "(ptr, p) \<in> set L \<Longrightarrow> (ptr', p') \<in> set L \<Longrightarrow> peer_fd p = peer_fd p' \<Longrightarrow> peer_fd p \<noteq> -1 \<Longrightarrow> ptr = ptr'"
    and "epoll_set w g = Some ptr \<Longrightarrow> ptr \<noteq> Peer_shutdown \<Longrightarrow> \<exists>p. (ptr, p) \<in> set L \<and> peer_fd p = g \<and> g \<noteq> -1"
    and "ptr \<in> set (peer_always_trigger_head w) \<Longrightarrow> \<exists>p. (ptr, p) \<in> set L \<and> peer_fd p \<noteq> -1"
    and "(Peer_shutdown, p) \<notin> set L"
  using assms unfolding closable_def by (simp, simp, fast, fast, fast, fast, force)

lemma closableI:
  assumes "peer_state_ok w" and "distinct (map fst L)"
    and "\<And>ptr p. (ptr, p) \<in> set L \<Longrightarrow> peer_fd p \<noteq> -1 \<Longrightarrow> peer_registered ptr p w"
    and "\<And>ptr p ptr' p'. (ptr, p) \<in> set L \<Longrightarrow> (ptr', p') \<in> set L \<Longrightarrow> peer_fd p = peer_fd p' \<Longrightarrow> peer_fd p \<noteq> -1 \<Longrightarrow> ptr = ptr'"
    and "\<And>g ptr. epoll_set w g = Some ptr \<Longrightarrow> ptr \<noteq> Peer_shutdown \<Longrightarrow> \<exists>p. (ptr, p) \<in> set L \<and> peer_fd p = g \<and> g \<noteq> -1"
    and "\<And>ptr. ptr \<in> set (peer_always_trigger_head w) \<Longrightarrow> \<exists>p. (ptr, p) \<in> set L \<and> peer_fd p \<noteq> -1"
    and "\<And>p. (Peer_shutdown, p) \<notin> set L"
  shows "closable L w"
proof -
  have "Peer_shutdown \<notin> fst ` set L" using assms(7) by auto
  then show ?thesis using assms(1-6) unfolding closable_def by fast
qed

lemma closable_apart: "closable ((ptr, p) # L) w \<Longrightarrow> (ptr, q) \<notin> set L"
  by (drule closableD(2)) (auto simp: image_iff)

text \<open>What \<^verbatim>\<open>peer_close\<close> writes.\<close>

lemma peer_close_writes:
  assumes "peer_close ptr p w = Some (p', w')"
  shows "\<exists>ft et al. w' = w\<lparr>fds := ft, epoll_set := et, peer_always_trigger_head := al\<rparr>"
proof (cases "peer_fd p = -1")
  case True
  then have "w' = w\<lparr>fds := fds w, epoll_set := epoll_set w, peer_always_trigger_head := peer_always_trigger_head w\<rparr>"
    using assms by (simp add: peer_close_def)
  then show ?thesis by blast
next
  case False
  then obtain v where v: "peer_epoll_del ptr p w = Some v" "close_fd (peer_fd p) v = Some w'"
    using assms by (auto simp: peer_close_def bind_Some_iff)
  have "\<exists>et al. v = w\<lparr>epoll_set := et, peer_always_trigger_head := al\<rparr>"
  proof -
    obtain res u where c: "epoll_ctl_del (peer_fd p) w = (res, u)" by fastforce
    then have u: "\<exists>et. u = w\<lparr>epoll_set := et\<rparr>"
      by (auto simp: epoll_ctl_del_def split: option.splits if_splits intro: exI [of _ "epoll_set w"])
    then obtain et where et: "u = w\<lparr>epoll_set := et\<rparr>" by blast
    have "v = u\<lparr>peer_always_trigger_head := filter (\<lambda>q. q \<noteq> ptr) (peer_always_trigger_head u)\<rparr> \<or> v = u"
      using v(1) by (auto simp: peer_epoll_del_def c bind_Some_iff split: if_splits)
    then show ?thesis
    proof
      assume "v = u"
      then have "v = w\<lparr>epoll_set := et, peer_always_trigger_head := peer_always_trigger_head w\<rparr>" by (simp add: et)
      then show ?thesis by blast
    qed (use et in auto)
  qed
  then obtain et al where "v = w\<lparr>epoll_set := et, peer_always_trigger_head := al\<rparr>" by blast
  moreover have "w' = v\<lparr>fds := (fds v)(peer_fd p := None), epoll_set := (epoll_set v)(peer_fd p := None)\<rparr>"
    using v(2) by (auto simp: close_fd_def split: option.splits)
  ultimately have "w' = w\<lparr>fds := (fds w)(peer_fd p := None), epoll_set := et(peer_fd p := None), peer_always_trigger_head := al\<rparr>"
    by simp
  then show ?thesis by blast
qed

text \<open>The peers in \<open>L\<close> have been closed, and no descriptor is opened or changed.\<close>

definition shut :: "(peer_ref \<times> peer) list \<Rightarrow> 'a peer_state_scheme \<Rightarrow> 'a peer_state_scheme \<Rightarrow> bool" where
  "shut L w w' \<longleftrightarrow> fds w' \<subseteq>\<^sub>m fds w \<and> (\<forall>(ptr, p) \<in> set L. peer_fd p \<noteq> -1 \<longrightarrow> fds w' (peer_fd p) = None)"

lemma shut_Nil [simp]: "shut [] w w"
  by (simp add: shut_def)

lemma shut_trans:
  assumes "shut L u v" and "shut M v w"
  shows "shut (L @ M) u w"
proof -
  have uv: "fds v \<subseteq>\<^sub>m fds u" and vw: "fds w \<subseteq>\<^sub>m fds v" using assms by (simp_all add: shut_def)
  have "fds w g = None" if "fds v g = None" for g
  proof (rule ccontr)
    assume "fds w g \<noteq> None"
    then have "g \<in> dom (fds w)" by blast
    then have "fds w g = fds v g" using vw by (simp add: map_le_def)
    then show False using that \<open>fds w g \<noteq> None\<close> by simp
  qed
  then show ?thesis using assms map_le_trans [OF vw uv] by (auto simp: shut_def)
qed

lemma shut_cong: "fds u' = fds u \<Longrightarrow> fds v' = fds v \<Longrightarrow> shut L u' v' = shut L u v"
  by (simp add: shut_def)

lemma closable_close:
  assumes c: "closable ((ptr, p) # L) w"
  shows "\<exists>p' ft et al. peer_close ptr p w = Some (p', w\<lparr>fds := ft, epoll_set := et, peer_always_trigger_head := al\<rparr>) \<and>
    closable L (w\<lparr>fds := ft, epoll_set := et, peer_always_trigger_head := al\<rparr>) \<and>
    shut [(ptr, p)] w (w\<lparr>fds := ft, epoll_set := et, peer_always_trigger_head := al\<rparr>)"
proof -
  note d = closableD [OF c]
  have rest: "closable L w'"
    if ok: "peer_state_ok w'" and reg: "\<And>q r. (q, r) \<in> set L \<Longrightarrow> peer_fd r \<noteq> -1 \<Longrightarrow> peer_registered q r w'"
      and ep: "\<And>g q. epoll_set w' g = Some q \<Longrightarrow> epoll_set w g = Some q \<and> (q = ptr \<longrightarrow> peer_fd p = -1)"
      and al: "\<And>q. q \<in> set (peer_always_trigger_head w') \<Longrightarrow> q \<in> set (peer_always_trigger_head w) \<and> (q = ptr \<longrightarrow> peer_fd p = -1)" for w'
  proof (rule closableI)
    show "peer_state_ok w'" by (rule ok)
    show "distinct (map fst L)" using d(2) by simp
    show "\<And>q r. (q, r) \<in> set L \<Longrightarrow> peer_fd r \<noteq> -1 \<Longrightarrow> peer_registered q r w'" by (rule reg)
    show "\<And>r. (Peer_shutdown, r) \<notin> set L" using d(7) by simp
    show "q = q'" if "(q, r) \<in> set L" "(q', r') \<in> set L" "peer_fd r = peer_fd r'" "peer_fd r \<noteq> -1" for q r q' r'
      using d(4) [of q r q' r'] that by simp
    show "\<exists>r. (q, r) \<in> set L \<and> peer_fd r = g \<and> g \<noteq> -1" if g: "epoll_set w' g = Some q" "q \<noteq> Peer_shutdown" for g q
    proof -
      from d(5) [OF conjunct1 [OF ep [OF g(1)]] g(2)] obtain r where r: "(q, r) \<in> set ((ptr, p) # L)" "peer_fd r = g" "g \<noteq> -1" by blast
      then show ?thesis using ep [OF g(1)] by auto
    qed
    show "\<exists>r. (q, r) \<in> set L \<and> peer_fd r \<noteq> -1" if q: "q \<in> set (peer_always_trigger_head w')" for q
    proof -
      from d(6) [OF conjunct1 [OF al [OF q]]] obtain r where r: "(q, r) \<in> set ((ptr, p) # L)" "peer_fd r \<noteq> -1" by blast
      then show ?thesis using al [OF q] by auto
    qed
  qed
  show ?thesis
  proof (cases "peer_fd p = -1")
    case True
    have "closable L w" by (rule rest) (use d(1,3) True in auto)
    moreover have "w = w\<lparr>fds := fds w, epoll_set := epoll_set w, peer_always_trigger_head := peer_always_trigger_head w\<rparr>" by simp
    moreover have "peer_close ptr p w = Some (p, w)" using True by (simp add: peer_close_def)
    moreover have "shut [(ptr, p)] w w" using True by (simp add: shut_def)
    ultimately show ?thesis by metis
  next
    case False
    have reg: "peer_registered ptr p w" using d(3) [of ptr p] False by simp
    from peer_close_spec [OF d(1) reg] obtain p' w' where
      w': "peer_close ptr p w = Some (p', w')" "peer_state_ok w'" "fds w' = (fds w)(peer_fd p := None)"
        "epoll_set w' = (epoll_set w)(peer_fd p := None)"
        "peer_always_trigger_head w' = filter (\<lambda>q. q \<noteq> ptr) (peer_always_trigger_head w)" by blast
    from peer_close_writes [OF w'(1)] obtain ft et al where
      e: "w' = w\<lparr>fds := ft, epoll_set := et, peer_always_trigger_head := al\<rparr>" by blast
    have "closable L w'"
    proof (rule rest [OF w'(2)])
      show "peer_registered q r w'" if "(q, r) \<in> set L" "peer_fd r \<noteq> -1" for q r
      proof (rule peer_registered_other [OF _ _ _ w'(3-5)])
        show "peer_registered q r w" using d(3) [of q r] that by simp
        show "q \<noteq> ptr" using closable_apart [OF c] that(1) by blast
        then show "peer_fd r \<noteq> peer_fd p" using d(4) [of q r ptr p] that by auto
      qed
      show "epoll_set w g = Some q \<and> (q = ptr \<longrightarrow> peer_fd p = -1)" if "epoll_set w' g = Some q" for g q
      proof -
        have g: "epoll_set w g = Some q" "g \<noteq> peer_fd p" using that by (auto simp: w'(4) split: if_splits)
        have "q \<noteq> ptr"
        proof
          assume q: "q = ptr"
          moreover have "ptr \<noteq> Peer_shutdown" using d(7) [of p] by auto
          ultimately show False using d(5) [OF g(1)] closable_apart [OF c] g(2) by auto
        qed
        then show ?thesis using g by simp
      qed
    qed (auto simp: w'(5))
    moreover have "shut [(ptr, p)] w w'" by (auto simp: shut_def w'(3) map_le_def)
    ultimately show ?thesis using w'(1) e by metis
  qed
qed

section \<open>Lists of structures\<close>

text \<open>The fields the cleanup of a list writes besides the list itself.\<close>

definition forget :: "'a log_state_scheme \<Rightarrow> 'a log_state_scheme" where
  "forget w = w\<lparr>peer_count_in := 0, peer_count_out := 0, peer_count_out_in := 0, fds := Map.empty, epoll_set := Map.empty,
     peer_always_trigger_head := [], tick := 0\<rparr>"

definition cleaned :: "'a log_state_scheme \<Rightarrow> 'a log_state_scheme \<Rightarrow> bool" where
  "cleaned w w' \<longleftrightarrow> forget w' = forget w"

lemma cleanedI:
  "w' = w\<lparr>peer_count_in := ci, peer_count_out := co, peer_count_out_in := cb, fds := ft, epoll_set := et,
     peer_always_trigger_head := al, tick := n\<rparr> \<Longrightarrow> cleaned w w'"
  by (simp add: cleaned_def forget_def)

lemma cleaned_refl [simp]: "cleaned w w"
  by (simp add: cleaned_def)

lemma cleaned_trans: "cleaned u v \<Longrightarrow> cleaned v w \<Longrightarrow> cleaned u w"
  by (simp add: cleaned_def)

lemma cleaned_with: "cleaned w w' \<Longrightarrow> (\<And>w. forget (g w) = g (forget w)) \<Longrightarrow> cleaned (g w) (g w')"
  by (simp add: cleaned_def)

lemma cleaned_field: "cleaned w w' \<Longrightarrow> (\<And>w. f (forget w) = f w) \<Longrightarrow> f w' = f w"
  unfolding cleaned_def by metis

text \<open>
  A loop that takes the structures in \<open>xs\<close> one by one: \<open>peers\<close> are the peers in a structure, \<open>left\<close> says which structures
  are still there, \<open>kept\<close> what the loop leaves alone.
\<close>

locale closing =
  fixes del :: "'c \<Rightarrow> 'a log_state_scheme \<Rightarrow> 'a log_state_scheme option"
    and del_all :: "'c list \<Rightarrow> 'a log_state_scheme \<Rightarrow> 'a log_state_scheme option"
    and peers :: "'c \<Rightarrow> (peer_ref \<times> peer) list"
    and left :: "'c list \<Rightarrow> 'a log_state_scheme \<Rightarrow> bool"
    and clear :: "'a log_state_scheme \<Rightarrow> 'a log_state_scheme"
  assumes del_all_Nil: "del_all [] w = Some w"
    and del_all_Cons: "del_all (x # xs) w = Option.bind (del x w) (del_all xs)"
    and del_one: "left (x # xs) w \<Longrightarrow> closable (peers x @ L) w \<Longrightarrow>
      \<exists>w'. del x w = Some w' \<and> closable L w' \<and> left xs w' \<and> cleaned (clear w) (clear w') \<and> shut (peers x) w w'"
    and left_nothing: "left [] w \<Longrightarrow> clear w = w"
begin

lemma all_closed:
  assumes "left xs w" and "closable (concat (map peers xs) @ L) w"
  shows "\<exists>w'. del_all xs w = Some w' \<and> closable L w' \<and> left [] w' \<and> cleaned (clear w) w' \<and>
    shut (concat (map peers xs)) w w'"
  using assms
proof (induction xs arbitrary: w)
  case Nil
  then show ?case by (simp add: del_all_Nil left_nothing)
next
  case (Cons x xs)
  have "closable (peers x @ concat (map peers xs) @ L) w" using Cons.prems(2) by simp
  from del_one [OF Cons.prems(1) this] obtain v where
    v: "del x w = Some v" "closable (concat (map peers xs) @ L) v" "left xs v" "cleaned (clear w) (clear v)"
      "shut (peers x) w v" by blast
  from Cons.IH [OF v(3,2)] obtain w' where
    w': "del_all xs v = Some w'" "closable L w'" "left [] w'" "cleaned (clear v) w'"
      "shut (concat (map peers xs)) v w'" by blast
  then show ?case using v(1) cleaned_trans [OF v(4) w'(4)] shut_trans [OF v(5) w'(5)] by (simp add: del_all_Cons)
qed

end

text \<open>Without a shutdown in the way, a callback is called; after it, none is.\<close>

lemma peer_call_shutdown: "peer_shutdown_flag w \<Longrightarrow> peer_call call c w = Some w"
  by (simp add: peer_call_def)

definition rx_peers :: "receive \<Rightarrow> (peer_ref \<times> peer) list" where "rx_peers r = [(Peer_receive (rx_addr r), rx_peer r)]"
definition snd_peers :: "send \<Rightarrow> (peer_ref \<times> peer) list" where "snd_peers s = [(Peer_send (snd_addr s), snd_peer s)]"
definition wk_peers :: "wakeup \<Rightarrow> (peer_ref \<times> peer) list" where "wk_peers v = [(Peer_wakeup (wk_addr v), wk_peer v)]"
definition ic_peers :: "incoming \<Rightarrow> (peer_ref \<times> peer) list" where "ic_peers ic = [(Peer_transport (ic_at ic), ic_peer ic)]"
definition ou_peers :: "outgoing \<Rightarrow> (peer_ref \<times> peer) list" where "ou_peers ou = [(Peer_transport (ou_at ou), ou_peer ou)]"
definition ex_peers :: "exec \<Rightarrow> (peer_ref \<times> peer) list" where "ex_peers ex = [(Peer_transport (ex_log_at ex), ex_log_peer ex)]"

lemma filter_neq_head: "distinct (map f (x # xs)) \<Longrightarrow> filter (\<lambda>q. f q \<noteq> f x) (x # xs) = xs"
  by simp (metis (mono_tags, lifting) filter_True imageI)

interpretation receives: closing "receive_del call" "receive_del_all call" rx_peers
  "\<lambda>rs w. peer_shutdown_flag w \<and> distinct (map rx_addr rs) \<and> receive_head w = rs" "\<lambda>w. w\<lparr>receive_head := []\<rparr>" for call
proof
  fix w :: "'a log_state_scheme" and r rs L
  show "receive_del_all call [] w = Some w" "receive_del_all call (r # rs) w = Option.bind (receive_del call r w) (receive_del_all call rs)"
    by simp_all
  assume l: "peer_shutdown_flag w \<and> distinct (map rx_addr (r # rs)) \<and> receive_head w = r # rs" and c: "closable (rx_peers r @ L) w"
  let ?w = "w\<lparr>peer_count_in := peer_count_in w - 1\<rparr>"
  have "closable ((Peer_receive (rx_addr r), rx_peer r) # L) ?w"
    using c closable_cong [of ?w w "(Peer_receive (rx_addr r), rx_peer r) # L"] by (simp add: rx_peers_def)
  from closable_close [OF this] obtain p ft et al where
    p: "peer_close (Peer_receive (rx_addr r)) (rx_peer r) ?w = Some (p, ?w\<lparr>fds := ft, epoll_set := et, peer_always_trigger_head := al\<rparr>)"
      "closable L (?w\<lparr>fds := ft, epoll_set := et, peer_always_trigger_head := al\<rparr>)"
      "shut [(Peer_receive (rx_addr r), rx_peer r)] ?w (?w\<lparr>fds := ft, epoll_set := et, peer_always_trigger_head := al\<rparr>)" by blast
  let ?v = "?w\<lparr>fds := ft, epoll_set := et, peer_always_trigger_head := al, receive_head := rs\<rparr>"
  have "receive_del call r w = Some ?v"
    using p(1) l filter_neq_head [of rx_addr r rs] by (simp add: receive_del_def peer_call_shutdown)
  moreover have "closable L ?v" using p(2) closable_cong [of ?v "?w\<lparr>fds := ft, epoll_set := et, peer_always_trigger_head := al\<rparr>" L] by simp
  moreover have "cleaned (w\<lparr>receive_head := []\<rparr>) (?v\<lparr>receive_head := []\<rparr>)"
    by (rule cleanedI [where ci = "peer_count_in w - 1" and co = "peer_count_out w" and cb = "peer_count_out_in w" and ft = ft and
        et = et and al = al and n = "tick w"]) simp
  ultimately show "\<exists>w'. receive_del call r w = Some w' \<and> closable L w' \<and>
      (peer_shutdown_flag w' \<and> distinct (map rx_addr rs) \<and> receive_head w' = rs) \<and>
      cleaned (w\<lparr>receive_head := []\<rparr>) (w'\<lparr>receive_head := []\<rparr>) \<and> shut (rx_peers r) w w'"
    using l p(3) by (intro exI [of _ ?v]) (simp add: rx_peers_def shut_def)
qed simp

interpretation sends: closing "send_del call" "send_del_all call" snd_peers
  "\<lambda>ss w. peer_shutdown_flag w \<and> distinct (map snd_addr ss) \<and> all_sends w = ss" "\<lambda>w. w\<lparr>send_heads := map (\<lambda>_. []) (send_heads w)\<rparr>"
  for call
proof
  fix w :: "'a log_state_scheme" and s ss L
  show "send_del_all call [] w = Some w" "send_del_all call (s # ss) w = Option.bind (send_del call s w) (send_del_all call ss)"
    by simp_all
  show "w\<lparr>send_heads := map (\<lambda>_. []) (send_heads w)\<rparr> = w"
    if "peer_shutdown_flag w \<and> distinct (map snd_addr []) \<and> all_sends w = []"
  proof -
    have "map (\<lambda>_. []) (send_heads w) = send_heads w" using that by (intro map_idI) (auto simp: all_sends_def)
    then show ?thesis by simp
  qed
  assume l: "peer_shutdown_flag w \<and> distinct (map snd_addr (s # ss)) \<and> all_sends w = s # ss" and c: "closable (snd_peers s @ L) w"
  let ?w = "w\<lparr>peer_count_out := peer_count_out w - 1\<rparr>"
  let ?heads = "map (filter (\<lambda>t. snd_addr t \<noteq> snd_addr s)) (send_heads w)"
  have "closable ((Peer_send (snd_addr s), snd_peer s) # L) ?w"
    using c closable_cong [of ?w w "(Peer_send (snd_addr s), snd_peer s) # L"] by (simp add: snd_peers_def)
  from closable_close [OF this] obtain p ft et al where
    p: "peer_close (Peer_send (snd_addr s)) (snd_peer s) ?w = Some (p, ?w\<lparr>fds := ft, epoll_set := et, peer_always_trigger_head := al\<rparr>)"
      "closable L (?w\<lparr>fds := ft, epoll_set := et, peer_always_trigger_head := al\<rparr>)"
      "shut [(Peer_send (snd_addr s), snd_peer s)] ?w (?w\<lparr>fds := ft, epoll_set := et, peer_always_trigger_head := al\<rparr>)" by blast
  let ?v = "?w\<lparr>fds := ft, epoll_set := et, peer_always_trigger_head := al, send_heads := ?heads\<rparr>"
  have "send_del call s w = Some ?v" using p(1) l by (simp add: send_del_def peer_call_shutdown)
  moreover have "closable L ?v" using p(2) closable_cong [of ?v "?w\<lparr>fds := ft, epoll_set := et, peer_always_trigger_head := al\<rparr>" L] by simp
  moreover have "all_sends ?v = ss"
    using l filter_neq_head [of snd_addr s ss] by (simp add: all_sends_def filter_concat [symmetric])
  moreover have "map (\<lambda>_. []) ?heads = map (\<lambda>_. []) (send_heads w)" by simp
  then have "cleaned (w\<lparr>send_heads := map (\<lambda>_. []) (send_heads w)\<rparr>) (?v\<lparr>send_heads := map (\<lambda>_. []) (send_heads ?v)\<rparr>)"
    by (intro cleanedI [where ci = "peer_count_in w" and co = "peer_count_out w - 1" and cb = "peer_count_out_in w" and ft = ft and
        et = et and al = al and n = "tick w"]) simp
  ultimately show "\<exists>w'. send_del call s w = Some w' \<and> closable L w' \<and>
      (peer_shutdown_flag w' \<and> distinct (map snd_addr ss) \<and> all_sends w' = ss) \<and>
      cleaned (w\<lparr>send_heads := map (\<lambda>_. []) (send_heads w)\<rparr>) (w'\<lparr>send_heads := map (\<lambda>_. []) (send_heads w')\<rparr>) \<and> shut (snd_peers s) w w'"
    using l p(3) by (intro exI [of _ ?v]) (simp add: snd_peers_def shut_def)
qed

interpretation send_receives: closing "send_receive_del call" "send_receive_del_all call" "\<lambda>_. []"
  "\<lambda>srs w. peer_shutdown_flag w \<and> distinct (map sr_addr srs) \<and> send_receive_head w = srs" "\<lambda>w. w\<lparr>send_receive_head := []\<rparr>" for call
proof
  fix w :: "'a log_state_scheme" and sr srs L
  show "send_receive_del_all call [] w = Some w"
    "send_receive_del_all call (sr # srs) w = Option.bind (send_receive_del call sr w) (send_receive_del_all call srs)"
    by simp_all
  assume l: "peer_shutdown_flag w \<and> distinct (map sr_addr (sr # srs)) \<and> send_receive_head w = sr # srs" and c: "closable ([] @ L) w"
  let ?v = "w\<lparr>send_receive_head := srs\<rparr>"
  have "send_receive_del call sr w = Some ?v"
    using l filter_neq_head [of sr_addr sr srs] by (simp add: send_receive_del_def peer_call_shutdown)
  then show "\<exists>w'. send_receive_del call sr w = Some w' \<and> closable L w' \<and>
      (peer_shutdown_flag w' \<and> distinct (map sr_addr srs) \<and> send_receive_head w' = srs) \<and>
      cleaned (w\<lparr>send_receive_head := []\<rparr>) (w'\<lparr>send_receive_head := []\<rparr>) \<and> shut [] w w'"
    using l c closable_cong [of ?v w L] by (intro exI [of _ ?v]) (simp add: shut_def)
qed simp

interpretation wakeups: closing wakeup_del wakeup_del_all wk_peers
  "\<lambda>vs w. distinct (map wk_addr vs) \<and> wakeup_head w = vs" "\<lambda>w. w\<lparr>wakeup_head := []\<rparr>"
proof
  fix w :: "'a log_state_scheme" and u us L
  show "wakeup_del_all [] w = Some w" "wakeup_del_all (u # us) w = Option.bind (wakeup_del u w) (wakeup_del_all us)"
    by simp_all
  assume l: "distinct (map wk_addr (u # us)) \<and> wakeup_head w = u # us" and c: "closable (wk_peers u @ L) w"
  have "closable ((Peer_wakeup (wk_addr u), wk_peer u) # L) w" using c by (simp add: wk_peers_def)
  from closable_close [OF this] obtain p ft et al where
    p: "peer_close (Peer_wakeup (wk_addr u)) (wk_peer u) w = Some (p, w\<lparr>fds := ft, epoll_set := et, peer_always_trigger_head := al\<rparr>)"
      "closable L (w\<lparr>fds := ft, epoll_set := et, peer_always_trigger_head := al\<rparr>)"
      "shut [(Peer_wakeup (wk_addr u), wk_peer u)] w (w\<lparr>fds := ft, epoll_set := et, peer_always_trigger_head := al\<rparr>)" by blast
  let ?v = "w\<lparr>fds := ft, epoll_set := et, peer_always_trigger_head := al, wakeup_head := us\<rparr>"
  have "wakeup_del u w = Some ?v" using p(1) l filter_neq_head [of wk_addr u us] by (simp add: wakeup_del_def)
  moreover have "closable L ?v" using p(2) closable_cong [of ?v "w\<lparr>fds := ft, epoll_set := et, peer_always_trigger_head := al\<rparr>" L] by simp
  moreover have "cleaned (w\<lparr>wakeup_head := []\<rparr>) (?v\<lparr>wakeup_head := []\<rparr>)"
    by (rule cleanedI [where ci = "peer_count_in w" and co = "peer_count_out w" and cb = "peer_count_out_in w" and ft = ft and
        et = et and al = al and n = "tick w"]) simp
  ultimately show "\<exists>w'. wakeup_del u w = Some w' \<and> closable L w' \<and> (distinct (map wk_addr us) \<and> wakeup_head w' = us) \<and>
      cleaned (w\<lparr>wakeup_head := []\<rparr>) (w'\<lparr>wakeup_head := []\<rparr>) \<and> shut (wk_peers u) w w'"
    using l p(3) by (intro exI [of _ ?v]) (simp add: wk_peers_def shut_def)
qed simp

text \<open>Giving a flow back only changes the counts.\<close>

lemma flow_given_back:
  fixes w :: "'a log_state_scheme"
  shows "\<exists>ci co cb. flow_ref_dec (the_flow E K flow) w = w\<lparr>peer_count_in := ci, peer_count_out := co, peer_count_out_in := cb\<rparr>"
proof (cases flow)
  case Receive_flow
  then show ?thesis
    by (intro exI [of _ "peer_count_in w - 1"] exI [of _ "peer_count_out w"] exI [of _ "peer_count_out_in w"])
      (simp add: flow_ref_dec_def the_flow_def receive_flow_def)
next
  case Send_flow
  then show ?thesis
    by (intro exI [of _ "peer_count_in w"] exI [of _ "peer_count_out w - 1"] exI [of _ "peer_count_out_in w"])
      (simp add: flow_ref_dec_def the_flow_def send_flow_def)
next
  case Send_receive_flow
  then show ?thesis
    by (intro exI [of _ "peer_count_in w"] exI [of _ "peer_count_out w"] exI [of _ "peer_count_out_in w - 1"])
      (simp add: flow_ref_dec_def the_flow_def send_receive_flow_def)
qed

interpretation incomings: closing "\<lambda>ic. incoming_del E K (ic_at ic)" "incoming_del_all E K" ic_peers
  "\<lambda>ics (w :: 'a log_state_scheme). distinct (map ic_at ics) \<and> incoming_head w = ics" "\<lambda>w. w\<lparr>incoming_head := []\<rparr>"
  for E :: "'j env" and K :: "'k net_kernel_scheme"
proof
  fix w :: "'a log_state_scheme" and ic ics L
  show "incoming_del_all E K [] w = Some w"
    "incoming_del_all E K (ic # ics) w = Option.bind (incoming_del E K (ic_at ic) w) (incoming_del_all E K ics)"
    by simp_all
  assume l: "distinct (map ic_at (ic # ics)) \<and> incoming_head w = ic # ics" and c: "closable (ic_peers ic @ L) w"
  obtain ci co cb where f: "flow_ref_dec (the_flow E K (ic_flow ic)) w =
      w\<lparr>peer_count_in := ci, peer_count_out := co, peer_count_out_in := cb\<rparr>" (is "_ = ?w")
    using flow_given_back [of E K "ic_flow ic" w] by blast
  have "closable ((Peer_transport (ic_at ic), ic_peer ic) # L) ?w"
    using c closable_cong [of ?w w "(Peer_transport (ic_at ic), ic_peer ic) # L"] by (simp add: ic_peers_def)
  from closable_close [OF this] obtain p ft et al where
    p: "peer_close (Peer_transport (ic_at ic)) (ic_peer ic) ?w = Some (p, ?w\<lparr>fds := ft, epoll_set := et, peer_always_trigger_head := al\<rparr>)"
      "closable L (?w\<lparr>fds := ft, epoll_set := et, peer_always_trigger_head := al\<rparr>)"
      "shut [(Peer_transport (ic_at ic), ic_peer ic)] ?w (?w\<lparr>fds := ft, epoll_set := et, peer_always_trigger_head := al\<rparr>)" by blast
  let ?v = "?w\<lparr>fds := ft, epoll_set := et, peer_always_trigger_head := al, incoming_head := ics\<rparr>"
  have "incoming_find (ic_at ic) w = Some ic" using l by (simp add: incoming_find_def)
  then have "incoming_del E K (ic_at ic) w = Some ?v"
    using p(1) l filter_neq_head [of ic_at ic ics] by (simp add: incoming_del_def f)
  moreover have "closable L ?v" using p(2) closable_cong [of ?v "?w\<lparr>fds := ft, epoll_set := et, peer_always_trigger_head := al\<rparr>" L] by simp
  moreover have "cleaned (w\<lparr>incoming_head := []\<rparr>) (?v\<lparr>incoming_head := []\<rparr>)"
    by (rule cleanedI [where ci = ci and co = co and cb = cb and ft = ft and et = et and al = al and n = "tick w"]) simp
  ultimately show "\<exists>w'. incoming_del E K (ic_at ic) w = Some w' \<and> closable L w' \<and>
      (distinct (map ic_at ics) \<and> incoming_head w' = ics) \<and> cleaned (w\<lparr>incoming_head := []\<rparr>) (w'\<lparr>incoming_head := []\<rparr>) \<and> shut (ic_peers ic) w w'"
    using l p(3) by (intro exI [of _ ?v]) (simp add: ic_peers_def shut_def)
qed simp

text \<open>The lists of addresses that the connections being made hold; nobody releases them.\<close>

definition addrs_held :: "outgoing list \<Rightarrow> addrinfo list list" where
  "addrs_held ous = concat (map (\<lambda>ou. case ou_addrs ou of None \<Rightarrow> [] | Some addrs \<Rightarrow> [addrs]) ous)"

lemma outgoing_forget_held: "outgoing_forget ou w = w\<lparr>addrs_lost := addrs_lost w @ addrs_held [ou]\<rparr>"
  by (simp add: outgoing_forget_def addrs_held_def split: option.split)

interpretation outgoings: closing "\<lambda>ou. outgoing_del E K (ou_at ou)" "outgoing_del_all E K" ou_peers
  "\<lambda>ous (w :: 'a log_state_scheme). distinct (map ou_at ous) \<and> outgoing_head w = ous" "\<lambda>w. w\<lparr>outgoing_head := [], addrs_lost := addrs_lost w @ addrs_held (outgoing_head w)\<rparr>"
  for E :: "'j env" and K :: "'k net_kernel_scheme"
proof
  fix w :: "'a log_state_scheme" and ou ous L
  show "outgoing_del_all E K [] w = Some w"
    "outgoing_del_all E K (ou # ous) w = Option.bind (outgoing_del E K (ou_at ou) w) (outgoing_del_all E K ous)"
    by simp_all
  assume l: "distinct (map ou_at (ou # ous)) \<and> outgoing_head w = ou # ous" and c: "closable (ou_peers ou @ L) w"
  obtain ci co cb where f: "flow_ref_dec (the_flow E K (ou_flow ou)) w =
      w\<lparr>peer_count_in := ci, peer_count_out := co, peer_count_out_in := cb\<rparr>" (is "_ = ?w")
    using flow_given_back [of E K "ou_flow ou" w] by blast
  have "closable ((Peer_transport (ou_at ou), ou_peer ou) # L) ?w"
    using c closable_cong [of ?w w "(Peer_transport (ou_at ou), ou_peer ou) # L"] by (simp add: ou_peers_def)
  from closable_close [OF this] obtain p ft et al where
    p: "peer_close (Peer_transport (ou_at ou)) (ou_peer ou) ?w = Some (p, ?w\<lparr>fds := ft, epoll_set := et, peer_always_trigger_head := al\<rparr>)"
      "closable L (?w\<lparr>fds := ft, epoll_set := et, peer_always_trigger_head := al\<rparr>)"
      "shut [(Peer_transport (ou_at ou), ou_peer ou)] ?w (?w\<lparr>fds := ft, epoll_set := et, peer_always_trigger_head := al\<rparr>)" by blast
  let ?v = "?w\<lparr>fds := ft, epoll_set := et, peer_always_trigger_head := al, outgoing_head := ous,
    addrs_lost := addrs_lost w @ addrs_held [ou]\<rparr>"
  have "outgoing_find (ou_at ou) w = Some ou" using l by (simp add: outgoing_find_def)
  then have "outgoing_del E K (ou_at ou) w = Some ?v"
    using p(1) l filter_neq_head [of ou_at ou ous] by (simp add: outgoing_del_def f outgoing_forget_held)
  moreover have "closable L ?v" using p(2) closable_cong [of ?v "?w\<lparr>fds := ft, epoll_set := et, peer_always_trigger_head := al\<rparr>" L] by simp
  moreover have "addrs_held (outgoing_head w) = addrs_held [ou] @ addrs_held ous" using l by (simp add: addrs_held_def)
  then have "cleaned (w\<lparr>outgoing_head := [], addrs_lost := addrs_lost w @ addrs_held (outgoing_head w)\<rparr>)
      (?v\<lparr>outgoing_head := [], addrs_lost := addrs_lost ?v @ addrs_held (outgoing_head ?v)\<rparr>)"
    by (intro cleanedI [where ci = ci and co = co and cb = cb and ft = ft and et = et and al = al and n = "tick w"]) simp
  ultimately show "\<exists>w'. outgoing_del E K (ou_at ou) w = Some w' \<and> closable L w' \<and>
      (distinct (map ou_at ous) \<and> outgoing_head w' = ous) \<and> 
      cleaned (w\<lparr>outgoing_head := [], addrs_lost := addrs_lost w @ addrs_held (outgoing_head w)\<rparr>)
        (w'\<lparr>outgoing_head := [], addrs_lost := addrs_lost w' @ addrs_held (outgoing_head w')\<rparr>) \<and> shut (ou_peers ou) w w'"
    using l p(3) by (intro exI [of _ ?v]) (simp add: ou_peers_def shut_def)
qed (simp add: addrs_held_def)

interpretation files: closing "\<lambda>fl. file_del E K (fl_addr fl)" "file_del_all E K" "\<lambda>_. []"
  "\<lambda>fls (w :: 'a log_state_scheme). distinct (map fl_addr fls) \<and> file_head w = fls" "\<lambda>w. w\<lparr>file_head := []\<rparr>"
  for E :: "'j env" and K :: "'k file_kernel_scheme"
proof
  fix w :: "'a log_state_scheme" and fl fls L
  show "file_del_all E K [] w = Some w"
    "file_del_all E K (fl # fls) w = Option.bind (file_del E K (fl_addr fl) w) (file_del_all E K fls)"
    by simp_all
  assume l: "distinct (map fl_addr (fl # fls)) \<and> file_head w = fl # fls" and c: "closable ([] @ L) w"
  obtain ci co cb where f: "flow_ref_dec (the_flow E K (fl_flow fl)) w =
      w\<lparr>peer_count_in := ci, peer_count_out := co, peer_count_out_in := cb\<rparr>"
    using flow_given_back [of E K "fl_flow fl" w] by blast
  let ?v = "w\<lparr>peer_count_in := ci, peer_count_out := co, peer_count_out_in := cb, file_head := fls\<rparr>"
  have "file_find (fl_addr fl) w = Some fl" using l by (simp add: file_find_def)
  then have "file_del E K (fl_addr fl) w = Some ?v" using l filter_neq_head [of fl_addr fl fls] by (simp add: file_del_def f)
  moreover have "closable L ?v" using c closable_cong [of ?v w L] by simp
  moreover have "cleaned (w\<lparr>file_head := []\<rparr>) (?v\<lparr>file_head := []\<rparr>)"
    by (rule cleanedI [where ci = ci and co = co and cb = cb and ft = "fds w" and et = "epoll_set w" and
        al = "peer_always_trigger_head w" and n = "tick w"]) simp
  ultimately show "\<exists>w'. file_del E K (fl_addr fl) w = Some w' \<and> closable L w' \<and>
      (distinct (map fl_addr fls) \<and> file_head w' = fls) \<and> cleaned (w\<lparr>file_head := []\<rparr>) (w'\<lparr>file_head := []\<rparr>) \<and> shut [] w w'"
    using l by (intro exI [of _ ?v]) (simp add: shut_def)
qed simp

text \<open>A child that runs is waited for, and its log is closed; otherwise its log is closed already.\<close>

definition exec_endable :: "exec \<Rightarrow> bool" where
  "exec_endable ex \<longleftrightarrow> peer_fd (ex_peer ex) = -1 \<and> (\<not> 0 < ex_child ex \<longrightarrow> peer_fd (ex_log_peer ex) = -1)"

interpretation execs: closing "\<lambda>ex. exec_del E K (ex_at ex)" "exec_del_all E K" ex_peers
  "\<lambda>exs (w :: 'a log_state_scheme). exec_kernel_ok K \<and> distinct (map ex_at exs) \<and> exec_head w = exs \<and> (\<forall>ex \<in> set exs. exec_endable ex)"
  "\<lambda>w. w\<lparr>exec_head := []\<rparr>"
  for E :: "'j env" and K :: "'k exec_kernel_scheme"
proof
  fix w :: "'a log_state_scheme" and ex exs L
  show "exec_del_all E K [] w = Some w"
    "exec_del_all E K (ex # exs) w = Option.bind (exec_del E K (ex_at ex) w) (exec_del_all E K exs)"
    by simp_all
  assume l: "exec_kernel_ok K \<and> distinct (map ex_at (ex # exs)) \<and> exec_head w = ex # exs \<and> (\<forall>q \<in> set (ex # exs). exec_endable q)"
    and c: "closable (ex_peers ex @ L) w"
  have e: "peer_fd (ex_peer ex) = -1" "\<not> 0 < ex_child ex \<Longrightarrow> peer_fd (ex_log_peer ex) = -1" using l by (simp_all add: exec_endable_def)
  obtain ci co cb where f: "flow_ref_dec (the_flow E K (ex_flow ex)) w =
      w\<lparr>peer_count_in := ci, peer_count_out := co, peer_count_out_in := cb\<rparr>" (is "_ = ?w")
    using flow_given_back [of E K "ex_flow ex" w] by blast
  obtain n where n: "n = (if 0 < ex_child ex then tick w + 1 else tick w)" by blast
  let ?u = "?w\<lparr>tick := n\<rparr>"
  have cu: "closable ((Peer_transport (ex_log_at ex), ex_log_peer ex) # L) ?u"
    using c closable_cong [of ?u w "(Peer_transport (ex_log_at ex), ex_log_peer ex) # L"] by (simp add: ex_peers_def)
  from closable_close [OF cu] obtain p ft et al where
    p: "peer_close (Peer_transport (ex_log_at ex)) (ex_log_peer ex) ?u = Some (p, ?u\<lparr>fds := ft, epoll_set := et, peer_always_trigger_head := al\<rparr>)"
      "closable L (?u\<lparr>fds := ft, epoll_set := et, peer_always_trigger_head := al\<rparr>)"
      "shut [(Peer_transport (ex_log_at ex), ex_log_peer ex)] ?u (?u\<lparr>fds := ft, epoll_set := et, peer_always_trigger_head := al\<rparr>)" by blast
  let ?v = "?u\<lparr>fds := ft, epoll_set := et, peer_always_trigger_head := al, exec_head := exs\<rparr>"
  have fi: "exec_find (ex_at ex) w' = Some ex" if "exec_head w' = exec_head w" for w' :: "'a log_state_scheme"
    using l that by (simp add: exec_find_def)
  have others: "filter (\<lambda>q. ex_at q \<noteq> ex_at ex) (struct_upd ex_at q (exec_head w)) = exs" if "ex_at q = ex_at ex" for q
  proof -
    have "ex_at r \<noteq> ex_at ex" if "r \<in> set exs" for r using l that by (metis distinct.simps(2) imageI list.set_map list.simps(9))
    then have "struct_upd ex_at q (exec_head w) = q # exs" using l that by (simp add: struct_upd_def map_idI)
    then show ?thesis using filter_neq_head [of ex_at q exs] l that by simp
  qed
  have "exec_del E K (ex_at ex) w = Some ?v"
  proof (cases "0 < ex_child ex")
    case True
    obtain status where k: "k_wait_for K (tick w) (ex_child ex) = (ex_child ex, status)" "WIFEXITED status \<or> WIFSIGNALED status"
      using l unfolding exec_kernel_ok_def by (metis prod.exhaust)
    let ?x = "exec_store (ex\<lparr>ex_child := -1, ex_peer := ex_peer ex, ex_log_peer := p\<rparr>)
      (?u\<lparr>fds := ft, epoll_set := et, peer_always_trigger_head := al\<rparr>)"
    have "exec_child_cleanup (ex_at ex) status ?u = Some ?x"
      using fi [of ?u] p(1) e(1) k(2)
      by (simp add: exec_child_cleanup_def peer_close_def [of "Peer_transport (ex_at ex)"] c_assert_def)
    then have "exec_del E K (ex_at ex) w = Some (?x\<lparr>exec_head := filter (\<lambda>q. ex_at q \<noteq> ex_at ex) (exec_head ?x)\<rparr>)"
      using fi [of w] True k(1) n by (simp add: exec_del_def f)
    moreover have "exec_head ?x = struct_upd ex_at (ex\<lparr>ex_child := -1, ex_peer := ex_peer ex, ex_log_peer := p\<rparr>) (exec_head w)"
      by (simp add: exec_store_def)
    then have "filter (\<lambda>q. ex_at q \<noteq> ex_at ex) (exec_head ?x) = exs" using others by simp
    ultimately show ?thesis by (simp add: exec_store_def)
  next
    case False
    have "?u\<lparr>fds := ft, epoll_set := et, peer_always_trigger_head := al\<rparr> = ?u" using p(1) e(2) False by (simp add: peer_close_def)
    moreover have "?u = ?w" using n False by simp
    moreover have "exec_del E K (ex_at ex) w = Some (?w\<lparr>exec_head := exs\<rparr>)"
      using fi [of w] False l filter_neq_head [of ex_at ex exs] by (simp add: exec_del_def f)
    ultimately show ?thesis by metis
  qed
  moreover have "closable L ?v" using p(2) closable_cong [of ?v "?u\<lparr>fds := ft, epoll_set := et, peer_always_trigger_head := al\<rparr>" L] by simp
  moreover have "cleaned (w\<lparr>exec_head := []\<rparr>) (?v\<lparr>exec_head := []\<rparr>)"
    by (rule cleanedI [where ci = ci and co = co and cb = cb and ft = ft and et = et and al = al and n = n]) simp
  ultimately show "\<exists>w'. exec_del E K (ex_at ex) w = Some w' \<and> closable L w' \<and>
      (exec_kernel_ok K \<and> distinct (map ex_at exs) \<and> exec_head w' = exs \<and> (\<forall>ex \<in> set exs. exec_endable ex)) \<and>
      cleaned (w\<lparr>exec_head := []\<rparr>) (w'\<lparr>exec_head := []\<rparr>) \<and> shut (ex_peers ex) w w'"
    using l p(3) by (intro exI [of _ ?v]) (simp add: ex_peers_def shut_def)
qed simp

section \<open>What is left when the loop ends\<close>

text \<open>The peers of the transports and of the log, with the address of their structure.\<close>

definition own_peers :: "(nat \<times> peer) option \<Rightarrow> (peer_ref \<times> peer) list" where
  "own_peers x = (case x of None \<Rightarrow> [] | Some (a, p) \<Rightarrow> [(Peer_transport a, p)])"

lemma own_peers_set [simp]: "(ptr, p) \<in> set (own_peers x) \<longleftrightarrow> (\<exists>a. x = Some (a, p) \<and> ptr = Peer_transport a)"
  by (auto simp: own_peers_def split: option.splits)

definition transport_peers :: "'a log_state_scheme \<Rightarrow> (peer_ref \<times> peer) list" where
  "transport_peers w = concat (map ic_peers (incoming_head w)) @ concat (map ou_peers (outgoing_head w)) @
     concat (map ex_peers (exec_head w)) @ own_peers (exec_sig w)"

definition peers_left :: "'a log_state_scheme \<Rightarrow> (peer_ref \<times> peer) list" where
  "peers_left w = concat (map rx_peers (receive_head w)) @ concat (map snd_peers (all_sends w)) @ transport_peers w @
     concat (map wk_peers (wakeup_head w)) @ own_peers (log_rotate_peer w)"

text \<open>A transport that listens no longer keeps no descriptor; see the property on failing to bind for one that does.\<close>

definition incoming_fresh :: "'a incoming_state_scheme \<Rightarrow> bool" where
  "incoming_fresh w \<longleftrightarrow> (\<forall>ic \<in> set (incoming_head w). ic_handler ic = Incoming_resolve_wrapper \<longrightarrow> peer_fd (ic_peer ic) = -1)"

text \<open>The entry of a transport: its kind, address and peer.\<close>

fun struct_peer :: "struct_kind \<Rightarrow> nat \<Rightarrow> peer \<Rightarrow> 'a log_state_scheme \<Rightarrow> bool" where
  "struct_peer Struct_incoming t p w \<longleftrightarrow> (\<exists>ic \<in> set (incoming_head w). t = ic_at ic \<and> p = ic_peer ic)"
| "struct_peer Struct_outgoing t p w \<longleftrightarrow> (\<exists>ou \<in> set (outgoing_head w). t = ou_at ou \<and> p = ou_peer ou)"
| "struct_peer Struct_exec_log t p w \<longleftrightarrow> (\<exists>ex \<in> set (exec_head w). t = ex_log_at ex \<and> p = ex_log_peer ex)"
| "struct_peer Struct_exec_sig t p w \<longleftrightarrow> exec_sig w = Some (t, p)"
| "struct_peer Struct_log t p w \<longleftrightarrow> log_rotate_peer w = Some (t, p)"
| "struct_peer k t p w \<longleftrightarrow> False"

lemma struct_peer_address: "struct_peer k t p w \<Longrightarrow> t \<in> struct_addresses k w"
  by (cases k) auto

lemma struct_peer_fds: "k \<notin> {Struct_file, Struct_exec} \<Longrightarrow> g \<in> struct_fds k t w \<Longrightarrow> \<exists>p. struct_peer k t p w \<and> peer_fd p = g"
  by (cases k) (auto 0 4)

lemma peers_in:
  "(ptr, p) \<in> set (concat (map rx_peers rs)) \<longleftrightarrow> (\<exists>r \<in> set rs. ptr = Peer_receive (rx_addr r) \<and> p = rx_peer r)"
  "(ptr, p) \<in> set (concat (map snd_peers ss)) \<longleftrightarrow> (\<exists>s \<in> set ss. ptr = Peer_send (snd_addr s) \<and> p = snd_peer s)"
  "(ptr, p) \<in> set (concat (map wk_peers vs)) \<longleftrightarrow> (\<exists>v \<in> set vs. ptr = Peer_wakeup (wk_addr v) \<and> p = wk_peer v)"
  "(ptr, p) \<in> set (concat (map ic_peers ics)) \<longleftrightarrow> (\<exists>ic \<in> set ics. ptr = Peer_transport (ic_at ic) \<and> p = ic_peer ic)"
  "(ptr, p) \<in> set (concat (map ou_peers ous)) \<longleftrightarrow> (\<exists>ou \<in> set ous. ptr = Peer_transport (ou_at ou) \<and> p = ou_peer ou)"
  "(ptr, p) \<in> set (concat (map ex_peers exs)) \<longleftrightarrow> (\<exists>ex \<in> set exs. ptr = Peer_transport (ex_log_at ex) \<and> p = ex_log_peer ex)"
  by (auto simp: rx_peers_def snd_peers_def wk_peers_def ic_peers_def ou_peers_def ex_peers_def)

lemma peers_left_transport:
  "(\<exists>k t. ptr = Peer_transport t \<and> struct_peer k t p w) \<longleftrightarrow> (ptr, p) \<in> set (transport_peers w) \<or> (ptr, p) \<in> set (own_peers (log_rotate_peer w))"
  (is "?l \<longleftrightarrow> ?r")
proof
  assume ?l
  then obtain k t where k: "ptr = Peer_transport t" "struct_peer k t p w" by blast
  then show ?r unfolding transport_peers_def set_append Un_iff peers_in own_peers_set by (cases k) auto
next
  assume ?r
  then consider "\<exists>ic \<in> set (incoming_head w). ptr = Peer_transport (ic_at ic) \<and> p = ic_peer ic"
    | "\<exists>ou \<in> set (outgoing_head w). ptr = Peer_transport (ou_at ou) \<and> p = ou_peer ou"
    | "\<exists>ex \<in> set (exec_head w). ptr = Peer_transport (ex_log_at ex) \<and> p = ex_log_peer ex"
    | "\<exists>t. exec_sig w = Some (t, p) \<and> ptr = Peer_transport t" | "\<exists>t. log_rotate_peer w = Some (t, p) \<and> ptr = Peer_transport t"
    unfolding transport_peers_def set_append Un_iff peers_in own_peers_set by blast
  then show ?l by cases (metis struct_peer.simps)+
qed

lemma peers_left_set:
  "(ptr, p) \<in> set (peers_left w) \<longleftrightarrow>
     (\<exists>r \<in> set (receive_head w). ptr = Peer_receive (rx_addr r) \<and> p = rx_peer r) \<or>
     (\<exists>s \<in> set (all_sends w). ptr = Peer_send (snd_addr s) \<and> p = snd_peer s) \<or>
     (\<exists>v \<in> set (wakeup_head w). ptr = Peer_wakeup (wk_addr v) \<and> p = wk_peer v) \<or>
     (\<exists>k t. ptr = Peer_transport t \<and> struct_peer k t p w)"
  unfolding peers_left_transport peers_left_def set_append Un_iff peers_in(1-3) by blast

lemma peers_left_cases [consumes 1, case_names receive send wakeup transport]:
  assumes "(ptr, p) \<in> set (peers_left w)"
  obtains r where "r \<in> set (receive_head w)" "ptr = Peer_receive (rx_addr r)" "p = rx_peer r"
    | s where "s \<in> set (all_sends w)" "ptr = Peer_send (snd_addr s)" "p = snd_peer s"
    | v where "v \<in> set (wakeup_head w)" "ptr = Peer_wakeup (wk_addr v)" "p = wk_peer v"
    | k t where "ptr = Peer_transport t" "struct_peer k t p w"
  using assms unfolding peers_left_set by blast

lemma struct_peer_registered:
  fixes w :: "'a log_state_scheme"
  assumes inv: "program_inv K w" and fresh: "incoming_fresh w" and p: "struct_peer k t p w"
  shows "peer_fd p = -1 \<or> registered_at t p w"
proof -
  have ai: "adsbus_inv K w" and li: "log_inv K w" using inv by (simp_all add: program_inv_def)
  have ou: "\<forall>q \<in> set (outgoing_head w). outgoing_ok q w" and ic: "\<forall>q \<in> set (incoming_head w). incoming_ok q w"
    and ex: "\<forall>q \<in> set (exec_head w). exec_ok q w" and sg: "\<forall>s q. exec_sig w = Some (s, q) \<longrightarrow> registered_at s q w"
    using ai by (auto simp: adsbus_inv_def structs_inv_def exec_inv_def)
  show ?thesis
  proof (cases k)
    case Struct_outgoing
    then obtain q where q: "q \<in> set (outgoing_head w)" "t = ou_at q" "p = ou_peer q" using p by auto
    have "outgoing_ok q w" using ou q(1) by blast
    then show ?thesis unfolding q(2,3) outgoing_ok_def by (cases "ou_handler q") (auto split: outgoing_handler.splits)
  next
    case Struct_incoming
    then obtain q where q: "q \<in> set (incoming_head w)" "t = ic_at q" "p = ic_peer q" using p by auto
    have "incoming_ok q w" using ic q(1) by blast
    then show ?thesis using fresh q(1) unfolding q(2,3) incoming_ok_def incoming_fresh_def by (cases "ic_handler q") simp_all
  next
    case Struct_exec_log
    then show ?thesis using p ex by (auto simp: exec_ok_def exec_log_ok_def)
  next
    case Struct_exec_sig
    then show ?thesis using p sg by simp
  next
    case Struct_log
    then show ?thesis using p li by (auto simp: log_inv_def)
  qed (use p in simp_all)
qed

lemma registered_transport:
  assumes "peer_state_ok w" and "registered_at t p w" and "Peer_transport t \<notin> set (peer_always_trigger_head w)"
  shows "peer_registered (Peer_transport t) p w"
proof -
  have e: "epoll_set w (peer_fd p) = Some (Peer_transport t)" "0 \<le> peer_fd p" "\<not> peer_always_trigger p"
    using assms(2) by (simp_all add: registered_at_def)
  then obtain i where "fds w (peer_fd p) = Some i" "fd_pollable i" using assms(1) unfolding peer_state_ok_def by blast
  then show ?thesis using e assms(3) by (auto simp: peer_registered_def)
qed

text \<open>Two peers that are registered have different descriptors, but for those that are always triggered.\<close>

lemma registered_same_fd:
  assumes "peer_registered ptr p w" and "peer_registered ptr' p' w" and "peer_fd p = peer_fd p'"
    and "epoll_set w (peer_fd p) \<noteq> None \<or> epoll_set w (peer_fd p') \<noteq> None"
  shows "ptr = ptr'"
  using assms by (auto simp: peer_registered_def split: if_splits)

lemma distinct_peers_left:
  fixes w :: "'a log_state_scheme"
  assumes inv: "loop_inv K w"
  shows "distinct (map fst (peers_left w))"
proof -
  have pi: "program_inv K w" using inv by (simp add: loop_inv_def)
  then have ai: "adsbus_inv K w" by (simp add: program_inv_def)
  obtain pend where ci: "conn_inv pend None w" using inv by (auto simp: loop_inv_def)
  have c: "distinct (map rx_addr (receive_head w))" "distinct (map snd_addr (all_sends w))" "distinct (map wk_addr (wakeup_head w))"
    using ci by (simp_all add: conn_inv_def wakeup_ok_def receive_ok_def send_ok_def)
  have t: "distinct (map ic_at (incoming_head w))" "distinct (map ou_at (outgoing_head w))" "distinct (map ex_log_at (exec_head w))"
    using ai by (simp_all add: adsbus_inv_def structs_inv_def exec_inv_def exec_apart_def)
  have ap: "struct_addresses k w \<inter> struct_addresses k' w = {}" if "k \<noteq> k'" for k k'
    using structs_apart [OF pi] that by blast
  have m: "map fst (concat (map rx_peers xs)) = map Peer_receive (map rx_addr xs)"
    "map fst (concat (map snd_peers ys)) = map Peer_send (map snd_addr ys)"
    "map fst (concat (map wk_peers zs)) = map Peer_wakeup (map wk_addr zs)"
    "map fst (concat (map ic_peers is)) = map Peer_transport (map ic_at is)"
    "map fst (concat (map ou_peers os)) = map Peer_transport (map ou_at os)"
    "map fst (concat (map ex_peers es)) = map Peer_transport (map ex_log_at es)"
    "map fst (own_peers x) = map Peer_transport (case x of None \<Rightarrow> [] | Some (a, p) \<Rightarrow> [a])" for xs ys zs "is" os es x
    by (induction xs, simp_all add: rx_peers_def)
      (induction ys, simp_all add: snd_peers_def, induction zs, simp_all add: wk_peers_def, induction "is", simp_all add: ic_peers_def,
       induction os, simp_all add: ou_peers_def, induction es, simp_all add: ex_peers_def, auto simp: own_peers_def split: option.splits)
  have o: "set (case x of None \<Rightarrow> [] | Some (a, p) \<Rightarrow> [a]) = fst ` set_option x" "distinct (case x of None \<Rightarrow> [] | Some (a, p) \<Rightarrow> [a])"
    for x :: "(nat \<times> peer) option" by (auto split: option.splits)
  define ts where "ts = map ic_at (incoming_head w) @ map ou_at (outgoing_head w) @ map ex_log_at (exec_head w) @
      (case exec_sig w of None \<Rightarrow> [] | Some (a, p) \<Rightarrow> [a])"
  define ls where "ls = (case log_rotate_peer w of None \<Rightarrow> [] | Some (a, p) \<Rightarrow> [a])"
  have five: "distinct (b @ c @ d @ e @ f)" if "distinct b" "distinct c" "distinct d" "distinct e" "distinct f"
      "set b \<inter> set c = {}" "set b \<inter> set d = {}" "set b \<inter> set e = {}" "set b \<inter> set f = {}" "set c \<inter> set d = {}"
      "set c \<inter> set e = {}" "set c \<inter> set f = {}" "set d \<inter> set e = {}" "set d \<inter> set f = {}" "set e \<inter> set f = {}"
    for b c d e f :: "nat list" using that by auto
  have sets: "set (map ic_at (incoming_head w)) = struct_addresses Struct_incoming w"
    "set (map ou_at (outgoing_head w)) = struct_addresses Struct_outgoing w"
    "set (map ex_log_at (exec_head w)) = struct_addresses Struct_exec_log w"
    "set (case exec_sig w of None \<Rightarrow> [] | Some (a, p) \<Rightarrow> [a]) = struct_addresses Struct_exec_sig w"
    "set (case log_rotate_peer w of None \<Rightarrow> [] | Some (a, p) \<Rightarrow> [a]) = struct_addresses Struct_log w"
    by (simp_all add: o(1))
  have "distinct (ts @ ls)"
    unfolding ts_def ls_def append_assoc by (rule five [OF t o(2) o(2)]; unfold sets; rule ap; simp)
  moreover have "distinct (map Peer_receive xs @ map Peer_send ys @ map Peer_transport ts @ map Peer_wakeup zs @ map Peer_transport ls)"
    if "distinct xs" "distinct ys" "distinct zs" "distinct (ts @ ls)" for xs ys zs
    using that by (auto simp: distinct_map inj_on_def)
  moreover have "map fst (peers_left w) = map Peer_receive (map rx_addr (receive_head w)) @ map Peer_send (map snd_addr (all_sends w)) @
      map Peer_transport ts @ map Peer_wakeup (map wk_addr (wakeup_head w)) @ map Peer_transport ls"
    by (simp only: peers_left_def transport_peers_def map_append m ts_def ls_def append_assoc)
  ultimately show ?thesis using c by metis
qed

lemma loop_closable:
  fixes w :: "'a log_state_scheme" and K :: "'k log_kernel_scheme"
  assumes inv: "loop_inv K w" and fresh: "incoming_fresh w"
  shows "closable (peers_left w) w"
proof -
  have pi: "program_inv K w" and so: "shutdown_ok w" and ro: "regs_ok program_live program_ready None w"
    using inv by (simp_all add: loop_inv_def)
  obtain pend where ci: "conn_inv pend None w" using inv by (auto simp: loop_inv_def)
  have wo: "wakeup_ok w" and ri: "reg_inv w" using ci by (simp_all add: conn_inv_def)
  then have rx: "receive_ok w" and so': "send_ok w" by (simp_all add: wakeup_ok_def receive_ok_def)
  then have ok: "peer_state_ok w" by (simp add: send_ok_def)
  have noT: "Peer_transport t \<notin> set (peer_always_trigger_head w)" for t using ro by (simp add: regs_ok_def)
  have wk: "peer_registered (Peer_wakeup (wk_addr v)) (wk_peer v) w" "epoll_set w (peer_fd (wk_peer v)) \<noteq> None"
    if "v \<in> set (wakeup_head w)" for v
  proof -
    have e: "epoll_set w (peer_fd (wk_peer v)) = Some (Peer_wakeup (wk_addr v))" "peer_fd (wk_peer v) \<noteq> -1"
      "\<not> peer_always_trigger (wk_peer v)" "Peer_wakeup (wk_addr v) \<notin> set (peer_always_trigger_head w)"
      using wo that by (simp_all add: wakeup_ok_def wk_fd_def)
    then obtain i where "fds w (peer_fd (wk_peer v)) = Some i" "fd_pollable i" using ok unfolding peer_state_ok_def by blast
    then show "peer_registered (Peer_wakeup (wk_addr v)) (wk_peer v) w" "epoll_set w (peer_fd (wk_peer v)) \<noteq> None"
      using e by (simp_all add: peer_registered_def)
  qed
  have tp: "peer_registered (Peer_transport t) p w" "epoll_set w (peer_fd p) \<noteq> None" if "struct_peer k t p w" "peer_fd p \<noteq> -1" for k t p
    using struct_peer_registered [OF pi fresh that(1)] that(2) registered_transport [OF ok _ noT] by (auto simp: registered_at_def)
  have reg: "peer_registered ptr p w" if "(ptr, p) \<in> set (peers_left w)" "peer_fd p \<noteq> -1" for ptr p
    using that(1)
  proof (cases rule: peers_left_cases)
    case receive
    then show ?thesis using rx by (simp add: receive_ok_def)
  next
    case send
    then show ?thesis using so' by (simp add: send_ok_def)
  next
    case wakeup
    then show ?thesis using wk(1) by simp
  next
    case transport
    then show ?thesis using tp(1) that(2) by blast
  qed
  show ?thesis
  proof (rule closableI [OF ok distinct_peers_left [OF inv] reg])
    show "(Peer_shutdown, p) \<notin> set (peers_left w)" for p by (auto elim: peers_left_cases)
    show "ptr = ptr'" if "(ptr, p) \<in> set (peers_left w)" "(ptr', p') \<in> set (peers_left w)" "peer_fd p = peer_fd p'" "peer_fd p \<noteq> -1"
      for ptr p ptr' p'
    proof (cases "epoll_set w (peer_fd p)")
      case (Some q)
      have "peer_fd p' \<noteq> -1" using that(3,4) by simp
      then show ?thesis using registered_same_fd [OF reg [OF that(1,4)] reg [OF that(2)] that(3)] Some by simp
    next
      case None
      then have n: "epoll_set w (peer_fd p') = None" "peer_fd p' \<noteq> -1" using that(3,4) by simp_all
      have conn: "(\<exists>r \<in> set (receive_head w). q = Peer_receive (rx_addr r) \<and> u = rx_peer r) \<or>
          (\<exists>s \<in> set (all_sends w). q = Peer_send (snd_addr s) \<and> u = snd_peer s)"
        if "(q, u) \<in> set (peers_left w)" "epoll_set w (peer_fd u) = None" "peer_fd u \<noteq> -1" for q u
        using that wk(2) tp(2) unfolding peers_left_set by blast
      have dr: "r = r'" if "r \<in> set (receive_head w)" "r' \<in> set (receive_head w)" "peer_fd (rx_peer r) = peer_fd (rx_peer r')" for r r'
        using rx that by (auto simp: receive_ok_def rx_fd_def distinct_map inj_on_def)
      have ds: "s = s'" if "s \<in> set (all_sends w)" "s' \<in> set (all_sends w)" "peer_fd (snd_peer s) = peer_fd (snd_peer s')" for s s'
        using so' that by (auto simp: send_ok_def snd_fd_def distinct_map inj_on_def)
      have rs: "peer_fd (rx_peer r) \<noteq> peer_fd (snd_peer s)" if "r \<in> set (receive_head w)" "s \<in> set (all_sends w)" for r s
        using rx that by (auto simp: receive_ok_def rx_fd_def snd_fd_def)
      show ?thesis using conn [OF that(1) None that(4)] conn [OF that(2) n] that(3) dr ds rs by metis
    qed
    show "\<exists>p. (ptr, p) \<in> set (peers_left w) \<and> peer_fd p = g \<and> g \<noteq> -1" if e: "epoll_set w g = Some ptr" "ptr \<noteq> Peer_shutdown" for g ptr
    proof -
      have g: "g \<in> peer_fds w ptr" using ri e(1) by (simp add: reg_inv_def)
      have "\<exists>p. (ptr, p) \<in> set (peers_left w) \<and> peer_fd p = g"
      proof (cases ptr)
        case (Peer_transport t)
        then have "t \<in> program_ready w" using ro e(1) by (auto simp: regs_ok_def)
        from ready_typed [OF pi this] e(1) Peer_transport obtain k where
          k: "k \<notin> {Struct_file, Struct_exec}" "struct_fds k t w = {g}" by blast
        then show ?thesis using struct_peer_fds [OF k(1), of g t w] Peer_transport unfolding peers_left_set by blast
      qed (use g e(2) in \<open>auto simp: peer_fds_def peers_left_set rx_fd_def snd_fd_def wk_fd_def\<close>)
      moreover have "g \<noteq> -1" if "(ptr, p) \<in> set (peers_left w)" "peer_fd p = g" for p
      proof
        assume "g = -1"
        have n: "\<not> peer_registered ptr p w" using that \<open>g = -1\<close> by (simp add: peer_registered_def)
        have "\<exists>t. ptr = Peer_transport t"
          using that(1) by (cases rule: peers_left_cases) (use n wk(1) rx so' in \<open>auto simp: receive_ok_def send_ok_def\<close>)
        then obtain t where t: "ptr = Peer_transport t" by blast
        then have "t \<in> program_ready w" using ro e(1) by (auto simp: regs_ok_def)
        from ready_typed [OF pi this] e(1) t have "0 \<le> g" by blast
        then show False using \<open>g = -1\<close> by simp
      qed
      ultimately show ?thesis by blast
    qed
    show "\<exists>p. (ptr, p) \<in> set (peers_left w) \<and> peer_fd p \<noteq> -1" if a: "ptr \<in> set (peer_always_trigger_head w)" for ptr
    proof -
      have ne: "peer_fds w ptr \<noteq> {}" using ri a by (simp add: reg_inv_def)
      have "\<exists>x. ptr = Peer_receive x"
      proof (cases ptr)
        case Peer_shutdown
        then show ?thesis using a so by (simp add: shutdown_ok_def)
      next
        case Peer_send
        then show ?thesis using a so' by (simp add: send_ok_def)
      next
        case Peer_send_receive
        then show ?thesis using ne by (simp add: peer_fds_def)
      next
        case Peer_wakeup
        then show ?thesis using a wo by (simp add: wakeup_ok_def)
      next
        case Peer_transport
        then show ?thesis using a noT by simp
      qed simp
      then obtain x where x: "ptr = Peer_receive x" by blast
      then obtain r where r: "r \<in> set (receive_head w)" "rx_addr r = x" using rx a by (auto simp: receive_ok_def)
      then have "peer_registered (Peer_receive x) (rx_peer r) w" using rx by (auto simp: receive_ok_def)
      then have "peer_fd (rx_peer r) \<noteq> -1" by (simp add: peer_registered_def)
      then show ?thesis using r x unfolding peers_left_set by blast
    qed
  qed
qed

section \<open>The whole cleanup\<close>

text \<open>
  What the cleanup needs besides the invariant of the loop: no incoming transport has kept the number of a closed socket, the
  signal of the children is set up, and the descriptor the requests to the resolver are written to is still its own.
\<close>

definition cleanup_ready :: "'a log_state_scheme \<Rightarrow> bool" where
  "cleanup_ready w \<longleftrightarrow> incoming_fresh w \<and> exec_sig w \<noteq> None \<and> fds w (async_write_fd w) \<noteq> None \<and>
     epoll_set w (async_write_fd w) = None \<and> (\<forall>(ptr, p) \<in> set (peers_left w). peer_fd p \<noteq> -1 \<longrightarrow> peer_fd p \<noteq> async_write_fd w)"

lemma closable_other:
  assumes c: "closable L w" and free: "epoll_set w fd = None"
    and other: "\<And>ptr p. (ptr, p) \<in> set L \<Longrightarrow> peer_fd p \<noteq> -1 \<Longrightarrow> peer_fd p \<noteq> fd"
    and w': "fds w' = (fds w)(fd := None)" "epoll_set w' = epoll_set w" "peer_always_trigger_head w' = peer_always_trigger_head w"
  shows "closable L w'"
proof (rule closableI)
  note d = closableD [OF c]
  show "peer_state_ok w'" using d(1) free by (auto simp: peer_state_ok_def w')
  show "peer_registered ptr p w'" if "(ptr, p) \<in> set L" "peer_fd p \<noteq> -1" for ptr p
  proof -
    have "peer_registered ptr p w' = peer_registered ptr p w" using other [OF that] by (simp add: peer_registered_def w')
    then show ?thesis using d(3) [OF that] by simp
  qed
  show "distinct (map fst L)" by (rule d(2))
  show "\<And>ptr p ptr' p'. (ptr, p) \<in> set L \<Longrightarrow> (ptr', p') \<in> set L \<Longrightarrow> peer_fd p = peer_fd p' \<Longrightarrow> peer_fd p \<noteq> -1 \<Longrightarrow> ptr = ptr'"
    by (rule d(4))
  show "\<And>g ptr. epoll_set w' g = Some ptr \<Longrightarrow> ptr \<noteq> Peer_shutdown \<Longrightarrow> \<exists>p. (ptr, p) \<in> set L \<and> peer_fd p = g \<and> g \<noteq> -1"
    unfolding w' by (rule d(5))
  show "\<And>ptr. ptr \<in> set (peer_always_trigger_head w') \<Longrightarrow> \<exists>p. (ptr, p) \<in> set L \<and> peer_fd p \<noteq> -1" unfolding w' by (rule d(6))
  show "\<And>p. (Peer_shutdown, p) \<notin> set L" by (rule d(7))
qed

lemma resolve_cleanup_spec:
  fixes w :: "'a log_state_scheme" and K :: "'k log_kernel_scheme"
  assumes inv: "loop_inv K w" and ready: "cleanup_ready w"
  shows "\<exists>v. resolve_cleanup w = Some v \<and> closable (peers_left w) v \<and>
    v = w\<lparr>fds := (fds w)(async_write_fd w := None), async_write_fd := -1, async_threads := None\<rparr>"
proof -
  let ?fd = "async_write_fd w"
  let ?v = "w\<lparr>fds := (fds w)(?fd := None), async_write_fd := -1, async_threads := None\<rparr>"
  have "net_up K w" using inv by (simp add: loop_inv_def program_inv_def adsbus_inv_def structs_inv_def)
  then have th: "async_threads w \<noteq> None" by (simp add: net_up_def)
  have r: "fds w ?fd \<noteq> None" "epoll_set w ?fd = None"
    "\<And>ptr p. (ptr, p) \<in> set (peers_left w) \<Longrightarrow> peer_fd p \<noteq> -1 \<Longrightarrow> peer_fd p \<noteq> ?fd" and fr: "incoming_fresh w"
    using ready by (auto simp: cleanup_ready_def)
  have "closable (peers_left w) ?v" by (rule closable_other [OF loop_closable [OF inv fr] r(2,3)]) simp_all
  moreover have "(epoll_set w)(?fd := None) = epoll_set w" using r(2) by (simp add: fun_upd_idem)
  then have "resolve_cleanup w = Some ?v"
    using th r(1) by (auto simp: resolve_cleanup_def asyncaddrinfo_cleanup_def close_fd_def c_assert_def)
  ultimately show ?thesis by blast
qed

lemma cleaned_same:
  assumes "cleaned w w'"
  shows "peer_shutdown_flag w' = peer_shutdown_flag w" "receive_head w' = receive_head w" "send_heads w' = send_heads w"
    "send_receive_head w' = send_receive_head w" "incoming_head w' = incoming_head w" "outgoing_head w' = outgoing_head w"
    "exec_head w' = exec_head w" "file_head w' = file_head w" "wakeup_head w' = wakeup_head w" "exec_sig w' = exec_sig w"
    "log_rotate_peer w' = log_rotate_peer w" "log_id w' = log_id w" "std_files w' = std_files w" "async_threads w' = async_threads w"
    "all_sends w' = all_sends w" "addrs_lost w' = addrs_lost w" "async_requests w' = async_requests w"
  by (rule cleaned_field [OF assms]; simp add: forget_def all_sends_def)+

text \<open>The lists of connections, then those of transports and timers, are emptied.\<close>

definition lists_empty :: "'a log_state_scheme \<Rightarrow> bool" where
  "lists_empty w \<longleftrightarrow> receive_head w = [] \<and> all_sends w = [] \<and> send_receive_head w = [] \<and> incoming_head w = [] \<and>
     outgoing_head w = [] \<and> exec_head w = [] \<and> file_head w = [] \<and> wakeup_head w = []"

lemma no_peers: "concat (map (\<lambda>_. []) xs) = []"
  by (induction xs) simp_all

lemma connections_cleanup_spec:
  fixes w :: "'a log_state_scheme"
  assumes c: "closable (peers_left w) w" and run: "peer_shutdown_flag w" and ci: "conn_inv pend None u"
    and u: "receive_head u = receive_head w" "send_heads u = send_heads w" "send_receive_head u = send_receive_head w"
  shows "\<exists>w'. do { w \<leftarrow> receive_cleanup call w; w \<leftarrow> send_cleanup call w; send_receive_cleanup call w } = Some w' \<and>
    closable (transport_peers w @ concat (map wk_peers (wakeup_head w)) @ own_peers (log_rotate_peer w)) w' \<and>
    receive_head w' = [] \<and> all_sends w' = [] \<and> send_receive_head w' = [] \<and>
    cleaned (w\<lparr>receive_head := [], send_heads := map (\<lambda>_. []) (send_heads w), send_receive_head := []\<rparr>) w' \<and>
    shut (concat (map rx_peers (receive_head w)) @ concat (map snd_peers (all_sends w))) w w'"
proof -
  let ?L = "transport_peers w @ concat (map wk_peers (wakeup_head w)) @ own_peers (log_rotate_peer w)"
  have as: "all_sends u = all_sends w" by (simp add: all_sends_def u(2))
  have d: "distinct (map rx_addr (receive_head w))" "distinct (map snd_addr (all_sends w))" "distinct (map sr_addr (send_receive_head w))"
    using ci by (simp_all add: conn_inv_def wakeup_ok_def receive_ok_def send_ok_def u as)
  have "closable (concat (map rx_peers (receive_head w)) @ concat (map snd_peers (all_sends w)) @ ?L) w"
    using c by (simp only: peers_left_def)
  from receives.all_closed [OF _ this, of call] run d(1) obtain w1 where
    1: "receive_cleanup call w = Some w1" "closable (concat (map snd_peers (all_sends w)) @ ?L) w1" "receive_head w1 = []"
      "peer_shutdown_flag w1" "cleaned (w\<lparr>receive_head := []\<rparr>) w1" "shut (concat (map rx_peers (receive_head w))) w w1"
    by (auto simp: receive_cleanup_def)
  note s1 = cleaned_same [OF 1(5)]
  have a1: "all_sends w1 = all_sends w" using s1(3) by (simp add: all_sends_def)
  from sends.all_closed [OF _ 1(2), of call] 1(4) d(2) a1 obtain w2 where
    2: "send_cleanup call w1 = Some w2" "closable ?L w2" "all_sends w2 = []" "peer_shutdown_flag w2"
      "cleaned (w1\<lparr>send_heads := map (\<lambda>_. []) (send_heads w1)\<rparr>) w2" "shut (concat (map snd_peers (all_sends w))) w1 w2"
    by (auto simp: send_cleanup_def all_sends_def)
  note s2 = cleaned_same [OF 2(5)]
  have h2: "send_receive_head w2 = send_receive_head w" using s1(4) s2(4) by simp
  have "closable (concat (map (\<lambda>_. []) (send_receive_head w2)) @ ?L) w2" using 2(2) by (simp only: no_peers append_Nil)
  from send_receives.all_closed [OF _ this, of call] 2(4) d(3) h2 obtain w3 where
    3: "send_receive_cleanup call w2 = Some w3" "closable ?L w3" "send_receive_head w3 = []" "cleaned (w2\<lparr>send_receive_head := []\<rparr>) w3"
      "shut [] w2 w3"
    by (auto simp: send_receive_cleanup_def no_peers)
  note sh = shut_trans [OF 1(6) shut_trans [OF 2(6) 3(5)]]
  note s3 = cleaned_same [OF 3(4)]
  have "cleaned (w\<lparr>receive_head := [], send_heads := hs, send_receive_head := rs\<rparr>) (w1\<lparr>send_heads := hs, send_receive_head := rs\<rparr>)" for hs rs
    by (rule cleaned_with [OF 1(5), where g = "\<lambda>w. w\<lparr>send_heads := hs, send_receive_head := rs\<rparr>", simplified]) (simp add: forget_def)
  moreover have "cleaned (w1\<lparr>send_heads := map (\<lambda>_. []) (send_heads w), send_receive_head := rs\<rparr>) (w2\<lparr>send_receive_head := rs\<rparr>)" for rs
    using cleaned_with [OF 2(5), where g = "\<lambda>w. w\<lparr>send_receive_head := rs\<rparr>"] s1(3) by (simp add: forget_def)
  ultimately have cl: "cleaned (w\<lparr>receive_head := [], send_heads := map (\<lambda>_. []) (send_heads w), send_receive_head := []\<rparr>) w3"
    using cleaned_trans [OF _ cleaned_trans [OF _ 3(4)]] by blast
  have "receive_head w3 = []" "all_sends w3 = []"
    using s3(2,3) s2(2) 1(3) 2(3) by (simp_all add: all_sends_def)
  then show ?thesis using 1(1) 2(1) 3(1-3) cl sh by (intro exI [of _ w3]) simp
qed

lemma transports_cleanup_spec:
  fixes w :: "'a log_state_scheme" and K :: "'k log_kernel_scheme"
  assumes c: "closable (transport_peers w @ L) w" and ai: "adsbus_inv K u" and sig: "exec_sig w \<noteq> None"
    and u: "incoming_head u = incoming_head w" "outgoing_head u = outgoing_head w" "exec_head u = exec_head w" "file_head u = file_head w"
  shows "\<exists>w'. do { w \<leftarrow> incoming_cleanup E K w; w \<leftarrow> outgoing_cleanup E K w; w \<leftarrow> exec_cleanup E K w; file_cleanup E K w } = Some w' \<and>
    closable L w' \<and> incoming_head w' = [] \<and> outgoing_head w' = [] \<and> exec_head w' = [] \<and> file_head w' = [] \<and>
    (\<exists>x. cleaned (w\<lparr>incoming_head := [], outgoing_head := [], exec_head := [], file_head := [], exec_sig := x,
       addrs_lost := addrs_lost w @ addrs_held (outgoing_head w)\<rparr>) w') \<and> shut (transport_peers w) w w'"
proof -
  have d: "distinct (map ic_at (incoming_head w))" "distinct (map ou_at (outgoing_head w))" "distinct (map ex_at (exec_head w))"
      "distinct (map fl_addr (file_head w))" and K: "exec_kernel_ok K" and ok: "\<forall>ex \<in> set (exec_head w). exec_ok ex u"
    using ai by (simp_all add: adsbus_inv_def structs_inv_def exec_inv_def exec_apart_def file_inv_def u)
  have en: "\<forall>ex \<in> set (exec_head w). exec_endable ex" using ok by (auto simp: exec_ok_def exec_endable_def)
  have "closable (concat (map ic_peers (incoming_head w)) @ concat (map ou_peers (outgoing_head w)) @
      concat (map ex_peers (exec_head w)) @ own_peers (exec_sig w) @ L) w"
    using c by (simp only: transport_peers_def append_assoc)
  from incomings.all_closed [OF _ this, of E K] d(1) obtain w1 where
    1: "incoming_cleanup E K w = Some w1" "closable (concat (map ou_peers (outgoing_head w)) @ concat (map ex_peers (exec_head w)) @
      own_peers (exec_sig w) @ L) w1" "incoming_head w1 = []" "cleaned (w\<lparr>incoming_head := []\<rparr>) w1"
      "shut (concat (map ic_peers (incoming_head w))) w w1"
    by (auto simp: incoming_cleanup_def)
  note s1 = cleaned_same [OF 1(4)]
  from outgoings.all_closed [OF _ 1(2), of E K] d(2) s1(6) obtain w2 where
    2: "outgoing_cleanup E K w1 = Some w2" "closable (concat (map ex_peers (exec_head w)) @ own_peers (exec_sig w) @ L) w2"
      "outgoing_head w2 = []" "cleaned (w1\<lparr>outgoing_head := [], addrs_lost := addrs_lost w1 @ addrs_held (outgoing_head w1)\<rparr>) w2"
      "shut (concat (map ou_peers (outgoing_head w))) w1 w2"
    by (auto simp: outgoing_cleanup_def)
  note s2 = cleaned_same [OF 2(4)]
  have h2: "exec_head w2 = exec_head w" "exec_sig w2 = exec_sig w" using s1(7,10) s2(7,10) by simp_all
  from execs.all_closed [OF _ 2(2), of K E] d(3) K en h2 obtain w3 where
    3: "exec_del_all E K (exec_head w2) w2 = Some w3" "closable (own_peers (exec_sig w) @ L) w3" "exec_head w3 = []"
      "cleaned (w2\<lparr>exec_head := []\<rparr>) w3" "shut (concat (map ex_peers (exec_head w))) w2 w3"
    by auto
  note s3 = cleaned_same [OF 3(4)]
  obtain s p where sp: "exec_sig w = Some (s, p)" using sig by auto
  have "closable ((Peer_transport s, p) # L) w3" using 3(2) by (simp add: own_peers_def sp)
  from closable_close [OF this] obtain p' ft et al where
    p: "peer_close (Peer_transport s) p w3 = Some (p', w3\<lparr>fds := ft, epoll_set := et, peer_always_trigger_head := al\<rparr>)"
      "closable L (w3\<lparr>fds := ft, epoll_set := et, peer_always_trigger_head := al\<rparr>)"
      "shut [(Peer_transport s, p)] w3 (w3\<lparr>fds := ft, epoll_set := et, peer_always_trigger_head := al\<rparr>)" by blast
  let ?w4 = "w3\<lparr>fds := ft, epoll_set := et, peer_always_trigger_head := al, exec_sig := Some (s, p')\<rparr>"
  have 4: "exec_cleanup E K w2 = Some ?w4" using 3(1) s3(10) h2(2) p(1) by (simp add: exec_cleanup_def sp)
  have "closable L ?w4" using p(2) closable_cong [of ?w4 "w3\<lparr>fds := ft, epoll_set := et, peer_always_trigger_head := al\<rparr>" L] by simp
  then have c4: "closable (concat (map (\<lambda>_. []) (file_head ?w4)) @ L) ?w4" by (simp only: no_peers append_Nil)
  have h4: "file_head ?w4 = file_head w" using s1(8) s2(8) s3(8) by simp
  from files.all_closed [OF _ c4, of E K] d(4) h4 obtain w5 where
    5: "file_cleanup E K ?w4 = Some w5" "closable L w5" "file_head w5 = []" "cleaned (?w4\<lparr>file_head := []\<rparr>) w5"
      "shut [] ?w4 w5"
    by (auto simp: file_cleanup_def no_peers)
  note s5 = cleaned_same [OF 5(4)]
  have "shut (own_peers (exec_sig w)) w3 ?w4" using p(3) by (simp add: own_peers_def sp shut_def)
  note sh = shut_trans [OF 1(5) shut_trans [OF 2(5) shut_trans [OF 3(5) shut_trans [OF this 5(5)]]]]
  let ?held = "addrs_lost w @ addrs_held (outgoing_head w)"
  let ?all = "\<lambda>ics ous exs fls x w. w\<lparr>incoming_head := ics, outgoing_head := ous, exec_head := exs, file_head := fls, exec_sig := x,
    addrs_lost := ?held\<rparr>"
  have h: "cleaned (?all [] [] [] [] x w) (?all [] [] [] [] x w1)" "cleaned (?all [] [] [] [] x w1) (?all [] [] [] [] x w2)"
    "cleaned (?all [] [] [] [] x w2) (?all [] [] [] [] x w3)" for x
    using cleaned_with [OF 1(4), where g = "?all [] [] [] [] x"] cleaned_with [OF 2(4), where g = "?all [] [] [] [] x"]
      cleaned_with [OF 3(4), where g = "?all [] [] [] [] x"] by (simp_all add: forget_def)
  have "cleaned (?all [] [] [] [] (Some (s, p')) w3) w5"
  proof -
    have "incoming_head w3 = []" "outgoing_head w3 = []" using 1(3) s2(5) s3(5) 2(3) s3(6) by simp_all
    moreover have "addrs_lost w3 = ?held" using s1(6,16) s2(16) s3(16) by simp
    ultimately have "?all [] [] [] [] (Some (s, p')) w3 = w3\<lparr>file_head := [], exec_sig := Some (s, p')\<rparr>" using 3(3) by (cases w3) simp
    moreover have "cleaned (w3\<lparr>file_head := [], exec_sig := Some (s, p')\<rparr>) (?w4\<lparr>file_head := []\<rparr>)"
      by (rule cleanedI [where ci = "peer_count_in w3" and co = "peer_count_out w3" and cb = "peer_count_out_in w3" and ft = ft and
          et = et and al = al and n = "tick w3"]) simp
    ultimately show ?thesis using cleaned_trans [OF _ 5(4)] by simp
  qed
  then have cl: "cleaned (?all [] [] [] [] (Some (s, p')) w) w5"
    by (rule cleaned_trans [OF h(1) cleaned_trans [OF h(2) cleaned_trans [OF h(3)]]])
  have "incoming_head w5 = []" "outgoing_head w5 = []" "exec_head w5 = []"
    using s5(5-7) s3(5,6) s2(5) 1(3) 2(3) 3(3) by simp_all
  moreover have "do { w \<leftarrow> incoming_cleanup E K w; w \<leftarrow> outgoing_cleanup E K w; w \<leftarrow> exec_cleanup E K w; file_cleanup E K w } = Some w5"
    by (simp add: 1(1) 2(1) 4 5(1))
  moreover have "shut (transport_peers w) w w5" using sh by (simp add: transport_peers_def)
  ultimately show ?thesis using 5(2,3) cl by blast
qed

lemma log_cleanup_peer_spec:
  fixes w :: "'a log_state_scheme"
  assumes "closable (own_peers (log_rotate_peer w)) w"
  shows "\<exists>w'. log_cleanup_peer w = Some w' \<and> closable [] w' \<and> log_rotate_peer w' = None \<and> cleaned (w\<lparr>log_rotate_peer := None\<rparr>) w' \<and>
    shut (own_peers (log_rotate_peer w)) w w'"
proof (cases "log_rotate_peer w")
  case None
  then have "w\<lparr>log_rotate_peer := None\<rparr> = w" by (cases w) simp
  then have "cleaned (w\<lparr>log_rotate_peer := None\<rparr>) w" using cleaned_refl [of w] by metis
  moreover have "closable [] w" using assms by (simp add: own_peers_def None)
  ultimately show ?thesis using None by (simp add: log_cleanup_peer_def own_peers_def)
next
  case (Some x)
  obtain a p where x: "x = (a, p)" by fastforce
  have "closable ((Peer_transport a, p) # []) w" using assms by (simp add: own_peers_def Some x)
  from closable_close [OF this] obtain p' ft et al where
    p: "peer_close (Peer_transport a) p w = Some (p', w\<lparr>fds := ft, epoll_set := et, peer_always_trigger_head := al\<rparr>)"
      "closable [] (w\<lparr>fds := ft, epoll_set := et, peer_always_trigger_head := al\<rparr>)"
      "shut [(Peer_transport a, p)] w (w\<lparr>fds := ft, epoll_set := et, peer_always_trigger_head := al\<rparr>)" by blast
  let ?v = "w\<lparr>fds := ft, epoll_set := et, peer_always_trigger_head := al, log_rotate_peer := None\<rparr>"
  have "closable [] ?v" using p(2) closable_cong [of ?v "w\<lparr>fds := ft, epoll_set := et, peer_always_trigger_head := al\<rparr>" "[]"] by simp
  moreover have "cleaned (w\<lparr>log_rotate_peer := None\<rparr>) ?v"
    by (rule cleanedI [where ci = "peer_count_in w" and co = "peer_count_out w" and cb = "peer_count_out_in w" and ft = ft and
        et = et and al = al and n = "tick w"]) simp
  moreover have "shut (own_peers (log_rotate_peer w)) w ?v" using p(3) by (simp add: own_peers_def Some x shut_def)
  ultimately show ?thesis using p(1) by (simp add: log_cleanup_peer_def Some x)
qed

text \<open>The log writes its last line and closes the standard error; the two other standard descriptors are closed after it.\<close>

lemma streams_closed:
  fixes w :: "'a log_state_scheme" and K :: "'k log_kernel_scheme"
  assumes K: "log_kernel_ok K" and std: "std_open w" and uid: "is_c_str (log_id w)"
  shows "\<exists>w' n rs id ls sf. do { w \<leftarrow> log_cleanup K w; stdinout_cleanup w } = Some w' \<and>
    w' = w\<lparr>tick := n, rnd := rs, log_id := id, log_lines := ls, std_files := sf, log_path := None\<rparr> \<and>
    (\<forall>fd \<in> {STDIN_FILENO, STDOUT_FILENO, STDERR_FILENO}. sf fd = None)"
proof -
  from log_write_spec [OF K uid, of "c_str ''Log end''" "CHR ''L''" "''log.c:120''" w] obtain v where
    v: "log_write K (CHR ''L'') ''log.c:120'' (log_id w) (c_str ''Log end'') w = Some v" "log_step w v" "std_files v = std_files w"
    by (auto simp: c_str_def)
  then obtain n rs sf id ls where e: "v = w\<lparr>tick := n, rnd := rs, std_files := sf, log_id := id, log_lines := ls\<rparr>"
    unfolding log_step_def by blast
  have o: "std_files w STDIN_FILENO \<noteq> None" "std_files w STDOUT_FILENO \<noteq> None" "std_files w STDERR_FILENO \<noteq> None"
    using std by (simp_all add: std_open_def)
  let ?sf = "(std_files w)(STDERR_FILENO := None, STDIN_FILENO := None, STDOUT_FILENO := None)"
  let ?w' = "w\<lparr>tick := n, rnd := rs, log_id := id, log_lines := ls, std_files := ?sf, log_path := None\<rparr>"
  have "sf = std_files w" using v(3) by (simp add: e)
  then have "do { w \<leftarrow> log_cleanup K w; stdinout_cleanup w } = Some ?w'"
    using o by (auto simp: log_cleanup_def stdinout_cleanup_def v(1) e sys_close_def std_numbers)
  moreover have "\<forall>fd \<in> {STDIN_FILENO, STDOUT_FILENO, STDERR_FILENO}. ?sf fd = None" by simp
  ultimately show ?thesis by blast
qed

section \<open>Properties\<close>

text \<open>
  C3. What \<^verbatim>\<open>main\<close> releases when it ends, and what it leaks. It needs a kernel that cooperates, a log that can
  be written, and \<open>cleanup_ready\<close>: that no incoming transport has kept the number of a socket it could not bind (which
  stops it, see the property on that), the signal of the children is set up, and the
  descriptor for requests to the resolver is open and nobody else's. Then the cleanup
  returns, whatever connections, transports, timers and children are left: no structure is removed or descriptor closed
  twice, no handler is called any more, every list is empty, every peer that
  was left and had a descriptor has it closed and nothing is registered but the
  static peer of the signal, the standard streams are closed and no value of the two libraries is allocated. What is not
  released is exactly the lists of addresses of connections that were being made, whose last pointers go with their
  structures, and the requests to the resolver whose answer was not yet fetched.
\<close>

theorem main_cleans_up:
  fixes w :: "'a log_state_scheme" and K :: "'k log_kernel_scheme"
  assumes KK: "kernel_cooperates K" and L: "log_opens K w" and S: "loop_state w"
    and "peer_shutdown_flag w" and "cleanup_ready w" and "memory_ok m"
  shows "\<exists>w' m'. adsbus_cleanup E K w m = Some (w', m') \<and> live_values m' = Map.empty \<and> lists_empty w' \<and>
    log_rotate_peer w' = None \<and> async_threads w' = None \<and>
    (\<forall>g ptr. epoll_set w' g = Some ptr \<longrightarrow> ptr = Peer_shutdown) \<and> peer_always_trigger_head w' = [] \<and>
    (\<forall>fd \<in> {STDIN_FILENO, STDOUT_FILENO, STDERR_FILENO}. std_files w' fd = None) \<and>
    fds w' \<subseteq>\<^sub>m fds w \<and> fds w' (async_write_fd w) = None \<and>
    (\<forall>(ptr, p) \<in> set (peers_left w). peer_fd p \<noteq> -1 \<longrightarrow> fds w' (peer_fd p) = None) \<and>
    addrs_lost w' = addrs_lost w @ addrs_held (outgoing_head w) \<and> async_requests w' = async_requests w"
proof -
  note assms = loop_inv_apart [OF KK L S] assms(4-)
  let ?call = "close_call (program_event E K)"
  have ai: "adsbus_inv K w" and li: "log_inv K w" using assms(1) by (simp_all add: loop_inv_def program_inv_def)
  obtain pend where ci: "conn_inv pend None w" using assms(1) by (auto simp: loop_inv_def)
  from resolve_cleanup_spec [OF assms(1,3)] obtain v where
    v: "resolve_cleanup w = Some v" "closable (peers_left w) v"
      "v = w\<lparr>fds := (fds w)(async_write_fd w := None), async_write_fd := -1, async_threads := None\<rparr>" by blast
  have pl: "peers_left w = peers_left v" by (simp add: v(3) peers_left_def transport_peers_def all_sends_def)
  have "peer_shutdown_flag v" using assms(2) by (simp add: v(3))
  from connections_cleanup_spec [OF v(2) [unfolded pl] this ci, of ?call] obtain w1 where
    w1: "do { w \<leftarrow> receive_cleanup ?call v; w \<leftarrow> send_cleanup ?call w; send_receive_cleanup ?call w } = Some w1"
      "closable (transport_peers v @ concat (map wk_peers (wakeup_head v)) @ own_peers (log_rotate_peer v)) w1"
      "receive_head w1 = []" "all_sends w1 = []" "send_receive_head w1 = []"
      "cleaned (v\<lparr>receive_head := [], send_heads := map (\<lambda>_. []) (send_heads v), send_receive_head := []\<rparr>) w1"
      "shut (concat (map rx_peers (receive_head v)) @ concat (map snd_peers (all_sends v))) v w1"
    by (auto simp: v(3))
  note s1 = cleaned_same [OF w1(6)]
  have h1: "transport_peers w1 = transport_peers v" using s1(5-7,10) by (simp add: transport_peers_def)
  have "exec_sig w1 \<noteq> None" using s1(10) assms(3) by (simp add: v(3) cleanup_ready_def)
  from transports_cleanup_spec [OF w1(2) [folded h1] ai this, of E] obtain w2 x where
    w2: "do { w \<leftarrow> incoming_cleanup E K w1; w \<leftarrow> outgoing_cleanup E K w; w \<leftarrow> exec_cleanup E K w; file_cleanup E K w } = Some w2"
      "closable (concat (map wk_peers (wakeup_head v)) @ own_peers (log_rotate_peer v)) w2"
      "incoming_head w2 = []" "outgoing_head w2 = []" "exec_head w2 = []" "file_head w2 = []"
      "cleaned (w1\<lparr>incoming_head := [], outgoing_head := [], exec_head := [], file_head := [], exec_sig := x,
        addrs_lost := addrs_lost w1 @ addrs_held (outgoing_head w1)\<rparr>) w2"
      "shut (transport_peers v) w1 w2"
    using s1(5-8) unfolding h1 by (auto simp: v(3))
  note s2 = cleaned_same [OF w2(7)]
  have h2: "wakeup_head w2 = wakeup_head v" using s1(9) s2(9) by simp
  have dw: "distinct (map wk_addr (wakeup_head v))" using ci by (simp add: v(3) conn_inv_def wakeup_ok_def)
  from wakeups.all_closed [OF _ w2(2)] dw h2 obtain w3 where
    w3: "wakeup_cleanup w2 = Some w3" "closable (own_peers (log_rotate_peer v)) w3" "wakeup_head w3 = []" "cleaned (w2\<lparr>wakeup_head := []\<rparr>) w3"
      "shut (concat (map wk_peers (wakeup_head v))) w2 w3"
    by (auto simp: wakeup_cleanup_def)
  note s3 = cleaned_same [OF w3(4)]
  have lr: "log_rotate_peer w3 = log_rotate_peer v" using s1(11) s2(11) s3(11) by simp
  from log_cleanup_peer_spec [of w3, unfolded lr, OF w3(2)] obtain w4 where
    w4: "log_cleanup_peer w3 = Some w4" "closable [] w4" "log_rotate_peer w4 = None" "cleaned (w3\<lparr>log_rotate_peer := None\<rparr>) w4"
      "shut (own_peers (log_rotate_peer v)) w3 w4" by blast
  note s4 = cleaned_same [OF w4(4)]
  have sh: "shut (peers_left w) v w4"
    using shut_trans [OF w1(7) shut_trans [OF w2(8) shut_trans [OF w3(5) w4(5)]]] unfolding pl by (simp add: peers_left_def)
  moreover have "fds w4 (async_write_fd w) = None"
  proof (rule ccontr)
    assume n: "fds w4 (async_write_fd w) \<noteq> None"
    then have "fds w4 (async_write_fd w) = fds v (async_write_fd w)" using sh unfolding shut_def map_le_def by blast
    then show False using n by (simp add: v(3))
  qed
  moreover have "fds v \<subseteq>\<^sub>m fds w" by (simp add: v(3) map_le_def)
  ultimately have f4: "fds w4 \<subseteq>\<^sub>m fds w" "fds w4 (async_write_fd w) = None"
    "\<forall>(ptr, p) \<in> set (peers_left w). peer_fd p \<noteq> -1 \<longrightarrow> fds w4 (peer_fd p) = None"
    using map_le_trans [of "fds w4" "fds v" "fds w"] by (simp_all add: shut_def)
  have a4: "addrs_lost w4 = addrs_lost w @ addrs_held (outgoing_head w)" "async_requests w4 = async_requests w"
    using s1(6,16,17) s2(16,17) s3(16,17) s4(16,17) by (simp_all add: v(3))
  have l4: "log_id w4 = log_id w" "std_files w4 = std_files w" "async_threads w4 = None"
    using s1(12-14) s2(12-14) s3(12-14) s4(12-14) by (simp_all add: v(3))
  have "std_open w4" "is_c_str (log_id w4)" "log_kernel_ok K" using li l4(1,2) by (simp_all add: log_inv_def std_open_def)
  from streams_closed [OF this(3,1,2)] obtain w' n rs id ls sf where
    w': "do { w \<leftarrow> log_cleanup K w4; stdinout_cleanup w } = Some w'"
      "w' = w4\<lparr>tick := n, rnd := rs, log_id := id, log_lines := ls, std_files := sf, log_path := None\<rparr>"
      "\<forall>fd \<in> {STDIN_FILENO, STDOUT_FILENO, STDERR_FILENO}. sf fd = None" by blast
  obtain m1 m' where m: "json_cleanup m = Some m1" "proto_cleanup m1 = Some m'" "live_values m' = Map.empty"
    using values_released [OF assms(4)] by (auto simp: bind_Some_iff)
  have "adsbus_cleanup E K w m = Some (w', m')"
    using v(1) w1(1) w2(1) m(1,2) w3(1) w4(1) w'(1) by (auto simp: adsbus_cleanup_def Let_def bind_Some_iff)
  moreover have "all_sends w4 = []" "receive_head w4 = []" "send_receive_head w4 = []"
    using w1(3-5) s2(2,4,15) s3(2,4,15) s4(2,4,15) by (simp_all add: all_sends_def)
  then have "lists_empty w4"
    using w2(3-6) w3(3) s3(5-8) s4(5-9) by (simp add: lists_empty_def)
  then have "lists_empty w'" by (simp add: w'(2) lists_empty_def all_sends_def)
  moreover have "epoll_set w' g = Some ptr \<Longrightarrow> ptr = Peer_shutdown" for g ptr
    using closableD(5) [OF w4(2), of g ptr] by (auto simp: w'(2))
  moreover have "x \<notin> set (peer_always_trigger_head w4)" for x using closableD(6) [OF w4(2), of x] by auto
  then have "peer_always_trigger_head w' = []" by (simp add: w'(2)) (metis last_in_set)
  moreover have "fds w' = fds w4" "addrs_lost w' = addrs_lost w4" "async_requests w' = async_requests w4" by (simp_all add: w'(2))
  ultimately show ?thesis using m(3) w4(3) l4(3) w'(3) f4 a4 by (intro exI [of _ w'] exI [of _ m']) (simp add: w'(2))
qed

text \<open>The sample of the event loop after the signal, with the descriptor for the resolver open.\<close>

definition sample_ended :: log_state where
  "sample_ended = shutdown_done (sample_program\<lparr>fds := (fds sample_program)(13 \<mapsto> sample_sock_info)\<rparr>)"

lemma sample_ended_inv: "loop_inv sample_log_kernel sample_ended" "peer_shutdown_flag sample_ended"
proof -
  let ?w = "sample_program\<lparr>fds := (fds sample_program)(13 \<mapsto> sample_sock_info)\<rparr>"
  have n: "fds sample_program 13 = None" by (simp add: sample_program_eq sample_file_fds_def)
  note o = conn_inv_opened [OF kind_sysD(1) [OF sample_program_sys] _ n, of sample_sock_info]
  have c: "conn_inv (\<lambda>_. 0) None ?w" "owners None ?w = owners None sample_program" using o by simp_all
  have fr: "t_frame sample_program ?w" by (simp add: t_frame_def)
  have "shutdown_ok ?w" using sample_shutdown_ok by (simp add: shutdown_ok_def)
  then have li: "loop_inv sample_log_kernel ?w"
    using programs.step_same [OF sample_program_sys c(1) fr c(2)] by (intro loop_invI) simp_all
  have "\<not> peer_shutdown_flag ?w" by (simp add: sample_program_simps)
  from program_t.loop_ok_shutdown(2,3) [OF _ this] li
  show "loop_inv sample_log_kernel sample_ended" "peer_shutdown_flag sample_ended"
    unfolding loop_inv_transports sample_ended_def by blast+
qed

lemma sample_ended_left:
  "cleanup_ready sample_ended"
  "map (\<lambda>(ptr, p). peer_fd p) (peers_left sample_ended) = [peer_fd (rx_peer sample_receive), 5, 6, 9, 8, 10, 11, 12]"
proof -
  have h: "incoming_head sample_ended = [sample_incoming]" "outgoing_head sample_ended = [sample_outgoing]"
    "exec_head sample_ended = [sample_exec]" "exec_sig sample_ended = Some (8, sample_peer 11)"
    "log_rotate_peer sample_ended = Some (9, sample_peer 12)" "wakeup_head sample_ended = []"
    "receive_head sample_ended = [sample_receive\<lparr>rx_on_close := Some (Peer_transport 3)\<rparr>]"
    "all_sends sample_ended = [sample_send 0 5 2, sample_send 1 6 3]" "async_write_fd sample_ended = 13"
    "fds sample_ended 13 \<noteq> None" "epoll_set sample_ended 13 = None"
    by (simp_all add: sample_ended_def shutdown_done_def Let_def sample_program_eq sample_files_def sample_more_def all_sends_def)
  note pl = peers_left_def transport_peers_def own_peers_def rx_peers_def snd_peers_def wk_peers_def ic_peers_def ou_peers_def
    ex_peers_def
  show "cleanup_ready sample_ended"
    using h by (simp add: cleanup_ready_def incoming_fresh_def pl)
      (simp add: sample_incoming_def sample_outgoing_def sample_exec_def sample_peer_def sample_receive_def sample_send_def)
  show "map (\<lambda>(ptr, p). peer_fd p) (peers_left sample_ended) = [peer_fd (rx_peer sample_receive), 5, 6, 9, 8, 10, 11, 12]"
    using h by (simp add: pl) (simp add: sample_incoming_def sample_outgoing_def sample_exec_def sample_peer_def sample_send_def)
qed

text \<open>A connection is being made, so its list of addresses is lost.\<close>

theorem main_cleans_up_witness:
  "\<exists>w' m'. adsbus_cleanup sample_env sample_log_kernel sample_ended sample_memory = Some (w', m') \<and> live_values m' = Map.empty \<and>
    lists_empty w' \<and> peer_always_trigger_head w' = [] \<and> map (fds w') [5, 6, 8, 9, 10, 11, 12, 13] = replicate 8 None \<and>
    addrs_lost w' = [[sample_addrinfo]]"
proof -
  have e: "outgoing_head sample_ended = [sample_outgoing]" "addrs_lost sample_ended = []" "async_write_fd sample_ended = 13"
    by (simp_all add: sample_ended_def shutdown_done_def Let_def sample_program_eq sample_files_def sample_more_def)
  have h: "addrs_held [sample_outgoing] = [[sample_addrinfo]]" by (simp add: addrs_held_def sample_outgoing_def)
  have "kernel_cooperates sample_log_kernel" "log_opens sample_log_kernel sample_ended" "loop_state sample_ended"
    using sample_ended_inv(1) by (simp_all add: loop_inv_parts)
  from main_cleans_up [OF this sample_ended_inv(2) sample_ended_left(1) sample_memory_ok, of sample_env] obtain w' m' where
    w': "adsbus_cleanup sample_env sample_log_kernel sample_ended sample_memory = Some (w', m')" "live_values m' = Map.empty"
      "lists_empty w'" "peer_always_trigger_head w' = []" "fds w' 13 = None" "addrs_lost w' = [[sample_addrinfo]]"
      "\<forall>(ptr, p) \<in> set (peers_left sample_ended). peer_fd p \<noteq> -1 \<longrightarrow> fds w' (peer_fd p) = None"
    by (auto simp: e h)
  have "fds w' g = None" if "g \<in> set (map (\<lambda>(ptr, p). peer_fd p) (peers_left sample_ended))" "g \<noteq> -1" for g
    using w'(7) that by auto
  then have "fds w' 5 = None" "fds w' 6 = None" "fds w' 8 = None" "fds w' 9 = None" "fds w' 10 = None" "fds w' 11 = None"
    "fds w' 12 = None" unfolding sample_ended_left(2) by simp_all
  then show ?thesis using w'(1-6) by (intro exI [of _ w'] exI [of _ m']) (simp add: numeral_eq_Suc)
qed

end
