(* ===== verification/Spec2Isabelle.thy ===== *)
theory Spec2Isabelle
  imports Linked_List Start Cleanup
begin

text \<open>
  \<^bold>\<open>Verification of adsbus\<close>

  \<^verbatim>\<open>adsbus\<close> is a hub for the messages of aircraft transponders. It takes packets from any number of inputs in five formats it
  detects by itself, and hands each packet to every output in the format the output asked for. This library models the
  program under \<^verbatim>\<open>src/adsbus\<close> and proves what makes it correct, from \<^verbatim>\<open>main\<close> down to the single formats.

  \<^bold>\<open>How the program works.\<close> It is one thread around \<^verbatim>\<open>epoll\<close> (\<^verbatim>\<open>peer.c\<close>). A structure that waits for a descriptor holds a
  \<^verbatim>\<open>struct peer\<close>, whose address is registered with the descriptor and whose handler is called when the descriptor is ready.
  Transports (\<^verbatim>\<open>file.c\<close>, \<^verbatim>\<open>outgoing.c\<close>, \<^verbatim>\<open>incoming.c\<close>, \<^verbatim>\<open>exec.c\<close>, \<^verbatim>\<open>stdinout.c\<close>) open descriptors and hand them over to a flow
  (\<^verbatim>\<open>flow.c\<close>), which is an input (\<^verbatim>\<open>receive.c\<close>), an output (\<^verbatim>\<open>send.c\<close>) or both (\<^verbatim>\<open>send_receive.c\<close>). When such a connection ends, the
  transport that opened it is called back, and may ask for a timer (\<^verbatim>\<open>wakeup.c\<close>) to try again. An input drains its buffer
  (\<^verbatim>\<open>buf.c\<close>) with a parser and calls \<^verbatim>\<open>send_write\<close>, which goes through the formats and the outputs of each.

  \<^bold>\<open>How it is modelled.\<close> A structure is a record with the names of the source, at an address that is never reused, so that a
  pointer to a freed structure leads nowhere; a list of structures is a HOL list, which \<open>Linked_List\<close> justifies for the
  pointer operations of \<^verbatim>\<open>list.c\<close>. The static variables of all components make up one state, a record that each
  component extends with its own (\<open>peer_state\<close> up to \<open>server_state\<close>). An operation takes the state and returns
  \<open>Some\<close> of the new one; \<open>None\<close> is where the program stops: a failing \<^verbatim>\<open>assert\<close>, an access out of bounds, a use of freed memory
  or other undefined behaviour. That an operation returns is therefore always part of what is proved. An option may also
  end the program in order (\<open>Exits\<close>, with success for \<^verbatim>\<open>--help\<close> and in the parent of \<^verbatim>\<open>--detach\<close>, with an error if it
  is refused). The indirect call \<^verbatim>\<open>peer->event_handler(peer)\<close> in \<^verbatim>\<open>peer_call\<close> is a dispatch on the handler a
  structure holds, one definition for each kind of transport (\<open>file_event\<close>, \<open>outgoing_event\<close>, \<open>incoming_event\<close>, \<open>exec_event\<close>,
  \<open>log_event\<close>). The heap holds no sizes or contents of lists of addresses, but \<open>addrs_lost\<close> collects those whose last pointer
  goes while they are allocated; the two addresses of an accepted connection are 16 bytes of the stack each
  (\<open>sockaddr_in\<close>, \<open>sockaddr_out\<close>). Integers have the
  width of the source (\<open>u8\<close>, \<open>u16\<close>, \<open>u32\<close>, \<open>u64\<close>), sizes are natural numbers where the code cannot wrap.

  \<^bold>\<open>Theories, from the bottom up.\<close>
  \<^item> \<open>Prelude\<close>: the integer types, checked access to arrays, \<^verbatim>\<open>assert\<close>, C strings and the lemmas all others share.
  \<^item> \<open>Buf\<close> (\<^verbatim>\<open>buf.c\<close>, \<^verbatim>\<open>buf.h\<close>): the window buffer of 256 bytes; it is a queue of bytes (locale \<open>byte_queue\<close>).
  \<^item> \<open>Hex\<close> (\<^verbatim>\<open>hex.c\<close>), \<open>Packet\<close> (\<^verbatim>\<open>packet.c\<close>), \<open>Rand\<close> (\<^verbatim>\<open>rand.c\<close>, \<^verbatim>\<open>uuid.c\<close>): digits, the packet with its scaling of counters and levels and
    its sanity check, random bytes and identifiers.
  \<^item> \<open>Format\<close>: the contracts of parsers and serializers (locales \<open>parser_contract\<close>, \<open>chained_parser\<close>, \<open>serializer_contract\<close>).
    \<open>Raw\<close>, \<open>Airspy\<close>, \<open>Beast\<close>, \<open>Proto\<close>, \<open>Json\<close>, \<open>Stats\<close>: the formats, one theory for each C file. Each interprets the contracts and
    shows that what is printed is parsed back.
  \<^item> \<open>Peer\<close> (\<^verbatim>\<open>peer.c\<close>): the table of descriptors, the registrations, the list of peers that are always called, the loop.
  \<^item> \<open>Send\<close>, \<open>Receive\<close>: outputs and inputs. \<open>Lifetimes\<close>: the values that the JSON and the protobuf library allocate, and the pointer
    into them that a packet carries (\<^verbatim>\<open>json_prev\<close>, \<^verbatim>\<open>proto_prev\<close>).
  \<^item> \<open>Wakeup\<close>, \<open>Socket\<close>, \<open>Flow\<close>, \<open>Send_Receive\<close>: timers, socket options, the interface of flows (locale \<open>flow_contract\<close>), duplex connections.
  \<^item> \<open>Owners\<close>: the contract of transports (locale \<open>transports\<close>) and, inside it, that the handlers of connections and timers are
    safe. \<open>Kinds\<close> puts kinds of transports together (locales \<open>kind\<close>, \<open>two_kinds\<close>), \<open>Structs\<close> gives the steps of a kind that keeps a
    list of structures (\<open>structs\<close>, \<open>handlers\<close>), \<open>Transport\<close> the operations the transports share.
  \<^item> \<open>Opts\<close> (\<^verbatim>\<open>opts.c\<close>): the table of options, the groups, splitting of arguments.
  \<^item> \<open>File\<close>, \<open>Resolve\<close> (\<^verbatim>\<open>resolve.c\<close>, \<^verbatim>\<open>asyncaddrinfo.c\<close>), \<open>Outgoing\<close>, \<open>Incoming\<close>, \<open>Exec\<close>: the transports, each with its state machine, its
    invariant and an interpretation of the contract. \<open>Adsbus\<close>: all of them together.
  \<^item> \<open>Log\<close>, \<open>Stdinout\<close>, \<open>Server\<close> (\<^verbatim>\<open>log.c\<close>, \<^verbatim>\<open>stdinout.c\<close>, \<^verbatim>\<open>server.c\<close>): log and rotation, the standard streams, the identity of the server.
  \<^item> \<open>Loop\<close>, \<open>Event_Loop\<close>: the loop with the handlers plugged in, first for any transports, then for those of the program.
  \<^item> \<open>Program\<close>, \<open>Start\<close>, \<open>Connections\<close>, \<open>Cleanup\<close> (\<^verbatim>\<open>adsbus.c\<close>): \<^verbatim>\<open>main\<close>, its start for any options, what the handlers do in any
    state that is reached, and its end.

  \<^bold>\<open>What is shown.\<close>
  \<^item> The life of the program: \<open>main_starts\<close> (no assertion fails before the loop), \<open>main_runs_safely\<close> (nor in it, for any
    input), \<open>main_cleans_up\<close> (nor after it; descriptors and structures are released, and what memory leaks is stated). All three need
    a kernel that cooperates, as below, and the last one \<open>cleanup_ready\<close>.
    The invariant \<open>loop_state\<close> they share says that a registered pointer leads to a live structure that owns the descriptor and is
    in a state in which it can be called; \<open>registered_peer_typed\<close> and \<open>reachable_no_dangling\<close> spell it out.
  \<^item> The path of a packet: the loop that drains a buffer ends, only sane packets within the hop limit are forwarded, each
    output gets the same bytes once and never the source of the packet, a packet never points to released memory.
  \<^item> The formats: round trips with the exact precision, no packet before a header, no access outside a buffer.
  \<^item> The transports: each handler returns, keeps the invariant and neither leaks nor reuses a descriptor or list of addresses, while the
    kernel cooperates.
  \<^item> What the code does not survive, as theorems of kind error: an IPv6 peer of a listening socket
    (\<open>incoming_accepts_short_addresses\<close>), a peer that resets the connection early (\<open>incoming_reset_stops\<close>), a socket that cannot be
    bound (\<open>incoming_bind_stale\<close>), a log that cannot be written (\<open>log_write_full\<close>); and the identifiers that repeat
    (\<open>uuid_first_repeats\<close>).

  \<^bold>\<open>Bounds and fuel.\<close> The drain loop gets as much fuel as there are bytes in the buffer, since each parser that accepts
  consumes one at least; \<open>receive_drain_safe\<close> shows that it suffices. The loop over the options gets the number of arguments,
  since \<^verbatim>\<open>getopt_long_only\<close> moves on. The list of peers that are always called is walked with its length.
  A turn handles at most \<open>MAX_EVENTS\<close> = 10 events. A retry delay is a shift of an \<^verbatim>\<open>int\<close> by the number of the attempt,
  which is undefined from 21 on: the theorems on the loop allow \<open>None\<close> only when \<open>adsbus_tries\<close>, the most attempts any
  transport has made in a row, is above ten before the turn: each of the events may add one.
  Random numbers, the clock and the addresses of new structures come from counters in the state.

  \<^bold>\<open>Parameters and hypotheses.\<close> What is not under \<^verbatim>\<open>src\<close> is an argument. The record \<open>env\<close> holds the two libraries (\<open>jansson\<close> for
  reading and printing values, \<open>unpack\<close> and \<open>pack\<close> for protobuf messages), the random device and the clock;
  \<open>env_ok\<close> says what they promise. The records \<open>kernel\<close>, \<open>file_kernel\<close>, \<open>net_kernel\<close>, \<open>exec_kernel\<close>, \<open>log_kernel\<close> and
  \<open>server_kernel\<close> give the answers of the system calls; their \<open>_ok\<close> predicates say, for instance, that a new descriptor is not
  in use. The theorems on the program write out what they need of the kernel as \<open>kernel_cooperates\<close>: new descriptors are free and not
  standard ones; the calls that the code asserts on succeed (\<^verbatim>\<open>setsockopt\<close>, \<^verbatim>\<open>shutdown\<close>, \<^verbatim>\<open>getnameinfo\<close>, \<^verbatim>\<open>listen\<close>,
  \<^verbatim>\<open>fork\<close>, \<^verbatim>\<open>waitpid\<close>, reading a signal, the clock, printing to the log); accepted connections have addresses of at most 16
  bytes. Most of these can fail on a real system and then stop the program, as the theorems of kind error show for some.
  Opening, resolving, connecting, binding and accepting may fail at any time. \<open>log_opens\<close> says that the log file can be opened again.
  The start also needs \<open>system_cooperates\<close> (detaching, the pid-file, reading the system, the devices that replace closed streams),
  \<open>args_ok\<close> (a \<^verbatim>\<open>getopt\<close> that comes to an end and gives the arguments the options need, a log
  file that can be opened), an open standard error, greetings that fit a buffer (\<open>greetings_fit\<close>), and a number in \<^verbatim>\<open>ADSBUS_MAX_HOPS\<close>
  if it is set (\<open>hops_ok\<close>).
  \<open>cleanup_ready\<close> names what the end needs beyond the invariant: no listening transport that has kept the number of a socket
  it could not bind (which does stop the program), the signal of the children set up, and the descriptor of the
  resolver still its own. All of them hold for the samples, on which every theorem with hypotheses is applied.

  \<^bold>\<open>Not modelled.\<close> The generated code of \<^verbatim>\<open>adsb.pb-c.c\<close>, which packs and unpacks messages by tables that the protobuf library
  reads. The text of the usage message. The lines that components other than the log and the server write to the log: their text has no effect on
  the state, but each is printed under the same assertions as those of \<open>log_write\<close>, so that without the condition of
  \<open>kernel_cooperates\<close> on printing every one of them is a place where the program stops. Signal masks; the buffering of standard streams. Starting and joining the threads of the resolver,
  which run apart and answer over a descriptor; the order of their answers is not fixed. \<^verbatim>\<open>rand_cleanup\<close> and \<^verbatim>\<open>peer_cleanup\<close>,
  which close a descriptor that nobody else sees. The seed that \<^verbatim>\<open>json_init\<close> gives to the library: the bytes are drawn, the seed
  has no effect on what is read or printed.
\<close>

end
